(* ===== verification/Prelude.thy ===== *)
theory Prelude
  imports Complex_Main "HOL-Library.AList" "HOL-Library.Multiset"
begin

text \<open>
  Shared vocabulary of the development: Python's exceptions as values of a result
  type, slices, stable sorting in both directions, insertion-ordered dictionaries as
  association lists, and the two interface locales (a state machine with an invariant,
  a state machine whose observations only grow) that the stateful components instantiate.
\<close>

section \<open>Exceptions as values\<close>

datatype py_error =
    AssertionError
  | ValueError
  | KeyError
  | IndexError
  | TypeError
  | RuntimeError
  | ZeroDivisionError
  | TimeoutError
  | NonRetryableError
  | MessageValidationError
  | TokenizationError
  | SessionNotFoundError
  | TruncatedGenerationError
  | DuplicateCallError
  | OwnershipError
  | NotImplementedError
  | OverflowError
  | UserInputError

type_synonym 'a res = "py_error + 'a"

definition rbind :: "'a res \<Rightarrow> ('a \<Rightarrow> 'b res) \<Rightarrow> 'b res" where
  "rbind r f = (case r of Inl e \<Rightarrow> Inl e | Inr x \<Rightarrow> f x)"

definition py_assert :: "bool \<Rightarrow> unit res" where
  "py_assert b = (if b then Inr () else Inl AssertionError)"

lemma rbind_simps [simp]:
  "rbind (Inl e) f = Inl e"
  "rbind (Inr x) f = f x"
  by (simp_all add: rbind_def)

lemma rbind_Inr_iff: "rbind r f = Inr y \<longleftrightarrow> (\<exists>x. r = Inr x \<and> f x = Inr y)"
  by (cases r) auto

lemma rbind_cong [fundef_cong]:
  "r = r' \<Longrightarrow> (\<And>x. r' = Inr x \<Longrightarrow> f x = g x) \<Longrightarrow> rbind r f = rbind r' g"
  by (cases r') auto

lemma py_assert_Inr_iff [simp]: "py_assert b = Inr u \<longleftrightarrow> b"
  by (simp add: py_assert_def)

lemma py_assert_simps [simp]:
  "py_assert True = Inr ()"
  "py_assert False = Inl AssertionError"
  by (simp_all add: py_assert_def)

text \<open>A list of results, evaluated left to right: the first error wins.\<close>

fun res_all :: "'a res list \<Rightarrow> 'a list res" where
  "res_all [] = Inr []"
| "res_all (r # rs) = rbind r (\<lambda>x. rbind (res_all rs) (\<lambda>xs. Inr (x # xs)))"

lemma res_all_map_Inr: "(\<And>x. x \<in> set xs \<Longrightarrow> f x = Inr (g x)) \<Longrightarrow> res_all (map f xs) = Inr (map g xs)"
  by (induction xs) auto

lemma res_all_Inr: "res_all rs = Inr xs \<Longrightarrow> rs = map Inr xs"
proof (induction rs arbitrary: xs)
  case (Cons r rs)
  then obtain x ys where "r = Inr x" "res_all rs = Inr ys" "xs = x # ys"
    by (cases r; cases "res_all rs") simp_all
  with Cons.IH [of ys] show ?case by simp
qed simp

section \<open>Slices and ranges\<close>

definition slice :: "nat \<Rightarrow> nat \<Rightarrow> 'a list \<Rightarrow> 'a list" where
  "slice a b xs = take (b - a) (drop a xs)"

lemma length_slice: "length (slice a b xs) = min (b - a) (length xs - a)"
  by (simp add: slice_def min.commute)

lemma slice_full [simp]: "length xs \<le> n \<Longrightarrow> slice 0 n xs = xs"
  by (simp add: slice_def)

definition list_at :: "'a list \<Rightarrow> nat \<Rightarrow> 'a res" where
  "list_at xs i = (if i < length xs then Inr (xs ! i) else Inl IndexError)"

text \<open>\<open>range(0, n, s)\<close> for a positive step.\<close>

definition range_step :: "nat \<Rightarrow> nat \<Rightarrow> nat list" where
  "range_step n s = map (\<lambda>j. j * s) [0..<(n + s - 1) div s]"

text \<open>\<open>enumerate(xs)\<close> as pairs of the position and the element.\<close>

definition enum :: "'a list \<Rightarrow> (nat \<times> 'a) list" where
  "enum xs = zip [0..<length xs] xs"

lemma length_enum [simp]: "length (enum xs) = length xs"
  by (simp add: enum_def)

lemma map_fst_enum [simp]: "map fst (enum xs) = [0..<length xs]"
  by (simp add: enum_def)

lemma in_set_enum [simp]: "p \<in> set (enum xs) \<longleftrightarrow> fst p < length xs \<and> snd p = xs ! fst p"
  by (cases p) (force simp: enum_def in_set_zip)

lemma ball_enum: "(\<forall>p\<in>set (enum xs). P p) \<longleftrightarrow> (\<forall>i<length xs. P (i, xs ! i))"
  by auto

lemma map_snd_enum [simp]: "map snd (enum xs) = xs"
  by (simp add: enum_def)

section \<open>Stable sorting by a key\<close>

text \<open>
  Python's \<open>sorted(xs, key=f)\<close> is stable, as is \<^term>\<open>sort_key\<close>.  With \<open>reverse=True\<close> the
  result is descending and equal elements still keep their order.
\<close>

definition sort_desc :: "('a \<Rightarrow> 'k::linorder) \<Rightarrow> 'a list \<Rightarrow> 'a list" where
  "sort_desc f xs = rev (sort_key f (rev xs))"

lemma mset_sort_desc [simp]: "mset (sort_desc f xs) = mset xs"
  by (simp add: sort_desc_def)

lemma set_sort_desc [simp]: "set (sort_desc f xs) = set xs"
  by (simp add: sort_desc_def)

lemma length_sort_desc [simp]: "length (sort_desc f xs) = length xs"
  by (simp add: sort_desc_def)

lemma sorted_sort_desc: "sorted (rev (map f (sort_desc f xs)))"
  by (simp add: sort_desc_def rev_map [symmetric])

section \<open>Insertion-ordered dictionaries\<close>

text \<open>
  A dictionary whose iteration order matters is an association list: \<^term>\<open>AList.update\<close>
  overwrites a present key in place and appends an absent one, as Python does, and
  \<^term>\<open>AList.delete\<close> is \<open>pop(key, None)\<close>.
\<close>

type_synonym ('k, 'v) dict = "('k \<times> 'v) list"

abbreviation dget :: "('k, 'v) dict \<Rightarrow> 'k \<Rightarrow> 'v option" where
  "dget d k \<equiv> map_of d k"

abbreviation dset :: "('k, 'v) dict \<Rightarrow> 'k \<Rightarrow> 'v \<Rightarrow> ('k, 'v) dict" where
  "dset d k v \<equiv> AList.update k v d"

abbreviation ddel :: "('k, 'v) dict \<Rightarrow> 'k \<Rightarrow> ('k, 'v) dict" where
  "ddel d k \<equiv> AList.delete k d"

abbreviation dkeys :: "('k, 'v) dict \<Rightarrow> 'k list" where
  "dkeys d \<equiv> map fst d"

definition dict_ok :: "('k, 'v) dict \<Rightarrow> bool" where
  "dict_ok d \<longleftrightarrow> distinct (dkeys d)"

lemma dict_ok_Nil [simp]: "dict_ok []"
  by (simp add: dict_ok_def)

lemma dict_ok_dset [simp]: "dict_ok d \<Longrightarrow> dict_ok (dset d k v)"
  by (simp add: dict_ok_def distinct_update)

lemma dict_ok_ddel [simp]: "dict_ok d \<Longrightarrow> dict_ok (ddel d k)"
  by (simp add: dict_ok_def distinct_delete)

lemma dict_ok_filter [simp]: "dict_ok d \<Longrightarrow> dict_ok (filter P d)"
  by (simp add: dict_ok_def distinct_map_filter)

lemma dget_dset [simp]: "dget (dset d k v) k' = (if k' = k then Some v else dget d k')"
  by (simp add: update_conv')

lemma dget_ddel [simp]: "dget (ddel d k) k' = (if k' = k then None else dget d k')"
  by (simp add: delete_conv')

lemma dget_in: "dict_ok d \<Longrightarrow> (k, v) \<in> set d \<longleftrightarrow> dget d k = Some v"
  by (simp add: dict_ok_def)

lemma dget_filter_key: "dget (filter (\<lambda>(k, _). P k) d) k = (if P k then dget d k else None)"
  by (induction d) auto

lemma dset_fresh: "k \<notin> set (dkeys d) \<Longrightarrow> dset d k v = d @ [(k, v)]"
  by (induction d) auto

lemma set_ddel: "dict_ok d \<Longrightarrow> set (ddel d k) = {p \<in> set d. fst p \<noteq> k}"
  by (auto simp: AList.delete_eq split_beta)

text \<open>A list of blocks that carry different labels.\<close>

lemma distinct_concat_blocks:
  assumes "distinct (map g xs)" "\<And>x. x \<in> set xs \<Longrightarrow> distinct (f x)" "\<And>x y. x \<in> set xs \<Longrightarrow> y \<in> set (f x) \<Longrightarrow> h y = g x"
  shows "distinct (concat (map f xs))"
  using assms
proof (induction xs)
  case (Cons x xs)
  have "set (f x) \<inter> set (f z) = {}" if z: "z \<in> set xs" for z
  proof (intro equals0I)
    fix y assume y: "y \<in> set (f x) \<inter> set (f z)"
    have "h y = g x" by (rule Cons.prems(3)) (use y in auto)
    moreover have "h y = g z" by (rule Cons.prems(3)) (use y z in auto)
    moreover have "g z \<in> g ` set xs" using z by (rule imageI)
    ultimately show False using Cons.prems(1) by simp
  qed
  moreover have "distinct (f x)" by (rule Cons.prems(2)) simp
  moreover have "distinct (concat (map f xs))"
    by (rule Cons.IH) (use Cons.prems in auto)
  ultimately show ?case by auto
qed simp

text \<open>\<open>d.setdefault(k, []).append(v)\<close>\<close>

definition dappend :: "('k, 'v list) dict \<Rightarrow> 'k \<Rightarrow> 'v \<Rightarrow> ('k, 'v list) dict" where
  "dappend d k v = dset d k ((case dget d k of None \<Rightarrow> [] | Some vs \<Rightarrow> vs) @ [v])"

lemma dict_ok_dappend [simp]: "dict_ok d \<Longrightarrow> dict_ok (dappend d k v)"
  by (simp add: dappend_def)

text \<open>\<open>{**a, **b}\<close> and \<open>a.update(b)\<close>\<close>

definition dupdate :: "('k, 'v) dict \<Rightarrow> ('k, 'v) dict \<Rightarrow> ('k, 'v) dict" where
  "dupdate a b = foldl (\<lambda>d (k, v). dset d k v) a b"

lemma dget_dupdate_rev: "dget (dupdate a b) = dget a ++ map_of (rev b)"
proof (induction b rule: rev_induct)
  case (snoc p b)
  then show ?case by (cases p) (auto simp: dupdate_def fun_eq_iff map_add_def split: option.splits)
qed (simp add: dupdate_def)

lemma map_of_rev_distinct:
  assumes "distinct (map fst b)"
  shows "map_of (rev b) = map_of b"
proof
  fix k
  have d: "distinct (map fst (rev b))" using assms by (simp add: rev_map [symmetric])
  show "map_of (rev b) k = map_of b k"
  proof (cases "map_of b k")
    case None
    then have "map_of (rev b) k = None" by (simp add: map_of_eq_None_iff)
    with None show ?thesis by simp
  next
    case (Some v)
    then show ?thesis using map_of_is_SomeI [OF d] map_of_SomeD by fastforce
  qed
qed

lemma dget_dupdate:
  assumes "dict_ok b"
  shows "dget (dupdate a b) k = (case dget b k of None \<Rightarrow> dget a k | Some v \<Rightarrow> Some v)"
  using map_of_rev_distinct [of b] assms by (simp add: dict_ok_def dget_dupdate_rev map_add_def)

lemma dict_ok_dupdate [simp]: "dict_ok a \<Longrightarrow> dict_ok (dupdate a b)"
  by (induction b arbitrary: a) (auto simp: dupdate_def)

text \<open>\<open>for k in ks: d.pop(k, None)\<close>\<close>

definition dpops :: "'k list \<Rightarrow> ('k, 'v) dict \<Rightarrow> ('k, 'v) dict" where
  "dpops ks d = foldl ddel d ks"

lemma dget_dpops [simp]: "dget (dpops ks d) k = (if k \<in> set ks then None else dget d k)"
  by (induction ks arbitrary: d) (auto simp: dpops_def)

lemma dict_ok_dpops [simp]: "dict_ok d \<Longrightarrow> dict_ok (dpops ks d)"
  by (induction ks arbitrary: d) (auto simp: dpops_def)

text \<open>\<open>{k: d[k] for k in ks if k in d}\<close>\<close>

definition dpick :: "'k list \<Rightarrow> ('k, 'v) dict \<Rightarrow> ('k, 'v) dict" where
  "dpick ks d = foldl (\<lambda>e k. case dget d k of None \<Rightarrow> e | Some v \<Rightarrow> dset e k v) [] ks"

lemma dpick_aux:
  "dict_ok e \<Longrightarrow>
   dict_ok (foldl (\<lambda>e k. case dget d k of None \<Rightarrow> e | Some v \<Rightarrow> dset e k v) e ks)
   \<and> dget (foldl (\<lambda>e k. case dget d k of None \<Rightarrow> e | Some v \<Rightarrow> dset e k v) e ks) k
     = (if k \<in> set ks \<and> dget d k \<noteq> None then dget d k else dget e k)"
  by (induction ks arbitrary: e) (auto split: option.splits)

lemma dict_ok_dpick [simp]: "dict_ok (dpick ks d)"
  using dpick_aux [of "[]" d ks] dict_ok_Nil unfolding dpick_def by blast

lemma dget_dpick [simp]: "dget (dpick ks d) k = (if k \<in> set ks then dget d k else None)"
  using dpick_aux [of "[]" d ks k] by (auto simp: dpick_def)

text \<open>Grouping values by key, in order of first appearance.\<close>

definition first_seen :: "'k list \<Rightarrow> 'k list" where
  "first_seen ks = rev (remdups (rev ks))"

lemma first_seen_snoc: "first_seen (ks @ [k]) = (if k \<in> set ks then first_seen ks else first_seen ks @ [k])"
  by (simp add: first_seen_def)

lemma set_first_seen [simp]: "set (first_seen ks) = set ks"
  by (simp add: first_seen_def)

lemma distinct_first_seen [simp]: "distinct (first_seen ks)"
  by (simp add: first_seen_def)

lemma dkeys_group: "dkeys (foldl (\<lambda>d (v, k). dappend d k v) [] ps) = first_seen (map snd ps)"
proof (induction ps rule: rev_induct)
  case (snoc p ps)
  let ?d = "foldl (\<lambda>d (v, k). dappend d k v) [] ps"
  have "set (dkeys ?d) = snd ` set ps" using snoc by simp
  with snoc show ?case
    by (cases p) (simp add: dappend_def update_keys first_seen_snoc del: list.set_map)
qed (simp add: first_seen_def)

lemma dget_group: "dget (foldl (\<lambda>d (v, k). dappend d k v) [] ps) k =
  (if k \<in> snd ` set ps then Some (map fst (filter (\<lambda>p. snd p = k) ps)) else None)"
proof (induction ps rule: rev_induct)
  case (snoc p ps)
  show ?case
  proof (cases "snd p = k")
    case True
    have "filter (\<lambda>p. snd p = k) ps = []" if "k \<notin> snd ` set ps" using that by (force simp: filter_empty_conv)
    with snoc True show ?thesis by (cases p) (auto simp: dappend_def)
  next
    case False
    with snoc show ?thesis by (cases p) (auto simp: dappend_def)
  qed
qed simp

section \<open>Interface: a state machine and its invariant\<close>

text \<open>
  The operations of a stateful component, as one step function over an operation type,
  and an invariant that every operation keeps.
\<close>

locale machine =
  fixes step :: "'s \<Rightarrow> 'e \<Rightarrow> 's"
    and inv :: "'s \<Rightarrow> bool"
  assumes inv_step: "inv s \<Longrightarrow> inv (step s e)"
begin

lemma inv_run: "inv s \<Longrightarrow> inv (foldl step s es)"
  by (induction es arbitrary: s) (auto intro: inv_step)

lemma inv_prefix: "inv s \<Longrightarrow> inv (foldl step s (take n es))"
  by (rule inv_run)

end

text \<open>A machine one of whose observations only grows along a run.\<close>

locale monotone_machine = machine step inv
  for step :: "'s \<Rightarrow> 'e \<Rightarrow> 's" and inv :: "'s \<Rightarrow> bool" +
  fixes obs :: "'s \<Rightarrow> 'm::preorder"
  assumes obs_step: "inv s \<Longrightarrow> obs s \<le> obs (step s e)"
begin

lemma obs_run: "inv s \<Longrightarrow> obs s \<le> obs (foldl step s es)"
proof (induction es arbitrary: s)
  case (Cons e es)
  then have "obs s \<le> obs (step s e)" "obs (step s e) \<le> obs (foldl step (step s e) es)"
    by (auto intro: obs_step inv_step)
  then show ?case by (auto intro: order_trans)
qed simp

lemma obs_between: "inv s \<Longrightarrow> obs (foldl step s es) \<le> obs (foldl step s (es @ fs))"
  using obs_run [of "foldl step s es" fs] inv_run [of s es] by simp

end

end
