(* ===== verification/SeqLen.thy ===== *)
theory SeqLen
  imports Prelude "HOL-Library.Product_Lexorder" "HOL-Library.List_Lexorder"
begin

text \<open>
  Sequence-length balancing (\<open>miles/miles/utils/seqlen_balancing.py\<close>): the
  Karmarkar-Karp and greedy partitioners, first-fit bin packing, and the splitting of
  bins to reach a target count.  Values are polymorphic where the code is fed both token
  counts and FLOP estimates.
\<close>

section \<open>Karmarkar-Karp: the classes \<open>Set\<close> and \<open>State\<close>\<close>

datatype 'v kk_set = KKSet (kk_sum: 'v) (kk_items: "(nat \<times> 'v) list")

definition kk_set_new :: "'v::zero kk_set" where
  "kk_set_new = KKSet 0 []"

definition kk_set_add :: "nat \<Rightarrow> 'v::plus \<Rightarrow> 'v kk_set \<Rightarrow> 'v kk_set" where
  "kk_set_add idx val s = KKSet (kk_sum s + val) (kk_items s @ [(idx, val)])"

definition kk_set_merge :: "'v::plus kk_set \<Rightarrow> 'v kk_set \<Rightarrow> 'v kk_set" where
  "kk_set_merge s other = foldl (\<lambda>t (idx, val). kk_set_add idx val t) s (kk_items other)"

text \<open>\<open>Set.__lt__\<close>: by sum, then by number of items, then by the items themselves.\<close>

definition kk_set_lt :: "'v::linorder kk_set \<Rightarrow> 'v kk_set \<Rightarrow> bool" where
  "kk_set_lt a b =
     (if kk_sum a \<noteq> kk_sum b then kk_sum a < kk_sum b
      else if length (kk_items a) \<noteq> length (kk_items b)
        then length (kk_items a) < length (kk_items b)
      else kk_items a < kk_items b)"

instantiation kk_set :: (linorder) linorder
begin

definition less_kk_set :: "'a kk_set \<Rightarrow> 'a kk_set \<Rightarrow> bool" where
  "less_kk_set = kk_set_lt"

definition less_eq_kk_set :: "'a kk_set \<Rightarrow> 'a kk_set \<Rightarrow> bool" where
  "less_eq_kk_set a b \<longleftrightarrow> kk_set_lt a b \<or> a = b"

instance
proof
  fix x y z :: "'a kk_set"
  show "(x < y) = (x \<le> y \<and> \<not> y \<le> x)"
    by (auto simp: less_kk_set_def less_eq_kk_set_def kk_set_lt_def split: if_splits)
  show "x \<le> x" by (simp add: less_eq_kk_set_def)
  show "x \<le> y \<Longrightarrow> y \<le> z \<Longrightarrow> x \<le> z"
    by (auto simp: less_eq_kk_set_def kk_set_lt_def split: if_splits)
  show "x \<le> y \<Longrightarrow> y \<le> x \<Longrightarrow> x = y"
    by (auto simp: less_eq_kk_set_def kk_set_lt_def split: if_splits)
  show "x \<le> y \<or> y \<le> x"
    by (cases x; cases y) (auto simp: less_eq_kk_set_def kk_set_lt_def split: if_splits)
qed

end

datatype 'v kk_state = KKState (kk_k: nat) (kk_sets: "'v kk_set list")

definition kk_state_init :: "(nat \<times> 'v) list \<Rightarrow> nat \<Rightarrow> 'v::linordered_ab_group_add kk_state res" where
  "kk_state_init items k =
     rbind (py_assert (length items = 1 \<or> length items = k)) (\<lambda>_.
       if k < length items then Inl IndexError
       else Inr (KKState k (sort_desc id
         (map (\<lambda>(idx, seqlen). kk_set_add idx seqlen kk_set_new) items
          @ replicate (k - length items) kk_set_new))))"

definition kk_get_partitions :: "'v kk_state \<Rightarrow> nat list list" where
  "kk_get_partitions s = map (\<lambda>t. map fst (kk_items t)) (kk_sets s)"

definition kk_state_merge ::
  "'v::linordered_ab_group_add kk_state \<Rightarrow> 'v kk_state \<Rightarrow> 'v kk_state" where
  "kk_state_merge s other = KKState (kk_k s) (sort_desc id
     (map (\<lambda>i. kk_set_merge (kk_sets s ! i) (kk_sets other ! (kk_k s - 1 - i))) [0..<kk_k s]))"

definition kk_spread :: "'v::linordered_ab_group_add kk_state \<Rightarrow> 'v" where
  "kk_spread s = kk_sum (kk_sets s ! 0) - kk_sum (last (kk_sets s))"

text \<open>\<open>State.__lt__\<close>: the least heap pops the state with the largest spread first.\<close>

definition kk_state_lt ::
  "'v::linordered_ab_group_add kk_state \<Rightarrow> 'v kk_state \<Rightarrow> bool" where
  "kk_state_lt s other =
     (if kk_spread s \<noteq> kk_spread other then kk_spread s > kk_spread other
      else kk_sets s ! 0 > kk_sets other ! 0)"

section \<open>The priority queue\<close>

text \<open>
  What the loop relies on of \<open>heapq\<close>: pushing adds one element, popping removes an
  element that no remaining one precedes, and popping fails on the empty heap only.
\<close>

locale heap_queue =
  fixes lt :: "'a \<Rightarrow> 'a \<Rightarrow> bool"
    and push :: "'q \<Rightarrow> 'a \<Rightarrow> 'q"
    and pop :: "'q \<Rightarrow> ('a \<times> 'q) option"
    and contents :: "'q \<Rightarrow> 'a multiset"
  assumes contents_push: "contents (push q x) = add_mset x (contents q)"
    and pop_None: "pop q = None \<longleftrightarrow> contents q = {#}"
    and contents_pop: "pop q = Some (x, q') \<Longrightarrow> contents q = add_mset x (contents q')"
    and pop_least: "pop q = Some (x, q') \<Longrightarrow> y \<in># contents q' \<Longrightarrow> \<not> lt y x"
begin

lemma pop_total: "contents q \<noteq> {#} \<Longrightarrow> \<exists>x q'. pop q = Some (x, q')"
  using pop_None by (cases "pop q") auto

lemma pop_two:
  assumes "2 \<le> size (contents q)"
  obtains x y q1 q2 where "pop q = Some (x, q1)" "pop q1 = Some (y, q2)"
    "contents q = add_mset x (add_mset y (contents q2))"
    "\<not> lt y x"
proof -
  from assms have "contents q \<noteq> {#}" by auto
  then obtain x q1 where 1: "pop q = Some (x, q1)"
    using pop_total by blast
  with assms contents_pop have "contents q1 \<noteq> {#}" by fastforce
  then obtain y q2 where 2: "pop q1 = Some (y, q2)"
    using pop_total by blast
  have "y \<in># contents q1" using contents_pop [OF 2] by simp
  with 1 have "\<not> lt y x" by (rule pop_least)
  with 1 2 show thesis using that contents_pop by metis
qed

lemma size_pop: "pop q = Some (x, q') \<Longrightarrow> size (contents q) = Suc (size (contents q'))"
  by (simp add: contents_pop)

end

fun kk_heappop :: "'v::linordered_ab_group_add kk_state list \<Rightarrow> ('v kk_state \<times> 'v kk_state list) option" where
  "kk_heappop [] = None"
| "kk_heappop (x # xs) =
     (case kk_heappop xs of
        None \<Rightarrow> Some (x, xs)
      | Some (m, rest) \<Rightarrow> if kk_state_lt m x then Some (m, x # rest) else Some (x, xs))"

definition kk_heappush :: "'v::linordered_ab_group_add kk_state list \<Rightarrow> 'v kk_state \<Rightarrow> 'v kk_state list" where
  "kk_heappush q x = q @ [x]"

lemma kk_heappop_None: "kk_heappop q = None \<longleftrightarrow> q = []"
  by (cases q) (auto split: option.splits)

lemma kk_heappop_mset: "kk_heappop q = Some (x, q') \<Longrightarrow> mset q = add_mset x (mset q')"
  by (induction q arbitrary: x q') (auto split: option.splits if_splits)

lemma kk_state_lt_irrefl: "\<not> kk_state_lt s s"
  by (simp add: kk_state_lt_def)

lemma kk_state_lt_trans: "kk_state_lt a b \<Longrightarrow> \<not> kk_state_lt c b \<Longrightarrow> \<not> kk_state_lt c a"
  by (auto simp: kk_state_lt_def split: if_splits)

lemma kk_state_lt_negtrans: "\<not> kk_state_lt a b \<Longrightarrow> \<not> kk_state_lt b c \<Longrightarrow> \<not> kk_state_lt a c"
  by (auto simp: kk_state_lt_def split: if_splits)

lemma kk_heappop_least:
  "kk_heappop q = Some (x, q') \<Longrightarrow> y \<in> set q' \<Longrightarrow> \<not> kk_state_lt y x"
proof (induction q arbitrary: x q' y)
  case (Cons z zs)
  show ?case
  proof (cases "kk_heappop zs")
    case None
    with Cons.prems show ?thesis by (simp add: kk_heappop_None)
  next
    case (Some p)
    obtain m rest where p: "p = (m, rest)" by (cases p)
    with Some have pop: "kk_heappop zs = Some (m, rest)" by simp
    have zs: "set zs = insert m (set rest)"
      using kk_heappop_mset [OF pop] by (metis set_mset_add_mset_insert set_mset_mset)
    have m: "\<not> kk_state_lt u m" if "u \<in> set zs" for u
      using Cons.IH [OF pop] zs that kk_state_lt_irrefl by auto
    show ?thesis
    proof (cases "kk_state_lt m z")
      case True
      with Cons.prems pop have "x = m" "q' = z # rest" by auto
      with Cons.prems(2) zs consider "y = z" | "y \<in> set zs" by auto
      then show ?thesis
      proof cases
        case 1
        with True \<open>x = m\<close> kk_state_lt_irrefl show ?thesis by (metis kk_state_lt_trans)
      next
        case 2
        with m \<open>x = m\<close> show ?thesis by simp
      qed
    next
      case False
      with Cons.prems pop have "x = z" "q' = zs" by auto
      with Cons.prems(2) m have "\<not> kk_state_lt y m" by simp
      from kk_state_lt_negtrans [OF this False] \<open>x = z\<close> show ?thesis by simp
    qed
  qed
qed simp

interpretation kkq: heap_queue kk_state_lt kk_heappush kk_heappop mset
proof (unfold_locales, goal_cases)
  case (1 q x)
  then show ?case by (simp add: kk_heappush_def)
next
  case (2 q)
  then show ?case by (simp add: kk_heappop_None)
next
  case (3 q x q')
  then show ?case by (rule kk_heappop_mset)
next
  case (4 q x q' y)
  then show ?case using kk_heappop_least by fastforce
qed

section \<open>The partitioners\<close>

text \<open>The merge loop: pop two states, merge the second into the first, push it back.\<close>

function kk_loop :: "'v::linordered_ab_group_add kk_state list \<Rightarrow> 'v kk_state res" where
  "kk_loop pq =
     (if 1 < length pq then
        (case kk_heappop pq of
           None \<Rightarrow> Inl IndexError
         | Some (state0, pq1) \<Rightarrow>
             (case kk_heappop pq1 of
                None \<Rightarrow> Inl IndexError
              | Some (state1, pq2) \<Rightarrow> kk_loop (kk_heappush pq2 (kk_state_merge state0 state1))))
      else list_at pq 0)"
  by pat_completeness auto
termination
proof (relation "measure length", simp, clarsimp)
  fix pq :: "'v::linordered_ab_group_add kk_state list" and s0 q1 s1 q2
  assume "kk_heappop pq = Some (s0, q1)" "kk_heappop q1 = Some (s1, q2)"
  from kkq.size_pop [OF this(1)] kkq.size_pop [OF this(2)]
  show "length (kk_heappush q2 (kk_state_merge s0 s1)) < length pq"
    by (simp add: kk_heappush_def)
qed

declare kk_loop.simps [simp del]

definition kk_initial_states ::
  "'v::linordered_ab_group_add list \<Rightarrow> nat \<Rightarrow> bool \<Rightarrow> 'v kk_state list res" where
  "kk_initial_states seqlens k equal_size =
     (let srt = sort (zip seqlens [0..<length seqlens]) in
      if equal_size then
        if k = 0 then Inl ZeroDivisionError
        else rbind (py_assert (length seqlens mod k = 0)) (\<lambda>_.
          res_all (map (\<lambda>offset. kk_state_init
              (map (\<lambda>i. (snd (srt ! (offset + i)), fst (srt ! (offset + i)))) [0..<k]) k)
            (range_step (length srt) k)))
      else res_all (map (\<lambda>(seqlen, idx). kk_state_init [(idx, seqlen)] k) srt))"

definition karmarkar_karp ::
  "'v::linordered_ab_group_add list \<Rightarrow> nat \<Rightarrow> bool \<Rightarrow> nat list list res" where
  "karmarkar_karp seqlens k equal_size =
     rbind (kk_initial_states seqlens k equal_size) (\<lambda>states.
     rbind (kk_loop (foldl kk_heappush [] states)) (\<lambda>final_state.
       let partitions = kk_get_partitions final_state in
       rbind (py_assert (equal_size \<longrightarrow>
                list_all (\<lambda>p. length p * k = length seqlens) partitions)) (\<lambda>_.
         Inr partitions)))"

text \<open>\<open>_check_and_sort_partitions\<close>: the checks behind every balanced partition.\<close>

definition check_and_sort_partitions :: "nat \<Rightarrow> nat \<Rightarrow> nat list list \<Rightarrow> nat list list res" where
  "check_and_sort_partitions n k partitions =
     rbind (py_assert (length partitions = k)) (\<lambda>_.
     rbind (res_all (map (\<lambda>p. rbind (py_assert (0 < length p)) (\<lambda>_. Inr (sort p))) partitions)) (\<lambda>sp.
     rbind (py_assert (set (concat partitions) = set [0..<n])) (\<lambda>_. Inr sp)))"

definition get_seqlen_balanced_partitions ::
  "'v::linordered_ab_group_add list \<Rightarrow> nat \<Rightarrow> bool \<Rightarrow> nat list list res" where
  "get_seqlen_balanced_partitions seqlens k equal_size =
     rbind (py_assert (k \<le> length seqlens)) (\<lambda>_.
     rbind (karmarkar_karp seqlens k equal_size) (\<lambda>partitions.
       check_and_sort_partitions (length seqlens) k partitions))"

text \<open>The greedy partitioner: every item goes to the first partition of least sum.\<close>

definition argmin_scan :: "int list \<Rightarrow> nat \<Rightarrow> nat option" where
  "argmin_scan totals k =
     foldl (\<lambda>min_idx j.
       (case min_idx of
          None \<Rightarrow> Some j
        | Some m \<Rightarrow> (if totals ! j < totals ! m then Some j else Some m))) None [0..<k]"

fun greedy_loop ::
  "nat \<Rightarrow> (int \<times> nat) list \<Rightarrow> nat list list \<Rightarrow> int list \<Rightarrow> (nat list list \<times> int list) res" where
  "greedy_loop k [] parts totals = Inr (parts, totals)"
| "greedy_loop k ((seqlen, i) # rest) parts totals =
     (case argmin_scan totals k of
        None \<Rightarrow> Inl TypeError
      | Some m \<Rightarrow> greedy_loop k rest (parts[m := parts ! m @ [i]]) (totals[m := totals ! m + seqlen]))"

definition greedy_partition :: "int list \<Rightarrow> nat \<Rightarrow> bool \<Rightarrow> nat list list res" where
  "greedy_partition seqlens k equal_size =
     (let bias = (if equal_size then sum_list seqlens + 1 else 0);
          sorted_seqlen = map (\<lambda>(i, seqlen). (seqlen + bias, i)) (enum seqlens) in
      rbind (greedy_loop k sorted_seqlen (replicate k []) (replicate k 0)) (\<lambda>(parts, totals).
        rbind (py_assert (equal_size \<longrightarrow> list_all (\<lambda>p. length p * k = length seqlens) parts)) (\<lambda>_.
          Inr parts)))"

section \<open>First-fit packing\<close>

fun ff_place :: "nat \<Rightarrow> int \<Rightarrow> int \<Rightarrow> nat list list \<Rightarrow> int list \<Rightarrow> nat list list \<times> int list" where
  "ff_place idx len cap (b # bs) (s # ss) =
     (if s + len \<le> cap then ((b @ [idx]) # bs, (s + len) # ss)
      else (let (bs', ss') = ff_place idx len cap bs ss in (b # bs', s # ss')))"
| "ff_place idx len cap bs ss = ([[idx]], [len])"

definition first_fit_loop :: "nat list \<Rightarrow> int list \<Rightarrow> int \<Rightarrow> nat list list \<times> int list" where
  "first_fit_loop order total_lengths cap =
     foldl (\<lambda>(bins, totals) idx. ff_place idx (total_lengths ! idx) cap bins totals) ([], []) order"

definition first_fit :: "nat list \<Rightarrow> int list \<Rightarrow> int \<Rightarrow> nat list list" where
  "first_fit order total_lengths cap = fst (first_fit_loop order total_lengths cap)"

definition first_fit_pack :: "int list \<Rightarrow> int \<Rightarrow> nat list list" where
  "first_fit_pack total_lengths cap = first_fit [0..<length total_lengths] total_lengths cap"

definition first_fit_decreasing_pack :: "int list \<Rightarrow> int \<Rightarrow> nat list list" where
  "first_fit_decreasing_pack total_lengths cap =
     first_fit (sort_key (\<lambda>i. - (total_lengths ! i)) [0..<length total_lengths]) total_lengths cap"

section \<open>Splitting bins\<close>

definition tokens_of :: "int list \<Rightarrow> nat list \<Rightarrow> int" where
  "tokens_of lengths b = sum_list (map (\<lambda>i. lengths ! i) b)"

fun split_loop :: "int list \<Rightarrow> nat list \<Rightarrow> nat list \<times> int \<Rightarrow> nat list \<times> int \<Rightarrow> nat list \<times> nat list" where
  "split_loop lengths [] (h0, s0) (h1, s1) = (h0, h1)"
| "split_loop lengths (idx # rest) (h0, s0) (h1, s1) =
     (if s0 \<le> s1 then split_loop lengths rest (h0 @ [idx], s0 + lengths ! idx) (h1, s1)
      else split_loop lengths rest (h0, s0) (h1 @ [idx], s1 + lengths ! idx))"

definition split_bin_by_tokens :: "nat list \<Rightarrow> int list \<Rightarrow> nat list \<times> nat list" where
  "split_bin_by_tokens bin lengths =
     split_loop lengths (sort_key (\<lambda>i. - (lengths ! i)) bin) ([], 0) ([], 0)"

definition split_candidates :: "nat list list \<Rightarrow> int list \<Rightarrow> (int \<times> nat) list" where
  "split_candidates bins lengths =
     map (\<lambda>(idx, b). (tokens_of lengths b, idx)) (filter (\<lambda>(idx, b). 1 < length b) (enum bins))"

function expand_bins_by_splitting :: "nat list list \<Rightarrow> nat \<Rightarrow> int list \<Rightarrow> nat list list" where
  "expand_bins_by_splitting bins target lengths =
     (if length bins < target then
        (let candidates = split_candidates bins lengths in
         if candidates = [] then bins
         else (let idx = snd (Max (set candidates));
                   (left, right) = split_bin_by_tokens (bins ! idx) lengths in
               expand_bins_by_splitting (bins[idx := left] @ [right]) target lengths))
      else bins)"
  by pat_completeness auto
termination
  by (relation "measure (\<lambda>(bins, target, lengths). target - length bins)") auto

declare expand_bins_by_splitting.simps [simp del]

fun get_reverse_idx_loop :: "(nat \<times> nat) list \<Rightarrow> nat list \<Rightarrow> nat list res" where
  "get_reverse_idx_loop [] rmap = Inr rmap"
| "get_reverse_idx_loop ((i, idx) # rest) rmap =
     (if idx < length rmap then get_reverse_idx_loop rest (rmap[idx := i]) else Inl IndexError)"

definition get_reverse_idx :: "nat list \<Rightarrow> nat list res" where
  "get_reverse_idx idx_map = get_reverse_idx_loop (enum idx_map) idx_map"

section \<open>Karmarkar-Karp: correctness\<close>

lemma kk_items_add [simp]: "kk_items (kk_set_add i v s) = kk_items s @ [(i, v)]"
  by (simp add: kk_set_add_def)

lemma kk_items_fold_add:
  "kk_items (foldl (\<lambda>t (idx, val). kk_set_add idx val t) s xs) = kk_items s @ xs"
  by (induction xs arbitrary: s) auto

lemma kk_items_merge [simp]: "kk_items (kk_set_merge a b) = kk_items a @ kk_items b"
  by (simp add: kk_set_merge_def kk_items_fold_add)

definition set_wf :: "'v::comm_monoid_add kk_set \<Rightarrow> bool" where
  "set_wf s \<longleftrightarrow> kk_sum s = sum_list (map snd (kk_items s))"

lemma set_wf_new [simp]: "set_wf kk_set_new"
  by (simp add: set_wf_def kk_set_new_def)

lemma set_wf_add [simp]: "set_wf s \<Longrightarrow> set_wf (kk_set_add i v s)"
  by (simp add: set_wf_def kk_set_add_def)

lemma set_wf_merge [simp]: "set_wf a \<Longrightarrow> set_wf (kk_set_merge a b)"
proof -
  have "set_wf s \<Longrightarrow> set_wf (foldl (\<lambda>t (idx, val). kk_set_add idx val t) s xs)" for s :: "'a kk_set" and xs
    by (induction xs arbitrary: s) auto
  then show "set_wf a \<Longrightarrow> set_wf (kk_set_merge a b)" by (simp add: kk_set_merge_def)
qed

definition set_mass :: "'v kk_set multiset \<Rightarrow> (nat \<times> 'v) multiset" where
  "set_mass M = (\<Sum>t\<in>#M. mset (kk_items t))"

definition state_items :: "'v kk_state \<Rightarrow> (nat \<times> 'v) multiset" where
  "state_items s = set_mass (mset (kk_sets s))"

lemma set_mass_union: "set_mass (M + N) = set_mass M + set_mass N"
  by (simp add: set_mass_def)

lemma set_mass_map_merge:
  "set_mass (mset (map (\<lambda>i. kk_set_merge (f i) (g i)) is)) =
   set_mass (mset (map f is)) + set_mass (mset (map g is))"
  by (induction "is") (auto simp: set_mass_def)

lemma map_nth_rev: "length ys = k \<Longrightarrow> map (\<lambda>i. ys ! (k - 1 - i)) [0..<k] = rev ys"
  by (rule nth_equalityI) (auto simp: rev_nth)

lemma map_nth_id: "length ys = k \<Longrightarrow> map (\<lambda>i. ys ! i) [0..<k] = ys"
  using map_nth by blast

text \<open>The invariant of a state: \<open>k\<close> sets in decreasing order, with their true sums.\<close>

definition state_ok :: "nat \<Rightarrow> 'v::linordered_ab_group_add kk_state \<Rightarrow> bool" where
  "state_ok k s \<longleftrightarrow> kk_k s = k \<and> length (kk_sets s) = k \<and> (\<forall>t\<in>set (kk_sets s). set_wf t)
     \<and> sorted (rev (kk_sets s))"

lemma sort_desc_id_sorted [simp]: "sorted (rev (sort_desc id xs))"
  using sorted_sort_desc [of id xs] by simp

lemma merge_state_ok: "state_ok k a \<Longrightarrow> state_ok k b \<Longrightarrow> state_ok k (kk_state_merge a b)"
  by (auto simp: state_ok_def kk_state_merge_def)

lemma merge_state_items:
  "state_ok k a \<Longrightarrow> state_ok k b \<Longrightarrow> state_items (kk_state_merge a b) = state_items a + state_items b"
  using map_nth_rev [of "kk_sets b" k]
  by (simp add: state_items_def kk_state_merge_def set_mass_map_merge map_nth_id state_ok_def
      del: mset_map)

text \<open>
  The set-size invariants.  Each set of a state built under \<open>equal_size\<close> has as many
  items as every other; in any state over non-negative values the non-empty sets are as
  many as there are items, up to \<open>k\<close>.
\<close>

definition even_sets :: "'v kk_state \<Rightarrow> bool" where
  "even_sets s \<longleftrightarrow> (\<exists>c. \<forall>t\<in>set (kk_sets s). length (kk_items t) = c)"

lemma merge_even_sets:
  assumes "state_ok k a" "state_ok k b" "even_sets a" "even_sets b"
  shows "even_sets (kk_state_merge a b)"
proof -
  obtain c d where "\<forall>t\<in>set (kk_sets a). length (kk_items t) = c" "\<forall>t\<in>set (kk_sets b). length (kk_items t) = d"
    using assms by (auto simp: even_sets_def)
  then have "\<forall>t\<in>set (kk_sets (kk_state_merge a b)). length (kk_items t) = c + d"
    using assms(1,2) by (auto simp: kk_state_merge_def state_ok_def)
  then show ?thesis by (auto simp: even_sets_def)
qed

definition nonneg_items :: "'v::linordered_ab_group_add kk_set \<Rightarrow> bool" where
  "nonneg_items t \<longleftrightarrow> (\<forall>p\<in>set (kk_items t). 0 \<le> snd p)"

abbreviation nonempty :: "'v kk_set \<Rightarrow> bool" where
  "nonempty t \<equiv> kk_items t \<noteq> []"

lemma nonempty_up:
  assumes "x \<le> y" "nonempty x" "set_wf x" "set_wf y" "nonneg_items x"
  shows "nonempty y"
proof
  assume "kk_items y = []"
  with assms(4) have "kk_sum y = 0" by (simp add: set_wf_def)
  moreover have "0 \<le> kk_sum x"
    using assms(3,5) by (auto simp: set_wf_def nonneg_items_def intro!: sum_list_nonneg)
  ultimately have "\<not> kk_set_lt x y"
    using \<open>kk_items y = []\<close> by (auto simp: kk_set_lt_def)
  with assms(1,2) \<open>kk_items y = []\<close> show False by (auto simp: less_eq_kk_set_def)
qed

lemma sorted_desc_prefix:
  assumes "sorted (rev xs)" "\<And>x y. x \<in> set xs \<Longrightarrow> y \<in> set xs \<Longrightarrow> x \<le> y \<Longrightarrow> P x \<Longrightarrow> P y" "i < length xs"
  shows "P (xs ! i) \<longleftrightarrow> i < length (filter P xs)"
  using assms
proof (induction xs arbitrary: i)
  case (Cons x xs)
  show ?case
  proof (cases "P x")
    case True
    have "P (xs ! j) \<longleftrightarrow> j < length (filter P xs)" if "j < length xs" for j
      using Cons.prems that by (intro Cons.IH) (auto simp: sorted_append)
    with True Cons.prems(3) show ?thesis by (cases i) auto
  next
    case False
    have "\<forall>y\<in>set xs. \<not> P y"
      using Cons.prems(1) False Cons.prems(2) by (fastforce simp: sorted_append)
    with False Cons.prems(3) show ?thesis by (cases i) (auto simp: nth_Cons')
  qed
qed simp

definition filled :: "nat \<Rightarrow> 'v::linordered_ab_group_add kk_state \<Rightarrow> bool" where
  "filled k s \<longleftrightarrow> (\<forall>t\<in>set (kk_sets s). nonneg_items t)
     \<and> length (filter nonempty (kk_sets s)) = min k (size (state_items s))"

lemma filled_nth:
  assumes "state_ok k s" "filled k s" "i < k"
  shows "nonempty (kk_sets s ! i) \<longleftrightarrow> i < size (state_items s)"
proof -
  have "nonempty (kk_sets s ! i) \<longleftrightarrow> i < length (filter nonempty (kk_sets s))"
  proof (rule sorted_desc_prefix)
    show "sorted (rev (kk_sets s))" "i < length (kk_sets s)"
      using assms by (simp_all add: state_ok_def)
    fix x y assume "x \<in> set (kk_sets s)" "y \<in> set (kk_sets s)" "x \<le> y" "nonempty x"
    moreover from this(1,2) have "set_wf x" "set_wf y" "nonneg_items x"
      using assms by (auto simp: state_ok_def filled_def)
    ultimately show "nonempty y" using nonempty_up by blast
  qed
  with assms(2,3) show ?thesis by (simp add: filled_def)
qed

lemma length_filter_mset_eq: "mset xs = mset ys \<Longrightarrow> length (filter P xs) = length (filter P ys)"
proof -
  assume "mset xs = mset ys"
  then have "mset (filter P xs) = mset (filter P ys)" by simp
  then show ?thesis by (rule mset_eq_length)
qed

lemma card_two_ends:
  "card {i. i < k \<and> (i < m \<or> k - 1 - i < n)} = min k (m + n)" for k m n :: nat
proof (cases "m + n \<le> k")
  case True
  have "{i. i < k \<and> (i < m \<or> k - 1 - i < n)} = {0..<m} \<union> {k - n..<k}"
    using True by auto
  moreover have "{0..<m} \<inter> {k - n..<k} = {}" using True by auto
  ultimately show ?thesis using True by (simp add: card_Un_disjoint)
next
  case False
  then have "{i. i < k \<and> (i < m \<or> k - 1 - i < n)} = {0..<k}" by auto
  with False show ?thesis by simp
qed

lemma merge_filled:
  assumes "state_ok k a" "state_ok k b" "filled k a" "filled k b"
  shows "filled k (kk_state_merge a b)"
proof -
  let ?m = "\<lambda>i. kk_set_merge (kk_sets a ! i) (kk_sets b ! (k - 1 - i))"
  have sets: "mset (kk_sets (kk_state_merge a b)) = mset (map ?m [0..<k])"
    using assms(1) by (simp add: kk_state_merge_def state_ok_def)
  have "nonempty (?m i) \<longleftrightarrow> i < size (state_items a) \<or> k - 1 - i < size (state_items b)" if "i < k" for i
    using filled_nth [OF assms(1,3) that] filled_nth [OF assms(2,4), of "k - 1 - i"] that by auto
  then have "{i. i < k \<and> nonempty (?m i)} = {i. i < k \<and> (i < size (state_items a) \<or> k - 1 - i < size (state_items b))}"
    by blast
  moreover have "length (filter nonempty (map ?m [0..<k])) = card {i. i < k \<and> nonempty (?m i)}"
  proof -
    have "length (filter nonempty (map ?m [0..<k])) = length (filter (\<lambda>i. nonempty (?m i)) [0..<k])"
      by (simp add: filter_map o_def)
    also have "\<dots> = card (set (filter (\<lambda>i. nonempty (?m i)) [0..<k]))"
      by (rule distinct_card [symmetric]) simp
    also have "set (filter (\<lambda>i. nonempty (?m i)) [0..<k]) = {i. i < k \<and> nonempty (?m i)}" by auto
    finally show ?thesis .
  qed
  ultimately have "length (filter nonempty (map ?m [0..<k])) = min k (size (state_items (kk_state_merge a b)))"
    using card_two_ends merge_state_items [OF assms(1,2)] by simp
  moreover have "length (filter nonempty (kk_sets (kk_state_merge a b))) = length (filter nonempty (map ?m [0..<k]))"
    by (rule length_filter_mset_eq [OF sets])
  moreover have "\<forall>t\<in>set (kk_sets (kk_state_merge a b)). nonneg_items t"
    using assms by (auto simp: kk_state_merge_def state_ok_def filled_def nonneg_items_def)
  ultimately show ?thesis by (simp add: filled_def)
qed

text \<open>The loop keeps any invariant that merging keeps, and conserves what merging conserves.\<close>

lemma kk_loop_total:
  assumes "pq \<noteq> []" "\<forall>s\<in>set pq. I s"
    and "\<And>a b. I a \<Longrightarrow> I b \<Longrightarrow> I (kk_state_merge a b)"
    and "\<And>a b. I a \<Longrightarrow> I b \<Longrightarrow> f (kk_state_merge a b) = f a + f b"
  shows "\<exists>s. kk_loop pq = Inr s \<and> I s \<and> f s = (\<Sum>s\<in>#mset pq. f s :: 'b::comm_monoid_add)"
  using assms(1,2)
proof (induction pq rule: kk_loop.induct)
  case (1 pq)
  show ?case
  proof (cases "1 < length pq")
    case True
    then have "2 \<le> size (mset pq)" by simp
    then obtain a b q1 q2 where pop: "kk_heappop pq = Some (a, q1)" "kk_heappop q1 = Some (b, q2)"
      and pq: "mset pq = add_mset a (add_mset b (mset q2))"
      by (rule kkq.pop_two) blast
    from pq have "set pq = insert a (insert b (set q2))"
      by (metis set_mset_add_mset_insert set_mset_mset)
    with "1.prems"(2) have I: "I a" "I b" "\<forall>s\<in>set q2. I s" by auto
    let ?q = "kk_heappush q2 (kk_state_merge a b)"
    have "\<exists>s. kk_loop ?q = Inr s \<and> I s \<and> f s = (\<Sum>s\<in>#mset ?q. f s)"
      using True pop I assms(3) by (intro "1.IH") (auto simp: kk_heappush_def)
    moreover have "kk_loop pq = kk_loop ?q"
      using True pop by (subst kk_loop.simps) simp
    moreover have "(\<Sum>s\<in>#mset ?q. f s) = (\<Sum>s\<in>#mset pq. f s)"
      using I assms(4) by (simp add: pq kk_heappush_def add.assoc)
    ultimately show ?thesis by simp
  next
    case False
    with "1.prems" obtain s where "pq = [s]" by (cases pq) auto
    with "1.prems" show ?thesis by (auto simp: kk_loop.simps list_at_def)
  qed
qed

definition init_items :: "nat \<Rightarrow> (nat \<times> 'v::linordered_ab_group_add) list \<Rightarrow> 'v kk_set list" where
  "init_items k items = map (\<lambda>(idx, v). kk_set_add idx v kk_set_new) items @ replicate (k - length items) kk_set_new"

lemma kk_state_init_Inr:
  "0 < k \<Longrightarrow> length items = 1 \<or> length items = k \<Longrightarrow>
   kk_state_init items k = Inr (KKState k (sort_desc id (init_items k items)))"
  by (auto simp: kk_state_init_def init_items_def py_assert_def)

lemma init_mass: "set_mass (mset (init_items k items)) = mset items"
proof -
  have "set_mass (mset (map (\<lambda>(idx, v). kk_set_add idx v kk_set_new) items)) = mset items"
    by (induction items) (auto simp: set_mass_def kk_set_new_def)
  moreover have "set_mass (mset (replicate n kk_set_new)) = ({#} :: (nat \<times> 'a) multiset)" for n
    by (induction n) (auto simp: set_mass_def kk_set_new_def)
  ultimately show ?thesis by (simp add: init_items_def set_mass_union)
qed

lemma init_wf: "t \<in> set (init_items k items) \<Longrightarrow> set_wf t"
  by (auto simp: init_items_def)

lemma init_nonneg: "\<forall>p\<in>set items. 0 \<le> snd p \<Longrightarrow> t \<in> set (init_items k items) \<Longrightarrow> nonneg_items t"
  by (auto simp: init_items_def nonneg_items_def kk_set_new_def)

lemma init_nonempty_count: "length items \<le> k \<Longrightarrow> length (filter nonempty (init_items k items)) = length items"
proof -
  have "filter nonempty (map (\<lambda>(idx, v). kk_set_add idx v kk_set_new) xs) =
        map (\<lambda>(idx, v). kk_set_add idx v kk_set_new) xs" for xs :: "(nat \<times> 'a) list"
    by (induction xs) auto
  then show ?thesis by (simp add: init_items_def kk_set_new_def)
qed

lemma length_init_items: "length items \<le> k \<Longrightarrow> length (init_items k items) = k"
  by (simp add: init_items_def)

text \<open>Everything known of one state of the heap.\<close>

definition good_state :: "nat \<Rightarrow> bool \<Rightarrow> 'v::linordered_ab_group_add kk_state \<Rightarrow> bool" where
  "good_state k equal_size s \<longleftrightarrow> state_ok k s \<and> filled k s \<and> (equal_size \<longrightarrow> even_sets s)"

lemma good_state_merge:
  "good_state k e a \<Longrightarrow> good_state k e b \<Longrightarrow> good_state k e (kk_state_merge a b)"
  by (auto simp: good_state_def merge_state_ok merge_filled intro: merge_even_sets)

lemma good_state_init:
  assumes "0 < k" "length items = (if e then k else 1)" "\<forall>p\<in>set items. 0 \<le> snd p"
  shows "\<exists>s. kk_state_init items k = Inr s \<and> good_state k e s \<and> state_items s = mset items"
proof -
  let ?s = "KKState k (sort_desc id (init_items k items))"
  have le: "length items \<le> k" using assms(1,2) by (auto split: if_splits)
  have items: "state_items ?s = mset items"
    by (simp add: state_items_def init_mass)
  have "state_ok k ?s"
    using le by (auto simp: state_ok_def length_init_items dest: init_wf)
  moreover have "filled k ?s"
    using items le init_nonneg [OF assms(3)] init_nonempty_count [OF le]
      length_filter_mset_eq [of "sort_desc id (init_items k items)" "init_items k items" nonempty]
    by (auto simp: filled_def min_def)
  moreover have "e \<Longrightarrow> even_sets ?s"
    using assms(2) by (auto simp: even_sets_def init_items_def kk_set_new_def)
  moreover have "kk_state_init items k = Inr ?s"
    using assms(1,2) by (intro kk_state_init_Inr) (auto split: if_splits)
  ultimately show ?thesis using items by (auto simp: good_state_def)
qed

lemma res_all_good:
  assumes "\<And>x. x \<in> set xs \<Longrightarrow> \<exists>s. f x = Inr s \<and> good_state k e s \<and> state_items s = g x"
  shows "\<exists>ss. res_all (map f xs) = Inr ss \<and> length ss = length xs \<and> (\<forall>s\<in>set ss. good_state k e s)
     \<and> (\<Sum>s\<in>#mset ss. state_items s) = (\<Sum>x\<in>#mset xs. g x)"
  using assms
proof (induction xs)
  case (Cons x xs)
  obtain s where s: "f x = Inr s" "good_state k e s" "state_items s = g x"
    using Cons.prems by force
  obtain ss where ss: "res_all (map f xs) = Inr ss" "length ss = length xs" "\<forall>s\<in>set ss. good_state k e s"
    "(\<Sum>s\<in>#mset ss. state_items s) = (\<Sum>x\<in>#mset xs. g x)"
    using Cons.IH Cons.prems by force
  show ?case
    using s ss by (intro exI [of _ "s # ss"]) auto
qed simp

lemma concat_blocks:
  "map (\<lambda>j. map (\<lambda>i. h (j * k + i)) [0..<k]) [0..<m] = map (\<lambda>j. map h [j * k..<j * k + k]) [0..<m]"
  by (auto intro!: nth_equalityI)

lemma concat_blocks_upt: "concat (map (\<lambda>j. map h [j * k..<j * k + k]) [0..<m]) = map h [0..<m * k]"
proof (induction m)
  case (Suc m)
  have "[0..<Suc m * k] = [0..<m * k] @ [m * k..<m * k + k]"
    by (metis add.commute mult_Suc upt_add_eq_append zero_le)
  with Suc show ?case by simp
qed simp

lemma range_step_div: "0 < k \<Longrightarrow> n mod k = 0 \<Longrightarrow> range_step n k = map (\<lambda>j. j * k) [0..<n div k]"
proof -
  assume "0 < k" "n mod k = 0"
  then obtain m where "n = m * k" by (metis mod_eq_0_iff_dvd dvd_def mult.commute)
  moreover have "(m * k + k - 1) div k = m"
    using \<open>0 < k\<close> div_mult_self3 [of k m "k - 1"] by simp
  ultimately show ?thesis using \<open>0 < k\<close> by (simp add: range_step_def)
qed

definition swapped :: "'v::linorder list \<Rightarrow> (nat \<times> 'v) list" where
  "swapped seqlens = map prod.swap (sort (zip seqlens [0..<length seqlens]))"

lemma mset_swapped: "mset (swapped seqlens) = mset (enum seqlens)"
proof -
  have "map prod.swap (zip seqlens [0..<length seqlens]) = enum seqlens"
    by (auto simp: enum_def intro!: nth_equalityI)
  then have "image_mset prod.swap (mset (zip seqlens [0..<length seqlens])) = mset (enum seqlens)"
    by (metis mset_map)
  then show ?thesis by (simp add: swapped_def)
qed

lemma length_swapped [simp]: "length (swapped seqlens) = length seqlens"
  by (simp add: swapped_def)

lemma swapped_nonneg:
  assumes "\<forall>v\<in>set seqlens. 0 \<le> v"
  shows "\<forall>p\<in>set (swapped seqlens). 0 \<le> snd p"
proof -
  have "set (swapped seqlens) = set (enum seqlens)"
    using mset_swapped by (metis set_mset_mset)
  with assms show ?thesis by (auto simp: enum_def dest: set_zip_rightD)
qed

lemma initial_states_single:
  assumes "0 < k" "\<forall>v\<in>set seqlens. 0 \<le> v"
  shows "\<exists>ss. kk_initial_states seqlens k False = Inr ss \<and> length ss = length seqlens
    \<and> (\<forall>s\<in>set ss. good_state k False s) \<and> (\<Sum>s\<in>#mset ss. state_items s) = mset (enum seqlens)"
proof -
  let ?f = "\<lambda>p. kk_state_init [p] k"
  have "map (\<lambda>(seqlen, idx). kk_state_init [(idx, seqlen)] k) (sort (zip seqlens [0..<length seqlens]))
      = map ?f (swapped seqlens)"
    by (auto simp: swapped_def)
  then have init: "kk_initial_states seqlens k False = res_all (map ?f (swapped seqlens))"
    by (simp add: kk_initial_states_def)
  have "\<exists>s. ?f p = Inr s \<and> good_state k False s \<and> state_items s = {#p#}" if "p \<in> set (swapped seqlens)" for p
    using good_state_init [of k "[p]" False] swapped_nonneg [OF assms(2)] assms(1) that by auto
  then have "\<exists>ss. res_all (map ?f (swapped seqlens)) = Inr ss \<and> length ss = length (swapped seqlens)
      \<and> (\<forall>s\<in>set ss. good_state k False s) \<and> (\<Sum>s\<in>#mset ss. state_items s) = (\<Sum>p\<in>#mset (swapped seqlens). {#p#})"
    by (rule res_all_good)
  then show ?thesis using init by (simp add: mset_swapped)
qed

lemma initial_states_equal:
  assumes "0 < k" "length seqlens mod k = 0" "\<forall>v\<in>set seqlens. 0 \<le> v"
  shows "\<exists>ss. kk_initial_states seqlens k True = Inr ss \<and> length ss = length seqlens div k
    \<and> (\<forall>s\<in>set ss. good_state k True s) \<and> (\<Sum>s\<in>#mset ss. state_items s) = mset (enum seqlens)"
proof -
  let ?n = "length seqlens" and ?srt = "sort (zip seqlens [0..<length seqlens])"
  let ?m = "?n div k" and ?h = "\<lambda>i. (snd (?srt ! i), fst (?srt ! i))"
  let ?block = "\<lambda>j. map ?h [j * k..<j * k + k]"
  have n: "?m * k = ?n" using assms(2) by auto
  have blocks: "map (\<lambda>i. ?h (j * k + i)) [0..<k] = ?block j" for j
    by (auto intro!: nth_equalityI)
  have h: "map ?h [0..<?n] = swapped seqlens"
    by (auto simp: swapped_def prod.swap_def intro!: nth_equalityI)
  have init: "kk_initial_states seqlens k True = res_all (map (\<lambda>j. kk_state_init (?block j) k) [0..<?m])"
    using assms(1,2) by (simp add: kk_initial_states_def range_step_div o_def blocks Let_def)
  have "\<exists>s. kk_state_init (?block j) k = Inr s \<and> good_state k True s \<and> state_items s = mset (?block j)"
    if "j \<in> set [0..<?m]" for j
  proof (rule good_state_init)
    have "j * k + k \<le> ?n" using that n by (metis Suc_leI add.commute atLeast_upt lessThan_iff mult_Suc mult_le_mono1)
    then have "set (?block j) \<subseteq> set (swapped seqlens)"
      by (auto simp flip: h)
    with swapped_nonneg [OF assms(3)] show "\<forall>p\<in>set (?block j). 0 \<le> snd p" by blast
  qed (use assms(1) in auto)
  then have "\<exists>ss. res_all (map (\<lambda>j. kk_state_init (?block j) k) [0..<?m]) = Inr ss \<and> length ss = length [0..<?m]
      \<and> (\<forall>s\<in>set ss. good_state k True s) \<and> (\<Sum>s\<in>#mset ss. state_items s) = (\<Sum>j\<in>#mset [0..<?m]. mset (?block j))"
    by (rule res_all_good)
  moreover have "(\<Sum>j\<in>#mset [0..<?m]. mset (?block j)) = mset (enum seqlens)"
  proof -
    have "(\<Sum>j\<in>#mset xs. mset (?block j)) = mset (concat (map ?block xs))" for xs
      by (induction xs) auto
    then show ?thesis using concat_blocks_upt [of ?h k ?m] n h mset_swapped by metis
  qed
  ultimately show ?thesis using init by simp
qed

lemma initial_states_good:
  assumes "0 < k" "seqlens \<noteq> []" "equal_size \<Longrightarrow> length seqlens mod k = 0" "\<forall>v\<in>set seqlens. 0 \<le> v"
  shows "\<exists>ss. kk_initial_states seqlens k equal_size = Inr ss \<and> ss \<noteq> []
    \<and> (\<forall>s\<in>set ss. good_state k equal_size s) \<and> (\<Sum>s\<in>#mset ss. state_items s) = mset (enum seqlens)"
proof (cases equal_size)
  case True
  with assms(3) have "k dvd length seqlens" by auto
  with assms(1,2) have "0 < length seqlens div k"
    by (simp add: div_greater_zero_iff dvd_imp_le)
  moreover obtain ss where "kk_initial_states seqlens k True = Inr ss" "length ss = length seqlens div k"
    "\<forall>s\<in>set ss. good_state k True s" "(\<Sum>s\<in>#mset ss. state_items s) = mset (enum seqlens)"
    using initial_states_equal assms True by metis
  ultimately show ?thesis using True by (intro exI [of _ ss]) auto
next
  case False
  then obtain ss where "kk_initial_states seqlens k False = Inr ss" "length ss = length seqlens"
    "\<forall>s\<in>set ss. good_state k False s" "(\<Sum>s\<in>#mset ss. state_items s) = mset (enum seqlens)"
    using initial_states_single assms by metis
  with False assms(2) show ?thesis by (intro exI [of _ ss]) auto
qed

lemma foldl_push: "foldl kk_heappush q ss = q @ ss"
  by (induction ss arbitrary: q) (auto simp: kk_heappush_def)

lemma mset_partitions: "mset (concat (kk_get_partitions s)) = image_mset fst (state_items s)"
proof -
  have "mset (concat (map (\<lambda>t. map fst (kk_items t)) ts)) = image_mset fst (set_mass (mset ts))" for ts :: "'a kk_set list"
    by (induction ts) (auto simp: set_mass_def)
  then show ?thesis by (simp add: kk_get_partitions_def state_items_def)
qed

lemma length_concat_equal: "\<forall>p\<in>set ps. length p = c \<Longrightarrow> length (concat ps) = length ps * c"
  by (induction ps) auto

text \<open>
  The partitioner over any non-negative values, with \<open>k\<close> between one and the number of
  items: no assertion fires, the parts are non-empty, every index occurs once, and under
  \<open>equal_size\<close> the parts have equal lengths.
\<close>

lemma kk_final_partitions:
  assumes "good_state k e s" "state_items s = mset (enum seqlens)" "k \<le> length seqlens"
  shows "length (kk_get_partitions s) = k"
    "mset (concat (kk_get_partitions s)) = mset [0..<length seqlens]"
    "\<forall>p\<in>set (kk_get_partitions s). p \<noteq> []"
    "e \<Longrightarrow> \<forall>p\<in>set (kk_get_partitions s). length p * k = length seqlens"
proof -
  show len: "length (kk_get_partitions s) = k"
    using assms(1) by (simp add: kk_get_partitions_def good_state_def state_ok_def)
  show mset: "mset (concat (kk_get_partitions s)) = mset [0..<length seqlens]"
    using assms(2) by (metis mset_partitions map_fst_enum mset_map)
  have "size (state_items s) = length seqlens" by (simp add: assms(2))
  then have "nonempty (kk_sets s ! i)" if "i < k" for i
    using filled_nth [of k s i] assms(1,3) that by (simp add: good_state_def)
  then show "\<forall>p\<in>set (kk_get_partitions s). p \<noteq> []"
    using assms(1) by (auto simp: kk_get_partitions_def good_state_def state_ok_def in_set_conv_nth)
  assume e
  then obtain c where c: "\<forall>p\<in>set (kk_get_partitions s). length p = c"
    using assms(1) by (auto simp: good_state_def even_sets_def kk_get_partitions_def)
  from length_concat_equal [OF c] have "k * c = length seqlens"
    using len mset_eq_length [OF mset] by simp
  with c show "\<forall>p\<in>set (kk_get_partitions s). length p * k = length seqlens"
    by (simp add: mult.commute)
qed

lemma karmarkar_karp_total:
  assumes "0 < k" "k \<le> length seqlens" "equal_size \<Longrightarrow> length seqlens mod k = 0" "\<forall>v\<in>set seqlens. 0 \<le> v"
  shows "\<exists>s. karmarkar_karp seqlens k equal_size = Inr (kk_get_partitions s)
    \<and> good_state k equal_size s \<and> state_items s = mset (enum seqlens)"
proof -
  have "seqlens \<noteq> []" using assms(1,2) by auto
  then obtain ss where ss: "kk_initial_states seqlens k equal_size = Inr ss" "ss \<noteq> []"
    "\<forall>s\<in>set ss. good_state k equal_size s" "(\<Sum>s\<in>#mset ss. state_items s) = mset (enum seqlens)"
    using initial_states_good assms by metis
  have "\<exists>s. kk_loop (foldl kk_heappush [] ss) = Inr s \<and> good_state k equal_size s
      \<and> state_items s = (\<Sum>s\<in>#mset (foldl kk_heappush [] ss). state_items s)"
  proof (rule kk_loop_total)
    show "good_state k equal_size a \<Longrightarrow> good_state k equal_size b \<Longrightarrow>
      state_items (kk_state_merge a b) = state_items a + state_items b" for a b
      by (auto simp: good_state_def intro: merge_state_items)
  qed (use ss in \<open>auto simp: foldl_push intro: good_state_merge\<close>)
  then obtain s where s: "kk_loop (foldl kk_heappush [] ss) = Inr s" "good_state k equal_size s"
    "state_items s = mset (enum seqlens)"
    using ss(4) by (auto simp: foldl_push)
  have "equal_size \<longrightarrow> list_all (\<lambda>p. length p * k = length seqlens) (kk_get_partitions s)"
    using kk_final_partitions(4) [OF s(2,3) assms(2)] by (auto simp: list_all_iff)
  with ss(1) s show ?thesis by (auto simp: karmarkar_karp_def)
qed

lemma check_and_sort_ok:
  assumes "length ps = k" "\<forall>p\<in>set ps. p \<noteq> []" "mset (concat ps) = mset [0..<n]"
  shows "check_and_sort_partitions n k ps = Inr (map sort ps)"
proof -
  have "set (concat ps) = set [0..<n]" using assms(3) by (metis set_mset_mset)
  moreover have "res_all (map (\<lambda>p. rbind (py_assert (0 < length p)) (\<lambda>_. Inr (sort p))) ps) = Inr (map sort ps)"
    using assms(2) by (intro res_all_map_Inr) simp
  ultimately show ?thesis using assms(1) by (simp add: check_and_sort_partitions_def)
qed

lemma sort_Nil_iff: "sort p = [] \<longleftrightarrow> p = []"
  by (metis length_0_conv length_sort)

lemma mset_concat_sorts: "mset (concat (map sort ps)) = mset (concat ps)"
  by (induction ps) auto

lemma balanced_partitions_total:
  assumes "0 < k" "k \<le> length seqlens" "equal_size \<Longrightarrow> length seqlens mod k = 0" "\<forall>v\<in>set seqlens. 0 \<le> v"
  shows "\<exists>ps. get_seqlen_balanced_partitions seqlens k equal_size = Inr ps \<and> length ps = k
    \<and> mset (concat ps) = mset [0..<length seqlens]
    \<and> (\<forall>p\<in>set ps. p \<noteq> [] \<and> sorted p \<and> (equal_size \<longrightarrow> length p * k = length seqlens))"
proof -
  obtain s where s: "karmarkar_karp seqlens k equal_size = Inr (kk_get_partitions s)"
    "good_state k equal_size s" "state_items s = mset (enum seqlens)"
    using karmarkar_karp_total assms by metis
  note parts = kk_final_partitions [OF s(2,3) assms(2)]
  have "get_seqlen_balanced_partitions seqlens k equal_size = Inr (map sort (kk_get_partitions s))"
    using s(1) assms(2) check_and_sort_ok [OF parts(1,3,2)] by (simp add: get_seqlen_balanced_partitions_def)
  with parts show ?thesis by (auto simp: mset_concat_sorts sort_Nil_iff simp del: mset_concat)
qed

text \<open>C15: balanced partitioning is total and a partition, and honours \<open>equal_size\<close>.\<close>

theorem balanced_partitions_correct:
  assumes "0 < k" "k \<le> length seqlens" "equal_size \<Longrightarrow> length seqlens mod k = 0" "\<forall>v\<in>set seqlens. 0 \<le> v"
  shows "\<exists>ps. get_seqlen_balanced_partitions seqlens k equal_size = Inr ps \<and> length ps = k
    \<and> mset (concat ps) = mset [0..<length seqlens]
    \<and> (\<forall>p\<in>set ps. p \<noteq> [] \<and> sorted p \<and> (equal_size \<longrightarrow> length p * k = length seqlens))"
  using assms by (rule balanced_partitions_total)

theorem balanced_partitions_correct_witness:
  "\<exists>ps. get_seqlen_balanced_partitions [7, 3, 3, 1 :: int] 2 True = Inr ps \<and> length ps = 2
    \<and> mset (concat ps) = mset [0..<length [7, 3, 3, 1 :: int]]
    \<and> (\<forall>p\<in>set ps. p \<noteq> [] \<and> sorted p \<and> (True \<longrightarrow> length p * 2 = length [7, 3, 3, 1 :: int]))"
  by (rule balanced_partitions_correct) simp_all

section \<open>Greedy partitioning: correctness\<close>

lemma argmin_scan_least:
  "0 < k \<Longrightarrow> \<exists>m<k. argmin_scan ts k = Some m \<and> (\<forall>j<k. ts ! m \<le> ts ! j)"
proof (induction k)
  case (Suc k)
  show ?case
  proof (cases "k = 0")
    case False
    with Suc.IH obtain m where m: "m < k" "argmin_scan ts k = Some m" "\<forall>j<k. ts ! m \<le> ts ! j" by auto
    then have "argmin_scan ts (Suc k) = Some (if ts ! k < ts ! m then k else m)"
      by (simp add: argmin_scan_def)
    with m show ?thesis by (auto simp: less_Suc_eq)
  qed (simp add: argmin_scan_def)
qed simp

text \<open>A loop rule: what one placement in a least partition keeps, the loop keeps.\<close>

lemma greedy_loop_rule:
  assumes "0 < k" "P is parts totals"
    and "\<And>i is parts totals m. P (i # is) parts totals \<Longrightarrow> m < k \<Longrightarrow> \<forall>j<k. totals ! m \<le> totals ! j \<Longrightarrow>
      P is (parts[m := parts ! m @ [i]]) (totals[m := totals ! m + f i])"
  shows "\<exists>parts' totals'. greedy_loop k (map (\<lambda>i. (f i, i)) is) parts totals = Inr (parts', totals')
    \<and> P [] parts' totals'"
  using assms(2)
proof (induction "is" arbitrary: parts totals)
  case (Cons i "is")
  obtain m where m: "m < k" "argmin_scan totals k = Some m" "\<forall>j<k. totals ! m \<le> totals ! j"
    using argmin_scan_least [OF assms(1)] by blast
  from assms(3) [OF Cons.prems m(1,3)] Cons.IH m(2) show ?case by simp
qed simp

definition greedy_inv :: "int list \<Rightarrow> int \<Rightarrow> nat \<Rightarrow> nat list list \<Rightarrow> int list \<Rightarrow> bool" where
  "greedy_inv L B k parts totals \<longleftrightarrow> length parts = k \<and> length totals = k
     \<and> (\<forall>i<k. totals ! i = B * int (length (parts ! i)) + tokens_of L (parts ! i))"

lemma tokens_of_append [simp]: "tokens_of L (xs @ ys) = tokens_of L xs + tokens_of L ys"
  by (simp add: tokens_of_def)

lemma tokens_of_Nil [simp]: "tokens_of L [] = 0"
  by (simp add: tokens_of_def)

lemma tokens_of_Cons [simp]: "tokens_of L (x # xs) = L ! x + tokens_of L xs"
  by (simp add: tokens_of_def)

lemma tokens_of_mset: "mset xs = mset ys \<Longrightarrow> tokens_of L xs = tokens_of L ys"
  unfolding tokens_of_def by (metis mset_map sum_mset_sum_list)

lemma tokens_of_all: "tokens_of L [0..<length L] = sum_list L"
  by (simp add: tokens_of_def map_nth)

lemma tokens_of_nonneg: "\<forall>i\<in>set xs. 0 \<le> L ! i \<Longrightarrow> 0 \<le> tokens_of L xs"
  by (induction xs) auto

lemma mset_concat_update:
  "m < length parts \<Longrightarrow> mset (concat (parts[m := parts ! m @ xs])) = mset (concat parts) + mset xs"
proof (induction parts arbitrary: m)
  case (Cons p parts)
  then show ?case by (cases m) (auto simp: ac_simps simp del: mset_concat)
qed simp

lemma greedy_inv_step:
  "greedy_inv L B k parts totals \<Longrightarrow> m < k \<Longrightarrow>
   greedy_inv L B k (parts[m := parts ! m @ [i]]) (totals[m := totals ! m + (L ! i + B)])"
  by (auto simp: greedy_inv_def nth_list_update algebra_simps)

text \<open>
  The balance of the loop: totals stay within one value of each other, and with a bias
  larger than all values together the counts stay within one.
\<close>

definition greedy_spread :: "int \<Rightarrow> nat \<Rightarrow> int list \<Rightarrow> bool" where
  "greedy_spread M k totals \<longleftrightarrow> (\<forall>i<k. \<forall>j<k. totals ! i \<le> totals ! j + M)"

lemma greedy_spread_step:
  "greedy_spread M k totals \<Longrightarrow> length totals = k \<Longrightarrow> m < k \<Longrightarrow> \<forall>j<k. totals ! m \<le> totals ! j \<Longrightarrow>
   0 \<le> v \<Longrightarrow> v \<le> M \<Longrightarrow> greedy_spread M k (totals[m := totals ! m + v])"
  unfolding greedy_spread_def
  by (auto simp: nth_list_update) (smt (verit))+

definition counts_even :: "nat \<Rightarrow> nat list list \<Rightarrow> bool" where
  "counts_even k parts \<longleftrightarrow> (\<forall>i<k. \<forall>j<k. length (parts ! i) \<le> length (parts ! j) + 1)"

lemma counts_even_step:
  assumes "counts_even k parts" "length parts = k" "m < k" "\<forall>j<k. length (parts ! m) \<le> length (parts ! j)"
  shows "counts_even k (parts[m := parts ! m @ [i]])"
  using assms unfolding counts_even_def by (auto simp: nth_list_update intro: le_SucI)

lemma tokens_concat_le:
  assumes "i < length parts" "\<forall>x\<in>set (concat parts). 0 \<le> L ! x"
  shows "tokens_of L (parts ! i) \<le> tokens_of L (concat parts)"
  using assms
proof (induction parts arbitrary: i)
  case (Cons p parts)
  have "0 \<le> tokens_of L p" "0 \<le> tokens_of L (concat parts)"
    using Cons.prems(2) by (auto intro!: tokens_of_nonneg)
  with Cons show ?case by (cases i) force+
qed simp

lemma greedy_least_count:
  assumes "greedy_inv L B k parts totals" "m < k" "\<forall>j<k. totals ! m \<le> totals ! j"
    and "\<forall>x\<in>set (concat parts). 0 \<le> L ! x" "tokens_of L (concat parts) < B"
  shows "\<forall>j<k. length (parts ! m) \<le> length (parts ! j)"
proof (intro allI impI)
  fix j assume j: "j < k"
  have parts: "\<forall>x\<in>set (parts ! i). 0 \<le> L ! x" if "i < k" for i
    using that assms(1,4) by (auto simp: greedy_inv_def)
  have "B * int (length (parts ! m)) \<le> B * int (length (parts ! m)) + tokens_of L (parts ! m)"
    using tokens_of_nonneg [OF parts [OF assms(2)]] by simp
  also have "\<dots> \<le> B * int (length (parts ! j)) + tokens_of L (parts ! j)"
    using assms(1-3) j by (simp add: greedy_inv_def)
  also have "\<dots> < B * int (length (parts ! j)) + B"
    using tokens_concat_le [of j parts L] assms(1,4,5) j by (simp add: greedy_inv_def)
  also have "\<dots> = B * (int (length (parts ! j)) + 1)" by (simp add: algebra_simps)
  finally have "int (length (parts ! m)) < int (length (parts ! j)) + 1"
    using tokens_of_nonneg [OF assms(4)] assms(5) by (simp add: mult_less_cancel_left)
  then show "length (parts ! m) \<le> length (parts ! j)" by simp
qed

lemma counts_even_equal:
  assumes "counts_even k parts" "length parts = k" "length (concat parts) = k * q" "p \<in> set parts"
  shows "length p = q"
proof -
  have sum: "(\<Sum>i<k. length (parts ! i)) = k * q"
    using assms(2,3) by (simp add: length_concat sum_list_sum_nth atLeast0LessThan)
  obtain i where i: "i < k" "p = parts ! i" using assms(2,4) by (auto simp: in_set_conv_nth)
  have "\<not> length p < q"
  proof
    assume "length p < q"
    then have "\<forall>j<k. length (parts ! j) \<le> q"
      using assms(1) i by (fastforce simp: counts_even_def)
    then have "(\<Sum>j<k. length (parts ! j)) < (\<Sum>j<k. q)"
      using i \<open>length p < q\<close> by (intro sum_strict_mono_ex1) auto
    with sum show False by simp
  qed
  moreover have "\<not> q < length p"
  proof
    assume "q < length p"
    then have "\<forall>j<k. q \<le> length (parts ! j)"
      using assms(1) i by (fastforce simp: counts_even_def)
    then have "(\<Sum>j<k. q) < (\<Sum>j<k. length (parts ! j))"
      using i \<open>q < length p\<close> by (intro sum_strict_mono_ex1) auto
    with sum show False by simp
  qed
  ultimately show ?thesis by simp
qed

definition greedy_bias :: "int list \<Rightarrow> bool \<Rightarrow> int" where
  "greedy_bias L equal_size = (if equal_size then sum_list L + 1 else 0)"

definition greedy_state_ok :: "int list \<Rightarrow> nat \<Rightarrow> bool \<Rightarrow> int \<Rightarrow> nat list \<Rightarrow> nat list list \<Rightarrow> int list \<Rightarrow> bool" where
  "greedy_state_ok L k equal_size M is ps ts \<longleftrightarrow>
     greedy_inv L (greedy_bias L equal_size) k ps ts
     \<and> mset (concat ps) + mset is = mset [0..<length L]
     \<and> (if equal_size then counts_even k ps else greedy_spread M k ts)"

lemma greedy_state_ok_step:
  assumes "greedy_state_ok L k e M (i # is) ps ts" "m < k" "\<forall>j<k. ts ! m \<le> ts ! j"
    and L: "\<forall>v\<in>set L. 0 \<le> v \<and> v \<le> M"
  shows "greedy_state_ok L k e M is (ps[m := ps ! m @ [i]]) (ts[m := ts ! m + (L ! i + greedy_bias L e)])"
proof -
  let ?B = "greedy_bias L e"
  have inv: "greedy_inv L ?B k ps ts" and perm: "mset (concat ps) + mset (i # is) = mset [0..<length L]"
    using assms(1) by (auto simp: greedy_state_ok_def)
  then have len: "length ps = k" "length ts = k" by (auto simp: greedy_inv_def)
  from perm have perm': "mset (concat ps @ i # is) = mset [0..<length L]" by simp
  then have "set (concat ps @ i # is) = {0..<length L}"
    by (metis atLeastLessThan_upt mset_eq_setD)
  then have idx: "i < length L" "\<forall>x\<in>set (concat ps). x < length L" "\<forall>x\<in>set is. x < length L" by auto
  have "mset (concat (ps[m := ps ! m @ [i]])) + mset is = mset [0..<length L]"
    using mset_concat_update [of m ps "[i]"] assms(2) len perm by (simp del: mset_concat)
  moreover have "greedy_inv L ?B k (ps[m := ps ! m @ [i]]) (ts[m := ts ! m + (L ! i + ?B)])"
    using greedy_inv_step [OF inv assms(2)] .
  moreover have "counts_even k (ps[m := ps ! m @ [i]])" if e
  proof -
    have "tokens_of L (concat ps) + tokens_of L (i # is) = sum_list L"
      using tokens_of_mset [OF perm', of L] by (simp add: tokens_of_all)
    moreover have "0 \<le> tokens_of L (i # is)" using idx L by (intro tokens_of_nonneg) auto
    ultimately have "tokens_of L (concat ps) < ?B" using that by (simp add: greedy_bias_def)
    then have "\<forall>j<k. length (ps ! m) \<le> length (ps ! j)"
      using idx L by (intro greedy_least_count [OF inv assms(2,3)]) auto
    with assms(1,2) len that show ?thesis
      by (auto simp: greedy_state_ok_def intro: counts_even_step)
  qed
  moreover have "greedy_spread M k (ts[m := ts ! m + (L ! i + ?B)])" if "\<not> e"
    using greedy_spread_step [of M k ts m "L ! i"] assms len idx that
    by (simp add: greedy_state_ok_def greedy_bias_def)
  ultimately show ?thesis by (simp add: greedy_state_ok_def)
qed

lemma greedy_partition_loop:
  assumes "0 < k" "\<forall>v\<in>set L. 0 \<le> v \<and> v \<le> M" "0 \<le> M"
  shows "\<exists>ps ts. greedy_loop k (map (\<lambda>(i, v). (v + greedy_bias L e, i)) (enum L)) (replicate k []) (replicate k 0)
      = Inr (ps, ts) \<and> greedy_state_ok L k e M [] ps ts"
proof -
  have enum: "map (\<lambda>(i, v). (v + greedy_bias L e, i)) (enum L) = map (\<lambda>i. (L ! i + greedy_bias L e, i)) [0..<length L]"
    by (auto simp: enum_def intro!: nth_equalityI)
  have "\<exists>ps ts. greedy_loop k (map (\<lambda>i. (L ! i + greedy_bias L e, i)) [0..<length L]) (replicate k []) (replicate k 0)
      = Inr (ps, ts) \<and> greedy_state_ok L k e M [] ps ts"
  proof (rule greedy_loop_rule [OF assms(1)])
    show "greedy_state_ok L k e M [0..<length L] (replicate k []) (replicate k 0)"
      using assms(3) by (auto simp: greedy_state_ok_def greedy_inv_def counts_even_def greedy_spread_def)
  qed (use assms(2) in \<open>auto intro: greedy_state_ok_step\<close>)
  then show ?thesis using enum by simp
qed

text \<open>
  For non-negative lengths bounded by \<open>M\<close>, the greedy partitioner is total and a
  partition; under \<open>equal_size\<close> its final assertion never fires, and otherwise the
  token sums of any two parts differ by at most \<open>M\<close>.
\<close>

theorem greedy_partition_correct:
  assumes "0 < k" "\<forall>v\<in>set L. 0 \<le> v \<and> v \<le> M" "0 \<le> M" "equal_size \<Longrightarrow> length L mod k = 0"
  shows "\<exists>ps. greedy_partition L k equal_size = Inr ps \<and> length ps = k
    \<and> mset (concat ps) = mset [0..<length L]
    \<and> (\<forall>p\<in>set ps. \<forall>q\<in>set ps.
         if equal_size then length p * k = length L else tokens_of L p \<le> tokens_of L q + M)"
proof -
  obtain ps ts where loop: "greedy_loop k (map (\<lambda>(i, v). (v + greedy_bias L equal_size, i)) (enum L))
      (replicate k []) (replicate k 0) = Inr (ps, ts)"
    and ok: "greedy_state_ok L k equal_size M [] ps ts"
    using greedy_partition_loop [OF assms(1-3)] by blast
  from ok have len: "length ps = k" and perm: "mset (concat ps) = mset [0..<length L]"
    by (auto simp: greedy_state_ok_def greedy_inv_def)
  have equal: "length p * k = length L" if equal_size "p \<in> set ps" for p
  proof -
    have "k dvd length L" using assms(4) [OF that(1)] by auto
    then obtain q where q: "length L = k * q" by (rule dvdE)
    have "counts_even k ps" using ok that(1) by (simp add: greedy_state_ok_def)
    moreover have "length (concat ps) = k * q" using mset_eq_length [OF perm] q by simp
    ultimately have "length p = q" by (rule counts_even_equal [OF _ len _ that(2)])
    with q show ?thesis by simp
  qed
  then have all: "equal_size \<longrightarrow> list_all (\<lambda>p. length p * k = length L) ps"
    by (simp add: list_all_iff)
  have "greedy_partition L k equal_size = Inr ps"
    using loop all unfolding greedy_partition_def greedy_bias_def Let_def by simp
  moreover have "tokens_of L p \<le> tokens_of L q + M" if "\<not> equal_size" "p \<in> set ps" "q \<in> set ps" for p q
  proof -
    from that(2,3) len obtain i j where ij: "i < k" "p = ps ! i" "j < k" "q = ps ! j"
      by (auto simp: in_set_conv_nth)
    from ok that(1) have "greedy_inv L 0 k ps ts" "greedy_spread M k ts"
      by (simp_all add: greedy_state_ok_def greedy_bias_def)
    with ij have "ts ! i = tokens_of L p" "ts ! j = tokens_of L q" "ts ! i \<le> ts ! j + M"
      by (simp_all add: greedy_inv_def greedy_spread_def)
    then show ?thesis by simp
  qed
  ultimately show ?thesis using len perm equal by auto
qed

theorem greedy_partition_correct_witness:
  "\<exists>ps. greedy_partition [5, 1, 1, 3] 2 True = Inr ps \<and> length ps = 2
    \<and> mset (concat ps) = mset [0..<length [5, 1, 1, 3 :: int]]
    \<and> (\<forall>p\<in>set ps. \<forall>q\<in>set ps.
         if True then length p * 2 = length [5, 1, 1, 3 :: int]
         else tokens_of [5, 1, 1, 3] p \<le> tokens_of [5, 1, 1, 3] q + 5)"
  by (rule greedy_partition_correct) simp_all

section \<open>First-fit packing: correctness\<close>

text \<open>A bin with its running total: non-empty, within the budget unless a single oversized item.\<close>

definition bin_ok :: "int list \<Rightarrow> int \<Rightarrow> nat list \<Rightarrow> int \<Rightarrow> bool" where
  "bin_ok L cap b t \<longleftrightarrow> t = tokens_of L b \<and> b \<noteq> [] \<and> (t \<le> cap \<or> length b = 1)"

lemma ff_place_bins:
  "list_all2 (bin_ok L cap) bins totals \<Longrightarrow> ff_place idx (L ! idx) cap bins totals = (bins', totals') \<Longrightarrow>
   list_all2 (bin_ok L cap) bins' totals' \<and> mset (concat bins') = add_mset idx (mset (concat bins))"
proof (induction idx "L ! idx" cap bins totals arbitrary: bins' totals' rule: ff_place.induct)
  case (1 idx cap b bs s ss)
  show ?case
  proof (cases "s + L ! idx \<le> cap")
    case True
    with 1(2,3) show ?thesis by (auto simp: bin_ok_def)
  next
    case False
    with 1(1) [OF False] 1(2,3) show ?thesis by (auto split: prod.splits)
  qed
qed (auto simp: bin_ok_def)

lemma ff_place_totals:
  assumes "ff_place idx len cap bins totals = (bins', totals')" "length bins = length totals" "0 \<le> len"
    "t \<in> set totals'"
  shows "t = len \<or> (\<exists>u\<in>set totals. u \<le> t)"
  using assms
proof (induction idx len cap bins totals arbitrary: bins' totals' rule: ff_place.induct)
  case (1 idx len cap b bs s ss)
  then show ?case by (cases "s + len \<le> cap") (auto split: prod.splits)
qed auto

text \<open>Any two bins together exceed the budget, so no two could have been one.\<close>

lemma ff_place_pairs:
  assumes "ff_place idx len cap bins totals = (bins', totals')" "length bins = length totals" "0 \<le> len"
    "sorted_wrt (\<lambda>a b. cap < a + b) totals"
  shows "sorted_wrt (\<lambda>a b. cap < a + b) totals'"
  using assms
proof (induction idx len cap bins totals arbitrary: bins' totals' rule: ff_place.induct)
  case (1 idx len cap b bs s ss)
  show ?case
  proof (cases "s + len \<le> cap")
    case True
    with 1(2-5) show ?thesis by fastforce
  next
    case False
    obtain bs' ss' where rec: "ff_place idx len cap bs ss = (bs', ss')" by fastforce
    with False 1(2) have t': "totals' = s # ss'" by simp
    have "sorted_wrt (\<lambda>a b. cap < a + b) ss'"
      using 1(1) [OF False rec] 1(3-5) by simp
    moreover have "cap < s + t" if "t \<in> set ss'" for t
      using ff_place_totals [OF rec _ 1(4) that] 1(3,5) False by fastforce
    ultimately show ?thesis using t' by simp
  qed
qed auto

lemma first_fit_loop_correct:
  assumes "\<forall>i\<in>set order. 0 \<le> L ! i" "first_fit_loop order L cap = (bins, totals)"
  shows "list_all2 (bin_ok L cap) bins totals \<and> mset (concat bins) = mset order
    \<and> sorted_wrt (\<lambda>a b. cap < a + b) totals"
  using assms
proof (induction order arbitrary: bins totals rule: rev_induct)
  case (snoc i order)
  obtain b t where loop: "first_fit_loop order L cap = (b, t)" by fastforce
  with snoc have IH: "list_all2 (bin_ok L cap) b t" "mset (concat b) = mset order"
    "sorted_wrt (\<lambda>a b. cap < a + b) t" by auto
  from loop snoc.prems(2) have place: "ff_place i (L ! i) cap b t = (bins, totals)"
    by (simp add: first_fit_loop_def)
  from snoc.prems(1) have "0 \<le> L ! i" by simp
  with ff_place_bins [OF IH(1) place] ff_place_pairs [OF place _ _ IH(3)] IH(2)
  show ?case using list_all2_lengthD [OF IH(1)] by simp
qed (simp add: first_fit_loop_def)

lemma pairs_bound:
  "sorted_wrt (\<lambda>a b. cap < a + b) ts \<Longrightarrow> \<forall>t\<in>set ts. 0 \<le> t \<Longrightarrow>
   cap * int (length ts div 2) \<le> sum_list (ts :: int list)"
proof (induction ts rule: induct_list012)
  case (3 x y zs)
  then have "cap * int (length zs div 2) \<le> sum_list zs" "cap < x + y" by auto
  then show ?case by (simp add: algebra_simps)
qed auto

definition packing_ok :: "int list \<Rightarrow> int \<Rightarrow> nat list list \<Rightarrow> bool" where
  "packing_ok L cap bins \<longleftrightarrow>
     mset (concat bins) = mset [0..<length L]
     \<and> (\<forall>b\<in>set bins. b \<noteq> [] \<and> (tokens_of L b \<le> cap \<or> length b = 1))
     \<and> sorted_wrt (\<lambda>a b. cap < tokens_of L a + tokens_of L b) bins
     \<and> cap * int (length bins div 2) \<le> sum_list L"

lemma first_fit_packing_ok:
  assumes "mset order = mset [0..<length L]" "\<forall>v\<in>set L. 0 \<le> v"
  shows "packing_ok L cap (first_fit order L cap)"
proof -
  obtain bins totals where loop: "first_fit_loop order L cap = (bins, totals)" by fastforce
  have nn: "\<forall>i\<in>set order. 0 \<le> L ! i"
    using assms by (metis atLeastLessThan_iff atLeastLessThan_upt mset_eq_setD nth_mem)
  note ok = first_fit_loop_correct [OF nn loop]
  then have bins: "list_all2 (bin_ok L cap) bins totals" by simp
  then have totals: "totals = map (tokens_of L) bins"
    by (induction rule: list_all2_induct) (auto simp: bin_ok_def)
  have each: "\<forall>b\<in>set bins. b \<noteq> [] \<and> (tokens_of L b \<le> cap \<or> length b = 1)"
    using bins by (induction rule: list_all2_induct) (auto simp: bin_ok_def)
  have perm: "mset (concat bins) = mset order" using ok by simp
  have set_bins: "set (concat bins) = set order" using perm by (rule mset_eq_setD)
  have "\<forall>t\<in>set totals. 0 \<le> t"
    using nn set_bins totals by (auto intro!: tokens_of_nonneg)
  then have "cap * int (length bins div 2) \<le> sum_list totals"
    using pairs_bound [of cap totals] ok totals by simp
  also have "sum_list totals = tokens_of L (concat bins)"
    unfolding totals by (induction bins) auto
  also have "\<dots> = sum_list L"
    using tokens_of_mset [of "concat bins" "[0..<length L]" L] perm assms(1)
    by (simp add: tokens_of_all)
  finally show ?thesis
    using each ok assms(1) loop totals by (simp add: packing_ok_def first_fit_def sorted_wrt_map)
qed

text \<open>
  Both packers place every sample once, in non-empty bins that keep the budget unless
  they hold a single oversized sample; any two bins exceed the budget together, so the
  number of bins is at most about twice what the total needs.
\<close>

theorem first_fit_packers_correct:
  assumes "\<forall>v\<in>set L. 0 \<le> v"
  shows "packing_ok L cap (first_fit_pack L cap) \<and> packing_ok L cap (first_fit_decreasing_pack L cap)"
  using first_fit_packing_ok [OF _ assms]
  by (simp add: first_fit_pack_def first_fit_decreasing_pack_def)

theorem first_fit_packers_correct_witness:
  "packing_ok [3, 5, 3, 5, 4, 2] 11 (first_fit_pack [3, 5, 3, 5, 4, 2] 11)
   \<and> packing_ok [3, 5, 3, 5, 4, 2] 11 (first_fit_decreasing_pack [3, 5, 3, 5, 4, 2] 11)"
  by (rule first_fit_packers_correct) simp

text \<open>
  The decreasing order can cost a bin.  On these six samples first-fit in arrival
  order needs two bins and first-fit decreasing needs three, although the docstring of
  \<open>first_fit_decreasing_pack\<close> says it never needs more.
\<close>

theorem ffd_can_use_more_bins:
  "length (first_fit_pack [3, 5, 3, 5, 4, 2] 11) = 2
   \<and> length (first_fit_decreasing_pack [3, 5, 3, 5, 4, 2] 11) = 3"
  by code_simp

section \<open>Splitting bins: correctness\<close>

lemma split_loop_mset:
  "split_loop L xs (h0, s0) (h1, s1) = (l, r) \<Longrightarrow> mset l + mset r = mset h0 + mset h1 + mset xs"
  by (induction xs arbitrary: h0 s0 h1 s1) (auto split: if_splits)

lemma split_loop_keeps:
  "split_loop L xs (h0, s0) (h1, s1) = (l, r) \<Longrightarrow> (h0 \<noteq> [] \<longrightarrow> l \<noteq> []) \<and> (h1 \<noteq> [] \<longrightarrow> r \<noteq> [])"
proof (induction xs arbitrary: h0 s0 h1 s1)
  case (Cons x xs)
  show ?case
  proof (cases "s0 \<le> s1")
    case True
    with Cons.prems Cons.IH [of "h0 @ [x]"] show ?thesis by auto
  next
    case False
    with Cons.prems Cons.IH [of h0 s0 "h1 @ [x]"] show ?thesis by auto
  qed
qed simp

text \<open>Longest-processing-time: the two halves differ by at most one value.\<close>

lemma split_loop_balance:
  assumes "split_loop L xs (h0, s0) (h1, s1) = (l, r)" "s0 = tokens_of L h0" "s1 = tokens_of L h1"
    "\<bar>s0 - s1\<bar> \<le> M" "\<forall>i\<in>set xs. 0 \<le> L ! i \<and> L ! i \<le> M"
  shows "\<bar>tokens_of L l - tokens_of L r\<bar> \<le> M"
  using assms
proof (induction xs arbitrary: h0 s0 h1 s1)
  case (Cons x xs)
  show ?case
  proof (cases "s0 \<le> s1")
    case True
    with Cons.prems show ?thesis by (intro Cons.IH [of "h0 @ [x]" "s0 + L ! x" h1 s1]) auto
  next
    case False
    with Cons.prems show ?thesis by (intro Cons.IH [of h0 s0 "h1 @ [x]" "s1 + L ! x"]) auto
  qed
qed auto

lemma split_bin_facts:
  assumes "split_bin_by_tokens bin L = (l, r)" "1 < length bin" "\<forall>i\<in>set bin. 0 < L ! i"
  shows "mset l + mset r = mset bin" "l \<noteq> []" "r \<noteq> []"
proof -
  let ?s = "sort_key (\<lambda>i. - (L ! i)) bin"
  have len: "1 < length ?s" using assms(2) by simp
  then obtain a b rest where s: "?s = a # b # rest"
    by (metis One_nat_def length_Cons less_Suc0 list.exhaust list.size(3) not_less_eq not_less_zero)
  have "set ?s = set bin" by simp
  with s assms(3) have "0 < L ! a" by (metis list.set_intros(1))
  have split: "split_loop L ?s ([], 0) ([], 0) = (l, r)"
    using assms(1) by (simp add: split_bin_by_tokens_def)
  from split_loop_mset [OF split] show "mset l + mset r = mset bin" by simp
  from split s \<open>0 < L ! a\<close> have "split_loop L rest ([a], L ! a) ([b], L ! b) = (l, r)" by simp
  from split_loop_keeps [OF this] show "l \<noteq> []" "r \<noteq> []" by auto
qed

lemma split_candidates_Max:
  assumes "split_candidates bins L \<noteq> []"
  defines "idx \<equiv> snd (Max (set (split_candidates bins L)))"
  shows "idx < length bins" "1 < length (bins ! idx)"
proof -
  have "Max (set (split_candidates bins L)) \<in> set (split_candidates bins L)"
    using assms(1) by (intro Max_in) auto
  then show "idx < length bins" "1 < length (bins ! idx)"
    by (auto simp: split_candidates_def enum_def idx_def in_set_zip)
qed

lemma no_candidates_singletons:
  assumes "split_candidates bins L = []" "\<forall>b\<in>set bins. b \<noteq> []"
  shows "length (concat bins) = length bins"
proof -
  have "\<not> 1 < length b" if "b \<in> set bins" for b
  proof -
    from that obtain i where i: "i < length bins" "b = bins ! i" by (auto simp: in_set_conv_nth)
    with assms(1) show ?thesis by (fastforce simp: split_candidates_def filter_empty_conv)
  qed
  with assms(2) have "\<forall>b\<in>set bins. length b = 1"
    by (metis One_nat_def Suc_lessI length_greater_0_conv)
  then show ?thesis using length_concat_equal by fastforce
qed

lemma mset_concat_replace:
  assumes "i < length bins" "mset l + mset r = mset (bins ! i)"
  shows "mset (concat (bins[i := l] @ [r])) = mset (concat bins)"
  using assms
proof (induction bins arbitrary: i)
  case (Cons b bins)
  then show ?case by (cases i) (auto simp: ac_simps simp del: mset_concat)
qed simp

definition refines :: "nat list list \<Rightarrow> nat list list \<Rightarrow> bool" where
  "refines bins' bins \<longleftrightarrow> (\<forall>b'\<in>set bins'. \<exists>b\<in>set bins. mset b' \<subseteq># mset b)"

lemma refines_trans: "refines a b \<Longrightarrow> refines b c \<Longrightarrow> refines a c"
  unfolding refines_def by (meson subset_mset.order_trans)

lemma refines_replace:
  "i < length bins \<Longrightarrow> mset l + mset r = mset (bins ! i) \<Longrightarrow> refines (bins[i := l] @ [r]) bins"
proof -
  assume i: "i < length bins" "mset l + mset r = mset (bins ! i)"
  then have "mset l \<subseteq># mset (bins ! i)" "mset r \<subseteq># mset (bins ! i)"
    by (metis mset_subset_eq_add_left, metis mset_subset_eq_add_right)
  with i(1) show ?thesis
    unfolding refines_def by (auto dest!: set_update_subset_insert [THEN subsetD])
qed

definition expansion_ok :: "nat list list \<Rightarrow> nat \<Rightarrow> nat list list \<Rightarrow> bool" where
  "expansion_ok bins target bins' \<longleftrightarrow>
     length bins' = max target (length bins) \<and> mset (concat bins') = mset (concat bins)
     \<and> (\<forall>b\<in>set bins'. b \<noteq> []) \<and> refines bins' bins"

lemma expand_bins_total:
  assumes "\<forall>b\<in>set bins. b \<noteq> []" "\<forall>i\<in>set (concat bins). 0 < L ! i" "target \<le> length (concat bins)"
  shows "expansion_ok bins target (expand_bins_by_splitting bins target L)"
  using assms
proof (induction bins target L rule: expand_bins_by_splitting.induct)
  case (1 bins target L)
  let ?C = "split_candidates bins L"
  show ?case
  proof (cases "length bins < target")
    case True
    have C: "?C \<noteq> []"
      using no_candidates_singletons [of bins L] "1.prems" True by auto
    let ?i = "snd (Max (set ?C))"
    note i = split_candidates_Max [OF C]
    obtain l r where lr: "split_bin_by_tokens (bins ! ?i) L = (l, r)" by fastforce
    have pos: "\<forall>j\<in>set (bins ! ?i). 0 < L ! j" using "1.prems"(2) i(1) by auto
    note split = split_bin_facts [OF lr i(2) pos]
    let ?b = "bins[?i := l] @ [r]"
    have perm: "mset (concat ?b) = mset (concat bins)"
      using i(1) split(1) by (rule mset_concat_replace)
    have ne: "\<forall>b\<in>set ?b. b \<noteq> []"
      using "1.prems"(1) split(2,3) by (auto dest!: set_update_subset_insert [THEN subsetD])
    have "expansion_ok ?b target (expand_bins_by_splitting ?b target L)"
      using True C lr ne "1.prems"(2,3) mset_eq_setD [OF perm] mset_eq_length [OF perm]
      by (intro "1.IH") auto
    moreover have "expand_bins_by_splitting bins target L = expand_bins_by_splitting ?b target L"
      using True C lr by (subst expand_bins_by_splitting.simps) (simp add: Let_def)
    moreover have "refines ?b bins" using i(1) split(1) by (rule refines_replace)
    ultimately show ?thesis
      using perm True by (auto simp: expansion_ok_def simp del: mset_concat intro: refines_trans)
  next
    case False
    with "1.prems" show ?thesis
      by (subst expand_bins_by_splitting.simps) (auto simp: expansion_ok_def refines_def)
  qed
qed

text \<open>
  With positive lengths and at least as many samples as the target asks for bins, the
  loop reaches exactly the target, keeps every sample, leaves no bin empty, and every
  final bin is part of an original one (so no bin grows over its budget).
\<close>

theorem expand_bins_reaches_target:
  assumes "\<forall>b\<in>set bins. b \<noteq> []" "\<forall>i\<in>set (concat bins). 0 < L ! i" "target \<le> length (concat bins)"
  shows "expansion_ok bins target (expand_bins_by_splitting bins target L)"
  using assms by (rule expand_bins_total)

theorem expand_bins_reaches_target_witness:
  "expansion_ok [[0, 1, 2], [3]] 4 (expand_bins_by_splitting [[0, 1, 2], [3]] 4 [5, 1, 1, 3])"
  by (rule expand_bins_reaches_target) auto

section \<open>Reverse index: round trip\<close>

lemma reverse_idx_loop:
  "distinct (map snd ps) \<Longrightarrow> \<forall>p\<in>set ps. snd p < length r \<Longrightarrow>
   \<exists>r'. get_reverse_idx_loop ps r = Inr r' \<and> length r' = length r
     \<and> (\<forall>p\<in>set ps. r' ! snd p = fst p) \<and> (\<forall>j. j \<notin> snd ` set ps \<longrightarrow> r' ! j = r ! j)"
proof (induction ps arbitrary: r)
  case (Cons p ps)
  obtain i idx where p: "p = (i, idx)" by fastforce
  have "\<exists>r'. get_reverse_idx_loop ps (r[idx := i]) = Inr r' \<and> length r' = length r
     \<and> (\<forall>p\<in>set ps. r' ! snd p = fst p) \<and> (\<forall>j. j \<notin> snd ` set ps \<longrightarrow> r' ! j = r[idx := i] ! j)"
    using Cons.prems Cons.IH [of "r[idx := i]"] by auto
  then obtain r' where r': "get_reverse_idx_loop ps (r[idx := i]) = Inr r'" "length r' = length r"
    "\<forall>p\<in>set ps. r' ! snd p = fst p" "\<forall>j. j \<notin> snd ` set ps \<longrightarrow> r' ! j = r[idx := i] ! j" by blast
  have "idx \<notin> snd ` set ps" "idx < length r" using Cons.prems p by force+
  with r' p show ?case by (intro exI [of _ r']) auto
qed simp

text \<open>\<open>get_reverse_idx\<close> inverts a permutation, in both directions.\<close>

theorem get_reverse_idx_inverts:
  assumes "mset idx_map = mset [0..<n]"
  shows "\<exists>r. get_reverse_idx idx_map = Inr r \<and> length r = n
    \<and> (\<forall>i<n. r ! (idx_map ! i) = i \<and> idx_map ! (r ! i) = i)"
proof -
  have len: "length idx_map = n" using mset_eq_length [OF assms] by simp
  have set: "set idx_map = {0..<n}" using mset_eq_setD [OF assms] by simp
  have "distinct idx_map" using assms by (metis distinct_upt mset_eq_imp_distinct_iff)
  moreover have "\<forall>p\<in>set (enum idx_map). snd p < length idx_map"
    using len set by (metis atLeastLessThan_iff in_set_enum nth_mem)
  ultimately obtain r where r: "get_reverse_idx idx_map = Inr r" "length r = n"
    "\<forall>p\<in>set (enum idx_map). r ! snd p = fst p"
    using reverse_idx_loop [of "enum idx_map" idx_map] len
    by (auto simp: get_reverse_idx_def)
  have fwd: "r ! (idx_map ! i) = i" if "i < n" for i
  proof -
    have "(i, idx_map ! i) \<in> set (enum idx_map)" using that len by simp
    with r(3) show ?thesis by fastforce
  qed
  moreover have "idx_map ! (r ! i) = i" if "i < n" for i
  proof -
    from that set len obtain j where "j < n" "idx_map ! j = i"
      by (metis atLeastLessThan_iff in_set_conv_nth zero_le)
    with fwd show ?thesis by auto
  qed
  ultimately show ?thesis using r by blast
qed

theorem get_reverse_idx_inverts_witness:
  "\<exists>r. get_reverse_idx [2, 0, 1] = Inr r \<and> length r = 3
    \<and> (\<forall>i<3. r ! ([2, 0, 1] ! i) = i \<and> [2, 0, 1] ! (r ! i) = i)"
  by (rule get_reverse_idx_inverts) (simp add: numeral_3_eq_3)

end
