(* ===== verification/Flops.thy ===== *)
theory Flops
  imports Prelude
begin

text \<open>
  The forward-FLOPs estimate (\<open>miles/miles/utils/flops_utils.py\<close>) that the scheduler
  balances under \<open>--balance-by-flops\<close>.  Python's true division makes the values floats;
  they are reals here (rounding is not modelled).
\<close>

datatype layer_freq = NoFreq | FreqList "int list" | FreqInt int

record flops_args =
  hidden_size :: int
  num_attention_heads :: int
  num_query_groups :: int
  vocab_size :: int
  num_layers :: nat
  ffn_hidden_size :: int
  kv_channels :: int
  num_experts :: "int option"
  moe_ffn_hidden_size :: int
  moe_router_topk :: int
  moe_shared_expert_intermediate_size :: "int option"
  moe_layer_freq :: layer_freq
  q_lora_rank :: "int option"
  kv_lora_rank :: "int option"
  qk_head_dim :: int
  qk_pos_emb_head_dim :: int
  v_head_dim :: int

definition calculate_lm_head_flops :: "int \<Rightarrow> int \<Rightarrow> int \<Rightarrow> real" where
  "calculate_lm_head_flops seqlen hidden vocab = real_of_int (2 * seqlen * hidden * vocab)"

definition calculate_qkv_projection_flops :: "flops_args \<Rightarrow> int \<Rightarrow> int \<Rightarrow> int \<Rightarrow> int \<Rightarrow> real" where
  "calculate_qkv_projection_flops args seqlen hidden heads groups =
     (let q_flops = (case q_lora_rank args of
            None \<Rightarrow> 2 * seqlen * hidden * heads * kv_channels args
          | Some r \<Rightarrow> 2 * seqlen * r
              * (hidden_size args + num_attention_heads args * (qk_head_dim args + qk_pos_emb_head_dim args)));
          kv_flops = (case kv_lora_rank args of
            None \<Rightarrow> 2 * 2 * seqlen * hidden * groups * kv_channels args
          | Some r \<Rightarrow> 2 * seqlen
              * (r * (hidden_size args + num_attention_heads args * (qk_head_dim args + v_head_dim args))
                 + hidden_size args * qk_pos_emb_head_dim args))
      in real_of_int (q_flops + kv_flops))"

definition calculate_attention_flops :: "flops_args \<Rightarrow> int \<Rightarrow> int \<Rightarrow> real" where
  "calculate_attention_flops args seqlen heads =
     (if qk_pos_emb_head_dim args \<noteq> 0
      then real_of_int (2 * heads * seqlen * seqlen * (qk_head_dim args + qk_pos_emb_head_dim args)) / 2
      else real_of_int (2 * heads * seqlen * seqlen * kv_channels args) / 2)
     + (if v_head_dim args \<noteq> 0 then real_of_int (heads * seqlen * seqlen * v_head_dim args)
        else real_of_int (heads * seqlen * seqlen * kv_channels args))"

definition calculate_output_flops :: "int \<Rightarrow> int \<Rightarrow> real" where
  "calculate_output_flops seqlen hidden = real_of_int (2 * seqlen * hidden * hidden)"

definition calculate_mlp_flops :: "int \<Rightarrow> int \<Rightarrow> int \<Rightarrow> real" where
  "calculate_mlp_flops seqlen hidden ffn = real_of_int (2 * seqlen * hidden * ffn * 3)"

definition calculate_layer_flops :: "flops_args \<Rightarrow> int \<Rightarrow> int \<Rightarrow> int \<Rightarrow> int \<Rightarrow> int \<Rightarrow> real" where
  "calculate_layer_flops args seqlen hidden heads groups ffn =
     calculate_qkv_projection_flops args seqlen hidden heads groups
     + calculate_attention_flops args seqlen heads
     + calculate_output_flops seqlen hidden
     + calculate_mlp_flops seqlen hidden ffn"

text \<open>How many dense and how many MoE layers the arguments describe.\<close>

definition layer_counts :: "flops_args \<Rightarrow> (nat \<times> nat) res" where
  "layer_counts args = (case num_experts args of
       None \<Rightarrow> Inr (num_layers args, 0)
     | Some _ \<Rightarrow> (case moe_layer_freq args of
         NoFreq \<Rightarrow> Inr (0, num_layers args)
       | FreqList fs \<Rightarrow> Inr (length (filter (\<lambda>f. f = 0) fs), length (filter (\<lambda>f. f > 0) fs))
       | FreqInt f \<Rightarrow>
           if f = 0 \<and> 0 < num_layers args then Inl ZeroDivisionError
           else Inr (length (filter (\<lambda>i. int i mod f \<noteq> 0) [0..<num_layers args]),
                     length (filter (\<lambda>i. int i mod f = 0) [0..<num_layers args]))))"

definition moe_ffn :: "flops_args \<Rightarrow> int" where
  "moe_ffn args = moe_ffn_hidden_size args * moe_router_topk args
     + (case moe_shared_expert_intermediate_size args of None \<Rightarrow> 0 | Some s \<Rightarrow> s)"

definition calculate_fwd_flops :: "int list \<Rightarrow> flops_args \<Rightarrow> real res" where
  "calculate_fwd_flops seqlens args =
     rbind (layer_counts args) (\<lambda>(num_dense_layers, num_moe_layers).
       let layer = (\<lambda>seqlen ffn. calculate_layer_flops args seqlen (hidden_size args)
                     (num_attention_heads args) (num_query_groups args) ffn) in
       Inr (foldl (\<lambda>total seqlen.
             total
             + (if 0 < num_dense_layers then layer seqlen (ffn_hidden_size args) * real num_dense_layers else 0)
             + (if 0 < num_moe_layers then layer seqlen (moe_ffn args) * real num_moe_layers else 0)
             + calculate_lm_head_flops seqlen (hidden_size args) (vocab_size args)) 0 seqlens))"

text \<open>The dense and MoE layers add up to the layers for an integer frequency.\<close>

lemma layer_counts_sum:
  "num_experts args = Some e \<Longrightarrow> moe_layer_freq args = FreqInt f \<Longrightarrow> layer_counts args = Inr (d, m) \<Longrightarrow>
   d + m = num_layers args"
  using sum_length_filter_compl [of "\<lambda>i. int i mod f = 0" "[0..<num_layers args]"]
  by (auto simp: layer_counts_def split: if_splits)

definition args_nonneg :: "flops_args \<Rightarrow> bool" where
  "args_nonneg a \<longleftrightarrow> 0 \<le> hidden_size a \<and> 0 \<le> num_attention_heads a \<and> 0 \<le> num_query_groups a
     \<and> 0 \<le> vocab_size a \<and> 0 \<le> ffn_hidden_size a \<and> 0 \<le> kv_channels a \<and> 0 \<le> moe_ffn_hidden_size a
     \<and> 0 \<le> moe_router_topk a \<and> (case moe_shared_expert_intermediate_size a of None \<Rightarrow> True | Some s \<Rightarrow> 0 \<le> s)
     \<and> (case q_lora_rank a of None \<Rightarrow> True | Some r \<Rightarrow> 0 \<le> r)
     \<and> (case kv_lora_rank a of None \<Rightarrow> True | Some r \<Rightarrow> 0 \<le> r)
     \<and> 0 \<le> qk_head_dim a \<and> 0 \<le> qk_pos_emb_head_dim a \<and> 0 \<le> v_head_dim a"

lemma calculate_layer_flops_nonneg:
  "args_nonneg a \<Longrightarrow> 0 \<le> s \<Longrightarrow> 0 \<le> f \<Longrightarrow>
   0 \<le> calculate_layer_flops a s (hidden_size a) (num_attention_heads a) (num_query_groups a) f"
  by (auto simp: args_nonneg_def calculate_layer_flops_def calculate_qkv_projection_flops_def
      calculate_attention_flops_def calculate_output_flops_def calculate_mlp_flops_def Let_def
      intro!: add_nonneg_nonneg mult_nonneg_nonneg split: option.splits)

lemma fold_flops_nonneg:
  "\<forall>s\<in>set xs. (0 :: real) \<le> g s \<Longrightarrow> 0 \<le> t \<Longrightarrow> 0 \<le> foldl (\<lambda>total s. total + g s) t xs"
  by (induction xs arbitrary: t) auto

lemma calculate_fwd_flops_nonneg:
  assumes "args_nonneg a" "\<forall>s\<in>set seqlens. 0 \<le> s" "calculate_fwd_flops seqlens a = Inr w"
  shows "0 \<le> w"
proof -
  obtain d m where counts: "layer_counts a = Inr (d, m)"
    using assms(3) by (auto simp: calculate_fwd_flops_def rbind_Inr_iff)
  let ?layer = "\<lambda>s f. calculate_layer_flops a s (hidden_size a) (num_attention_heads a) (num_query_groups a) f"
  let ?g = "\<lambda>s. (if 0 < d then ?layer s (ffn_hidden_size a) * real d else 0)
    + (if 0 < m then ?layer s (moe_ffn a) * real m else 0)
    + calculate_lm_head_flops s (hidden_size a) (vocab_size a)"
  have ffn: "0 \<le> ffn_hidden_size a" "0 \<le> moe_ffn a"
    using assms(1) by (auto simp: args_nonneg_def moe_ffn_def split: option.splits)
  have "0 \<le> ?g s" if "s \<in> set seqlens" for s
    using that assms(1,2) ffn
    by (auto intro!: add_nonneg_nonneg mult_nonneg_nonneg calculate_layer_flops_nonneg
        simp: calculate_lm_head_flops_def args_nonneg_def)
  then have "0 \<le> foldl (\<lambda>total s. total + ?g s) 0 seqlens" by (intro fold_flops_nonneg) auto
  with assms(3) counts show ?thesis by (simp add: calculate_fwd_flops_def Let_def add.assoc)
qed

end
