(* ===== verification/DpSchedule.thy ===== *)
theory DpSchedule
  imports SeqLen Flops
begin

text \<open>
  The per-rollout schedule of data-parallel training
  (\<open>miles/miles/utils/dp_schedule.py\<close>): rollouts are grouped, cut into training steps,
  each step's samples are packed into micro-batches, and the micro-batches are dealt to
  the data-parallel ranks.
\<close>

record dp_args =
  use_dynamic_batch_size :: bool
  max_tokens_per_gpu :: "int option"
  allow_partial_train_step :: bool
  balance_by_flops :: bool
  balance_data :: bool
  micro_batch_size :: "nat option"
  model_args :: flops_args

text \<open>
  The backend's configuration is a dictionary of numbers; \<open>vpp_size\<close> may be \<open>None\<close>, which
  \<open>or 1\<close> treats as it treats 0, so 0 stands for both.
\<close>

type_synonym parallel_config = "(string, nat) dict"

definition SCHEDULE_CONFIG_KEYS :: "string list" where
  "SCHEDULE_CONFIG_KEYS =
     [''dp_size'', ''cp_size'', ''vpp_size'', ''microbatch_group_size_per_vp_stage'']"

definition has_full_schedule_config :: "parallel_config option \<Rightarrow> bool" where
  "has_full_schedule_config c = (case c of
       None \<Rightarrow> False
     | Some d \<Rightarrow> d \<noteq> [] \<and> list_all (\<lambda>key. key \<in> set (dkeys d)) SCHEDULE_CONFIG_KEYS)"

definition config_at :: "parallel_config \<Rightarrow> string \<Rightarrow> nat res" where
  "config_at d key = (case dget d key of None \<Rightarrow> Inl KeyError | Some v \<Rightarrow> Inr v)"

text \<open>The part of the configuration that the schedule uses.\<close>

record layout =
  dp_size :: nat
  cp_size :: nat
  align_to :: nat

definition read_layout :: "parallel_config \<Rightarrow> layout res" where
  "read_layout d =
     rbind (config_at d ''dp_size'') (\<lambda>dp.
     rbind (config_at d ''cp_size'') (\<lambda>cp.
     rbind (config_at d ''vpp_size'') (\<lambda>vpp0.
     rbind (config_at d ''microbatch_group_size_per_vp_stage'') (\<lambda>mb_group.
       let vpp = (if vpp0 = 0 then 1 else vpp0) in
       Inr \<lparr> dp_size = dp, cp_size = cp, align_to = dp * (if 1 < vpp then mb_group else 1) \<rparr>))))"

definition calculate_workloads :: "int list \<Rightarrow> flops_args \<Rightarrow> real list res" where
  "calculate_workloads step_lengths args = res_all (map (\<lambda>sl. calculate_fwd_flops [sl] args) step_lengths)"

section \<open>Rollouts and training steps\<close>

definition group_rollouts :: "int list \<Rightarrow> (int, nat list) dict" where
  "group_rollouts rollout_indices =
     foldl (\<lambda>d (sample_pos, rid). dappend d rid sample_pos) [] (enum rollout_indices)"

definition rollout_samples :: "(int, nat list) dict \<Rightarrow> int list \<Rightarrow> nat list" where
  "rollout_samples groups rids =
     concat (map (\<lambda>rid. case dget groups rid of None \<Rightarrow> [] | Some ps \<Rightarrow> ps) rids)"

definition plan_num_rollouts :: "dp_args \<Rightarrow> nat \<Rightarrow> (int, nat list) dict \<Rightarrow> nat \<Rightarrow> nat list res" where
  "plan_num_rollouts args dp groups global_batch_size =
     (let rollout_ids = dkeys groups in
      if global_batch_size = 0 then Inl ZeroDivisionError
      else let num_full_steps = length rollout_ids div global_batch_size in
        rbind (py_assert (1 \<le> num_full_steps)) (\<lambda>_.
          let leftover = length rollout_ids - num_full_steps * global_batch_size;
              leftover_samples =
                length (rollout_samples groups (drop (length rollout_ids - leftover) rollout_ids)) in
          Inr (replicate num_full_steps global_batch_size
               @ (if leftover \<noteq> 0 \<and> allow_partial_train_step args \<and> use_dynamic_batch_size args
                     \<and> dp \<le> leftover_samples
                  then [leftover] else []))))"

section \<open>One training step\<close>

definition pack_under_budget :: "real list option \<Rightarrow> int \<Rightarrow> int list \<Rightarrow> nat list list res" where
  "pack_under_budget workloads max_per_bin step_lengths = (case workloads of
       None \<Rightarrow> Inr (first_fit_decreasing_pack step_lengths max_per_bin)
     | Some w \<Rightarrow>
         if max_per_bin = 0 then Inl ZeroDivisionError
         else let micro_batch_count = max 1 ((sum_list step_lengths + max_per_bin - 1) div max_per_bin) in
           if int (length step_lengths) \<le> micro_batch_count
           then Inr (map (\<lambda>i. [i]) [0..<length step_lengths])
           else get_seqlen_balanced_partitions w (nat micro_batch_count) False)"

definition grow_micro_batches :: "nat list list \<Rightarrow> nat \<Rightarrow> int list \<Rightarrow> nat list list res" where
  "grow_micro_batches mbs align step_lengths =
     (if align = 0 then Inl ZeroDivisionError
      else let target = max ((length mbs + align - 1) div align * align) align in
        if target \<noteq> length mbs then
          let mbs' = expand_bins_by_splitting mbs target step_lengths in
          rbind (py_assert (length mbs' = target)) (\<lambda>_. Inr mbs')
        else Inr mbs)"

definition static_micro_batches :: "nat option \<Rightarrow> nat \<Rightarrow> nat \<Rightarrow> nat list list res" where
  "static_micro_batches mbs_size align n = (case mbs_size of
       None \<Rightarrow> Inl AssertionError
     | Some m \<Rightarrow>
         if m = 0 then Inl ValueError
         else let mbs = map (\<lambda>i. [i..<min (i + m) n]) (range_step n m) in
           if align = 0 then Inl ZeroDivisionError
           else if length mbs mod align \<noteq> 0 then Inl AssertionError
           else Inr mbs)"

definition step_micro_batches ::
  "dp_args \<Rightarrow> layout \<Rightarrow> int option \<Rightarrow> real list option \<Rightarrow> int list \<Rightarrow> nat list list res" where
  "step_micro_batches args lay max_per_bin workloads step_lengths =
     (case max_per_bin of
        Some cap \<Rightarrow> rbind (pack_under_budget workloads cap step_lengths) (\<lambda>mbs.
                      grow_micro_batches mbs (align_to lay) step_lengths)
      | None \<Rightarrow> static_micro_batches (micro_batch_size args) (align_to lay) (length step_lengths))"

definition distribute_micro_batches ::
  "dp_args \<Rightarrow> nat \<Rightarrow> real list option \<Rightarrow> int list \<Rightarrow> nat list list \<Rightarrow> nat list list res" where
  "distribute_micro_batches args dp workloads step_lengths mbs =
     (case workloads of
        Some w \<Rightarrow> get_seqlen_balanced_partitions (map (\<lambda>mb. sum_list (map (\<lambda>i. w ! i) mb)) mbs) dp True
      | None \<Rightarrow>
          if balance_data args
          then get_seqlen_balanced_partitions (map (tokens_of step_lengths) mbs) dp True
          else Inr (map (\<lambda>rank. filter (\<lambda>k. k mod dp = rank) [0..<length mbs]) [0..<dp]))"

text \<open>What a step contributes: its samples, their micro-batches, and each rank's share.\<close>

record step_plan =
  sample_indices :: "nat list"
  micro_batches :: "nat list list"
  rank_micro_batch_ids :: "nat list list"

definition plan_step ::
  "dp_args \<Rightarrow> layout \<Rightarrow> int option \<Rightarrow> int list \<Rightarrow> nat list \<Rightarrow> step_plan res" where
  "plan_step args lay max_per_bin total_lengths samples =
     rbind (res_all (map (list_at total_lengths) samples)) (\<lambda>step_lengths.
     rbind (py_assert (dp_size lay \<le> length samples)) (\<lambda>_.
     rbind (if balance_by_flops args
            then rbind (calculate_workloads step_lengths (model_args args)) (\<lambda>w. Inr (Some w))
            else Inr None) (\<lambda>workloads.
     rbind (step_micro_batches args lay max_per_bin workloads step_lengths) (\<lambda>mbs.
     rbind (distribute_micro_batches args (dp_size lay) workloads step_lengths mbs) (\<lambda>ranks.
       Inr \<lparr> sample_indices = samples, micro_batches = mbs, rank_micro_batch_ids = ranks \<rparr>)))))"

section \<open>Filling the ranks\<close>

type_synonym rank_state = "nat list list \<times> nat list list list"

definition place_micro_batch :: "step_plan \<Rightarrow> nat \<Rightarrow> rank_state \<Rightarrow> nat \<Rightarrow> rank_state" where
  "place_micro_batch plan rank st k =
     (let (partitions, mbi) = st;
          micro_batch = micro_batches plan ! k;
          local_start = length (partitions ! rank) in
      (partitions[rank := partitions ! rank @ map (\<lambda>i. sample_indices plan ! i) micro_batch],
       mbi[rank := mbi ! rank @ [[local_start..<local_start + length micro_batch]]]))"

definition place_step :: "rank_state \<Rightarrow> step_plan \<Rightarrow> rank_state" where
  "place_step st plan =
     foldl (\<lambda>st (rank, ids). foldl (place_micro_batch plan rank) st ids) st
       (enum (rank_micro_batch_ids plan))"

record schedule =
  partitions :: "nat list list"
  micro_batch_indices :: "nat list list list"
  num_microbatches :: "nat list"
  num_rollouts :: "nat list"

fun step_ranges :: "nat \<Rightarrow> nat list \<Rightarrow> (nat \<times> nat) list" where
  "step_ranges start [] = []"
| "step_ranges start (n # ns) = (start, start + n) # step_ranges (start + n) ns"

text \<open>The token budget of a micro-batch: absent on the static path.\<close>

definition token_budget :: "dp_args \<Rightarrow> layout \<Rightarrow> int option res" where
  "token_budget args lay =
     (if use_dynamic_batch_size args then (case max_tokens_per_gpu args of
        None \<Rightarrow> Inl AssertionError
      | Some t \<Rightarrow> Inr (Some (t * int (cp_size lay))))
      else Inr None)"

definition build_dp_schedule ::
  "dp_args \<Rightarrow> parallel_config \<Rightarrow> int list \<Rightarrow> nat \<Rightarrow> int list \<Rightarrow> schedule res" where
  "build_dp_schedule args config total_lengths global_batch_size rollout_indices =
     rbind (read_layout config) (\<lambda>lay.
     rbind (token_budget args lay) (\<lambda>max_per_bin.
       let groups = group_rollouts rollout_indices; rollout_ids = dkeys groups in
       rbind (plan_num_rollouts args (dp_size lay) groups global_batch_size) (\<lambda>counts.
       rbind (res_all (map (\<lambda>(a, b).
           plan_step args lay max_per_bin total_lengths
             (rollout_samples groups (slice a b rollout_ids))) (step_ranges 0 counts))) (\<lambda>plans.
         let (parts, mbi) = foldl place_step (replicate (dp_size lay) [], replicate (dp_size lay) []) plans in
         Inr \<lparr> partitions = parts, micro_batch_indices = mbi,
               num_microbatches = map (\<lambda>plan. length (micro_batches plan) div dp_size lay) plans,
               num_rollouts = counts \<rparr>))))"

section \<open>Grouping\<close>

definition positions :: "int list \<Rightarrow> int \<Rightarrow> nat list" where
  "positions rollout_indices rid = filter (\<lambda>i. rollout_indices ! i = rid) [0..<length rollout_indices]"

lemma filter_enum: "map fst (filter (\<lambda>p. P (snd p)) (enum xs)) = filter (\<lambda>i. P (xs ! i)) [0..<length xs]"
proof -
  have "enum xs = map (\<lambda>i. (i, xs ! i)) [0..<length xs]"
    by (rule nth_equalityI) (auto simp: enum_def)
  then show ?thesis by (simp add: filter_map o_def)
qed

lemma dkeys_group_rollouts: "dkeys (group_rollouts ids) = first_seen ids"
  using dkeys_group [of "enum ids"] by (simp add: group_rollouts_def)

lemma rollout_samples_group:
  "rollout_samples (group_rollouts ids) rids = concat (map (positions ids) rids)"
proof -
  have "snd ` set (enum ids) = set ids" by (metis list.set_map map_snd_enum)
  moreover have "positions ids rid = []" if "rid \<notin> set ids" for rid
    using that by (force simp: positions_def filter_empty_conv)
  ultimately have "(case dget (group_rollouts ids) rid of None \<Rightarrow> [] | Some ps \<Rightarrow> ps) = positions ids rid" for rid
    using filter_enum [of "\<lambda>x. x = rid" ids]
    by (simp add: group_rollouts_def dget_group positions_def)
  then show ?thesis by (simp add: rollout_samples_def)
qed

section \<open>Packing\<close>

lemma expand_bins_keeps:
  assumes "\<forall>b\<in>set bins. b \<noteq> []" "\<forall>i\<in>set (concat bins). 0 < L ! i"
  shows "mset (concat (expand_bins_by_splitting bins target L)) = mset (concat bins)
    \<and> (\<forall>b\<in>set (expand_bins_by_splitting bins target L). b \<noteq> [])
    \<and> refines (expand_bins_by_splitting bins target L) bins"
  using assms
proof (induction bins target L rule: expand_bins_by_splitting.induct)
  case (1 bins target L)
  let ?C = "split_candidates bins L"
  show ?case
  proof (cases "length bins < target \<and> ?C \<noteq> []")
    case True
    let ?i = "snd (Max (set ?C))"
    from True have C: "?C \<noteq> []" by simp
    note i = split_candidates_Max [OF C]
    obtain l r where lr: "split_bin_by_tokens (bins ! ?i) L = (l, r)" by fastforce
    have pos: "\<forall>j\<in>set (bins ! ?i). 0 < L ! j" using "1.prems"(2) i(1) by auto
    note split = split_bin_facts [OF lr i(2) pos]
    let ?b = "bins[?i := l] @ [r]"
    have perm: "mset (concat ?b) = mset (concat bins)"
      using i(1) split(1) by (rule mset_concat_replace)
    have ne: "\<forall>b\<in>set ?b. b \<noteq> []"
      using "1.prems"(1) split(2,3) by (auto dest!: set_update_subset_insert [THEN subsetD])
    have "\<forall>i\<in>set (concat ?b). 0 < L ! i" using "1.prems"(2) mset_eq_setD [OF perm] by simp
    with ne have IH: "mset (concat (expand_bins_by_splitting ?b target L)) = mset (concat ?b)
      \<and> (\<forall>b\<in>set (expand_bins_by_splitting ?b target L). b \<noteq> [])
      \<and> refines (expand_bins_by_splitting ?b target L) ?b"
      using True lr by (intro "1.IH") auto
    moreover have "expand_bins_by_splitting bins target L = expand_bins_by_splitting ?b target L"
      using True lr by (subst expand_bins_by_splitting.simps) (simp add: Let_def)
    moreover have "refines ?b bins" using i(1) split(1) by (rule refines_replace)
    ultimately show ?thesis
      using perm by (auto simp del: mset_concat intro: refines_trans)
  next
    case False
    then have "expand_bins_by_splitting bins target L = bins"
      by (subst expand_bins_by_splitting.simps) auto
    with "1.prems" show ?thesis by (auto simp: refines_def)
  qed
qed

definition cover :: "nat \<Rightarrow> nat list list \<Rightarrow> bool" where
  "cover n bins \<longleftrightarrow> mset (concat bins) = mset [0..<n] \<and> (\<forall>b\<in>set bins. b \<noteq> [])"

lemma cover_bound: "cover n bins \<Longrightarrow> b \<in> set bins \<Longrightarrow> i \<in> set b \<Longrightarrow> i < n"
proof -
  assume a: "cover n bins" "b \<in> set bins" "i \<in> set b"
  then have "set (concat bins) = set [0..<n]" by (metis cover_def mset_eq_setD)
  moreover have "i \<in> set (concat bins)" using a by auto
  ultimately show ?thesis by (metis atLeastLessThan_iff atLeastLessThan_upt)
qed

lemma cover_length: "cover n bins \<Longrightarrow> length (concat bins) = n"
  by (metis cover_def length_upt minus_nat.diff_0 size_mset)

lemma cover_singletons: "cover n (map (\<lambda>i. [i]) [0..<n])"
proof -
  have "concat (map (\<lambda>i. [i]) xs) = xs" for xs :: "nat list" by (induction xs) auto
  then show ?thesis by (simp add: cover_def del: mset_concat)
qed

lemma static_blocks: "concat (map (\<lambda>j. [j * m..<min (j * m + m) n]) [0..<q]) = [0..<min (q * m) n]"
proof (induction q)
  case (Suc q)
  have "[0..<min (q * m) n] @ [q * m..<min (q * m + m) n] = [0..<min (q * m + m) n]"
  proof (cases "q * m \<le> n")
    case True
    then have "q * m \<le> min (q * m + m) n" by simp
    from upt_add_eq_append [OF _, of 0 "q * m" "min (q * m + m) n - q * m"] this True
    show ?thesis by (simp add: min_absorb1)
  qed (simp add: min_def)
  with Suc show ?case by (simp add: add.commute)
qed simp

lemma range_step_blocks: "0 < m \<Longrightarrow> (n :: nat) \<le> ((n + m - 1) div m) * m"
  using div_mult_mod_eq [of "n + m - 1" m] mod_less_divisor [of m "n + m - 1"] by linarith

lemma static_cover:
  assumes "static_micro_batches mbs_size align n = Inr mbs"
  shows "cover n mbs \<and> align dvd length mbs \<and> align \<noteq> 0"
proof -
  from assms obtain m where m: "0 < m" "mbs = map (\<lambda>i. [i..<min (i + m) n]) (range_step n m)"
    "align \<noteq> 0" "align dvd length mbs"
    by (auto simp: static_micro_batches_def Let_def dvd_eq_mod_eq_0 split: option.splits if_splits)
  have "concat mbs = [0..<n]"
    using static_blocks [of m n "(n + m - 1) div m"] range_step_blocks [OF m(1), of n]
    by (simp add: m(2) range_step_def o_def min_absorb2)
  moreover have start: "j * m < n" if "j < (n + m - 1) div m" for j
  proof -
    from that have "Suc j * m \<le> n + m - 1" by (metis Suc_leI less_eq_div_iff_mult_less_eq m(1))
    with m(1) show ?thesis by simp
  qed
  have "[j * m..<min (j * m + m) n] \<noteq> []" if "j < (n + m - 1) div m" for j
    using m(1) start [OF that] by (auto simp: min_def)
  then have "\<forall>b\<in>set mbs. b \<noteq> []"
    by (auto simp: m(2) range_step_def simp del: upt_eq_Nil_conv)
  ultimately show ?thesis using m by (simp add: cover_def)
qed

lemma grow_cover:
  assumes "cover (length L) mbs" "\<forall>v\<in>set L. 0 < v" "grow_micro_batches mbs align L = Inr mbs'"
  shows "cover (length L) mbs' \<and> align dvd length mbs' \<and> align \<noteq> 0 \<and> refines mbs' mbs"
proof -
  from assms(3) have a: "align \<noteq> 0" by (cases "align = 0") (auto simp: grow_micro_batches_def)
  let ?t = "max ((length mbs + align - 1) div align * align) align"
  have dvd: "align dvd ?t" by (simp add: max_def)
  have pos: "\<forall>i\<in>set (concat mbs). 0 < L ! i"
    using assms(1,2) by (metis cover_def mset_eq_setD atLeastLessThan_iff atLeastLessThan_upt nth_mem)
  have ne: "\<forall>b\<in>set mbs. b \<noteq> []" using assms(1) by (simp add: cover_def)
  show ?thesis
  proof (cases "?t = length mbs")
    case True
    with assms(3) a have "mbs' = mbs" by (auto simp: grow_micro_batches_def)
    with True dvd a assms(1) show ?thesis by (auto simp: refines_def)
  next
    case False
    with assms(3) a have "mbs' = expand_bins_by_splitting mbs ?t L" "length mbs' = ?t"
      by (auto simp: grow_micro_batches_def Let_def rbind_Inr_iff)
    with expand_bins_keeps [OF ne pos, of ?t] dvd a assms(1) show ?thesis
      by (simp add: cover_def del: mset_concat)
  qed
qed

lemma cover_partitions:
  "0 < k \<Longrightarrow> k \<le> n \<Longrightarrow> length w = n \<Longrightarrow> \<forall>v\<in>set w. 0 \<le> v \<Longrightarrow>
   get_seqlen_balanced_partitions w k False = Inr ps \<Longrightarrow> cover n ps"
  using balanced_partitions_total [of k w False] by (auto simp: cover_def simp del: mset_concat)

lemma cover_pack:
  assumes "\<forall>v\<in>set L. 0 < v" "L \<noteq> []" "pack_under_budget ws cap L = Inr mbs"
    "\<And>w. ws = Some w \<Longrightarrow> length w = length L \<and> (\<forall>v\<in>set w. 0 \<le> v)"
  shows "cover (length L) mbs \<and> (ws = None \<longrightarrow> (\<forall>b\<in>set mbs. tokens_of L b \<le> cap \<or> length b = 1))"
proof (cases ws)
  case None
  have "mset (sort_key (\<lambda>i. - (L ! i)) [0..<length L]) = mset [0..<length L]" by simp
  from first_fit_packing_ok [OF this, of cap] assms(1,3) None show ?thesis
    by (auto simp: pack_under_budget_def first_fit_decreasing_pack_def packing_ok_def cover_def
        less_imp_le simp del: mset_concat)
next
  case (Some w)
  let ?c = "max 1 ((sum_list L + cap - 1) div cap)"
  from assms(3) Some consider
    "mbs = map (\<lambda>i. [i]) [0..<length L]"
    | "\<not> int (length L) \<le> ?c" "get_seqlen_balanced_partitions w (nat ?c) False = Inr mbs"
    by (auto simp: pack_under_budget_def Let_def split: if_splits)
  then have "cover (length L) mbs"
  proof cases
    case 2
    then show ?thesis
      using assms(4) [OF Some] by (intro cover_partitions [of "nat ?c" _ w]) auto
  qed (simp add: cover_singletons)
  with Some show ?thesis by simp
qed

section \<open>Distribution\<close>

lemma mset_concat_classes:
  "distinct rs \<Longrightarrow> mset (concat (map (\<lambda>r. filter (\<lambda>x. f x = r) xs) rs)) = mset (filter (\<lambda>x. f x \<in> set rs) xs)"
proof (induction rs)
  case (Cons r rs)
  have "mset (filter (\<lambda>x. f x = r) xs) + mset (filter (\<lambda>x. f x \<in> set rs) xs)
    = mset (filter (\<lambda>x. f x = r \<or> f x \<in> set rs) xs)"
    using Cons.prems by (induction xs) auto
  with Cons show ?case by simp
qed simp

lemma length_mod_class: "r < d \<Longrightarrow> length (filter (\<lambda>k. k mod d = r) [0..<q * d]) = q"
proof (induction q)
  case (Suc q)
  have "[0..<Suc q * d] = [0..<q * d] @ [q * d..<q * d + d]"
    using upt_add_eq_append [of 0 "q * d" d] by (simp add: add.commute)
  moreover have "filter (\<lambda>k. k mod d = r) [q * d..<q * d + d] = [q * d + r]"
  proof -
    have "[q * d..<q * d + d] = map (\<lambda>i. i + q * d) [0..<d]" by (simp add: map_add_upt add.commute)
    moreover have "filter (\<lambda>i. (i + q * d) mod d = r) [0..<d] = [r]"
    proof -
      have "filter (\<lambda>i. (i + q * d) mod d = r) [0..<d] = filter (\<lambda>i. i = r) [0..<d]"
        by (rule filter_cong) auto
      also have "\<dots> = [r]" using Suc.prems
        by (induction d) (auto simp: less_Suc_eq filter_empty_conv)
      finally show ?thesis .
    qed
    ultimately show ?thesis by (simp add: filter_map o_def)
  qed
  ultimately show ?case using Suc by simp
qed simp

definition even_deal :: "nat \<Rightarrow> nat \<Rightarrow> nat list list \<Rightarrow> bool" where
  "even_deal n dp ranks \<longleftrightarrow> length ranks = dp \<and> mset (concat ranks) = mset [0..<n]
     \<and> (\<forall>r\<in>set ranks. length r * dp = n)"

lemma even_deal_balanced:
  "0 < dp \<Longrightarrow> 0 < length w \<Longrightarrow> dp dvd length w \<Longrightarrow> \<forall>v\<in>set w. 0 \<le> v \<Longrightarrow>
   \<exists>ranks. get_seqlen_balanced_partitions w dp True = Inr ranks \<and> even_deal (length w) dp ranks"
  using balanced_partitions_total [of dp w True] dvd_imp_le [of dp "length w"]
  by (fastforce simp: even_deal_def dvd_eq_mod_eq_0 simp del: mset_concat)

lemma even_deal_strided:
  assumes "0 < dp" "dp dvd n"
  shows "even_deal n dp (map (\<lambda>rank. filter (\<lambda>k. k mod dp = rank) [0..<n]) [0..<dp])"
proof -
  from assms(2) obtain q where n: "n = q * dp" by (metis dvd_def mult.commute)
  have "mset (concat (map (\<lambda>r. filter (\<lambda>k. k mod dp = r) [0..<n]) [0..<dp])) = mset (filter (\<lambda>k. k mod dp \<in> set [0..<dp]) [0..<n])"
    by (rule mset_concat_classes) simp
  also have "filter (\<lambda>k. k mod dp \<in> set [0..<dp]) [0..<n] = [0..<n]"
    using assms(1) by (simp add: filter_id_conv)
  finally show ?thesis
    using length_mod_class by (auto simp: even_deal_def n simp del: mset_concat)
qed

lemma distribute_even:
  assumes "0 < dp" "0 < length mbs" "dp dvd length mbs" "cover (length L) mbs" "\<forall>v\<in>set L. 0 < v"
    "\<And>w. ws = Some w \<Longrightarrow> length w = length L \<and> (\<forall>v\<in>set w. 0 \<le> v)"
  shows "\<exists>ranks. distribute_micro_batches args dp ws L mbs = Inr ranks \<and> even_deal (length mbs) dp ranks"
proof -
  have bound: "i < length L" if "mb \<in> set mbs" "i \<in> set mb" for mb i
    using assms(4) that by (rule cover_bound)
  show ?thesis
  proof (cases ws)
    case (Some w)
    have "\<forall>v\<in>set (map (\<lambda>mb. sum_list (map ((!) w) mb)) mbs). 0 \<le> v"
      using assms(6) [OF Some] bound by (auto intro!: sum_list_nonneg)
    from even_deal_balanced [OF assms(1) _ _ this] assms(2,3) Some show ?thesis
      by (simp add: distribute_micro_batches_def)
  next
    case None
    have "\<forall>v\<in>set (map (tokens_of L) mbs). 0 \<le> v"
      using assms(5) bound by (auto intro!: tokens_of_nonneg intro: less_imp_le)
    from even_deal_balanced [OF assms(1) _ _ this] assms(2,3) None
      even_deal_strided [OF assms(1,3)] show ?thesis
      by (simp add: distribute_micro_batches_def)
  qed
qed

section \<open>The plan of a step\<close>

definition plan_ok :: "nat \<Rightarrow> nat list \<Rightarrow> step_plan \<Rightarrow> bool" where
  "plan_ok dp samples plan \<longleftrightarrow>
     sample_indices plan = samples \<and> cover (length samples) (micro_batches plan)
     \<and> 0 < length (micro_batches plan) \<and> dp dvd length (micro_batches plan)
     \<and> even_deal (length (micro_batches plan)) dp (rank_micro_batch_ids plan)"

definition layout_ok :: "layout \<Rightarrow> bool" where
  "layout_ok lay \<longleftrightarrow> dp_size lay dvd align_to lay"

definition inputs_ok :: "dp_args \<Rightarrow> int list \<Rightarrow> bool" where
  "inputs_ok args total_lengths \<longleftrightarrow> (\<forall>v\<in>set total_lengths. 0 < v)
     \<and> (balance_by_flops args \<longrightarrow> args_nonneg (model_args args))"

lemma res_all_InrD: "res_all rs = Inr xs \<Longrightarrow> list_all2 (\<lambda>r x. r = Inr x) rs xs"
  by (induction rs arbitrary: xs) (auto simp: rbind_Inr_iff)

lemma res_all_list_at:
  "res_all (map (list_at xs) is) = Inr ys \<Longrightarrow> (\<forall>i\<in>set is. i < length xs) \<and> ys = map ((!) xs) is"
  by (induction "is" arbitrary: ys) (auto simp: rbind_Inr_iff list_at_def split: if_splits)

lemma res_all_list_at_Inr:
  "\<forall>i\<in>set is. i < length xs \<Longrightarrow> res_all (map (list_at xs) is) = Inr (map ((!) xs) is)"
  by (intro res_all_map_Inr) (simp add: list_at_def)

lemma workloads_nonneg:
  assumes "calculate_workloads L a = Inr w" "args_nonneg a" "\<forall>v\<in>set L. 0 < v"
  shows "length w = length L \<and> (\<forall>v\<in>set w. 0 \<le> v)"
proof -
  have all: "list_all2 (\<lambda>r x. r = Inr x) (map (\<lambda>sl. calculate_fwd_flops [sl] a) L) w"
    using assms(1) res_all_InrD by (simp add: calculate_workloads_def)
  have "0 \<le> w ! i" if "i < length w" for i
  proof (rule calculate_fwd_flops_nonneg [OF assms(2)])
    show "calculate_fwd_flops [L ! i] a = Inr (w ! i)"
      using all that by (simp add: list_all2_conv_all_nth)
    show "\<forall>s\<in>set [L ! i]. 0 \<le> s"
      using all that assms(3) by (auto simp: list_all2_conv_all_nth intro: less_imp_le)
  qed
  with all show ?thesis by (auto simp: in_set_conv_nth list_all2_conv_all_nth)
qed

lemma sum_tokens_refines:
  assumes "mset b' \<subseteq># mset b" "\<forall>i\<in>set b. 0 \<le> L ! i"
  shows "tokens_of L b' \<le> tokens_of L b"
proof -
  from assms(1) obtain R where R: "mset b = mset b' + R" by (metis subset_mset.le_iff_add)
  obtain r where r: "R = mset r" by (metis ex_mset)
  have "set r \<subseteq> set b" using R r by (metis mset_append set_append set_mset_mset sup_ge2)
  then have "0 \<le> tokens_of L r" using assms(2) by (intro tokens_of_nonneg) auto
  then show ?thesis using tokens_of_mset [of b "b' @ r" L] R r by simp
qed

text \<open>Every plan the code returns is a cover of the step, dealt evenly, within the budget.\<close>

lemma plan_step_ok:
  assumes "plan_step args lay cap total_lengths samples = Inr plan"
    "layout_ok lay" "inputs_ok args total_lengths" "samples \<noteq> []"
  shows "plan_ok (dp_size lay) samples plan"
    "\<forall>i\<in>set samples. i < length total_lengths"
    "cap = Some c \<Longrightarrow> \<not> balance_by_flops args \<Longrightarrow> b \<in> set (micro_batches plan) \<Longrightarrow>
     tokens_of (map ((!) total_lengths) samples) b \<le> c \<or> length b = 1"
proof -
  let ?L = "map ((!) total_lengths) samples"
  from assms(1) obtain ws where bound: "\<forall>i\<in>set samples. i < length total_lengths"
    and ws: "(if balance_by_flops args
            then rbind (calculate_workloads ?L (model_args args)) (\<lambda>w. Inr (Some w))
            else Inr None) = Inr ws"
    and mbs: "step_micro_batches args lay cap ws ?L = Inr (micro_batches plan)"
    and ranks: "distribute_micro_batches args (dp_size lay) ws ?L (micro_batches plan)
      = Inr (rank_micro_batch_ids plan)"
    and samples: "sample_indices plan = samples"
    by (auto simp: plan_step_def rbind_Inr_iff dest!: res_all_list_at)
  show "\<forall>i\<in>set samples. i < length total_lengths" by (rule bound)
  have pos: "\<forall>v\<in>set ?L. 0 < v" using assms(3) bound by (auto simp: inputs_ok_def)
  have w: "length w = length ?L \<and> (\<forall>v\<in>set w. 0 \<le> v)" if "ws = Some w" for w
    using ws that workloads_nonneg [OF _ _ pos] assms(3)
    by (auto simp: inputs_ok_def rbind_Inr_iff split: if_splits)
  let ?M = "micro_batches plan"
  have "cover (length ?L) ?M \<and> align_to lay dvd length ?M \<and> align_to lay \<noteq> 0
    \<and> (\<forall>c b. cap = Some c \<longrightarrow> \<not> balance_by_flops args \<longrightarrow> b \<in> set ?M \<longrightarrow> tokens_of ?L b \<le> c \<or> length b = 1)"
  proof (cases cap)
    case None
    with mbs static_cover show ?thesis by (auto simp: step_micro_batches_def)
  next
    case (Some c)
    with mbs obtain m0 where m0: "pack_under_budget ws c ?L = Inr m0" "grow_micro_batches m0 (align_to lay) ?L = Inr ?M"
      by (auto simp: step_micro_batches_def rbind_Inr_iff)
    have ne: "?L \<noteq> []" using assms(4) by simp
    note pack = cover_pack [OF pos ne m0(1) w]
    note grow = grow_cover [OF pack [THEN conjunct1] pos m0(2)]
    have "tokens_of ?L b \<le> c \<or> length b = 1" if "\<not> balance_by_flops args" "b \<in> set ?M" for b
    proof -
      from grow that(2) obtain b0 where b0: "b0 \<in> set m0" "mset b \<subseteq># mset b0" "b \<noteq> []"
        by (auto simp: refines_def cover_def)
      have "ws = None" using ws that(1) by simp
      with pack b0 have "tokens_of ?L b0 \<le> c \<or> length b0 = 1" by simp
      moreover have "tokens_of ?L b \<le> tokens_of ?L b0"
        using b0 pos cover_bound [OF pack [THEN conjunct1]]
        by (intro sum_tokens_refines) (auto intro!: less_imp_le)
      moreover have "length b \<le> length b0" using b0(2) by (metis size_mset size_mset_mono)
      ultimately show ?thesis using b0(3) by (cases b) auto
    qed
    with grow Some show ?thesis by auto
  qed
  then have cov: "cover (length ?L) ?M" and dvd: "dp_size lay dvd length ?M"
    and align: "align_to lay \<noteq> 0"
    and budget: "\<And>c b. cap = Some c \<Longrightarrow> \<not> balance_by_flops args \<Longrightarrow> b \<in> set ?M \<Longrightarrow>
      tokens_of ?L b \<le> c \<or> length b = 1"
    using assms(2) by (auto simp: layout_ok_def intro: dvd_trans)
  have dp: "0 < dp_size lay" using align assms(2) by (auto simp: layout_ok_def intro: gr0I)
  have "length (concat ?M) = length ?L" using cov by (rule cover_length)
  then have M: "0 < length ?M" using assms(4) by (metis concat.simps(1) length_0_conv length_greater_0_conv length_map)
  obtain ranks where "distribute_micro_batches args (dp_size lay) ws ?L ?M = Inr ranks"
    "even_deal (length ?M) (dp_size lay) ranks"
    using distribute_even [OF dp M dvd cov pos w] by blast
  with ranks have "even_deal (length ?M) (dp_size lay) (rank_micro_batch_ids plan)" by simp
  with samples cov dvd M show "plan_ok (dp_size lay) samples plan" by (simp add: plan_ok_def)
  show "cap = Some c \<Longrightarrow> \<not> balance_by_flops args \<Longrightarrow> b \<in> set ?M \<Longrightarrow> tokens_of ?L b \<le> c \<or> length b = 1"
    by (rule budget)
qed

section \<open>The filling of the ranks\<close>

text \<open>What rank \<open>r\<close> holds: its micro-batches, as lists of sample positions.\<close>

definition rank_contents :: "rank_state \<Rightarrow> nat \<Rightarrow> nat list list" where
  "rank_contents st r = map (map (\<lambda>j. fst st ! r ! j)) (snd st ! r)"

definition rank_wf :: "nat \<Rightarrow> rank_state \<Rightarrow> bool" where
  "rank_wf dp st \<longleftrightarrow> length (fst st) = dp \<and> length (snd st) = dp
     \<and> (\<forall>r<dp. concat (snd st ! r) = [0..<length (fst st ! r)])"

definition dealt :: "step_plan \<Rightarrow> nat \<Rightarrow> nat list list" where
  "dealt plan r = map (\<lambda>k. map (\<lambda>i. sample_indices plan ! i) (micro_batches plan ! k)) (rank_micro_batch_ids plan ! r)"

lemma place_micro_batch_facts:
  assumes "rank_wf dp st" "rank < dp"
  shows "rank_wf dp (place_micro_batch plan rank st k)"
    "rank_contents (place_micro_batch plan rank st k) r = (if r = rank
       then rank_contents st r @ [map (\<lambda>i. sample_indices plan ! i) (micro_batches plan ! k)]
       else rank_contents st r)"
proof -
  obtain P M where st: "st = (P, M)" by fastforce
  let ?mb = "micro_batches plan ! k"
  have wf: "length P = dp" "length M = dp" "concat (M ! r) = [0..<length (P ! r)]" if "r < dp" for r
    using assms(1) that by (auto simp: st rank_wf_def)
  show "rank_wf dp (place_micro_batch plan rank st k)"
    unfolding rank_wf_def
  proof (intro conjI allI impI)
    fix r assume "r < dp"
    have "[0..<length (P ! rank)] @ [length (P ! rank)..<length (P ! rank) + length ?mb]
      = [0..<length (P ! rank) + length ?mb]"
      by (rule upt_add_eq_append [symmetric]) simp
    with wf [OF \<open>r < dp\<close>] wf [OF assms(2)] assms(2)
    show "concat (snd (place_micro_batch plan rank st k) ! r)
      = [0..<length (fst (place_micro_batch plan rank st k) ! r)]"
      by (cases "r = rank") (simp_all add: st place_micro_batch_def Let_def)
  qed (use wf(1,2) [OF assms(2)] in \<open>simp_all add: st place_micro_batch_def Let_def\<close>)
  have old: "map (map (\<lambda>j. (P ! rank @ xs) ! j)) (M ! rank) = map (map (\<lambda>j. P ! rank ! j)) (M ! rank)" for xs
  proof -
    have "j < length (P ! rank)" if "b \<in> set (M ! rank)" "j \<in> set b" for b j
    proof -
      have "j \<in> set (concat (M ! rank))" using that by auto
      then show ?thesis using wf(3) [OF assms(2)] by simp
    qed
    then show ?thesis by (auto simp: nth_append)
  qed
  have new: "map (\<lambda>j. (P ! rank @ xs) ! j) [length (P ! rank)..<length (P ! rank) + length xs] = xs" for xs
    by (rule nth_equalityI) auto
  show "rank_contents (place_micro_batch plan rank st k) r = (if r = rank
       then rank_contents st r @ [map (\<lambda>i. sample_indices plan ! i) ?mb]
       else rank_contents st r)"
    using old new [of "map (\<lambda>i. sample_indices plan ! i) ?mb"] wf(1,2) [OF assms(2)] assms(2)
    by (auto simp: st rank_contents_def place_micro_batch_def Let_def)
qed

lemma place_rank_facts:
  assumes "rank_wf dp st" "rank < dp"
  shows "rank_wf dp (foldl (place_micro_batch plan rank) st ids)
    \<and> rank_contents (foldl (place_micro_batch plan rank) st ids) r = (if r = rank
       then rank_contents st r @ map (\<lambda>k. map (\<lambda>i. sample_indices plan ! i) (micro_batches plan ! k)) ids
       else rank_contents st r)"
  using assms
proof (induction ids arbitrary: st)
  case (Cons k ids)
  note step = place_micro_batch_facts [OF Cons.prems, of plan k]
  from Cons.IH [OF step(1) Cons.prems(2)] step(2) show ?case by simp
qed simp

lemma place_ranks_facts:
  assumes "rank_wf dp st" "\<forall>p\<in>set ps. fst p < dp" "distinct (map fst ps)"
  shows "rank_wf dp (foldl (\<lambda>st (rank, ids). foldl (place_micro_batch plan rank) st ids) st ps)
    \<and> rank_contents (foldl (\<lambda>st (rank, ids). foldl (place_micro_batch plan rank) st ids) st ps) r
      = rank_contents st r @ (case map_of ps r of None \<Rightarrow> []
         | Some ids \<Rightarrow> map (\<lambda>k. map (\<lambda>i. sample_indices plan ! i) (micro_batches plan ! k)) ids)"
  using assms
proof (induction ps arbitrary: st)
  case (Cons p ps)
  obtain rank ids where p: "p = (rank, ids)" by fastforce
  let ?st = "foldl (place_micro_batch plan rank) st ids"
  have rank: "rank < dp" using Cons.prems(2) p by simp
  note step = place_rank_facts [OF Cons.prems(1) rank, of plan ids r]
  have "map_of ps rank = None" using Cons.prems(3) p by (force simp: map_of_eq_None_iff)
  with Cons.IH [of ?st] step Cons.prems p show ?case by auto
qed simp

lemma place_step_facts:
  assumes "rank_wf dp st" "length (rank_micro_batch_ids plan) = dp"
  shows "rank_wf dp (place_step st plan)"
    "r < dp \<Longrightarrow> rank_contents (place_step st plan) r = rank_contents st r @ dealt plan r"
proof -
  let ?ps = "enum (rank_micro_batch_ids plan)"
  have "\<forall>p\<in>set ?ps. fst p < dp" "distinct (map fst ?ps)" using assms(2) by auto
  note facts = place_ranks_facts [OF assms(1) this, of plan r]
  from facts show "rank_wf dp (place_step st plan)" by (simp add: place_step_def)
  assume r: "r < dp"
  have "map_of ?ps r = Some (rank_micro_batch_ids plan ! r)"
    using r assms(2) by (intro map_of_is_SomeI) auto
  with facts show "rank_contents (place_step st plan) r = rank_contents st r @ dealt plan r"
    by (simp add: place_step_def dealt_def)
qed

lemma place_steps_facts:
  assumes "rank_wf dp st" "\<forall>plan\<in>set plans. length (rank_micro_batch_ids plan) = dp"
  shows "rank_wf dp (foldl place_step st plans)
    \<and> (\<forall>r<dp. rank_contents (foldl place_step st plans) r
        = rank_contents st r @ concat (map (\<lambda>plan. dealt plan r) plans))"
  using assms
proof (induction plans arbitrary: st)
  case (Cons plan plans)
  have "length (rank_micro_batch_ids plan) = dp" using Cons.prems by simp
  note step = place_step_facts [OF Cons.prems(1) this]
  from Cons.IH [OF step(1)] Cons.prems(2) step(2) show ?case by simp
qed simp

lemma rank_wf_init: "rank_wf dp (replicate dp [], replicate dp [])"
  by (simp add: rank_wf_def)

section \<open>The schedule\<close>

text \<open>
  The reading of a schedule: what rank \<open>r\<close> runs in step \<open>t\<close> is the block of its
  micro-batches that \<open>num_microbatches\<close> cuts out, with the samples the indices point to.
\<close>

definition rank_micro_batches :: "schedule \<Rightarrow> nat \<Rightarrow> nat list list" where
  "rank_micro_batches S r = map (map (\<lambda>j. partitions S ! r ! j)) (micro_batch_indices S ! r)"

definition block :: "nat list \<Rightarrow> nat \<Rightarrow> 'a list \<Rightarrow> 'a list" where
  "block sizes t xs = slice (sum_list (take t sizes)) (sum_list (take (Suc t) sizes)) xs"

definition counts_ok :: "nat \<Rightarrow> nat \<Rightarrow> nat list \<Rightarrow> bool" where
  "counts_ok gbs n counts \<longleftrightarrow> 0 < gbs \<and>
     (\<exists>m\<ge>1. counts = replicate m gbs \<and> m * gbs \<le> n
       \<or> (\<exists>l. 0 < l \<and> l < gbs \<and> counts = replicate m gbs @ [l] \<and> m * gbs + l = n))"

definition schedule_ok :: "nat \<Rightarrow> nat \<Rightarrow> int list \<Rightarrow> schedule \<Rightarrow> bool" where
  "schedule_ok dp gbs rids S \<longleftrightarrow>
     length (partitions S) = dp \<and> length (micro_batch_indices S) = dp
     \<and> counts_ok gbs (length (first_seen rids)) (num_rollouts S)
     \<and> length (num_microbatches S) = length (num_rollouts S)
     \<and> (\<forall>r<dp. concat (micro_batch_indices S ! r) = [0..<length (partitions S ! r)]
          \<and> length (micro_batch_indices S ! r) = sum_list (num_microbatches S))
     \<and> (\<forall>t<length (num_rollouts S).
          mset (concat (concat (map (\<lambda>r. block (num_microbatches S) t (rank_micro_batches S r)) [0..<dp])))
          = mset (concat (map (positions rids) (block (num_rollouts S) t (first_seen rids)))))"

lemma block_concat:
  "t < length xss \<Longrightarrow> block (map length xss) t (concat xss) = xss ! t"
proof -
  assume t: "t < length xss"
  have pre: "sum_list (take n (map length xss)) = length (concat (take n xss))" for n
    by (simp add: length_concat take_map)
  have "concat xss = concat (take t xss) @ xss ! t @ concat (drop (Suc t) xss)"
    using id_take_nth_drop [OF t] by (metis concat.simps(2) concat_append)
  moreover have "length (concat (take (Suc t) xss)) = length (concat (take t xss)) + length (xss ! t)"
    using t by (simp add: take_Suc_conv_app_nth)
  ultimately show ?thesis by (simp add: block_def slice_def pre)
qed

lemma step_ranges_nth:
  "t < length ns \<Longrightarrow> step_ranges s ns ! t = (s + sum_list (take t ns), s + sum_list (take (Suc t) ns))"
proof (induction ns arbitrary: s t)
  case (Cons n ns)
  then show ?case by (cases t) auto
qed simp

lemma length_step_ranges [simp]: "length (step_ranges s ns) = length ns"
  by (induction ns arbitrary: s) auto

lemma mset_concat_map_cong: "mset ks = mset ks' \<Longrightarrow> mset (concat (map f ks)) = mset (concat (map f ks'))"
proof -
  have "mset (concat (map f xs)) = (\<Sum>k\<in>#mset xs. mset (f k))" for xs by (induction xs) auto
  then show "mset ks = mset ks' \<Longrightarrow> mset (concat (map f ks)) = mset (concat (map f ks'))" by simp
qed

lemma dealt_facts:
  assumes "plan_ok dp samples plan"
  shows "mset (concat (concat (map (dealt plan) [0..<dp]))) = mset samples"
    "r < dp \<Longrightarrow> length (dealt plan r) = length (micro_batches plan) div dp"
proof -
  let ?R = "rank_micro_batch_ids plan" and ?M = "micro_batches plan"
  let ?f = "\<lambda>k. map (\<lambda>i. sample_indices plan ! i) (?M ! k)"
  from assms have si: "sample_indices plan = samples" and R: "length ?R = dp"
    "mset (concat ?R) = mset [0..<length ?M]" "\<forall>r\<in>set ?R. length r * dp = length ?M"
    and M: "mset (concat ?M) = mset [0..<length samples]" "0 < length ?M"
    by (auto simp: plan_ok_def even_deal_def cover_def)
  have "map (dealt plan) [0..<dp] = map (map ?f) ?R"
    by (rule nth_equalityI) (auto simp: R(1) dealt_def)
  then have "concat (map (dealt plan) [0..<dp]) = map ?f (concat ?R)"
    by (simp add: map_concat)
  then have "mset (concat (concat (map (dealt plan) [0..<dp]))) = mset (concat (map ?f [0..<length ?M]))"
    using mset_concat_map_cong [OF R(2), of ?f] by simp
  also have "map ?f [0..<length ?M] = map (map (\<lambda>i. samples ! i)) ?M"
    by (rule nth_equalityI) (auto simp: si)
  also have "mset (concat (map (map (\<lambda>i. samples ! i)) ?M)) = image_mset (\<lambda>i. samples ! i) (mset (concat ?M))"
    by (metis map_concat mset_map)
  also have "\<dots> = mset (map (\<lambda>i. samples ! i) [0..<length samples])" by (simp only: M(1) mset_map)
  also have "\<dots> = mset samples" by (simp only: map_nth)
  finally show "mset (concat (concat (map (dealt plan) [0..<dp]))) = mset samples" .
  assume r: "r < dp"
  then have "length (?R ! r) * dp = length ?M" using R(1,3) by simp
  moreover have "0 < dp" using r by simp
  ultimately show "length (dealt plan r) = length ?M div dp"
    by (metis dealt_def div_mult_self_is_m length_map)
qed

lemma plan_num_rollouts_ok:
  assumes "plan_num_rollouts args dp groups gbs = Inr counts"
  shows "counts_ok gbs (length groups) counts"
proof -
  let ?n = "length groups" let ?m = "?n div gbs"
  from assms have g: "0 < gbs" "1 \<le> ?m"
    and c: "counts = replicate ?m gbs \<or> ?n - ?m * gbs \<noteq> 0 \<and> counts = replicate ?m gbs @ [?n - ?m * gbs]"
    by (auto simp: plan_num_rollouts_def Let_def rbind_Inr_iff split: if_splits)
  have le: "?m * gbs \<le> ?n" and lt: "?n - ?m * gbs < gbs"
    using g(1) by (simp_all add: minus_div_mult_eq_mod)
  have "\<exists>l. 0 < l \<and> l < gbs \<and> counts = replicate ?m gbs @ [l] \<and> ?m * gbs + l = ?n"
    if "?n - ?m * gbs \<noteq> 0" "counts = replicate ?m gbs @ [?n - ?m * gbs]"
  proof -
    from le that(1) have "?m * gbs + (?n - ?m * gbs) = ?n" "0 < ?n - ?m * gbs" by linarith+
    with that(2) lt show ?thesis by blast
  qed
  with c g le show ?thesis unfolding counts_ok_def by blast
qed

lemma sum_list_counts: "counts_ok gbs n counts \<Longrightarrow> sum_list counts \<le> n"
  by (auto simp: counts_ok_def sum_list_replicate)

lemma plan_step_dp:
  assumes "plan_step args lay cap total_lengths samples = Inr plan" "layout_ok lay"
  shows "0 < dp_size lay" "samples \<noteq> []"
proof -
  show dp: "0 < dp_size lay"
  proof (rule ccontr)
    assume "\<not> 0 < dp_size lay"
    then have "align_to lay = 0" using assms(2) by (simp add: layout_ok_def)
    then have no: "grow_micro_batches m (align_to lay) L = Inl ZeroDivisionError"
      "static_micro_batches s (align_to lay) n \<noteq> Inr mbs" for m L s n mbs
      using static_cover [of s "align_to lay" n mbs] by (auto simp: grow_micro_batches_def)
    have "step_micro_batches args lay cap ws L \<noteq> Inr mbs" for ws L mbs
      by (cases cap) (auto simp: step_micro_batches_def no rbind_Inr_iff)
    with assms(1) show False by (auto simp: plan_step_def rbind_Inr_iff)
  qed
  from assms(1) have "dp_size lay \<le> length samples" by (auto simp: plan_step_def rbind_Inr_iff)
  with dp show "samples \<noteq> []" by auto
qed

lemma read_layout_ok: "read_layout config = Inr lay \<Longrightarrow> layout_ok lay"
  by (auto simp: read_layout_def layout_ok_def rbind_Inr_iff Let_def)

text \<open>The plans behind a schedule, one per step.\<close>

lemma build_dp_schedule_plans:
  assumes "build_dp_schedule args config total_lengths gbs rids = Inr S"
  obtains lay cap counts plans where "read_layout config = Inr lay" "layout_ok lay" "token_budget args lay = Inr cap"
    "counts_ok gbs (length (first_seen rids)) counts" "num_rollouts S = counts"
    "length plans = length counts"
    "\<And>t. t < length counts \<Longrightarrow> plan_step args lay cap total_lengths
       (concat (map (positions rids) (block counts t (first_seen rids)))) = Inr (plans ! t)"
    "num_microbatches S = map (\<lambda>plan. length (micro_batches plan) div dp_size lay) plans"
    "(partitions S, micro_batch_indices S)
      = foldl place_step (replicate (dp_size lay) [], replicate (dp_size lay) []) plans"
proof -
  let ?G = "group_rollouts rids"
  from assms obtain lay cap counts plans where 1: "read_layout config = Inr lay" "token_budget args lay = Inr cap"
    and counts: "plan_num_rollouts args (dp_size lay) ?G gbs = Inr counts"
    and plans: "res_all (map (\<lambda>(a, b). plan_step args lay cap total_lengths
        (rollout_samples ?G (slice a b (dkeys ?G)))) (step_ranges 0 counts)) = Inr plans"
    and S: "num_rollouts S = counts"
      "num_microbatches S = map (\<lambda>plan. length (micro_batches plan) div dp_size lay) plans"
      "(partitions S, micro_batch_indices S)
      = foldl place_step (replicate (dp_size lay) [], replicate (dp_size lay) []) plans"
    by (auto simp: build_dp_schedule_def rbind_Inr_iff Let_def case_prod_unfold)
  have len: "length ?G = length (first_seen rids)" by (metis dkeys_group_rollouts length_map)
  note all = res_all_InrD [OF plans]
  have n: "length plans = length counts" using list_all2_lengthD [OF all] by simp
  have "plan_step args lay cap total_lengths
       (concat (map (positions rids) (block counts t (first_seen rids)))) = Inr (plans ! t)"
    if "t < length counts" for t
    using list_all2_nthD [OF all, of t] that step_ranges_nth [OF that, of 0]
    by (simp add: rollout_samples_group dkeys_group_rollouts block_def)
  with 1 S n plan_num_rollouts_ok [OF counts] len read_layout_ok [OF 1(1)] show thesis
    by (intro that) simp_all
qed

lemma build_dp_schedule_blocks:
  assumes "(P, M) = foldl place_step (replicate dp [], replicate dp []) plans"
    "\<And>t. t < length plans \<Longrightarrow> plan_ok dp (samples t) (plans ! t)"
    "r < dp"
  shows "length P = dp" "length M = dp" "concat (M ! r) = [0..<length (P ! r)]"
    "map (map (\<lambda>j. P ! r ! j)) (M ! r) = concat (map (\<lambda>plan. dealt plan r) plans)"
    "map (\<lambda>plan. length (dealt plan r)) plans = map (\<lambda>plan. length (micro_batches plan) div dp) plans"
proof -
  have plan: "\<exists>s. plan_ok dp s plan" if "plan \<in> set plans" for plan
    using that assms(2) by (metis in_set_conv_nth)
  then have "\<forall>plan\<in>set plans. length (rank_micro_batch_ids plan) = dp"
    by (auto simp: plan_ok_def even_deal_def)
  from place_steps_facts [OF rank_wf_init this] have
    facts: "rank_wf dp (P, M)" "rank_contents (P, M) r = concat (map (\<lambda>plan. dealt plan r) plans)"
    using assms(1,3) by (auto simp: rank_contents_def)
  from facts assms(3) show "length P = dp" "length M = dp" "concat (M ! r) = [0..<length (P ! r)]"
    "map (map (\<lambda>j. P ! r ! j)) (M ! r) = concat (map (\<lambda>plan. dealt plan r) plans)"
    by (auto simp: rank_wf_def rank_contents_def)
  show "map (\<lambda>plan. length (dealt plan r)) plans = map (\<lambda>plan. length (micro_batches plan) div dp) plans"
    using plan dealt_facts(2) assms(3) by fastforce
qed

text \<open>
  C1: a schedule keeps every planned sample exactly once and nothing else: in each
  training step the ranks together run exactly the samples of the step's rollouts, whole
  rollouts only; the indices of a rank tile its partition in order; and every rank runs
  the same number of micro-batches.
\<close>

theorem build_dp_schedule_ok:
  assumes "build_dp_schedule args config total_lengths gbs rids = Inr S" "inputs_ok args total_lengths"
  shows "\<exists>lay. read_layout config = Inr lay \<and> schedule_ok (dp_size lay) gbs rids S"
proof -
  obtain lay cap counts plans where *: "read_layout config = Inr lay" "layout_ok lay"
    "counts_ok gbs (length (first_seen rids)) counts" "num_rollouts S = counts"
    "length plans = length counts"
    "\<And>t. t < length counts \<Longrightarrow> plan_step args lay cap total_lengths
       (concat (map (positions rids) (block counts t (first_seen rids)))) = Inr (plans ! t)"
    "num_microbatches S = map (\<lambda>plan. length (micro_batches plan) div dp_size lay) plans"
    "(partitions S, micro_batch_indices S)
      = foldl place_step (replicate (dp_size lay) [], replicate (dp_size lay) []) plans"
    by (rule build_dp_schedule_plans [OF assms(1)]) (rule that)
  let ?dp = "dp_size lay"
  let ?s = "\<lambda>t. concat (map (positions rids) (block counts t (first_seen rids)))"
  have plan: "plan_ok ?dp (?s t) (plans ! t)" if "t < length plans" for t
  proof -
    have ps: "plan_step args lay cap total_lengths (?s t) = Inr (plans ! t)" using *(5,6) that by simp
    show ?thesis by (rule plan_step_ok(1) [OF ps *(2) assms(2) plan_step_dp(2) [OF ps *(2)]])
  qed
  have dp: "0 < ?dp" using *(2,3,5,6) plan_step_dp(1) by (fastforce simp: counts_ok_def)
  note blocks = build_dp_schedule_blocks [OF *(8) plan]
  have mb: "rank_micro_batches S r = concat (map (\<lambda>plan. dealt plan r) plans)" if "r < ?dp" for r
    using blocks(4) [OF _ that] by (simp add: rank_micro_batches_def)
  have nmb: "map length (map (\<lambda>plan. dealt plan r) plans) = num_microbatches S" if "r < ?dp" for r
    using blocks(5) [OF _ that] *(7) by (simp add: o_def)
  have "block (num_microbatches S) t (rank_micro_batches S r) = dealt (plans ! t) r"
    if "r < ?dp" "t < length counts" for r t
    using block_concat [of t "map (\<lambda>plan. dealt plan r) plans"] that *(5) mb nmb by simp
  then have deal: "map (\<lambda>r. block (num_microbatches S) t (rank_micro_batches S r)) [0..<?dp]
      = map (dealt (plans ! t)) [0..<?dp]" if "t < length counts" for t
    using that by auto
  have "length (micro_batch_indices S ! r) = sum_list (num_microbatches S)" if "r < ?dp" for r
    using nmb [OF that] mb [OF that] by (metis length_concat length_map rank_micro_batches_def)
  moreover have "mset (concat (concat (map (\<lambda>r. block (num_microbatches S) t (rank_micro_batches S r)) [0..<?dp])))
      = mset (?s t)" if "t < length counts" for t
    using deal [OF that] dealt_facts(1) [OF plan] that *(5) by (simp only:)
  moreover have "length (num_microbatches S) = length counts" using *(5,7) by simp
  ultimately have "schedule_ok ?dp gbs rids S"
    unfolding schedule_ok_def using *(3,4) blocks(1-3) dp by blast
  with *(1) show ?thesis by blast
qed

text \<open>
  C5: on the dynamic path without FLOPs balancing, no micro-batch of any rank exceeds the
  token budget unless it is a single sample.
\<close>

theorem build_dp_schedule_budget:
  assumes "build_dp_schedule args config total_lengths gbs rids = Inr S" "inputs_ok args total_lengths"
    "use_dynamic_batch_size args" "\<not> balance_by_flops args" "max_tokens_per_gpu args = Some m"
    "read_layout config = Inr lay" "r < dp_size lay" "b \<in> set (rank_micro_batches S r)"
  shows "sum_list (map (\<lambda>i. total_lengths ! i) b) \<le> m * int (cp_size lay) \<or> length b = 1"
proof -
  obtain cap counts plans where *: "layout_ok lay" "token_budget args lay = Inr cap"
    "length plans = length counts"
    "\<And>t. t < length counts \<Longrightarrow> plan_step args lay cap total_lengths
       (concat (map (positions rids) (block counts t (first_seen rids)))) = Inr (plans ! t)"
    "(partitions S, micro_batch_indices S)
      = foldl place_step (replicate (dp_size lay) [], replicate (dp_size lay) []) plans"
    using build_dp_schedule_plans [OF assms(1)] assms(6) by (metis sum.inject(2))
  have cap: "cap = Some (m * int (cp_size lay))" using *(2) assms(3,5) by (simp add: token_budget_def)
  let ?s = "\<lambda>t. concat (map (positions rids) (block counts t (first_seen rids)))"
  have plan: "plan_ok (dp_size lay) (?s t) (plans ! t)"
    "c \<in> set (micro_batches (plans ! t)) \<Longrightarrow>
      tokens_of (map ((!) total_lengths) (?s t)) c \<le> m * int (cp_size lay) \<or> length c = 1"
    if "t < length plans" for t c
  proof -
    have ps: "plan_step args lay cap total_lengths (?s t) = Inr (plans ! t)" using *(3,4) that by simp
    note ok = plan_step_ok [OF ps *(1) assms(2) plan_step_dp(2) [OF ps *(1)]]
    show "plan_ok (dp_size lay) (?s t) (plans ! t)" by (rule ok(1))
    show "c \<in> set (micro_batches (plans ! t)) \<Longrightarrow>
      tokens_of (map ((!) total_lengths) (?s t)) c \<le> m * int (cp_size lay) \<or> length c = 1"
      using ok(3) [OF cap assms(4)] .
  qed
  from build_dp_schedule_blocks(4) [OF *(5) plan(1) assms(7)] assms(8) obtain plan where
    "plan \<in> set plans" "b \<in> set (dealt plan r)"
    by (auto simp: rank_micro_batches_def)
  then obtain t where t: "t < length plans" "b \<in> set (dealt (plans ! t) r)" by (auto simp: in_set_conv_nth)
  note ok = plan(1) [OF t(1)]
  let ?R = "rank_micro_batch_ids (plans ! t)"
  from t(2) obtain k where k: "k \<in> set (?R ! r)" and b: "b = map (\<lambda>i. ?s t ! i) (micro_batches (plans ! t) ! k)"
    using ok by (auto simp: dealt_def plan_ok_def)
  have "k \<in> set (concat ?R)" using k ok assms(7) by (auto simp: plan_ok_def even_deal_def)
  then have "k < length (micro_batches (plans ! t))"
    using ok mset_eq_setD [of "concat ?R" "[0..<length (micro_batches (plans ! t))]"]
    by (simp add: plan_ok_def even_deal_def del: mset_concat set_concat)
  then have mb: "micro_batches (plans ! t) ! k \<in> set (micro_batches (plans ! t))" by simp
  have "\<forall>i\<in>set (micro_batches (plans ! t) ! k). i < length (?s t)"
    using ok mb cover_bound by (auto simp: plan_ok_def)
  then have "tokens_of (map ((!) total_lengths) (?s t)) (micro_batches (plans ! t) ! k)
      = sum_list (map (\<lambda>i. total_lengths ! i) b)"
    by (simp add: tokens_of_def b o_def cong: map_cong)
  with plan(2) [OF t(1) mb] b show ?thesis by simp
qed

section \<open>Totality of the dynamic path\<close>

lemma grow_total:
  assumes "cover (length L) mbs" "\<forall>v\<in>set L. 0 < v" "L \<noteq> []" "0 < align" "align dvd length L"
  shows "\<exists>mbs'. grow_micro_batches mbs align L = Inr mbs'"
proof -
  let ?t = "max ((length mbs + align - 1) div align * align) align"
  have pos: "\<forall>i\<in>set (concat mbs). 0 < L ! i"
    using assms(1,2) by (metis cover_def mset_eq_setD atLeastLessThan_iff atLeastLessThan_upt nth_mem)
  have ne: "\<forall>b\<in>set mbs. b \<noteq> []" using assms(1) by (simp add: cover_def)
  have len: "length (concat mbs) = length L" using assms(1) by (rule cover_length)
  obtain q where q: "length L = align * q" using assms(5) by (rule dvdE)
  with assms(3) have "1 \<le> q" by (cases q) auto
  have "length mbs \<le> length (concat mbs)" using ne by (induction mbs) (auto simp: Suc_le_eq add_strict_increasing length_greater_0_conv)
  with len q have "length mbs + align - 1 < align * Suc q" using assms(4) by simp
  then have "(length mbs + align - 1) div align \<le> q"
    by (metis less_Suc_eq_le less_mult_imp_div_less mult.commute)
  then have "(length mbs + align - 1) div align * align \<le> length L" using q by (simp add: mult.commute)
  moreover have "align \<le> length L" using q \<open>1 \<le> q\<close> by simp
  ultimately have t: "?t \<le> length (concat mbs)" using len by simp
  have grown: "length mbs \<le> ?t"
    using range_step_blocks [OF assms(4), of "length mbs"] by simp
  with expand_bins_total [OF ne pos t] have "length (expand_bins_by_splitting mbs ?t L) = ?t"
    by (simp add: expansion_ok_def max_absorb1)
  with assms(4) show ?thesis by (simp add: grow_micro_batches_def Let_def)
qed

lemma plan_step_total:
  assumes "layout_ok lay" "0 < align_to lay" "inputs_ok args total_lengths" "\<not> balance_by_flops args"
    "\<forall>i\<in>set samples. i < length total_lengths" "samples \<noteq> []" "align_to lay dvd length samples"
  shows "\<exists>plan. plan_step args lay (Some c) total_lengths samples = Inr plan"
proof -
  let ?L = "map ((!) total_lengths) samples"
  have pos: "\<forall>v\<in>set ?L. 0 < v" using assms(3,5) by (auto simp: inputs_ok_def)
  have ne: "?L \<noteq> []" using assms(6) by simp
  let ?m0 = "first_fit_decreasing_pack ?L c"
  have pack: "pack_under_budget None c ?L = Inr ?m0" by (simp add: pack_under_budget_def)
  note cov = cover_pack [OF pos ne pack, THEN conjunct1]
  have dvd: "align_to lay dvd length ?L" using assms(7) by simp
  obtain mbs where mbs: "grow_micro_batches ?m0 (align_to lay) ?L = Inr mbs"
    using grow_total [OF cov pos ne assms(2) dvd] by auto
  note grown = grow_cover [OF cov pos mbs]
  have dp: "0 < dp_size lay" using assms(1,2) by (auto simp: layout_ok_def intro: gr0I)
  have "length (concat mbs) = length ?L" using grown by (simp add: cover_length del: length_concat)
  then have M: "0 < length mbs" using ne by (metis concat.simps(1) length_0_conv length_greater_0_conv)
  have "dp_size lay dvd length mbs" using grown assms(1) by (auto simp: layout_ok_def intro: dvd_trans)
  then obtain ranks where ranks: "distribute_micro_batches args (dp_size lay) None ?L mbs = Inr ranks"
    using distribute_even [OF dp M _ grown [THEN conjunct1] pos, of None] by auto
  have "dp_size lay dvd length samples" using assms(1,7) unfolding layout_ok_def by (rule dvd_trans)
  then have "dp_size lay \<le> length samples" using assms(6) by (simp add: dvd_imp_le)
  with assms(4) ranks mbs pack show ?thesis
    by (simp add: plan_step_def res_all_list_at_Inr [OF assms(5)] step_micro_batches_def)
qed

lemma read_layout_full: "has_full_schedule_config (Some config) \<Longrightarrow> \<exists>lay. read_layout config = Inr lay"
proof -
  assume "has_full_schedule_config (Some config)"
  then have "\<forall>key\<in>set SCHEDULE_CONFIG_KEYS. key \<in> set (dkeys config)"
    by (simp add: has_full_schedule_config_def list_all_iff)
  then have "\<forall>key\<in>set SCHEDULE_CONFIG_KEYS. \<exists>v. config_at config key = Inr v"
    by (force simp: config_at_def map_of_eq_None_iff split: option.splits)
  then show ?thesis by (auto simp: SCHEDULE_CONFIG_KEYS_def read_layout_def Let_def)
qed

lemma positions_facts: "rid \<in> set rids \<Longrightarrow> positions rids rid \<noteq> []" "i \<in> set (positions rids rid) \<Longrightarrow> i < length rids"
  by (auto simp: positions_def filter_empty_conv in_set_conv_nth)

text \<open>
  C3: with a full configuration, at least one full step of rollouts, and in every planned
  step a number of samples that the ranks divide, the dynamic path returns a schedule: no
  assertion of it fires.
\<close>

theorem build_dp_schedule_total:
  assumes "has_full_schedule_config (Some config)" "use_dynamic_batch_size args" "\<not> balance_by_flops args"
    "max_tokens_per_gpu args = Some m" "inputs_ok args total_lengths" "length total_lengths = length rids"
    "0 < gbs" "gbs \<le> length (first_seen rids)"
    "\<And>lay. read_layout config = Inr lay \<Longrightarrow> 0 < align_to lay"
    "\<And>lay counts t. read_layout config = Inr lay \<Longrightarrow>
       plan_num_rollouts args (dp_size lay) (group_rollouts rids) gbs = Inr counts \<Longrightarrow> t < length counts \<Longrightarrow>
       align_to lay dvd length (concat (map (positions rids) (block counts t (first_seen rids))))"
  shows "\<exists>S. build_dp_schedule args config total_lengths gbs rids = Inr S"
proof -
  obtain lay where lay: "read_layout config = Inr lay" using read_layout_full [OF assms(1)] by blast
  let ?G = "group_rollouts rids" let ?cap = "m * int (cp_size lay)"
  have len: "length ?G = length (first_seen rids)" by (metis dkeys_group_rollouts length_map)
  have "1 \<le> length (first_seen rids) div gbs" using assms(7,8) by (simp add: Suc_le_eq div_greater_zero_iff)
  then obtain counts where counts: "plan_num_rollouts args (dp_size lay) ?G gbs = Inr counts"
    using assms(7) len by (simp add: plan_num_rollouts_def Let_def)
  have sum: "sum_list counts \<le> length (first_seen rids)"
    using plan_num_rollouts_ok [OF counts] len sum_list_counts by simp
  have each: "\<exists>plan. plan_step args lay (Some ?cap) total_lengths
      (concat (map (positions rids) (block counts t (first_seen rids)))) = Inr plan" if t: "t < length counts" for t
  proof (rule plan_step_total [OF read_layout_ok [OF lay] assms(9) [OF lay] assms(5,3)])
    let ?b = "block counts t (first_seen rids)"
    have sub: "set ?b \<subseteq> set rids" unfolding block_def slice_def
      by (metis set_first_seen order_trans set_drop_subset set_take_subset)
    show "\<forall>i\<in>set (concat (map (positions rids) ?b)). i < length total_lengths"
      using positions_facts(2) assms(6) by auto
    have "0 < counts ! t"
      using plan_num_rollouts_ok [OF counts] t by (auto simp: counts_ok_def nth_append)
    moreover have "sum_list (take (Suc t) counts) = sum_list (take t counts) + counts ! t"
      using t by (simp add: take_Suc_conv_app_nth)
    moreover have "sum_list (take (Suc t) counts) \<le> sum_list counts"
      by (metis append_take_drop_id le_add1 sum_list_append)
    ultimately have "?b \<noteq> []" using sum by (simp add: block_def slice_def)
    then show "concat (map (positions rids) ?b) \<noteq> []"
      using sub positions_facts(1) [of _ rids] by (cases ?b) auto
    show "align_to lay dvd length (concat (map (positions rids) ?b))" by (rule assms(10) [OF lay counts t])
  qed
  let ?f = "\<lambda>(a, b). plan_step args lay (Some ?cap) total_lengths (rollout_samples ?G (slice a b (dkeys ?G)))"
  have "\<exists>p. ?f r = Inr p" if "r \<in> set (step_ranges 0 counts)" for r
  proof -
    from that obtain t where "t < length counts" "r = step_ranges 0 counts ! t"
      by (metis in_set_conv_nth length_step_ranges)
    with each [of t] show ?thesis
      by (simp add: step_ranges_nth rollout_samples_group dkeys_group_rollouts block_def)
  qed
  then have "res_all (map ?f (step_ranges 0 counts)) = Inr (map (\<lambda>r. projr (?f r)) (step_ranges 0 counts))"
    by (intro res_all_map_Inr) (metis sum.sel(2))
  with lay counts assms(2,4) show ?thesis
    by (simp add: build_dp_schedule_def token_budget_def Let_def case_prod_unfold)
qed

section \<open>Witnesses\<close>

definition example_model :: flops_args where
  "example_model = \<lparr> hidden_size = 4, num_attention_heads = 2, num_query_groups = 2, vocab_size = 8,
     num_layers = 1, ffn_hidden_size = 8, kv_channels = 2, num_experts = None, moe_ffn_hidden_size = 0,
     moe_router_topk = 0, moe_shared_expert_intermediate_size = None, moe_layer_freq = NoFreq,
     q_lora_rank = None, kv_lora_rank = None, qk_head_dim = 0, qk_pos_emb_head_dim = 0, v_head_dim = 0 \<rparr>"

definition example_args :: dp_args where
  "example_args = \<lparr> use_dynamic_batch_size = True, max_tokens_per_gpu = Some 9,
     allow_partial_train_step = True, balance_by_flops = False, balance_data = False,
     micro_batch_size = None, model_args = example_model \<rparr>"

definition example_config :: parallel_config where
  "example_config = [(''dp_size'', 2), (''cp_size'', 1), (''vpp_size'', 0),
     (''microbatch_group_size_per_vp_stage'', 1)]"

definition example_schedule :: schedule where
  "example_schedule = \<lparr> partitions = [[0, 1, 4], [3, 2, 5]],
     micro_batch_indices = [[[0, 1], [2]], [[0, 1], [2]]],
     num_microbatches = [1, 1], num_rollouts = [2, 1] \<rparr>"

lemma example_builds:
  "build_dp_schedule example_args example_config [6, 3, 4, 5, 6, 2] 2 [10, 10, 11, 11, 12, 12] = Inr example_schedule"
  by code_simp

lemma example_inputs: "inputs_ok example_args [6, 3, 4, 5, 6, 2]"
  by (simp add: inputs_ok_def example_args_def)

theorem build_dp_schedule_ok_witness:
  "\<exists>lay. read_layout example_config = Inr lay
     \<and> schedule_ok (dp_size lay) 2 [10, 10, 11, 11, 12, 12] example_schedule"
  by (rule build_dp_schedule_ok [OF example_builds example_inputs])

theorem build_dp_schedule_budget_witness:
  "sum_list (map (\<lambda>i. [6, 3, 4, 5, 6, 2 :: int] ! i) [3, 2]) \<le> 9 * int 1 \<or> length [3 :: nat, 2] = 1"
proof -
  let ?lay = "\<lparr> dp_size = 2, cp_size = 1, align_to = 2 \<rparr>"
  have lay: "read_layout example_config = Inr ?lay" by code_simp
  have "[3, 2] \<in> set (rank_micro_batches example_schedule 1)" by code_simp
  from build_dp_schedule_budget [OF example_builds example_inputs _ _ _ lay _ this, of 9]
  show ?thesis by (simp add: example_args_def)
qed

theorem build_dp_schedule_total_witness:
  "\<exists>S. build_dp_schedule example_args example_config [6, 3, 4, 5, 6, 2] 2 [10, 10, 11, 11, 12, 12] = Inr S"
proof (rule build_dp_schedule_total [of _ _ 9])
  have lay: "read_layout example_config = Inr \<lparr> dp_size = 2, cp_size = 1, align_to = 2 \<rparr>" by code_simp
  have plan: "plan_num_rollouts example_args 2 (group_rollouts [10, 10, 11, 11, 12, 12]) 2 = Inr [2, 1]" by code_simp
  have even: "\<forall>t\<in>set [0..<2]. even (length (concat (map (positions [10, 10, 11, 11, 12, 12])
      (block [2, 1] t (first_seen [10, 10, 11, 11, 12, 12])))))" by code_simp
  show "has_full_schedule_config (Some example_config)" by code_simp
  show "2 \<le> length (first_seen [10, 10, 11, 11, 12, 12 :: int])" by code_simp
  show "0 < align_to lay" if "read_layout example_config = Inr lay" for lay
    using that lay by auto
  show "align_to lay dvd length (concat (map (positions [10, 10, 11, 11, 12, 12])
      (block counts t (first_seen [10, 10, 11, 11, 12, 12]))))"
    if "read_layout example_config = Inr lay"
      "plan_num_rollouts example_args (dp_size lay) (group_rollouts [10, 10, 11, 11, 12, 12]) 2 = Inr counts"
      "t < length counts" for lay counts t
  proof -
    from that(1) lay have 1: "dp_size lay = 2" "align_to lay = 2" by auto
    with that(2) plan have 2: "counts = [2, 1]" by simp
    with that(3) have "t \<in> set [0..<2]" by simp
    with even have "even (length (concat (map (positions [10, 10, 11, 11, 12, 12])
      (block [2, 1] t (first_seen [10, 10, 11, 11, 12, 12])))))" by blast
    with 1 2 show ?thesis by simp
  qed
  show "inputs_ok example_args [6, 3, 4, 5, 6, 2]" by (rule example_inputs)
qed (simp_all add: example_args_def)

end
