(* ===== verification/ContextParallel.thy ===== *)
theory ContextParallel
  imports Prelude
begin

text \<open>
  Context parallelism of the trainer (\<open>backends/training_utils/data/context_parallel.py\<close>): every rank of a group
  holds two chunks of a sequence in the zigzag layout; responses, masks and log-probabilities are sliced
  to the local chunks, gathered over the ranks, and reduced to sums of means.  A tensor is a list over its first
  dimension, the ranks of a group a list; gradients and devices are left out.
\<close>

section \<open>Slices with negative bounds\<close>

definition slice_bound :: "nat \<Rightarrow> int \<Rightarrow> nat" where
  "slice_bound n i = (if i < 0 then nat (max 0 (int n + i)) else min (nat i) n)"

definition py_slice :: "int \<Rightarrow> int \<Rightarrow> 'a list \<Rightarrow> 'a list" where
  "py_slice a b xs = slice (slice_bound (length xs) a) (slice_bound (length xs) b) xs"

section \<open>The offsets of a rank\<close>

datatype qkv_format = Thd | Bshd

record cp_offsets =
  chunk_size :: int
  chunk_offsets :: "(int \<times> int) \<times> (int \<times> int)"
  logits_offsets :: "(int \<times> int) \<times> (int \<times> int)"
  token_offsets :: "(int \<times> int) \<times> (int \<times> int)"

text \<open>\<open>(length + 2 * cp_size - 1) // (2 * cp_size)\<close>\<close>

definition cp_chunk_size :: "nat \<Rightarrow> nat \<Rightarrow> nat" where
  "cp_chunk_size len n = (len + 2 * n - 1) div (2 * n)"

definition clip_logits :: "int \<Rightarrow> int \<Rightarrow> int \<times> int \<Rightarrow> int \<times> int" where
  "clip_logits prompt_length tot chunk = (max (fst chunk) (prompt_length - 1), min (snd chunk) (tot - 1))"

definition nonempty_or_zero :: "int \<times> int \<Rightarrow> (int \<times> int) \<times> (int \<times> int)" where
  "nonempty_or_zero l = (if fst l < snd l then (l, (fst l + 1, snd l + 1)) else ((0, 0), (0, 0)))"

definition get_logits_and_tokens_offset_with_cp :: "nat \<Rightarrow> nat \<Rightarrow> qkv_format \<Rightarrow> nat option \<Rightarrow> nat \<Rightarrow> nat \<Rightarrow> cp_offsets res" where
  "get_logits_and_tokens_offset_with_cp tot resp fmt max_seq_len r n =
     rbind (py_assert (1 < n)) (\<lambda>_.
     rbind (case fmt of Thd \<Rightarrow> Inr tot | Bshd \<Rightarrow> (case max_seq_len of None \<Rightarrow> Inl AssertionError | Some m \<Rightarrow> Inr m)) (\<lambda>len.
       let c = int (cp_chunk_size len n);
           p = int tot - int resp;
           chunk_0 = (int r * c, (int r + 1) * c);
           chunk_1 = ((2 * int n - int r - 1) * c, (2 * int n - int r) * c);
           (logits_0, token_0) = nonempty_or_zero (clip_logits p (int tot) chunk_0);
           (logits_1, token_1) = nonempty_or_zero (clip_logits p (int tot) chunk_1)
       in Inr \<lparr> chunk_size = c, chunk_offsets = (chunk_0, chunk_1), logits_offsets = (logits_0, logits_1),
                token_offsets = (token_0, token_1) \<rparr>))"

section \<open>Slicing and gathering\<close>

record cp_layout =
  layout_format :: qkv_format
  layout_max_len :: "nat option"
  layout_size :: nat

abbreviation rank_offsets :: "cp_layout \<Rightarrow> nat \<Rightarrow> nat \<Rightarrow> nat \<Rightarrow> cp_offsets res" where
  "rank_offsets lay tot resp r \<equiv>
     get_logits_and_tokens_offset_with_cp tot resp (layout_format lay) (layout_max_len lay) r (layout_size lay)"

definition slice_two :: "int \<Rightarrow> (int \<times> int) \<times> (int \<times> int) \<Rightarrow> 'a list \<Rightarrow> 'a list" where
  "slice_two shift off xs = py_slice (fst (fst off) - shift) (snd (fst off) - shift) xs
     @ py_slice (fst (snd off) - shift) (snd (snd off) - shift) xs"

definition slice_loss_mask_for_local_cp :: "cp_layout \<Rightarrow> nat \<Rightarrow> nat \<Rightarrow> nat \<Rightarrow> 'a list \<Rightarrow> 'a list res" where
  "slice_loss_mask_for_local_cp lay r tot resp lmask =
     rbind (rank_offsets lay tot resp r) (\<lambda>off. Inr (slice_two (int tot - int resp) (token_offsets off) lmask))"

definition slice_log_prob_with_cp :: "cp_layout \<Rightarrow> nat \<Rightarrow> nat \<Rightarrow> nat \<Rightarrow> 'a list \<Rightarrow> 'a list res" where
  "slice_log_prob_with_cp lay r tot resp lp =
     rbind (py_assert (length lp = resp)) (\<lambda>_.
       if layout_size lay = 1 then Inr lp
       else rbind (rank_offsets lay tot resp r) (\<lambda>off.
         Inr (slice_two (int tot - int resp - 1) (logits_offsets off) lp)))"

text \<open>\<open>torch.zeros\<close> refuses a negative size.\<close>

definition zeros :: "int \<Rightarrow> real list res" where
  "zeros k = (if k < 0 then Inl RuntimeError else Inr (replicate (nat k) 0))"

text \<open>The two chunks of a rank at their places, zero elsewhere; \<open>p1\<close> is the first logit of the response.\<close>

definition spread_chunks :: "nat \<Rightarrow> nat \<Rightarrow> (int \<times> int) \<times> (int \<times> int) \<Rightarrow> real list \<Rightarrow> real list \<Rightarrow> real list res" where
  "spread_chunks tot resp off chunk_0 chunk_1 =
     (let ((a0, b0), (a1, b1)) = off; p1 = int tot - int resp - 1 in
      if chunk_0 = [] \<and> chunk_1 = [] then zeros (int resp)
      else if chunk_0 \<noteq> [] \<and> chunk_1 = [] then
        rbind (zeros (a0 - p1)) (\<lambda>left. rbind (zeros (int tot - 1 - b0)) (\<lambda>right. Inr (left @ chunk_0 @ right)))
      else if chunk_0 = [] \<and> chunk_1 \<noteq> [] then
        rbind (zeros (a1 - p1)) (\<lambda>left. rbind (zeros (int tot - 1 - b1)) (\<lambda>right. Inr (left @ chunk_1 @ right)))
      else
        rbind (zeros (a0 - p1)) (\<lambda>left. rbind (zeros (a1 - b0)) (\<lambda>mid. rbind (zeros (int tot - 1 - b1)) (\<lambda>right.
          Inr (left @ chunk_0 @ mid @ chunk_1 @ right)))))"

text \<open>What one rank adds to the gathered tensor.\<close>

definition cp_contribution :: "cp_layout \<Rightarrow> nat \<Rightarrow> nat \<Rightarrow> nat \<Rightarrow> real list \<Rightarrow> real list res" where
  "cp_contribution lay r tot resp tensor =
     rbind (rank_offsets lay tot resp r) (\<lambda>off.
       let ((a0, b0), (a1, b1)) = logits_offsets off;
           chunk_0 = py_slice 0 (b0 - a0) tensor;
           chunk_1 = py_slice (b0 - a0) (int (length tensor)) tensor
       in rbind (py_assert (int (length chunk_1) = b1 - a1)) (\<lambda>_.
          rbind (spread_chunks tot resp (logits_offsets off) chunk_0 chunk_1) (\<lambda>full.
          rbind (py_assert (length full = resp)) (\<lambda>_. Inr full))))"

text \<open>\<open>all_reduce\<close> adds the tensors of the ranks.\<close>

definition all_reduce :: "real list list \<Rightarrow> nat \<Rightarrow> real list" where
  "all_reduce ts m = map (\<lambda>i. sum_list (map (\<lambda>t. t ! i) ts)) [0..<m]"

definition all_gather_with_cp :: "cp_layout \<Rightarrow> nat \<Rightarrow> nat \<Rightarrow> real list list \<Rightarrow> real list res" where
  "all_gather_with_cp lay tot resp tensors =
     (if layout_size lay = 1 then Inr (hd tensors)
      else rbind (res_all (map (\<lambda>(r, t). cp_contribution lay r tot resp t) (enum tensors))) (\<lambda>fulls.
        Inr (all_reduce fulls resp)))"

text \<open>\<open>out[start:stop] = xs\<close>\<close>

definition write_at :: "nat \<Rightarrow> 'a list \<Rightarrow> 'a list \<Rightarrow> 'a list" where
  "write_at start xs out = take start out @ xs @ drop (start + length xs) out"

fun place_chunks :: "int \<Rightarrow> (int \<times> int) list \<Rightarrow> 'a list \<Rightarrow> nat \<Rightarrow> 'a list \<Rightarrow> ('a list \<times> nat) res" where
  "place_chunks p1 [] chunk taken out = Inr (out, taken)"
| "place_chunks p1 ((lo, hi) # offs) chunk taken out =
     (let start = lo - p1; width = hi - lo in
      if width \<le> 0 then place_chunks p1 offs chunk taken out
      else let piece = slice taken (taken + nat width) chunk in
        if int (length piece) \<noteq> width then Inl RuntimeError
        else place_chunks p1 offs chunk (taken + nat width) (write_at (nat start) piece out))"

fun assemble_ranks :: "cp_layout \<Rightarrow> nat \<Rightarrow> nat \<Rightarrow> (nat \<times> real list) list \<Rightarrow> real list \<Rightarrow> real list res" where
  "assemble_ranks lay tot resp [] out = Inr out"
| "assemble_ranks lay tot resp ((r, chunk) # rest) out =
     rbind (rank_offsets lay tot resp r) (\<lambda>off.
     rbind (place_chunks (int tot - int resp - 1) [fst (logits_offsets off), snd (logits_offsets off)] chunk 0 out) (\<lambda>(out', taken).
     rbind (py_assert (taken = length chunk)) (\<lambda>_. assemble_ranks lay tot resp rest out')))"

definition assemble_log_prob_from_cp :: "cp_layout \<Rightarrow> nat \<Rightarrow> nat \<Rightarrow> (nat, real list) dict \<Rightarrow> real list res" where
  "assemble_log_prob_from_cp lay tot resp chunks =
     rbind (py_assert (1 < layout_size lay)) (\<lambda>_.
     rbind (py_assert (\<forall>r<layout_size lay. r \<in> set (dkeys chunks))) (\<lambda>_.
       assemble_ranks lay tot resp chunks (replicate resp 0)))"

section \<open>Sums of means\<close>

definition clamp_min_one :: "real \<Rightarrow> real" where
  "clamp_min_one d = max d 1"

definition masked_sum :: "real list \<Rightarrow> real list \<Rightarrow> real" where
  "masked_sum xs ms = sum_list (map2 (*) xs ms)"

definition default_denominators :: "real list list \<Rightarrow> real list" where
  "default_denominators masks = map sum_list masks"

text \<open>Of one rank: the pieces of the values, one per sample, beside the local masks.\<close>

definition sum_of_sample_mean :: "real list list \<Rightarrow> real list list \<Rightarrow> real list \<Rightarrow> real" where
  "sum_of_sample_mean xs masks denominators =
     sum_list (map (\<lambda>((x, m), d). masked_sum x m / clamp_min_one d) (zip (zip xs masks) denominators))"

definition sum_of_token :: "real list list \<Rightarrow> real list list \<Rightarrow> real" where
  "sum_of_token xs masks = sum_list (map2 masked_sum xs masks)"

text \<open>A sample's total length, response length and padded length.\<close>

type_synonym sample_lens = "nat \<times> nat \<times> nat option"

abbreviation sample_layout :: "cp_layout \<Rightarrow> nat option \<Rightarrow> cp_layout" where
  "sample_layout lay len \<equiv> lay\<lparr>layout_max_len := len\<rparr>"

definition get_local_response_loss_masks :: "cp_layout \<Rightarrow> nat \<Rightarrow> sample_lens list \<Rightarrow> 'a list list \<Rightarrow> 'a list list res" where
  "get_local_response_loss_masks lay r lens masks =
     (if layout_size lay = 1 then Inr masks
      else rbind (py_assert (length lens = length masks)) (\<lambda>_.
        res_all (map2 (\<lambda>(tot, resp, len) m. slice_loss_mask_for_local_cp (sample_layout lay len) r tot resp m) lens masks)))"

text \<open>
  The function that \<open>get_sum_of_sample_mean\<close> returns, applied to the response values of the rank; \<open>x.split\<close> cuts
  them into the pieces that belong to the local masks.
\<close>

fun split_lengths :: "nat list \<Rightarrow> 'a list \<Rightarrow> 'a list list" where
  "split_lengths [] xs = []"
| "split_lengths (k # ks) xs = take k xs # split_lengths ks (drop k xs)"

definition get_sum_of_sample_mean :: "cp_layout \<Rightarrow> nat \<Rightarrow> sample_lens list \<Rightarrow> real list list \<Rightarrow> bool \<Rightarrow> real list option \<Rightarrow> real list \<Rightarrow> real res" where
  "get_sum_of_sample_mean lay r lens masks per_token denominators x =
     (let denoms = (case denominators of None \<Rightarrow> default_denominators masks | Some d \<Rightarrow> d) in
      rbind (get_local_response_loss_masks lay r lens masks) (\<lambda>local_masks.
        let cuts = (if layout_size lay = 1 then map (\<lambda>(_, resp, _). resp) lens else map length local_masks);
            pieces = split_lengths cuts x
        in if sum_list cuts \<noteq> length x then Inl RuntimeError
           else if per_token then Inr (sum_of_token pieces local_masks)
           else if length denoms \<noteq> length masks then Inl ValueError
           else Inr (sum_of_sample_mean pieces local_masks denoms)))"

section \<open>From contiguous to zigzag chunks\<close>

text \<open>
  After an all-gather of the sequence a rank holds \<open>local_len\<close> consecutive logits; what it adds to a sample's
  response starting at \<open>seq_start\<close>.
\<close>

definition contiguous_contribution :: "qkv_format \<Rightarrow> nat \<Rightarrow> nat \<Rightarrow> nat \<Rightarrow> nat \<Rightarrow> nat \<Rightarrow> real list \<Rightarrow> real list res" where
  "contiguous_contribution fmt local_len r seq_start tot resp val =
     (let chunk_start = int (r * local_len); chunk_end = chunk_start + int local_len;
          sample_start = (if fmt = Bshd then 0 else int seq_start);
          global_start = sample_start + (int tot - int resp) - 1;
          global_end = sample_start + int tot - 1;
          s = max global_start chunk_start; e = min global_end chunk_end;
          full = (if e \<le> s then replicate resp 0
                  else replicate (nat (s - global_start)) 0 @ val @ replicate (nat (int resp - (e - global_start))) 0)
      in rbind (py_assert (length full = resp)) (\<lambda>_. Inr full))"

fun contiguous_responses :: "qkv_format \<Rightarrow> nat \<Rightarrow> nat \<Rightarrow> nat \<Rightarrow> sample_lens list \<Rightarrow> real list list \<Rightarrow> real list list res" where
  "contiguous_responses fmt local_len r seq_start ((tot, resp, len) # lens) (val # vals) =
     rbind (contiguous_contribution fmt local_len r seq_start tot resp val) (\<lambda>full.
     rbind (contiguous_responses fmt local_len r (seq_start + tot) lens vals) (\<lambda>fulls. Inr (full # fulls)))"
| "contiguous_responses fmt local_len r seq_start lens vals = Inr []"

text \<open>The new values of rank \<open>r\<close> for one key, from the values of all ranks.\<close>

definition allgather_cp_redistribute :: "cp_layout \<Rightarrow> nat \<Rightarrow> nat \<Rightarrow> sample_lens list \<Rightarrow> real list list list \<Rightarrow> real list list res" where
  "allgather_cp_redistribute lay local_len r lens vals =
     rbind (res_all (map (\<lambda>(k, vs). contiguous_responses (layout_format lay) local_len k 0 lens vs) (enum vals))) (\<lambda>fulls.
       let resps = map (\<lambda>(_, resp, _). resp) lens;
           all_cat = all_reduce (map concat fulls) (sum_list resps)
       in res_all (map2 (\<lambda>full (tot, resp, len). slice_log_prob_with_cp (sample_layout lay len) r tot resp full)
            (split_lengths resps all_cat) lens))"

section \<open>Whole sequences\<close>

text \<open>\<open>F.pad\<close> at the end; a negative amount cuts.\<close>

definition pad_tokens :: "'a \<Rightarrow> int \<Rightarrow> 'a list \<Rightarrow> 'a list" where
  "pad_tokens v k xs = (if 0 \<le> k then xs @ replicate (nat k) v else take (nat (int (length xs) + k)) xs)"

definition slice_with_cp :: "cp_layout \<Rightarrow> nat \<Rightarrow> 'a \<Rightarrow> 'a list \<Rightarrow> 'a list res" where
  "slice_with_cp lay r pad_value toks =
     rbind (if layout_format lay = Bshd then (case layout_max_len lay of None \<Rightarrow> Inl AssertionError | Some m \<Rightarrow> Inr m)
            else Inr (length toks)) (\<lambda>len.
       if layout_size lay = 1 then
         Inr (if layout_format lay = Bshd then pad_tokens pad_value (int len - int (length toks)) toks else toks)
       else let n = layout_size lay; c = cp_chunk_size len n;
                padded = pad_tokens pad_value (int (2 * n * c) - int (length toks)) toks
         in Inr (slice (c * r) (c * (r + 1)) padded @ slice (c * (2 * n - r - 1)) (c * (2 * n - r)) padded))"

definition natural_to_zigzag_slice :: "nat \<Rightarrow> nat \<Rightarrow> 'a list \<Rightarrow> 'a list" where
  "natural_to_zigzag_slice n r xs =
     (if length xs mod (2 * n) \<noteq> 0 then xs
      else let c = length xs div (2 * n) in
        concat (map (\<lambda>i. slice (i * c) (i * c + c) xs) [r, 2 * n - 1 - r]))"

section \<open>The windows of a response\<close>

text \<open>
  The response's positions in the \<open>j\<close>-th of the \<open>2 * n\<close> chunks of size \<open>c\<close>, with \<open>q\<close> tokens before the first logit
  of the response.
\<close>

definition window :: "nat \<Rightarrow> nat \<Rightarrow> nat \<Rightarrow> nat \<Rightarrow> nat list" where
  "window c q m j = [j * c - q ..< min ((j + 1) * c - q) m]"

definition rank_window :: "nat \<Rightarrow> nat \<Rightarrow> nat \<Rightarrow> nat \<Rightarrow> nat \<Rightarrow> nat list" where
  "rank_window n c q m r = window c q m r @ window c q m (2 * n - 1 - r)"

lemma windows_concat: "concat (map (window c q m) [0..<k]) = [0..<min (k * c - q) m]"
proof (induction k)
  case (Suc k)
  have "[0..<min (k * c - q) m] @ window c q m k = [0..<min (Suc k * c - q) m]"
  proof (cases "m \<le> k * c - q")
    case True
    then show ?thesis by (simp add: window_def min_absorb2)
  next
    case False
    then have "min (k * c - q) m = k * c - q" "k * c - q \<le> min (Suc k * c - q) m" by auto
    then show ?thesis using upt_add_eq_append [of 0 "k * c - q" "min (Suc k * c - q) m - (k * c - q)"]
      by (simp add: window_def)
  qed
  then show ?case using Suc by simp
qed simp

lemma mset_concat_rev: "mset (concat (rev xss)) = mset (concat xss)"
  by (induction xss) (simp_all add: add.commute)

lemma mset_zigzag: "mset (concat (map (\<lambda>r. f r @ f (2 * n - 1 - r)) [0..<n])) = mset (concat (map f [0..<2 * n]))"
proof -
  have "mset (concat (map (\<lambda>r. f r @ f (2 * n - 1 - r)) [0..<n]))
      = mset (concat (map f [0..<n])) + mset (concat (map (\<lambda>r. f (2 * n - 1 - r)) [0..<n]))"
    by (simp add: mset_concat sum_list_addf comp_def)
  also have "map (\<lambda>r. f (2 * n - 1 - r)) [0..<n] = rev (map f [n..<2 * n])"
    by (rule nth_equalityI) (auto simp: rev_nth intro!: arg_cong [where f = f])
  also have "mset (concat (rev (map f [n..<2 * n]))) = mset (concat (map f [n..<2 * n]))"
    by (rule mset_concat_rev)
  also have "mset (concat (map f [0..<n])) + \<dots> = mset (concat (map f ([0..<n] @ [n..<2 * n])))" by simp
  also have "[0..<n] @ [n..<2 * n] = [0..<2 * n]" using upt_add_eq_append [of 0 n n] by (simp add: mult_2)
  finally show ?thesis .
qed

lemma ranks_partition:
  assumes "m + q \<le> 2 * n * c"
  shows "mset (concat (map (rank_window n c q m) [0..<n])) = mset [0..<m]"
proof -
  have "mset (concat (map (rank_window n c q m) [0..<n])) = mset (concat (map (window c q m) [0..<2 * n]))"
    using mset_zigzag [of "window c q m" n] by (simp add: rank_window_def [abs_def])
  also have "concat (map (window c q m) [0..<2 * n]) = [0..<m]" using assms by (simp add: windows_concat min_absorb2)
  finally show ?thesis .
qed

lemma cp_chunks_cover: "0 < n \<Longrightarrow> len \<le> 2 * n * cp_chunk_size len n"
proof -
  assume n: "0 < n"
  have "len + 2 * n - 1 < 2 * n * ((len + 2 * n - 1) div (2 * n)) + 2 * n"
    using n mult_div_mod_eq [of "2 * n" "len + 2 * n - 1"] mod_less_divisor [of "2 * n" "len + 2 * n - 1"] by linarith
  then show ?thesis using n by (simp add: cp_chunk_size_def)
qed

text \<open>Of a well-formed layout: at least two ranks, and padding that does not cut.\<close>

definition layout_len :: "cp_layout \<Rightarrow> nat \<Rightarrow> nat" where
  "layout_len lay tot = (case layout_format lay of Thd \<Rightarrow> tot | Bshd \<Rightarrow> the (layout_max_len lay))"

definition cp_layout_ok :: "cp_layout \<Rightarrow> nat \<Rightarrow> nat \<Rightarrow> bool" where
  "cp_layout_ok lay tot resp \<longleftrightarrow> 1 < layout_size lay \<and> resp < tot
     \<and> (layout_format lay = Bshd \<longrightarrow> (\<exists>m. layout_max_len lay = Some m \<and> tot \<le> m))"

definition owned :: "cp_layout \<Rightarrow> nat \<Rightarrow> nat \<Rightarrow> nat \<Rightarrow> nat list" where
  "owned lay tot resp = rank_window (layout_size lay) (cp_chunk_size (layout_len lay tot) (layout_size lay)) (tot - resp - 1) resp"

lemma owned_partition:
  assumes "cp_layout_ok lay tot resp"
  shows "mset (concat (map (owned lay tot resp) [0..<layout_size lay])) = mset [0..<resp]"
proof -
  let ?n = "layout_size lay" let ?c = "cp_chunk_size (layout_len lay tot) ?n"
  have "layout_len lay tot \<le> 2 * ?n * ?c" using assms by (intro cp_chunks_cover) (simp add: cp_layout_ok_def)
  moreover have "tot \<le> layout_len lay tot"
    using assms by (auto simp: cp_layout_ok_def layout_len_def split: qkv_format.splits)
  ultimately have "resp + (tot - resp - 1) \<le> 2 * ?n * ?c" using assms by (simp add: cp_layout_ok_def)
  from ranks_partition [OF this] show ?thesis unfolding owned_def .
qed

text \<open>The computed offsets are those of the windows.\<close>

definition window_offsets :: "nat \<Rightarrow> nat \<Rightarrow> nat \<Rightarrow> nat \<Rightarrow> int \<times> int" where
  "window_offsets c q m j =
     (let lo = max (int (j * c)) (int q); hi = min (int ((j + 1) * c)) (int (q + m)) in if lo < hi then (lo, hi) else (0, 0))"

lemma rank_offsets_eq:
  assumes "cp_layout_ok lay tot resp" "r < layout_size lay"
  shows "\<exists>off. rank_offsets lay tot resp r = Inr off
    \<and> logits_offsets off = (let w = window_offsets (cp_chunk_size (layout_len lay tot) (layout_size lay)) (tot - resp - 1) resp
        in (w r, w (2 * layout_size lay - 1 - r)))
    \<and> (let shift = (\<lambda>l. if fst l < snd l then (fst l + 1, snd l + 1) else (0, 0)) in
        token_offsets off = (shift (fst (logits_offsets off)), shift (snd (logits_offsets off))))"
proof -
  let ?n = "layout_size lay" let ?c = "cp_chunk_size (layout_len lay tot) ?n"
  have len: "(case layout_format lay of Thd \<Rightarrow> Inr tot | Bshd \<Rightarrow> (case layout_max_len lay of None \<Rightarrow> Inl AssertionError | Some m \<Rightarrow> Inr m))
      = (Inr (layout_len lay tot) :: nat res)"
    using assms by (auto simp: cp_layout_ok_def layout_len_def split: qkv_format.splits option.splits)
  have j: "int (2 * ?n - 1 - r) = 2 * int ?n - int r - 1" using assms(2) by simp
  obtain q where q: "tot = q + resp + 1" using assms(1) less_imp_Suc_add [of resp tot] by (auto simp: cp_layout_ok_def)
  have w: "fst (nonempty_or_zero (clip_logits (int tot - int resp) (int tot) (int j * int ?c, (int j + 1) * int ?c)))
      = window_offsets ?c (tot - resp - 1) resp j" for j
    by (simp add: nonempty_or_zero_def clip_logits_def window_offsets_def Let_def q algebra_simps)
  have s: "snd (nonempty_or_zero l) = (let l' = fst (nonempty_or_zero l) in if fst l' < snd l' then (fst l' + 1, snd l' + 1) else (0, 0))" for l
    by (simp add: nonempty_or_zero_def)
  have j1: "2 * int ?n - int r - 1 + 1 = 2 * int ?n - int r" by simp
  have w1: "fst (nonempty_or_zero (clip_logits (int tot - int resp) (int tot)
      ((2 * int ?n - int r - 1) * int ?c, (2 * int ?n - int r) * int ?c))) = window_offsets ?c (tot - resp - 1) resp (2 * ?n - 1 - r)"
    using w [of "2 * ?n - 1 - r"] unfolding j j1 .
  have one: "1 < ?n" using assms(1) by (simp add: cp_layout_ok_def)
  show ?thesis
    unfolding get_logits_and_tokens_offset_with_cp_def len
    by (simp only: one py_assert_simps rbind_simps Let_def case_prod_unfold s w w1 cp_offsets.simps fst_conv snd_conv ex_simps simp_thms sum.inject)
qed

lemma slice_nth: "b \<le> length xs \<Longrightarrow> slice a b xs = map ((!) xs) [a..<b]"
  by (rule nth_equalityI) (auto simp: slice_def)

lemma py_slice_same [simp]: "py_slice a a xs = []"
  by (simp add: py_slice_def slice_def)

lemma py_slice_nat: "b \<le> length xs \<Longrightarrow> py_slice (int a) (int b) xs = map ((!) xs) [a..<b]"
proof (cases "a \<le> length xs")
  case False
  assume "b \<le> length xs"
  with False show ?thesis by (simp add: py_slice_def slice_bound_def slice_def)
qed (simp add: py_slice_def slice_bound_def slice_nth)

lemma window_offsets_cases:
  obtains (some) "window_offsets c q m j = (int (q + (j * c - q)), int (q + min ((j + 1) * c - q) m))"
      "j * c - q < min ((j + 1) * c - q) m"
    | (none) "window_offsets c q m j = (0, 0)" "window c q m j = []"
proof (cases "max (int (j * c)) (int q) < min (int ((j + 1) * c)) (int (q + m))")
  case True
  then have lt: "j * c - q < min ((j + 1) * c - q) m" by linarith
  moreover have "max (int (j * c)) (int q) = int (q + (j * c - q))" by linarith
  moreover have "min (int ((j + 1) * c)) (int (q + m)) = int (q + min ((j + 1) * c - q) m)" using True by linarith
  ultimately show ?thesis using some True by (simp only: window_offsets_def Let_def if_True)
next
  case False
  then have "min ((j + 1) * c - q) m \<le> j * c - q" by linarith
  then have "window c q m j = []" by (simp add: window_def)
  then show ?thesis using none False by (simp only: window_offsets_def Let_def if_False)
qed

lemma slice_window:
  assumes "length xs = m"
  shows "py_slice (fst (window_offsets c q m j) - int q) (snd (window_offsets c q m j) - int q) xs = map ((!) xs) (window c q m j)"
proof (cases rule: window_offsets_cases [of c q m j])
  case some
  then show ?thesis using py_slice_nat [of "min ((j + 1) * c - q) m" xs "j * c - q"] assms by (simp add: window_def)
qed simp

lemma slice_two_windows:
  assumes "length xs = m"
  shows "slice_two (int q) (window_offsets c q m r, window_offsets c q m r') xs = map ((!) xs) (window c q m r @ window c q m r')"
  by (simp add: slice_two_def slice_window [OF assms])

lemma slice_log_prob_owned:
  assumes "cp_layout_ok lay tot resp" "r < layout_size lay" "length lp = resp"
  shows "slice_log_prob_with_cp lay r tot resp lp = Inr (map ((!) lp) (owned lay tot resp r))"
proof -
  obtain off where off: "rank_offsets lay tot resp r = Inr off"
    "logits_offsets off = (let w = window_offsets (cp_chunk_size (layout_len lay tot) (layout_size lay)) (tot - resp - 1) resp
        in (w r, w (2 * layout_size lay - 1 - r)))"
    using rank_offsets_eq [OF assms(1,2)] by auto
  have q: "int tot - int resp - 1 = int (tot - resp - 1)" "layout_size lay \<noteq> 1" using assms(1) by (auto simp: cp_layout_ok_def)
  show ?thesis unfolding slice_log_prob_with_cp_def q(1)
    using off q(2) assms(3) slice_two_windows [OF assms(3), of "tot - resp - 1"] by (simp add: owned_def rank_window_def Let_def)
qed

lemma slice_mask_owned:
  assumes "cp_layout_ok lay tot resp" "r < layout_size lay" "length ms = resp"
  shows "slice_loss_mask_for_local_cp lay r tot resp ms = Inr (map ((!) ms) (owned lay tot resp r))"
proof -
  let ?w = "window_offsets (cp_chunk_size (layout_len lay tot) (layout_size lay)) (tot - resp - 1) resp"
  let ?shift = "\<lambda>l. if fst l < snd l then (fst l + 1, snd l + 1) else (0, 0 :: int)"
  obtain off where off: "rank_offsets lay tot resp r = Inr off"
    "token_offsets off = (?shift (?w r), ?shift (?w (2 * layout_size lay - 1 - r)))"
    using rank_offsets_eq [OF assms(1,2)] by (auto simp: Let_def)
  have p: "int tot - int resp = int (tot - resp - 1) + 1" using assms(1) by (auto simp: cp_layout_ok_def)
  have piece: "py_slice (fst (?shift (?w j)) - (int (tot - resp - 1) + 1)) (snd (?shift (?w j)) - (int (tot - resp - 1) + 1)) ms
      = map ((!) ms) (window (cp_chunk_size (layout_len lay tot) (layout_size lay)) (tot - resp - 1) resp j)" for j
  proof (cases rule: window_offsets_cases [of "cp_chunk_size (layout_len lay tot) (layout_size lay)" "tot - resp - 1" resp j])
    case some
    then have "?shift (?w j) = (fst (?w j) + 1, snd (?w j) + 1)" by simp
    then show ?thesis using slice_window [OF assms(3), of "cp_chunk_size (layout_len lay tot) (layout_size lay)" "tot - resp - 1" j] by simp
  qed simp
  show ?thesis unfolding slice_loss_mask_for_local_cp_def p off rbind_simps slice_two_def fst_conv snd_conv piece
      owned_def rank_window_def map_append by (rule refl)
qed

section \<open>Gathering\<close>

lemma window_bounds: "i \<in> set (window c q m j) \<Longrightarrow> i < m"
  by (simp add: window_def)

lemma distinct_window [simp]: "distinct (window c q m j)"
  by (simp add: window_def)

text \<open>A tensor that is zero outside two intervals.\<close>

lemma spread_nth:
  assumes "a0 \<le> b0" "b0 \<le> a1" "a1 \<le> b1" "b1 \<le> length xs"
  shows "replicate a0 0 @ map ((!) xs) [a0..<b0] @ replicate (a1 - b0) 0 @ map ((!) xs) [a1..<b1] @ replicate (length xs - b1) 0
    = map (\<lambda>i. if i \<in> set ([a0..<b0] @ [a1..<b1]) then xs ! i else (0 :: real)) [0..<length xs]"
proof -
  let ?f = "\<lambda>i. if i \<in> set ([a0..<b0] @ [a1..<b1]) then xs ! i else (0 :: real)"
  have split: "[0..<length xs] = [0..<a0] @ [a0..<b0] @ [b0..<a1] @ [a1..<b1] @ [b1..<length xs]"
    using assms upt_add_eq_append [of 0 a0 "length xs - a0"] upt_add_eq_append [of a0 b0 "length xs - b0"]
      upt_add_eq_append [of b0 a1 "length xs - a1"] upt_add_eq_append [of a1 b1 "length xs - b1"] by simp
  have "map ?f [0..<a0] = replicate a0 0" "map ?f [b0..<a1] = replicate (a1 - b0) 0"
    "map ?f [b1..<length xs] = replicate (length xs - b1) 0" "map ?f [a0..<b0] = map ((!) xs) [a0..<b0]"
    "map ?f [a1..<b1] = map ((!) xs) [a1..<b1]"
    using assms by (auto intro!: nth_equalityI)
  then show ?thesis by (simp only: split map_append)
qed

lemma zeros_nat [simp]: "zeros (int k) = Inr (replicate k 0)"
  by (simp add: zeros_def)

lemma zeros_diff: "b \<le> a \<Longrightarrow> x = int a - int b \<Longrightarrow> zeros x = Inr (replicate (a - b) 0)"
  by (simp add: zeros_def flip: of_nat_diff)

lemma spread_both:
  assumes "tot = q + resp + 1" "x0 < y0" "y0 \<le> x1" "x1 < y1" "y1 \<le> resp" "length xs = resp"
  shows "spread_chunks tot resp ((int (q + x0), int (q + y0)), (int (q + x1), int (q + y1))) (map ((!) xs) [x0..<y0]) (map ((!) xs) [x1..<y1])
    = Inr (map (\<lambda>i. if i \<in> set ([x0..<y0] @ [x1..<y1]) then xs ! i else 0) [0..<resp])"
proof -
  have z: "zeros (int (q + x0) - (int tot - int resp - 1)) = Inr (replicate x0 0)"
    "zeros (int (q + x1) - int (q + y0)) = Inr (replicate (x1 - y0) 0)"
    "zeros (int tot - 1 - int (q + y1)) = Inr (replicate (resp - y1) 0)"
    using assms by (auto intro: zeros_diff [of 0 x0, simplified] zeros_diff)
  have ne: "map ((!) xs) [x0..<y0] \<noteq> []" "map ((!) xs) [x1..<y1] \<noteq> []" using assms by simp_all
  show ?thesis using spread_nth [of x0 y0 x1 y1 xs] assms ne
    unfolding spread_chunks_def Let_def prod.case z rbind_simps by simp
qed

lemma spread_first:
  assumes "tot = q + resp + 1" "x0 < y0" "y0 \<le> resp" "length xs = resp"
  shows "spread_chunks tot resp ((int (q + x0), int (q + y0)), l) (map ((!) xs) [x0..<y0]) []
    = Inr (map (\<lambda>i. if i \<in> set [x0..<y0] then xs ! i else 0) [0..<resp])"
proof -
  have z: "zeros (int (q + x0) - (int tot - int resp - 1)) = Inr (replicate x0 0)"
    "zeros (int tot - 1 - int (q + y0)) = Inr (replicate (resp - y0) 0)"
    using assms by (auto intro: zeros_diff [of 0 x0, simplified] zeros_diff)
  have ne: "map ((!) xs) [x0..<y0] \<noteq> []" using assms by simp
  obtain a1 b1 where l: "l = (a1, b1)" by (cases l)
  show ?thesis using spread_nth [of x0 y0 y0 y0 xs] assms ne
    unfolding spread_chunks_def l Let_def prod.case z rbind_simps by simp
qed

lemma spread_second:
  assumes "tot = q + resp + 1" "x1 < y1" "y1 \<le> resp" "length xs = resp"
  shows "spread_chunks tot resp (l, (int (q + x1), int (q + y1))) [] (map ((!) xs) [x1..<y1])
    = Inr (map (\<lambda>i. if i \<in> set [x1..<y1] then xs ! i else 0) [0..<resp])"
proof -
  have z: "zeros (int (q + x1) - (int tot - int resp - 1)) = Inr (replicate x1 0)"
    "zeros (int tot - 1 - int (q + y1)) = Inr (replicate (resp - y1) 0)"
    using assms by (auto intro: zeros_diff [of 0 x1, simplified] zeros_diff)
  have ne: "map ((!) xs) [x1..<y1] \<noteq> []" using assms by simp
  obtain a0 b0 where l: "l = (a0, b0)" by (cases l)
  show ?thesis using spread_nth [of x1 y1 y1 y1 xs] assms ne
    unfolding spread_chunks_def l Let_def prod.case z rbind_simps by simp
qed

lemma spread_windows:
  assumes tot: "tot = q + m + 1" and len: "length xs = m" and order: "(j + 1) * c \<le> k * c"
  shows "spread_chunks tot m (window_offsets c q m j, window_offsets c q m k)
      (map ((!) xs) (window c q m j)) (map ((!) xs) (window c q m k))
    = Inr (map (\<lambda>i. if i \<in> set (window c q m j @ window c q m k) then xs ! i else 0) [0..<m])"
proof (cases rule: window_offsets_cases [of c q m j])
  case A: some
  show ?thesis
  proof (cases rule: window_offsets_cases [of c q m k])
    case B: some
    have "min ((j + 1) * c - q) m \<le> k * c - q" using order by linarith
    then show ?thesis unfolding A(1) B(1) window_def
      by (intro spread_both [OF tot]) (use A B len in auto)
  next
    case B: none
    show ?thesis unfolding A(1) B(2) unfolding window_def append_Nil2 list.map(1)
      by (intro spread_first [OF tot]) (use A len in auto)
  qed
next
  case A: none
  show ?thesis
  proof (cases rule: window_offsets_cases [of c q m k])
    case B: some
    show ?thesis unfolding B(1) A(2) unfolding window_def append_Nil list.map(1)
      by (intro spread_second [OF tot]) (use B len in auto)
  next
    case B: none
    show ?thesis unfolding A B using len by (simp add: spread_chunks_def map_replicate_const)
  qed
qed

lemma cp_contribution_owned:
  assumes ok: "cp_layout_ok lay tot resp" "r < layout_size lay" and len: "length xs = resp"
  shows "cp_contribution lay r tot resp (map ((!) xs) (owned lay tot resp r))
    = Inr (map (\<lambda>i. if i \<in> set (owned lay tot resp r) then xs ! i else 0) [0..<resp])"
proof -
  let ?n = "layout_size lay" let ?c = "cp_chunk_size (layout_len lay tot) ?n" let ?q = "tot - resp - 1"
  let ?w = "window_offsets ?c ?q resp" let ?r' = "2 * ?n - 1 - r"
  obtain off where off: "rank_offsets lay tot resp r = Inr off" "logits_offsets off = (?w r, ?w ?r')"
    using rank_offsets_eq [OF ok] by (auto simp: Let_def)
  let ?A = "window ?c ?q resp r" let ?B = "window ?c ?q resp ?r'"
  have ow: "owned lay tot resp r = ?A @ ?B" by (simp add: owned_def rank_window_def)
  have wlen: "snd (?w j) - fst (?w j) = int (length (window ?c ?q resp j))" for j
    by (cases rule: window_offsets_cases [of ?c ?q resp j]) (auto simp: window_def)
  obtain a0 b0 a1 b1 where w: "?w r = (a0, b0)" "?w ?r' = (a1, b1)" by (metis surj_pair)
  have l: "b0 - a0 = int (length ?A)" "b1 - a1 = int (length ?B)" using wlen [of r] wlen [of ?r'] w by simp_all
  let ?T = "map ((!) xs) (?A @ ?B)"
  have c0: "py_slice 0 (int (length ?A)) ?T = map ((!) xs) ?A"
    by (simp add: py_slice_def slice_bound_def slice_def)
  have c1: "py_slice (int (length ?A)) (int (length ?T)) ?T = map ((!) xs) ?B"
    by (simp add: py_slice_def slice_bound_def slice_def)
  have "(r + 1) * ?c \<le> ?r' * ?c" using ok(2) by (intro mult_right_mono) auto
  then have s: "spread_chunks tot resp ((a0, b0), (a1, b1)) (map ((!) xs) ?A) (map ((!) xs) ?B)
      = Inr (map (\<lambda>i. if i \<in> set (?A @ ?B) then xs ! i else 0) [0..<resp])"
    unfolding w [symmetric] by (intro spread_windows) (use ok len in \<open>auto simp: cp_layout_ok_def\<close>)
  show ?thesis
    unfolding cp_contribution_def ow off(1) rbind_simps off(2) w Let_def prod.case l c0 c1 s
    by (simp only: length_map py_assert_simps rbind_simps length_upt diff_zero simp_thms)
qed

lemma sum_indicator:
  assumes "distinct (concat (map f rs))" "i \<in> set (concat (map f rs))"
  shows "(\<Sum>r\<leftarrow>rs. if i \<in> set (f r) then v else (0 :: real)) = v"
  using assms
proof (induction rs)
  case (Cons r rs)
  show ?case
  proof (cases "i \<in> set (f r)")
    case True
    then have "\<forall>r'\<in>set rs. i \<notin> set (f r')" using Cons.prems(1) by auto
    then have "map (\<lambda>r. if i \<in> set (f r) then v else 0) rs = map (\<lambda>_. 0) rs" by simp
    then show ?thesis using True by (simp add: map_replicate_const sum_list_replicate)
  qed (use Cons in auto)
qed simp

lemma owned_distinct:
  assumes "cp_layout_ok lay tot resp"
  shows "distinct (concat (map (owned lay tot resp) [0..<layout_size lay]))"
    and "set (concat (map (owned lay tot resp) [0..<layout_size lay])) = {0..<resp}"
  using mset_eq_imp_distinct_iff [OF owned_partition [OF assms]] mset_eq_setD [OF owned_partition [OF assms]] by auto

lemma all_gather_owned:
  assumes ok: "cp_layout_ok lay tot resp" and len: "length xs = resp"
  shows "all_gather_with_cp lay tot resp (map (\<lambda>r. map ((!) xs) (owned lay tot resp r)) [0..<layout_size lay]) = Inr xs"
proof -
  let ?n = "layout_size lay" let ?f = "owned lay tot resp"
  let ?full = "\<lambda>r. map (\<lambda>i. if i \<in> set (?f r) then xs ! i else 0) [0..<resp]"
  have "map (\<lambda>(r, t). cp_contribution lay r tot resp t) (enum (map (\<lambda>r. map ((!) xs) (?f r)) [0..<?n])) = map (\<lambda>r. Inr (?full r)) [0..<?n]"
    by (rule nth_equalityI) (use cp_contribution_owned [OF ok _ len] in \<open>auto simp: enum_def\<close>)
  moreover have "all_reduce (map ?full [0..<?n]) resp = xs"
  proof (rule nth_equalityI)
    fix i assume "i < length (all_reduce (map ?full [0..<?n]) resp)"
    then have i: "i < resp" by (simp add: all_reduce_def)
    then have "all_reduce (map ?full [0..<?n]) resp ! i = (\<Sum>r\<leftarrow>[0..<?n]. if i \<in> set (?f r) then xs ! i else 0)"
      by (simp add: all_reduce_def comp_def cong: if_cong)
    also have "\<dots> = xs ! i" by (rule sum_indicator) (use owned_distinct [OF ok] i in auto)
    finally show "all_reduce (map ?full [0..<?n]) resp ! i = xs ! i" .
  qed (simp add: all_reduce_def len)
  ultimately show ?thesis using ok by (simp add: all_gather_with_cp_def cp_layout_ok_def res_all_map_Inr)
qed

lemma write_at_upt:
  assumes "x0 \<le> y0" "y0 \<le> m"
  shows "write_at x0 (map f [x0..<y0]) (map g [0..<m]) = map (\<lambda>i. if i \<in> set [x0..<y0] then f i else g i) [0..<m]"
  by (rule nth_equalityI) (use assms in \<open>auto simp: write_at_def nth_append\<close>)

lemma place_chunks_windows:
  assumes "offs = map (window_offsets c q m) js" "chunk = pre @ map ((!) xs) (concat (map (window c q m) js))" "length xs = m"
  shows "place_chunks (int q) offs chunk (length pre) (map g [0..<m])
    = Inr (map (\<lambda>i. if i \<in> set (concat (map (window c q m) js)) then xs ! i else g i) [0..<m], length chunk)"
  using assms(1,2)
proof (induction js arbitrary: offs pre g)
  case (Cons j js)
  let ?rest = "map ((!) xs) (concat (map (window c q m) js))"
  show ?case
  proof (cases rule: window_offsets_cases [of c q m j])
    case some
    let ?x = "j * c - q" let ?y = "min ((j + 1) * c - q) m"
    have piece: "slice (length pre) (length pre + (?y - ?x)) chunk = map ((!) xs) [?x..<?y]"
      using Cons.prems by (simp add: slice_def window_def)
    have w: "int (q + ?y) - int (q + ?x) = int (?y - ?x)" using some(2) by linarith
    have st: "int (q + ?x) - int q = int ?x" by simp
    have npos: "\<not> int (?y - ?x) \<le> 0" using some(2) by linarith
    have c: "chunk = (pre @ map ((!) xs) [?x..<?y]) @ ?rest" using Cons.prems by (simp add: window_def [of c q m j])
    have IH: "place_chunks (int q) (map (window_offsets c q m) js) chunk (length pre + (?y - ?x)) (map (\<lambda>i. if i \<in> set [?x..<?y] then xs ! i else g i) [0..<m])
      = Inr (map (\<lambda>i. if i \<in> set (concat (map (window c q m) js)) then xs ! i else if i \<in> set [?x..<?y] then xs ! i else g i) [0..<m], length chunk)"
      using Cons.IH [OF refl c, of "\<lambda>i. if i \<in> set [?x..<?y] then xs ! i else g i"] by (simp only: length_append length_map length_upt)
    have wr: "write_at ?x (map ((!) xs) [?x..<?y]) (map g [0..<m]) = map (\<lambda>i. if i \<in> set [?x..<?y] then xs ! i else g i) [0..<m]"
      by (rule write_at_upt) (use some(2) in auto)
    have "place_chunks (int q) offs chunk (length pre) (map g [0..<m])
      = place_chunks (int q) (map (window_offsets c q m) js) chunk (length pre + (?y - ?x)) (map (\<lambda>i. if i \<in> set [?x..<?y] then xs ! i else g i) [0..<m])"
      unfolding Cons.prems(1) list.map some(1) place_chunks.simps Let_def st w nat_int piece length_map length_upt wr
      using npos by (simp only: if_False simp_thms)
    also have "\<dots> = Inr (map (\<lambda>i. if i \<in> set (concat (map (window c q m) (j # js))) then xs ! i else g i) [0..<m], length chunk)"
      unfolding IH by (simp add: window_def [of c q m j])
    finally show ?thesis .
  next
    case none
    have "place_chunks (int q) offs chunk (length pre) (map g [0..<m]) = place_chunks (int q) (map (window_offsets c q m) js) chunk (length pre) (map g [0..<m])"
      by (simp add: Cons.prems(1) none Let_def)
    then show ?thesis using Cons.IH [OF refl, of pre g] Cons.prems(2) none by simp
  qed
qed simp

lemma assemble_ranks_owned:
  assumes ok: "cp_layout_ok lay tot resp" and len: "length xs = resp" and rs: "set rs \<subseteq> {0..<layout_size lay}"
  shows "assemble_ranks lay tot resp (map (\<lambda>r. (r, map ((!) xs) (owned lay tot resp r))) rs) (map g [0..<resp])
    = Inr (map (\<lambda>i. if i \<in> set (concat (map (owned lay tot resp) rs)) then xs ! i else g i) [0..<resp])"
  using rs
proof (induction rs arbitrary: g)
  case (Cons r rs)
  let ?n = "layout_size lay" let ?c = "cp_chunk_size (layout_len lay tot) ?n" let ?q = "tot - resp - 1"
  have q: "int tot - int resp - 1 = int ?q" using ok by (auto simp: cp_layout_ok_def)
  obtain off where off: "rank_offsets lay tot resp r = Inr off"
    "[fst (logits_offsets off), snd (logits_offsets off)] = map (window_offsets ?c ?q resp) [r, 2 * ?n - 1 - r]"
    using rank_offsets_eq [OF ok, of r] Cons.prems by (auto simp: Let_def)
  have ow: "concat (map (window ?c ?q resp) [r, 2 * ?n - 1 - r]) = owned lay tot resp r" by (simp add: owned_def rank_window_def)
  have place: "place_chunks (int ?q) (map (window_offsets ?c ?q resp) [r, 2 * ?n - 1 - r]) (map ((!) xs) (owned lay tot resp r)) 0 (map g [0..<resp])
      = Inr (map (\<lambda>i. if i \<in> set (owned lay tot resp r) then xs ! i else g i) [0..<resp], length (owned lay tot resp r))"
    using place_chunks_windows [OF refl _ len, of "map ((!) xs) (owned lay tot resp r)" "[]" ?c ?q "[r, 2 * ?n - 1 - r]" g]
    unfolding ow by simp
  have "assemble_ranks lay tot resp ((r, map ((!) xs) (owned lay tot resp r)) # map (\<lambda>r. (r, map ((!) xs) (owned lay tot resp r))) rs) (map g [0..<resp])
    = assemble_ranks lay tot resp (map (\<lambda>r. (r, map ((!) xs) (owned lay tot resp r))) rs)
        (map (\<lambda>i. if i \<in> set (owned lay tot resp r) then xs ! i else g i) [0..<resp])"
    unfolding assemble_ranks.simps off rbind_simps q place
    by (simp only: prod.case py_assert_simps length_map simp_thms rbind_simps)
  also have "\<dots> = Inr (map (\<lambda>i. if i \<in> set (concat (map (owned lay tot resp) (r # rs))) then xs ! i else g i) [0..<resp])"
    using Cons by auto
  finally show ?case unfolding list.map(2) [of "\<lambda>r. (r, map ((!) xs) (owned lay tot resp r))"] .
qed simp

lemma assemble_owned:
  assumes ok: "cp_layout_ok lay tot resp" and len: "length xs = resp" and rs: "mset rs = mset [0..<layout_size lay]"
  shows "assemble_log_prob_from_cp lay tot resp (map (\<lambda>r. (r, map ((!) xs) (owned lay tot resp r))) rs) = Inr xs"
proof -
  have s: "set rs = {0..<layout_size lay}" using mset_eq_setD [OF rs] by simp
  have all: "\<forall>i<resp. i \<in> set (concat (map (owned lay tot resp) rs))" using owned_distinct(2) [OF ok] s by auto
  have keys: "dkeys (map (\<lambda>r. (r, map ((!) xs) (owned lay tot resp r))) rs) = rs" by (simp add: comp_def)
  have eq: "map (\<lambda>i. if i \<in> set (concat (map (owned lay tot resp) rs)) then xs ! i else 0) [0..<resp] = xs"
    by (rule nth_equalityI) (use all len in auto)
  have rep: "replicate resp (0 :: real) = map (\<lambda>_. 0) [0..<resp]" by (simp add: map_replicate_const)
  show ?thesis unfolding assemble_log_prob_from_cp_def keys rep assemble_ranks_owned [OF ok len equalityD1 [OF s]] eq
    using ok s by (simp add: cp_layout_ok_def)
qed

section \<open>Sums over the ranks\<close>

lemma masked_sum_at: "masked_sum (map ((!) xs) ks) (map ((!) ms) ks) = (\<Sum>i\<leftarrow>ks. xs ! i * ms ! i)"
  by (induction ks) (simp_all add: masked_sum_def)

lemma masked_sum_all: "length xs = m \<Longrightarrow> length ms = m \<Longrightarrow> masked_sum xs ms = (\<Sum>i\<leftarrow>[0..<m]. xs ! i * ms ! i)"
  using masked_sum_at [of xs "[0..<m]" ms] map_nth [of xs] map_nth [of ms] by simp

lemma sum_concat_map: "(\<Sum>r\<leftarrow>rs. \<Sum>i\<leftarrow>f r. g i) = (\<Sum>i\<leftarrow>concat (map f rs). (g i :: real))"
  by (induction rs) simp_all

lemma masked_sum_owned:
  assumes "cp_layout_ok lay tot resp" "length xs = resp" "length ms = resp"
  shows "(\<Sum>r\<leftarrow>[0..<layout_size lay]. masked_sum (map ((!) xs) (owned lay tot resp r)) (map ((!) ms) (owned lay tot resp r))) = masked_sum xs ms"
proof -
  have "(\<Sum>i\<leftarrow>concat (map (owned lay tot resp) [0..<layout_size lay]). xs ! i * ms ! i) = (\<Sum>i\<leftarrow>[0..<resp]. xs ! i * ms ! i)"
    by (simp only: sum_mset_sum_list [symmetric] mset_map owned_partition [OF assms(1)])
  then show ?thesis unfolding masked_sum_at sum_concat_map masked_sum_all [OF assms(2,3)] .
qed

lemma split_lengths_concat: "split_lengths (map length xss) (concat xss) = xss"
  by (induction xss) simp_all

lemma sum_of_sample_mean_upt:
  "length ds = k \<Longrightarrow> sum_of_sample_mean (map f [0..<k]) (map g [0..<k]) ds = (\<Sum>i\<leftarrow>[0..<k]. masked_sum (f i) (g i) / clamp_min_one (ds ! i))"
  unfolding sum_of_sample_mean_def by (intro arg_cong [where f = sum_list] nth_equalityI) auto

lemma sum_of_token_upt: "sum_of_token (map f [0..<k]) (map g [0..<k]) = (\<Sum>i\<leftarrow>[0..<k]. masked_sum (f i) (g i))"
  unfolding sum_of_token_def by (intro arg_cong [where f = sum_list] nth_equalityI) auto

text \<open>A batch whose samples have a well-formed layout and full-length values.\<close>

definition cp_batch_ok :: "cp_layout \<Rightarrow> sample_lens list \<Rightarrow> 'a list list \<Rightarrow> bool" where
  "cp_batch_ok lay lens xss \<longleftrightarrow> list_all2 (\<lambda>(tot, resp, len) xs. cp_layout_ok (sample_layout lay len) tot resp \<and> length xs = resp) lens xss"

definition sample_owned :: "cp_layout \<Rightarrow> sample_lens \<Rightarrow> nat \<Rightarrow> nat list" where
  "sample_owned lay l r = (case l of (tot, resp, len) \<Rightarrow> owned (sample_layout lay len) tot resp r)"

definition local_values :: "cp_layout \<Rightarrow> sample_lens list \<Rightarrow> 'a list list \<Rightarrow> nat \<Rightarrow> 'a list list" where
  "local_values lay lens xss r = map (\<lambda>k. map ((!) (xss ! k)) (sample_owned lay (lens ! k) r)) [0..<length lens]"

lemma batch_at:
  assumes "cp_batch_ok lay lens xss" "k < length lens"
  obtains tot resp len where "lens ! k = (tot, resp, len)" "cp_layout_ok (sample_layout lay len) tot resp" "length (xss ! k) = resp"
  using assms by (cases "lens ! k") (auto simp: cp_batch_ok_def list_all2_conv_all_nth)

lemma map2_upt: "length xs = length ys \<Longrightarrow> map2 f xs ys = map (\<lambda>k. f (xs ! k) (ys ! k)) [0..<length xs]"
  by (rule nth_equalityI) auto

lemma batch_length: "cp_batch_ok lay lens xss \<Longrightarrow> length lens = length xss"
  by (simp add: cp_batch_ok_def list_all2_lengthD)

lemma local_slices:
  assumes "cp_batch_ok lay lens xss" "r < layout_size lay"
  shows "res_all (map2 (\<lambda>(tot, resp, len) xs. slice_log_prob_with_cp (sample_layout lay len) r tot resp xs) lens xss)
    = Inr (local_values lay lens xss r)"
  unfolding local_values_def map2_upt [OF batch_length [OF assms(1)]]
proof (rule res_all_map_Inr)
  fix k assume "k \<in> set [0..<length lens]"
  then obtain tot resp len where "lens ! k = (tot, resp, len)" "cp_layout_ok (sample_layout lay len) tot resp" "length (xss ! k) = resp"
    using batch_at [OF assms(1), of k] by (metis atLeast0LessThan lessThan_iff set_upt)
  then show "(case lens ! k of (tot, resp, len) \<Rightarrow> \<lambda>xs. slice_log_prob_with_cp (sample_layout lay len) r tot resp xs) (xss ! k)
      = Inr (map ((!) (xss ! k)) (sample_owned lay (lens ! k) r))"
    using slice_log_prob_owned [of "sample_layout lay len" tot resp r "xss ! k"] assms(2) by (simp add: sample_owned_def)
qed

lemma local_masks:
  assumes "cp_batch_ok lay lens mss" "r < layout_size lay" "layout_size lay \<noteq> 1"
  shows "get_local_response_loss_masks lay r lens mss = Inr (local_values lay lens mss r)"
proof -
  have "res_all (map2 (\<lambda>(tot, resp, len) m. slice_loss_mask_for_local_cp (sample_layout lay len) r tot resp m) lens mss)
      = Inr (local_values lay lens mss r)"
    unfolding local_values_def map2_upt [OF batch_length [OF assms(1)]]
  proof (rule res_all_map_Inr)
    fix k assume "k \<in> set [0..<length lens]"
    then obtain tot resp len where "lens ! k = (tot, resp, len)" "cp_layout_ok (sample_layout lay len) tot resp" "length (mss ! k) = resp"
      using batch_at [OF assms(1), of k] by (metis atLeast0LessThan lessThan_iff set_upt)
    then show "(case lens ! k of (tot, resp, len) \<Rightarrow> \<lambda>m. slice_loss_mask_for_local_cp (sample_layout lay len) r tot resp m) (mss ! k)
        = Inr (map ((!) (mss ! k)) (sample_owned lay (lens ! k) r))"
      using slice_mask_owned [of "sample_layout lay len" tot resp r "mss ! k"] assms(2) by (simp add: sample_owned_def)
  qed
  then show ?thesis using assms(3) batch_length [OF assms(1)] by (simp add: get_local_response_loss_masks_def)
qed

lemma masked_sum_ranks:
  assumes "cp_batch_ok lay lens xss" "cp_batch_ok lay lens mss" "k < length lens"
  shows "(\<Sum>r\<leftarrow>[0..<layout_size lay]. masked_sum (map ((!) (xss ! k)) (sample_owned lay (lens ! k) r)) (map ((!) (mss ! k)) (sample_owned lay (lens ! k) r)))
    = masked_sum (xss ! k) (mss ! k)"
proof -
  obtain tot resp len where a: "lens ! k = (tot, resp, len)" "cp_layout_ok (sample_layout lay len) tot resp" "length (xss ! k) = resp"
    using batch_at [OF assms(1,3)] by auto
  moreover have "length (mss ! k) = resp" using batch_at [OF assms(2,3)] a by auto
  ultimately show ?thesis using masked_sum_owned [of "sample_layout lay len" tot resp "xss ! k" "mss ! k"] by (simp add: sample_owned_def)
qed

lemma sum_list_swap: "(\<Sum>r\<leftarrow>rs. \<Sum>k\<leftarrow>ks. f r k) = (\<Sum>k\<leftarrow>ks. \<Sum>r\<leftarrow>rs. (f r k :: real))"
  by (induction rs) (simp_all add: sum_list_addf)

text \<open>The sum of per-sample means is independent of context parallelism: when every rank holds its
  zigzag slices of the values of a batch, its share is computed without an error, and the shares of all ranks add up to what a
  single rank computes from the whole responses, for means with own or given denominators and for sums over tokens.\<close>

theorem sample_means_ignore_parallelism:
  assumes "cp_batch_ok lay lens xss" "cp_batch_ok lay lens masks" "1 < layout_size lay"
    and "\<forall>d. denominators = Some d \<longrightarrow> length d = length masks"
  shows "\<exists>slices shares.
    (\<forall>r<layout_size lay. res_all (map2 (\<lambda>(tot, resp, len) xs. slice_log_prob_with_cp (sample_layout lay len) r tot resp xs) lens xss) = Inr (slices r)
      \<and> get_sum_of_sample_mean lay r lens masks per_token denominators (concat (slices r)) = Inr (shares r))
    \<and> get_sum_of_sample_mean (lay\<lparr>layout_size := 1\<rparr>) 0 lens masks per_token denominators (concat xss) = Inr (\<Sum>r\<leftarrow>[0..<layout_size lay]. shares r)"
proof -
  let ?n = "layout_size lay" let ?K = "length lens"
  define ds where "ds = (case denominators of None \<Rightarrow> default_denominators masks | Some d \<Rightarrow> d)"
  have len: "length xss = ?K" "length masks = ?K" "length ds = ?K"
    using assms batch_length [OF assms(1)] batch_length [OF assms(2)] by (auto simp: ds_def default_denominators_def split: option.splits)
  let ?v = "\<lambda>r k. map ((!) (xss ! k)) (sample_owned lay (lens ! k) r)"
  let ?m = "\<lambda>r k. map ((!) (masks ! k)) (sample_owned lay (lens ! k) r)"
  define share where "share = (\<lambda>r. if per_token then (\<Sum>k\<leftarrow>[0..<?K]. masked_sum (?v r k) (?m r k))
    else (\<Sum>k\<leftarrow>[0..<?K]. masked_sum (?v r k) (?m r k) / clamp_min_one (ds ! k)))"
  have local: "get_sum_of_sample_mean lay r lens masks per_token denominators (concat (local_values lay lens xss r)) = Inr (share r)"
    if r: "r < ?n" for r
  proof -
    have cuts: "map length (local_values lay lens masks r) = map length (local_values lay lens xss r)" by (simp add: local_values_def)
    have one: "?n \<noteq> 1" using assms(3) by simp
    have sums: "sum_of_sample_mean (local_values lay lens xss r) (local_values lay lens masks r) ds = (\<Sum>k\<leftarrow>[0..<?K]. masked_sum (?v r k) (?m r k) / clamp_min_one (ds ! k))"
      "sum_of_token (local_values lay lens xss r) (local_values lay lens masks r) = (\<Sum>k\<leftarrow>[0..<?K]. masked_sum (?v r k) (?m r k))"
      unfolding local_values_def by (rule sum_of_sample_mean_upt [OF len(3)], rule sum_of_token_upt)
    show ?thesis
      unfolding get_sum_of_sample_mean_def ds_def [symmetric] Let_def local_masks [OF assms(2) r one] rbind_simps
      by (simp add: if_not_P [OF one, unfolded One_nat_def] len cuts split_lengths_concat length_concat sums share_def)
  qed
  have cuts1: "map (\<lambda>(_, resp, _). resp) lens = map length xss"
    using assms(1) by (intro nth_equalityI) (auto simp: cp_batch_ok_def list_all2_conv_all_nth split: prod.splits)
  have up: "map (\<lambda>k. xss ! k) [0..<?K] = xss" "map (\<lambda>k. masks ! k) [0..<?K] = masks" using len map_nth [of xss] map_nth [of masks] by auto
  have whole: "get_sum_of_sample_mean (lay\<lparr>layout_size := 1\<rparr>) 0 lens masks per_token denominators (concat xss)
      = Inr (if per_token then (\<Sum>k\<leftarrow>[0..<?K]. masked_sum (xss ! k) (masks ! k))
        else (\<Sum>k\<leftarrow>[0..<?K]. masked_sum (xss ! k) (masks ! k) / clamp_min_one (ds ! k)))"
    using len sum_of_sample_mean_upt [OF len(3), of "(!) xss" "(!) masks"] sum_of_token_upt [of "(!) xss" ?K "(!) masks"]
    unfolding get_sum_of_sample_mean_def ds_def [symmetric] up
    by (simp add: get_local_response_loss_masks_def cuts1 split_lengths_concat length_concat)
  have ranks: "(\<Sum>r\<leftarrow>[0..<?n]. masked_sum (?v r k) (?m r k)) = masked_sum (xss ! k) (masks ! k)" if "k < ?K" for k
    by (rule masked_sum_ranks [OF assms(1,2) that])
  have div: "(\<Sum>r\<leftarrow>[0..<?n]. masked_sum (?v r k) (?m r k) / z) = masked_sum (xss ! k) (masks ! k) / z" if "k < ?K" for k z
    using ranks [OF that] sum_list_mult_const [of "\<lambda>r. masked_sum (?v r k) (?m r k)" "1 / z" "[0..<?n]"] by simp
  have total: "(\<Sum>r\<leftarrow>[0..<?n]. share r) = (if per_token then (\<Sum>k\<leftarrow>[0..<?K]. masked_sum (xss ! k) (masks ! k))
        else (\<Sum>k\<leftarrow>[0..<?K]. masked_sum (xss ! k) (masks ! k) / clamp_min_one (ds ! k)))"
  proof (cases per_token)
    case True
    have "(\<Sum>k\<leftarrow>[0..<?K]. \<Sum>r\<leftarrow>[0..<?n]. masked_sum (?v r k) (?m r k)) = (\<Sum>k\<leftarrow>[0..<?K]. masked_sum (xss ! k) (masks ! k))"
      by (intro arg_cong [where f = sum_list] map_cong refl) (rule ranks, simp)
    then show ?thesis using True by (simp only: share_def if_True sum_list_swap [of _ _ "[0..<?n]"])
  next
    case False
    have "(\<Sum>k\<leftarrow>[0..<?K]. \<Sum>r\<leftarrow>[0..<?n]. masked_sum (?v r k) (?m r k) / clamp_min_one (ds ! k))
      = (\<Sum>k\<leftarrow>[0..<?K]. masked_sum (xss ! k) (masks ! k) / clamp_min_one (ds ! k))"
      by (intro arg_cong [where f = sum_list] map_cong refl) (rule div, simp)
    then show ?thesis using False by (simp only: share_def if_False sum_list_swap [of _ _ "[0..<?n]"])
  qed
  show ?thesis
    by (rule exI [of _ "local_values lay lens xss"], rule exI [of _ share]) (use local_slices [OF assms(1)] local whole total in simp)
qed

section \<open>Redistribution\<close>

text \<open>The values of a response whose logits rank \<open>k\<close> holds, the first one at the global position \<open>g\<close>.\<close>

definition held_values :: "nat \<Rightarrow> nat \<Rightarrow> nat \<Rightarrow> 'a list \<Rightarrow> 'a list" where
  "held_values local_len k g xs = map ((!) xs) (filter (\<lambda>i. k * local_len \<le> g + i \<and> g + i < (k + 1) * local_len) [0..<length xs])"

fun contiguous_values :: "qkv_format \<Rightarrow> nat \<Rightarrow> nat \<Rightarrow> nat \<Rightarrow> sample_lens list \<Rightarrow> 'a list list \<Rightarrow> 'a list list" where
  "contiguous_values fmt local_len k start ((tot, resp, len) # lens) (xs # xss) =
     held_values local_len k ((if fmt = Bshd then 0 else start) + (tot - resp - 1)) xs # contiguous_values fmt local_len k (start + tot) lens xss"
| "contiguous_values fmt local_len k start lens xss = []"

text \<open>The ranks together hold every logit of the batch.\<close>

fun logits_covered :: "qkv_format \<Rightarrow> nat \<Rightarrow> nat \<Rightarrow> sample_lens list \<Rightarrow> bool" where
  "logits_covered fmt held start [] = True"
| "logits_covered fmt held start ((tot, resp, len) # lens) =
     ((if fmt = Bshd then 0 else start) + tot \<le> held \<and> logits_covered fmt held (start + tot) lens)"

lemma held_values_window: "length xs = m \<Longrightarrow> held_values T k g xs = map ((!) xs) (window T g m k)"
proof -
  assume "length xs = m"
  moreover have "filter (\<lambda>i. k * T \<le> g + i \<and> g + i < (k + 1) * T) [0..<m] = [k * T - g..<min ((k + 1) * T - g) m]"
    by (rule sorted_distinct_set_unique) (auto intro: sorted_wrt_filter)
  ultimately show ?thesis by (simp only: held_values_def window_def)
qed

lemma contiguous_contribution_window:
  assumes "resp < tot" "length xs = resp" and g: "g = (if fmt = Bshd then 0 else start) + (tot - resp - 1)"
  shows "contiguous_contribution fmt T k start tot resp (held_values T k g xs)
    = Inr (map (\<lambda>i. if i \<in> set (window T g resp k) then xs ! i else 0) [0..<resp])"
proof -
  have G: "(if fmt = Bshd then 0 else int start) + (int tot - int resp) - 1 = int g"
    "(if fmt = Bshd then 0 else int start) + int tot - 1 = int (g + resp)" using assms by auto
  have C: "int (k * T) + int T = int ((k + 1) * T)" by (simp add: algebra_simps)
  have cond: "(min (int (g + resp)) (int ((k + 1) * T)) \<le> max (int g) (int (k * T))) = (min ((k + 1) * T - g) resp \<le> k * T - g \<or> resp = 0)"
    using assms(1) by linarith
  show ?thesis
  proof (cases "min ((k + 1) * T - g) resp \<le> k * T - g \<or> resp = 0")
    case True
    then have "window T g resp k = []" by (auto simp: window_def)
    then show ?thesis unfolding contiguous_contribution_def G C Let_def cond
      using True by (simp add: map_replicate_const)
  next
    case False
    let ?x = "k * T - g" let ?y = "min ((k + 1) * T - g) resp"
    have e: "nat (max (int g) (int (k * T)) - int g) = ?x"
      "nat (int resp - (min (int (g + resp)) (int ((k + 1) * T)) - int g)) = resp - ?y" using False by linarith+
    have full: "replicate ?x 0 @ map ((!) xs) [?x..<?y] @ replicate (resp - ?y) 0
        = map (\<lambda>i. if i \<in> set [?x..<?y] then xs ! i else (0 :: real)) [0..<resp]"
    proof -
      have "?x \<le> ?y" "?y \<le> length xs" using False assms(2) by linarith+
      then show ?thesis using spread_nth [of ?x ?y ?y ?y xs] assms(2) by simp
    qed
    show ?thesis unfolding contiguous_contribution_def G C Let_def cond held_values_window [OF assms(2)] window_def
      if_not_P [OF False] e full
      by (simp only: length_map length_upt diff_zero py_assert_simps simp_thms rbind_simps)
  qed
qed

lemma windows_partition:
  assumes "m + q \<le> n * c"
  shows "concat (map (window c q m) [0..<n]) = [0..<m]"
  using assms by (simp add: windows_concat min_absorb2)

lemma window_sum:
  assumes "m + q \<le> n * c" "length xs = m"
  shows "all_reduce (map (\<lambda>k. map (\<lambda>i. if i \<in> set (window c q m k) then xs ! i else 0) [0..<m]) [0..<n]) m = xs"
proof (rule nth_equalityI)
  let ?t = "map (\<lambda>k. map (\<lambda>i. if i \<in> set (window c q m k) then xs ! i else 0) [0..<m]) [0..<n]"
  fix i assume "i < length (all_reduce ?t m)"
  then have i: "i < m" by (simp add: all_reduce_def)
  then have "all_reduce ?t m ! i = (\<Sum>k\<leftarrow>[0..<n]. if i \<in> set (window c q m k) then xs ! i else 0)"
    by (simp add: all_reduce_def comp_def cong: if_cong)
  also have "\<dots> = xs ! i" by (rule sum_indicator) (use i in \<open>simp_all only: windows_partition [OF assms(1)], simp_all\<close>)
  finally show "all_reduce ?t m ! i = xs ! i" .
qed (simp add: all_reduce_def assms)

lemma all_reduce_nth: "i < m \<Longrightarrow> all_reduce ts m ! i = (\<Sum>t\<leftarrow>ts. t ! i)"
  by (simp add: all_reduce_def)

lemma all_reduce_length [simp]: "length (all_reduce ts m) = m"
  by (simp add: all_reduce_def)

lemma all_reduce_append:
  assumes "\<And>k. k \<in> set ks \<Longrightarrow> length (A k) = a" "\<And>k. k \<in> set ks \<Longrightarrow> length (B k) = b"
  shows "all_reduce (map (\<lambda>k. A k @ B k) ks) (a + b) = all_reduce (map A ks) a @ all_reduce (map B ks) b"
proof (rule nth_equalityI)
  fix i assume "i < length (all_reduce (map (\<lambda>k. A k @ B k) ks) (a + b))"
  then have i: "i < a + b" by simp
  have split: "map (\<lambda>k. (A k @ B k) ! i) ks = map (\<lambda>k. if i < a then A k ! i else B k ! (i - a)) ks"
    using assms by (auto simp: nth_append)
  show "all_reduce (map (\<lambda>k. A k @ B k) ks) (a + b) ! i = (all_reduce (map A ks) a @ all_reduce (map B ks) b) ! i"
    using i unfolding all_reduce_nth [OF i] map_map comp_def split
    by (cases "i < a") (simp_all add: nth_append all_reduce_nth comp_def)
qed simp

definition sample_indicator :: "nat \<Rightarrow> nat \<Rightarrow> nat \<Rightarrow> real list \<Rightarrow> real list" where
  "sample_indicator T k g xs = map (\<lambda>i. if i \<in> set (window T g (length xs) k) then xs ! i else 0) [0..<length xs]"

fun batch_indicators :: "qkv_format \<Rightarrow> nat \<Rightarrow> nat \<Rightarrow> nat \<Rightarrow> sample_lens list \<Rightarrow> real list list \<Rightarrow> real list list" where
  "batch_indicators fmt T k start ((tot, resp, len) # lens) (xs # xss) =
     sample_indicator T k ((if fmt = Bshd then 0 else start) + (tot - resp - 1)) xs # batch_indicators fmt T k (start + tot) lens xss"
| "batch_indicators fmt T k start lens xss = []"

lemma contiguous_responses_values:
  assumes "cp_batch_ok lay lens xss"
  shows "contiguous_responses fmt T k start lens (contiguous_values fmt T k start lens xss) = Inr (batch_indicators fmt T k start lens xss)"
  using assms
proof (induction fmt T k start lens xss rule: batch_indicators.induct)
  case (1 fmt T k start tot resp len lens xs xss)
  then have "resp < tot" "length xs = resp" "cp_batch_ok lay lens xss" by (auto simp: cp_batch_ok_def cp_layout_ok_def)
  then show ?case using 1 contiguous_contribution_window [of resp tot xs _ fmt start T k, OF _ _ refl] by (simp add: sample_indicator_def)
qed (auto simp: cp_batch_ok_def)

lemma batch_indicators_reduce:
  assumes "cp_batch_ok lay lens xss" "logits_covered fmt (n * T) start lens"
  shows "all_reduce (map (\<lambda>k. concat (batch_indicators fmt T k start lens xss)) [0..<n]) (sum_list (map length xss)) = concat xss
    \<and> (\<forall>k. length (concat (batch_indicators fmt T k start lens xss)) = sum_list (map length xss))"
  using assms
proof (induction fmt T n start lens xss rule: batch_indicators.induct)
  case (1 fmt T k start tot resp len lens xs xss)
  let ?g = "(if fmt = Bshd then 0 else start) + (tot - resp - 1)"
  have a: "resp < tot" "length xs = resp" "cp_batch_ok lay lens xss" using 1(2) by (auto simp: cp_batch_ok_def cp_layout_ok_def)
  have g: "resp + ?g \<le> k * T" using 1(3) a by (auto split: if_splits)
  note IH = 1(1) [OF a(3)]
  have cov: "logits_covered fmt (k * T) (start + tot) lens" using 1(3) by simp
  have "all_reduce (map (\<lambda>j. sample_indicator T j ?g xs @ concat (batch_indicators fmt T j (start + tot) lens xss)) [0..<k]) (length xs + sum_list (map length xss))
    = all_reduce (map (\<lambda>j. sample_indicator T j ?g xs) [0..<k]) (length xs) @ all_reduce (map (\<lambda>j. concat (batch_indicators fmt T j (start + tot) lens xss)) [0..<k]) (sum_list (map length xss))"
    using IH [OF cov] by (intro all_reduce_append) (simp_all add: sample_indicator_def)
  then show ?case using IH [OF cov] window_sum [OF g a(2)] a by (simp add: sample_indicator_def)
qed (auto simp: cp_batch_ok_def all_reduce_def)

section \<open>Whole sequences\<close>

lemma slice_with_cp_zigzag:
  assumes "1 < layout_size lay" "layout_format lay = Bshd \<longrightarrow> layout_max_len lay = Some len" "layout_format lay = Thd \<longrightarrow> len = length toks"
    and "length toks \<le> len" "r < layout_size lay"
  shows "slice_with_cp lay r v toks = Inr (natural_to_zigzag_slice (layout_size lay) r
    (toks @ replicate (2 * layout_size lay * cp_chunk_size len (layout_size lay) - length toks) v))"
proof -
  let ?n = "layout_size lay" let ?c = "cp_chunk_size len ?n"
  let ?p = "toks @ replicate (2 * ?n * ?c - length toks) v"
  have le: "length toks \<le> 2 * ?n * ?c" using cp_chunks_cover [of ?n len] assms(1,4) by linarith
  have pad: "pad_tokens v (int (2 * ?n * ?c) - int (length toks)) toks = ?p"
    using le by (simp only: pad_tokens_def of_nat_diff [symmetric] nat_int of_nat_0_le_iff if_True)
  have plen: "length ?p = 2 * ?n * ?c" using le by simp
  have "length ?p mod (2 * ?n) = 0" "length ?p div (2 * ?n) = ?c" unfolding plen using assms(1) by simp_all
  then have nat: "natural_to_zigzag_slice ?n r ?p = slice (?c * r) (?c * (r + 1)) ?p @ slice (?c * (2 * ?n - r - 1)) (?c * (2 * ?n - r)) ?p"
  proof -
    have "(2 * ?n - 1 - r) * ?c + ?c = ?c * (2 * ?n - r)"
      using assms(5) mult_Suc [of "2 * ?n - 1 - r" ?c] by (simp add: Suc_diff_Suc mult.commute)
    with \<open>length ?p mod (2 * ?n) = 0\<close> \<open>length ?p div (2 * ?n) = ?c\<close> show ?thesis
      by (simp add: natural_to_zigzag_slice_def Let_def mult.commute add.commute)
  qed
  have len: "(if layout_format lay = Bshd then (case layout_max_len lay of None \<Rightarrow> Inl AssertionError | Some m \<Rightarrow> Inr m) else Inr (length toks)) = (Inr len :: nat res)"
    using assms(2,3) by (cases "layout_format lay") auto
  have one: "?n \<noteq> 1" using assms(1) by simp
  show ?thesis unfolding slice_with_cp_def len rbind_simps Let_def if_not_P [OF one] pad nat ..
qed

section \<open>Properties\<close>

text \<open>Slicing a response over the ranks of a context-parallel group loses nothing: for both
  sequence formats every rank's slice is computed without an error, the all-gather of the slices is the response, and so is
  their reassembly by rank, whatever the order in which the ranks were collected.\<close>

theorem context_parallel_roundtrip:
  assumes "cp_layout_ok lay tot resp" "length xs = resp" "mset rs = mset [0..<layout_size lay]"
  shows "\<exists>slices. (\<forall>r<layout_size lay. slice_log_prob_with_cp lay r tot resp xs = Inr (slices r))
    \<and> all_gather_with_cp lay tot resp (map slices [0..<layout_size lay]) = Inr xs
    \<and> assemble_log_prob_from_cp lay tot resp (map (\<lambda>r. (r, slices r)) rs) = Inr xs"
  using slice_log_prob_owned [OF assms(1) _ assms(2)] all_gather_owned [OF assms(1,2)] assemble_owned [OF assms]
  by (intro exI [of _ "\<lambda>r. map ((!) xs) (owned lay tot resp r)"]) simp

theorem context_parallel_roundtrip_witness:
  "\<exists>slices. (\<forall>r<2. slice_log_prob_with_cp \<lparr>layout_format = Bshd, layout_max_len = Some 9, layout_size = 2\<rparr> r 7 5 [1, 2, 3, 4, 5] = Inr (slices r))
    \<and> all_gather_with_cp \<lparr>layout_format = Bshd, layout_max_len = Some 9, layout_size = 2\<rparr> 7 5 (map slices [0..<2]) = Inr [1, 2, 3, 4, 5]
    \<and> assemble_log_prob_from_cp \<lparr>layout_format = Bshd, layout_max_len = Some 9, layout_size = 2\<rparr> 7 5 (map (\<lambda>r. (r, slices r)) [1, 0]) = Inr [1, 2, 3, 4, 5]"
  using context_parallel_roundtrip [of "\<lparr>layout_format = Bshd, layout_max_len = Some 9, layout_size = 2\<rparr>" 7 5 "[1, 2, 3, 4, 5]" "[1, 0]"]
  by (simp add: cp_layout_ok_def numeral_2_eq_2)

theorem sample_means_ignore_parallelism_witness:
  "\<exists>slices shares.
    (\<forall>r<2. res_all (map2 (\<lambda>(tot, resp, len) xs. slice_log_prob_with_cp (sample_layout \<lparr>layout_format = Thd, layout_max_len = None, layout_size = 2\<rparr> len) r tot resp xs)
        [(4, 2, None), (5, 3, None)] [[1, 2], [3, 4, 5]]) = Inr (slices r)
      \<and> get_sum_of_sample_mean \<lparr>layout_format = Thd, layout_max_len = None, layout_size = 2\<rparr> r [(4, 2, None), (5, 3, None)] [[1, 1], [1, 0, 1]] False None (concat (slices r)) = Inr (shares r))
    \<and> get_sum_of_sample_mean \<lparr>layout_format = Thd, layout_max_len = None, layout_size = 1\<rparr> 0 [(4, 2, None), (5, 3, None)] [[1, 1], [1, 0, 1]] False None
        (concat [[1, 2], [3, 4, 5]]) = Inr (\<Sum>r\<leftarrow>[0..<2]. shares r)"
  using sample_means_ignore_parallelism [of "\<lparr>layout_format = Thd, layout_max_len = None, layout_size = 2\<rparr>" "[(4, 2, None), (5, 3, None)]"
      "[[1, 2], [3, 4, 5]]" "[[1, 1], [1, 0, 1]]" None False]
  by (simp add: cp_batch_ok_def cp_layout_ok_def)

text \<open>After an all-gather of the sequence, in which every rank holds one contiguous run of
  logits, the redistribution gives every rank exactly the zigzag slices that it would cut from the whole responses, for packed
  and for padded batches.\<close>

theorem redistribution_gives_zigzag_slices:
  assumes "cp_batch_ok lay lens xss" "logits_covered (layout_format lay) (layout_size lay * local_len) 0 lens" "r < layout_size lay"
  shows "\<exists>slices. res_all (map2 (\<lambda>(tot, resp, len) xs. slice_log_prob_with_cp (sample_layout lay len) r tot resp xs) lens xss) = Inr slices
    \<and> allgather_cp_redistribute lay local_len r lens
        (map (\<lambda>k. contiguous_values (layout_format lay) local_len k 0 lens xss) [0..<layout_size lay]) = Inr slices"
proof -
  let ?n = "layout_size lay" let ?fmt = "layout_format lay"
  let ?vals = "map (\<lambda>k. contiguous_values ?fmt local_len k 0 lens xss) [0..<?n]"
  let ?ind = "\<lambda>k. batch_indicators ?fmt local_len k 0 lens xss"
  have "map (\<lambda>(k, vs). contiguous_responses ?fmt local_len k 0 lens vs) (enum ?vals) = map (\<lambda>k. Inr (?ind k)) [0..<?n]"
    by (rule nth_equalityI) (simp_all add: enum_def contiguous_responses_values [OF assms(1)])
  then have fulls: "res_all (map (\<lambda>(k, vs). contiguous_responses ?fmt local_len k 0 lens vs) (enum ?vals)) = Inr (map ?ind [0..<?n])"
    by (simp add: res_all_map_Inr)
  have cuts: "map (\<lambda>(_, resp, _). resp) lens = map length xss"
    using assms(1) by (intro nth_equalityI) (auto simp: cp_batch_ok_def list_all2_conv_all_nth split: prod.splits)
  have cat: "all_reduce (map concat (map ?ind [0..<?n])) (sum_list (map length xss)) = concat xss"
    using batch_indicators_reduce [OF assms(1,2)] by (simp add: comp_def)
  have comm: "map2 (\<lambda>full (tot, resp, len). slice_log_prob_with_cp (sample_layout lay len) r tot resp full) xss lens
      = map2 (\<lambda>(tot, resp, len) xs. slice_log_prob_with_cp (sample_layout lay len) r tot resp xs) lens xss"
    using batch_length [OF assms(1)] by (intro nth_equalityI) (auto split: prod.splits)
  show ?thesis unfolding allgather_cp_redistribute_def fulls rbind_simps Let_def cuts cat split_lengths_concat comm
    using local_slices [OF assms(1,3)] by auto
qed

theorem redistribution_gives_zigzag_slices_witness:
  "\<exists>slices. res_all (map2 (\<lambda>(tot, resp, len) xs. slice_log_prob_with_cp (sample_layout \<lparr>layout_format = Thd, layout_max_len = None, layout_size = 2\<rparr> len) 1 tot resp xs)
        [(4, 2, None), (5, 3, None)] [[1, 2], [3, 4, 5]]) = Inr slices
    \<and> allgather_cp_redistribute \<lparr>layout_format = Thd, layout_max_len = None, layout_size = 2\<rparr> 6 1 [(4, 2, None), (5, 3, None)]
        (map (\<lambda>k. contiguous_values Thd 6 k 0 [(4, 2, None), (5, 3, None)] [[1, 2], [3, 4, 5]]) [0..<2]) = Inr slices"
  using redistribution_gives_zigzag_slices [of "\<lparr>layout_format = Thd, layout_max_len = None, layout_size = 2\<rparr>" "[(4, 2, None), (5, 3, None)]"
      "[[1, 2], [3, 4, 5]]" 6 1]
  by (simp add: cp_batch_ok_def cp_layout_ok_def)

text \<open>
  Slices cut for the padded format and gathered with the offsets of the packed one, as the advantage estimators call
  \<open>all_gather_with_cp\<close> without a format.
\<close>

lemma mixed_formats_misplace:
  "all_gather_with_cp \<lparr>layout_format = Thd, layout_max_len = None, layout_size = 2\<rparr> 8 7
     (map (\<lambda>r. case slice_log_prob_with_cp \<lparr>layout_format = Bshd, layout_max_len = Some 12, layout_size = 2\<rparr> r 8 7 [1, 2, 3, 4, 5, 6, 7] of Inr s \<Rightarrow> s | Inl _ \<Rightarrow> []) [0, 1])
   \<noteq> Inr [1, 2, 3, 4, 5, 6, 7]"
  by code_simp

end
