(* ===== verification/TokenSeq.thy ===== *)
theory TokenSeq
  imports Prelude
begin

text \<open>
  Comparing an accumulated token sequence with the template's own rendering
  (\<open>utils/chat_template_utils/token_seq_comparator.py\<close>): segmentation at special tokens,
  the structural check, and the classification of each differing segment.  The tokenizer's
  \<open>decode\<close> is a parameter.
\<close>

record segment =
  token_ids :: "nat list"
  is_special :: bool

datatype mismatch_type = SPECIAL_TOKEN_COUNT | SPECIAL_TOKEN_TYPE | NON_ASSISTANT_TEXT | ASSISTANT_TEXT

record mismatch =
  mismatch_kind :: mismatch_type
  segment_index :: int
  expected_text :: string
  actual_text :: string
  detail :: string

record comparator =
  special_ids :: "nat list"
  assistant_start_str :: "string option"
  trim_ids :: "nat list"
  decode :: "nat list \<Rightarrow> string"

definition collect_special_ids :: "nat list \<Rightarrow> (nat, bool) dict \<Rightarrow> nat list" where
  "collect_special_ids all_special_ids added_tokens_decoder =
     all_special_ids @ map fst (filter snd added_tokens_decoder)"

text \<open>The scan keeps the segments so far and the run of content tokens that is still open.\<close>

definition flush :: "segment list \<times> nat list \<Rightarrow> segment list" where
  "flush st = (let (segments, current) = st in
     if current = [] then segments else segments @ [\<lparr> token_ids = current, is_special = False \<rparr>])"

definition scan_token :: "nat list \<Rightarrow> segment list \<times> nat list \<Rightarrow> nat \<Rightarrow> segment list \<times> nat list" where
  "scan_token specials st tid =
     (if tid \<in> set specials then (flush st @ [\<lparr> token_ids = [tid], is_special = True \<rparr>], [])
      else (fst st, snd st @ [tid]))"

definition segment_by_special_tokens :: "nat list \<Rightarrow> nat list \<Rightarrow> segment list" where
  "segment_by_special_tokens specials ids = flush (foldl (scan_token specials) ([], []) ids)"

definition trim_trailing :: "nat list \<Rightarrow> nat list \<Rightarrow> nat list" where
  "trim_trailing ids to_remove = rev (dropWhile (\<lambda>i. i \<in> set to_remove) (rev ids))"

text \<open>The decimal rendering \<open>str(n)\<close> of a count.\<close>

fun show_nat :: "nat \<Rightarrow> string" where
  "show_nat n = (if n < 10 then [char_of (48 + n)] else show_nat (n div 10) @ [char_of (48 + n mod 10)])"

declare show_nat.simps [simp del]

fun join_with :: "string \<Rightarrow> string list \<Rightarrow> string" where
  "join_with sep [] = []"
| "join_with sep [s] = s"
| "join_with sep (s # t # ss) = s @ sep @ join_with sep (t # ss)"

definition describe_structure :: "comparator \<Rightarrow> segment list \<Rightarrow> string" where
  "describe_structure c segments = join_with '' '' (map (\<lambda>s.
     if is_special s then ''['' @ decode c (token_ids s) @ '']''
     else ''('' @ show_nat (length (token_ids s)) @ '' tokens)'') segments)"

definition check_segment_structure :: "comparator \<Rightarrow> segment list \<Rightarrow> segment list \<Rightarrow> mismatch option" where
  "check_segment_structure c exp_segs act_segs =
     (let report = (\<lambda>d. Some \<lparr> mismatch_kind = SPECIAL_TOKEN_COUNT, segment_index = -1,
            expected_text = describe_structure c exp_segs, actual_text = describe_structure c act_segs,
            detail = d \<rparr>) in
      if length exp_segs \<noteq> length act_segs
      then report (''segment count differs: expected '' @ show_nat (length exp_segs)
             @ '', got '' @ show_nat (length act_segs))
      else if map is_special exp_segs \<noteq> map is_special act_segs
      then report ''segment structure (special/content pattern) differs''
      else None)"

definition compare_single_segment :: "comparator \<Rightarrow> nat \<Rightarrow> segment \<Rightarrow> segment \<Rightarrow> bool \<Rightarrow> mismatch option" where
  "compare_single_segment c idx ex ac is_assistant_content =
     (if is_special ex then
        (if token_ids ex \<noteq> token_ids ac
         then Some \<lparr> mismatch_kind = SPECIAL_TOKEN_TYPE, segment_index = int idx,
            expected_text = decode c (token_ids ex), actual_text = decode c (token_ids ac), detail = [] \<rparr>
         else None)
      else let exp_text = decode c (token_ids ex); act_text = decode c (token_ids ac) in
        if exp_text = act_text then None
        else Some \<lparr> mismatch_kind = (if is_assistant_content then ASSISTANT_TEXT else NON_ASSISTANT_TEXT),
            segment_index = int idx, expected_text = exp_text, actual_text = act_text, detail = [] \<rparr>)"

definition is_assistant_content :: "comparator \<Rightarrow> segment list \<Rightarrow> nat \<Rightarrow> bool" where
  "is_assistant_content c segments idx = (case assistant_start_str c of
       None \<Rightarrow> False
     | Some start \<Rightarrow>
         if is_special (segments ! idx) then False
         else if idx = 0 then False
         else if \<not> is_special (segments ! (idx - 1)) then False
         else take (length start) (decode c (token_ids (segments ! (idx - 1)))
                @ decode c (take 20 (token_ids (segments ! idx)))) = start)"

definition compare_sequences :: "comparator \<Rightarrow> nat list \<Rightarrow> nat list \<Rightarrow> nat list \<Rightarrow> mismatch list" where
  "compare_sequences c expected_ids actual_ids trim_trailing_ids =
     (let trim = trim_ids c @ trim_trailing_ids;
          exp_segs = segment_by_special_tokens (special_ids c) (trim_trailing expected_ids trim);
          act_segs = segment_by_special_tokens (special_ids c) (trim_trailing actual_ids trim) in
      case check_segment_structure c exp_segs act_segs of
        Some structural \<Rightarrow> [structural]
      | None \<Rightarrow> List.map_filter (\<lambda>(idx, ex, ac).
            compare_single_segment c idx ex ac
              (is_assistant_content c exp_segs idx \<and> is_assistant_content c act_segs idx))
          (enum (zip exp_segs act_segs)))"

section \<open>Segmentation\<close>

definition segment_ok :: "nat list \<Rightarrow> segment \<Rightarrow> bool" where
  "segment_ok specials s \<longleftrightarrow>
     (if is_special s then \<exists>t\<in>set specials. token_ids s = [t]
      else token_ids s \<noteq> [] \<and> set (token_ids s) \<inter> set specials = {})"

definition no_adjacent_content :: "segment list \<Rightarrow> bool" where
  "no_adjacent_content segs \<longleftrightarrow> (\<forall>i. Suc i < length segs \<longrightarrow> is_special (segs ! i) \<or> is_special (segs ! Suc i))"

definition scan_inv :: "nat list \<Rightarrow> nat list \<Rightarrow> segment list \<times> nat list \<Rightarrow> bool" where
  "scan_inv specials done_ids st \<longleftrightarrow>
     concat (map token_ids (fst st)) @ snd st = done_ids
     \<and> (\<forall>s\<in>set (fst st). segment_ok specials s) \<and> set (snd st) \<inter> set specials = {}
     \<and> no_adjacent_content (fst st) \<and> (fst st = [] \<or> is_special (last (fst st)))"

lemma no_adjacent_snoc:
  "no_adjacent_content segs \<Longrightarrow> segs = [] \<or> is_special (last segs) \<or> is_special s \<Longrightarrow> no_adjacent_content (segs @ [s])"
  unfolding no_adjacent_content_def
proof (intro allI impI)
  fix i
  assume a: "\<forall>i. Suc i < length segs \<longrightarrow> is_special (segs ! i) \<or> is_special (segs ! Suc i)"
    "segs = [] \<or> is_special (last segs) \<or> is_special s" "Suc i < length (segs @ [s])"
  show "is_special ((segs @ [s]) ! i) \<or> is_special ((segs @ [s]) ! Suc i)"
  proof (cases "Suc i < length segs")
    case True
    with a(1) show ?thesis by (simp add: nth_append)
  next
    case False
    with a(3) have "Suc i = length segs" by simp
    then have "last segs = segs ! i" by (metis diff_Suc_1 last_conv_nth length_0_conv nat.simps(3))
    with a(2) \<open>Suc i = length segs\<close> show ?thesis by (auto simp: nth_append)
  qed
qed

lemma flush_facts:
  assumes "scan_inv specials ids st"
  shows "concat (map token_ids (flush st)) = ids" "\<forall>s\<in>set (flush st). segment_ok specials s"
    "no_adjacent_content (flush st)"
  using assms
  by (cases st; auto simp: scan_inv_def flush_def segment_ok_def intro!: no_adjacent_snoc)+

lemma scan_inv_step: "scan_inv specials ids st \<Longrightarrow> scan_inv specials (ids @ [t]) (scan_token specials st t)"
proof -
  assume inv: "scan_inv specials ids st"
  show ?thesis
  proof (cases "t \<in> set specials")
    case True
    let ?s = "\<lparr> token_ids = [t], is_special = True \<rparr>"
    have "no_adjacent_content (flush st @ [?s])"
      using flush_facts(3) [OF inv] by (rule no_adjacent_snoc) simp
    moreover have "segment_ok specials ?s" using True by (simp add: segment_ok_def)
    ultimately show ?thesis
      using True flush_facts(1,2) [OF inv] by (auto simp: scan_inv_def scan_token_def)
  next
    case False
    with inv show ?thesis by (auto simp: scan_inv_def scan_token_def)
  qed
qed

lemma scan_inv_foldl:
  "scan_inv specials ids st \<Longrightarrow> scan_inv specials (ids @ rest) (foldl (scan_token specials) st rest)"
proof (induction rest arbitrary: ids st)
  case (Cons t rest)
  from Cons.IH [OF scan_inv_step [OF Cons.prems, of t]] show ?case by simp
qed simp

lemma segments_facts:
  "concat (map token_ids (segment_by_special_tokens specials ids)) = ids
   \<and> (\<forall>s\<in>set (segment_by_special_tokens specials ids). segment_ok specials s)
   \<and> no_adjacent_content (segment_by_special_tokens specials ids)"
proof -
  have "scan_inv specials [] ([], [])" by (simp add: scan_inv_def no_adjacent_content_def)
  from scan_inv_foldl [OF this, of ids]
  have inv: "scan_inv specials ids (foldl (scan_token specials) ([], []) ids)" by simp
  from flush_facts [OF inv] show ?thesis by (simp add: segment_by_special_tokens_def)
qed

text \<open>
  Segmentation loses nothing and cuts at every special token and nowhere else: the
  segments concatenate to the sequence, a special segment is one special token, a content
  segment is a non-empty run without special tokens, and no two content segments touch.
\<close>

theorem segmentation_correct:
  "concat (map token_ids (segment_by_special_tokens specials ids)) = ids
   \<and> list_all (segment_ok specials) (segment_by_special_tokens specials ids)
   \<and> no_adjacent_content (segment_by_special_tokens specials ids)"
  using segments_facts [of specials ids] by (simp add: list_all_iff)

section \<open>Comparison\<close>

definition segment_agrees :: "comparator \<Rightarrow> segment \<Rightarrow> segment \<Rightarrow> bool" where
  "segment_agrees c a b \<longleftrightarrow> is_special a = is_special b
     \<and> (if is_special a then token_ids a = token_ids b else decode c (token_ids a) = decode c (token_ids b))"

definition segments_of :: "comparator \<Rightarrow> nat list \<Rightarrow> nat list \<Rightarrow> segment list" where
  "segments_of c trim ids = segment_by_special_tokens (special_ids c) (trim_trailing ids trim)"

lemma compare_single_None:
  "is_special a = is_special b \<Longrightarrow> compare_single_segment c i a b x = None \<longleftrightarrow> segment_agrees c a b"
  by (simp add: compare_single_segment_def segment_agrees_def Let_def)

lemma check_structure_None:
  "check_segment_structure c xs ys = None \<longleftrightarrow> map is_special xs = map is_special ys"
proof -
  have "length xs \<noteq> length ys \<Longrightarrow> map is_special xs \<noteq> map is_special ys" by (metis length_map)
  then show ?thesis by (auto simp: check_segment_structure_def Let_def)
qed

lemma map_filter_Nil: "List.map_filter f xs = [] \<longleftrightarrow> (\<forall>x\<in>set xs. f x = None)"
  by (induction xs) (auto simp: List.map_filter_simps split: option.splits)

text \<open>
  The comparison reports nothing exactly when the two sequences have the same shape,
  the same special tokens, and content segments that decode to the same text.  In
  particular a difference in white space only is reported, unlike the docstring of
  \<open>_compare_single_segment\<close> says.
\<close>

theorem compare_sequences_clean_iff:
  "compare_sequences c expected_ids actual_ids extra = []
   \<longleftrightarrow> list_all2 (segment_agrees c) (segments_of c (trim_ids c @ extra) expected_ids)
        (segments_of c (trim_ids c @ extra) actual_ids)"
proof -
  let ?a = "segments_of c (trim_ids c @ extra) expected_ids"
  let ?b = "segments_of c (trim_ids c @ extra) actual_ids"
  show ?thesis
  proof (cases "map is_special ?a = map is_special ?b")
    case False
    then have "\<not> list_all2 (segment_agrees c) ?a ?b"
      by (auto simp: list_all2_conv_all_nth segment_agrees_def list_eq_iff_nth_eq)
    moreover have "check_segment_structure c ?a ?b \<noteq> None" using False by (simp add: check_structure_None)
    ultimately show ?thesis
      by (auto simp: compare_sequences_def segments_of_def Let_def)
  next
    case True
    have len: "length ?a = length ?b" using True by (metis length_map)
    have special: "is_special (?a ! i) = is_special (?b ! i)" if "i < length ?a" for i
      using True that len by (metis nth_map)
    have "compare_sequences c expected_ids actual_ids extra = []
      \<longleftrightarrow> (\<forall>i<length ?a. compare_single_segment c i (?a ! i) (?b ! i)
            (is_assistant_content c ?a i \<and> is_assistant_content c ?b i) = None)"
      using True len check_structure_None [of c ?a ?b]
      by (auto simp: compare_sequences_def segments_of_def Let_def map_filter_Nil ball_enum)
    also have "\<dots> \<longleftrightarrow> (\<forall>i<length ?a. segment_agrees c (?a ! i) (?b ! i))"
      using special by (simp add: compare_single_None)
    finally show ?thesis using len by (simp add: list_all2_conv_all_nth)
  qed
qed

end
