(* ===== verification/Messages.thy ===== *)
theory Messages
  imports Prelude
begin

text \<open>
  Chat messages as JSON objects and the policies that decide whether a replayed message
  is a stored one (\<open>utils/chat_template_utils/message_matcher_hub\<close>), with the append-only
  check that shares them.
\<close>

section \<open>JSON values under Python equality\<close>

datatype json =
    JNull
  | JBool bool
  | JInt int
  | JFloat real
  | JStr string
  | JList "json list"
  | JObj "(string \<times> json) list"

type_synonym message = "(string, json) dict"

text \<open>Booleans, integers and floats are one numeric tower under \<open>==\<close>.\<close>

fun num_value :: "json \<Rightarrow> real option" where
  "num_value (JBool b) = Some (of_bool b)"
| "num_value (JInt i) = Some (real_of_int i)"
| "num_value (JFloat r) = Some r"
| "num_value _ = None"

fun py_eq :: "json \<Rightarrow> json \<Rightarrow> bool"
  and py_eq_list :: "json list \<Rightarrow> json list \<Rightarrow> bool"
  and py_eq_items :: "(string \<times> json) list \<Rightarrow> (string \<times> json) list \<Rightarrow> bool" where
  "py_eq JNull b = (b = JNull)"
| "py_eq (JBool x) b = (num_value b = Some (of_bool x))"
| "py_eq (JInt i) b = (num_value b = Some (real_of_int i))"
| "py_eq (JFloat r) b = (num_value b = Some r)"
| "py_eq (JStr s) b = (b = JStr s)"
| "py_eq (JList xs) b = (case b of JList ys \<Rightarrow> py_eq_list xs ys | _ \<Rightarrow> False)"
| "py_eq (JObj xs) b = (case b of JObj ys \<Rightarrow> length xs = length ys \<and> py_eq_items xs ys | _ \<Rightarrow> False)"
| "py_eq_list [] ys = (ys = [])"
| "py_eq_list (x # xs) ys = (case ys of [] \<Rightarrow> False | y # ys' \<Rightarrow> py_eq x y \<and> py_eq_list xs ys')"
| "py_eq_items [] ys = True"
| "py_eq_items ((k, v) # xs) ys = (case map_of ys k of None \<Rightarrow> False | Some w \<Rightarrow> py_eq v w \<and> py_eq_items xs ys)"

text \<open>The values a JSON decoder builds: objects without repeated keys.\<close>

fun json_ok :: "json \<Rightarrow> bool" where
  "json_ok (JList xs) = list_all json_ok xs"
| "json_ok (JObj kvs) = (distinct (map fst kvs) \<and> list_all (\<lambda>kv. json_ok (snd kv)) kvs)"
| "json_ok _ = True"

definition message_ok :: "message \<Rightarrow> bool" where
  "message_ok m \<longleftrightarrow> json_ok (JObj m)"

lemma py_eq_list_refl: "\<forall>x\<in>set xs. py_eq x x \<Longrightarrow> py_eq_list xs xs"
  by (induction xs) auto

lemma py_eq_items_iff:
  "py_eq_items xs ys \<longleftrightarrow> (\<forall>kv\<in>set xs. \<exists>w. map_of ys (fst kv) = Some w \<and> py_eq (snd kv) w)"
  by (induction xs) (auto split: option.splits)

lemma py_eq_refl: "json_ok j \<Longrightarrow> py_eq j j"
proof (induction j)
  case (JList xs)
  then show ?case by (simp add: py_eq_list_refl list_all_iff)
next
  case (JObj kvs)
  have "py_eq v v" "map_of kvs k = Some v" if "(k, v) \<in> set kvs" for k v
    using JObj that by (force simp: list_all_iff)+
  then show ?case by (auto simp: py_eq_items_iff)
qed auto

section \<open>The matchers\<close>

text \<open>\<open>message.get(key)\<close>\<close>

definition mget :: "message \<Rightarrow> string \<Rightarrow> json" where
  "mget m key = (case dget m key of None \<Rightarrow> JNull | Some v \<Rightarrow> v)"

definition TEMPLATE_RELEVANT_KEYS :: "string list" where
  "TEMPLATE_RELEVANT_KEYS = [''role'', ''content'', ''reasoning_content'', ''tool_calls'']"

definition WIRE_ONLY_TOOL_CALL_KEYS :: "string list" where
  "WIRE_ONLY_TOOL_CALL_KEYS = [''index'']"

definition normalize_value :: "json \<Rightarrow> json" where
  "normalize_value v = (if v = JNull \<or> v = JStr [] \<or> v = JList [] then JNull else v)"

definition drop_wire_keys :: "message \<Rightarrow> message" where
  "drop_wire_keys call = filter (\<lambda>kv. fst kv \<notin> set WIRE_ONLY_TOOL_CALL_KEYS) call"

definition normalize_tool_calls :: "json \<Rightarrow> json" where
  "normalize_tool_calls v = (case v of
       JList calls \<Rightarrow> JList (map (\<lambda>call. case call of JObj kvs \<Rightarrow> JObj (drop_wire_keys kvs) | _ \<Rightarrow> call) calls)
     | _ \<Rightarrow> v)"

definition strict_field :: "message \<Rightarrow> string \<Rightarrow> json" where
  "strict_field m key = (let v = normalize_value (mget m key) in
     if key = ''tool_calls'' then normalize_tool_calls v else v)"

definition strict_message_matches :: "message \<Rightarrow> message \<Rightarrow> bool" where
  "strict_message_matches stored new \<longleftrightarrow>
     list_all (\<lambda>key. py_eq (strict_field stored key) (strict_field new key)) TEMPLATE_RELEVANT_KEYS"

definition role_content_only_message_matches :: "message \<Rightarrow> message \<Rightarrow> bool" where
  "role_content_only_message_matches stored replayed \<longleftrightarrow>
     list_all (\<lambda>key. py_eq (normalize_value (mget stored key)) (normalize_value (mget replayed key)))
       [''role'', ''content'']"

text \<open>\<open>type(stored) is type(replayed)\<close>, then structural equality with the same rule inside.\<close>

fun raw_values_match :: "json \<Rightarrow> json \<Rightarrow> bool"
  and raw_list_match :: "json list \<Rightarrow> json list \<Rightarrow> bool"
  and raw_items_match :: "(string \<times> json) list \<Rightarrow> (string \<times> json) list \<Rightarrow> bool" where
  "raw_values_match (JList xs) b = (case b of JList ys \<Rightarrow> raw_list_match xs ys | _ \<Rightarrow> False)"
| "raw_values_match (JObj xs) b = (case b of
      JObj ys \<Rightarrow> set (dkeys xs) = set (dkeys ys) \<and> raw_items_match xs ys | _ \<Rightarrow> False)"
| "raw_values_match a b = (a = b)"
| "raw_list_match [] ys = (ys = [])"
| "raw_list_match (x # xs) ys = (case ys of [] \<Rightarrow> False | y # ys' \<Rightarrow> raw_values_match x y \<and> raw_list_match xs ys')"
| "raw_items_match [] ys = True"
| "raw_items_match ((k, v) # xs) ys =
     (case map_of ys k of None \<Rightarrow> False | Some w \<Rightarrow> raw_values_match v w \<and> raw_items_match xs ys)"

definition message_role :: "message \<Rightarrow> json" where
  "message_role m = mget m ''role''"

definition role_allowed :: "string list \<Rightarrow> message \<Rightarrow> bool" where
  "role_allowed roles m \<longleftrightarrow> (\<exists>r\<in>set roles. message_role m = JStr r)"

text \<open>The stored messages match the replay pairwise, and what the replay appends has allowed roles.\<close>

definition assert_messages_append_only_with_allowed_role ::
  "(message \<Rightarrow> message \<Rightarrow> bool) \<Rightarrow> message list \<Rightarrow> message list \<Rightarrow> string list \<Rightarrow> unit res" where
  "assert_messages_append_only_with_allowed_role matcher stored new roles =
     (if stored = [] then Inr ()
      else if length new < length stored then Inl ValueError
      else if \<not> list_all (\<lambda>i. matcher (stored ! i) (new ! i)) [0..<length stored] then Inl ValueError
      else if \<not> list_all (role_allowed roles) (drop (length stored) new) then Inl ValueError
      else Inr ())"

section \<open>What a session relies on of a matcher\<close>

text \<open>How many messages of the stored list the replay matches before the first difference.\<close>

fun match_prefix :: "('m \<Rightarrow> 'm \<Rightarrow> bool) \<Rightarrow> 'm list \<Rightarrow> 'm list \<Rightarrow> nat" where
  "match_prefix matcher (x # xs) (y # ys) = (if matcher x y then Suc (match_prefix matcher xs ys) else 0)"
| "match_prefix matcher xs ys = 0"

lemma match_prefix_bounds: "match_prefix matcher xs ys \<le> length xs" "match_prefix matcher xs ys \<le> length ys"
  by (induction matcher xs ys rule: match_prefix.induct) auto

lemma match_prefix_nth: "i < match_prefix matcher xs ys \<Longrightarrow> matcher (xs ! i) (ys ! i)"
proof (induction matcher xs ys arbitrary: i rule: match_prefix.induct)
  case (1 matcher x xs y ys)
  then show ?case by (cases i) (auto split: if_splits)
qed auto

lemma match_prefix_stop:
  "match_prefix matcher xs ys < length xs \<Longrightarrow> match_prefix matcher xs ys < length ys \<Longrightarrow>
   \<not> matcher (xs ! match_prefix matcher xs ys) (ys ! match_prefix matcher xs ys)"
  by (induction matcher xs ys rule: match_prefix.induct) auto

lemma match_prefix_full_iff:
  "match_prefix matcher xs ys = length xs \<longleftrightarrow>
   length xs \<le> length ys \<and> (\<forall>i<length xs. matcher (xs ! i) (ys ! i))"
proof (induction matcher xs ys rule: match_prefix.induct)
  case (1 matcher x xs y ys)
  show ?case
  proof (cases "matcher x y")
    case True
    then show ?thesis using 1 by (auto simp: All_less_Suc2)
  qed (auto simp: All_less_Suc2)
qed auto

lemma match_prefix_take: "n \<le> match_prefix matcher xs ys \<Longrightarrow> match_prefix matcher (take n xs) ys = n"
proof (induction matcher xs ys arbitrary: n rule: match_prefix.induct)
  case (1 matcher x xs y ys)
  then show ?case by (cases n) (auto split: if_splits)
qed auto

text \<open>Replaying verbatim what was stored must count as the same history.\<close>

locale replay_matcher =
  fixes matches :: "'m \<Rightarrow> 'm \<Rightarrow> bool"
    and ok :: "'m \<Rightarrow> bool"
  assumes matches_refl: "ok m \<Longrightarrow> matches m m"
begin

lemma replay_prefix: "list_all ok xs \<Longrightarrow> match_prefix matches xs (xs @ ys) = length xs"
  by (induction xs) (auto intro: matches_refl)

lemma replay_self: "list_all ok xs \<Longrightarrow> match_prefix matches xs xs = length xs"
  using replay_prefix [of xs "[]"] by simp

lemma replay_drop: "list_all ok xs \<Longrightarrow> match_prefix matches xs (drop (length as) (as @ xs @ ys)) = length xs"
  by (simp add: replay_prefix)

end

lemma mget_ok: "message_ok m \<Longrightarrow> json_ok (mget m key)"
  by (auto simp: message_ok_def mget_def list_all_iff dest: map_of_SomeD split: option.splits)

lemma normalize_value_ok: "json_ok v \<Longrightarrow> json_ok (normalize_value v)"
  by (simp add: normalize_value_def)

lemma normalize_tool_calls_ok: "json_ok v \<Longrightarrow> json_ok (normalize_tool_calls v)"
proof (cases v)
  case (JList calls)
  assume "json_ok v"
  then have "json_ok (case c of JObj kvs \<Rightarrow> JObj (drop_wire_keys kvs) | _ \<Rightarrow> c)" if "c \<in> set calls" for c
  proof -
    have "json_ok c" using that JList \<open>json_ok v\<close> by (simp add: list_all_iff)
    then show ?thesis
      by (cases c) (auto simp: drop_wire_keys_def list_all_iff intro: distinct_map_filter)
  qed
  then show ?thesis using JList by (simp add: normalize_tool_calls_def list_all_iff)
qed (simp_all add: normalize_tool_calls_def)

lemma strict_field_ok: "message_ok m \<Longrightarrow> json_ok (strict_field m key)"
  by (simp add: strict_field_def Let_def mget_ok normalize_value_ok normalize_tool_calls_ok)

interpretation strict: replay_matcher strict_message_matches message_ok
  by unfold_locales (simp add: strict_message_matches_def list_all_iff py_eq_refl strict_field_ok)

interpretation role_content: replay_matcher role_content_only_message_matches message_ok
  by unfold_locales
    (simp add: role_content_only_message_matches_def py_eq_refl mget_ok normalize_value_ok)

lemma mget_dset: "mget (dset m k v) key = (if key = k then v else mget m key)"
  by (simp add: mget_def)

lemma strict_implies_role_content:
  "strict_message_matches m m' \<Longrightarrow> role_content_only_message_matches m m'"
  by (simp add: strict_message_matches_def role_content_only_message_matches_def
      TEMPLATE_RELEVANT_KEYS_def strict_field_def Let_def)

text \<open>
  The strict matcher ignores exactly what a template cannot see: adding or changing a
  field outside the four template keys, and swapping the falsy spellings of the content,
  keep a message equal to itself; and what it accepts, the role-and-content matcher accepts.
\<close>

theorem strict_matcher_tolerances:
  assumes "message_ok m" "key \<notin> set TEMPLATE_RELEVANT_KEYS"
    "mget m ''content'' \<in> {JNull, JStr [], JList []}" "w \<in> {JNull, JStr [], JList []}"
  shows "strict_message_matches m (dset m key v)
    \<and> strict_message_matches m (dset m ''content'' w)
    \<and> role_content_only_message_matches m (dset (dset m key v) ''content'' w)"
proof -
  have refl: "strict_message_matches m m" by (rule strict.matches_refl [OF assms(1)])
  have other: "strict_field (dset m' key v) k = strict_field m' k" if "key \<noteq> k" for m' k
    using that by (simp add: strict_field_def mget_dset)
  have "strict_field (dset m key v) k = strict_field m k" if "k \<in> set TEMPLATE_RELEVANT_KEYS" for k
    using that assms(2) by (intro other) auto
  then have key: "strict_message_matches m (dset m key v)"
    using refl by (simp add: strict_message_matches_def list_all_iff)
  have content: "strict_field (dset m' ''content'' w) k = strict_field m' k"
    if "mget m' ''content'' \<in> {JNull, JStr [], JList []}" for m' k
    using that assms(4) by (auto simp: strict_field_def mget_dset normalize_value_def)
  have "key \<noteq> ''content''" using assms(2) by (auto simp: TEMPLATE_RELEVANT_KEYS_def)
  then have "mget (dset m key v) ''content'' \<in> {JNull, JStr [], JList []}"
    using assms(3) by (simp add: mget_dset)
  from content [OF this] key have "strict_message_matches m (dset (dset m key v) ''content'' w)"
    by (simp add: strict_message_matches_def)
  with key refl content [OF assms(3)] show ?thesis
    by (auto simp: strict_message_matches_def intro: strict_implies_role_content)
qed

theorem strict_matcher_tolerances_witness:
  "strict_message_matches [(''role'', JStr ''assistant''), (''content'', JNull)]
     (dset [(''role'', JStr ''assistant''), (''content'', JNull)] ''refusal'' (JBool True))
   \<and> strict_message_matches [(''role'', JStr ''assistant''), (''content'', JNull)]
     (dset [(''role'', JStr ''assistant''), (''content'', JNull)] ''content'' (JStr []))
   \<and> role_content_only_message_matches [(''role'', JStr ''assistant''), (''content'', JNull)]
     (dset (dset [(''role'', JStr ''assistant''), (''content'', JNull)] ''refusal'' (JBool True))
       ''content'' (JStr []))"
  by (rule strict_matcher_tolerances)
    (simp_all add: message_ok_def TEMPLATE_RELEVANT_KEYS_def mget_def)

end
