(* ===== verification/Tito.thy ===== *)
theory Tito
  imports Messages
begin

text \<open>
  Incremental tokenization (\<open>utils/chat_template_utils/tito_tokenizer.py\<close>, and the mode
  switch of \<open>deepseek.py\<close>): the families and their fixed templates, the rules that
  resolve a request's template arguments against the turn it continues, and the merging
  of stored tokens with the tokens of appended messages.  The Hugging Face tokenizer, the
  template renderer and SGLang's tool model are parameters.
\<close>

section \<open>Families\<close>

datatype tito_family =
    DEFAULT | QWEN3 | QWEN35 | QWEN36 | QWEN38_SMALL | QWEN4_EXP | QWENNEXT | GLM47 | GLM53
  | NEMOTRON3 | KIMI25 | KIMI26 | MINIMAX_M25 | MINIMAX_M27 | DEEPSEEKV32 | DEEPSEEKV4 | INKLING

record fixed_template =
  template :: "string option"
  extra_kwargs :: message
  allowed_append_roles :: "string list"
  consistant_kwargs :: "string list"

definition VALID_APPEND_ROLES :: "string list" where
  "VALID_APPEND_ROLES = [''tool'', ''user'', ''system'', ''assistant'']"

definition fixed :: "string option \<Rightarrow> message \<Rightarrow> string list \<Rightarrow> string list \<Rightarrow> fixed_template" where
  "fixed t kw roles keys =
     \<lparr> template = t, extra_kwargs = kw, allowed_append_roles = roles, consistant_kwargs = keys \<rparr>"

fun FIXED_TEMPLATE :: "tito_family \<Rightarrow> fixed_template" where
  "FIXED_TEMPLATE DEFAULT = fixed None [] VALID_APPEND_ROLES []"
| "FIXED_TEMPLATE QWEN3 =
     fixed (Some ''qwen3_fixed.jinja'') [(''clear_thinking'', JBool False)] VALID_APPEND_ROLES []"
| "FIXED_TEMPLATE QWEN35 =
     fixed (Some ''qwen3.5_fixed.jinja'') [(''preserve_thinking'', JBool True)]
       [''tool'', ''user'', ''assistant''] [''add_vision_id'']"
| "FIXED_TEMPLATE QWEN36 =
     fixed (Some ''qwen3.6_fixed.jinja'') [(''preserve_thinking'', JBool True)]
       [''tool'', ''user'', ''assistant''] [''add_vision_id'']"
| "FIXED_TEMPLATE QWEN38_SMALL =
     fixed (Some ''qwen3.8_small_and_flash_next_fixed.jinja'') [(''preserve_thinking'', JBool True)]
       [''tool'', ''user'', ''assistant''] [''add_vision_id'', ''enable_thinking'', ''reasoning_effort'']"
| "FIXED_TEMPLATE QWEN4_EXP =
     fixed (Some ''qwen3.8_small_and_flash_next_fixed.jinja'') [(''preserve_thinking'', JBool True)]
       [''tool'', ''user'', ''assistant''] [''add_vision_id'', ''enable_thinking'', ''reasoning_effort'']"
| "FIXED_TEMPLATE QWENNEXT =
     fixed (Some ''qwen3_thinking_2507_and_next_fixed.jinja'') [(''clear_thinking'', JBool False)]
       VALID_APPEND_ROLES []"
| "FIXED_TEMPLATE GLM47 = fixed None [(''clear_thinking'', JBool False)] VALID_APPEND_ROLES []"
| "FIXED_TEMPLATE GLM53 =
     fixed None [(''clear_thinking'', JBool False), (''enable_thinking'', JBool True)]
       VALID_APPEND_ROLES [''reasoning_effort'']"
| "FIXED_TEMPLATE NEMOTRON3 =
     fixed None [(''truncate_history_thinking'', JBool False)] VALID_APPEND_ROLES [''low_effort'']"
| "FIXED_TEMPLATE KIMI25 =
     fixed (Some ''kimi_k25_fixed.jinja'') [(''preserve_thinking'', JBool True)] VALID_APPEND_ROLES
       [''thinking'', ''tools_ts_str'']"
| "FIXED_TEMPLATE KIMI26 =
     fixed None [(''preserve_thinking'', JBool True)] VALID_APPEND_ROLES [''tools_ts_str'']"
| "FIXED_TEMPLATE MINIMAX_M25 =
     fixed (Some ''minimax_m25_fixed.jinja'') [(''clear_thinking'', JBool False)]
       [''tool'', ''user'', ''assistant''] []"
| "FIXED_TEMPLATE MINIMAX_M27 =
     fixed (Some ''minimax_m27_fixed.jinja'') [(''clear_thinking'', JBool False)]
       [''tool'', ''user'', ''assistant''] []"
| "FIXED_TEMPLATE DEEPSEEKV32 =
     fixed None [(''drop_thinking'', JBool False)] VALID_APPEND_ROLES [''add_default_bos_token'', ''context'']"
| "FIXED_TEMPLATE DEEPSEEKV4 =
     fixed None [(''drop_thinking'', JBool False)] [''tool'', ''user'', ''assistant'']
       [''add_default_bos_token'', ''context'', ''reasoning_effort'']"
| "FIXED_TEMPLATE INKLING = fixed (Some ''inkling_fixed.jinja'') [] VALID_APPEND_ROLES [''reasoning_effort'']"

text \<open>The parsers bound on each family: reasoning parser and tool-call parser.\<close>

fun family_parsers :: "tito_family \<Rightarrow> string option \<times> string option" where
  "family_parsers DEFAULT = (None, None)"
| "family_parsers QWEN3 = (Some ''qwen3'', Some ''qwen25'')"
| "family_parsers QWEN35 = (Some ''qwen3'', Some ''qwen3_coder'')"
| "family_parsers QWEN36 = (Some ''qwen3'', Some ''qwen3_coder'')"
| "family_parsers QWEN38_SMALL = (Some ''qwen3'', Some ''qwen3_coder'')"
| "family_parsers QWEN4_EXP = (Some ''qwen3'', Some ''qwen3_coder'')"
| "family_parsers QWENNEXT = (Some ''qwen3'', Some ''qwen25'')"
| "family_parsers GLM47 = (Some ''glm45'', Some ''glm47'')"
| "family_parsers GLM53 = (Some ''glm45'', Some ''glm47'')"
| "family_parsers NEMOTRON3 = (Some ''nemotron_3'', Some ''qwen3_coder'')"
| "family_parsers KIMI25 = (None, None)"
| "family_parsers KIMI26 = (Some ''kimi_k2'', Some ''kimi_k2_raw_id'')"
| "family_parsers MINIMAX_M25 = (Some ''minimax-append-think'', Some ''minimax-m2'')"
| "family_parsers MINIMAX_M27 = (Some ''minimax-append-think'', Some ''minimax-m2'')"
| "family_parsers DEEPSEEKV32 = (Some ''deepseek-v3'', Some ''deepseekv32'')"
| "family_parsers DEEPSEEKV4 = (Some ''deepseek-v4'', Some ''deepseekv4'')"
| "family_parsers INKLING = (None, None)"

definition max_trim_tokens :: "tito_family \<Rightarrow> nat" where
  "max_trim_tokens f = (if f = GLM47 \<or> f = GLM53 then 1 else 0)"

definition resolve_one_parser :: "string option \<Rightarrow> string option \<Rightarrow> string option res" where
  "resolve_one_parser bound user = (case user of
       None \<Rightarrow> Inr bound
     | Some u \<Rightarrow> (case bound of
         None \<Rightarrow> Inr user
       | Some b \<Rightarrow> if u \<noteq> b then Inl ValueError else Inr user))"

definition resolve_reasoning_and_tool_call_parser ::
  "tito_family \<Rightarrow> string option \<Rightarrow> string option \<Rightarrow> (string option \<times> string option) res" where
  "resolve_reasoning_and_tool_call_parser f user_reasoning user_tool =
     rbind (resolve_one_parser (fst (family_parsers f)) user_reasoning) (\<lambda>r.
     rbind (resolve_one_parser (snd (family_parsers f)) user_tool) (\<lambda>t. Inr (r, t)))"

section \<open>Template arguments\<close>

text \<open>
  The parameters: rendering to text and to tokens, encoding a text, looking a token up, and
  the canonical dump of a tool list.
\<close>

record tito =
  family :: tito_family
  chat_template_kwargs :: message
  render :: "message list \<Rightarrow> bool \<Rightarrow> message \<Rightarrow> string"
  render_ids :: "message list \<Rightarrow> bool \<Rightarrow> message \<Rightarrow> nat list"
  encode :: "string \<Rightarrow> nat list"
  token_id :: "string \<Rightarrow> nat"
  dump_tools :: "json \<Rightarrow> json res"

fun truthy :: "json \<Rightarrow> bool" where
  "truthy JNull = False"
| "truthy (JBool b) = b"
| "truthy (JInt i) = (i \<noteq> 0)"
| "truthy (JFloat r) = (r \<noteq> 0)"
| "truthy (JStr s) = (s \<noteq> [])"
| "truthy (JList xs) = (xs \<noteq> [])"
| "truthy (JObj kvs) = (kvs \<noteq> [])"

text \<open>\<open>x or {}\<close> where a mapping is then unpacked\<close>

definition object_or_empty :: "json \<Rightarrow> message res" where
  "object_or_empty v = (if \<not> truthy v then Inr [] else (case v of JObj kvs \<Rightarrow> Inr kvs | _ \<Rightarrow> Inl TypeError))"

definition kwargs_of :: "message \<Rightarrow> message res" where
  "kwargs_of args = object_or_empty (mget args ''chat_template_kwargs'')"

definition turn_kwargs :: "message option \<Rightarrow> message res" where
  "turn_kwargs turn_args = (case turn_args of None \<Rightarrow> Inr [] | Some t \<Rightarrow> kwargs_of t)"

definition extract_template_args :: "message \<Rightarrow> message res" where
  "extract_template_args request_args =
     rbind (kwargs_of request_args) (\<lambda>args.
       Inr (if truthy (mget request_args ''tools'') then dset args ''tools'' (mget request_args ''tools'') else args))"

definition is_deepseek :: "tito_family \<Rightarrow> bool" where
  "is_deepseek f \<longleftrightarrow> f = DEEPSEEKV32 \<or> f = DEEPSEEKV4"

definition DEEPSEEK_MODE_KWARG_ALIASES :: "string list" where
  "DEEPSEEK_MODE_KWARG_ALIASES = [''thinking_mode'', ''enable_thinking'', ''thinking'']"

text \<open>The first source that mentions the thinking mode decides it.\<close>

fun first_mode :: "message list \<Rightarrow> message" where
  "first_mode [] = []"
| "first_mode (source # rest) =
     (let mode = dpick DEEPSEEK_MODE_KWARG_ALIASES source in if mode \<noteq> [] then mode else first_mode rest)"

definition resolve_template_kwargs :: "tito \<Rightarrow> message \<Rightarrow> message \<Rightarrow> message option \<Rightarrow> message res" where
  "resolve_template_kwargs t request_args source turn_args =
     rbind (turn_kwargs turn_args) (\<lambda>history.
     rbind (kwargs_of source) (\<lambda>requested.
       let kwargs = ddel (dupdate (dupdate (chat_template_kwargs t) history) requested) ''tools'';
           kwargs' = (if is_deepseek (family t)
             then dupdate (dpops DEEPSEEK_MODE_KWARG_ALIASES kwargs)
                    (first_mode [history, requested, chat_template_kwargs t])
             else kwargs) in
       Inr (dset request_args ''chat_template_kwargs'' (JObj kwargs'))))"

text \<open>\<open>extract_tool_dicts\<close>: an absent list stays absent, the rest goes through the tool model.\<close>

definition extract_tool_dicts :: "tito \<Rightarrow> json \<Rightarrow> json res" where
  "extract_tool_dicts t tools = (if truthy tools then dump_tools t tools else Inr JNull)"

definition resolve_tools :: "tito \<Rightarrow> message \<Rightarrow> message \<Rightarrow> message option \<Rightarrow> message res" where
  "resolve_tools t request_args source turn_args =
     (let requested = mget source ''tools''; tools = (if truthy requested then requested else JNull) in
      rbind (case turn_args of
          None \<Rightarrow> Inr (if truthy tools then tools else mget (chat_template_kwargs t) ''tools'')
        | Some turn \<Rightarrow>
            let recorded = mget turn ''tools'' in
            if tools = JNull then Inr recorded
            else rbind (extract_tool_dicts t tools) (\<lambda>a.
                 rbind (extract_tool_dicts t recorded) (\<lambda>b.
                   if py_eq a b then Inr tools else Inl ValueError)))
        (\<lambda>tools. Inr (dset request_args ''tools'' tools)))"

text \<open>\<open>request_args.setdefault("chat_template_kwargs", {})\<close>\<close>

definition kwargs_slot :: "message \<Rightarrow> message res" where
  "kwargs_slot args = (case dget args ''chat_template_kwargs'' of
       None \<Rightarrow> Inr []
     | Some v \<Rightarrow> (case v of JObj kwargs \<Rightarrow> Inr kwargs | _ \<Rightarrow> Inl TypeError))"

definition apply_fixed_template_kwargs :: "tito \<Rightarrow> message \<Rightarrow> message res" where
  "apply_fixed_template_kwargs t request_args =
     (let extra = extra_kwargs (FIXED_TEMPLATE (family t)) in
      if extra = [] then Inr request_args
      else rbind (kwargs_slot request_args) (\<lambda>kwargs.
        Inr (dset request_args ''chat_template_kwargs'' (JObj (dupdate kwargs extra)))))"

definition resolve_history_args :: "tito \<Rightarrow> message \<Rightarrow> message option \<Rightarrow> message res" where
  "resolve_history_args t request_args turn_args = (case turn_args of
       None \<Rightarrow> Inr request_args
     | Some turn \<Rightarrow>
         rbind (kwargs_of turn) (\<lambda>recorded.
         rbind (kwargs_slot request_args) (\<lambda>kwargs.
           let keys = consistant_kwargs (FIXED_TEMPLATE (family t)) in
           Inr (dset request_args ''chat_template_kwargs''
             (JObj (dupdate (dpops keys kwargs) (dpick keys recorded)))))))"

text \<open>DeepSeek: \<open>_build_encode_config\<close> and \<open>render_thinking_enabled\<close>.\<close>

definition set_mode_default :: "string \<Rightarrow> message \<Rightarrow> message" where
  "set_mode_default alias kwargs =
     (let v = mget kwargs alias; rest = ddel kwargs alias in
      if v = JNull then rest
      else if dget rest ''thinking_mode'' = None
        then dset rest ''thinking_mode'' (JStr (if truthy v then ''thinking'' else ''chat''))
      else rest)"

definition build_encode_config :: "message \<Rightarrow> message" where
  "build_encode_config kwargs =
     (let k = set_mode_default ''thinking'' (set_mode_default ''enable_thinking'' kwargs) in
      if dget k ''thinking_mode'' = None then dset k ''thinking_mode'' (JStr ''thinking'') else k)"

definition render_thinking_enabled :: "message \<Rightarrow> bool" where
  "render_thinking_enabled kwargs \<longleftrightarrow> mget (build_encode_config kwargs) ''thinking_mode'' = JStr ''thinking''"

definition resolve_thinking :: "message \<Rightarrow> message res" where
  "resolve_thinking request_args =
     (if dget request_args ''chat_template_kwargs'' = None then Inl KeyError
      else rbind (kwargs_slot request_args) (\<lambda>kwargs.
        Inr (dset request_args ''chat_template_kwargs''
          (JObj (dset (dpops DEEPSEEK_MODE_KWARG_ALIASES kwargs) ''thinking''
            (JBool (render_thinking_enabled kwargs)))))))"

text \<open>The rules in order; the DeepSeek families append their own.\<close>

definition resolve_model_args :: "tito \<Rightarrow> message \<Rightarrow> message option \<Rightarrow> message res" where
  "resolve_model_args t request_args turn_args =
     rbind (resolve_template_kwargs t request_args request_args turn_args) (\<lambda>r1.
     rbind (resolve_tools t r1 request_args turn_args) (\<lambda>r2.
     rbind (resolve_history_args t r2 turn_args) (\<lambda>r3.
     rbind (apply_fixed_template_kwargs t r3) (\<lambda>r4.
       if is_deepseek (family t) then resolve_thinking r4 else Inr r4))))"

section \<open>Merging tokens\<close>

definition build_dummy_assistant :: "message \<Rightarrow> message" where
  "build_dummy_assistant stored =
     [(''role'', JStr ''assistant''), (''content'', JStr []), (''reasoning_content'', JStr '' ''),
      (''tool_calls'', if truthy (mget stored ''tool_calls'') then mget stored ''tool_calls'' else JList [])]"

definition DUMMY_SYSTEM :: message where
  "DUMMY_SYSTEM = [(''role'', JStr ''system''), (''content'', JStr ''dummy system'')]"

definition starts_with :: "'a list \<Rightarrow> 'a list \<Rightarrow> bool" where
  "starts_with xs pre \<longleftrightarrow> take (length pre) xs = pre"

definition tokenize_rendered_suffix ::
  "tito \<Rightarrow> message list \<Rightarrow> message list \<Rightarrow> message \<Rightarrow> bool \<Rightarrow> nat list res" where
  "tokenize_rendered_suffix t base appended template_args add_generation_prompt =
     (let text_without = render t base False template_args;
          text_with = render t (base @ appended) add_generation_prompt template_args in
      if starts_with text_with text_without
      then Inr (encode t (drop (length text_without) text_with))
      else Inl ValueError)"

definition tokenize_additional_messages ::
  "tito \<Rightarrow> message list \<Rightarrow> message list \<Rightarrow> message \<Rightarrow> nat list res" where
  "tokenize_additional_messages t old new template_args =
     rbind (assert_messages_append_only_with_allowed_role strict_message_matches old new
             (allowed_append_roles (FIXED_TEMPLATE (family t)))) (\<lambda>_.
       if family t = DEEPSEEKV4 then
         let text_old = render t old False template_args; text_new = render t new True template_args in
         if starts_with text_new text_old then Inr (encode t (drop (length text_old) text_new))
         else Inl ValueError
       else if old = [] then Inl IndexError
       else tokenize_rendered_suffix t [DUMMY_SYSTEM, build_dummy_assistant (last old)]
              (drop (length old) new) template_args True)"

definition is_qwen3 :: "tito_family \<Rightarrow> bool" where
  "is_qwen3 f \<longleftrightarrow> f \<in> {QWEN3, QWEN35, QWEN36, QWEN38_SMALL, QWEN4_EXP, QWENNEXT, NEMOTRON3}"

definition is_minimax :: "tito_family \<Rightarrow> bool" where
  "is_minimax f \<longleftrightarrow> f = MINIMAX_M25 \<or> f = MINIMAX_M27"

definition is_glm :: "tito_family \<Rightarrow> bool" where
  "is_glm f \<longleftrightarrow> f = GLM47 \<or> f = GLM53"

definition newline_id :: "tito \<Rightarrow> nat" where
  "newline_id t = hd (encode t [CHR 0x0A])"

text \<open>What each family does with the last stored token before the new tokens follow it.\<close>

definition boundary_prefix :: "tito \<Rightarrow> nat list \<Rightarrow> nat list" where
  "boundary_prefix t prefix =
     (if prefix = [] then prefix
      else if is_qwen3 (family t) then
        (if last prefix = token_id t ''<|im_end|>'' then prefix @ [newline_id t] else prefix)
      else if is_minimax (family t) then
        (if last prefix = token_id t ''[e~['' then prefix @ [newline_id t] else prefix)
      else if is_glm (family t) then
        (if last prefix \<in> {token_id t ''<|observation|>'', token_id t ''<|user|>''}
         then butlast prefix else prefix)
      else prefix)"

definition merge_tokens ::
  "tito \<Rightarrow> message list \<Rightarrow> message list \<Rightarrow> nat list \<Rightarrow> message \<Rightarrow> nat list res" where
  "merge_tokens t old new pretokenized template_args =
     rbind (tokenize_additional_messages t old new template_args) (\<lambda>incremental.
       Inr (boundary_prefix t pretokenized @ incremental))"

text \<open>Inkling restores the server's own content blocks on replayed assistant messages.\<close>

definition restore_blocks :: "message list \<Rightarrow> nat \<times> message \<Rightarrow> message" where
  "restore_blocks stored p = (let (i, m) = p in
     if i < length stored \<and> message_role (stored ! i) = JStr ''assistant''
        \<and> strict_message_matches (stored ! i) m
     then (case dget (stored ! i) ''content_blocks'' of
         None \<Rightarrow> m
       | Some blocks \<Rightarrow> dset m ''content_blocks'' blocks)
     else m)"

definition preserve_server_message_state :: "tito \<Rightarrow> message list \<Rightarrow> message list \<Rightarrow> message list" where
  "preserve_server_message_state t stored request =
     (if family t = INKLING then map (restore_blocks stored) (enum request) else request)"

text \<open>Construction: the launch arguments pass the same rules, with nothing to continue.\<close>

definition new_tito :: "tito \<Rightarrow> message \<Rightarrow> tito res" where
  "new_tito t launch_kwargs =
     (let t0 = t\<lparr>chat_template_kwargs := launch_kwargs\<rparr> in
      rbind (resolve_model_args t0 [] None) (\<lambda>launch_args.
      rbind (extract_template_args launch_args) (\<lambda>kwargs.
      rbind (py_assert (is_qwen3 (family t) \<or> is_minimax (family t) \<longrightarrow> length (encode t [CHR 0x0A]) = 1)) (\<lambda>_.
        Inr (t0\<lparr>chat_template_kwargs := kwargs\<rparr>)))))"

section \<open>Continuing a turn\<close>

lemma template_tables:
  "dict_ok (extra_kwargs (FIXED_TEMPLATE f))"
  "k \<in> set (consistant_kwargs (FIXED_TEMPLATE f)) \<Longrightarrow> dget (extra_kwargs (FIXED_TEMPLATE f)) k = None"
  "is_deepseek f \<Longrightarrow> k \<in> set (consistant_kwargs (FIXED_TEMPLATE f)) \<Longrightarrow> k \<notin> set DEEPSEEK_MODE_KWARG_ALIASES"
  "is_deepseek f \<Longrightarrow> dget (extra_kwargs (FIXED_TEMPLATE f)) k = Some v \<Longrightarrow> k \<notin> set DEEPSEEK_MODE_KWARG_ALIASES"
  by (cases f; auto simp: fixed_def dict_ok_def is_deepseek_def DEEPSEEK_MODE_KWARG_ALIASES_def split: if_splits)+

lemma slot_dset [simp]: "kwargs_slot (dset r ''chat_template_kwargs'' (JObj kw)) = Inr kw"
  by (simp add: kwargs_slot_def)

lemma slot_dset_other [simp]: "k \<noteq> ''chat_template_kwargs'' \<Longrightarrow> kwargs_slot (dset r k v) = kwargs_slot r"
  by (simp add: kwargs_slot_def)

text \<open>The template arguments of a resolved continuation, rule by rule.\<close>

definition after_history :: "tito \<Rightarrow> message \<Rightarrow> message \<Rightarrow> message" where
  "after_history t recorded kw =
     (let keys = consistant_kwargs (FIXED_TEMPLATE (family t)) in
      dupdate (dupdate (dpops keys kw) (dpick keys recorded)) (extra_kwargs (FIXED_TEMPLATE (family t))))"

lemma dupdate_Nil [simp]: "dupdate a [] = a"
  by (simp add: dupdate_def)

lemma resolve_tools_Inr:
  assumes "resolve_tools t r req (Some turn) = Inr r2"
  obtains tools where "r2 = dset r ''tools'' tools" "truthy (mget req ''tools'') \<or> tools = mget turn ''tools''"
  using assms by (cases "truthy (mget req ''tools'')") (auto simp: resolve_tools_def rbind_Inr_iff Let_def)

lemma apply_fixed_Inr:
  "kwargs_slot r = Inr kw \<Longrightarrow> r = dset r0 ''chat_template_kwargs'' (JObj kw) \<Longrightarrow>
   apply_fixed_template_kwargs t r = Inr out \<Longrightarrow>
   dget out ''chat_template_kwargs'' = Some (JObj (dupdate kw (extra_kwargs (FIXED_TEMPLATE (family t)))))
   \<and> mget out ''tools'' = mget r ''tools''"
  by (cases "extra_kwargs (FIXED_TEMPLATE (family t)) = []")
    (auto simp: apply_fixed_template_kwargs_def Let_def mget_def)

lemma resolve_thinking_Inr:
  "resolve_thinking r = Inr out \<Longrightarrow> dget r ''chat_template_kwargs'' = Some (JObj kw) \<Longrightarrow>
   dget out ''chat_template_kwargs'' = Some (JObj (dset (dpops DEEPSEEK_MODE_KWARG_ALIASES kw) ''thinking''
     (JBool (render_thinking_enabled kw)))) \<and> mget out ''tools'' = mget r ''tools''"
  by (auto simp: resolve_thinking_def kwargs_slot_def mget_def)

lemma resolve_model_args_shape:
  assumes "resolve_model_args t req (Some turn) = Inr out"
  obtains recorded requested kw0 tools where
    "kwargs_of turn = Inr recorded" "kwargs_of req = Inr requested"
    "kw0 = (let kw = ddel (dupdate (dupdate (chat_template_kwargs t) recorded) requested) ''tools'' in
       if is_deepseek (family t)
       then dupdate (dpops DEEPSEEK_MODE_KWARG_ALIASES kw) (first_mode [recorded, requested, chat_template_kwargs t])
       else kw)"
    "mget out ''tools'' = tools" "truthy (mget req ''tools'') \<or> tools = mget turn ''tools''"
    "dget out ''chat_template_kwargs'' = Some (JObj (let kw = after_history t recorded kw0 in
       if is_deepseek (family t)
       then dset (dpops DEEPSEEK_MODE_KWARG_ALIASES kw) ''thinking'' (JBool (render_thinking_enabled kw))
       else kw))"
proof -
  from assms obtain r1 r2 r3 r4 where r1: "resolve_template_kwargs t req req (Some turn) = Inr r1"
    and r2: "resolve_tools t r1 req (Some turn) = Inr r2"
    and r3: "resolve_history_args t r2 (Some turn) = Inr r3"
    and r4: "apply_fixed_template_kwargs t r3 = Inr r4"
    and out: "(if is_deepseek (family t) then resolve_thinking r4 else Inr r4) = Inr out"
    by (auto simp: resolve_model_args_def rbind_Inr_iff)
  from r1 obtain recorded requested kw0 where 1: "kwargs_of turn = Inr recorded" "kwargs_of req = Inr requested"
    "kw0 = (let kw = ddel (dupdate (dupdate (chat_template_kwargs t) recorded) requested) ''tools'' in
       if is_deepseek (family t)
       then dupdate (dpops DEEPSEEK_MODE_KWARG_ALIASES kw) (first_mode [recorded, requested, chat_template_kwargs t])
       else kw)" "r1 = dset req ''chat_template_kwargs'' (JObj kw0)"
    by (auto simp: resolve_template_kwargs_def turn_kwargs_def rbind_Inr_iff Let_def)
  obtain tools where 2: "r2 = dset r1 ''tools'' tools" "truthy (mget req ''tools'') \<or> tools = mget turn ''tools''"
    using r2 by (rule resolve_tools_Inr)
  let ?keys = "consistant_kwargs (FIXED_TEMPLATE (family t))"
  let ?kw3 = "dupdate (dpops ?keys kw0) (dpick ?keys recorded)"
  let ?kw = "after_history t recorded kw0"
  have "kwargs_slot r2 = Inr kw0" by (simp add: 1(4) 2(1))
  with r3 1(1) have 3: "r3 = dset r2 ''chat_template_kwargs'' (JObj ?kw3)"
    by (simp add: resolve_history_args_def Let_def)
  have slot: "kwargs_slot r3 = Inr ?kw3" by (simp add: 3)
  have tools3: "mget r3 ''tools'' = tools" by (simp add: 3 2(1) mget_def)
  from apply_fixed_Inr [OF slot 3 r4] tools3
  have 4: "dget r4 ''chat_template_kwargs'' = Some (JObj ?kw)" "mget r4 ''tools'' = tools"
    by (simp_all add: after_history_def Let_def)
  have "dget out ''chat_template_kwargs'' = Some (JObj (if is_deepseek (family t)
       then dset (dpops DEEPSEEK_MODE_KWARG_ALIASES ?kw) ''thinking'' (JBool (render_thinking_enabled ?kw))
       else ?kw)) \<and> mget out ''tools'' = tools"
  proof (cases "is_deepseek (family t)")
    case True
    with out resolve_thinking_Inr [OF _ 4(1), of out] 4(2) show ?thesis by simp
  next
    case False
    with out 4 show ?thesis by simp
  qed
  with 1 2 show thesis by (intro that) (simp_all add: Let_def)
qed

lemma after_history_facts:
  "k \<in> set (consistant_kwargs (FIXED_TEMPLATE (family t))) \<Longrightarrow> dget (after_history t recorded kw) k = dget recorded k"
  "dget (extra_kwargs (FIXED_TEMPLATE (family t))) k = Some v \<Longrightarrow> dget (after_history t recorded kw) k = Some v"
  "k \<notin> set (consistant_kwargs (FIXED_TEMPLATE (family t))) \<Longrightarrow>
   dget (extra_kwargs (FIXED_TEMPLATE (family t))) k = None \<Longrightarrow> dget (after_history t recorded kw) k = dget kw k"
  using template_tables(1,2) [where f = "family t"]
  by (auto simp: after_history_def Let_def dget_dupdate split: option.splits)

text \<open>
  A continued turn keeps what the stored tokens were rendered with: the family's
  history-bound fields have the recorded value (or stay absent), the family's required
  settings win, and the tools are the recorded ones unless the request repeats its own.
\<close>

theorem continued_turn_keeps_template:
  assumes "resolve_model_args t req (Some turn) = Inr out" "kwargs_of turn = Inr recorded"
  shows "\<exists>kw. dget out ''chat_template_kwargs'' = Some (JObj kw)
    \<and> (\<forall>k\<in>set (consistant_kwargs (FIXED_TEMPLATE (family t))). dget kw k = dget recorded k)
    \<and> (\<forall>k v. dget (extra_kwargs (FIXED_TEMPLATE (family t))) k = Some v \<longrightarrow> dget kw k = Some v)
    \<and> (\<not> truthy (mget req ''tools'') \<longrightarrow> mget out ''tools'' = mget turn ''tools'')"
proof -
  obtain recorded' kw where kw: "kwargs_of turn = Inr recorded'"
    "truthy (mget req ''tools'') \<or> mget out ''tools'' = mget turn ''tools''"
    "dget out ''chat_template_kwargs'' = Some (JObj (let kw = after_history t recorded' kw in
       if is_deepseek (family t)
       then dset (dpops DEEPSEEK_MODE_KWARG_ALIASES kw) ''thinking'' (JBool (render_thinking_enabled kw))
       else kw))"
    by (rule resolve_model_args_shape [OF assms(1)]) (rule that, simp_all)
  have rec: "recorded' = recorded" using kw(1) assms(2) by simp
  have "''thinking'' \<in> set DEEPSEEK_MODE_KWARG_ALIASES" by (simp add: DEEPSEEK_MODE_KWARG_ALIASES_def)
  then show ?thesis
    using kw(2,3) after_history_facts(1,2) [where t = t and recorded = recorded and kw = kw]
      template_tables(3,4) [where f = "family t"]
    by (cases "is_deepseek (family t)") (auto simp: rec Let_def)
qed

section \<open>The boundary rules\<close>

lemma boundary_prefix_keeps:
  "take (length prev - max_trim_tokens (family t)) (boundary_prefix t prev @ xs)
   = take (length prev - max_trim_tokens (family t)) prev"
proof (cases "boundary_prefix t prev = butlast prev \<and> is_glm (family t)")
  case True
  then have "length prev - max_trim_tokens (family t) = length (butlast prev)"
    by (simp add: is_glm_def max_trim_tokens_def)
  with True show ?thesis
    by (metis append_take_drop_id append_eq_conv_conj butlast_conv_take take_append
        diff_diff_cancel length_butlast diff_le_self le_refl take_all_iff append_Nil2 diff_is_0_eq' take_0)
next
  case False
  then consider "boundary_prefix t prev = prev" | ys where "boundary_prefix t prev = prev @ ys"
    by (auto simp: boundary_prefix_def split: if_splits)
  then show ?thesis by cases auto
qed

lemma merge_tokens_Inr:
  "merge_tokens t old new prev args = Inr ids \<Longrightarrow>
   \<exists>inc. tokenize_additional_messages t old new args = Inr inc \<and> ids = boundary_prefix t prev @ inc"
  by (auto simp: merge_tokens_def rbind_Inr_iff)

section \<open>An instance of the parameters\<close>

text \<open>
  A renderer that writes one character per message and one for the generation prompt, and
  an encoder that maps characters to their codes; it shows that the hypotheses about the
  third-party parts can hold.
\<close>

definition example_tito :: tito where
  "example_tito = \<lparr> family = GLM53, chat_template_kwargs = [],
     render = (\<lambda>ms gen args. map (\<lambda>m. if message_role m = JStr ''user'' then CHR ''u''
        else if message_role m = JStr ''assistant'' then CHR ''a'' else CHR ''o'') ms @ (if gen then ''g'' else [])),
     render_ids = (\<lambda>ms gen args. map (\<lambda>m. if message_role m = JStr ''user'' then 117
        else if message_role m = JStr ''assistant'' then 97 else 111) ms @ (if gen then [103] else [])),
     encode = map of_char, token_id = (\<lambda>s. if s = ''<|user|>'' then 117 else 111),
     dump_tools = Inr \<rparr>"

theorem continued_turn_keeps_template_witness:
  "\<exists>out kw. resolve_model_args example_tito [] (Some [(''chat_template_kwargs'', JObj [(''reasoning_effort'', JStr ''low'')])])
     = Inr out \<and> dget out ''chat_template_kwargs'' = Some (JObj kw)
   \<and> dget kw ''reasoning_effort'' = Some (JStr ''low'') \<and> dget kw ''enable_thinking'' = Some (JBool True)
   \<and> mget out ''tools'' = JNull"
proof -
  let ?turn = "[(''chat_template_kwargs'', JObj [(''reasoning_effort'', JStr ''low'')])]"
  have "\<not> isl (resolve_model_args example_tito [] (Some ?turn))" by code_simp
  then obtain out where out: "resolve_model_args example_tito [] (Some ?turn) = Inr out"
    by (cases "resolve_model_args example_tito [] (Some ?turn)") auto
  have rec: "kwargs_of ?turn = Inr [(''reasoning_effort'', JStr ''low'')]" by code_simp
  obtain kw where kw: "dget out ''chat_template_kwargs'' = Some (JObj kw)"
    "\<forall>k\<in>set (consistant_kwargs (FIXED_TEMPLATE (family example_tito))).
       dget kw k = dget [(''reasoning_effort'', JStr ''low'')] k"
    "\<forall>k v. dget (extra_kwargs (FIXED_TEMPLATE (family example_tito))) k = Some v \<longrightarrow> dget kw k = Some v"
    "\<not> truthy (mget [] ''tools'') \<longrightarrow> mget out ''tools'' = mget ?turn ''tools''"
    using continued_turn_keeps_template [OF out rec] by blast
  from kw(2) have "dget kw ''reasoning_effort'' = Some (JStr ''low'')"
    by (simp add: example_tito_def fixed_def)
  moreover from kw(3) have "dget kw ''enable_thinking'' = Some (JBool True)"
    by (simp add: example_tito_def fixed_def)
  moreover from kw(4) have "mget out ''tools'' = JNull" by (simp add: mget_def)
  ultimately show ?thesis using out kw(1) by blast
qed

end
