(* ===== verification/RequestArgs.thy ===== *)
theory RequestArgs
  imports Tito
begin

text \<open>
  Resolving a chat request before it is rendered (\<open>rollout/session/request_args.py\<close> with
  the checks it calls in \<open>rollout/generate_utils\<close> and \<open>utils/rollout_topk_logprobs.py\<close>):
  server constraints, session sampling defaults, model rules, and the training contract
  on sampling.
\<close>

section \<open>Python conversions\<close>

definition is_digit :: "char \<Rightarrow> bool" where
  "is_digit c \<longleftrightarrow> 48 \<le> (of_char c :: nat) \<and> (of_char c :: nat) \<le> 57"

definition parse_digits :: "string \<Rightarrow> nat option" where
  "parse_digits s = (if s \<noteq> [] \<and> list_all is_digit s
     then Some (foldl (\<lambda>n c. n * 10 + (of_char c - 48)) 0 s) else None)"

definition strip_spaces :: "string \<Rightarrow> string" where
  "strip_spaces s = (let sp = (\<lambda>c. c \<in> set [CHR '' '', CHR 0x09, CHR 0x0A, CHR 0x0D]) in
     rev (dropWhile sp (rev (dropWhile sp s))))"

definition parse_sign :: "string \<Rightarrow> int \<times> string" where
  "parse_sign s = (case s of
       [] \<Rightarrow> (1, [])
     | c # rest \<Rightarrow> if c = CHR ''-'' then (-1, rest) else if c = CHR ''+'' then (1, rest) else (1, s))"

definition parse_int :: "string \<Rightarrow> int option" where
  "parse_int s = (let (sg, digits) = parse_sign (strip_spaces s) in
     map_option (\<lambda>n. sg * int n) (parse_digits digits))"

text \<open>Decimal notation; the spellings of infinity and of not-a-number are refused.\<close>

definition parse_float :: "string \<Rightarrow> real option" where
  "parse_float s = (let
       (sg, body) = parse_sign (strip_spaces s);
       mantissa = takeWhile (\<lambda>c. c \<noteq> CHR ''e'' \<and> c \<noteq> CHR ''E'') body;
       exp_part = drop (length mantissa) body;
       whole = takeWhile (\<lambda>c. c \<noteq> CHR ''.'') mantissa;
       frac = drop (Suc (length whole)) mantissa in
     case parse_digits (whole @ frac) of
       None \<Rightarrow> None
     | Some m \<Rightarrow>
         (let base = real_of_int sg * real m / 10 ^ length frac in
          if exp_part = [] then Some base
          else (let (esg, digits) = parse_sign (tl exp_part) in
            case parse_digits digits of
              None \<Rightarrow> None
            | Some e \<Rightarrow> Some (if esg = 1 then base * 10 ^ e else base / 10 ^ e))))"

definition py_float :: "json \<Rightarrow> real res" where
  "py_float v = (case v of
       JStr s \<Rightarrow> (case parse_float s of None \<Rightarrow> Inl ValueError | Some r \<Rightarrow> Inr r)
     | _ \<Rightarrow> (case num_value v of None \<Rightarrow> Inl TypeError | Some r \<Rightarrow> Inr r))"

definition truncate_real :: "real \<Rightarrow> int" where
  "truncate_real r = (if 0 \<le> r then \<lfloor>r\<rfloor> else \<lceil>r\<rceil>)"

definition py_int :: "json \<Rightarrow> int res" where
  "py_int v = (case v of
       JStr s \<Rightarrow> (case parse_int s of None \<Rightarrow> Inl ValueError | Some i \<Rightarrow> Inr i)
     | _ \<Rightarrow> (case num_value v of None \<Rightarrow> Inl TypeError | Some r \<Rightarrow> Inr (truncate_real r)))"

text \<open>\<open>":" in str(v)\<close>: a non-empty object always prints one.\<close>

fun prints_colon :: "json \<Rightarrow> bool" where
  "prints_colon (JStr s) = (CHR '':'' \<in> set s)"
| "prints_colon (JList xs) = list_ex prints_colon xs"
| "prints_colon (JObj kvs) = (kvs \<noteq> [])"
| "prints_colon _ = False"

section \<open>Server constraints\<close>

record session_config =
  use_rollout_routing_replay :: bool
  use_rollout_indexer_replay :: bool
  lora_rank :: nat
  lora_adapter_path :: "string option"
  lora_train_only :: bool
  rollout_top_logprobs_num :: nat
  rollout_sampling_logprobs_mode :: string
  rollout_temperature :: real

definition lora_rollout_enabled :: "session_config \<Rightarrow> bool" where
  "lora_rollout_enabled c \<longleftrightarrow> (0 < lora_rank c \<or> lora_adapter_path c \<noteq> None) \<and> \<not> lora_train_only c"

text \<open>A field no client may set: refused when present with a value, dropped otherwise.\<close>

definition refuse_field :: "string \<Rightarrow> message \<Rightarrow> message res" where
  "refuse_field key r = (if mget r key \<noteq> JNull then Inl MessageValidationError else Inr (ddel r key))"

definition force_server_flags :: "session_config \<Rightarrow> bool \<Rightarrow> message \<Rightarrow> message" where
  "force_server_flags config evaluation args =
     dupdate args [(''logprobs'', JBool True), (''return_meta_info'', JBool True), (''no_stop_trim'', JBool False),
       (''return_routed_experts'', JBool (\<not> evaluation \<and> use_rollout_routing_replay config)),
       (''return_indexer_topk'', JBool (\<not> evaluation \<and> use_rollout_indexer_replay config))]"

definition serve_adapter :: "session_config \<Rightarrow> message \<Rightarrow> message res" where
  "serve_adapter config r =
     (let lora = (if lora_rollout_enabled config then Some ''miles_lora'' else None); asked = mget r ''lora_path'' in
      if asked \<noteq> JNull \<and> (case lora of None \<Rightarrow> True | Some s \<Rightarrow> asked \<noteq> JStr s) then Inl MessageValidationError
      else let r' = (case lora of None \<Rightarrow> ddel r ''lora_path'' | Some s \<Rightarrow> dset r ''lora_path'' (JStr s)) in
      if lora \<noteq> None \<and> truthy (mget r' ''model'') \<and> prints_colon (mget r' ''model'')
      then Inl MessageValidationError
      else Inr r')"

definition refuse_client_fields :: "bool \<Rightarrow> message \<Rightarrow> message res" where
  "refuse_client_fields evaluation r =
     rbind (refuse_field ''input_ids'' r) (\<lambda>r1.
     rbind (if evaluation then Inr (ddel r1 ''routed_experts_start_len'')
            else refuse_field ''routed_experts_start_len'' r1) (\<lambda>r2.
       refuse_field ''logprob_start_len'' r2))"

definition check_template_kwargs :: "message \<Rightarrow> unit res" where
  "check_template_kwargs r = (case mget r ''chat_template_kwargs'' of
       JNull \<Rightarrow> Inr ()
     | JObj kwargs \<Rightarrow> if dget kwargs ''tools'' \<noteq> None then Inl MessageValidationError else Inr ()
     | _ \<Rightarrow> Inl MessageValidationError)"

definition resolve_request_args_by_config ::
  "session_config \<Rightarrow> bool \<Rightarrow> message \<Rightarrow> (message \<times> bool) res" where
  "resolve_request_args_by_config config evaluation args =
     rbind (serve_adapter config (force_server_flags config evaluation args)) (\<lambda>r1.
     rbind (refuse_client_fields evaluation r1) (\<lambda>r2.
       let client_stream = truthy (mget r2 ''stream'');
           r3 = dpops [''stream'', ''stream_options''] r2 in
       rbind (check_template_kwargs r3) (\<lambda>_. Inr (r3, client_stream))))"

text \<open>The session's defaults fill what the client left unset.\<close>

fun apply_session_sampling_defaults :: "bool \<Rightarrow> message \<Rightarrow> message \<Rightarrow> message res" where
  "apply_session_sampling_defaults evaluation r [] = Inr r"
| "apply_session_sampling_defaults evaluation r ((key, value) # rest) =
     (if mget r key = JNull then apply_session_sampling_defaults evaluation (dset r key value) rest
      else if \<not> evaluation \<and> key = ''temperature'' \<and> \<not> py_eq (mget r key) value
      then Inl MessageValidationError
      else apply_session_sampling_defaults evaluation r rest)"

section \<open>The training contract on sampling\<close>

definition get_default :: "message \<Rightarrow> string \<Rightarrow> json \<Rightarrow> json" where
  "get_default m key d = (case dget m key of None \<Rightarrow> d | Some v \<Rightarrow> v)"

definition object_get :: "json \<Rightarrow> string \<Rightarrow> json \<Rightarrow> json res" where
  "object_get v key d = (case v of JObj kvs \<Rightarrow> Inr (get_default kvs key d) | _ \<Rightarrow> Inl TypeError)"

fun any_strict_tool :: "json list \<Rightarrow> bool res" where
  "any_strict_tool [] = Inr False"
| "any_strict_tool (tool # rest) =
     rbind (object_get tool ''function'' (JObj [])) (\<lambda>f.
     rbind (object_get f ''strict'' JNull) (\<lambda>s.
       if truthy s then Inr True else any_strict_tool rest))"

definition validate_rollout_topk_logprobs_sampling :: "message \<Rightarrow> real \<Rightarrow> nat \<Rightarrow> unit res" where
  "validate_rollout_topk_logprobs_sampling sampling temperature candidate_count =
     (if \<not> py_eq (get_default sampling ''temperature'' (JFloat temperature)) (JFloat temperature)
         \<or> temperature \<le> 0 then Inl ValueError
      else (case num_value (get_default sampling ''top_k'' (JInt (-1))) of
          None \<Rightarrow> Inl TypeError
        | Some k \<Rightarrow>
            if real candidate_count < k then Inl ValueError
            else if \<not> py_eq (get_default sampling ''min_p'' (JFloat 0)) (JFloat 0) then Inl ValueError
            else if list_ex (\<lambda>key. truthy (mget sampling key))
              [''json_schema'', ''regex'', ''ebnf'', ''structural_tag'', ''custom_logit_processor'', ''logit_bias'']
              then Inl ValueError
            else let rf = mget sampling ''response_format'' in
            if truthy rf \<and> (case rf of
                JObj kvs \<Rightarrow> \<not> py_eq (get_default kvs ''type'' (JStr ''text'')) (JStr ''text'') | _ \<Rightarrow> True)
              then Inl ValueError
            else let tool_choice = get_default sampling ''tool_choice'' (JStr ''auto'') in
            if tool_choice \<notin> set [JNull, JStr ''auto'', JStr ''none''] then Inl ValueError
            else if tool_choice = JStr ''none'' then Inr ()
            else let tools = mget sampling ''tools'' in
              rbind (if \<not> truthy tools then Inr False
                     else (case tools of JList ts \<Rightarrow> any_strict_tool ts | _ \<Rightarrow> Inl TypeError))
                (\<lambda>strict. if strict then Inl ValueError else Inr ())))"

definition fill_unset :: "message \<Rightarrow> (string \<times> json) list \<Rightarrow> message" where
  "fill_unset r defaults =
     foldl (\<lambda>r (key, d). if mget r key = JNull then dset r key d else r) r defaults"

text \<open>The OpenAI form of the request: the sampling fields are top-level.\<close>

definition configure_rollout_topk_logprobs_request :: "session_config \<Rightarrow> message \<Rightarrow> message res" where
  "configure_rollout_topk_logprobs_request config request =
     (let k = rollout_top_logprobs_num config in
      if k = 0 then Inr request
      else let r = fill_unset request [(''temperature'', JFloat (rollout_temperature config)),
             (''top_p'', JFloat 1), (''top_k'', JInt (-1)), (''min_p'', JFloat 0)] in
        rbind (validate_rollout_topk_logprobs_sampling r (rollout_temperature config) k) (\<lambda>_.
          if rollout_sampling_logprobs_mode config = ''support''
          then Inr (dset (ddel (ddel r ''top_logprobs'') ''top_logprobs_num'') ''sampling_logprobs_mode'' (JStr ''support''))
          else Inr (dset (ddel r ''sampling_logprobs_mode'') ''top_logprobs'' (JInt (int k)))))"

definition unsupported_with_replay :: "(string \<times> json list) list" where
  "unsupported_with_replay =
     [(''frequency_penalty'', [JInt 0, JNull]), (''presence_penalty'', [JInt 0, JNull]),
      (''repetition_penalty'', [JInt 1, JNull]), (''logit_bias'', [JObj [], JNull]),
      (''custom_logit_processor'', [JNull])]"

definition validate_sampling_support_request :: "message \<Rightarrow> bool \<Rightarrow> real option \<Rightarrow> bool res" where
  "validate_sampling_support_request p replay_enabled expected_temperature =
     rbind (if mget p ''top_p'' = JNull then Inr 1 else py_float (mget p ''top_p'')) (\<lambda>top_p.
       if \<not> (0 < top_p \<and> top_p \<le> 1) then Inl ValueError
       else if \<not> replay_enabled then
         rbind (if mget p ''top_k'' = JNull then Inr (-1) else py_int (mget p ''top_k'')) (\<lambda>top_k.
           if top_p < 1 \<or> 0 < top_k then Inl ValueError else Inr False)
       else if list_ex (\<lambda>key. mget p key = JNull) [''top_p'', ''top_k'', ''temperature''] then Inl ValueError
       else rbind (py_int (mget p ''top_k'')) (\<lambda>top_k.
         if top_k \<le> 0 then Inl ValueError
         else rbind (py_float (mget p ''temperature'')) (\<lambda>temp.
           case expected_temperature of
             None \<Rightarrow> Inl ValueError
           | Some e \<Rightarrow>
               if temp \<noteq> e then Inl ValueError
               else if list_ex (\<lambda>(key, allowed). \<not> list_ex (py_eq (mget p key)) allowed) unsupported_with_replay
               then Inl ValueError
               else Inr True)))"

section \<open>The prepared request\<close>

record prepared_request =
  body :: message
  template_args :: message
  client_stream :: bool

definition as_validation_error :: "'a res \<Rightarrow> 'a res" where
  "as_validation_error r = (case r of Inl e \<Rightarrow> if e = ValueError then Inl MessageValidationError else Inl e | Inr x \<Rightarrow> Inr x)"

lemma as_validation_error_Inr [simp]: "as_validation_error r = Inr x \<longleftrightarrow> r = Inr x"
  by (auto simp: as_validation_error_def split: sum.splits)

text \<open>The replay outputs, after the model rules: off for evaluation, checked for training.\<close>

definition apply_replay_rules :: "session_config \<Rightarrow> bool \<Rightarrow> message \<Rightarrow> bool \<Rightarrow> message \<Rightarrow> message res" where
  "apply_replay_rules config evaluation defaults replay r =
     (if evaluation then
        Inr (ddel (dset (dset (dset r ''return_sampling_mask'' (JBool False))
          ''return_routed_experts'' (JBool False)) ''return_indexer_topk'' (JBool False)) ''routed_experts_start_len'')
      else as_validation_error
        (rbind (configure_rollout_topk_logprobs_request config r) (\<lambda>r5.
         rbind (validate_sampling_support_request r5 replay (num_value (mget defaults ''temperature''))) (\<lambda>mask.
           Inr (if mask then dset r5 ''return_sampling_mask'' (JBool True)
                else ddel r5 ''return_sampling_mask'')))))"

definition prepare_chat_request ::
  "tito \<Rightarrow> session_config \<Rightarrow> message \<Rightarrow> message option \<Rightarrow> bool \<Rightarrow> message \<Rightarrow> bool \<Rightarrow> prepared_request res" where
  "prepare_chat_request t config client_args turn_args evaluation sampling_defaults sampling_support_replay =
     rbind (resolve_request_args_by_config config evaluation client_args) (\<lambda>(r1, stream).
     rbind (apply_session_sampling_defaults evaluation r1 sampling_defaults) (\<lambda>r2.
     rbind (as_validation_error (resolve_model_args t r2 turn_args)) (\<lambda>r3.
     rbind (apply_replay_rules config evaluation sampling_defaults sampling_support_replay
             (ddel r3 ''sampling_logprobs_mode'')) (\<lambda>r4.
     rbind (extract_template_args r4) (\<lambda>targs.
       Inr \<lparr> body = r4, template_args = targs, client_stream = stream \<rparr>)))))"

section \<open>What a prepared request promises\<close>

definition server_fields_ok :: "session_config \<Rightarrow> bool \<Rightarrow> message \<Rightarrow> bool" where
  "server_fields_ok config evaluation r \<longleftrightarrow>
     dget r ''logprobs'' = Some (JBool True) \<and> dget r ''return_meta_info'' = Some (JBool True)
     \<and> dget r ''no_stop_trim'' = Some (JBool False)
     \<and> dget r ''return_routed_experts'' = Some (JBool (\<not> evaluation \<and> use_rollout_routing_replay config))
     \<and> dget r ''return_indexer_topk'' = Some (JBool (\<not> evaluation \<and> use_rollout_indexer_replay config))
     \<and> dget r ''lora_path'' = (if lora_rollout_enabled config then Some (JStr ''miles_lora'') else None)
     \<and> (\<forall>key\<in>set [''input_ids'', ''routed_experts_start_len'', ''logprob_start_len'', ''stream'', ''stream_options''].
          dget r key = None)"

definition server_keys :: "string list" where
  "server_keys = [''logprobs'', ''return_meta_info'', ''no_stop_trim'', ''return_routed_experts'',
     ''return_indexer_topk'', ''lora_path'', ''input_ids'', ''routed_experts_start_len'',
     ''logprob_start_len'', ''stream'', ''stream_options'']"

lemma server_fields_cong:
  "\<forall>k\<in>set server_keys. dget r' k = dget r k \<Longrightarrow> server_fields_ok config e r \<Longrightarrow> server_fields_ok config e r'"
  by (simp add: server_fields_ok_def server_keys_def)

lemma refuse_field_Inr: "refuse_field key r = Inr r' \<longleftrightarrow> mget r key = JNull \<and> r' = ddel r key"
  by (auto simp: refuse_field_def)

definition server_flags :: "session_config \<Rightarrow> bool \<Rightarrow> message" where
  "server_flags config e =
     [(''logprobs'', JBool True), (''return_meta_info'', JBool True), (''no_stop_trim'', JBool False),
      (''return_routed_experts'', JBool (\<not> e \<and> use_rollout_routing_replay config)),
      (''return_indexer_topk'', JBool (\<not> e \<and> use_rollout_indexer_replay config))]"

definition refused_keys :: "string list" where
  "refused_keys = [''input_ids'', ''routed_experts_start_len'', ''logprob_start_len'', ''stream'', ''stream_options'']"

lemma config_rules_ok:
  assumes "resolve_request_args_by_config config e args = Inr (r, s)"
  shows "server_fields_ok config e r"
proof -
  from assms obtain r1 r2 where r1: "serve_adapter config (force_server_flags config e args) = Inr r1"
    and r2: "refuse_client_fields e r1 = Inr r2" and r: "r = dpops [''stream'', ''stream_options''] r2"
    by (auto simp: resolve_request_args_by_config_def rbind_Inr_iff Let_def)
  have lora: "dget r1 k = (if k = ''lora_path'' then (if lora_rollout_enabled config then Some (JStr ''miles_lora'') else None)
      else dget (force_server_flags config e args) k)" for k
    using r1 by (auto simp: serve_adapter_def Let_def split: if_splits)
  have "r2 = ddel (ddel (ddel r1 ''input_ids'') ''routed_experts_start_len'') ''logprob_start_len''"
    using r2 by (cases e) (auto simp: refuse_client_fields_def rbind_Inr_iff refuse_field_Inr)
  then have dget: "dget r k = (if k \<in> set refused_keys then None else dget r1 k)" for k
    by (simp add: r refused_keys_def)
  have flags: "dget (force_server_flags config e args) k = Some v" if "dget (server_flags config e) k = Some v" for k v
    using that by (simp add: force_server_flags_def server_flags_def dget_dupdate dict_ok_def)
  have other: "k \<notin> set refused_keys \<and> k \<noteq> ''lora_path''" if "k \<in> set (dkeys (server_flags config e))" for k
    using that by (auto simp: server_flags_def refused_keys_def)
  have flag: "dget r k = Some v" if "(k, v) \<in> set (server_flags config e)" for k v
  proof -
    have "dget (server_flags config e) k = Some v"
      using that by (intro map_of_is_SomeI) (simp_all add: server_flags_def)
    moreover have "k \<in> set (dkeys (server_flags config e))" using that by force
    ultimately show ?thesis using dget lora flags other by simp
  qed
  have "\<forall>k\<in>set refused_keys. dget r k = None" using dget by simp
  moreover have "dget r ''lora_path'' = (if lora_rollout_enabled config then Some (JStr ''miles_lora'') else None)"
    using dget [of "''lora_path''"] lora [of "''lora_path''"] by (simp add: refused_keys_def)
  ultimately show ?thesis
    using flag [of "''logprobs''"] flag [of "''return_meta_info''"] flag [of "''no_stop_trim''"]
      flag [of "''return_routed_experts''"] flag [of "''return_indexer_topk''"]
    by (simp add: server_fields_ok_def server_flags_def refused_keys_def)
qed

lemma defaults_keep:
  "apply_session_sampling_defaults e r ds = Inr r' \<Longrightarrow> k \<notin> set (dkeys ds) \<Longrightarrow> dget r' k = dget r k"
  by (induction e r ds rule: apply_session_sampling_defaults.induct) (auto split: if_splits)

lemma model_rules_keep:
  assumes "resolve_model_args t r turn = Inr out" "k \<noteq> ''chat_template_kwargs''" "k \<noteq> ''tools''"
  shows "dget out k = dget r k"
proof -
  have 1: "resolve_template_kwargs t a b turn = Inr c \<Longrightarrow> dget c k = dget a k" for a b c
    using assms(2) by (auto simp: resolve_template_kwargs_def rbind_Inr_iff Let_def)
  have 2: "resolve_tools t a b turn = Inr c \<Longrightarrow> dget c k = dget a k" for a b c
    using assms(3) by (auto simp: resolve_tools_def rbind_Inr_iff Let_def)
  have 3: "resolve_history_args t a turn = Inr c \<Longrightarrow> dget c k = dget a k" for a c
    using assms(2) by (auto simp: resolve_history_args_def rbind_Inr_iff Let_def split: option.splits)
  have 4: "apply_fixed_template_kwargs t a = Inr c \<Longrightarrow> dget c k = dget a k" for a c
    using assms(2) by (auto simp: apply_fixed_template_kwargs_def rbind_Inr_iff Let_def split: if_splits)
  have 5: "resolve_thinking a = Inr c \<Longrightarrow> dget c k = dget a k" for a c
    using assms(2) by (auto simp: resolve_thinking_def rbind_Inr_iff split: if_splits)
  from assms(1) show ?thesis
    by (auto simp: resolve_model_args_def rbind_Inr_iff dest!: 1 2 3 4 5 split: if_splits)
qed

lemma fill_unset_keep: "k \<notin> fst ` set ds \<Longrightarrow> dget (fill_unset r ds) k = dget r k"
  by (induction ds arbitrary: r) (auto simp: fill_unset_def)

lemma topk_keep:
  assumes "configure_rollout_topk_logprobs_request config r = Inr r'"
    "k \<notin> set [''temperature'', ''top_p'', ''top_k'', ''min_p'', ''top_logprobs'', ''top_logprobs_num'',
       ''sampling_logprobs_mode'']"
  shows "dget r' k = dget r k"
  using assms
  by (auto simp: configure_rollout_topk_logprobs_request_def Let_def rbind_Inr_iff fill_unset_keep split: if_splits)

text \<open>
  Whatever the client sends, a prepared request carries the server's own settings:
  log-probs and meta information on, token ids, replay offsets and streaming absent, replay
  outputs as the launch flags say and never for evaluation, and the trained adapter.
\<close>

theorem prepared_request_contract:
  assumes "prepare_chat_request t config client_args turn_args evaluation defaults replay = Inr p"
    "set (dkeys defaults) \<subseteq> {''temperature'', ''top_p'', ''top_k''}"
  shows "server_fields_ok config evaluation (body p)"
proof -
  from assms(1) obtain r1 s r2 r3 where
    r1: "resolve_request_args_by_config config evaluation client_args = Inr (r1, s)"
    and r2: "apply_session_sampling_defaults evaluation r1 defaults = Inr r2"
    and r3: "resolve_model_args t r2 turn_args = Inr r3"
    and out: "apply_replay_rules config evaluation defaults replay (ddel r3 ''sampling_logprobs_mode'') = Inr (body p)"
    by (auto simp: prepare_chat_request_def rbind_Inr_iff)
  have "server_fields_ok config evaluation r1" using r1 by (rule config_rules_ok)
  moreover have keys: "k \<notin> {''temperature'', ''top_p'', ''top_k''} \<and> k \<noteq> ''chat_template_kwargs'' \<and> k \<noteq> ''tools''"
    if "k \<in> set server_keys" for k
    using that by (auto simp: server_keys_def)
  have "dget r3 k = dget r1 k" if "k \<in> set server_keys" for k
  proof -
    have "dget r3 k = dget r2 k" using model_rules_keep [OF r3] keys [OF that] by blast
    also have "\<dots> = dget r1 k" using defaults_keep [OF r2] keys [OF that] assms(2) by blast
    finally show ?thesis .
  qed
  then have "\<forall>k\<in>set server_keys. dget r3 k = dget r1 k" by blast
  ultimately have ok3: "server_fields_ok config evaluation r3" using server_fields_cong by blast
  show ?thesis
  proof (cases evaluation)
    case True
    with out have "body p = ddel (dset (dset (dset (ddel r3 ''sampling_logprobs_mode'') ''return_sampling_mask'' (JBool False))
             ''return_routed_experts'' (JBool False)) ''return_indexer_topk'' (JBool False)) ''routed_experts_start_len''"
      by (simp add: apply_replay_rules_def)
    with ok3 True show ?thesis by (simp add: server_fields_ok_def)
  next
    case False
    with out obtain r5 mask where
      r5: "configure_rollout_topk_logprobs_request config (ddel r3 ''sampling_logprobs_mode'') = Inr r5"
      and b: "(if mask then dset r5 ''return_sampling_mask'' (JBool True) else ddel r5 ''return_sampling_mask'') = body p"
      by (auto simp: apply_replay_rules_def rbind_Inr_iff)
    have disjoint: "k \<notin> set [''temperature'', ''top_p'', ''top_k'', ''min_p'', ''top_logprobs'', ''top_logprobs_num'',
       ''sampling_logprobs_mode''] \<and> k \<noteq> ''return_sampling_mask''" if "k \<in> set server_keys" for k
      using that by (auto simp: server_keys_def)
    have "dget (body p) k = dget r3 k" if "k \<in> set server_keys" for k
    proof -
      have "dget (body p) k = dget r5 k" using disjoint [OF that] by (simp add: b [symmetric])
      also have "\<dots> = dget (ddel r3 ''sampling_logprobs_mode'') k"
        using topk_keep [OF r5] disjoint [OF that] by simp
      finally show ?thesis using disjoint [OF that] by simp
    qed
    then have "\<forall>k\<in>set server_keys. dget (body p) k = dget r3 k" by blast
    then show ?thesis using ok3 by (rule server_fields_cong)
  qed
qed

definition example_session_config :: session_config where
  "example_session_config = \<lparr> use_rollout_routing_replay = True, use_rollout_indexer_replay = False,
     lora_rank = 0, lora_adapter_path = None, lora_train_only = False, rollout_top_logprobs_num = 0,
     rollout_sampling_logprobs_mode = ''selected'', rollout_temperature = 1 \<rparr>"

definition example_client_args :: message where
  "example_client_args = [(''messages'', JList [JObj [(''role'', JStr ''user''), (''content'', JStr ''hi'')]]),
     (''stream'', JBool True), (''logprobs'', JBool False)]"

definition example_prepared :: "prepared_request res" where
  "example_prepared = prepare_chat_request example_tito example_session_config example_client_args None False
     [(''temperature'', JFloat 1)] False"

lemma example_prepared_Inr: "\<exists>p. example_prepared = Inr p"
proof -
  have "\<not> isl example_prepared" by code_simp
  then have "Inr (projr example_prepared) = example_prepared" by (rule sum.collapse(2))
  then show ?thesis by metis
qed

theorem prepared_request_contract_witness:
  "\<exists>p. example_prepared = Inr p \<and> server_fields_ok example_session_config False (body p)"
proof -
  obtain p where p: "example_prepared = Inr p" using example_prepared_Inr by blast
  have "server_fields_ok example_session_config False (body p)"
    by (rule prepared_request_contract [OF p [unfolded example_prepared_def]]) simp
  with p show ?thesis by blast
qed

end
