(* ===== verification/LinearSession.thy ===== *)
theory LinearSession
  imports RequestArgs
begin

text \<open>
  The linear session (\<open>rollout/session/linear_trajectory.py\<close>) and the request handler that
  drives it (\<open>rollout/session/core.py\<close>): preparing a request under the lock, the proxied
  generation without it, and the commit under the lock again, with any interleaving of
  requests and of the deletion of the session.
\<close>

section \<open>Records\<close>

record chat_choice =
  finish_reason :: "string option"
  choice_message :: message
  output_token_logprobs :: "(real \<times> nat) list option"
  completion_tokens :: int
  routed_experts :: "string option"

record session_record =
  rec_request :: message
  rec_input_ids :: "nat list"
  rec_start_len :: "nat option"
  rec_choice :: chat_choice
  rec_response_id :: string

record linear_trajectory =
  closing :: bool
  messages :: "message list"
  records :: "session_record list"
  trajectory_token_ids :: "nat list list"
  generated_checkpoint_message_ends :: "nat list"
  num_assistant :: nat
  turn_args_history :: "message list"
  evaluation :: bool
  sampling_defaults :: message
  sampling_support_replay :: bool

definition new_trajectory :: "bool \<Rightarrow> message \<Rightarrow> bool \<Rightarrow> linear_trajectory" where
  "new_trajectory ev defaults replay =
     \<lparr> closing = False, messages = [], records = [], trajectory_token_ids = [],
       generated_checkpoint_message_ends = [], num_assistant = 0, turn_args_history = [],
       evaluation = ev, sampling_defaults = defaults, sampling_support_replay = replay \<rparr>"

definition turn_args :: "linear_trajectory \<Rightarrow> message" where
  "turn_args s = (if turn_args_history s = [] then [] else last (turn_args_history s))"

definition token_ids :: "linear_trajectory \<Rightarrow> nat list" where
  "token_ids s = (if trajectory_token_ids s = [] then [] else last (trajectory_token_ids s))"

definition MAX_ASSISTANT_ROLLBACK_STEPS :: int where
  "MAX_ASSISTANT_ROLLBACK_STEPS = 1"

section \<open>The trajectory's operations\<close>

text \<open>
  The error message zips both prefixes strictly: when the new tokens are a proper prefix
  of what they are compared with, that zip raises its own \<open>ValueError\<close>.
\<close>

definition assert_pretokenized_prefix :: "nat list \<Rightarrow> nat list \<Rightarrow> nat \<Rightarrow> unit res" where
  "assert_pretokenized_prefix prev all_ids max_trim =
     (let check_len = length prev - max_trim in
      if prev \<noteq> [] \<and> 0 < check_len \<and> take check_len all_ids \<noteq> take check_len prev
      then Inl (if length all_ids < check_len \<and> all_ids = take (length all_ids) prev
                then ValueError else TokenizationError)
      else Inr ())"

definition last_checkpoint_within :: "nat list \<Rightarrow> nat \<Rightarrow> int" where
  "last_checkpoint_within ends match_len =
     (case filter (\<lambda>i. ends ! i \<le> match_len) (rev [0..<length ends]) of [] \<Rightarrow> -1 | i # _ \<Rightarrow> int i)"

definition find_rollback_checkpoint ::
  "linear_trajectory \<Rightarrow> message list \<Rightarrow> (message \<Rightarrow> message \<Rightarrow> bool) \<Rightarrow> int res" where
  "find_rollback_checkpoint s request matcher =
     (let stored = messages s in
      if stored = [] \<or> trajectory_token_ids s = [] then Inr (-1)
      else let match_len = match_prefix matcher stored request in
      if length stored \<le> match_len then Inr (int (num_assistant s) - 1)
      else let index = last_checkpoint_within (generated_checkpoint_message_ends s) match_len;
               discard_count = int (num_assistant s) - (index + 1) in
      if MAX_ASSISTANT_ROLLBACK_STEPS < discard_count then Inl MessageValidationError
      else Inr index)"

definition checkpoint_token_ids :: "linear_trajectory \<Rightarrow> int \<Rightarrow> nat list" where
  "checkpoint_token_ids s index = (if 0 \<le> index then trajectory_token_ids s ! nat index else [])"

definition render_token_ids ::
  "linear_trajectory \<Rightarrow> message list \<Rightarrow> int \<Rightarrow> message \<Rightarrow> tito \<Rightarrow> (message \<Rightarrow> message \<Rightarrow> bool) \<Rightarrow> nat list res" where
  "render_token_ids s request index targs t matcher =
     (if checkpoint_token_ids s index = [] then Inr (render_ids t request True targs)
      else let stored = take (generated_checkpoint_message_ends s ! nat index) (messages s) in
        rbind (as_validation_error (assert_messages_append_only_with_allowed_role matcher stored request
                 (allowed_append_roles (FIXED_TEMPLATE (family t))))) (\<lambda>_.
          merge_tokens t stored (stored @ drop (length stored) request) (checkpoint_token_ids s index) targs))"

definition rollback_to_checkpoint :: "linear_trajectory \<Rightarrow> int \<Rightarrow> linear_trajectory" where
  "rollback_to_checkpoint s index =
     (if int (num_assistant s) - (index + 1) = 0 then s
      else let n = nat (index + 1);
               message_end = (if 0 \<le> index then generated_checkpoint_message_ends s ! nat index else 0);
               ends = take n (generated_checkpoint_message_ends s) in
        s\<lparr> messages := take message_end (messages s),
          trajectory_token_ids := take n (trajectory_token_ids s),
          turn_args_history := take n (turn_args_history s),
          records := take n (records s),
          generated_checkpoint_message_ends := ends,
          num_assistant := length ends \<rparr>)"

text \<open>\<open>client_args.get("messages", [])\<close>, each message an object.\<close>

definition as_object :: "json \<Rightarrow> message res" where
  "as_object v = (case v of JObj kvs \<Rightarrow> Inr kvs | _ \<Rightarrow> Inl TypeError)"

definition messages_of :: "message \<Rightarrow> message list res" where
  "messages_of args = (case get_default args ''messages'' (JList []) of
       JList ms \<Rightarrow> res_all (map as_object ms)
     | _ \<Rightarrow> Inl TypeError)"

definition ids_json :: "nat list \<Rightarrow> json" where
  "ids_json ids = JList (map (\<lambda>i. JInt (int i)) ids)"

text \<open>The prepared request, its prompt, and the trajectory after the rollback it selects.\<close>

definition prepare_token_ids_and_request_args ::
  "session_config \<Rightarrow> tito \<Rightarrow> (message \<Rightarrow> message \<Rightarrow> bool) \<Rightarrow> linear_trajectory \<Rightarrow> message
   \<Rightarrow> (linear_trajectory \<times> message list \<times> prepared_request \<times> nat list) res" where
  "prepare_token_ids_and_request_args config t matcher s client_args =
     rbind (messages_of client_args) (\<lambda>request.
     rbind (find_rollback_checkpoint s request matcher) (\<lambda>index.
     rbind (prepare_chat_request t config client_args
              (if 0 \<le> index then Some (turn_args_history s ! nat index) else None)
              (evaluation s) (sampling_defaults s) (sampling_support_replay s)) (\<lambda>prepared.
     rbind (render_token_ids s request index (template_args prepared) t matcher) (\<lambda>ids.
       Inr (rollback_to_checkpoint s index, request,
            prepared\<lparr>body := dset (body prepared) ''input_ids'' (ids_json ids)\<rparr>, ids)))))"

definition update_pretokenized_state ::
  "linear_trajectory \<Rightarrow> message list \<Rightarrow> message \<Rightarrow> nat list \<Rightarrow> nat list \<Rightarrow> nat \<Rightarrow> message \<Rightarrow> linear_trajectory res" where
  "update_pretokenized_state s request assistant prompt_ids completion_ids max_trim targs =
     (let all_ids = prompt_ids @ completion_ids in
      rbind (assert_pretokenized_prefix (token_ids s) all_ids max_trim) (\<lambda>_.
        let ends = generated_checkpoint_message_ends s @ [length request + 1] in
        Inr (s\<lparr> messages := messages s @ drop (length (messages s)) request @ [assistant],
          trajectory_token_ids := trajectory_token_ids s @ [all_ids],
          turn_args_history := turn_args_history s @ [targs],
          generated_checkpoint_message_ends := ends,
          num_assistant := length ends \<rparr>)))"

section \<open>The handler\<close>

text \<open>\<open>_lcp_len\<close>: the length of the common prefix.\<close>

fun lcp_len :: "nat list \<Rightarrow> nat list \<Rightarrow> nat" where
  "lcp_len (x # xs) (y # ys) = (if x = y then Suc (lcp_len xs ys) else 0)"
| "lcp_len xs ys = 0"

definition maybe_request_addition_r3 :: "bool \<Rightarrow> message \<Rightarrow> nat list \<Rightarrow> nat list \<Rightarrow> (message \<times> nat option) res" where
  "maybe_request_addition_r3 use_addition_r3 request_body checkpoint_ids prompt_ids =
     (if \<not> (use_addition_r3 \<and> truthy (mget request_body ''return_routed_experts'')) then Inr (request_body, None)
      else let previous_rows = length checkpoint_ids - 1 in
        rbind (py_assert (previous_rows \<le> lcp_len checkpoint_ids prompt_ids)) (\<lambda>_.
          Inr (dset request_body ''routed_experts_start_len'' (JInt (int previous_rows)), Some previous_rows)))"

text \<open>The upstream answer: an HTTP status, and for a success the choice and the response id.\<close>

record upstream_result =
  status_code :: nat
  upstream_choice :: chat_choice
  upstream_id :: string

datatype upstream_error = UpstreamAborted | UpstreamInvalid

text \<open>\<open>extract_completion\<close>: the assistant message and the completion's token ids.\<close>

definition extract_completion :: "chat_choice \<Rightarrow> upstream_error + (message \<times> nat list)" where
  "extract_completion choice =
     (if finish_reason choice = Some ''abort'' then Inl UpstreamAborted
      else (case output_token_logprobs choice of
          None \<Rightarrow> Inl UpstreamInvalid
        | Some logprobs \<Rightarrow>
            if mget (choice_message choice) ''content'' = JNull then Inl UpstreamInvalid
            else if int (length logprobs) \<noteq> completion_tokens choice then Inl UpstreamInvalid
            else Inr (choice_message choice, map snd logprobs)))"

text \<open>A request between its two critical sections.\<close>

record pending =
  pend_messages :: "message list"
  pend_body :: message
  pend_prompt :: "nat list"
  pend_start_len :: "nat option"
  expected_num_assistant :: nat

record core_session =
  traj :: linear_trajectory
  inflight :: "(nat, pending) dict"
  removed :: bool

record core_config =
  server_config :: session_config
  tokenizer :: tito
  message_matcher :: "message \<Rightarrow> message \<Rightarrow> bool"
  use_addition_r3 :: bool

datatype core_event =
    Begin nat message
  | Finish nat upstream_result
  | Delete
  | Drop

text \<open>Phase 1 of \<open>chat_completions\<close>, under the lock.\<close>

definition begin_chat :: "core_config \<Rightarrow> core_session \<Rightarrow> nat \<Rightarrow> message \<Rightarrow> core_session res" where
  "begin_chat cfg s rid client_args =
     (if removed s \<or> closing (traj s) then Inl SessionNotFoundError
      else rbind (prepare_token_ids_and_request_args (server_config cfg) (tokenizer cfg) (message_matcher cfg)
                    (traj s) client_args) (\<lambda>(tr, request, prepared, ids).
           rbind (maybe_request_addition_r3 (use_addition_r3 cfg) (body prepared) (token_ids tr) ids)
             (\<lambda>(request_body, start_len).
             Inr (s\<lparr> traj := tr, inflight := dset (inflight s) rid
               \<lparr> pend_messages = request, pend_body = request_body, pend_prompt = ids,
                 pend_start_len = start_len, expected_num_assistant = num_assistant tr \<rparr> \<rparr>))))"

text \<open>
  Phase 3: the commit.  A non-200 answer and an invalid completion leave no record; a
  closed session or a changed checkpoint count skips the update.
\<close>

definition commit_chat :: "core_config \<Rightarrow> core_session \<Rightarrow> pending \<Rightarrow> upstream_result \<Rightarrow> core_session res" where
  "commit_chat cfg s p r =
     (if status_code r \<noteq> 200 then Inr s
      else (case extract_completion (upstream_choice r) of
          Inl _ \<Rightarrow> Inl RuntimeError
        | Inr (assistant, completion_ids) \<Rightarrow>
            if closing (traj s) then Inr s
            else if num_assistant (traj s) \<noteq> expected_num_assistant p then Inr s
            else rbind (update_pretokenized_state (traj s)
                   (preserve_server_message_state (tokenizer cfg) (messages (traj s)) (pend_messages p))
                   assistant (pend_prompt p) completion_ids (max_trim_tokens (family (tokenizer cfg))) (pend_body p))
                 (\<lambda>tr. Inr (s\<lparr> traj := tr\<lparr> records := records tr @
                   [\<lparr> rec_request = pend_body p, rec_input_ids = pend_prompt p, rec_start_len = pend_start_len p,
                      rec_choice = upstream_choice r, rec_response_id = upstream_id r \<rparr>] \<rparr> \<rparr>))))"

definition finish_chat :: "core_config \<Rightarrow> core_session \<Rightarrow> nat \<Rightarrow> upstream_result \<Rightarrow> core_session res" where
  "finish_chat cfg s rid r = (case dget (inflight s) rid of
       None \<Rightarrow> Inl KeyError
     | Some p \<Rightarrow> commit_chat cfg (s\<lparr>inflight := ddel (inflight s) rid\<rparr>) p r)"

text \<open>\<open>delete_session\<close>: close at once, remove once the lock is free.\<close>

definition delete_session :: "core_session \<Rightarrow> core_session res" where
  "delete_session s =
     (if removed s \<or> closing (traj s) then Inl SessionNotFoundError
      else Inr (s\<lparr> traj := (traj s)\<lparr>closing := True\<rparr> \<rparr>))"

definition drop_session :: "core_session \<Rightarrow> core_session" where
  "drop_session s = (if closing (traj s) then s\<lparr>removed := True\<rparr> else s)"

text \<open>
  What an exception in phase 1 leaves behind: the preparation changes nothing unless it
  succeeds, but the assertion on the routed-expert rows comes after its rollback.
\<close>

definition begin_failed :: "core_config \<Rightarrow> core_session \<Rightarrow> message \<Rightarrow> core_session" where
  "begin_failed cfg s client_args =
     (if removed s \<or> closing (traj s) then s
      else (case prepare_token_ids_and_request_args (server_config cfg) (tokenizer cfg) (message_matcher cfg)
                   (traj s) client_args of
          Inl _ \<Rightarrow> s
        | Inr (tr, _) \<Rightarrow> s\<lparr>traj := tr\<rparr>))"

text \<open>One event; an exception in phase 3 leaves the session as it was, up to the finished request.\<close>

definition core_step :: "core_config \<Rightarrow> core_session \<Rightarrow> core_event \<Rightarrow> core_session" where
  "core_step cfg s e = (case e of
       Begin rid args \<Rightarrow> (case begin_chat cfg s rid args of Inl _ \<Rightarrow> begin_failed cfg s args | Inr s' \<Rightarrow> s')
     | Finish rid r \<Rightarrow> (case finish_chat cfg s rid r of
           Inl _ \<Rightarrow> s\<lparr>inflight := ddel (inflight s) rid\<rparr> | Inr s' \<Rightarrow> s')
     | Delete \<Rightarrow> (case delete_session s of Inl _ \<Rightarrow> s | Inr s' \<Rightarrow> s')
     | Drop \<Rightarrow> drop_session s)"

definition new_core_session :: "bool \<Rightarrow> message \<Rightarrow> bool \<Rightarrow> core_session" where
  "new_core_session ev defaults replay =
     \<lparr> traj = new_trajectory ev defaults replay, inflight = [], removed = False \<rparr>"

section \<open>The invariant under any interleaving\<close>

definition keeps_prefix :: "nat \<Rightarrow> nat list \<Rightarrow> nat list \<Rightarrow> bool" where
  "keeps_prefix mt prev ids \<longleftrightarrow> take (length prev - mt) ids = take (length prev - mt) prev"

lemma assert_prefix_Inr: "assert_pretokenized_prefix prev ids mt = Inr u \<longleftrightarrow> keeps_prefix mt prev ids"
  by (auto simp: assert_pretokenized_prefix_def keeps_prefix_def Let_def)

definition completion_of :: "session_record \<Rightarrow> nat list" where
  "completion_of r = (case output_token_logprobs (rec_choice r) of None \<Rightarrow> [] | Some ls \<Rightarrow> map snd ls)"

definition trajectory_ok :: "nat \<Rightarrow> linear_trajectory \<Rightarrow> bool" where
  "trajectory_ok mt tr \<longleftrightarrow>
     length (trajectory_token_ids tr) = num_assistant tr
     \<and> length (generated_checkpoint_message_ends tr) = num_assistant tr
     \<and> length (turn_args_history tr) = num_assistant tr
     \<and> (num_assistant tr = 0 \<longleftrightarrow> messages tr = [])
     \<and> (\<forall>e\<in>set (generated_checkpoint_message_ends tr). 0 < e)
     \<and> (\<forall>i. Suc i < num_assistant tr \<longrightarrow>
          keeps_prefix mt (trajectory_token_ids tr ! i) (trajectory_token_ids tr ! Suc i))"

definition records_ok :: "linear_trajectory \<Rightarrow> bool" where
  "records_ok tr \<longleftrightarrow> list_all2 (\<lambda>r ids. rec_input_ids r @ completion_of r = ids) (records tr) (trajectory_token_ids tr)"

definition core_inv :: "core_config \<Rightarrow> core_session \<Rightarrow> bool" where
  "core_inv cfg s \<longleftrightarrow>
     trajectory_ok (max_trim_tokens (family (tokenizer cfg))) (traj s) \<and> records_ok (traj s)
     \<and> (removed s \<longrightarrow> closing (traj s))"

lemma new_trajectory_ok: "trajectory_ok mt (new_trajectory ev d r) \<and> records_ok (new_trajectory ev d r)"
  by (simp add: trajectory_ok_def records_ok_def new_trajectory_def)

lemma rollback_records: "records_ok tr \<Longrightarrow> records_ok (rollback_to_checkpoint tr index)"
  by (simp add: records_ok_def rollback_to_checkpoint_def Let_def list_all2_takeI)

lemma rollback_ok:
  assumes "trajectory_ok mt tr" "-1 \<le> index" "index < int (num_assistant tr)"
  shows "trajectory_ok mt (rollback_to_checkpoint tr index)"
    "num_assistant (rollback_to_checkpoint tr index) = nat (index + 1)"
    "trajectory_token_ids (rollback_to_checkpoint tr index) = take (nat (index + 1)) (trajectory_token_ids tr)"
    "messages (rollback_to_checkpoint tr index) =
      (if int (num_assistant tr) = index + 1 then messages tr
       else if 0 \<le> index then take (generated_checkpoint_message_ends tr ! nat index) (messages tr) else [])"
proof -
  let ?n = "nat (index + 1)"
  have n: "?n \<le> num_assistant tr" using assms(3) by simp
  have full: "?n = num_assistant tr" if "int (num_assistant tr) = index + 1" using that by simp
  note ok = assms(1) [unfolded trajectory_ok_def]
  show "num_assistant (rollback_to_checkpoint tr index) = ?n"
    using n ok full by (auto simp: rollback_to_checkpoint_def Let_def min_absorb2)
  show "trajectory_token_ids (rollback_to_checkpoint tr index) = take ?n (trajectory_token_ids tr)"
    using ok full by (auto simp: rollback_to_checkpoint_def Let_def)
  show "messages (rollback_to_checkpoint tr index) =
      (if int (num_assistant tr) = index + 1 then messages tr
       else if 0 \<le> index then take (generated_checkpoint_message_ends tr ! nat index) (messages tr) else [])"
    by (simp add: rollback_to_checkpoint_def Let_def)
  show "trajectory_ok mt (rollback_to_checkpoint tr index)"
  proof (cases "int (num_assistant tr) = index + 1")
    case True
    with assms(1) show ?thesis by (simp add: rollback_to_checkpoint_def)
  next
    case False
    have pos: "0 < generated_checkpoint_message_ends tr ! nat index" "messages tr \<noteq> []" if "0 \<le> index"
      using ok assms(3) that by auto
    let ?tr = "rollback_to_checkpoint tr index"
    have fields: "trajectory_token_ids ?tr = take ?n (trajectory_token_ids tr)"
      "generated_checkpoint_message_ends ?tr = take ?n (generated_checkpoint_message_ends tr)"
      "turn_args_history ?tr = take ?n (turn_args_history tr)" "num_assistant ?tr = ?n"
      "messages ?tr = (if 0 \<le> index then take (generated_checkpoint_message_ends tr ! nat index) (messages tr) else [])"
      using False n ok by (simp_all add: rollback_to_checkpoint_def Let_def min_absorb2)
    have "(?n = 0) = (messages ?tr = [])" using pos assms(2) by (simp add: fields)
    moreover have "\<forall>e\<in>set (take ?n (generated_checkpoint_message_ends tr)). 0 < e"
      using ok by (blast dest: in_set_takeD)
    moreover have "keeps_prefix mt (take ?n (trajectory_token_ids tr) ! i) (take ?n (trajectory_token_ids tr) ! Suc i)"
      if "Suc i < ?n" for i
      using that n ok by simp
    ultimately show ?thesis
      unfolding trajectory_ok_def fields using n ok by (simp add: min_absorb2)
  qed
qed

lemma last_checkpoint_within_bounds:
  "-1 \<le> last_checkpoint_within ends m" "last_checkpoint_within ends m < int (length ends)"
  "0 \<le> last_checkpoint_within ends m \<Longrightarrow> ends ! nat (last_checkpoint_within ends m) \<le> m"
proof -
  let ?f = "filter (\<lambda>i. ends ! i \<le> m) (rev [0..<length ends])"
  have "-1 \<le> last_checkpoint_within ends m \<and> last_checkpoint_within ends m < int (length ends)
    \<and> (0 \<le> last_checkpoint_within ends m \<longrightarrow> ends ! nat (last_checkpoint_within ends m) \<le> m)"
  proof (cases ?f)
    case Nil
    then show ?thesis by (simp add: last_checkpoint_within_def)
  next
    case (Cons i rest)
    then have "i \<in> set ?f" by simp
    then have "i < length ends \<and> ends ! i \<le> m" by simp
    moreover have "last_checkpoint_within ends m = int i"
      unfolding last_checkpoint_within_def Cons by simp
    ultimately show ?thesis by simp
  qed
  then show "-1 \<le> last_checkpoint_within ends m" "last_checkpoint_within ends m < int (length ends)"
    "0 \<le> last_checkpoint_within ends m \<Longrightarrow> ends ! nat (last_checkpoint_within ends m) \<le> m" by blast+
qed

lemma find_rollback_cases:
  assumes "find_rollback_checkpoint tr req matcher = Inr index"
  obtains "messages tr = [] \<or> trajectory_token_ids tr = []" "index = -1"
    | "length (messages tr) \<le> match_prefix matcher (messages tr) req" "index = int (num_assistant tr) - 1"
    | "match_prefix matcher (messages tr) req < length (messages tr)"
      "index = last_checkpoint_within (generated_checkpoint_message_ends tr) (match_prefix matcher (messages tr) req)"
      "int (num_assistant tr) \<le> index + 2"
proof (cases "messages tr = [] \<or> trajectory_token_ids tr = []")
  case True
  with assms have "index = -1" by (auto simp: find_rollback_checkpoint_def)
  with True that(1) show ?thesis by blast
next
  case False
  show ?thesis
  proof (cases "length (messages tr) \<le> match_prefix matcher (messages tr) req")
    case True
    with False assms have "index = int (num_assistant tr) - 1"
      by (simp add: find_rollback_checkpoint_def Let_def)
    with True that(2) show ?thesis by blast
  next
    case more: False
    let ?i = "last_checkpoint_within (generated_checkpoint_message_ends tr) (match_prefix matcher (messages tr) req)"
    from False more assms have "\<not> 1 < int (num_assistant tr) - (?i + 1)" "index = ?i"
      by (auto simp: find_rollback_checkpoint_def Let_def MAX_ASSISTANT_ROLLBACK_STEPS_def split: if_splits)
    with more that(3) show ?thesis by simp
  qed
qed

lemma find_rollback_bounds:
  assumes "find_rollback_checkpoint tr req matcher = Inr index" "trajectory_ok mt tr"
  shows "-1 \<le> index \<and> index < int (num_assistant tr) \<and> int (num_assistant tr) \<le> index + 2"
proof -
  have len: "length (generated_checkpoint_message_ends tr) = num_assistant tr"
    using assms(2) by (simp add: trajectory_ok_def)
  have none: "num_assistant tr = 0" if "messages tr = [] \<or> trajectory_token_ids tr = []"
    using that assms(2) by (auto simp: trajectory_ok_def)
  from assms(1) show ?thesis
  proof (cases rule: find_rollback_cases)
    case 1
    with none show ?thesis by simp
  next
    case 2
    then show ?thesis by simp
  next
    case 3
    with last_checkpoint_within_bounds(1,2) len show ?thesis by metis
  qed
qed

lemma prepare_Inr:
  assumes "prepare_token_ids_and_request_args config t matcher tr args = Inr (tr', req, prepared, ids)"
  obtains index targs where "messages_of args = Inr req" "find_rollback_checkpoint tr req matcher = Inr index"
    "render_token_ids tr req index targs t matcher = Inr ids" "tr' = rollback_to_checkpoint tr index"
  using assms by (auto simp: prepare_token_ids_and_request_args_def rbind_Inr_iff)

lemma begin_chat_Inr:
  assumes "begin_chat cfg s rid args = Inr s'"
  obtains tr req prepared ids request_body start where
    "\<not> removed s" "\<not> closing (traj s)"
    "prepare_token_ids_and_request_args (server_config cfg) (tokenizer cfg) (message_matcher cfg) (traj s) args
      = Inr (tr, req, prepared, ids)"
    "s' = s\<lparr> traj := tr, inflight := dset (inflight s) rid
       \<lparr> pend_messages = req, pend_body = request_body, pend_prompt = ids, pend_start_len = start,
         expected_num_assistant = num_assistant tr \<rparr> \<rparr>"
  using assms by (auto simp: begin_chat_def rbind_Inr_iff split: if_splits)

lemma rollback_closing [simp]: "closing (rollback_to_checkpoint tr index) = closing tr"
  by (simp add: rollback_to_checkpoint_def Let_def)

lemma prepare_inv:
  assumes "core_inv cfg s"
    "prepare_token_ids_and_request_args (server_config cfg) (tokenizer cfg) (message_matcher cfg) (traj s) args
      = Inr (tr, req, prepared, ids)"
  shows "core_inv cfg (s\<lparr>traj := tr\<rparr>) \<and> closing tr = closing (traj s)"
proof -
  let ?mt = "max_trim_tokens (family (tokenizer cfg))"
  from assms(2) obtain index where index: "find_rollback_checkpoint (traj s) req (message_matcher cfg) = Inr index"
    "tr = rollback_to_checkpoint (traj s) index" by (rule prepare_Inr)
  have ok: "trajectory_ok ?mt (traj s)" "records_ok (traj s)" using assms(1) by (simp_all add: core_inv_def)
  from find_rollback_bounds [OF index(1) ok(1)] rollback_ok(1) [OF ok(1)] rollback_records [OF ok(2)] assms(1) index(2)
  show ?thesis by (simp add: core_inv_def)
qed

lemma begin_inv:
  assumes "core_inv cfg s" "begin_chat cfg s rid args = Inr s'"
  shows "core_inv cfg s' \<and> closing (traj s') = closing (traj s)"
proof -
  from assms(2) obtain tr req prepared ids request_body start where
    1: "prepare_token_ids_and_request_args (server_config cfg) (tokenizer cfg) (message_matcher cfg) (traj s) args
      = Inr (tr, req, prepared, ids)" and s': "traj s' = tr" "removed s' = removed s"
    by (rule begin_chat_Inr) auto
  from prepare_inv [OF assms(1) 1] s' show ?thesis by (auto simp: core_inv_def)
qed

lemma begin_failed_inv:
  assumes "core_inv cfg s"
  shows "core_inv cfg (begin_failed cfg s args) \<and> closing (traj (begin_failed cfg s args)) = closing (traj s)"
proof (cases "prepare_token_ids_and_request_args (server_config cfg) (tokenizer cfg) (message_matcher cfg) (traj s) args")
  case (Inr x)
  obtain tr req prepared ids where x: "x = (tr, req, prepared, ids)" by (cases x) auto
  with assms Inr prepare_inv [OF assms, of args tr req prepared ids] show ?thesis by (simp add: begin_failed_def)
qed (simp add: begin_failed_def assms)

lemma update_ok:
  assumes "update_pretokenized_state tr req a ps cs mt targs = Inr tr'" "trajectory_ok mt tr"
  shows "trajectory_ok mt tr'" "trajectory_token_ids tr' = trajectory_token_ids tr @ [ps @ cs]"
    "records tr' = records tr" "closing tr' = closing tr" "num_assistant tr' = Suc (num_assistant tr)"
    "messages tr' = messages tr @ drop (length (messages tr)) req @ [a]"
    "generated_checkpoint_message_ends tr' = generated_checkpoint_message_ends tr @ [length req + 1]"
proof -
  note ok = assms(2) [unfolded trajectory_ok_def]
  from assms(1) have keep: "keeps_prefix mt (token_ids tr) (ps @ cs)"
    and tr': "tr' = tr\<lparr> messages := messages tr @ drop (length (messages tr)) req @ [a],
          trajectory_token_ids := trajectory_token_ids tr @ [ps @ cs],
          turn_args_history := turn_args_history tr @ [targs],
          generated_checkpoint_message_ends := generated_checkpoint_message_ends tr @ [length req + 1],
          num_assistant := length (generated_checkpoint_message_ends tr @ [length req + 1]) \<rparr>"
    by (auto simp: update_pretokenized_state_def Let_def rbind_Inr_iff assert_prefix_Inr)
  show "trajectory_token_ids tr' = trajectory_token_ids tr @ [ps @ cs]" "records tr' = records tr"
    "closing tr' = closing tr" "num_assistant tr' = Suc (num_assistant tr)"
    "messages tr' = messages tr @ drop (length (messages tr)) req @ [a]"
    "generated_checkpoint_message_ends tr' = generated_checkpoint_message_ends tr @ [length req + 1]"
    using ok by (simp_all add: tr')
  have "keeps_prefix mt ((trajectory_token_ids tr @ [ps @ cs]) ! i) ((trajectory_token_ids tr @ [ps @ cs]) ! Suc i)"
    if "i < num_assistant tr" for i
  proof (cases "Suc i = num_assistant tr")
    case True
    with ok have "trajectory_token_ids tr ! i = token_ids tr"
      by (metis (no_types) diff_Suc_1 last_conv_nth length_0_conv nat.simps(3) token_ids_def)
    with keep True ok show ?thesis by (simp add: nth_append)
  next
    case False
    with that ok show ?thesis by (simp add: nth_append)
  qed
  with ok show "trajectory_ok mt tr'" by (auto simp: trajectory_ok_def tr')
qed

lemma extract_Inr:
  "extract_completion c = Inr (a, ids) \<Longrightarrow> \<exists>ls. output_token_logprobs c = Some ls \<and> ids = map snd ls \<and> a = choice_message c"
  by (auto simp: extract_completion_def split: option.splits if_splits)

lemma commit_cases:
  assumes "commit_chat cfg s p r = Inr s'"
  obtains "s' = s" | a ids tr where "extract_completion (upstream_choice r) = Inr (a, ids)"
    "\<not> closing (traj s)" "num_assistant (traj s) = expected_num_assistant p"
    "update_pretokenized_state (traj s)
       (preserve_server_message_state (tokenizer cfg) (messages (traj s)) (pend_messages p))
       a (pend_prompt p) ids (max_trim_tokens (family (tokenizer cfg))) (pend_body p) = Inr tr"
    "s' = s\<lparr> traj := tr\<lparr> records := records tr @
       [\<lparr> rec_request = pend_body p, rec_input_ids = pend_prompt p, rec_start_len = pend_start_len p,
          rec_choice = upstream_choice r, rec_response_id = upstream_id r \<rparr>] \<rparr> \<rparr>"
proof (cases "status_code r \<noteq> 200")
  case True
  with assms that(1) show ?thesis by (simp add: commit_chat_def)
next
  case False
  with assms obtain a ids where x: "extract_completion (upstream_choice r) = Inr (a, ids)"
    by (auto simp: commit_chat_def split: sum.splits)
  show ?thesis
  proof (cases "closing (traj s) \<or> num_assistant (traj s) \<noteq> expected_num_assistant p")
    case True
    with assms False x that(1) show ?thesis by (auto simp: commit_chat_def split: if_splits)
  next
    case open_: False
    with assms False x that(2) show ?thesis by (auto simp: commit_chat_def rbind_Inr_iff)
  qed
qed

lemma commit_inv:
  assumes "core_inv cfg s" "commit_chat cfg s p r = Inr s'"
  shows "core_inv cfg s' \<and> closing (traj s') = closing (traj s)"
  using assms(2)
proof (cases rule: commit_cases)
  case 1
  with assms(1) show ?thesis by simp
next
  case (2 a ids tr)
  let ?mt = "max_trim_tokens (family (tokenizer cfg))"
  have ok: "trajectory_ok ?mt (traj s)" "records_ok (traj s)" using assms(1) by (simp_all add: core_inv_def)
  note upd = update_ok [OF 2(4) ok(1)]
  from extract_Inr [OF 2(1)] obtain ls where ls: "output_token_logprobs (upstream_choice r) = Some ls" "ids = map snd ls"
    by blast
  have "list_all2 (\<lambda>r ids. rec_input_ids r @ completion_of r = ids)
      (records (traj s) @ [\<lparr> rec_request = pend_body p, rec_input_ids = pend_prompt p, rec_start_len = pend_start_len p,
          rec_choice = upstream_choice r, rec_response_id = upstream_id r \<rparr>])
      (trajectory_token_ids (traj s) @ [pend_prompt p @ ids])"
    using ok(2) ls by (auto simp: records_ok_def completion_of_def intro: list_all2_appendI)
  with upd ok 2(5) assms(1) show ?thesis by (simp add: core_inv_def records_ok_def trajectory_ok_def)
qed

lemma core_inv_inflight [simp]: "core_inv cfg (s\<lparr>inflight := d\<rparr>) = core_inv cfg s"
  by (simp add: core_inv_def)

lemma core_step_inv: "core_inv cfg s \<Longrightarrow> core_inv cfg (core_step cfg s e) \<and> (closing (traj s) \<longrightarrow> closing (traj (core_step cfg s e)))"
proof (cases e)
  case (Begin rid args)
  assume "core_inv cfg s"
  with Begin begin_inv [of cfg s rid args] begin_failed_inv [of cfg s args] show ?thesis
    by (cases "begin_chat cfg s rid args") (simp_all add: core_step_def)
next
  case (Finish rid r)
  assume "core_inv cfg s"
  with Finish commit_inv [of cfg "s\<lparr>inflight := ddel (inflight s) rid\<rparr>"] show ?thesis
    by (auto simp: core_step_def finish_chat_def split: sum.splits option.splits)
next
  case Delete
  assume "core_inv cfg s"
  with Delete show ?thesis
    by (auto simp: core_step_def delete_session_def core_inv_def trajectory_ok_def records_ok_def)
next
  case Drop
  assume "core_inv cfg s"
  with Drop show ?thesis by (auto simp: core_step_def drop_session_def core_inv_def)
qed

interpretation linear: monotone_machine "core_step cfg" "core_inv cfg" "\<lambda>s. closing (traj s)" for cfg
  by unfold_locales (use core_step_inv in \<open>auto simp: le_bool_def\<close>)

text \<open>
  C32: under any interleaving of requests, answers and deletion, the checkpoints, the
  recorded arguments, the records and the assistant count stay aligned, every checkpoint
  keeps its predecessor's tokens up to the family's trim, and every record's prompt and
  completion are the tokens of its checkpoint.
\<close>

theorem linear_session_invariant:
  "core_inv cfg (foldl (core_step cfg) (new_core_session ev defaults replay) events)"
  by (rule linear.inv_run)
    (simp add: core_inv_def new_core_session_def new_trajectory_ok)

section \<open>A turn that nothing disturbs\<close>

text \<open>The last checkpoint ends the stored history, and the checkpoints are in order.\<close>

definition positions_ok :: "linear_trajectory \<Rightarrow> bool" where
  "positions_ok tr \<longleftrightarrow> sorted (generated_checkpoint_message_ends tr)
     \<and> (num_assistant tr = 0 \<or> last (generated_checkpoint_message_ends tr) = length (messages tr))"

lemma positions_le:
  assumes "positions_ok tr" "trajectory_ok mt tr" "i < num_assistant tr"
  shows "generated_checkpoint_message_ends tr ! i \<le> length (messages tr)"
proof -
  let ?e = "generated_checkpoint_message_ends tr"
  have len: "length ?e = num_assistant tr" using assms(2) by (simp add: trajectory_ok_def)
  then have "?e \<noteq> []" using assms(3) by auto
  have "?e ! i \<le> ?e ! (length ?e - 1)"
    using assms(1,3) len by (intro sorted_nth_mono) (auto simp: positions_ok_def)
  also have "\<dots> = last ?e" using \<open>?e \<noteq> []\<close> by (simp add: last_conv_nth)
  finally show ?thesis using assms(1,3) by (auto simp: positions_ok_def)
qed

lemma rollback_positions:
  assumes "trajectory_ok mt tr" "positions_ok tr" "find_rollback_checkpoint tr req matcher = Inr index"
  shows "positions_ok (rollback_to_checkpoint tr index)"
    "match_prefix matcher (messages (rollback_to_checkpoint tr index)) req
      = length (messages (rollback_to_checkpoint tr index))"
    "messages (rollback_to_checkpoint tr index)
      = take (length (messages (rollback_to_checkpoint tr index))) (messages tr)"
proof -
  let ?tr = "rollback_to_checkpoint tr index" and ?e = "generated_checkpoint_message_ends tr"
  let ?m = "match_prefix matcher (messages tr) req"
  have b: "-1 \<le> index" "index < int (num_assistant tr)" "int (num_assistant tr) \<le> index + 2"
    using find_rollback_bounds [OF assms(3,1)] by simp_all
  have len: "length ?e = num_assistant tr" using assms(1) by (simp add: trajectory_ok_def)
  have "positions_ok ?tr \<and> match_prefix matcher (messages ?tr) req = length (messages ?tr)
     \<and> messages ?tr = take (length (messages ?tr)) (messages tr)"
  proof (cases "int (num_assistant tr) = index + 1")
    case True
    then have same: "?tr = tr" by (simp add: rollback_to_checkpoint_def)
    have "length (messages tr) \<le> ?m"
      using assms(3)
    proof (cases rule: find_rollback_cases)
      case 1
      with True assms(1) show ?thesis by (simp add: trajectory_ok_def)
    next
      case 3
      have "index \<noteq> -1"
        using True assms(1) 3(1) by (auto simp: trajectory_ok_def)
      with b(1) have pos: "0 \<le> index" by simp
      with last_checkpoint_within_bounds(3) [of ?e ?m] 3(2) have "?e ! nat index \<le> ?m" by simp
      moreover have "?e ! nat index = last ?e"
        using True pos len by (metis add.commute add_diff_cancel_left' last_conv_nth length_0_conv nat_int nat_less_iff
            b(2) int_nat_eq not_less_zero of_nat_0_less_iff of_nat_1 of_nat_add nat_diff_distrib zero_le_one)
      moreover have "num_assistant tr \<noteq> 0" using pos b(2) by simp
      ultimately show ?thesis using assms(2) 3(1) by (simp add: positions_ok_def)
    qed simp
    with match_prefix_bounds(1) [of matcher "messages tr" req] show ?thesis
      using same assms(2) by (metis le_antisym order_refl take_all)
  next
    case False
    have ends: "generated_checkpoint_message_ends ?tr = take (nat (index + 1)) ?e"
      using False by (simp add: rollback_to_checkpoint_def Let_def)
    have srt: "sorted (take (nat (index + 1)) ?e)" using assms(2) by (simp add: positions_ok_def sorted_wrt_take)
    show ?thesis
    proof (cases "0 \<le> index")
      case True
      have msgs: "messages ?tr = take (?e ! nat index) (messages tr)"
        using False True rollback_ok(4) [OF assms(1) b(1,2)] by simp
      have le: "?e ! nat index \<le> length (messages tr)"
        using positions_le [OF assms(2,1)] b(2) True by simp
      have "?e ! nat index \<le> ?m"
        using assms(3)
      proof (cases rule: find_rollback_cases)
        case 3
        with last_checkpoint_within_bounds(3) True show ?thesis by metis
      qed (use True False in auto)
      then have match: "match_prefix matcher (take (?e ! nat index) (messages tr)) req = ?e ! nat index"
        by (rule match_prefix_take)
      have "nat index < length ?e" using b(2) True len by simp
      then have "last (take (nat (index + 1)) ?e) = ?e ! nat index"
        using True by (simp add: last_conv_nth nat_add_distrib take_Suc_conv_app_nth)
      then show ?thesis
        using msgs le match ends srt by (simp add: positions_ok_def min_absorb2)
    next
      case neg: False
      with b(1) have "index = -1" by simp
      then have "messages ?tr = []" "num_assistant ?tr = 0"
        using False rollback_ok(2,4) [OF assms(1) b(1,2)] by simp_all
      then show ?thesis using ends srt by (simp add: positions_ok_def)
    qed
  qed
  then show "positions_ok ?tr" "match_prefix matcher (messages ?tr) req = length (messages ?tr)"
    "messages ?tr = take (length (messages ?tr)) (messages tr)" by blast+
qed

lemma render_keeps:
  assumes "trajectory_ok mt tr" "find_rollback_checkpoint tr req matcher = Inr index"
    "render_token_ids tr req index targs t matcher = Inr ids" "mt = max_trim_tokens (family t)"
  shows "keeps_prefix mt (token_ids (rollback_to_checkpoint tr index)) (ids @ cs)"
proof -
  have b: "-1 \<le> index" "index < int (num_assistant tr)"
    using find_rollback_bounds [OF assms(2,1)] by simp_all
  have "trajectory_token_ids (rollback_to_checkpoint tr index) = take (nat (index + 1)) (trajectory_token_ids tr)"
    using rollback_ok(3) [OF assms(1) b] .
  moreover have "nat index < length (trajectory_token_ids tr)" if "0 \<le> index"
    using that b(2) assms(1) by (simp add: trajectory_ok_def)
  ultimately have tip: "token_ids (rollback_to_checkpoint tr index) = checkpoint_token_ids tr index"
    using b(1) by (auto simp: token_ids_def checkpoint_token_ids_def last_conv_nth nat_add_distrib take_Suc_conv_app_nth)
  show ?thesis
  proof (cases "checkpoint_token_ids tr index = []")
    case True
    with tip show ?thesis by (simp add: keeps_prefix_def)
  next
    case False
    with assms(3) obtain old new where "merge_tokens t old new (checkpoint_token_ids tr index) targs = Inr ids"
      by (auto simp: render_token_ids_def rbind_Inr_iff Let_def)
    from merge_tokens_Inr [OF this] obtain inc where "ids = boundary_prefix t (checkpoint_token_ids tr index) @ inc"
      by blast
    with boundary_prefix_keeps [of "checkpoint_token_ids tr index" t "inc @ cs"] tip assms(4) show ?thesis
      by (simp add: keeps_prefix_def)
  qed
qed

text \<open>
  Preparing a request discards at most one generated checkpoint, and what it keeps is
  the part of the history that the request really repeats: every kept message matches the
  request's message at the same place, and the stored spelling is the one kept.
\<close>

theorem prepare_rolls_back_one_step:
  assumes "trajectory_ok mt tr" "positions_ok tr"
    "prepare_token_ids_and_request_args config t matcher tr args = Inr (tr', req, prepared, ids)"
  shows "num_assistant tr' \<le> num_assistant tr \<and> num_assistant tr \<le> num_assistant tr' + 1
    \<and> messages tr' = take (length (messages tr')) (messages tr)
    \<and> length (messages tr') \<le> length req
    \<and> list_all (\<lambda>i. matcher (messages tr' ! i) (req ! i)) [0..<length (messages tr')]"
proof -
  from assms(3) obtain index where index: "find_rollback_checkpoint tr req matcher = Inr index"
    "tr' = rollback_to_checkpoint tr index" by (rule prepare_Inr)
  have b: "-1 \<le> index" "index < int (num_assistant tr)" "int (num_assistant tr) \<le> index + 2"
    using find_rollback_bounds [OF index(1) assms(1)] by simp_all
  have "num_assistant tr' = nat (index + 1)" using rollback_ok(2) [OF assms(1) b(1,2)] index(2) by simp
  moreover note pos = rollback_positions [OF assms(1,2) index(1)]
  moreover have "match_prefix matcher (messages tr') req \<le> length req" by (rule match_prefix_bounds(2))
  moreover have "list_all (\<lambda>i. matcher (messages tr' ! i) (req ! i)) [0..<length (messages tr')]"
    using match_prefix_nth [of _ matcher "messages tr'" req] pos(2) index(2) by (simp add: list_all_iff)
  ultimately show ?thesis using b index(2) by auto
qed

lemma length_preserve: "length (preserve_server_message_state t stored req) = length req"
  by (simp add: preserve_server_message_state_def)

text \<open>
  C33: a turn that nothing disturbs commits: after a request was prepared, a valid answer
  appends exactly one checkpoint with the prompt's and the completion's tokens and one
  record, the token check cannot fail, and the positions stay in order.
\<close>

theorem undisturbed_turn_commits:
  assumes "core_inv cfg s" "positions_ok (traj s)" "begin_chat cfg s rid args = Inr s1"
    "dget (inflight s1) rid = Some p" "status_code r = 200"
    "extract_completion (upstream_choice r) = Inr (a, ids)"
  shows "\<exists>s2. finish_chat cfg s1 rid r = Inr s2 \<and> positions_ok (traj s2)
    \<and> trajectory_token_ids (traj s2) = trajectory_token_ids (traj s1) @ [pend_prompt p @ ids]
    \<and> length (records (traj s2)) = length (records (traj s1)) + 1
    \<and> last (messages (traj s2)) = a"
proof -
  let ?mt = "max_trim_tokens (family (tokenizer cfg))"
  have ok: "trajectory_ok ?mt (traj s)" using assms(1) by (simp add: core_inv_def)
  from assms(3) obtain tr req prepared prompt request_body start where open_: "\<not> closing (traj s)"
    and prep: "prepare_token_ids_and_request_args (server_config cfg) (tokenizer cfg) (message_matcher cfg) (traj s) args
      = Inr (tr, req, prepared, prompt)"
    and s1: "s1 = s\<lparr> traj := tr, inflight := dset (inflight s) rid
       \<lparr> pend_messages = req, pend_body = request_body, pend_prompt = prompt, pend_start_len = start,
         expected_num_assistant = num_assistant tr \<rparr> \<rparr>"
    by (rule begin_chat_Inr)
  from prep obtain index targs where index: "find_rollback_checkpoint (traj s) req (message_matcher cfg) = Inr index"
    "render_token_ids (traj s) req index targs (tokenizer cfg) (message_matcher cfg) = Inr prompt"
    "tr = rollback_to_checkpoint (traj s) index" by (rule prepare_Inr)
  have p: "pend_messages p = req" "pend_prompt p = prompt" "expected_num_assistant p = num_assistant tr"
    using assms(4) s1 by auto
  have traj1: "traj s1 = tr" using s1 by simp
  have okr: "trajectory_ok ?mt tr" using begin_inv [OF assms(1,3)] traj1 by (simp add: core_inv_def)
  note pos = rollback_positions [OF ok assms(2) index(1), folded index(3)]
  have keep: "keeps_prefix ?mt (token_ids tr) (prompt @ ids)"
    using render_keeps [OF ok index(1,2) refl] index(3) by simp
  let ?req = "preserve_server_message_state (tokenizer cfg) (messages tr) req"
  have len: "length (messages tr) \<le> length ?req"
    using match_prefix_bounds(2) [of "message_matcher cfg" "messages tr" req] pos(2) by (simp add: length_preserve)
  obtain tr2 where upd: "update_pretokenized_state tr ?req a prompt ids ?mt (pend_body p) = Inr tr2"
    using keep assert_prefix_Inr [of "token_ids tr" "prompt @ ids" ?mt "()"]
    by (simp add: update_pretokenized_state_def Let_def)
  note u = update_ok [OF upd okr]
  have "\<not> closing tr" using open_ index(3) by simp
  then have "finish_chat cfg s1 rid r = Inr (s1\<lparr> inflight := ddel (inflight s1) rid,
      traj := tr2\<lparr> records := records tr2 @
        [\<lparr> rec_request = pend_body p, rec_input_ids = pend_prompt p, rec_start_len = pend_start_len p,
           rec_choice = upstream_choice r, rec_response_id = upstream_id r \<rparr>] \<rparr> \<rparr>)"
    using assms(4-6) upd p traj1 by (simp add: finish_chat_def commit_chat_def)
  moreover have "positions_ok (tr2\<lparr>records := rs\<rparr>)" for rs
  proof -
    have "\<forall>e\<in>set (generated_checkpoint_message_ends tr). e \<le> length (messages tr)"
      using positions_le [OF pos(1) okr] okr by (auto simp: in_set_conv_nth trajectory_ok_def)
    then have "sorted (generated_checkpoint_message_ends tr @ [length ?req + 1])"
      using pos(1) len by (fastforce simp: positions_ok_def sorted_append)
    then show ?thesis using u(5-7) len by (simp add: positions_ok_def)
  qed
  ultimately show ?thesis using u p traj1 by simp
qed

text \<open>
  A verbatim replay continues the session: when the request repeats the stored
  messages and adds to them, nothing is rolled back and the new prompt starts with the
  stored tokens, up to the family's trim.
\<close>

theorem verbatim_replay_continues:
  assumes "trajectory_ok (max_trim_tokens (family t)) tr" "list_all message_ok (messages tr)"
    "prepare_token_ids_and_request_args config t strict_message_matches tr args = Inr (tr', messages tr @ new, prepared, ids)"
  shows "tr' = tr \<and> keeps_prefix (max_trim_tokens (family t)) (token_ids tr) ids"
proof -
  let ?req = "messages tr @ new"
  from assms(3) obtain index targs where index: "find_rollback_checkpoint tr ?req strict_message_matches = Inr index"
    "render_token_ids tr ?req index targs t strict_message_matches = Inr ids"
    "tr' = rollback_to_checkpoint tr index" by (rule prepare_Inr)
  have full: "match_prefix strict_message_matches (messages tr) ?req = length (messages tr)"
    by (rule strict.replay_prefix [OF assms(2)])
  have "int (num_assistant tr) = index + 1"
    using index(1)
  proof (cases rule: find_rollback_cases)
    case 1
    with assms(1) show ?thesis by (auto simp: trajectory_ok_def)
  qed (use full in simp_all)
  then have "tr' = tr" using index(3) by (simp add: rollback_to_checkpoint_def)
  moreover have "keeps_prefix (max_trim_tokens (family t)) (token_ids tr) ids"
    using render_keeps [OF assms(1) index(1,2) refl, of "[]"] index(3) \<open>tr' = tr\<close> by simp
  ultimately show ?thesis by simp
qed

section \<open>A concrete session\<close>

definition example_core :: core_config where
  "example_core = \<lparr> server_config = example_session_config, tokenizer = example_tito,
     message_matcher = strict_message_matches, use_addition_r3 = False \<rparr>"

definition user_says :: "string \<Rightarrow> message" where
  "user_says c = [(''role'', JStr ''user''), (''content'', JStr c)]"

definition assistant_says :: "string \<Rightarrow> message" where
  "assistant_says c = [(''role'', JStr ''assistant''), (''content'', JStr c)]"

definition chat_request :: "message list \<Rightarrow> message" where
  "chat_request ms = [(''messages'', JList (map JObj ms))]"

definition answer :: "string \<Rightarrow> nat list \<Rightarrow> upstream_result" where
  "answer c ids = \<lparr> status_code = 200,
     upstream_choice = \<lparr> finish_reason = Some ''stop'', choice_message = assistant_says c,
       output_token_logprobs = Some (map (\<lambda>i. (0, i)) ids), completion_tokens = int (length ids),
       routed_experts = None \<rparr>, upstream_id = c \<rparr>"

definition example_start :: core_session where
  "example_start = new_core_session False [] False"

definition run_core :: "core_event list \<Rightarrow> core_session" where
  "run_core = foldl (core_step example_core) example_start"

text \<open>
  The count check does not detect every stale request.  While a request that builds on
  the first answer is being generated, a retry of the first turn replaces that answer and
  brings the count back to what the request expects; its commit then passes the check and
  fails in the token comparison instead of being skipped.
\<close>

theorem stale_request_passes_the_count_check:
  "(let s = run_core [Begin 0 (chat_request [user_says ''u'']), Finish 0 (answer ''a'' [7, 8]),
             Begin 1 (chat_request [user_says ''u'', assistant_says ''a'', user_says ''v'']),
             Begin 2 (chat_request [user_says ''u'']), Finish 2 (answer ''b'' [9, 9])] in
     map_option expected_num_assistant (dget (inflight s) 1) = Some (num_assistant (traj s))
     \<and> finish_chat example_core s 1 (answer ''c'' [5]) = Inl TokenizationError)"
  by code_simp

lemma example_begin:
  "\<exists>s1. begin_chat example_core example_start 0 (chat_request [user_says ''u'']) = Inr s1
     \<and> map_option pend_prompt (dget (inflight s1) 0) = Some [117, 103]"
proof -
  let ?x = "begin_chat example_core example_start 0 (chat_request [user_says ''u''])"
  have "\<not> isl ?x \<and> map_option pend_prompt (dget (inflight (projr ?x)) 0) = Some [117, 103]" by code_simp
  then show ?thesis by (metis sum.collapse(2))
qed

theorem undisturbed_turn_commits_witness:
  "\<exists>s1 s2. begin_chat example_core example_start 0 (chat_request [user_says ''u'']) = Inr s1
     \<and> finish_chat example_core s1 0 (answer ''a'' [7, 8]) = Inr s2
     \<and> trajectory_token_ids (traj s2) = trajectory_token_ids (traj s1) @ [[117, 103, 7, 8]]"
proof -
  obtain s1 where s1: "begin_chat example_core example_start 0 (chat_request [user_says ''u'']) = Inr s1"
    "map_option pend_prompt (dget (inflight s1) 0) = Some [117, 103]" using example_begin by blast
  then obtain p where p: "dget (inflight s1) 0 = Some p" "pend_prompt p = [117, 103]" by auto
  have inv: "core_inv example_core example_start"
    by (simp add: example_start_def core_inv_def new_core_session_def new_trajectory_ok)
  have pos: "positions_ok (traj example_start)"
    by (simp add: example_start_def positions_ok_def new_core_session_def new_trajectory_def)
  have x: "extract_completion (upstream_choice (answer ''a'' [7, 8])) = Inr (assistant_says ''a'', [7, 8])" by code_simp
  have st: "status_code (answer ''a'' [7, 8]) = 200" by (simp add: answer_def)
  from undisturbed_turn_commits [OF inv pos s1(1) p(1) st x] p(2) s1(1) show ?thesis by auto
qed

text \<open>The session after one committed turn.\<close>

definition example_tip :: linear_trajectory where
  "example_tip = traj (run_core [Begin 0 (chat_request [user_says ''u'']), Finish 0 (answer ''a'' [7, 8])])"

lemma example_tip_ok: "trajectory_ok 1 example_tip" "positions_ok example_tip"
  "messages example_tip = [user_says ''u'', assistant_says ''a'']" "num_assistant example_tip = 1"
proof -
  have "max_trim_tokens (family (tokenizer example_core)) = 1" by code_simp
  moreover have "core_inv example_core (run_core [Begin 0 (chat_request [user_says ''u'']), Finish 0 (answer ''a'' [7, 8])])"
    unfolding run_core_def
    by (rule linear.inv_run) (simp add: example_start_def core_inv_def new_core_session_def new_trajectory_ok)
  ultimately show "trajectory_ok 1 example_tip" by (simp add: core_inv_def example_tip_def)
  have "generated_checkpoint_message_ends example_tip = [2]" "num_assistant example_tip = 1"
    "messages example_tip = [user_says ''u'', assistant_says ''a'']" by code_simp+
  then show "positions_ok example_tip" "messages example_tip = [user_says ''u'', assistant_says ''a'']"
    "num_assistant example_tip = 1" by (simp_all add: positions_ok_def)
qed

definition example_retry :: "(linear_trajectory \<times> message list \<times> prepared_request \<times> nat list) res" where
  "example_retry = prepare_token_ids_and_request_args example_session_config example_tito strict_message_matches
     example_tip (chat_request [user_says ''w''])"

theorem prepare_rolls_back_one_step_witness:
  "\<exists>tr' req prepared ids. example_retry = Inr (tr', req, prepared, ids)
     \<and> num_assistant example_tip \<le> num_assistant tr' + 1
     \<and> list_all (\<lambda>i. strict_message_matches (messages tr' ! i) (req ! i)) [0..<length (messages tr')]"
proof -
  have "\<not> isl example_retry" by code_simp
  then obtain tr' req prepared ids where r: "example_retry = Inr (tr', req, prepared, ids)"
    by (metis sum.collapse(2) prod_cases4)
  from prepare_rolls_back_one_step [OF example_tip_ok(1,2) r [unfolded example_retry_def]] r show ?thesis by blast
qed

definition example_replay :: "(linear_trajectory \<times> message list \<times> prepared_request \<times> nat list) res" where
  "example_replay = prepare_token_ids_and_request_args example_session_config example_tito strict_message_matches
     example_tip (chat_request [user_says ''u'', assistant_says ''a'', user_says ''v''])"

theorem verbatim_replay_continues_witness:
  "\<exists>tr' req prepared ids. example_replay = Inr (tr', req, prepared, ids)
     \<and> tr' = example_tip \<and> keeps_prefix 1 (token_ids example_tip) ids"
proof -
  have x: "\<not> isl example_replay \<and> fst (snd (projr example_replay)) = [user_says ''u'', assistant_says ''a'', user_says ''v'']"
    by code_simp
  then obtain tr' prepared ids where
    r: "example_replay = Inr (tr', [user_says ''u'', assistant_says ''a'', user_says ''v''], prepared, ids)"
    by (metis sum.collapse(2) prod.collapse)
  have mt: "max_trim_tokens (family example_tito) = 1" by code_simp
  have ok: "list_all message_ok (messages example_tip)" unfolding example_tip_ok(3) by code_simp
  from verbatim_replay_continues [of example_tito example_tip example_session_config _ tr' "[user_says ''v'']" prepared ids]
  show ?thesis using r example_tip_ok(1,3) ok mt by (auto simp: example_replay_def)
qed

end
