(* ===== verification/TreeSession.thy ===== *)
theory TreeSession
  imports LinearSession
begin

text \<open>
  The session as a forest (\<open>rollout/session/v2/tree_trajectory.py\<close>, \<open>session_state.py\<close> and
  the chat handler of \<open>v2/core.py\<close>): nodes are appended and never changed, a request
  attaches at the deepest node whose whole path it repeats, and a generation becomes a new
  child of the node its request attached to.  Object references are positions in the list
  of nodes, which is what \<open>seq\<close> is.
\<close>

section \<open>The forest\<close>

record trajectory_node =
  delta_messages :: "message list"
  node_token_ids :: "nat list"
  completion_span :: "nat \<times> nat"
  seq :: nat
  response_id :: string
  node_record :: session_record
  node_finish_reason :: string
  node_turn_args :: message
  parent :: "nat option"
  children :: "nat list"

record session_tree =
  roots :: "nat list"
  nodes :: "trajectory_node list"

definition MAX_NODES :: nat where
  "MAX_NODES = 1024"

definition truncated :: "trajectory_node \<Rightarrow> bool" where
  "truncated n \<longleftrightarrow> node_finish_reason n = ''length''"

text \<open>The walk from a node to its root; the fuel is the number of nodes.\<close>

fun walk_up :: "nat \<Rightarrow> session_tree \<Rightarrow> nat option \<Rightarrow> nat list" where
  "walk_up 0 t i = []"
| "walk_up (Suc n) t None = []"
| "walk_up (Suc n) t (Some i) = i # walk_up n t (parent (nodes t ! i))"

definition path_nodes :: "session_tree \<Rightarrow> nat \<Rightarrow> nat list" where
  "path_nodes t i = rev (walk_up (length (nodes t)) t (Some i))"

definition path_messages :: "session_tree \<Rightarrow> nat \<Rightarrow> message list" where
  "path_messages t i = concat (map (\<lambda>j. delta_messages (nodes t ! j)) (path_nodes t i))"

definition leaves :: "session_tree \<Rightarrow> nat list" where
  "leaves t = filter (\<lambda>i. children (nodes t ! i) = []) [0..<length (nodes t)]"

definition create_node ::
  "session_tree \<Rightarrow> nat option \<Rightarrow> message list \<Rightarrow> nat list \<Rightarrow> nat \<times> nat \<Rightarrow> string \<Rightarrow> session_record
   \<Rightarrow> string \<Rightarrow> message \<Rightarrow> session_tree res" where
  "create_node t p delta ids cspan rid rec finish targs =
     (if MAX_NODES \<le> length (nodes t) then Inl ValueError
      else let node = \<lparr> delta_messages = delta, node_token_ids = ids, completion_span = cspan,
             seq = length (nodes t), response_id = rid, node_record = rec, node_finish_reason = finish,
             node_turn_args = targs, parent = p, children = [] \<rparr> in
        Inr (case p of
          None \<Rightarrow> t\<lparr> roots := roots t @ [length (nodes t)], nodes := nodes t @ [node] \<rparr>
        | Some i \<Rightarrow> t\<lparr> nodes := (nodes t)[i := (nodes t ! i)\<lparr>
              children := children (nodes t ! i) @ [length (nodes t)] \<rparr>] @ [node] \<rparr>))"

section \<open>Finding the attach point\<close>

record attach_point =
  attach_node :: "nat option"
  matched_messages :: nat
  best_overlap :: nat

definition better_match :: "(nat \<times> nat) option \<Rightarrow> nat \<Rightarrow> nat \<Rightarrow> (nat \<times> nat) option" where
  "better_match best i matched = (case best of
       None \<Rightarrow> Some (i, matched)
     | Some (b, bm) \<Rightarrow> if bm < matched \<or> matched = bm \<and> b < i then Some (i, matched) else best)"

text \<open>The depth-first search: the stack holds nodes with the messages their parents consumed.\<close>

partial_function (option) attach_loop ::
  "session_tree \<Rightarrow> message list \<Rightarrow> (message \<Rightarrow> message \<Rightarrow> bool) \<Rightarrow> (nat \<times> nat) list
   \<Rightarrow> (nat \<times> nat) option \<Rightarrow> nat \<Rightarrow> ((nat \<times> nat) option \<times> nat) option" where
  "attach_loop t request matcher stack best overlap = (case stack of
       [] \<Rightarrow> Some (best, overlap)
     | (i, offset) # rest \<Rightarrow>
         let delta = delta_messages (nodes t ! i);
             k = match_prefix matcher delta (drop offset request);
             overlap' = max overlap (offset + k) in
         if k < length delta then attach_loop t request matcher rest best overlap'
         else let matched = offset + length delta in
           attach_loop t request matcher (map (\<lambda>c. (c, matched)) (children (nodes t ! i)) @ rest)
             (better_match best (seq (nodes t ! i)) matched) overlap')"

declare attach_loop.simps [code]

definition find_attach_point ::
  "session_tree \<Rightarrow> message list \<Rightarrow> (message \<Rightarrow> message \<Rightarrow> bool) \<Rightarrow> attach_point option" where
  "find_attach_point t request matcher =
     map_option (\<lambda>(best, overlap). case best of
         None \<Rightarrow> \<lparr> attach_node = None, matched_messages = 0, best_overlap = overlap \<rparr>
       | Some (b, m) \<Rightarrow> \<lparr> attach_node = Some b, matched_messages = m, best_overlap = overlap \<rparr>)
     (attach_loop t request matcher (map (\<lambda>r. (r, 0)) (roots t)) None 0)"

section \<open>Serving\<close>

record session_state =
  tree_closing :: bool
  tree :: session_tree
  tree_evaluation :: bool
  tree_sampling_defaults :: message
  tree_sampling_support_replay :: bool

definition latest :: "session_state \<Rightarrow> nat option" where
  "latest s = (if nodes (tree s) = [] then None else Some (length (nodes (tree s)) - 1))"

text \<open>A search that does not end would be no answer at all; the invariant excludes it.\<close>

definition attach_point_for_request ::
  "session_state \<Rightarrow> message list \<Rightarrow> (message \<Rightarrow> message \<Rightarrow> bool) \<Rightarrow> attach_point res option" where
  "attach_point_for_request s request matcher =
     map_option (\<lambda>a. case attach_node a of
         Some i \<Rightarrow> if truncated (nodes (tree s) ! i) then Inl TruncatedGenerationError else Inr a
       | None \<Rightarrow> Inr a)
     (find_attach_point (tree s) request matcher)"

definition validate_suffix_roles :: "message list \<Rightarrow> tito \<Rightarrow> unit res" where
  "validate_suffix_roles suffix t =
     (if list_all (role_allowed (allowed_append_roles (FIXED_TEMPLATE (family t)))) suffix
      then Inr () else Inl MessageValidationError)"

definition tree_render_token_ids ::
  "session_tree \<Rightarrow> nat option \<Rightarrow> message list \<Rightarrow> message \<Rightarrow> tito \<Rightarrow> nat list res" where
  "tree_render_token_ids tr p request targs t = (case p of
       None \<Rightarrow> Inr (render_ids t request True targs)
     | Some i \<Rightarrow> let stored = path_messages tr i in
         rbind (validate_suffix_roles (drop (length stored) request) t) (\<lambda>_.
           merge_tokens t stored (stored @ drop (length stored) request) (node_token_ids (nodes tr ! i)) targs))"

definition tree_prepare ::
  "session_config \<Rightarrow> tito \<Rightarrow> (message \<Rightarrow> message \<Rightarrow> bool) \<Rightarrow> session_state \<Rightarrow> message
   \<Rightarrow> (message list \<times> prepared_request \<times> nat list \<times> nat option) res option" where
  "tree_prepare config t matcher s client_args = (case messages_of client_args of
       Inl e \<Rightarrow> Some (Inl e)
     | Inr request \<Rightarrow> map_option (\<lambda>r.
         rbind r (\<lambda>a.
         let p = attach_node a in
         rbind (prepare_chat_request t config client_args
                  (map_option (\<lambda>i. node_turn_args (nodes (tree s) ! i)) p)
                  (tree_evaluation s) (tree_sampling_defaults s) (tree_sampling_support_replay s)) (\<lambda>prepared.
         rbind (tree_render_token_ids (tree s) p request (template_args prepared) t) (\<lambda>ids.
           Inr (request, prepared\<lparr>body := dset (body prepared) ''input_ids'' (ids_json ids)\<rparr>, ids, p)))))
         (attach_point_for_request s request matcher))"

definition commit_generation ::
  "session_state \<Rightarrow> nat option \<Rightarrow> message list \<Rightarrow> message \<Rightarrow> nat list \<Rightarrow> nat list \<Rightarrow> nat
   \<Rightarrow> session_record \<Rightarrow> string \<Rightarrow> string \<Rightarrow> message \<Rightarrow> session_state res" where
  "commit_generation s p request assistant prompt_ids completion_ids max_trim rec rid finish targs =
     (let all_ids = prompt_ids @ completion_ids;
          parent_ids = (case p of None \<Rightarrow> [] | Some i \<Rightarrow> node_token_ids (nodes (tree s) ! i));
          parent_msgs = (case p of None \<Rightarrow> [] | Some i \<Rightarrow> path_messages (tree s) i) in
      rbind (assert_pretokenized_prefix parent_ids all_ids max_trim) (\<lambda>_.
      rbind (create_node (tree s) p (drop (length parent_msgs) request @ [assistant]) all_ids
               (length prompt_ids, length all_ids) rid rec finish targs) (\<lambda>tr.
        Inr (s\<lparr>tree := tr\<rparr>))))"

section \<open>The handler\<close>

record tree_pending =
  tp_messages :: "message list"
  tp_body :: message
  tp_prompt :: "nat list"
  tp_start_len :: "nat option"
  tp_parent :: "nat option"

record tree_session =
  state :: session_state
  tree_inflight :: "(nat, tree_pending) dict"
  tree_removed :: bool

definition tree_begin :: "core_config \<Rightarrow> tree_session \<Rightarrow> nat \<Rightarrow> message \<Rightarrow> tree_session res option" where
  "tree_begin cfg s rid client_args =
     (if tree_removed s \<or> tree_closing (state s) then Some (Inl SessionNotFoundError)
      else map_option (\<lambda>r. rbind r (\<lambda>(request, prepared, ids, p).
          rbind (maybe_request_addition_r3 (use_addition_r3 cfg) (body prepared)
                   (case p of None \<Rightarrow> [] | Some i \<Rightarrow> node_token_ids (nodes (tree (state s)) ! i)) ids)
            (\<lambda>(request_body, start_len).
            Inr (s\<lparr> tree_inflight := dset (tree_inflight s) rid
              \<lparr> tp_messages = request, tp_body = request_body, tp_prompt = ids,
                tp_start_len = start_len, tp_parent = p \<rparr> \<rparr>))))
        (tree_prepare (server_config cfg) (tokenizer cfg) (message_matcher cfg) (state s) client_args))"

definition tree_commit :: "core_config \<Rightarrow> tree_session \<Rightarrow> tree_pending \<Rightarrow> upstream_result \<Rightarrow> tree_session res" where
  "tree_commit cfg s p r =
     (if status_code r \<noteq> 200 then Inr s
      else (case extract_completion (upstream_choice r) of
          Inl _ \<Rightarrow> Inl RuntimeError
        | Inr (assistant, completion_ids) \<Rightarrow>
            if tree_closing (state s) then Inr s
            else rbind (commit_generation (state s) (tp_parent p) (tp_messages p) assistant (tp_prompt p)
                   completion_ids (max_trim_tokens (family (tokenizer cfg)))
                   \<lparr> rec_request = tp_body p, rec_input_ids = tp_prompt p, rec_start_len = tp_start_len p,
                     rec_choice = upstream_choice r, rec_response_id = upstream_id r \<rparr>
                   (upstream_id r)
                   (case finish_reason (upstream_choice r) of None \<Rightarrow> [] | Some f \<Rightarrow> f) (tp_body p))
                 (\<lambda>st. Inr (s\<lparr>state := st\<rparr>))))"

definition tree_finish :: "core_config \<Rightarrow> tree_session \<Rightarrow> nat \<Rightarrow> upstream_result \<Rightarrow> tree_session res" where
  "tree_finish cfg s rid r = (case dget (tree_inflight s) rid of
       None \<Rightarrow> Inl KeyError
     | Some p \<Rightarrow> tree_commit cfg (s\<lparr>tree_inflight := ddel (tree_inflight s) rid\<rparr>) p r)"

definition tree_step :: "core_config \<Rightarrow> tree_session \<Rightarrow> core_event \<Rightarrow> tree_session" where
  "tree_step cfg s e = (case e of
       Begin rid args \<Rightarrow> (case tree_begin cfg s rid args of Some (Inr s') \<Rightarrow> s' | _ \<Rightarrow> s)
     | Finish rid r \<Rightarrow> (case tree_finish cfg s rid r of
           Inl _ \<Rightarrow> s\<lparr>tree_inflight := ddel (tree_inflight s) rid\<rparr> | Inr s' \<Rightarrow> s')
     | Delete \<Rightarrow> (if tree_removed s \<or> tree_closing (state s) then s
                  else s\<lparr>state := (state s)\<lparr>tree_closing := True\<rparr>\<rparr>)
     | Drop \<Rightarrow> (if tree_closing (state s) then s\<lparr>tree_removed := True\<rparr> else s))"

definition new_tree_session :: "bool \<Rightarrow> message \<Rightarrow> bool \<Rightarrow> tree_session" where
  "new_tree_session ev defaults replay =
     \<lparr> state = \<lparr> tree_closing = False, tree = \<lparr> roots = [], nodes = [] \<rparr>, tree_evaluation = ev,
         tree_sampling_defaults = defaults, tree_sampling_support_replay = replay \<rparr>,
       tree_inflight = [], tree_removed = False \<rparr>"

section \<open>The forest invariant\<close>

definition forest_ok :: "session_tree \<Rightarrow> bool" where
  "forest_ok t \<longleftrightarrow>
     (\<forall>i<length (nodes t). seq (nodes t ! i) = i
        \<and> (\<forall>p. parent (nodes t ! i) = Some p \<longrightarrow> p < i)
        \<and> children (nodes t ! i) = filter (\<lambda>j. parent (nodes t ! j) = Some i) [0..<length (nodes t)])
     \<and> roots t = filter (\<lambda>j. parent (nodes t ! j) = None) [0..<length (nodes t)]
     \<and> length (nodes t) \<le> MAX_NODES"

lemma forest_parent: "forest_ok t \<Longrightarrow> i < length (nodes t) \<Longrightarrow> parent (nodes t ! i) = Some p \<Longrightarrow> p < i"
  by (simp add: forest_ok_def)

text \<open>Enough fuel: the walk from \<open>i\<close> takes at most \<open>i + 1\<close> steps.\<close>

lemma walk_up_fuel:
  assumes "forest_ok t" "i < length (nodes t)" "i < n" "i < m"
  shows "walk_up n t (Some i) = walk_up m t (Some i)"
  using assms
proof (induction i arbitrary: n m rule: less_induct)
  case (less i)
  obtain n' m' where nm: "n = Suc n'" "m = Suc m'" using less.prems(3,4) by (cases n; cases m) auto
  show ?case
  proof (cases "parent (nodes t ! i)")
    case None
    then show ?thesis by (cases n'; cases m') (simp_all add: nm)
  next
    case (Some p)
    have "p < i" using forest_parent [OF less.prems(1,2) Some] .
    then have "walk_up n' t (Some p) = walk_up m' t (Some p)"
      using less.prems nm by (intro less.IH) auto
    with nm Some show ?thesis by simp
  qed
qed

lemma walk_up_None [simp]: "walk_up n t None = []"
  by (cases n) auto

lemma path_nodes_unfold:
  assumes "forest_ok t" "i < length (nodes t)"
  shows "path_nodes t i = (case parent (nodes t ! i) of None \<Rightarrow> [i] | Some p \<Rightarrow> path_nodes t p @ [i])"
proof -
  obtain n where n: "length (nodes t) = Suc n" using assms(2) by (cases "length (nodes t)") auto
  show ?thesis
  proof (cases "parent (nodes t ! i)")
    case None
    then show ?thesis by (simp add: path_nodes_def n)
  next
    case (Some p)
    have "p < i" using forest_parent [OF assms Some] .
    then have "walk_up n t (Some p) = walk_up (Suc n) t (Some p)"
      using assms n by (intro walk_up_fuel) auto
    with Some show ?thesis by (simp add: path_nodes_def n)
  qed
qed

lemma path_messages_unfold:
  assumes "forest_ok t" "i < length (nodes t)"
  shows "path_messages t i = (case parent (nodes t ! i) of None \<Rightarrow> [] | Some p \<Rightarrow> path_messages t p)
    @ delta_messages (nodes t ! i)"
  by (simp add: path_messages_def path_nodes_unfold [OF assms] split: option.splits)

lemma path_nodes_facts_all:
  assumes "forest_ok t"
  shows "i < length (nodes t) \<Longrightarrow> i \<in> set (path_nodes t i) \<and> (\<forall>j\<in>set (path_nodes t i). j \<le> i)
    \<and> sorted (path_nodes t i) \<and> distinct (path_nodes t i)
    \<and> parent (nodes t ! hd (path_nodes t i)) = None \<and> path_nodes t i \<noteq> []"
proof (induction i rule: less_induct)
  case (less i)
  note un = path_nodes_unfold [OF assms less.prems]
  show ?case
  proof (cases "parent (nodes t ! i)")
    case None
    with un show ?thesis by simp
  next
    case (Some p)
    have p: "p < i" using forest_parent [OF assms less.prems Some] .
    then have IH: "(\<forall>j\<in>set (path_nodes t p). j \<le> p) \<and> sorted (path_nodes t p) \<and> distinct (path_nodes t p)
      \<and> parent (nodes t ! hd (path_nodes t p)) = None \<and> path_nodes t p \<noteq> []"
      using less.IH [OF p] less.prems by simp
    then have "\<forall>j\<in>set (path_nodes t p). j < i" using p by auto
    with IH un Some show ?thesis by (auto simp: sorted_append)
  qed
qed

lemma path_nodes_facts:
  assumes "forest_ok t" "i < length (nodes t)"
  shows "i \<in> set (path_nodes t i)" "\<forall>j\<in>set (path_nodes t i). j \<le> i" "sorted (path_nodes t i)"
    "distinct (path_nodes t i)" "parent (nodes t ! hd (path_nodes t i)) = None" "path_nodes t i \<noteq> []"
  using path_nodes_facts_all [OF assms] by auto

section \<open>The search is a total and exact search\<close>

definition node_fits :: "(message \<Rightarrow> message \<Rightarrow> bool) \<Rightarrow> session_tree \<Rightarrow> message list \<Rightarrow> nat \<Rightarrow> bool" where
  "node_fits matcher t request i \<longleftrightarrow>
     match_prefix matcher (path_messages t i) request = length (path_messages t i)"

definition descendants :: "session_tree \<Rightarrow> nat \<Rightarrow> nat set" where
  "descendants t i = {j. j < length (nodes t) \<and> i \<in> set (path_nodes t j)}"

lemma match_prefix_append:
  "match_prefix matcher (xs @ ys) zs =
     (if match_prefix matcher xs zs = length xs then length xs + match_prefix matcher ys (drop (length xs) zs)
      else match_prefix matcher xs zs)"
proof (induction xs arbitrary: zs)
  case (Cons x xs)
  then show ?case by (cases zs) auto
qed simp

definition offset_of :: "session_tree \<Rightarrow> nat \<Rightarrow> nat" where
  "offset_of t i = (case parent (nodes t ! i) of None \<Rightarrow> 0 | Some p \<Rightarrow> length (path_messages t p))"

definition parent_fits :: "(message \<Rightarrow> message \<Rightarrow> bool) \<Rightarrow> session_tree \<Rightarrow> message list \<Rightarrow> nat \<Rightarrow> bool" where
  "parent_fits matcher t request i \<longleftrightarrow>
     (case parent (nodes t ! i) of None \<Rightarrow> True | Some p \<Rightarrow> node_fits matcher t request p)"

lemma node_fits_iff:
  assumes "forest_ok t" "i < length (nodes t)"
  shows "node_fits matcher t request i \<longleftrightarrow> parent_fits matcher t request i \<and>
    match_prefix matcher (delta_messages (nodes t ! i)) (drop (offset_of t i) request)
      = length (delta_messages (nodes t ! i))"
    and "length (path_messages t i) = offset_of t i + length (delta_messages (nodes t ! i))"
proof -
  note un = path_messages_unfold [OF assms]
  show "length (path_messages t i) = offset_of t i + length (delta_messages (nodes t ! i))"
    by (simp add: un offset_of_def split: option.splits)
  have le: "match_prefix matcher xs zs = length xs + length ys \<Longrightarrow> ys = []" for xs ys zs
    using match_prefix_bounds(1) [of matcher xs zs] by simp
  show "node_fits matcher t request i \<longleftrightarrow> parent_fits matcher t request i \<and>
    match_prefix matcher (delta_messages (nodes t ! i)) (drop (offset_of t i) request)
      = length (delta_messages (nodes t ! i))"
    using le [of "path_messages t _" request "delta_messages (nodes t ! i)"]
    by (auto simp: node_fits_def parent_fits_def offset_of_def un match_prefix_append split: option.splits)
qed

lemma fits_ancestor:
  assumes "forest_ok t"
  shows "j < length (nodes t) \<Longrightarrow> node_fits matcher t request j \<Longrightarrow> i \<in> set (path_nodes t j) \<Longrightarrow> node_fits matcher t request i"
proof (induction j rule: less_induct)
  case (less j)
  show ?case
  proof (cases "parent (nodes t ! j)")
    case None
    with less.prems path_nodes_unfold [OF assms less.prems(1)] show ?thesis by simp
  next
    case (Some p)
    have "p < j" using forest_parent [OF assms less.prems(1) Some] .
    moreover have "node_fits matcher t request p"
      using node_fits_iff(1) [OF assms less.prems(1)] less.prems(2) Some by (simp add: parent_fits_def)
    ultimately show ?thesis
      using less path_nodes_unfold [OF assms less.prems(1)] Some by auto
  qed
qed

lemma descendants_unfold:
  assumes "forest_ok t" "i < length (nodes t)"
  shows "descendants t i = insert i (\<Union>c\<in>set (children (nodes t ! i)). descendants t c)"
proof
  have ch: "set (children (nodes t ! i)) = {c. c < length (nodes t) \<and> parent (nodes t ! c) = Some i}"
    using assms by (auto simp: forest_ok_def)
  show "insert i (\<Union>c\<in>set (children (nodes t ! i)). descendants t c) \<subseteq> descendants t i"
  proof -
    have "i \<in> set (path_nodes t j)" if "c \<in> set (path_nodes t j)" "j < length (nodes t)" "parent (nodes t ! c) = Some i" for c j
      using that
    proof (induction j rule: less_induct)
      case (less j)
      note un = path_nodes_unfold [OF assms(1) less.prems(2)]
      show ?case
      proof (cases "c = j")
        case True
        with un less.prems(3) path_nodes_facts(1) [OF assms] show ?thesis by simp
      next
        case False
        then obtain p where p: "parent (nodes t ! j) = Some p" "c \<in> set (path_nodes t p)"
          using un less.prems(1) by (cases "parent (nodes t ! j)") auto
        have "p < j" using forest_parent [OF assms(1) less.prems(2) p(1)] .
        with less.IH [OF this p(2)] less.prems un p(1) show ?thesis by simp
      qed
    qed
    then show ?thesis using assms(2) path_nodes_facts(1) [OF assms] ch by (auto simp: descendants_def)
  qed
  show "descendants t i \<subseteq> insert i (\<Union>c\<in>set (children (nodes t ! i)). descendants t c)"
  proof
    fix j assume "j \<in> descendants t i"
    then have "j < length (nodes t)" "i \<in> set (path_nodes t j)" by (auto simp: descendants_def)
    then have "j = i \<or> (\<exists>c\<in>set (children (nodes t ! i)). c \<in> set (path_nodes t j))"
    proof (induction j rule: less_induct)
      case (less j)
      note un = path_nodes_unfold [OF assms(1) less.prems(1)]
      show ?case
      proof (cases "i = j")
        case False
        then obtain p where p: "parent (nodes t ! j) = Some p" "i \<in> set (path_nodes t p)"
          using un less.prems(2) by (cases "parent (nodes t ! j)") auto
        have "p < j" using forest_parent [OF assms(1) less.prems(1) p(1)] .
        with less.IH [OF this _ p(2)] less.prems(1) have "p = i \<or> (\<exists>c\<in>set (children (nodes t ! i)). c \<in> set (path_nodes t p))"
          by simp
        with un p(1) ch less.prems(1) path_nodes_facts(1) [OF assms(1) less.prems(1)] show ?thesis by auto
      qed simp
    qed
    with \<open>j < length (nodes t)\<close> show "j \<in> insert i (\<Union>c\<in>set (children (nodes t ! i)). descendants t c)"
      by (auto simp: descendants_def)
  qed
qed

text \<open>What the search keeps: the maximum, in the order of matched length and then \<open>seq\<close>.\<close>

definition best_of :: "(nat \<times> nat) option \<Rightarrow> (nat \<times> nat) set \<Rightarrow> bool" where
  "best_of best C \<longleftrightarrow> (case best of
       None \<Rightarrow> C = {}
     | Some b \<Rightarrow> b \<in> C \<and> (\<forall>c\<in>C. snd c < snd b \<or> snd c = snd b \<and> fst c \<le> fst b))"

lemma better_match_best: "best_of best C \<Longrightarrow> best_of (better_match best i m) (insert (i, m) C)"
  by (fastforce simp: best_of_def better_match_def split: option.splits prod.splits)

definition fit_candidates ::
  "(message \<Rightarrow> message \<Rightarrow> bool) \<Rightarrow> session_tree \<Rightarrow> message list \<Rightarrow> nat set \<Rightarrow> (nat \<times> nat) set" where
  "fit_candidates matcher t request S =
     (\<lambda>i. (i, length (path_messages t i))) ` {i \<in> S. node_fits matcher t request i}"

definition search_stack :: "(message \<Rightarrow> message \<Rightarrow> bool) \<Rightarrow> session_tree \<Rightarrow> message list \<Rightarrow> (nat \<times> nat) list \<Rightarrow> bool" where
  "search_stack matcher t request stack \<longleftrightarrow>
     (\<forall>(i, offset)\<in>set stack. i < length (nodes t) \<and> offset = offset_of t i \<and> parent_fits matcher t request i)"

definition search_set :: "session_tree \<Rightarrow> (nat \<times> nat) list \<Rightarrow> nat set" where
  "search_set t stack = (\<Union>(i, offset)\<in>set stack. descendants t i)"

text \<open>Termination: a node weighs more than all nodes created after it together.\<close>

definition search_weight :: "session_tree \<Rightarrow> (nat \<times> nat) list \<Rightarrow> nat" where
  "search_weight t stack = sum_list (map (\<lambda>(i, offset). 2 ^ (length (nodes t) - i)) stack)"

lemma sum_powers_after: "i < N \<Longrightarrow> (\<Sum>j\<in>{i<..<N}. 2 ^ (N - j)) < (2::nat) ^ (N - i)"
proof (induction "N - i" arbitrary: i)
  case (Suc n)
  show ?case
  proof (cases "Suc i = N")
    case True
    then have "{i<..<N} = {}" by auto
    then show ?thesis by simp
  next
    case False
    with Suc.prems have lt: "Suc i < N" by simp
    have split: "{i<..<N} = insert (Suc i) {Suc i<..<N}" using lt by auto
    have "N - i = Suc (N - Suc i)" using lt by simp
    moreover have "(\<Sum>j\<in>{Suc i<..<N}. 2 ^ (N - j)) < (2::nat) ^ (N - Suc i)"
      using Suc.hyps(1) [of "Suc i"] Suc.hyps(2) lt by simp
    ultimately show ?thesis by (simp add: split)
  qed
qed simp

lemma children_weight:
  assumes "forest_ok t" "i < length (nodes t)"
  shows "search_weight t (map (\<lambda>c. (c, m)) (children (nodes t ! i))) < 2 ^ (length (nodes t) - i)"
proof -
  let ?N = "length (nodes t)"
  have ch: "children (nodes t ! i) = filter (\<lambda>j. parent (nodes t ! j) = Some i) [0..<?N]"
    using assms by (simp add: forest_ok_def)
  then have d: "distinct (children (nodes t ! i))" by simp
  have sub: "set (children (nodes t ! i)) \<subseteq> {i<..<?N}"
    using ch forest_parent [OF assms(1)] by auto
  have "search_weight t (map (\<lambda>c. (c, m)) (children (nodes t ! i)))
      = sum_list (map (\<lambda>c. 2 ^ (?N - c)) (children (nodes t ! i)))"
    by (simp add: search_weight_def comp_def)
  also have "\<dots> = (\<Sum>c\<in>set (children (nodes t ! i)). 2 ^ (?N - c))"
    by (rule sum_list_distinct_conv_sum_set [OF d])
  also have "\<dots> \<le> (\<Sum>c\<in>{i<..<?N}. 2 ^ (?N - c))"
    by (rule sum_mono2) (use sub in auto)
  also have "\<dots> < 2 ^ (?N - i)" by (rule sum_powers_after [OF assms(2)])
  finally show ?thesis .
qed

lemma search_weight_simps [simp]:
  "search_weight t [] = 0"
  "search_weight t ((i, m) # st) = 2 ^ (length (nodes t) - i) + search_weight t st"
  "search_weight t (xs @ ys) = search_weight t xs + search_weight t ys"
  by (simp_all add: search_weight_def)

lemma children_facts:
  assumes "forest_ok t" "i < length (nodes t)" "c \<in> set (children (nodes t ! i))"
  shows "c < length (nodes t)" "parent (nodes t ! c) = Some i" "offset_of t c = length (path_messages t i)"
    "parent_fits matcher t request c \<longleftrightarrow> node_fits matcher t request i"
proof -
  show c: "c < length (nodes t)" "parent (nodes t ! c) = Some i"
    using assms by (simp_all add: forest_ok_def)
  then show "offset_of t c = length (path_messages t i)"
    "parent_fits matcher t request c \<longleftrightarrow> node_fits matcher t request i"
    by (simp_all add: offset_of_def parent_fits_def)
qed

lemma search_stack_children:
  assumes "forest_ok t" "i < length (nodes t)" "node_fits matcher t request i"
    and "search_stack matcher t request rest"
  shows "search_stack matcher t request
    (map (\<lambda>c. (c, length (path_messages t i))) (children (nodes t ! i)) @ rest)"
  using assms(4) children_facts [OF assms(1,2)] assms(3) by (auto simp: search_stack_def)

lemma search_set_simps [simp]:
  "search_set t [] = {}"
  "search_set t ((i, m) # st) = descendants t i \<union> search_set t st"
  "search_set t (map (\<lambda>c. (c, m)) cs @ st) = (\<Union>c\<in>set cs. descendants t c) \<union> search_set t st"
  by (auto simp: search_set_def)

lemma candidates_none:
  assumes "forest_ok t" "\<not> node_fits matcher t request i"
  shows "fit_candidates matcher t request (descendants t i \<union> S) = fit_candidates matcher t request S"
  using fits_ancestor [OF assms(1)] assms(2) by (fastforce simp: fit_candidates_def descendants_def)

lemma candidates_insert:
  assumes "node_fits matcher t request i"
  shows "fit_candidates matcher t request (insert i S)
    = insert (i, length (path_messages t i)) (fit_candidates matcher t request S)"
  using assms by (auto simp: fit_candidates_def)

lemma attach_loop_correct:
  assumes ok: "forest_ok t"
  shows "search_stack matcher t request stack \<Longrightarrow> best_of best C \<Longrightarrow>
    \<exists>best' overlap'. attach_loop t request matcher stack best overlap = Some (best', overlap')
      \<and> best_of best' (C \<union> fit_candidates matcher t request (search_set t stack))"
proof (induction stack arbitrary: best C overlap rule: measure_induct_rule [of "search_weight t"])
  case (less stack)
  show ?case
  proof (cases stack)
    case Nil
    with less.prems show ?thesis by (subst attach_loop.simps) (simp add: fit_candidates_def)
  next
    case (Cons x rest)
    obtain i offset where x: "x = (i, offset)" by fastforce
    have i: "i < length (nodes t)" "offset = offset_of t i" "parent_fits matcher t request i"
      and rest: "search_stack matcher t request rest"
      using less.prems(1) Cons x by (auto simp: search_stack_def)
    define k where "k = match_prefix matcher (delta_messages (nodes t ! i)) (drop offset request)"
    define m where "m = offset + length (delta_messages (nodes t ! i))"
    have fits: "node_fits matcher t request i \<longleftrightarrow> k = length (delta_messages (nodes t ! i))"
      using node_fits_iff(1) [OF ok i(1)] i by (simp add: k_def)
    have m: "m = length (path_messages t i)" using node_fits_iff(2) [OF ok i(1)] i by (simp add: m_def)
    have kle: "k \<le> length (delta_messages (nodes t ! i))" by (simp add: k_def match_prefix_bounds)
    show ?thesis
    proof (cases "k < length (delta_messages (nodes t ! i))")
      case True
      have run: "attach_loop t request matcher stack best overlap
        = attach_loop t request matcher rest best (max overlap (offset + k))"
        using True Cons x by (subst attach_loop.simps) (simp add: k_def Let_def)
      have "\<not> node_fits matcher t request i" using fits True by simp
      then have "fit_candidates matcher t request (search_set t stack)
        = fit_candidates matcher t request (search_set t rest)"
        using candidates_none [OF ok] Cons x by simp
      moreover have "search_weight t rest < search_weight t stack" using Cons x by simp
      ultimately show ?thesis using less.IH [of rest best C] rest less.prems(2) by (simp add: run)
    next
      case False
      let ?st = "map (\<lambda>c. (c, m)) (children (nodes t ! i)) @ rest"
      have f: "node_fits matcher t request i" using fits False kle by simp
      have seq: "seq (nodes t ! i) = i" using ok i by (simp add: forest_ok_def)
      have run: "attach_loop t request matcher stack best overlap
        = attach_loop t request matcher ?st (better_match best i m) (max overlap (offset + k))"
        using False Cons x seq by (subst attach_loop.simps) (simp add: k_def m_def Let_def)
      have w: "search_weight t ?st < search_weight t stack"
        using children_weight [OF ok i(1)] Cons x by simp
      have st: "search_stack matcher t request ?st"
        using search_stack_children [OF ok i(1) f rest] m by simp
      have set: "search_set t stack = insert i (search_set t ?st)"
        using Cons x descendants_unfold [OF ok i(1)] by auto
      have "C \<union> fit_candidates matcher t request (search_set t stack)
        = insert (i, m) C \<union> fit_candidates matcher t request (search_set t ?st)"
        unfolding set candidates_insert [OF f] m by blast
      then show ?thesis
        using less.IH [OF w st better_match_best [OF less.prems(2)], of i m] unfolding run by simp
    qed
  qed
qed

lemma all_descend_from_roots:
  assumes "forest_ok t"
  shows "search_set t (map (\<lambda>r. (r, 0)) (roots t)) = {i. i < length (nodes t)}"
proof -
  have "hd (path_nodes t i) \<in> set (roots t)" if "i < length (nodes t)" for i
  proof -
    note f = path_nodes_facts [OF assms that]
    have "hd (path_nodes t i) \<le> i" using f(2,6) by simp
    then show ?thesis using assms that f(5) by (simp add: forest_ok_def)
  qed
  moreover have "hd (path_nodes t i) \<in> set (path_nodes t i)" if "i < length (nodes t)" for i
    using path_nodes_facts(6) [OF assms that] by simp
  ultimately have "\<exists>r\<in>set (roots t). r \<in> set (path_nodes t i)" if "i < length (nodes t)" for i using that by blast
  then show ?thesis by (fastforce simp: search_set_def descendants_def)
qed

lemma find_attach_point_spec:
  assumes "forest_ok t"
  obtains best overlap where
    "find_attach_point t request matcher = Some \<lparr> attach_node = map_option fst best,
        matched_messages = (case best of None \<Rightarrow> 0 | Some (b, m) \<Rightarrow> m), best_overlap = overlap \<rparr>"
    "best_of best (fit_candidates matcher t request {i. i < length (nodes t)})"
proof -
  have "search_stack matcher t request (map (\<lambda>r. (r, 0)) (roots t))"
    using assms by (auto simp: search_stack_def forest_ok_def offset_of_def parent_fits_def)
  moreover have "best_of None {}" by (simp add: best_of_def)
  ultimately obtain best overlap where
    "attach_loop t request matcher (map (\<lambda>r. (r, 0)) (roots t)) None 0 = Some (best, overlap)"
    "best_of best (fit_candidates matcher t request {i. i < length (nodes t)})"
    using attach_loop_correct [OF assms, of matcher request _ None "{}" 0] all_descend_from_roots [OF assms] by fastforce
  then show ?thesis by (intro that [of best overlap]) (auto simp: find_attach_point_def split: option.splits)
qed

text \<open>The answer, read as the docstring puts it.\<close>

lemma find_attach_point_cases:
  assumes "forest_ok t"
  shows "\<exists>a. find_attach_point t request matcher = Some a \<and> (case attach_node a of
      None \<Rightarrow> matched_messages a = 0 \<and> (\<forall>i<length (nodes t). \<not> node_fits matcher t request i)
    | Some b \<Rightarrow> b < length (nodes t) \<and> node_fits matcher t request b
        \<and> matched_messages a = length (path_messages t b)
        \<and> (\<forall>i<length (nodes t). node_fits matcher t request i \<longrightarrow>
            length (path_messages t i) < length (path_messages t b)
            \<or> length (path_messages t i) = length (path_messages t b) \<and> i \<le> b))"
proof -
  obtain best overlap where b: "find_attach_point t request matcher = Some \<lparr> attach_node = map_option fst best,
        matched_messages = (case best of None \<Rightarrow> 0 | Some (b, m) \<Rightarrow> m), best_overlap = overlap \<rparr>"
    "best_of best (fit_candidates matcher t request {i. i < length (nodes t)})"
    by (rule find_attach_point_spec [OF assms])
  then show ?thesis by (cases best) (auto simp: best_of_def fit_candidates_def)
qed

section \<open>Appending a node\<close>

lemma create_node_Inr:
  assumes "create_node t p delta ids cspan rid rec finish targs = Inr t'"
    "forest_ok t" "\<And>i. p = Some i \<Longrightarrow> i < length (nodes t)"
  defines "N \<equiv> length (nodes t)"
  shows "N < MAX_NODES" "length (nodes t') = Suc N"
    "nodes t' ! N = \<lparr> delta_messages = delta, node_token_ids = ids, completion_span = cspan, seq = N,
       response_id = rid, node_record = rec, node_finish_reason = finish, node_turn_args = targs,
       parent = p, children = [] \<rparr>"
    "j < N \<Longrightarrow> nodes t' ! j = (nodes t ! j)\<lparr> children := children (nodes t ! j) @ (if p = Some j then [N] else []) \<rparr>"
    "roots t' = roots t @ (if p = None then [N] else [])"
  using assms(1,3) by (cases p; auto simp: create_node_def Let_def N_def nth_append nth_list_update split: if_splits)+

lemma create_node_forest:
  assumes "create_node t p delta ids cspan rid rec finish targs = Inr t'"
    "forest_ok t" "\<And>i. p = Some i \<Longrightarrow> i < length (nodes t)"
  shows "forest_ok t'"
proof -
  let ?N = "length (nodes t)"
  note c = create_node_Inr [OF assms]
  have par: "parent (nodes t' ! j) = (if j = ?N then p else parent (nodes t ! j))" if "j \<le> ?N" for j
    using that c(3) c(4) [of j] by (cases "j = ?N") auto
  have fil: "filter (\<lambda>j. parent (nodes t' ! j) = q) [0..<length (nodes t')]
    = filter (\<lambda>j. parent (nodes t ! j) = q) [0..<?N] @ (if p = q then [?N] else [])" for q
    using par by (auto simp: c(2) intro!: filter_cong)
  have old: "seq (nodes t ! i) = i" "parent (nodes t ! i) = Some q \<Longrightarrow> q < i"
    "children (nodes t ! i) = filter (\<lambda>j. parent (nodes t ! j) = Some i) [0..<?N]" if "i < ?N" for i q
    using assms(2) that by (auto simp: forest_ok_def)
  have none: "filter (\<lambda>j. parent (nodes t ! j) = Some ?N) [0..<?N] = []"
    using old(2) by (fastforce simp: filter_empty_conv)
  have "seq (nodes t' ! i) = i \<and> (\<forall>q. parent (nodes t' ! i) = Some q \<longrightarrow> q < i)
    \<and> children (nodes t' ! i) = filter (\<lambda>j. parent (nodes t' ! j) = Some i) [0..<length (nodes t')]"
    if "i < length (nodes t')" for i
  proof (cases "i = ?N")
    case True
    with c(3) assms(3) show ?thesis by (auto simp: fil none)
  next
    case False
    with that c(2) have "i < ?N" by simp
    with old [of i] c(4) [of i] show ?thesis by (auto simp: fil)
  qed
  moreover have "roots t' = filter (\<lambda>j. parent (nodes t' ! j) = None) [0..<length (nodes t')]"
    using assms(2) c(5) by (auto simp: fil forest_ok_def)
  ultimately show ?thesis using c(1,2) by (simp add: forest_ok_def)
qed

text \<open>All that a node keeps for good: everything but the list of its children.\<close>

definition history :: "session_tree \<Rightarrow> (nat \<times> trajectory_node) set" where
  "history t = (\<lambda>i. (i, (nodes t ! i)\<lparr>children := []\<rparr>)) ` {i. i < length (nodes t)}"

lemma history_node:
  assumes "history t \<subseteq> history t'" "i < length (nodes t)"
  shows "i < length (nodes t')" "(nodes t' ! i)\<lparr>children := []\<rparr> = (nodes t ! i)\<lparr>children := []\<rparr>"
  using assms by (auto simp: history_def)

lemma history_fields:
  assumes "history t \<subseteq> history t'" "i < length (nodes t)"
  shows "delta_messages (nodes t' ! i) = delta_messages (nodes t ! i)"
    "node_token_ids (nodes t' ! i) = node_token_ids (nodes t ! i)"
    "parent (nodes t' ! i) = parent (nodes t ! i)"
    "node_record (nodes t' ! i) = node_record (nodes t ! i)"
    "completion_span (nodes t' ! i) = completion_span (nodes t ! i)"
    "truncated (nodes t' ! i) = truncated (nodes t ! i)"
  using history_node(2) [OF assms] by (cases "nodes t ! i"; cases "nodes t' ! i"; simp add: truncated_def)+

lemma create_node_history:
  assumes "create_node t p delta ids cspan rid rec finish targs = Inr t'"
    "forest_ok t" "\<And>i. p = Some i \<Longrightarrow> i < length (nodes t)"
  shows "history t \<subseteq> history t'"
  using create_node_Inr(2,4) [OF assms] by (fastforce simp: history_def)

lemma path_nodes_stable:
  assumes "history t \<subseteq> history t'" "forest_ok t" "forest_ok t'"
  shows "i < length (nodes t) \<Longrightarrow> path_nodes t' i = path_nodes t i"
proof (induction i rule: less_induct)
  case (less i)
  note un = path_nodes_unfold [OF assms(2) less.prems]
    path_nodes_unfold [OF assms(3) history_node(1) [OF assms(1) less.prems]]
  show ?case
  proof (cases "parent (nodes t ! i)")
    case None
    then show ?thesis by (simp add: un history_fields [OF assms(1) less.prems])
  next
    case (Some p)
    have p: "p < i" using forest_parent [OF assms(2) less.prems Some] .
    then have "path_nodes t' p = path_nodes t p" using less.prems by (intro less.IH) auto
    with Some show ?thesis by (simp add: un history_fields [OF assms(1) less.prems])
  qed
qed

lemma path_messages_stable:
  assumes "history t \<subseteq> history t'" "forest_ok t" "forest_ok t'" "i < length (nodes t)"
  shows "path_messages t' i = path_messages t i"
proof -
  have "delta_messages (nodes t' ! j) = delta_messages (nodes t ! j)" if "j \<in> set (path_nodes t i)" for j
    using that path_nodes_facts(2) [OF assms(2,4)] assms(4) by (intro history_fields(1) [OF assms(1)]) auto
  then show ?thesis
    unfolding path_messages_def path_nodes_stable [OF assms] by (simp cong: map_cong)
qed

section \<open>The session's invariant\<close>

definition node_ok :: "nat \<Rightarrow> session_tree \<Rightarrow> nat \<Rightarrow> bool" where
  "node_ok mt t i \<longleftrightarrow> (let n = nodes t ! i; r = node_record n in
     node_token_ids n = rec_input_ids r @ completion_of r
     \<and> completion_span n = (length (rec_input_ids r), length (node_token_ids n))
     \<and> (case parent n of None \<Rightarrow> True
        | Some p \<Rightarrow> keeps_prefix mt (node_token_ids (nodes t ! p)) (node_token_ids n)
            \<and> \<not> truncated (nodes t ! p)))"

definition pending_ok :: "nat \<Rightarrow> (message \<Rightarrow> message \<Rightarrow> bool) \<Rightarrow> session_tree \<Rightarrow> tree_pending \<Rightarrow> bool" where
  "pending_ok mt matcher t p \<longleftrightarrow> (case tp_parent p of None \<Rightarrow> True
     | Some i \<Rightarrow> i < length (nodes t) \<and> \<not> truncated (nodes t ! i)
         \<and> (\<forall>cs. keeps_prefix mt (node_token_ids (nodes t ! i)) (tp_prompt p @ cs))
         \<and> node_fits matcher t (tp_messages p) i)"

definition tree_inv :: "core_config \<Rightarrow> tree_session \<Rightarrow> bool" where
  "tree_inv cfg s \<longleftrightarrow> (let t = tree (state s); mt = max_trim_tokens (family (tokenizer cfg)) in
     forest_ok t \<and> (\<forall>i<length (nodes t). node_ok mt t i)
     \<and> (\<forall>rid p. dget (tree_inflight s) rid = Some p \<longrightarrow> pending_ok mt (message_matcher cfg) t p)
     \<and> (tree_removed s \<longrightarrow> tree_closing (state s)))"

lemma node_ok_stable:
  assumes "history t \<subseteq> history t'" "forest_ok t" "node_ok mt t i" "i < length (nodes t)"
  shows "node_ok mt t' i"
proof -
  have "p < length (nodes t)" if "parent (nodes t ! i) = Some p" for p
    using forest_parent [OF assms(2,4) that] assms(4) by simp
  then show ?thesis
    using assms(3) by (auto simp: node_ok_def Let_def history_fields [OF assms(1)] assms(4) split: option.splits)
qed

lemma pending_ok_stable:
  assumes "history t \<subseteq> history t'" "forest_ok t" "forest_ok t'" "pending_ok mt matcher t p"
  shows "pending_ok mt matcher t' p"
  using assms(4) by (auto simp: pending_ok_def node_fits_def history_fields [OF assms(1)]
      history_node(1) [OF assms(1)] path_messages_stable [OF assms(1-3)] split: option.splits)

lemma attach_point_for_request_Inr:
  assumes "attach_point_for_request s request matcher = Some (Inr a)" "forest_ok (tree s)"
  shows "case attach_node a of
      None \<Rightarrow> (\<forall>i<length (nodes (tree s)). \<not> node_fits matcher (tree s) request i)
    | Some b \<Rightarrow> b < length (nodes (tree s)) \<and> \<not> truncated (nodes (tree s) ! b)
        \<and> node_fits matcher (tree s) request b
        \<and> (\<forall>i<length (nodes (tree s)). node_fits matcher (tree s) request i \<longrightarrow>
            length (path_messages (tree s) i) < length (path_messages (tree s) b)
            \<or> length (path_messages (tree s) i) = length (path_messages (tree s) b) \<and> i \<le> b)"
proof -
  have a: "find_attach_point (tree s) request matcher = Some a"
    "case attach_node a of None \<Rightarrow> True | Some b \<Rightarrow> \<not> truncated (nodes (tree s) ! b)"
    using assms(1) by (auto simp: attach_point_for_request_def split: option.splits if_splits)
  with find_attach_point_cases [OF assms(2), of request matcher] show ?thesis
    by (auto split: option.splits)
qed

lemma tree_prepare_Inr:
  assumes "tree_prepare config t matcher s args = Some (Inr (req, prepared, ids, p))"
  obtains a targs where "messages_of args = Inr req" "attach_point_for_request s req matcher = Some (Inr a)"
    "attach_node a = p" "tree_render_token_ids (tree s) p req targs t = Inr ids"
  using assms by (auto simp: tree_prepare_def rbind_Inr_iff Let_def split: sum.splits)

lemma tree_render_keeps:
  assumes "tree_render_token_ids tr (Some i) req targs t = Inr ids"
  shows "keeps_prefix (max_trim_tokens (family t)) (node_token_ids (nodes tr ! i)) (ids @ cs)"
proof -
  from assms obtain old new where "merge_tokens t old new (node_token_ids (nodes tr ! i)) targs = Inr ids"
    by (auto simp: tree_render_token_ids_def rbind_Inr_iff Let_def)
  from merge_tokens_Inr [OF this] obtain inc where "ids = boundary_prefix t (node_token_ids (nodes tr ! i)) @ inc"
    by blast
  then show ?thesis
    using boundary_prefix_keeps [of "node_token_ids (nodes tr ! i)" t "inc @ cs"] by (simp add: keeps_prefix_def)
qed

lemma tree_begin_Inr:
  assumes "tree_begin cfg s rid args = Some (Inr s')"
  obtains req prepared ids p request_body start where
    "tree_prepare (server_config cfg) (tokenizer cfg) (message_matcher cfg) (state s) args = Some (Inr (req, prepared, ids, p))"
    "s' = s\<lparr> tree_inflight := dset (tree_inflight s) rid
       \<lparr> tp_messages = req, tp_body = request_body, tp_prompt = ids, tp_start_len = start, tp_parent = p \<rparr> \<rparr>"
    "\<not> tree_removed s" "\<not> tree_closing (state s)"
  using assms by (fastforce simp: tree_begin_def rbind_Inr_iff split: if_splits)

lemma tree_prepare_pending_ok:
  assumes "tree_prepare config t matcher s args = Some (Inr (req, prepared, ids, p))" "forest_ok (tree s)"
  shows "pending_ok (max_trim_tokens (family t)) matcher (tree s)
    \<lparr> tp_messages = req, tp_body = b, tp_prompt = ids, tp_start_len = st, tp_parent = p \<rparr>"
proof (cases p)
  case (Some i)
  from assms(1) obtain a targs where a: "attach_point_for_request s req matcher = Some (Inr a)" "attach_node a = p"
    "tree_render_token_ids (tree s) p req targs t = Inr ids" by (rule tree_prepare_Inr)
  with attach_point_for_request_Inr [OF a(1) assms(2)] tree_render_keeps Some show ?thesis
    by (auto simp: pending_ok_def)
qed (simp add: pending_ok_def)

lemma tree_begin_inv:
  assumes "tree_inv cfg s" "tree_begin cfg s rid args = Some (Inr s')"
  shows "tree_inv cfg s' \<and> state s' = state s"
proof -
  from assms(2) obtain req prepared ids p request_body start where b:
    "tree_prepare (server_config cfg) (tokenizer cfg) (message_matcher cfg) (state s) args = Some (Inr (req, prepared, ids, p))"
    "s' = s\<lparr> tree_inflight := dset (tree_inflight s) rid
       \<lparr> tp_messages = req, tp_body = request_body, tp_prompt = ids, tp_start_len = start, tp_parent = p \<rparr> \<rparr>"
    by (rule tree_begin_Inr)
  have "forest_ok (tree (state s))" using assms(1) by (simp add: tree_inv_def Let_def)
  from tree_prepare_pending_ok [OF b(1) this] assms(1) show ?thesis
    unfolding b(2) by (auto simp: tree_inv_def Let_def split: if_splits)
qed

lemma extract_completion_of:
  "extract_completion c = Inr (a, ids) \<Longrightarrow> completion_of \<lparr> rec_request = b, rec_input_ids = p, rec_start_len = st,
     rec_choice = c, rec_response_id = rid \<rparr> = ids"
  by (auto simp: extract_completion_def completion_of_def split: if_splits option.splits)

lemma commit_generation_Inr:
  assumes "commit_generation s p req a prompt cs mt rec rid fin targs = Inr s'"
  obtains tr where "s' = s\<lparr>tree := tr\<rparr>"
    "keeps_prefix mt (case p of None \<Rightarrow> [] | Some i \<Rightarrow> node_token_ids (nodes (tree s) ! i)) (prompt @ cs)"
    "create_node (tree s) p (drop (length (case p of None \<Rightarrow> [] | Some i \<Rightarrow> path_messages (tree s) i)) req @ [a])
       (prompt @ cs) (length prompt, length (prompt @ cs)) rid rec fin targs = Inr tr"
  using assms by (auto simp: commit_generation_def rbind_Inr_iff Let_def assert_prefix_Inr)

lemma tree_commit_cases:
  assumes "tree_commit cfg s p r = Inr s'"
  obtains "s' = s"
  | a cs st where "status_code r = 200" "extract_completion (upstream_choice r) = Inr (a, cs)"
      "\<not> tree_closing (state s)" "s' = s\<lparr>state := st\<rparr>"
      "commit_generation (state s) (tp_parent p) (tp_messages p) a (tp_prompt p) cs
         (max_trim_tokens (family (tokenizer cfg)))
         \<lparr> rec_request = tp_body p, rec_input_ids = tp_prompt p, rec_start_len = tp_start_len p,
           rec_choice = upstream_choice r, rec_response_id = upstream_id r \<rparr>
         (upstream_id r) (case finish_reason (upstream_choice r) of None \<Rightarrow> [] | Some f \<Rightarrow> f) (tp_body p) = Inr st"
  using assms by (auto simp: tree_commit_def rbind_Inr_iff split: if_splits sum.splits prod.splits)

lemma tree_commit_inv:
  assumes "tree_inv cfg s" "pending_ok (max_trim_tokens (family (tokenizer cfg))) (message_matcher cfg) (tree (state s)) p"
    "tree_commit cfg s p r = Inr s'"
  shows "tree_inv cfg s' \<and> history (tree (state s)) \<subseteq> history (tree (state s'))"
  using assms(3)
proof (cases rule: tree_commit_cases)
  case (2 a cs st)
  let ?t = "tree (state s)"
  let ?mt = "max_trim_tokens (family (tokenizer cfg))"
  let ?N = "length (nodes ?t)"
  have inv: "forest_ok ?t" "\<And>i. i < ?N \<Longrightarrow> node_ok ?mt ?t i"
    "\<And>rid q. dget (tree_inflight s) rid = Some q \<Longrightarrow> pending_ok ?mt (message_matcher cfg) ?t q"
    using assms(1) by (auto simp: tree_inv_def Let_def)
  have p: "i < ?N \<and> \<not> truncated (nodes ?t ! i)" if "tp_parent p = Some i" for i
    using assms(2) that by (simp add: pending_ok_def)
  obtain tr where tr: "st = (state s)\<lparr>tree := tr\<rparr>"
    "keeps_prefix ?mt (case tp_parent p of None \<Rightarrow> [] | Some i \<Rightarrow> node_token_ids (nodes ?t ! i)) (tp_prompt p @ cs)"
    "create_node ?t (tp_parent p)
       (drop (length (case tp_parent p of None \<Rightarrow> [] | Some i \<Rightarrow> path_messages ?t i)) (tp_messages p) @ [a])
       (tp_prompt p @ cs) (length (tp_prompt p), length (tp_prompt p @ cs)) (upstream_id r)
       \<lparr> rec_request = tp_body p, rec_input_ids = tp_prompt p, rec_start_len = tp_start_len p,
         rec_choice = upstream_choice r, rec_response_id = upstream_id r \<rparr>
       (case finish_reason (upstream_choice r) of None \<Rightarrow> [] | Some f \<Rightarrow> f) (tp_body p) = Inr tr"
    by (rule commit_generation_Inr [OF 2(5)])
  have pl: "tp_parent p = Some i \<Longrightarrow> i < ?N" for i using p by simp
  note c = create_node_Inr [OF tr(3) inv(1) pl]
  have ok: "forest_ok tr" by (rule create_node_forest [OF tr(3) inv(1) pl])
  have h: "history ?t \<subseteq> history tr" by (rule create_node_history [OF tr(3) inv(1) pl])
  have new: "node_ok ?mt tr ?N"
    using c(3) tr(2) p extract_completion_of [OF 2(2)]
    by (cases "tp_parent p") (auto simp: node_ok_def Let_def history_fields [OF h])
  have "node_ok ?mt tr i" if "i < length (nodes tr)" for i
  proof (cases "i = ?N")
    case True
    with new show ?thesis by simp
  next
    case False
    with that c(2) have "i < ?N" by simp
    then show ?thesis using node_ok_stable [OF h inv(1) inv(2)] by blast
  qed
  then have "tree_inv cfg s'"
    using assms(1) ok pending_ok_stable [OF h inv(1) ok] 2(4) tr(1) by (auto simp: tree_inv_def Let_def)
  with h 2(4) tr(1) show ?thesis by simp
qed (use assms(1) in simp)

lemma tree_inv_inflight:
  assumes "tree_inv cfg s"
  shows "tree_inv cfg (s\<lparr>tree_inflight := ddel (tree_inflight s) rid\<rparr>)"
  using assms by (auto simp: tree_inv_def Let_def split: if_splits)

lemma tree_step_inv:
  assumes "tree_inv cfg s"
  shows "tree_inv cfg (tree_step cfg s e) \<and> history (tree (state s)) \<subseteq> history (tree (state (tree_step cfg s e)))"
proof (cases e)
  case (Begin rid args)
  show ?thesis
  proof (cases "\<exists>s'. tree_begin cfg s rid args = Some (Inr s')")
    case True
    then obtain s' where "tree_begin cfg s rid args = Some (Inr s')" by blast
    with Begin tree_begin_inv [OF assms this] show ?thesis by (simp add: tree_step_def)
  next
    case False
    with Begin assms show ?thesis by (simp add: tree_step_def split: option.splits sum.splits)
  qed
next
  case (Finish rid r)
  show ?thesis
  proof (cases "tree_finish cfg s rid r")
    case (Inl err)
    with Finish tree_inv_inflight [OF assms] show ?thesis by (simp add: tree_step_def)
  next
    case (Inr s')
    then obtain p where p: "dget (tree_inflight s) rid = Some p"
      "tree_commit cfg (s\<lparr>tree_inflight := ddel (tree_inflight s) rid\<rparr>) p r = Inr s'"
      by (auto simp: tree_finish_def split: option.splits)
    have "pending_ok (max_trim_tokens (family (tokenizer cfg))) (message_matcher cfg) (tree (state s)) p"
      using assms p(1) by (auto simp: tree_inv_def Let_def)
    with tree_commit_inv [OF tree_inv_inflight [OF assms] _ p(2)] Finish Inr show ?thesis
      by (simp add: tree_step_def)
  qed
next
  case Delete
  have "tree_inv cfg (s\<lparr>state := (state s)\<lparr>tree_closing := True\<rparr>\<rparr>)"
    using assms by (simp add: tree_inv_def Let_def)
  with Delete assms show ?thesis by (simp add: tree_step_def)
next
  case Drop
  have "tree_inv cfg (s\<lparr>tree_removed := True\<rparr>)" if "tree_closing (state s)"
    using assms that by (simp add: tree_inv_def Let_def)
  with Drop assms show ?thesis by (simp add: tree_step_def)
qed

interpretation forest: monotone_machine "tree_step cfg" "tree_inv cfg" "\<lambda>s. history (tree (state s))" for cfg
  by unfold_locales (use tree_step_inv in auto)

lemma new_tree_inv: "tree_inv cfg (new_tree_session ev defaults replay)"
  by (simp add: tree_inv_def new_tree_session_def forest_ok_def MAX_NODES_def)

text \<open>
  C19: the search for the attach point always ends, and its answer is exact: it names a node
  whose whole path the request repeats, of maximal matched length, the latest one among
  equals, or no node at all when none fits.
\<close>

theorem find_attach_point_exact:
  assumes "forest_ok t"
  shows "\<exists>a. find_attach_point t request matcher = Some a \<and> (case attach_node a of
      None \<Rightarrow> matched_messages a = 0 \<and> (\<forall>i<length (nodes t). \<not> node_fits matcher t request i)
    | Some b \<Rightarrow> b < length (nodes t) \<and> node_fits matcher t request b
        \<and> matched_messages a = length (path_messages t b)
        \<and> (\<forall>i<length (nodes t). node_fits matcher t request i \<longrightarrow>
            length (path_messages t i) < length (path_messages t b)
            \<or> length (path_messages t i) = length (path_messages t b) \<and> i \<le> b))"
  using find_attach_point_cases [OF assms] .

text \<open>
  C23: under any interleaving of requests, answers and deletion the forest stays well formed:
  positions and parents agree with the lists of children, every node's tokens are its
  record's prompt and completion with the completion span at their boundary, every node
  keeps its parent's tokens up to the family's trim, and no truncated node is extended.
\<close>

theorem tree_session_invariant:
  "tree_inv cfg (foldl (tree_step cfg) (new_tree_session ev defaults replay) events)"
  by (rule forest.inv_run [OF new_tree_inv])

text \<open>
  C25: nothing a session has committed is ever changed or lost: whatever happens later, every
  node is still there, in its place, with its messages, its tokens, its record and its
  parent.
\<close>

theorem tree_history_append_only:
  "history (tree (state (foldl (tree_step cfg) (new_tree_session ev defaults replay) events)))
   \<subseteq> history (tree (state (foldl (tree_step cfg) (new_tree_session ev defaults replay) (events @ later))))"
  by (rule forest.obs_between [OF new_tree_inv])

lemma tree_finish_commits:
  assumes "tree_inv cfg s" "dget (tree_inflight s) rid = Some p"
    "status_code r = 200" "extract_completion (upstream_choice r) = Inr (a, cs)"
    "\<not> tree_closing (state s)" "length (nodes (tree (state s))) < MAX_NODES"
  defines "t \<equiv> tree (state s)"
  shows "\<exists>s'. tree_finish cfg s rid r = Inr s' \<and> (let t' = tree (state s'); n = length (nodes t) in
     length (nodes t') = Suc n \<and> parent (nodes t' ! n) = tp_parent p
     \<and> node_token_ids (nodes t' ! n) = tp_prompt p @ cs
     \<and> path_messages t' n = (case tp_parent p of None \<Rightarrow> tp_messages p
         | Some i \<Rightarrow> path_messages t i @ drop (length (path_messages t i)) (tp_messages p)) @ [a])"
proof -
  let ?mt = "max_trim_tokens (family (tokenizer cfg))"
  let ?N = "length (nodes t)"
  have inv: "forest_ok t" "pending_ok ?mt (message_matcher cfg) t p"
    using assms(1,2) by (auto simp: tree_inv_def Let_def t_def)
  have pl: "i < ?N" if "tp_parent p = Some i" for i using inv(2) that by (simp add: pending_ok_def)
  have keep: "keeps_prefix ?mt (case tp_parent p of None \<Rightarrow> [] | Some i \<Rightarrow> node_token_ids (nodes t ! i)) (tp_prompt p @ cs)"
    using inv(2) by (auto simp: pending_ok_def keeps_prefix_def split: option.splits)
  define delta where
    "delta = drop (length (case tp_parent p of None \<Rightarrow> [] | Some i \<Rightarrow> path_messages t i)) (tp_messages p) @ [a]"
  let ?rec = "\<lparr> rec_request = tp_body p, rec_input_ids = tp_prompt p, rec_start_len = tp_start_len p,
     rec_choice = upstream_choice r, rec_response_id = upstream_id r \<rparr>"
  let ?fin = "case finish_reason (upstream_choice r) of None \<Rightarrow> [] | Some f \<Rightarrow> f"
  obtain t' where t': "create_node t (tp_parent p) delta (tp_prompt p @ cs)
      (length (tp_prompt p), length (tp_prompt p @ cs)) (upstream_id r) ?rec ?fin (tp_body p) = Inr t'"
    using assms(6) by (simp add: create_node_def Let_def t_def)
  have "assert_pretokenized_prefix (case tp_parent p of None \<Rightarrow> [] | Some i \<Rightarrow> node_token_ids (nodes t ! i))
      (tp_prompt p @ cs) ?mt = Inr ()"
    using keep by (simp add: assert_prefix_Inr)
  then have "commit_generation (state s) (tp_parent p) (tp_messages p) a (tp_prompt p) cs ?mt ?rec
      (upstream_id r) ?fin (tp_body p) = Inr ((state s)\<lparr>tree := t'\<rparr>)"
    using t' unfolding delta_def t_def by (simp add: commit_generation_def Let_def)
  then have "tree_finish cfg s rid r = Inr (s\<lparr> tree_inflight := ddel (tree_inflight s) rid,
      state := (state s)\<lparr>tree := t'\<rparr> \<rparr>)"
    using assms(2-5) by (simp add: tree_finish_def tree_commit_def)
  moreover note c = create_node_Inr [OF t' inv(1) pl]
  moreover have ok: "forest_ok t'" by (rule create_node_forest [OF t' inv(1) pl])
  moreover have h: "history t \<subseteq> history t'" by (rule create_node_history [OF t' inv(1) pl])
  moreover have "path_messages t' ?N = (case tp_parent p of None \<Rightarrow> [] | Some i \<Rightarrow> path_messages t i) @ delta"
    using path_messages_unfold [OF ok, of ?N] c(2,3) path_messages_stable [OF h inv(1) ok pl]
    by (auto split: option.splits)
  ultimately show ?thesis by (auto simp: Let_def delta_def split: option.splits)
qed

text \<open>
  C12: a request that was prepared always commits: whatever other requests did meanwhile, as
  long as the session is open and below its node cap, a valid answer appends exactly one
  node under the node the request attached to, the token check cannot fail, and the new
  path is the stored path, the request's own suffix and the answer.
\<close>

theorem prepared_request_always_commits:
  assumes "s = foldl (tree_step cfg) (new_tree_session ev defaults replay) events"
    "dget (tree_inflight s) rid = Some p"
    "status_code r = 200" "extract_completion (upstream_choice r) = Inr (a, cs)"
    "\<not> tree_closing (state s)" "length (nodes (tree (state s))) < MAX_NODES"
  shows "\<exists>s'. tree_finish cfg s rid r = Inr s' \<and> (let t = tree (state s); t' = tree (state s'); n = length (nodes t) in
     length (nodes t') = Suc n \<and> parent (nodes t' ! n) = tp_parent p
     \<and> node_token_ids (nodes t' ! n) = tp_prompt p @ cs
     \<and> path_messages t' n = (case tp_parent p of None \<Rightarrow> tp_messages p
         | Some i \<Rightarrow> path_messages t i @ drop (length (path_messages t i)) (tp_messages p)) @ [a])"
proof -
  have "tree_inv cfg s" unfolding assms(1) by (rule forest.inv_run [OF new_tree_inv])
  from tree_finish_commits [OF this assms(2-6)] show ?thesis by (simp add: Let_def)
qed

text \<open>
  Replaying a node's path verbatim and adding to it continues at that node or at a
  better one: the attach point's path is at least as long, and a node of equal length is
  not older.
\<close>

theorem replay_attaches_at_the_node:
  assumes "forest_ok t" "i < length (nodes t)" "list_all message_ok (path_messages t i)"
  shows "\<exists>a b. find_attach_point t (path_messages t i @ new) strict_message_matches = Some a
    \<and> attach_node a = Some b \<and> length (path_messages t i) \<le> length (path_messages t b)
    \<and> (length (path_messages t b) = length (path_messages t i) \<longrightarrow> i \<le> b)"
proof -
  let ?req = "path_messages t i @ new"
  have fits: "node_fits strict_message_matches t ?req i"
    unfolding node_fits_def by (rule strict.replay_prefix [OF assms(3)])
  obtain a where a: "find_attach_point t ?req strict_message_matches = Some a"
    "case attach_node a of
      None \<Rightarrow> matched_messages a = 0 \<and> (\<forall>i<length (nodes t). \<not> node_fits strict_message_matches t ?req i)
    | Some b \<Rightarrow> b < length (nodes t) \<and> node_fits strict_message_matches t ?req b
        \<and> matched_messages a = length (path_messages t b)
        \<and> (\<forall>i<length (nodes t). node_fits strict_message_matches t ?req i \<longrightarrow>
            length (path_messages t i) < length (path_messages t b)
            \<or> length (path_messages t i) = length (path_messages t b) \<and> i \<le> b)"
    using find_attach_point_cases [OF assms(1), of ?req strict_message_matches] by blast
  then obtain b where b: "attach_node a = Some b" using fits assms(2) by (cases "attach_node a") auto
  with a(2) fits assms(2) have "length (path_messages t i) < length (path_messages t b)
    \<or> length (path_messages t i) = length (path_messages t b) \<and> i \<le> b" by simp
  with a(1) b show ?thesis by auto
qed

section \<open>A concrete session\<close>

definition run_tree :: "core_event list \<Rightarrow> tree_session" where
  "run_tree = foldl (tree_step example_core) (new_tree_session False [] False)"

text \<open>Two requests attach to the first answer at once; one of them commits.\<close>

definition example_forest :: tree_session where
  "example_forest = run_tree [Begin 0 (chat_request [user_says ''u'']), Finish 0 (answer ''a'' [7, 8]),
     Begin 1 (chat_request [user_says ''u'', assistant_says ''a'', user_says ''v'']),
     Begin 2 (chat_request [user_says ''u'', assistant_says ''a'', user_says ''w'']),
     Finish 2 (answer ''b'' [9])]"

lemma example_forest_facts:
  "length (nodes (tree (state example_forest))) = 2"
  "map_option tp_parent (dget (tree_inflight example_forest) 1) = Some (Some 0)"
  "\<not> tree_closing (state example_forest)"
  "path_messages (tree (state example_forest)) 0 = [user_says ''u'', assistant_says ''a'']"
  by code_simp+

lemma example_forest_ok: "forest_ok (tree (state example_forest))"
proof -
  have "tree_inv example_core example_forest"
    unfolding example_forest_def run_tree_def by (rule forest.inv_run [OF new_tree_inv])
  then show ?thesis by (simp add: tree_inv_def Let_def)
qed

theorem find_attach_point_exact_witness:
  "\<exists>a. find_attach_point (tree (state example_forest)) [user_says ''x''] strict_message_matches = Some a"
  using find_attach_point_exact [OF example_forest_ok] by blast

theorem prepared_request_always_commits_witness:
  "\<exists>s'. tree_finish example_core example_forest 1 (answer ''c'' [5]) = Inr s'
     \<and> length (nodes (tree (state s'))) = 3"
proof -
  obtain p where p: "dget (tree_inflight example_forest) 1 = Some p" "tp_parent p = Some 0"
    using example_forest_facts(2) by auto
  have x: "extract_completion (upstream_choice (answer ''c'' [5])) = Inr (assistant_says ''c'', [5])" by code_simp
  have st: "status_code (answer ''c'' [5]) = 200" by (simp add: answer_def)
  have cap: "length (nodes (tree (state example_forest))) < MAX_NODES"
    by (simp add: example_forest_facts MAX_NODES_def)
  from prepared_request_always_commits
    [OF example_forest_def [unfolded run_tree_def] p(1) st x example_forest_facts(3) cap]
  show ?thesis by (auto simp: Let_def example_forest_facts(1))
qed

theorem replay_attaches_at_the_node_witness:
  "\<exists>a b. find_attach_point (tree (state example_forest)) ([user_says ''u'', assistant_says ''a''] @ [user_says ''z''])
     strict_message_matches = Some a \<and> attach_node a = Some b
     \<and> length [user_says ''u'', assistant_says ''a''] \<le> length (path_messages (tree (state example_forest)) b)"
proof -
  have i: "0 < length (nodes (tree (state example_forest)))" by (simp add: example_forest_facts)
  have ok: "list_all message_ok (path_messages (tree (state example_forest)) 0)"
    unfolding example_forest_facts(4) by code_simp
  show ?thesis
    using replay_attaches_at_the_node [OF example_forest_ok i ok, of "[user_says ''z'']"]
    unfolding example_forest_facts(4) by blast
qed

end
