(* ===== verification/SamplingMask.thy ===== *)
theory SamplingMask
  imports Prelude
begin

text \<open>
  The sampling mask of a response (\<open>utils/sampling_mask.py\<close>): per token the ids the
  sampler could emit, kept in compressed-row form as a flat id array and an offset array.
  The abstract view is the list of the supports, one list per token.
\<close>

section \<open>The compressed form\<close>

record mask =
  mask_ids :: "int list"
  mask_offsets :: "nat list"

definition int32 :: "int \<Rightarrow> bool" where
  "int32 i \<longleftrightarrow> - (2 ^ 31) \<le> i \<and> i < 2 ^ 31"

definition offsets_ok :: "nat \<Rightarrow> nat list \<Rightarrow> bool" where
  "offsets_ok n offsets \<longleftrightarrow> offsets \<noteq> [] \<and> hd offsets = 0 \<and> last offsets = n
     \<and> list_all (\<lambda>(a, b). a < b) (zip offsets (tl offsets))"

text \<open>The ids go into a 32-bit array first, then the offsets are checked.\<close>

definition mask_new :: "int list \<Rightarrow> nat list \<Rightarrow> mask res" where
  "mask_new ids offsets =
     (if \<not> list_all int32 ids then Inl OverflowError
      else if \<not> offsets_ok (length ids) offsets then Inl ValueError
      else Inr \<lparr> mask_ids = ids, mask_offsets = offsets \<rparr>)"

definition from_mask_list :: "int list list \<Rightarrow> mask res" where
  "from_mask_list mask_list =
     (let (ids, offsets) = foldl (\<lambda>(ids, offsets) m. (ids @ m, offsets @ [length (ids @ m)])) ([], [0]) mask_list
      in mask_new ids offsets)"

definition mask_length :: "mask \<Rightarrow> nat" where
  "mask_length m = length (mask_offsets m) - 1"

definition mask_concatenate :: "mask list \<Rightarrow> mask res" where
  "mask_concatenate masks = (case masks of
       [] \<Rightarrow> mask_new [] [0]
     | [m] \<Rightarrow> Inr m
     | _ \<Rightarrow> mask_new (concat (map mask_ids masks))
         (fst (foldl (\<lambda>(offsets, id_count) m. (offsets @ map (\<lambda>k. k + id_count) (tl (mask_offsets m)),
                 id_count + length (mask_ids m))) ([0], 0) masks)))"

definition mask_prefix :: "mask \<Rightarrow> int \<Rightarrow> mask res" where
  "mask_prefix m n =
     (if \<not> (0 \<le> n \<and> n \<le> int (mask_length m)) then Inl ValueError
      else if n = int (mask_length m) then Inr m
      else mask_new (take (mask_offsets m ! nat n) (mask_ids m)) (take (nat n + 1) (mask_offsets m)))"

text \<open>Reading the supports of some positions: a range in one slice, a list run by run.\<close>

definition select_range :: "mask \<Rightarrow> int \<Rightarrow> int \<Rightarrow> (int list \<times> nat list) res" where
  "select_range m start stop =
     (if stop \<le> start then Inr ([], [])
      else if start < 0 \<or> int (mask_length m) < stop then Inl ValueError
      else let offs = mask_offsets m in
        Inr (slice (offs ! nat start) (offs ! nat stop) (mask_ids m),
             map (\<lambda>i. offs ! (i + 1) - offs ! i) [nat start..<nat stop]))"

definition run_starts :: "nat list \<Rightarrow> nat list" where
  "run_starts indices = 0 # map (\<lambda>i. i + 1)
     (filter (\<lambda>i. indices ! (i + 1) \<noteq> indices ! i + 1) [0..<length indices - 1]) @ [length indices]"

definition select_list :: "mask \<Rightarrow> int list \<Rightarrow> (int list \<times> nat list) res" where
  "select_list m token_indices =
     (if list_ex (\<lambda>i. i < 0 \<or> int (mask_length m) \<le> i) token_indices then Inl ValueError
      else let indices = map nat token_indices; offs = mask_offsets m;
               lengths = map (\<lambda>i. offs ! (i + 1) - offs ! i) indices in
        if indices = [] then Inr ([], lengths)
        else let starts = run_starts indices in
          Inr (concat (map (\<lambda>(s, e). slice (offs ! (indices ! s)) (offs ! (indices ! (e - 1) + 1)) (mask_ids m))
                 (zip (butlast starts) (tl starts))), lengths))"

section \<open>The abstract view\<close>

definition masks_of :: "mask \<Rightarrow> int list list" where
  "masks_of m = map (\<lambda>t. slice (mask_offsets m ! t) (mask_offsets m ! (t + 1)) (mask_ids m)) [0..<mask_length m]"

definition mask_ok :: "mask \<Rightarrow> bool" where
  "mask_ok m \<longleftrightarrow> list_all int32 (mask_ids m) \<and> offsets_ok (length (mask_ids m)) (mask_offsets m)"

definition support_ok :: "int list \<Rightarrow> bool" where
  "support_ok s \<longleftrightarrow> s \<noteq> [] \<and> list_all int32 s"

definition offsets_of :: "'a list list \<Rightarrow> nat list" where
  "offsets_of xs = map (\<lambda>i. length (concat (take i xs))) [0..<length xs + 1]"

definition csr :: "int list list \<Rightarrow> mask" where
  "csr xs = \<lparr> mask_ids = concat xs, mask_offsets = offsets_of xs \<rparr>"

lemma offsets_of_nth: "i \<le> length xs \<Longrightarrow> offsets_of xs ! i = length (concat (take i xs))"
  unfolding offsets_of_def by (subst nth_map) (simp_all del: upt_Suc)

lemma length_offsets_of [simp]: "length (offsets_of xs) = length xs + 1"
  by (simp add: offsets_of_def)

lemma offsets_of_snoc: "offsets_of (xs @ [x]) = offsets_of xs @ [length (concat xs) + length x]"
proof -
  have "[0..<length (xs @ [x]) + 1] = [0..<length xs + 1] @ [length xs + 1]" by simp
  moreover have "map (\<lambda>i. length (concat (take i (xs @ [x])))) [0..<length xs + 1] = offsets_of xs"
    unfolding offsets_of_def by (intro map_cong) (auto simp del: upt_Suc)
  ultimately show ?thesis unfolding offsets_of_def by (simp del: upt_Suc)
qed

lemma offsets_of_Nil [simp]: "offsets_of [] = [0]"
  by (simp add: offsets_of_def)

lemma csr_length [simp]: "mask_length (csr xs) = length xs"
  by (simp add: mask_length_def csr_def)

lemma slice_concat:
  assumes "a \<le> b" "b \<le> length xs"
  shows "slice (length (concat (take a xs))) (length (concat (take b xs))) (concat xs) = concat (take (b - a) (drop a xs))"
proof -
  have "xs = take a xs @ take (b - a) (drop a xs) @ drop b xs"
    using assms by (metis append_assoc append_take_drop_id le_add_diff_inverse take_add)
  then have "concat xs = concat (take a xs) @ concat (take (b - a) (drop a xs)) @ concat (drop b xs)"
    by (metis concat_append)
  moreover have "concat (take b xs) = concat (take a xs) @ concat (take (b - a) (drop a xs))"
    using assms by (metis concat_append le_add_diff_inverse take_add)
  ultimately show ?thesis by (simp add: slice_def)
qed

lemma masks_of_csr: "masks_of (csr xs) = xs"
proof (rule nth_equalityI)
  show len: "length (masks_of (csr xs)) = length xs" by (simp add: masks_of_def)
  fix i assume "i < length (masks_of (csr xs))"
  then have i: "i < length xs" using len by simp
  have "masks_of (csr xs) ! i = slice (offsets_of xs ! i) (offsets_of xs ! (i + 1)) (concat xs)"
    using i by (simp add: masks_of_def csr_def mask_length_def)
  also have "\<dots> = concat (take 1 (drop i xs))"
    using i slice_concat [of i "i + 1" xs] by (simp add: offsets_of_nth)
  also have "\<dots> = xs ! i" using i by (cases "drop i xs") (auto simp: nth_via_drop)
  finally show "masks_of (csr xs) ! i = xs ! i" .
qed

lemma adjacent_iff: "list_all (\<lambda>(a, b). P a b) (zip xs (tl xs)) \<longleftrightarrow> (\<forall>i. i + 1 < length xs \<longrightarrow> P (xs ! i) (xs ! (i + 1)))"
  by (auto simp: list_all_length nth_tl)

lemma offsets_ok_iff:
  "offsets_ok n offs \<longleftrightarrow> offs \<noteq> [] \<and> offs ! 0 = 0 \<and> offs ! (length offs - 1) = n
     \<and> (\<forall>i. i + 1 < length offs \<longrightarrow> offs ! i < offs ! (i + 1))"
  by (auto simp: offsets_ok_def adjacent_iff hd_conv_nth last_conv_nth)

lemma offsets_of_ok:
  assumes "[] \<notin> set xs"
  shows "offsets_ok (length (concat xs)) (offsets_of xs)"
proof -
  have "offsets_of xs ! i < offsets_of xs ! (i + 1)" if "i + 1 < length (offsets_of xs)" for i
  proof -
    have i: "i < length xs" using that by simp
    then have "length (concat (take (i + 1) xs)) = length (concat (take i xs)) + length (xs ! i)"
      by (simp add: take_Suc_conv_app_nth)
    moreover have "xs ! i \<noteq> []" using i assms by (metis nth_mem)
    ultimately show ?thesis using i by (simp add: offsets_of_nth)
  qed
  then show ?thesis
    using offsets_of_nth [of 0 xs] offsets_of_nth [of "length xs" xs] length_offsets_of [of xs]
    by (auto simp: offsets_ok_iff simp del: length_offsets_of)
qed

lemma csr_ok: "list_all support_ok xs \<Longrightarrow> mask_ok (csr xs)"
  using offsets_of_ok [of xs] by (auto simp: mask_ok_def csr_def support_ok_def list_all_iff)

lemma mask_new_csr: "list_all support_ok xs \<Longrightarrow> mask_new (concat xs) (offsets_of xs) = Inr (csr xs)"
  using csr_ok [of xs] by (simp add: mask_new_def mask_ok_def csr_def)

lemma offsets_mono:
  assumes "offsets_ok n offs" "j < length offs"
  shows "i \<le> j \<Longrightarrow> offs ! i \<le> offs ! j"
  using assms(2)
proof (induction j)
  case (Suc j)
  then show ?case using assms(1) Suc_lessD by (cases "i = Suc j") (force simp: offsets_ok_iff)+
qed simp

lemma concat_slices:
  assumes "offsets_ok (length xs) offs" "n < length offs"
  shows "concat (map (\<lambda>t. slice (offs ! t) (offs ! (t + 1)) xs) [0..<n]) = take (offs ! n) xs"
  using assms(2)
proof (induction n)
  case 0
  then show ?case using assms(1) by (simp add: offsets_ok_iff)
next
  case (Suc n)
  have le: "offs ! n \<le> offs ! Suc n" by (rule offsets_mono [OF assms(1) Suc.prems]) simp
  have "take (offs ! n) xs @ slice (offs ! n) (offs ! Suc n) xs = take (offs ! Suc n) xs"
    using le by (simp add: slice_def) (metis le_add_diff_inverse take_add)
  with Suc show ?case by simp
qed

text \<open>A valid mask is the compressed form of its supports, and of nothing else.\<close>

lemma mask_ok_csr:
  assumes "mask_ok m"
  shows "m = csr (masks_of m)" "list_all support_ok (masks_of m)"
proof -
  let ?offs = "mask_offsets m" and ?ids = "mask_ids m" and ?n = "mask_length m"
  have ok: "offsets_ok (length ?ids) ?offs" "list_all int32 ?ids" using assms by (simp_all add: mask_ok_def)
  then have ne: "?offs \<noteq> []" by (simp add: offsets_ok_def)
  then have len: "length ?offs = ?n + 1" by (cases ?offs) (simp_all add: mask_length_def)
  have le: "?offs ! i \<le> length ?ids" if "i \<le> ?n" for i
    using offsets_mono [OF ok(1), of "length ?offs - 1" i] that ne len ok(1) by (simp add: offsets_ok_iff)
  have ids: "concat (map (\<lambda>t. slice (?offs ! t) (?offs ! (t + 1)) ?ids) [0..<i]) = take (?offs ! i) ?ids" if "i \<le> ?n" for i
    using concat_slices [OF ok(1)] that len by simp
  have take: "take i (masks_of m) = map (\<lambda>t. slice (?offs ! t) (?offs ! (t + 1)) ?ids) [0..<i]" if "i \<le> ?n" for i
    using that by (simp add: masks_of_def take_map del: upt_Suc)
  have all: "concat (masks_of m) = ?ids"
    using ids [of ?n] ok(1) len unfolding masks_of_def by (simp add: offsets_ok_iff)
  have "?offs = offsets_of (masks_of m)"
  proof (rule nth_equalityI)
    show "length ?offs = length (offsets_of (masks_of m))" using len by (simp add: masks_of_def)
    fix i assume "i < length ?offs"
    then have i: "i \<le> ?n" using len by simp
    then show "?offs ! i = offsets_of (masks_of m) ! i"
      using ids [OF i] take [OF i] le [OF i] by (simp add: offsets_of_nth masks_of_def)
  qed
  with all show "m = csr (masks_of m)" by (simp add: csr_def)
  have "support_ok (slice (?offs ! t) (?offs ! (t + 1)) ?ids)" if "t < ?n" for t
  proof -
    have "?offs ! t < ?offs ! (t + 1)" using ok(1) that len by (simp add: offsets_ok_iff)
    moreover have "?offs ! (t + 1) \<le> length ?ids" using le that by simp
    ultimately have "slice (?offs ! t) (?offs ! (t + 1)) ?ids \<noteq> []" by (auto simp: slice_def)
    moreover have "set (slice (?offs ! t) (?offs ! (t + 1)) ?ids) \<subseteq> set ?ids"
      unfolding slice_def by (meson in_set_dropD in_set_takeD subsetI)
    ultimately show ?thesis using ok(2) by (auto simp: support_ok_def list_all_iff)
  qed
  then show "list_all support_ok (masks_of m)" by (auto simp: masks_of_def list_all_iff)
qed

section \<open>The operations refine their list versions\<close>

lemma from_mask_list_fold:
  "foldl (\<lambda>(ids, offsets) m. (ids @ m, offsets @ [length (ids @ m)])) ([], [0]) xs = (concat xs, offsets_of xs)"
  by (induction xs rule: rev_induct) (simp_all add: offsets_of_snoc)

lemma from_mask_list_csr: "list_all support_ok xs \<Longrightarrow> from_mask_list xs = Inr (csr xs)"
  unfolding from_mask_list_def from_mask_list_fold by (simp add: mask_new_csr)

lemma from_mask_list_Inr: "from_mask_list xs = Inr m \<Longrightarrow> list_all support_ok xs \<and> m = csr xs"
proof -
  assume a: "from_mask_list xs = Inr m"
  then have new: "list_all int32 (concat xs)" "offsets_ok (length (concat xs)) (offsets_of xs)"
    and m: "m = csr xs"
    unfolding from_mask_list_def from_mask_list_fold by (auto simp: mask_new_def csr_def split: if_splits)
  then have "mask_ok (csr xs)" by (simp add: mask_ok_def csr_def)
  from mask_ok_csr(2) [OF this] m show ?thesis by (simp add: masks_of_csr)
qed

lemma concatenate_fold:
  "foldl (\<lambda>(offsets, id_count) m. (offsets @ map (\<lambda>k. k + id_count) (tl (mask_offsets m)),
     id_count + length (mask_ids m))) (offsets_of ys, length (concat ys)) (map csr xss)
   = (offsets_of (ys @ concat xss), length (concat (ys @ concat xss)))"
proof (induction xss arbitrary: ys)
  case (Cons xs xss)
  have "offsets_of ys @ map (\<lambda>k. k + length (concat ys)) (tl (offsets_of xs)) = offsets_of (ys @ xs)"
  proof (induction xs rule: rev_induct)
    case (snoc x xs)
    have "tl (offsets_of (xs @ [x])) = tl (offsets_of xs) @ [length (concat xs) + length x]"
      unfolding offsets_of_snoc by (cases "offsets_of xs") (auto simp: offsets_of_def)
    with snoc show ?case using offsets_of_snoc [of "ys @ xs" x] by simp
  qed simp
  with Cons.IH [of "ys @ xs"] show ?case by (simp add: csr_def)
qed simp

lemma concatenate_csr:
  assumes "list_all (list_all support_ok) xss"
  shows "mask_concatenate (map csr xss) = Inr (csr (concat xss))"
proof -
  have ok: "list_all support_ok (concat xss)" using assms by (auto simp: list_all_iff)
  have ids: "concat (map mask_ids (map csr xss)) = concat (concat xss)"
    by (induction xss) (simp_all add: csr_def)
  have offs: "fst (foldl (\<lambda>(offsets, id_count) m. (offsets @ map (\<lambda>k. k + id_count) (tl (mask_offsets m)),
     id_count + length (mask_ids m))) ([0], 0) (map csr xss)) = offsets_of (concat xss)"
    using concatenate_fold [of "[]" xss] by simp
  show ?thesis
  proof (cases "\<exists>xs. xss = [xs]")
    case True
    then show ?thesis by (auto simp: mask_concatenate_def)
  next
    case False
    then consider "xss = []" | a b cs where "xss = a # b # cs" by (metis list.exhaust)
    then show ?thesis
    proof cases
      case 1
      then show ?thesis using mask_new_csr [of "[]"] by (simp add: mask_concatenate_def csr_def)
    next
      case 2
      then have "mask_concatenate (map csr xss) = mask_new (concat (concat xss)) (offsets_of (concat xss))"
        using ids offs by (simp add: mask_concatenate_def)
      with mask_new_csr [OF ok] show ?thesis by simp
    qed
  qed
qed

lemma prefix_csr:
  assumes "list_all support_ok xs" "n \<le> length xs"
  shows "mask_prefix (csr xs) (int n) = Inr (csr (take n xs))"
proof (cases "n = length xs")
  case False
  have "take (n + 1) (offsets_of xs) = offsets_of (take n xs)"
    using assms(2) by (intro nth_equalityI) (auto simp: offsets_of_nth min_absorb2)
  moreover have "take (offsets_of xs ! n) (concat xs) = concat (take n xs)"
    using slice_concat [of 0 n xs] assms(2) by (simp add: offsets_of_nth slice_def)
  moreover have "list_all support_ok (take n xs)" using assms(1) by (metis list_all_append append_take_drop_id)
  ultimately show ?thesis using assms(2) False mask_new_csr [of "take n xs"] by (simp add: mask_prefix_def csr_def mask_length_def)
qed (simp add: mask_prefix_def)

lemma concat_concat: "concat (concat xsss) = concat (map concat xsss)"
  by (induction xsss) simp_all

lemma concat_cuts:
  "sorted xs \<Longrightarrow> xs \<noteq> [] \<Longrightarrow>
   concat (map (\<lambda>(s, e). map g [s..<e]) (zip (butlast xs) (tl xs))) = map g [hd xs..<last xs]"
proof (induction xs)
  case (Cons x xs)
  show ?case
  proof (cases xs)
    case (Cons y ys)
    have "x \<le> y" "y \<le> last xs" using Cons.prems(1) Cons by (auto simp: last_in_set)
    then have "[x..<last xs] = [x..<y] @ [y..<last xs]" by (metis le_Suc_ex upt_add_eq_append)
    with Cons.IH Cons.prems Cons show ?thesis by simp
  qed simp
qed simp

lemma adjacent_in:
  assumes "sorted_wrt (<) xs" "(s, e) \<in> set (zip (butlast xs) (tl xs))"
  shows "s \<in> set xs \<and> e \<in> set xs \<and> s < e \<and> (\<forall>x\<in>set xs. s < x \<longrightarrow> (e::nat) \<le> x)"
proof -
  from assms(2) obtain i where i: "i < length xs - 1" "s = xs ! i" "e = xs ! (i + 1)"
    by (auto simp: in_set_zip nth_butlast nth_tl)
  have "e \<le> xs ! j" if "j < length xs" "xs ! i < xs ! j" for j
  proof -
    have "i < j" using that assms(1) i(1) by (metis linorder_neqE_nat order_less_asym order_less_irrefl sorted_wrt_nth_less less_diff_conv add_lessD1)
    then show ?thesis
      using sorted_wrt_nth_less [OF assms(1), of "i + 1" j] that(1) i(3) by (cases "j = i + 1") auto
  qed
  moreover have "s \<in> set xs" "e \<in> set xs" using i by simp_all
  moreover have "s < e" using i sorted_wrt_nth_less [OF assms(1), of i "i + 1"] by simp
  ultimately show ?thesis using i(2) by (metis in_set_conv_nth)
qed

lemma run_starts_facts:
  assumes "indices \<noteq> []"
  shows "sorted_wrt (<) (run_starts indices)" "hd (run_starts indices) = 0" "last (run_starts indices) = length indices"
    "x \<in> set (run_starts indices) \<longleftrightarrow> x = 0 \<or> x = length indices
       \<or> 0 < x \<and> x < length indices \<and> indices ! x \<noteq> indices ! (x - 1) + 1"
proof -
  let ?mid = "map (\<lambda>i. i + 1) (filter (\<lambda>i. indices ! (i + 1) \<noteq> indices ! i + 1) [0..<length indices - 1])"
  have "sorted_wrt (<) ?mid" by (simp add: sorted_wrt_map sorted_wrt_filter)
  moreover have "\<forall>y\<in>set ?mid. 0 < y \<and> y < length indices" by auto
  ultimately show "sorted_wrt (<) (run_starts indices)"
    using assms by (auto simp: run_starts_def sorted_wrt_append)
  show "hd (run_starts indices) = 0" "last (run_starts indices) = length indices"
    by (simp_all add: run_starts_def)
  have "x \<in> set ?mid \<longleftrightarrow> 0 < x \<and> x < length indices \<and> indices ! x \<noteq> indices ! (x - 1) + 1"
    by (cases x) (auto simp: image_iff)
  then show "x \<in> set (run_starts indices) \<longleftrightarrow> x = 0 \<or> x = length indices
       \<or> 0 < x \<and> x < length indices \<and> indices ! x \<noteq> indices ! (x - 1) + 1"
    by (auto simp: run_starts_def)
qed

lemma run_consecutive:
  assumes "indices \<noteq> []" "(s, e) \<in> set (zip (butlast (run_starts indices)) (tl (run_starts indices)))"
  shows "s < e" "e \<le> length indices" "j < e - s \<Longrightarrow> indices ! (s + j) = indices ! s + j"
proof -
  note f = run_starts_facts [OF assms(1)]
  note a = adjacent_in [OF f(1) assms(2)]
  then show se: "s < e" "e \<le> length indices" using f(4) [of e] by auto
  have mid: "x \<notin> set (run_starts indices)" if "s < x" "x < e" for x using a that by auto
  show "j < e - s \<Longrightarrow> indices ! (s + j) = indices ! s + j"
  proof (induction j)
    case (Suc j)
    have "s + Suc j \<notin> set (run_starts indices)" using Suc.prems by (intro mid) auto
    then have "indices ! (s + Suc j) = indices ! (s + j) + 1" using f(4) [of "s + Suc j"] Suc.prems se(2) by auto
    with Suc show ?case by simp
  qed simp
qed

text \<open>Reading run by run is reading position by position.\<close>

lemma select_list_csr:
  assumes "list_all (\<lambda>i. 0 \<le> i \<and> i < int (length xs)) token_indices"
  shows "select_list (csr xs) token_indices
    = Inr (concat (map (\<lambda>i. xs ! nat i) token_indices), map (\<lambda>i. length (xs ! nat i)) token_indices)"
proof -
  let ?is = "map nat token_indices"
  have rng: "\<forall>i\<in>set ?is. i < length xs" using assms by (auto simp: list_all_iff)
  have len: "map (\<lambda>i. offsets_of xs ! (i + 1) - offsets_of xs ! i) ?is = map (\<lambda>i. length (xs ! nat i)) token_indices"
    using rng by (auto simp: offsets_of_nth take_Suc_conv_app_nth)
  have ok: "\<not> list_ex (\<lambda>i. i < 0 \<or> int (length xs) \<le> i) token_indices"
    using assms by (auto simp: list_all_iff list_ex_iff)
  show ?thesis
  proof (cases "?is = []")
    case True
    then show ?thesis by (simp add: select_list_def)
  next
    case False
    let ?runs = "zip (butlast (run_starts ?is)) (tl (run_starts ?is))"
    have run: "slice (offsets_of xs ! (?is ! s)) (offsets_of xs ! (?is ! (e - 1) + 1)) (concat xs)
        = concat (map (\<lambda>j. xs ! (?is ! j)) [s..<e])" if "(s, e) \<in> set ?runs" for s e
    proof -
      note c = run_consecutive [OF False that]
      let ?a = "?is ! s" and ?k = "e - s"
      have last: "?is ! (e - 1) = ?a + (?k - 1)" using c(3) [of "?k - 1"] c(1) by simp
      have "?is ! (e - 1) < length xs" using rng c(1,2) by (metis diff_less length_map nth_mem order_less_le_trans zero_less_one diff_less not_gr_zero less_nat_zero_code)
      then have b: "?a + ?k \<le> length xs" using last c(1) by simp
      have stop: "?is ! (e - 1) + 1 = ?a + ?k" using last c(1) by simp
      have "slice (offsets_of xs ! ?a) (offsets_of xs ! (?is ! (e - 1) + 1)) (concat xs)
          = concat (take ?k (drop ?a xs))"
        using slice_concat [of ?a "?a + ?k" xs] b stop by (simp add: offsets_of_nth del: One_nat_def)
      also have "take ?k (drop ?a xs) = map (\<lambda>j. xs ! (?is ! j)) [s..<e]"
        using b c by (intro nth_equalityI) (auto simp: add.commute)
      finally show ?thesis .
    qed
    have srt: "sorted (run_starts ?is)" using run_starts_facts(1) [OF False] strict_sorted_imp_sorted by blast
    have ne: "run_starts ?is \<noteq> []" by (simp add: run_starts_def)
    have "concat (map (\<lambda>(s, e). slice (offsets_of xs ! (?is ! s)) (offsets_of xs ! (?is ! (e - 1) + 1)) (concat xs)) ?runs)
        = concat (concat (map (\<lambda>(s, e). map (\<lambda>j. xs ! (?is ! j)) [s..<e]) ?runs))"
      using run unfolding concat_concat by (auto intro!: arg_cong [where f = concat] map_cong)
    also have "concat (map (\<lambda>(s, e). map (\<lambda>j. xs ! (?is ! j)) [s..<e]) ?runs)
        = map (\<lambda>j. xs ! (?is ! j)) [0..<length ?is]"
      unfolding concat_cuts [OF srt ne] run_starts_facts(2,3) [OF False] by (rule refl)
    also have "map (\<lambda>j. xs ! (?is ! j)) [0..<length ?is] = map (\<lambda>i. xs ! nat i) token_indices"
      by (intro nth_equalityI) auto
    finally show ?thesis
      using ok False len by (simp add: select_list_def csr_def mask_length_def Let_def)
  qed
qed

lemma select_range_csr:
  assumes "start \<le> stop" "stop \<le> length xs"
  shows "select_range (csr xs) (int start) (int stop)
    = Inr (concat (take (stop - start) (drop start xs)), map length (take (stop - start) (drop start xs)))"
proof (cases "start = stop")
  case False
  have "map (\<lambda>i. offsets_of xs ! (i + 1) - offsets_of xs ! i) [start..<stop]
      = map length (take (stop - start) (drop start xs))"
    using assms(2) by (intro nth_equalityI) (auto simp: offsets_of_nth take_Suc_conv_app_nth)
  then show ?thesis
    using assms False slice_concat [OF assms]
    by (simp add: select_range_def csr_def mask_length_def Let_def offsets_of_nth)
qed (simp add: select_range_def)

section \<open>Properties\<close>

text \<open>
  The compressed mask is faithful to the list of supports: it can be built exactly from
  lists of non-empty supports of 32-bit ids, reading it back gives the same supports, its
  length is the number of tokens, and it keeps its invariant.
\<close>

theorem mask_roundtrip:
  "(\<exists>m. from_mask_list xs = Inr m) = list_all support_ok xs
   \<and> (case from_mask_list xs of Inl _ \<Rightarrow> True
      | Inr m \<Rightarrow> mask_ok m \<and> masks_of m = xs \<and> mask_length m = length xs)"
proof (cases "list_all support_ok xs")
  case True
  with from_mask_list_csr [OF True] csr_ok [OF True] show ?thesis by (simp add: masks_of_csr)
next
  case False
  then have "\<nexists>m. from_mask_list xs = Inr m" using from_mask_list_Inr by blast
  with False show ?thesis by (auto split: sum.splits)
qed

text \<open>
  C30: on valid masks, concatenation is concatenation of the supports, the prefix of a mask
  is the prefix of its supports, and both ways of selecting, a range in one slice and a list of positions run by run,
  give exactly the supports of those positions in that order with their sizes, whatever runs the positions form, and
  refuse a range or a list that leaves the mask.
\<close>

theorem mask_operations_refine:
  assumes "list_all mask_ok ms" "mask_ok m" "n \<le> mask_length m"
    "list_all (\<lambda>i. 0 \<le> i \<and> i < int (mask_length m)) token_indices" "start \<le> stop" "stop \<le> mask_length m"
  shows "map_sum id masks_of (mask_concatenate ms) = Inr (concat (map masks_of ms))
    \<and> map_sum id masks_of (mask_prefix m (int n)) = Inr (take n (masks_of m))
    \<and> select_range m (int start) (int stop) = Inr (concat (slice start stop (masks_of m)), map length (slice start stop (masks_of m)))
    \<and> select_list m token_indices = Inr (concat (map (\<lambda>i. masks_of m ! nat i) token_indices),
        map (\<lambda>i. length (masks_of m ! nat i)) token_indices)
    \<and> (\<forall>lo hi. lo < hi \<longrightarrow> lo < 0 \<or> int (mask_length m) < hi \<longrightarrow> select_range m lo hi = Inl ValueError)
    \<and> (\<forall>bad. \<not> list_all (\<lambda>i. 0 \<le> i \<and> i < int (mask_length m)) bad \<longrightarrow> select_list m bad = Inl ValueError)"
proof -
  have "map csr (map masks_of ms) = ms"
    using assms(1) mask_ok_csr(1) by (induction ms) auto
  moreover have "list_all (list_all support_ok) (map masks_of ms)"
    using assms(1) mask_ok_csr(2) by (auto simp: list_all_iff)
  ultimately have "mask_concatenate ms = Inr (csr (concat (map masks_of ms)))"
    using concatenate_csr [of "map masks_of ms"] by simp
  moreover obtain xs where xs: "m = csr xs" "list_all support_ok xs" using mask_ok_csr [OF assms(2)] by blast
  moreover have "\<forall>lo hi. lo < hi \<longrightarrow> lo < 0 \<or> int (mask_length m) < hi \<longrightarrow> select_range m lo hi = Inl ValueError"
    by (simp add: select_range_def)
  moreover have "\<forall>bad. \<not> list_all (\<lambda>i. 0 \<le> i \<and> i < int (mask_length m)) bad \<longrightarrow> select_list m bad = Inl ValueError"
    by (auto simp: select_list_def list_all_iff list_ex_iff not_less)
  ultimately show ?thesis
    using prefix_csr [OF xs(2), of n] select_list_csr [of xs token_indices] select_range_csr [OF assms(5), of xs] assms(3-6) xs(1)
    by (simp add: masks_of_csr slice_def)
qed

theorem mask_operations_refine_witness:
  "select_list \<lparr> mask_ids = [5, 6, 7, 8, 9], mask_offsets = [0, 2, 3, 5] \<rparr> [1, 2, 0]
   = Inr ([7, 8, 9, 5, 6], [1, 2, 2])
   \<and> select_range \<lparr> mask_ids = [5, 6, 7, 8, 9], mask_offsets = [0, 2, 3, 5] \<rparr> 1 3 = Inr ([7, 8, 9], [1, 2])"
proof -
  let ?m = "\<lparr> mask_ids = [5, 6, 7, 8, 9], mask_offsets = [0, 2, 3, 5] \<rparr>"
  have ok: "mask_ok ?m" by (simp add: mask_ok_def offsets_ok_def int32_def)
  have idx: "list_all (\<lambda>i. 0 \<le> i \<and> i < int (mask_length ?m)) [1, 2, 0]" by (simp add: mask_length_def)
  have len: "3 \<le> mask_length ?m" by (simp add: mask_length_def)
  have "masks_of ?m = [[5, 6], [7], [8, 9]]" by code_simp
  then show ?thesis using mask_operations_refine [of "[]" ?m 0 "[1, 2, 0]" 1 3, OF _ ok _ idx _ len] by (simp add: slice_def)
qed

end
