(* ===== verification/Samples.thy ===== *)
theory Samples
  imports SamplingMask Messages
begin

text \<open>
  The training sample and its per-token fields (\<open>utils/types.py\<close>): what makes it valid,
  cutting its last tokens, resetting it for a retry, the cut of a list of turns to a
  length (\<open>rollout/session/samples/merge.py\<close>), and the merge of two turns
  (\<open>rollout/generate_utils/sample_utils.py\<close>).  Arrays are lists of rows, a decoded expert
  row is a list of numbers; the tokenizer's decoder is a parameter.
\<close>

section \<open>The sample\<close>

record weight_version_span =
  version :: string
  abs_start :: nat
  abs_end :: nat

datatype sample_status = PENDING | COMPLETED | TRUNCATED | ABORTED | FAILED

record spec_info =
  spec_num_correct_drafts :: int
  spec_num_proposed_drafts :: int
  spec_verify_ct :: int
  spec_completion_tokens :: int

record prefix_cache_info =
  cached_tokens :: int
  total_prompt_tokens :: int

text \<open>A \<open>[n, k]\<close> array is its width and its rows; \<open>-inf\<close> is \<open>None\<close>.\<close>

record sample =
  group_index :: "int option"
  sample_index :: "int option"
  rollout_id :: "int option"
  prompt :: json
  tokens :: "nat list"
  multimodal_inputs :: json
  multimodal_train_inputs :: "(string, int list) dict option"
  response :: string
  response_length :: nat
  label :: "string option"
  reward :: json
  loss_mask :: "nat list option"
  weight_versions :: "weight_version_span list list"
  rollout_log_probs :: "real list option"
  rollout_topk_token_ids :: "(nat \<times> int list list) option"
  rollout_topk_log_probs :: "(nat \<times> real option list list) option"
  rollout_sampling_mask :: "mask option"
  rollout_routed_experts :: "nat list list option"
  rollout_indexer_topk :: "nat list list option"
  remove_sample :: bool
  teacher_log_probs :: "real list option"
  teacher_prompt_ids :: "nat list option"
  opd_reverse_kl :: "real list option"
  status :: sample_status
  metadata :: "message option"
  generate_function_path :: "string option"
  train_metadata :: json
  reward_spec :: "(string option \<times> string option) option"
  routing_key :: "string option"
  trainer_model_id :: "string option"
  non_generation_time :: real
  sample_spec_info :: spec_info
  sample_prefix_cache_info :: prefix_cache_info

definition no_spec :: spec_info where
  "no_spec = \<lparr> spec_num_correct_drafts = 0, spec_num_proposed_drafts = 0, spec_verify_ct = 0, spec_completion_tokens = 0 \<rparr>"

definition no_prefix_cache :: prefix_cache_info where
  "no_prefix_cache = \<lparr> cached_tokens = 0, total_prompt_tokens = 0 \<rparr>"

definition new_sample :: sample where
  "new_sample = \<lparr> group_index = None, sample_index = None, rollout_id = None, prompt = JStr [], tokens = [],
     multimodal_inputs = JNull, multimodal_train_inputs = None, response = [], response_length = 0,
     label = None, reward = JNull, loss_mask = None, weight_versions = [], rollout_log_probs = None,
     rollout_topk_token_ids = None, rollout_topk_log_probs = None, rollout_sampling_mask = None,
     rollout_routed_experts = None, rollout_indexer_topk = None, remove_sample = False,
     teacher_log_probs = None, teacher_prompt_ids = None, opd_reverse_kl = None, status = PENDING,
     metadata = Some [], generate_function_path = None, train_metadata = JNull, reward_spec = None,
     routing_key = None, trainer_model_id = None, non_generation_time = 0, sample_spec_info = no_spec,
     sample_prefix_cache_info = no_prefix_cache \<rparr>"

definition optional_length :: "'a list option \<Rightarrow> nat \<Rightarrow> bool" where
  "optional_length v n \<longleftrightarrow> (case v of None \<Rightarrow> True | Some xs \<Rightarrow> length xs = n)"

definition topk_ok :: "(nat \<times> int list list) option \<Rightarrow> (nat \<times> real option list list) option \<Rightarrow> nat \<Rightarrow> bool" where
  "topk_ok ids logps n \<longleftrightarrow> (case (ids, logps) of
       (None, None) \<Rightarrow> True
     | (Some (k, rows), Some (k', rows')) \<Rightarrow> k = k' \<and> length rows = length rows' \<and> length rows = n
     | _ \<Rightarrow> False)"

text \<open>The rows that expanded media add to the routed experts.\<close>

definition media_extra :: "(string, int list) dict option \<Rightarrow> int" where
  "media_extra mm = sum_list (map (\<lambda>key. sum_list (map (\<lambda>c. c - 1)
     (case dget (case mm of None \<Rightarrow> [] | Some d \<Rightarrow> d) key of None \<Rightarrow> [] | Some cs \<Rightarrow> cs)))
     [''mm_vision_num_patches'', ''mm_audio_num_tokens''])"

fun spans_ok :: "nat \<Rightarrow> nat \<Rightarrow> weight_version_span list \<Rightarrow> bool" where
  "spans_ok previous_end n [] = True"
| "spans_ok previous_end n (sp # sps) \<longleftrightarrow> version sp \<noteq> [] \<and> previous_end \<le> abs_start sp
     \<and> abs_start sp < abs_end sp \<and> abs_end sp \<le> n \<and> spans_ok (abs_end sp) n sps"

definition sample_ok :: "sample \<Rightarrow> bool" where
  "sample_ok s \<longleftrightarrow> (let n = response_length s; rows = int (length (tokens s)) - 1 in
     n \<le> length (tokens s)
     \<and> optional_length (loss_mask s) n
     \<and> optional_length (rollout_log_probs s) n
     \<and> topk_ok (rollout_topk_token_ids s) (rollout_topk_log_probs s) n
     \<and> (case rollout_sampling_mask s of None \<Rightarrow> True | Some m \<Rightarrow> mask_length m = n)
     \<and> optional_length (teacher_log_probs s) n
     \<and> optional_length (opd_reverse_kl s) n
     \<and> (case rollout_routed_experts s of None \<Rightarrow> True
        | Some r \<Rightarrow> int (length r) = rows \<or> int (length r) = rows + media_extra (multimodal_train_inputs s))
     \<and> (case rollout_indexer_topk s of None \<Rightarrow> True | Some r \<Rightarrow> int (length r) = rows)
     \<and> spans_ok 0 (length (tokens s)) (concat (weight_versions s)))"

definition validate :: "sample \<Rightarrow> unit res" where
  "validate s = py_assert (sample_ok s)"

section \<open>Cutting the end\<close>

definition drop_last :: "nat \<Rightarrow> 'a list \<Rightarrow> 'a list" where
  "drop_last n xs = take (length xs - n) xs"

definition json_drop_last :: "nat \<Rightarrow> json \<Rightarrow> json res" where
  "json_drop_last n v = (case v of
       JList xs \<Rightarrow> Inr (JList (drop_last n xs))
     | JStr s \<Rightarrow> Inr (JStr (drop_last n s))
     | _ \<Rightarrow> Inl TypeError)"

definition clip_spans :: "nat \<Rightarrow> weight_version_span list \<Rightarrow> weight_version_span list" where
  "clip_spans n spans = map (\<lambda>sp. if abs_end sp \<le> n then sp else sp\<lparr>abs_end := n\<rparr>)
     (filter (\<lambda>sp. abs_start sp < n) spans)"

text \<open>The pieces that can fail: the mask's prefix, the log-probs beside the ids, the OPD field.\<close>

definition strip_topk :: "nat \<Rightarrow> sample \<Rightarrow> sample res" where
  "strip_topk n s = (case rollout_topk_token_ids s of
       None \<Rightarrow> Inr s
     | Some (k, rows) \<Rightarrow> (case rollout_topk_log_probs s of
         None \<Rightarrow> Inl TypeError
       | Some (k', rows') \<Rightarrow> Inr (s\<lparr> rollout_topk_token_ids := Some (k, drop_last n rows),
           rollout_topk_log_probs := Some (k', drop_last n rows') \<rparr>)))"

definition strip_mask :: "sample \<Rightarrow> sample res" where
  "strip_mask s = (case rollout_sampling_mask s of
       None \<Rightarrow> Inr s
     | Some m \<Rightarrow> rbind (mask_prefix m (int (response_length s))) (\<lambda>m'. Inr (s\<lparr>rollout_sampling_mask := Some m'\<rparr>)))"

definition strip_metadata :: "nat \<Rightarrow> sample \<Rightarrow> sample res" where
  "strip_metadata n s = (case metadata s of
       None \<Rightarrow> Inr s
     | Some md \<Rightarrow> (case dget md ''opd_student_top_logprobs'' of
         None \<Rightarrow> Inr s
       | Some v \<Rightarrow> rbind (json_drop_last n v) (\<lambda>v'. Inr (s\<lparr>metadata := Some (dset md ''opd_student_top_logprobs'' v')\<rparr>))))"

definition strip_last_output_tokens :: "(nat list \<Rightarrow> string) \<Rightarrow> sample \<Rightarrow> nat \<Rightarrow> sample res" where
  "strip_last_output_tokens decode s n =
     (if n = 0 then Inr s
      else rbind (py_assert (n \<le> response_length s)) (\<lambda>_.
      let s1 = s\<lparr> tokens := drop_last n (tokens s), response_length := response_length s - n \<rparr> in
      rbind (strip_topk n s1) (\<lambda>s2.
      rbind (strip_mask (s2\<lparr>rollout_log_probs := map_option (drop_last n) (rollout_log_probs s2)\<rparr>)) (\<lambda>s3.
      rbind (strip_metadata n (s3\<lparr> teacher_log_probs := map_option (drop_last n) (teacher_log_probs s3),
               opd_reverse_kl := map_option (drop_last n) (opd_reverse_kl s3) \<rparr>)) (\<lambda>s4.
        Inr (s4\<lparr> loss_mask := map_option (drop_last n) (loss_mask s4),
          response := (if 0 < response_length s4
            then decode (drop (length (tokens s4) - response_length s4) (tokens s4)) else []),
          rollout_routed_experts := map_option (drop_last n) (rollout_routed_experts s4),
          rollout_indexer_topk := map_option (drop_last n) (rollout_indexer_topk s4),
          weight_versions := map (clip_spans (length (tokens s4))) (weight_versions s4) \<rparr>))))))"

fun truncate_samples_by_total_tokens :: "(nat list \<Rightarrow> string) \<Rightarrow> nat \<Rightarrow> sample list \<Rightarrow> sample list res" where
  "truncate_samples_by_total_tokens decode max_seq_len [] = Inr []"
| "truncate_samples_by_total_tokens decode max_seq_len (s # rest) =
     (let total = length (tokens s) in
      if total \<le> max_seq_len then
        rbind (truncate_samples_by_total_tokens decode max_seq_len rest) (\<lambda>r. Inr (s # r))
      else let overshoot = total - max_seq_len in
        if response_length s \<le> overshoot then Inr []
        else rbind (strip_last_output_tokens decode s overshoot) (\<lambda>s'. Inr [s'\<lparr>status := TRUNCATED\<rparr>]))"

definition reset_for_retry :: "sample \<Rightarrow> sample" where
  "reset_for_retry s = s\<lparr> tokens := [], multimodal_train_inputs := None, response := [], response_length := 0,
     reward := JNull, loss_mask := None, weight_versions := [], rollout_log_probs := None,
     rollout_topk_token_ids := None, rollout_topk_log_probs := None, rollout_sampling_mask := None,
     rollout_routed_experts := None, rollout_indexer_topk := None, status := ABORTED,
     trainer_model_id := None, non_generation_time := 0, sample_spec_info := no_spec,
     sample_prefix_cache_info := no_prefix_cache, remove_sample := False, train_metadata := JNull \<rparr>"

section \<open>Merging two turns\<close>

definition fill_default :: "'a \<Rightarrow> sample \<Rightarrow> 'a list option \<Rightarrow> 'a list" where
  "fill_default d s v = (case v of None \<Rightarrow> replicate (response_length s) d | Some xs \<Rightarrow> xs)"

definition fill_defaults :: "sample \<Rightarrow> sample" where
  "fill_defaults s = s\<lparr> loss_mask := Some (fill_default 1 s (loss_mask s)),
     rollout_log_probs := Some (fill_default 0 s (rollout_log_probs s)) \<rparr>"

definition merge_optional_per_token :: "sample \<Rightarrow> sample \<Rightarrow> nat \<Rightarrow> real list option \<Rightarrow> real list option \<Rightarrow> real list option" where
  "merge_optional_per_token a b obs_len av bv =
     (if av = None \<and> bv = None then None
      else Some (fill_default 0 a av @ replicate obs_len 0 @ fill_default 0 b bv))"

text \<open>The metadata without its three merged keys, and those keys' values.\<close>

definition pop_key :: "string \<Rightarrow> message option \<Rightarrow> message option \<times> json option" where
  "pop_key key md = (case md of None \<Rightarrow> (None, None) | Some d \<Rightarrow> (Some (ddel d key), dget d key))"

definition as_list :: "json option \<Rightarrow> json list" where
  "as_list v = (case v of None \<Rightarrow> [] | Some (JList xs) \<Rightarrow> xs | Some x \<Rightarrow> [x])"

text \<open>A \<open>null\<close> value of the popped OPD key counts as absent, as \<open>pop(key, None)\<close> makes it.\<close>

definition non_null :: "json option \<Rightarrow> json option" where
  "non_null v = (if v = Some JNull then None else v)"

definition merge_opd_top_logprobs ::
  "sample \<Rightarrow> sample \<Rightarrow> nat \<Rightarrow> json option \<Rightarrow> json option \<Rightarrow> json list option res" where
  "merge_opd_top_logprobs a b obs_len av bv = (case (av, bv) of
       (None, None) \<Rightarrow> Inr None
     | (Some (JList xs), Some (JList ys)) \<Rightarrow>
         (if length xs = response_length a \<and> length ys = response_length b
          then Inr (Some (xs @ replicate obs_len (JList []) @ ys)) else Inl AssertionError)
     | (Some _, Some _) \<Rightarrow> Inl TypeError
     | _ \<Rightarrow> Inl AssertionError)"

definition truthy_json :: "json option \<Rightarrow> bool" where
  "truthy_json v = (case v of None \<Rightarrow> False | Some JNull \<Rightarrow> False | Some (JBool b) \<Rightarrow> b | Some (JInt i) \<Rightarrow> i \<noteq> 0
     | Some (JFloat r) \<Rightarrow> r \<noteq> 0 | Some (JStr s) \<Rightarrow> s \<noteq> [] | Some (JList xs) \<Rightarrow> xs \<noteq> [] | Some (JObj kvs) \<Rightarrow> kvs \<noteq> [])"

definition metadata_set :: "message option \<Rightarrow> string \<Rightarrow> json \<Rightarrow> message option" where
  "metadata_set md key v = Some (dset (case md of None \<Rightarrow> [] | Some d \<Rightarrow> d) key v)"

definition metadata_eq :: "message option \<Rightarrow> message option \<Rightarrow> bool" where
  "metadata_eq a b = (case (a, b) of
       (None, None) \<Rightarrow> True | (Some x, Some y) \<Rightarrow> py_eq (JObj x) (JObj y) | _ \<Rightarrow> False)"

definition merge_metadata :: "sample \<Rightarrow> sample \<Rightarrow> nat \<Rightarrow> message option res" where
  "merge_metadata a b obs_len =
     (let (a1, a_top) = pop_key ''opd_student_top_logprobs'' (metadata a);
          (b1, b_top) = pop_key ''opd_student_top_logprobs'' (metadata b);
          (a2, a_life) = pop_key ''lifecycle'' a1;
          (b2, b_life) = pop_key ''lifecycle'' b1;
          (a3, a_messages) = pop_key ''messages'' a2;
          (b3, b_messages) = pop_key ''messages'' b2 in
      rbind (py_assert (metadata_eq a3 b3)) (\<lambda>_.
      rbind (merge_opd_top_logprobs a b obs_len (non_null a_top) (non_null b_top)) (\<lambda>top.
        let m1 = (case top of None \<Rightarrow> a3 | Some xs \<Rightarrow> metadata_set a3 ''opd_student_top_logprobs'' (JList xs));
            life = as_list a_life @ as_list b_life;
            m2 = (if life = [] then m1 else metadata_set m1 ''lifecycle'' (JList life));
            msgs = (if truthy_json b_messages then b_messages else a_messages) in
        Inr (case non_null msgs of None \<Rightarrow> m2 | Some v \<Rightarrow> metadata_set m2 ''messages'' v))))"

text \<open>\<open>merge_sampling_masks\<close>: the observation's tokens get singleton supports.\<close>

definition merge_sampling_masks :: "sample \<Rightarrow> nat list \<Rightarrow> sample \<Rightarrow> mask option res" where
  "merge_sampling_masks first obs second =
     (case (rollout_sampling_mask first, rollout_sampling_mask second) of
       (None, None) \<Rightarrow> Inr None
     | (Some m1, Some m2) \<Rightarrow>
         rbind (from_mask_list (map (\<lambda>i. [int i]) obs)) (\<lambda>m.
         rbind (mask_concatenate [m1, m, m2]) (\<lambda>r. Inr (Some r)))
     | _ \<Rightarrow> Inl ValueError)"

text \<open>\<open>merge_rollout_topk_logprobs_field\<close>\<close>

definition merge_topk_field :: "'a \<Rightarrow> (nat \<times> 'a list list) option \<Rightarrow> (nat \<times> 'a list list) option \<Rightarrow> nat
   \<Rightarrow> (nat \<times> 'a list list) option res" where
  "merge_topk_field fill a b gap = (case (a, b) of
       (None, None) \<Rightarrow> Inr None
     | (Some (k, rows), Some (k', rows')) \<Rightarrow>
         (if k = k' then Inr (Some (k, rows @ replicate gap (replicate k fill) @ rows')) else Inl ValueError)
     | _ \<Rightarrow> Inl ValueError)"

definition json_prefix :: "json \<Rightarrow> json \<Rightarrow> bool res" where
  "json_prefix short long = (case (short, long) of
       (JStr x, JStr y) \<Rightarrow> Inr (take (length x) y = x)
     | (JList xs, JList ys) \<Rightarrow> Inr (length xs \<le> length ys \<and> py_eq (JList (take (length xs) ys)) (JList xs))
     | _ \<Rightarrow> Inl NotImplementedError)"

definition add_spec_info :: "spec_info \<Rightarrow> spec_info \<Rightarrow> spec_info" where
  "add_spec_info a b = \<lparr> spec_num_correct_drafts = spec_num_correct_drafts a + spec_num_correct_drafts b,
     spec_num_proposed_drafts = spec_num_proposed_drafts a + spec_num_proposed_drafts b,
     spec_verify_ct = spec_verify_ct a + spec_verify_ct b,
     spec_completion_tokens = spec_completion_tokens a + spec_completion_tokens b \<rparr>"

definition add_prefix_cache_info :: "prefix_cache_info \<Rightarrow> prefix_cache_info \<Rightarrow> prefix_cache_info" where
  "add_prefix_cache_info a b = \<lparr> cached_tokens = cached_tokens a + cached_tokens b,
     total_prompt_tokens = total_prompt_tokens a + total_prompt_tokens b \<rparr>"

text \<open>
  The fields that must agree, in the three groups that the code compares before the
  per-token fields, after them, and after the metadata.
\<close>

definition same_dict :: "('k, 'v) dict option \<Rightarrow> ('k, 'v) dict option \<Rightarrow> bool" where
  "same_dict a b = (case (a, b) of
       (None, None) \<Rightarrow> True
     | (Some x, Some y) \<Rightarrow> list_all (\<lambda>(k, v). dget y k = Some v) x \<and> list_all (\<lambda>(k, v). dget x k = Some v) y
     | _ \<Rightarrow> False)"

definition equal_identity :: "sample \<Rightarrow> sample \<Rightarrow> bool" where
  "equal_identity a b \<longleftrightarrow> group_index a = group_index b \<and> sample_index a = sample_index b \<and> rollout_id a = rollout_id b
     \<and> py_eq (multimodal_inputs a) (multimodal_inputs b)
     \<and> same_dict (multimodal_train_inputs a) (multimodal_train_inputs b)
     \<and> label a = label b \<and> py_eq (reward a) (reward b)"

definition equal_training :: "sample \<Rightarrow> sample \<Rightarrow> bool" where
  "equal_training a b \<longleftrightarrow>
     generate_function_path a = generate_function_path b \<and> py_eq (train_metadata a) (train_metadata b)
     \<and> reward_spec a = reward_spec b \<and> routing_key a = routing_key b \<and> trainer_model_id a = trainer_model_id b
     \<and> non_generation_time a = non_generation_time b"

definition rows_grow :: "nat list list option \<Rightarrow> nat list list option \<Rightarrow> bool" where
  "rows_grow a b = (case a of None \<Rightarrow> True | Some xs \<Rightarrow> (case b of None \<Rightarrow> False | Some ys \<Rightarrow> length xs \<le> length ys))"

text \<open>
  The field values that the merge computes, in the order of its assertions, with the names
  of the fields it passes on.
\<close>

definition merged_fields :: "(nat list \<Rightarrow> string) \<Rightarrow> sample \<Rightarrow> sample \<Rightarrow> sample res" where
  "merged_fields decode a0 b0 =
     (let a = fill_defaults a0; b = fill_defaults b0;
          obs = int (length (tokens b)) - int (length (tokens a)) - int (response_length b);
          obs_len = nat obs;
          obs_tokens = take obs_len (drop (length (tokens a)) (tokens b)) in
      rbind (validate a) (\<lambda>_. rbind (validate b) (\<lambda>_.
      rbind (json_prefix (prompt a) (prompt b)) (\<lambda>pre.
      rbind (py_assert pre) (\<lambda>_.
      rbind (py_assert (take (length (tokens a)) (tokens b) = tokens a)) (\<lambda>_.
      rbind (py_assert (0 < obs)) (\<lambda>_.
      rbind (merge_sampling_masks a obs_tokens b) (\<lambda>mask.
      rbind (py_assert (rows_grow (rollout_routed_experts a) (rollout_routed_experts b)
               \<and> rows_grow (rollout_indexer_topk a) (rollout_indexer_topk b)
               \<and> status a = COMPLETED)) (\<lambda>_.
      rbind (py_assert (equal_identity a b)) (\<lambda>_.
      rbind (merge_topk_field (-1) (rollout_topk_token_ids a) (rollout_topk_token_ids b) obs_len) (\<lambda>topk_ids.
      rbind (merge_topk_field None (rollout_topk_log_probs a) (rollout_topk_log_probs b) obs_len) (\<lambda>topk_logps.
      rbind (py_assert (remove_sample a = remove_sample b)) (\<lambda>_.
      rbind (merge_metadata a b obs_len) (\<lambda>md.
      rbind (py_assert (equal_training a b)) (\<lambda>_.
        Inr (a\<lparr> prompt := prompt b, tokens := tokens b,
          response := response a @ decode obs_tokens @ response b,
          response_length := response_length a + obs_len + response_length b,
          loss_mask := Some (the (loss_mask a) @ replicate obs_len 0 @ the (loss_mask b)),
          weight_versions := weight_versions a @ weight_versions b,
          rollout_log_probs := Some (the (rollout_log_probs a) @ replicate obs_len 0 @ the (rollout_log_probs b)),
          rollout_topk_token_ids := topk_ids, rollout_topk_log_probs := topk_logps,
          rollout_sampling_mask := mask,
          teacher_log_probs := merge_optional_per_token a b obs_len (teacher_log_probs a) (teacher_log_probs b),
          opd_reverse_kl := merge_optional_per_token a b obs_len (opd_reverse_kl a) (opd_reverse_kl b),
          rollout_routed_experts := rollout_routed_experts b, rollout_indexer_topk := rollout_indexer_topk b,
          status := status b, metadata := md,
          sample_spec_info := add_spec_info (sample_spec_info a) (sample_spec_info b),
          sample_prefix_cache_info := add_prefix_cache_info (sample_prefix_cache_info a) (sample_prefix_cache_info b) \<rparr>))))))))))))))))"

text \<open>
  The constructor call names every field it passes; \<open>_create_with_all_fields\<close> asserts that
  these are exactly the fields of the class.
\<close>

definition SAMPLE_FIELDS :: "string list" where
  "SAMPLE_FIELDS = [''group_index'', ''index'', ''rollout_id'', ''prompt'', ''tokens'', ''multimodal_inputs'',
     ''multimodal_train_inputs'', ''response'', ''response_length'', ''label'', ''reward'', ''loss_mask'',
     ''weight_versions'', ''rollout_log_probs'', ''rollout_topk_token_ids'', ''rollout_topk_log_probs'',
     ''rollout_sampling_mask'', ''rollout_routed_experts'', ''rollout_indexer_topk'', ''remove_sample'',
     ''teacher_log_probs'', ''teacher_prompt_ids'', ''opd_reverse_kl'', ''status'', ''metadata'',
     ''generate_function_path'', ''train_metadata'', ''reward_spec'', ''routing_key'', ''trainer_model_id'',
     ''non_generation_time'', ''spec_info'', ''prefix_cache_info'']"

definition MERGED_FIELDS :: "string list" where
  "MERGED_FIELDS = [''group_index'', ''index'', ''rollout_id'', ''prompt'', ''tokens'', ''multimodal_inputs'',
     ''multimodal_train_inputs'', ''response'', ''response_length'', ''label'', ''reward'', ''loss_mask'',
     ''weight_versions'', ''rollout_log_probs'', ''rollout_topk_token_ids'', ''rollout_topk_log_probs'',
     ''rollout_sampling_mask'', ''teacher_log_probs'', ''opd_reverse_kl'', ''rollout_routed_experts'',
     ''rollout_indexer_topk'', ''remove_sample'', ''status'', ''metadata'', ''generate_function_path'',
     ''train_metadata'', ''reward_spec'', ''routing_key'', ''trainer_model_id'', ''non_generation_time'',
     ''spec_info'', ''prefix_cache_info'']"

definition create_with_all_fields :: "string list \<Rightarrow> string list \<Rightarrow> 'a \<Rightarrow> 'a res" where
  "create_with_all_fields expected actual v =
     rbind (py_assert (list_all (\<lambda>k. k \<in> set actual) expected \<and> list_all (\<lambda>k. k \<in> set expected) actual)) (\<lambda>_. Inr v)"

definition merge_sample_pair :: "(nat list \<Rightarrow> string) \<Rightarrow> sample \<Rightarrow> sample \<Rightarrow> sample res" where
  "merge_sample_pair decode a b =
     rbind (merged_fields decode a b) (create_with_all_fields SAMPLE_FIELDS MERGED_FIELDS)"

definition introduces_replay_gap :: "sample \<Rightarrow> sample \<Rightarrow> bool" where
  "introduces_replay_gap a b \<longleftrightarrow>
     rollout_routed_experts a \<noteq> None \<and> rollout_routed_experts b = None
     \<or> rollout_indexer_topk a \<noteq> None \<and> rollout_indexer_topk b = None
     \<or> rollout_sampling_mask a \<noteq> None \<and> rollout_sampling_mask b = None"

fun merge_loop :: "(nat list \<Rightarrow> string) \<Rightarrow> sample \<Rightarrow> sample list \<Rightarrow> sample res" where
  "merge_loop decode acc [] = Inr acc"
| "merge_loop decode acc (s # rest) =
     (if status acc \<noteq> COMPLETED \<or> introduces_replay_gap acc s then Inr acc
      else rbind (merge_sample_pair decode acc s) (\<lambda>acc'. merge_loop decode acc' rest))"

definition merge_samples :: "(nat list \<Rightarrow> string) \<Rightarrow> sample list \<Rightarrow> sample res" where
  "merge_samples decode samples = (case samples of [] \<Rightarrow> Inl IndexError | s # rest \<Rightarrow> merge_loop decode s rest)"

section \<open>Cutting keeps a sample valid\<close>

lemma length_drop_last [simp]: "length (drop_last n xs) = length xs - n"
  by (simp add: drop_last_def)

lemma clip_Cons:
  "clip_spans n (sp # sps) = (if abs_start sp < n
     then (if abs_end sp \<le> n then sp else sp\<lparr>abs_end := n\<rparr>) # clip_spans n sps else clip_spans n sps)"
  by (simp add: clip_spans_def)

lemma spans_ok_mono: "spans_ok p n sps \<Longrightarrow> p' \<le> p \<Longrightarrow> spans_ok p' n sps"
  by (cases sps) auto

lemma spans_ok_starts: "spans_ok p n sps \<Longrightarrow> sp \<in> set sps \<Longrightarrow> p \<le> abs_start sp"
  by (induction p n sps arbitrary: sp rule: spans_ok.induct) force+

lemma clip_spans_ok: "spans_ok p N sps \<Longrightarrow> p' \<le> p \<Longrightarrow> spans_ok p' n (clip_spans n sps)"
proof (induction p N sps arbitrary: p' rule: spans_ok.induct)
  case (1 p N)
  then show ?case by (simp add: clip_spans_def)
next
  case (2 p N sp sps)
  then have rest: "spans_ok (abs_end sp) N sps" by simp
  show ?case
  proof (cases "abs_start sp < n")
    case True
    have tail: "spans_ok (min (abs_end sp) n) n (clip_spans n sps)"
      using 2(1) [of "min (abs_end sp) n"] rest 2(2) by simp
    show ?thesis using True 2(2,3) tail by (auto simp: clip_Cons min_def split: if_splits)
  next
    case False
    then show ?thesis using 2(1) [of p'] 2(2,3) rest by (auto simp: clip_Cons)
  qed
qed

lemma concat_clip: "concat (map (clip_spans n) ws) = clip_spans n (concat ws)"
  by (induction ws) (simp_all add: clip_spans_def)

definition masks_valid :: "sample \<Rightarrow> bool" where
  "masks_valid s \<longleftrightarrow> (case rollout_sampling_mask s of None \<Rightarrow> True | Some m \<Rightarrow> mask_ok m)"

definition opd_field_ok :: "sample \<Rightarrow> bool" where
  "opd_field_ok s \<longleftrightarrow> (case metadata s of None \<Rightarrow> True | Some md \<Rightarrow>
     (case dget md ''opd_student_top_logprobs'' of None \<Rightarrow> True | Some v \<Rightarrow> (case v of JList _ \<Rightarrow> True | _ \<Rightarrow> False)))"

lemma optional_drop_last:
  "optional_length v n \<Longrightarrow> optional_length (map_option (drop_last k) v) (n - k)"
  by (auto simp: optional_length_def split: option.splits)

lemma strip_topk_facts:
  assumes "topk_ok (rollout_topk_token_ids s) (rollout_topk_log_probs s) n"
  obtains ids lps where "strip_topk k s = Inr (s\<lparr> rollout_topk_token_ids := ids, rollout_topk_log_probs := lps \<rparr>)"
    "topk_ok ids lps (n - k)"
proof (cases "rollout_topk_token_ids s")
  case None
  with assms have "rollout_topk_log_probs s = None" by (simp add: topk_ok_def split: option.splits)
  with None have "strip_topk k s = Inr (s\<lparr> rollout_topk_token_ids := None, rollout_topk_log_probs := None \<rparr>)"
    by (simp add: strip_topk_def)
  then show ?thesis by (rule that) (simp add: topk_ok_def)
next
  case (Some x)
  obtain w rows where x: "x = (w, rows)" by fastforce
  from assms Some x obtain w' rows' where y: "rollout_topk_log_probs s = Some (w', rows')"
    "w = w'" "length rows = length rows'" "length rows = n"
    by (auto simp: topk_ok_def split: option.splits prod.splits)
  with Some x have "strip_topk k s = Inr (s\<lparr> rollout_topk_token_ids := Some (w, drop_last k rows),
       rollout_topk_log_probs := Some (w', drop_last k rows') \<rparr>)" by (simp add: strip_topk_def)
  then show ?thesis by (rule that) (use y in \<open>simp add: topk_ok_def\<close>)
qed

lemma strip_mask_facts:
  assumes "masks_valid s" "case rollout_sampling_mask s of None \<Rightarrow> True | Some m \<Rightarrow> response_length s \<le> mask_length m"
  obtains mk where "strip_mask s = Inr (s\<lparr>rollout_sampling_mask := mk\<rparr>)"
    "case mk of None \<Rightarrow> True | Some m \<Rightarrow> mask_ok m \<and> mask_length m = response_length s"
    "map_option masks_of mk = map_option (\<lambda>m. take (response_length s) (masks_of m)) (rollout_sampling_mask s)"
proof (cases "rollout_sampling_mask s")
  case None
  with that [of None] show ?thesis by (simp add: strip_mask_def)
next
  case (Some m)
  with assms have m: "mask_ok m" "response_length s \<le> mask_length m" by (simp_all add: masks_valid_def)
  obtain xs where xs: "m = csr xs" "list_all support_ok xs" using mask_ok_csr [OF m(1)] by blast
  have "list_all support_ok (take (response_length s) xs)" using xs(2) by (auto simp: list_all_iff dest: in_set_takeD)
  then show ?thesis
    by (intro that [of "Some (csr (take (response_length s) xs))"])
      (use Some xs m(2) prefix_csr [OF xs(2), of "response_length s"] csr_ok in
        \<open>auto simp: strip_mask_def masks_of_csr\<close>)
qed

lemma strip_metadata_facts:
  assumes "opd_field_ok s"
  obtains md where "strip_metadata n s = Inr (s\<lparr>metadata := md\<rparr>)"
proof (cases "metadata s")
  case None
  with that [of None] show ?thesis by (simp add: strip_metadata_def)
next
  case (Some d)
  show ?thesis
  proof (cases "dget d ''opd_student_top_logprobs''")
    case None
    then have "strip_metadata n s = Inr (s\<lparr>metadata := metadata s\<rparr>)" using Some by (simp add: strip_metadata_def)
    then show ?thesis by (rule that)
  next
    case v: (Some v)
    then obtain xs where "v = JList xs" using assms Some by (cases v) (simp_all add: opd_field_ok_def)
    then have "strip_metadata n s
        = Inr (s\<lparr>metadata := Some (dset d ''opd_student_top_logprobs'' (JList (drop_last n xs)))\<rparr>)"
      using Some v by (simp add: strip_metadata_def json_drop_last_def)
    then show ?thesis by (rule that)
  qed
qed

lemma drop_last_rows:
  assumes "int (length r) = int t - 1 \<or> int (length r) = int t - 1 + e" "0 \<le> e" "n < t"
  shows "int (length (drop_last n r)) = int (t - n) - 1 \<or> int (length (drop_last n r)) = int (t - n) - 1 + e"
  using assms by auto

lemma strip_ok:
  assumes ok: "sample_ok s" and prompt: "response_length s < length (tokens s)" and n: "n \<le> response_length s"
    and mm: "0 \<le> media_extra (multimodal_train_inputs s)" and mask: "masks_valid s" and md: "opd_field_ok s"
  obtains s' where "strip_last_output_tokens decode s n = Inr s'" "sample_ok s'"
    "tokens s' = take (length (tokens s) - n) (tokens s)" "response_length s' = response_length s - n"
    "map_option masks_of (rollout_sampling_mask s')
      = map_option (\<lambda>m. take (response_length s - n) (masks_of m)) (rollout_sampling_mask s)"
    "status s' = status s"
proof (cases "n = 0")
  case True
  have "take (response_length s) (masks_of m) = masks_of m" if "rollout_sampling_mask s = Some m" for m
    using ok that by (simp add: sample_ok_def Let_def masks_of_def)
  then have "map_option masks_of (rollout_sampling_mask s)
      = map_option (\<lambda>m. take (response_length s - n) (masks_of m)) (rollout_sampling_mask s)"
    using True by (cases "rollout_sampling_mask s") auto
  with True ok show ?thesis by (intro that [of s]) (simp_all add: strip_last_output_tokens_def)
next
  case False
  let ?L = "length (tokens s) - n" and ?R = "response_length s - n"
  note o = ok [unfolded sample_ok_def Let_def]
  define s1 where "s1 = s\<lparr> tokens := drop_last n (tokens s), response_length := ?R \<rparr>"
  have "topk_ok (rollout_topk_token_ids s1) (rollout_topk_log_probs s1) (response_length s)"
    using o by (simp add: s1_def)
  then obtain ids lps where s2: "strip_topk n s1
      = Inr (s1\<lparr> rollout_topk_token_ids := ids, rollout_topk_log_probs := lps \<rparr>)" "topk_ok ids lps ?R"
    by (rule strip_topk_facts)
  define s2 where "s2 = s1\<lparr> rollout_topk_token_ids := ids, rollout_topk_log_probs := lps,
    rollout_log_probs := map_option (drop_last n) (rollout_log_probs s) \<rparr>"
  have f2: "rollout_sampling_mask s2 = rollout_sampling_mask s" "response_length s2 = ?R"
    by (simp_all add: s2_def s1_def)
  have "masks_valid s2" using mask f2 by (simp add: masks_valid_def)
  moreover have "case rollout_sampling_mask s2 of None \<Rightarrow> True | Some m \<Rightarrow> response_length s2 \<le> mask_length m"
    using o f2 by (auto split: option.splits)
  ultimately obtain mk where raw: "strip_mask s2 = Inr (s2\<lparr>rollout_sampling_mask := mk\<rparr>)"
    "case mk of None \<Rightarrow> True | Some m \<Rightarrow> mask_ok m \<and> mask_length m = response_length s2"
    "map_option masks_of mk = map_option (\<lambda>m. take (response_length s2) (masks_of m)) (rollout_sampling_mask s2)"
    by (rule strip_mask_facts)
  note s3 = raw [unfolded f2]
  define s3 where "s3 = s2\<lparr> rollout_sampling_mask := mk, teacher_log_probs := map_option (drop_last n) (teacher_log_probs s),
    opd_reverse_kl := map_option (drop_last n) (opd_reverse_kl s) \<rparr>"
  have "opd_field_ok s3" using md by (simp add: opd_field_ok_def s3_def s2_def s1_def)
  then obtain d where s4: "strip_metadata n s3 = Inr (s3\<lparr>metadata := d\<rparr>)" by (rule strip_metadata_facts)
  define s' where "s' = s3\<lparr> metadata := d, loss_mask := map_option (drop_last n) (loss_mask s),
    response := (if 0 < ?R then decode (drop (?L - ?R) (drop_last n (tokens s))) else []),
    rollout_routed_experts := map_option (drop_last n) (rollout_routed_experts s),
    rollout_indexer_topk := map_option (drop_last n) (rollout_indexer_topk s),
    weight_versions := map (clip_spans ?L) (weight_versions s) \<rparr>"
  have run: "strip_last_output_tokens decode s n = Inr s'"
  proof -
    have e1: "s1\<lparr> rollout_topk_token_ids := ids, rollout_topk_log_probs := lps,
        rollout_log_probs := map_option (drop_last n) (rollout_log_probs (s1\<lparr> rollout_topk_token_ids := ids, rollout_topk_log_probs := lps \<rparr>)) \<rparr> = s2"
      by (simp add: s2_def s1_def)
    have e2: "s2\<lparr> rollout_sampling_mask := mk, teacher_log_probs := map_option (drop_last n) (teacher_log_probs (s2\<lparr>rollout_sampling_mask := mk\<rparr>)),
        opd_reverse_kl := map_option (drop_last n) (opd_reverse_kl (s2\<lparr>rollout_sampling_mask := mk\<rparr>)) \<rparr> = s3"
      by (simp add: s3_def s2_def s1_def)
    have pa: "py_assert (n \<le> response_length s) = Inr ()" using n by simp
    show ?thesis
      unfolding strip_last_output_tokens_def Let_def s1_def [symmetric]
      by (simp only: False if_False pa rbind_simps s2(1) e1 s3(1) e2 s4)
        (simp add: s'_def s3_def s2_def s1_def)
  qed
  have toks: "length (tokens s') = ?L" "response_length s' = ?R" "tokens s' = take ?L (tokens s)"
    by (simp_all add: s'_def s3_def s2_def s1_def drop_last_def)
  have "spans_ok 0 ?L (concat (weight_versions s'))"
    using clip_spans_ok [of 0 "length (tokens s)" "concat (weight_versions s)" 0 ?L] o
    by (simp add: s'_def concat_clip)
  moreover have "optional_length (loss_mask s') ?R" "optional_length (rollout_log_probs s') ?R"
    "optional_length (teacher_log_probs s') ?R" "optional_length (opd_reverse_kl s') ?R"
    using o by (auto simp: s'_def s3_def s2_def s1_def intro: optional_drop_last)
  moreover have "topk_ok (rollout_topk_token_ids s') (rollout_topk_log_probs s') ?R"
    using s2(2) by (simp add: s'_def s3_def s2_def)
  moreover have mk: "rollout_sampling_mask s' = mk" by (simp add: s'_def s3_def)
  moreover have "case rollout_routed_experts s' of None \<Rightarrow> True | Some r \<Rightarrow>
      int (length r) = int ?L - 1 \<or> int (length r) = int ?L - 1 + media_extra (multimodal_train_inputs s')"
  proof (cases "rollout_routed_experts s")
    case None
    then show ?thesis by (simp add: s'_def)
  next
    case (Some r)
    have "multimodal_train_inputs s' = multimodal_train_inputs s" by (simp add: s'_def s3_def s2_def s1_def)
    moreover have "rollout_routed_experts s' = Some (drop_last n r)" using Some by (simp add: s'_def)
    moreover have "int (length r) = int (length (tokens s)) - 1
        \<or> int (length r) = int (length (tokens s)) - 1 + media_extra (multimodal_train_inputs s)"
      using o Some by simp
    from drop_last_rows [OF this mm, of n] prompt n
    have "int (length (drop_last n r)) = int ?L - 1
        \<or> int (length (drop_last n r)) = int ?L - 1 + media_extra (multimodal_train_inputs s)" by simp
    ultimately show ?thesis by simp
  qed
  moreover have "case rollout_indexer_topk s' of None \<Rightarrow> True | Some r \<Rightarrow> int (length r) = int ?L - 1"
    using o prompt n by (cases "rollout_indexer_topk s") (auto simp: s'_def)
  moreover have "?R \<le> ?L" using prompt by simp
  ultimately have "sample_ok s'"
    using s3(2) toks unfolding sample_ok_def Let_def toks(1,2) by (simp split: option.splits)
  moreover have "status s' = status s" by (simp add: s'_def s3_def s2_def s1_def)
  ultimately show ?thesis using that run toks mk s3(3) by simp
qed

lemma sample_ok_status [simp]: "sample_ok (s\<lparr>status := st\<rparr>) = sample_ok s"
  by (cases "rollout_routed_experts s") (simp_all add: sample_ok_def Let_def)

definition strippable :: "sample \<Rightarrow> bool" where
  "strippable s \<longleftrightarrow> sample_ok s \<and> response_length s < length (tokens s)
     \<and> 0 \<le> media_extra (multimodal_train_inputs s) \<and> masks_valid s \<and> opd_field_ok s"

lemma strippable_strip:
  assumes "strippable s" "n \<le> response_length s"
  obtains s' where "strip_last_output_tokens decode s n = Inr s'" "sample_ok s'"
    "tokens s' = take (length (tokens s) - n) (tokens s)" "response_length s' = response_length s - n"
    "map_option masks_of (rollout_sampling_mask s')
      = map_option (\<lambda>m. take (response_length s - n) (masks_of m)) (rollout_sampling_mask s)"
  using assms strip_ok [of s n] unfolding strippable_def by blast

text \<open>
  Cutting output tokens keeps a sample valid: on a valid sample with a prompt, cutting at
  most the response never fails, the tokens and the supports are those of the shorter
  response, and every per-token field, replay row and weight-version span agrees with it.
\<close>

theorem strip_keeps_sample_valid:
  assumes "strippable s" "n \<le> response_length s"
  shows "\<exists>s'. strip_last_output_tokens decode s n = Inr s' \<and> sample_ok s'
    \<and> tokens s' = take (length (tokens s) - n) (tokens s) \<and> response_length s' = response_length s - n
    \<and> map_option masks_of (rollout_sampling_mask s')
      = map_option (\<lambda>m. take (response_length s - n) (masks_of m)) (rollout_sampling_mask s)"
  using strippable_strip [OF assms, of decode] by metis

lemma truncate_cases:
  assumes "list_all strippable ss"
  shows "\<exists>k. k \<le> length ss \<and> list_all (\<lambda>s. length (tokens s) \<le> budget) (take k ss)
    \<and> (truncate_samples_by_total_tokens decode budget ss = Inr (take k ss)
          \<and> (k < length ss \<longrightarrow> response_length (ss ! k) + budget \<le> length (tokens (ss ! k)))
       \<or> (\<exists>s'. k < length ss \<and> truncate_samples_by_total_tokens decode budget ss = Inr (take k ss @ [s'])
            \<and> sample_ok s' \<and> status s' = TRUNCATED \<and> tokens s' = take budget (tokens (ss ! k))
            \<and> length (tokens s') = budget))"
  using assms
proof (induction ss)
  case (Cons s ss)
  show ?case
  proof (cases "length (tokens s) \<le> budget")
    case True
    from Cons obtain k where k: "k \<le> length ss" "list_all (\<lambda>s. length (tokens s) \<le> budget) (take k ss)"
      "truncate_samples_by_total_tokens decode budget ss = Inr (take k ss)
          \<and> (k < length ss \<longrightarrow> response_length (ss ! k) + budget \<le> length (tokens (ss ! k)))
       \<or> (\<exists>s'. k < length ss \<and> truncate_samples_by_total_tokens decode budget ss = Inr (take k ss @ [s'])
            \<and> sample_ok s' \<and> status s' = TRUNCATED \<and> tokens s' = take budget (tokens (ss ! k))
            \<and> length (tokens s') = budget)"
      by auto
    then show ?thesis using True by (intro exI [of _ "Suc k"]) auto
  next
    case False
    let ?o = "length (tokens s) - budget"
    show ?thesis
    proof (cases "response_length s \<le> ?o")
      case True
      with False show ?thesis by (intro exI [of _ 0]) auto
    next
      case lt: False
      have st: "strippable s" using Cons.prems by simp
      obtain s' where s': "strip_last_output_tokens decode s ?o = Inr s'" "sample_ok s'"
        "tokens s' = take (length (tokens s) - ?o) (tokens s)"
        by (rule strippable_strip [OF st, of ?o decode]) (use lt in simp_all)
      then show ?thesis using False lt s' by (intro exI [of _ 0]) auto
    qed
  qed
qed simp

text \<open>
  Cutting a list of turns to a token budget keeps a prefix of the turns unchanged, all
  within the budget; the first turn that overflows is either dropped, when no output token
  of it fits, or cut to exactly the budget and marked truncated.
\<close>

theorem truncate_respects_budget:
  assumes "list_all strippable ss"
  shows "\<exists>k. k \<le> length ss \<and> list_all (\<lambda>s. length (tokens s) \<le> budget) (take k ss)
    \<and> (truncate_samples_by_total_tokens decode budget ss = Inr (take k ss)
          \<and> (k < length ss \<longrightarrow> response_length (ss ! k) + budget \<le> length (tokens (ss ! k)))
       \<or> (\<exists>s'. k < length ss \<and> truncate_samples_by_total_tokens decode budget ss = Inr (take k ss @ [s'])
            \<and> sample_ok s' \<and> status s' = TRUNCATED \<and> tokens s' = take budget (tokens (ss ! k))
            \<and> length (tokens s') = budget))"
  by (rule truncate_cases [OF assms])

text \<open>
  A sample reset for a retry is valid only when it carried no teacher log-probs and no
  reverse-KL estimates: those two per-token lists survive the reset of the tokens they
  belong to.
\<close>

theorem reset_keeps_teacher_fields:
  "sample_ok (reset_for_retry s) =
     (teacher_log_probs s \<in> {None, Some []} \<and> opd_reverse_kl s \<in> {None, Some []})"
  by (auto simp: sample_ok_def reset_for_retry_def optional_length_def topk_ok_def split: option.splits)

text \<open>
  C36: merging never succeeds: for two or more turns the result is the first turn alone, when
  it is not completed or the second lacks its replay data, and otherwise an error, the
  assertion of the constructor even when every check of the merge has passed.
\<close>

theorem merge_never_succeeds:
  "merge_samples decode (a # b # rest) =
     (if status a = COMPLETED \<and> \<not> introduces_replay_gap a b
      then Inl (case merged_fields decode a b of Inl e \<Rightarrow> e | Inr _ \<Rightarrow> AssertionError)
      else Inr a)"
proof -
  have "create_with_all_fields SAMPLE_FIELDS MERGED_FIELDS m = Inl AssertionError" for m :: sample
  proof -
    have "\<not> list_all (\<lambda>k. k \<in> set MERGED_FIELDS) SAMPLE_FIELDS" by code_simp
    then show ?thesis by (simp add: create_with_all_fields_def)
  qed
  then show ?thesis
    by (cases "merged_fields decode a b") (simp_all add: merge_samples_def merge_sample_pair_def)
qed

section \<open>The values a merge computes\<close>

lemma same_dict_get:
  assumes "list_all (\<lambda>(k, v). dget y k = Some v) x" "list_all (\<lambda>(k, v). dget x k = Some v) y"
  shows "dget x = dget y"
proof
  fix k
  show "dget x k = dget y k"
  proof (cases "dget x k")
    case None
    have False if "dget y k = Some v" for v
      using map_of_SomeD [OF that] None assms(2) by (auto simp: list_all_iff)
    then show ?thesis using None by (cases "dget y k") auto
  next
    case (Some v)
    from map_of_SomeD [OF Some] show ?thesis using assms(1) Some by (auto simp: list_all_iff)
  qed
qed

lemma same_dict_extra: "same_dict a b \<Longrightarrow> media_extra a = media_extra b"
proof (cases a; cases b)
  fix x y assume "same_dict a b" and ab: "a = Some x" "b = Some y"
  then have "dget x = dget y" by (intro same_dict_get) (simp_all add: same_dict_def)
  with ab show ?thesis by (simp add: media_extra_def)
qed (simp_all add: same_dict_def)

lemma merge_masks_length:
  assumes "merge_sampling_masks a obs b = Inr r" "masks_valid a" "masks_valid b"
  shows "case r of None \<Rightarrow> rollout_sampling_mask a = None \<and> rollout_sampling_mask b = None
    | Some m \<Rightarrow> \<exists>m1 m2. rollout_sampling_mask a = Some m1 \<and> rollout_sampling_mask b = Some m2
        \<and> mask_length m = mask_length m1 + length obs + mask_length m2"
proof (cases "rollout_sampling_mask a")
  case None
  with assms(1) show ?thesis by (auto simp: merge_sampling_masks_def split: option.splits)
next
  case (Some m1)
  with assms(1) obtain m2 m m' where m: "rollout_sampling_mask b = Some m2"
    "from_mask_list (map (\<lambda>i. [int i]) obs) = Inr m" "mask_concatenate [m1, m, m2] = Inr m'" "r = Some m'"
    by (auto simp: merge_sampling_masks_def rbind_Inr_iff split: option.splits)
  obtain xs ys where x: "m1 = csr xs" "list_all support_ok xs" "m2 = csr ys" "list_all support_ok ys"
    using mask_ok_csr assms(2,3) Some m(1) by (auto simp: masks_valid_def)
  from from_mask_list_Inr [OF m(2)] have o: "list_all support_ok (map (\<lambda>i. [int i]) obs)" "m = csr (map (\<lambda>i. [int i]) obs)" by auto
  have "mask_concatenate (map csr [xs, map (\<lambda>i. [int i]) obs, ys]) = Inr (csr (concat [xs, map (\<lambda>i. [int i]) obs, ys]))"
    by (rule concatenate_csr) (use x o in simp)
  then have "m' = csr (xs @ map (\<lambda>i. [int i]) obs @ ys)" using m(3) x o by simp
  with Some m x show ?thesis by simp
qed

lemma merge_topk_ok:
  assumes "merge_topk_field f a1 b1 g = Inr r1" "merge_topk_field f' a2 b2 g = Inr r2"
    "topk_ok a1 a2 n" "topk_ok b1 b2 m"
  shows "topk_ok r1 r2 (n + g + m)"
  using assms by (auto simp: merge_topk_field_def topk_ok_def split: option.splits prod.splits if_splits)

lemma spans_ok_append:
  "spans_ok p n xs \<Longrightarrow> n \<le> N \<Longrightarrow> spans_ok 0 N ys \<Longrightarrow> list_all (\<lambda>sp. n \<le> abs_start sp) ys \<Longrightarrow> p \<le> n \<Longrightarrow>
   spans_ok p N (xs @ ys)"
proof (induction p n xs rule: spans_ok.induct)
  case (1 p n)
  then show ?case by (cases ys) auto
qed auto

lemma fill_default_length: "optional_length v (response_length s) \<Longrightarrow> length (fill_default d s v) = response_length s"
  by (auto simp: fill_default_def optional_length_def split: option.splits)

lemma merge_optional_length:
  assumes "optional_length av (response_length a)" "optional_length bv (response_length b)"
  shows "optional_length (merge_optional_per_token a b g av bv) (response_length a + g + response_length b)"
  using assms by (auto simp: merge_optional_per_token_def optional_length_def fill_default_def split: option.splits)

lemma fill_defaults_simps [simp]:
  "tokens (fill_defaults s) = tokens s" "response_length (fill_defaults s) = response_length s"
  "rollout_sampling_mask (fill_defaults s) = rollout_sampling_mask s"
  "weight_versions (fill_defaults s) = weight_versions s" "status (fill_defaults s) = status s"
  "multimodal_train_inputs (fill_defaults s) = multimodal_train_inputs s"
  "masks_valid (fill_defaults s) = masks_valid s"
  "loss_mask (fill_defaults s) = Some (fill_default 1 s (loss_mask s))"
  "rollout_log_probs (fill_defaults s) = Some (fill_default 0 s (rollout_log_probs s))"
  by (simp_all add: fill_defaults_def masks_valid_def)

lemma merged_fields_Inr:
  assumes "merged_fields decode a0 b0 = Inr m"
  obtains a b obs mask topk_ids topk_logps md where "a = fill_defaults a0" "b = fill_defaults b0"
    "length (tokens b) = length (tokens a) + obs + response_length b" "0 < obs" "sample_ok a" "sample_ok b"
    "take (length (tokens a)) (tokens b) = tokens a" "status a = COMPLETED"
    "merge_sampling_masks a (take obs (drop (length (tokens a)) (tokens b))) b = Inr mask"
    "equal_identity a b"
    "merge_topk_field (-1) (rollout_topk_token_ids a) (rollout_topk_token_ids b) obs = Inr topk_ids"
    "merge_topk_field None (rollout_topk_log_probs a) (rollout_topk_log_probs b) obs = Inr topk_logps"
    "tokens m = tokens b" "response_length m = response_length a + obs + response_length b"
    "loss_mask m = Some (the (loss_mask a) @ replicate obs 0 @ the (loss_mask b))"
    "weight_versions m = weight_versions a @ weight_versions b"
    "rollout_log_probs m = Some (the (rollout_log_probs a) @ replicate obs 0 @ the (rollout_log_probs b))"
    "rollout_topk_token_ids m = topk_ids" "rollout_topk_log_probs m = topk_logps" "rollout_sampling_mask m = mask"
    "teacher_log_probs m = merge_optional_per_token a b obs (teacher_log_probs a) (teacher_log_probs b)"
    "opd_reverse_kl m = merge_optional_per_token a b obs (opd_reverse_kl a) (opd_reverse_kl b)"
    "rollout_routed_experts m = rollout_routed_experts b" "rollout_indexer_topk m = rollout_indexer_topk b"
    "multimodal_train_inputs m = multimodal_train_inputs a" "status m = status b"
proof -
  let ?a = "fill_defaults a0" and ?b = "fill_defaults b0"
  let ?obs = "int (length (tokens ?b)) - int (length (tokens ?a)) - int (response_length ?b)"
  from assms have pos: "0 < ?obs"
    by (auto simp: merged_fields_def Let_def rbind_Inr_iff)
  then have len: "length (tokens ?b) = length (tokens ?a) + nat ?obs + response_length ?b" "0 < nat ?obs" by auto
  show ?thesis
    by (rule that [OF refl refl len])
      (use assms in \<open>auto simp: merged_fields_def Let_def rbind_Inr_iff validate_def\<close>)
qed

text \<open>
  C40: the values that the merge of two turns computes are those of one valid sample: its
  tokens are the second turn's, its response is everything after the first turn's prompt,
  the observation between the two responses is masked out and both turns' own masks are
  kept in place, and all per-token fields, replay rows and weight versions agree.
\<close>

theorem merged_values_are_valid:
  assumes "merged_fields decode a b = Inr m" "masks_valid a" "masks_valid b"
    "list_all (\<lambda>sp. length (tokens b) - response_length b \<le> abs_start sp) (concat (weight_versions b))"
  shows "sample_ok m \<and> tokens m = tokens b
    \<and> length (tokens m) - response_length m = length (tokens a) - response_length a
    \<and> loss_mask m = Some (fill_default 1 a (loss_mask a)
        @ replicate (length (tokens b) - length (tokens a) - response_length b) 0 @ fill_default 1 b (loss_mask b))"
proof -
  from assms(1) obtain a' b' obs mask ids lps md where ab: "a' = fill_defaults a" "b' = fill_defaults b"
    and len: "length (tokens b') = length (tokens a') + obs + response_length b'" "0 < obs"
    and ok: "sample_ok a'" "sample_ok b'"
    and mask: "merge_sampling_masks a' (take obs (drop (length (tokens a')) (tokens b'))) b' = Inr mask"
    and eq: "equal_identity a' b'"
    and topk: "merge_topk_field (-1) (rollout_topk_token_ids a') (rollout_topk_token_ids b') obs = Inr ids"
      "merge_topk_field None (rollout_topk_log_probs a') (rollout_topk_log_probs b') obs = Inr lps"
    and m: "tokens m = tokens b'" "response_length m = response_length a' + obs + response_length b'"
      "loss_mask m = Some (the (loss_mask a') @ replicate obs 0 @ the (loss_mask b'))"
      "weight_versions m = weight_versions a' @ weight_versions b'"
      "rollout_log_probs m = Some (the (rollout_log_probs a') @ replicate obs 0 @ the (rollout_log_probs b'))"
      "rollout_topk_token_ids m = ids" "rollout_topk_log_probs m = lps" "rollout_sampling_mask m = mask"
      "teacher_log_probs m = merge_optional_per_token a' b' obs (teacher_log_probs a') (teacher_log_probs b')"
      "opd_reverse_kl m = merge_optional_per_token a' b' obs (opd_reverse_kl a') (opd_reverse_kl b')"
      "rollout_routed_experts m = rollout_routed_experts b'" "rollout_indexer_topk m = rollout_indexer_topk b'"
      "multimodal_train_inputs m = multimodal_train_inputs a'"
    by (rule merged_fields_Inr)
  note oa = ok(1) [unfolded sample_ok_def Let_def] and ob = ok(2) [unfolded sample_ok_def Let_def]
  have mv: "masks_valid a'" "masks_valid b'" using assms(2,3) ab by simp_all
  have R: "response_length m \<le> length (tokens m)" using m(1,2) len oa by simp
  have mk: "case rollout_sampling_mask m of None \<Rightarrow> True | Some k \<Rightarrow> mask_length k = response_length m"
    using merge_masks_length [OF mask mv] oa ob len m(2,8) by (auto split: option.splits)
  have spans: "spans_ok 0 (length (tokens m)) (concat (weight_versions m))"
  proof -
    have "length (tokens a') \<le> length (tokens b) - response_length b" using len ab by simp
    then have "list_all (\<lambda>sp. length (tokens a') \<le> abs_start sp) (concat (weight_versions b'))"
      using assms(4) ab by (auto simp: list_all_iff intro: order_trans)
    then show ?thesis
      using spans_ok_append [of 0 "length (tokens a')" "concat (weight_versions a')" "length (tokens b')"
          "concat (weight_versions b')"] oa ob len m(1,4) by simp
  qed
  have lists: "optional_length (loss_mask m) (response_length m)" "optional_length (rollout_log_probs m) (response_length m)"
    using oa ob m(2,3,5) ab by (simp_all add: optional_length_def)
  have opt: "optional_length (teacher_log_probs m) (response_length m)" "optional_length (opd_reverse_kl m) (response_length m)"
    using merge_optional_length oa ob m(2,9,10) by simp_all
  have tk: "topk_ok (rollout_topk_token_ids m) (rollout_topk_log_probs m) (response_length m)"
    using merge_topk_ok [OF topk] oa ob m(2,6,7) by simp
  have "media_extra (multimodal_train_inputs m) = media_extra (multimodal_train_inputs b')"
    using same_dict_extra eq m(13) by (simp add: equal_identity_def)
  then have "case rollout_routed_experts m of None \<Rightarrow> True | Some r \<Rightarrow> int (length r) = int (length (tokens m)) - 1
      \<or> int (length r) = int (length (tokens m)) - 1 + media_extra (multimodal_train_inputs m)"
    "case rollout_indexer_topk m of None \<Rightarrow> True | Some r \<Rightarrow> int (length r) = int (length (tokens m)) - 1"
    using ob m(11,12) unfolding m(1) by (simp_all cong: option.case_cong)
  then have "sample_ok m" unfolding sample_ok_def Let_def using R mk spans lists opt tk by blast
  then show ?thesis using m(1-3) len ab by simp
qed

section \<open>Concrete samples\<close>

definition example_turn :: "nat list \<Rightarrow> nat list \<Rightarrow> sample" where
  "example_turn ps cs = new_sample\<lparr> tokens := ps @ cs, response_length := length cs,
     loss_mask := Some (replicate (length cs) 1), rollout_log_probs := Some (replicate (length cs) 0),
     weight_versions := [[\<lparr> version = ''7'', abs_start = length ps, abs_end = length ps + length cs \<rparr>]],
     status := COMPLETED \<rparr>"

lemma example_turns_strippable: "strippable (example_turn [8, 9] [3, 4, 5])" "strippable (example_turn [8, 9, 3, 4, 5, 6] [7, 8])"
  by (simp_all add: strippable_def sample_ok_def example_turn_def new_sample_def optional_length_def topk_ok_def
      media_extra_def masks_valid_def opd_field_ok_def)

theorem strip_keeps_sample_valid_witness:
  "\<exists>s'. strip_last_output_tokens (\<lambda>_. []) (example_turn [8, 9] [3, 4, 5]) 2 = Inr s' \<and> sample_ok s' \<and> tokens s' = [8, 9, 3]"
proof -
  have n: "2 \<le> response_length (example_turn [8, 9] [3, 4, 5])" by code_simp
  have t: "take (length (tokens (example_turn [8, 9] [3, 4, 5])) - 2) (tokens (example_turn [8, 9] [3, 4, 5])) = [8, 9, 3]"
    by code_simp
  from strip_keeps_sample_valid [OF example_turns_strippable(1) n, of "\<lambda>_. []"] show ?thesis unfolding t by blast
qed

theorem truncate_respects_budget_witness:
  "\<exists>k r. truncate_samples_by_total_tokens (\<lambda>_. []) 7 [example_turn [8, 9] [3, 4, 5], example_turn [8, 9, 3, 4, 5, 6] [7, 8]]
       = Inr r
     \<and> take k r = take k [example_turn [8, 9] [3, 4, 5], example_turn [8, 9, 3, 4, 5, 6] [7, 8]]
     \<and> length r \<le> k + 1"
proof -
  let ?ss = "[example_turn [8, 9] [3, 4, 5], example_turn [8, 9, 3, 4, 5, 6] [7, 8]]"
  have "list_all strippable ?ss" by (simp add: example_turns_strippable)
  from truncate_respects_budget [OF this, of 7 "\<lambda>_. []"] obtain k r where k: "k \<le> length ?ss"
    "truncate_samples_by_total_tokens (\<lambda>_. []) 7 ?ss = Inr r" "r = take k ?ss \<or> (\<exists>s'. r = take k ?ss @ [s'])"
    by blast
  have "take k r = take k ?ss" "length r \<le> k + 1" using k(1,3) by auto
  with k(2) show ?thesis by blast
qed

theorem merged_values_are_valid_witness:
  "\<exists>m. merged_fields (\<lambda>_. []) (example_turn [8, 9] [3, 4, 5]) (example_turn [8, 9, 3, 4, 5, 6] [7, 8]) = Inr m
     \<and> sample_ok m \<and> loss_mask m = Some [1, 1, 1, 0, 1, 1]"
proof -
  let ?a = "example_turn [8, 9] [3, 4, 5]" and ?b = "example_turn [8, 9, 3, 4, 5, 6] [7, 8]"
  have "\<not> isl (merged_fields (\<lambda>_. []) ?a ?b)" by code_simp
  then obtain m where m: "merged_fields (\<lambda>_. []) ?a ?b = Inr m" by (metis sum.collapse(2))
  have mv: "masks_valid ?a" "masks_valid ?b" by code_simp+
  have w: "list_all (\<lambda>sp. length (tokens ?b) - response_length ?b \<le> abs_start sp) (concat (weight_versions ?b))" by code_simp
  have l: "fill_default 1 ?a (loss_mask ?a) @ replicate (length (tokens ?b) - length (tokens ?a) - response_length ?b) 0
      @ fill_default 1 ?b (loss_mask ?b) = [1, 1, 1, 0, 1, 1]" by code_simp
  from merged_values_are_valid [OF m mv w] m show ?thesis unfolding l by blast
qed

end
