(* ===== verification/Assembly.thy ===== *)
theory Assembly
  imports Samples TreeSession "HOL-Library.Product_Lexorder"
begin

text \<open>
  From session records to samples: one sample per turn aligned with the session's tokens
  (\<open>rollout/session/samples/merge.py\<close> and the sampling metadata of
  \<open>rollout/generate_utils\<close>), the material of a tree session's leaves
  (\<open>rollout/session/v2/utils.py\<close>), the picker that drops abandoned leaves and the
  post-processing that gives every shared completion one owner (\<open>v2/picker_hub\<close>,
  \<open>v2/postprocessor_hub\<close>).  Decoding texts and row buffers are parameters.
\<close>

section \<open>Records with their engine metadata\<close>

text \<open>A sampling log-prob is one number, or the row of the whole support.\<close>

datatype logprob_entry = Scalar real | Row "real list"

record openai_record = session_record +
  timestamp :: real
  request_timestamp :: "real option"
  meta_finish_type :: "string option"
  meta_sampling_mask :: "int list list option"
  meta_sampling_logprobs :: "logprob_entry list option"
  meta_top_logprobs :: "(real \<times> int) list list option"
  meta_weight_versions :: "(string \<times> nat \<times> nat) list option"
  meta_weight_version :: "string option"
  meta_indexer_topk :: "string option"
  meta_indexer_layers :: "nat option"
  meta_e2e_latency :: "real option"
  meta_spec :: spec_info
  meta_cached_tokens :: int
  meta_prompt_tokens :: int

record sample_args =
  top_logprobs_num :: nat
  num_layers :: nat
  indexer_num_streams :: "nat option"
  save_debug_trajectory_data :: bool
  speculative_algorithm :: bool
  decode_tokens :: "nat list \<Rightarrow> string"
  decode_rows :: "string \<Rightarrow> int \<Rightarrow> nat \<Rightarrow> nat list list res"

definition output_ids :: "openai_record \<Rightarrow> nat list" where
  "output_ids r = map snd (case output_token_logprobs (rec_choice r) of None \<Rightarrow> [] | Some ls \<Rightarrow> ls)"

section \<open>Sampling metadata\<close>

definition sampling_mask_from_supports :: "nat list \<Rightarrow> int list list \<Rightarrow> mask res" where
  "sampling_mask_from_supports toks supports =
     (if length toks \<noteq> length supports then Inl ValueError
      else if \<not> list_all2 (\<lambda>t s. s \<noteq> [] \<and> int t \<in> set s) toks supports then Inl ValueError
      else from_mask_list supports)"

definition append_mask :: "sample \<Rightarrow> mask \<Rightarrow> sample res" where
  "append_mask s m = (case rollout_sampling_mask s of
       None \<Rightarrow> if response_length s \<noteq> 0 then Inl ValueError else Inr (s\<lparr>rollout_sampling_mask := Some m\<rparr>)
     | Some old \<Rightarrow> if mask_length old \<noteq> response_length s then Inl ValueError
         else rbind (mask_concatenate [old, m]) (\<lambda>m'. Inr (s\<lparr>rollout_sampling_mask := Some m'\<rparr>)))"

definition select_support_logprob :: "nat \<times> int list \<times> logprob_entry \<Rightarrow> real res" where
  "select_support_logprob x = (case x of (tok, support, entry) \<Rightarrow> (case entry of
       Scalar _ \<Rightarrow> Inl ValueError
     | Row row \<Rightarrow>
         if length row \<noteq> length support then Inl ValueError
         else (case filter (\<lambda>i. support ! i = int tok) [0..<length support] of
             [i] \<Rightarrow> Inr (row ! i)
           | _ \<Rightarrow> Inl ValueError)))"

definition scalar_logprob :: "logprob_entry \<Rightarrow> real res" where
  "scalar_logprob entry = (case entry of Scalar v \<Rightarrow> Inr v | Row _ \<Rightarrow> Inl ValueError)"

definition append_sampling_metadata :: "sample \<Rightarrow> openai_record \<Rightarrow> bool \<Rightarrow> string \<Rightarrow> (sample \<times> real list) res" where
  "append_sampling_metadata s r aborted mode =
     (let ids = output_ids r in
      case (meta_sampling_mask r, meta_sampling_logprobs r) of
        (Some supports, Some log_probs) \<Rightarrow>
          (if length log_probs \<noteq> length ids then Inl ValueError
           else rbind (sampling_mask_from_supports ids supports) (\<lambda>m.
             rbind (if mode = ''support'' then res_all (map select_support_logprob (zip ids (zip supports log_probs)))
                    else if mode = ''selected'' then res_all (map scalar_logprob log_probs)
                    else Inl ValueError) (\<lambda>selected.
             rbind (append_mask s m) (\<lambda>s'. Inr (s', selected)))))
      | _ \<Rightarrow>
          if (aborted \<or> meta_finish_type r = Some ''abort'') \<and> ids = []
          then rbind (from_mask_list []) (\<lambda>m. rbind (append_mask s m) (\<lambda>s'. Inr (s', [])))
          else Inl ValueError)"

text \<open>One compact row of \<open>k\<close> slots; numpy broadcasts a single value.\<close>

definition fill_row :: "nat \<Rightarrow> int list \<Rightarrow> real list \<Rightarrow> (int list \<times> real option list) res" where
  "fill_row k ids vals =
     (if k < length ids \<or> length vals \<noteq> length ids \<and> length vals \<noteq> 1 then Inl ValueError
      else let vals' = (if length vals = 1 then replicate (length ids) (hd vals) else vals) in
        Inr (ids @ replicate (k - length ids) (-1), map Some vals' @ replicate (k - length ids) None))"

definition topk_row :: "nat \<Rightarrow> bool \<Rightarrow> int list list option \<Rightarrow> nat \<Rightarrow> (real \<times> int) list \<times> logprob_entry
   \<Rightarrow> (int list \<times> real option list) res" where
  "topk_row k support_mode supports i entries =
     (if support_mode then (case snd entries of
          Scalar _ \<Rightarrow> Inl TypeError
        | Row vals \<Rightarrow>
            if k < length vals then Inl ValueError
            else (case supports of None \<Rightarrow> Inl KeyError
              | Some ms \<Rightarrow> rbind (list_at ms i) (\<lambda>ids. fill_row k ids vals)))
      else let es = take k (fst entries) in fill_row k (map snd es) (map fst es))"

definition extend_rows :: "(nat \<times> 'a list list) option \<Rightarrow> nat \<Rightarrow> 'a list list \<Rightarrow> (nat \<times> 'a list list) option res" where
  "extend_rows previous k rows = (case previous of
       None \<Rightarrow> Inr (Some (k, rows))
     | Some (k', old) \<Rightarrow> if k' = k then Inr (Some (k, old @ rows)) else Inl ValueError)"

definition append_rollout_topk_logprobs :: "sample \<Rightarrow> openai_record \<Rightarrow> nat \<Rightarrow> string \<Rightarrow> sample res" where
  "append_rollout_topk_logprobs s r k mode =
     (if k = 0 then Inr s
      else let n = length (output_ids r); support_mode = (mode = ''support'');
               rows = (if support_mode
                 then map_option (map (\<lambda>e. ([], e))) (meta_sampling_logprobs r)
                 else map_option (map (\<lambda>e. (e, Row []))) (meta_top_logprobs r)) in
        if 0 < n \<and> (case rows of None \<Rightarrow> True | Some rs \<Rightarrow> length rs \<noteq> n) then Inl ValueError
        else let rs = (case rows of None \<Rightarrow> [] | Some rs \<Rightarrow> rs) in
          if n < length rs then Inl IndexError
          else rbind (res_all (map (\<lambda>(i, e). topk_row k support_mode (meta_sampling_mask r) i e) (enum rs))) (\<lambda>filled.
            rbind (extend_rows (rollout_topk_token_ids s) k (map fst filled)) (\<lambda>ids.
            rbind (extend_rows (rollout_topk_log_probs s) k (map snd filled)) (\<lambda>logps.
              Inr (s\<lparr> rollout_topk_token_ids := ids, rollout_topk_log_probs := logps \<rparr>)))))"

text \<open>The spans of one call, anchored at the end of the sample's tokens.\<close>

definition weight_versions_from_meta :: "openai_record \<Rightarrow> nat \<Rightarrow> weight_version_span list res" where
  "weight_versions_from_meta r output_end =
     (let n = length (output_ids r) in
      rbind (case meta_weight_versions r of
          Some spans \<Rightarrow> rbind (py_assert (list_all (\<lambda>(_, _, e). e \<le> n) spans)) (\<lambda>_. Inr spans)
        | None \<Rightarrow> (case meta_weight_version r of
            Some v \<Rightarrow> rbind (py_assert (0 < n \<or> completion_tokens (rec_choice r) = 0)) (\<lambda>_. Inr [(v, 0, n)])
          | None \<Rightarrow> Inr [])) (\<lambda>spans.
        Inr (map (\<lambda>(v, a, e). \<lparr> version = v, abs_start = output_end - n + a, abs_end = output_end - n + e \<rparr>)
          (filter (\<lambda>(v, a, e). a < e) spans))))"

section \<open>One turn\<close>

definition get_routed_experts :: "sample_args \<Rightarrow> openai_record \<Rightarrow> int \<Rightarrow> nat list list option res" where
  "get_routed_experts args r num_tokens = (case routed_experts (rec_choice r) of
       None \<Rightarrow> Inr None
     | Some info \<Rightarrow> rbind (decode_rows args info num_tokens (num_layers args)) (\<lambda>rows.
         rbind (py_assert (concat rows = [] \<or> list_ex (\<lambda>v. v \<noteq> 0) (concat rows))) (\<lambda>_. Inr (Some rows))))"

definition get_indexer_topk :: "sample_args \<Rightarrow> openai_record \<Rightarrow> sample \<Rightarrow> nat list list option res" where
  "get_indexer_topk args r s = (case meta_indexer_topk r of
       None \<Rightarrow> Inr None
     | Some info \<Rightarrow> (case meta_indexer_layers r of
         None \<Rightarrow> Inl AssertionError
       | Some layers \<Rightarrow>
           rbind (py_assert (indexer_num_streams args = None \<or> indexer_num_streams args = Some layers)) (\<lambda>_.
           rbind (decode_rows args info (int (length (tokens s)) - 1) layers) (\<lambda>rows. Inr (Some rows)))))"

definition status_of_finish :: "string option \<Rightarrow> sample_status \<Rightarrow> sample_status" where
  "status_of_finish finish old =
     (if finish = Some ''stop'' \<or> finish = Some ''tool_calls'' then COMPLETED
      else if finish = Some ''length'' then TRUNCATED
      else if finish = Some ''abort'' then ABORTED else old)"

definition spec_add :: "spec_info \<Rightarrow> spec_info \<Rightarrow> spec_info" where
  "spec_add old new = (if spec_verify_ct new \<le> 0 then old else add_spec_info old new)"

text \<open>\<open>request.get(key, "selected")\<close>\<close>

definition logprobs_mode :: "openai_record \<Rightarrow> string" where
  "logprobs_mode r = (case dget (rec_request r) ''sampling_logprobs_mode'' of Some (JStr m) \<Rightarrow> m | None \<Rightarrow> ''selected'' | Some _ \<Rightarrow> [])"

definition compute_sample :: "sample_args \<Rightarrow> openai_record \<Rightarrow> nat \<Rightarrow> bool \<Rightarrow> bool \<Rightarrow> sample res" where
  "compute_sample args r trim_count use_r3 eval =
     (let ids = output_ids r; choice = rec_choice r;
          raw_log_probs = map fst (case output_token_logprobs choice of None \<Rightarrow> [] | Some ls \<Rightarrow> ls) in
      rbind (if truthy (mget (rec_request r) ''return_sampling_mask'')
             then append_sampling_metadata new_sample r (finish_reason choice = Some ''abort'') (logprobs_mode r)
             else Inr (new_sample, raw_log_probs)) (\<lambda>(s0, log_probs).
      let s1 = s0\<lparr> tokens := rec_input_ids r @ ids, rollout_log_probs := Some log_probs,
            response := decode_tokens args ids, response_length := length ids,
            loss_mask := Some (replicate (length ids) 1) \<rparr> in
      rbind (if \<not> eval \<and> (truthy (mget (rec_request r) ''top_logprobs'') \<or> logprobs_mode r = ''support'')
             then append_rollout_topk_logprobs s1 r (top_logprobs_num args) (logprobs_mode r) else Inr s1) (\<lambda>s2.
      rbind (if use_r3 then Inr None
             else get_routed_experts args r (int (length (tokens s2)) - 1)) (\<lambda>experts.
      rbind (get_indexer_topk args r s2) (\<lambda>indexer.
      rbind (weight_versions_from_meta r (length (tokens s2))) (\<lambda>spans.
      rbind (strip_last_output_tokens (decode_tokens args)
               (s2\<lparr> rollout_routed_experts := experts, rollout_indexer_topk := indexer, weight_versions := [spans] \<rparr>)
               trim_count) (\<lambda>s3.
        Inr (s3\<lparr> status := status_of_finish (finish_reason choice) (status s3),
          sample_spec_info := (if speculative_algorithm args then spec_add (sample_spec_info s3) (meta_spec r)
                               else sample_spec_info s3),
          sample_prefix_cache_info := add_prefix_cache_info (sample_prefix_cache_info s3)
            \<lparr> cached_tokens = meta_cached_tokens r, total_prompt_tokens = meta_prompt_tokens r \<rparr> \<rparr>))))))))"

definition lifecycle_segment :: "openai_record \<Rightarrow> openai_record option \<Rightarrow> nat \<Rightarrow> json" where
  "lifecycle_segment r prev turn = JObj (
     [(''t0'', case meta_e2e_latency r of None \<Rightarrow> JNull | Some l \<Rightarrow> JFloat (timestamp r - l)),
      (''t1'', JFloat (timestamp r)), (''turn'', JInt (int turn))]
     @ (case request_timestamp r of None \<Rightarrow> [] | Some q \<Rightarrow> [(''req_ts'', JFloat q)])
     @ (case prev of None \<Rightarrow> [] | Some p \<Rightarrow> [(''prev_t1'', JFloat (timestamp p))]))"

section \<open>The turns of a session\<close>

text \<open>The metadata one turn gets beside its sample.\<close>

definition attach_turn_metadata ::
  "sample_args \<Rightarrow> openai_record \<Rightarrow> openai_record option \<Rightarrow> nat \<Rightarrow> bool \<Rightarrow> sample \<Rightarrow> sample res" where
  "attach_turn_metadata args r prev turn is_last s =
     (let m1 = metadata_set (metadata s) ''lifecycle'' (lifecycle_segment r prev turn) in
      if is_last \<and> save_debug_trajectory_data args
      then (case mget (rec_request r) ''messages'' of
          JList ms \<Rightarrow> Inr (s\<lparr>metadata := metadata_set m1 ''messages''
            (JList (ms @ [JObj (choice_message (rec_choice r))]))\<rparr>)
        | _ \<Rightarrow> Inl (if dget (rec_request r) ''messages'' = None then KeyError else TypeError))
      else Inr (s\<lparr>metadata := m1\<rparr>))"

text \<open>How many output tokens the accumulated sequence repeats after this turn's prompt.\<close>

definition matched_output :: "nat list \<Rightarrow> openai_record \<Rightarrow> nat" where
  "matched_output acc r = match_prefix (=) (output_ids r) (drop (length (rec_input_ids r)) acc)"

text \<open>Steps 1 to 4 for one record: the trim it needs and the cursor after it.\<close>

definition align_turn :: "nat list option \<Rightarrow> nat \<Rightarrow> bool \<Rightarrow> nat \<Rightarrow> openai_record \<Rightarrow> (nat \<times> nat) res" where
  "align_turn accumulated max_trim is_last cursor r = (case accumulated of
       None \<Rightarrow> Inr (0, cursor)
     | Some acc \<Rightarrow>
         let matched = matched_output acc r;
             trim_count = length (output_ids r) - matched in
         rbind (py_assert (trim_count \<le> (if is_last then 0 else max_trim))) (\<lambda>_.
           Inr (trim_count, length (rec_input_ids r) + matched)))"

fun compute_loop :: "sample_args \<Rightarrow> bool \<Rightarrow> bool \<Rightarrow> nat list option \<Rightarrow> nat \<Rightarrow> nat \<Rightarrow> openai_record option \<Rightarrow> nat
   \<Rightarrow> openai_record list \<Rightarrow> (sample list \<times> nat) res" where
  "compute_loop args use_r3 eval accumulated max_trim turn prev cursor [] = Inr ([], cursor)"
| "compute_loop args use_r3 eval accumulated max_trim turn prev cursor (r # rest) =
     rbind (align_turn accumulated max_trim (rest = []) cursor r) (\<lambda>(trim_count, cursor').
     rbind (compute_sample args r trim_count use_r3 eval) (\<lambda>s.
     rbind (attach_turn_metadata args r prev turn (rest = []) s) (\<lambda>s'.
     rbind (compute_loop args use_r3 eval accumulated max_trim (turn + 1) (Some r) cursor' rest)
       (\<lambda>(ss, c). Inr (s' # ss, c)))))"

definition compute_samples_from_openai_records ::
  "sample_args \<Rightarrow> openai_record list \<Rightarrow> nat list option \<Rightarrow> nat \<Rightarrow> bool \<Rightarrow> bool \<Rightarrow> sample list res" where
  "compute_samples_from_openai_records args recs accumulated max_trim use_r3 eval =
     rbind (compute_loop args use_r3 eval accumulated max_trim 1 None 0 recs) (\<lambda>(ss, cursor).
     rbind (py_assert (case accumulated of None \<Rightarrow> True | Some acc \<Rightarrow> cursor = length acc)) (\<lambda>_. Inr ss))"

section \<open>Routed experts in patches\<close>

text \<open>One patch per record, each starting at the row where the previous one ended.\<close>

fun r3_patches :: "sample_args \<Rightarrow> int \<Rightarrow> int \<Rightarrow> nat list list list \<Rightarrow> openai_record list
   \<Rightarrow> (nat list list list \<times> int) res" where
  "r3_patches args required covered chunks [] = Inr (chunks, covered)"
| "r3_patches args required covered chunks (r # rest) =
     (if chunks \<noteq> [] \<and> required \<le> covered then Inr (chunks, covered)
      else (case routed_experts (rec_choice r) of
          None \<Rightarrow> Inl ValueError
        | Some info \<Rightarrow> (case dget (rec_request r) ''routed_experts_start_len'' of
            Some (JInt start) \<Rightarrow>
              (if start \<noteq> covered then Inl ValueError
               else let stop = int (length (rec_input_ids r)) + int (length (output_ids r)) - 1 in
                 if stop < start then Inl ValueError
                 else if (info \<noteq> []) \<noteq> (stop - start \<noteq> 0) then Inl ValueError
                 else rbind (get_routed_experts args r (stop - start)) (\<lambda>patch. case patch of
                   None \<Rightarrow> Inl TypeError
                 | Some rows \<Rightarrow> r3_patches args required stop
                     (if rows \<noteq> [] \<or> required = 0 then chunks @ [rows] else chunks) rest))
          | _ \<Rightarrow> Inl ValueError)))"

definition merge_samples_with_addition_r3 ::
  "sample_args \<Rightarrow> sample list \<Rightarrow> openai_record list \<Rightarrow> sample res" where
  "merge_samples_with_addition_r3 args samples recs =
     rbind (merge_samples (decode_tokens args) samples) (\<lambda>merged.
       if list_all (\<lambda>r. routed_experts (rec_choice r) = None) recs then Inr merged
       else let required = int (length (tokens merged)) - 1 in
         rbind (r3_patches args required 0 [] recs) (\<lambda>(chunks, covered).
           if covered < required then Inl ValueError
           else if chunks = [] then Inl ValueError
           else Inr (merged\<lparr>rollout_routed_experts := Some (if 0 \<le> required
               then take (nat required) (concat chunks) else drop_last (nat (- required)) (concat chunks))\<rparr>)))"

section \<open>The leaves of a tree session\<close>

text \<open>\<open>tree_metadata\<close>: the node and leaf tables of the structural layer.\<close>

record node_row =
  row_parent :: "nat option"
  row_truncated :: bool
  row_span :: "nat \<times> nat"
  row_num_tokens :: nat
  row_response_id :: string

definition node_rows :: "session_tree \<Rightarrow> node_row list" where
  "node_rows t = map (\<lambda>n. \<lparr> row_parent = parent n, row_truncated = truncated n, row_span = completion_span n,
     row_num_tokens = length (node_token_ids n), row_response_id = response_id n \<rparr>) (nodes t)"

definition leaf_rows :: "session_tree \<Rightarrow> (nat \<times> nat list) list" where
  "leaf_rows t = map (\<lambda>i. (i, path_nodes t i)) (leaves t)"

text \<open>A leaf's sample with the descriptor and the tokens that the hooks read.\<close>

record leaf_sample =
  leaf_sample :: sample
  leaf_node_id :: nat
  leaf_parent :: "nat option"
  path_node_ids :: "nat list"
  accumulated_token_ids :: "nat list"

text \<open>
  The material: one raw sample per leaf, in commit order, the leaves whose turns are all cut
  away left out.  The records of the nodes, with their engine metadata, are an argument.
\<close>

definition leaf_material ::
  "sample_args \<Rightarrow> session_tree \<Rightarrow> (nat \<Rightarrow> openai_record) \<Rightarrow> nat \<Rightarrow> nat option \<Rightarrow> bool \<Rightarrow> bool \<Rightarrow> nat
   \<Rightarrow> leaf_sample option res" where
  "leaf_material args t rec_of max_trim max_seq_len use_r3 eval leaf =
     (let path = path_nodes t leaf; recs = map rec_of path; acc = node_token_ids (nodes t ! leaf) in
      rbind (compute_samples_from_openai_records args recs (Some acc) max_trim use_r3 eval) (\<lambda>turns.
      rbind (case max_seq_len of None \<Rightarrow> Inr turns
             | Some n \<Rightarrow> truncate_samples_by_total_tokens (decode_tokens args) n turns) (\<lambda>turns.
      if turns = [] then Inr None
      else rbind (if use_r3 then merge_samples_with_addition_r3 args turns recs
                  else merge_samples (decode_tokens args) turns) (\<lambda>s.
        Inr (Some \<lparr> leaf_sample = s, leaf_node_id = leaf, leaf_parent = parent (nodes t ! leaf),
          path_node_ids = path, accumulated_token_ids = acc \<rparr>)))))"

definition build_leaf_material ::
  "sample_args \<Rightarrow> session_tree \<Rightarrow> (nat \<Rightarrow> openai_record) \<Rightarrow> nat \<Rightarrow> nat option \<Rightarrow> bool \<Rightarrow> bool
   \<Rightarrow> leaf_sample list res" where
  "build_leaf_material args t rec_of max_trim max_seq_len use_r3 eval =
     rbind (res_all (map (leaf_material args t rec_of max_trim max_seq_len use_r3 eval) (leaves t)))
       (\<lambda>ls. Inr (List.map_filter id ls))"

section \<open>Picking\<close>

text \<open>Whether two leaves' prompts are the same tokens, read from any sample that covers the node.\<close>

definition same_prompt :: "node_row list \<Rightarrow> leaf_sample list \<Rightarrow> leaf_sample \<Rightarrow> nat \<Rightarrow> bool" where
  "same_prompt rows samples s node =
     (let prompt_len = fst (row_span (rows ! leaf_node_id s)) in
      if fst (row_span (rows ! node)) \<noteq> prompt_len then False
      else (case filter (\<lambda>x. node \<in> set (path_node_ids x)) samples of
          [] \<Rightarrow> False
        | covering # _ \<Rightarrow> take prompt_len (accumulated_token_ids covering) = take prompt_len (accumulated_token_ids s)))"

definition siblings :: "node_row list \<Rightarrow> nat option \<Rightarrow> nat list" where
  "siblings rows p = filter (\<lambda>i. row_parent (rows ! i) = p) [0..<length rows]"

definition superseding :: "node_row list \<Rightarrow> leaf_sample list \<Rightarrow> bool \<Rightarrow> leaf_sample \<Rightarrow> nat list" where
  "superseding rows samples must_match s =
     (let later = filter (\<lambda>i. leaf_node_id s < i) (siblings rows (leaf_parent s)) in
      if leaf_parent s = None \<or> must_match then filter (same_prompt rows samples s) later else later)"

text \<open>\<open>sorted(\<dots>, reverse=True)\<close> by checkpoint count, then commit order.\<close>

definition pick_key :: "leaf_sample \<Rightarrow> nat \<times> nat" where
  "pick_key s = (length (path_node_ids s), leaf_node_id s)"

definition drop_rolled_back_leaves :: "node_row list \<Rightarrow> bool \<Rightarrow> leaf_sample list \<Rightarrow> leaf_sample list" where
  "drop_rolled_back_leaves rows must_match samples =
     sort_desc pick_key (filter (\<lambda>s. superseding rows samples must_match s = []) samples)"

definition drop_same_prompt_retries :: "node_row list \<Rightarrow> leaf_sample list \<Rightarrow> leaf_sample list" where
  "drop_same_prompt_retries rows samples = drop_rolled_back_leaves rows True samples"

section \<open>Post-processing\<close>

text \<open>Every node on a kept path belongs to the earliest committed kept leaf below it.\<close>

definition claim_nodes :: "(nat, nat) dict \<Rightarrow> leaf_sample \<Rightarrow> (nat, nat) dict" where
  "claim_nodes owners s = foldl (\<lambda>d i. dset d i (min (leaf_node_id s)
     (case dget d i of None \<Rightarrow> leaf_node_id s | Some o1 \<Rightarrow> o1))) owners (path_node_ids s)"

definition owner_by_node_id :: "leaf_sample list \<Rightarrow> (nat, nat) dict" where
  "owner_by_node_id samples = foldl claim_nodes [] samples"

text \<open>\<open>loss_mask[a:b] = [0] * (b - a)\<close> on the clamped completion span.\<close>

definition zero_range :: "nat \<Rightarrow> nat \<Rightarrow> nat list \<Rightarrow> nat list" where
  "zero_range a b xs = take a xs @ replicate (b - a) 0 @ drop b xs"

definition span_in_response :: "node_row list \<Rightarrow> nat \<Rightarrow> nat \<Rightarrow> nat \<Rightarrow> nat \<times> nat" where
  "span_in_response rows response_start resp_len node =
     (let (start, stop) = row_span (rows ! node) in (start - response_start, min (stop - response_start) resp_len))"

text \<open>An empty or inverted range leaves the mask alone.\<close>

definition mask_node :: "nat list \<Rightarrow> nat \<times> nat \<Rightarrow> nat list" where
  "mask_node lm rng = (if fst rng < snd rng then zero_range (fst rng) (snd rng) lm else lm)"

definition mask_shared :: "node_row list \<Rightarrow> (nat, nat) dict \<Rightarrow> leaf_sample \<Rightarrow> nat list option res" where
  "mask_shared rows owners s =
     (let smp = leaf_sample s; response_start = length (tokens smp) - response_length smp;
          ranges = map (span_in_response rows response_start (response_length smp))
            (filter (\<lambda>i. dget owners i \<noteq> Some (leaf_node_id s)) (path_node_ids s)) in
      case loss_mask smp of
        None \<Rightarrow> (if list_ex (\<lambda>r. fst r < snd r) ranges then Inl TypeError else Inr None)
      | Some m \<Rightarrow> Inr (Some (foldl mask_node m ranges)))"

definition SERVER_OWNED_METADATA_KEYS :: "string list" where
  "SERVER_OWNED_METADATA_KEYS = [''accumulated_token_ids'', ''tito_session_mismatch'', ''leaf'', ''turn_args'']"

definition check_input_metadata :: "message \<Rightarrow> message" where
  "check_input_metadata agent = filter (\<lambda>(k, v). k \<notin> set SERVER_OWNED_METADATA_KEYS) agent"

definition merged_agent_metadata :: "message \<Rightarrow> message \<Rightarrow> message" where
  "merged_agent_metadata md agent =
     dupdate (dupdate md (check_input_metadata agent)) (dpick SERVER_OWNED_METADATA_KEYS md)"

definition default_postprocess :: "node_row list \<Rightarrow> message \<Rightarrow> leaf_sample list \<Rightarrow> sample list res" where
  "default_postprocess rows agent samples =
     (let owners = owner_by_node_id samples; r = mget agent ''reward'' in
      res_all (map (\<lambda>s. rbind (mask_shared rows owners s) (\<lambda>m.
        Inr ((leaf_sample s)\<lparr> loss_mask := m,
          metadata := Some (merged_agent_metadata (case metadata (leaf_sample s) of None \<Rightarrow> [] | Some d \<Rightarrow> d) agent),
          reward := (if r = JNull then reward (leaf_sample s) else r) \<rparr>))) samples))"

section \<open>The alignment of a session's turns\<close>

definition snapshot :: "openai_record \<Rightarrow> nat list" where
  "snapshot r = rec_input_ids r @ output_ids r"

text \<open>
  What a session guarantees of its records: each turn's tokens keep the previous turn's up
  to the trim, do not get shorter, and the last turn's are the accumulated tokens.
\<close>

definition chain_ok :: "nat \<Rightarrow> openai_record list \<Rightarrow> nat list \<Rightarrow> bool" where
  "chain_ok mt recs acc \<longleftrightarrow> recs \<noteq> [] \<and> snapshot (last recs) = acc
     \<and> sorted (map (\<lambda>r. length (snapshot r)) recs)
     \<and> (\<forall>i. Suc i < length recs \<longrightarrow> keeps_prefix mt (snapshot (recs ! i)) (snapshot (recs ! Suc i)))"

lemma chain_prefix:
  assumes "chain_ok mt recs acc" "i < length recs"
  shows "take (length (snapshot (recs ! i)) - mt) acc = take (length (snapshot (recs ! i)) - mt) (snapshot (recs ! i))"
proof -
  have len: "length (snapshot (recs ! i)) \<le> length (snapshot (recs ! j))" if "i \<le> j" "j < length recs" for j
  proof -
    have "sorted (map (\<lambda>r. length (snapshot r)) recs)" using assms(1) by (simp add: chain_ok_def)
    from sorted_nth_mono [OF this, of i j] that show ?thesis by simp
  qed
  have step: "take (length (snapshot (recs ! i)) - mt) (snapshot (recs ! j))
      = take (length (snapshot (recs ! i)) - mt) (snapshot (recs ! i))" if "i \<le> j" "j < length recs" for j
    using that
  proof (induction j)
    case (Suc j)
    show ?case
    proof (cases "i = Suc j")
      case False
      then have ij: "i \<le> j" "j < length recs" using Suc.prems by auto
      let ?n = "length (snapshot (recs ! i)) - mt" and ?m = "length (snapshot (recs ! j)) - mt"
      have le: "?n \<le> ?m" using len [OF ij] by simp
      have "keeps_prefix mt (snapshot (recs ! j)) (snapshot (recs ! Suc j))"
        using assms(1) Suc.prems(2) unfolding chain_ok_def by blast
      then have "take ?n (take ?m (snapshot (recs ! Suc j))) = take ?n (take ?m (snapshot (recs ! j)))"
        by (simp only: keeps_prefix_def)
      then have "take ?n (snapshot (recs ! Suc j)) = take ?n (snapshot (recs ! j))"
        using le by (simp add: min_absorb1)
      also have "\<dots> = take ?n (snapshot (recs ! i))" by (rule Suc.IH [OF ij])
      finally show ?thesis .
    qed simp
  qed simp
  have "snapshot (recs ! (length recs - 1)) = acc"
    using assms(1) unfolding chain_ok_def by (metis last_conv_nth)
  with step [of "length recs - 1"] assms(2) show ?thesis by simp
qed

lemma match_prefix_common: "match_prefix (=) xs zs \<ge> n" if "n \<le> length xs" "take n zs = take n xs"
  using that
proof (induction n arbitrary: xs zs)
  case (Suc n)
  then obtain x xs' where x: "xs = x # xs'" by (cases xs) auto
  with Suc.prems obtain zs' where z: "zs = x # zs'" by (cases zs) auto
  with x Suc show ?case by simp
qed simp

lemma chain_aligns:
  assumes ok: "chain_ok mt recs acc" and i: "i < length recs"
  shows "\<exists>trim c'. align_turn (Some acc) mt (i = length recs - 1) c (recs ! i) = Inr (trim, c') \<and> trim \<le> mt
    \<and> trim = length (output_ids (recs ! i)) - matched_output acc (recs ! i)
    \<and> (i = length recs - 1 \<longrightarrow> trim = 0 \<and> c' = length acc)"
proof -
  let ?r = "recs ! i" and ?p = "length (rec_input_ids (recs ! i))"
  let ?n = "length (output_ids ?r) - mt"
  have pre: "take (?p + length (output_ids ?r) - mt) acc = take (?p + length (output_ids ?r) - mt) (rec_input_ids ?r @ output_ids ?r)"
    using chain_prefix [OF ok i] by (simp add: snapshot_def)
  have "take ?n (drop ?p acc) = take ?n (output_ids ?r)"
  proof (cases "mt \<le> length (output_ids ?r)")
    case True
    have "drop ?p (take (?p + length (output_ids ?r) - mt) acc) = take ?n (drop ?p acc)"
      using True by (simp add: drop_take)
    moreover have "drop ?p (take (?p + length (output_ids ?r) - mt) (rec_input_ids ?r @ output_ids ?r)) = take ?n (output_ids ?r)"
      using True by (simp add: drop_take)
    ultimately show ?thesis using pre by simp
  qed simp
  then have "?n \<le> matched_output acc ?r" unfolding matched_output_def by (intro match_prefix_common) simp_all
  then have trim: "length (output_ids ?r) - matched_output acc ?r \<le> mt" by simp
  have last: "matched_output acc ?r = length (output_ids ?r) \<and> ?p + length (output_ids ?r) = length acc"
    if "i = length recs - 1"
  proof -
    have "last recs = ?r" using i that by (cases "recs = []") (simp_all add: last_conv_nth)
    then have "acc = rec_input_ids ?r @ output_ids ?r" using ok by (auto simp: chain_ok_def snapshot_def)
    moreover have "match_prefix (=) (output_ids ?r) (output_ids ?r) = length (output_ids ?r)"
      using match_prefix_common [of "length (output_ids ?r)" "output_ids ?r" "output_ids ?r"]
        match_prefix_bounds(1) [of "(=)" "output_ids ?r" "output_ids ?r"] by simp
    ultimately show ?thesis by (simp add: matched_output_def)
  qed
  show ?thesis
    using trim last by (cases "i = length recs - 1") (auto simp: align_turn_def Let_def)
qed

definition record_of :: "openai_record \<Rightarrow> session_record" where
  "record_of r = session_record.truncate r"

lemma record_of_simps:
  "rec_input_ids (record_of r) = rec_input_ids r" "completion_of (record_of r) = output_ids r"
  by (simp_all add: record_of_def session_record.truncate_def completion_of_def output_ids_def split: option.splits)

lemma linear_chain_ok:
  assumes "core_inv cfg s" "map record_of recs = records (traj s)" "recs \<noteq> []"
    "sorted (map length (trajectory_token_ids (traj s)))"
  shows "chain_ok (max_trim_tokens (family (tokenizer cfg))) recs (LinearSession.token_ids (traj s))"
proof -
  have "list_all2 (\<lambda>r ids. rec_input_ids r @ completion_of r = ids) (records (traj s)) (trajectory_token_ids (traj s))"
    using assms(1) by (simp add: core_inv_def records_ok_def)
  then have snap: "map snapshot recs = trajectory_token_ids (traj s)"
    unfolding assms(2) [symmetric] by (auto simp: list_all2_conv_all_nth record_of_simps snapshot_def intro!: nth_equalityI)
  have nth: "snapshot (recs ! i) = trajectory_token_ids (traj s) ! i" if "i < length recs" for i
    using that snap by (metis nth_map)
  have n: "num_assistant (traj s) = length recs"
    using assms(1) snap by (metis core_inv_def length_map trajectory_ok_def)
  have "snapshot (last recs) = LinearSession.token_ids (traj s)"
    using assms(3) snap by (metis LinearSession.token_ids_def last_map list.map_disc_iff)
  moreover have "sorted (map (\<lambda>r. length (snapshot r)) recs)"
    using assms(4) unfolding snap [symmetric] by (simp add: comp_def)
  moreover have "keeps_prefix (max_trim_tokens (family (tokenizer cfg))) (snapshot (recs ! i)) (snapshot (recs ! Suc i))"
    if "Suc i < length recs" for i
    using assms(1) that n nth by (simp add: core_inv_def trajectory_ok_def)
  ultimately show ?thesis using assms(3) by (simp add: chain_ok_def)
qed

text \<open>
  The alignment of a linear session's records never fails: in every reachable session
  whose turns did not shrink, each turn needs at most the family's trim, the last turn needs
  none, and the cursor ends at the end of the accumulated tokens.
\<close>

theorem linear_session_turns_align:
  assumes "s = foldl (core_step cfg) (new_core_session ev defaults replay) events"
    "map record_of recs = records (traj s)" "recs \<noteq> []" "sorted (map length (trajectory_token_ids (traj s)))"
  shows "list_all (\<lambda>i. \<exists>trim c'. align_turn (Some (LinearSession.token_ids (traj s)))
      (max_trim_tokens (family (tokenizer cfg))) (i = length recs - 1) c (recs ! i) = Inr (trim, c')
      \<and> (i = length recs - 1 \<longrightarrow> trim = 0 \<and> c' = length (LinearSession.token_ids (traj s)))) [0..<length recs]"
proof -
  have "core_inv cfg s" unfolding assms(1) by (rule linear.inv_run)
    (simp add: core_inv_def new_core_session_def new_trajectory_ok)
  from chain_aligns [OF linear_chain_ok [OF this assms(2-4)]] show ?thesis by (fastforce simp: list_all_iff)
qed

text \<open>The same along a path of the forest, from its root to the node.\<close>

lemma path_nodes_step:
  assumes "forest_ok t" "i < length (nodes t)" "Suc k < length (path_nodes t i)"
  shows "parent (nodes t ! (path_nodes t i ! Suc k)) = Some (path_nodes t i ! k)"
  using assms(2,3)
proof (induction i rule: less_induct)
  case (less i)
  note un = path_nodes_unfold [OF assms(1) less.prems(1)]
  show ?case
  proof (cases "parent (nodes t ! i)")
    case None
    with un less.prems(2) show ?thesis by simp
  next
    case (Some p)
    have p: "p < i" using forest_parent [OF assms(1) less.prems(1) Some] .
    then have pl: "p < length (nodes t)" using less.prems(1) by simp
    have path: "path_nodes t i = path_nodes t p @ [i]" using un Some by simp
    have ne: "path_nodes t p \<noteq> []" by (rule path_nodes_facts(6) [OF assms(1) pl])
    have last: "last (path_nodes t p) = p"
      using path_nodes_unfold [OF assms(1) pl] by (auto split: option.splits)
    show ?thesis
    proof (cases "Suc k < length (path_nodes t p)")
      case True
      with less.IH [OF p pl True] path show ?thesis by (simp add: nth_append)
    next
      case False
      then have "Suc k = length (path_nodes t p)" using less.prems(2) path by simp
      then have k: "length (path_nodes t p) - 1 = k" "\<not> Suc k < length (path_nodes t p)" by simp_all
      then have "path_nodes t p ! k = p" using last ne by (simp add: last_conv_nth)
      moreover have "k < length (path_nodes t p)" using k(1) ne by (cases "path_nodes t p") auto
      ultimately show ?thesis
        using path Some \<open>Suc k = length (path_nodes t p)\<close> by (simp add: nth_append)
    qed
  qed
qed

lemma path_last: "forest_ok t \<Longrightarrow> i < length (nodes t) \<Longrightarrow> last (path_nodes t i) = i"
  by (simp add: path_nodes_unfold split: option.splits)

lemma node_ok_parent:
  "node_ok mt t i \<Longrightarrow> parent (nodes t ! i) = Some p \<Longrightarrow>
   keeps_prefix mt (node_token_ids (nodes t ! p)) (node_token_ids (nodes t ! i))"
  unfolding node_ok_def Let_def by (drule conjunct2, drule conjunct2) simp

lemma tree_chain_ok:
  assumes "tree_inv cfg s" "leaf < length (nodes (tree (state s)))"
    "\<And>j. j < length (nodes (tree (state s))) \<Longrightarrow> record_of (rec_of j) = node_record (nodes (tree (state s)) ! j)"
    "sorted (map (\<lambda>j. length (node_token_ids (nodes (tree (state s)) ! j))) (path_nodes (tree (state s)) leaf))"
  shows "chain_ok (max_trim_tokens (family (tokenizer cfg))) (map rec_of (path_nodes (tree (state s)) leaf))
    (node_token_ids (nodes (tree (state s)) ! leaf))"
proof -
  let ?t = "tree (state s)"
  let ?path = "path_nodes ?t leaf" and ?mt = "max_trim_tokens (family (tokenizer cfg))"
  have ok: "forest_ok ?t" "\<And>i. i < length (nodes ?t) \<Longrightarrow> node_ok ?mt ?t i"
    using assms(1) by (auto simp: tree_inv_def Let_def)
  have mem: "?path ! k < length (nodes ?t)" if "k < length ?path" for k
    using path_nodes_facts(2) [OF ok(1) assms(2)] nth_mem [OF that] assms(2) by (meson le_less_trans)
  have snap: "snapshot (rec_of j) = node_token_ids (nodes ?t ! j)" if "j < length (nodes ?t)" for j
    using ok(2) [OF that] record_of_simps [of "rec_of j"] assms(3) [OF that]
    by (simp add: node_ok_def Let_def snapshot_def)
  have inp: "j < length (nodes ?t)" if "j \<in> set ?path" for j
    using path_nodes_facts(2) [OF ok(1) assms(2)] that assms(2) by (meson le_less_trans)
  have "keeps_prefix ?mt (snapshot (map rec_of ?path ! k)) (snapshot (map rec_of ?path ! Suc k))"
    if "Suc k < length (map rec_of ?path)" for k
  proof -
    have k: "Suc k < length ?path" "k < length ?path" using that by simp_all
    have "node_ok ?mt ?t (?path ! Suc k)" by (rule ok(2) [OF mem [OF k(1)]])
    from node_ok_parent [OF this path_nodes_step [OF ok(1) assms(2) k(1)]]
    have "keeps_prefix ?mt (node_token_ids (nodes ?t ! (?path ! k))) (node_token_ids (nodes ?t ! (?path ! Suc k)))" .
    then show ?thesis using k snap [OF mem [OF k(1)]] snap [OF mem [OF k(2)]] by simp
  qed
  moreover have "snapshot (last (map rec_of ?path)) = node_token_ids (nodes ?t ! leaf)"
    using path_nodes_facts(6) [OF ok(1) assms(2)] path_last [OF ok(1) assms(2)] snap [OF assms(2)] by (simp add: last_map)
  moreover have "map (\<lambda>r. length (snapshot r)) (map rec_of ?path) = map (\<lambda>j. length (node_token_ids (nodes ?t ! j))) ?path"
    using inp snap by simp
  ultimately show ?thesis
    using assms(4) path_nodes_facts(6) [OF ok(1) assms(2)] unfolding chain_ok_def
    by (metis (no_types, lifting) list.map_disc_iff)
qed

text \<open>
  The same for every leaf of every reachable tree session: along the path from the root,
  each turn needs at most the trim, the leaf's own turn needs none, and the cursor ends at
  the end of the leaf's tokens.
\<close>

theorem tree_session_turns_align:
  assumes "s = foldl (tree_step cfg) (new_tree_session ev defaults replay) events"
    "leaf < length (nodes (tree (state s)))" "\<And>j. j < length (nodes (tree (state s))) \<Longrightarrow> record_of (rec_of j) = node_record (nodes (tree (state s)) ! j)"
    "sorted (map (\<lambda>j. length (node_token_ids (nodes (tree (state s)) ! j))) (path_nodes (tree (state s)) leaf))"
  shows "list_all (\<lambda>i. \<exists>trim c'. align_turn (Some (node_token_ids (nodes (tree (state s)) ! leaf)))
      (max_trim_tokens (family (tokenizer cfg))) (i = length (path_nodes (tree (state s)) leaf) - 1) c
      (rec_of (path_nodes (tree (state s)) leaf ! i)) = Inr (trim, c')
      \<and> (i = length (path_nodes (tree (state s)) leaf) - 1 \<longrightarrow>
          trim = 0 \<and> c' = length (node_token_ids (nodes (tree (state s)) ! leaf))))
    [0..<length (path_nodes (tree (state s)) leaf)]"
proof -
  have "tree_inv cfg s" unfolding assms(1) by (rule forest.inv_run [OF new_tree_inv])
  from chain_aligns [OF tree_chain_ok [OF this assms(2-4)]] show ?thesis by (fastforce simp: list_all_iff)
qed

text \<open>A record of the example sessions with nothing beyond the session's own fields.\<close>

definition plain_record :: "session_record \<Rightarrow> openai_record" where
  "plain_record r = session_record.extend r (openai_record.fields 0 None (Some ''stop'') None None None None None None None None
     no_spec 0 0)"

lemma record_of_plain [simp]: "record_of (plain_record r) = r"
  by (simp add: record_of_def plain_record_def session_record.defs openai_record.defs)

definition two_turns :: core_session where
  "two_turns = foldl (core_step example_core) (new_core_session False [] False)
     [Begin 0 (chat_request [user_says ''u'']), Finish 0 (answer ''a'' [7, 8]),
      Begin 1 (chat_request [user_says ''u'', assistant_says ''a'', user_says ''v'']), Finish 1 (answer ''b'' [9])]"

definition two_records :: "openai_record list" where
  "two_records = map plain_record (records (traj two_turns))"

lemma two_records_facts:
  "length two_records = 2" "sorted (map length (trajectory_token_ids (traj two_turns)))" by code_simp+

theorem linear_session_turns_align_witness:
  "length two_records = 2 \<and>
   list_all (\<lambda>i. \<exists>trim c'. align_turn (Some (LinearSession.token_ids (traj two_turns)))
      (max_trim_tokens (family (tokenizer example_core))) (i = length two_records - 1) 0 (two_records ! i) = Inr (trim, c')
      \<and> (i = length two_records - 1 \<longrightarrow> trim = 0 \<and> c' = length (LinearSession.token_ids (traj two_turns))))
    [0..<length two_records]"
proof -
  have "map record_of two_records = records (traj two_turns)" by (simp add: two_records_def comp_def)
  moreover have "two_records \<noteq> []" using two_records_facts(1) by auto
  ultimately show ?thesis
    using two_records_facts by (intro conjI linear_session_turns_align [OF two_turns_def])
qed

definition example_leaf_record :: "nat \<Rightarrow> openai_record" where
  "example_leaf_record j = plain_record (node_record (nodes (tree (state example_forest)) ! j))"

lemma example_leaf_facts: "path_nodes (tree (state example_forest)) 1 = [0, 1]"
  "sorted (map (\<lambda>j. length (node_token_ids (nodes (tree (state example_forest)) ! j)))
       (path_nodes (tree (state example_forest)) 1))" by code_simp+

theorem tree_session_turns_align_witness:
  "length (path_nodes (tree (state example_forest)) 1) = 2 \<and>
   list_all (\<lambda>i. \<exists>trim c'. align_turn (Some (node_token_ids (nodes (tree (state example_forest)) ! 1)))
      (max_trim_tokens (family (tokenizer example_core))) (i = length (path_nodes (tree (state example_forest)) 1) - 1) 0
      (example_leaf_record (path_nodes (tree (state example_forest)) 1 ! i)) = Inr (trim, c')
      \<and> (i = length (path_nodes (tree (state example_forest)) 1) - 1 \<longrightarrow>
          trim = 0 \<and> c' = length (node_token_ids (nodes (tree (state example_forest)) ! 1))))
    [0..<length (path_nodes (tree (state example_forest)) 1)]"
  using example_leaf_facts
  by (intro conjI tree_session_turns_align [OF example_forest_def [unfolded run_tree_def]])
    (simp_all add: example_forest_facts(1) example_leaf_record_def del: One_nat_def)

section \<open>What the hooks decide\<close>

text \<open>The samples' descriptors agree with the node table.\<close>

definition material_ok :: "node_row list \<Rightarrow> leaf_sample list \<Rightarrow> bool" where
  "material_ok rows samples \<longleftrightarrow> list_all (\<lambda>s. leaf_node_id s < length rows
     \<and> leaf_parent s = row_parent (rows ! leaf_node_id s) \<and> leaf_node_id s \<in> set (path_node_ids s)) samples"

lemma superseding_iff:
  "superseding rows samples must_match s = [] \<longleftrightarrow>
    (\<forall>i<length rows. row_parent (rows ! i) = leaf_parent s
       \<longrightarrow> (leaf_parent s = None \<or> must_match \<longrightarrow> same_prompt rows samples s i) \<longrightarrow> i \<le> leaf_node_id s)"
proof -
  have dom: "(\<forall>i\<in>set [0..<length rows]. P i) \<longleftrightarrow> (\<forall>i<length rows. P i)" for P by auto
  show ?thesis
    unfolding superseding_def siblings_def Let_def
    by (cases "leaf_parent s = None \<or> must_match"; simp only: if_True if_False filter_empty_conv set_filter mem_Collect_eq)
      (auto simp: not_less)
qed

text \<open>
  The rollback picker keeps a leaf below the root exactly when it is the last committed
  child of its parent, and a first turn exactly when no later first turn re-sends its prompt;
  the latest commit is never dropped, and survivors are ordered by depth, then by commit,
  latest first.
\<close>

theorem picker_keeps_last_children:
  assumes "material_ok rows samples" "out = drop_rolled_back_leaves rows False samples"
  shows "sorted (rev (map pick_key out)) \<and> set out \<subseteq> set samples
    \<and> (distinct samples \<longrightarrow> distinct out)
    \<and> list_all (\<lambda>s. s \<in> set out \<longleftrightarrow>
        (\<forall>i<length rows. row_parent (rows ! i) = leaf_parent s
          \<longrightarrow> (leaf_parent s = None \<longrightarrow> same_prompt rows samples s i) \<longrightarrow> i \<le> leaf_node_id s)) samples
    \<and> list_all (\<lambda>s. Suc (leaf_node_id s) = length rows \<longrightarrow> s \<in> set out) samples"
proof (intro conjI)
  show "sorted (rev (map pick_key out))"
    unfolding assms(2) drop_rolled_back_leaves_def by (rule sorted_sort_desc)
  show "set out \<subseteq> set samples" by (auto simp: assms(2) drop_rolled_back_leaves_def)
  show "distinct samples \<longrightarrow> distinct out"
    unfolding assms(2) drop_rolled_back_leaves_def sort_desc_def by simp
  show "list_all (\<lambda>s. s \<in> set out \<longleftrightarrow>
        (\<forall>i<length rows. row_parent (rows ! i) = leaf_parent s
          \<longrightarrow> (leaf_parent s = None \<longrightarrow> same_prompt rows samples s i) \<longrightarrow> i \<le> leaf_node_id s)) samples"
    by (auto simp: list_all_iff assms(2) drop_rolled_back_leaves_def superseding_iff)
  show "list_all (\<lambda>s. Suc (leaf_node_id s) = length rows \<longrightarrow> s \<in> set out) samples"
    by (auto simp: list_all_iff assms(2) drop_rolled_back_leaves_def superseding_iff)
qed

definition example_rows :: "node_row list" where
  "example_rows =
     [\<lparr> row_parent = None, row_truncated = False, row_span = (2, 4), row_num_tokens = 4, row_response_id = ''a'' \<rparr>,
      \<lparr> row_parent = Some 0, row_truncated = True, row_span = (5, 6), row_num_tokens = 6, row_response_id = ''b'' \<rparr>,
      \<lparr> row_parent = Some 0, row_truncated = False, row_span = (5, 7), row_num_tokens = 7, row_response_id = ''c'' \<rparr>,
      \<lparr> row_parent = None, row_truncated = False, row_span = (2, 3), row_num_tokens = 3, row_response_id = ''d'' \<rparr>]"

definition example_leaf :: "nat \<Rightarrow> nat list \<Rightarrow> nat list \<Rightarrow> nat list \<Rightarrow> leaf_sample" where
  "example_leaf i path toks lm = \<lparr> leaf_sample = new_sample\<lparr> tokens := toks, response_length := length lm, loss_mask := Some lm \<rparr>,
     leaf_node_id = i, leaf_parent = row_parent (example_rows ! i), path_node_ids = path, accumulated_token_ids = toks \<rparr>"

definition example_leaves :: "leaf_sample list" where
  "example_leaves = [example_leaf 1 [0, 1] [1, 2, 3, 4, 5, 6] [1, 1, 0, 1],
     example_leaf 2 [0, 2] [1, 2, 3, 4, 5, 7, 8] [1, 1, 0, 1, 1], example_leaf 3 [3] [1, 9, 3] [1]]"

theorem picker_keeps_last_children_witness:
  "sorted (rev (map pick_key (drop_rolled_back_leaves example_rows False example_leaves)))
   \<and> map leaf_node_id (drop_rolled_back_leaves example_rows False example_leaves) = [2, 3]"
proof
  have ok: "material_ok example_rows example_leaves" by code_simp
  show "sorted (rev (map pick_key (drop_rolled_back_leaves example_rows False example_leaves)))"
    using picker_keeps_last_children [OF ok refl] by (rule conjunct1)
  show "map leaf_node_id (drop_rolled_back_leaves example_rows False example_leaves) = [2, 3]" by code_simp
qed

text \<open>The owner of a node is the earliest kept leaf below it.\<close>

definition covering_leaves :: "leaf_sample list \<Rightarrow> nat \<Rightarrow> nat set" where
  "covering_leaves samples i = leaf_node_id ` {s \<in> set samples. i \<in> set (path_node_ids s)}"

lemma dget_claim_nodes: "dget (claim_nodes owners s) i =
  (if i \<in> set (path_node_ids s)
   then Some (min (leaf_node_id s) (case dget owners i of None \<Rightarrow> leaf_node_id s | Some o1 \<Rightarrow> o1))
   else dget owners i)"
proof -
  have "dget (foldl (\<lambda>d i. dset d i (min (leaf_node_id s)
     (case dget d i of None \<Rightarrow> leaf_node_id s | Some o1 \<Rightarrow> o1))) owners path) i =
    (if i \<in> set path then Some (min (leaf_node_id s) (case dget owners i of None \<Rightarrow> leaf_node_id s | Some o1 \<Rightarrow> o1))
     else dget owners i)" for path
    by (induction path rule: rev_induct) (simp_all split: option.splits if_splits, auto)
  then show ?thesis by (simp add: claim_nodes_def)
qed

lemma owner_is_earliest:
  "dget (owner_by_node_id samples) i =
    (if covering_leaves samples i = {} then None else Some (Min (covering_leaves samples i)))"
proof (induction samples rule: rev_induct)
  case Nil
  show ?case by (simp add: owner_by_node_id_def covering_leaves_def)
next
  case (snoc s samples)
  have fin: "finite (covering_leaves samples i)" by (simp add: covering_leaves_def)
  have split: "covering_leaves (samples @ [s]) i =
    (if i \<in> set (path_node_ids s) then insert (leaf_node_id s) (covering_leaves samples i) else covering_leaves samples i)"
    by (auto simp: covering_leaves_def)
  have step: "owner_by_node_id (samples @ [s]) = claim_nodes (owner_by_node_id samples) s"
    by (simp add: owner_by_node_id_def)
  show ?case
    unfolding step dget_claim_nodes split using snoc fin by simp
qed

text \<open>Each mask step clears its range and leaves the rest.\<close>

lemma mask_node_length: "snd rng \<le> length lm \<Longrightarrow> length (mask_node lm rng) = length lm"
  by (auto simp: mask_node_def zero_range_def)

lemma mask_node_nth:
  assumes "snd rng \<le> length lm" "j < length lm"
  shows "length (mask_node lm rng) = length lm \<and>
    mask_node lm rng ! j = (if fst rng \<le> j \<and> j < snd rng then 0 else lm ! j)"
  using assms by (auto simp: mask_node_def zero_range_def nth_append min_def)

lemma mask_nodes_nth:
  assumes "\<And>rng. rng \<in> set ranges \<Longrightarrow> snd rng \<le> length lm" "j < length lm"
  shows "length (foldl mask_node lm ranges) = length lm \<and>
    foldl mask_node lm ranges ! j = (if \<exists>rng\<in>set ranges. fst rng \<le> j \<and> j < snd rng then 0 else lm ! j)"
  using assms
proof (induction ranges rule: rev_induct)
  case (snoc rng ranges)
  then have IH: "length (foldl mask_node lm ranges) = length lm"
    "foldl mask_node lm ranges ! j = (if \<exists>rng\<in>set ranges. fst rng \<le> j \<and> j < snd rng then 0 else lm ! j)" by simp_all
  have "snd rng \<le> length (foldl mask_node lm ranges)" "j < length (foldl mask_node lm ranges)"
    using snoc.prems IH(1) by simp_all
  from mask_node_nth [OF this] IH show ?case by auto
qed simp

lemma mask_nodes_length: "(\<And>rng. rng \<in> set ranges \<Longrightarrow> snd rng \<le> length lm) \<Longrightarrow> length (foldl mask_node lm ranges) = length lm"
proof (induction ranges rule: rev_induct)
  case (snoc rng ranges)
  then have "length (foldl mask_node lm ranges) = length lm" "snd rng \<le> length lm" by simp_all
  then show ?case by (simp add: mask_node_length)
qed simp

lemma span_hits:
  "j < n \<Longrightarrow> fst (span_in_response rows start n i) \<le> j \<and> j < snd (span_in_response rows start n i)
    \<longleftrightarrow> fst (row_span (rows ! i)) \<le> start + j \<and> start + j < snd (row_span (rows ! i))"
  by (cases "row_span (rows ! i)") (auto simp: span_in_response_def)

text \<open>
  C34: post-processing makes a completion that several kept leaves share trainable only in
  the earliest committed of them: in every other kept leaf its positions are zero, every other
  position keeps its mask, and no mask changes its length.
\<close>

theorem shared_completions_have_one_owner:
  assumes "default_postprocess rows agent samples = Inr out"
    "list_all (\<lambda>s. \<exists>m. loss_mask (leaf_sample s) = Some m \<and> length m = response_length (leaf_sample s)) samples"
    "k < length samples" "s = samples ! k" "start = length (tokens (leaf_sample s)) - response_length (leaf_sample s)"
    "loss_mask (leaf_sample s) = Some m"
  shows "\<exists>m'. loss_mask (out ! k) = Some m' \<and> length m' = length m \<and> length out = length samples
    \<and> (\<forall>j<length m. m' ! j =
        (if list_ex (\<lambda>i. leaf_node_id s \<noteq> Min (covering_leaves samples i)
            \<and> fst (row_span (rows ! i)) \<le> start + j \<and> start + j < snd (row_span (rows ! i))) (path_node_ids s)
         then 0 else m ! j))"
proof -
  let ?owners = "owner_by_node_id samples"
  let ?ranges = "map (span_in_response rows start (response_length (leaf_sample s)))
    (filter (\<lambda>i. dget ?owners i \<noteq> Some (leaf_node_id s)) (path_node_ids s))"
  have s: "s \<in> set samples" using assms(3,4) by simp
  then have len: "length m = response_length (leaf_sample s)" using assms(2,6) by (auto simp: list_all_iff)
  have own: "dget ?owners i = Some (leaf_node_id s) \<longleftrightarrow> leaf_node_id s = Min (covering_leaves samples i)"
    if "i \<in> set (path_node_ids s)" for i
    using that s by (auto simp: owner_is_earliest covering_leaves_def)
  have ms: "mask_shared rows ?owners s = Inr (Some (foldl mask_node m ?ranges))"
    using assms(5,6) by (simp add: mask_shared_def Let_def)
  have bound: "snd rng \<le> length m" if "rng \<in> set ?ranges" for rng
    using that by (auto simp: span_in_response_def len split: prod.splits)
  have all: "res_all (map (\<lambda>s. rbind (mask_shared rows ?owners s) (\<lambda>m.
        Inr ((leaf_sample s)\<lparr> loss_mask := m,
          metadata := Some (merged_agent_metadata (case metadata (leaf_sample s) of None \<Rightarrow> [] | Some d \<Rightarrow> d) agent),
          reward := (if mget agent ''reward'' = JNull then reward (leaf_sample s) else mget agent ''reward'') \<rparr>))) samples) = Inr out"
    using assms(1) by (simp add: default_postprocess_def Let_def)
  have out: "length out = length samples" "loss_mask (out ! k) = Some (foldl mask_node m ?ranges)"
  proof -
    let ?f = "\<lambda>s. rbind (mask_shared rows ?owners s) (\<lambda>m.
        Inr ((leaf_sample s)\<lparr> loss_mask := m,
          metadata := Some (merged_agent_metadata (case metadata (leaf_sample s) of None \<Rightarrow> [] | Some d \<Rightarrow> d) agent),
          reward := (if mget agent ''reward'' = JNull then reward (leaf_sample s) else mget agent ''reward'') \<rparr>))"
    have eq: "map ?f samples = map Inr out" by (rule res_all_Inr [OF all])
    from arg_cong [OF eq, of length] show n: "length out = length samples" by simp
    have "?f (samples ! k) = Inr (out ! k)"
      using arg_cong [OF eq, of "\<lambda>xs. xs ! k"] assms(3) n by (simp only: nth_map)
    then have "Inr (out ! k) = ?f s" unfolding assms(4) by (rule sym)
    then show "loss_mask (out ! k) = Some (foldl mask_node m ?ranges)" unfolding ms by simp
  qed
  have pos: "foldl mask_node m ?ranges ! j =
      (if list_ex (\<lambda>i. leaf_node_id s \<noteq> Min (covering_leaves samples i)
            \<and> fst (row_span (rows ! i)) \<le> start + j \<and> start + j < snd (row_span (rows ! i))) (path_node_ids s)
         then 0 else m ! j)" if "j < length m" for j
  proof -
    have "(\<exists>rng\<in>set ?ranges. fst rng \<le> j \<and> j < snd rng) \<longleftrightarrow>
       list_ex (\<lambda>i. leaf_node_id s \<noteq> Min (covering_leaves samples i)
            \<and> fst (row_span (rows ! i)) \<le> start + j \<and> start + j < snd (row_span (rows ! i))) (path_node_ids s)"
      using own that by (auto simp: list_ex_iff len span_hits)
    with mask_nodes_nth [OF bound that] show ?thesis by presburger
  qed
  show ?thesis
    using out mask_nodes_length [OF bound] pos by blast
qed

theorem shared_completions_have_one_owner_witness:
  "\<exists>out. default_postprocess example_rows [] example_leaves = Inr out
    \<and> map loss_mask out = [Some [1, 1, 0, 1], Some [0, 0, 0, 1, 1], Some [1]]
    \<and> (\<exists>m'. loss_mask (out ! 1) = Some m' \<and> length m' = 5)"
proof -
  have "map_option (map loss_mask) (case default_postprocess example_rows [] example_leaves of Inl e \<Rightarrow> None | Inr out \<Rightarrow> Some out)
     = Some [Some [1, 1, 0, 1], Some [0, 0, 0, 1, 1], Some [1]]" by code_simp
  then obtain out where out: "default_postprocess example_rows [] example_leaves = Inr out"
    "map loss_mask out = [Some [1, 1, 0, 1], Some [0, 0, 0, 1, 1], Some [1]]"
    by (cases "default_postprocess example_rows [] example_leaves") auto
  have all: "list_all (\<lambda>s. \<exists>m. loss_mask (leaf_sample s) = Some m \<and> length m = response_length (leaf_sample s)) example_leaves"
    by (simp add: example_leaves_def example_leaf_def)
  have k: "1 < length example_leaves" "loss_mask (leaf_sample (example_leaves ! 1)) = Some [1, 1, 0, 1, 1]" by code_simp+
  from shared_completions_have_one_owner [OF out(1) all k(1) refl refl k(2)] out show ?thesis by auto
qed

section \<open>The rows of the routed experts\<close>

text \<open>A decoded buffer is reshaped to the requested number of rows, none for a non-positive one.\<close>

definition decodes_rows :: "sample_args \<Rightarrow> bool" where
  "decodes_rows args \<longleftrightarrow> (\<forall>info n k rows. decode_rows args info n k = Inr rows \<longrightarrow> int (length rows) = max n 0)"

lemma r3_patches_step:
  assumes "decodes_rows args" "int (length (concat chunks)) = covered" "0 \<le> covered"
    "r3_patches args required covered chunks recs = Inr (chunks', covered')"
  shows "int (length (concat chunks')) = covered'"
  using assms(2-4)
proof (induction recs arbitrary: covered chunks)
  case (Cons r rest)
  show ?case
  proof (cases "chunks \<noteq> [] \<and> required \<le> covered")
    case True
    with Cons.prems show ?thesis by simp
  next
    case False
    let ?stop = "int (length (rec_input_ids r)) + int (length (output_ids r)) - 1"
    obtain info where info: "routed_experts (rec_choice r) = Some info"
      using False Cons.prems(3) by (auto split: option.splits)
    have start: "dget (rec_request r) ''routed_experts_start_len'' = Some (JInt covered)"
      using False Cons.prems(3) info by (auto split: option.splits json.splits if_splits)
    let ?next = "\<lambda>rows. r3_patches args required ?stop (if rows \<noteq> [] \<or> required = 0 then chunks @ [rows] else chunks) rest"
    have body: "(if ?stop < covered then Inl ValueError
        else if (info \<noteq> []) \<noteq> (?stop - covered \<noteq> 0) then Inl ValueError
        else rbind (get_routed_experts args r (?stop - covered)) (\<lambda>patch. case patch of
            None \<Rightarrow> Inl TypeError | Some rows \<Rightarrow> ?next rows)) = Inr (chunks', covered')"
      using Cons.prems(3) False info start
      by (simp only: r3_patches.simps if_False option.case json.case Let_def simp_thms)
    then have stop: "covered \<le> ?stop" "(info \<noteq> []) = (?stop - covered \<noteq> 0)"
      by (cases "?stop < covered"; cases "(info \<noteq> []) \<noteq> (?stop - covered \<noteq> 0)"; simp)+
    have nlt: "(?stop < covered) = False" using stop(1) by simp
    have bind: "rbind (get_routed_experts args r (?stop - covered)) (\<lambda>patch. case patch of
            None \<Rightarrow> Inl TypeError | Some rows \<Rightarrow> ?next rows) = Inr (chunks', covered')"
      using body unfolding nlt if_False stop(2) by (simp only: simp_thms if_False)
    then obtain rows where patch: "get_routed_experts args r (?stop - covered) = Inr (Some rows)"
      "?next rows = Inr (chunks', covered')"
      by (cases "get_routed_experts args r (?stop - covered)") (auto split: option.splits)
    with info have "decode_rows args info (?stop - covered) (num_layers args) = Inr rows"
      by (cases "decode_rows args info (?stop - covered) (num_layers args)") (auto simp: get_routed_experts_def py_assert_def split: if_splits)
    then have n: "int (length rows) = ?stop - covered" using assms(1) stop(1) unfolding decodes_rows_def by fastforce
    have "int (length (concat (if rows \<noteq> [] \<or> required = 0 then chunks @ [rows] else chunks))) = ?stop"
      using n Cons.prems(1) by (cases "rows = []") simp_all
    from Cons.IH [OF this _ patch(2)] stop(1) Cons.prems(2) show ?thesis by simp
  qed
qed simp

text \<open>
  With the replayed expert ids taken from per-turn patches, the merged sample carries
  exactly one row for every token but the last: the patches join without gap or overlap and
  what exceeds the sample is cut.
\<close>

theorem patched_experts_cover_the_sample:
  assumes "decodes_rows args" "merge_samples_with_addition_r3 args samples recs = Inr merged"
    "\<not> list_all (\<lambda>r. routed_experts (rec_choice r) = None) recs" "tokens merged \<noteq> []"
  shows "\<exists>rows. rollout_routed_experts merged = Some rows \<and> length rows + 1 = length (tokens merged)"
proof -
  obtain base where base: "merge_samples (decode_tokens args) samples = Inr base"
    using assms(2) by (cases "merge_samples (decode_tokens args) samples") (simp_all add: merge_samples_with_addition_r3_def)
  let ?req = "int (length (tokens base)) - 1"
  obtain chunks covered where p: "r3_patches args ?req 0 [] recs = Inr (chunks, covered)"
    using assms(2,3) base by (cases "r3_patches args ?req 0 [] recs") (auto simp: merge_samples_with_addition_r3_def Let_def)
  have m: "?req \<le> covered" "tokens merged = tokens base" "rollout_routed_experts merged = Some (if 0 \<le> ?req
               then take (nat ?req) (concat chunks) else drop_last (nat (- ?req)) (concat chunks))"
    using assms(2,3) base p by (auto simp: merge_samples_with_addition_r3_def Let_def split: if_splits)
  have "int (length (concat chunks)) = covered" by (rule r3_patches_step [OF assms(1) _ _ p]) simp_all
  moreover have "1 \<le> length (tokens base)" using assms(4) m(2) by (cases "tokens base") simp_all
  ultimately show ?thesis using m by (simp add: min_def of_nat_diff nat_le_iff le_nat_iff split: if_splits) linarith
qed

definition example_args :: sample_args where
  "example_args = \<lparr> top_logprobs_num = 0, num_layers = 1, indexer_num_streams = None, save_debug_trajectory_data = False,
     speculative_algorithm = False, decode_tokens = (\<lambda>ids. map (\<lambda>i. char_of i) ids),
     decode_rows = (\<lambda>info n k. Inr (replicate (nat n) [length info])) \<rparr>"

definition example_routed :: openai_record where
  "example_routed = plain_record \<lparr> rec_request = [(''routed_experts_start_len'', JInt 0)], rec_input_ids = [1, 2, 3],
     rec_start_len = None, rec_choice = \<lparr> finish_reason = Some ''stop'', choice_message = [],
       output_token_logprobs = Some [(0, 4), (0, 5)], completion_tokens = 2, routed_experts = Some ''xy'' \<rparr>,
     rec_response_id = [] \<rparr>"

theorem patched_experts_cover_the_sample_witness:
  "\<exists>merged rows. merge_samples_with_addition_r3 example_args [new_sample\<lparr> tokens := [1, 2, 3, 4] \<rparr>] [example_routed] = Inr merged
     \<and> rollout_routed_experts merged = Some rows \<and> length rows + 1 = length (tokens merged) \<and> length (tokens merged) = 4"
proof -
  let ?x = "merge_samples_with_addition_r3 example_args [new_sample\<lparr> tokens := [1, 2, 3, 4] \<rparr>] [example_routed]"
  have ok: "decodes_rows example_args" by (auto simp: decodes_rows_def example_args_def)
  have "case ?x of Inl e \<Rightarrow> False | Inr m \<Rightarrow> length (tokens m) = 4" by code_simp
  then obtain m where m: "?x = Inr m" "length (tokens m) = 4" by (cases ?x) auto
  have "\<not> list_all (\<lambda>r. routed_experts (rec_choice r) = None) [example_routed]" by code_simp
  moreover have "tokens m \<noteq> []" using m(2) by auto
  ultimately show ?thesis using patched_experts_cover_the_sample [OF ok m(1)] m by blast
qed

end
