(* ===== verification/DataSource.thy ===== *)
theory DataSource
  imports Samples
begin

text \<open>
  The data source of a rollout (\<open>rollout/data_source.py\<close> and the order of \<open>Dataset\<close> in
  \<open>utils/data.py\<close>): prompts in epochs, each reshuffled from the original order, the buffer of groups
  to generate again, and the saved position.  Reading and tokenizing the file is left out; the
  permutation drawn with the seed of an epoch is a parameter.
\<close>

section \<open>The dataset\<close>

record dataset =
  origin_samples :: "sample list"
  dataset_samples :: "sample list"
  dataset_epoch :: int

definition new_dataset :: "sample list \<Rightarrow> dataset" where
  "new_dataset xs = \<lparr> origin_samples = xs, dataset_samples = xs, dataset_epoch = -1 \<rparr>"

text \<open>\<open>perm e n\<close> is the list \<open>0..n-1\<close> after \<open>random.shuffle\<close> with the seed of epoch \<open>e\<close>.\<close>

definition shuffle_dataset :: "(nat \<Rightarrow> nat \<Rightarrow> nat list) \<Rightarrow> nat \<Rightarrow> dataset \<Rightarrow> dataset" where
  "shuffle_dataset perm e d =
     (if dataset_epoch d = int e then d
      else d\<lparr>dataset_samples := map (\<lambda>i. origin_samples d ! i) (perm e (length (dataset_samples d))), dataset_epoch := int e\<rparr>)"

section \<open>The source\<close>

record source_args =
  rollout_shuffle :: bool
  n_samples_per_prompt :: nat
  epoch_order :: "nat \<Rightarrow> nat \<Rightarrow> nat list"

record data_source =
  epoch_id :: nat
  next_group_index :: nat
  next_sample_index :: nat
  sample_offset :: nat
  source_dataset :: "dataset option"
  source_metadata :: "(string, json) dict"
  retry_buffer :: "sample list list"

definition shuffle_source :: "source_args \<Rightarrow> nat \<Rightarrow> dataset \<Rightarrow> dataset" where
  "shuffle_source a e d = (if rollout_shuffle a then shuffle_dataset (epoch_order a) e d else d)"

text \<open>\<open>prompts\<close> is \<open>None\<close> under \<open>--disable-rollout-global-dataset\<close>.\<close>

definition new_data_source :: "source_args \<Rightarrow> sample list option \<Rightarrow> data_source" where
  "new_data_source a prompts =
     \<lparr> epoch_id = 0, next_group_index = 0, next_sample_index = 0, sample_offset = 0,
       source_dataset = map_option (\<lambda>xs. shuffle_source a 0 (new_dataset xs)) prompts,
       source_metadata = [], retry_buffer = [] \<rparr>"

text \<open>The prompts of a request, and the source behind them.\<close>

definition take_prompts :: "source_args \<Rightarrow> nat \<Rightarrow> data_source \<Rightarrow> sample list \<times> data_source" where
  "take_prompts a num s = (case source_dataset s of
       None \<Rightarrow> (replicate num new_sample, s)
     | Some d \<Rightarrow>
         let off = sample_offset s in
         if off + num \<le> length (dataset_samples d)
         then (slice off (off + num) (dataset_samples d), s\<lparr>sample_offset := off + num\<rparr>)
         else
           let first = drop off (dataset_samples d);
               left = num - length first;
               d' = shuffle_source a (epoch_id s + 1) d
           in (first @ take left (dataset_samples d'),
               s\<lparr>epoch_id := epoch_id s + 1, source_dataset := Some d', sample_offset := left\<rparr>))"

text \<open>One group: copies of the prompt under consecutive indices.\<close>

definition make_group :: "nat \<Rightarrow> nat \<Rightarrow> nat \<Rightarrow> sample \<Rightarrow> sample list" where
  "make_group n g i p = map (\<lambda>j. p\<lparr>group_index := Some (int g), sample_index := Some (int (i + j))\<rparr>) [0..<n]"

fun make_groups :: "nat \<Rightarrow> sample list \<Rightarrow> data_source \<Rightarrow> sample list list \<times> data_source" where
  "make_groups n [] s = ([], s)"
| "make_groups n (p # ps) s =
     (let g = make_group n (next_group_index s) (next_sample_index s) p;
          (gs, s') = make_groups n ps (s\<lparr>next_group_index := next_group_index s + 1, next_sample_index := next_sample_index s + n\<rparr>)
      in (g # gs, s'))"

definition rollout_get_samples :: "source_args \<Rightarrow> nat \<Rightarrow> data_source \<Rightarrow> sample list list \<times> data_source" where
  "rollout_get_samples a num s =
     (let (ps, s') = take_prompts a num s in make_groups (n_samples_per_prompt a) ps s')"

section \<open>The buffer of groups to generate again\<close>

definition pop_first :: "sample list list \<Rightarrow> nat \<Rightarrow> sample list list \<times> sample list list" where
  "pop_first buffer num = (let k = min (length buffer) num in (take k buffer, drop k buffer))"

definition get_samples_from_buffer :: "nat \<Rightarrow> data_source \<Rightarrow> sample list list \<times> data_source" where
  "get_samples_from_buffer num s =
     (if retry_buffer s = [] \<or> num = 0 then ([], s)
      else let (gs, rest) = pop_first (retry_buffer s) num in (gs, s\<lparr>retry_buffer := rest\<rparr>))"

definition get_samples :: "source_args \<Rightarrow> nat \<Rightarrow> data_source \<Rightarrow> sample list list \<times> data_source" where
  "get_samples a num s =
     (let (gs, s1) = get_samples_from_buffer num s; left = num - length gs in
      if left = 0 then (gs, s1)
      else let (fresh, s2) = rollout_get_samples a left s1 in (gs @ fresh, s2))"

text \<open>A group of another size stops the loop; the groups before it stay in the buffer.\<close>

fun add_groups :: "nat \<Rightarrow> sample list list \<Rightarrow> sample list list \<Rightarrow> sample list list \<times> unit res" where
  "add_groups n [] buffer = (buffer, Inr ())"
| "add_groups n (g # gs) buffer =
     (if length g = n then add_groups n gs (buffer @ [g]) else (buffer, Inl AssertionError))"

definition add_samples :: "source_args \<Rightarrow> sample list list \<Rightarrow> data_source \<Rightarrow> data_source \<times> unit res" where
  "add_samples a gs s =
     (let (buffer, r) = add_groups (n_samples_per_prompt a) gs (retry_buffer s) in (s\<lparr>retry_buffer := buffer\<rparr>, r))"

definition get_buffer_length :: "data_source \<Rightarrow> nat" where
  "get_buffer_length s = length (retry_buffer s)"

section \<open>The saved position\<close>

text \<open>The saved dictionary; a missing key is \<open>None\<close> and read as the default.\<close>

record source_state =
  saved_offset :: "nat option"
  saved_epoch :: "nat option"
  saved_group_index :: "nat option"
  saved_sample_index :: "nat option"
  saved_metadata :: "(string, json) dict option"

definition save_source :: "data_source \<Rightarrow> source_state option" where
  "save_source s = (if source_dataset s = None then None
     else Some \<lparr> saved_offset = Some (sample_offset s), saved_epoch = Some (epoch_id s),
                 saved_group_index = Some (next_group_index s), saved_sample_index = Some (next_sample_index s),
                 saved_metadata = Some (source_metadata s) \<rparr>)"

text \<open>\<open>d.get(key, default)\<close>\<close>

definition get_or :: "'a option \<Rightarrow> 'a \<Rightarrow> 'a" where
  "get_or v fallback = (case v of None \<Rightarrow> fallback | Some x \<Rightarrow> x)"

text \<open>\<open>None\<close> stands for a missing file or a run without \<open>--load\<close>.\<close>

definition load_source :: "source_args \<Rightarrow> source_state option \<Rightarrow> data_source \<Rightarrow> data_source" where
  "load_source a st s = (case (source_dataset s, st) of
       (Some d, Some t) \<Rightarrow> s\<lparr> sample_offset := get_or (saved_offset t) 0, epoch_id := get_or (saved_epoch t) 0,
         next_group_index := get_or (saved_group_index t) 0, next_sample_index := get_or (saved_sample_index t) 0,
         source_metadata := get_or (saved_metadata t) [],
         source_dataset := Some (shuffle_source a (get_or (saved_epoch t) 0) d) \<rparr>
     | _ \<Rightarrow> s)"

definition update_metadata :: "data_source \<Rightarrow> (string, json) dict \<Rightarrow> data_source" where
  "update_metadata s entries = s\<lparr>source_metadata := dupdate (source_metadata s) entries\<rparr>"

section \<open>A run of the source\<close>

text \<open>What a rollout does with its source: it asks for groups, gives groups back to be generated again, and notes metadata.\<close>

datatype data_event =
    Requests nat
  | Returns "sample list list"
  | Notes "(string, json) dict"

definition data_step :: "source_args \<Rightarrow> data_source \<Rightarrow> data_event \<Rightarrow> data_source" where
  "data_step a s ev = (case ev of
       Requests num \<Rightarrow> snd (get_samples a num s)
     | Returns gs \<Rightarrow> fst (add_samples a gs s)
     | Notes entries \<Rightarrow> update_metadata s entries)"

section \<open>The order of the prompts\<close>

text \<open>The prompts of one epoch, and the endless sequence the source stands for.\<close>

definition epoch_prompts :: "source_args \<Rightarrow> sample list \<Rightarrow> nat \<Rightarrow> sample list" where
  "epoch_prompts a xs e = (if rollout_shuffle a then map (\<lambda>i. xs ! i) (epoch_order a e (length xs)) else xs)"

definition prompt_stream :: "source_args \<Rightarrow> sample list \<Rightarrow> nat \<Rightarrow> sample" where
  "prompt_stream a xs k = epoch_prompts a xs (k div length xs) ! (k mod length xs)"

definition orders_ok :: "source_args \<Rightarrow> bool" where
  "orders_ok a \<longleftrightarrow> (\<forall>e n. mset (epoch_order a e n) = mset [0..<n])"

lemma length_epoch_order [simp]: "orders_ok a \<Longrightarrow> length (epoch_order a e n) = n"
  unfolding orders_ok_def by (metis length_upt minus_nat.diff_0 size_mset)

definition source_at :: "source_args \<Rightarrow> sample list \<Rightarrow> data_source \<Rightarrow> bool" where
  "source_at a xs s \<longleftrightarrow> (case source_dataset s of None \<Rightarrow> False
     | Some d \<Rightarrow> origin_samples d = xs \<and> dataset_samples d = epoch_prompts a xs (epoch_id s)
         \<and> dataset_epoch d = (if rollout_shuffle a then int (epoch_id s) else -1))"

definition source_position :: "sample list \<Rightarrow> data_source \<Rightarrow> nat" where
  "source_position xs s = epoch_id s * length xs + sample_offset s"

lemma length_epoch_prompts [simp]: "orders_ok a \<Longrightarrow> length (epoch_prompts a xs e) = length xs"
  by (simp add: epoch_prompts_def)

lemma shuffle_next_epoch:
  assumes "orders_ok a" "origin_samples d = xs" "dataset_samples d = epoch_prompts a xs e"
    "dataset_epoch d = (if rollout_shuffle a then int e else -1)"
  shows "shuffle_source a e' d = \<lparr> origin_samples = xs, dataset_samples = epoch_prompts a xs e',
    dataset_epoch = (if rollout_shuffle a then int e' else -1) \<rparr>"
  using assms by (cases d) (auto simp: shuffle_source_def shuffle_dataset_def epoch_prompts_def)

lemma new_source_at: "orders_ok a \<Longrightarrow> source_at a xs (new_data_source a (Some xs))"
  by (auto simp: source_at_def new_data_source_def new_dataset_def shuffle_source_def shuffle_dataset_def epoch_prompts_def)

lemma source_at_cong [simp]:
  "source_at a xs (s\<lparr>next_group_index := g\<rparr>) = source_at a xs s"
  "source_at a xs (s\<lparr>next_sample_index := i\<rparr>) = source_at a xs s"
  "source_at a xs (s\<lparr>retry_buffer := b\<rparr>) = source_at a xs s"
  "source_at a xs (s\<lparr>source_metadata := m\<rparr>) = source_at a xs s"
  "source_at a xs (s\<lparr>sample_offset := n\<rparr>) = source_at a xs s"
  by (auto simp: source_at_def split: option.splits)

lemma make_groups_eq:
  "make_groups n ps s =
     (map (\<lambda>k. make_group n (next_group_index s + k) (next_sample_index s + k * n) (ps ! k)) [0..<length ps],
      s\<lparr>next_group_index := next_group_index s + length ps, next_sample_index := next_sample_index s + length ps * n\<rparr>)"
proof (induction ps arbitrary: s)
  case (Cons p ps)
  have up: "[0..<length (p # ps)] = 0 # map Suc [0..<length ps]" by (simp add: map_Suc_upt upt_conv_Cons del: upt_Suc)
  show ?case unfolding up by (simp add: Cons.IH comp_def algebra_simps)
qed simp

lemma take_prompts_source_at: "orders_ok a \<Longrightarrow> source_at a xs s \<Longrightarrow> source_at a xs (snd (take_prompts a num s))"
  by (auto simp: take_prompts_def source_at_def Let_def shuffle_next_epoch split: option.splits)

lemma take_prompts_keeps [simp]:
  "next_group_index (snd (take_prompts a num s)) = next_group_index s"
  "next_sample_index (snd (take_prompts a num s)) = next_sample_index s"
  "retry_buffer (snd (take_prompts a num s)) = retry_buffer s"
  by (simp_all add: take_prompts_def Let_def split: option.splits)

lemma epoch_div_mod: "k < n \<Longrightarrow> (e * n + k) div n = e" "k < n \<Longrightarrow> (e * n + k) mod n = (k :: nat)"
  by simp_all

lemma stream_slice:
  assumes "orders_ok a" "off + num \<le> length xs"
  shows "slice off (off + num) (epoch_prompts a xs e)
    = map (prompt_stream a xs) [e * length xs + off..<e * length xs + off + num]"
proof (rule nth_equalityI)
  fix i assume "i < length (slice off (off + num) (epoch_prompts a xs e))"
  then have i: "i < num" using assms by (simp add: length_slice)
  then have "off + i < length xs" using assms(2) by simp
  then have "(e * length xs + off + i) div length xs = e" "(e * length xs + off + i) mod length xs = off + i"
    by (simp_all only: add.assoc epoch_div_mod)
  with i assms show "slice off (off + num) (epoch_prompts a xs e) ! i
      = map (prompt_stream a xs) [e * length xs + off..<e * length xs + off + num] ! i"
    by (simp add: slice_def prompt_stream_def)
qed (use assms in \<open>simp add: length_slice\<close>)

lemma take_prompts_stream:
  assumes ok: "orders_ok a" and s: "source_at a xs s" and off: "sample_offset s \<le> length xs" and num: "num \<le> length xs"
  shows "fst (take_prompts a num s) = map (prompt_stream a xs) [source_position xs s..<source_position xs s + num]"
    "source_position xs (snd (take_prompts a num s)) = source_position xs s + num"
    "sample_offset (snd (take_prompts a num s)) \<le> length xs"
proof -
  obtain d where d: "source_dataset s = Some d" "origin_samples d = xs" "dataset_samples d = epoch_prompts a xs (epoch_id s)"
      "dataset_epoch d = (if rollout_shuffle a then int (epoch_id s) else -1)"
    using s by (auto simp: source_at_def split: option.splits)
  let ?N = "length xs" let ?off = "sample_offset s" let ?e = "epoch_id s"
  have "fst (take_prompts a num s) = map (prompt_stream a xs) [source_position xs s..<source_position xs s + num]
      \<and> source_position xs (snd (take_prompts a num s)) = source_position xs s + num
      \<and> sample_offset (snd (take_prompts a num s)) \<le> ?N"
  proof (cases "?off + num \<le> ?N")
    case True
    then show ?thesis using stream_slice [OF ok True, of ?e] d ok
      by (simp add: take_prompts_def source_position_def Let_def)
  next
    case False
    let ?left = "num - (?N - ?off)"
    have left: "?left \<le> ?N" using num by simp
    have "drop ?off (epoch_prompts a xs ?e) = slice ?off (?off + (?N - ?off)) (epoch_prompts a xs ?e)"
      using off ok by (simp add: slice_def)
    also have "\<dots> = map (prompt_stream a xs) [?e * ?N + ?off..<?e * ?N + ?N]"
      using stream_slice [OF ok, of ?off "?N - ?off" xs ?e] off by simp
    finally have first: "drop ?off (epoch_prompts a xs ?e) = map (prompt_stream a xs) [?e * ?N + ?off..<?e * ?N + ?N]" .
    have second: "take ?left (epoch_prompts a xs (?e + 1)) = map (prompt_stream a xs) [?e * ?N + ?N..<?e * ?N + ?N + ?left]"
      using stream_slice [OF ok, of 0 ?left xs "?e + 1"] left by (simp add: slice_def algebra_simps)
    have "[?e * ?N + ?off..<?e * ?N + ?off + num] = [?e * ?N + ?off..<?e * ?N + ?N] @ [?e * ?N + ?N..<?e * ?N + ?N + ?left]"
      using False off upt_add_eq_append [of "?e * ?N + ?off" "?e * ?N + ?N" ?left] by (simp add: algebra_simps)
    with False off first second d ok left show ?thesis
      by (simp add: take_prompts_def source_position_def Let_def shuffle_next_epoch [OF ok d(2-4)] algebra_simps)
  qed
  then show "fst (take_prompts a num s) = map (prompt_stream a xs) [source_position xs s..<source_position xs s + num]"
    "source_position xs (snd (take_prompts a num s)) = source_position xs s + num"
    "sample_offset (snd (take_prompts a num s)) \<le> ?N" by auto
qed

section \<open>Requests in sequence\<close>

fun request_all :: "source_args \<Rightarrow> nat list \<Rightarrow> data_source \<Rightarrow> sample list list \<times> data_source" where
  "request_all a [] s = ([], s)"
| "request_all a (num # nums) s =
     (let (gs, s1) = get_samples a num s; (rest, s2) = request_all a nums s1 in (gs @ rest, s2))"

definition stream_group :: "source_args \<Rightarrow> sample list \<Rightarrow> nat \<Rightarrow> sample list" where
  "stream_group a xs k = make_group (n_samples_per_prompt a) k (k * n_samples_per_prompt a) (prompt_stream a xs k)"

text \<open>The source has handed out exactly the first groups of the sequence.\<close>

definition source_in_step :: "source_args \<Rightarrow> sample list \<Rightarrow> data_source \<Rightarrow> bool" where
  "source_in_step a xs s \<longleftrightarrow> source_at a xs s \<and> sample_offset s \<le> length xs \<and> next_group_index s = source_position xs s
     \<and> next_sample_index s = source_position xs s * n_samples_per_prompt a"

lemma new_source_in_step: "orders_ok a \<Longrightarrow> source_in_step a xs (new_data_source a (Some xs))"
  by (simp add: source_in_step_def new_source_at) (simp add: new_data_source_def source_position_def)

lemma source_position_cong [simp]:
  "source_position xs (s\<lparr>next_group_index := g, next_sample_index := i\<rparr>) = source_position xs s"
  "source_position xs (s\<lparr>retry_buffer := b\<rparr>) = source_position xs s"
  by (simp_all add: source_position_def)

lemma rollout_get_samples_stream:
  assumes "orders_ok a" "source_in_step a xs s" "num \<le> length xs"
  shows "fst (rollout_get_samples a num s) = map (stream_group a xs) [source_position xs s..<source_position xs s + num]"
    "source_in_step a xs (snd (rollout_get_samples a num s))"
    "source_position xs (snd (rollout_get_samples a num s)) = source_position xs s + num"
    "retry_buffer (snd (rollout_get_samples a num s)) = retry_buffer s"
proof -
  obtain ps s' where t: "take_prompts a num s = (ps, s')" by force
  have s: "source_at a xs s" "sample_offset s \<le> length xs" using assms(2) by (auto simp: source_in_step_def)
  note take = take_prompts_stream [OF assms(1) s assms(3), unfolded t] take_prompts_source_at [OF assms(1) s(1), of num, unfolded t]
    take_prompts_keeps [of a num s, unfolded t]
  have ps: "length ps = num" "\<And>k. k < num \<Longrightarrow> ps ! k = prompt_stream a xs (source_position xs s + k)" using take(1) by auto
  have up: "[source_position xs s..<source_position xs s + num] = map ((+) (source_position xs s)) [0..<num]"
    by (rule nth_equalityI) simp_all
  show "fst (rollout_get_samples a num s) = map (stream_group a xs) [source_position xs s..<source_position xs s + num]"
    unfolding up using assms(2) take ps
    by (simp add: rollout_get_samples_def t make_groups_eq stream_group_def source_in_step_def algebra_simps)
  show "source_in_step a xs (snd (rollout_get_samples a num s))"
    "source_position xs (snd (rollout_get_samples a num s)) = source_position xs s + num"
    "retry_buffer (snd (rollout_get_samples a num s)) = retry_buffer s"
    using assms(2) take ps(1) by (simp_all add: rollout_get_samples_def t make_groups_eq source_in_step_def algebra_simps)
qed

lemma get_samples_stream:
  assumes "orders_ok a" "source_in_step a xs s" "num \<le> length xs" "retry_buffer s = []"
  shows "fst (get_samples a num s) = map (stream_group a xs) [source_position xs s..<source_position xs s + num]"
    "source_in_step a xs (snd (get_samples a num s))"
    "source_position xs (snd (get_samples a num s)) = source_position xs s + num"
    "retry_buffer (snd (get_samples a num s)) = []"
  using rollout_get_samples_stream [OF assms(1-3)] assms(2,4)
  by (auto simp: get_samples_def get_samples_from_buffer_def split: prod.splits)

lemma request_all_stream:
  assumes "orders_ok a" "source_in_step a xs s" "\<forall>num\<in>set nums. num \<le> length xs" "retry_buffer s = []"
  shows "fst (request_all a nums s) = map (stream_group a xs) [source_position xs s..<source_position xs s + sum_list nums]"
  using assms(2-4)
proof (induction nums arbitrary: s)
  case (Cons num nums)
  obtain gs s1 where g: "get_samples a num s = (gs, s1)" by force
  note here = get_samples_stream [OF assms(1) Cons.prems(1) _ Cons.prems(3), of num, unfolded g]
  have "fst (request_all a nums s1) = map (stream_group a xs) [source_position xs s1..<source_position xs s1 + sum_list nums]"
    by (rule Cons.IH) (use here Cons.prems in auto)
  moreover have "gs = map (stream_group a xs) [source_position xs s..<source_position xs s + num]"
    "source_position xs s1 = source_position xs s + num" using here Cons.prems by auto
  ultimately show ?case
    using upt_add_eq_append [of "source_position xs s" "source_position xs s + num" "sum_list nums"]
    by (simp add: g case_prod_unfold add.assoc)
qed simp

text \<open>Nothing that a run does moves the source out of step.\<close>

lemma source_in_step_cong [simp]:
  "source_in_step a xs (s\<lparr>retry_buffer := b\<rparr>) = source_in_step a xs s"
  "source_in_step a xs (s\<lparr>source_metadata := m\<rparr>) = source_in_step a xs s"
  by (simp_all add: source_in_step_def source_position_def)

lemma get_samples_in_step:
  assumes "orders_ok a" "source_in_step a xs s" "num \<le> length xs"
  shows "source_in_step a xs (snd (get_samples a num s))"
proof -
  obtain gs s1 where g: "get_samples_from_buffer num s = (gs, s1)" by force
  then have "source_in_step a xs s1" using assms(2) by (auto simp: get_samples_from_buffer_def pop_first_def Let_def split: if_splits)
  then show ?thesis using rollout_get_samples_stream(2) [OF assms(1), of xs s1 "num - length gs"] assms(3)
    by (auto simp: get_samples_def g Let_def split: prod.splits)
qed

definition request_within :: "nat \<Rightarrow> data_event \<Rightarrow> bool" where
  "request_within n ev = (case ev of Requests num \<Rightarrow> num \<le> n | _ \<Rightarrow> True)"

lemma data_step_in_step:
  "orders_ok a \<Longrightarrow> source_in_step a xs s \<Longrightarrow> request_within (length xs) ev \<Longrightarrow> source_in_step a xs (data_step a s ev)"
  by (cases ev) (auto simp: data_step_def request_within_def get_samples_in_step add_samples_def update_metadata_def split: prod.splits)

interpretation source_run: machine "\<lambda>s ev. if request_within (length xs) ev then data_step a s ev else s"
  "\<lambda>s. orders_ok a \<longrightarrow> source_in_step a xs s" for a xs
  by unfold_locales (simp add: data_step_in_step)

lemma data_run_in_step:
  assumes "orders_ok a" "list_all (request_within (length xs)) events"
  shows "source_in_step a xs (foldl (data_step a) (new_data_source a (Some xs)) events)"
proof -
  have "foldl (data_step a) s events = foldl (\<lambda>s ev. if request_within (length xs) ev then data_step a s ev else s) s events" for s
    using assms(2) by (induction events arbitrary: s) simp_all
  then show ?thesis using source_run.inv_run [of a xs "new_data_source a (Some xs)" events] new_source_in_step assms(1) by simp
qed

lemma load_saved_source:
  assumes "orders_ok a" "source_at a xs s"
  shows "load_source a (save_source s) (new_data_source a (Some xs)) = s\<lparr>retry_buffer := []\<rparr>"
proof -
  have new: "new_data_source a (Some xs) = \<lparr> epoch_id = 0, next_group_index = 0, next_sample_index = 0, sample_offset = 0,
      source_dataset = Some \<lparr> origin_samples = xs, dataset_samples = epoch_prompts a xs 0,
        dataset_epoch = (if rollout_shuffle a then 0 else -1) \<rparr>, source_metadata = [], retry_buffer = [] \<rparr>"
    by (simp add: new_data_source_def new_dataset_def shuffle_source_def shuffle_dataset_def epoch_prompts_def)
  obtain d where "source_dataset s = Some d" "origin_samples d = xs" "dataset_samples d = epoch_prompts a xs (epoch_id s)"
      "dataset_epoch d = (if rollout_shuffle a then int (epoch_id s) else -1)"
    using assms(2) by (auto simp: source_at_def split: option.splits)
  then show ?thesis unfolding new
    by (cases s; cases d) (simp add: load_source_def save_source_def get_or_def shuffle_next_epoch [OF assms(1), where e = 0])
qed

text \<open>
  C26: the groups handed out in answer to any requests of at most an epoch each are the endless sequence of
  prompts, under consecutive group and sample indices, and every epoch of that sequence holds each
  prompt of the dataset exactly once.
\<close>

theorem source_follows_epochs:
  assumes "orders_ok a" "\<forall>num\<in>set nums. num \<le> length prompts"
  shows "fst (request_all a nums (new_data_source a (Some prompts))) = map (stream_group a prompts) [0..<sum_list nums]
    \<and> mset (map (prompt_stream a prompts) [e * length prompts..<e * length prompts + length prompts]) = mset prompts"
proof -
  let ?s = "new_data_source a (Some prompts)"
  have "source_position prompts ?s = 0" "retry_buffer ?s = []" by (simp_all add: new_data_source_def source_position_def)
  then have "fst (request_all a nums ?s) = map (stream_group a prompts) [0..<sum_list nums]"
    using request_all_stream [OF assms(1) new_source_in_step [OF assms(1)] assms(2)] by simp
  moreover have "map (prompt_stream a prompts) [e * length prompts..<e * length prompts + length prompts] = epoch_prompts a prompts e"
    using stream_slice [OF assms(1), of 0 "length prompts" prompts e] assms(1) by (simp add: slice_def)
  moreover have "mset (epoch_prompts a prompts e) = mset prompts"
  proof (cases "rollout_shuffle a")
    case True
    have "mset (map ((!) prompts) (epoch_order a e (length prompts))) = mset (map ((!) prompts) [0..<length prompts])"
      using assms(1) unfolding orders_ok_def by (simp only: mset_map)
    with True show ?thesis by (simp add: epoch_prompts_def map_nth)
  qed (simp add: epoch_prompts_def)
  ultimately show ?thesis by simp
qed

definition two_sample_args :: source_args where
  "two_sample_args = \<lparr> rollout_shuffle = True, n_samples_per_prompt = 2, epoch_order = (\<lambda>e n. if even e then rev [0..<n] else [0..<n]) \<rparr>"

lemma two_sample_args_ok: "orders_ok two_sample_args"
  by (simp add: orders_ok_def two_sample_args_def)

definition sample_prompts :: "sample list" where
  "sample_prompts = map (\<lambda>c. new_sample\<lparr>prompt := JStr [c]\<rparr>) ''abc''"

lemma source_follows_epochs_witness:
  "map (map prompt) (fst (request_all two_sample_args [2, 2, 1] (new_data_source two_sample_args (Some sample_prompts))))
     = map (\<lambda>c. replicate 2 (JStr [c])) ''cbaab''
   \<and> map (map sample_index) (fst (request_all two_sample_args [2, 2, 1] (new_data_source two_sample_args (Some sample_prompts))))
     = map (\<lambda>k. map Some [int k, int k + 1]) [0, 2, 4, 6, 8]"
  using source_follows_epochs [OF two_sample_args_ok, of "[2, 2, 1]" sample_prompts 0]
  by (simp add: sample_prompts_def stream_group_def make_group_def prompt_stream_def epoch_prompts_def two_sample_args_def
      new_sample_def upt_rec numeral_2_eq_2)

text \<open>
  C39: Saving and loading is a round trip at any point of a run: whatever was requested (at most an epoch at a time), returned to be
  generated again and noted before, a fresh source that loads the saved state is the source that was saved, metadata
  included, except for the groups waiting to be generated again, which are not saved; and it goes on with the very
  next prompts of the sequence, under the next indices.
\<close>

theorem restored_source_continues:
  assumes "orders_ok a" "list_all (request_within (length prompts)) events" "num \<le> length prompts"
  shows "let s = foldl (data_step a) (new_data_source a (Some prompts)) events;
             t = load_source a (save_source s) (new_data_source a (Some prompts))
    in t = s\<lparr>retry_buffer := []\<rparr>
      \<and> fst (get_samples a num t) = map (stream_group a prompts) [next_group_index s..<next_group_index s + num]"
proof -
  define s where "s = foldl (data_step a) (new_data_source a (Some prompts)) events"
  have step: "source_in_step a prompts s" unfolding s_def by (rule data_run_in_step [OF assms(1,2)])
  then have at: "source_at a prompts s" "next_group_index s = source_position prompts s" by (auto simp: source_in_step_def)
  have t: "load_source a (save_source s) (new_data_source a (Some prompts)) = s\<lparr>retry_buffer := []\<rparr>"
    by (rule load_saved_source [OF assms(1) at(1)])
  show ?thesis unfolding s_def [symmetric] Let_def t
    using get_samples_stream(1) [OF assms(1) _ assms(3), of "s\<lparr>retry_buffer := []\<rparr>"] step at(2) by simp
qed

text \<open>Three of three prompts are taken, one group comes back, a note is made; the restored source has lost the group and begins the second epoch.\<close>

lemma restored_source_continues_witness:
  "let s = foldl (data_step two_sample_args) (new_data_source two_sample_args (Some sample_prompts))
        [Requests 3, Returns [[new_sample, new_sample]], Notes [(''round'', JNull)]];
       t = load_source two_sample_args (save_source s) (new_data_source two_sample_args (Some sample_prompts))
   in length (retry_buffer s) = 1 \<and> t = s\<lparr>retry_buffer := []\<rparr> \<and> map fst (source_metadata t) = [''round'']
     \<and> fst (get_samples two_sample_args 1 t) = [stream_group two_sample_args sample_prompts 3]"
proof -
  define s where "s = foldl (data_step two_sample_args) (new_data_source two_sample_args (Some sample_prompts))
        [Requests 3, Returns [[new_sample, new_sample]], Notes [(''round'', JNull)]]"
  have s: "length (retry_buffer s) = 1" "map fst (source_metadata s) = [''round'']" "next_group_index s = 3"
    by (simp_all add: s_def data_step_def update_metadata_def dupdate_def add_samples_def get_samples_def get_samples_from_buffer_def
        rollout_get_samples_def take_prompts_def make_groups_eq new_data_source_def new_dataset_def shuffle_source_def
        shuffle_dataset_def two_sample_args_def sample_prompts_def)
  have len: "list_all (request_within (length sample_prompts)) [Requests 3, Returns [[new_sample, new_sample]], Notes [(''round'', JNull)]]"
    "1 \<le> length sample_prompts" by (simp_all add: request_within_def sample_prompts_def)
  note r = restored_source_continues [OF two_sample_args_ok len, folded s_def, unfolded Let_def]
  from conjunct2 [OF r] have "fst (get_samples two_sample_args 1 (s\<lparr>retry_buffer := []\<rparr>)) = [stream_group two_sample_args sample_prompts 3]"
    unfolding conjunct1 [OF r] s(3) by simp
  then show ?thesis unfolding s_def [symmetric] Let_def conjunct1 [OF r] using s by simp
qed

text \<open>A request beyond the end of the next epoch gets fewer groups and leaves the offset behind the dataset.\<close>

lemma long_request_is_short:
  "let (gs, s) = get_samples two_sample_args 5 (new_data_source two_sample_args (Some (take 1 sample_prompts)))
   in length gs = 2 \<and> sample_offset s = 4"
  by (simp add: get_samples_def get_samples_from_buffer_def rollout_get_samples_def take_prompts_def slice_def
      make_groups_eq new_data_source_def new_dataset_def shuffle_source_def shuffle_dataset_def two_sample_args_def sample_prompts_def)

end
