(* ===== verification/RolloutGroups.thy ===== *)
theory RolloutGroups
  imports Samples
begin

text \<open>
  Finished groups of samples: the filters of a rollout and the weight-version statistics of a group
  (\<open>rollout/filter_hub\<close>), and the routing of a group to the buffers of several policies
  (\<open>rollout/fully_async_data_buffer.py\<close>).  Filters plugged in by path are parameters.
\<close>

section \<open>Groups\<close>

text \<open>A generate function may return several samples for one trajectory.\<close>

datatype group_item = One sample | Many "sample list"

type_synonym rollout_group = "group_item list"

fun item_samples :: "group_item \<Rightarrow> sample list" where
  "item_samples (One s) = [s]"
| "item_samples (Many ss) = ss"

definition iter_samples :: "rollout_group \<Rightarrow> sample list" where
  "iter_samples g = concat (map item_samples g)"

definition first_sample :: "rollout_group \<Rightarrow> sample res" where
  "first_sample g = rbind (list_at g 0) (\<lambda>item. case item of One s \<Rightarrow> Inr s | Many ss \<Rightarrow> list_at ss 0)"

record data_buffer_input =
  prompt_group :: "sample list"
  finished :: rollout_group

section \<open>Weight versions\<close>

record version_stats =
  sample_count :: nat
  versioned_sample_count :: nat
  versioned_token_count :: int
  token_version_sum :: int
  oldest_version :: "int option"
  newest_version :: "int option"

text \<open>\<open>str.isdigit\<close> also accepts the superscripts, which \<open>int\<close> refuses.\<close>

definition ascii_digit :: "char \<Rightarrow> bool" where
  "ascii_digit c \<longleftrightarrow> (let n = of_char c :: nat in 48 \<le> n \<and> n \<le> 57)"

definition py_isdigit :: "string \<Rightarrow> bool" where
  "py_isdigit s \<longleftrightarrow> s \<noteq> [] \<and> list_all (\<lambda>c. ascii_digit c \<or> (of_char c :: nat) \<in> {178, 179, 185}) s"

definition int_of_digits :: "string \<Rightarrow> int res" where
  "int_of_digits s = (if s \<noteq> [] \<and> list_all ascii_digit s then Inr (foldl (\<lambda>v c. 10 * v + int (of_char c - 48)) 0 s) else Inl ValueError)"

definition opt_min :: "int option \<Rightarrow> int \<Rightarrow> int option" where
  "opt_min v x = Some (case v of None \<Rightarrow> x | Some y \<Rightarrow> min y x)"

definition opt_max :: "int option \<Rightarrow> int \<Rightarrow> int option" where
  "opt_max v x = Some (case v of None \<Rightarrow> x | Some y \<Rightarrow> max y x)"

fun count_spans :: "weight_version_span list \<Rightarrow> version_stats \<Rightarrow> bool \<Rightarrow> (version_stats \<times> bool) res" where
  "count_spans [] st has = Inr (st, has)"
| "count_spans (sp # sps) st has =
     (if \<not> py_isdigit (version sp) then count_spans sps st has
      else rbind (int_of_digits (version sp)) (\<lambda>v.
        let token_count = int (abs_end sp) - int (abs_start sp) in
        count_spans sps (st\<lparr> versioned_token_count := versioned_token_count st + token_count,
          token_version_sum := token_version_sum st + v * token_count,
          oldest_version := opt_min (oldest_version st) v, newest_version := opt_max (newest_version st) v \<rparr>) True))"

fun count_samples :: "sample list \<Rightarrow> version_stats \<Rightarrow> version_stats res" where
  "count_samples [] st = Inr st"
| "count_samples (s # ss) st =
     rbind (count_spans (concat (weight_versions s)) (st\<lparr>sample_count := sample_count st + 1\<rparr>) False) (\<lambda>(st', has).
       count_samples ss (st'\<lparr>versioned_sample_count := versioned_sample_count st' + of_bool has\<rparr>))"

definition no_stats :: version_stats where
  "no_stats = \<lparr> sample_count = 0, versioned_sample_count = 0, versioned_token_count = 0, token_version_sum = 0,
     oldest_version = None, newest_version = None \<rparr>"

definition group_weight_version_stats :: "rollout_group \<Rightarrow> version_stats res" where
  "group_weight_version_stats g = count_samples (iter_samples g) no_stats"

definition oldest_lag :: "version_stats \<Rightarrow> int option \<Rightarrow> int option" where
  "oldest_lag st current = (case (oldest_version st, current) of (Some v, Some c) \<Rightarrow> Some (c - v) | _ \<Rightarrow> None)"

definition newest_lag :: "version_stats \<Rightarrow> int option \<Rightarrow> int option" where
  "newest_lag st current = (case (newest_version st, current) of (Some v, Some c) \<Rightarrow> Some (c - v) | _ \<Rightarrow> None)"

definition token_weighted_lag :: "version_stats \<Rightarrow> int option \<Rightarrow> real option" where
  "token_weighted_lag st current = (case current of None \<Rightarrow> None
     | Some c \<Rightarrow> if versioned_token_count st = 0 then None
         else Some (of_int c - of_int (token_version_sum st) / of_int (versioned_token_count st)))"

definition group_staleness :: "rollout_group \<Rightarrow> int option \<Rightarrow> int option res" where
  "group_staleness g current = rbind (group_weight_version_stats g) (\<lambda>st. Inr (oldest_lag st current))"

section \<open>Filters\<close>

record filter_output =
  keep :: bool
  reason :: "string option"

text \<open>A plugged-in filter returns this record or, in its legacy form, a truth value.\<close>

datatype filter_answer = Output filter_output | Legacy bool

type_synonym dynamic_filter = "rollout_group \<Rightarrow> filter_answer res"

definition kept :: filter_output where
  "kept = \<lparr> keep = True, reason = None \<rparr>"

definition call_dynamic_filter :: "dynamic_filter option \<Rightarrow> rollout_group \<Rightarrow> filter_output res" where
  "call_dynamic_filter fn g = (case fn of None \<Rightarrow> Inr kept
     | Some f \<Rightarrow> rbind (f g) (\<lambda>answer. Inr (case answer of Output out \<Rightarrow> out | Legacy b \<Rightarrow> \<lparr> keep = b, reason = None \<rparr>)))"

definition apply_aborted_filter :: "rollout_group \<Rightarrow> filter_output" where
  "apply_aborted_filter g =
     (if \<exists>s\<in>set (iter_samples g). status s = ABORTED then \<lparr> keep = False, reason = Some ''group_has_aborted'' \<rparr> else kept)"

text \<open>\<open>reward[key]\<close> on anything but a dictionary is a type error.\<close>

definition get_reward_value :: "string option \<Rightarrow> sample \<Rightarrow> json res" where
  "get_reward_value key s =
     (if key \<in> {None, Some []} then Inr (reward s)
      else case reward s of
          JObj d \<Rightarrow> (case dget d (the key) of None \<Rightarrow> Inl KeyError | Some v \<Rightarrow> Inr v)
        | _ \<Rightarrow> Inl TypeError)"

definition reward_missing :: "string option \<Rightarrow> sample \<Rightarrow> bool res" where
  "reward_missing key s = (if reward s = JNull then Inr True else rbind (get_reward_value key s) (\<lambda>v. Inr (v = JNull)))"

fun res_any :: "('a \<Rightarrow> bool res) \<Rightarrow> 'a list \<Rightarrow> bool res" where
  "res_any P [] = Inr False"
| "res_any P (x # xs) = rbind (P x) (\<lambda>b. if b then Inr True else res_any P xs)"

definition apply_missing_reward_filter :: "string option \<Rightarrow> rollout_group \<Rightarrow> filter_output res" where
  "apply_missing_reward_filter key g = rbind (res_any (reward_missing key) (iter_samples g)) (\<lambda>missing.
     Inr (if missing then \<lparr> keep = False, reason = Some ''group_has_missing_reward'' \<rparr> else kept))"

definition apply_preput_filters :: "dynamic_filter option \<Rightarrow> string option \<Rightarrow> rollout_group \<Rightarrow> filter_output res" where
  "apply_preput_filters fn key g =
     (let aborted = apply_aborted_filter g in
      if \<not> keep aborted then Inr aborted
      else rbind (apply_missing_reward_filter key g) (\<lambda>missing.
        if \<not> keep missing then Inr missing else call_dynamic_filter fn g))"

lemma res_any_False: "res_any P xs = Inr False \<longleftrightarrow> (\<forall>x\<in>set xs. P x = Inr False)"
  by (induction xs) (auto simp: rbind_Inr_iff)

text \<open>What a kept group is worth: nothing aborted, and a reward on every sample.\<close>

lemma keep_apply_aborted_filter [simp]: "keep (apply_aborted_filter g) \<longleftrightarrow> (\<forall>s\<in>set (iter_samples g). status s \<noteq> ABORTED)"
  by (auto simp: apply_aborted_filter_def kept_def)

lemma missing_reward_keep:
  "apply_missing_reward_filter key g = Inr out \<Longrightarrow>
     keep out \<longleftrightarrow> (\<forall>s\<in>set (iter_samples g). reward_missing key s = Inr False)"
proof -
  assume "apply_missing_reward_filter key g = Inr out"
  then obtain b where b: "res_any (reward_missing key) (iter_samples g) = Inr b" "keep out \<longleftrightarrow> \<not> b"
    by (auto simp: apply_missing_reward_filter_def rbind_Inr_iff kept_def split: if_splits)
  then show ?thesis using res_any_False [of "reward_missing key" "iter_samples g"] by (cases b) simp_all
qed

lemma preput_keep:
  assumes "apply_preput_filters fn key g = Inr out" "keep out"
  shows "s \<in> set (iter_samples g) \<Longrightarrow> status s \<noteq> ABORTED"
    "s \<in> set (iter_samples g) \<Longrightarrow> reward_missing key s = Inr False"
    "\<exists>out'. call_dynamic_filter fn g = Inr out' \<and> keep out'"
  using assms missing_reward_keep [of key g]
  by (auto simp: apply_preput_filters_def Let_def rbind_Inr_iff split: if_splits)

section \<open>The oldest version bounds every version\<close>

definition span_version :: "weight_version_span \<Rightarrow> int option" where
  "span_version sp = (if py_isdigit (version sp) then (case int_of_digits (version sp) of Inl e \<Rightarrow> None | Inr v \<Rightarrow> Some v) else None)"

definition below :: "int option \<Rightarrow> int \<Rightarrow> bool" where
  "below v x \<longleftrightarrow> (case v of None \<Rightarrow> False | Some y \<Rightarrow> y \<le> x)"

lemma below_opt_min [simp]: "below (opt_min v x) y \<longleftrightarrow> below v y \<or> x \<le> y"
  by (auto simp: below_def opt_min_def split: option.splits)

lemma count_spans_below:
  assumes "count_spans sps st has = Inr (st', has')"
  shows "below (oldest_version st) y \<longrightarrow> below (oldest_version st') y"
    "sp \<in> set sps \<and> span_version sp = Some v \<longrightarrow> below (oldest_version st') v"
proof -
  have "(\<forall>y. below (oldest_version st) y \<longrightarrow> below (oldest_version st') y)
      \<and> (\<forall>sp v. sp \<in> set sps \<and> span_version sp = Some v \<longrightarrow> below (oldest_version st') v)"
    using assms
  proof (induction sps st has rule: count_spans.induct)
    case (2 sp sps st has)
    show ?case
    proof (cases "py_isdigit (version sp)")
      case True
      with 2(3) obtain w where w: "int_of_digits (version sp) = Inr w" by (auto simp: rbind_Inr_iff)
      note ih = 2(2) [OF _ w refl, simplified]
      have "span_version sp = Some w" using True w by (simp add: span_version_def)
      then show ?thesis using ih 2(3) True w by (auto simp: Let_def)
    next
      case False
      then have "span_version sp = None" by (simp add: span_version_def)
      then show ?thesis using False 2(1,3) by auto
    qed
  qed simp
  then show "below (oldest_version st) y \<longrightarrow> below (oldest_version st') y"
    "sp \<in> set sps \<and> span_version sp = Some v \<longrightarrow> below (oldest_version st') v" by blast+
qed

lemma count_samples_below:
  assumes "count_samples ss st = Inr st'"
  shows "(\<forall>y. below (oldest_version st) y \<longrightarrow> below (oldest_version st') y)
    \<and> (\<forall>s\<in>set ss. \<forall>sp\<in>set (concat (weight_versions s)). \<forall>v. span_version sp = Some v \<longrightarrow> below (oldest_version st') v)"
  using assms
proof (induction ss arbitrary: st)
  case (Cons t ss)
  obtain st1 has where c: "count_spans (concat (weight_versions t)) (st\<lparr>sample_count := sample_count st + 1\<rparr>) False = Inr (st1, has)"
    "count_samples ss (st1\<lparr>versioned_sample_count := versioned_sample_count st1 + of_bool has\<rparr>) = Inr st'"
    using Cons.prems by (auto simp: rbind_Inr_iff)
  have "\<forall>y. below (oldest_version st) y \<longrightarrow> below (oldest_version st1) y"
    "\<forall>sp\<in>set (concat (weight_versions t)). \<forall>v. span_version sp = Some v \<longrightarrow> below (oldest_version st1) v"
    using count_spans_below [OF c(1)] by auto
  moreover note Cons.IH [OF c(2)]
  ultimately show ?case by simp
qed simp

text \<open>A group of staleness at most \<open>m\<close> holds no token of an older version.\<close>

lemma group_staleness_bounds:
  assumes "group_staleness g (Some c) = Inr lag" "s \<in> set (iter_samples g)" "sp \<in> set (concat (weight_versions s))"
    "span_version sp = Some v"
  shows "\<exists>m. lag = Some m \<and> c - v \<le> m"
proof -
  obtain st where st: "count_samples (iter_samples g) no_stats = Inr st" "lag = oldest_lag st (Some c)"
    using assms(1) by (auto simp: group_staleness_def group_weight_version_stats_def rbind_Inr_iff)
  have "below (oldest_version st) v" using count_samples_below [OF st(1)] assms(2-4) by blast
  then show ?thesis using st(2) by (auto simp: below_def oldest_lag_def split: option.splits)
qed

section \<open>Groups of several policies\<close>

definition filter_group :: "rollout_group \<Rightarrow> string \<Rightarrow> rollout_group" where
  "filter_group g model = concat (map (\<lambda>item. case item of
       One s \<Rightarrow> if trainer_model_id s = Some model then [One s] else []
     | Many ss \<Rightarrow> (let ks = filter (\<lambda>s. trainer_model_id s = Some model) ss in if ks = [] then [] else [Many ks])) g)"

text \<open>\<open>dict.fromkeys\<close>: the distinct values in the order of their first occurrence.\<close>

definition from_keys :: "'a list \<Rightarrow> 'a list" where
  "from_keys xs = rev (remdups (rev xs))"

definition split_by_trainer_model_id :: "data_buffer_input \<Rightarrow> (string \<times> data_buffer_input) list res" where
  "split_by_trainer_model_id inp =
     (let models = from_keys (map trainer_model_id (iter_samples (finished inp))) in
      rbind (py_assert (None \<notin> set models)) (\<lambda>_.
        Inr (map (\<lambda>m. (the m, \<lparr> prompt_group = prompt_group inp, finished = filter_group (finished inp) (the m) \<rparr>)) models)))"

lemma set_from_keys [simp]: "set (from_keys xs) = set xs"
  by (simp add: from_keys_def)

lemma distinct_from_keys [simp]: "distinct (from_keys xs)"
  by (simp add: from_keys_def)

lemma iter_filter_group: "iter_samples (filter_group g m) = filter (\<lambda>s. trainer_model_id s = Some m) (iter_samples g)"
proof (induction g)
  case (Cons item g)
  then show ?case by (cases item) (auto simp: iter_samples_def filter_group_def Let_def filter_empty_conv)
qed (simp add: iter_samples_def filter_group_def)

lemma sum_mset_by_key:
  assumes "distinct ks" "set (map f xs) \<subseteq> Some ` set ks"
  shows "(\<Sum>k\<leftarrow>ks. mset (filter (\<lambda>x. f x = Some k) xs)) = mset xs"
  using assms
proof (induction ks arbitrary: xs)
  case (Cons k ks)
  let ?ys = "filter (\<lambda>x. f x \<noteq> Some k) xs"
  have "filter (\<lambda>x. f x = Some j) xs = filter (\<lambda>x. f x = Some j) ?ys" if "j \<in> set ks" for j
    using that Cons.prems(1) by (auto intro!: filter_cong)
  then have "(\<Sum>j\<leftarrow>ks. mset (filter (\<lambda>x. f x = Some j) xs)) = (\<Sum>j\<leftarrow>ks. mset (filter (\<lambda>x. f x = Some j) ?ys))"
    by (intro arg_cong [where f = sum_list] map_cong) auto
  also have "\<dots> = mset ?ys" by (rule Cons.IH) (use Cons.prems in auto)
  finally show ?case using multiset_partition [of "mset xs" "\<lambda>x. f x = Some k"] by (simp add: mset_filter)
qed simp

lemma map_the_models: "None \<notin> set ms \<Longrightarrow> map (\<lambda>m. f (the m)) ms = map f (map the ms)"
  by simp

text \<open>
  A group whose samples all name their policy is split without loss: every policy that occurs gets one part
  with exactly its samples in their order, no policy gets two, and the parts' samples together are
  the group's.
\<close>

theorem split_partitions_groups:
  assumes "split_by_trainer_model_id inp = Inr parts"
  shows "distinct (map fst parts)
    \<and> (\<forall>(m, part)\<in>set parts. prompt_group part = prompt_group inp
        \<and> iter_samples (finished part) = filter (\<lambda>s. trainer_model_id s = Some m) (iter_samples (finished inp)))
    \<and> (\<Sum>p\<leftarrow>parts. mset (iter_samples (finished (snd p)))) = mset (iter_samples (finished inp))"
proof -
  let ?ss = "iter_samples (finished inp)"
  let ?ms = "from_keys (map trainer_model_id ?ss)"
  have parts: "None \<notin> set ?ms"
    "parts = map (\<lambda>m. (the m, \<lparr> prompt_group = prompt_group inp, finished = filter_group (finished inp) (the m) \<rparr>)) ?ms"
    using assms by (auto simp: split_by_trainer_model_id_def rbind_Inr_iff Let_def simp del: set_from_keys)
  have "inj_on the (set ?ms)" 
    by (rule inj_onI) (use parts(1) in \<open>metis option.expand\<close>)
  then have d: "distinct (map the ?ms)" by (simp add: distinct_map)
  have fst: "map fst parts = map the ?ms" by (simp add: parts(2))
  have "set (map trainer_model_id ?ss) \<subseteq> Some ` set (map the ?ms)"
  proof
    fix x assume "x \<in> set (map trainer_model_id ?ss)"
    then have x: "x \<in> set ?ms" by simp
    with parts(1) have "x = Some (the x)" by (cases x) auto
    moreover have "the x \<in> set (map the ?ms)" using x by (simp del: set_from_keys)
    ultimately show "x \<in> Some ` set (map the ?ms)" by (rule image_eqI)
  qed
  then have "(\<Sum>m\<leftarrow>map the ?ms. mset (filter (\<lambda>s. trainer_model_id s = Some m) ?ss)) = mset ?ss"
    by (rule sum_mset_by_key [OF d])
  then have "(\<Sum>p\<leftarrow>parts. mset (iter_samples (finished (snd p)))) = mset ?ss"
    by (simp add: parts(2) iter_filter_group comp_def)
  moreover have "\<forall>(m, part)\<in>set parts. prompt_group part = prompt_group inp
      \<and> iter_samples (finished part) = filter (\<lambda>s. trainer_model_id s = Some m) ?ss"
    by (auto simp: parts(2) iter_filter_group)
  ultimately show ?thesis using d by (simp only: fst simp_thms)
qed

definition two_policies :: data_buffer_input where
  "two_policies = (let s = (\<lambda>m. new_sample\<lparr>trainer_model_id := Some m, status := ABORTED\<rparr>)
     in \<lparr> prompt_group = [new_sample], finished = [Many [s ''a'', s ''b'']] \<rparr>)"

lemma split_partitions_groups_witness:
  "\<exists>parts. split_by_trainer_model_id two_policies = Inr parts \<and> map fst parts = [''a'', ''b''] \<and> distinct (map fst parts)"
proof -
  obtain parts where p: "split_by_trainer_model_id two_policies = Inr parts" "map fst parts = [''a'', ''b'']"
    by (simp add: split_by_trainer_model_id_def two_policies_def iter_samples_def from_keys_def Let_def)
  with split_partitions_groups [OF p(1)] show ?thesis by (intro exI [of _ parts]) (simp only: simp_thms)
qed

text \<open>A group of prompts names no policy, so it cannot be split.\<close>

lemma unstamped_group_fails:
  "\<exists>s\<in>set (iter_samples (finished inp)). trainer_model_id s = None \<Longrightarrow> split_by_trainer_model_id inp = Inl AssertionError"
  by (force simp: split_by_trainer_model_id_def py_assert_def Let_def)

end
