(* ===== verification/RolloutFlow.thy ===== *)
theory RolloutFlow
  imports DataSource RolloutGroups
begin

text \<open>
  Fully asynchronous rollout (\<open>rollout/fully_async_rollout.py\<close>, \<open>submission_scheduler.py\<close>,
  \<open>fully_async_data_buffer.py\<close>) as one machine: the producer's loop, the tasks that generate groups, the
  bounded buffer and the consumer that drains a batch.  Every piece of code between two awaits is one
  or several steps; tasks, calls and evaluations are the environment's events.  The custom batch filter,
  the metrics and the logs are left out.
\<close>

section \<open>Configuration\<close>

record flow_config =
  source_args :: source_args
  rollout_batch_size :: nat
  async_max_concurrent_samples :: "nat option"
  sample_backfill :: bool
  capacity :: nat
  max_weight_staleness :: "int option"
  retry_unused :: bool
  reward_key :: "string option"
  dynamic_sampling_filter :: "dynamic_filter option"

abbreviation group_size :: "flow_config \<Rightarrow> nat" where
  "group_size cfg \<equiv> n_samples_per_prompt (source_args cfg)"

text \<open>\<open>int(factor * rollout_batch_size)\<close> with its two assertions\<close>

definition buffer_capacity :: "real \<Rightarrow> nat \<Rightarrow> nat res" where
  "buffer_capacity factor batch = rbind (py_assert (0 < factor)) (\<lambda>_.
     let c = nat \<lfloor>factor * real batch\<rfloor> in rbind (py_assert (1 \<le> c)) (\<lambda>_. Inr c))"

definition max_in_flight_groups :: "flow_config \<Rightarrow> nat" where
  "max_in_flight_groups cfg = (case async_max_concurrent_samples cfg of
       Some x \<Rightarrow> max 1 (x div group_size cfg)
     | None \<Rightarrow> rollout_batch_size cfg)"

section \<open>State\<close>

datatype task_outcome = Finished rollout_group | Cancelled | Raised py_error

text \<open>A generation task: its prompts, how many of its samples still run, and its outcome.\<close>

record gen_task =
  task_prompt :: "sample list"
  running :: nat
  outcome :: "task_outcome option"

text \<open>
  Where the producer stands: before \<open>_producer_resumed.wait()\<close>, in the loop that submits, in
  \<open>wait_for_progress\<close>, between the finished tasks of one wait, or in \<open>put\<close> on a full buffer.
\<close>

datatype producer = NotStarted | Resuming | Submitting | Waiting | Collecting "nat list"
  | Putting data_buffer_input "nat list" | Dead py_error

datatype consumer = Idle | Draining "int option" "data_buffer_input list" | Failed py_error "data_buffer_input list"

record flow_state =
  source :: data_source
  samples_in_flight :: int
  sample_done :: bool
  resumed :: bool
  producer :: producer
  active :: "(nat \<times> gen_task) list"
  next_task :: nat
  buffer :: "data_buffer_input list"
  aborted_groups :: nat
  stale_groups :: nat
  consumer :: consumer
  dropped :: "sample list list"
  delivered :: "(int option \<times> data_buffer_input list) list"

definition flow_init :: "flow_config \<Rightarrow> sample list \<Rightarrow> flow_state" where
  "flow_init cfg prompts = \<lparr> source = new_data_source (source_args cfg) (Some prompts), samples_in_flight = 0,
     sample_done = False, resumed = True, producer = NotStarted, active = [], next_task = 0, buffer = [],
     aborted_groups = 0, stale_groups = 0, consumer = Idle, dropped = [], delivered = [] \<rparr>"

section \<open>The submission scheduler\<close>

text \<open>The answer, the count of samples in flight and the wakeup flag of both schedulers.\<close>

definition has_capacity :: "flow_config \<Rightarrow> flow_state \<Rightarrow> bool \<times> flow_state" where
  "has_capacity cfg s =
     (if \<not> sample_backfill cfg then (length (active s) < max_in_flight_groups cfg, s)
      else let n = if active s = [] then 0 else samples_in_flight s;
               s' = s\<lparr>samples_in_flight := n\<rparr> in
        if n + int (group_size cfg) \<le> int (max_in_flight_groups cfg * group_size cfg) then (True, s')
        else (False, s'\<lparr>sample_done := False\<rparr>))"

definition on_submit :: "flow_config \<Rightarrow> sample list list \<Rightarrow> flow_state \<Rightarrow> flow_state" where
  "on_submit cfg gs s = (if sample_backfill cfg
     then s\<lparr>samples_in_flight := samples_in_flight s + int (sum_list (map length gs))\<rparr> else s)"

definition sample_done_callback :: "flow_config \<Rightarrow> flow_state \<Rightarrow> flow_state" where
  "sample_done_callback cfg s = (if sample_backfill cfg
     then s\<lparr>samples_in_flight := samples_in_flight s - 1, sample_done := True\<rparr> else s)"

section \<open>Unused groups\<close>

definition recycle :: "flow_config \<Rightarrow> sample list \<Rightarrow> flow_state \<Rightarrow> flow_state \<times> unit res" where
  "recycle cfg pg s = (let (src, r) = add_samples (source_args cfg) [map reset_for_retry pg] (source s) in (s\<lparr>source := src\<rparr>, r))"

definition drop_group :: "sample list \<Rightarrow> flow_state \<Rightarrow> flow_state" where
  "drop_group pg s = s\<lparr>dropped := dropped s @ [pg]\<rparr>"

definition handle_unused :: "flow_config \<Rightarrow> sample list \<Rightarrow> flow_state \<Rightarrow> flow_state \<times> unit res" where
  "handle_unused cfg pg s = (if retry_unused cfg
     then case recycle cfg pg s of (s', Inr _) \<Rightarrow> (s', Inr ()) | (s', Inl e) \<Rightarrow> (drop_group pg s', Inl e)
     else (drop_group pg s, Inr ()))"

section \<open>The buffer\<close>

text \<open>The verdict on a finished group; the groups it drops are recorded.\<close>

definition preput_filter :: "flow_config \<Rightarrow> data_buffer_input \<Rightarrow> flow_state \<Rightarrow> flow_state \<times> bool res" where
  "preput_filter cfg inp s =
     (if \<not> keep (apply_aborted_filter (finished inp))
      then let (s', r) = handle_unused cfg (prompt_group inp) (s\<lparr>aborted_groups := aborted_groups s + 1\<rparr>)
           in (s', rbind r (\<lambda>_. Inr False))
      else case apply_missing_reward_filter (reward_key cfg) (finished inp) of
          Inl e \<Rightarrow> (drop_group (prompt_group inp) s, Inl e)
        | Inr out \<Rightarrow>
          if \<not> keep out then (drop_group (prompt_group inp) s, Inr False)
          else case call_dynamic_filter (dynamic_sampling_filter cfg) (finished inp) of
              Inl e \<Rightarrow> (drop_group (prompt_group inp) s, Inl e)
            | Inr out' \<Rightarrow> if keep out' then (s, Inr True) else (drop_group (prompt_group inp) s, Inr False))"

section \<open>The producer\<close>

definition submit_one_group :: "flow_config \<Rightarrow> flow_state \<Rightarrow> flow_state" where
  "submit_one_group cfg s =
     (let (gs, src) = get_samples (source_args cfg) 1 (source s); s1 = on_submit cfg gs (s\<lparr>source := src\<rparr>) in
      case gs of
        [pg] \<Rightarrow> s1\<lparr>active := active s1 @ [(next_task s1, \<lparr> task_prompt = pg, running = length pg, outcome = None \<rparr>)],
                  next_task := next_task s1 + 1\<rparr>
      | _ \<Rightarrow> s1\<lparr>producer := Dead ValueError\<rparr>)"

definition collect_group_result :: "gen_task \<Rightarrow> data_buffer_input res" where
  "collect_group_result t = (case outcome t of
       Some (Raised e) \<Rightarrow> Inl e
     | Some (Finished g) \<Rightarrow> Inr \<lparr> prompt_group = task_prompt t, finished = g \<rparr>
     | _ \<Rightarrow> Inr \<lparr> prompt_group = task_prompt t, finished = map (\<lambda>s. One (s\<lparr>status := ABORTED\<rparr>)) (task_prompt t) \<rparr>)"

definition finished_tasks :: "flow_state \<Rightarrow> nat list" where
  "finished_tasks s = map fst (filter (\<lambda>(t, task). outcome task \<noteq> None) (active s))"

definition collect_one :: "flow_config \<Rightarrow> nat \<Rightarrow> nat list \<Rightarrow> flow_state \<Rightarrow> flow_state" where
  "collect_one cfg t ts s = (case dget (active s) t of
       None \<Rightarrow> s
     | Some task \<Rightarrow>
         let s1 = s\<lparr>active := ddel (active s) t\<rparr> in
         case collect_group_result task of
           Inl e \<Rightarrow> (drop_group (task_prompt task) s1)\<lparr>producer := Dead e\<rparr>
         | Inr inp \<Rightarrow> (case preput_filter cfg inp s1 of
               (s2, Inl e) \<Rightarrow> s2\<lparr>producer := Dead e\<rparr>
             | (s2, Inr verdict) \<Rightarrow> s2\<lparr>producer := (if verdict then Putting inp ts else Collecting ts)\<rparr>))"

text \<open>\<open>order\<close> is the order in which the set of finished tasks is traversed.\<close>

definition producer_step :: "flow_config \<Rightarrow> nat list \<Rightarrow> flow_state \<Rightarrow> flow_state" where
  "producer_step cfg order s = (case producer s of
       Resuming \<Rightarrow> if resumed s then s\<lparr>producer := Submitting\<rparr> else s
     | Submitting \<Rightarrow> (let (free, s1) = has_capacity cfg s in if free then submit_one_group cfg s1 else s1\<lparr>producer := Waiting\<rparr>)
     | Waiting \<Rightarrow>
         if \<not> sample_backfill cfg \<and> active s = [] then s\<lparr>producer := Dead ValueError\<rparr>
         else if distinct order \<and> set order = set (finished_tasks s) \<and> (order \<noteq> [] \<or> sample_backfill cfg \<and> sample_done s)
         then s\<lparr>producer := Collecting order\<rparr> else s
     | Collecting [] \<Rightarrow> s\<lparr>producer := Resuming\<rparr>
     | Collecting (t # ts) \<Rightarrow> collect_one cfg t ts s
     | Putting inp ts \<Rightarrow>
         if length (buffer s) < capacity cfg then s\<lparr>buffer := buffer s @ [inp], producer := Collecting ts\<rparr> else s
     | _ \<Rightarrow> s)"

section \<open>The consumer\<close>

text \<open>The batch in the order of its first samples' indices, which \<open>sort\<close> compares when there are two.\<close>

definition group_index_key :: "data_buffer_input \<Rightarrow> int option res" where
  "group_index_key inp = rbind (first_sample (finished inp)) (\<lambda>s. Inr (sample_index s))"

definition sort_batch :: "data_buffer_input list \<Rightarrow> data_buffer_input list res" where
  "sort_batch data = rbind (res_all (map group_index_key data)) (\<lambda>keys.
     if 2 \<le> length keys \<and> None \<in> set keys then Inl TypeError
     else Inr (map snd (sort_key (\<lambda>(k, _). case k of None \<Rightarrow> 0 | Some i \<Rightarrow> i) (zip keys data))))"

definition fail :: "py_error \<Rightarrow> data_buffer_input list \<Rightarrow> flow_state \<Rightarrow> flow_state" where
  "fail e lost s = s\<lparr>consumer := Failed e lost\<rparr>"

text \<open>One group from the buffer: refused as stale, or taken into the batch.\<close>

definition take_group :: "flow_config \<Rightarrow> int option \<Rightarrow> data_buffer_input list \<Rightarrow> flow_state \<Rightarrow> flow_state" where
  "take_group cfg current data s = (case buffer s of
       [] \<Rightarrow> s
     | inp # rest \<Rightarrow>
         let s1 = s\<lparr>buffer := rest\<rparr> in
         case group_staleness (finished inp) current of
           Inl e \<Rightarrow> fail e (data @ [inp]) s1
         | Inr lag \<Rightarrow>
             if (case (lag, max_weight_staleness cfg) of (Some l, Some m) \<Rightarrow> m < l | _ \<Rightarrow> False)
             then (case handle_unused cfg (prompt_group inp) (s1\<lparr>stale_groups := stale_groups s + 1\<rparr>) of
                 (s2, Inl e) \<Rightarrow> fail e data s2
               | (s2, Inr _) \<Rightarrow> s2)
             else if length (finished inp) \<noteq> group_size cfg then fail AssertionError (data @ [inp]) s1
             else s1\<lparr>consumer := Draining current (data @ [inp])\<rparr>)"

definition consumer_step :: "flow_config \<Rightarrow> flow_state \<Rightarrow> flow_state" where
  "consumer_step cfg s = (case consumer s of
       Draining current data \<Rightarrow>
         if rollout_batch_size cfg \<le> length data
         then (case sort_batch data of
               Inl e \<Rightarrow> fail e data s
             | Inr batch \<Rightarrow> s\<lparr>consumer := Idle, delivered := delivered s @ [(current, batch)]\<rparr>)
         else (case producer s of Dead e \<Rightarrow> fail e data s | _ \<Rightarrow> take_group cfg current data s)
     | _ \<Rightarrow> s)"

definition call_train :: "int option \<Rightarrow> flow_state \<Rightarrow> flow_state" where
  "call_train current s = (if consumer s = Idle
     then s\<lparr>consumer := Draining current [], producer := (if producer s = NotStarted then Resuming else producer s)\<rparr> else s)"

section \<open>The machine\<close>

datatype flow_event =
    Call "int option" | Consume | Produce "nat list"
  | SampleEnds nat | TaskEnds nat "sample list" task_outcome
  | PauseForEval | ResumeAfterEval | Dispose

text \<open>
  A task ends when all its samples have ended (\<open>generate_and_rm_group\<close> gathers them, also after an
  error); generation may change its prompts in place, but not their indices, and a finished group
  has one item per prompt.
\<close>

definition same_identity :: "sample list \<Rightarrow> sample list \<Rightarrow> bool" where
  "same_identity xs ys \<longleftrightarrow> map group_index xs = map group_index ys \<and> map sample_index xs = map sample_index ys"

definition task_may_end :: "gen_task \<Rightarrow> sample list \<Rightarrow> task_outcome \<Rightarrow> bool" where
  "task_may_end task pg out \<longleftrightarrow> outcome task = None \<and> running task = 0 \<and> same_identity (task_prompt task) pg
     \<and> (case out of Finished g \<Rightarrow> length g = length pg | _ \<Rightarrow> True)"

definition sample_finishes :: "flow_config \<Rightarrow> nat \<Rightarrow> flow_state \<Rightarrow> flow_state" where
  "sample_finishes cfg t s = (case dget (active s) t of
       None \<Rightarrow> s
     | Some task \<Rightarrow> if running task = 0 then s
         else sample_done_callback cfg (s\<lparr>active := dset (active s) t (task\<lparr>running := running task - 1\<rparr>)\<rparr>))"

definition task_ends :: "nat \<Rightarrow> sample list \<Rightarrow> task_outcome \<Rightarrow> flow_state \<Rightarrow> flow_state" where
  "task_ends t pg out s = (case dget (active s) t of
       None \<Rightarrow> s
     | Some task \<Rightarrow> if task_may_end task pg out
         then s\<lparr>active := dset (active s) t (task\<lparr>task_prompt := pg, outcome := Some out\<rparr>)\<rparr> else s)"

fun flow_step :: "flow_config \<Rightarrow> flow_state \<Rightarrow> flow_event \<Rightarrow> flow_state" where
  "flow_step cfg s (Call current) = call_train current s"
| "flow_step cfg s Consume = consumer_step cfg s"
| "flow_step cfg s (Produce order) = producer_step cfg order s"
| "flow_step cfg s (SampleEnds t) = sample_finishes cfg t s"
| "flow_step cfg s (TaskEnds t pg out) = task_ends t pg out s"
| "flow_step cfg s PauseForEval = s\<lparr>resumed := False\<rparr>"
| "flow_step cfg s ResumeAfterEval = s\<lparr>resumed := True\<rparr>"
| "flow_step cfg s Dispose = (case producer s of
       NotStarted \<Rightarrow> s
     | Putting inp ts \<Rightarrow> (drop_group (prompt_group inp) s)\<lparr>producer := Dead RuntimeError\<rparr>
     | _ \<Rightarrow> s\<lparr>producer := Dead RuntimeError\<rparr>)"

definition flow_run :: "flow_config \<Rightarrow> sample list \<Rightarrow> flow_event list \<Rightarrow> flow_state" where
  "flow_run cfg prompts events = foldl (flow_step cfg) (flow_init cfg prompts) events"

section \<open>Groups are conserved\<close>

definition group_key :: "sample list \<Rightarrow> int option list" where
  "group_key pg = map sample_index pg"

fun producer_entries :: "producer \<Rightarrow> data_buffer_input list" where
  "producer_entries (Putting inp _) = [inp]"
| "producer_entries _ = []"

fun consumer_entries :: "consumer \<Rightarrow> data_buffer_input list" where
  "consumer_entries Idle = []"
| "consumer_entries (Draining _ data) = data"
| "consumer_entries (Failed _ data) = data"

text \<open>Every place a group can be in.\<close>

definition finished_entries :: "flow_state \<Rightarrow> data_buffer_input list" where
  "finished_entries s = producer_entries (producer s) @ buffer s @ consumer_entries (consumer s) @ concat (map snd (delivered s))"

definition held :: "flow_state \<Rightarrow> sample list list" where
  "held s = retry_buffer (source s) @ map (task_prompt \<circ> snd) (active s) @ map prompt_group (finished_entries s) @ dropped s"

definition issued :: "nat \<Rightarrow> nat \<Rightarrow> int option list list" where
  "issued n m = map (\<lambda>k. map (\<lambda>j. Some (int (k * n + j))) [0..<n]) [0..<m]"

definition conserved :: "flow_config \<Rightarrow> flow_state \<Rightarrow> bool" where
  "conserved cfg s \<longleftrightarrow> next_sample_index (source s) = next_group_index (source s) * group_size cfg
     \<and> mset (map group_key (held s)) = mset (issued (group_size cfg) (next_group_index (source s)))"

lemma issued_Suc: "issued n (Suc m) = issued n m @ [map (\<lambda>j. Some (int (m * n + j))) [0..<n]]"
  by (simp add: issued_def)

lemma distinct_issued: "0 < n \<Longrightarrow> distinct (issued n m)"
proof -
  assume n: "0 < n"
  have "inj (\<lambda>k. map (\<lambda>j. Some (int (k * n + j))) [0..<n])"
  proof (rule injI)
    fix k l assume "map (\<lambda>j. Some (int (k * n + j))) [0..<n] = map (\<lambda>j. Some (int (l * n + j))) [0..<n]"
    then have "map (\<lambda>j. Some (int (k * n + j))) [0..<n] ! 0 = map (\<lambda>j. Some (int (l * n + j))) [0..<n] ! 0" by (rule arg_cong)
    then show "k = l" using n by simp
  qed
  then show ?thesis by (simp add: issued_def distinct_map inj_on_subset [of _ UNIV])
qed

lemma length_issued: "k \<in> set (issued n m) \<Longrightarrow> length k = n"
  by (auto simp: issued_def)

lemma group_key_reset [simp]: "group_key (map reset_for_retry pg) = group_key pg"
  by (simp add: group_key_def reset_for_retry_def comp_def)

lemma group_key_same: "same_identity xs ys \<Longrightarrow> group_key ys = group_key xs \<and> length ys = length xs"
  unfolding same_identity_def group_key_def by (metis length_map)

lemma held_length:
  assumes "conserved cfg s" "pg \<in> set (held s)"
  shows "length pg = group_size cfg"
proof -
  have "group_key pg \<in> set_mset (mset (map group_key (held s)))" using assms(2) by simp
  then have "group_key pg \<in> set (issued (group_size cfg) (next_group_index (source s)))"
    using assms(1) unfolding conserved_def by (metis set_mset_mset)
  then have "length (group_key pg) = group_size cfg" by (rule length_issued)
  then show ?thesis by (simp add: group_key_def)
qed

lemma mset_dset:
  "distinct (map fst d) \<Longrightarrow> map_of d k = Some v \<Longrightarrow> add_mset (k, v) (mset (AList.update k w d)) = add_mset (k, w) (mset d)"
  by (induction d) (auto simp: add_mset_commute split: if_splits)

lemma mset_ddel:
  "distinct (map fst d) \<Longrightarrow> map_of d k = Some v \<Longrightarrow> mset d = add_mset (k, v) (mset (AList.delete k d))"
  by (induction d) (auto simp: delete_idem split: if_splits)

lemma length_take_one: "length (fst (take_prompts a 1 s)) \<le> 1"
  by (auto simp: take_prompts_def Let_def length_slice split: option.splits)

lemma get_one_group:
  assumes "get_samples a 1 s = (gs, s')" "next_sample_index s = next_group_index s * n_samples_per_prompt a"
  shows "next_sample_index s' = next_group_index s' * n_samples_per_prompt a"
    "length gs \<le> 1"
    "mset (map group_key (retry_buffer s' @ gs)) + mset (issued (n_samples_per_prompt a) (next_group_index s))
      = mset (map group_key (retry_buffer s)) + mset (issued (n_samples_per_prompt a) (next_group_index s'))"
proof -
  let ?n = "n_samples_per_prompt a"
  have "next_sample_index s' = next_group_index s' * ?n \<and> length gs \<le> 1
      \<and> mset (map group_key (retry_buffer s' @ gs)) + mset (issued ?n (next_group_index s))
        = mset (map group_key (retry_buffer s)) + mset (issued ?n (next_group_index s'))"
  proof (cases "retry_buffer s")
    case (Cons g rest)
    then show ?thesis using assms by (auto simp: get_samples_def get_samples_from_buffer_def pop_first_def Let_def)
  next
    case Nil
    obtain ps s1 where t: "take_prompts a 1 s = (ps, s1)" by force
    have keep: "next_group_index s1 = next_group_index s" "next_sample_index s1 = next_sample_index s" "retry_buffer s1 = []"
      using take_prompts_keeps [of a 1 s] unfolding t using Nil by simp_all
    have out: "make_groups ?n ps s1 = (gs, s')" using assms(1) Nil t [simplified]
      by (simp add: get_samples_def get_samples_from_buffer_def rollout_get_samples_def split: prod.splits)
    have "length ps \<le> 1" using length_take_one [of a s] unfolding t by simp
    then consider "ps = []" | p where "ps = [p]" by (cases ps) auto
    then show ?thesis
    proof cases
      case 1 then show ?thesis using out assms(2) keep Nil by auto
    next
      case 2
      have "group_key (make_group ?n g (g * ?n) p) = map (\<lambda>j. Some (int (g * ?n + j))) [0..<?n]" for g
        by (simp add: group_key_def make_group_def)
      then show ?thesis using 2 out assms(2) keep Nil by (auto simp: issued_Suc)
    qed
  qed
  then show "next_sample_index s' = next_group_index s' * ?n" "length gs \<le> 1"
    "mset (map group_key (retry_buffer s' @ gs)) + mset (issued ?n (next_group_index s))
      = mset (map group_key (retry_buffer s)) + mset (issued ?n (next_group_index s'))" by auto
qed

section \<open>The invariant\<close>

definition flow_config_ok :: "flow_config \<Rightarrow> bool" where
  "flow_config_ok cfg \<longleftrightarrow> 0 < group_size cfg \<and> 0 < rollout_batch_size cfg \<and> 0 < capacity cfg"

definition task_ok :: "flow_config \<Rightarrow> gen_task \<Rightarrow> bool" where
  "task_ok cfg task \<longleftrightarrow> running task \<le> group_size cfg \<and> (outcome task = None \<or> running task = 0)
     \<and> (case outcome task of Some (Finished g) \<Rightarrow> length g = length (task_prompt task) | _ \<Rightarrow> True)"

definition load :: "(nat \<times> gen_task) list \<Rightarrow> nat" where
  "load d = sum_list (map (running \<circ> snd) d)"

definition gen_tasks_ok :: "flow_config \<Rightarrow> flow_state \<Rightarrow> bool" where
  "gen_tasks_ok cfg s \<longleftrightarrow> dict_ok (active s) \<and> (\<forall>t\<in>set (dkeys (active s)). t < next_task s) \<and> (\<forall>(t, task)\<in>set (active s). task_ok cfg task)
     \<and> (if sample_backfill cfg then samples_in_flight s = int (load (active s)) \<and> load (active s) \<le> max_in_flight_groups cfg * group_size cfg
        else length (active s) \<le> max_in_flight_groups cfg)"

fun pending_ids :: "producer \<Rightarrow> nat list" where
  "pending_ids (Collecting ts) = ts"
| "pending_ids (Putting _ ts) = ts"
| "pending_ids _ = []"

definition producer_ok :: "flow_config \<Rightarrow> flow_state \<Rightarrow> bool" where
  "producer_ok cfg s \<longleftrightarrow> distinct (pending_ids (producer s))
     \<and> (\<forall>t\<in>set (pending_ids (producer s)). \<exists>task. dget (active s) t = Some task \<and> outcome task \<noteq> None)
     \<and> (producer s = Waiting \<longrightarrow> (if sample_backfill cfg
          then sample_done s \<or> max_in_flight_groups cfg * group_size cfg < load (active s) + group_size cfg
          else max_in_flight_groups cfg \<le> length (active s)))"

definition group_entry_ok :: "flow_config \<Rightarrow> data_buffer_input \<Rightarrow> bool" where
  "group_entry_ok cfg inp \<longleftrightarrow> length (finished inp) = length (prompt_group inp)
     \<and> (case apply_preput_filters (dynamic_sampling_filter cfg) (reward_key cfg) (finished inp) of Inl e \<Rightarrow> False | Inr out \<Rightarrow> keep out)"

definition fresh_enough :: "flow_config \<Rightarrow> int option \<Rightarrow> data_buffer_input \<Rightarrow> bool" where
  "fresh_enough cfg current inp \<longleftrightarrow> (case group_staleness (finished inp) current of
       Inl e \<Rightarrow> False
     | Inr lag \<Rightarrow> (case (lag, max_weight_staleness cfg) of (Some l, Some m) \<Rightarrow> l \<le> m | _ \<Rightarrow> True))"

definition index_value :: "int option \<Rightarrow> int" where
  "index_value k = (case k of None \<Rightarrow> 0 | Some i \<Rightarrow> i)"

definition in_index_order :: "data_buffer_input list \<Rightarrow> bool" where
  "in_index_order b \<longleftrightarrow> (\<exists>ks. map group_index_key b = map Inr ks \<and> sorted (map index_value ks) \<and> (2 \<le> length b \<longrightarrow> None \<notin> set ks))"

definition batch_ok :: "flow_config \<Rightarrow> int option \<Rightarrow> data_buffer_input list \<Rightarrow> bool" where
  "batch_ok cfg current b \<longleftrightarrow> length b = rollout_batch_size cfg \<and> list_all (fresh_enough cfg current) b \<and> in_index_order b"

definition groups_ok :: "flow_config \<Rightarrow> flow_state \<Rightarrow> bool" where
  "groups_ok cfg s \<longleftrightarrow> length (buffer s) \<le> capacity cfg \<and> (\<forall>inp\<in>set (finished_entries s). group_entry_ok cfg inp)
     \<and> (case consumer s of Draining current data \<Rightarrow> length data \<le> rollout_batch_size cfg \<and> list_all (fresh_enough cfg current) data | _ \<Rightarrow> True)
     \<and> (\<forall>(current, b)\<in>set (delivered s). batch_ok cfg current b)"

definition flow_inv :: "flow_config \<Rightarrow> flow_state \<Rightarrow> bool" where
  "flow_inv cfg s \<longleftrightarrow> flow_config_ok cfg \<and> conserved cfg s \<and> gen_tasks_ok cfg s \<and> producer_ok cfg s \<and> groups_ok cfg s"

subsection \<open>Pieces of steps\<close>

lemma sort_batch_ok:
  assumes "sort_batch data = Inr b"
  shows "mset b = mset data" "in_index_order b"
proof -
  obtain keys where k: "res_all (map group_index_key data) = Inr keys" "2 \<le> length keys \<longrightarrow> None \<notin> set keys"
    "b = map snd (sort_key (\<lambda>(k, _). index_value k) (zip keys data))"
    using assms by (auto simp: sort_batch_def rbind_Inr_iff index_value_def [abs_def] split: if_splits)
  let ?z = "sort_key (\<lambda>(k, _). index_value k) (zip keys data)"
  have keys: "map group_index_key data = map Inr keys" using res_all_Inr [OF k(1)] by simp
  then have len: "length keys = length data" by (metis length_map)
  have "mset b = mset (map snd (zip keys data))" by (simp add: k(3))
  then show b: "mset b = mset data" using len by simp
  have pair: "group_index_key inp = Inr key" if "(key, inp) \<in> set (zip keys data)" for key inp
    using that keys len by (auto simp: in_set_zip) (metis nth_map)
  have "map group_index_key b = map Inr (map fst ?z)" using pair by (auto simp: k(3))
  moreover have "sorted (map index_value (map fst ?z))"
    using sorted_sort_key [of "\<lambda>(k, _). index_value k" "zip keys data"] by (simp add: comp_def case_prod_unfold)
  moreover have "set (map fst ?z) = set keys" using len by (metis (no_types) list.set_map map_fst_zip set_sort)
  moreover have "length b = length keys" using b len by (metis size_mset)
  ultimately show "in_index_order b" unfolding in_index_order_def using k(2) by metis
qed

text \<open>A group leaves_pipeline the pipeline: back to the source, or dropped.\<close>

definition leaves_pipeline :: "sample list \<Rightarrow> flow_state \<Rightarrow> flow_state \<Rightarrow> bool" where
  "leaves_pipeline pg s s' \<longleftrightarrow> (\<exists>src dr ab st. s' = s\<lparr>source := src, dropped := dr, aborted_groups := ab, stale_groups := st\<rparr>
     \<and> next_group_index src = next_group_index (source s) \<and> next_sample_index src = next_sample_index (source s)
     \<and> mset (map group_key (retry_buffer src @ dr)) = add_mset (group_key pg) (mset (map group_key (retry_buffer (source s) @ dropped s))))"

lemma leaves_drop [simp]: "leaves_pipeline pg s (drop_group pg s)"
  unfolding leaves_pipeline_def by (rule exI [of _ "source s"], rule exI, rule exI [of _ "aborted_groups s"], rule exI [of _ "stale_groups s"])
    (auto simp: drop_group_def)

lemma handle_unused_leaves:
  assumes "length pg = group_size cfg"
  shows "\<exists>s'. handle_unused cfg pg s = (s', Inr ()) \<and> leaves_pipeline pg s s'"
proof (cases "retry_unused cfg")
  case True
  let ?s = "s\<lparr>source := (source s)\<lparr>retry_buffer := retry_buffer (source s) @ [map reset_for_retry pg]\<rparr>\<rparr>"
  have "handle_unused cfg pg s = (?s, Inr ())"
    using assms True by (simp add: handle_unused_def recycle_def add_samples_def)
  moreover have "leaves_pipeline pg s ?s" unfolding leaves_pipeline_def
    by (rule exI [of _ "source ?s"], rule exI [of _ "dropped s"], rule exI [of _ "aborted_groups s"], rule exI [of _ "stale_groups s"]) simp
  ultimately show ?thesis by blast
qed (simp add: handle_unused_def)

lemma leaves_counters: "leaves_pipeline pg (s\<lparr>aborted_groups := a\<rparr>) s' = leaves_pipeline pg s s'" "leaves_pipeline pg (s\<lparr>stale_groups := a\<rparr>) s' = leaves_pipeline pg s s'"
  by (auto simp: leaves_pipeline_def)

lemma preput_filter_cases:
  assumes "length (prompt_group inp) = group_size cfg"
  obtains (stored) "preput_filter cfg inp s = (s, Inr True)"
      "\<exists>out. apply_preput_filters (dynamic_sampling_filter cfg) (reward_key cfg) (finished inp) = Inr out \<and> keep out"
    | (gone) s' r where "preput_filter cfg inp s = (s', r)" "r \<noteq> Inr True" "leaves_pipeline (prompt_group inp) s s'"
proof -
  obtain s' where h: "handle_unused cfg (prompt_group inp) (s\<lparr>aborted_groups := aborted_groups s + 1\<rparr>) = (s', Inr ())"
    "leaves_pipeline (prompt_group inp) s s'"
    using handle_unused_leaves [OF assms, of "s\<lparr>aborted_groups := aborted_groups s + 1\<rparr>"] by (auto simp: leaves_counters)
  show ?thesis
  proof (cases "preput_filter cfg inp s")
    case (Pair s1 r)
    then show ?thesis using h stored gone [of s1 r]
      by (auto simp: preput_filter_def apply_preput_filters_def Let_def split: if_splits sum.splits)
  qed
qed

lemma leaves_held: "leaves_pipeline pg s s' \<Longrightarrow> mset (map group_key (held s')) = add_mset (group_key pg) (mset (map group_key (held s)))"
  by (auto simp: leaves_pipeline_def held_def finished_entries_def)

lemma leaves_keeps:
  assumes "leaves_pipeline pg s s'"
  shows "active s' = active s" "producer s' = producer s" "buffer s' = buffer s" "consumer s' = consumer s"
    "delivered s' = delivered s" "next_task s' = next_task s" "samples_in_flight s' = samples_in_flight s"
    "sample_done s' = sample_done s" "next_group_index (source s') = next_group_index (source s)"
    "next_sample_index (source s') = next_sample_index (source s)"
  using assms by (auto simp: leaves_pipeline_def)

lemma leaves_ok:
  assumes "leaves_pipeline pg s s'"
  shows "gen_tasks_ok cfg s' = gen_tasks_ok cfg s" "producer_ok cfg s' = producer_ok cfg s" "groups_ok cfg s' = groups_ok cfg s"
  by (simp_all add: gen_tasks_ok_def producer_ok_def groups_ok_def finished_entries_def leaves_keeps [OF assms])

lemma load_simps [simp]: "load [] = 0" "load (d @ e) = load d + load e" "load (p # d) = running (snd p) + load d"
  by (simp_all add: load_def)

lemma load_mset: "load d = sum_mset (image_mset (running \<circ> snd) (mset d))"
  by (simp add: load_def flip: mset_map sum_mset_sum_list)

lemma load_dset:
  assumes "dict_ok d" "dget d t = Some task"
  shows "load (dset d t task') + running task = load d + running task'"
  using arg_cong [OF mset_dset [OF assms [unfolded dict_ok_def], of task'], of "\<lambda>m. sum_mset (image_mset (running \<circ> snd) m)"]
  by (simp add: load_mset)

lemma load_ddel:
  assumes "dict_ok d" "dget d t = Some task"
  shows "load d = load (ddel d t) + running task"
  using arg_cong [OF mset_ddel [OF assms [unfolded dict_ok_def]], of "\<lambda>m. sum_mset (image_mset (running \<circ> snd) m)"]
  by (simp add: load_mset)

lemma set_dset: "dict_ok d \<Longrightarrow> p \<in> set (dset d t v) \<Longrightarrow> p = (t, v) \<or> p \<in> set d"
  using dget_in [of "dset d t v" "fst p" "snd p"] dget_in [of d "fst p" "snd p"] by (auto split: if_splits)

lemma length_ddel_le: "length (ddel d t) \<le> length d"
  by (simp add: AList.delete_eq)

lemma length_dset: "dget d t = Some v \<Longrightarrow> length (dset d t w) = length d"
  by (induction d) (auto split: if_splits)

lemma dkeys_dset: "dget d t = Some v \<Longrightarrow> set (dkeys (dset d t w)) = set (dkeys d)"
  by (simp add: update_keys) (metis dom_map_of_conv_image_fst domI insert_absorb)

lemma gen_tasks_ok_task: "gen_tasks_ok cfg s \<Longrightarrow> dget (active s) t = Some task \<Longrightarrow> task_ok cfg task"
  unfolding gen_tasks_ok_def by (auto dest: map_of_SomeD)

subsection \<open>The environment\<close>

lemma task_update_inv:
  assumes inv: "flow_inv cfg s" and t: "dget (active s) t = Some task"
    and task': "task_ok cfg task'" "group_key (task_prompt task') = group_key (task_prompt task)"
    and out: "outcome task \<noteq> None \<Longrightarrow> outcome task' \<noteq> None"
    and run: "running task' = running task - d" "d \<le> running task"
    and s': "s' = s\<lparr>active := dset (active s) t task', samples_in_flight := samples_in_flight s - (if sample_backfill cfg then int d else 0),
      sample_done := (sample_done s \<or> 0 < d \<and> sample_backfill cfg)\<rparr>"
  shows "flow_inv cfg s'"
proof -
  have ok: "flow_config_ok cfg" "conserved cfg s" "gen_tasks_ok cfg s" "producer_ok cfg s" "groups_ok cfg s"
    using inv by (auto simp: flow_inv_def)
  have d: "dict_ok (active s)" using ok(3) by (simp add: gen_tasks_ok_def)
  have l: "load (dset (active s) t task') = load (active s) - d" "d \<le> load (active s)"
    using load_dset [OF d t, of task'] run load_ddel [OF d t] by auto
  have "image_mset (group_key \<circ> (task_prompt \<circ> snd)) (mset (dset (active s) t task'))
      = image_mset (group_key \<circ> (task_prompt \<circ> snd)) (mset (active s))"
    using arg_cong [OF mset_dset [OF d [unfolded dict_ok_def] t, of task'], of "image_mset (group_key \<circ> (task_prompt \<circ> snd))"] task'(2)
    by simp
  then have "mset (map group_key (held s')) = mset (map group_key (held s))"
    by (simp add: s' held_def finished_entries_def multiset.map_comp)
  then have "conserved cfg s'" using ok(2) by (simp add: conserved_def s')
  moreover have "gen_tasks_ok cfg s'"
  proof -
    have "\<forall>(t, task)\<in>set (dset (active s) t task'). task_ok cfg task"
      using ok(3) task'(1) by (auto simp: gen_tasks_ok_def dest!: set_dset [OF d])
    then show ?thesis using ok(3) d l dkeys_dset [OF t] length_dset [OF t]
      by (auto simp: gen_tasks_ok_def s' of_nat_diff)
  qed
  moreover have "producer_ok cfg s'"
    using ok(4) out t l length_dset [OF t] by (auto simp: producer_ok_def s')
  moreover have "groups_ok cfg s'" using ok(5) by (simp add: groups_ok_def s' finished_entries_def)
  ultimately show ?thesis using ok(1) by (simp add: flow_inv_def)
qed

lemma sample_finishes_inv:
  assumes "flow_inv cfg s"
  shows "flow_inv cfg (sample_finishes cfg t s)"
proof (cases "dget (active s) t")
  case (Some task)
  have ok: "task_ok cfg task" using gen_tasks_ok_task [of cfg s t task] assms Some by (simp add: flow_inv_def)
  show ?thesis
  proof (cases "running task = 0")
    case False
    then have "sample_finishes cfg t s = s\<lparr>active := dset (active s) t (task\<lparr>running := running task - 1\<rparr>),
        samples_in_flight := samples_in_flight s - (if sample_backfill cfg then int 1 else 0),
        sample_done := (sample_done s \<or> 0 < (1 :: nat) \<and> sample_backfill cfg)\<rparr>"
      using Some by (simp add: sample_finishes_def sample_done_callback_def)
    from task_update_inv [OF assms Some _ _ _ _ _ this] show ?thesis using ok False by (auto simp: task_ok_def)
  qed (use assms Some in \<open>simp add: sample_finishes_def\<close>)
qed (use assms in \<open>simp add: sample_finishes_def\<close>)

lemma task_ends_inv:
  assumes "flow_inv cfg s"
  shows "flow_inv cfg (task_ends t pg out s)"
proof (cases "dget (active s) t")
  case (Some task)
  have ok: "task_ok cfg task" using gen_tasks_ok_task [of cfg s t task] assms Some by (simp add: flow_inv_def)
  show ?thesis
  proof (cases "task_may_end task pg out")
    case True
    then have "task_ends t pg out s = s\<lparr>active := dset (active s) t (task\<lparr>task_prompt := pg, outcome := Some out\<rparr>),
        samples_in_flight := samples_in_flight s - (if sample_backfill cfg then int 0 else 0),
        sample_done := (sample_done s \<or> 0 < (0 :: nat) \<and> sample_backfill cfg)\<rparr>"
      using Some by (simp add: task_ends_def)
    from task_update_inv [OF assms Some _ _ _ _ _ this] show ?thesis using ok True group_key_same [of "task_prompt task" pg]
      by (auto simp: task_ok_def task_may_end_def split: task_outcome.splits)
  qed (use assms Some in \<open>simp add: task_ends_def\<close>)
qed (use assms in \<open>simp add: task_ends_def\<close>)

subsection \<open>The producer\<close>

lemma producer_change_inv:
  assumes "flow_inv cfg s" "producer_entries p = []" "producer_entries (producer s) = []"
    "producer_ok cfg (s\<lparr>producer := p\<rparr>)"
  shows "flow_inv cfg (s\<lparr>producer := p\<rparr>)"
  using assms by (simp add: flow_inv_def conserved_def held_def finished_entries_def gen_tasks_ok_def groups_ok_def)

lemma collected_inv:
  assumes inv: "flow_inv cfg s" and pc: "producer s = Collecting (t # ts)" and task: "dget (active s) t = Some task"
    and lv: "leaves_pipeline (task_prompt task) (s\<lparr>active := ddel (active s) t\<rparr>) s2"
    and p: "p = Collecting ts \<or> (\<exists>e. p = Dead e)"
  shows "flow_inv cfg (s2\<lparr>producer := p\<rparr>)"
proof -
  have ok: "flow_config_ok cfg" "conserved cfg s" "gen_tasks_ok cfg s" "producer_ok cfg s" "groups_ok cfg s"
    using inv by (auto simp: flow_inv_def)
  have d: "dict_ok (active s)" using ok(3) by (simp add: gen_tasks_ok_def)
  have "outcome task \<noteq> None" using ok(4) pc task by (auto simp: producer_ok_def)
  then have run: "running task = 0" using gen_tasks_ok_task [OF ok(3) task] by (auto simp: task_ok_def)
  have noent: "producer_entries p = []" using p by auto
  have "mset (map group_key (held s)) = add_mset (group_key (task_prompt task)) (mset (map group_key (held (s\<lparr>active := ddel (active s) t\<rparr>))))"
    by (simp add: held_def finished_entries_def mset_ddel [OF d [unfolded dict_ok_def] task])
  also have "\<dots> = mset (map group_key (held s2))" using leaves_held [OF lv] by simp
  also have "\<dots> = mset (map group_key (held (s2\<lparr>producer := p\<rparr>)))"
    using leaves_keeps(2) [OF lv] pc noent by (simp add: held_def finished_entries_def)
  finally have "conserved cfg (s2\<lparr>producer := p\<rparr>)" using ok(2) leaves_keeps [OF lv] by (simp add: conserved_def)
  moreover have "gen_tasks_ok cfg (s2\<lparr>producer := p\<rparr>)"
    using ok(3) d load_ddel [OF d task] run length_ddel_le [of t "active s"]
    by (auto simp: gen_tasks_ok_def leaves_keeps [OF lv] set_ddel)
  moreover have "producer_ok cfg (s2\<lparr>producer := p\<rparr>)"
    using ok(4) p pc by (auto simp: producer_ok_def leaves_keeps [OF lv])
  moreover have "groups_ok cfg (s2\<lparr>producer := p\<rparr>)"
    using ok(5) pc noent by (simp add: groups_ok_def finished_entries_def leaves_keeps [OF lv])
  ultimately show ?thesis using ok(1) by (simp add: flow_inv_def)
qed

lemma stored_inv:
  assumes inv: "flow_inv cfg s" and pc: "producer s = Collecting (t # ts)" and task: "dget (active s) t = Some task"
    and inp: "prompt_group inp = task_prompt task" "group_entry_ok cfg inp"
  shows "flow_inv cfg (s\<lparr>active := ddel (active s) t, producer := Putting inp ts\<rparr>)"
proof -
  have ok: "flow_config_ok cfg" "conserved cfg s" "gen_tasks_ok cfg s" "producer_ok cfg s" "groups_ok cfg s"
    using inv by (auto simp: flow_inv_def)
  let ?s = "s\<lparr>active := ddel (active s) t, producer := Putting inp ts\<rparr>"
  have d: "dict_ok (active s)" using ok(3) by (simp add: gen_tasks_ok_def)
  have "outcome task \<noteq> None" using ok(4) pc task by (auto simp: producer_ok_def)
  then have run: "running task = 0" using gen_tasks_ok_task [OF ok(3) task] by (auto simp: task_ok_def)
  have "mset (map group_key (held s)) = mset (map group_key (held ?s))"
    using inp pc by (simp add: held_def finished_entries_def mset_ddel [OF d [unfolded dict_ok_def] task])
  then have "conserved cfg ?s" using ok(2) by (simp add: conserved_def)
  moreover have "gen_tasks_ok cfg ?s"
    using ok(3) d load_ddel [OF d task] run length_ddel_le [of t "active s"] by (auto simp: gen_tasks_ok_def set_ddel)
  moreover have "producer_ok cfg ?s" using ok(4) pc by (auto simp: producer_ok_def)
  moreover have "groups_ok cfg ?s" using ok(5) pc inp by (simp add: groups_ok_def finished_entries_def)
  ultimately show ?thesis using ok(1) by (simp add: flow_inv_def)
qed

lemma collect_group_result_entry:
  assumes "collect_group_result task = Inr inp" "task_ok cfg task"
  shows "prompt_group inp = task_prompt task" "length (finished inp) = length (prompt_group inp)"
  using assms by (auto simp: collect_group_result_def task_ok_def split: option.splits task_outcome.splits)

lemma collect_one_inv:
  assumes inv: "flow_inv cfg s" and pc: "producer s = Collecting (t # ts)"
  shows "flow_inv cfg (collect_one cfg t ts s)"
proof -
  have ok: "conserved cfg s" "gen_tasks_ok cfg s" "producer_ok cfg s" using inv by (auto simp: flow_inv_def)
  obtain task where task: "dget (active s) t = Some task" using ok(3) pc by (auto simp: producer_ok_def)
  let ?s = "s\<lparr>active := ddel (active s) t\<rparr>"
  have len: "length (task_prompt task) = group_size cfg"
    by (rule held_length [OF ok(1)]) (use map_of_SomeD [OF task] in \<open>force simp: held_def\<close>)
  show ?thesis
  proof (cases "collect_group_result task")
    case (Inl e)
    then show ?thesis using collected_inv [OF inv pc task leaves_drop, of "Dead e"] task by (simp add: collect_one_def Let_def)
  next
    case (Inr inp)
    note entry = collect_group_result_entry [OF Inr gen_tasks_ok_task [OF ok(2) task]]
    have "length (prompt_group inp) = group_size cfg" using entry len by simp
    then show ?thesis
    proof (cases rule: preput_filter_cases [where s = ?s])
      case stored
      then have "group_entry_ok cfg inp" using entry by (auto simp: group_entry_ok_def)
      from stored_inv [OF inv pc task entry(1) this] show ?thesis using task Inr stored by (simp add: collect_one_def)
    next
      case (gone s' r)
      have "flow_inv cfg (s'\<lparr>producer := p\<rparr>)" if "p = Collecting ts \<or> (\<exists>e. p = Dead e)" for p
        by (rule collected_inv [OF inv pc task]) (use gone entry that in simp_all)
      then show ?thesis using task Inr gone by (cases r) (simp_all add: collect_one_def)
    qed
  qed
qed

lemma has_capacity_inv:
  assumes inv: "flow_inv cfg s" and pc: "producer s = Submitting" and cap: "has_capacity cfg s = (free, s1)"
  shows "flow_inv cfg s1" "producer s1 = Submitting"
    "free \<Longrightarrow> sample_backfill cfg \<Longrightarrow> load (active s1) + group_size cfg \<le> max_in_flight_groups cfg * group_size cfg"
    "free \<Longrightarrow> \<not> sample_backfill cfg \<Longrightarrow> length (active s1) < max_in_flight_groups cfg"
    "\<not> free \<Longrightarrow> producer_ok cfg (s1\<lparr>producer := Waiting\<rparr>)"
proof -
  have t: "gen_tasks_ok cfg s" using inv by (simp add: flow_inv_def)
  have same: "s1 = (if sample_backfill cfg \<and> \<not> free then s\<lparr>sample_done := False\<rparr> else s)"
    using cap t by (auto simp: has_capacity_def gen_tasks_ok_def Let_def split: if_splits)
  then show "flow_inv cfg s1" "producer s1 = Submitting"
    using inv pc by (auto simp: flow_inv_def conserved_def held_def finished_entries_def gen_tasks_ok_def producer_ok_def groups_ok_def)
  show "free \<Longrightarrow> sample_backfill cfg \<Longrightarrow> load (active s1) + group_size cfg \<le> max_in_flight_groups cfg * group_size cfg"
    "free \<Longrightarrow> \<not> sample_backfill cfg \<Longrightarrow> length (active s1) < max_in_flight_groups cfg"
    using same cap t by (auto simp: has_capacity_def gen_tasks_ok_def Let_def simp flip: of_nat_add of_nat_mult split: if_splits)
  show "\<not> free \<Longrightarrow> producer_ok cfg (s1\<lparr>producer := Waiting\<rparr>)"
    using same cap t by (auto simp: has_capacity_def gen_tasks_ok_def producer_ok_def Let_def simp flip: of_nat_add of_nat_mult split: if_splits)
qed

lemma submit_one_group_inv:
  assumes inv: "flow_inv cfg s" and pc: "producer s = Submitting"
    and room: "sample_backfill cfg \<Longrightarrow> load (active s) + group_size cfg \<le> max_in_flight_groups cfg * group_size cfg"
      "\<not> sample_backfill cfg \<Longrightarrow> length (active s) < max_in_flight_groups cfg"
  shows "flow_inv cfg (submit_one_group cfg s)"
proof -
  have ok: "flow_config_ok cfg" "conserved cfg s" "gen_tasks_ok cfg s" "producer_ok cfg s" "groups_ok cfg s"
    using inv by (auto simp: flow_inv_def)
  obtain gs src where g: "get_samples (source_args cfg) 1 (source s) = (gs, src)" by force
  have "next_sample_index (source s) = next_group_index (source s) * group_size cfg" using ok(2) by (simp add: conserved_def)
  note one = get_one_group [OF g this]
  let ?I = "\<lambda>m. mset (issued (group_size cfg) m)"
  have "?I (next_group_index (source s)) = mset (map group_key (held s))" using ok(2) by (simp add: conserved_def)
  with one(3) have keys: "mset (map group_key (retry_buffer src @ gs)) + mset (map group_key (map (task_prompt \<circ> snd) (active s)
      @ map prompt_group (finished_entries s) @ dropped s)) = ?I (next_group_index src)"
    by (simp add: held_def ac_simps)
  consider "gs = []" | pg where "gs = [pg]" using one(2) by (cases gs) auto
  then show ?thesis
  proof cases
    case 1
    let ?s = "s\<lparr>source := src, producer := Dead ValueError\<rparr>"
    have "submit_one_group cfg s = ?s" using g 1 by (simp add: submit_one_group_def on_submit_def)
    moreover have "conserved cfg ?s" using keys one(1) 1 pc by (simp add: conserved_def held_def finished_entries_def ac_simps)
    ultimately show ?thesis using ok pc
      by (simp add: flow_inv_def gen_tasks_ok_def producer_ok_def groups_ok_def finished_entries_def)
  next
    case 2
    let ?task = "\<lparr>task_prompt = pg, running = length pg, outcome = None\<rparr>"
    let ?s = "s\<lparr>source := src, samples_in_flight := samples_in_flight s + (if sample_backfill cfg then int (length pg) else 0),
      active := active s @ [(next_task s, ?task)], next_task := next_task s + 1\<rparr>"
    have sub: "submit_one_group cfg s = ?s" using g 2 by (simp add: submit_one_group_def on_submit_def)
    have c: "conserved cfg ?s" using keys one(1) 2 pc by (simp add: conserved_def held_def finished_entries_def ac_simps)
    have len: "length pg = group_size cfg" by (rule held_length [OF c]) (simp add: held_def)
    have fresh: "next_task s \<notin> set (dkeys (active s))" using ok(3) by (auto simp: gen_tasks_ok_def)
    have "gen_tasks_ok cfg ?s" using ok(3) room len fresh by (auto simp: gen_tasks_ok_def task_ok_def dict_ok_def)
    moreover have "producer_ok cfg ?s" using ok(4) pc by (simp add: producer_ok_def)
    moreover have "groups_ok cfg ?s" using ok(5) by (simp add: groups_ok_def finished_entries_def)
    ultimately show ?thesis using ok(1) c sub by (simp add: flow_inv_def)
  qed
qed

lemma producer_step_inv:
  assumes inv: "flow_inv cfg s"
  shows "flow_inv cfg (producer_step cfg order s)"
proof (cases "producer s")
  case Resuming
  then show ?thesis using inv producer_change_inv [OF inv, of Submitting] by (simp add: producer_step_def producer_ok_def)
next
  case Submitting
  obtain free s1 where cap: "has_capacity cfg s = (free, s1)" by force
  note h = has_capacity_inv [OF inv Submitting cap]
  show ?thesis
  proof (cases free)
    case True
    then show ?thesis using submit_one_group_inv [OF h(1,2)] h(3,4) Submitting cap by (simp add: producer_step_def)
  next
    case False
    then show ?thesis using producer_change_inv [OF h(1), of Waiting] h(2,5) Submitting cap by (simp add: producer_step_def)
  qed
next
  case Waiting
  have ids: "\<exists>task. dget (active s) t = Some task \<and> outcome task \<noteq> None" if "t \<in> set (finished_tasks s)" for t
    using that inv by (auto simp: finished_tasks_def flow_inv_def gen_tasks_ok_def dget_in)
  have "producer_ok cfg (s\<lparr>producer := Collecting order\<rparr>)" if "distinct order" "set order = set (finished_tasks s)"
    using that ids by (simp add: producer_ok_def)
  moreover have "producer_ok cfg (s\<lparr>producer := Dead ValueError\<rparr>)" by (simp add: producer_ok_def)
  ultimately have "distinct order \<Longrightarrow> set order = set (finished_tasks s) \<Longrightarrow> flow_inv cfg (s\<lparr>producer := Collecting order\<rparr>)"
    "flow_inv cfg (s\<lparr>producer := Dead ValueError\<rparr>)"
    using Waiting inv producer_change_inv [OF inv, of "Collecting order"] producer_change_inv [OF inv, of "Dead ValueError"] by simp_all
  then show ?thesis using Waiting inv unfolding producer_step_def by (simp only: producer.case split: if_split) blast
next
  case (Collecting ts)
  show ?thesis
  proof (cases ts)
    case Nil
    then show ?thesis using inv Collecting producer_change_inv [OF inv, of Resuming] by (simp add: producer_step_def producer_ok_def)
  next
    case (Cons t ts')
    then show ?thesis using collect_one_inv [OF inv] Collecting by (simp add: producer_step_def)
  qed
next
  case (Putting inp ts)
  have "flow_inv cfg (s\<lparr>buffer := buffer s @ [inp], producer := Collecting ts\<rparr>)" if "length (buffer s) < capacity cfg"
    using inv Putting that
    by (auto simp: flow_inv_def conserved_def held_def finished_entries_def gen_tasks_ok_def producer_ok_def groups_ok_def ac_simps)
  then show ?thesis using Putting inv by (simp add: producer_step_def)
qed (use inv in \<open>simp_all add: producer_step_def\<close>)

subsection \<open>The consumer\<close>

lemma take_group_inv:
  assumes inv: "flow_inv cfg s" and co: "consumer s = Draining current data" and few: "length data < rollout_batch_size cfg"
  shows "flow_inv cfg (take_group cfg current data s)"
proof (cases "buffer s")
  case (Cons inp rest)
  have ok: "flow_config_ok cfg" "conserved cfg s" "gen_tasks_ok cfg s" "producer_ok cfg s" "groups_ok cfg s"
    using inv by (auto simp: flow_inv_def)
  have entry: "group_entry_ok cfg inp" using ok(5) Cons by (auto simp: groups_ok_def finished_entries_def)
  have len: "length (prompt_group inp) = group_size cfg"
    by (rule held_length [OF ok(2)]) (simp add: held_def finished_entries_def Cons)
  then have flen: "length (finished inp) = group_size cfg" using entry by (simp add: group_entry_ok_def)
  let ?s = "s\<lparr>buffer := rest\<rparr>"
  have moved: "flow_inv cfg (?s\<lparr>consumer := c\<rparr>)"
    if "consumer_entries c = data @ [inp]" "\<And>v d. c = Draining v d \<Longrightarrow> v = current \<and> d = data @ [inp] \<and> fresh_enough cfg current inp" for c
  proof -
    have "mset (map group_key (held (?s\<lparr>consumer := c\<rparr>))) = mset (map group_key (held s))"
      using that(1) co Cons by (simp add: held_def finished_entries_def)
    then have "conserved cfg (?s\<lparr>consumer := c\<rparr>)" using ok(2) by (simp add: conserved_def)
    moreover have "groups_ok cfg (?s\<lparr>consumer := c\<rparr>)"
      using that co Cons ok(5) few by (cases c) (auto simp: groups_ok_def finished_entries_def)
    ultimately show ?thesis using ok by (simp add: flow_inv_def gen_tasks_ok_def producer_ok_def)
  qed
  show ?thesis
  proof (cases "group_staleness (finished inp) current")
    case (Inl e)
    then show ?thesis using moved [of "Failed e (data @ [inp])"] Cons by (simp add: take_group_def fail_def)
  next
    case (Inr lag)
    let ?stale = "case (lag, max_weight_staleness cfg) of (Some l, Some m) \<Rightarrow> m < l | _ \<Rightarrow> False"
    show ?thesis
    proof (cases ?stale)
      case True
      obtain s2 where h: "handle_unused cfg (prompt_group inp) (?s\<lparr>stale_groups := stale_groups s + 1\<rparr>) = (s2, Inr ())"
        "leaves_pipeline (prompt_group inp) ?s s2"
        using handle_unused_leaves [OF len, of "?s\<lparr>stale_groups := stale_groups s + 1\<rparr>"] by (auto simp: leaves_counters)
      have "mset (map group_key (held s)) = add_mset (group_key (prompt_group inp)) (mset (map group_key (held ?s)))"
        by (simp add: held_def finished_entries_def Cons)
      then have "conserved cfg s2" using ok(2) leaves_held [OF h(2)] leaves_keeps [OF h(2)] by (simp add: conserved_def)
      moreover have "groups_ok cfg ?s" "gen_tasks_ok cfg ?s" "producer_ok cfg ?s"
        using ok(3-5) Cons by (auto simp: groups_ok_def finished_entries_def gen_tasks_ok_def producer_ok_def)
      then have "groups_ok cfg s2" "gen_tasks_ok cfg s2" "producer_ok cfg s2" by (simp_all only: leaves_ok [OF h(2)])
      ultimately show ?thesis using ok(1) True Inr Cons h(1) by (simp add: take_group_def flow_inv_def)
    next
      case False
      then have "fresh_enough cfg current inp" using Inr by (auto simp: fresh_enough_def split: option.splits)
      with moved [of "Draining current (data @ [inp])"] show ?thesis
        using False Inr Cons flen by (simp add: take_group_def del: not_None_eq)
    qed
  qed
qed (use inv in \<open>simp add: take_group_def\<close>)

lemma consumer_step_inv:
  assumes inv: "flow_inv cfg s"
  shows "flow_inv cfg (consumer_step cfg s)"
proof (cases "consumer s")
  case (Draining current data)
  have failed: "flow_inv cfg (fail e data s)" for e
    using inv Draining
    by (simp add: flow_inv_def fail_def conserved_def held_def finished_entries_def gen_tasks_ok_def producer_ok_def groups_ok_def)
  show ?thesis
  proof (cases "rollout_batch_size cfg \<le> length data")
    case full: True
    show ?thesis
    proof (cases "sort_batch data")
      case (Inr b)
      let ?s = "s\<lparr>consumer := Idle, delivered := delivered s @ [(current, b)]\<rparr>"
      note b = sort_batch_ok [OF Inr]
      have sb: "set b = set data" "length b = length data" using b(1) by (metis set_mset_mset, metis size_mset)
      have "conserved cfg ?s" using inv b(1) Draining
        by (simp add: flow_inv_def conserved_def held_def finished_entries_def ac_simps)
      moreover have "groups_ok cfg ?s" using inv b(2) sb full Draining
        by (auto simp: flow_inv_def groups_ok_def finished_entries_def batch_ok_def list_all_iff)
      ultimately show ?thesis using inv full Inr Draining
        by (simp add: consumer_step_def flow_inv_def gen_tasks_ok_def producer_ok_def)
    qed (use Draining full failed in \<open>simp add: consumer_step_def\<close>)
  next
    case False
    then show ?thesis using Draining failed take_group_inv [OF inv Draining] by (cases "producer s") (simp_all add: consumer_step_def)
  qed
qed (use inv in \<open>simp_all add: consumer_step_def\<close>)

subsection \<open>All runs\<close>

lemma call_train_inv: "flow_inv cfg s \<Longrightarrow> flow_inv cfg (call_train v s)"
  by (auto simp: flow_inv_def call_train_def conserved_def held_def finished_entries_def gen_tasks_ok_def producer_ok_def groups_ok_def)

lemma dispose_inv:
  assumes "flow_inv cfg s"
  shows "flow_inv cfg (flow_step cfg s Dispose)"
proof (cases "producer s")
  case (Putting inp ts)
  then show ?thesis using assms
    by (auto simp: flow_inv_def conserved_def held_def finished_entries_def drop_group_def gen_tasks_ok_def producer_ok_def groups_ok_def)
qed (use assms in \<open>auto simp: flow_inv_def conserved_def held_def finished_entries_def gen_tasks_ok_def producer_ok_def groups_ok_def\<close>)

lemma flow_step_inv: "flow_inv cfg s \<Longrightarrow> flow_inv cfg (flow_step cfg s e)"
proof (cases e)
  case Dispose
  then show "flow_inv cfg s \<Longrightarrow> flow_inv cfg (flow_step cfg s e)" using dispose_inv by metis
qed (simp_all add: call_train_inv consumer_step_inv producer_step_inv sample_finishes_inv task_ends_inv,
    simp_all add: flow_inv_def conserved_def held_def finished_entries_def gen_tasks_ok_def producer_ok_def groups_ok_def)

interpretation flow: machine "flow_step cfg" "flow_inv cfg" for cfg
  by unfold_locales (rule flow_step_inv)

lemma flow_init_inv: "flow_config_ok cfg \<Longrightarrow> flow_inv cfg (flow_init cfg prompts)"
  by (simp add: flow_inv_def flow_init_def conserved_def held_def finished_entries_def gen_tasks_ok_def producer_ok_def
      groups_ok_def new_data_source_def issued_def)

lemma flow_run_inv: "flow_config_ok cfg \<Longrightarrow> flow_inv cfg (flow_run cfg prompts events)"
  unfolding flow_run_def by (intro flow.inv_run flow_init_inv)

section \<open>Properties\<close>

definition sample_flow_config :: flow_config where
  "sample_flow_config = \<lparr> source_args = \<lparr> rollout_shuffle = False, n_samples_per_prompt = 1, epoch_order = (\<lambda>e n. [0..<n]) \<rparr>,
     rollout_batch_size = 1, async_max_concurrent_samples = None, sample_backfill = True, capacity = 1,
     max_weight_staleness = Some 1, retry_unused = True, reward_key = None, dynamic_sampling_filter = None \<rparr>"

definition sample_answer :: "int \<Rightarrow> string \<Rightarrow> sample_status \<Rightarrow> sample" where
  "sample_answer i v st = new_sample\<lparr> group_index := Some i, sample_index := Some i, status := st, reward := JInt 1,
     weight_versions := [[\<lparr> version = v, abs_start = 0, abs_end = 2 \<rparr>]] \<rparr>"

text \<open>The first group is aborted and generated again; the second answer is fresh enough.\<close>

definition sample_flow_events :: "flow_event list" where
  "sample_flow_events = (let pg = [sample_answer 0 ''1'' PENDING] in
     [Call (Some 2), Produce [], Produce [], Produce [], SampleEnds 0, TaskEnds 0 pg (Finished [One (sample_answer 0 ''1'' ABORTED)]),
      Produce [0], Produce [], Produce [], Produce [], Produce [], Produce [], SampleEnds 1,
      TaskEnds 1 pg (Finished [One (sample_answer 0 ''1'' COMPLETED)]), Produce [1], Produce [], Produce [], Consume, Consume])"

lemma sample_flow_config_ok: "flow_config_ok sample_flow_config"
  by (simp add: flow_config_ok_def sample_flow_config_def)

lemma sample_flow_result:
  "let s = flow_run sample_flow_config [new_sample] sample_flow_events in
     map (\<lambda>(c, b). (c, map (map sample_index \<circ> iter_samples \<circ> finished) b)) (delivered s) = [(Some 2, [[Some 0]])]
     \<and> aborted_groups s = 1 \<and> next_group_index (source s) = 1 \<and> buffer s = [] \<and> active s = []"
  by code_simp

abbreviation sample_run :: flow_state where
  "sample_run \<equiv> flow_run sample_flow_config [new_sample] sample_flow_events"

text \<open>
  C9: in every reachable state of the asynchronous rollout, each group handed out by the data source is in
  exactly one place: waiting to be generated again, being generated, on its way into the buffer, in the buffer,
  in the batch being drained, delivered, or dropped.  In particular no group is delivered twice.
\<close>

theorem rollout_groups_are_conserved:
  assumes "flow_config_ok cfg"
  shows "let s = flow_run cfg prompts events in
    mset (map group_key (held s)) = mset (issued (group_size cfg) (next_group_index (source s)))
    \<and> distinct (map group_key (held s))
    \<and> distinct (map (group_key \<circ> prompt_group) (concat (map snd (delivered s))))"
proof -
  let ?s = "flow_run cfg prompts events"
  have "conserved cfg ?s" using flow_run_inv [OF assms] by (simp add: flow_inv_def)
  then have m: "mset (map group_key (held ?s)) = mset (issued (group_size cfg) (next_group_index (source ?s)))"
    by (simp only: conserved_def)
  moreover have d: "distinct (map group_key (held ?s))"
    using mset_eq_imp_distinct_iff [OF m] distinct_issued assms by (simp add: flow_config_ok_def)
  moreover have "distinct (map (group_key \<circ> prompt_group) (concat (map snd (delivered ?s))))"
    using d by (simp add: held_def finished_entries_def distinct_map comp_inj_on_iff inj_on_Un comp_def)
  ultimately show ?thesis by (simp only: Let_def)
qed

lemma rollout_groups_are_conserved_witness:
  "mset (map group_key (held sample_run)) = {#[Some 0]#} \<and> length (delivered sample_run) = 1"
proof -
  have "next_group_index (source sample_run) = 1" "length (delivered sample_run) = 1"
    using sample_flow_result by (auto simp: Let_def)
  moreover have "issued (group_size sample_flow_config) 1 = [[Some 0]]"
    by (simp add: issued_def sample_flow_config_def)
  ultimately show ?thesis
    using rollout_groups_are_conserved [OF sample_flow_config_ok, of "[new_sample]" sample_flow_events] by (simp add: Let_def)
qed

text \<open>
  C10: every delivered batch has the requested number of groups in the order of their indices; each group is
  complete, has no aborted sample and no sample without a reward, and holds no token generated by weights
  older than the staleness limit allows at the version it was drained for.
\<close>

theorem delivered_batches_are_fresh:
  assumes "flow_config_ok cfg" "(current, b) \<in> set (delivered (flow_run cfg prompts events))" "inp \<in> set b"
  shows "length b = rollout_batch_size cfg \<and> in_index_order b \<and> length (finished inp) = group_size cfg
    \<and> (\<forall>s\<in>set (iter_samples (finished inp)). status s \<noteq> ABORTED \<and> reward_missing (reward_key cfg) s = Inr False
        \<and> (\<forall>sp\<in>set (concat (weight_versions s)). \<forall>v c m.
             span_version sp = Some v \<and> current = Some c \<and> max_weight_staleness cfg = Some m \<longrightarrow> c - v \<le> m))"
proof -
  let ?s = "flow_run cfg prompts events"
  have inv: "conserved cfg ?s" "groups_ok cfg ?s" using flow_run_inv [OF assms(1)] by (auto simp: flow_inv_def)
  have batch: "batch_ok cfg current b" using inv(2) assms(2) by (auto simp: groups_ok_def)
  have here: "inp \<in> set (finished_entries ?s)" using assms(2,3) by (force simp: finished_entries_def)
  then have entry: "group_entry_ok cfg inp" using inv(2) by (simp add: groups_ok_def)
  have "length (prompt_group inp) = group_size cfg" by (rule held_length [OF inv(1)]) (use here in \<open>simp add: held_def\<close>)
  then have len: "length (finished inp) = group_size cfg" using entry by (simp add: group_entry_ok_def)
  obtain out where out: "apply_preput_filters (dynamic_sampling_filter cfg) (reward_key cfg) (finished inp) = Inr out" "keep out"
    using entry by (auto simp: group_entry_ok_def split: sum.splits)
  have "fresh_enough cfg current inp" using batch assms(3) by (simp add: batch_ok_def list_all_iff)
  then obtain lag where lag: "group_staleness (finished inp) current = Inr lag"
    "case (lag, max_weight_staleness cfg) of (Some l, Some m) \<Rightarrow> l \<le> m | _ \<Rightarrow> True"
    by (auto simp: fresh_enough_def split: sum.splits)
  have "c - v \<le> m" if "s \<in> set (iter_samples (finished inp))" "sp \<in> set (concat (weight_versions s))"
    "span_version sp = Some v" "current = Some c" "max_weight_staleness cfg = Some m" for s sp v c m
    using group_staleness_bounds [OF _ that(1-3), of c lag] lag that(4,5) by auto
  then show ?thesis using batch len preput_keep(1,2) [OF out] by (auto simp: batch_ok_def)
qed

lemma delivered_batches_are_fresh_witness:
  "list_all (\<lambda>(c, b). length b = 1 \<and> in_index_order b) (delivered sample_run) \<and> delivered sample_run \<noteq> []"
proof -
  obtain c inp where d: "delivered sample_run = [(c, [inp])]" using sample_flow_result by (auto simp: Let_def)
  then show ?thesis
    using delivered_batches_are_fresh [OF sample_flow_config_ok, of c "[inp]" "[new_sample]" sample_flow_events inp] by simp
qed

text \<open>
  C21: the buffer never exceeds its capacity, and the scheduler's account is exact: under sample backfill it
  counts the samples that still run, which never exceed the budget of groups times the group size; under group
  submission the groups being generated never exceed the budget.
\<close>

theorem rollout_stays_within_bounds:
  assumes "flow_config_ok cfg"
  shows "let s = flow_run cfg prompts events in length (buffer s) \<le> capacity cfg
    \<and> (if sample_backfill cfg
       then samples_in_flight s = int (load (active s)) \<and> load (active s) \<le> max_in_flight_groups cfg * group_size cfg
       else length (active s) \<le> max_in_flight_groups cfg)"
  using flow_run_inv [OF assms, of prompts events] by (auto simp: flow_inv_def gen_tasks_ok_def groups_ok_def Let_def)

lemma rollout_stays_within_bounds_witness:
  "let s = flow_run sample_flow_config [new_sample] (take 4 sample_flow_events) in
     samples_in_flight s = int (load (active s)) \<and> load (active s) \<le> 1 \<and> length (active s) = 1"
proof -
  have "length (active (flow_run sample_flow_config [new_sample] (take 4 sample_flow_events))) = 1" by code_simp
  then show ?thesis
    using rollout_stays_within_bounds [OF sample_flow_config_ok, of "[new_sample]" "take 4 sample_flow_events"]
    by (simp add: Let_def sample_flow_config_def max_in_flight_groups_def)
qed

subsection \<open>No deadlock\<close>

lemma handle_unused_producer [simp]: "producer (fst (handle_unused cfg pg s)) = producer s"
  by (simp add: handle_unused_def recycle_def drop_group_def split: prod.splits sum.splits)

lemma take_group_producer: "producer (take_group cfg current data s) = producer s"
proof (cases "buffer s")
  case (Cons inp rest)
  have "producer (case handle_unused cfg (prompt_group inp) t of (s2, Inl e) \<Rightarrow> s2\<lparr>consumer := Failed e data\<rparr> | (s2, Inr _) \<Rightarrow> s2) = producer t" for t
    using handle_unused_producer [of cfg "prompt_group inp" t]
    by (cases "handle_unused cfg (prompt_group inp) t") (simp split: sum.splits)
  then show ?thesis using Cons by (simp add: take_group_def fail_def Let_def split: sum.splits)
qed (simp add: take_group_def)

lemma handle_unused_buffer [simp]: "buffer (fst (handle_unused cfg pg s)) = buffer s"
  by (simp add: handle_unused_def recycle_def drop_group_def split: prod.splits sum.splits)

lemma take_group_buffer:
  assumes "buffer s = inp # rest"
  shows "buffer (take_group cfg current data s) = rest"
proof -
  have "buffer (case handle_unused cfg (prompt_group inp) t of (s2, Inl e) \<Rightarrow> s2\<lparr>consumer := Failed e data\<rparr> | (s2, Inr _) \<Rightarrow> s2) = buffer t" for t
    using handle_unused_buffer [of cfg "prompt_group inp" t]
    by (cases "handle_unused cfg (prompt_group inp) t") (simp split: sum.splits)
  then show ?thesis using assms by (simp add: take_group_def fail_def Let_def split: sum.splits)
qed

lemma consumer_step_producer: "producer (consumer_step cfg s) = producer s"
  by (auto simp: consumer_step_def fail_def take_group_producer split: consumer.splits sum.splits producer.splits)

lemma collect_one_moves:
  assumes "producer s = Collecting (t # ts)" "dget (active s) t = Some task"
  shows "producer (collect_one cfg t ts s) \<in> {Collecting ts} \<union> range Dead \<union> range (\<lambda>inp. Putting inp ts)"
  using assms by (simp add: collect_one_def Let_def split: sum.splits prod.splits)

lemma producer_step_started:
  assumes "producer s \<noteq> NotStarted" "flow_inv cfg s"
  shows "producer (producer_step cfg order s) \<noteq> NotStarted"
proof (cases "producer s")
  case Submitting
  then show ?thesis
    by (auto simp: producer_step_def has_capacity_def submit_one_group_def on_submit_def Let_def split: prod.splits list.splits)
next
  case (Collecting ts)
  show ?thesis
  proof (cases ts)
    case (Cons t ts')
    then obtain task where "dget (active s) t = Some task" using assms(2) Collecting by (auto simp: flow_inv_def producer_ok_def)
    with collect_one_moves [OF Collecting [unfolded Cons], of task cfg] show ?thesis using Collecting Cons by (auto simp: producer_step_def)
  qed (use Collecting in \<open>simp add: producer_step_def\<close>)
qed (use assms in \<open>simp_all add: producer_step_def\<close>)

definition started :: "flow_state \<Rightarrow> bool" where
  "started s \<longleftrightarrow> (producer s = NotStarted \<longrightarrow> consumer s = Idle)"

lemma started_step:
  assumes "started s" "flow_inv cfg s"
  shows "started (flow_step cfg s e)"
proof (cases "producer s = NotStarted")
  case True
  then have "consumer s = Idle" using assms(1) by (simp add: started_def)
  with True show ?thesis
    by (cases e) (auto simp: started_def call_train_def consumer_step_def producer_step_def sample_finishes_def sample_done_callback_def
        task_ends_def split: option.splits)
next
  case False
  have "producer (flow_step cfg s e) \<noteq> NotStarted"
    using False producer_step_started [OF False assms(2)]
    by (cases e) (auto simp: call_train_def consumer_step_producer sample_finishes_def sample_done_callback_def task_ends_def
        drop_group_def split: option.splits producer.splits)
  then show ?thesis by (simp add: started_def)
qed

interpretation started: machine "flow_step cfg" "\<lambda>s. flow_inv cfg s \<and> started s" for cfg
  by unfold_locales (simp add: flow_step_inv started_step)

lemma flow_run_started: "flow_config_ok cfg \<Longrightarrow> started (flow_run cfg prompts events)"
  unfolding flow_run_def using started.inv_run [of cfg "flow_init cfg prompts" events] flow_init_inv
  by (simp add: started_def flow_init_def)

lemma budget_pos: "flow_config_ok cfg \<Longrightarrow> 0 < max_in_flight_groups cfg"
  by (auto simp: flow_config_ok_def max_in_flight_groups_def max_def split: option.splits)

lemma submitting_moves:
  assumes "producer s = Submitting"
  shows "producer_step cfg order s \<noteq> s"
proof (cases "has_capacity cfg s")
  case (Pair free s1)
  have s1: "producer s1 = Submitting" "active s1 = active s"
    using Pair assms by (auto simp: has_capacity_def Let_def split: if_splits)
  show ?thesis
  proof (cases free)
    case True
    obtain gs src where g: "get_samples (source_args cfg) 1 (source s1) = (gs, src)" by force
    have "submit_one_group cfg s1 \<noteq> s"
    proof (cases "\<exists>pg. gs = [pg]")
      case True
      then have "length (active (submit_one_group cfg s1)) = length (active s) + 1"
        using g s1 by (auto simp: submit_one_group_def on_submit_def)
      then show ?thesis by (metis Suc_eq_plus1 n_not_Suc_n)
    next
      case False
      then have "producer (submit_one_group cfg s1) = Dead ValueError"
        using g by (auto simp: submit_one_group_def on_submit_def Let_def split: list.splits)
      then show ?thesis using assms by auto
    qed
    then show ?thesis using assms Pair True by (simp add: producer_step_def)
  next
    case False
    then have "producer (producer_step cfg order s) = Waiting" using assms Pair by (simp add: producer_step_def)
    then show ?thesis using assms by auto
  qed
qed

lemma waiting_moves:
  assumes inv: "flow_inv cfg s" and pc: "producer s = Waiting" and fin: "\<forall>(t, task)\<in>set (active s). outcome task \<noteq> None"
  shows "\<exists>order. producer_step cfg order s \<noteq> s"
proof -
  have ok: "gen_tasks_ok cfg s" "producer_ok cfg s" "flow_config_ok cfg" using inv by (auto simp: flow_inv_def)
  have all: "finished_tasks s = dkeys (active s)" using fin
    by (simp add: finished_tasks_def)
  have "distinct (dkeys (active s))" using ok(1) by (simp add: gen_tasks_ok_def dict_ok_def)
  moreover have "dkeys (active s) \<noteq> [] \<or> sample_backfill cfg \<and> sample_done s"
  proof (cases "active s")
    case Nil
    have "0 < max_in_flight_groups cfg * group_size cfg" using budget_pos [OF ok(3)] ok(3) by (simp add: flow_config_ok_def)
    then have "group_size cfg \<le> max_in_flight_groups cfg * group_size cfg" by simp
    then show ?thesis using ok(2) pc Nil budget_pos [OF ok(3)] by (auto simp: producer_ok_def split: if_splits)
  qed simp
  ultimately have "producer (producer_step cfg (dkeys (active s)) s) \<noteq> Waiting"
    using pc all by (auto simp: producer_step_def)
  then show ?thesis using pc by metis
qed

text \<open>
  C16: the rollout never deadlocks: while a step drains a batch and the producer has not failed, the consumer can
  take a group or finish the batch, or the producer can move, or a generation task still runs, or an evaluation holds
  the producer.  In particular no wakeup of the scheduler and no wakeup of the full buffer is lost.
\<close>

theorem rollout_never_deadlocks:
  assumes "flow_config_ok cfg" "consumer (flow_run cfg prompts events) = Draining current data"
    "\<forall>e. producer (flow_run cfg prompts events) \<noteq> Dead e"
  shows "let s = flow_run cfg prompts events in flow_step cfg s Consume \<noteq> s \<or> (\<exists>order. flow_step cfg s (Produce order) \<noteq> s)
    \<or> (\<exists>(t, task)\<in>set (active s). outcome task = None) \<or> \<not> resumed s"
proof -
  let ?s = "flow_run cfg prompts events"
  have inv: "flow_inv cfg ?s" by (rule flow_run_inv [OF assms(1)])
  have dom: "producer ?s \<noteq> NotStarted" using flow_run_started [OF assms(1)] assms(2) by (auto simp: started_def)
  have move: "\<exists>order. producer_step cfg order ?s \<noteq> ?s"
    if buffer: "buffer ?s = []" and fin: "\<forall>(t, task)\<in>set (active ?s). outcome task \<noteq> None" and res: "resumed ?s"
  proof (cases "producer ?s")
    case Resuming
    then have "producer (producer_step cfg [] ?s) = Submitting" using res by (simp add: producer_step_def)
    with Resuming have "producer (producer_step cfg [] ?s) \<noteq> producer ?s" by simp
      then show ?thesis by metis
  next
    case (Collecting ts)
    show ?thesis
    proof (cases ts)
      case Nil
      then have "producer (producer_step cfg [] ?s) = Resuming" using Collecting by (simp add: producer_step_def)
      with Collecting have "producer (producer_step cfg [] ?s) \<noteq> producer ?s" by simp
      then show ?thesis by metis
    next
      case (Cons t ts')
      then obtain task where "dget (active ?s) t = Some task" using inv Collecting by (auto simp: flow_inv_def producer_ok_def)
      from collect_one_moves [OF Collecting [unfolded Cons] this, of cfg] have "collect_one cfg t ts' ?s \<noteq> ?s"
        using Collecting Cons by auto
      then show ?thesis using Collecting Cons by (simp add: producer_step_def)
    qed
  next
    case (Putting inp ts)
    then have "producer (producer_step cfg [] ?s) = Collecting ts" using buffer assms(1)
      by (simp add: producer_step_def flow_config_ok_def)
    with Putting have "producer (producer_step cfg [] ?s) \<noteq> producer ?s" by simp
      then show ?thesis by metis
  qed (use dom assms(3) submitting_moves waiting_moves [OF inv _ fin] in auto)
  have "consumer_step cfg ?s \<noteq> ?s" if ne: "buffer ?s \<noteq> []"
  proof (cases "rollout_batch_size cfg \<le> length data")
    case True
    then have "consumer (consumer_step cfg ?s) \<noteq> Draining current data" using assms(2)
      by (auto simp: consumer_step_def fail_def split: sum.splits)
    then show ?thesis using assms(2) by metis
  next
    case False
    then have "consumer_step cfg ?s = take_group cfg current data ?s" using assms(2,3)
      by (simp add: consumer_step_def split: producer.splits)
    moreover obtain inp rest where "buffer ?s = inp # rest" using ne by (cases "buffer ?s") auto
    ultimately show ?thesis using take_group_buffer [of ?s inp rest cfg current data] by (metis not_Cons_self2)
  qed
  then show ?thesis using move by (cases "buffer ?s = []") (auto simp: Let_def case_prod_unfold)
qed

lemma rollout_never_deadlocks_witness:
  "\<exists>order. flow_step sample_flow_config (flow_run sample_flow_config [new_sample] [Call (Some 2)]) (Produce order)
     \<noteq> flow_run sample_flow_config [new_sample] [Call (Some 2)]"
proof -
  let ?s = "flow_run sample_flow_config [new_sample] [Call (Some 2)]"
  have "?s = (flow_init sample_flow_config [new_sample])\<lparr>producer := Resuming, consumer := Draining (Some 2) []\<rparr>"
    by (simp add: flow_run_def call_train_def flow_init_def)
  then have s: "consumer ?s = Draining (Some 2) []" "producer ?s = Resuming" "buffer ?s = []" "active ?s = []" "resumed ?s"
    by (simp_all add: flow_init_def)
  moreover have "flow_step sample_flow_config ?s Consume = ?s"
    using s(1-3) by (simp add: consumer_step_def take_group_def sample_flow_config_def)
  ultimately show ?thesis using rollout_never_deadlocks [OF sample_flow_config_ok s(1)] by (simp add: Let_def)
qed

section \<open>Several policies\<close>

text \<open>The buffers of several policies filter the parts of one group one after the other; their counters are kept together here.\<close>

fun preput_parts :: "flow_config \<Rightarrow> data_buffer_input list \<Rightarrow> flow_state \<Rightarrow> flow_state \<times> bool list res" where
  "preput_parts cfg [] s = (s, Inr [])"
| "preput_parts cfg (p # ps) s = (case preput_filter cfg p s of
       (s1, Inl e) \<Rightarrow> (s1, Inl e)
     | (s1, Inr b) \<Rightarrow> (let (s2, r) = preput_parts cfg ps s1 in (s2, rbind r (\<lambda>bs. Inr (b # bs)))))"

definition multi_put_filter :: "flow_config \<Rightarrow> data_buffer_input \<Rightarrow> flow_state \<Rightarrow> flow_state \<times> bool list res" where
  "multi_put_filter cfg inp s = (case split_by_trainer_model_id inp of
       Inl e \<Rightarrow> (s, Inl e)
     | Inr parts \<Rightarrow> preput_parts cfg (map snd parts) s)"

text \<open>A group aborted for two policies is recycled twice.\<close>

lemma aborted_group_recycled_twice:
  "let (s, r) = multi_put_filter sample_flow_config two_policies (flow_init sample_flow_config [])
   in map (map sample_index) (retry_buffer (source s)) = [[None], [None]] \<and> aborted_groups s = 2"
  by code_simp

end
