(* ===== verification/Reconcile.thy ===== *)
theory Reconcile
  imports Prelude "HOL-Library.List_Lexorder" "HOL-Library.Char_ord"
begin

text \<open>
  The level-triggered reconcile loop of \<open>utils/workers/reconcile\<close>: the object store
  (\<open>object_store.py\<close>), the work queue, the retry scheduler, the stream driver and the
  loop itself as one state machine, the Kubernetes reflector that feeds it, and the polling
  variant.  The main fact is that no change is lost: when the queue is empty, no retry is
  pending and nothing is being reconciled, every parent was last reconciled against the
  current objects.
\<close>

section \<open>The object store\<close>

datatype 'o source_event =
    UpsertEvent string 'o
  | DeleteEvent string "'o option"
  | ReplaceEvent "(string, 'o) dict"

record 'o cached_object =
  cached_obj :: 'o
  cached_parent :: string

type_synonym 'o object_store = "(string, 'o cached_object) dict"

text \<open>The client's key function; without one an object is its own parent.\<close>

type_synonym 'o key_map = "('o \<Rightarrow> string option res) option"

text \<open>A failing key function is logged and the object dropped.\<close>

definition parent_key_or_none :: "'o key_map \<Rightarrow> string \<Rightarrow> 'o \<Rightarrow> string option" where
  "parent_key_or_none km key obj = (case km of
       None \<Rightarrow> Some key
     | Some f \<Rightarrow> (case f obj of Inl _ \<Rightarrow> None | Inr p \<Rightarrow> p))"

definition get_by_parent :: "'o object_store \<Rightarrow> string \<Rightarrow> 'o list" where
  "get_by_parent cache p = map (\<lambda>k. cached_obj (the (dget cache k)))
     (filter (\<lambda>k. cached_parent (the (dget cache k)) = p) (sort (dkeys cache)))"

definition parent_keys :: "'o object_store \<Rightarrow> string set" where
  "parent_keys cache = (\<lambda>e. cached_parent (snd e)) ` set cache"

definition apply_upsert :: "'o object_store \<Rightarrow> string \<Rightarrow> 'o \<Rightarrow> string \<Rightarrow> 'o object_store \<times> string set" where
  "apply_upsert cache key obj p =
     (dset cache key \<lparr> cached_obj = obj, cached_parent = p \<rparr>,
      (case dget cache key of None \<Rightarrow> {p} | Some previous \<Rightarrow> {p, cached_parent previous}))"

definition apply_delete :: "'o key_map \<Rightarrow> 'o object_store \<Rightarrow> string \<Rightarrow> 'o option \<Rightarrow> 'o object_store \<times> string set" where
  "apply_delete km cache key last_obj =
     (ddel cache key,
      (case dget cache key of
         Some removed \<Rightarrow> {cached_parent removed}
       | None \<Rightarrow> (case last_obj of
           None \<Rightarrow> {}
         | Some obj \<Rightarrow> (case parent_key_or_none km key obj of None \<Rightarrow> {} | Some p \<Rightarrow> {p}))))"

definition handle_upsert :: "'o key_map \<Rightarrow> 'o object_store \<Rightarrow> string \<Rightarrow> 'o \<Rightarrow> 'o object_store \<times> string set" where
  "handle_upsert km cache key obj = (case parent_key_or_none km key obj of
       Some p \<Rightarrow> apply_upsert cache key obj p
     | None \<Rightarrow> (case dget cache key of None \<Rightarrow> (cache, {}) | Some _ \<Rightarrow> apply_delete km cache key None))"

text \<open>Replacing the whole world: upsert what maps to a parent, then delete what is gone.\<close>

definition mapped_objects :: "'o key_map \<Rightarrow> (string, 'o) dict \<Rightarrow> (string \<times> 'o \<times> string) list" where
  "mapped_objects km objs = List.map_filter (\<lambda>(k, obj). map_option (\<lambda>p. (k, obj, p)) (parent_key_or_none km k obj)) objs"

definition upsert_step :: "'o object_store \<times> string set \<Rightarrow> string \<times> 'o \<times> string \<Rightarrow> 'o object_store \<times> string set" where
  "upsert_step st x = (case x of (key, obj, p) \<Rightarrow>
     (let (cache, affected) = st; (cache', more) = apply_upsert cache key obj p in (cache', affected \<union> more)))"

definition delete_step :: "'o key_map \<Rightarrow> 'o object_store \<times> string set \<Rightarrow> string \<Rightarrow> 'o object_store \<times> string set" where
  "delete_step km st key =
     (let (cache, affected) = st; (cache', more) = apply_delete km cache key None in (cache', affected \<union> more))"

definition handle_replace :: "'o key_map \<Rightarrow> 'o object_store \<Rightarrow> (string, 'o) dict \<Rightarrow> 'o object_store \<times> string set" where
  "handle_replace km cache objs =
     (let mapped = mapped_objects km objs; st = foldl upsert_step (cache, {}) mapped in
      foldl (delete_step km) st (filter (\<lambda>k. k \<notin> set (map fst mapped)) (dkeys (fst st))))"

definition handle_event :: "'o key_map \<Rightarrow> 'o object_store \<Rightarrow> 'o source_event \<Rightarrow> 'o object_store \<times> string set" where
  "handle_event km cache e = (case e of
       ReplaceEvent objs \<Rightarrow> handle_replace km cache objs
     | UpsertEvent key obj \<Rightarrow> handle_upsert km cache key obj
     | DeleteEvent key last_obj \<Rightarrow> apply_delete km cache key last_obj)"

text \<open>The source's world, and what of it the store is meant to hold.\<close>

definition world_event :: "(string \<rightharpoonup> 'o) \<Rightarrow> 'o source_event \<Rightarrow> (string \<rightharpoonup> 'o)" where
  "world_event w e = (case e of
       ReplaceEvent objs \<Rightarrow> map_of objs
     | UpsertEvent key obj \<Rightarrow> w(key \<mapsto> obj)
     | DeleteEvent key _ \<Rightarrow> w(key := None))"

definition attributed :: "'o key_map \<Rightarrow> (string \<rightharpoonup> 'o) \<Rightarrow> (string \<rightharpoonup> 'o cached_object)" where
  "attributed km w k = (case w k of
       None \<Rightarrow> None
     | Some obj \<Rightarrow> map_option (\<lambda>p. \<lparr> cached_obj = obj, cached_parent = p \<rparr>) (parent_key_or_none km k obj))"

text \<open>The part of a store that a parent sees.\<close>

definition owned_by :: "string \<Rightarrow> 'o cached_object option \<Rightarrow> 'o option" where
  "owned_by p entry = (case entry of
       None \<Rightarrow> None | Some e \<Rightarrow> if cached_parent e = p then Some (cached_obj e) else None)"

definition seen_by :: "'o object_store \<Rightarrow> string \<Rightarrow> string \<Rightarrow> 'o option" where
  "seen_by cache p k = owned_by p (dget cache k)"

lemma owned_by_simps [simp]:
  "owned_by p None = None"
  "owned_by p (Some e) = (if cached_parent e = p then Some (cached_obj e) else None)"
  by (simp_all add: owned_by_def)

lemma seen_by_update:
  assumes "dget cache' = (dget cache)(key := entry)" "owned_by p entry = owned_by p (dget cache key)"
  shows "seen_by cache' p = seen_by cache p"
  using assms by (simp add: seen_by_def fun_eq_iff)

lemma get_by_parent_seen:
  assumes "dict_ok cache"
  shows "get_by_parent cache p = map (\<lambda>k. the (seen_by cache p k)) (sorted_list_of_set {k. seen_by cache p k \<noteq> None})"
proof -
  let ?P = "\<lambda>k. cached_parent (the (dget cache k)) = p"
  let ?L = "filter ?P (sort (dkeys cache))"
  have some: "k \<in> set (dkeys cache) \<longleftrightarrow> dget cache k \<noteq> None" for k by (simp add: map_of_eq_None_iff)
  have mem: "k \<in> set ?L \<longleftrightarrow> seen_by cache p k \<noteq> None" for k
    using some [of k] by (cases "dget cache k") (auto simp: seen_by_def)
  have "sorted_list_of_set (set ?L) = ?L"
    using assms by (intro sorted_list_of_set.idem_if_sorted_distinct) (simp_all add: dict_ok_def sorted_wrt_filter)
  moreover have "set ?L = {k. seen_by cache p k \<noteq> None}" using mem by blast
  ultimately have L: "sorted_list_of_set {k. seen_by cache p k \<noteq> None} = ?L" by simp
  have "map (\<lambda>k. cached_obj (the (dget cache k))) ?L = map (\<lambda>k. the (seen_by cache p k)) ?L"
  proof (rule map_cong [OF refl])
    fix k assume "k \<in> set ?L"
    then have "dget cache k \<noteq> None" "?P k" using some [of k] by auto
    then show "cached_obj (the (dget cache k)) = the (seen_by cache p k)" by (auto simp: seen_by_def)
  qed
  then show ?thesis unfolding L get_by_parent_def .
qed

lemma get_by_parent_cong:
  assumes "dict_ok c" "dict_ok c'" "seen_by c p = seen_by c' p"
  shows "get_by_parent c p = get_by_parent c' p"
  unfolding get_by_parent_seen [OF assms(1)] get_by_parent_seen [OF assms(2)] assms(3) ..

lemma apply_upsert_facts:
  assumes "apply_upsert cache key obj p = (cache', affected)"
  shows "dict_ok cache \<Longrightarrow> dict_ok cache'" "dget cache' = (dget cache)(key \<mapsto> \<lparr> cached_obj = obj, cached_parent = p \<rparr>)"
    "q \<notin> affected \<Longrightarrow> seen_by cache' q = seen_by cache q"
proof -
  have c: "cache' = dset cache key \<lparr> cached_obj = obj, cached_parent = p \<rparr>"
    and a: "affected = (case dget cache key of None \<Rightarrow> {p} | Some previous \<Rightarrow> {p, cached_parent previous})"
    using assms by (simp_all add: apply_upsert_def)
  show "dict_ok cache \<Longrightarrow> dict_ok cache'" by (simp add: c)
  show d: "dget cache' = (dget cache)(key \<mapsto> \<lparr> cached_obj = obj, cached_parent = p \<rparr>)" by (simp add: c fun_eq_iff)
  show "seen_by cache' q = seen_by cache q" if "q \<notin> affected"
    using that by (intro seen_by_update [OF d]) (cases "dget cache key"; auto simp: a)
qed

lemma apply_delete_facts:
  assumes "apply_delete km cache key last_obj = (cache', affected)"
  shows "dict_ok cache \<Longrightarrow> dict_ok cache'" "dget cache' = (dget cache)(key := None)"
    "q \<notin> affected \<Longrightarrow> seen_by cache' q = seen_by cache q"
proof -
  have c: "cache' = ddel cache key"
    and a: "dget cache key = Some removed \<Longrightarrow> affected = {cached_parent removed}" for removed
    using assms by (simp_all add: apply_delete_def)
  show "dict_ok cache \<Longrightarrow> dict_ok cache'" by (simp add: c)
  show d: "dget cache' = (dget cache)(key := None)" by (simp add: c fun_eq_iff)
  show "seen_by cache' q = seen_by cache q" if "q \<notin> affected"
    using that by (intro seen_by_update [OF d]) (cases "dget cache key"; auto simp: a)
qed

lemma upsert_step_eq:
  "apply_upsert c key obj p = (c', m) \<Longrightarrow> upsert_step (c, a) (key, obj, p) = (c', a \<union> m)"
  by (simp add: upsert_step_def)

lemma delete_step_eq: "apply_delete km c key None = (c', m) \<Longrightarrow> delete_step km (c, a) key = (c', a \<union> m)"
  by (simp add: delete_step_def)

lemma upsert_fold_facts:
  assumes "foldl upsert_step (cache, a) xs = (cache', affected)"
  shows "(dict_ok cache \<longrightarrow> dict_ok cache') \<and> a \<subseteq> affected
    \<and> dget cache' = dget cache ++ map_of (rev (map (\<lambda>(k, obj, p). (k, \<lparr> cached_obj = obj, cached_parent = p \<rparr>)) xs))
    \<and> (\<forall>q. q \<notin> affected \<longrightarrow> seen_by cache' q = seen_by cache q)"
  using assms
proof (induction xs arbitrary: cache' affected rule: rev_induct)
  case (snoc x xs)
  obtain c1 a1 where one: "foldl upsert_step (cache, a) xs = (c1, a1)" by fastforce
  obtain key obj p where x: "x = (key, obj, p)" by (cases x)
  obtain c2 a2 where two: "apply_upsert c1 key obj p = (c2, a2)" by fastforce
  have res: "cache' = c2" "affected = a1 \<union> a2" using snoc.prems one upsert_step_eq [OF two] x by simp_all
  show ?case
    using snoc.IH [OF one] apply_upsert_facts [OF two] res x by (auto simp: fun_eq_iff map_add_def)
qed simp

lemma delete_fold_facts:
  assumes "foldl (delete_step km) (cache, a) ks = (cache', affected)"
  shows "(dict_ok cache \<longrightarrow> dict_ok cache') \<and> a \<subseteq> affected
    \<and> dget cache' = (\<lambda>k. if k \<in> set ks then None else dget cache k)
    \<and> (\<forall>q. q \<notin> affected \<longrightarrow> seen_by cache' q = seen_by cache q)"
  using assms
proof (induction ks arbitrary: cache' affected rule: rev_induct)
  case (snoc key ks)
  obtain c1 a1 where one: "foldl (delete_step km) (cache, a) ks = (c1, a1)" by fastforce
  obtain c2 a2 where two: "apply_delete km c1 key None = (c2, a2)" by fastforce
  have res: "cache' = c2" "affected = a1 \<union> a2" using snoc.prems one delete_step_eq [OF two] by simp_all
  show ?case
    using snoc.IH [OF one] apply_delete_facts [OF two] res by (auto simp: fun_eq_iff)
qed simp

lemma mapped_objects_facts:
  assumes "dict_ok objs"
  shows "distinct (map fst (mapped_objects km objs))"
    "map_of (rev (map (\<lambda>(k, obj, p). (k, \<lparr> cached_obj = obj, cached_parent = p \<rparr>)) (mapped_objects km objs)))
      = attributed km (map_of objs)"
    "set (map fst (mapped_objects km objs)) = dom (attributed km (map_of objs))"
proof -
  let ?f = "\<lambda>(k, obj, p). (k, \<lparr> cached_obj = obj, cached_parent = p \<rparr>)"
  let ?m = "map ?f (mapped_objects km objs)"
  have fst: "map fst ?m = map fst (mapped_objects km objs)" by (simp add: comp_def case_prod_beta)
  have sub: "set (map fst (mapped_objects km objs)) \<subseteq> set (dkeys objs)" for objs :: "(string, 'a) dict"
    by (auto simp: mapped_objects_def List.map_filter_def) force
  show d: "distinct (map fst (mapped_objects km objs))" using assms
  proof (induction objs)
    case (Cons x objs)
    then show ?case using sub [of objs]
      by (cases x) (auto simp: mapped_objects_def List.map_filter_simps dict_ok_def split: option.splits)
  qed (simp add: mapped_objects_def List.map_filter_simps)
  have "map_of ?m = attributed km (map_of objs)" using assms
  proof (induction objs)
    case Nil
    show ?case by (simp add: mapped_objects_def List.map_filter_simps attributed_def fun_eq_iff)
  next
    case (Cons x objs)
    obtain k obj where x: "x = (k, obj)" by (cases x)
    have ok: "dict_ok objs" "k \<notin> set (dkeys objs)" using Cons.prems x by (auto simp: dict_ok_def)
    then have none: "map_of (map ?f (mapped_objects km objs)) k = None"
      using sub [of objs] by (force simp: map_of_eq_None_iff)
    show ?case
    proof
      fix q
      show "map_of (map ?f (mapped_objects km (x # objs))) q = attributed km (map_of (x # objs)) q"
        using Cons.IH [OF ok(1), THEN fun_cong, of q] none x
        by (cases "q = k") (auto simp: mapped_objects_def List.map_filter_simps attributed_def split: option.splits)
    qed
  qed
  moreover have "map_of (rev ?m) = map_of ?m" using d unfolding fst [symmetric] by (rule map_of_rev_distinct)
  ultimately show "map_of (rev ?m) = attributed km (map_of objs)" by simp
  then show "set (map fst (mapped_objects km objs)) = dom (attributed km (map_of objs))"
    using dom_map_of_conv_image_fst [of "rev ?m"] unfolding fst [symmetric] by (simp add: image_image)
qed

definition event_ok :: "'o source_event \<Rightarrow> bool" where
  "event_ok e = (case e of ReplaceEvent objs \<Rightarrow> dict_ok objs | _ \<Rightarrow> True)"

lemma handle_event_facts:
  assumes "handle_event km cache e = (cache', affected)" "dict_ok cache" "event_ok e" "dget cache = attributed km w"
  shows "dict_ok cache'" "dget cache' = attributed km (world_event w e)"
    "\<And>p. p \<notin> affected \<Longrightarrow> get_by_parent cache' p = get_by_parent cache p"
proof -
  have main: "dict_ok cache' \<and> dget cache' = attributed km (world_event w e)
    \<and> (\<forall>p. p \<notin> affected \<longrightarrow> seen_by cache' p = seen_by cache p)"
  proof (cases e)
    case (UpsertEvent key obj)
    show ?thesis
    proof (cases "parent_key_or_none km key obj")
      case None
      show ?thesis
      proof (cases "dget cache key")
        case None
        with assms UpsertEvent \<open>parent_key_or_none km key obj = None\<close> show ?thesis
          by (auto simp: handle_event_def handle_upsert_def world_event_def attributed_def fun_eq_iff split: option.splits)
      next
        case (Some old)
        with assms(1) UpsertEvent \<open>parent_key_or_none km key obj = None\<close>
        have "apply_delete km cache key None = (cache', affected)" by (simp add: handle_event_def handle_upsert_def)
        from apply_delete_facts [OF this] assms(2,4) UpsertEvent \<open>parent_key_or_none km key obj = None\<close> show ?thesis
          by (auto simp: world_event_def attributed_def fun_eq_iff)
      qed
    next
      case (Some p)
      with assms(1) UpsertEvent have "apply_upsert cache key obj p = (cache', affected)"
        by (simp add: handle_event_def handle_upsert_def)
      from apply_upsert_facts [OF this] assms(2,4) UpsertEvent Some show ?thesis
        by (auto simp: world_event_def attributed_def fun_eq_iff)
    qed
  next
    case (DeleteEvent key last_obj)
    with assms(1) have "apply_delete km cache key last_obj = (cache', affected)" by (simp add: handle_event_def)
    from apply_delete_facts [OF this] assms(2,4) DeleteEvent show ?thesis
      by (auto simp: world_event_def attributed_def fun_eq_iff)
  next
    case (ReplaceEvent objs)
    let ?M = "mapped_objects km objs"
    obtain c1 a1 where one: "foldl upsert_step (cache, {}) ?M = (c1, a1)" by fastforce
    let ?gone = "filter (\<lambda>k. k \<notin> set (map fst ?M)) (dkeys c1)"
    have two: "foldl (delete_step km) (c1, a1) ?gone = (cache', affected)"
      using assms(1) ReplaceEvent one by (simp add: handle_event_def handle_replace_def Let_def)
    have ok: "dict_ok objs" using assms(3) ReplaceEvent by (simp add: event_ok_def)
    note M = mapped_objects_facts [OF ok, of km]
    note f1 = upsert_fold_facts [OF one] and f2 = delete_fold_facts [OF two]
    have c1: "dget c1 = dget cache ++ attributed km (map_of objs)" using f1 M(2) by simp
    have "dget cache' k = attributed km (map_of objs) k" for k
    proof (cases "k \<in> dom (attributed km (map_of objs))")
      case True
      then have "k \<notin> set ?gone" using M(3) by auto
      then show ?thesis using f2 c1 True by (auto simp: map_add_def dom_def split: option.splits)
    next
      case False
      then have "k \<in> set ?gone \<or> dget c1 k = None" using M(3) by (auto simp: map_of_eq_None_iff)
      then show ?thesis using f2 False by (auto simp: dom_def)
    qed
    then have "dget cache' = attributed km (world_event w e)" using ReplaceEvent by (simp add: world_event_def fun_eq_iff)
    moreover have "seen_by cache' p = seen_by cache p" if "p \<notin> affected" for p
      using f1 f2 that by (metis subsetD)
    ultimately show ?thesis using f1 f2 assms(2) by blast
  qed
  then show "dict_ok cache'" "dget cache' = attributed km (world_event w e)" by blast+
  show "get_by_parent cache' p = get_by_parent cache p" if "p \<notin> affected" for p
    using main that assms(2) by (intro get_by_parent_cong) auto
qed

section \<open>The work queue\<close>

record work_queue =
  queued :: "string list"
  wakeup :: bool
  q_shutdown :: bool

definition new_queue :: work_queue where
  "new_queue = \<lparr> queued = [], wakeup = False, q_shutdown = False \<rparr>"

definition queue_add :: "work_queue \<Rightarrow> string \<Rightarrow> work_queue" where
  "queue_add q k =
     (if q_shutdown q then q
      else q\<lparr> queued := (if k \<in> set (queued q) then queued q else queued q @ [k]), wakeup := True \<rparr>)"

text \<open>One turn of the loop of \<open>get\<close>, up to its return or to the wait.\<close>

datatype get_result = Got string | Closed | Waits

definition queue_get :: "work_queue \<Rightarrow> get_result \<times> work_queue" where
  "queue_get q =
     (if q_shutdown q then (Closed, q)
      else (case queued q of
          k # ks \<Rightarrow> (Got k, q\<lparr> queued := ks \<rparr>)
        | [] \<Rightarrow> (Waits, q\<lparr> wakeup := False \<rparr>)))"

definition queue_close :: "work_queue \<Rightarrow> work_queue" where
  "queue_close q = q\<lparr> q_shutdown := True, wakeup := True \<rparr>"

definition enqueue_all :: "work_queue \<Rightarrow> string set \<Rightarrow> work_queue" where
  "enqueue_all q ps = foldl queue_add q (sorted_list_of_set ps)"

lemma queue_add_simps [simp]:
  "q_shutdown (queue_add q k) = q_shutdown q"
  "\<not> q_shutdown q \<Longrightarrow> set (queued (queue_add q k)) = insert k (set (queued q))"
  "\<not> q_shutdown q \<Longrightarrow> wakeup (queue_add q k)"
  "distinct (queued q) \<Longrightarrow> distinct (queued (queue_add q k))"
  by (auto simp: queue_add_def)

lemma queue_adds_simps [simp]:
  "q_shutdown (foldl queue_add q ks) = q_shutdown q"
  "\<not> q_shutdown q \<Longrightarrow> set (queued (foldl queue_add q ks)) = set ks \<union> set (queued q)"
  "\<not> q_shutdown q \<Longrightarrow> wakeup (foldl queue_add q ks) \<longleftrightarrow> wakeup q \<or> ks \<noteq> []"
  "distinct (queued q) \<Longrightarrow> distinct (queued (foldl queue_add q ks))"
  by (induction ks arbitrary: q) auto

lemma enqueue_all_simps [simp]:
  "q_shutdown (enqueue_all q ps) = q_shutdown q"
  "\<not> q_shutdown q \<Longrightarrow> finite ps \<Longrightarrow> set (queued (enqueue_all q ps)) = ps \<union> set (queued q)"
  "\<not> q_shutdown q \<Longrightarrow> wakeup q \<Longrightarrow> wakeup (enqueue_all q ps)"
  "\<not> q_shutdown q \<Longrightarrow> finite ps \<Longrightarrow> ps \<noteq> {} \<Longrightarrow> wakeup (enqueue_all q ps)"
  "distinct (queued q) \<Longrightarrow> distinct (queued (enqueue_all q ps))"
  by (auto simp: enqueue_all_def)

section \<open>Retries with backoff\<close>

record retry_config =
  failure_base_delay :: real
  failure_max_delay :: real

definition retry_config_ok :: "retry_config \<Rightarrow> bool" where
  "retry_config_ok c \<longleftrightarrow> 0 < failure_base_delay c \<and> failure_base_delay c \<le> failure_max_delay c"

text \<open>\<open>max(0, math.ceil(math.log2(x)))\<close> in exact arithmetic, computed by halving.\<close>

function ceil_log2 :: "real \<Rightarrow> nat" where
  "ceil_log2 x = (if x \<le> 1 then 0 else Suc (ceil_log2 (x / 2)))"
  by auto

termination
proof (relation "measure (\<lambda>x. nat \<lceil>x\<rceil>)")
  fix x :: real
  assume "\<not> x \<le> 1"
  then have "2 \<le> \<lceil>x\<rceil>" by linarith
  moreover have "x / 2 \<le> of_int \<lceil>x\<rceil> / 2" by simp
  ultimately have "x / 2 \<le> of_int (\<lceil>x\<rceil> - 1)" by linarith
  then have "\<lceil>x / 2\<rceil> \<le> \<lceil>x\<rceil> - 1" by (simp only: ceiling_le_iff)
  with \<open>2 \<le> \<lceil>x\<rceil>\<close> show "(x / 2, x) \<in> measure (\<lambda>x. nat \<lceil>x\<rceil>)" by simp
qed simp

declare ceil_log2.simps [simp del]

lemma ceil_log2_eq: "0 < x \<Longrightarrow> ceil_log2 x = nat (max 0 \<lceil>log 2 x\<rceil>)"
proof (induction x rule: ceil_log2.induct)
  case (1 x)
  show ?case
  proof (cases "x \<le> 1")
    case True
    then have "log 2 x \<le> 0" using 1(2) by simp
    then show ?thesis using True by (subst ceil_log2.simps) (simp add: ceiling_le_zero)
  next
    case False
    then have half: "log 2 x = log 2 (x / 2) + 1" by (simp add: log_divide)
    have "0 < log 2 x" using False by simp
    then have "- 1 < log 2 (x / 2)" unfolding half by simp
    then have "0 \<le> \<lceil>log 2 (x / 2)\<rceil>" by linarith
    then have "Suc (nat \<lceil>log 2 (x / 2)\<rceil>) = nat (\<lceil>log 2 (x / 2)\<rceil> + 1)" by (simp add: Suc_nat_eq_nat_zadd1)
    then show ?thesis using 1 False by (subst ceil_log2.simps) (simp add: half)
  qed
qed

definition max_backoff_exponent :: "retry_config \<Rightarrow> nat" where
  "max_backoff_exponent c = ceil_log2 (failure_max_delay c / failure_base_delay c)"

definition failure_delay :: "retry_config \<Rightarrow> nat \<Rightarrow> real" where
  "failure_delay c failures =
     min (failure_base_delay c * 2 ^ min (failures - 1) (max_backoff_exponent c)) (failure_max_delay c)"

record retry_info =
  retry_failures :: nat
  retry_at :: "real option"

record retry_scheduler =
  infos :: "(string, retry_info) dict"
  r_shutdown :: bool

definition new_retries :: retry_scheduler where
  "new_retries = \<lparr> infos = [], r_shutdown = False \<rparr>"

definition note_failure :: "retry_config \<Rightarrow> real \<Rightarrow> retry_scheduler \<Rightarrow> string \<Rightarrow> retry_scheduler" where
  "note_failure c now r k =
     (if r_shutdown r then r
      else let failures = (case dget (infos r) k of None \<Rightarrow> 1 | Some info \<Rightarrow> retry_failures info + 1) in
        r\<lparr> infos := dset (infos r) k \<lparr> retry_failures = failures, retry_at = Some (now + failure_delay c failures) \<rparr> \<rparr>)"

definition note_success :: "retry_scheduler \<Rightarrow> string \<Rightarrow> retry_scheduler" where
  "note_success r k = r\<lparr> infos := ddel (infos r) k \<rparr>"

definition close_retries :: "retry_scheduler \<Rightarrow> retry_scheduler" where
  "close_retries r = r\<lparr> infos := [], r_shutdown := True \<rparr>"

definition due_retries :: "real \<Rightarrow> retry_scheduler \<Rightarrow> string list" where
  "due_retries now r = map fst (filter (\<lambda>(k, info). case retry_at info of None \<Rightarrow> False | Some t \<Rightarrow> t \<le> now) (infos r))"

definition release_retry :: "retry_scheduler \<times> work_queue \<Rightarrow> string \<Rightarrow> retry_scheduler \<times> work_queue" where
  "release_retry st k =
     (let (r, q) = st in
      (r\<lparr> infos := (case dget (infos r) k of None \<Rightarrow> infos r | Some info \<Rightarrow> dset (infos r) k (info\<lparr> retry_at := None \<rparr>)) \<rparr>,
       queue_add q k))"

definition poll_retries :: "real \<Rightarrow> retry_scheduler \<Rightarrow> work_queue \<Rightarrow> retry_scheduler \<times> work_queue" where
  "poll_retries now r q = foldl release_retry (r, q) (due_retries now r)"

definition retry_pending :: "retry_scheduler \<Rightarrow> string \<Rightarrow> bool" where
  "retry_pending r k = (case dget (infos r) k of None \<Rightarrow> False | Some info \<Rightarrow> retry_at info \<noteq> None)"

lemma retry_pending_simps [simp]:
  "\<not> r_shutdown r \<Longrightarrow> retry_pending (note_failure c now r k) p \<longleftrightarrow> p = k \<or> retry_pending r p"
  "retry_pending (note_success r k) p \<longleftrightarrow> p \<noteq> k \<and> retry_pending r p"
  by (auto simp: retry_pending_def note_failure_def note_success_def Let_def)

lemma note_simps [simp]:
  "r_shutdown (note_failure c now r k) = r_shutdown r"
  "r_shutdown (note_success r k) = r_shutdown r"
  by (simp_all add: note_failure_def note_success_def Let_def)

lemma release_retries:
  assumes "foldl release_retry (r, q) ks = (r', q')" "\<not> q_shutdown q"
  shows "q_shutdown q' = q_shutdown q \<and> r_shutdown r' = r_shutdown r \<and> set (queued q') = set ks \<union> set (queued q)
    \<and> (distinct (queued q) \<longrightarrow> distinct (queued q')) \<and> (wakeup q' \<longleftrightarrow> wakeup q \<or> ks \<noteq> [])
    \<and> (\<forall>p. retry_pending r' p \<longleftrightarrow> p \<notin> set ks \<and> retry_pending r p)"
  using assms(1)
proof (induction ks arbitrary: r' q' rule: rev_induct)
  case (snoc k ks)
  obtain r1 q1 where one: "foldl release_retry (r, q) ks = (r1, q1)" by fastforce
  note IH = snoc.IH [OF one]
  have q1: "\<not> q_shutdown q1" using IH assms(2) by simp
  have r': "r' = r1\<lparr> infos := (case dget (infos r1) k of None \<Rightarrow> infos r1 | Some info \<Rightarrow> dset (infos r1) k (info\<lparr> retry_at := None \<rparr>)) \<rparr>"
    and q': "q' = queue_add q1 k"
    using snoc.prems unfolding foldl_append foldl.simps one by (simp_all add: release_retry_def)
  have "retry_pending r' p \<longleftrightarrow> p \<noteq> k \<and> retry_pending r1 p" for p
    by (cases "dget (infos r1) k") (auto simp: r' retry_pending_def)
  moreover have "r_shutdown r' = r_shutdown r1" by (simp add: r')
  ultimately show ?case using IH q1 by (auto simp: q')
qed (use assms(2) in simp)

lemma backoff_reaches_max:
  assumes "retry_config_ok c"
  shows "failure_max_delay c \<le> failure_base_delay c * 2 ^ max_backoff_exponent c"
proof -
  let ?x = "failure_max_delay c / failure_base_delay c"
  have pos: "0 < failure_base_delay c" "1 \<le> ?x" using assms by (auto simp: retry_config_ok_def)
  have "log 2 ?x \<le> of_int \<lceil>log 2 ?x\<rceil>" by simp
  also have "\<dots> \<le> real (max_backoff_exponent c)" using pos by (simp add: max_backoff_exponent_def ceil_log2_eq)
  finally have "?x \<le> 2 powr real (max_backoff_exponent c)" using pos by (simp add: log_le_iff)
  then show ?thesis using pos by (simp add: powr_realpow divide_le_eq mult.commute)
qed

text \<open>
  The cap on the exponent never changes a delay: after the n-th failure the delay is the
  base doubled n - 1 times, cut at the maximum, so it never shrinks from one failure to the
  next and never leaves the configured range.
\<close>

theorem backoff_doubles_up_to_the_cap:
  assumes "retry_config_ok c" "0 < failures"
  shows "failure_delay c failures = min (failure_base_delay c * 2 ^ (failures - 1)) (failure_max_delay c)
    \<and> failure_base_delay c \<le> failure_delay c failures \<and> failure_delay c failures \<le> failure_max_delay c
    \<and> failure_delay c failures \<le> failure_delay c (failures + 1)"
proof -
  have pos: "0 < failure_base_delay c" "failure_base_delay c \<le> failure_max_delay c"
    using assms(1) by (auto simp: retry_config_ok_def)
  have mono: "failure_base_delay c * 2 ^ m \<le> failure_base_delay c * 2 ^ n" if "m \<le> n" for m n :: nat
    using that pos by (simp add: power_increasing)
  have eq: "failure_delay c n = min (failure_base_delay c * 2 ^ (n - 1)) (failure_max_delay c)" for n
  proof (cases "n - 1 \<le> max_backoff_exponent c")
    case True
    then show ?thesis by (simp add: failure_delay_def min_absorb1)
  next
    case False
    then have "failure_base_delay c * 2 ^ max_backoff_exponent c \<le> failure_base_delay c * 2 ^ (n - 1)" by (intro mono) simp
    with backoff_reaches_max [OF assms(1)] False show ?thesis by (simp add: failure_delay_def min_absorb2)
  qed
  show ?thesis using mono [of 0 "failures - 1"] mono [of "failures - 1" failures] pos
    unfolding eq by (auto simp: min_le_iff_disj)
qed

theorem backoff_doubles_up_to_the_cap_witness:
  "failure_delay \<lparr> failure_base_delay = 1, failure_max_delay = 60 \<rparr> 4 = 8
   \<and> failure_delay \<lparr> failure_base_delay = 1, failure_max_delay = 60 \<rparr> 9 = 60"
  using backoff_doubles_up_to_the_cap [of "\<lparr> failure_base_delay = 1, failure_max_delay = 60 \<rparr>" 4]
    backoff_doubles_up_to_the_cap [of "\<lparr> failure_base_delay = 1, failure_max_delay = 60 \<rparr>" 9]
  by (simp add: retry_config_ok_def)

section \<open>The loop\<close>

datatype loop_worker = Ready | Asleep | Working string | Finished

text \<open>
  The last three fields are the specification's: the source's world, what the reconcile in
  progress last read of its parent, and what each parent's last successful reconcile had read.
\<close>

record 'o reconcile_loop =
  store :: "'o object_store"
  queue :: work_queue
  retries :: retry_scheduler
  now :: real
  worker :: loop_worker
  stream_first :: "bool option"
  synced :: bool
  world :: "string \<rightharpoonup> 'o"
  reading :: "'o list"
  reconciled :: "string \<Rightarrow> 'o list"

definition new_loop :: "'o reconcile_loop" where
  "new_loop = \<lparr> store = [], queue = new_queue, retries = new_retries, now = 0, worker = Ready, stream_first = None,
     synced = False, world = Map.empty, reading = [], reconciled = (\<lambda>_. []) \<rparr>"

definition is_replace :: "'o source_event \<Rightarrow> bool" where
  "is_replace e = (case e of ReplaceEvent _ \<Rightarrow> True | _ \<Rightarrow> False)"

text \<open>
  \<open>SourceStreamDriver._pump\<close>: a stream that does not open with a \<open>ReplaceEvent\<close> fails and is
  reopened later; any other event goes to the store and its parents to the queue.
\<close>

definition source_sends :: "'o key_map \<Rightarrow> 'o reconcile_loop \<Rightarrow> 'o source_event \<Rightarrow> 'o reconcile_loop" where
  "source_sends km s e = (case stream_first s of
       None \<Rightarrow> s
     | Some first \<Rightarrow>
         if first \<and> \<not> is_replace e then s\<lparr> stream_first := None \<rparr>
         else let (cache, affected) = handle_event km (store s) e in
           s\<lparr> store := cache, queue := enqueue_all (queue s) affected, stream_first := Some False,
             synced := synced s \<or> is_replace e, world := world_event (world s) e \<rparr>)"

text \<open>\<open>_worker_loop\<close>, from one call of \<open>get\<close> to the next; it starts once the store is synced.\<close>

definition worker_gets :: "'o reconcile_loop \<Rightarrow> 'o reconcile_loop" where
  "worker_gets s =
     (if synced s \<and> (worker s = Ready \<or> worker s = Asleep \<and> wakeup (queue s))
      then (case queue_get (queue s) of
          (Got k, q) \<Rightarrow> s\<lparr> queue := q, worker := Working k, reading := get_by_parent (store s) k \<rparr>
        | (Closed, q) \<Rightarrow> s\<lparr> queue := q, worker := Finished \<rparr>
        | (Waits, q) \<Rightarrow> s\<lparr> queue := q, worker := Asleep \<rparr>)
      else s)"

definition reconcile_reads :: "'o reconcile_loop \<Rightarrow> 'o reconcile_loop" where
  "reconcile_reads s = (case worker s of Working k \<Rightarrow> s\<lparr> reading := get_by_parent (store s) k \<rparr> | _ \<Rightarrow> s)"

definition reconcile_ends :: "retry_config \<Rightarrow> 'o reconcile_loop \<Rightarrow> bool \<Rightarrow> 'o reconcile_loop" where
  "reconcile_ends rc s ok = (case worker s of
       Working k \<Rightarrow>
         if ok then s\<lparr> worker := Ready, retries := note_success (retries s) k, reconciled := (reconciled s)(k := reading s) \<rparr>
         else s\<lparr> worker := Ready, retries := note_failure rc (now s) (retries s) k \<rparr>
     | _ \<Rightarrow> s)"

definition retry_poller :: "'o reconcile_loop \<Rightarrow> real \<Rightarrow> 'o reconcile_loop" where
  "retry_poller s t =
     (if r_shutdown (retries s) then s
      else let (r, q) = poll_retries t (retries s) (queue s) in s\<lparr> now := t, retries := r, queue := q \<rparr>)"

definition resync :: "'o reconcile_loop \<Rightarrow> 'o reconcile_loop" where
  "resync s = (if synced s then s\<lparr> queue := enqueue_all (queue s) (parent_keys (store s)) \<rparr> else s)"

definition stop_loop :: "'o reconcile_loop \<Rightarrow> 'o reconcile_loop" where
  "stop_loop s = s\<lparr> queue := queue_close (queue s), retries := close_retries (retries s), worker := Finished, stream_first := None \<rparr>"

datatype 'o loop_event =
    StreamOpens
  | StreamEnds
  | SourceSends "'o source_event"
  | WorkerGets
  | ReconcileReads
  | ReconcileEnds bool
  | RetriesPolled real
  | Resyncs
  | Stops

text \<open>Nothing happens to a stopped loop: its tasks are cancelled and the stream is closed.\<close>

definition loop_step :: "'o key_map \<Rightarrow> retry_config \<Rightarrow> 'o reconcile_loop \<Rightarrow> 'o loop_event \<Rightarrow> 'o reconcile_loop" where
  "loop_step km rc s ev =
     (if q_shutdown (queue s) then s
      else (case ev of
          StreamOpens \<Rightarrow> s\<lparr> stream_first := Some True \<rparr>
        | StreamEnds \<Rightarrow> s\<lparr> stream_first := None \<rparr>
        | SourceSends e \<Rightarrow> source_sends km s e
        | WorkerGets \<Rightarrow> worker_gets s
        | ReconcileReads \<Rightarrow> reconcile_reads s
        | ReconcileEnds ok \<Rightarrow> reconcile_ends rc s ok
        | RetriesPolled t \<Rightarrow> retry_poller s t
        | Resyncs \<Rightarrow> resync s
        | Stops \<Rightarrow> stop_loop s))"

definition loop_event_ok :: "'o loop_event \<Rightarrow> bool" where
  "loop_event_ok ev = (case ev of SourceSends e \<Rightarrow> event_ok e | _ \<Rightarrow> True)"

text \<open>A parent whose change is not lost: reconciled as it is, or on its way to be.\<close>

definition covered :: "'o reconcile_loop \<Rightarrow> string \<Rightarrow> bool" where
  "covered s p \<longleftrightarrow> reconciled s p = get_by_parent (store s) p \<or> p \<in> set (queued (queue s))
     \<or> retry_pending (retries s) p \<or> worker s = Working p \<and> reading s = get_by_parent (store s) p"

text \<open>A reconcile in progress has read the current objects, or its parent is queued again.\<close>

definition reading_ok :: "'o reconcile_loop \<Rightarrow> bool" where
  "reading_ok s \<longleftrightarrow> (case worker s of
       Working p \<Rightarrow> reading s = get_by_parent (store s) p \<or> p \<in> set (queued (queue s)) | _ \<Rightarrow> True)"

definition loop_inv :: "'o key_map \<Rightarrow> 'o reconcile_loop \<Rightarrow> bool" where
  "loop_inv km s \<longleftrightarrow> q_shutdown (queue s) \<or>
     (dict_ok (store s) \<and> dget (store s) = attributed km (world s)
      \<and> \<not> r_shutdown (retries s) \<and> distinct (queued (queue s)) \<and> worker s \<noteq> Finished
      \<and> (worker s = Asleep \<and> queued (queue s) \<noteq> [] \<longrightarrow> wakeup (queue s))
      \<and> reading_ok s \<and> (\<forall>p. covered s p))"

lemma loop_invD:
  assumes "loop_inv km s" "\<not> q_shutdown (queue s)"
  shows "dict_ok (store s)" "dget (store s) = attributed km (world s)" "\<not> r_shutdown (retries s)"
    "distinct (queued (queue s))" "worker s \<noteq> Finished" "worker s = Asleep \<Longrightarrow> queued (queue s) \<noteq> [] \<Longrightarrow> wakeup (queue s)"
    "covered s p" "reading_ok s"
  using assms by (auto simp: loop_inv_def)

lemma handle_event_finite:
  assumes "handle_event km cache e = (cache', affected)"
  shows "finite affected"
proof -
  have u: "finite (snd (apply_upsert c k obj p))" for c :: "'a object_store" and k obj p
    by (simp add: apply_upsert_def split: option.splits)
  have d: "finite (snd (apply_delete km c k l))" for c :: "'a object_store" and k l
    by (simp add: apply_delete_def split: option.splits)
  have us: "finite (snd st) \<Longrightarrow> finite (snd (foldl upsert_step st xs))" for st :: "'a object_store \<times> string set" and xs
  proof (induction xs arbitrary: st)
    case (Cons x xs)
    have "finite (snd (upsert_step st x))"
      using Cons.prems u by (cases x; cases st) (simp add: upsert_step_def split: prod.split, metis snd_conv)
    then show ?case using Cons.IH by simp
  qed simp
  have ds: "finite (snd st) \<Longrightarrow> finite (snd (foldl (delete_step km) st xs))" for st :: "'a object_store \<times> string set" and xs
  proof (induction xs arbitrary: st)
    case (Cons x xs)
    have "finite (snd (delete_step km st x))"
      using Cons.prems d by (cases st) (simp add: delete_step_def split: prod.split, metis snd_conv)
    then show ?case using Cons.IH by simp
  qed simp
  have "finite (snd (handle_event km cache e))"
    using u d ds us by (cases e) (auto simp: handle_event_def handle_upsert_def handle_replace_def Let_def split: option.splits)
  then show ?thesis using assms by simp
qed

lemma loop_inv_more_queued:
  assumes inv: "loop_inv km s" and live: "\<not> q_shutdown (queue s)"
    and same: "store s' = store s" "world s' = world s" "worker s' = worker s" "reading s' = reading s"
      "reconciled s' = reconciled s" "retries s' = retries s"
    and q: "set (queued (queue s)) \<subseteq> set (queued (queue s'))" "distinct (queued (queue s'))"
      "worker s = Asleep \<Longrightarrow> queued (queue s') \<noteq> [] \<Longrightarrow> wakeup (queue s')"
  shows "loop_inv km s'"
proof -
  note I = loop_invD [OF inv live]
  have "covered s' p" for p using I(7) [of p] q(1) by (auto simp: covered_def same)
  moreover have "reading_ok s'" using I(8) q(1) by (cases "worker s") (auto simp: reading_ok_def same)
  ultimately show ?thesis using I(1-5) q by (simp add: loop_inv_def same)
qed

lemma source_sends_inv:
  assumes inv: "loop_inv km s" and live: "\<not> q_shutdown (queue s)" and ok: "event_ok e"
  shows "loop_inv km (source_sends km s e)"
proof (cases "stream_first s")
  case None
  with inv show ?thesis by (simp add: source_sends_def)
next
  case (Some first)
  note I = loop_invD [OF inv live]
  show ?thesis
  proof (cases "first \<and> \<not> is_replace e")
    case True
    with Some have "source_sends km s e = s\<lparr> stream_first := None \<rparr>" by (simp add: source_sends_def)
    then show ?thesis using I(4,6) by (intro loop_inv_more_queued [OF inv live]) simp_all
  next
    case False
    obtain cache affected where h: "handle_event km (store s) e = (cache, affected)" by fastforce
    note H = handle_event_facts [OF h I(1) ok I(2)] and F = handle_event_finite [OF h]
    have s': "source_sends km s e = s\<lparr> store := cache, queue := enqueue_all (queue s) affected, stream_first := Some False,
             synced := synced s \<or> is_replace e, world := world_event (world s) e \<rparr>"
      using False Some h unfolding source_sends_def by (simp only: option.case if_False prod.case Let_def)
    have read: "reading_ok (source_sends km s e)"
    proof (cases "worker s")
      case (Working p)
      then show ?thesis using I(8) live F H(3) [of p] by (cases "p \<in> affected") (auto simp: reading_ok_def s')
    qed (simp_all add: reading_ok_def s')
    have cov: "covered (source_sends km s e) p" for p
    proof (cases "p \<in> affected")
      case True
      then show ?thesis using live F by (simp add: covered_def s')
    next
      case False
      then show ?thesis using I(7) [of p] live F H(3) [OF False] by (auto simp: covered_def s')
    qed
    have "wakeup (enqueue_all (queue s) affected)" if "worker s = Asleep" "queued (enqueue_all (queue s) affected) \<noteq> []"
    proof (cases "affected = {}")
      case True
      then show ?thesis using that I(6) live by (simp add: enqueue_all_def)
    qed (use live F in simp)
    with cov read I H(1,2) live show ?thesis unfolding loop_inv_def s' by auto
  qed
qed

lemma worker_gets_inv:
  assumes inv: "loop_inv km s" and live: "\<not> q_shutdown (queue s)"
  shows "loop_inv km (worker_gets s)"
proof -
  note I = loop_invD [OF inv live]
  show ?thesis
  proof (cases "synced s \<and> (worker s = Ready \<or> worker s = Asleep \<and> wakeup (queue s))")
    case True
    then have idle: "\<not> worker s = Working p" for p by auto
    show ?thesis
    proof (cases "queued (queue s)")
      case Nil
      then have s': "worker_gets s = s\<lparr> queue := (queue s)\<lparr> wakeup := False \<rparr>, worker := Asleep \<rparr>"
        using True live by (simp add: worker_gets_def queue_get_def)
      show ?thesis unfolding loop_inv_def s' using I Nil idle live by (auto simp: covered_def reading_ok_def)
    next
      case (Cons k ks)
      then have s': "worker_gets s = s\<lparr> queue := (queue s)\<lparr> queued := ks \<rparr>, worker := Working k,
          reading := get_by_parent (store s) k \<rparr>"
        using True live by (simp add: worker_gets_def queue_get_def)
      have "covered (worker_gets s) p" for p
        using I(7) [of p] idle [of p] Cons by (auto simp: covered_def s')
      then show ?thesis unfolding loop_inv_def using I(1-5) Cons live by (auto simp: s' reading_ok_def)
    qed
  qed (use inv in \<open>auto simp: worker_gets_def\<close>)
qed

lemma reconcile_ends_inv:
  assumes inv: "loop_inv km s" and live: "\<not> q_shutdown (queue s)"
  shows "loop_inv km (reconcile_ends rc s ok)"
proof (cases "worker s")
  case (Working k)
  note I = loop_invD [OF inv live]
  have "covered (reconcile_ends rc s ok) p" for p
    using I(3,8) I(7) [of p] Working by (auto simp: covered_def reconcile_ends_def reading_ok_def)
  then show ?thesis unfolding loop_inv_def using I(1-5) Working live by (auto simp: reconcile_ends_def reading_ok_def)
qed (use inv in \<open>simp_all add: reconcile_ends_def\<close>)

lemma retry_poller_inv:
  assumes inv: "loop_inv km s" and live: "\<not> q_shutdown (queue s)"
  shows "loop_inv km (retry_poller s t)"
proof -
  note I = loop_invD [OF inv live]
  obtain r q where p: "poll_retries t (retries s) (queue s) = (r, q)" by fastforce
  note R = release_retries [OF p [unfolded poll_retries_def] live]
  have s': "retry_poller s t = s\<lparr> now := t, retries := r, queue := q \<rparr>" using I(3) p by (simp add: retry_poller_def)
  have "covered (retry_poller s t) p" for p using I(7) [of p] R by (auto simp: covered_def s')
  moreover have "wakeup q" if "worker s = Asleep" "queued q \<noteq> []"
    using that R I(6) by (metis Un_empty_left set_empty)
  moreover have "reading_ok (retry_poller s t)"
    using I(8) R by (cases "worker s") (auto simp: reading_ok_def s')
  ultimately show ?thesis unfolding loop_inv_def using I(1-5) R live by (auto simp: s')
qed

lemma loop_step_inv:
  assumes "loop_inv km s" "loop_event_ok ev"
  shows "loop_inv km (loop_step km rc s ev)"
proof (cases "q_shutdown (queue s)")
  case False
  note I = loop_invD [OF assms(1) False]
  show ?thesis
  proof (cases ev)
    case (SourceSends e)
    with assms(2) source_sends_inv [OF assms(1) False] False show ?thesis by (simp add: loop_step_def loop_event_ok_def)
  next
    case Resyncs
    have fin: "finite (parent_keys (store s))" by (simp add: parent_keys_def)
    have "loop_inv km (resync s)"
    proof (cases "synced s")
      case True
      have "wakeup (enqueue_all (queue s) (parent_keys (store s)))"
        if "worker s = Asleep" "queued (enqueue_all (queue s) (parent_keys (store s))) \<noteq> []"
        using that I(6) False fin by (cases "parent_keys (store s) = {}") (simp_all add: enqueue_all_def)
      then show ?thesis using I(4) fin False True
        by (intro loop_inv_more_queued [OF assms(1) False]) (simp_all add: resync_def)
    qed (use assms(1) in \<open>simp add: resync_def\<close>)
    with Resyncs False show ?thesis by (simp add: loop_step_def)
  next
    case StreamOpens
    with I(4,6) False show ?thesis
      by (intro loop_inv_more_queued [OF assms(1) False]) (simp_all add: loop_step_def)
  next
    case StreamEnds
    with I(4,6) False show ?thesis
      by (intro loop_inv_more_queued [OF assms(1) False]) (simp_all add: loop_step_def)
  next
    case ReconcileReads
    have "loop_inv km (reconcile_reads s)"
    proof (cases "worker s")
      case (Working k)
      have "covered (reconcile_reads s) p" for p using I(7) [of p] Working by (auto simp: covered_def reconcile_reads_def)
      then show ?thesis using I(1-5) Working by (auto simp: loop_inv_def reading_ok_def reconcile_reads_def)
    qed (use assms(1) in \<open>simp_all add: reconcile_reads_def\<close>)
    with ReconcileReads False show ?thesis by (simp add: loop_step_def)
  next
    case Stops
    with False show ?thesis by (simp add: loop_step_def loop_inv_def stop_loop_def queue_close_def)
  qed (use False worker_gets_inv [OF assms(1) False] reconcile_ends_inv [OF assms(1) False]
        retry_poller_inv [OF assms(1) False] in \<open>simp_all add: loop_step_def\<close>)
qed (use assms in \<open>simp add: loop_step_def\<close>)

interpretation reconcile: machine "\<lambda>s ev. if loop_event_ok ev then loop_step km rc s ev else s" "loop_inv km" for km rc
  by unfold_locales (simp add: loop_step_inv)

lemma new_loop_inv: "loop_inv km new_loop"
  by (simp add: loop_inv_def new_loop_def new_queue_def new_retries_def attributed_def covered_def reading_ok_def
      get_by_parent_def fun_eq_iff)

lemma loop_run_inv:
  assumes "list_all loop_event_ok events"
  shows "loop_inv km (foldl (loop_step km rc) new_loop events)"
proof -
  have "foldl (loop_step km rc) s events = foldl (\<lambda>s ev. if loop_event_ok ev then loop_step km rc s ev else s) s events" for s
    using assms by (induction events arbitrary: s) simp_all
  then show ?thesis using reconcile.inv_run [OF new_loop_inv] by simp
qed

text \<open>
  C37: no change is lost: whatever the interleaving of source events, reconciles that succeed or
  fail, retries and resyncs, in every state of a running loop each parent that was not last reconciled successfully against exactly
  its current objects is queued, waiting for a retry, or being reconciled with just these objects read; the store
  holds the objects of the source's world; so once the queue is empty, no retry is pending and nothing is being reconciled, every
  parent is up to date.
\<close>

theorem quiet_loop_is_up_to_date:
  assumes "list_all loop_event_ok events" "s = foldl (loop_step km rc) new_loop events" "\<not> q_shutdown (queue s)"
  shows "dget (store s) = attributed km (world s)
    \<and> (reconciled s p \<noteq> get_by_parent (store s) p \<longrightarrow>
        p \<in> set (queued (queue s)) \<or> retry_pending (retries s) p \<or> worker s = Working p \<and> reading s = get_by_parent (store s) p)
    \<and> (queued (queue s) = [] \<and> list_all (\<lambda>p. retry_at (snd p) = None) (infos (retries s)) \<and> (\<forall>k. worker s \<noteq> Working k) \<longrightarrow>
        reconciled s p = get_by_parent (store s) p)"
proof -
  have inv: "loop_inv km s" unfolding assms(2) by (rule loop_run_inv [OF assms(1)])
  have "\<not> retry_pending (retries s) p" if "list_all (\<lambda>p. retry_at (snd p) = None) (infos (retries s))"
    using that by (auto simp: retry_pending_def list_all_iff split: option.splits dest!: map_of_SomeD)
  moreover have "covered s p" by (rule loop_invD(7) [OF inv assms(3)])
  ultimately show ?thesis using loop_invD(2) [OF inv assms(3)] by (auto simp: covered_def)
qed

text \<open>A small world: three pods of two cells, the cell being the pod's parent.\<close>

definition example_key_map :: "(string \<times> nat) key_map" where
  "example_key_map = Some (\<lambda>(cell, _). Inr (if cell = [] then None else Some cell))"

definition example_retry_config :: retry_config where
  "example_retry_config = \<lparr> failure_base_delay = 1, failure_max_delay = 60 \<rparr>"

definition example_events :: "(string \<times> nat) loop_event list" where
  "example_events = [StreamOpens,
     SourceSends (ReplaceEvent [(''p0'', (''a'', 1)), (''p1'', (''b'', 2)), (''p2'', ([], 3))]), WorkerGets,
     SourceSends (UpsertEvent ''p0'' (''b'', 4)), ReconcileEnds True, WorkerGets, ReconcileEnds True, WorkerGets,
     SourceSends (DeleteEvent ''p1'' None), ReconcileEnds True, WorkerGets, ReconcileEnds True, WorkerGets]"

text \<open>After five events \<open>b\<close> has a new pod and waits in the queue; after all of them the loop is quiet.\<close>

theorem quiet_loop_is_up_to_date_witness:
  "''b'' \<in> set (queued (queue (foldl (loop_step example_key_map example_retry_config) new_loop (take 5 example_events))))
   \<and> reconciled (foldl (loop_step example_key_map example_retry_config) new_loop example_events) ''b'' = [(''b'', 4)]"
proof
  let ?s = "foldl (loop_step example_key_map example_retry_config) new_loop example_events"
  let ?m = "foldl (loop_step example_key_map example_retry_config) new_loop (take 5 example_events)"
  have mid: "list_all loop_event_ok (take 5 example_events)" "\<not> q_shutdown (queue ?m)"
    "reconciled ?m ''b'' \<noteq> get_by_parent (store ?m) ''b''" "\<not> retry_pending (retries ?m) ''b''" "worker ?m = Ready" by code_simp+
  from quiet_loop_is_up_to_date [OF mid(1) refl mid(2), of "''b''"] mid(3-5) show "''b'' \<in> set (queued (queue ?m))" by simp
  have ok: "list_all loop_event_ok example_events" "\<not> q_shutdown (queue ?s)" "queued (queue ?s) = []"
    "list_all (\<lambda>p. retry_at (snd p) = None) (infos (retries ?s))" "worker ?s = Asleep"
    "get_by_parent (store ?s) ''b'' = [(''b'', 4)]" by code_simp+
  from quiet_loop_is_up_to_date [OF ok(1) refl ok(2), of "''b''"] ok(3-6) show "reconciled ?s ''b'' = [(''b'', 4)]" by simp
qed

text \<open>One round of the worker: take a key and reconcile it successfully.\<close>

definition worker_round :: "'o key_map \<Rightarrow> retry_config \<Rightarrow> 'o reconcile_loop \<Rightarrow> 'o reconcile_loop" where
  "worker_round km rc s = loop_step km rc (loop_step km rc s WorkerGets) (ReconcileEnds True)"

lemma worker_round_pops:
  assumes "loop_inv km s" "\<not> q_shutdown (queue s)" "synced s" "\<And>k. worker s \<noteq> Working k" "queued (queue s) = k # ks"
  shows "queued (queue (worker_round km rc s)) = ks" "store (worker_round km rc s) = store s"
    "\<not> q_shutdown (queue (worker_round km rc s))" "synced (worker_round km rc s)"
    "worker (worker_round km rc s) = Ready"
    "\<And>p. retry_pending (retries (worker_round km rc s)) p \<longleftrightarrow> p \<noteq> k \<and> retry_pending (retries s) p"
proof -
  note I = loop_invD [OF assms(1,2)]
  have "worker s = Ready \<or> worker s = Asleep \<and> wakeup (queue s)"
    using I(5,6) assms(4,5) by (cases "worker s") auto
  then have "loop_step km rc s WorkerGets = s\<lparr> queue := (queue s)\<lparr> queued := ks \<rparr>, worker := Working k,
      reading := get_by_parent (store s) k \<rparr>"
    using assms(2,3,5) by (simp add: loop_step_def worker_gets_def queue_get_def)
  then have r: "worker_round km rc s = s\<lparr> queue := (queue s)\<lparr> queued := ks \<rparr>, worker := Ready,
      reading := get_by_parent (store s) k, retries := note_success (retries s) k,
      reconciled := (reconciled s)(k := get_by_parent (store s) k) \<rparr>"
    using assms(2) by (simp add: worker_round_def loop_step_def reconcile_ends_def)
  show "queued (queue (worker_round km rc s)) = ks" "store (worker_round km rc s) = store s"
    "\<not> q_shutdown (queue (worker_round km rc s))" "synced (worker_round km rc s)"
    "worker (worker_round km rc s) = Ready"
    "\<And>p. retry_pending (retries (worker_round km rc s)) p \<longleftrightarrow> p \<noteq> k \<and> retry_pending (retries s) p"
    using assms(2,3) by (simp_all add: r)
qed

text \<open>
  C38: the loop drains: without further source events, one successful reconcile per queued
  parent empties the queue, leaves the store alone and brings every parent up to date that
  is not waiting for a retry.
\<close>

theorem loop_drains:
  assumes "loop_inv km s" "\<not> q_shutdown (queue s)" "synced s" "\<And>k. worker s \<noteq> Working k"
  shows "queued (queue ((worker_round km rc ^^ length (queued (queue s))) s)) = []
    \<and> store ((worker_round km rc ^^ length (queued (queue s))) s) = store s
    \<and> (reconciled ((worker_round km rc ^^ length (queued (queue s))) s) p = get_by_parent (store s) p
        \<or> retry_pending (retries s) p)"
  using assms
proof (induction "queued (queue s)" arbitrary: s)
  case Nil
  then show ?case using loop_invD(7) [OF Nil.prems(1,2), of p] by (auto simp: covered_def)
next
  case (Cons k ks)
  note ks = Cons.hyps(2) [symmetric]
  note R = worker_round_pops [OF Cons.prems ks, of rc]
  have inv: "loop_inv km (worker_round km rc s)"
    unfolding worker_round_def by (intro loop_step_inv Cons.prems(1)) (simp_all add: loop_event_ok_def)
  have it: "(worker_round km rc ^^ length (queued (queue s))) s
      = (worker_round km rc ^^ length (queued (queue (worker_round km rc s)))) (worker_round km rc s)"
    unfolding R(1) ks by (simp only: list.size funpow_simps_right comp_apply add_Suc_right add_0_right)
  have "worker (worker_round km rc s) \<noteq> Working k" for k using R(5) by simp
  from Cons.hyps(1) [OF R(1) [symmetric] inv R(3,4) this] R(2,6) show ?case unfolding it by auto
qed

theorem loop_drains_witness:
  "queued (queue ((worker_round example_key_map example_retry_config ^^ 2)
     (foldl (loop_step example_key_map example_retry_config) new_loop (take 2 example_events)))) = []"
proof -
  let ?s = "foldl (loop_step example_key_map example_retry_config) new_loop (take 2 example_events)"
  have ok: "list_all loop_event_ok (take 2 example_events)" "\<not> q_shutdown (queue ?s)" "synced ?s" "worker ?s = Ready"
    "length (queued (queue ?s)) = 2" by code_simp+
  have "\<And>k. worker ?s \<noteq> Working k" using ok(4) by simp
  from loop_drains [OF loop_run_inv [OF ok(1)] ok(2,3) this] ok(5) show ?thesis by simp
qed

section \<open>The Kubernetes reflector\<close>

text \<open>
  A raw watch frame: its type, the pod it carries (its name and itself), the resource version
  it reports and whether it rejects the cursor.
\<close>

record 'o watch_frame =
  frame_type :: string
  frame_pod :: "(string \<times> 'o) option"
  frame_version :: "string option"
  rejects_cursor :: bool

definition POD_EVENT_TYPES :: "string list" where
  "POD_EVENT_TYPES = [''ADDED'', ''MODIFIED'', ''DELETED'']"

definition to_source_event :: "'o watch_frame \<Rightarrow> 'o source_event option res" where
  "to_source_event f =
     (if frame_type f \<in> set POD_EVENT_TYPES
      then (case frame_pod f of
          None \<Rightarrow> Inl AssertionError
        | Some (key, obj) \<Rightarrow>
            Inr (Some (if frame_type f = ''DELETED'' then DeleteEvent key (Some obj) else UpsertEvent key obj)))
      else Inr None)"

text \<open>How a stream or a call failed: with an HTTP status when the exception carries one.\<close>

definition cursor_rejected :: "nat option \<Rightarrow> bool" where
  "cursor_rejected code \<longleftrightarrow> code = Some 410 \<or> code = Some 504"

text \<open>The cursor after an exception that is not an unreadable frame.\<close>

definition cursor_after_failure :: "string option \<Rightarrow> nat option \<Rightarrow> string option" where
  "cursor_after_failure cursor code = (if cursor_rejected code then None else cursor)"

text \<open>
  The frames of one stream and how it ends: \<open>Some code\<close> is an exception with that status, \<open>None\<close>
  the end of the stream.  The result is what is emitted and the cursor of the next round.
\<close>

fun stream_frames :: "string option \<Rightarrow> 'o watch_frame list \<Rightarrow> nat option option \<Rightarrow> 'o source_event list \<times> string option" where
  "stream_frames cursor [] ending = ([], (case ending of None \<Rightarrow> cursor | Some code \<Rightarrow> cursor_after_failure cursor code))"
| "stream_frames cursor (f # fs) ending =
     (if frame_type f = ''ERROR'' then ([], if rejects_cursor f then None else cursor)
      else (case to_source_event f of
          Inl _ \<Rightarrow> ([], None)
        | Inr e \<Rightarrow>
            let cursor' = (case frame_version f of None \<Rightarrow> cursor | Some v \<Rightarrow> if v = [] then cursor else Some v);
                (events, c) = stream_frames cursor' fs ending in
            ((case e of None \<Rightarrow> events | Some ev \<Rightarrow> ev # events), c)))"

text \<open>
  One round: a list call when there is no cursor, then one stream.  The page's pods become a
  dictionary by name, later ones winning.
\<close>

record 'o watch_round =
  page_listing :: "nat option + ((string \<times> 'o) list \<times> string)"
  round_frames :: "'o watch_frame list"
  round_ending :: "nat option option"

definition watch_once :: "string option \<Rightarrow> 'o watch_round \<Rightarrow> 'o source_event list \<times> string option" where
  "watch_once cursor r = (case cursor of
       Some v \<Rightarrow> stream_frames cursor (round_frames r) (round_ending r)
     | None \<Rightarrow> (case page_listing r of
         Inl code \<Rightarrow> ([], cursor_after_failure None code)
       | Inr (pods, version) \<Rightarrow>
           (let (events, c) = stream_frames (Some version) (round_frames r) (round_ending r) in
            (ReplaceEvent (dupdate [] pods) # events, c))))"

fun watch :: "string option \<Rightarrow> 'o watch_round list \<Rightarrow> 'o source_event list" where
  "watch cursor [] = []"
| "watch cursor (r # rs) = (let (events, c) = watch_once cursor r in events @ watch c rs)"

text \<open>The contract of a source: each time it lost its place it starts over with the whole world.\<close>

definition opens_with_replace :: "'o source_event list \<Rightarrow> bool" where
  "opens_with_replace es \<longleftrightarrow> (case es of [] \<Rightarrow> True | e # _ \<Rightarrow> is_replace e)"

lemma watch_none_opens: "opens_with_replace (watch None rs)"
proof (induction rs)
  case (Cons r rs)
  show ?case
  proof (cases "page_listing r")
    case (Inl code)
    with Cons show ?thesis by (simp add: watch_once_def cursor_after_failure_def)
  next
    case (Inr page)
    obtain pods version where "page = (pods, version)" by (cases page)
    with Inr show ?thesis
      by (cases "stream_frames (Some version) (round_frames r) (round_ending r)")
        (simp add: watch_once_def opens_with_replace_def is_replace_def)
  qed
qed (simp add: opens_with_replace_def)

lemma stream_frames_ok: "list_all event_ok (fst (stream_frames cursor fs ending))"
proof (induction cursor fs ending rule: stream_frames.induct)
  case (2 cursor f fs ending)
  show ?case
  proof (cases "frame_type f = ''ERROR''")
    case False
    show ?thesis
    proof (cases "to_source_event f")
      case (Inr e)
      have ev: "event_ok ev" if "e = Some ev" for ev
        using Inr that by (auto simp: to_source_event_def event_ok_def split: if_splits option.splits)
      obtain events c where st: "stream_frames (case frame_version f of None \<Rightarrow> cursor | Some v \<Rightarrow> if v = [] then cursor else Some v) fs ending = (events, c)"
        by fastforce
      from 2 [OF False Inr refl] have "list_all event_ok events" by (simp add: st)
      then show ?thesis using False Inr ev by (cases e) (simp_all add: st Let_def)
    qed (use False in simp)
  qed simp
qed simp

lemma watch_once_ok: "list_all event_ok (fst (watch_once cursor r))"
  using stream_frames_ok [of _ "round_frames r" "round_ending r"]
  by (auto simp: watch_once_def event_ok_def split: option.splits sum.splits prod.splits) (metis fst_conv)+

lemma watch_ok: "list_all event_ok (watch cursor rs)"
proof (induction rs arbitrary: cursor)
  case (Cons r rs)
  then show ?case using watch_once_ok [of cursor r] by (cases "watch_once cursor r") simp
qed simp

lemma watch_cons: "watch cursor (r # rs) = fst (watch_once cursor r) @ watch (snd (watch_once cursor r)) rs"
  by (cases "watch_once cursor r") simp

text \<open>
  The reflector keeps the contract of the loop's source: what it emits starts with the
  whole world, every event is well formed, and after any round that lost the cursor (a rejected
  cursor, an expired status, an unreadable frame) the next event starts the world over.
\<close>

theorem reflector_restarts_with_the_world:
  "opens_with_replace (watch None rounds) \<and> list_all event_ok (watch None rounds)
   \<and> (if snd (watch_once cursor r) = None then opens_with_replace (watch (snd (watch_once cursor r)) rounds) else True)
   \<and> watch cursor (r # rounds) = fst (watch_once cursor r) @ watch (snd (watch_once cursor r)) rounds"
  using watch_none_opens [of rounds] watch_ok [of None rounds] watch_cons [of cursor r rounds]
  by (cases "snd (watch_once cursor r)") (simp_all del: watch.simps)

section \<open>The polling loop\<close>

text \<open>
  \<open>PollingReconcileLoop._poll_once\<close>: cells whose information changed are reconciled in order;
  only a successful reconcile is remembered.
\<close>

definition poll_cell ::
  "(string \<rightharpoonup> 'i) \<Rightarrow> (string \<Rightarrow> 'i option \<Rightarrow> py_error option) \<Rightarrow> (string \<rightharpoonup> 'i) \<times> py_error option \<times> string list
   \<Rightarrow> string \<Rightarrow> (string \<rightharpoonup> 'i) \<times> py_error option \<times> string list" where
  "poll_cell observed reconcile_fn st cell_id =
     (let (seen, first_error, calls) = st in
      if seen cell_id = observed cell_id then st
      else (case reconcile_fn cell_id (observed cell_id) of
          Some err \<Rightarrow> (seen, (case first_error of None \<Rightarrow> Some err | Some e \<Rightarrow> Some e), calls @ [cell_id])
        | None \<Rightarrow> (seen(cell_id := observed cell_id), first_error, calls @ [cell_id])))"

definition poll_once ::
  "(string \<Rightarrow> 'i option \<Rightarrow> py_error option) \<Rightarrow> (string, 'i) dict \<Rightarrow> (string, 'i) dict
   \<Rightarrow> (string \<rightharpoonup> 'i) \<times> py_error option \<times> string list" where
  "poll_once reconcile_fn seen observed =
     foldl (poll_cell (dget observed) reconcile_fn) (dget seen, None, [])
       (sorted_list_of_set (set (dkeys seen) \<union> set (dkeys observed)))"

text \<open>\<open>apply_cell_observation\<close>: the calls on the worker set and the hash it then runs.\<close>

datatype cell_call = AddCell string | RemoveCell string

definition apply_cell_observation :: "string \<Rightarrow> string option \<Rightarrow> string option \<Rightarrow> cell_call list" where
  "apply_cell_observation cell_id observed actual = (case (observed, actual) of
       (Some _, None) \<Rightarrow> [AddCell cell_id]
     | (None, Some _) \<Rightarrow> [RemoveCell cell_id]
     | (Some h, Some h') \<Rightarrow> if h' \<noteq> h then [RemoveCell cell_id, AddCell cell_id] else []
     | (None, None) \<Rightarrow> [])"

lemma poll_cells:
  assumes "distinct ks"
  shows "case foldl (poll_cell w f) (seen, e0, calls0) ks of (seen', e, calls) \<Rightarrow>
     (\<forall>k. seen' k = (if k \<in> set ks \<and> f k (w k) = None then w k else seen k))
     \<and> (e = None \<longleftrightarrow> e0 = None \<and> (\<forall>k\<in>set ks. seen k = w k \<or> f k (w k) = None))
     \<and> calls = calls0 @ filter (\<lambda>k. seen k \<noteq> w k) ks"
  using assms
proof (induction ks rule: rev_induct)
  case (snoc k ks)
  obtain seen' e calls where st: "foldl (poll_cell w f) (seen, e0, calls0) ks = (seen', e, calls)"
    by (metis prod_cases3)
  from snoc st have IH: "\<forall>k. seen' k = (if k \<in> set ks \<and> f k (w k) = None then w k else seen k)"
    "e = None \<longleftrightarrow> e0 = None \<and> (\<forall>k\<in>set ks. seen k = w k \<or> f k (w k) = None)"
    "calls = calls0 @ filter (\<lambda>k. seen k \<noteq> w k) ks" by simp_all
  have k: "seen' k = seen k" using IH(1) snoc.prems by simp
  have step: "foldl (poll_cell w f) (seen, e0, calls0) (ks @ [k]) = poll_cell w f (seen', e, calls) k" by (simp add: st)
  have rest: "(\<forall>j\<in>set (ks @ [k]). seen j = w j \<or> f j (w j) = None)
      \<longleftrightarrow> (\<forall>j\<in>set ks. seen j = w j \<or> f j (w j) = None) \<and> (seen k = w k \<or> f k (w k) = None)" by auto
  show ?case
  proof (cases "seen k = w k")
    case True
    then have "poll_cell w f (seen', e, calls) k = (seen', e, calls)" by (simp add: poll_cell_def k)
    then show ?thesis unfolding step rest using IH True k by auto
  next
    case False
    show ?thesis
    proof (cases "f k (w k)")
      case None
      then have "poll_cell w f (seen', e, calls) k = (seen'(k := w k), e, calls @ [k])" using False by (simp add: poll_cell_def k)
      then show ?thesis unfolding step rest using IH None False by auto
    next
      case (Some err)
      then have "poll_cell w f (seen', e, calls) k
          = (seen', (case e of None \<Rightarrow> Some err | Some e \<Rightarrow> Some e), calls @ [k])" using False by (simp add: poll_cell_def k)
      then show ?thesis unfolding step rest using IH Some False by (auto split: option.splits)
    qed
  qed
qed simp

text \<open>
  One failing cell does not hold up the others: a poll reconciles exactly the cells that
  changed, remembers those that succeeded, leaves a failed one as it was so that the next poll
  tries it again, and reports an error exactly when one failed; without an error everything
  observed is remembered.
\<close>

theorem poll_isolates_failures:
  "case poll_once f seen observed of (seen', e, calls) \<Rightarrow>
     (\<forall>k. seen' k = (if dget seen k = dget observed k \<or> f k (dget observed k) = None then dget observed k else dget seen k))
     \<and> set calls = {k. dget seen k \<noteq> dget observed k} \<and> sorted calls \<and> distinct calls
     \<and> (e = None \<longleftrightarrow> seen' = dget observed)"
proof -
  let ?ks = "sorted_list_of_set (set (dkeys seen) \<union> set (dkeys observed))"
  obtain seen' e calls where st: "poll_once f seen observed = (seen', e, calls)" by (metis prod_cases3)
  have ks: "distinct ?ks" "sorted ?ks" "set ?ks = set (dkeys seen) \<union> set (dkeys observed)" by simp_all
  have out: "dget seen k = None \<and> dget observed k = None" if "k \<notin> set ?ks" for k
    using that ks(3) by (auto simp: map_of_eq_None_iff)
  from poll_cells [OF ks(1), where w = "dget observed" and f = f and seen = "dget seen" and ?e0.0 = None and ?calls0.0 = "[]"] st
  have P: "\<forall>k. seen' k = (if k \<in> set ?ks \<and> f k (dget observed k) = None then dget observed k else dget seen k)"
    "e = None \<longleftrightarrow> (\<forall>k\<in>set ?ks. dget seen k = dget observed k \<or> f k (dget observed k) = None)"
    "calls = filter (\<lambda>k. dget seen k \<noteq> dget observed k) ?ks" by (simp_all add: poll_once_def)
  have seen': "seen' k = (if dget seen k = dget observed k \<or> f k (dget observed k) = None then dget observed k else dget seen k)" for k
    using P(1) out [of k] by (cases "k \<in> set ?ks") auto
  have "set calls = {k. dget seen k \<noteq> dget observed k}"
  proof -
    have "k \<in> set ?ks" if "dget seen k \<noteq> dget observed k" for k using out [of k] that by (cases "k \<in> set ?ks") auto
    then show ?thesis unfolding P(3) by auto
  qed
  moreover have "sorted calls" "distinct calls" using P(3) ks by (simp_all add: sorted_wrt_filter)
  moreover have "e = None \<longleftrightarrow> seen' = dget observed"
    unfolding P(2) fun_eq_iff seen' using out by (metis (no_types, lifting))
  ultimately show ?thesis using seen' by (simp add: st)
qed

text \<open>Applying an observation leaves exactly the observed workers running.\<close>

definition run_cell_call :: "string option \<Rightarrow> string option \<Rightarrow> cell_call \<Rightarrow> string option" where
  "run_cell_call observed actual c = (case c of AddCell _ \<Rightarrow> observed | RemoveCell _ \<Rightarrow> None)"

lemma apply_cell_observation_reaches:
  "foldl (run_cell_call observed) actual (apply_cell_observation cell_id observed actual) = observed"
  by (auto simp: apply_cell_observation_def run_cell_call_def split: option.splits)

end
