(* ===== verification/TrainCells.thy ===== *)
theory TrainCells
  imports Prelude
begin

text \<open>
  One cell of the fault-tolerant trainer (\<open>ray/train\<close>): its place in the group (\<open>ft_utils/indep_dp.py\<close>), its
  state (\<open>cell_state.py\<close>, \<open>cell.py\<close>), the coroutines that a controller runs on it, as lists of operations cut at
  their awaits, and its reported status (\<open>cell_monitor.py\<close>).  What the workers compute is not modelled; whether a call to
  them succeeds is the environment's choice.
\<close>

section \<open>Group information\<close>

record indep_dp_info =
  info_cell_index :: nat
  num_cells :: nat
  alive_rank :: nat
  alive_size :: nat
  quorum_id :: nat
  alive_cell_indices :: "nat list"

text \<open>\<open>xs.index(x)\<close>\<close>

fun list_index :: "nat list \<Rightarrow> nat \<Rightarrow> nat res" where
  "list_index [] x = Inl ValueError"
| "list_index (y # ys) x = (if y = x then Inr 0 else rbind (list_index ys x) (\<lambda>i. Inr (Suc i)))"

lemma list_index_Inr: "list_index xs x = Inr i \<Longrightarrow> i < length xs \<and> xs ! i = x"
  by (induction xs arbitrary: i) (auto simp: rbind_Inr_iff split: if_splits)

lemma list_index_mem: "x \<in> set xs \<Longrightarrow> \<exists>i. list_index xs x = Inr i"
  by (induction xs) auto

lemma list_index_inj: "list_index xs x = Inr i \<Longrightarrow> list_index xs y = Inr i \<Longrightarrow> x = y"
  using list_index_Inr by metis

text \<open>The constructor's check of the rank and the size.\<close>

definition check_indep_dp_info :: "indep_dp_info \<Rightarrow> indep_dp_info res" where
  "check_indep_dp_info i =
     rbind (list_index (alive_cell_indices i) (info_cell_index i)) (\<lambda>r.
     rbind (py_assert (alive_rank i = r)) (\<lambda>_.
     rbind (py_assert (alive_size i = length (alive_cell_indices i))) (\<lambda>_. Inr i)))"

definition compute_indep_dp_info :: "nat \<Rightarrow> nat \<Rightarrow> nat \<Rightarrow> nat list \<Rightarrow> indep_dp_info res" where
  "compute_indep_dp_info n quorum index alive_indices =
     rbind (list_index alive_indices index) (\<lambda>r.
       check_indep_dp_info \<lparr> info_cell_index = index, num_cells = n, alive_rank = r, alive_size = length alive_indices,
         quorum_id = quorum, alive_cell_indices = alive_indices \<rparr>)"

lemma compute_indep_dp_info_Inr:
  "compute_indep_dp_info n quorum index alive_indices = Inr i \<longleftrightarrow>
    (\<exists>r. list_index alive_indices index = Inr r \<and> i = \<lparr> info_cell_index = index, num_cells = n, alive_rank = r,
       alive_size = length alive_indices, quorum_id = quorum, alive_cell_indices = alive_indices \<rparr>)"
  by (auto simp: compute_indep_dp_info_def check_indep_dp_info_def rbind_Inr_iff)

section \<open>The state of a cell\<close>

datatype cell_state =
    Uninitialized
  | Alive indep_dp_info
  | Errored "indep_dp_info option"

record trainer_cell =
  cell_index :: nat
  workers_hash :: string
  cell_state :: cell_state

definition is_alive :: "trainer_cell \<Rightarrow> bool" where
  "is_alive c = (case cell_state c of Alive _ \<Rightarrow> True | _ \<Rightarrow> False)"

definition is_errored :: "trainer_cell \<Rightarrow> bool" where
  "is_errored c = (case cell_state c of Errored _ \<Rightarrow> True | _ \<Rightarrow> False)"

definition is_uninitialized :: "trainer_cell \<Rightarrow> bool" where
  "is_uninitialized c = (cell_state c = Uninitialized)"

text \<open>The property \<open>indep_dp_info\<close>; an errored cell may carry none.\<close>

definition cell_info :: "trainer_cell \<Rightarrow> indep_dp_info option res" where
  "cell_info c = (case cell_state c of Uninitialized \<Rightarrow> Inl AssertionError | Alive i \<Rightarrow> Inr (Some i) | Errored i \<Rightarrow> Inr i)"

definition mark_as_alive :: "trainer_cell \<Rightarrow> indep_dp_info \<Rightarrow> trainer_cell res" where
  "mark_as_alive c i = rbind (py_assert (is_uninitialized c)) (\<lambda>_. Inr (c\<lparr> cell_state := Alive i \<rparr>))"

definition update_indep_dp_info :: "trainer_cell \<Rightarrow> indep_dp_info \<Rightarrow> trainer_cell res" where
  "update_indep_dp_info c i = rbind (py_assert (is_alive c)) (\<lambda>_. Inr (c\<lparr> cell_state := Alive i \<rparr>))"

definition mark_as_errored :: "trainer_cell \<Rightarrow> trainer_cell" where
  "mark_as_errored c = c\<lparr> cell_state := Errored (case cell_state c of
       Uninitialized \<Rightarrow> None | Alive i \<Rightarrow> Some i | Errored i \<Rightarrow> i) \<rparr>"

text \<open>The calls that a controller makes on the workers of a cell, and what the workers answer.\<close>

datatype worker_call =
    ConfigureMaster
  | InitWorkers indep_dp_info "nat option"
  | Reconfigure indep_dp_info
  | SendCkpt nat
  | Train nat
  | Forward string

datatype train_step_outcome = NORMAL | DISCARDED_SHOULD_RETRY

text \<open>Only a training step has outcomes; the answer of any other call carries none.\<close>

type_synonym answer = "train_step_outcome list res"

section \<open>Coroutines\<close>

text \<open>A coroutine of a cell is what is left of it: calls, at which it waits, and changes of the cell's state.\<close>

datatype cell_op =
    Call worker_call
  | BecomeAlive indep_dp_info
  | UpdateInfo indep_dp_info

definition init_cell :: "indep_dp_info \<Rightarrow> nat option \<Rightarrow> cell_op list" where
  "init_cell i recv_ckpt_src_rank = [Call ConfigureMaster, Call (InitWorkers i recv_ckpt_src_rank), BecomeAlive i]"

definition prepare_alive :: "indep_dp_info \<Rightarrow> nat list \<Rightarrow> cell_op list" where
  "prepare_alive i send_ckpt_dst_ranks = [Call (Reconfigure i), UpdateInfo i] @ map (\<lambda>dst. Call (SendCkpt dst)) send_ckpt_dst_ranks"

definition prepare_healing :: "indep_dp_info \<Rightarrow> nat option \<Rightarrow> cell_op list" where
  "prepare_healing i recv_ckpt_src_rank = init_cell i recv_ckpt_src_rank"

definition train_cell :: "nat \<Rightarrow> cell_op list" where
  "train_cell attempt = [Call (Train attempt)]"

text \<open>
  A task is a coroutine at one of its awaits: a call to the workers, the killing of the workers after a failed call, or
  its end.  Its cell is named by the place of the object in the heap of the controller.
\<close>

datatype task_status =
    Running "cell_op list"
  | Killing py_error
  | Ended answer

record cell_task =
  task_object :: nat
  task_status :: task_status

text \<open>On to the next call: the operations before it run at once.\<close>

fun next_call :: "trainer_cell \<Rightarrow> cell_op list \<Rightarrow> answer \<Rightarrow> trainer_cell \<times> task_status" where
  "next_call c [] answer = (c, Ended answer)"
| "next_call c (Call k # ops) answer = (c, Running (Call k # ops))"
| "next_call c (BecomeAlive i # ops) answer = (case mark_as_alive c i of Inl e \<Rightarrow> (c, Ended (Inl e)) | Inr c' \<Rightarrow> next_call c' ops answer)"
| "next_call c (UpdateInfo i # ops) answer = (case update_indep_dp_info c i of Inl e \<Rightarrow> (c, Ended (Inl e)) | Inr c' \<Rightarrow> next_call c' ops answer)"

text \<open>
  \<open>_execute_raw\<close>: a failing call marks the cell as errored at once, its workers are killed, and the exception goes on;
  when the workers cannot be confirmed dead, that exception replaces it.
\<close>

fun answer_status :: "trainer_cell \<Rightarrow> task_status \<Rightarrow> answer \<Rightarrow> trainer_cell \<times> task_status" where
  "answer_status c (Running (Call k # ops)) answer = (case answer of
       Inr outs \<Rightarrow> next_call c ops (Inr outs)
     | Inl e \<Rightarrow> (mark_as_errored c, Killing e))"
| "answer_status c (Killing e) answer = (case answer of Inr _ \<Rightarrow> (c, Ended (Inl e)) | Inl e' \<Rightarrow> (c, Ended (Inl e')))"
| "answer_status c st answer = (c, st)"

definition answer_task :: "trainer_cell list \<Rightarrow> cell_task list \<Rightarrow> nat \<Rightarrow> answer \<Rightarrow> trainer_cell list \<times> cell_task list" where
  "answer_task heap tasks k answer =
     (if k < length tasks
      then let t = tasks ! k; (c, st) = answer_status (heap ! task_object t) (task_status t) answer in
        (heap[task_object t := c], tasks[k := t\<lparr>task_status := st\<rparr>])
      else (heap, tasks))"

definition new_task :: "nat \<Rightarrow> cell_op list \<Rightarrow> cell_task" where
  "new_task obj ops = \<lparr> task_object = obj, task_status = Running ops \<rparr>"

definition task_result :: "cell_task \<Rightarrow> answer option" where
  "task_result t = (case task_status t of Ended r \<Rightarrow> Some r | _ \<Rightarrow> None)"

definition task_error :: "cell_task \<Rightarrow> py_error option" where
  "task_error t = (case task_status t of Ended (Inl e) \<Rightarrow> Some e | _ \<Rightarrow> None)"

definition all_ended :: "cell_task list \<Rightarrow> bool" where
  "all_ended tasks = list_all (\<lambda>t. task_result t \<noteq> None) tasks"

text \<open>\<open>_first_exception\<close>\<close>

definition first_exception :: "py_error option list \<Rightarrow> py_error option" where
  "first_exception rs = (case filter (\<lambda>r. r \<noteq> None) rs of [] \<Rightarrow> None | r # _ \<Rightarrow> r)"

section \<open>Reported status\<close>

datatype tri_state = TriTrue | TriFalse | TriUnknown

record cell_condition =
  cond_type :: string
  cond_status :: tri_state
  cond_reason :: "string option"

definition allocated_condition :: "tri_state \<Rightarrow> cell_condition" where
  "allocated_condition t = \<lparr> cond_type = ''Allocated'', cond_status = t, cond_reason = None \<rparr>"

definition healthy_condition :: "tri_state \<Rightarrow> string option \<Rightarrow> cell_condition" where
  "healthy_condition t reason = \<lparr> cond_type = ''Healthy'', cond_status = t, cond_reason = reason \<rparr>"

definition from_health_checker_status :: "tri_state \<Rightarrow> cell_condition" where
  "from_health_checker_status t = (case t of
       TriFalse \<Rightarrow> healthy_condition TriFalse (Some ''HealthCheckFailed'')
     | TriUnknown \<Rightarrow> healthy_condition TriUnknown (Some ''HealthCheckUnknown'')
     | TriTrue \<Rightarrow> healthy_condition TriTrue None)"

record cell_status =
  phase :: string
  conditions :: "cell_condition list"
  status_workers_hash :: string

definition compute_cell_status :: "cell_state \<Rightarrow> tri_state \<Rightarrow> string \<Rightarrow> cell_status" where
  "compute_cell_status st t hash =
     \<lparr> phase = ''Running'', conditions = [allocated_condition TriTrue,
         (case st of
            Alive _ \<Rightarrow> from_health_checker_status t
          | Uninitialized \<Rightarrow> healthy_condition TriTrue None
          | Errored _ \<Rightarrow> healthy_condition TriFalse (Some ''ExecutionErrored''))],
       status_workers_hash = hash \<rparr>"

section \<open>Facts on cells\<close>

lemma is_state_simps [simp]:
  "is_alive (mark_as_errored c) = False" "is_uninitialized (mark_as_errored c) = False" "is_errored (mark_as_errored c)"
  "cell_index (mark_as_errored c) = cell_index c"
  "is_alive (c\<lparr> cell_state := Alive i \<rparr>)" "\<not> is_uninitialized (c\<lparr> cell_state := Alive i \<rparr>)"
  by (simp_all add: is_alive_def is_uninitialized_def is_errored_def mark_as_errored_def)

lemma cell_state_cases: "is_alive c \<or> is_uninitialized c \<or> is_errored c"
  by (cases "cell_state c") (simp_all add: is_alive_def is_uninitialized_def is_errored_def)

lemma state_exclusive:
  "is_alive c \<Longrightarrow> \<not> is_uninitialized c" "is_alive c \<Longrightarrow> \<not> is_errored c" "is_uninitialized c \<Longrightarrow> \<not> is_errored c"
  by (cases "cell_state c"; simp add: is_alive_def is_uninitialized_def is_errored_def)+

text \<open>The information a cell carries while alive, and what a coroutine still has to give it.\<close>

definition info_of :: "trainer_cell \<Rightarrow> indep_dp_info option" where
  "info_of c = (case cell_state c of Alive i \<Rightarrow> Some i | _ \<Rightarrow> None)"

fun op_infos :: "cell_op list \<Rightarrow> indep_dp_info set" where
  "op_infos [] = {}"
| "op_infos (Call k # ops) = op_infos ops"
| "op_infos (BecomeAlive i # ops) = insert i (op_infos ops)"
| "op_infos (UpdateInfo i # ops) = insert i (op_infos ops)"

definition status_infos :: "task_status \<Rightarrow> indep_dp_info set" where
  "status_infos st = (case st of Running ops \<Rightarrow> op_infos ops | _ \<Rightarrow> {})"

lemma info_of_simps [simp]: "info_of (mark_as_errored c) = None" "info_of (c\<lparr>cell_state := Alive i\<rparr>) = Some i"
  by (simp_all add: info_of_def mark_as_errored_def)

lemma info_of_alive: "is_alive c \<longleftrightarrow> info_of c \<noteq> None"
  by (simp add: info_of_def is_alive_def split: cell_state.splits)

text \<open>A coroutine keeps its cell's identity; what the cell carries afterwards it carried before or the coroutine gave it.\<close>

lemma next_call_facts:
  assumes "next_call c ops answer = (c', st)"
  shows "cell_index c' = cell_index c" "workers_hash c' = workers_hash c"
    "info_of c' = Some i \<Longrightarrow> info_of c = Some i \<or> i \<in> op_infos ops" "status_infos st \<subseteq> op_infos ops"
    "st \<noteq> Running []" "is_uninitialized c' \<Longrightarrow> is_uninitialized c" "is_errored c' \<longleftrightarrow> is_errored c"
proof -
  have "cell_index c' = cell_index c \<and> workers_hash c' = workers_hash c \<and> (\<forall>i. info_of c' = Some i \<longrightarrow> info_of c = Some i \<or> i \<in> op_infos ops)
    \<and> status_infos st \<subseteq> op_infos ops \<and> st \<noteq> Running [] \<and> (is_uninitialized c' \<longrightarrow> is_uninitialized c) \<and> (is_errored c' \<longleftrightarrow> is_errored c)"
    using assms
  proof (induction c ops answer arbitrary: c' st rule: next_call.induct)
    case (3 c i ops answer)
    show ?case
    proof (cases "is_uninitialized c")
      case True
      then have m: "mark_as_alive c i = Inr (c\<lparr>cell_state := Alive i\<rparr>)" by (simp add: mark_as_alive_def)
      have "\<not> is_errored c" using True state_exclusive by blast
      with 3(1) [OF m, of c' st] 3(2) m True show ?thesis by (auto simp: is_errored_def)
    next
      case False
      then have "mark_as_alive c i = Inl AssertionError" by (simp add: mark_as_alive_def py_assert_def)
      with 3(2) show ?thesis by (auto simp: status_infos_def)
    qed
  next
    case (4 c i ops answer)
    show ?case
    proof (cases "is_alive c")
      case True
      then have m: "update_indep_dp_info c i = Inr (c\<lparr>cell_state := Alive i\<rparr>)" by (simp add: update_indep_dp_info_def)
      have "\<not> is_errored c" using True state_exclusive by blast
      with 4(1) [OF m, of c' st] 4(2) m True show ?thesis by (auto simp: is_errored_def)
    next
      case False
      then have "update_indep_dp_info c i = Inl AssertionError" by (simp add: update_indep_dp_info_def py_assert_def)
      with 4(2) show ?thesis by (auto simp: status_infos_def)
    qed
  qed (auto simp: status_infos_def)
  then show "cell_index c' = cell_index c" "workers_hash c' = workers_hash c"
    "info_of c' = Some i \<Longrightarrow> info_of c = Some i \<or> i \<in> op_infos ops" "status_infos st \<subseteq> op_infos ops"
    "st \<noteq> Running []" "is_uninitialized c' \<Longrightarrow> is_uninitialized c" "is_errored c' \<longleftrightarrow> is_errored c" by auto
qed

lemma answer_status_facts:
  assumes "answer_status c st answer = (c', st')"
  shows "cell_index c' = cell_index c" "workers_hash c' = workers_hash c"
    "info_of c' = Some i \<Longrightarrow> info_of c = Some i \<or> i \<in> status_infos st" "status_infos st' \<subseteq> status_infos st"
proof -
  have "cell_index c' = cell_index c \<and> workers_hash c' = workers_hash c
    \<and> (\<forall>i. info_of c' = Some i \<longrightarrow> info_of c = Some i \<or> i \<in> status_infos st) \<and> status_infos st' \<subseteq> status_infos st"
    using assms
  proof (cases "(c, st, answer)" rule: answer_status.cases)
    case (1 c k ops answer)
    show ?thesis
    proof (cases answer)
      case (Inl e)
      with 1 assms show ?thesis by (auto simp: status_infos_def mark_as_errored_def info_of_def)
    next
      case (Inr outs)
      then have "next_call c ops (Inr outs) = (c', st')" using 1 assms by simp
      from next_call_facts [OF this] show ?thesis using 1 by (auto simp: status_infos_def)
    qed
  qed (auto simp: status_infos_def split: sum.splits)
  then show "cell_index c' = cell_index c" "workers_hash c' = workers_hash c"
    "info_of c' = Some i \<Longrightarrow> info_of c = Some i \<or> i \<in> status_infos st" "status_infos st' \<subseteq> status_infos st" by auto
qed

end
