(* ===== verification/TrainGroup.thy ===== *)
theory TrainGroup
  imports TrainCells Reconcile
begin

text \<open>
  The controller of the trainer's cells (\<open>ray/train/group.py\<close>) as a machine that is cut at the awaits of its handlers:
  the watch adds and removes cells at any time, also while an initialisation, a regrouping or a training attempt waits for the
  workers; retries (\<open>utils/retry_utils.py\<close>) and the one-shot initialisation (\<open>utils/init_once.py\<close>) are part of it.
\<close>

section \<open>Initialisation, once\<close>

datatype init_state = NOT_INITED | INITIALIZING | INITED | INIT_FAILED

definition init_enter :: "init_state \<Rightarrow> init_state res" where
  "init_enter st = rbind (py_assert (st = NOT_INITED)) (\<lambda>_. Inr INITIALIZING)"

definition init_leave :: "init_state \<Rightarrow> bool \<Rightarrow> init_state res" where
  "init_leave st succeeded = rbind (py_assert (st = INITIALIZING)) (\<lambda>_. Inr (if succeeded then INITED else INIT_FAILED))"

section \<open>The state\<close>

text \<open>The plan of \<open>_refresh_cells\<close>: who is alive, who heals and whether the group must change.\<close>

record refresh_plan =
  healing :: "nat list"
  alive :: "nat list"
  will_alive :: "nat list"
  needs_reconfigure :: bool

text \<open>One call of \<open>train\<close>: the attempts made, the next delay of \<open>retry\<close> and the delays slept.\<close>

record train_retry =
  run_attempt :: nat
  run_delay :: real
  run_slept :: "real list"

definition new_run :: train_retry where
  "new_run = \<lparr> run_attempt = 0, run_delay = 1, run_slept = [] \<rparr>"

text \<open>Where the controller's client call stands: \<open>init\<close> at its two awaits, \<open>train\<close> at its three.\<close>

datatype activity =
    Idle
  | Observing
  | Initialising "cell_task list"
  | Regrouping train_retry refresh_plan "cell_task list"
  | Training train_retry "cell_task list"
  | Sleeping train_retry

text \<open>A call forwarded to the alive cells or to the first one.\<close>

record forward_call =
  forward_first :: bool
  forward_tasks :: "cell_task list"

type_synonym train_answer = "(nat \<times> train_step_outcome list) list res \<times> real list"

text \<open>
  Cells are objects: \<open>cell_heap\<close> holds every one ever created, and the dictionary names those that are watched.  A coroutine keeps
  its object when the dictionary drops it.  The last two fields record what the clients were answered.
\<close>

record trainer =
  cell_heap :: "trainer_cell list"
  cells_by_id :: "(string, nat) dict"
  current_quorum :: nat
  init_once :: init_state
  activity :: activity
  orphans :: "cell_task list"
  forwards :: "forward_call list"
  train_log :: "train_answer list"
  forward_log :: "unit res list"

definition new_trainer :: trainer where
  "new_trainer = \<lparr> cell_heap = [], cells_by_id = [], current_quorum = 0, init_once = NOT_INITED, activity = Idle,
     orphans = [], forwards = [], train_log = [], forward_log = [] \<rparr>"

text \<open>\<open>_cells\<close>: the watched cells by index.\<close>

definition cell_refs :: "trainer \<Rightarrow> nat list" where
  "cell_refs s = sort_key (\<lambda>r. cell_index (cell_heap s ! r)) (map snd (cells_by_id s))"

definition cells :: "trainer \<Rightarrow> trainer_cell list" where
  "cells s = map ((!) (cell_heap s)) (cell_refs s)"

definition is_recoverable :: "trainer \<Rightarrow> bool" where
  "is_recoverable s = list_ex is_alive (cells s)"

section \<open>The watch\<close>

definition add_cell :: "trainer \<Rightarrow> string \<Rightarrow> nat \<Rightarrow> string \<Rightarrow> trainer" where
  "add_cell s cell_id index hash = s\<lparr> cell_heap := cell_heap s @ [\<lparr> cell_index = index, workers_hash = hash, cell_state = Uninitialized \<rparr>],
     cells_by_id := dset (cells_by_id s) cell_id (length (cell_heap s)) \<rparr>"

definition remove_cell :: "trainer \<Rightarrow> string \<Rightarrow> trainer" where
  "remove_cell s cell_id = s\<lparr> cells_by_id := ddel (cells_by_id s) cell_id \<rparr>"

definition watch_call :: "nat \<Rightarrow> string \<Rightarrow> trainer \<Rightarrow> cell_call \<Rightarrow> trainer" where
  "watch_call index hash s call = (case call of
       AddCell cell_id \<Rightarrow> add_cell s cell_id index hash
     | RemoveCell cell_id \<Rightarrow> remove_cell s cell_id)"

text \<open>\<open>_reconcile\<close> of one observation: the observed hash of the cell's workers, or its absence.\<close>

definition reconcile_cell :: "trainer \<Rightarrow> string \<Rightarrow> nat \<Rightarrow> string option \<Rightarrow> trainer" where
  "reconcile_cell s cell_id index observed =
     (let actual = map_option (\<lambda>r. workers_hash (cell_heap s ! r)) (dget (cells_by_id s) cell_id) in
      foldl (watch_call index (case observed of None \<Rightarrow> [] | Some h \<Rightarrow> h)) s (apply_cell_observation cell_id observed actual))"

section \<open>Regrouping\<close>

definition indices_of :: "(trainer_cell \<Rightarrow> bool) \<Rightarrow> trainer \<Rightarrow> nat list" where
  "indices_of P s = map cell_index (filter P (cells s))"

definition config_changed :: "nat list \<Rightarrow> nat list \<Rightarrow> trainer_cell \<Rightarrow> bool res" where
  "config_changed alive_now target c =
     (if cell_index c \<in> set alive_now
      then rbind (cell_info c) (\<lambda>i. case i of None \<Rightarrow> Inl TypeError | Some i \<Rightarrow> Inr (alive_cell_indices i \<noteq> target))
      else Inr False)"

definition plan_refresh :: "trainer \<Rightarrow> refresh_plan res" where
  "plan_refresh s =
     (let heal = indices_of is_uninitialized s; live = indices_of is_alive s;
          target = sort (remdups (heal @ live)) in
      if live = [] then Inl NonRetryableError
      else rbind (res_all (map (config_changed live target) (cells s))) (\<lambda>changed.
        Inr \<lparr> healing = heal, alive = live, will_alive = target,
          needs_reconfigure = (heal \<noteq> [] \<or> True \<in> set changed) \<rparr>))"

text \<open>What one cell of the plan is to do in the cooperative preparation.\<close>

definition prepare_ops :: "nat \<Rightarrow> nat \<Rightarrow> refresh_plan \<Rightarrow> nat \<Rightarrow> cell_op list res" where
  "prepare_ops n quorum p index =
     (let src = hd (alive p) in
      rbind (list_index (will_alive p) src) (\<lambda>src_rank.
      rbind (res_all (map (list_index (will_alive p)) (healing p))) (\<lambda>dst_ranks.
      rbind (compute_indep_dp_info n quorum index (will_alive p)) (\<lambda>i.
        Inr (if index \<in> set (alive p) then prepare_alive i (if index = src then dst_ranks else [])
             else prepare_healing i (if index \<in> set (healing p) then Some src_rank else None))))))"

definition prepare_tasks :: "trainer \<Rightarrow> refresh_plan \<Rightarrow> cell_task list res" where
  "prepare_tasks s p =
     res_all (map (\<lambda>r. rbind (prepare_ops (length (cells_by_id s)) (current_quorum s) p (cell_index (cell_heap s ! r))) (\<lambda>ops. Inr (new_task r ops)))
       (filter (\<lambda>r. cell_index (cell_heap s ! r) \<in> set (will_alive p)) (cell_refs s)))"

section \<open>Verdicts\<close>

definition all_cells_failed_error :: "trainer \<Rightarrow> py_error option \<Rightarrow> py_error" where
  "all_cells_failed_error s cause =
     (if cause = Some NonRetryableError then NonRetryableError
      else if is_recoverable s then RuntimeError else NonRetryableError)"

text \<open>Of one attempt: the index of every cell of the snapshot with its error or its workers' outcomes.\<close>

type_synonym train_result = "nat \<times> answer"

definition errored_cells :: "train_result list \<Rightarrow> nat list" where
  "errored_cells rs = map fst (filter (\<lambda>r. isl (snd r)) rs)"

definition discarded_cells :: "train_result list \<Rightarrow> nat list" where
  "discarded_cells rs = map fst (filter (\<lambda>r. case snd r of Inl _ \<Rightarrow> False | Inr os \<Rightarrow> DISCARDED_SHOULD_RETRY \<in> set os) rs)"

definition normal_cells :: "train_result list \<Rightarrow> nat list" where
  "normal_cells rs = map fst (filter (\<lambda>r. fst r \<notin> set (errored_cells rs) \<and> fst r \<notin> set (discarded_cells rs)) rs)"

definition check_train_one_attempt :: "trainer \<Rightarrow> train_result list \<Rightarrow> unit res" where
  "check_train_one_attempt s rs =
     (if normal_cells rs = [] \<and> discarded_cells rs = []
      then Inl (all_cells_failed_error s (first_exception (map (\<lambda>r. case snd r of Inl e \<Rightarrow> Some e | Inr _ \<Rightarrow> None) rs)))
      else if discarded_cells rs \<noteq> [] then Inl ValueError
      else Inr ())"

definition train_results :: "trainer \<Rightarrow> cell_task list \<Rightarrow> train_result list" where
  "train_results s tasks = map (\<lambda>t. (cell_index (cell_heap s ! task_object t), the (task_result t))) tasks"

definition worker_results :: "train_result list \<Rightarrow> (nat \<times> train_step_outcome list) list" where
  "worker_results rs = List.map_filter (\<lambda>(i, r). case r of Inl _ \<Rightarrow> None | Inr os \<Rightarrow> Some (i, os)) rs"

section \<open>One call of train\<close>

definition RETRY_MAX_ATTEMPTS :: nat where
  "RETRY_MAX_ATTEMPTS = 30"

definition train_returns :: "train_retry \<Rightarrow> (nat \<times> train_step_outcome list) list res \<Rightarrow> trainer \<Rightarrow> trainer" where
  "train_returns run r s = s\<lparr> activity := Idle, train_log := train_log s @ [(r, run_slept run)] \<rparr>"

text \<open>\<open>retry\<close> after a failed attempt: give up, or sleep and double the delay up to a minute.\<close>

definition attempt_fails :: "train_retry \<Rightarrow> py_error \<Rightarrow> trainer \<Rightarrow> trainer" where
  "attempt_fails run e s =
     (if e = NonRetryableError \<or> RETRY_MAX_ATTEMPTS \<le> run_attempt run + 1 then train_returns run (Inl e) s
      else s\<lparr> activity := Sleeping \<lparr> run_attempt = run_attempt run + 1, run_delay = min (run_delay run * 2) 60,
             run_slept = run_slept run @ [run_delay run] \<rparr> \<rparr>)"

text \<open>\<open>_gather_all_alive_and_catch\<close> up to its await.\<close>

definition alive_refs :: "trainer \<Rightarrow> nat list" where
  "alive_refs s = filter (\<lambda>r. is_alive (cell_heap s ! r)) (cell_refs s)"

definition start_training :: "train_retry \<Rightarrow> trainer \<Rightarrow> trainer" where
  "start_training run s =
     (if alive_refs s = [] then attempt_fails run NonRetryableError s
      else s\<lparr> activity := Training run (map (\<lambda>r. new_task r (train_cell (run_attempt run))) (alive_refs s)) \<rparr>)"

text \<open>\<open>_fn\<close> and \<open>_refresh_cells\<close> up to the first await: the quorum is bumped before the cells prepare.\<close>

definition start_attempt :: "train_retry \<Rightarrow> trainer \<Rightarrow> trainer" where
  "start_attempt run s = (case plan_refresh s of
       Inl e \<Rightarrow> attempt_fails run e s
     | Inr p \<Rightarrow>
         if \<not> needs_reconfigure p then start_training run s
         else let s' = s\<lparr> current_quorum := current_quorum s + 1 \<rparr> in
           (case prepare_tasks s' p of
              Inl e \<Rightarrow> attempt_fails run e s'
            | Inr tasks \<Rightarrow> s'\<lparr> activity := Regrouping run p tasks \<rparr>))"

text \<open>The end of \<open>_refresh_cells\<close>: when no preparation raised, the group is asserted to be the planned one.\<close>

definition regroup_ends :: "trainer \<Rightarrow> trainer" where
  "regroup_ends s = (case activity s of
       Regrouping run p tasks \<Rightarrow>
         if \<not> all_ended tasks then s
         else if list_all (\<lambda>t. task_error t = None) tasks \<and> indices_of is_alive s \<noteq> will_alive p
         then attempt_fails run AssertionError s
         else start_training run s
     | _ \<Rightarrow> s)"

definition training_ends :: "trainer \<Rightarrow> trainer" where
  "training_ends s = (case activity s of
       Training run tasks \<Rightarrow>
         if \<not> all_ended tasks then s
         else let rs = train_results s tasks in
           (case check_train_one_attempt s rs of
              Inl e \<Rightarrow> attempt_fails run e s
            | Inr _ \<Rightarrow> train_returns run (Inr (worker_results rs)) s)
     | _ \<Rightarrow> s)"

definition train_wakes :: "trainer \<Rightarrow> trainer" where
  "train_wakes s = (case activity s of Sleeping run \<Rightarrow> start_attempt run s | _ \<Rightarrow> s)"

text \<open>The client awaits each call, and trains only after a successful initialisation.\<close>

definition train_starts :: "trainer \<Rightarrow> trainer" where
  "train_starts s = (if activity s = Idle \<and> init_once s = INITED then start_attempt new_run s else s)"

section \<open>Initialisation\<close>

definition leave_init :: "bool \<Rightarrow> cell_task list \<Rightarrow> trainer \<Rightarrow> trainer" where
  "leave_init succeeded left s = (case init_leave (init_once s) succeeded of
       Inl _ \<Rightarrow> s | Inr st \<Rightarrow> s\<lparr> init_once := st, activity := Idle, orphans := orphans s @ left \<rparr>)"

definition init_starts :: "trainer \<Rightarrow> trainer" where
  "init_starts s = (case init_enter (init_once s) of Inl _ \<Rightarrow> s | Inr st \<Rightarrow> s\<lparr> init_once := st, activity := Observing \<rparr>)"

text \<open>After \<open>_wait_expected_num_cells\<close> the first group is to be all cells, numbered from zero.\<close>

definition initial_task :: "trainer \<Rightarrow> nat \<Rightarrow> cell_task res" where
  "initial_task s r =
     (let n = length (cells_by_id s) in
      rbind (compute_indep_dp_info n (current_quorum s) (cell_index (cell_heap s ! r)) [0..<n]) (\<lambda>i. Inr (new_task r (init_cell i None))))"

definition init_gathers :: "nat \<Rightarrow> trainer \<Rightarrow> trainer" where
  "init_gathers expected s =
     (if activity s \<noteq> Observing \<or> length (cells_by_id s) < expected then s
      else (case res_all (map (initial_task s) (cell_refs s)) of
          Inl e \<Rightarrow> leave_init False [] s
        | Inr tasks \<Rightarrow> s\<lparr> activity := Initialising tasks \<rparr>))"

definition init_times_out :: "nat \<Rightarrow> trainer \<Rightarrow> trainer" where
  "init_times_out expected s =
     (if activity s = Observing \<and> length (cells_by_id s) < expected then leave_init False [] s else s)"

text \<open>\<open>asyncio.gather\<close> raises at the first exception; the coroutines that are left run on.\<close>

definition init_ends :: "trainer \<Rightarrow> trainer" where
  "init_ends s = (case activity s of
       Initialising tasks \<Rightarrow>
         if list_ex (\<lambda>t. task_error t \<noteq> None) tasks then leave_init False tasks s
         else if all_ended tasks then leave_init True [] s
         else s
     | _ \<Rightarrow> s)"

section \<open>Forwarded calls\<close>

definition forward_starts :: "bool \<Rightarrow> string \<Rightarrow> trainer \<Rightarrow> trainer" where
  "forward_starts first name s =
     (let refs = (if first then take 1 (alive_refs s) else alive_refs s) in
      if refs = [] then s\<lparr> forward_log := forward_log s @ [Inl NonRetryableError] \<rparr>
      else s\<lparr> forwards := forwards s @ [\<lparr> forward_first = first, forward_tasks = map (\<lambda>r. new_task r [Call (Forward name)]) refs \<rparr>] \<rparr>)"

text \<open>
  \<open>_execute_first_alive\<close> passes the error on, \<open>_execute_all_alive_and_catch\<close> swallows it; both raise another one when no cell can recover.
\<close>

definition forward_result :: "trainer \<Rightarrow> forward_call \<Rightarrow> unit res" where
  "forward_result s f =
     (let cause = first_exception (map task_error (forward_tasks f)) in
      if forward_first f
      then (case cause of None \<Rightarrow> Inr () | Some e \<Rightarrow> Inl (if is_recoverable s then e else all_cells_failed_error s cause))
      else if is_recoverable s then Inr () else Inl (all_cells_failed_error s cause))"

definition forward_ends :: "nat \<Rightarrow> trainer \<Rightarrow> trainer" where
  "forward_ends k s =
     (if k < length (forwards s) \<and> all_ended (forward_tasks (forwards s ! k))
      then s\<lparr> forwards := take k (forwards s) @ drop (k + 1) (forwards s), forward_log := forward_log s @ [forward_result s (forwards s ! k)] \<rparr>
      else s)"

section \<open>The machine\<close>

text \<open>A call of a coroutine's workers answers, in the awaited gather, in one that init left behind, or in a forwarded call.\<close>

definition main_tasks :: "activity \<Rightarrow> cell_task list" where
  "main_tasks a = (case a of Initialising ts \<Rightarrow> ts | Regrouping _ _ ts \<Rightarrow> ts | Training _ ts \<Rightarrow> ts | _ \<Rightarrow> [])"

definition with_tasks :: "activity \<Rightarrow> cell_task list \<Rightarrow> activity" where
  "with_tasks a ts = (case a of Initialising _ \<Rightarrow> Initialising ts | Regrouping run p _ \<Rightarrow> Regrouping run p ts
     | Training run _ \<Rightarrow> Training run ts | _ \<Rightarrow> a)"

definition main_answers :: "nat \<Rightarrow> answer \<Rightarrow> trainer \<Rightarrow> trainer" where
  "main_answers k answer s =
     (let (heap, ts) = answer_task (cell_heap s) (main_tasks (activity s)) k answer in
      s\<lparr> cell_heap := heap, activity := with_tasks (activity s) ts \<rparr>)"

definition orphan_answers :: "nat \<Rightarrow> answer \<Rightarrow> trainer \<Rightarrow> trainer" where
  "orphan_answers k answer s =
     (let (heap, ts) = answer_task (cell_heap s) (orphans s) k answer in s\<lparr> cell_heap := heap, orphans := ts \<rparr>)"

definition forward_answers :: "nat \<Rightarrow> nat \<Rightarrow> answer \<Rightarrow> trainer \<Rightarrow> trainer" where
  "forward_answers j k answer s =
     (if j < length (forwards s)
      then let (heap, ts) = answer_task (cell_heap s) (forward_tasks (forwards s ! j)) k answer in
        s\<lparr> cell_heap := heap, forwards := (forwards s)[j := (forwards s ! j)\<lparr>forward_tasks := ts\<rparr>] \<rparr>
      else s)"

datatype trainer_event =
    InitStarts
  | InitGathers
  | InitTimesOut
  | InitEnds
  | CellObserved string "string option"
  | TrainStarts
  | RegroupEnds
  | TrainingEnds
  | TrainWakes
  | ForwardStarts bool string
  | ForwardEnds nat
  | MainAnswers nat answer
  | OrphanAnswers nat answer
  | ForwardAnswers nat nat answer

text \<open>The watch runs from the start of \<open>init\<close>; a cell's index is a function of its id.\<close>

definition trainer_step :: "nat \<Rightarrow> (string \<Rightarrow> nat) \<Rightarrow> trainer \<Rightarrow> trainer_event \<Rightarrow> trainer" where
  "trainer_step expected idx s ev = (case ev of
       InitStarts \<Rightarrow> init_starts s
     | InitGathers \<Rightarrow> init_gathers expected s
     | InitTimesOut \<Rightarrow> init_times_out expected s
     | InitEnds \<Rightarrow> init_ends s
     | CellObserved cell_id observed \<Rightarrow> if init_once s = NOT_INITED then s else reconcile_cell s cell_id (idx cell_id) observed
     | TrainStarts \<Rightarrow> train_starts s
     | RegroupEnds \<Rightarrow> regroup_ends s
     | TrainingEnds \<Rightarrow> training_ends s
     | TrainWakes \<Rightarrow> train_wakes s
     | ForwardStarts first name \<Rightarrow> forward_starts first name s
     | ForwardEnds k \<Rightarrow> forward_ends k s
     | MainAnswers k answer \<Rightarrow> main_answers k answer s
     | OrphanAnswers k answer \<Rightarrow> orphan_answers k answer s
     | ForwardAnswers j k answer \<Rightarrow> forward_answers j k answer s)"

section \<open>Facts on lists of cells\<close>

lemma set_cell_refs [simp]: "set (cell_refs s) = snd ` set (cells_by_id s)"
  by (simp add: cell_refs_def)

lemma set_cells [simp]: "set (cells s) = (!) (cell_heap s) ` snd ` set (cells_by_id s)"
  by (simp add: cells_def)

lemma set_alive_refs: "r \<in> set (alive_refs s) \<longleftrightarrow> r \<in> snd ` set (cells_by_id s) \<and> is_alive (cell_heap s ! r)"
  by (auto simp: alive_refs_def)

lemma recoverable_refs: "is_recoverable s \<longleftrightarrow> alive_refs s \<noteq> []"
  by (auto simp: is_recoverable_def alive_refs_def cells_def list_ex_iff filter_empty_conv)

text \<open>Watched cells are in the heap, each under the index of its id.\<close>

definition refs_ok :: "(string \<Rightarrow> nat) \<Rightarrow> trainer_cell list \<Rightarrow> (string, nat) dict \<Rightarrow> bool" where
  "refs_ok idx heap ids \<longleftrightarrow> dict_ok ids \<and> list_all (\<lambda>(k, r). r < length heap \<and> cell_index (heap ! r) = idx k) ids"

lemma refs_okD: "refs_ok idx heap ids \<Longrightarrow> (k, r) \<in> set ids \<Longrightarrow> r < length heap \<and> cell_index (heap ! r) = idx k"
  by (auto simp: refs_ok_def list_all_iff)

lemma indices_distinct:
  assumes "refs_ok idx (cell_heap s) (cells_by_id s)" "inj idx"
  shows "distinct (map cell_index (cells s))"
proof -
  have "map (\<lambda>r. cell_index (cell_heap s ! r)) (map snd (cells_by_id s)) = map idx (dkeys (cells_by_id s))"
    using refs_okD [OF assms(1)] by auto
  moreover have "distinct (map idx (dkeys (cells_by_id s)))"
    using assms unfolding refs_ok_def dict_ok_def by (metis distinct_map inj_on_subset subset_UNIV)
  moreover have "mset (map cell_index (cells s)) = mset (map (\<lambda>r. cell_index (cell_heap s ! r)) (map snd (cells_by_id s)))"
    by (simp add: cells_def cell_refs_def multiset.map_comp comp_def)
  ultimately show ?thesis by (metis mset_eq_imp_distinct_iff)
qed

lemma index_in_indices_of:
  assumes "distinct (map cell_index (cells s))" "c \<in> set (cells s)"
  shows "cell_index c \<in> set (indices_of P s) \<longleftrightarrow> P c"
proof
  assume "cell_index c \<in> set (indices_of P s)"
  then obtain d where d: "d \<in> set (cells s)" "P d" "cell_index d = cell_index c" by (auto simp: indices_of_def simp del: set_cells)
  moreover have "d = c" using assms d by (metis distinct_map inj_onD)
  ultimately show "P c" by simp
qed (use assms in \<open>auto simp: indices_of_def simp del: set_cells\<close>)

lemma plan_refresh_Inr:
  assumes p: "plan_refresh s = Inr p"
  shows "healing p = indices_of is_uninitialized s" "alive p = indices_of is_alive s" "alive p \<noteq> []"
    "set (will_alive p) = set (healing p) \<union> set (alive p)"
    "\<not> needs_reconfigure p \<Longrightarrow> healing p = []"
proof -
  obtain changed where r: "indices_of is_alive s \<noteq> []"
    "p = \<lparr> healing = indices_of is_uninitialized s, alive = indices_of is_alive s,
       will_alive = sort (remdups (indices_of is_uninitialized s @ indices_of is_alive s)),
       needs_reconfigure = (indices_of is_uninitialized s \<noteq> [] \<or> True \<in> set changed) \<rparr>"
    using p by (simp add: plan_refresh_def Let_def rbind_Inr_iff split: if_splits) blast
  show "healing p = indices_of is_uninitialized s" "alive p = indices_of is_alive s" "alive p \<noteq> []"
    "set (will_alive p) = set (healing p) \<union> set (alive p)" using r by simp_all
  show "\<not> needs_reconfigure p \<Longrightarrow> healing p = []" using r(2) by simp
qed

section \<open>Groups\<close>

text \<open>
  \<open>G\<close> names the group of every quorum: its number of cells and its members.  An information is right for a cell when it is what this
  group gives it.
\<close>

type_synonym groups = "nat \<Rightarrow> nat \<times> nat list"

definition info_ok :: "groups \<Rightarrow> nat \<Rightarrow> nat \<Rightarrow> indep_dp_info \<Rightarrow> bool" where
  "info_ok G q index i \<longleftrightarrow> quorum_id i \<le> q
     \<and> compute_indep_dp_info (fst (G (quorum_id i))) (quorum_id i) index (snd (G (quorum_id i))) = Inr i"

definition heap_ok :: "groups \<Rightarrow> nat \<Rightarrow> trainer_cell list \<Rightarrow> bool" where
  "heap_ok G q heap \<longleftrightarrow> list_all (\<lambda>c. \<forall>i. info_of c = Some i \<longrightarrow> info_ok G q (cell_index c) i) heap"

text \<open>What a coroutine still has to give its cell belongs to the current quorum.\<close>

definition coroutine_ok :: "groups \<Rightarrow> nat \<Rightarrow> trainer_cell list \<Rightarrow> cell_task \<Rightarrow> bool" where
  "coroutine_ok G q heap t \<longleftrightarrow> task_object t < length heap
     \<and> (\<forall>i\<in>status_infos (task_status t). quorum_id i = q \<and> info_ok G q (cell_index (heap ! task_object t)) i)"

definition plain_task :: "trainer_cell list \<Rightarrow> cell_task \<Rightarrow> bool" where
  "plain_task heap t \<longleftrightarrow> task_object t < length heap \<and> status_infos (task_status t) = {}"

text \<open>A preparation that will update its cell as soon as the pending call returns.\<close>

definition updating :: "task_status \<Rightarrow> bool" where
  "updating st = (case st of Running (Call k # UpdateInfo i # ops) \<Rightarrow> True | _ \<Rightarrow> False)"

definition regroup_tasks :: "activity \<Rightarrow> cell_task list" where
  "regroup_tasks a = (case a of Regrouping _ _ ts \<Rightarrow> ts | _ \<Rightarrow> [])"

definition up_to_date :: "nat \<Rightarrow> trainer_cell list \<Rightarrow> (string, nat) dict \<Rightarrow> cell_task list \<Rightarrow> bool" where
  "up_to_date q heap ids ts \<longleftrightarrow> (\<forall>r\<in>snd ` set ids. \<forall>i. info_of (heap ! r) = Some i \<longrightarrow>
     quorum_id i = q \<or> (\<exists>t\<in>set ts. task_object t = r \<and> updating (task_status t)))"

text \<open>How the client's call, the one-shot guard and what init left behind go together.\<close>

definition mode_ok :: "trainer \<Rightarrow> bool" where
  "mode_ok s \<longleftrightarrow> (case activity s of
       Idle \<Rightarrow> init_once s \<noteq> INITIALIZING
     | Observing \<Rightarrow> init_once s = INITIALIZING \<and> list_all (\<lambda>c. info_of c = None) (cell_heap s)
     | Initialising _ \<Rightarrow> init_once s = INITIALIZING
     | _ \<Rightarrow> init_once s = INITED)
     \<and> (init_once s = NOT_INITED \<longrightarrow> cell_heap s = [] \<and> cells_by_id s = [])
     \<and> (orphans s \<noteq> [] \<longrightarrow> init_once s = INIT_FAILED)"

definition group_infos_ok :: "trainer \<Rightarrow> bool" where
  "group_infos_ok s \<longleftrightarrow> (\<exists>G. heap_ok G (current_quorum s) (cell_heap s)
     \<and> list_all (coroutine_ok G (current_quorum s) (cell_heap s)) (main_tasks (activity s) @ orphans s))"

definition trainer_inv :: "(string \<Rightarrow> nat) \<Rightarrow> trainer \<Rightarrow> bool" where
  "trainer_inv idx s \<longleftrightarrow> refs_ok idx (cell_heap s) (cells_by_id s) \<and> group_infos_ok s
     \<and> list_all (\<lambda>f. list_all (plain_task (cell_heap s)) (forward_tasks f)) (forwards s)
     \<and> up_to_date (current_quorum s) (cell_heap s) (cells_by_id s) (regroup_tasks (activity s)) \<and> mode_ok s"

lemma new_trainer_inv: "trainer_inv idx new_trainer"
  by (simp add: trainer_inv_def new_trainer_def refs_ok_def group_infos_ok_def heap_ok_def main_tasks_def up_to_date_def mode_ok_def)

section \<open>An answer\<close>

lemma answer_task_facts:
  assumes "answer_task heap ts k answer = (heap', ts')" "list_all (\<lambda>t. task_object t < length heap) ts"
  shows "length heap' = length heap" "length ts' = length ts"
    "r < length heap \<Longrightarrow> cell_index (heap' ! r) = cell_index (heap ! r)"
    "r < length heap \<Longrightarrow> workers_hash (heap' ! r) = workers_hash (heap ! r)"
    "r < length heap \<Longrightarrow> info_of (heap' ! r) = Some i \<Longrightarrow>
       info_of (heap ! r) = Some i \<or> (\<exists>t\<in>set ts. task_object t = r \<and> i \<in> status_infos (task_status t))"
    "j < length ts \<Longrightarrow> task_object (ts' ! j) = task_object (ts ! j)"
    "j < length ts \<Longrightarrow> status_infos (task_status (ts' ! j)) \<subseteq> status_infos (task_status (ts ! j))"
proof -
  have "length heap' = length heap \<and> length ts' = length ts
    \<and> (\<forall>r<length heap. cell_index (heap' ! r) = cell_index (heap ! r) \<and> workers_hash (heap' ! r) = workers_hash (heap ! r)
        \<and> (\<forall>i. info_of (heap' ! r) = Some i \<longrightarrow> info_of (heap ! r) = Some i \<or> (\<exists>t\<in>set ts. task_object t = r \<and> i \<in> status_infos (task_status t))))
    \<and> (\<forall>j<length ts. task_object (ts' ! j) = task_object (ts ! j) \<and> status_infos (task_status (ts' ! j)) \<subseteq> status_infos (task_status (ts ! j)))"
  proof (cases "k < length ts")
    case True
    let ?t = "ts ! k"
    obtain c st where a: "answer_status (heap ! task_object ?t) (task_status ?t) answer = (c, st)" by fastforce
    have h: "heap' = heap[task_object ?t := c]" "ts' = ts[k := ?t\<lparr>task_status := st\<rparr>]"
      using assms(1) True by (simp_all add: answer_task_def a Let_def)
    have o: "task_object ?t < length heap" using assms(2) True by (simp add: list_all_length)
    show ?thesis using answer_status_facts [OF a] o True unfolding h
      by (auto simp: nth_list_update intro!: bexI [of _ ?t])
  qed (use assms in \<open>simp add: answer_task_def\<close>)
  then show "length heap' = length heap" "length ts' = length ts"
    "r < length heap \<Longrightarrow> cell_index (heap' ! r) = cell_index (heap ! r)"
    "r < length heap \<Longrightarrow> workers_hash (heap' ! r) = workers_hash (heap ! r)"
    "r < length heap \<Longrightarrow> info_of (heap' ! r) = Some i \<Longrightarrow>
       info_of (heap ! r) = Some i \<or> (\<exists>t\<in>set ts. task_object t = r \<and> i \<in> status_infos (task_status t))"
    "j < length ts \<Longrightarrow> task_object (ts' ! j) = task_object (ts ! j)"
    "j < length ts \<Longrightarrow> status_infos (task_status (ts' ! j)) \<subseteq> status_infos (task_status (ts ! j))" by auto
qed

lemma updating_answer:
  assumes "updating st" "answer_status c st answer = (c', st')" "info_of c' = Some i"
  shows "i \<in> status_infos st"
proof -
  obtain k j ops where st: "st = Running (Call k # UpdateInfo j # ops)"
    using assms(1) by (auto simp: updating_def split: task_status.splits list.splits cell_op.splits)
  show ?thesis
  proof (cases answer)
    case (Inl e)
    then show ?thesis using assms st by auto
  next
    case (Inr outs)
    show ?thesis
    proof (cases "is_alive c")
      case True
      then have "next_call (c\<lparr>cell_state := Alive j\<rparr>) ops (Inr outs) = (c', st')"
        using assms(2) st Inr by (simp add: update_indep_dp_info_def)
      from next_call_facts(3) [OF this assms(3)] show ?thesis by (auto simp: st status_infos_def)
    next
      case False
      then have "c' = c" using assms(2) st Inr by (simp add: update_indep_dp_info_def py_assert_def)
      then show ?thesis using False assms(3) by (simp add: info_of_alive)
    qed
  qed
qed

lemma refs_ok_heap:
  assumes "refs_ok idx heap ids" "length heap' = length heap" "\<And>r. r < length heap \<Longrightarrow> cell_index (heap' ! r) = cell_index (heap ! r)"
  shows "refs_ok idx heap' ids"
  using assms by (auto simp: refs_ok_def list_all_iff)

text \<open>An answer keeps the groups, when the coroutines it comes from and all others are right.\<close>

lemma answer_keeps:
  assumes "answer_task heap ts k answer = (heap', ts')" "heap_ok G q heap" "list_all (coroutine_ok G q heap) ts"
  shows "heap_ok G q heap'" "list_all (coroutine_ok G q heap') ts'" "coroutine_ok G q heap t \<Longrightarrow> coroutine_ok G q heap' t"
    "plain_task heap t \<Longrightarrow> plain_task heap' t"
proof -
  have objs: "list_all (\<lambda>t. task_object t < length heap) ts" using assms(3) by (auto simp: coroutine_ok_def list_all_iff)
  note F = answer_task_facts [OF assms(1) objs]
  show "heap_ok G q heap'" unfolding heap_ok_def list_all_length
  proof safe
    fix r i assume r: "r < length heap'" "info_of (heap' ! r) = Some i"
    then have len: "r < length heap" using F(1) by simp
    note ix = F(3) [OF len]
    from F(5) [OF len r(2)] consider "info_of (heap ! r) = Some i" | t where "t \<in> set ts" "task_object t = r" "i \<in> status_infos (task_status t)"
      by blast
    then show "info_ok G q (cell_index (heap' ! r)) i"
    proof cases
      case 1
      then show ?thesis using assms(2) len by (simp add: ix heap_ok_def list_all_length)
    next
      case 2
      then show ?thesis using assms(3) by (auto simp: ix coroutine_ok_def list_all_iff)
    qed
  qed
  show "list_all (coroutine_ok G q heap') ts'" unfolding list_all_length
  proof safe
    fix j assume "j < length ts'"
    then have j: "j < length ts" using F(2) by simp
    then have "coroutine_ok G q heap (ts ! j)" using assms(3) by (simp add: list_all_length)
    then show "coroutine_ok G q heap' (ts' ! j)" using F(1,3) F(6,7) [OF j] by (auto simp: coroutine_ok_def)
  qed
  show "coroutine_ok G q heap t \<Longrightarrow> coroutine_ok G q heap' t" using F(1,3) by (auto simp: coroutine_ok_def)
  show "plain_task heap t \<Longrightarrow> plain_task heap' t" using F(1) by (simp add: plain_task_def)
qed

lemma answer_up_to_date:
  assumes "answer_task heap ts k answer = (heap', ts')" "list_all (coroutine_ok G q heap) ts" "refs_ok idx heap ids"
    "up_to_date q heap ids rts" "rts = ts \<and> rts' = ts' \<or> rts' = rts"
  shows "up_to_date q heap' ids rts'"
  unfolding up_to_date_def
proof (intro ballI allI impI)
  fix r i assume r: "r \<in> snd ` set ids" "info_of (heap' ! r) = Some i"
  have objs: "list_all (\<lambda>t. task_object t < length heap) ts" using assms(2) by (auto simp: coroutine_ok_def list_all_iff)
  note F = answer_task_facts [OF assms(1) objs]
  have len: "r < length heap" using r(1) assms(3) refs_okD by fastforce
  show "quorum_id i = q \<or> (\<exists>t\<in>set rts'. task_object t = r \<and> updating (task_status t))"
  proof (cases "\<exists>t\<in>set ts. task_object t = r \<and> i \<in> status_infos (task_status t)")
    case True
    then show ?thesis using assms(2) by (auto simp: coroutine_ok_def list_all_iff)
  next
    case False
    then have "info_of (heap ! r) = Some i" using F(5) [OF len r(2)] by blast
    then consider "quorum_id i = q" | t where "t \<in> set rts" "task_object t = r" "updating (task_status t)"
      using assms(4) r(1) unfolding up_to_date_def by blast
    then show ?thesis
    proof cases
      case 2
      show ?thesis
      proof (cases "rts' = rts")
        case False
        then have eq: "rts = ts" "rts' = ts'" using assms(5) by auto
        obtain j where j: "j < length ts" "ts ! j = t" using 2(1) eq by (auto simp: in_set_conv_nth)
        have "j \<noteq> k"
        proof
          assume "j = k"
          then obtain c st where a: "answer_status (heap ! r) (task_status t) answer = (c, st)" "heap' = heap[r := c]"
            using assms(1) j 2(2) by (auto simp: answer_task_def Let_def split: prod.splits)
          from updating_answer [OF 2(3) a(1)] r(2) a(2) len have "i \<in> status_infos (task_status t)" by simp
          then show False using \<open>\<not> (\<exists>t\<in>set ts. _ t)\<close> 2 eq by blast
        qed
        then have "ts' ! j = t" using assms(1) j by (auto simp: answer_task_def Let_def split: prod.splits if_splits)
        then have "t \<in> set rts'" using j F(2) eq by (metis nth_mem)
        then show ?thesis using 2 by blast
      qed (use 2 in blast)
    qed simp
  qed
qed


section \<open>Every step keeps the invariant\<close>

lemma plain_task_ok: "plain_task heap t \<Longrightarrow> coroutine_ok G q heap t"
  by (simp add: plain_task_def coroutine_ok_def)

lemma plain_tasks_ok: "list_all (plain_task heap) ts \<Longrightarrow> list_all (coroutine_ok G q heap) ts"
  by (auto simp: list_all_iff plain_task_ok)

lemma ended_not_updating: "all_ended ts \<Longrightarrow> t \<in> set ts \<Longrightarrow> \<not> updating (task_status t)"
  by (auto simp: all_ended_def list_all_iff task_result_def updating_def split: task_status.splits)

lemma up_to_date_ended: "up_to_date q heap ids ts \<Longrightarrow> all_ended ts \<Longrightarrow> up_to_date q heap ids []"
  unfolding up_to_date_def using ended_not_updating by blast

text \<open>Leaving an activity for one whose coroutines give no information.\<close>

lemma keeps_activity:
  assumes "trainer_inv idx s" "init_once s = INITED" "up_to_date (current_quorum s) (cell_heap s) (cells_by_id s) []"
    "list_all (plain_task (cell_heap s)) (main_tasks a)" "a = Idle \<or> (\<exists>run. a = Sleeping run) \<or> (\<exists>run ts. a = Training run ts)"
  shows "trainer_inv idx (s\<lparr>activity := a\<rparr>)"
proof -
  have "orphans s = []" using assms(1,2) by (auto simp: trainer_inv_def mode_ok_def)
  then have "group_infos_ok (s\<lparr>activity := a\<rparr>)"
    using assms(1,4) plain_tasks_ok by (fastforce simp: trainer_inv_def group_infos_ok_def)
  then show ?thesis using assms by (auto simp: trainer_inv_def mode_ok_def regroup_tasks_def)
qed

lemma inv_train_log [simp]: "trainer_inv idx (s\<lparr>train_log := l\<rparr>) = trainer_inv idx s"
  by (cases "activity s") (simp_all add: trainer_inv_def group_infos_ok_def mode_ok_def)

lemma inv_forward_log [simp]: "trainer_inv idx (s\<lparr>forward_log := l\<rparr>) = trainer_inv idx s"
  by (cases "activity s") (simp_all add: trainer_inv_def group_infos_ok_def mode_ok_def)

lemma keeps_attempt_fails:
  assumes "trainer_inv idx s" "init_once s = INITED" "up_to_date (current_quorum s) (cell_heap s) (cells_by_id s) []"
  shows "trainer_inv idx (attempt_fails run e s)" "trainer_inv idx (train_returns run r s)"
  using keeps_activity [OF assms] by (simp_all add: attempt_fails_def train_returns_def main_tasks_def)

lemma alive_refs_in_heap:
  assumes "refs_ok idx (cell_heap s) (cells_by_id s)" "r \<in> set (cell_refs s)"
  shows "r < length (cell_heap s)"
  using assms refs_okD by fastforce

lemma keeps_start_training:
  assumes "trainer_inv idx s" "init_once s = INITED" "up_to_date (current_quorum s) (cell_heap s) (cells_by_id s) []"
  shows "trainer_inv idx (start_training run s)"
proof (cases "alive_refs s = []")
  case False
  have "list_all (plain_task (cell_heap s)) (map (\<lambda>r. new_task r (train_cell (run_attempt run))) (alive_refs s))"
    using assms(1) alive_refs_in_heap [of idx s]
    by (auto simp: list_all_iff plain_task_def new_task_def train_cell_def status_infos_def alive_refs_def trainer_inv_def)
  then show ?thesis using False keeps_activity [OF assms, of "Training run _"] by (simp add: start_training_def main_tasks_def)
qed (simp add: start_training_def keeps_attempt_fails [OF assms])

lemma res_all_map_total:
  assumes "\<And>x. x \<in> set xs \<Longrightarrow> \<exists>y. f x = Inr y"
  shows "\<exists>g. res_all (map f xs) = Inr (map g xs) \<and> (\<forall>x\<in>set xs. f x = Inr (g x))"
proof -
  from assms obtain g where "\<forall>x\<in>set xs. f x = Inr (g x)" by metis
  then have "res_all (map f xs) = Inr (map g xs)" by (intro res_all_map_Inr) simp
  then show ?thesis using \<open>\<forall>x\<in>set xs. f x = Inr (g x)\<close> by blast
qed

lemma prepare_ops_Inr:
  assumes "alive p \<noteq> []" "set (will_alive p) = set (healing p) \<union> set (alive p)" "index \<in> set (will_alive p)"
  shows "\<exists>i ops. compute_indep_dp_info n q index (will_alive p) = Inr i \<and> prepare_ops n q p index = Inr ops
     \<and> op_infos ops = {i} \<and> (index \<in> set (alive p) \<longrightarrow> updating (Running ops))"
proof -
  obtain a where a: "list_index (will_alive p) (hd (alive p)) = Inr a"
    using list_index_mem [of "hd (alive p)" "will_alive p"] assms(1,2) by auto
  obtain ds where d: "res_all (map (list_index (will_alive p)) (healing p)) = Inr ds"
    using res_all_map_total [of "healing p" "list_index (will_alive p)"] list_index_mem assms(2) by blast
  obtain r where r: "list_index (will_alive p) index = Inr r" using list_index_mem assms(3) by blast
  then obtain i where i: "compute_indep_dp_info n q index (will_alive p) = Inr i" by (auto simp: compute_indep_dp_info_Inr)
  have calls: "op_infos (map (\<lambda>dst. Call (SendCkpt dst)) xs) = {}" for xs by (induction xs) auto
  show ?thesis using i a d calls
    by (auto simp: prepare_ops_def prepare_alive_def prepare_healing_def init_cell_def updating_def)
qed

lemma prepare_tasks_Inr:
  assumes "alive p \<noteq> []" "set (will_alive p) = set (healing p) \<union> set (alive p)"
  shows "\<exists>ts. prepare_tasks s p = Inr ts
     \<and> (\<forall>t\<in>set ts. task_object t \<in> set (cell_refs s)
          \<and> (\<exists>i. status_infos (task_status t) = {i} \<and> compute_indep_dp_info (length (cells_by_id s)) (current_quorum s)
                (cell_index (cell_heap s ! task_object t)) (will_alive p) = Inr i))
     \<and> (\<forall>r\<in>set (cell_refs s). cell_index (cell_heap s ! r) \<in> set (alive p) \<longrightarrow>
          (\<exists>t\<in>set ts. task_object t = r \<and> updating (task_status t)))"
proof -
  let ?ix = "\<lambda>r. cell_index (cell_heap s ! r)"
  let ?ops = "\<lambda>r. prepare_ops (length (cells_by_id s)) (current_quorum s) p (?ix r)"
  let ?rs = "filter (\<lambda>r. ?ix r \<in> set (will_alive p)) (cell_refs s)"
  have each: "r \<in> set ?rs \<Longrightarrow> \<exists>t. rbind (?ops r) (\<lambda>ops. Inr (new_task r ops)) = Inr t \<and> task_object t = r
      \<and> (\<exists>i. status_infos (task_status t) = {i} \<and> compute_indep_dp_info (length (cells_by_id s)) (current_quorum s) (?ix r) (will_alive p) = Inr i)
      \<and> (?ix r \<in> set (alive p) \<longrightarrow> updating (task_status t))" for r
    using prepare_ops_Inr [OF assms, of "?ix r" "length (cells_by_id s)" "current_quorum s"]
    by (auto simp: new_task_def status_infos_def)
  then obtain g where g: "prepare_tasks s p = Inr (map g ?rs)" "\<forall>r\<in>set ?rs. rbind (?ops r) (\<lambda>ops. Inr (new_task r ops)) = Inr (g r)"
    using res_all_map_total [of ?rs "\<lambda>r. rbind (?ops r) (\<lambda>ops. Inr (new_task r ops))"] unfolding prepare_tasks_def by blast
  have gr: "r \<in> set ?rs \<Longrightarrow> task_object (g r) = r
      \<and> (\<exists>i. status_infos (task_status (g r)) = {i} \<and> compute_indep_dp_info (length (cells_by_id s)) (current_quorum s) (?ix r) (will_alive p) = Inr i)
      \<and> (?ix r \<in> set (alive p) \<longrightarrow> updating (task_status (g r)))" for r
    using each [of r] g(2) by fastforce
  have "\<forall>r\<in>set (cell_refs s). ?ix r \<in> set (alive p) \<longrightarrow> r \<in> set ?rs" using assms(2) by auto
  then have "\<forall>r\<in>set (cell_refs s). ?ix r \<in> set (alive p) \<longrightarrow> (\<exists>t\<in>set (map g ?rs). task_object t = r \<and> updating (task_status t))"
    using gr by (metis image_eqI set_map)
  moreover have "\<forall>t\<in>set (map g ?rs). task_object t \<in> set (cell_refs s)
          \<and> (\<exists>i. status_infos (task_status t) = {i} \<and> compute_indep_dp_info (length (cells_by_id s)) (current_quorum s)
                (cell_index (cell_heap s ! task_object t)) (will_alive p) = Inr i)"
  proof
    fix t assume "t \<in> set (map g ?rs)"
    then obtain r where r: "r \<in> set ?rs" "t = g r" by auto
    then show "task_object t \<in> set (cell_refs s)
          \<and> (\<exists>i. status_infos (task_status t) = {i} \<and> compute_indep_dp_info (length (cells_by_id s)) (current_quorum s)
                (cell_index (cell_heap s ! task_object t)) (will_alive p) = Inr i)"
      using gr [OF r(1)] by (simp del: set_cell_refs)
  qed
  ultimately show ?thesis using g(1) by blast
qed

text \<open>The group of a new quorum is the planned one; the groups of the older ones stay.\<close>

lemma heap_ok_bump:
  assumes "heap_ok G q heap"
  shows "heap_ok (G(q + 1 := g)) (q + 1) heap"
  using assms by (fastforce simp: heap_ok_def list_all_iff info_ok_def)

lemma keeps_start_attempt:
  assumes inv: "trainer_inv idx s" and inj: "inj idx" and st: "init_once s = INITED"
    and none: "regroup_tasks (activity s) = []"
  shows "trainer_inv idx (start_attempt run s)"
proof -
  have u: "up_to_date (current_quorum s) (cell_heap s) (cells_by_id s) []"
    and refs: "refs_ok idx (cell_heap s) (cells_by_id s)" and orph: "orphans s = []"
    using inv st none by (auto simp: trainer_inv_def mode_ok_def)
  show ?thesis
  proof (cases "plan_refresh s")
    case (Inl e)
    then show ?thesis by (simp add: start_attempt_def keeps_attempt_fails [OF inv st u])
  next
    case (Inr p)
    note P = plan_refresh_Inr [OF Inr]
    let ?s = "s\<lparr>current_quorum := current_quorum s + 1\<rparr>"
    have refs_eq: "cell_refs ?s = cell_refs s" by (simp add: cell_refs_def)
    from prepare_tasks_Inr [OF P(3,4), of ?s] obtain ts where ts: "prepare_tasks ?s p = Inr ts"
      "\<forall>t\<in>set ts. task_object t \<in> set (cell_refs s) \<and> (\<exists>i. status_infos (task_status t) = {i}
         \<and> compute_indep_dp_info (length (cells_by_id s)) (current_quorum s + 1) (cell_index (cell_heap s ! task_object t)) (will_alive p) = Inr i)"
      "\<forall>r\<in>set (cell_refs s). cell_index (cell_heap s ! r) \<in> set (alive p) \<longrightarrow> (\<exists>t\<in>set ts. task_object t = r \<and> updating (task_status t))"
      unfolding refs_eq by auto
    obtain G where G: "heap_ok G (current_quorum s) (cell_heap s)" using inv by (auto simp: trainer_inv_def group_infos_ok_def)
    let ?G = "G(current_quorum s + 1 := (length (cells_by_id s), will_alive p))"
    have tasks: "list_all (coroutine_ok ?G (current_quorum s + 1) (cell_heap s)) ts"
      using ts(2) alive_refs_in_heap [OF refs] by (fastforce simp: list_all_iff coroutine_ok_def info_ok_def compute_indep_dp_info_Inr)
    have alive: "r \<in> snd ` set (cells_by_id s) \<Longrightarrow> info_of (cell_heap s ! r) = Some i \<Longrightarrow> cell_index (cell_heap s ! r) \<in> set (alive p)" for r i
      using index_in_indices_of [OF indices_distinct [OF refs inj], of "cell_heap s ! r" is_alive] P(2) by (simp add: info_of_alive)
    let ?r = "?s\<lparr>activity := Regrouping run p ts\<rparr>"
    have "group_infos_ok ?r" using heap_ok_bump [OF G] tasks orph by (auto simp: group_infos_ok_def main_tasks_def)
    moreover have "up_to_date (current_quorum s + 1) (cell_heap s) (cells_by_id s) ts"
      unfolding up_to_date_def using ts(3) alive by simp
    ultimately have "trainer_inv idx ?r" using inv st orph by (simp add: trainer_inv_def mode_ok_def regroup_tasks_def)
    then show ?thesis using Inr ts(1) keeps_start_training [OF inv st u] by (simp add: start_attempt_def Let_def)
  qed
qed

lemma keeps_regroup_ends: "trainer_inv idx s \<Longrightarrow> trainer_inv idx (regroup_ends s)"
proof (cases "activity s")
  case (Regrouping run p ts)
  assume inv: "trainer_inv idx s"
  show ?thesis
  proof (cases "all_ended ts")
    case True
    have u: "init_once s = INITED" "up_to_date (current_quorum s) (cell_heap s) (cells_by_id s) []"
      using inv Regrouping up_to_date_ended [OF _ True] by (auto simp: trainer_inv_def mode_ok_def regroup_tasks_def)
    show ?thesis using keeps_start_training [OF inv u] keeps_attempt_fails [OF inv u] Regrouping True by (simp add: regroup_ends_def)
  qed (use inv Regrouping in \<open>simp add: regroup_ends_def\<close>)
qed (simp_all add: regroup_ends_def)

lemma keeps_training_ends: "trainer_inv idx s \<Longrightarrow> trainer_inv idx (training_ends s)"
proof (cases "activity s")
  case (Training run ts)
  assume inv: "trainer_inv idx s"
  have u: "init_once s = INITED" "up_to_date (current_quorum s) (cell_heap s) (cells_by_id s) []"
    using inv Training by (auto simp: trainer_inv_def mode_ok_def regroup_tasks_def)
  show ?thesis using inv keeps_attempt_fails [OF inv u] Training by (simp add: training_ends_def Let_def split: sum.splits)
qed (simp_all add: training_ends_def)

lemma keeps_train_wakes: "trainer_inv idx s \<Longrightarrow> inj idx \<Longrightarrow> trainer_inv idx (train_wakes s)"
proof (cases "activity s")
  case (Sleeping run)
  assume a: "trainer_inv idx s" "inj idx"
  have "init_once s = INITED" using a(1) Sleeping by (simp add: trainer_inv_def mode_ok_def)
  from keeps_start_attempt [OF a this] show ?thesis using Sleeping by (simp add: train_wakes_def regroup_tasks_def)
qed (simp_all add: train_wakes_def)

lemma keeps_train_starts: "trainer_inv idx s \<Longrightarrow> inj idx \<Longrightarrow> trainer_inv idx (train_starts s)"
  using keeps_start_attempt [of idx s new_run] by (simp add: train_starts_def regroup_tasks_def)

lemma no_infos:
  assumes "list_all (\<lambda>c. info_of c = None) heap" "refs_ok idx heap ids"
  shows "heap_ok G q heap" "up_to_date q heap ids ts"
proof -
  show "heap_ok G q heap" using assms(1) by (auto simp: heap_ok_def list_all_iff)
  show "up_to_date q heap ids ts" unfolding up_to_date_def
  proof (intro ballI allI impI)
    fix r i assume r: "r \<in> snd ` set ids" "info_of (heap ! r) = Some i"
    then have "r < length heap" using assms(2) refs_okD by fastforce
    then show "quorum_id i = q \<or> (\<exists>t\<in>set ts. task_object t = r \<and> updating (task_status t))"
      using r(2) assms(1) by (simp add: list_all_length)
  qed
qed

lemma keeps_init_starts:
  assumes inv: "trainer_inv idx s"
  shows "trainer_inv idx (init_starts s)"
proof (cases "init_once s = NOT_INITED")
  case True
  then have f: "cell_heap s = []" "cells_by_id s = []" "orphans s = []" using inv by (auto simp: trainer_inv_def mode_ok_def)
  have "init_starts s = s\<lparr>init_once := INITIALIZING, activity := Observing\<rparr>" using True by (simp add: init_starts_def init_enter_def)
  moreover have "list_all (\<lambda>f. list_all (plain_task []) (forward_tasks f)) (forwards s)" using inv f(1) by (simp add: trainer_inv_def)
  ultimately show ?thesis using f
    by (simp add: trainer_inv_def refs_ok_def group_infos_ok_def heap_ok_def main_tasks_def up_to_date_def mode_ok_def)
qed (use inv in \<open>simp add: init_starts_def init_enter_def py_assert_def\<close>)

text \<open>Leaving \<open>init\<close>: the coroutines it does not wait for are left behind only when it fails.\<close>

lemma keeps_leave_init:
  assumes "trainer_inv idx s" "activity s = Observing \<and> left = [] \<or> activity s = Initialising ts \<and> left \<in> {[], ts}" "b \<Longrightarrow> left = []"
  shows "trainer_inv idx (leave_init b left s)"
proof -
  have m: "init_once s = INITIALIZING" "orphans s = []" using assms(1,2) by (auto simp: trainer_inv_def mode_ok_def)
  then have l: "leave_init b left s = s\<lparr>init_once := (if b then INITED else INIT_FAILED), activity := Idle, orphans := left\<rparr>"
    by (simp add: leave_init_def init_leave_def)
  have "group_infos_ok (s\<lparr>init_once := (if b then INITED else INIT_FAILED), activity := Idle, orphans := left\<rparr>)"
    using assms(1,2) by (fastforce simp: trainer_inv_def group_infos_ok_def main_tasks_def)
  then show ?thesis unfolding l using assms by (auto simp: trainer_inv_def mode_ok_def regroup_tasks_def)
qed

lemma keeps_init_gathers:
  assumes inv: "trainer_inv idx s"
  shows "trainer_inv idx (init_gathers expected s)"
proof (cases "activity s \<noteq> Observing \<or> length (cells_by_id s) < expected")
  case False
  then have o: "activity s = Observing" by simp
  show ?thesis
  proof (cases "res_all (map (initial_task s) (cell_refs s))")
    case (Inl e)
    then show ?thesis using False keeps_leave_init [OF inv, of "[]" "[]" False] o by (simp add: init_gathers_def)
  next
    case (Inr ts)
    let ?n = "length (cells_by_id s)" and ?s = "s\<lparr>activity := Initialising ts\<rparr>"
    have m: "init_once s = INITIALIZING" "orphans s = []" "list_all (\<lambda>c. info_of c = None) (cell_heap s)"
      "refs_ok idx (cell_heap s) (cells_by_id s)" using inv o by (auto simp: trainer_inv_def mode_ok_def)
    let ?G = "\<lambda>q::nat. (?n, [0..<?n])"
    have "list_all (coroutine_ok ?G (current_quorum s) (cell_heap s)) ts" unfolding list_all_iff
    proof
      fix t assume "t \<in> set ts"
      then have "Inr t \<in> initial_task s ` set (cell_refs s)" using res_all_Inr [OF Inr] by (metis image_eqI set_map)
      then obtain r where r: "r \<in> set (cell_refs s)" "initial_task s r = Inr t" by (metis imageE)
      then obtain i where "t = new_task r (init_cell i None)"
        "compute_indep_dp_info ?n (current_quorum s) (cell_index (cell_heap s ! r)) [0..<?n] = Inr i"
        by (auto simp: initial_task_def Let_def rbind_Inr_iff)
      then show "coroutine_ok ?G (current_quorum s) (cell_heap s) t" using alive_refs_in_heap [OF m(4) r(1)]
        by (auto simp: coroutine_ok_def new_task_def status_infos_def init_cell_def info_ok_def compute_indep_dp_info_Inr)
    qed
    then have "group_infos_ok ?s" using no_infos(1) [OF m(3,4)] m(2) by (auto simp: group_infos_ok_def main_tasks_def)
    then have "trainer_inv idx ?s" using inv m o by (simp add: trainer_inv_def mode_ok_def regroup_tasks_def)
    then show ?thesis using False Inr by (simp add: init_gathers_def)
  qed
qed (use inv in \<open>simp add: init_gathers_def\<close>)

lemma keeps_init_times_out: "trainer_inv idx s \<Longrightarrow> trainer_inv idx (init_times_out expected s)"
  using keeps_leave_init [of idx s "[]" "[]" False] by (simp add: init_times_out_def)

lemma keeps_init_ends: "trainer_inv idx s \<Longrightarrow> trainer_inv idx (init_ends s)"
proof (cases "activity s")
  case (Initialising ts)
  assume inv: "trainer_inv idx s"
  then show ?thesis using Initialising keeps_leave_init [OF inv, of ts ts False] keeps_leave_init [OF inv, of "[]" ts True]
    by (simp add: init_ends_def)
qed (simp_all add: init_ends_def)

text \<open>The watch.\<close>

lemma heap_ok_append: "heap_ok G q heap \<Longrightarrow> list_all is_uninitialized new \<Longrightarrow> heap_ok G q (heap @ new)"
  by (auto simp: heap_ok_def list_all_iff info_of_def is_uninitialized_def)

lemma task_ok_append: "list_all (coroutine_ok G q heap) ts \<Longrightarrow> list_all (coroutine_ok G q (heap @ new)) ts"
  by (auto simp: coroutine_ok_def list_all_iff nth_append)

lemma plain_task_append: "list_all (plain_task heap) ts \<Longrightarrow> list_all (plain_task (heap @ new)) ts"
  by (auto simp: plain_task_def list_all_iff)

lemma up_to_date_append:
  assumes "up_to_date q heap ids ts" "refs_ok idx (heap @ new) ids'" "list_all is_uninitialized new"
    "snd ` set ids' \<subseteq> snd ` set ids \<union> {length heap..}"
  shows "up_to_date q (heap @ new) ids' ts"
  unfolding up_to_date_def
proof (intro ballI allI impI)
  fix r i assume r: "r \<in> snd ` set ids'" "info_of ((heap @ new) ! r) = Some i"
  then have len: "r < length (heap @ new)" using assms(2) refs_okD by fastforce
  have "r < length heap"
  proof (rule ccontr)
    assume "\<not> r < length heap"
    then have "is_uninitialized ((heap @ new) ! r)" using len assms(3) by (simp add: nth_append list_all_length)
    then show False using r(2) by (simp add: info_of_def is_uninitialized_def)
  qed
  then have "r \<in> snd ` set ids" "info_of (heap ! r) = Some i" using r assms(4) by (auto simp: nth_append)
  then show "quorum_id i = q \<or> (\<exists>t\<in>set ts. task_object t = r \<and> updating (task_status t))"
    using assms(1) unfolding up_to_date_def by blast
qed

lemma keeps_watched:
  assumes inv: "trainer_inv idx s" and st: "init_once s \<noteq> NOT_INITED"
    and new: "refs_ok idx (cell_heap s @ new) ids" "list_all is_uninitialized new"
      "snd ` set ids \<subseteq> snd ` set (cells_by_id s) \<union> {length (cell_heap s)..}"
  shows "trainer_inv idx (s\<lparr>cell_heap := cell_heap s @ new, cells_by_id := ids\<rparr>)"
proof -
  let ?s = "s\<lparr>cell_heap := cell_heap s @ new, cells_by_id := ids\<rparr>"
  have "group_infos_ok ?s" using inv heap_ok_append [OF _ new(2)] task_ok_append by (fastforce simp: trainer_inv_def group_infos_ok_def)
  moreover have "up_to_date (current_quorum s) (cell_heap s @ new) ids (regroup_tasks (activity s))"
    using inv up_to_date_append [OF _ new] by (simp add: trainer_inv_def)
  moreover have "list_all (\<lambda>f. list_all (plain_task (cell_heap s @ new)) (forward_tasks f)) (forwards s)"
    using inv plain_task_append by (auto simp: trainer_inv_def list_all_iff)
  moreover have "mode_ok ?s" using inv st new(2)
    by (cases "activity s") (auto simp: trainer_inv_def mode_ok_def list_all_iff info_of_def is_uninitialized_def)
  ultimately show ?thesis using new(1) by (simp add: trainer_inv_def)
qed

lemma keeps_add_cell:
  assumes "trainer_inv idx s" "init_once s \<noteq> NOT_INITED"
  shows "trainer_inv idx (add_cell s cell_id (idx cell_id) hash)"
proof -
  let ?new = "\<lparr> cell_index = idx cell_id, workers_hash = hash, cell_state = Uninitialized \<rparr>"
  have refs: "refs_ok idx (cell_heap s) (cells_by_id s)" using assms(1) by (simp add: trainer_inv_def)
  have sub: "set (dset (cells_by_id s) cell_id (length (cell_heap s))) \<subseteq> insert (cell_id, length (cell_heap s)) (set (cells_by_id s))"
    using refs by (auto simp: refs_ok_def dget_in split: if_splits)
  have "refs_ok idx (cell_heap s @ [?new]) (dset (cells_by_id s) cell_id (length (cell_heap s)))"
    using refs sub by (fastforce simp: refs_ok_def list_all_iff nth_append)
  then show ?thesis unfolding add_cell_def using sub
    by (intro keeps_watched [OF assms]) (auto simp: is_uninitialized_def)
qed

lemma keeps_remove_cell:
  assumes "trainer_inv idx s" "init_once s \<noteq> NOT_INITED"
  shows "trainer_inv idx (remove_cell s cell_id)"
proof -
  have refs: "refs_ok idx (cell_heap s) (cells_by_id s)" using assms(1) by (simp add: trainer_inv_def)
  have sub: "set (ddel (cells_by_id s) cell_id) \<subseteq> set (cells_by_id s)" using refs set_ddel [of "cells_by_id s"] by (auto simp only: refs_ok_def)
  have "refs_ok idx (cell_heap s @ []) (ddel (cells_by_id s) cell_id)"
    using refs sub by (simp add: refs_ok_def list_all_iff) blast
  from keeps_watched [OF assms this] sub show ?thesis by (simp add: remove_cell_def) blast
qed

lemma keeps_reconcile_cell:
  assumes "trainer_inv idx s" "init_once s \<noteq> NOT_INITED"
  shows "trainer_inv idx (reconcile_cell s cell_id (idx cell_id) observed)"
proof -
  have calls: "\<forall>c\<in>set (apply_cell_observation cell_id observed actual). c = AddCell cell_id \<or> c = RemoveCell cell_id" for actual
    by (auto simp: apply_cell_observation_def split: option.splits if_splits)
  have "\<forall>c\<in>set cs. c = AddCell cell_id \<or> c = RemoveCell cell_id \<Longrightarrow> trainer_inv idx s \<Longrightarrow> init_once s \<noteq> NOT_INITED \<Longrightarrow>
    trainer_inv idx (foldl (watch_call (idx cell_id) h) s cs)" for cs h s
  proof (induction cs arbitrary: s)
    case (Cons c cs)
    have "trainer_inv idx (watch_call (idx cell_id) h s c)" using Cons.prems keeps_add_cell keeps_remove_cell by (auto simp: watch_call_def)
    moreover have "init_once (watch_call (idx cell_id) h s c) \<noteq> NOT_INITED"
      using Cons.prems by (auto simp: watch_call_def add_cell_def remove_cell_def split: cell_call.splits)
    ultimately show ?case using Cons.IH Cons.prems(1) by simp
  qed simp
  then show ?thesis using assms calls by (simp add: reconcile_cell_def Let_def)
qed

text \<open>Answers.\<close>

lemma regroup_tasks_with: "regroup_tasks (with_tasks a ts) = (case a of Regrouping _ _ _ \<Rightarrow> ts | _ \<Rightarrow> [])"
  by (cases a) (simp_all add: regroup_tasks_def with_tasks_def)

lemma main_tasks_with: "main_tasks (with_tasks a ts) = (if main_tasks a = [] \<and> ts = [] then [] else case a of
    Initialising _ \<Rightarrow> ts | Regrouping _ _ _ \<Rightarrow> ts | Training _ _ \<Rightarrow> ts | _ \<Rightarrow> [])"
  by (cases a) (simp_all add: main_tasks_def with_tasks_def)

lemma answer_nil: "answer_task heap [] k answer = (heap, [])"
  by (simp add: answer_task_def)

text \<open>The parts of the invariant that only depend on the heap, after one of the groups of coroutines has moved.\<close>

lemma keeps_answer:
  assumes inv: "trainer_inv idx s" and a: "answer_task (cell_heap s) ts k answer = (heap', ts')"
    and tasks: "\<And>G. list_all (coroutine_ok G (current_quorum s) (cell_heap s)) (main_tasks (activity s) @ orphans s) \<Longrightarrow>
      list_all (coroutine_ok G (current_quorum s) (cell_heap s)) ts"
    and same: "\<And>G. list_all (coroutine_ok G (current_quorum s) heap') (main_tasks (activity s) @ orphans s) \<Longrightarrow> list_all (coroutine_ok G (current_quorum s) heap') ts' \<Longrightarrow>
      list_all (coroutine_ok G (current_quorum s) heap') (main_tasks act @ orphs)"
    and fwd: "list_all (\<lambda>f. list_all (plain_task heap') (forward_tasks f)) fs"
    and rts: "regroup_tasks (activity s) = ts \<and> regroup_tasks act = ts' \<or> regroup_tasks act = regroup_tasks (activity s)"
    and mode: "mode_ok (s\<lparr>cell_heap := heap', activity := act, orphans := orphs, forwards := fs\<rparr>)"
  shows "trainer_inv idx (s\<lparr>cell_heap := heap', activity := act, orphans := orphs, forwards := fs\<rparr>)"
proof -
  let ?q = "current_quorum s"
  obtain G where G: "heap_ok G ?q (cell_heap s)" "list_all (coroutine_ok G ?q (cell_heap s)) (main_tasks (activity s) @ orphans s)"
    using inv by (auto simp: trainer_inv_def group_infos_ok_def)
  note T = tasks [OF G(2)]
  note K = answer_keeps [OF a G(1) T]
  have "list_all (coroutine_ok G ?q heap') (main_tasks (activity s) @ orphans s)" using G(2) K(3) unfolding list_all_iff by blast
  from same [OF this K(2)] K(1) have "group_infos_ok (s\<lparr>cell_heap := heap', activity := act, orphans := orphs, forwards := fs\<rparr>)"
    by (auto simp: group_infos_ok_def)
  moreover have refs: "refs_ok idx (cell_heap s) (cells_by_id s)" using inv by (simp add: trainer_inv_def)
  have "list_all (\<lambda>t. task_object t < length (cell_heap s)) ts" using T by (auto simp: coroutine_ok_def list_all_iff)
  from answer_task_facts(1,3) [OF a this] have "refs_ok idx heap' (cells_by_id s)" using refs_ok_heap [OF refs] by blast
  moreover have "up_to_date ?q heap' (cells_by_id s) (regroup_tasks act)"
    using answer_up_to_date [OF a T refs _ rts] inv by (simp add: trainer_inv_def)
  ultimately show ?thesis using fwd mode by (simp add: trainer_inv_def)
qed

lemma plain_after_answer:
  assumes "answer_task heap ts k answer = (heap', ts')" "list_all (plain_task heap) ts"
  shows "list_all (plain_task heap') ts'"
proof -
  have o: "list_all (\<lambda>t. task_object t < length heap) ts" using assms(2) by (auto simp: plain_task_def list_all_iff)
  note F = answer_task_facts [OF assms(1) o]
  show ?thesis unfolding list_all_length
  proof (intro allI impI)
    fix j assume "j < length ts'"
    then have j: "j < length ts" using F(2) by simp
    have "plain_task heap (ts ! j)" using assms(2) j by (simp add: list_all_length)
    then show "plain_task heap' (ts' ! j)" using F(6,7) [OF j] F(1) by (simp add: plain_task_def)
  qed
qed

lemma forwards_after_answer:
  assumes "list_all (\<lambda>f. list_all (plain_task heap) (forward_tasks f)) fs" "length heap' = length heap"
  shows "list_all (\<lambda>f. list_all (plain_task heap') (forward_tasks f)) fs"
  using assms by (simp add: list_all_iff plain_task_def)

lemma answer_length: "answer_task heap ts k answer = (heap', ts') \<Longrightarrow> length heap' = length heap"
  by (auto simp: answer_task_def Let_def split: prod.splits if_splits)

lemma keeps_main_answers:
  assumes inv: "trainer_inv idx s"
  shows "trainer_inv idx (main_answers k answer s)"
proof -
  obtain heap' ts' where a: "answer_task (cell_heap s) (main_tasks (activity s)) k answer = (heap', ts')" by fastforce
  have "trainer_inv idx (s\<lparr>cell_heap := heap', activity := with_tasks (activity s) ts', orphans := orphans s, forwards := forwards s\<rparr>)"
  proof (rule keeps_answer [OF inv a])
    show "list_all (\<lambda>f. list_all (plain_task heap') (forward_tasks f)) (forwards s)"
      using inv answer_length [OF a] by (auto simp: trainer_inv_def intro: forwards_after_answer)
    show "regroup_tasks (activity s) = main_tasks (activity s) \<and> regroup_tasks (with_tasks (activity s) ts') = ts'
        \<or> regroup_tasks (with_tasks (activity s) ts') = regroup_tasks (activity s)"
      by (cases "activity s") (simp_all add: regroup_tasks_def with_tasks_def main_tasks_def)
    show "mode_ok (s\<lparr>cell_heap := heap', activity := with_tasks (activity s) ts', orphans := orphans s, forwards := forwards s\<rparr>)"
      using inv a by (cases "activity s") (auto simp: trainer_inv_def mode_ok_def with_tasks_def main_tasks_def answer_nil)
  qed (auto simp: main_tasks_with split: activity.splits)
  then show ?thesis using a by (simp add: main_answers_def)
qed

lemma keeps_orphan_answers:
  assumes inv: "trainer_inv idx s"
  shows "trainer_inv idx (orphan_answers k answer s)"
proof -
  obtain heap' ts' where a: "answer_task (cell_heap s) (orphans s) k answer = (heap', ts')" by fastforce
  have "trainer_inv idx (s\<lparr>cell_heap := heap', activity := activity s, orphans := ts', forwards := forwards s\<rparr>)"
  proof (rule keeps_answer [OF inv a])
    show "list_all (\<lambda>f. list_all (plain_task heap') (forward_tasks f)) (forwards s)"
      using inv answer_length [OF a] by (auto simp: trainer_inv_def intro: forwards_after_answer)
    show "mode_ok (s\<lparr>cell_heap := heap', activity := activity s, orphans := ts', forwards := forwards s\<rparr>)"
    proof (cases "orphans s = []")
      case True
      then show ?thesis using inv a by (cases "activity s") (simp_all add: trainer_inv_def mode_ok_def answer_nil)
    next
      case False
      then show ?thesis using inv by (cases "activity s") (auto simp: trainer_inv_def mode_ok_def)
    qed
  qed auto
  then show ?thesis using a by (simp add: orphan_answers_def)
qed

text \<open>Forwarded calls give their cells nothing.\<close>

lemma plain_answer_infos:
  assumes "answer_task heap ts k answer = (heap', ts')" "list_all (plain_task heap) ts" "list_all (\<lambda>c. info_of c = None) heap"
  shows "list_all (\<lambda>c. info_of c = None) heap'"
proof -
  have o: "list_all (\<lambda>t. task_object t < length heap) ts" using assms(2) by (auto simp: plain_task_def list_all_iff)
  note F = answer_task_facts [OF assms(1) o]
  show ?thesis unfolding list_all_length
  proof (intro allI impI)
    fix r assume "r < length heap'"
    then have r: "r < length heap" using F(1) by simp
    have none: "\<not> (\<exists>t\<in>set ts. task_object t = r \<and> i \<in> status_infos (task_status t))" for i
      using assms(2) by (auto simp: plain_task_def list_all_iff)
    have "info_of (heap ! r) = None" using assms(3) r by (simp add: list_all_length)
    then show "info_of (heap' ! r) = None" using F(5) [OF r] none by (cases "info_of (heap' ! r)") auto
  qed
qed

lemma keeps_forward_answers:
  assumes inv: "trainer_inv idx s"
  shows "trainer_inv idx (forward_answers j k answer s)"
proof (cases "j < length (forwards s)")
  case True
  let ?f = "forwards s ! j"
  obtain heap' ts' where a: "answer_task (cell_heap s) (forward_tasks ?f) k answer = (heap', ts')" by fastforce
  have pl: "list_all (plain_task (cell_heap s)) (forward_tasks ?f)" using inv True by (simp add: trainer_inv_def list_all_length)
  let ?fs = "(forwards s)[j := ?f\<lparr>forward_tasks := ts'\<rparr>]"
  have "trainer_inv idx (s\<lparr>cell_heap := heap', activity := activity s, orphans := orphans s, forwards := ?fs\<rparr>)"
  proof (rule keeps_answer [OF inv a])
    have "list_all (\<lambda>f. list_all (plain_task heap') (forward_tasks f)) (forwards s)"
      using inv answer_length [OF a] by (auto simp: trainer_inv_def intro: forwards_after_answer)
    then show "list_all (\<lambda>f. list_all (plain_task heap') (forward_tasks f)) ?fs"
      using plain_after_answer [OF a pl] set_update_subset_insert [of "forwards s" j "?f\<lparr>forward_tasks := ts'\<rparr>"]
      by (fastforce simp: list_all_iff)
    show "mode_ok (s\<lparr>cell_heap := heap', activity := activity s, orphans := orphans s, forwards := ?fs\<rparr>)"
      using inv plain_answer_infos [OF a pl] answer_length [OF a]
      by (cases "activity s") (auto simp: trainer_inv_def mode_ok_def)
  qed (use pl plain_tasks_ok in auto)
  then show ?thesis using a True by (simp add: forward_answers_def)
qed (use inv in \<open>simp add: forward_answers_def\<close>)

lemma inv_forwards:
  assumes "trainer_inv idx s" "list_all (\<lambda>f. list_all (plain_task (cell_heap s)) (forward_tasks f)) fs"
  shows "trainer_inv idx (s\<lparr>forwards := fs\<rparr>)"
proof -
  have "group_infos_ok (s\<lparr>forwards := fs\<rparr>) = group_infos_ok s" by (simp add: group_infos_ok_def)
  moreover have "mode_ok (s\<lparr>forwards := fs\<rparr>) = mode_ok s" by (cases "activity s") (simp_all add: mode_ok_def)
  ultimately show ?thesis using assms by (simp add: trainer_inv_def)
qed

lemma keeps_forward_starts:
  assumes inv: "trainer_inv idx s"
  shows "trainer_inv idx (forward_starts first name s)"
proof -
  let ?refs = "if first then take 1 (alive_refs s) else alive_refs s"
  let ?f = "\<lparr>forward_first = first, forward_tasks = map (\<lambda>r. new_task r [Call (Forward name)]) ?refs\<rparr>"
  have "set ?refs \<subseteq> set (cell_refs s)" by (auto simp: alive_refs_def dest: in_set_takeD)
  then have "\<forall>r\<in>set ?refs. r < length (cell_heap s)"
    using inv alive_refs_in_heap [of idx s] by (auto simp only: trainer_inv_def)
  then have "list_all (plain_task (cell_heap s)) (forward_tasks ?f)"
    by (simp add: list_all_iff plain_task_def new_task_def status_infos_def)
  then have "trainer_inv idx (s\<lparr>forwards := forwards s @ [?f]\<rparr>)" using inv by (intro inv_forwards) (simp_all add: trainer_inv_def)
  then show ?thesis using inv by (simp add: forward_starts_def Let_def)
qed

lemma keeps_forward_ends:
  assumes inv: "trainer_inv idx s"
  shows "trainer_inv idx (forward_ends k s)"
proof -
  have "list_all (\<lambda>f. list_all (plain_task (cell_heap s)) (forward_tasks f)) (take k (forwards s) @ drop (k + 1) (forwards s))"
    using inv by (auto simp: trainer_inv_def list_all_iff dest: in_set_takeD in_set_dropD)
  from inv_forwards [OF inv this] show ?thesis using inv by (simp add: forward_ends_def)
qed

lemma trainer_inv_step:
  assumes "trainer_inv idx s" "inj idx"
  shows "trainer_inv idx (trainer_step expected idx s ev)"
  using assms by (cases ev) (simp_all add: trainer_step_def keeps_init_starts keeps_init_gathers keeps_init_times_out keeps_init_ends
      keeps_reconcile_cell keeps_train_starts keeps_regroup_ends keeps_training_ends keeps_train_wakes keeps_forward_starts
      keeps_forward_ends keeps_main_answers keeps_orphan_answers keeps_forward_answers)

interpretation trainer: machine "trainer_step expected idx" "\<lambda>s. inj idx \<longrightarrow> trainer_inv idx s" for expected idx
  by unfold_locales (simp add: trainer_inv_step)

lemma trainer_reachable: "inj idx \<Longrightarrow> trainer_inv idx (foldl (trainer_step expected idx) new_trainer events)"
  using trainer.inv_run [where es = events] new_trainer_inv by blast

section \<open>One call of train\<close>

definition run_ok :: "train_retry \<Rightarrow> bool" where
  "run_ok run \<longleftrightarrow> run_attempt run = length (run_slept run) \<and> length (run_slept run) < RETRY_MAX_ATTEMPTS
     \<and> list_all (\<lambda>d. d \<le> 60) (run_slept run) \<and> run_delay run \<le> 60"

definition activity_run :: "activity \<Rightarrow> train_retry option" where
  "activity_run a = (case a of Regrouping run _ _ \<Rightarrow> Some run | Training run _ \<Rightarrow> Some run | Sleeping run \<Rightarrow> Some run | _ \<Rightarrow> None)"

definition train_answer_ok :: "train_answer \<Rightarrow> bool" where
  "train_answer_ok a \<longleftrightarrow> length (snd a) < RETRY_MAX_ATTEMPTS \<and> list_all (\<lambda>d. d \<le> 60) (snd a) \<and> (case fst a of
      Inr outs \<Rightarrow> outs \<noteq> [] \<and> list_all (\<lambda>(i, os). DISCARDED_SHOULD_RETRY \<notin> set os) outs
    | Inl e \<Rightarrow> e = NonRetryableError \<or> length (snd a) + 1 = RETRY_MAX_ATTEMPTS)"

definition runs_ok :: "trainer \<Rightarrow> bool" where
  "runs_ok s \<longleftrightarrow> (\<forall>run. activity_run (activity s) = Some run \<longrightarrow> run_ok run) \<and> list_all train_answer_ok (train_log s)"

lemma attempt_fails_runs:
  assumes "run_ok run" "list_all train_answer_ok (train_log s)"
  shows "runs_ok (attempt_fails run e s)"
  using assms by (auto simp: attempt_fails_def train_returns_def runs_ok_def activity_run_def run_ok_def train_answer_ok_def RETRY_MAX_ATTEMPTS_def)

lemma start_training_runs: "run_ok run \<Longrightarrow> list_all train_answer_ok (train_log s) \<Longrightarrow> runs_ok (start_training run s)"
  by (auto simp: start_training_def attempt_fails_runs) (simp add: runs_ok_def activity_run_def)

lemma start_attempt_runs: "run_ok run \<Longrightarrow> list_all train_answer_ok (train_log s) \<Longrightarrow> runs_ok (start_attempt run s)"
  by (auto simp: start_attempt_def Let_def start_training_runs attempt_fails_runs split: sum.split)
    (simp add: runs_ok_def activity_run_def)

text \<open>What an attempt answers with when its check passes.\<close>

lemma accepted_results:
  assumes "check_train_one_attempt s rs = Inr ()"
  shows "worker_results rs \<noteq> [] \<and> list_all (\<lambda>(i, os). DISCARDED_SHOULD_RETRY \<notin> set os) (worker_results rs)"
proof -
  have d: "discarded_cells rs = []" "normal_cells rs \<noteq> []"
    using assms by (auto simp: check_train_one_attempt_def split: if_splits)
  then obtain i r where ir: "(i, r) \<in> set rs" "i \<notin> set (errored_cells rs)"
    by (auto simp: normal_cells_def filter_empty_conv)
  then have "\<not> isl r" by (force simp: errored_cells_def)
  then obtain os where "r = Inr os" by (cases r) auto
  with ir have "(i, os) \<in> set (worker_results rs)" by (force simp: worker_results_def List.map_filter_def)
  moreover have "DISCARDED_SHOULD_RETRY \<notin> set os" if "(i, os) \<in> set (worker_results rs)" for i os
    using that d(1) by (force simp: worker_results_def List.map_filter_def discarded_cells_def filter_empty_conv split: sum.splits)
  ultimately show ?thesis by (auto simp: list_all_iff)
qed

lemma runs_same: "runs_ok s \<Longrightarrow> activity_run (activity s') = activity_run (activity s) \<or> activity_run (activity s') = None \<Longrightarrow>
    train_log s' = train_log s \<Longrightarrow> runs_ok s'"
  by (auto simp: runs_ok_def)

lemma training_ends_runs:
  assumes "runs_ok s"
  shows "runs_ok (training_ends s)"
proof (cases "activity s")
  case (Training run ts)
  have run: "run_ok run" "list_all train_answer_ok (train_log s)" using assms Training by (auto simp: runs_ok_def activity_run_def)
  show ?thesis
  proof (cases "check_train_one_attempt s (train_results s ts)")
    case (Inl e)
    then show ?thesis using assms Training attempt_fails_runs [OF run] by (simp add: training_ends_def Let_def)
  next
    case (Inr u)
    from accepted_results [of s "train_results s ts"] Inr run have "runs_ok (train_returns run (Inr (worker_results (train_results s ts))) s)"
      by (simp add: runs_ok_def train_returns_def activity_run_def train_answer_ok_def run_ok_def)
    then show ?thesis using assms Training Inr by (simp add: training_ends_def Let_def)
  qed
qed (use assms in \<open>simp_all add: training_ends_def\<close>)

lemma regroup_ends_runs: "runs_ok s \<Longrightarrow> runs_ok (regroup_ends s)"
  by (cases "activity s") (auto simp: regroup_ends_def runs_ok_def [of s] activity_run_def start_training_runs attempt_fails_runs)

lemma train_wakes_runs: "runs_ok s \<Longrightarrow> runs_ok (train_wakes s)"
  by (cases "activity s") (auto simp: train_wakes_def runs_ok_def [of s] activity_run_def start_attempt_runs)

lemma train_starts_runs: "runs_ok s \<Longrightarrow> runs_ok (train_starts s)"
  using start_attempt_runs [of new_run s]
  by (simp add: train_starts_def runs_ok_def [of s] run_ok_def new_run_def RETRY_MAX_ATTEMPTS_def)

lemma leave_init_runs: "runs_ok s \<Longrightarrow> runs_ok (leave_init b left s)"
  by (erule runs_same) (auto simp: leave_init_def activity_run_def split: sum.split)

lemma with_tasks_run [simp]: "activity_run (with_tasks a ts) = activity_run a"
  by (cases a) (simp_all add: with_tasks_def activity_run_def)

lemma watch_runs: "activity (foldl (watch_call i h) s cs) = activity s \<and> train_log (foldl (watch_call i h) s cs) = train_log s"
  by (induction cs arbitrary: s) (auto simp: watch_call_def add_cell_def remove_cell_def split: cell_call.split)

lemma runs_step:
  assumes "runs_ok s"
  shows "runs_ok (trainer_step expected idx s ev)"
proof (cases ev)
  case InitGathers
  have "runs_ok (s\<lparr>activity := Initialising ts\<rparr>)" for ts using assms by (simp add: runs_ok_def activity_run_def)
  then show ?thesis using assms leave_init_runs InitGathers by (simp add: trainer_step_def init_gathers_def split: sum.split)
next
  case InitEnds
  then show ?thesis using assms leave_init_runs by (cases "activity s") (simp_all add: trainer_step_def init_ends_def)
next
  case InitStarts
  then show ?thesis using assms by (auto simp: trainer_step_def init_starts_def runs_ok_def activity_run_def split: sum.split)
next
  case (MainAnswers k answer)
  then show ?thesis by (intro runs_same [OF assms]) (simp_all add: trainer_step_def main_answers_def split: prod.split)
next
  case (ForwardStarts first name)
  then show ?thesis by (intro runs_same [OF assms]) (simp_all add: trainer_step_def forward_starts_def Let_def)
next
  case (ForwardEnds k)
  then show ?thesis by (intro runs_same [OF assms]) (simp_all add: trainer_step_def forward_ends_def)
next
  case (ForwardAnswers j k answer)
  then show ?thesis by (intro runs_same [OF assms]) (simp_all add: trainer_step_def forward_answers_def split: prod.split)
next
  case (CellObserved k observed)
  then show ?thesis by (intro runs_same [OF assms]) (simp_all add: trainer_step_def reconcile_cell_def Let_def watch_runs)
next
  case (OrphanAnswers k answer)
  then show ?thesis by (intro runs_same [OF assms]) (simp_all add: trainer_step_def orphan_answers_def split: prod.split)
qed (use assms in \<open>simp_all add: trainer_step_def init_times_out_def leave_init_runs train_starts_runs regroup_ends_runs
    training_ends_runs train_wakes_runs\<close>)

interpretation runs: machine "trainer_step expected idx" runs_ok for expected idx
  by unfold_locales (rule runs_step)

section \<open>What the machine guarantees\<close>

text \<open>What an alive cell of a group knows.\<close>

definition member_of :: "nat \<Rightarrow> nat \<Rightarrow> nat list \<Rightarrow> trainer_cell \<Rightarrow> bool" where
  "member_of n quorum w c = (case cell_state c of
       Alive i \<Rightarrow> num_cells i = n \<and> quorum_id i = quorum \<and> alive_cell_indices i = w \<and> alive_size i = length w
         \<and> alive_rank i < length w \<and> w ! alive_rank i = cell_index c
     | _ \<Rightarrow> True)"

text \<open>A cell that the regrouping under way has asked to reconfigure and whose workers have not answered yet.\<close>

definition still_reconfiguring :: "trainer \<Rightarrow> nat \<Rightarrow> bool" where
  "still_reconfiguring s r = list_ex (\<lambda>t. task_object t = r \<and> updating (task_status t)) (regroup_tasks (activity s))"

lemma not_regrouping: "(\<And>run p ts. activity s \<noteq> Regrouping run p ts) \<Longrightarrow> \<not> still_reconfiguring s r"
  by (cases "activity s") (auto simp: still_reconfiguring_def regroup_tasks_def)

lemma compute_info_fields:
  "compute_indep_dp_info n q index w = Inr i \<Longrightarrow> num_cells i = n \<and> quorum_id i = q \<and> alive_cell_indices i = w
     \<and> alive_size i = length w \<and> alive_rank i < length w \<and> w ! alive_rank i = index"
  by (auto simp: compute_indep_dp_info_Inr dest: list_index_Inr)

lemma info_ok_member:
  assumes "info_ok G q (cell_index c) i" "cell_state c = Alive i"
  shows "quorum_id i \<le> q" "member_of (fst (G (quorum_id i))) (quorum_id i) (snd (G (quorum_id i))) c"
  using assms compute_info_fields [of "fst (G (quorum_id i))" "quorum_id i" "cell_index c" "snd (G (quorum_id i))" i]
  by (simp_all add: info_ok_def member_of_def)

text \<open>
  C27: alive cells agree on their group, also while cells come, go and fail during an initialisation, a regrouping or a training
  attempt: in every reachable state no two watched cells share an index, and there is one group for every quorum, such that every
  alive cell holds the members and the sizes of its quorum's group and sits at its own rank in it; that quorum is the current one,
  unless a regrouping is under way that still waits for the workers of this very cell to reconfigure, and then it is no newer.
\<close>

theorem alive_cells_form_one_group:
  assumes "inj idx" "s = foldl (trainer_step expected idx) new_trainer events"
  shows "distinct (map cell_index (cells s))
    \<and> (\<exists>n w. list_all (\<lambda>r. member_of (n (current_quorum s)) (current_quorum s) (w (current_quorum s)) (cell_heap s ! r)
          \<or> still_reconfiguring s r \<and> (\<exists>q\<le>current_quorum s. member_of (n q) q (w q) (cell_heap s ! r))) (cell_refs s))
    \<and> ((\<forall>run p ts. activity s \<noteq> Regrouping run p ts) \<longrightarrow>
         (\<exists>n w. list_all (member_of n (current_quorum s) w) (cells s)))"
proof -
  let ?q = "current_quorum s"
  have inv: "trainer_inv idx s" using trainer_reachable [OF assms(1)] assms(2) by simp
  then have refs: "refs_ok idx (cell_heap s) (cells_by_id s)"
    and u: "up_to_date ?q (cell_heap s) (cells_by_id s) (regroup_tasks (activity s))" by (simp_all add: trainer_inv_def)
  obtain G where G: "heap_ok G ?q (cell_heap s)" using inv by (auto simp: trainer_inv_def group_infos_ok_def)
  have each: "member_of (fst (G ?q)) ?q (snd (G ?q)) (cell_heap s ! r)
      \<or> still_reconfiguring s r \<and> (\<exists>q\<le>?q. member_of (fst (G q)) q (snd (G q)) (cell_heap s ! r))" if r: "r \<in> set (cell_refs s)" for r
  proof (cases "cell_state (cell_heap s ! r)")
    case (Alive i)
    have "info_ok G ?q (cell_index (cell_heap s ! r)) i"
      using G alive_refs_in_heap [OF refs r] Alive by (auto simp: heap_ok_def list_all_length info_of_def)
    note M = info_ok_member [OF this Alive]
    have "info_of (cell_heap s ! r) = Some i" using Alive by (simp add: info_of_def)
    then have "quorum_id i = ?q \<or> still_reconfiguring s r"
      using u r by (auto simp: up_to_date_def still_reconfiguring_def list_ex_iff)
    then show ?thesis using M by auto
  qed (simp_all add: member_of_def)
  have "list_all (member_of (fst (G ?q)) ?q (snd (G ?q))) (cells s)" if "\<forall>run p ts. activity s \<noteq> Regrouping run p ts"
    using each not_regrouping [of s] that unfolding cells_def list_all_iff by auto
  moreover have "\<exists>n w. list_all (\<lambda>r. member_of (n ?q) ?q (w ?q) (cell_heap s ! r)
          \<or> still_reconfiguring s r \<and> (\<exists>q\<le>?q. member_of (n q) q (w q) (cell_heap s ! r))) (cell_refs s)"
    using each unfolding list_all_iff by (intro exI [of _ "\<lambda>q. fst (G q)"] exI [of _ "\<lambda>q. snd (G q)"]) blast
  ultimately show ?thesis using indices_distinct [OF refs assms(1)] by blast
qed

text \<open>
  C28: a training step is accepted only with the answer of at least one cell and when no worker asked for the step to be discarded;
  it is given up only on an error that cannot be retried or after thirty attempts; between attempts it sleeps at most a minute.
\<close>

theorem accepted_step_is_sound:
  "list_all (\<lambda>(r, slept). length slept < 30 \<and> list_all (\<lambda>d. d \<le> 60) slept \<and> (case r of
      Inr outs \<Rightarrow> outs \<noteq> [] \<and> list_all (\<lambda>(i, os). DISCARDED_SHOULD_RETRY \<notin> set os) outs
    | Inl e \<Rightarrow> e = NonRetryableError \<or> length slept = 29)) (train_log (foldl (trainer_step expected idx) new_trainer events))"
proof -
  have "runs_ok new_trainer" by (simp add: runs_ok_def new_trainer_def activity_run_def)
  then have "runs_ok (foldl (trainer_step expected idx) new_trainer events)" by (rule runs.inv_run)
  then have log: "list_all train_answer_ok (train_log (foldl (trainer_step expected idx) new_trainer events))" by (simp add: runs_ok_def)
  show ?thesis by (rule list.pred_mono_strong [OF log]) (auto simp: train_answer_ok_def RETRY_MAX_ATTEMPTS_def split: sum.splits)
qed

section \<open>A concrete trainer\<close>

text \<open>Numbering of cell ids: \<open>c0\<close>, \<open>c1\<close> and \<open>c2\<close> first, every other id by its text.\<close>

fun text_number :: "string \<Rightarrow> nat" where
  "text_number [] = 0"
| "text_number (c # cs) = of_char c + 1 + 257 * text_number cs"

definition example_index :: "string \<Rightarrow> nat" where
  "example_index k = (if k = ''c0'' then 0 else if k = ''c1'' then 1 else if k = ''c2'' then 2 else text_number k + 3)"

lemma text_number_inj: "text_number a = text_number b \<Longrightarrow> a = b"
proof (induction a arbitrary: b)
  case Nil
  then show ?case by (cases b) auto
next
  case (Cons c cs)
  obtain d ds where b: "b = d # ds" using Cons.prems by (cases b) auto
  have lt: "of_char c + 1 < (257::nat)" "of_char d + 1 < (257::nat)"
    using nat_of_char_less_256 [of c] nat_of_char_less_256 [of d] by linarith+
  have eq: "(of_char c + 1) + 257 * text_number cs = (of_char d + 1) + 257 * text_number ds"
    using Cons.prems b by simp
  have "of_char c + 1 = of_char d + (1::nat)" using arg_cong [OF eq, of "\<lambda>n. n mod 257"] lt by simp
  then have "c = d" "text_number cs = text_number ds" using eq by simp_all
  with Cons.IH b show ?case by simp
qed

lemma inj_example_index: "inj example_index"
  by (rule injI) (auto simp: example_index_def dest: text_number_inj split: if_splits)

text \<open>
  Two cells start.  The second one fails a forwarded call, is replaced, and the replacement heals in the regrouping of the first
  training step; while that waits, a third cell comes.
\<close>

definition example_beginning :: "trainer_event list" where
  "example_beginning =
     [InitStarts, CellObserved ''c0'' (Some ''h''), CellObserved ''c1'' (Some ''h''), InitGathers,
      MainAnswers 0 (Inr []), MainAnswers 1 (Inr []), MainAnswers 1 (Inr []), MainAnswers 0 (Inr []), InitEnds,
      ForwardStarts False ''wake_up'', ForwardAnswers 0 1 (Inl RuntimeError), ForwardAnswers 0 0 (Inr []), ForwardAnswers 0 1 (Inr []), ForwardEnds 0,
      CellObserved ''c1'' (Some ''h2''), TrainStarts, MainAnswers 1 (Inr []), CellObserved ''c2'' (Some ''h''), MainAnswers 1 (Inr [])]"

definition example_midway :: trainer where
  "example_midway = foldl (trainer_step 2 example_index) new_trainer example_beginning"

definition example_trained :: trainer where
  "example_trained = foldl (trainer_step 2 example_index) new_trainer (example_beginning @
     [MainAnswers 0 (Inr []), MainAnswers 0 (Inr []), RegroupEnds,
      MainAnswers 0 (Inr [NORMAL]), CellObserved ''c2'' None, MainAnswers 1 (Inl RuntimeError), MainAnswers 1 (Inr []), TrainingEnds])"

theorem alive_cells_form_one_group_witness:
  "current_quorum example_midway = 1 \<and> indices_of is_alive example_midway = [0, 1]
   \<and> map (still_reconfiguring example_midway) (cell_refs example_midway) = [True, False, False]
   \<and> distinct (map cell_index (cells example_midway))"
proof (intro conjI)
  show "current_quorum example_midway = 1" by code_simp
  show "indices_of is_alive example_midway = [0, 1]" by code_simp
  show "map (still_reconfiguring example_midway) (cell_refs example_midway) = [True, False, False]" by code_simp
  show "distinct (map cell_index (cells example_midway))"
    using alive_cells_form_one_group [OF inj_example_index example_midway_def] by (rule conjunct1)
qed

theorem accepted_step_is_sound_witness:
  "train_log example_trained = [(Inr [(0, [NORMAL])], [])] \<and> length (snd (hd (train_log example_trained))) < 30"
proof -
  have log: "train_log example_trained = [(Inr [(0, [NORMAL])], [])]" by code_simp
  have "list_all (\<lambda>(r, slept). length slept < 30 \<and> list_all (\<lambda>d. d \<le> 60) slept \<and> (case r of
      Inr outs \<Rightarrow> outs \<noteq> [] \<and> list_all (\<lambda>(i, os). DISCARDED_SHOULD_RETRY \<notin> set os) outs
    | Inl e \<Rightarrow> e = NonRetryableError \<or> length slept = 29)) (train_log example_trained)"
    unfolding example_trained_def by (rule accepted_step_is_sound)
  with log show ?thesis by simp
qed
end
