(* ===== verification/HealthCheck.thy ===== *)
theory HealthCheck
  imports TrainCells
begin

text \<open>
  Liveness around the trainer's cells: the periodic health checker with its activeness epochs
  (\<open>ft_utils/health_checker.py\<close>) and the small controller that suspends and resumes unhealthy
  cells (\<open>ft_utils/mini_ft_controller.py\<close>).  Probes, clocks and the HTTP calls are arguments.
\<close>

section \<open>Activeness\<close>

record active_and_epoch =
  active_now :: bool
  epoch :: nat

definition bump_active :: "active_and_epoch \<Rightarrow> bool \<Rightarrow> active_and_epoch" where
  "bump_active a b = (if b = active_now a then a else \<lparr> active_now = b, epoch = epoch a + 1 \<rparr>)"

section \<open>The health checker\<close>

record health_config =
  interval :: real
  first_wait :: real
  failure_threshold :: nat

text \<open>Where the loop's task stands: not running, about to iterate, asleep, or probing.\<close>

datatype checker_task = NoTask | LoopTop | Sleeping real | Probing active_and_epoch

text \<open>The last field records every published probe result of the current epoch, newest last.\<close>

record health_checker =
  tracker :: active_and_epoch
  status :: tri_state
  seen_epoch :: active_and_epoch
  need_first_wait :: bool
  consecutive_failures :: nat
  task :: checker_task
  published :: "(nat \<times> bool) list"

definition new_checker :: "bool \<Rightarrow> health_checker" where
  "new_checker initially = \<lparr> tracker = \<lparr> active_now = initially, epoch = 0 \<rparr>, status = TriUnknown,
     seen_epoch = \<lparr> active_now = False, epoch = 0 \<rparr>, need_first_wait = True, consecutive_failures = 0,
     task = NoTask, published = [] \<rparr>"

definition reported_status :: "health_checker \<Rightarrow> tri_state" where
  "reported_status h = (if \<not> active_now (tracker h) \<or> tracker h \<noteq> seen_epoch h then TriUnknown else status h)"

definition start_checker :: "health_checker \<Rightarrow> health_checker" where
  "start_checker h = (if task h \<noteq> NoTask then h else h\<lparr> task := LoopTop \<rparr>)"

definition stop_checker :: "health_checker \<Rightarrow> health_checker" where
  "stop_checker h = h\<lparr> task := NoTask, status := TriUnknown \<rparr>"

definition on_paused :: "health_checker \<Rightarrow> health_checker" where
  "on_paused h = h\<lparr> status := TriUnknown \<rparr>"

definition on_resumed :: "health_checker \<Rightarrow> health_checker" where
  "on_resumed h = h\<lparr> need_first_wait := True, status := TriUnknown, consecutive_failures := 0, published := [] \<rparr>"

definition publish_result :: "health_config \<Rightarrow> nat \<Rightarrow> health_checker \<Rightarrow> bool \<Rightarrow> health_checker" where
  "publish_result cfg e h success =
     (if success then h\<lparr> consecutive_failures := 0, status := TriTrue, published := published h @ [(e, True)] \<rparr>
      else let n = consecutive_failures h + 1 in
        h\<lparr> consecutive_failures := n, status := (if failure_threshold cfg \<le> n then TriFalse else status h),
          published := published h @ [(e, False)] \<rparr>)"

text \<open>One iteration of the loop, up to its sleep or to the probe.\<close>

definition loop_top :: "health_config \<Rightarrow> health_checker \<Rightarrow> health_checker" where
  "loop_top cfg h =
     (let a = tracker h;
          h1 = (if a \<noteq> seen_epoch h
                then (if active_now a then on_resumed else on_paused) (h\<lparr> seen_epoch := a \<rparr>) else h) in
      if active_now a \<and> need_first_wait h1 then h1\<lparr> need_first_wait := False, task := Sleeping (first_wait cfg) \<rparr>
      else if active_now a then h1\<lparr> task := Probing a \<rparr>
      else h1\<lparr> task := Sleeping (interval cfg) \<rparr>)"

text \<open>A probe that outlived its epoch is discarded.\<close>

definition probe_ends :: "health_config \<Rightarrow> health_checker \<Rightarrow> bool \<Rightarrow> health_checker" where
  "probe_ends cfg h success = (case task h of
       Probing a \<Rightarrow>
         (let h1 = (if \<not> active_now (tracker h) \<or> epoch (tracker h) \<noteq> epoch a then h
                    else publish_result cfg (epoch a) h success) in
          h1\<lparr> task := Sleeping (interval cfg) \<rparr>)
     | _ \<Rightarrow> h)"

datatype health_event = BumpsActive bool | Starts | StopsChecker | Iterates | ProbeEnds bool | Wakes

definition health_step :: "health_config \<Rightarrow> health_checker \<Rightarrow> health_event \<Rightarrow> health_checker" where
  "health_step cfg h ev = (case ev of
       BumpsActive b \<Rightarrow> h\<lparr> tracker := bump_active (tracker h) b \<rparr>
     | Starts \<Rightarrow> start_checker h
     | StopsChecker \<Rightarrow> stop_checker h
     | Iterates \<Rightarrow> (if task h = LoopTop then loop_top cfg h else h)
     | ProbeEnds success \<Rightarrow> probe_ends cfg h success
     | Wakes \<Rightarrow> (case task h of Sleeping _ \<Rightarrow> h\<lparr> task := LoopTop \<rparr> | _ \<Rightarrow> h))"

text \<open>What the probe results of an epoch mean, newest last.\<close>

definition trailing_failures :: "bool list \<Rightarrow> nat" where
  "trailing_failures results = length (takeWhile Not (rev results))"

definition verdict :: "nat \<Rightarrow> bool list \<Rightarrow> tri_state" where
  "verdict threshold results =
     (if results = [] then TriUnknown
      else if last results then TriTrue
      else if threshold \<le> trailing_failures results then TriFalse
      else if True \<in> set results then TriTrue else TriUnknown)"

lemma trailing_failures_snoc [simp]:
  "trailing_failures [] = 0"
  "trailing_failures (xs @ [b]) = (if b then 0 else Suc (trailing_failures xs))"
  by (simp_all add: trailing_failures_def)

definition epochs_ok :: "health_checker \<Rightarrow> bool" where
  "epochs_ok h \<longleftrightarrow> epoch (seen_epoch h) \<le> epoch (tracker h)
     \<and> (epoch (seen_epoch h) = epoch (tracker h) \<and> seen_epoch h \<noteq> tracker h \<longrightarrow> \<not> active_now (seen_epoch h))
     \<and> (case task h of Probing a \<Rightarrow> a = seen_epoch h \<and> active_now a | _ \<Rightarrow> True)"

definition results_ok :: "health_config \<Rightarrow> health_checker \<Rightarrow> bool" where
  "results_ok cfg h \<longleftrightarrow> consecutive_failures h = trailing_failures (map snd (published h))
     \<and> (active_now (seen_epoch h) \<longrightarrow> list_all (\<lambda>p. fst p = epoch (seen_epoch h)) (published h))
     \<and> (status h = TriUnknown \<or> status h = verdict (failure_threshold cfg) (map snd (published h)))"

definition checker_inv :: "health_config \<Rightarrow> health_checker \<Rightarrow> bool" where
  "checker_inv cfg h \<longleftrightarrow> epochs_ok h \<and> results_ok cfg h"

lemma verdict_snoc [simp]:
  "verdict n [] = TriUnknown"
  "verdict n (xs @ [b]) = (if b then TriTrue else if n \<le> Suc (trailing_failures xs) then TriFalse
     else if True \<in> set xs then TriTrue else TriUnknown)"
  by (simp_all add: verdict_def)

lemma verdict_fails:
  assumes "st = TriUnknown \<or> st = verdict n rs" "\<not> n \<le> Suc (trailing_failures rs)"
  shows "st = TriUnknown \<or> st = verdict n (rs @ [False])"
proof -
  have "verdict n rs = (if True \<in> set rs then TriTrue else TriUnknown)"
  proof (cases rs rule: rev_cases)
    case (snoc xs b)
    with assms(2) show ?thesis by (cases b) auto
  qed simp
  then show ?thesis using assms unfolding verdict_snoc(2) by auto
qed

lemma publish_results:
  assumes "results_ok cfg h" "active_now (seen_epoch h)" "e = epoch (seen_epoch h)"
  shows "results_ok cfg (publish_result cfg e h success)"
proof (cases success)
  case True
  with assms show ?thesis by (simp add: results_ok_def publish_result_def)
next
  case False
  let ?rs = "map snd (published h)" and ?n = "failure_threshold cfg"
  have st: "status h = TriUnknown \<or> status h = verdict ?n ?rs"
    and cf: "consecutive_failures h = trailing_failures ?rs"
    using assms(1) by (simp_all add: results_ok_def)
  have "(if ?n \<le> Suc (trailing_failures ?rs) then TriFalse else status h) = TriUnknown
      \<or> (if ?n \<le> Suc (trailing_failures ?rs) then TriFalse else status h) = verdict ?n (?rs @ [False])"
    using verdict_fails [OF st] by (cases "?n \<le> Suc (trailing_failures ?rs)") simp_all
  then show ?thesis
    using assms False cf by (simp add: results_ok_def publish_result_def Let_def del: verdict_snoc)
qed

lemma publish_same [simp]:
  "tracker (publish_result cfg e h success) = tracker h" "seen_epoch (publish_result cfg e h success) = seen_epoch h"
  "task (publish_result cfg e h success) = task h"
  by (simp_all add: publish_result_def Let_def)

lemma probe_ends_inv:
  assumes "checker_inv cfg h"
  shows "checker_inv cfg (probe_ends cfg h success)"
proof (cases "task h")
  case (Probing a)
  then have a: "a = seen_epoch h" "active_now (seen_epoch h)" using assms by (auto simp: checker_inv_def epochs_ok_def)
  have idle: "checker_inv cfg (h1\<lparr> task := Sleeping d \<rparr>)" if "checker_inv cfg h1" for h1 d
    using that by (simp add: checker_inv_def epochs_ok_def results_ok_def)
  have "checker_inv cfg (publish_result cfg (epoch a) h success)"
    using assms publish_results [of cfg h "epoch a" success] a by (cases "task h") (simp_all add: checker_inv_def epochs_ok_def)
  then show ?thesis using assms Probing by (simp add: probe_ends_def Let_def idle)
qed (use assms in \<open>simp_all add: probe_ends_def\<close>)

lemma loop_top_inv:
  assumes "checker_inv cfg h"
  shows "checker_inv cfg (loop_top cfg h)"
proof (cases "tracker h = seen_epoch h")
  case True
  with assms show ?thesis by (simp add: checker_inv_def epochs_ok_def results_ok_def loop_top_def Let_def)
next
  case False
  show ?thesis
  proof (cases "active_now (tracker h)")
    case True
    with False assms show ?thesis
      by (simp add: checker_inv_def epochs_ok_def results_ok_def loop_top_def Let_def on_resumed_def)
  next
    case inactive: False
    with False assms show ?thesis
      by (simp add: checker_inv_def epochs_ok_def results_ok_def loop_top_def Let_def on_paused_def)
  qed
qed

lemma health_step_inv:
  assumes "checker_inv cfg h"
  shows "checker_inv cfg (health_step cfg h ev)"
proof (cases ev)
  case (BumpsActive b)
  show ?thesis
  proof (cases "b = active_now (tracker h)")
    case True
    with assms BumpsActive show ?thesis by (simp add: health_step_def bump_active_def)
  next
    case False
    with assms BumpsActive show ?thesis
      by (cases "task h") (simp_all add: health_step_def checker_inv_def epochs_ok_def results_ok_def bump_active_def)
  qed
next
  case Iterates
  with loop_top_inv [OF assms] assms show ?thesis by (simp add: health_step_def)
next
  case (ProbeEnds success)
  with probe_ends_inv [OF assms] show ?thesis by (simp add: health_step_def)
next
  case Wakes
  with assms show ?thesis
    by (cases "task h") (simp_all add: health_step_def checker_inv_def epochs_ok_def results_ok_def)
next
  case Starts
  with assms show ?thesis
    by (cases "task h") (simp_all add: health_step_def start_checker_def checker_inv_def epochs_ok_def results_ok_def)
next
  case StopsChecker
  with assms show ?thesis
    by (simp add: health_step_def stop_checker_def checker_inv_def epochs_ok_def results_ok_def)
qed

interpretation health: machine "health_step cfg" "checker_inv cfg" for cfg
  by unfold_locales (rule health_step_inv)

lemma new_checker_inv: "checker_inv cfg (new_checker b)"
  by (simp add: checker_inv_def epochs_ok_def results_ok_def new_checker_def)

definition run_checker :: "health_config \<Rightarrow> bool \<Rightarrow> health_event list \<Rightarrow> health_checker" where
  "run_checker cfg b events = foldl (health_step cfg) (new_checker b) events"

text \<open>
  A cell is reported unhealthy only after the configured number of consecutive failed
  probes, all of the current activeness epoch, and healthy only after a successful one of it:
  what is reported is unknown or the verdict on exactly this epoch's probes; probes that ran
  across a pause never count.
\<close>

theorem health_report_is_debounced:
  "case reported_status (run_checker cfg b events) of
     TriUnknown \<Rightarrow> True
   | TriTrue \<Rightarrow> True \<in> snd ` set (published (run_checker cfg b events))
       \<and> list_all (\<lambda>p. fst p = epoch (tracker (run_checker cfg b events))) (published (run_checker cfg b events))
   | TriFalse \<Rightarrow> failure_threshold cfg \<le> trailing_failures (map snd (published (run_checker cfg b events)))
       \<and> active_now (tracker (run_checker cfg b events))
       \<and> list_all (\<lambda>p. fst p = epoch (tracker (run_checker cfg b events))) (published (run_checker cfg b events))"
proof -
  let ?h = "run_checker cfg b events"
  have inv: "checker_inv cfg ?h" unfolding run_checker_def by (rule health.inv_run [OF new_checker_inv])
  show ?thesis
  proof (cases "reported_status ?h = TriUnknown")
    case False
    then have r: "active_now (tracker ?h)" "seen_epoch ?h = tracker ?h" "reported_status ?h = status ?h"
      by (auto simp: reported_status_def split: if_splits)
    with False inv have st: "reported_status ?h = verdict (failure_threshold cfg) (map snd (published ?h))"
      and ep: "list_all (\<lambda>p. fst p = epoch (tracker ?h)) (published ?h)" by (auto simp: checker_inv_def results_ok_def)
    have v: "verdict n rs = TriTrue \<Longrightarrow> True \<in> set rs" "verdict n rs = TriFalse \<Longrightarrow> n \<le> trailing_failures rs" for n rs
      by (auto simp: verdict_def split: if_splits dest: last_in_set)
    show ?thesis
      using st ep r(1) v [of "failure_threshold cfg" "map snd (published ?h)"] by (cases "reported_status ?h") auto
  qed simp
qed

section \<open>The mini controller\<close>

datatype cell_health = HEALTHY | UNHEALTHY | NOT_APPLICABLE

definition compute_cell_snapshot :: "cell_status \<Rightarrow> cell_health" where
  "compute_cell_snapshot st =
     (let healthy = filter (\<lambda>c. cond_type c = ''Healthy'') (conditions st) in
      if list_ex (\<lambda>c. cond_status c = TriFalse) healthy then UNHEALTHY
      else if phase st = ''Suspended'' then UNHEALTHY
      else if healthy = [] then NOT_APPLICABLE else HEALTHY)"

record cell_backoff =
  heal_failures :: nat
  next_attempt_at :: real

definition heal_delay :: "nat \<Rightarrow> real" where
  "heal_delay n = min (5 * 2 ^ n) 300"

text \<open>
  \<open>_heal\<close>: suspend, wait, resume unless the cells resume by themselves.  Whether the calls
  succeeded and the clock afterwards are arguments.
\<close>

definition heal :: "real \<Rightarrow> bool \<times> real \<Rightarrow> cell_backoff \<Rightarrow> cell_backoff" where
  "heal resume_delay outcome bo =
     (case outcome of (succeeded, t) \<Rightarrow>
        if succeeded then \<lparr> heal_failures = 0, next_attempt_at = t + resume_delay \<rparr>
        else \<lparr> heal_failures = heal_failures bo + 1, next_attempt_at = t + heal_delay (heal_failures bo + 1) \<rparr>)"

record heal_env =
  clock_of :: "string \<Rightarrow> real"
  heal_outcome :: "string \<Rightarrow> bool \<times> real"

type_synonym heal_state = "(string, cell_backoff) dict \<times> string list \<times> string list"

definition poll_one :: "real \<Rightarrow> heal_env \<Rightarrow> heal_state \<Rightarrow> string \<times> cell_health \<Rightarrow> heal_state" where
  "poll_one resume_delay env st cell =
     (let (backoffs, unhealthy, healed) = st; name = fst cell in
      if snd cell \<noteq> UNHEALTHY then st
      else let bo = (case dget backoffs name of None \<Rightarrow> \<lparr> heal_failures = 0, next_attempt_at = 0 \<rparr> | Some b \<Rightarrow> b);
               backoffs' = (case dget backoffs name of None \<Rightarrow> dset backoffs name bo | Some _ \<Rightarrow> backoffs) in
        if clock_of env name < next_attempt_at bo then (backoffs', unhealthy @ [name], healed)
        else (dset backoffs' name (heal resume_delay (heal_outcome env name) bo), unhealthy @ [name], healed @ [name]))"

definition poll_and_heal ::
  "real \<Rightarrow> heal_env \<Rightarrow> (string \<times> cell_health) list \<Rightarrow> (string, cell_backoff) dict
   \<Rightarrow> (string, cell_backoff) dict \<times> string list" where
  "poll_and_heal resume_delay env cs backoffs =
     (let (backoffs', unhealthy, healed) = foldl (poll_one resume_delay env) (backoffs, [], []) cs in
      (filter (\<lambda>(k, _). k \<in> set unhealthy) backoffs', healed))"

definition cooldown :: "(string, cell_backoff) dict \<Rightarrow> string \<Rightarrow> cell_backoff" where
  "cooldown backoffs k = (case dget backoffs k of None \<Rightarrow> \<lparr> heal_failures = 0, next_attempt_at = 0 \<rparr> | Some b \<Rightarrow> b)"

lemma poll_one_facts:
  assumes "poll_one d env (bo, un, he) (k, st) = (bo', un', he')" "dict_ok bo"
  shows "dict_ok bo'" "un' = (if st = UNHEALTHY then un @ [k] else un)"
    "he' = (if st = UNHEALTHY \<and> next_attempt_at (cooldown bo k) \<le> clock_of env k then he @ [k] else he)"
    "dget bo' j = (if j = k \<and> st = UNHEALTHY
       then Some (if next_attempt_at (cooldown bo k) \<le> clock_of env k then heal d (heal_outcome env k) (cooldown bo k) else cooldown bo k)
       else dget bo j)"
  using assms by (cases "dget bo k"; auto simp: poll_one_def cooldown_def Let_def not_less split: if_splits)+

lemma poll_fold_facts:
  assumes "foldl (poll_one d env) (bo, [], []) cs = (bo', un, he)" "dict_ok bo" "distinct (map fst cs)"
  shows "dict_ok bo' \<and> un = map fst (filter (\<lambda>c. snd c = UNHEALTHY) cs)
    \<and> he = map fst (filter (\<lambda>c. snd c = UNHEALTHY \<and> next_attempt_at (cooldown bo (fst c)) \<le> clock_of env (fst c)) cs)
    \<and> (\<forall>j. dget bo' j = (if j \<in> set un
        then Some (if j \<in> set he then heal d (heal_outcome env j) (cooldown bo j) else cooldown bo j) else dget bo j))"
  using assms(1,3)
proof (induction cs arbitrary: bo' un he rule: rev_induct)
  case (snoc c cs)
  obtain k st where c: "c = (k, st)" by (cases c)
  obtain bo1 un1 he1 where one: "foldl (poll_one d env) (bo, [], []) cs = (bo1, un1, he1)" by (metis prod_cases3)
  have IH: "dict_ok bo1" "un1 = map fst (filter (\<lambda>c. snd c = UNHEALTHY) cs)"
    "he1 = map fst (filter (\<lambda>c. snd c = UNHEALTHY \<and> next_attempt_at (cooldown bo (fst c)) \<le> clock_of env (fst c)) cs)"
    "\<And>j. dget bo1 j = (if j \<in> set un1
        then Some (if j \<in> set he1 then heal d (heal_outcome env j) (cooldown bo j) else cooldown bo j) else dget bo j)"
    using snoc.IH [OF one] snoc.prems(2) by simp_all
  have two: "poll_one d env (bo1, un1, he1) (k, st) = (bo', un, he)" using snoc.prems(1) one c by simp
  have k: "k \<notin> set un1" "k \<notin> set he1" using snoc.prems(2) IH(2,3) c by auto
  then have cd: "cooldown bo1 k = cooldown bo k" using IH(4) [of k] by (simp add: cooldown_def)
  note P = poll_one_facts [OF two IH(1)]
  show ?case using P(1) P(2) P(3) P(4) IH k c by (auto simp: cd)
qed (use assms(2) in simp)

text \<open>
  Healing is throttled per cell: a poll tries exactly the unhealthy cells whose cooldown is
  over, tracks exactly the unhealthy cells, forgets a recovered one, and after a failed attempt
  waits between ten seconds and five minutes, never less than after the failure before.
\<close>

theorem healing_is_throttled:
  assumes "dict_ok backoffs" "distinct (map fst cs)" "poll_and_heal d env cs backoffs = (backoffs', healed)"
  shows "set (dkeys backoffs') = set (map fst (filter (\<lambda>c. snd c = UNHEALTHY) cs))
    \<and> set healed = {k. (k, UNHEALTHY) \<in> set cs \<and> next_attempt_at (cooldown backoffs k) \<le> clock_of env k}
    \<and> list_all (\<lambda>k. dget backoffs' k = Some (heal d (heal_outcome env k) (cooldown backoffs k))) healed
    \<and> 10 \<le> heal_delay (Suc n) \<and> heal_delay (Suc n) \<le> 300 \<and> heal_delay n \<le> heal_delay (Suc n)"
proof -
  obtain bo un he where one: "foldl (poll_one d env) (backoffs, [], []) cs = (bo, un, he)" by (metis prod_cases3)
  have res: "backoffs' = filter (\<lambda>(k, _). k \<in> set un) bo" "healed = he"
    using assms(3) one by (simp_all add: poll_and_heal_def)
  note F = poll_fold_facts [OF one assms(1,2)]
  have he_un: "set he \<subseteq> set un" using F by auto
  have get: "dget backoffs' k = (if k \<in> set un then dget bo k else None)" for k
    unfolding res(1) by (rule dget_filter_key)
  have "k \<in> set (dkeys backoffs') \<longleftrightarrow> k \<in> set un" for k
  proof -
    have "k \<in> set (dkeys backoffs') \<longleftrightarrow> dget backoffs' k \<noteq> None" by (simp add: map_of_eq_None_iff)
    then show ?thesis using get [of k] F by simp
  qed
  then have "set (dkeys backoffs') = set (map fst (filter (\<lambda>c. snd c = UNHEALTHY) cs))" using F by blast
  moreover have "set healed = {k. (k, UNHEALTHY) \<in> set cs \<and> next_attempt_at (cooldown backoffs k) \<le> clock_of env k}"
    using F res(2) by force
  moreover have "list_all (\<lambda>k. dget backoffs' k = Some (heal d (heal_outcome env k) (cooldown backoffs k))) healed"
    using F res(2) get he_un by (auto simp: list_all_iff)
  moreover have "(1::real) \<le> 2 ^ n" by (rule one_le_power) simp
  ultimately show ?thesis by (auto simp: heal_delay_def min_def)
qed

theorem healing_is_throttled_witness:
  "set (dkeys (fst (poll_and_heal 5 \<lparr> clock_of = (\<lambda>_. 100), heal_outcome = (\<lambda>_. (False, 100)) \<rparr>
      [(''a'', UNHEALTHY), (''b'', HEALTHY), (''c'', UNHEALTHY)] [(''a'', \<lparr> heal_failures = 1, next_attempt_at = 200 \<rparr>)])))
   = {''a'', ''c''}"
proof -
  let ?x = "poll_and_heal 5 \<lparr> clock_of = (\<lambda>_. 100), heal_outcome = (\<lambda>_. (False, 100)) \<rparr>
      [(''a'', UNHEALTHY), (''b'', HEALTHY), (''c'', UNHEALTHY)] [(''a'', \<lparr> heal_failures = 1, next_attempt_at = 200 \<rparr>)]"
  obtain b h where x: "?x = (b, h)" by fastforce
  from healing_is_throttled [OF _ _ x] show ?thesis unfolding x by (simp add: dict_ok_def)
qed

end
