(* ===== verification/WorkerRpc.thy ===== *)
theory WorkerRpc
  imports Prelude
begin

text \<open>
  Remote calls of workers (\<open>utils/workers/rpc\<close>): the server's store of calls with its retention, the guard on the
  boot id, the client's transport with its pin, and a call's life from the handshake over the retried
  submission to the long polls.  The network decides for every request whether it reaches the server and
  whether the answer comes back; a boot id and a call id are counters, the codec of arguments and results is
  a parameter, deadlines are part of the event (\<open>final\<close> is the attempt after which the deadline has passed).
\<close>

section \<open>The store of calls\<close>

datatype 'r call_status = Pending | Success 'r | Failure string

record 'r call_record =
  call_outcome :: "'r call_status option"
  finished_at :: "real option"
  first_retrieved_at :: "real option"

definition RETRIEVED_TTL_SECONDS :: real where
  "RETRIEVED_TTL_SECONDS = 300"

definition FINISHED_TTL_SECONDS :: real where
  "FINISHED_TTL_SECONDS = 12 * 3600"

type_synonym 'r call_store = "(nat, 'r call_record) dict"

definition is_live :: "real \<Rightarrow> 'r call_record \<Rightarrow> bool" where
  "is_live now r = (case finished_at r of
       None \<Rightarrow> True
     | Some f \<Rightarrow> (case first_retrieved_at r of
           Some t \<Rightarrow> now - t \<le> RETRIEVED_TTL_SECONDS
         | None \<Rightarrow> now - f \<le> FINISHED_TTL_SECONDS))"

definition purge_expired :: "real \<Rightarrow> 'r call_store \<Rightarrow> 'r call_store" where
  "purge_expired now st = filter (\<lambda>(_, r). is_live now r) st"

definition begin_call :: "real \<Rightarrow> nat \<Rightarrow> 'r call_store \<Rightarrow> 'r call_store \<times> unit res" where
  "begin_call now i st =
     (let st' = purge_expired now st in
      if dget st' i \<noteq> None then (st', Inl DuplicateCallError)
      else (dset st' i \<lparr> call_outcome = None, finished_at = None, first_retrieved_at = None \<rparr>, Inr ()))"

definition finish_call :: "real \<Rightarrow> nat \<Rightarrow> 'r call_status \<Rightarrow> 'r call_store \<Rightarrow> 'r call_store res" where
  "finish_call now i out st = (case dget st i of
       None \<Rightarrow> Inl KeyError
     | Some r \<Rightarrow> if call_outcome r \<noteq> None then Inl RuntimeError
         else Inr (dset st i (r\<lparr>call_outcome := Some out, finished_at := Some now\<rparr>)))"

text \<open>What \<open>wait\<close> does once the event is set or the time is up.\<close>

definition retrieve :: "real \<Rightarrow> nat \<Rightarrow> 'r call_store \<Rightarrow> 'r call_store \<times> 'r call_status option" where
  "retrieve now i st = (case dget st i of
       None \<Rightarrow> (st, None)
     | Some r \<Rightarrow>
         (if call_outcome r \<noteq> None \<and> first_retrieved_at r = None then dset st i (r\<lparr>first_retrieved_at := Some now\<rparr>) else st,
          call_outcome r))"

definition in_flight_call_ids :: "'r call_store \<Rightarrow> nat list" where
  "in_flight_call_ids st = sort (map fst (filter (\<lambda>(_, r). call_outcome r = None) st))"

section \<open>The server\<close>

record 'q worker_spec =
  method_names :: "string list"
  decodes :: "string \<Rightarrow> 'q \<Rightarrow> bool"

record ('q, 'r) rpc_server =
  boot_uuid :: nat
  clock :: real
  store :: "'r call_store"
  executing :: "nat list"
  executed :: "(nat \<times> nat \<times> string \<times> 'q) list"
  outcomes :: "(nat \<times> 'r call_status) list"

datatype 'q http_request = SubmitReq string nat 'q | StatusReq nat | HealthReq | InFlightReq

datatype 'r http_body = Submitted | Status "'r call_status" | Healthy | CallIds "nat list" | Detail

record 'r http_response =
  status_code :: nat
  boot_header :: "nat option"
  body :: "'r http_body"

text \<open>\<open>executed\<close> and \<open>outcomes\<close> record what the worker was asked to do and how it ended.\<close>

definition submit_call :: "'q worker_spec \<Rightarrow> string \<Rightarrow> nat \<Rightarrow> 'q \<Rightarrow> ('q, 'r) rpc_server \<Rightarrow> (nat \<times> 'r http_body) \<times> ('q, 'r) rpc_server" where
  "submit_call spec name i q s =
     (if name \<notin> set (method_names spec) then ((404, Detail), s)
      else if \<not> decodes spec name q then ((400, Detail), s)
      else case begin_call (clock s) i (store s) of
          (st, Inl _) \<Rightarrow> ((409, Detail), s\<lparr>store := st\<rparr>)
        | (st, Inr _) \<Rightarrow> ((200, Submitted), s\<lparr>store := st, executing := executing s @ [i],
            executed := executed s @ [(boot_uuid s, i, name, q)]\<rparr>))"

definition query_call :: "nat \<Rightarrow> ('q, 'r) rpc_server \<Rightarrow> (nat \<times> 'r http_body) \<times> ('q, 'r) rpc_server" where
  "query_call i s =
     (if dget (store s) i = None then ((404, Detail), s)
      else let (st, out) = retrieve (clock s) i (store s) in
        ((200, Status (case out of None \<Rightarrow> Pending | Some x \<Rightarrow> x)), s\<lparr>store := st\<rparr>))"

text \<open>A task of the executor ends; its outcome is a success or a failure.\<close>

definition end_call :: "nat \<Rightarrow> 'r call_status \<Rightarrow> ('q, 'r) rpc_server \<Rightarrow> ('q, 'r) rpc_server" where
  "end_call i out s =
     (if i \<notin> set (executing s) \<or> out = Pending then s
      else case finish_call (clock s) i out (store s) of
          Inl _ \<Rightarrow> s\<lparr>executing := removeAll i (executing s)\<rparr>
        | Inr st \<Rightarrow> s\<lparr>store := st, executing := removeAll i (executing s), outcomes := outcomes s @ [(i, out)]\<rparr>)"

fun handle_request :: "'q worker_spec \<Rightarrow> 'q http_request \<Rightarrow> ('q, 'r) rpc_server \<Rightarrow> (nat \<times> 'r http_body) \<times> ('q, 'r) rpc_server" where
  "handle_request spec (SubmitReq name i q) s = submit_call spec name i q s"
| "handle_request spec (StatusReq i) s = query_call i s"
| "handle_request spec HealthReq s = ((200, Healthy), s)"
| "handle_request spec InFlightReq s = ((200, CallIds (in_flight_call_ids (store s))), s)"

definition BOOT_UUID_MISMATCH_STATUS :: nat where
  "BOOT_UUID_MISMATCH_STATUS = 412"

text \<open>The middleware in front of every route.\<close>

definition serve :: "'q worker_spec \<Rightarrow> nat option \<Rightarrow> 'q http_request \<Rightarrow> ('q, 'r) rpc_server \<Rightarrow> 'r http_response \<times> ('q, 'r) rpc_server" where
  "serve spec expected req s =
     (let ((code, b), s') = (if expected \<noteq> None \<and> expected \<noteq> Some (boot_uuid s)
        then ((BOOT_UUID_MISMATCH_STATUS, Detail), s) else handle_request spec req s)
      in (\<lparr> status_code = code, boot_header = Some (boot_uuid s), body = b \<rparr>, s'))"

text \<open>A new process answers under the old address and knows no call.\<close>

definition restart :: "('q, 'r) rpc_server \<Rightarrow> ('q, 'r) rpc_server" where
  "restart s = s\<lparr>boot_uuid := boot_uuid s + 1, store := [], executing := []\<rparr>"

section \<open>The client's transport\<close>

record boot_pin =
  pin_required :: bool
  pin_value :: "nat option"

definition pin_expected :: "boot_pin \<Rightarrow> nat option" where
  "pin_expected p = (if pin_required p then pin_value p else None)"

definition needs_handshake :: "boot_pin \<Rightarrow> bool" where
  "needs_handshake p \<longleftrightarrow> pin_required p \<and> pin_value p = None"

datatype transport_error = ConnectFailure | TransportFailure | RequestTimeout | RetryableResponse | ServerRestarted | RpcProtocol nat

text \<open>Connecting failed; or the request was sent, and the flag tells whether the server handled it; or all went well.\<close>

datatype delivery = NeverReached | Lost bool | TimedOut bool | Delivered

definition verify_pin :: "nat option \<Rightarrow> boot_pin \<Rightarrow> boot_pin \<times> bool" where
  "verify_pin header p =
     (if \<not> pin_required p then (p, True)
      else case header of
          None \<Rightarrow> (p, False)
        | Some b \<Rightarrow> (case pin_value p of None \<Rightarrow> (p\<lparr>pin_value := Some b\<rparr>, True) | Some v \<Rightarrow> (p, b = v)))"

definition read_response :: "'r http_response \<Rightarrow> boot_pin \<Rightarrow> boot_pin \<times> (transport_error + 'r http_body)" where
  "read_response resp p =
     (if status_code resp = BOOT_UUID_MISMATCH_STATUS then (p, Inl ServerRestarted)
      else if 500 \<le> status_code resp then (p, Inl RetryableResponse)
      else if status_code resp \<noteq> 200 then (p, Inl (RpcProtocol (status_code resp)))
      else case verify_pin (boot_header resp) p of (p', ok) \<Rightarrow> (p', if ok then Inr (body resp) else Inl ServerRestarted))"

definition transport_request :: "'q worker_spec \<Rightarrow> delivery \<Rightarrow> 'q http_request \<Rightarrow> boot_pin \<Rightarrow> ('q, 'r) rpc_server
    \<Rightarrow> (boot_pin \<times> (transport_error + 'r http_body)) \<times> ('q, 'r) rpc_server" where
  "transport_request spec d req p s = (case d of
       NeverReached \<Rightarrow> ((p, Inl ConnectFailure), s)
     | Lost handled \<Rightarrow> ((p, Inl TransportFailure), if handled then snd (serve spec (pin_expected p) req s) else s)
     | TimedOut handled \<Rightarrow> ((p, Inl RequestTimeout), if handled then snd (serve spec (pin_expected p) req s) else s)
     | Delivered \<Rightarrow> (let (resp, s') = serve spec (pin_expected p) req s in (read_response resp p, s')))"

section \<open>A call\<close>

datatype call_error = WorkerUnreachable | Restarted | ProtocolError nat | WorkerCallError string | StillPending

datatype 'r call_phase = Preparing | Submitting | Polling | Accepted | Returned 'r | Raised call_error

record ('q, 'r) rpc_call =
  call_id :: nat
  method_name :: string
  query :: 'q
  wants_result :: bool
  phase :: "'r call_phase"

definition is_retryable :: "transport_error \<Rightarrow> bool" where
  "is_retryable e \<longleftrightarrow> e \<in> {ConnectFailure, TransportFailure, RequestTimeout, RetryableResponse}"

text \<open>An error that no handler catches.\<close>

definition raise_error :: "transport_error \<Rightarrow> 'r call_phase" where
  "raise_error e = Raised (case e of ServerRestarted \<Rightarrow> Restarted | RpcProtocol c \<Rightarrow> ProtocolError c | _ \<Rightarrow> WorkerUnreachable)"

definition after_health :: "bool \<Rightarrow> transport_error + 'r http_body \<Rightarrow> 'r call_phase" where
  "after_health final reply = (case reply of
       Inr _ \<Rightarrow> Submitting
     | Inl e \<Rightarrow> if is_retryable e \<and> \<not> final then Preparing else raise_error e)"

text \<open>Only an attempt that cannot have reached the server is repeated.\<close>

definition after_submit :: "bool \<Rightarrow> bool \<Rightarrow> transport_error + 'r http_body \<Rightarrow> 'r call_phase" where
  "after_submit wants final reply = (case reply of
       Inr _ \<Rightarrow> if wants then Polling else Accepted
     | Inl e \<Rightarrow> if e = ConnectFailure \<and> \<not> final then Submitting else raise_error e)"

definition after_poll :: "bool \<Rightarrow> transport_error + 'r http_body \<Rightarrow> 'r call_phase" where
  "after_poll final reply = (case reply of
       Inr (Status (Success r)) \<Rightarrow> Returned r
     | Inr (Status (Failure msg)) \<Rightarrow> Raised (WorkerCallError msg)
     | Inr _ \<Rightarrow> if final then Raised StillPending else Polling
     | Inl e \<Rightarrow> if is_retryable e then (if final then Raised StillPending else Polling) else raise_error e)"

section \<open>A handle, its calls and the server\<close>

record ('q, 'r) rpc_system =
  server :: "('q, 'r) rpc_server"
  pin :: boot_pin
  calls :: "('q, 'r) rpc_call list"
  reconnecting :: "nat option option"

definition new_call :: "string \<Rightarrow> 'q \<Rightarrow> bool \<Rightarrow> ('q, 'r) rpc_system \<Rightarrow> ('q, 'r) rpc_system" where
  "new_call name q wants s = s\<lparr>calls := calls s @ [\<lparr> call_id = length (calls s), method_name = name, query = q,
     wants_result = wants, phase = (if needs_handshake (pin s) then Preparing else Submitting) \<rparr>]\<rparr>"

definition request_of :: "('q, 'r) rpc_call \<Rightarrow> 'q http_request" where
  "request_of c = (case phase c of
       Preparing \<Rightarrow> HealthReq
     | Submitting \<Rightarrow> SubmitReq (method_name c) (call_id c) (query c)
     | _ \<Rightarrow> StatusReq (call_id c))"

definition next_phase :: "('q, 'r) rpc_call \<Rightarrow> bool \<Rightarrow> transport_error + 'r http_body \<Rightarrow> 'r call_phase" where
  "next_phase c final reply = (case phase c of
       Preparing \<Rightarrow> after_health final reply
     | Submitting \<Rightarrow> after_submit (wants_result c) final reply
     | _ \<Rightarrow> after_poll final reply)"

definition attempt :: "'q worker_spec \<Rightarrow> nat \<Rightarrow> delivery \<Rightarrow> bool \<Rightarrow> ('q, 'r) rpc_system \<Rightarrow> ('q, 'r) rpc_system" where
  "attempt spec i d final s =
     (if length (calls s) \<le> i \<or> phase (calls s ! i) \<notin> {Preparing, Submitting, Polling} then s
      else let c = calls s ! i; ((p, reply), sv) = transport_request spec d (request_of c) (pin s) (server s) in
        s\<lparr>server := sv, pin := p, calls := (calls s)[i := c\<lparr>phase := next_phase c final reply\<rparr>]\<rparr>)"

text \<open>\<open>wait_ready(allow_server_uuid_change=True)\<close>: unpin, probe (unpinning before every probe), and repin on failure.\<close>

definition start_reconnect :: "('q, 'r) rpc_system \<Rightarrow> ('q, 'r) rpc_system" where
  "start_reconnect s = (if reconnecting s \<noteq> None then s
     else s\<lparr>reconnecting := Some (pin_value (pin s)), pin := (pin s)\<lparr>pin_value := None\<rparr>\<rparr>)"

definition probe_reconnect :: "'q worker_spec \<Rightarrow> delivery \<Rightarrow> bool \<Rightarrow> ('q, 'r) rpc_system \<Rightarrow> ('q, 'r) rpc_system" where
  "probe_reconnect spec d final s = (case reconnecting s of
       None \<Rightarrow> s
     | Some before \<Rightarrow>
         let ((p, reply), sv) = transport_request spec d HealthReq ((pin s)\<lparr>pin_value := None\<rparr>) (server s) in
         case reply of
           Inr _ \<Rightarrow> s\<lparr>server := sv, pin := p, reconnecting := None\<rparr>
         | Inl e \<Rightarrow> if is_retryable e \<and> \<not> final then s\<lparr>server := sv, pin := p\<rparr>
             else s\<lparr>server := sv, pin := p\<lparr>pin_value := before\<rparr>, reconnecting := None\<rparr>)"

text \<open>\<open>wait_idle\<close>: one look at the calls in flight; \<open>None\<close> is an answer that did not come.\<close>

definition idle_probe :: "'q worker_spec \<Rightarrow> delivery \<Rightarrow> ('q, 'r) rpc_system \<Rightarrow> nat list option" where
  "idle_probe spec d s = (case snd (fst (transport_request spec d InFlightReq (pin s) (server s))) of
       Inr (CallIds ids) \<Rightarrow> Some ids
     | _ \<Rightarrow> None)"

datatype ('q, 'r) rpc_event =
    NewCall string 'q bool | Attempt nat delivery bool | EndCall nat "'r call_status"
  | Restart | Tick real | StartReconnect | ProbeReconnect delivery bool

fun rpc_step :: "'q worker_spec \<Rightarrow> ('q, 'r) rpc_system \<Rightarrow> ('q, 'r) rpc_event \<Rightarrow> ('q, 'r) rpc_system" where
  "rpc_step spec s (NewCall name q wants) = new_call name q wants s"
| "rpc_step spec s (Attempt i d final) = attempt spec i d final s"
| "rpc_step spec s (EndCall i out) = s\<lparr>server := end_call i out (server s)\<rparr>"
| "rpc_step spec s Restart = s\<lparr>server := restart (server s)\<rparr>"
| "rpc_step spec s (Tick dt) = s\<lparr>server := (server s)\<lparr>clock := clock (server s) + \<bar>dt\<bar>\<rparr>\<rparr>"
| "rpc_step spec s StartReconnect = start_reconnect s"
| "rpc_step spec s (ProbeReconnect d final) = probe_reconnect spec d final s"

definition rpc_init :: "bool \<Rightarrow> ('q, 'r) rpc_system" where
  "rpc_init required = \<lparr> server = \<lparr> boot_uuid = 0, clock = 0, store = [], executing = [], executed = [], outcomes = [] \<rparr>,
     pin = \<lparr> pin_required = required, pin_value = None \<rparr>, calls = [], reconnecting = None \<rparr>"

definition rpc_run :: "'q worker_spec \<Rightarrow> bool \<Rightarrow> ('q, 'r) rpc_event list \<Rightarrow> ('q, 'r) rpc_system" where
  "rpc_run spec required events = foldl (rpc_step spec) (rpc_init required) events"

section \<open>The server's invariant\<close>

definition executed_ids :: "('q, 'r) rpc_server \<Rightarrow> nat list" where
  "executed_ids sv = map (fst \<circ> snd) (executed sv)"

definition record_ok :: "(nat \<times> 'r call_status) list \<Rightarrow> nat \<Rightarrow> 'r call_record \<Rightarrow> bool" where
  "record_ok outs k r \<longleftrightarrow> (case call_outcome r of
       None \<Rightarrow> finished_at r = None \<and> k \<notin> fst ` set outs
     | Some x \<Rightarrow> x \<noteq> Pending \<and> (k, x) \<in> set outs)"

definition server_inv :: "('q, 'r) rpc_server \<Rightarrow> bool" where
  "server_inv sv \<longleftrightarrow> distinct (executed_ids sv) \<and> (\<forall>(b, _)\<in>set (executed sv). b \<le> boot_uuid sv)
     \<and> dict_ok (store sv) \<and> (\<forall>k r. dget (store sv) k = Some r \<longrightarrow> k \<in> set (executed_ids sv)) \<and> distinct (executing sv)
     \<and> (\<forall>k. k \<in> set (executing sv) \<longleftrightarrow> (\<exists>r. dget (store sv) k = Some r \<and> call_outcome r = None))
     \<and> (\<forall>k r. dget (store sv) k = Some r \<longrightarrow> record_ok (outcomes sv) k r)
     \<and> distinct (map fst (outcomes sv)) \<and> fst ` set (outcomes sv) \<subseteq> set (executed_ids sv)"

lemma dget_purge: "dict_ok st \<Longrightarrow> dget (purge_expired now st) k = (case dget st k of Some r \<Rightarrow> if is_live now r then Some r else None | None \<Rightarrow> None)"
proof -
  assume d: "dict_ok st"
  have p: "dict_ok (purge_expired now st)" using d by (simp add: purge_expired_def)
  show ?thesis
  proof (cases "dget st k")
    case None
    then have "dget (purge_expired now st) k = None"
      by (auto simp: purge_expired_def map_of_eq_None_iff)
    then show ?thesis using None by simp
  next
    case (Some r)
    have "dget (purge_expired now st) k = Some r \<longleftrightarrow> is_live now r"
      using Some d p dget_in [of "purge_expired now st" k r] dget_in [of st k r] by (auto simp: purge_expired_def)
    moreover have "dget (purge_expired now st) k = Some r' \<Longrightarrow> r' = r" for r'
      using Some d p dget_in [of "purge_expired now st" k r'] dget_in [of st k r'] by (auto simp: purge_expired_def)
    ultimately show ?thesis using Some by (cases "dget (purge_expired now st) k") auto
  qed
qed

lemma dict_ok_purge [simp]: "dict_ok st \<Longrightarrow> dict_ok (purge_expired now st)"
  by (simp add: purge_expired_def)

lemma record_ok_append: "k \<noteq> i \<Longrightarrow> record_ok (outs @ [(i, x)]) k r = record_ok outs k r"
  by (auto simp: record_ok_def split: option.splits)

lemma record_ok_retrieved [simp]: "record_ok outs k (r\<lparr>first_retrieved_at := t\<rparr>) = record_ok outs k r"
  by (simp add: record_ok_def split: option.split)

lemma running_record_live: "record_ok outs k r \<Longrightarrow> call_outcome r = None \<Longrightarrow> is_live now r"
  by (simp add: record_ok_def is_live_def)

lemma submit_call_inv:
  assumes inv: "server_inv sv" and new: "i \<notin> set (executed_ids sv)"
  obtains (rejected) c where "submit_call spec name i q sv = ((c, Detail), sv)" "c \<in> {400, 404}"
    | (accepted) sv' where "submit_call spec name i q sv = ((200, Submitted), sv')" "server_inv sv'"
        "executed sv' = executed sv @ [(boot_uuid sv, i, name, q)]" "outcomes sv' = outcomes sv" "boot_uuid sv' = boot_uuid sv"
proof -
  let ?st = "purge_expired (clock sv) (store sv)"
  have d: "dict_ok (store sv)" using inv by (simp add: server_inv_def)
  have none: "dget (store sv) i = None"
    using inv new by (cases "dget (store sv) i") (auto simp: server_inv_def)
  let ?r = "\<lparr>call_outcome = None, finished_at = None, first_retrieved_at = None\<rparr>"
  let ?sv = "sv\<lparr>store := dset ?st i ?r, executing := executing sv @ [i], executed := executed sv @ [(boot_uuid sv, i, name, q)]\<rparr>"
  have purged: "dget ?st k = Some r \<Longrightarrow> dget (store sv) k = Some r" for k r
    using d by (auto simp: dget_purge split: option.splits if_splits)
  have kept: "dget (store sv) k = Some r \<Longrightarrow> call_outcome r = None \<Longrightarrow> dget ?st k = Some r" for k r
    using inv running_record_live [of "outcomes sv" k r "clock sv"] d by (auto simp: dget_purge server_inv_def)
  have i: "dget ?st i = None" using none d by (simp add: dget_purge)
  have notex: "i \<notin> set (executing sv)" using inv none by (auto simp: server_inv_def)
  have "server_inv ?sv" unfolding server_inv_def
  proof (intro conjI)
    show "distinct (executed_ids ?sv)" using inv new by (simp add: server_inv_def executed_ids_def)
    show "\<forall>(b, _)\<in>set (executed ?sv). b \<le> boot_uuid ?sv" using inv by (auto simp: server_inv_def)
    show "dict_ok (store ?sv)" using d by simp
    show "\<forall>k r. dget (store ?sv) k = Some r \<longrightarrow> k \<in> set (executed_ids ?sv)"
      using inv purged by (auto simp: server_inv_def executed_ids_def split: if_splits)
    show "distinct (executing ?sv)" using inv notex by (simp add: server_inv_def)
    show "\<forall>k. k \<in> set (executing ?sv) \<longleftrightarrow> (\<exists>r. dget (store ?sv) k = Some r \<and> call_outcome r = None)"
    proof
      fix k
      have "k \<in> set (executing sv) \<longleftrightarrow> (\<exists>r. dget (store sv) k = Some r \<and> call_outcome r = None)" using inv by (simp add: server_inv_def)
      moreover have "(\<exists>r. dget ?st k = Some r \<and> call_outcome r = None) \<longleftrightarrow> (\<exists>r. dget (store sv) k = Some r \<and> call_outcome r = None)"
        using purged kept by blast
      ultimately show "k \<in> set (executing ?sv) \<longleftrightarrow> (\<exists>r. dget (store ?sv) k = Some r \<and> call_outcome r = None)"
        by (cases "k = i") simp_all
    qed
    have "record_ok (outcomes sv) i ?r" using inv new by (auto simp: record_ok_def server_inv_def)
    then show "\<forall>k r. dget (store ?sv) k = Some r \<longrightarrow> record_ok (outcomes ?sv) k r"
      using inv purged by (auto simp: server_inv_def)
    show "distinct (map fst (outcomes ?sv))" "fst ` set (outcomes ?sv) \<subseteq> set (executed_ids ?sv)"
      using inv by (auto simp: server_inv_def executed_ids_def)
  qed
  moreover have sub: "submit_call spec name i q sv = (if name \<notin> set (method_names spec) then ((404, Detail), sv)
      else if \<not> decodes spec name q then ((400, Detail), sv) else ((200, Submitted), ?sv))"
    using i by (simp add: submit_call_def begin_call_def)
  ultimately show ?thesis
  proof (cases "name \<in> set (method_names spec) \<and> decodes spec name q")
    case True
    with sub \<open>server_inv ?sv\<close> show ?thesis by (intro accepted [of ?sv]) simp_all
  next
    case False
    then have "submit_call spec name i q sv = ((400, Detail), sv) \<or> submit_call spec name i q sv = ((404, Detail), sv)"
      unfolding sub by auto
    then show ?thesis using rejected [of 400] rejected [of 404] by blast
  qed
qed

lemma query_call_inv:
  assumes inv: "server_inv sv" and q: "query_call i sv = ((c, b), sv')"
  shows "server_inv sv'" "executed sv' = executed sv" "outcomes sv' = outcomes sv" "boot_uuid sv' = boot_uuid sv"
    "b = Status x \<Longrightarrow> x \<noteq> Pending \<Longrightarrow> (i, x) \<in> set (outcomes sv)"
proof -
  have d: "dict_ok (store sv)" using inv by (simp add: server_inv_def)
  have rec: "dget (store sv) k = Some r \<Longrightarrow> record_ok (outcomes sv) k r" for k r using inv by (simp add: server_inv_def)
  show sv': "executed sv' = executed sv" "outcomes sv' = outcomes sv" "boot_uuid sv' = boot_uuid sv"
    using q by (auto simp: query_call_def retrieve_def Let_def split: if_splits option.splits prod.splits)
  show "b = Status x \<Longrightarrow> x \<noteq> Pending \<Longrightarrow> (i, x) \<in> set (outcomes sv)"
    using q rec [of i] by (auto simp: query_call_def retrieve_def Let_def record_ok_def split: if_splits option.splits prod.splits)
  have "sv' = sv \<or> (\<exists>r t. dget (store sv) i = Some r \<and> sv' = sv\<lparr>store := dset (store sv) i (r\<lparr>first_retrieved_at := t\<rparr>)\<rparr>)"
    using q by (auto simp: query_call_def retrieve_def Let_def split: if_splits option.splits prod.splits)
  then show "server_inv sv'"
  proof
    assume "\<exists>r t. dget (store sv) i = Some r \<and> sv' = sv\<lparr>store := dset (store sv) i (r\<lparr>first_retrieved_at := t\<rparr>)\<rparr>"
    then obtain r t where r: "dget (store sv) i = Some r" "sv' = sv\<lparr>store := dset (store sv) i (r\<lparr>first_retrieved_at := t\<rparr>)\<rparr>" by blast
    show ?thesis using inv d rec [OF r(1)] r
      by (auto simp: server_inv_def executed_ids_def)
  qed (use inv in simp)
qed

lemma end_call_inv:
  assumes inv: "server_inv sv"
  shows "server_inv (end_call i out sv)" "executed (end_call i out sv) = executed sv"
    "set (outcomes sv) \<subseteq> set (outcomes (end_call i out sv))"
proof -
  have "end_call i out sv = sv \<or> (\<exists>r. dget (store sv) i = Some r \<and> call_outcome r = None \<and> out \<noteq> Pending
      \<and> end_call i out sv = sv\<lparr>store := dset (store sv) i (r\<lparr>call_outcome := Some out, finished_at := Some (clock sv)\<rparr>),
          executing := removeAll i (executing sv), outcomes := outcomes sv @ [(i, out)]\<rparr>)"
    using inv by (auto simp: end_call_def finish_call_def server_inv_def)
  then show "server_inv (end_call i out sv)" "executed (end_call i out sv) = executed sv"
    "set (outcomes sv) \<subseteq> set (outcomes (end_call i out sv))"
  proof (atomize (full), elim disjE exE conjE)
    fix r assume r: "dget (store sv) i = Some r" "call_outcome r = None" "out \<noteq> Pending"
      and e: "end_call i out sv = sv\<lparr>store := dset (store sv) i (r\<lparr>call_outcome := Some out, finished_at := Some (clock sv)\<rparr>),
          executing := removeAll i (executing sv), outcomes := outcomes sv @ [(i, out)]\<rparr>"
    let ?sv = "end_call i out sv"
    have ro: "record_ok (outcomes sv) i r" and d: "dict_ok (store sv)" using inv r by (auto simp: server_inv_def)
    have notout: "i \<notin> fst ` set (outcomes sv)" using ro r by (simp add: record_ok_def)
    have ex: "i \<in> set (executed_ids sv)" using inv r(1) by (auto simp: server_inv_def)
    have "server_inv ?sv" unfolding server_inv_def
    proof (intro conjI)
      show "\<forall>k r. dget (store ?sv) k = Some r \<longrightarrow> k \<in> set (executed_ids ?sv)"
        using inv ex by (auto simp: e server_inv_def executed_ids_def)
      show "\<forall>k. k \<in> set (executing ?sv) \<longleftrightarrow> (\<exists>r. dget (store ?sv) k = Some r \<and> call_outcome r = None)"
        using inv by (auto simp: e server_inv_def)
      have "record_ok (outcomes ?sv) i (r\<lparr>call_outcome := Some out, finished_at := Some (clock sv)\<rparr>)"
        using r(3) by (simp add: record_ok_def e)
      then show "\<forall>k r. dget (store ?sv) k = Some r \<longrightarrow> record_ok (outcomes ?sv) k r"
        using inv by (auto simp: e server_inv_def record_ok_append)
      show "distinct (map fst (outcomes ?sv))" using inv notout by (auto simp: e server_inv_def)
      show "fst ` set (outcomes ?sv) \<subseteq> set (executed_ids ?sv)" using inv ex by (auto simp: e server_inv_def executed_ids_def)
    qed (use inv d in \<open>auto simp: e server_inv_def executed_ids_def distinct_removeAll\<close>)
    then show "server_inv ?sv \<and> executed ?sv = executed sv \<and> set (outcomes sv) \<subseteq> set (outcomes ?sv)" by (auto simp: e)
  qed (use inv in simp)
qed

lemma restart_inv: "server_inv sv \<Longrightarrow> server_inv (restart sv)"
  by (auto simp: server_inv_def restart_def executed_ids_def)

section \<open>The system's invariant\<close>

definition call_ok :: "('q, 'r) rpc_server \<Rightarrow> nat \<Rightarrow> ('q, 'r) rpc_call \<Rightarrow> bool" where
  "call_ok sv i c \<longleftrightarrow> call_id c = i
     \<and> (\<forall>b n q. (b, i, n, q) \<in> set (executed sv) \<longrightarrow> n = method_name c \<and> q = query c)
     \<and> (case phase c of
          Preparing \<Rightarrow> i \<notin> set (executed_ids sv)
        | Submitting \<Rightarrow> i \<notin> set (executed_ids sv)
        | Polling \<Rightarrow> i \<in> set (executed_ids sv)
        | Accepted \<Rightarrow> i \<in> set (executed_ids sv)
        | Returned r \<Rightarrow> (i, Success r) \<in> set (outcomes sv)
        | Raised (WorkerCallError msg) \<Rightarrow> (i, Failure msg) \<in> set (outcomes sv)
        | Raised _ \<Rightarrow> True)"

definition rpc_inv :: "('q, 'r) rpc_system \<Rightarrow> bool" where
  "rpc_inv s \<longleftrightarrow> server_inv (server s) \<and> (\<forall>i\<in>set (executed_ids (server s)). i < length (calls s))
     \<and> (\<forall>i<length (calls s). call_ok (server s) i (calls s ! i))"

text \<open>Requests that submit nothing change no log.\<close>

lemma quiet_request:
  assumes inv: "server_inv sv" and req: "\<forall>name i q. req \<noteq> SubmitReq name i q"
    and t: "transport_request spec d req p sv = ((p', reply), sv')"
  shows "server_inv sv'" "executed sv' = executed sv" "outcomes sv' = outcomes sv" "boot_uuid sv' = boot_uuid sv"
    "reply = Inr (Status x) \<Longrightarrow> x \<noteq> Pending \<Longrightarrow> req = StatusReq i \<Longrightarrow> (i, x) \<in> set (outcomes sv)"
proof -
  obtain c b s1 where h: "handle_request spec req sv = ((c, b), s1)" by (metis surj_pair)
  have s1: "server_inv s1" "executed s1 = executed sv" "outcomes s1 = outcomes sv" "boot_uuid s1 = boot_uuid sv"
    using inv h req query_call_inv [OF inv] by (cases req; simp)+
  have "snd (serve spec e req sv) \<in> {sv, s1}" for e using h by (simp add: serve_def)
  then have "sv' = sv \<or> sv' = s1"
    using t by (auto simp: transport_request_def case_prod_unfold Let_def split: delivery.splits if_splits)
  then show "server_inv sv'" "executed sv' = executed sv" "outcomes sv' = outcomes sv" "boot_uuid sv' = boot_uuid sv"
    using inv s1 by auto
  show "reply = Inr (Status x) \<Longrightarrow> x \<noteq> Pending \<Longrightarrow> req = StatusReq i \<Longrightarrow> (i, x) \<in> set (outcomes sv)"
    using t h query_call_inv(5) [OF inv, of i c b s1 x]
    by (auto simp: transport_request_def serve_def read_response_def Let_def BOOT_UUID_MISMATCH_STATUS_def
        split: delivery.splits if_splits prod.splits)
qed

lemma submit_request:
  assumes inv: "server_inv sv" and new: "i \<notin> set (executed_ids sv)"
    and t: "transport_request spec d (SubmitReq name i q) p sv = ((p', reply), sv')"
  shows "server_inv sv'" "outcomes sv' = outcomes sv"
    "executed sv' = executed sv \<or> executed sv' = executed sv @ [(boot_uuid sv, i, name, q)] \<and> d \<noteq> NeverReached
       \<and> (pin_expected p = None \<or> pin_expected p = Some (boot_uuid sv))"
    "reply = Inr b \<Longrightarrow> i \<in> set (executed_ids sv')"
    "reply = Inl ConnectFailure \<Longrightarrow> executed sv' = executed sv"
proof -
  let ?req = "SubmitReq name i q"
  obtain c b s1 where h: "submit_call spec name i q sv = ((c, b), s1)" by (metis surj_pair)
  have s1: "server_inv s1 \<and> outcomes s1 = outcomes sv
      \<and> (executed s1 = executed sv \<and> c \<in> {400, 404} \<or> executed s1 = executed sv @ [(boot_uuid sv, i, name, q)] \<and> c = 200)"
    by (rule submit_call_inv [OF inv new, of spec name q]) (use h inv in auto)
  have blocked: "pin_expected p \<noteq> None \<Longrightarrow> pin_expected p \<noteq> Some (boot_uuid sv)
      \<Longrightarrow> serve spec (pin_expected p) ?req sv = (\<lparr>status_code = 412, boot_header = Some (boot_uuid sv), body = Detail\<rparr>, sv)"
    by (simp add: serve_def BOOT_UUID_MISMATCH_STATUS_def)
  have passed: "pin_expected p = None \<or> pin_expected p = Some (boot_uuid sv)
      \<Longrightarrow> serve spec (pin_expected p) ?req sv = (\<lparr>status_code = c, boot_header = Some (boot_uuid sv), body = b\<rparr>, s1)"
    using h by (auto simp: serve_def)
  have sv': "sv' = sv \<or> sv' = s1 \<and> d \<noteq> NeverReached \<and> (pin_expected p = None \<or> pin_expected p = Some (boot_uuid sv))"
    using t blocked passed by (cases "pin_expected p = None \<or> pin_expected p = Some (boot_uuid sv)")
      (auto simp: transport_request_def split: delivery.splits if_splits)
  then show "server_inv sv'" "outcomes sv' = outcomes sv"
    "executed sv' = executed sv \<or> executed sv' = executed sv @ [(boot_uuid sv, i, name, q)] \<and> d \<noteq> NeverReached
       \<and> (pin_expected p = None \<or> pin_expected p = Some (boot_uuid sv))"
    using inv s1 by auto
  show "reply = Inl ConnectFailure \<Longrightarrow> executed sv' = executed sv"
    using t by (auto simp: transport_request_def read_response_def Let_def split: delivery.splits if_splits prod.splits)
  show "reply = Inr b' \<Longrightarrow> i \<in> set (executed_ids sv')" for b'
    using t blocked passed s1 by (cases "pin_expected p = None \<or> pin_expected p = Some (boot_uuid sv)")
      (auto simp: transport_request_def read_response_def executed_ids_def BOOT_UUID_MISMATCH_STATUS_def
        split: delivery.splits if_splits prod.splits)
qed

lemma call_ok_mono:
  assumes "call_ok sv j c" "executed sv' = executed sv \<or> (\<exists>b i n q. executed sv' = executed sv @ [(b, i, n, q)] \<and> i \<noteq> j)"
    "set (outcomes sv) \<subseteq> set (outcomes sv')"
  shows "call_ok sv' j c"
proof -
  have e: "(b, j, n, q) \<in> set (executed sv') \<longleftrightarrow> (b, j, n, q) \<in> set (executed sv)" for b n q using assms(2) by auto
  then have "j \<in> set (executed_ids sv') \<longleftrightarrow> j \<in> set (executed_ids sv)" using assms(2) by (auto simp: executed_ids_def)
  then show ?thesis using assms(1,3) e
    by (cases "phase c") (auto simp: call_ok_def split: call_error.splits)
qed

lemma rpc_inv_server:
  assumes "rpc_inv s" "server_inv sv" "executed sv = executed (server s)" "set (outcomes (server s)) \<subseteq> set (outcomes sv)"
  shows "rpc_inv (s\<lparr>server := sv\<rparr>)"
  using assms call_ok_mono [of "server s" _ _ sv] by (auto simp: rpc_inv_def executed_ids_def)

lemma rpc_inv_pin: "rpc_inv s \<Longrightarrow> rpc_inv (s\<lparr>pin := p\<rparr>)" "rpc_inv s \<Longrightarrow> rpc_inv (s\<lparr>reconnecting := r\<rparr>)"
  by (simp_all add: rpc_inv_def)

lemma new_call_inv:
  assumes "rpc_inv s"
  shows "rpc_inv (new_call name q wants s)"
proof -
  have "length (calls s) \<notin> set (executed_ids (server s))" using assms by (auto simp: rpc_inv_def)
  then have "call_ok (server s) (length (calls s)) \<lparr> call_id = length (calls s), method_name = name, query = q,
     wants_result = wants, phase = (if needs_handshake (pin s) then Preparing else Submitting) \<rparr>"
    by (force simp: call_ok_def executed_ids_def)
  then show ?thesis using assms by (auto simp: rpc_inv_def new_call_def nth_append less_Suc_eq)
qed

lemma call_ok_phase: "call_ok sv i c \<Longrightarrow> phase c \<in> {Preparing, Submitting, Polling} \<Longrightarrow> call_id c = i"
  by (simp add: call_ok_def)

lemma attempted_call_ok:
  assumes inv: "server_inv sv" and c: "call_ok sv i c" and ph: "phase c \<in> {Preparing, Submitting, Polling}"
    and t: "transport_request spec d (request_of c) p sv = ((p', reply), sv')"
  shows "server_inv sv'" "set (outcomes sv) \<subseteq> set (outcomes sv')"
    "executed sv' = executed sv \<or> (\<exists>b. executed sv' = executed sv @ [(b, i, method_name c, query c)])"
    "call_ok sv' i (c\<lparr>phase := next_phase c final reply\<rparr>)"
proof -
  have id: "call_id c = i" by (rule call_ok_phase [OF c ph])
  have "server_inv sv' \<and> set (outcomes sv) \<subseteq> set (outcomes sv')
      \<and> (executed sv' = executed sv \<or> (\<exists>b. executed sv' = executed sv @ [(b, i, method_name c, query c)]))
      \<and> call_ok sv' i (c\<lparr>phase := next_phase c final reply\<rparr>)"
  proof (cases "phase c = Submitting")
    case True
    then have t': "transport_request spec d (SubmitReq (method_name c) i (query c)) p sv = ((p', reply), sv')"
      using t id by (simp add: request_of_def)
    have new: "i \<notin> set (executed_ids sv)" using c True by (simp add: call_ok_def)
    note r = submit_request [OF inv new t']
    have names: "(b, i, n, q) \<in> set (executed sv') \<Longrightarrow> n = method_name c \<and> q = query c" for b n q
      using r(3) c by (auto simp: call_ok_def)
    have "call_ok sv' i (c\<lparr>phase := next_phase c final reply\<rparr>)"
    proof (cases reply)
      case (Inl e)
      have "e = ConnectFailure \<Longrightarrow> i \<notin> set (executed_ids sv')" using r(5) new Inl by (simp add: executed_ids_def)
      then show ?thesis using Inl True id names
        by (auto simp: call_ok_def next_phase_def after_submit_def raise_error_def split: transport_error.splits)
    next
      case (Inr b)
      then show ?thesis using r(4) [OF Inr] True id names by (auto simp: call_ok_def next_phase_def after_submit_def)
    qed
    then show ?thesis using r(1-3) by auto
  next
    case False
    have quiet: "\<forall>name i q. request_of c \<noteq> SubmitReq name i q" using False by (auto simp: request_of_def split: call_phase.splits)
    note r = quiet_request [OF inv quiet t]
    have ids: "executed_ids sv' = executed_ids sv" using r(2) by (simp add: executed_ids_def)
    have "call_ok sv' i (c\<lparr>phase := next_phase c final reply\<rparr>)"
    proof (cases "phase c = Preparing")
      case True
      then show ?thesis using c ids r(2) id
        by (auto simp: call_ok_def next_phase_def after_health_def raise_error_def split: sum.splits transport_error.splits)
    next
      case pre: False
      then have poll: "phase c = Polling" using False ph by simp
      then have req: "request_of c = StatusReq i" using id by (simp add: request_of_def)
      have out: "x \<noteq> Pending \<Longrightarrow> reply = Inr (Status x) \<Longrightarrow> (i, x) \<in> set (outcomes sv')" for x using r(5) req r(3) by simp
      show ?thesis using c ids r(2) id poll out
        by (auto simp: call_ok_def next_phase_def after_poll_def raise_error_def split: sum.splits transport_error.splits http_body.splits call_status.splits)
    qed
    then show ?thesis using r(1-3) by simp
  qed
  then show "server_inv sv'" "set (outcomes sv) \<subseteq> set (outcomes sv')"
    "executed sv' = executed sv \<or> (\<exists>b. executed sv' = executed sv @ [(b, i, method_name c, query c)])"
    "call_ok sv' i (c\<lparr>phase := next_phase c final reply\<rparr>)" by blast+
qed

lemma attempt_inv:
  assumes inv: "rpc_inv s"
  shows "rpc_inv (attempt spec i d final s)"
proof (cases "i < length (calls s) \<and> phase (calls s ! i) \<in> {Preparing, Submitting, Polling}")
  case True
  let ?c = "calls s ! i"
  obtain p reply sv where t: "transport_request spec d (request_of ?c) (pin s) (server s) = ((p, reply), sv)" by (metis surj_pair)
  have c: "call_ok (server s) i ?c" and sv: "server_inv (server s)" using inv True by (auto simp: rpc_inv_def)
  have ph: "phase ?c \<in> {Preparing, Submitting, Polling}" using True by simp
  note r = attempted_call_ok(1-3) [OF sv c ph t] attempted_call_ok(4) [OF sv c ph t, of final]
  let ?calls = "(calls s)[i := ?c\<lparr>phase := next_phase ?c final reply\<rparr>]"
  have step: "attempt spec i d final s = s\<lparr>server := sv, pin := p, calls := ?calls\<rparr>"
    using True t by (simp add: attempt_def Let_def)
  have others: "call_ok sv j (calls s ! j)" if "j < length (calls s)" "j \<noteq> i" for j
    by (rule call_ok_mono [of "server s"]) (use r(2,3) True inv that in \<open>auto simp: rpc_inv_def\<close>)
  have "call_ok sv j (?calls ! j)" if "j < length (calls s)" for j
    using that others [of j] r(4) True by (cases "j = i") auto
  moreover have "\<forall>j\<in>set (executed_ids sv). j < length (calls s)"
    using r(3) True inv by (auto simp: rpc_inv_def executed_ids_def)
  ultimately show ?thesis using r(1) True by (simp add: step rpc_inv_def)
next
  case False
  then have "attempt spec i d final s = s" by (auto simp: attempt_def)
  then show ?thesis using inv by simp
qed

lemma probe_reconnect_inv:
  assumes inv: "rpc_inv s"
  shows "rpc_inv (probe_reconnect spec d final s)"
proof (cases "reconnecting s")
  case (Some before)
  obtain p reply sv where t: "transport_request spec d HealthReq ((pin s)\<lparr>pin_value := None\<rparr>) (server s) = ((p, reply), sv)"
    by (metis surj_pair)
  have "server_inv (server s)" using inv by (simp add: rpc_inv_def)
  note r = quiet_request [OF this _ t]
  have "rpc_inv (s\<lparr>server := sv\<rparr>)" by (rule rpc_inv_server [OF inv]) (use r in auto)
  then have "rpc_inv (s\<lparr>server := sv, pin := p', reconnecting := r'\<rparr>)" "rpc_inv (s\<lparr>server := sv, pin := p'\<rparr>)" for p' r'
    by (simp_all add: rpc_inv_def)
  then show ?thesis using Some t by (simp add: probe_reconnect_def split: sum.splits)
qed (use inv in \<open>simp add: probe_reconnect_def\<close>)

lemma rpc_step_inv: "rpc_inv s \<Longrightarrow> rpc_inv (rpc_step spec s e)"
proof (cases e)
  case (EndCall i out)
  assume inv: "rpc_inv s"
  then have sv: "server_inv (server s)" by (simp add: rpc_inv_def)
  show ?thesis using rpc_inv_server [OF inv end_call_inv [OF sv]] EndCall by simp
next
  case Restart
  assume inv: "rpc_inv s"
  have "rpc_inv (s\<lparr>server := restart (server s)\<rparr>)"
    by (rule rpc_inv_server [OF inv restart_inv]) (use inv in \<open>auto simp: rpc_inv_def restart_def\<close>)
  then show ?thesis using Restart by simp
next
  case (Tick dt)
  assume inv: "rpc_inv s"
  have "rpc_inv (s\<lparr>server := (server s)\<lparr>clock := clock (server s) + \<bar>dt\<bar>\<rparr>\<rparr>)"
    by (rule rpc_inv_server [OF inv]) (use inv in \<open>auto simp: rpc_inv_def server_inv_def executed_ids_def\<close>)
  then show ?thesis using Tick by simp
qed (simp_all add: new_call_inv attempt_inv probe_reconnect_inv, simp add: start_reconnect_def rpc_inv_def)

interpretation rpc: machine "rpc_step spec" rpc_inv for spec
  by unfold_locales (rule rpc_step_inv)

lemma rpc_run_inv: "rpc_inv (rpc_run spec required events)"
  unfolding rpc_run_def
  by (intro rpc.inv_run) (simp add: rpc_init_def rpc_inv_def server_inv_def executed_ids_def)

section \<open>One boot under a required pin\<close>

definition no_reconnect :: "('q, 'r) rpc_event list \<Rightarrow> bool" where
  "no_reconnect events \<longleftrightarrow> StartReconnect \<notin> set events"

definition pinned_inv :: "('q, 'r) rpc_system \<Rightarrow> bool" where
  "pinned_inv s \<longleftrightarrow> rpc_inv s \<and> pin_required (pin s) \<and> reconnecting s = None
     \<and> (\<forall>(b, _)\<in>set (executed (server s)). pin_value (pin s) = Some b)
     \<and> (\<forall>c\<in>set (calls s). phase c \<noteq> Preparing \<longrightarrow> pin_value (pin s) \<noteq> None \<or> (\<exists>e. phase c = Raised e))"

lemma transport_pin:
  assumes "transport_request spec d req p sv = ((p', reply), sv')" "pin_required p"
  shows "pin_required p'" "pin_value p = Some b \<Longrightarrow> pin_value p' = Some b" "reply = Inr x \<Longrightarrow> pin_value p' \<noteq> None"
  using assms by (auto simp: transport_request_def read_response_def verify_pin_def Let_def
      split: delivery.splits if_splits prod.splits option.splits)

lemma next_phase_prepared:
  assumes "next_phase c final reply \<noteq> Preparing" "\<nexists>e. next_phase c final reply = Raised e" "phase c = Preparing"
  shows "\<exists>x. reply = Inr x"
  using assms by (cases reply) (auto simp: next_phase_def after_health_def raise_error_def split: if_splits)

lemma pinned_step:
  assumes inv: "pinned_inv s" and e: "e \<noteq> StartReconnect"
  shows "pinned_inv (rpc_step spec s e)"
proof -
  have rpc: "rpc_inv (rpc_step spec s e)" using inv by (simp add: pinned_inv_def rpc_step_inv)
  show ?thesis
  proof (cases e)
    case (NewCall name q wants)
    then show ?thesis using inv rpc by (auto simp: pinned_inv_def new_call_def needs_handshake_def)
  next
    case (Attempt i d final)
    show ?thesis
    proof (cases "i < length (calls s) \<and> phase (calls s ! i) \<in> {Preparing, Submitting, Polling}")
      case True
      let ?c = "calls s ! i"
      obtain p reply sv where t: "transport_request spec d (request_of ?c) (pin s) (server s) = ((p, reply), sv)" by (metis surj_pair)
      let ?ph = "next_phase ?c final reply"
      have step: "rpc_step spec s e = s\<lparr>server := sv, pin := p, calls := (calls s)[i := ?c\<lparr>phase := ?ph\<rparr>]\<rparr>"
        using True t Attempt by (simp add: attempt_def Let_def)
      have req: "pin_required (pin s)" and ok: "server_inv (server s)" "call_ok (server s) i ?c"
        using inv True by (auto simp: pinned_inv_def rpc_inv_def)
      note pin = transport_pin [OF t req]
      have inc: "?c \<in> set (calls s)" using True by simp
      have ph: "phase ?c \<in> {Preparing, Submitting, Polling}" using True by simp
      have pre: "c \<in> set (calls s) \<Longrightarrow> phase c \<noteq> Preparing \<Longrightarrow> pin_value (pin s) \<noteq> None \<or> (\<exists>e. phase c = Raised e)" for c
        using inv unfolding pinned_inv_def by blast
      have keep: "pin_value (pin s) \<noteq> None \<Longrightarrow> pin_value p \<noteq> None" using pin(2) by (cases "pin_value (pin s)") simp_all
      have old: "\<forall>(b, _)\<in>set (executed (server s)). pin_value p = Some b" using inv pin(2) by (auto simp: pinned_inv_def)
      have "\<forall>(b, _)\<in>set (executed sv). pin_value p = Some b"
      proof (cases "phase ?c = Submitting")
        case sub: True
        have id: "call_id ?c = i" "i \<notin> set (executed_ids (server s))" using ok(2) sub by (auto simp: call_ok_def)
        have t': "transport_request spec d (SubmitReq (method_name ?c) i (query ?c)) (pin s) (server s) = ((p, reply), sv)"
          using t sub id by (simp add: request_of_def)
        have "pin_value (pin s) \<noteq> None" using pre [OF inc] sub by simp
        then have "pin_expected (pin s) = Some (boot_uuid (server s)) \<Longrightarrow> pin_value p = Some (boot_uuid (server s))"
          using pin(2) req by (simp add: pin_expected_def)
        moreover have "pin_expected (pin s) \<noteq> None" using \<open>pin_value (pin s) \<noteq> None\<close> req by (simp add: pin_expected_def)
        ultimately show ?thesis using submit_request(3) [OF ok(1) id(2) t'] old by auto
      next
        case False
        then have "\<forall>name i q. request_of ?c \<noteq> SubmitReq name i q" by (auto simp: request_of_def split: call_phase.splits)
        from quiet_request(2) [OF ok(1) this t] old show ?thesis by simp
      qed
      moreover have "phase c \<noteq> Preparing \<longrightarrow> pin_value p \<noteq> None \<or> (\<exists>e. phase c = Raised e)"
        if "c \<in> set ((calls s)[i := ?c\<lparr>phase := ?ph\<rparr>])" for c
      proof -
        from that have "c \<in> set (calls s) \<or> c = ?c\<lparr>phase := ?ph\<rparr>" using set_update_subset_insert by fast
        then show ?thesis
        proof
          assume "c \<in> set (calls s)"
          then show ?thesis using pre [of c] keep by blast
        next
          assume c: "c = ?c\<lparr>phase := ?ph\<rparr>"
          show ?thesis
          proof (cases "phase ?c = Preparing")
            case True
            then show ?thesis using c next_phase_prepared [of ?c final reply] pin(3) by auto
          next
            case False
            then have "pin_value (pin s) \<noteq> None" using pre [OF inc] ph by auto
            then show ?thesis using keep by blast
          qed
        qed
      qed
      ultimately show ?thesis using inv rpc pin(1) by (auto simp: pinned_inv_def step)
    next
      case False
      then have "rpc_step spec s e = s" using Attempt by (auto simp: attempt_def)
      then show ?thesis using inv by simp
    qed
  next
    case (EndCall i out)
    have "server_inv (server s)" using inv by (simp add: pinned_inv_def rpc_inv_def)
    from end_call_inv(2) [OF this] show ?thesis using inv rpc EndCall by (simp add: pinned_inv_def)
  next
    case (ProbeReconnect d final)
    then show ?thesis using inv by (simp add: pinned_inv_def probe_reconnect_def)
  qed (use inv rpc e in \<open>auto simp: pinned_inv_def restart_def\<close>)
qed

interpretation pinned: machine "\<lambda>s e. if e = StartReconnect then s else rpc_step spec s e" pinned_inv for spec
  by unfold_locales (simp add: pinned_step)

lemma pinned_run_inv: "no_reconnect events \<Longrightarrow> pinned_inv (rpc_run spec True events)"
proof -
  assume "no_reconnect events"
  then have "rpc_run spec True events = foldl (\<lambda>s e. if e = StartReconnect then s else rpc_step spec s e) (rpc_init True) events"
    unfolding rpc_run_def no_reconnect_def by (intro foldl_cong) auto
  then show ?thesis
    by (simp only:) (rule pinned.inv_run, simp add: pinned_inv_def rpc_init_def rpc_inv_def server_inv_def executed_ids_def)
qed

section \<open>Properties\<close>

text \<open>
  C11: whatever the network loses, delays or delivers, and however often the server restarts, every call is
  executed at most once, by one boot of the server, with the method and the arguments it was made with.
\<close>

theorem calls_execute_at_most_once:
  "let s = rpc_run spec required events in distinct (executed_ids (server s))
     \<and> list_all (\<lambda>(b, i, n, q). i < length (calls s) \<and> n = method_name (calls s ! i) \<and> q = query (calls s ! i)) (executed (server s))"
proof -
  let ?s = "rpc_run spec required events"
  have inv: "rpc_inv ?s" by (rule rpc_run_inv)
  have "i < length (calls ?s) \<and> n = method_name (calls ?s ! i) \<and> q = query (calls ?s ! i)"
    if "(b, i, n, q) \<in> set (executed (server ?s))" for b i n q
  proof -
    have "i \<in> set (executed_ids (server ?s))" using that by (force simp: executed_ids_def)
    then have i: "i < length (calls ?s)" using inv by (simp add: rpc_inv_def)
    then have "call_ok (server ?s) i (calls ?s ! i)" using inv by (simp add: rpc_inv_def)
    then show ?thesis using that i by (simp add: call_ok_def)
  qed
  then have "list_all (\<lambda>(b, i, n, q). i < length (calls ?s) \<and> n = method_name (calls ?s ! i) \<and> q = query (calls ?s ! i)) (executed (server ?s))"
    by (force simp: list_all_iff)
  moreover have "distinct (executed_ids (server ?s))" using inv by (simp add: rpc_inv_def server_inv_def)
  ultimately show ?thesis by (simp add: Let_def)
qed

text \<open>
  C18: a call that returns a value returns the value its one execution ended with, and a call that reports a
  failure of the worker reports the failure its one execution ended with.
\<close>

theorem call_results_are_genuine:
  assumes "i < length (calls (rpc_run spec required events))"
    "phase (calls (rpc_run spec required events) ! i) = Returned r \<and> out = Success r
      \<or> phase (calls (rpc_run spec required events) ! i) = Raised (WorkerCallError msg) \<and> out = Failure msg"
  shows "let s = rpc_run spec required events in i \<in> set (executed_ids (server s)) \<and> map_of (outcomes (server s)) i = Some out"
proof -
  let ?s = "rpc_run spec required events"
  have inv: "rpc_inv ?s" by (rule rpc_run_inv)
  then have ok: "server_inv (server ?s)" "call_ok (server ?s) i (calls ?s ! i)" using assms(1) by (auto simp: rpc_inv_def)
  then have out: "(i, out) \<in> set (outcomes (server ?s))" using assms(2) by (auto simp: call_ok_def)
  have log: "distinct (map fst (outcomes (server ?s)))" "fst ` set (outcomes (server ?s)) \<subseteq> set (executed_ids (server ?s))"
    using ok(1) unfolding server_inv_def by blast+
  have "map_of (outcomes (server ?s)) i = Some out" using log(1) out by (rule map_of_is_SomeI)
  moreover have "i \<in> set (executed_ids (server ?s))" using imageI [OF out, of fst] log(2) by auto
  ultimately show ?thesis by (simp add: Let_def)
qed

text \<open>
  C35: the calls a server reports in flight are exactly those its executor still runs; the record of a running
  call is never purged.  So a handle that sees no call in flight knows the worker to be idle.
\<close>

theorem in_flight_calls_are_exact:
  "let sv = server (rpc_run spec required events) in in_flight_call_ids (store sv) = sort (executing sv)"
proof -
  let ?sv = "server (rpc_run spec required events)"
  have inv: "server_inv ?sv" using rpc_run_inv by (auto simp: rpc_inv_def)
  have d: "dict_ok (store ?sv)" using inv by (simp add: server_inv_def)
  let ?ids = "map fst (filter (\<lambda>(_, r). call_outcome r = None) (store ?sv))"
  have "k \<in> set ?ids \<longleftrightarrow> k \<in> set (executing ?sv)" for k
  proof -
    have "k \<in> set ?ids \<longleftrightarrow> (\<exists>r. (k, r) \<in> set (store ?sv) \<and> call_outcome r = None)" by (auto simp: image_iff split_beta)
    also have "\<dots> \<longleftrightarrow> (\<exists>r. dget (store ?sv) k = Some r \<and> call_outcome r = None)" by (simp only: dget_in [OF d])
    also have "\<dots> \<longleftrightarrow> k \<in> set (executing ?sv)" using inv by (simp add: server_inv_def)
    finally show ?thesis .
  qed
  then have "set ?ids = set (executing ?sv)" by blast
  moreover have "distinct ?ids" using d by (simp add: dict_ok_def distinct_map_filter)
  moreover have "distinct (executing ?sv)" using inv by (simp add: server_inv_def)
  ultimately have "mset ?ids = mset (executing ?sv)" by (simp only: set_eq_iff_mset_eq_distinct)
  then show ?thesis unfolding in_flight_call_ids_def Let_def
    using properties_for_sort [of "sort ?ids" "executing ?sv"] by simp
qed

text \<open>
  C31: a handle that requires a stable boot id and never asks for a reconnect has all its calls executed by one
  boot of the server, the one it is pinned to; after a restart nothing of it is executed any more.
\<close>

theorem pinned_handle_uses_one_boot:
  assumes "no_reconnect events" "(b, i, n, q) \<in> set (executed (server (rpc_run spec True events)))"
  shows "pin_value (pin (rpc_run spec True events)) = Some b"
proof -
  have "\<forall>(b, _)\<in>set (executed (server (rpc_run spec True events))). pin_value (pin (rpc_run spec True events)) = Some b"
    using pinned_run_inv [OF assms(1), of spec] unfolding pinned_inv_def by (elim conjE)
  then show ?thesis using assms(2) by blast
qed

definition sample_worker :: "nat worker_spec" where
  "sample_worker = \<lparr> method_names = [''step''], decodes = (\<lambda>_ q. q < 10) \<rparr>"

text \<open>A submission that is handled but whose answer is lost, and one that succeeds; then a restart.\<close>

definition sample_rpc_events :: "(nat, nat) rpc_event list" where
  "sample_rpc_events = [NewCall ''step'' 3 True, Attempt 0 NeverReached False, Attempt 0 Delivered False, Attempt 0 (Lost True) False,
     NewCall ''step'' 4 True, Attempt 1 NeverReached False, Attempt 1 Delivered False, Attempt 1 (TimedOut True) False,
     EndCall 1 (Success 7), Attempt 1 Delivered False, Restart, NewCall ''step'' 5 True, Attempt 2 Delivered False]"

lemma sample_rpc_result:
  "let s = rpc_run sample_worker True sample_rpc_events in
     map phase (calls s) = [Raised WorkerUnreachable, Returned 7, Raised Restarted] \<and> executed (server s) = [(0, 0, ''step'', 3), (0, 1, ''step'', 4)]"
  by code_simp

lemma call_results_are_genuine_witness:
  "map_of (outcomes (server (rpc_run sample_worker True sample_rpc_events))) 1 = Some (Success 7)"
proof -
  let ?s = "rpc_run sample_worker True sample_rpc_events"
  have p: "map phase (calls ?s) = [Raised WorkerUnreachable, Returned 7, Raised Restarted]" using sample_rpc_result by (simp add: Let_def)
  then have l: "1 < length (calls ?s)" by (metis length_map length_Cons list.size(3) lessI less_Suc_eq One_nat_def)
  then have "phase (calls ?s ! 1) = Returned 7" using p by (metis (no_types, lifting) nth_map nth_Cons_0 nth_Cons_Suc One_nat_def)
  then show ?thesis using call_results_are_genuine [OF l] by (simp add: Let_def)
qed

lemma pinned_handle_uses_one_boot_witness:
  "pin_value (pin (rpc_run sample_worker True sample_rpc_events)) = Some 0"
proof (rule pinned_handle_uses_one_boot)
  show "no_reconnect sample_rpc_events" by (simp add: no_reconnect_def sample_rpc_events_def)
  show "(0, 1, ''step'', 4) \<in> set (executed (server (rpc_run sample_worker True sample_rpc_events)))"
    using sample_rpc_result by (simp add: Let_def)
qed

end
