(* ===== verification/WitnessIds.thy ===== *)
theory WitnessIds
  imports Prelude
begin

text \<open>
  The ring of witness ids that audits which data a training cell consumed
  (\<open>audit_utils/witness/allocator.py\<close>): the ids of one call, and the stale ids that may be
  cleared.  The persisted counter is read from an event log and is an argument.
\<close>

section \<open>Witness ids\<close>

text \<open>
  \<open>int(buffer_size * 0.7)\<close> as Python computes it: the double nearest to 0.7 is
  3152519739159347 / 2\<open>^\<close>52, and the product is rounded to 53 bits, half to even, before it
  is truncated (for 90 it gives 62).
\<close>

fun bit_length :: "nat \<Rightarrow> nat" where
  "bit_length n = (if n = 0 then 0 else Suc (bit_length (n div 2)))"

declare bit_length.simps [simp del]

definition round_half_even :: "nat \<Rightarrow> nat \<Rightarrow> nat" where
  "round_half_even m d = (let q = m div d; r = m mod d in if d < 2 * r \<or> 2 * r = d \<and> odd q then q + 1 else q)"

definition keep_count :: "nat \<Rightarrow> nat" where
  "keep_count buffer_size =
     (let m = 3152519739159347 * buffer_size; d = 2 ^ (bit_length m - 53) in
      round_half_even m d * d div 2 ^ 52)"

record witness_info =
  witness_ids :: "nat list"
  stale_ids :: "nat list"

record witness_allocator =
  buffer_size :: nat
  counter :: nat

definition new_allocator :: "int \<Rightarrow> witness_allocator res" where
  "new_allocator cap = (if cap \<le> 0 then Inl ValueError else Inr \<lparr> buffer_size = nat cap, counter = 0 \<rparr>)"

definition resume_allocator :: "witness_allocator \<Rightarrow> nat \<Rightarrow> witness_allocator res" where
  "resume_allocator w c = rbind (py_assert (counter w \<le> c)) (\<lambda>_. Inr (w\<lparr> counter := c \<rparr>))"

definition compute_stale_ids :: "nat \<Rightarrow> nat \<Rightarrow> nat \<Rightarrow> nat list" where
  "compute_stale_ids keep c cap =
     (if c = 0 then []
      else let num_stale = cap - min keep (min c cap); head = c mod cap in
        map (\<lambda>i. (head + i) mod cap) [0..<num_stale])"

definition allocate :: "witness_allocator \<Rightarrow> int \<Rightarrow> (witness_info \<times> witness_allocator) res" where
  "allocate w num_ids =
     (if num_ids < 0 then Inl ValueError
      else rbind (py_assert (num_ids \<le> int (buffer_size w))) (\<lambda>_.
        let n = nat num_ids in
        Inr (\<lparr> witness_ids = map (\<lambda>i. (counter w + i) mod buffer_size w) [0..<n],
               stale_ids = compute_stale_ids (keep_count (buffer_size w)) (counter w + n) (buffer_size w) \<rparr>,
             w\<lparr> counter := counter w + n \<rparr>)))"

lemma bit_length_code [simp]:
  "bit_length 0 = 0" "bit_length (Suc 0) = Suc 0" "bit_length (numeral (num.Bit0 v)) = Suc (bit_length (numeral v))"
  "bit_length (numeral (num.Bit1 v)) = Suc (bit_length (numeral v))"
  by (subst bit_length.simps; simp add: bit_length.simps [of 0])+

lemma bit_length_bound: "0 < n \<Longrightarrow> 2 ^ (bit_length n - 1) \<le> n"
proof (induction n rule: bit_length.induct)
  case (1 n)
  show ?case
  proof (cases "n div 2 = 0")
    case True
    then show ?thesis using 1(2) by (subst bit_length.simps) (simp add: bit_length.simps [of 0])
  next
    case False
    then have "2 ^ (bit_length (n div 2) - 1) \<le> n div 2" using 1 by simp
    moreover have "0 < bit_length (n div 2)" using False by (subst bit_length.simps) simp
    ultimately have "2 ^ bit_length (n div 2) \<le> 2 * (n div 2)" by (cases "bit_length (n div 2)") simp_all
    also have "\<dots> \<le> n" by simp
    finally show ?thesis using 1(2) by (subst bit_length.simps) simp
  qed
qed

lemma round_half_even_bound:
  assumes "0 < d"
  shows "2 * (round_half_even m d * d) \<le> 2 * m + d"
proof -
  let ?q = "m div d" and ?r = "m mod d"
  have m: "?q * d + ?r = m" by simp
  show ?thesis
  proof (cases "d < 2 * ?r \<or> 2 * ?r = d \<and> odd ?q")
    case True
    then have eq: "round_half_even m d = ?q + 1" and r: "d \<le> 2 * ?r" by (auto simp: round_half_even_def Let_def)
    have "(?q + 1) * d = ?q * d + d" by simp
    then show ?thesis unfolding eq using m r by linarith
  next
    case False
    then have eq: "round_half_even m d = ?q" unfolding round_half_even_def Let_def by (rule if_not_P)
    show ?thesis unfolding eq using m by linarith
  qed
qed

lemma keep_count_le: "keep_count b \<le> b"
proof (cases "b = 0")
  case True
  then show ?thesis by (simp add: keep_count_def round_half_even_def bit_length.simps [of 0])
next
  case False
  define m where "m = 3152519739159347 * b"
  define e where "e = bit_length m - 53"
  define X where "X = round_half_even m (2 ^ e) * 2 ^ e"
  have X: "2 * X \<le> 2 * m + 2 ^ e" unfolding X_def by (rule round_half_even_bound) simp
  have "2 ^ e * 2 ^ 52 \<le> m \<or> e = 0"
  proof (cases "e = 0")
    case False
    then have "bit_length m - 1 = e + 52" by (simp add: e_def)
    then have "2 ^ (e + 52) \<le> m" using bit_length_bound [of m] \<open>b \<noteq> 0\<close> by (simp add: m_def)
    then show ?thesis unfolding power_add by blast
  qed simp
  then have "X \<le> b * 2 ^ 52"
  proof
    assume "2 ^ e * 2 ^ 52 \<le> m"
    then show ?thesis using X unfolding m_def by simp
  next
    assume "e = 0"
    then show ?thesis using X \<open>b \<noteq> 0\<close> unfolding m_def by simp
  qed
  then have "X div 2 ^ 52 \<le> b * 2 ^ 52 div 2 ^ 52" by (rule div_le_mono)
  then show ?thesis by (simp add: keep_count_def X_def e_def m_def Let_def)
qed

lemma ring_distinct:
  assumes "i < cap" "j < cap" "(h + i) mod cap = (h + j) mod (cap::nat)"
  shows "i = j"
proof -
  have "int i mod int cap = int j mod int cap"
    using assms(3) by (metis add_diff_cancel_left' mod_diff_left_eq of_nat_add of_nat_mod)
  then show ?thesis using assms(1,2) by simp
qed

text \<open>The latest ids, oldest first.\<close>

definition recent_ids :: "nat \<Rightarrow> nat \<Rightarrow> nat \<Rightarrow> nat list" where
  "recent_ids k c cap = map (\<lambda>j. (c - k + j) mod cap) [0..<k]"

lemma recent_ids_ring:
  assumes "k \<le> c" "k \<le> cap" "0 < cap"
  shows "set (recent_ids k c cap) = (\<lambda>i. (c mod cap + i) mod cap) ` {cap - k..<cap}"
proof -
  have "(c - k + j) mod cap = (c mod cap + (cap - k + j)) mod cap" if "j < k" for j
  proof -
    have "(c - k + j) mod cap = (c - k + j + cap) mod cap" by simp
    also have "c - k + j + cap = c + (cap - k + j)" using assms by simp
    finally have "(c - k + j) mod cap = (c + (cap - k + j)) mod cap" .
    then show ?thesis unfolding mod_add_left_eq .
  qed
  then have "(\<lambda>j. (c - k + j) mod cap) ` {0..<k} = (\<lambda>j. (c mod cap + (cap - k + j)) mod cap) ` {0..<k}"
    by (intro image_cong refl) simp
  then have "set (recent_ids k c cap) = (\<lambda>j. (c mod cap + (cap - k + j)) mod cap) ` {0..<k}"
    unfolding recent_ids_def set_map set_upt .
  also have "\<dots> = (\<lambda>i. (c mod cap + i) mod cap) ` ((\<lambda>j. cap - k + j) ` {0..<k})" by (simp only: image_image)
  also have "(\<lambda>j. cap - k + j) ` {0..<k} = {cap - k..<cap}"
    using image_add_atLeastLessThan [of "cap - k" 0 k] assms(2) by simp
  finally show ?thesis .
qed

text \<open>
  Allocating witness ids: the ids of one call are distinct positions of the ring that
  follow the earlier ones, and the stale ids are exactly the rest of the ring beside the most
  recent ones (seven tenths of the ring, or all so far if fewer), so they never hit an id of
  this call unless the call itself asks for more than that.
\<close>

theorem stale_ids_spare_recent_ids:
  assumes "allocate w num_ids = Inr (info, w')" "0 < buffer_size w" "0 < counter w'"
    "k = min (keep_count (buffer_size w)) (counter w')"
  shows "counter w' = counter w + nat num_ids \<and> buffer_size w' = buffer_size w
    \<and> distinct (witness_ids info) \<and> length (witness_ids info) = nat num_ids
    \<and> distinct (stale_ids info) \<and> set (stale_ids info) = {0..<buffer_size w} - set (recent_ids k (counter w') (buffer_size w))
    \<and> (nat num_ids \<le> keep_count (buffer_size w) \<longrightarrow> set (witness_ids info) \<inter> set (stale_ids info) = {})"
proof -
  let ?b = "buffer_size w" and ?n = "nat num_ids"
  let ?c = "counter w + ?n"
  have n: "?n \<le> ?b" and info: "witness_ids info = map (\<lambda>i. (counter w + i) mod ?b) [0..<?n]"
    "stale_ids info = compute_stale_ids (keep_count ?b) ?c ?b" and w': "w' = w\<lparr> counter := ?c \<rparr>"
  proof -
    have le: "0 \<le> num_ids" "num_ids \<le> int ?b"
      using assms(1) by (cases "num_ids < 0"; cases "num_ids \<le> int ?b"; simp add: allocate_def)+
    then show "?n \<le> ?b" by simp
    from assms(1) le show "witness_ids info = map (\<lambda>i. (counter w + i) mod ?b) [0..<?n]"
      "stale_ids info = compute_stale_ids (keep_count ?b) ?c ?b" "w' = w\<lparr> counter := ?c \<rparr>"
      by (auto simp: allocate_def Let_def)
  qed
  have c: "0 < ?c" and k: "k = min (keep_count ?b) ?c" using assms(3,4) by (simp_all add: w')
  have kb: "k \<le> ?b" "k \<le> ?c" using keep_count_le [of ?b] k by auto
  have stale: "stale_ids info = map (\<lambda>i. (?c mod ?b + i) mod ?b) [0..<?b - k]"
  proof -
    have "min (keep_count ?b) (min ?c ?b) = k" unfolding k using keep_count_le [of ?b] by simp
    moreover have "?c \<noteq> 0" using c by (rule gr_implies_not0)
    ultimately show ?thesis unfolding info(2) compute_stale_ids_def Let_def by (simp only: if_False)
  qed
  let ?f = "\<lambda>i. (?c mod ?b + i) mod ?b"
  have inj: "inj_on ?f {0..<?b}" using ring_distinct by (auto intro!: inj_onI)
  have full: "?f ` {0..<?b} = {0..<?b}"
    using assms(2) by (intro endo_inj_surj inj) auto
  have sets: "set (stale_ids info) = ?f ` {0..<?b - k}" unfolding stale by simp
  have recent: "set (recent_ids k ?c ?b) = ?f ` {?b - k..<?b}" by (rule recent_ids_ring [OF kb(2,1) assms(2)])
  have split: "{0..<?b} = {0..<?b - k} \<union> {?b - k..<?b}" "{0..<?b - k} = {0..<?b} - {?b - k..<?b}" by auto
  have eq: "set (stale_ids info) = {0..<?b} - set (recent_ids k ?c ?b)"
  proof -
    have "?f ` ({0..<?b} - {?b - k..<?b}) = ?f ` {0..<?b} - ?f ` {?b - k..<?b}"
      by (rule inj_on_image_set_diff [OF inj]) auto
    then show ?thesis using sets recent full split(2) by simp
  qed
  have dw: "distinct (witness_ids info)"
    unfolding info using n by (auto simp: distinct_map intro!: inj_onI dest: ring_distinct [rotated 2])
  have ds: "distinct (stale_ids info)"
    unfolding stale by (auto simp: distinct_map intro!: inj_onI dest: ring_distinct [rotated 2])
  have "set (witness_ids info) \<subseteq> set (recent_ids k ?c ?b)" if "?n \<le> keep_count ?b"
  proof
    fix x assume "x \<in> set (witness_ids info)"
    then obtain i where i: "i < ?n" "x = (counter w + i) mod ?b" unfolding info by auto
    have "?n \<le> k" using that k by simp
    then have "counter w + i = ?c - k + (k - ?n + i)" "k - ?n + i < k" using i(1) kb(2) by auto
    then show "x \<in> set (recent_ids k ?c ?b)" unfolding recent_ids_def using i(2) by force
  qed
  then have "?n \<le> keep_count ?b \<longrightarrow> set (witness_ids info) \<inter> set (stale_ids info) = {}" unfolding eq by blast
  then show ?thesis using dw ds eq w' by (simp add: info)
qed

theorem stale_ids_spare_recent_ids_witness:
  "keep_count 10 = 7 \<and> keep_count 90 = 62 \<and> (\<exists>info w'. allocate \<lparr> buffer_size = 10, counter = 8 \<rparr> 4 = Inr (info, w')
     \<and> set (witness_ids info) \<inter> set (stale_ids info) = {} \<and> stale_ids info = [2, 3, 4])"
proof (intro conjI)
  show k: "keep_count 10 = 7" "keep_count 90 = 62"
    by (simp_all add: keep_count_def round_half_even_def Let_def)
  let ?x = "allocate \<lparr> buffer_size = 10, counter = 8 \<rparr> 4"
  have "case ?x of Inl _ \<Rightarrow> False | Inr (info, w') \<Rightarrow> stale_ids info = [2, 3, 4] \<and> counter w' = 12"
    by (simp add: allocate_def Let_def k(1) compute_stale_ids_def upt_rec)
  then obtain info w' where x: "?x = Inr (info, w')" "stale_ids info = [2, 3, 4]" "counter w' = 12"
    by (cases ?x) auto
  have p: "0 < buffer_size \<lparr> buffer_size = 10, counter = 8 \<rparr>" "0 < counter w'" using x(3) by simp_all
  have "nat 4 \<le> keep_count (buffer_size \<lparr> buffer_size = 10, counter = 8 \<rparr>)" using k(1) by simp
  with stale_ids_spare_recent_ids [OF x(1) p refl]
  have "set (witness_ids info) \<inter> set (stale_ids info) = {}" by blast
  then show "\<exists>info w'. ?x = Inr (info, w') \<and> set (witness_ids info) \<inter> set (stale_ids info) = {} \<and> stale_ids info = [2, 3, 4]"
    using x(1,2) by (intro exI conjI)
qed

end
