(* ===== verification/TinkerQueue.thy ===== *)
theory TinkerQueue
  imports Prelude "HOL-Library.Product_Lexorder" "HOL-Library.List_Lexorder" "HOL-Library.Char_ord"
begin

text \<open>
  The command queues of the Tinker gateway: commands and their admission checks
  (\<open>tinker/core/types.py\<close>, \<open>input_validation.py\<close>), the queue of one model
  (\<open>model_queue.py\<close>) and the scheduler that packs work across models (\<open>scheduler.py\<close>).
  The payload of a barrier command is passed on uninterpreted and is left out.
\<close>

section \<open>Commands\<close>

datatype command_op =
    FORWARD_BACKWARD
  | FORWARD_ONLY
  | OPTIM_STEP
  | SAVE_STATE
  | LOAD_STATE
  | SAVE_WEIGHTS_FOR_SAMPLER

definition is_batch :: "command_op \<Rightarrow> bool" where
  "is_batch op \<longleftrightarrow> op \<in> {FORWARD_BACKWARD, FORWARD_ONLY}"

definition requires_model_close_on_failure :: "command_op \<Rightarrow> bool" where
  "requires_model_close_on_failure op \<longleftrightarrow> op \<in> {FORWARD_BACKWARD, OPTIM_STEP, LOAD_STATE}"

text \<open>Values as they come over the wire; a Python bool is an int to \<open>isinstance\<close> but not to \<open>type\<close>.\<close>

datatype wire =
    WireInt int
  | WireBool bool
  | WireFloat real
  | WireNonFinite
  | WireText string
  | WireNone

fun wire_token :: "wire \<Rightarrow> int \<Rightarrow> bool" where
  "wire_token (WireInt i) vocab_size = (0 \<le> i \<and> i < vocab_size)"
| "wire_token _ vocab_size = False"

fun wire_finite :: "wire \<Rightarrow> bool" where
  "wire_finite (WireInt _) = True"
| "wire_finite (WireFloat _) = True"
| "wire_finite _ = False"

record tinker_datum =
  datum_tokens :: "wire list"
  target_tokens :: "wire list"
  target_len :: nat
  loss_inputs :: "(string, wire list) dict"

record batch_payload =
  payload_datums :: "tinker_datum list"
  loss_fn :: string
  loss_fn_config :: "(string, wire) dict option"

record gateway_config =
  config_base_model :: string
  n_slots :: nat
  vocab_size :: int
  max_datums_per_request :: nat
  max_tokens_per_datum :: nat
  max_tokens_per_request :: nat
  max_samples_per_request :: nat
  max_lora_rank :: nat
  config_lora_alpha :: "real option"
  trains_attn :: bool
  trains_mlp :: bool
  trains_unembed :: bool
  lease_timeout :: real
  batch_token_budget :: nat

record command =
  cmd_model :: nat
  seq_id :: nat
  cmd_op :: command_op
  payload :: batch_payload
  request_id :: nat
  arrival :: nat
  validation_error :: "string option"

definition LOSS_INPUT_KEYS :: "(string \<times> string) list" where
  "LOSS_INPUT_KEYS = [(''weights'', ''weights''), (''advantages'', ''advantages''), (''logprobs'', ''sampling_logprobs'')]"

definition LOSS_FN_INPUTS :: "(string, string list) dict" where
  "LOSS_FN_INPUTS = [(''cross_entropy'', [''weights'']), (''importance_sampling'', [''logprobs'', ''advantages'']),
     (''ppo'', [''logprobs'', ''advantages'']), (''cispo'', [''logprobs'', ''advantages'']),
     (''dro'', [''logprobs'', ''advantages''])]"

section \<open>Admission checks\<close>

text \<open>The fixed part of the message of a refusal; \<open>None\<close> admits.\<close>

definition first_error :: "string option list \<Rightarrow> string option" where
  "first_error es = (case filter (\<lambda>e. e \<noteq> None) es of [] \<Rightarrow> None | e # _ \<Rightarrow> e)"

definition check_tokens :: "wire list \<Rightarrow> int \<Rightarrow> string option" where
  "check_tokens tokens vocab = (if list_all (\<lambda>t. wire_token t vocab) tokens then None else Some ''invalid token IDs'')"

definition config_keys :: "string \<Rightarrow> string list" where
  "config_keys fn = (if fn = ''ppo'' \<or> fn = ''cispo'' then [''clip_low_threshold'', ''clip_high_threshold'']
     else if fn = ''dro'' then [''beta''] else [])"

definition check_loss_config :: "string \<Rightarrow> (string, wire) dict option \<Rightarrow> string option" where
  "check_loss_config fn cfg = (case cfg of None \<Rightarrow> None
     | Some d \<Rightarrow> (if list_all (\<lambda>k. case dget d k of None \<Rightarrow> True | Some v \<Rightarrow> wire_finite v) (config_keys fn)
                   then None else Some ''loss_fn_config must be a finite number''))"

definition check_loss_input :: "tinker_datum \<Rightarrow> string \<Rightarrow> string option" where
  "check_loss_input d wire_key = (case dget LOSS_INPUT_KEYS wire_key of
       None \<Rightarrow> Some ''KeyError''
     | Some key \<Rightarrow> (case dget (loss_inputs d) key of
         None \<Rightarrow> Some ''missing loss_fn_inputs''
       | Some vs \<Rightarrow> if length vs \<noteq> target_len d then Some ''loss_fn_inputs length'' else None))"

definition check_unread :: "tinker_datum \<Rightarrow> string list \<Rightarrow> string option" where
  "check_unread d required =
     (if list_ex (\<lambda>(wire_key, key). wire_key \<notin> set required \<and> dget (loss_inputs d) key \<noteq> None) LOSS_INPUT_KEYS
      then Some ''unread loss_fn_inputs'' else None)"

definition check_datum :: "gateway_config \<Rightarrow> string list \<Rightarrow> tinker_datum \<Rightarrow> string option" where
  "check_datum cfg required d = first_error
     ([check_tokens (datum_tokens d) (vocab_size cfg), check_tokens (target_tokens d) (vocab_size cfg),
       (if max_tokens_per_datum cfg < length (datum_tokens d) then Some ''too many tokens in a datum'' else None)]
      @ map (check_loss_input d) required @ [check_unread d required])"

definition validate_batch_payload :: "command_op \<Rightarrow> batch_payload \<Rightarrow> gateway_config \<Rightarrow> string option" where
  "validate_batch_payload op p cfg =
     (if \<not> is_batch op then None
      else if payload_datums p = [] then Some ''forward_backward with no data''
      else if max_datums_per_request cfg < length (payload_datums p) then Some ''too many datums''
      else (case dget LOSS_FN_INPUTS (loss_fn p) of
          None \<Rightarrow> Some ''unknown loss_fn''
        | Some required \<Rightarrow> first_error
            (check_loss_config (loss_fn p) (loss_fn_config p)
             # map (check_datum cfg required) (payload_datums p)
             @ [if max_tokens_per_request cfg < sum_list (map (length \<circ> datum_tokens) (payload_datums p))
                then Some ''too many tokens in a request'' else None])))"

text \<open>\<open>isinstance(value, int)\<close> and a lower bound; the id as a number.\<close>

definition validate_seq_id :: "wire \<Rightarrow> nat \<Rightarrow> nat res" where
  "validate_seq_id v minimum = (case v of
       WireInt i \<Rightarrow> if i < int minimum then Inl UserInputError else Inr (nat i)
     | WireBool b \<Rightarrow> if of_bool b < minimum then Inl UserInputError else Inr (of_bool b)
     | _ \<Rightarrow> Inl UserInputError)"

text \<open>What a client may ask of a model: no seed, the server's layout, a rank in range.\<close>

record lora_config =
  lora_seed :: "wire option"
  lora_train_attn :: "bool option"
  lora_train_mlp :: "bool option"
  lora_train_unembed :: "bool option"
  lora_rank :: "wire option"

definition validate_model_config :: "lora_config \<Rightarrow> gateway_config \<Rightarrow> nat res" where
  "validate_model_config l cfg =
     (if (case lora_seed l of None \<Rightarrow> False | Some v \<Rightarrow> v \<noteq> WireNone) then Inl UserInputError
      else if lora_train_attn l \<notin> {None, Some (trains_attn cfg)} then Inl UserInputError
      else if lora_train_mlp l \<notin> {None, Some (trains_mlp cfg)} then Inl UserInputError
      else if lora_train_unembed l \<notin> {None, Some (trains_unembed cfg)} then Inl UserInputError
      else (case lora_rank l of
          None \<Rightarrow> if 1 \<le> (32::nat) \<and> 32 \<le> max_lora_rank cfg then Inr 32 else Inl UserInputError
        | Some (WireInt r) \<Rightarrow> if 1 \<le> r \<and> r \<le> int (max_lora_rank cfg) then Inr (nat r) else Inl UserInputError
        | Some _ \<Rightarrow> Inl UserInputError))"

section \<open>The queue of one model\<close>

record datum_output =
  output_loss :: real
  output_logprobs :: "real list"

record pending_request =
  pend_command :: command
  datums :: "tinker_datum list"
  num_issued_datums :: nat
  outputs :: "datum_output option list"
  remaining :: int

record model_queue =
  mq_tenant :: string
  mq_slot :: nat
  last_enqueued_seq_id :: nat
  pending_by_seq :: "(nat, command) dict"
  queue :: "pending_request list"

abbreviation pend_seq :: "pending_request \<Rightarrow> nat" where
  "pend_seq p \<equiv> seq_id (pend_command p)"

definition is_batch_op :: "pending_request \<Rightarrow> bool" where
  "is_batch_op p = is_batch (cmd_op (pend_command p))"

text \<open>Admitted: the command carries no validation error.\<close>

abbreviation admitted :: "pending_request \<Rightarrow> bool" where
  "admitted p \<equiv> validation_error (pend_command p) = None"

definition record_output :: "pending_request \<Rightarrow> nat \<Rightarrow> datum_output \<Rightarrow> pending_request \<times> bool" where
  "record_output p i x =
     (let p' = p\<lparr> outputs := (outputs p)[i := Some x], remaining := remaining p - 1 \<rparr> in (p', remaining p' = 0))"

definition pack_key :: "command \<Rightarrow> command_op \<times> string \<times> (string \<times> wire) list" where
  "pack_key c = (cmd_op c, loss_fn (payload c),
     sort_key fst (case loss_fn_config (payload c) of None \<Rightarrow> [] | Some d \<Rightarrow> d))"

definition new_pending :: "command \<Rightarrow> pending_request" where
  "new_pending c =
     (if is_batch (cmd_op c) \<and> validation_error c = None
      then \<lparr> pend_command = c, datums = payload_datums (payload c), num_issued_datums = 0,
             outputs = replicate (length (payload_datums (payload c))) None, remaining = int (length (payload_datums (payload c))) \<rparr>
      else \<lparr> pend_command = c, datums = [], num_issued_datums = 0, outputs = [], remaining = 0 \<rparr>)"

definition new_model_queue :: "string \<Rightarrow> nat \<Rightarrow> model_queue" where
  "new_model_queue tenant slot =
     \<lparr> mq_tenant = tenant, mq_slot = slot, last_enqueued_seq_id = 0, pending_by_seq = [], queue = [] \<rparr>"

lemma length_ddel_less: "dget d k = Some v \<Longrightarrow> length (ddel d k) < length d"
proof (induction d)
  case (Cons p d)
  show ?case
  proof (cases "fst p = k")
    case True
    then show ?thesis using length_delete_le [of k d] by (cases p) (simp add: le_imp_less_Suc)
  next
    case False
    with Cons show ?thesis by (cases p) simp
  qed
qed simp

text \<open>\<open>_enqueue_contiguous_commands\<close>\<close>

function enqueue_contiguous :: "model_queue \<Rightarrow> model_queue" where
  "enqueue_contiguous q = (case dget (pending_by_seq q) (Suc (last_enqueued_seq_id q)) of
       None \<Rightarrow> q
     | Some c \<Rightarrow> enqueue_contiguous (q\<lparr> last_enqueued_seq_id := Suc (last_enqueued_seq_id q),
           pending_by_seq := ddel (pending_by_seq q) (Suc (last_enqueued_seq_id q)),
           queue := queue q @ [new_pending c] \<rparr>))"
  by pat_completeness simp_all
termination by (relation "measure (\<lambda>q. length (pending_by_seq q))") (auto simp: length_ddel_less)

declare enqueue_contiguous.simps [simp del]

definition mq_submit :: "model_queue \<Rightarrow> command \<Rightarrow> model_queue" where
  "mq_submit q c = enqueue_contiguous (q\<lparr> pending_by_seq := dset (pending_by_seq q) (seq_id c) c \<rparr>)"

definition open_batch_run :: "model_queue \<Rightarrow> pending_request list" where
  "open_batch_run q = takeWhile (\<lambda>p. is_batch_op p \<and> admitted p) (queue q)"

definition ready_barrier :: "model_queue \<Rightarrow> pending_request option" where
  "ready_barrier q = (case queue q of [] \<Rightarrow> None | p # _ \<Rightarrow> if \<not> is_batch_op p \<and> admitted p then Some p else None)"

text \<open>\<open>finish\<close>; a command occurs once, so the entry is named by its sequence id.\<close>

definition mq_finish :: "model_queue \<Rightarrow> nat \<Rightarrow> model_queue" where
  "mq_finish q s = q\<lparr> queue := filter (\<lambda>p. pend_seq p \<noteq> s) (queue q) \<rparr>"

section \<open>The scheduler\<close>

type_synonym queues = "(nat, model_queue) dict"

text \<open>A reference to a datum: the model, its slot, the command and the position.\<close>

record datum_ref =
  ref_model :: nat
  ref_slot :: nat
  ref_command :: command
  local_index :: nat
  ref_datum :: tinker_datum

record batch_unit =
  batch_op :: command_op
  batch_loss_fn :: string
  batch_config :: "(string, wire) dict option"
  batch_datums :: "datum_ref list"

text \<open>A barrier entry: the model, its slot and the command.\<close>

type_synonym barrier_entry = "nat \<times> nat \<times> command"

datatype work_unit = BatchUnit batch_unit | BarrierUnit command_op "barrier_entry list"

definition ready_rejections :: "queues \<Rightarrow> barrier_entry list" where
  "ready_rejections qs = List.map_filter (\<lambda>(m, q). case queue q of
       [] \<Rightarrow> None
     | p # _ \<Rightarrow> if admitted p then None else Some (m, mq_slot q, pend_command p)) qs"

definition request_refs :: "nat \<Rightarrow> nat \<Rightarrow> pending_request \<Rightarrow> datum_ref list" where
  "request_refs m slot p = map (\<lambda>i. \<lparr> ref_model = m, ref_slot = slot, ref_command = pend_command p,
       local_index = i, ref_datum = datums p ! i \<rparr>) [num_issued_datums p..<length (datums p)]"

definition ready_datums :: "queues \<Rightarrow> datum_ref list" where
  "ready_datums qs = concat (map (\<lambda>(m, q). concat (map (request_refs m (mq_slot q)) (open_batch_run q))) qs)"

definition ready_barriers :: "queues \<Rightarrow> barrier_entry list" where
  "ready_barriers qs = List.map_filter (\<lambda>(m, q). case ready_barrier q of
       None \<Rightarrow> None | Some p \<Rightarrow> Some (m, mq_slot q, pend_command p)) qs"

text \<open>\<open>min(xs, key=f)\<close>: the first of the least.\<close>

fun first_min :: "('a \<Rightarrow> nat) \<Rightarrow> 'a list \<Rightarrow> 'a option" where
  "first_min f [] = None"
| "first_min f (x # xs) = (case first_min f xs of None \<Rightarrow> Some x | Some y \<Rightarrow> if f x \<le> f y then Some x else Some y)"

abbreviation ref_arrival :: "datum_ref \<Rightarrow> nat" where
  "ref_arrival r \<equiv> arrival (ref_command r)"

abbreviation entry_arrival :: "barrier_entry \<Rightarrow> nat" where
  "entry_arrival e \<equiv> arrival (snd (snd e))"

text \<open>The greedy loop over the compatible datums: at least one, then up to the budget.\<close>

fun take_budget :: "nat \<Rightarrow> bool \<Rightarrow> nat \<Rightarrow> datum_ref list \<Rightarrow> datum_ref list" where
  "take_budget budget started used [] = []"
| "take_budget budget started used (r # rs) =
     (if started \<and> budget < used + length (datum_tokens (ref_datum r)) then []
      else r # take_budget budget True (used + length (datum_tokens (ref_datum r))) rs)"

text \<open>Changing the entry of one request in one queue.\<close>

definition update_entry :: "nat \<Rightarrow> (pending_request \<Rightarrow> pending_request) \<Rightarrow> model_queue \<Rightarrow> model_queue" where
  "update_entry s f q = q\<lparr> queue := map (\<lambda>p. if pend_seq p = s then f p else p) (queue q) \<rparr>"

definition update_queue :: "nat \<Rightarrow> (model_queue \<Rightarrow> model_queue) \<Rightarrow> queues \<Rightarrow> queues" where
  "update_queue m f qs = map (\<lambda>(k, q). (k, if k = m then f q else q)) qs"

definition issue_ref :: "queues \<Rightarrow> datum_ref \<Rightarrow> queues" where
  "issue_ref qs r = update_queue (ref_model r) (update_entry (seq_id (ref_command r))
     (\<lambda>p. p\<lparr> num_issued_datums := num_issued_datums p + 1 \<rparr>)) qs"

definition pack_batch :: "nat \<Rightarrow> datum_ref \<Rightarrow> datum_ref list \<Rightarrow> queues \<Rightarrow> batch_unit \<times> queues" where
  "pack_batch budget seed refs qs =
     (let compatible = sort_key (\<lambda>r. (ref_arrival r, local_index r))
            (filter (\<lambda>r. pack_key (ref_command r) = pack_key (ref_command seed)) refs);
          picked = take_budget budget False 0 compatible;
          c = ref_command seed in
      (\<lparr> batch_op = cmd_op c, batch_loss_fn = loss_fn (payload c), batch_config = loss_fn_config (payload c),
         batch_datums = picked \<rparr>, foldl issue_ref qs picked))"

definition merge_barriers :: "barrier_entry \<Rightarrow> barrier_entry list \<Rightarrow> work_unit" where
  "merge_barriers seed barriers =
     (let op = cmd_op (snd (snd seed)) in
      BarrierUnit op (if op = OPTIM_STEP then filter (\<lambda>e. cmd_op (snd (snd e)) = op) barriers else [seed]))"

definition schedule_next :: "nat \<Rightarrow> queues \<Rightarrow> work_unit option \<times> queues" where
  "schedule_next budget qs =
     (let refs = ready_datums qs; barriers = ready_barriers qs;
          datum_seed = first_min ref_arrival refs; barrier_seed = first_min entry_arrival barriers in
      case barrier_seed of
        None \<Rightarrow> (case datum_seed of None \<Rightarrow> (None, qs)
            | Some r \<Rightarrow> (let (u, qs') = pack_batch budget r refs qs in (Some (BatchUnit u), qs')))
      | Some e \<Rightarrow> (case datum_seed of None \<Rightarrow> (Some (merge_barriers e barriers), qs)
            | Some r \<Rightarrow>
                if entry_arrival e < ref_arrival r then (Some (merge_barriers e barriers), qs)
                else (let (u, qs') = pack_batch budget r refs qs in (Some (BatchUnit u), qs'))))"

section \<open>Well-formed queues\<close>

definition live_batch :: "pending_request \<Rightarrow> bool" where
  "live_batch p \<longleftrightarrow> is_batch_op p \<and> admitted p"

text \<open>
  An entry with the positions \<open>I\<close> of its datums at the trainer: what was not issued and what
  is at the trainer has no output yet, everything else has, and some output is missing.
\<close>

definition entry_ok :: "nat set \<Rightarrow> pending_request \<Rightarrow> bool" where
  "entry_ok I p \<longleftrightarrow>
     (if live_batch p
      then length (outputs p) = length (datums p) \<and> num_issued_datums p \<le> length (datums p) \<and> I \<subseteq> {..<num_issued_datums p}
        \<and> (\<forall>i<length (datums p). outputs p ! i = None \<longleftrightarrow> i \<in> I \<or> num_issued_datums p \<le> i)
        \<and> remaining p = int (card I + (length (datums p) - num_issued_datums p)) \<and> 0 < remaining p
      else I = {})"

definition command_ok :: "command \<Rightarrow> bool" where
  "command_ok c \<longleftrightarrow> \<not> (is_batch (cmd_op c) \<and> validation_error c = None \<and> payload_datums (payload c) = [])"

definition pending_ok :: "model_queue \<Rightarrow> bool" where
  "pending_ok q \<longleftrightarrow> dict_ok (pending_by_seq q)
     \<and> (\<forall>(k, c)\<in>set (pending_by_seq q). seq_id c = k \<and> last_enqueued_seq_id q < k \<and> command_ok c)"

definition order_ok :: "model_queue \<Rightarrow> bool" where
  "order_ok q \<longleftrightarrow> sorted_wrt (<) (map pend_seq (queue q)) \<and> (\<forall>p\<in>set (queue q). pend_seq p \<le> last_enqueued_seq_id q)"

definition entries_ok :: "(nat \<Rightarrow> nat set) \<Rightarrow> model_queue \<Rightarrow> bool" where
  "entries_ok F q \<longleftrightarrow> (\<forall>p\<in>set (queue q). entry_ok (F (pend_seq p)) p)
     \<and> (\<forall>s. s \<notin> pend_seq ` set (queue q) \<longrightarrow> F s = {})"

definition queue_ok :: "(nat \<Rightarrow> nat set) \<Rightarrow> model_queue \<Rightarrow> bool" where
  "queue_ok F q \<longleftrightarrow> pending_ok q \<and> dget (pending_by_seq q) (Suc (last_enqueued_seq_id q)) = None \<and> order_ok q \<and> entries_ok F q"

text \<open>All commands a queue still holds, and the waiting entries as commands.\<close>

definition commands :: "model_queue \<Rightarrow> command set" where
  "commands q = pend_command ` set (queue q) \<union> snd ` set (pending_by_seq q)"

lemma pend_command_new [simp]: "pend_command (new_pending c) = c"
  by (simp add: new_pending_def)

lemma new_pending_ok: "command_ok c \<Longrightarrow> entry_ok {} (new_pending c)"
  by (auto simp: entry_ok_def live_batch_def is_batch_op_def new_pending_def command_ok_def)

lemma order_distinct: "order_ok q \<Longrightarrow> distinct (map pend_seq (queue q))"
  unfolding order_ok_def using strict_sorted_iff by blast

lemma entry_unique: "order_ok q \<Longrightarrow> p \<in> set (queue q) \<Longrightarrow> p' \<in> set (queue q) \<Longrightarrow> pend_seq p = pend_seq p' \<Longrightarrow> p = p'"
  using order_distinct [of q] by (auto simp: distinct_map dest: inj_onD)

text \<open>Enqueueing keeps the shape; the queue grows at its end by the commands that became contiguous.\<close>

lemma enqueue_contiguous_spec:
  assumes "pending_ok q" "order_ok q" "entries_ok F q" "q' = enqueue_contiguous q"
  shows "queue_ok F q' \<and> commands q' = commands q \<and> last_enqueued_seq_id q \<le> last_enqueued_seq_id q'
    \<and> mq_slot q' = mq_slot q \<and> mq_tenant q' = mq_tenant q
    \<and> (\<exists>cs. queue q' = queue q @ map new_pending cs \<and> set cs \<subseteq> snd ` set (pending_by_seq q))
    \<and> set (pending_by_seq q') \<subseteq> set (pending_by_seq q)
    \<and> (\<forall>k. last_enqueued_seq_id q < k \<and> k \<le> last_enqueued_seq_id q' \<longrightarrow> k \<in> set (dkeys (pending_by_seq q)))"
  using assms
proof (induction q rule: enqueue_contiguous.induct)
  case (1 q)
  let ?n = "Suc (last_enqueued_seq_id q)"
  show ?case
  proof (cases "dget (pending_by_seq q) ?n")
    case None
    then have "q' = q" using 1(5) by (subst (asm) enqueue_contiguous.simps) simp
    then show ?thesis using 1(2-4) None by (auto simp: queue_ok_def intro: exI [of _ "[]"])
  next
    case (Some c)
    let ?q = "q\<lparr> last_enqueued_seq_id := ?n, pending_by_seq := ddel (pending_by_seq q) ?n, queue := queue q @ [new_pending c] \<rparr>"
    have q': "q' = enqueue_contiguous ?q" using 1(5) Some by (subst (asm) enqueue_contiguous.simps) simp
    have d: "dict_ok (pending_by_seq q)" using 1(2) by (simp add: pending_ok_def)
    have mem: "(?n, c) \<in> set (pending_by_seq q)" using Some by (rule map_of_SomeD)
    then have c: "seq_id c = ?n" "command_ok c" using 1(2) by (auto simp: pending_ok_def)
    have rest: "set (ddel (pending_by_seq q) ?n) = {x \<in> set (pending_by_seq q). fst x \<noteq> ?n}" by (rule set_ddel [OF d])
    have p: "pending_ok ?q"
      using 1(2) d unfolding pending_ok_def by (auto simp: rest)
    have o: "order_ok ?q" using 1(3) c(1) by (auto simp: order_ok_def sorted_wrt_append)
    have new: "F (Suc (last_enqueued_seq_id q)) = {}"
    proof -
      have "?n \<notin> pend_seq ` set (queue q)" using 1(3) by (auto simp: order_ok_def)
      then show ?thesis using 1(4) by (simp add: entries_ok_def)
    qed
    have e: "entries_ok F ?q" using 1(4) new_pending_ok [OF c(2)] new c(1) by (auto simp: entries_ok_def)
    have com: "commands ?q = commands q"
    proof -
      have "snd ` set (pending_by_seq q) = insert c (snd ` {x \<in> set (pending_by_seq q). fst x \<noteq> ?n})"
        using mem d by (force simp: dict_ok_def dest: eq_key_imp_eq_value)
      then show ?thesis by (auto simp: commands_def rest)
    qed
    from 1(1) [OF Some p o e q'] obtain cs where IH: "queue_ok F q'" "commands q' = commands ?q"
      "last_enqueued_seq_id ?q \<le> last_enqueued_seq_id q'" "mq_slot q' = mq_slot ?q" "mq_tenant q' = mq_tenant ?q"
      "queue q' = queue ?q @ map new_pending cs" "set cs \<subseteq> snd ` set (pending_by_seq ?q)"
      "set (pending_by_seq q') \<subseteq> set (pending_by_seq ?q)"
      "\<forall>k. last_enqueued_seq_id ?q < k \<and> k \<le> last_enqueued_seq_id q' \<longrightarrow> k \<in> set (dkeys (pending_by_seq ?q))" by blast
    have "queue q' = queue q @ map new_pending (c # cs)" using IH(6) by simp
    moreover have "set (c # cs) \<subseteq> snd ` set (pending_by_seq q)"
    proof -
      have "c \<in> snd ` set (pending_by_seq q)" using mem by force
      moreover have "snd ` set (pending_by_seq ?q) \<subseteq> snd ` set (pending_by_seq q)" by (auto simp: rest)
      ultimately show ?thesis using IH(7) by auto
    qed
    moreover have "set (pending_by_seq q') \<subseteq> set (pending_by_seq q)" using IH(8) by (auto simp: rest)
    moreover have "\<forall>k. last_enqueued_seq_id q < k \<and> k \<le> last_enqueued_seq_id q' \<longrightarrow> k \<in> set (dkeys (pending_by_seq q))"
    proof (intro allI impI)
      fix k assume k: "last_enqueued_seq_id q < k \<and> k \<le> last_enqueued_seq_id q'"
      show "k \<in> set (dkeys (pending_by_seq q))"
      proof (cases "k = ?n")
        case True
        then show ?thesis using mem by force
      next
        case False
        then have "k \<in> set (dkeys (pending_by_seq ?q))" using IH(9) k by simp
        then show ?thesis by (auto simp: rest)
      qed
    qed
    ultimately show ?thesis using IH(1-5) com by (intro conjI exI [of _ "c # cs"]) simp_all
  qed
qed

lemma mq_submit_spec:
  assumes q: "queue_ok F q" and c: "command_ok c" "last_enqueued_seq_id q < seq_id c" "seq_id c \<notin> set (dkeys (pending_by_seq q))"
  shows "queue_ok F (mq_submit q c) \<and> commands (mq_submit q c) = insert c (commands q)
    \<and> last_enqueued_seq_id q \<le> last_enqueued_seq_id (mq_submit q c)
    \<and> mq_slot (mq_submit q c) = mq_slot q \<and> mq_tenant (mq_submit q c) = mq_tenant q
    \<and> (\<exists>cs. queue (mq_submit q c) = queue q @ map new_pending cs \<and> set cs \<subseteq> insert c (snd ` set (pending_by_seq q)))
    \<and> set (dkeys (pending_by_seq (mq_submit q c))) \<subseteq> insert (seq_id c) (set (dkeys (pending_by_seq q)))
    \<and> (\<forall>k. last_enqueued_seq_id q < k \<and> k \<le> last_enqueued_seq_id (mq_submit q c)
         \<longrightarrow> k = seq_id c \<or> k \<in> set (dkeys (pending_by_seq q)))"
proof -
  let ?q = "q\<lparr> pending_by_seq := dset (pending_by_seq q) (seq_id c) c \<rparr>"
  have app: "dset (pending_by_seq q) (seq_id c) c = pending_by_seq q @ [(seq_id c, c)]" by (rule dset_fresh [OF c(3)])
  have p: "pending_ok ?q" using q c by (auto simp: queue_ok_def pending_ok_def app dict_ok_def)
  have o: "order_ok ?q" "entries_ok F ?q" using q by (simp_all add: queue_ok_def order_ok_def entries_ok_def)
  have com: "commands ?q = insert c (commands q)" by (auto simp: commands_def app)
  from enqueue_contiguous_spec [OF p o refl] have *:
    "queue_ok F (mq_submit q c)" "commands (mq_submit q c) = commands ?q"
    "last_enqueued_seq_id ?q \<le> last_enqueued_seq_id (mq_submit q c)"
    "mq_slot (mq_submit q c) = mq_slot ?q" "mq_tenant (mq_submit q c) = mq_tenant ?q"
    "\<exists>cs. queue (mq_submit q c) = queue ?q @ map new_pending cs \<and> set cs \<subseteq> snd ` set (pending_by_seq ?q)"
    "set (pending_by_seq (mq_submit q c)) \<subseteq> set (pending_by_seq ?q)"
    "\<forall>k. last_enqueued_seq_id ?q < k \<and> k \<le> last_enqueued_seq_id (mq_submit q c) \<longrightarrow> k \<in> set (dkeys (pending_by_seq ?q))"
    unfolding mq_submit_def by blast+
  have "set (dkeys (pending_by_seq (mq_submit q c))) \<subseteq> set (dkeys (pending_by_seq ?q))"
    using *(7) unfolding set_map by (rule image_mono)
  then show ?thesis using * com by (simp add: app)
qed

lemma mq_finish_ok:
  assumes "queue_ok F q" "F s = {}"
  shows "queue_ok F (mq_finish q s)"
proof -
  have "sorted_wrt (<) (map pend_seq (filter (\<lambda>p. pend_seq p \<noteq> s) (queue q)))"
    using assms(1) by (auto simp: queue_ok_def order_ok_def sorted_wrt_map intro: sorted_wrt_filter)
  moreover have "F k = {}" if "k \<notin> pend_seq ` set (filter (\<lambda>p. pend_seq p \<noteq> s) (queue q))" for k
    using that assms by (cases "k = s") (auto simp: queue_ok_def entries_ok_def image_iff)
  ultimately show ?thesis using assms(1)
    by (simp add: queue_ok_def pending_ok_def order_ok_def entries_ok_def mq_finish_def)
qed

lemma entries_ok_update:
  assumes "entries_ok F q" "order_ok q" "p \<in> set (queue q)" "entry_ok I (f p)" "pend_seq (f p) = pend_seq p"
  shows "entries_ok (F(pend_seq p := I)) (update_entry (pend_seq p) f q)"
proof -
  have "set (queue (update_entry (pend_seq p) f q)) = insert (f p) (set (queue q) - {p})"
  proof -
    have "(if pend_seq x = pend_seq p then f x else x) = (if x = p then f p else x)" if "x \<in> set (queue q)" for x
      using entry_unique [OF assms(2,3) that] by auto
    then have "(\<lambda>x. if pend_seq x = pend_seq p then f x else x) ` set (queue q) = (\<lambda>x. if x = p then f p else x) ` set (queue q)"
      by (intro image_cong refl)
    moreover have "\<dots> = insert (f p) (set (queue q) - {p})" using assms(3) by auto
    ultimately show ?thesis by (simp add: update_entry_def)
  qed
  then show ?thesis using assms entry_unique [OF assms(2) assms(3)]
    by (force simp: entries_ok_def image_iff)
qed

lemma map_seq_update_entry:
  assumes "\<And>p. p \<in> set (queue q) \<Longrightarrow> pend_seq p = s \<Longrightarrow> pend_seq (f p) = s"
  shows "map pend_seq (queue (update_entry s f q)) = map pend_seq (queue q)"
  using assms by (auto simp: update_entry_def)

lemma update_entry_fields [simp]:
  "pending_by_seq (update_entry s f q) = pending_by_seq q" "last_enqueued_seq_id (update_entry s f q) = last_enqueued_seq_id q"
  "mq_slot (update_entry s f q) = mq_slot q" "mq_tenant (update_entry s f q) = mq_tenant q"
  by (simp_all add: update_entry_def)

lemma queue_ok_update:
  assumes q: "queue_ok F q" and p: "p \<in> set (queue q)" "entry_ok I (f p)" "pend_seq (f p) = pend_seq p"
  shows "queue_ok (F(pend_seq p := I)) (update_entry (pend_seq p) f q)"
proof -
  have o: "order_ok q" and e: "entries_ok F q" using q by (simp_all add: queue_ok_def)
  have same: "x = p" if "x \<in> set (queue q)" "pend_seq x = pend_seq p" for x using entry_unique [OF o that(1) p(1) that(2)] .
  have seqs: "map pend_seq (queue (update_entry (pend_seq p) f q)) = map pend_seq (queue q)"
    by (rule map_seq_update_entry) (use same p(3) in auto)
  have "order_ok (update_entry (pend_seq p) f q)"
  proof -
    have "pend_seq ` set (queue (update_entry (pend_seq p) f q)) = pend_seq ` set (queue q)"
      using seqs by (metis set_map)
    moreover have "\<forall>k\<in>pend_seq ` set (queue q). k \<le> last_enqueued_seq_id q" using o by (simp add: order_ok_def)
    ultimately have "\<forall>k\<in>pend_seq ` set (queue (update_entry (pend_seq p) f q)). k \<le> last_enqueued_seq_id q" by (simp only:)
    then show ?thesis using o unfolding order_ok_def seqs by simp
  qed
  then show ?thesis using q entries_ok_update [of F q p I f, OF e o p] by (simp add: queue_ok_def pending_ok_def)
qed

lemma record_output_ok:
  assumes e: "entry_ok I p" and i: "i \<in> I" and r: "record_output p i x = (p', finished)"
  shows "pend_command p' = pend_command p \<and> datums p' = datums p
    \<and> (if finished then list_all (\<lambda>y. y \<noteq> None) (outputs p') \<and> length (outputs p') = length (datums p) \<and> I - {i} = {}
       else entry_ok (I - {i}) p')"
proof -
  have b: "live_batch p" using e i by (auto simp: entry_ok_def split: if_splits)
  note E = e [unfolded entry_ok_def if_P [OF b]]
  have il: "i < length (datums p)" "i < num_issued_datums p" using E i by auto
  have fin: "finite I" using E finite_subset by blast
  have card: "card (I - {i}) + 1 = card I" using card_Suc_Diff1 [OF fin i] by simp
  have p': "p' = p\<lparr> outputs := (outputs p)[i := Some x], remaining := remaining p - 1 \<rparr>"
    and f: "finished = (remaining p - 1 = 0)" using r by (auto simp: record_output_def)
  have none: "(outputs p)[i := Some x] ! j = None \<longleftrightarrow> j \<in> I - {i} \<or> num_issued_datums p \<le> j" if "j < length (datums p)" for j
    using that E i il by (cases "j = i") auto
  have b': "live_batch p'" using b by (simp add: p' live_batch_def is_batch_op_def)
  show ?thesis
  proof (cases finished)
    case True
    then have z: "card I + (length (datums p) - num_issued_datums p) = 1" using f E by simp
    then have "card (I - {i}) = 0" "num_issued_datums p = length (datums p)"
      using card E by linarith+
    then have "I - {i} = {}" "num_issued_datums p = length (datums p)"
      using fin by simp_all
    then show ?thesis using True none E by (auto simp: p' list_all_length)
  next
    case False
    have "0 < remaining p" using E by blast
    then have "0 < remaining p - 1" using f False by auto
    then have "entry_ok (I - {i}) p'"
      unfolding entry_ok_def if_P [OF b'] using none E card by (auto simp: p')
    then show ?thesis using False by (simp add: p')
  qed
qed

section \<open>Issuing datums\<close>

type_synonym datum_key = "nat \<times> nat \<times> nat"

definition ref_key :: "datum_ref \<Rightarrow> datum_key" where
  "ref_key r = (ref_model r, seq_id (ref_command r), local_index r)"

definition work_ok :: "datum_key set \<Rightarrow> queues \<Rightarrow> bool" where
  "work_ok W qs \<longleftrightarrow> dict_ok qs \<and> (\<forall>m q. dget qs m = Some q \<longrightarrow> queue_ok (\<lambda>s. {i. (m, s, i) \<in> W}) q)"

text \<open>A reference of a unit agrees with the entry it points to.\<close>

definition ref_ok :: "queues \<Rightarrow> datum_ref \<Rightarrow> bool" where
  "ref_ok qs r \<longleftrightarrow> (\<exists>q p. dget qs (ref_model r) = Some q \<and> p \<in> set (queue q) \<and> pend_command p = ref_command r
     \<and> ref_slot r = mq_slot q)"

definition entry_head :: "queues \<Rightarrow> barrier_entry \<Rightarrow> bool" where
  "entry_head qs e \<longleftrightarrow> (\<exists>q p ps. dget qs (fst e) = Some q \<and> queue q = p # ps \<and> pend_command p = snd (snd e)
     \<and> fst (snd e) = mq_slot q)"

lemma dget_update_queue [simp]: "dget (update_queue m f qs) k = (if k = m then map_option f (dget qs k) else dget qs k)"
  by (induction qs) (auto simp: update_queue_def)

lemma dkeys_update_queue [simp]: "dkeys (update_queue m f qs) = dkeys qs"
  by (simp add: update_queue_def comp_def case_prod_beta)

lemma dict_ok_update_queue [simp]: "dict_ok (update_queue m f qs) = dict_ok qs"
  unfolding dict_ok_def dkeys_update_queue ..

lemma in_ready_datums:
  assumes "dict_ok qs"
  shows "r \<in> set (ready_datums qs) \<longleftrightarrow> (\<exists>m q p i. dget qs m = Some q \<and> p \<in> set (open_batch_run q)
    \<and> num_issued_datums p \<le> i \<and> i < length (datums p)
    \<and> r = \<lparr> ref_model = m, ref_slot = mq_slot q, ref_command = pend_command p, local_index = i, ref_datum = datums p ! i \<rparr>)"
proof -
  have "r \<in> set (ready_datums qs) \<longleftrightarrow> (\<exists>(m, q)\<in>set qs. \<exists>p\<in>set (open_batch_run q). r \<in> set (request_refs m (mq_slot q) p))"
    by (auto simp: ready_datums_def)
  also have "\<dots> \<longleftrightarrow> (\<exists>m q. dget qs m = Some q \<and> (\<exists>p\<in>set (open_batch_run q). r \<in> set (request_refs m (mq_slot q) p)))"
    using dget_in [OF assms] by auto
  also have "\<dots> \<longleftrightarrow> (\<exists>m q p i. dget qs m = Some q \<and> p \<in> set (open_batch_run q)
    \<and> num_issued_datums p \<le> i \<and> i < length (datums p)
    \<and> r = \<lparr> ref_model = m, ref_slot = mq_slot q, ref_command = pend_command p, local_index = i, ref_datum = datums p ! i \<rparr>)"
  proof -
    have "r \<in> set (request_refs m slot p) \<longleftrightarrow> (\<exists>i. num_issued_datums p \<le> i \<and> i < length (datums p)
      \<and> r = \<lparr> ref_model = m, ref_slot = slot, ref_command = pend_command p, local_index = i, ref_datum = datums p ! i \<rparr>)" for m slot p
      by (auto simp: request_refs_def)
    then show ?thesis by blast
  qed
  finally show ?thesis .
qed

lemma open_run_subset: "set (open_batch_run q) \<subseteq> {p \<in> set (queue q). live_batch p}"
  unfolding open_batch_run_def live_batch_def by (auto dest: set_takeWhileD)

lemma open_run_distinct: "order_ok q \<Longrightarrow> distinct (map pend_seq (open_batch_run q))"
  using order_distinct [of q] unfolding open_batch_run_def
  by (metis distinct_append map_append takeWhile_dropWhile_id)

lemma ready_datums_distinct:
  assumes "work_ok W qs"
  shows "distinct (map ref_key (ready_datums qs))"
proof -
  have d: "dict_ok qs" using assms by (simp add: work_ok_def)
  have inner: "distinct (map ref_key (request_refs m slot p))" for m slot p
    by (simp add: request_refs_def comp_def ref_key_def distinct_map inj_on_def)
  have block: "distinct (map ref_key (concat (map (request_refs m (mq_slot q)) (open_batch_run q))))" if q: "dget qs m = Some q" for m q
    unfolding map_concat map_map comp_def
  proof (rule distinct_concat_blocks [where g = pend_seq and h = "\<lambda>k. fst (snd k)"])
    show "distinct (map pend_seq (open_batch_run q))"
      using assms q by (intro open_run_distinct) (auto simp: work_ok_def queue_ok_def)
    show "distinct (map ref_key (request_refs m (mq_slot q) p))" for p by (rule inner)
    show "fst (snd k) = pend_seq p" if "k \<in> set (map ref_key (request_refs m (mq_slot q) p))" for p k
      using that by (auto simp: request_refs_def ref_key_def)
  qed
  show ?thesis
    unfolding ready_datums_def map_concat map_map comp_def
  proof (rule distinct_concat_blocks [where g = fst and h = fst])
    show "distinct (map fst qs)" using d by (simp add: dict_ok_def)
    show "distinct (map ref_key (case x of (m, q) \<Rightarrow> concat (map (request_refs m (mq_slot q)) (open_batch_run q))))"
      if "x \<in> set qs" for x
    proof (cases x)
      case (Pair m q)
      with that have "dget qs m = Some q" using dget_in [OF d] by blast
      from block [OF this] show ?thesis by (simp add: Pair)
    qed
    show "fst k = fst x" if "k \<in> set (map ref_key (case x of (m, q) \<Rightarrow> concat (map (request_refs m (mq_slot q)) (open_batch_run q))))" for x k
      using that by (cases x) (auto simp: request_refs_def ref_key_def)
  qed
qed

text \<open>Issuing a list of references only moves the counters of the entries they point to.\<close>

definition issued_of :: "datum_ref list \<Rightarrow> nat \<Rightarrow> nat \<Rightarrow> nat" where
  "issued_of rs m s = length (filter (\<lambda>r. ref_model r = m \<and> seq_id (ref_command r) = s) rs)"

definition advance :: "datum_ref list \<Rightarrow> nat \<Rightarrow> pending_request \<Rightarrow> pending_request" where
  "advance rs m p = p\<lparr> num_issued_datums := num_issued_datums p + issued_of rs m (pend_seq p) \<rparr>"

lemma issue_refs:
  "foldl issue_ref qs rs = map (\<lambda>(m, q). (m, q\<lparr> queue := map (advance rs m) (queue q) \<rparr>)) qs"
proof (induction rs rule: rev_induct)
  case Nil
  have "advance [] m p = p" for m p by (simp add: advance_def issued_of_def)
  then show ?case by (simp add: map_idI)
next
  case (snoc r rs)
  have step: "(if pend_seq (advance rs (ref_model r) p) = seq_id (ref_command r)
         then (advance rs (ref_model r) p)\<lparr> num_issued_datums := num_issued_datums (advance rs (ref_model r) p) + 1 \<rparr>
         else advance rs (ref_model r) p) = advance (rs @ [r]) (ref_model r) p" for p
    by (auto simp: advance_def issued_of_def)
  have other: "advance rs m p = advance (rs @ [r]) m p" if "m \<noteq> ref_model r" for m p
    using that by (simp add: advance_def issued_of_def)
  have "foldl issue_ref qs (rs @ [r]) = issue_ref (map (\<lambda>(m, q). (m, q\<lparr> queue := map (advance rs m) (queue q) \<rparr>)) qs) r"
    using snoc by (simp only: foldl_append foldl.simps)
  also have "\<dots> = map (\<lambda>(m, q). (m, q\<lparr> queue := map (advance (rs @ [r]) m) (queue q) \<rparr>)) qs"
    unfolding issue_ref_def update_queue_def update_entry_def map_map
  proof (rule map_cong [OF refl])
    fix x assume "x \<in> set qs"
    show "((\<lambda>(k, q). (k, if k = ref_model r
          then q\<lparr> queue := map (\<lambda>p. if pend_seq p = seq_id (ref_command r)
                then p\<lparr> num_issued_datums := num_issued_datums p + 1 \<rparr> else p) (queue q) \<rparr> else q)) \<circ>
        (\<lambda>(m, q). (m, q\<lparr> queue := map (advance rs m) (queue q) \<rparr>))) x
      = (case x of (m, q) \<Rightarrow> (m, q\<lparr> queue := map (advance (rs @ [r]) m) (queue q) \<rparr>))"
      by (cases x; cases "fst x = ref_model r") (simp_all add: comp_def step other del: One_nat_def)
  qed
  finally show ?case .
qed

lemma dget_issue_refs: "dget (foldl issue_ref qs rs) m = map_option (\<lambda>q. q\<lparr> queue := map (advance rs m) (queue q) \<rparr>) (dget qs m)"
  unfolding issue_refs by (induction qs) auto

lemma dkeys_issue_refs: "dkeys (foldl issue_ref qs rs) = dkeys qs"
  unfolding issue_refs by (simp add: comp_def case_prod_beta)

section \<open>The scheduler's choice\<close>

lemma take_budget_take: "\<exists>n. take_budget budget started used rs = take n rs"
proof (induction budget started used rs rule: take_budget.induct)
  case (2 budget started used r rs)
  show ?case
  proof (cases "started \<and> budget < used + length (datum_tokens (ref_datum r))")
    case True
    then show ?thesis by (auto intro: exI [of _ 0])
  next
    case False
    with 2 obtain n where "take_budget budget True (used + length (datum_tokens (ref_datum r))) rs = take n rs" by blast
    with False show ?thesis by (auto intro: exI [of _ "Suc n"])
  qed
qed simp

definition unit_tokens :: "datum_ref list \<Rightarrow> nat" where
  "unit_tokens rs = sum_list (map (\<lambda>r. length (datum_tokens (ref_datum r))) rs)"

lemma take_budget_bound:
  "take_budget budget True used rs = [] \<or> used + unit_tokens (take_budget budget True used rs) \<le> budget"
proof (induction rs arbitrary: used)
  case (Cons r rs)
  show ?case
  proof (cases "budget < used + length (datum_tokens (ref_datum r))")
    case False
    then show ?thesis using Cons [of "used + length (datum_tokens (ref_datum r))"]
      by (auto simp: unit_tokens_def)
  qed simp
qed simp

lemma take_budget_start:
  assumes "rs \<noteq> []"
  shows "take_budget budget False 0 rs \<noteq> [] \<and> hd (take_budget budget False 0 rs) = hd rs
    \<and> (length (take_budget budget False 0 rs) = 1 \<or> unit_tokens (take_budget budget False 0 rs) \<le> budget)"
proof (cases rs)
  case (Cons r rest)
  then show ?thesis using take_budget_bound [of budget "length (datum_tokens (ref_datum r))" rest]
    by (auto simp: unit_tokens_def)
qed (use assms in simp)

lemma sorted_prefix_closed:
  assumes "r \<in> set (take n (sort_key k rs))" "r' \<in> set rs" "k r' < k r"
  shows "r' \<in> set (take n (sort_key k rs))"
proof -
  let ?xs = "sort_key k rs"
  obtain i where i: "i < n" "i < length ?xs" "?xs ! i = r" using assms(1) by (auto simp: in_set_conv_nth)
  obtain j where j: "j < length ?xs" "?xs ! j = r'" using assms(2) by (metis in_set_conv_nth set_sort)
  have "j < n"
  proof (rule ccontr)
    assume "\<not> j < n"
    then have "k (?xs ! i) \<le> k (?xs ! j)"
      using i(1,2) j(1) sorted_nth_mono [OF sorted_sort_key [of k rs], of i j] by simp
    then show False using i j assms(3) by simp
  qed
  then show ?thesis using j by (auto simp: in_set_conv_nth)
qed

lemma initial_segment:
  fixes J :: "nat set"
  assumes "finite J" "\<And>i. i \<in> J \<Longrightarrow> a \<le> i" "\<And>i j. i \<in> J \<Longrightarrow> a \<le> j \<Longrightarrow> j < i \<Longrightarrow> j \<in> J"
  shows "J = {a..<a + card J}"
proof (cases "J = {}")
  case False
  have "J = {a..Max J}"
  proof
    show "J \<subseteq> {a..Max J}" using assms(1,2) by auto
    show "{a..Max J} \<subseteq> J"
    proof
      fix j assume "j \<in> {a..Max J}"
      then show "j \<in> J" using assms(3) [OF Max_in [OF assms(1) False], of j] Max_in [OF assms(1) False] by (cases "j = Max J") auto
    qed
  qed
  moreover from this have "card J = Suc (Max J) - a" by (metis card_atLeastAtMost)
  moreover have "a \<le> Max J" using assms(2) Max_in [OF assms(1) False] by simp
  ultimately show ?thesis by (metis atLeastLessThanSuc_atLeastAtMost le_SucI le_add_diff_inverse)
qed simp

lemma issue_entry_ok:
  assumes "entry_ok {} p" "live_batch p" "J = {num_issued_datums p..<num_issued_datums p + k}" "J \<subseteq> {..<length (datums p)}"
  shows "entry_ok J (p\<lparr> num_issued_datums := num_issued_datums p + k \<rparr>)"
proof -
  note E = assms(1) [unfolded entry_ok_def if_P [OF assms(2)]]
  have b: "live_batch (p\<lparr> num_issued_datums := num_issued_datums p + k \<rparr>)"
    using assms(2) by (simp add: live_batch_def is_batch_op_def)
  have le: "num_issued_datums p + k \<le> length (datums p)"
  proof (cases "k = 0")
    case False
    then have "num_issued_datums p + k - 1 \<in> J" using assms(3) by auto
    then show ?thesis using assms(4) by auto
  qed (use E in simp)
  then show ?thesis unfolding entry_ok_def if_P [OF b] using E assms(3) by auto
qed

text \<open>The references picked by a batch: what they are, and that the queues account for them.\<close>

lemma pack_batch_spec:
  assumes w: "work_ok {} qs" and seed: "seed \<in> set (ready_datums qs)"
    and p: "pack_batch budget seed (ready_datums qs) qs = (u, qs')"
  shows "batch_datums u \<noteq> [] \<and> distinct (map ref_key (batch_datums u)) \<and> set (batch_datums u) \<subseteq> set (ready_datums qs)
    \<and> (\<forall>r\<in>set (batch_datums u). pack_key (ref_command r) = pack_key (ref_command seed))
    \<and> batch_op u = cmd_op (ref_command seed) \<and> ref_arrival (hd (batch_datums u)) \<le> ref_arrival seed
    \<and> (length (batch_datums u) = 1 \<or> unit_tokens (batch_datums u) \<le> budget)
    \<and> work_ok (ref_key ` set (batch_datums u)) qs' \<and> (\<forall>r\<in>set (batch_datums u). ref_ok qs' r)
    \<and> qs' = foldl issue_ref qs (batch_datums u)"
proof -
  define k where "k = (\<lambda>r. (ref_arrival r, local_index r))"
  define compatible where "compatible = filter (\<lambda>r. pack_key (ref_command r) = pack_key (ref_command seed)) (ready_datums qs)"
  define rs where "rs = batch_datums u"
  have rs: "rs = take_budget budget False 0 (sort_key k compatible)" and qs': "qs' = foldl issue_ref qs rs"
    and op: "batch_op u = cmd_op (ref_command seed)"
    using p by (auto simp: pack_batch_def Let_def rs_def compatible_def k_def)
  have seed_in: "seed \<in> set compatible" using seed by (simp add: compatible_def)
  then have ne: "sort_key k compatible \<noteq> []" using set_sort [of k compatible] by (metis empty_iff list.set(1))
  obtain n where n: "rs = take n (sort_key k compatible)" using take_budget_take rs by blast
  have sub: "set rs \<subseteq> set compatible" unfolding n using set_take_subset [of n "sort_key k compatible"] by simp
  have first: "ref_arrival (hd rs) \<le> ref_arrival seed"
  proof -
    have "hd rs = hd (sort_key k compatible)" using take_budget_start [OF ne] rs by blast
    moreover have "k (hd (sort_key k compatible)) \<le> k seed"
    proof -
      obtain x xs where x: "sort_key k compatible = x # xs" using ne by (cases "sort_key k compatible") auto
      have "sorted (map k (x # xs))" by (simp only: x [symmetric] sorted_sort_key)
      moreover have "seed \<in> set (x # xs)" using seed_in unfolding x [symmetric] by simp
      ultimately show ?thesis unfolding x by auto
    qed
    ultimately show ?thesis by (auto simp: k_def less_eq_prod_def split: if_splits)
  qed
  have dist: "distinct (map ref_key rs)"
  proof -
    have "distinct (map ref_key compatible)"
      unfolding compatible_def using ready_datums_distinct [OF w] by (simp add: distinct_map_filter)
    then have "distinct (map ref_key (sort_key k compatible))" by (simp add: distinct_map)
    then show ?thesis unfolding n take_map [symmetric] by (rule distinct_take)
  qed
  have d: "dict_ok qs" using w by (simp add: work_ok_def)
  have ready: "\<exists>q p. dget qs (ref_model r) = Some q \<and> p \<in> set (open_batch_run q) \<and> num_issued_datums p \<le> local_index r
      \<and> local_index r < length (datums p) \<and> ref_command r = pend_command p \<and> ref_slot r = mq_slot q"
    if "r \<in> set rs" for r
    using that sub in_ready_datums [OF d, of r] by (auto simp: compatible_def)
  have work: "work_ok (ref_key ` set rs) qs'"
    unfolding work_ok_def
  proof (intro conjI allI impI)
    show "dict_ok qs'" using d unfolding dict_ok_def qs' dkeys_issue_refs .
    fix m q' assume "dget qs' m = Some q'"
    then obtain q where q: "dget qs m = Some q" "q' = q\<lparr> queue := map (advance rs m) (queue q) \<rparr>"
      by (auto simp: qs' dget_issue_refs)
    then have ok: "queue_ok (\<lambda>s. {}) q" using w by (simp add: work_ok_def)
    have seqs: "map pend_seq (map (advance rs m) (queue q)) = map pend_seq (queue q)" by (simp add: advance_def comp_def)
    define J where "J = (\<lambda>s. {i. (m, s, i) \<in> ref_key ` set rs})"
    have entry: "entry_ok (J (pend_seq x)) (advance rs m x)" if x: "x \<in> set (queue q)" for x
    proof (cases "J (pend_seq x) = {}")
      case True
      then have "filter (\<lambda>r. ref_model r = m \<and> seq_id (ref_command r) = pend_seq x) rs = []"
        by (force simp: J_def ref_key_def filter_empty_conv)
      then have "advance rs m x = x" by (simp add: advance_def issued_of_def)
      then show ?thesis using True ok x by (simp add: queue_ok_def entries_ok_def)
    next
      case False
      have same: "\<exists>r\<in>set rs. ref_model r = m \<and> ref_command r = pend_command x \<and> local_index r = i
          \<and> num_issued_datums x \<le> i \<and> i < length (datums x) \<and> live_batch x \<and> x \<in> set (open_batch_run q)"
        if iJ: "i \<in> J (pend_seq x)" for i
      proof -
        obtain r where r: "r \<in> set rs" "ref_model r = m" "seq_id (ref_command r) = pend_seq x" "local_index r = i"
          using iJ by (auto simp: J_def ref_key_def)
        then obtain y where y: "y \<in> set (open_batch_run q)" "num_issued_datums y \<le> i" "i < length (datums y)"
          "ref_command r = pend_command y" using ready [OF r(1)] q(1) by auto
        have "y \<in> set (queue q)" "live_batch y" using y(1) open_run_subset by blast+
        moreover have "x = y"
          by (rule entry_unique [OF _ x \<open>y \<in> set (queue q)\<close>]) (use ok r(3) y(4) in \<open>auto simp: queue_ok_def\<close>)
        ultimately show ?thesis using r y by auto
      qed
      obtain i0 where "i0 \<in> J (pend_seq x)" using False by blast
      then have live: "live_batch x" "x \<in> set (open_batch_run q)" using same by blast+
      have inj: "inj_on local_index {r \<in> set rs. ref_model r = m \<and> seq_id (ref_command r) = pend_seq x}"
        using dist by (auto simp: distinct_map inj_on_def ref_key_def)
      have im: "J (pend_seq x) = local_index ` {r \<in> set rs. ref_model r = m \<and> seq_id (ref_command r) = pend_seq x}"
        by (auto simp: J_def ref_key_def image_iff)
      have card: "card (J (pend_seq x)) = issued_of rs m (pend_seq x)"
      proof -
        have "card (J (pend_seq x)) = card (set (filter (\<lambda>r. ref_model r = m \<and> seq_id (ref_command r) = pend_seq x) rs))"
          unfolding im card_image [OF inj] by simp
        also have "\<dots> = issued_of rs m (pend_seq x)"
          unfolding issued_of_def using dist by (intro distinct_card distinct_filter) (simp add: distinct_map)
        finally show ?thesis .
      qed
      have fin: "finite (J (pend_seq x))" unfolding im by simp
      have "J (pend_seq x) = {num_issued_datums x..<num_issued_datums x + card (J (pend_seq x))}"
      proof (rule initial_segment [OF fin])
        show "num_issued_datums x \<le> i" if "i \<in> J (pend_seq x)" for i using same [OF that] by blast
        fix i j assume ij: "i \<in> J (pend_seq x)" "num_issued_datums x \<le> j" "j < i"
        obtain r where r: "r \<in> set rs" "ref_model r = m" "ref_command r = pend_command x" "local_index r = i"
          "i < length (datums x)" using same [OF ij(1)] by blast
        let ?r = "\<lparr> ref_model = m, ref_slot = mq_slot q, ref_command = pend_command x, local_index = j, ref_datum = datums x ! j \<rparr>"
        have "?r \<in> set (ready_datums qs)" unfolding in_ready_datums [OF d] using q(1) live(2) ij r(5) by fastforce
        then have "?r \<in> set compatible" using r(1,3) sub by (auto simp: compatible_def)
        then have "?r \<in> set rs"
          using sorted_prefix_closed [of r n k compatible ?r] r ij(3) n by (auto simp: k_def)
        then show "j \<in> J (pend_seq x)" unfolding J_def by (force simp: ref_key_def image_iff)
      qed
      then have J: "J (pend_seq x) = {num_issued_datums x..<num_issued_datums x + issued_of rs m (pend_seq x)}"
        unfolding card .
      have "entry_ok {} x" using ok x by (simp add: queue_ok_def entries_ok_def)
      moreover have "J (pend_seq x) \<subseteq> {..<length (datums x)}" using same by blast
      ultimately show ?thesis unfolding advance_def using issue_entry_ok [OF _ live(1) J] by simp
    qed
    have none: "J s = {}" if "s \<notin> pend_seq ` set (queue q)" for s
    proof (rule ccontr)
      assume "J s \<noteq> {}"
      then obtain r where r: "r \<in> set rs" "ref_model r = m" "seq_id (ref_command r) = s" by (auto simp: J_def ref_key_def)
      then obtain y where "y \<in> set (open_batch_run q)" "ref_command r = pend_command y" using ready [OF r(1)] q(1) by auto
      then show False using that r(3) open_run_subset by force
    qed
    have "order_ok q'" using ok seqs unfolding queue_ok_def order_ok_def q(2) by (auto simp: advance_def comp_def)
    moreover have "entries_ok J q'"
      unfolding entries_ok_def q(2) using entry none by (auto simp: advance_def image_iff)
    moreover have "pending_ok q'" "dget (pending_by_seq q') (Suc (last_enqueued_seq_id q')) = None"
      using ok by (auto simp: queue_ok_def pending_ok_def q(2))
    ultimately show "queue_ok (\<lambda>s. {i. (m, s, i) \<in> ref_key ` set rs}) q'" unfolding queue_ok_def J_def by blast
  qed
  have refs: "ref_ok qs' r" if r: "r \<in> set rs" for r
  proof -
    obtain q p where qp: "dget qs (ref_model r) = Some q" "p \<in> set (queue q)" "ref_command r = pend_command p" "ref_slot r = mq_slot q"
      using ready [OF r] open_run_subset by blast
    then show ?thesis
      unfolding ref_ok_def qs' dget_issue_refs by (auto simp: advance_def intro!: bexI [of _ p])
  qed
  have bound: "rs \<noteq> []" "length rs = 1 \<or> unit_tokens rs \<le> budget"
    using take_budget_start [OF ne, of budget] unfolding rs by blast+
  have subs: "set rs \<subseteq> set (ready_datums qs)" "\<forall>r\<in>set rs. pack_key (ref_command r) = pack_key (ref_command seed)"
    using sub by (auto simp: compatible_def)
  show ?thesis
    unfolding rs_def [symmetric] using bound dist subs op first work refs qs' by (intro conjI ballI) blast+
qed

lemma first_min_None [simp]: "first_min f xs = None \<longleftrightarrow> xs = []"
  by (cases xs) (auto split: option.splits)

lemma first_min_Some: "first_min f xs = Some x \<Longrightarrow> x \<in> set xs \<and> (\<forall>y\<in>set xs. f x \<le> f y)"
proof (induction xs arbitrary: x)
  case (Cons y ys)
  then show ?case by (cases "first_min f ys") (force split: if_splits)+
qed simp

lemma distinct_map_filter_keys:
  assumes "\<And>x y. f x = Some y \<Longrightarrow> fst y = fst x" "distinct (map fst xs)"
  shows "distinct (map fst (List.map_filter f xs))"
  using assms(2)
proof (induction xs)
  case (Cons x xs)
  have "fst ` set (List.map_filter f xs) \<subseteq> fst ` set xs"
    using assms(1) by (force simp: List.map_filter_def)
  with Cons assms(1) show ?case by (cases "f x") (auto simp: List.map_filter_simps)
qed (simp add: List.map_filter_simps)

lemma in_map_filter: "y \<in> set (List.map_filter f xs) \<longleftrightarrow> (\<exists>x\<in>set xs. f x = Some y)"
  by (induction xs) (auto simp: List.map_filter_simps split: option.splits)

lemma in_dict_map_filter:
  assumes "dict_ok d"
  shows "y \<in> set (List.map_filter f d) \<longleftrightarrow> (\<exists>k v. dget d k = Some v \<and> f (k, v) = Some y)"
proof -
  have "y \<in> set (List.map_filter f d) \<longleftrightarrow> (\<exists>k v. (k, v) \<in> set d \<and> f (k, v) = Some y)"
    unfolding in_map_filter by (auto simp: Bex_def)
  then show ?thesis unfolding dget_in [OF assms] .
qed

definition barrier_head :: "queues \<Rightarrow> barrier_entry \<Rightarrow> bool" where
  "barrier_head qs e \<longleftrightarrow> entry_head qs e \<and> \<not> is_batch (cmd_op (snd (snd e))) \<and> validation_error (snd (snd e)) = None"

lemma ready_barrier_Some: "ready_barrier q = Some p \<longleftrightarrow> (\<exists>ps. queue q = p # ps) \<and> \<not> is_batch_op p \<and> admitted p"
  by (cases "queue q") (auto simp: ready_barrier_def)

lemma in_ready_barriers:
  assumes "dict_ok qs"
  shows "e \<in> set (ready_barriers qs) \<longleftrightarrow> barrier_head qs e"
proof -
  have "e \<in> set (ready_barriers qs) \<longleftrightarrow> (\<exists>m q. dget qs m = Some q \<and>
      (\<exists>p. ready_barrier q = Some p \<and> e = (m, mq_slot q, pend_command p)))"
  proof -
    have "(case ready_barrier q of None \<Rightarrow> None | Some p \<Rightarrow> Some (m, mq_slot q, pend_command p)) = Some e
        \<longleftrightarrow> (\<exists>p. ready_barrier q = Some p \<and> e = (m, mq_slot q, pend_command p))" for m q
      by (cases "ready_barrier q") auto
    then show ?thesis unfolding ready_barriers_def in_dict_map_filter [OF assms] by simp
  qed
  also have "\<dots> \<longleftrightarrow> barrier_head qs e"
    unfolding ready_barrier_Some by (cases e) (auto simp: barrier_head_def entry_head_def is_batch_op_def)
  finally show ?thesis .
qed

lemma ready_barriers_distinct: "dict_ok qs \<Longrightarrow> distinct (map fst (ready_barriers qs))"
  unfolding ready_barriers_def dict_ok_def by (rule distinct_map_filter_keys) (auto split: option.splits)

lemma in_ready_rejections:
  assumes "dict_ok qs"
  shows "e \<in> set (ready_rejections qs) \<longleftrightarrow> entry_head qs e \<and> validation_error (snd (snd e)) \<noteq> None"
proof -
  have "e \<in> set (ready_rejections qs) \<longleftrightarrow> (\<exists>m q. dget qs m = Some q \<and>
      (\<exists>p ps. queue q = p # ps \<and> \<not> admitted p \<and> e = (m, mq_slot q, pend_command p)))"
  proof -
    have eq: "(case queue q of [] \<Rightarrow> None | p # _ \<Rightarrow> if admitted p then None else Some (m, mq_slot q, pend_command p)) = Some e
        \<longleftrightarrow> (\<exists>p ps. queue q = p # ps \<and> \<not> admitted p \<and> e = (m, mq_slot q, pend_command p))" for m q
      by (cases "queue q") auto
    show ?thesis unfolding ready_rejections_def in_dict_map_filter [OF assms] case_prod_conv eq by simp
  qed
  also have "\<dots> \<longleftrightarrow> entry_head qs e \<and> validation_error (snd (snd e)) \<noteq> None"
    by (cases e) (auto simp: entry_head_def)
  finally show ?thesis .
qed

lemma ready_rejections_distinct: "dict_ok qs \<Longrightarrow> distinct (map fst (ready_rejections qs))"
  unfolding ready_rejections_def dict_ok_def by (rule distinct_map_filter_keys) (auto split: list.splits if_splits)

text \<open>What the scheduler hands out.\<close>

definition unit_ok :: "nat \<Rightarrow> queues \<Rightarrow> work_unit \<Rightarrow> queues \<Rightarrow> bool" where
  "unit_ok budget qs u qs' = (case u of
       BatchUnit b \<Rightarrow>
         batch_datums b \<noteq> [] \<and> distinct (map ref_key (batch_datums b)) \<and> set (batch_datums b) \<subseteq> set (ready_datums qs)
         \<and> (\<forall>r\<in>set (batch_datums b). \<forall>r'\<in>set (batch_datums b). pack_key (ref_command r) = pack_key (ref_command r'))
         \<and> (\<forall>r\<in>set (batch_datums b). cmd_op (ref_command r) = batch_op b)
         \<and> (length (batch_datums b) = 1 \<or> unit_tokens (batch_datums b) \<le> budget)
         \<and> (\<forall>r\<in>set (ready_datums qs). ref_arrival (hd (batch_datums b)) \<le> ref_arrival r)
         \<and> work_ok (ref_key ` set (batch_datums b)) qs' \<and> (\<forall>r\<in>set (batch_datums b). ref_ok qs' r)
         \<and> qs' = foldl issue_ref qs (batch_datums b)
     | BarrierUnit op es \<Rightarrow>
         es \<noteq> [] \<and> distinct (map fst es) \<and> (\<forall>e\<in>set es. barrier_head qs e \<and> cmd_op (snd (snd e)) = op) \<and> qs' = qs)"

lemma merge_barriers_ok:
  assumes "dict_ok qs" "e \<in> set (ready_barriers qs)"
  shows "unit_ok budget qs (merge_barriers e (ready_barriers qs)) qs"
proof -
  have "distinct (map fst (filter (\<lambda>x. cmd_op (snd (snd x)) = cmd_op (snd (snd e))) (ready_barriers qs)))"
    using ready_barriers_distinct [OF assms(1)] by (simp add: distinct_map_filter)
  moreover have "filter (\<lambda>x. cmd_op (snd (snd x)) = cmd_op (snd (snd e))) (ready_barriers qs) \<noteq> []"
    using assms(2) by (auto simp: filter_empty_conv)
  ultimately show ?thesis using assms(2) in_ready_barriers [OF assms(1)]
    by (auto simp: unit_ok_def merge_barriers_def Let_def)
qed

lemma pack_batch_ok:
  assumes "work_ok {} qs" "first_min ref_arrival (ready_datums qs) = Some seed"
    "pack_batch budget seed (ready_datums qs) qs = (u, qs')"
  shows "unit_ok budget qs (BatchUnit u) qs'"
proof -
  have s: "seed \<in> set (ready_datums qs)" "\<forall>r\<in>set (ready_datums qs). ref_arrival seed \<le> ref_arrival r"
    using first_min_Some [OF assms(2)] by blast+
  note P = pack_batch_spec [OF assms(1) s(1) assms(3)]
  have "cmd_op (ref_command r) = batch_op u" if "r \<in> set (batch_datums u)" for r
  proof -
    have "pack_key (ref_command r) = pack_key (ref_command seed)" using P that by blast
    then have "cmd_op (ref_command r) = cmd_op (ref_command seed)" by (simp add: pack_key_def)
    then show ?thesis using P by simp
  qed
  moreover have "\<forall>r\<in>set (ready_datums qs). ref_arrival (hd (batch_datums u)) \<le> ref_arrival r"
    using P s(2) by (meson order_trans)
  ultimately show ?thesis unfolding unit_ok_def work_unit.case using P by (intro conjI ballI) (auto simp only:)
qed

lemma schedule_next_ok:
  assumes "work_ok {} qs" "schedule_next budget qs = (Some u, qs')"
  shows "unit_ok budget qs u qs'"
proof -
  have d: "dict_ok qs" using assms(1) by (simp add: work_ok_def)
  have bar: "e \<in> set (ready_barriers qs)" if "first_min entry_arrival (ready_barriers qs) = Some e" for e
    using first_min_Some [OF that] by blast
  let ?b = "first_min entry_arrival (ready_barriers qs)" and ?d = "first_min ref_arrival (ready_datums qs)"
  consider (barrier) e where "?b = Some e" "u = merge_barriers e (ready_barriers qs)" "qs' = qs"
    | (batch) seed b where "?d = Some seed" "u = BatchUnit b" "pack_batch budget seed (ready_datums qs) qs = (b, qs')"
  proof -
    have run: thesis if "?d = Some r" "(let (u, qs') = pack_batch budget r (ready_datums qs) qs in (Some (BatchUnit u), qs')) = (Some u, qs')" for r
    proof -
      obtain b q where pb: "pack_batch budget r (ready_datums qs) qs = (b, q)" by (rule prod.exhaust)
      show thesis by (rule batch [OF that(1), of b]) (use that(2) pb in \<open>simp_all\<close>)
    qed
    show thesis
    proof (cases ?b)
      case None
      show thesis
      proof (cases ?d)
        case D: None
        show thesis using assms(2) None D by (simp add: schedule_next_def)
      next
        case D: (Some r)
        have "schedule_next budget qs
            = (let (u, qs') = pack_batch budget r (ready_datums qs) qs in (Some (BatchUnit u), qs'))"
          unfolding schedule_next_def None D Let_def option.case ..
        with assms(2) show thesis by (intro run [OF D]) (simp only:)
      qed
    next
      case (Some e)
      show thesis
      proof (cases ?d)
        case None
        show thesis by (rule barrier [OF Some]) (use assms(2) Some None in \<open>auto simp: schedule_next_def\<close>)
      next
        case D: (Some r)
        show thesis
        proof (cases "entry_arrival e < ref_arrival r")
          case True
          show thesis by (rule barrier [OF Some]) (use assms(2) Some D True in \<open>auto simp: schedule_next_def\<close>)
        next
          case False
          have "schedule_next budget qs
              = (let (u, qs') = pack_batch budget r (ready_datums qs) qs in (Some (BatchUnit u), qs'))"
            unfolding schedule_next_def Some D Let_def option.case if_not_P [OF False] ..
          with assms(2) show thesis by (intro run [OF D]) (simp only:)
        qed
      qed
    qed
  qed
  then show ?thesis
  proof cases
    case barrier
    then show ?thesis using merge_barriers_ok [OF d bar] by simp
  next
    case batch
    then show ?thesis using pack_batch_ok [OF assms(1)] by simp
  qed
qed

text \<open>Whenever some queue holds an entry there is a rejection to deliver or a unit to run.\<close>

lemma schedule_next_progress:
  assumes w: "work_ok {} qs" and q: "dget qs m = Some q" "queue q \<noteq> []"
  shows "ready_rejections qs \<noteq> [] \<or> fst (schedule_next budget qs) \<noteq> None"
proof -
  have d: "dict_ok qs" using w by (simp add: work_ok_def)
  obtain p ps where p: "queue q = p # ps" using q(2) by (cases "queue q") auto
  have ok: "entry_ok {} p" using w q(1) p by (auto simp: work_ok_def queue_ok_def entries_ok_def)
  have head: "entry_head qs (m, mq_slot q, pend_command p)" using q p by (simp add: entry_head_def)
  show ?thesis
  proof (cases "admitted p")
    case False
    then have "(m, mq_slot q, pend_command p) \<in> set (ready_rejections qs)"
      using head by (simp add: in_ready_rejections [OF d])
    then show ?thesis by auto
  next
    case adm: True
    show ?thesis
    proof (cases "is_batch_op p")
      case False
      then have "(m, mq_slot q, pend_command p) \<in> set (ready_barriers qs)"
        using head adm by (simp add: in_ready_barriers [OF d] barrier_head_def is_batch_op_def)
      then have "first_min entry_arrival (ready_barriers qs) \<noteq> None" by auto
      then show ?thesis unfolding schedule_next_def Let_def
        by (cases "first_min entry_arrival (ready_barriers qs)"; cases "first_min ref_arrival (ready_datums qs)")
          (simp_all add: case_prod_beta)
    next
      case True
      then have live: "live_batch p" using adm by (simp add: live_batch_def)
      then have "p \<in> set (open_batch_run q)" by (simp add: open_batch_run_def p live_batch_def)
      moreover have "num_issued_datums p < length (datums p)" using ok live by (auto simp: entry_ok_def)
      ultimately obtain r where "r \<in> set (ready_datums qs)"
        using q(1) unfolding in_ready_datums [OF d] by blast
      then have "first_min ref_arrival (ready_datums qs) \<noteq> None" by auto
      then show ?thesis unfolding schedule_next_def Let_def
        by (cases "first_min entry_arrival (ready_barriers qs)"; cases "first_min ref_arrival (ready_datums qs)")
          (simp_all add: case_prod_beta)
    qed
  qed
qed

end
