(* ===== verification/TinkerService.thy ===== *)
theory TinkerService
  imports TinkerQueue
begin

text \<open>
  The Tinker gateway (\<open>tinker/core/service.py\<close>, \<open>future.py\<close>): sessions, models and their
  adapter slots, futures with retention, ordered dispatch of the queues of \<open>TinkerQueue\<close> to the
  trainer, sampling requests and the lease sweeper.  The trainer's answers, the clock and the
  checkpoint files are inputs of the steps; \<open>uuid4\<close> identifiers are drawn from a counter.
\<close>

section \<open>Futures\<close>

datatype tinker_result =
    ModelCreated nat
  | BatchDone command_op "datum_output option list"
  | BarrierDone command_op "nat option"
  | Sampled "nat list"

datatype future_state = PENDING | DONE tinker_result | FAILED string string

text \<open>Who answers a future: the creation of a model, a command of a model, or a sampling task.\<close>

datatype fut_owner = ModelCreation nat | CommandOf nat nat | SampleRequest

record tinker_future =
  fut_owner :: fut_owner
  fut_tenant :: string
  fut_state :: future_state
  finished_at :: "real option"

type_synonym futures = "nat \<rightharpoonup> tinker_future"

definition FINISHED_TTL :: real where
  "FINISHED_TTL = 3600"

definition new_future :: "fut_owner \<Rightarrow> string \<Rightarrow> tinker_future" where
  "new_future owner tenant = \<lparr> fut_owner = owner, fut_tenant = tenant, fut_state = PENDING, finished_at = None \<rparr>"

text \<open>\<open>resolve\<close> and \<open>fail\<close>: a settled future keeps its result; an unknown one is a \<open>KeyError\<close>.\<close>

definition settle :: "real \<Rightarrow> future_state \<Rightarrow> nat \<Rightarrow> futures \<Rightarrow> futures res" where
  "settle now st rid fs = (case fs rid of
       None \<Rightarrow> Inl KeyError
     | Some f \<Rightarrow> Inr (if fut_state f \<noteq> PENDING then fs else fs(rid \<mapsto> f\<lparr> fut_state := st, finished_at := Some now \<rparr>)))"

definition sweep :: "real \<Rightarrow> futures \<Rightarrow> futures" where
  "sweep now fs = (\<lambda>rid. case fs rid of None \<Rightarrow> None
     | Some f \<Rightarrow> (case finished_at f of None \<Rightarrow> Some f | Some t \<Rightarrow> if FINISHED_TTL < now - t then None else Some f))"

definition get_future :: "real \<Rightarrow> nat \<Rightarrow> string \<Rightarrow> futures \<Rightarrow> tinker_future option res \<times> futures" where
  "get_future now rid tenant fs =
     (let fs' = sweep now fs in
      (case fs' rid of None \<Rightarrow> Inr None
       | Some f \<Rightarrow> if fut_tenant f \<noteq> tenant then Inl OwnershipError else Inr (Some f), fs'))"

section \<open>The state\<close>

record model_record =
  rec_session :: nat
  rec_tenant :: string
  rec_slot :: nat
  rec_rank :: nat
  create_request :: nat
  request_by_seq :: "(nat, nat) dict"
  slot_initialized :: bool

record session_record =
  sess_tenant :: string
  last_heartbeat :: real
  models_by_seq :: "(nat, nat \<times> nat) dict"
  sampling_by_seq :: "(nat, nat) dict"

record sampling_record =
  samp_tenant :: string
  samp_session :: nat
  samples_by_seq :: "(nat, nat \<times> nat list) dict"

text \<open>The last field is the history of the work handed to the trainer, for the statements below.\<close>

record service =
  futures :: futures
  service_queues :: queues
  models :: "(nat, model_record) dict"
  sessions :: "(nat, session_record) dict"
  sampling_sessions :: "(nat, sampling_record) dict"
  free_slots :: "nat set"
  sample_tasks :: "(nat, nat option \<times> bool) dict"
  close_reasons :: "(nat, string) dict"
  arrival_counter :: nat
  next_id :: nat
  running :: "work_unit option"
  died :: bool
  history :: "(nat \<times> nat \<times> nat option) list"

definition new_service :: "gateway_config \<Rightarrow> service" where
  "new_service cfg = \<lparr> futures = Map.empty, service_queues = [], models = [], sessions = [], sampling_sessions = [],
     free_slots = {0..<n_slots cfg}, sample_tasks = [], close_reasons = [], arrival_counter = 0, next_id = 0,
     running = None, died = False, history = [] \<rparr>"

text \<open>What the trainer answers while models are closed: whether it is dead, which unloads fail.\<close>

record trainer_env =
  trainer_dead :: bool
  unload_fails :: "nat \<Rightarrow> bool"

definition create_future :: "fut_owner \<Rightarrow> string \<Rightarrow> service \<Rightarrow> nat \<times> service" where
  "create_future owner tenant s = (next_id s, s\<lparr> futures := (futures s)(next_id s \<mapsto> new_future owner tenant), next_id := next_id s + 1 \<rparr>)"

definition settle_future :: "real \<Rightarrow> future_state \<Rightarrow> nat \<Rightarrow> service \<Rightarrow> service" where
  "settle_future now st rid s = (case settle now st rid (futures s) of
       Inl _ \<Rightarrow> s\<lparr> died := True \<rparr> | Inr fs \<Rightarrow> s\<lparr> futures := fs \<rparr>)"

definition request_id_for_retry :: "real \<Rightarrow> nat \<Rightarrow> fut_owner \<Rightarrow> string \<Rightarrow> service \<Rightarrow> nat res \<times> service" where
  "request_id_for_retry now rid owner tenant s =
     (let (r, fs) = get_future now rid tenant (futures s); s' = s\<lparr> futures := fs \<rparr> in
      case r of
        Inl e \<Rightarrow> (Inl e, s')
      | Inr (Some _) \<Rightarrow> (Inr rid, s')
      | Inr None \<Rightarrow> (let (replacement, s'') = create_future owner tenant s' in
          (Inr replacement, settle_future now (FAILED ''result expired after retention'' ''user'') replacement s'')))"

section \<open>Closing a model\<close>

text \<open>\<open>while len(d) > n: d.pop(next(iter(d)))\<close>\<close>

definition drop_oldest :: "nat \<Rightarrow> ('k, 'v) dict \<Rightarrow> ('k, 'v) dict" where
  "drop_oldest n d = drop (length d - n) d"

text \<open>The futures of one model, created or submitted; only those still retained are failed.\<close>

definition fail_retained :: "real \<Rightarrow> string \<Rightarrow> string \<Rightarrow> string \<Rightarrow> futures \<Rightarrow> nat \<Rightarrow> futures" where
  "fail_retained now tenant err category fs rid =
     (case get_future now rid tenant fs of
        (Inr (Some _), fs') \<Rightarrow> (case settle now (FAILED err category) rid fs' of Inl _ \<Rightarrow> fs' | Inr fs'' \<Rightarrow> fs'')
      | (_, fs') \<Rightarrow> fs')"

definition model_requests :: "model_record \<Rightarrow> nat list" where
  "model_requests r = create_request r # map snd (request_by_seq r)"

definition close_model ::
  "gateway_config \<Rightarrow> trainer_env \<Rightarrow> real \<Rightarrow> nat \<Rightarrow> string \<Rightarrow> string \<Rightarrow> service \<Rightarrow> service" where
  "close_model cfg env now m err category s = (case dget (models s) m of
       None \<Rightarrow> s
     | Some r \<Rightarrow>
         s\<lparr> models := ddel (models s) m,
            close_reasons := drop_oldest (4 * n_slots cfg) (dset (close_reasons s) m err),
            service_queues := ddel (service_queues s) m,
            futures := foldl (fail_retained now (rec_tenant r) err category) (futures s) (model_requests r),
            free_slots := (if trainer_dead env then free_slots s
              else if slot_initialized r \<and> unload_fails env (rec_slot r) then free_slots s
              else insert (rec_slot r) (free_slots s)) \<rparr>)"

text \<open>\<open>_finish_request\<close>: an error of an operation that spoils the weights closes the model.\<close>

definition finish_request ::
  "gateway_config \<Rightarrow> trainer_env \<Rightarrow> real \<Rightarrow> nat \<Rightarrow> command \<Rightarrow> (string \<times> string) + tinker_result \<Rightarrow> service \<Rightarrow> service" where
  "finish_request cfg env now m c outcome s =
     (let retire = (\<lambda>s. s\<lparr> service_queues := update_queue m (\<lambda>q. mq_finish q (seq_id c)) (service_queues s) \<rparr>) in
      case outcome of
        Inl (err, category) \<Rightarrow>
          (if requires_model_close_on_failure (cmd_op c) then close_model cfg env now m err category s
           else retire (settle_future now (FAILED err category) (request_id c) s))
      | Inr result \<Rightarrow> retire (settle_future now (DONE result) (request_id c) s))"

section \<open>Sessions and models\<close>

definition create_session :: "real \<Rightarrow> string \<Rightarrow> service \<Rightarrow> nat \<times> service" where
  "create_session now tenant s = (next_id s, s\<lparr> sessions := dset (sessions s) (next_id s)
     \<lparr> sess_tenant = tenant, last_heartbeat = now, models_by_seq = [], sampling_by_seq = [] \<rparr>, next_id := next_id s + 1 \<rparr>)"

definition session_for :: "string \<Rightarrow> nat \<Rightarrow> service \<Rightarrow> session_record res" where
  "session_for tenant sid s = (case dget (sessions s) sid of
       None \<Rightarrow> Inl UserInputError
     | Some x \<Rightarrow> if sess_tenant x \<noteq> tenant then Inl UserInputError else Inr x)"

definition heartbeat :: "real \<Rightarrow> string \<Rightarrow> nat \<Rightarrow> service \<Rightarrow> bool \<times> service" where
  "heartbeat now tenant sid s = (case session_for tenant sid s of
       Inl _ \<Rightarrow> (False, s)
     | Inr x \<Rightarrow> (True, s\<lparr> sessions := dset (sessions s) sid (x\<lparr> last_heartbeat := now \<rparr>) \<rparr>))"

record create_payload =
  cp_session :: nat
  cp_model_seq :: wire
  cp_base_model :: string
  cp_lora :: lora_config

definition create_model :: "gateway_config \<Rightarrow> real \<Rightarrow> string \<Rightarrow> create_payload \<Rightarrow> service \<Rightarrow> (nat \<times> nat) res \<times> service" where
  "create_model cfg now tenant p s = (case session_for tenant (cp_session p) s of
       Inl e \<Rightarrow> (Inl e, s)
     | Inr x \<Rightarrow> (case validate_seq_id (cp_model_seq p) 0 of
         Inl e \<Rightarrow> (Inl e, s)
       | Inr seq \<Rightarrow> (case dget (models_by_seq x) seq of
           Some (rid, m) \<Rightarrow> (case request_id_for_retry now rid (ModelCreation m) tenant s of
               (Inl e, s') \<Rightarrow> (Inl e, s')
             | (Inr rid', s') \<Rightarrow> (Inr (rid', m), s'\<lparr> sessions := dset (sessions s') (cp_session p)
                 (x\<lparr> models_by_seq := dset (models_by_seq x) seq (rid', m) \<rparr>) \<rparr>))
         | None \<Rightarrow>
             if cp_base_model p \<noteq> config_base_model cfg then (Inl UserInputError, s)
             else (case validate_model_config (cp_lora p) cfg of
               Inl e \<Rightarrow> (Inl e, s)
             | Inr rank \<Rightarrow>
                 if free_slots s = {} then (Inl UserInputError, s)
                 else (let slot = Min (free_slots s); m = next_id s;
                         (rid, s1) = create_future (ModelCreation m) tenant (s\<lparr> free_slots := free_slots s - {slot}, next_id := m + 1 \<rparr>);
                         r = \<lparr> rec_session = cp_session p, rec_tenant = tenant, rec_slot = slot, rec_rank = rank,
                               create_request = rid, request_by_seq = [], slot_initialized = False \<rparr> in
                   (Inr (rid, m), s1\<lparr> models := dset (models s1) m r,
                      service_queues := dset (service_queues s1) m (new_model_queue tenant slot),
                      sessions := dset (sessions s1) (cp_session p)
                        (x\<lparr> models_by_seq := dset (models_by_seq x) seq (rid, m) \<rparr>) \<rparr>))))))"

text \<open>\<open>_run_create_model\<close>; \<open>failure\<close> is what loading the slot answered.\<close>

definition run_create_model ::
  "gateway_config \<Rightarrow> trainer_env \<Rightarrow> real \<Rightarrow> nat \<Rightarrow> string option \<Rightarrow> service \<Rightarrow> service" where
  "run_create_model cfg env now m failure s = (case dget (models s) m of
       None \<Rightarrow> s
     | Some r \<Rightarrow>
         if slot_initialized r then s
         else (let s1 = s\<lparr> models := dset (models s) m (r\<lparr> slot_initialized := True \<rparr>) \<rparr> in
           case failure of
             Some err \<Rightarrow> close_model cfg env now m err ''server'' s1
           | None \<Rightarrow> settle_future now (DONE (ModelCreated m)) (create_request r) s1))"

definition get_model :: "string \<Rightarrow> nat \<Rightarrow> service \<Rightarrow> model_record res" where
  "get_model tenant m s = (case dget (models s) m of
       None \<Rightarrow> Inl UserInputError
     | Some r \<Rightarrow> if rec_tenant r \<noteq> tenant then Inl OwnershipError else Inr r)"

section \<open>Submitting commands\<close>

record submit_payload =
  sp_model :: nat
  sp_seq :: wire
  sp_batch :: batch_payload
  sp_error :: "string option"

definition submit ::
  "gateway_config \<Rightarrow> real \<Rightarrow> string \<Rightarrow> command_op option \<Rightarrow> submit_payload \<Rightarrow> service \<Rightarrow> nat res \<times> service" where
  "submit cfg now tenant op_name p s = (case op_name of
       None \<Rightarrow> (Inl UserInputError, s)
     | Some op \<Rightarrow> (case get_model tenant (sp_model p) s of
         Inl e \<Rightarrow> (Inl e, s)
       | Inr r \<Rightarrow> (case validate_seq_id (sp_seq p) 1 of
           Inl e \<Rightarrow> (Inl e, s)
         | Inr seq \<Rightarrow> (case dget (request_by_seq r) seq of
             Some rid \<Rightarrow> (case request_id_for_retry now rid (CommandOf (sp_model p) seq) tenant s of
                 (Inl e, s') \<Rightarrow> (Inl e, s')
               | (Inr rid', s') \<Rightarrow> (Inr rid', s'\<lparr> models := dset (models s') (sp_model p)
                   (r\<lparr> request_by_seq := dset (request_by_seq r) seq rid' \<rparr>) \<rparr>))
           | None \<Rightarrow>
               (let (rid, s1) = create_future (CommandOf (sp_model p) seq) tenant s;
                    err = (case sp_error p of Some e \<Rightarrow> Some e | None \<Rightarrow> validate_batch_payload op (sp_batch p) cfg);
                    c = \<lparr> cmd_model = sp_model p, seq_id = seq, cmd_op = op, payload = sp_batch p, request_id = rid,
                          arrival = arrival_counter s + 1, validation_error = err \<rparr> in
                (Inr rid, s1\<lparr> models := dset (models s1) (sp_model p) (r\<lparr> request_by_seq := dset (request_by_seq r) seq rid \<rparr>),
                   arrival_counter := arrival_counter s + 1,
                   service_queues := update_queue (sp_model p) (\<lambda>q. mq_submit q c) (service_queues s1) \<rparr>))))))"

section \<open>Dispatch\<close>

definition unit_keys :: "work_unit \<Rightarrow> (nat \<times> nat \<times> nat option) list" where
  "unit_keys u = (case u of
       BatchUnit b \<Rightarrow> map (\<lambda>r. (ref_model r, seq_id (ref_command r), Some (local_index r))) (batch_datums b)
     | BarrierUnit _ es \<Rightarrow> map (\<lambda>(m, _, c). (m, seq_id c, None)) es)"

text \<open>One turn of the dispatcher up to the call of the trainer, under the trainer lock.\<close>

definition dispatch :: "gateway_config \<Rightarrow> trainer_env \<Rightarrow> real \<Rightarrow> service \<Rightarrow> service" where
  "dispatch cfg env now s =
     (case ready_rejections (service_queues s) of
        [] \<Rightarrow> (case schedule_next (batch_token_budget cfg) (service_queues s) of
            (None, _) \<Rightarrow> s
          | (Some u, qs) \<Rightarrow> s\<lparr> service_queues := qs, running := Some u, history := history s @ unit_keys u \<rparr>)
      | rejections \<Rightarrow> foldl (\<lambda>s (m, _, c). finish_request cfg env now m c
            (Inl (case validation_error c of None \<Rightarrow> [] | Some e \<Rightarrow> e, ''user'')) s) s rejections)"

datatype batch_outcome = BatchFailed string string | BatchOutputs "datum_output list"

text \<open>Recording one output; the request is settled with its last one.\<close>

definition find_entry :: "nat \<Rightarrow> nat \<Rightarrow> service \<Rightarrow> pending_request option" where
  "find_entry m seq s = (case dget (service_queues s) m of
       None \<Rightarrow> None | Some q \<Rightarrow> find (\<lambda>p. pend_seq p = seq) (queue q))"

definition record_ref ::
  "gateway_config \<Rightarrow> trainer_env \<Rightarrow> real \<Rightarrow> service \<Rightarrow> datum_ref \<times> datum_output \<Rightarrow> service" where
  "record_ref cfg env now s x =
     (let r = fst x; m = ref_model r; seq = seq_id (ref_command r) in
      case find_entry m seq s of
        None \<Rightarrow> s\<lparr> died := True \<rparr>
      | Some p \<Rightarrow> (case record_output p (local_index r) (snd x) of (p', finished) \<Rightarrow>
          let s1 = s\<lparr> service_queues := update_queue m (update_entry seq (\<lambda>_. p')) (service_queues s) \<rparr> in
          if finished
          then finish_request cfg env now m (ref_command r) (Inr (BatchDone (cmd_op (ref_command r)) (outputs p'))) s1
          else s1))"

text \<open>\<open>_fail_batch\<close>: each request of the batch once, in order of first appearance.\<close>

definition batch_requests :: "datum_ref list \<Rightarrow> (nat \<times> nat \<times> command) list" where
  "batch_requests refs = map snd (dupdate [] (map (\<lambda>r. (request_id (ref_command r), (ref_model r, ref_slot r, ref_command r))) refs))"

definition run_batch ::
  "gateway_config \<Rightarrow> trainer_env \<Rightarrow> real \<Rightarrow> batch_unit \<Rightarrow> batch_outcome \<Rightarrow> service \<Rightarrow> service" where
  "run_batch cfg env now u outcome s =
     (let refs = sort_key ref_slot (batch_datums u) in
      case outcome of
        BatchFailed err category \<Rightarrow>
          foldl (\<lambda>s (m, _, c). finish_request cfg env now m c (Inl (err, category)) s) s (batch_requests (batch_datums u))
      | BatchOutputs xs \<Rightarrow>
          if length xs \<noteq> length refs then s\<lparr> died := True \<rparr>
          else foldl (record_ref cfg env now) s (zip refs xs))"

text \<open>
  The outcome of one barrier entry: an error with its category, or success, where saving
  unnamed sampler weights also opens a sampling session.
\<close>

datatype barrier_outcome = BarrierFailed string string | BarrierOk | SamplerSaved

definition new_sampling_session :: "string \<Rightarrow> nat \<Rightarrow> service \<Rightarrow> nat \<times> service" where
  "new_sampling_session tenant sid s = (next_id s, s\<lparr> sampling_sessions := dset (sampling_sessions s) (next_id s)
     \<lparr> samp_tenant = tenant, samp_session = sid, samples_by_seq = [] \<rparr>, next_id := next_id s + 1 \<rparr>)"

definition finish_barrier ::
  "gateway_config \<Rightarrow> trainer_env \<Rightarrow> real \<Rightarrow> service \<Rightarrow> barrier_entry \<times> barrier_outcome \<Rightarrow> service" where
  "finish_barrier cfg env now s x = (case x of ((m, _, c), outcome) \<Rightarrow>
     (case outcome of
        BarrierFailed err category \<Rightarrow> finish_request cfg env now m c (Inl (err, category)) s
      | BarrierOk \<Rightarrow> finish_request cfg env now m c (Inr (BarrierDone (cmd_op c) None)) s
      | SamplerSaved \<Rightarrow>
          if cmd_op c \<noteq> SAVE_WEIGHTS_FOR_SAMPLER then finish_request cfg env now m c (Inr (BarrierDone (cmd_op c) None)) s
          else (case dget (models s) m of
            None \<Rightarrow> s\<lparr> died := True \<rparr>
          | Some r \<Rightarrow> (case new_sampling_session (rec_tenant r) (rec_session r) s of (sid, s1) \<Rightarrow>
              finish_request cfg env now m c (Inr (BarrierDone (cmd_op c) (Some sid))) s1))))"

definition run_barrier ::
  "gateway_config \<Rightarrow> trainer_env \<Rightarrow> real \<Rightarrow> barrier_entry list \<Rightarrow> barrier_outcome list \<Rightarrow> service \<Rightarrow> service" where
  "run_barrier cfg env now es outcomes s =
     (if length outcomes \<noteq> length es then s\<lparr> died := True \<rparr>
      else foldl (finish_barrier cfg env now) s (zip es outcomes))"

text \<open>The trainer answers the running unit; a dead trainer stops the service.\<close>

definition unit_ends ::
  "gateway_config \<Rightarrow> trainer_env \<Rightarrow> real \<Rightarrow> batch_outcome \<Rightarrow> barrier_outcome list \<Rightarrow> service \<Rightarrow> service" where
  "unit_ends cfg env now batch_out barrier_out s = (case running s of
       None \<Rightarrow> s
     | Some u \<Rightarrow>
         (let s1 = (case u of
              BatchUnit b \<Rightarrow> run_batch cfg env now b batch_out (s\<lparr> running := None \<rparr>)
            | BarrierUnit _ es \<Rightarrow> run_barrier cfg env now es barrier_out (s\<lparr> running := None \<rparr>)) in
          if trainer_dead env then s1\<lparr> died := True \<rparr> else s1))"

section \<open>Sampling\<close>

record sampling_payload =
  smp_session :: nat
  smp_base_model :: "string option"
  smp_seq :: wire

text \<open>\<open>path_ok\<close>: the checkpoint behind the requested path exists and belongs to the tenant.\<close>

definition create_sampling_session ::
  "gateway_config \<Rightarrow> string \<Rightarrow> sampling_payload \<Rightarrow> unit res \<Rightarrow> service \<Rightarrow> nat res \<times> service" where
  "create_sampling_session cfg tenant p path_ok s = (case session_for tenant (smp_session p) s of
       Inl e \<Rightarrow> (Inl e, s)
     | Inr x \<Rightarrow>
         if smp_base_model p \<notin> {None, Some (config_base_model cfg)} then (Inl UserInputError, s)
         else (case validate_seq_id (smp_seq p) 0 of
           Inl e \<Rightarrow> (Inl e, s)
         | Inr seq \<Rightarrow> (case dget (sampling_by_seq x) seq of
             Some sid \<Rightarrow> (Inr sid, s)
           | None \<Rightarrow> (case path_ok of
               Inl e \<Rightarrow> (Inl e, s)
             | Inr _ \<Rightarrow> (let (sid, s1) = new_sampling_session tenant (smp_session p) s in
                 (Inr sid, s1\<lparr> sessions := dset (sessions s1) (smp_session p)
                    (x\<lparr> sampling_by_seq := dset (sampling_by_seq x) seq sid \<rparr>) \<rparr>))))))"

record sample_payload =
  sam_base_model :: "string option"
  sam_session :: "nat option"
  sam_seq :: wire
  sam_prompt :: "wire list"
  sam_count :: wire
  sam_topk :: wire

definition validate_sample_payload :: "sample_payload \<Rightarrow> gateway_config \<Rightarrow> nat res" where
  "validate_sample_payload p cfg =
     (if check_tokens (sam_prompt p) (vocab_size cfg) \<noteq> None then Inl UserInputError
      else (case sam_count p of
          WireInt n \<Rightarrow>
            if 1 \<le> n \<and> n \<le> int (max_samples_per_request cfg)
            then (case sam_topk p of WireInt k \<Rightarrow> if k < 0 then Inl UserInputError else Inr (nat n) | _ \<Rightarrow> Inl UserInputError)
            else Inl UserInputError
        | _ \<Rightarrow> Inl UserInputError))"

definition start_sample ::
  "string \<Rightarrow> nat option \<Rightarrow> nat \<Rightarrow> service \<Rightarrow> (nat \<times> nat list) \<times> service" where
  "start_sample tenant session n s =
     (let (rid, s1) = create_future SampleRequest tenant s; ids = [next_id s1..<next_id s1 + n] in
      ((rid, ids), s1\<lparr> next_id := next_id s1 + n, sample_tasks := dset (sample_tasks s1) rid (session, False) \<rparr>))"

definition submit_sample ::
  "gateway_config \<Rightarrow> real \<Rightarrow> string \<Rightarrow> sample_payload \<Rightarrow> unit res \<Rightarrow> service \<Rightarrow> (nat \<times> nat list) res \<times> service" where
  "submit_sample cfg now tenant p path_ok s =
     (let fresh = (\<lambda>session s. case validate_sample_payload p cfg of
            Inl e \<Rightarrow> (Inl e, s)
          | Inr n \<Rightarrow> (case path_ok of Inl e \<Rightarrow> (Inl e, s)
              | Inr _ \<Rightarrow> (case start_sample tenant session n s of (x, s') \<Rightarrow> (Inr x, s')))) in
      if sam_base_model p \<notin> {None, Some (config_base_model cfg)} then (Inl UserInputError, s)
      else (case sam_session p of
          None \<Rightarrow> fresh None s
        | Some sid \<Rightarrow> (case dget (sampling_sessions s) sid of
            None \<Rightarrow> (Inl UserInputError, s)
          | Some y \<Rightarrow>
              if samp_tenant y \<noteq> tenant then (Inl OwnershipError, s)
              else (case validate_seq_id (sam_seq p) 0 of
                Inl e \<Rightarrow> (Inl e, s)
              | Inr seq \<Rightarrow> (case dget (samples_by_seq y) seq of
                  Some (rid, ids) \<Rightarrow> (case request_id_for_retry now rid SampleRequest tenant s of
                      (Inl e, s') \<Rightarrow> (Inl e, s')
                    | (Inr rid', s') \<Rightarrow> (Inr (rid', ids), s'\<lparr> sampling_sessions := dset (sampling_sessions s') sid
                        (y\<lparr> samples_by_seq := dset (samples_by_seq y) seq (rid', ids) \<rparr>) \<rparr>))
                | None \<Rightarrow> (case fresh (Some (samp_session y)) s of
                      (Inl e, s') \<Rightarrow> (Inl e, s')
                    | (Inr x, s') \<Rightarrow> (Inr x, s'\<lparr> sampling_sessions := dset (sampling_sessions s') sid
                        (y\<lparr> samples_by_seq := dset (samples_by_seq y) seq x \<rparr>) \<rparr>)))))))"

text \<open>\<open>_run_sample\<close> ends: the engine's error with its category, or the sampled ids.\<close>

definition sample_ends :: "real \<Rightarrow> nat \<Rightarrow> (string \<times> string) + nat list \<Rightarrow> service \<Rightarrow> service" where
  "sample_ends now rid outcome s = (case dget (sample_tasks s) rid of
       None \<Rightarrow> s
     | Some (session, cancelled) \<Rightarrow>
         (let st = (if cancelled then FAILED ''cancelled'' ''user''
                    else case outcome of Inl (err, category) \<Rightarrow> FAILED err category | Inr ids \<Rightarrow> DONE (Sampled ids)) in
          (settle_future now st rid s)\<lparr> sample_tasks := ddel (sample_tasks s) rid \<rparr>))"

definition cancel_sample :: "real \<Rightarrow> string \<Rightarrow> nat \<Rightarrow> service \<Rightarrow> service" where
  "cancel_sample now tenant rid s =
     (let (r, fs) = get_future now rid tenant (futures s); s1 = s\<lparr> futures := fs \<rparr> in
      case r of
        Inr (Some _) \<Rightarrow> (case dget (sample_tasks s1) rid of
            None \<Rightarrow> s1
          | Some (session, _) \<Rightarrow> s1\<lparr> sample_tasks := dset (sample_tasks s1) rid (session, True) \<rparr>)
      | _ \<Rightarrow> s1)"

section \<open>Leases\<close>

definition expire_sample :: "nat set \<Rightarrow> real \<Rightarrow> service \<Rightarrow> nat \<times> nat option \<times> bool \<Rightarrow> service" where
  "expire_sample expired now s x = (case x of (rid, session, _) \<Rightarrow>
     (case session of
        None \<Rightarrow> s
      | Some sid \<Rightarrow>
          if sid \<in> expired
          then (settle_future now (FAILED ''lease expired'' ''user'') rid s)\<lparr>
                  sample_tasks := dset (sample_tasks s) rid (session, True) \<rparr>
          else s))"

definition expire_model ::
  "gateway_config \<Rightarrow> trainer_env \<Rightarrow> real \<Rightarrow> nat set \<Rightarrow> service \<Rightarrow> nat \<times> model_record \<Rightarrow> service" where
  "expire_model cfg env now expired s x = (case x of (m, r) \<Rightarrow>
     if rec_session r \<in> expired then close_model cfg env now m ''lease expired'' ''user'' s else s)"

definition expired_sessions :: "gateway_config \<Rightarrow> real \<Rightarrow> service \<Rightarrow> nat set" where
  "expired_sessions cfg now s =
     fst ` set (filter (\<lambda>(sid, x). lease_timeout cfg \<le> now - last_heartbeat x) (sessions s))"

definition expire_sessions :: "gateway_config \<Rightarrow> trainer_env \<Rightarrow> real \<Rightarrow> service \<Rightarrow> service" where
  "expire_sessions cfg env now s =
     (let expired = expired_sessions cfg now s;
          s1 = s\<lparr> sessions := filter (\<lambda>(sid, x). sid \<notin> expired) (sessions s),
                  sampling_sessions := filter (\<lambda>(k, y). samp_session y \<notin> expired) (sampling_sessions s) \<rparr>;
          s2 = foldl (expire_sample expired now) s1 (sample_tasks s1) in
      foldl (expire_model cfg env now expired) s2 (models s2))"

section \<open>The service as a machine\<close>

text \<open>
  What can happen to the service, each with the time it happens at.  Dispatch, model creation
  and the sweeper hold the trainer lock, so they wait while a unit is running; requests do not.
\<close>

datatype service_event =
    CreatesSession string
  | Heartbeats string nat
  | CreatesModel string create_payload
  | SlotLoaded nat "string option"
  | Submits string "command_op option" submit_payload
  | Retrieves string nat
  | Dispatches
  | UnitEnds batch_outcome "barrier_outcome list"
  | CreatesSampling string sampling_payload "unit res"
  | SubmitsSample string sample_payload "unit res"
  | SampleEnds nat "(string \<times> string) + nat list"
  | Cancels string nat
  | Sweeps

definition service_step ::
  "gateway_config \<Rightarrow> service \<Rightarrow> trainer_env \<times> real \<times> service_event \<Rightarrow> service" where
  "service_step cfg s x = (case x of (env, now, ev) \<Rightarrow>
     if died s then s
     else case ev of
       CreatesSession tenant \<Rightarrow> snd (create_session now tenant s)
     | Heartbeats tenant sid \<Rightarrow> snd (heartbeat now tenant sid s)
     | CreatesModel tenant p \<Rightarrow> snd (create_model cfg now tenant p s)
     | SlotLoaded m failure \<Rightarrow> if running s = None then run_create_model cfg env now m failure s else s
     | Submits tenant op p \<Rightarrow> snd (submit cfg now tenant op p s)
     | Retrieves tenant rid \<Rightarrow> s\<lparr> futures := snd (get_future now rid tenant (futures s)) \<rparr>
     | Dispatches \<Rightarrow> if running s = None then dispatch cfg env now s else s
     | UnitEnds batch_out barrier_out \<Rightarrow> unit_ends cfg env now batch_out barrier_out s
     | CreatesSampling tenant p path_ok \<Rightarrow> snd (create_sampling_session cfg tenant p path_ok s)
     | SubmitsSample tenant p path_ok \<Rightarrow> snd (submit_sample cfg now tenant p path_ok s)
     | SampleEnds rid outcome \<Rightarrow> sample_ends now rid outcome s
     | Cancels tenant rid \<Rightarrow> cancel_sample now tenant rid s
     | Sweeps \<Rightarrow> if running s = None then expire_sessions cfg env now s else s)"

end
