(* ===== verification/TinkerInvariants.thy ===== *)
theory TinkerInvariants
  imports TinkerService
begin

text \<open>
  What holds of the Tinker gateway of \<open>TinkerService\<close> under every interleaving of requests,
  trainer answers and sweeps: slots are exclusive, every pending future is still owed by
  someone, commands run in order and once, and the dispatcher never sleeps on work.
\<close>

section \<open>Invariants of the service\<close>

definition owner_model :: "fut_owner \<Rightarrow> nat option" where
  "owner_model w = (case w of ModelCreation m \<Rightarrow> Some m | CommandOf m _ \<Rightarrow> Some m | SampleRequest \<Rightarrow> None)"

text \<open>The future \<open>rid\<close> is pending, with this owner and tenant.\<close>

definition awaiting :: "futures \<Rightarrow> nat \<Rightarrow> fut_owner \<Rightarrow> string \<Rightarrow> bool" where
  "awaiting fs rid w tenant \<longleftrightarrow> (\<exists>f. fs rid = Some f \<and> fut_state f = PENDING \<and> fut_owner f = w \<and> fut_tenant f = tenant)"

definition futures_wf :: "futures \<Rightarrow> bool" where
  "futures_wf fs \<longleftrightarrow> (\<forall>rid f. fs rid = Some f \<longrightarrow> (fut_state f = PENDING \<longleftrightarrow> finished_at f = None))"

text \<open>The owner of a future still has it in hand.\<close>

definition owed :: "service \<Rightarrow> nat \<Rightarrow> fut_owner \<Rightarrow> bool" where
  "owed s rid w \<longleftrightarrow> (case w of
       ModelCreation m \<Rightarrow> (\<exists>r. dget (models s) m = Some r \<and> \<not> slot_initialized r \<and> create_request r = rid)
     | CommandOf m k \<Rightarrow> (\<exists>q. dget (service_queues s) m = Some q \<and> (\<exists>c\<in>commands q. seq_id c = k \<and> request_id c = rid))
     | SampleRequest \<Rightarrow> rid \<in> set (dkeys (sample_tasks s)))"

definition futures_ok :: "service \<Rightarrow> bool" where
  "futures_ok s \<longleftrightarrow> futures_wf (futures s)
     \<and> (\<forall>rid f. futures s rid = Some f \<longrightarrow> rid < next_id s \<and> (fut_state f = PENDING \<longrightarrow> owed s rid (fut_owner f)))"

definition commands_await :: "service \<Rightarrow> bool" where
  "commands_await s \<longleftrightarrow> (\<forall>m q c. dget (service_queues s) m = Some q \<longrightarrow> c \<in> commands q
     \<longrightarrow> awaiting (futures s) (request_id c) (CommandOf m (seq_id c)) (mq_tenant q))"

definition creations_await :: "service \<Rightarrow> bool" where
  "creations_await s \<longleftrightarrow> (\<forall>m r. dget (models s) m = Some r \<longrightarrow> \<not> slot_initialized r
     \<longrightarrow> awaiting (futures s) (create_request r) (ModelCreation m) (rec_tenant r))"

definition slots_ok :: "gateway_config \<Rightarrow> service \<Rightarrow> bool" where
  "slots_ok cfg s \<longleftrightarrow> dict_ok (models s) \<and> free_slots s \<subseteq> {0..<n_slots cfg}
     \<and> (\<forall>m. dget (models s) m = None \<longleftrightarrow> dget (service_queues s) m = None)
     \<and> (\<forall>m r q. dget (models s) m = Some r \<longrightarrow> dget (service_queues s) m = Some q
          \<longrightarrow> mq_slot q = rec_slot r \<and> mq_tenant q = rec_tenant r)
     \<and> (\<forall>m r. dget (models s) m = Some r \<longrightarrow> m < next_id s \<and> rec_slot r < n_slots cfg \<and> rec_slot r \<notin> free_slots s)
     \<and> (\<forall>m m' r r'. dget (models s) m = Some r \<longrightarrow> dget (models s) m' = Some r' \<longrightarrow> rec_slot r = rec_slot r' \<longrightarrow> m = m')"

lemma slots_okI:
  assumes "dict_ok (models s)" "free_slots s \<subseteq> {0..<n_slots cfg}"
    "\<And>m. dget (models s) m = None \<longleftrightarrow> dget (service_queues s) m = None"
    "\<And>m r q. dget (models s) m = Some r \<Longrightarrow> dget (service_queues s) m = Some q \<Longrightarrow> mq_slot q = rec_slot r \<and> mq_tenant q = rec_tenant r"
    "\<And>m r. dget (models s) m = Some r \<Longrightarrow> m < next_id s \<and> rec_slot r < n_slots cfg \<and> rec_slot r \<notin> free_slots s"
    "\<And>m m' r r'. dget (models s) m = Some r \<Longrightarrow> dget (models s) m' = Some r' \<Longrightarrow> rec_slot r = rec_slot r' \<Longrightarrow> m = m'"
  shows "slots_ok cfg s"
  unfolding slots_ok_def using assms by blast

lemma slots_okD:
  assumes "slots_ok cfg s"
  shows "dict_ok (models s)" "free_slots s \<subseteq> {0..<n_slots cfg}"
    "dget (models s) m = None \<longleftrightarrow> dget (service_queues s) m = None"
    "dget (models s) m = Some r \<Longrightarrow> dget (service_queues s) m = Some q \<Longrightarrow> mq_slot q = rec_slot r \<and> mq_tenant q = rec_tenant r"
    "dget (models s) m = Some r \<Longrightarrow> m < next_id s \<and> rec_slot r < n_slots cfg \<and> rec_slot r \<notin> free_slots s"
    "dget (models s) m = Some r \<Longrightarrow> dget (models s) m' = Some r' \<Longrightarrow> rec_slot r = rec_slot r' \<Longrightarrow> m = m'"
  using assms unfolding slots_ok_def by blast+

text \<open>The requests a model remembers: those of its waiting commands, and every sequence id it admitted.\<close>

definition requests_ok :: "service \<Rightarrow> bool" where
  "requests_ok s \<longleftrightarrow> (\<forall>m r q. dget (models s) m = Some r \<longrightarrow> dget (service_queues s) m = Some q
     \<longrightarrow> (\<forall>c\<in>commands q. dget (request_by_seq r) (seq_id c) = Some (request_id c))
       \<and> (\<forall>k. 1 \<le> k \<longrightarrow> k \<le> last_enqueued_seq_id q \<longrightarrow> dget (request_by_seq r) k \<noteq> None))"

definition records_ok :: "service \<Rightarrow> bool" where
  "records_ok s \<longleftrightarrow> (\<forall>m r rid. dget (models s) m = Some r \<longrightarrow> rid \<in> set (model_requests r)
     \<longrightarrow> rid < next_id s \<and> (\<forall>f. futures s rid = Some f \<longrightarrow> owner_model (fut_owner f) = Some m))"

text \<open>
  The work handed to the trainer so far, next to an entry that still waits: nothing beyond a
  barrier has been handed out, a barrier that was handed out is gone unless it is in progress
  (\<open>R\<close>), and of a batch request exactly the issued datums have been handed out.
\<close>

definition entry_after :: "(nat \<times> nat) set \<Rightarrow> nat \<times> nat \<times> nat option \<Rightarrow> pending_request \<Rightarrow> bool" where
  "entry_after R h p \<longleftrightarrow> (case h of (m, k, x) \<Rightarrow>
     (\<not> live_batch p \<or> x = None \<longrightarrow> k \<le> pend_seq p \<and> (k = pend_seq p \<longrightarrow> (m, k) \<in> R))
     \<and> (live_batch p \<and> pend_seq p = k \<longrightarrow> (\<exists>i. x = Some i \<and> i < num_issued_datums p)))"

definition before :: "nat \<times> nat \<times> nat option \<Rightarrow> nat \<times> nat \<times> nat option \<Rightarrow> bool" where
  "before h h' \<longleftrightarrow> h \<noteq> h' \<and> (fst h = fst h' \<and> (snd (snd h) = None \<or> snd (snd h') = None) \<longrightarrow> fst (snd h) < fst (snd h'))"

definition history_ok :: "(nat \<times> nat) set \<Rightarrow> service \<Rightarrow> bool" where
  "history_ok R s \<longleftrightarrow> sorted_wrt before (history s)
     \<and> (\<forall>h\<in>set (history s). fst h < next_id s \<and> (\<forall>q. dget (service_queues s) (fst h) = Some q
          \<longrightarrow> fst (snd h) \<le> last_enqueued_seq_id q \<and> (\<forall>p\<in>set (queue q). entry_after R h p)))"

definition core_inv :: "gateway_config \<Rightarrow> datum_key set \<Rightarrow> (nat \<times> nat) set \<Rightarrow> service \<Rightarrow> bool" where
  "core_inv cfg W R s \<longleftrightarrow> work_ok W (service_queues s) \<and> slots_ok cfg s \<and> requests_ok s \<and> records_ok s
     \<and> futures_ok s \<and> commands_await s \<and> creations_await s \<and> history_ok R s \<and> \<not> died s"

definition inflight :: "work_unit option \<Rightarrow> datum_key set" where
  "inflight u = (case u of Some (BatchUnit b) \<Rightarrow> ref_key ` set (batch_datums b) | _ \<Rightarrow> {})"

definition in_progress :: "work_unit option \<Rightarrow> (nat \<times> nat) set" where
  "in_progress u = (case u of Some (BarrierUnit _ es) \<Rightarrow> (\<lambda>(m, _, c). (m, seq_id c)) ` set es | _ \<Rightarrow> {})"

definition running_ok :: "service \<Rightarrow> bool" where
  "running_ok s \<longleftrightarrow> (case running s of
       None \<Rightarrow> True
     | Some (BatchUnit b) \<Rightarrow> distinct (map ref_key (batch_datums b))
         \<and> (\<forall>r\<in>set (batch_datums b). ref_ok (service_queues s) r)
     | Some (BarrierUnit _ es) \<Rightarrow> distinct (map fst es) \<and> (\<forall>e\<in>set es. barrier_head (service_queues s) e))"

definition service_inv :: "gateway_config \<Rightarrow> service \<Rightarrow> bool" where
  "service_inv cfg s \<longleftrightarrow> core_inv cfg (inflight (running s)) (in_progress (running s)) s \<and> running_ok s"

section \<open>Futures under sweeping and settling\<close>

lemma sweep_pending: "futures_wf fs \<Longrightarrow> fs rid = Some f \<Longrightarrow> fut_state f = PENDING \<Longrightarrow> sweep now fs rid = Some f"
  by (simp add: sweep_def futures_wf_def)

lemma sweep_old: "sweep now fs rid = Some f \<Longrightarrow> fs rid = Some f"
  by (auto simp: sweep_def split: option.splits if_splits)

lemma sweep_wf: "futures_wf fs \<Longrightarrow> futures_wf (sweep now fs)"
  unfolding futures_wf_def using sweep_old by blast

lemma awaiting_sweep: "futures_wf fs \<Longrightarrow> awaiting fs rid w t \<Longrightarrow> awaiting (sweep now fs) rid w t"
  unfolding awaiting_def using sweep_pending by blast

lemma snd_get_future [simp]: "snd (get_future now rid tenant fs) = sweep now fs"
  by (simp add: get_future_def Let_def)

lemma settle_Inr:
  assumes "fs rid = Some f" "fut_state f = PENDING" "st \<noteq> PENDING"
  shows "settle now st rid fs = Inr (fs(rid \<mapsto> f\<lparr> fut_state := st, finished_at := Some now \<rparr>))"
  using assms by (simp add: settle_def)

text \<open>Failing the retained requests of a model.\<close>

definition fails_at_most :: "nat set \<Rightarrow> string \<Rightarrow> futures \<Rightarrow> futures \<Rightarrow> bool" where
  "fails_at_most rids tenant fs fs' \<longleftrightarrow> futures_wf fs'
     \<and> (\<forall>rid f. fs rid = Some f \<longrightarrow> fut_state f = PENDING \<longrightarrow> rid \<notin> rids \<longrightarrow> fs' rid = Some f)
     \<and> (\<forall>rid f. fs' rid = Some f \<longrightarrow> (\<exists>f0. fs rid = Some f0 \<and> fut_owner f = fut_owner f0))
     \<and> (\<forall>rid f. fs' rid = Some f \<longrightarrow> fut_state f = PENDING \<longrightarrow> fs rid = Some f \<and> \<not> (rid \<in> rids \<and> fut_tenant f = tenant))"

lemma fails_at_mostI:
  assumes "futures_wf fs'"
    "\<And>rid f. fs rid = Some f \<Longrightarrow> fut_state f = PENDING \<Longrightarrow> rid \<notin> rids \<Longrightarrow> fs' rid = Some f"
    "\<And>rid f. fs' rid = Some f \<Longrightarrow> \<exists>f0. fs rid = Some f0 \<and> fut_owner f = fut_owner f0"
    "\<And>rid f. fs' rid = Some f \<Longrightarrow> fut_state f = PENDING \<Longrightarrow> fs rid = Some f \<and> \<not> (rid \<in> rids \<and> fut_tenant f = tenant)"
  shows "fails_at_most rids tenant fs fs'"
  unfolding fails_at_most_def using assms by blast

lemma fails_at_mostD:
  assumes "fails_at_most rids tenant fs fs'"
  shows "futures_wf fs'"
    "fs rid = Some f \<Longrightarrow> fut_state f = PENDING \<Longrightarrow> rid \<notin> rids \<Longrightarrow> fs' rid = Some f"
    "fs' rid = Some f \<Longrightarrow> \<exists>f0. fs rid = Some f0 \<and> fut_owner f = fut_owner f0"
    "fs' rid = Some f \<Longrightarrow> fut_state f = PENDING \<Longrightarrow> fs rid = Some f \<and> \<not> (rid \<in> rids \<and> fut_tenant f = tenant)"
  using assms unfolding fails_at_most_def by blast+

lemma fail_retained_step:
  assumes wf: "futures_wf fs"
  shows "fails_at_most {rid} tenant fs (fail_retained now tenant err category fs rid)"
proof -
  have old: "fs k = Some f" if "sweep now fs k = Some f" for k f using that by (rule sweep_old)
  have keep: "sweep now fs k = Some f" if "fs k = Some f" "fut_state f = PENDING" for k f
    using sweep_pending [OF wf that] .
  note wf' = sweep_wf [OF wf, of now]
  show ?thesis
  proof (cases "\<exists>f. sweep now fs rid = Some f \<and> fut_tenant f = tenant")
    case True
    then obtain f where f: "sweep now fs rid = Some f" "fut_tenant f = tenant" by blast
    let ?g = "f\<lparr> fut_state := FAILED err category, finished_at := Some now \<rparr>"
    have e: "fail_retained now tenant err category fs rid
        = (if fut_state f \<noteq> PENDING then sweep now fs else (sweep now fs)(rid \<mapsto> ?g))"
      using f by (simp add: fail_retained_def get_future_def Let_def settle_def)
    show ?thesis
    proof (cases "fut_state f = PENDING")
      case P: True
      then have e': "fail_retained now tenant err category fs rid = (sweep now fs)(rid \<mapsto> ?g)" unfolding e by simp
      show ?thesis unfolding e'
      proof (rule fails_at_mostI)
        show "futures_wf ((sweep now fs)(rid \<mapsto> ?g))" using wf' by (simp add: futures_wf_def)
        show "((sweep now fs)(rid \<mapsto> ?g)) k = Some h" if "fs k = Some h" "fut_state h = PENDING" "k \<notin> {rid}" for k h
          using that keep by simp
        show "\<exists>f0. fs k = Some f0 \<and> fut_owner h = fut_owner f0" if "((sweep now fs)(rid \<mapsto> ?g)) k = Some h" for k h
          using that old [of k h] old [OF f(1)] by (cases "k = rid") auto
        show "fs k = Some h \<and> \<not> (k \<in> {rid} \<and> fut_tenant h = tenant)"
          if "((sweep now fs)(rid \<mapsto> ?g)) k = Some h" "fut_state h = PENDING" for k h
          using that old [of k h] by (cases "k = rid") auto
      qed
    next
      case False
      then have e': "fail_retained now tenant err category fs rid = sweep now fs" unfolding e by simp
      show ?thesis unfolding e'
      proof (rule fails_at_mostI)
        show "sweep now fs k = Some h" if "fs k = Some h" "fut_state h = PENDING" for k h using keep that by blast
        show "\<exists>f0. fs k = Some f0 \<and> fut_owner h = fut_owner f0" if "sweep now fs k = Some h" for k h
          using old [OF that] by blast
        show "fs k = Some h \<and> \<not> (k \<in> {rid} \<and> fut_tenant h = tenant)"
          if "sweep now fs k = Some h" "fut_state h = PENDING" for k h
          using old [OF that(1)] f(1) False that by auto
      qed (rule wf')
    qed
  next
    case False
    then have e: "fail_retained now tenant err category fs rid = sweep now fs"
      by (cases "sweep now fs rid") (simp_all add: fail_retained_def get_future_def Let_def)
    show ?thesis unfolding e
    proof (rule fails_at_mostI)
      show "sweep now fs k = Some h" if "fs k = Some h" "fut_state h = PENDING" for k h using keep that by blast
      show "\<exists>f0. fs k = Some f0 \<and> fut_owner h = fut_owner f0" if "sweep now fs k = Some h" for k h
        using old [OF that] by blast
      show "fs k = Some h \<and> \<not> (k \<in> {rid} \<and> fut_tenant h = tenant)"
        if "sweep now fs k = Some h" "fut_state h = PENDING" for k h
        using old [OF that(1)] False that(1) by auto
    qed (rule wf')
  qed
qed

lemma fails_at_most_trans:
  assumes "fails_at_most A t fs fs1" "fails_at_most B t fs1 fs2"
  shows "fails_at_most (A \<union> B) t fs fs2"
proof -
  note D1 = fails_at_mostD [OF assms(1)] and D2 = fails_at_mostD [OF assms(2)]
  show ?thesis
  proof (rule fails_at_mostI)
    show "futures_wf fs2" by (rule D2(1))
    show "fs2 rid = Some f" if "fs rid = Some f" "fut_state f = PENDING" "rid \<notin> A \<union> B" for rid f
      using D2(2) [OF D1(2) [OF that(1,2)]] that by simp
    show "\<exists>f0. fs rid = Some f0 \<and> fut_owner f = fut_owner f0" if "fs2 rid = Some f" for rid f
      using D2(3) [OF that] D1(3) by metis
    show "fs rid = Some f \<and> \<not> (rid \<in> A \<union> B \<and> fut_tenant f = t)" if "fs2 rid = Some f" "fut_state f = PENDING" for rid f
      using D2(4) [OF that] D1(4) that(2) by blast
  qed
qed

lemma fail_retained_all:
  "futures_wf fs \<Longrightarrow> fails_at_most (set rids) tenant fs (foldl (fail_retained now tenant err category) fs rids)"
proof (induction rids arbitrary: fs)
  case Nil
  then show ?case by (auto simp: fails_at_most_def)
next
  case (Cons rid rids)
  note step = fail_retained_step [OF Cons.prems, of rid tenant now err category]
  then have "futures_wf (fail_retained now tenant err category fs rid)" by (simp add: fails_at_most_def)
  from fails_at_most_trans [OF step Cons.IH [OF this]] show ?case by simp
qed

section \<open>Finishing a request\<close>

definition keys_of :: "nat \<Rightarrow> nat \<Rightarrow> datum_key set" where
  "keys_of m k = {x. fst x = m \<and> fst (snd x) = k}"

lemma commands_finish:
  assumes "queue_ok F q" "p \<in> set (queue q)"
  shows "commands (mq_finish q (pend_seq p)) = {c \<in> commands q. seq_id c \<noteq> pend_seq p}"
proof -
  have "pend_seq p \<le> last_enqueued_seq_id q" using assms by (auto simp: queue_ok_def order_ok_def)
  then have "seq_id c \<noteq> pend_seq p" if "c \<in> snd ` set (pending_by_seq q)" for c
    using assms(1) that by (auto simp: queue_ok_def pending_ok_def)
  then show ?thesis by (auto simp: commands_def mq_finish_def)
qed

lemma mq_finish_fields [simp]:
  "mq_slot (mq_finish q k) = mq_slot q" "mq_tenant (mq_finish q k) = mq_tenant q"
  "last_enqueued_seq_id (mq_finish q k) = last_enqueued_seq_id q" "pending_by_seq (mq_finish q k) = pending_by_seq q"
  by (simp_all add: mq_finish_def)

lemma commands_finish_sub: "commands (mq_finish q k) \<subseteq> commands q"
  by (auto simp: commands_def mq_finish_def)

lemma mq_finish_drop:
  assumes "queue_ok F q"
  shows "queue_ok (F(k := {})) (mq_finish q k)"
proof -
  have "sorted_wrt (<) (map pend_seq (filter (\<lambda>p. pend_seq p \<noteq> k) (queue q)))"
    using assms by (auto simp: queue_ok_def order_ok_def sorted_wrt_map intro: sorted_wrt_filter)
  moreover have "(F(k := {})) j = {}" if "j \<notin> pend_seq ` set (filter (\<lambda>p. pend_seq p \<noteq> k) (queue q))" for j
    using that assms by (cases "j = k") (auto simp: queue_ok_def entries_ok_def image_iff)
  ultimately show ?thesis using assms
    by (simp add: queue_ok_def pending_ok_def order_ok_def entries_ok_def mq_finish_def)
qed

lemma work_ok_finish:
  assumes "work_ok W qs"
  shows "work_ok (W - keys_of m k) (update_queue m (\<lambda>q. mq_finish q k) qs)"
  unfolding work_ok_def
proof (intro conjI allI impI)
  show "dict_ok (update_queue m (\<lambda>q. mq_finish q k) qs)" using assms by (simp add: work_ok_def)
  fix m' q' assume q': "dget (update_queue m (\<lambda>q. mq_finish q k) qs) m' = Some q'"
  show "queue_ok (\<lambda>s. {i. (m', s, i) \<in> W - keys_of m k}) q'"
  proof (cases "m' = m")
    case True
    then obtain q where q: "dget qs m = Some q" "q' = mq_finish q k" using q' by auto
    have "(\<lambda>s. {i. (m', s, i) \<in> W - keys_of m k}) = (\<lambda>s. {i. (m, s, i) \<in> W})(k := {})"
      using True by (auto simp: keys_of_def fun_eq_iff)
    then show ?thesis using mq_finish_drop [of "\<lambda>s. {i. (m, s, i) \<in> W}" q k] assms q by (simp add: work_ok_def)
  next
    case False
    then have "(\<lambda>s. {i. (m', s, i) \<in> W - keys_of m k}) = (\<lambda>s. {i. (m', s, i) \<in> W})" by (auto simp: keys_of_def)
    then show ?thesis using assms q' False by (simp add: work_ok_def)
  qed
qed

lemma work_ok_cong:
  assumes "work_ok W qs" "\<And>m q k i. dget qs m = Some q \<Longrightarrow> (m, k, i) \<in> W' \<longleftrightarrow> (m, k, i) \<in> W"
  shows "work_ok W' qs"
  unfolding work_ok_def
proof (intro conjI allI impI)
  show "dict_ok qs" using assms(1) by (simp add: work_ok_def)
  fix m q assume q: "dget qs m = Some q"
  have "(\<lambda>s. {i. (m, s, i) \<in> W'}) = (\<lambda>s. {i. (m, s, i) \<in> W})" using assms(2) [OF q] by blast
  then show "queue_ok (\<lambda>s. {i. (m, s, i) \<in> W'}) q" using assms(1) q by (simp add: work_ok_def)
qed

lemma history_ok_cong:
  assumes "history_ok R s" "\<And>m q k. dget (service_queues s) m = Some q \<Longrightarrow> (m, k) \<in> R \<Longrightarrow> (m, k) \<in> R'"
  shows "history_ok R' s"
proof -
  have "entry_after R' h p" if "entry_after R h p" "dget (service_queues s) (fst h) = Some q" for h p q
    using that assms(2) [of "fst h" q] unfolding entry_after_def by (cases h) auto
  then show ?thesis using assms(1) unfolding history_ok_def by blast
qed

lemma retire_inv:
  assumes inv: "core_inv cfg W R s" and q: "dget (service_queues s) m = Some q" and p: "p \<in> set (queue q)" "c = pend_command p"
    and st: "st \<noteq> PENDING"
  shows "core_inv cfg (W - keys_of m (seq_id c)) (R - {(m, seq_id c)})
    ((settle_future now st (request_id c) s)\<lparr> service_queues :=
       update_queue m (\<lambda>q. mq_finish q (seq_id c)) (service_queues (settle_future now st (request_id c) s)) \<rparr>)"
proof -
  let ?k = "seq_id c" and ?rid = "request_id c"
  have I: "work_ok W (service_queues s)" "slots_ok cfg s" "requests_ok s" "records_ok s" "futures_ok s"
    "commands_await s" "creations_await s" "history_ok R s" "\<not> died s" using inv by (simp_all add: core_inv_def)
  have qok: "queue_ok (\<lambda>s. {i. (m, s, i) \<in> W}) q" using I(1) q by (simp add: work_ok_def)
  have cq: "c \<in> commands q" using p by (auto simp: commands_def)
  then obtain f where f: "futures s ?rid = Some f" "fut_state f = PENDING" "fut_owner f = CommandOf m ?k" "fut_tenant f = mq_tenant q"
    using I(6) q unfolding commands_await_def awaiting_def by blast
  let ?g = "f\<lparr> fut_state := st, finished_at := Some now \<rparr>"
  let ?qs = "update_queue m (\<lambda>q. mq_finish q ?k) (service_queues s)"
  define s' where "s' = s\<lparr> futures := (futures s)(?rid \<mapsto> ?g), service_queues := ?qs \<rparr>"
  have eq: "(settle_future now st ?rid s)\<lparr> service_queues :=
       update_queue m (\<lambda>q. mq_finish q ?k) (service_queues (settle_future now st ?rid s)) \<rparr> = s'"
    using settle_Inr [of "futures s" ?rid f st now] f(1,2) st by (simp add: settle_future_def s'_def)
  have com: "commands (mq_finish q ?k) = {c' \<in> commands q. seq_id c' \<noteq> ?k}" using commands_finish [OF qok p(1)] p(2) by simp
  have qs': "dget (service_queues s') m' = (if m' = m then Some (mq_finish q ?k) else dget (service_queues s) m')" for m'
    using q by (simp add: s'_def)
  have sub: "\<exists>q0. dget (service_queues s) m' = Some q0 \<and> commands q' \<subseteq> commands q0 \<and> mq_slot q' = mq_slot q0
      \<and> mq_tenant q' = mq_tenant q0 \<and> last_enqueued_seq_id q' = last_enqueued_seq_id q0 \<and> set (queue q') \<subseteq> set (queue q0)"
    if "dget (service_queues s') m' = Some q'" for m' q'
    using that q commands_finish_sub [of q ?k] by (auto simp: qs' mq_finish_def split: if_splits)
  have "work_ok (W - keys_of m ?k) (service_queues s')" using work_ok_finish [OF I(1)] by (simp add: s'_def)
  moreover have "slots_ok cfg s'"
  proof -
    have ms: "models s' = models s" "free_slots s' = free_slots s" "next_id s' = next_id s" by (simp_all add: s'_def)
    note D = slots_okD [OF I(2)]
    show ?thesis
    proof (rule slots_okI; unfold ms)
      show "dget (models s) m' = None \<longleftrightarrow> dget (service_queues s') m' = None" for m'
        using D(3) [of m'] D(3) [of m] q by (simp add: qs')
      show "mq_slot q' = rec_slot r \<and> mq_tenant q' = rec_tenant r"
        if "dget (models s) m' = Some r" "dget (service_queues s') m' = Some q'" for m' r q'
        using sub [OF that(2)] D(4) [OF that(1)] by auto
    qed (use D in blast)+
  qed
  moreover have "requests_ok s'"
  proof -
    have "(\<forall>c\<in>commands q'. dget (request_by_seq r) (seq_id c) = Some (request_id c))
       \<and> (\<forall>k. 1 \<le> k \<longrightarrow> k \<le> last_enqueued_seq_id q' \<longrightarrow> dget (request_by_seq r) k \<noteq> None)"
      if "dget (models s') m' = Some r" "dget (service_queues s') m' = Some q'" for m' r q'
      using sub [OF that(2)] that(1) I(3) unfolding requests_ok_def by (fastforce simp: s'_def)
    then show ?thesis unfolding requests_ok_def by blast
  qed
  moreover have "records_ok s'"
    using I(4) f(1) unfolding records_ok_def by (auto simp: s'_def)
  moreover have "futures_ok s'"
    unfolding futures_ok_def
  proof (intro conjI allI impI)
    show "futures_wf (futures s')" using I(5) st unfolding futures_ok_def futures_wf_def by (auto simp: s'_def)
    fix rid h assume h: "futures s' rid = Some h"
    show "rid < next_id s'" using h I(5) f(1) unfolding futures_ok_def by (cases "rid = ?rid") (auto simp: s'_def)
    assume pe: "fut_state h = PENDING"
    then have ne: "rid \<noteq> ?rid" "futures s rid = Some h" using h st by (auto simp: s'_def split: if_splits)
    then have "owed s rid (fut_owner h)" using I(5) pe unfolding futures_ok_def by blast
    then show "owed s' rid (fut_owner h)"
    proof (cases "fut_owner h")
      case (CommandOf m' k')
      then obtain q0 c' where c': "dget (service_queues s) m' = Some q0" "c' \<in> commands q0" "seq_id c' = k'" "request_id c' = rid"
        using \<open>owed s rid (fut_owner h)\<close> by (auto simp: owed_def)
      show ?thesis
      proof (cases "m' = m")
        case True
        have "k' \<noteq> ?k"
        proof
          assume "k' = ?k"
          obtain r where r: "dget (models s) m = Some r" using I(2) q unfolding slots_ok_def by fastforce
          have all: "dget (request_by_seq r) (seq_id x) = Some (request_id x)" if "x \<in> commands q" for x
            using I(3) r q that unfolding requests_ok_def by blast
          have "c' \<in> commands q" using c' q True by simp
          then have "Some (request_id c') = Some ?rid" using all [of c'] all [OF cq] c'(3) \<open>k' = ?k\<close> by simp
          then show False using c'(4) ne(1) by simp
        qed
        then have "c' \<in> commands (mq_finish q ?k)" using c' q True com by auto
        then show ?thesis using c' True CommandOf qs' by (auto simp: owed_def)
      next
        case False
        then show ?thesis using c' CommandOf qs' by (auto simp: owed_def)
      qed
    qed (auto simp: owed_def s'_def)
  qed
  moreover have "commands_await s'"
    unfolding commands_await_def
  proof (intro allI impI)
    fix m' q' c' assume q': "dget (service_queues s') m' = Some q'" and c': "c' \<in> commands q'"
    then obtain q0 where q0: "dget (service_queues s) m' = Some q0" "commands q' \<subseteq> commands q0" "mq_tenant q' = mq_tenant q0"
      using sub by blast
    then have aw: "awaiting (futures s) (request_id c') (CommandOf m' (seq_id c')) (mq_tenant q')"
      using I(6) c' unfolding commands_await_def by fastforce
    have "request_id c' \<noteq> ?rid"
    proof
      assume "request_id c' = ?rid"
      then have "CommandOf m' (seq_id c') = CommandOf m ?k" using aw f by (simp add: awaiting_def)
      then show False using q' c' com qs' by auto
    qed
    then show "awaiting (futures s') (request_id c') (CommandOf m' (seq_id c')) (mq_tenant q')"
      using aw by (simp add: awaiting_def s'_def)
  qed
  moreover have "creations_await s'"
    using I(7) f unfolding creations_await_def awaiting_def by (fastforce simp: s'_def)
  moreover have "history_ok (R - {(m, ?k)}) s'"
  proof -
    have "fst (snd h) \<le> last_enqueued_seq_id q' \<and> (\<forall>x\<in>set (queue q'). entry_after (R - {(m, ?k)}) h x)"
      if h: "h \<in> set (history s)" and q': "dget (service_queues s') (fst h) = Some q'" for h q'
    proof -
      obtain q0 where q0: "dget (service_queues s) (fst h) = Some q0" "last_enqueued_seq_id q' = last_enqueued_seq_id q0"
        "set (queue q') \<subseteq> set (queue q0)" using sub [OF q'] by blast
      then have old: "fst (snd h) \<le> last_enqueued_seq_id q0" "\<forall>x\<in>set (queue q0). entry_after R h x"
        using I(8) h unfolding history_ok_def by blast+
      have "pend_seq x \<noteq> ?k" if "x \<in> set (queue q')" "fst h = m" for x
        using that q' qs' by (auto simp: mq_finish_def)
      then show ?thesis using old q0 by (cases h) (auto simp: entry_after_def subset_iff)
    qed
    then show ?thesis using I(8) unfolding history_ok_def by (auto simp: s'_def)
  qed
  moreover have "\<not> died s'" using I(9) by (simp add: s'_def)
  ultimately show ?thesis unfolding eq core_inv_def by blast
qed

lemma futures_okD:
  assumes "futures_ok s"
  shows "futures_wf (futures s)" "futures s rid = Some f \<Longrightarrow> rid < next_id s"
    "futures s rid = Some f \<Longrightarrow> fut_state f = PENDING \<Longrightarrow> owed s rid (fut_owner f)"
  using assms unfolding futures_ok_def by blast+

lemma close_model_inv:
  assumes inv: "core_inv cfg W R s"
  shows "core_inv cfg W R (close_model cfg env now m err category s)"
proof (cases "dget (models s) m")
  case None
  then show ?thesis using inv by (simp add: close_model_def)
next
  case (Some r)
  have I: "work_ok W (service_queues s)" "slots_ok cfg s" "requests_ok s" "records_ok s" "futures_ok s"
    "commands_await s" "creations_await s" "history_ok R s" "\<not> died s" using inv by (simp_all add: core_inv_def)
  note D = slots_okD [OF I(2)]
  let ?rids = "model_requests r"
  let ?fs = "foldl (fail_retained now (rec_tenant r) err category) (futures s) ?rids"
  define s' where "s' = close_model cfg env now m err category s"
  have s': "models s' = ddel (models s) m" "service_queues s' = ddel (service_queues s) m" "futures s' = ?fs"
    "next_id s' = next_id s" "history s' = history s" "died s' = died s" "sample_tasks s' = sample_tasks s"
    "free_slots s' = free_slots s \<or> free_slots s' = insert (rec_slot r) (free_slots s)"
    using Some by (simp_all add: s'_def close_model_def)
  obtain q where q: "dget (service_queues s) m = Some q" using D(3) [of m] Some by fastforce
  have tenant: "mq_tenant q = rec_tenant r" using D(4) [OF Some q] by simp
  note A = fails_at_mostD [OF fail_retained_all [OF futures_okD(1) [OF I(5)], of ?rids "rec_tenant r" now err category], folded s'(3)]
  have mine: "owner_model (fut_owner f) = Some m" if "rid \<in> set ?rids" "futures s rid = Some f" for rid f
    using I(4) Some that unfolding records_ok_def by blast
  have kept: "awaiting (futures s') rid w t" if aw: "awaiting (futures s) rid w t" and w: "owner_model w \<noteq> Some m" for rid w t
  proof -
    obtain f where f: "futures s rid = Some f" "fut_state f = PENDING" "fut_owner f = w" "fut_tenant f = t"
      using aw by (auto simp: awaiting_def)
    then have "rid \<notin> set ?rids" using mine w by blast
    then show ?thesis using A(2) [OF f(1,2)] f by (simp add: awaiting_def)
  qed
  have gone: False if f: "futures s' rid = Some f" "fut_state f = PENDING" "owner_model (fut_owner f) = Some m" for rid f
  proof -
    have old: "futures s rid = Some f" "\<not> (rid \<in> set ?rids \<and> fut_tenant f = rec_tenant r)" using A(4) [OF f(1,2)] by blast+
    then have ow: "owed s rid (fut_owner f)" using futures_okD(3) [OF I(5)] f(2) by blast
    have "rid \<in> set ?rids \<and> fut_tenant f = rec_tenant r"
    proof (cases "fut_owner f")
      case (ModelCreation m')
      then have "m' = m" using f(3) by (simp add: owner_model_def)
      then have c: "create_request r = rid" "\<not> slot_initialized r" using ow ModelCreation Some by (auto simp: owed_def)
      then have "awaiting (futures s) rid (ModelCreation m) (rec_tenant r)" using I(7) Some unfolding creations_await_def by blast
      then show ?thesis using c old(1) by (simp add: awaiting_def model_requests_def)
    next
      case (CommandOf m' k)
      then have "m' = m" using f(3) by (simp add: owner_model_def)
      then obtain c where c: "c \<in> commands q" "seq_id c = k" "request_id c = rid"
        using ow CommandOf q by (auto simp: owed_def)
      have "dget (request_by_seq r) (seq_id c) = Some (request_id c)"
        using I(3) Some q c(1) unfolding requests_ok_def by blast
      then have "rid \<in> snd ` set (request_by_seq r)" using c(3) map_of_SomeD by force
      moreover have "awaiting (futures s) rid (CommandOf m k) (rec_tenant r)"
        using I(6) q c tenant unfolding commands_await_def by metis
      ultimately show ?thesis using old(1) by (simp add: awaiting_def model_requests_def)
    qed (use f(3) in \<open>simp add: owner_model_def\<close>)
    then show False using old(2) by blast
  qed
  have "work_ok W (service_queues s')" using I(1) by (auto simp: work_ok_def s'(2))
  moreover have "slots_ok cfg s'"
  proof (rule slots_okI; (unfold s'(1,2,4))?)
    show "dict_ok (ddel (models s) m)" using D(1) by simp
    show "free_slots s' \<subseteq> {0..<n_slots cfg}" using s'(8) D(2) D(5) [OF Some] by auto
    show "dget (ddel (models s) m) m' = None \<longleftrightarrow> dget (ddel (service_queues s) m) m' = None" for m' using D(3) [of m'] by simp
    show "mq_slot x = rec_slot y \<and> mq_tenant x = rec_tenant y"
      if "dget (ddel (models s) m) m' = Some y" "dget (ddel (service_queues s) m) m' = Some x" for m' y x
      using that D(4) by (auto split: if_splits)
    show "m' < next_id s \<and> rec_slot y < n_slots cfg \<and> rec_slot y \<notin> free_slots s'"
      if "dget (ddel (models s) m) m' = Some y" for m' y
      using that D(5) D(6) [OF Some, of m' y] s'(8) by (auto split: if_splits)
    show "m' = m2" if "dget (ddel (models s) m) m' = Some y" "dget (ddel (models s) m) m2 = Some z" "rec_slot y = rec_slot z" for m' m2 y z
      using that D(6) by (auto split: if_splits)
  qed
  moreover have "requests_ok s'" using I(3) unfolding requests_ok_def by (simp add: s')
  moreover have "records_ok s'"
    unfolding records_ok_def
  proof (intro allI impI conjI)
    fix m' y rid assume y: "dget (models s') m' = Some y" and rid: "rid \<in> set (model_requests y)"
    then have y': "dget (models s) m' = Some y" by (simp add: s'(1) split: if_splits)
    show "rid < next_id s'" using I(4) y' rid unfolding records_ok_def s'(4) by blast
    fix f assume "futures s' rid = Some f"
    then obtain f0 where "futures s rid = Some f0" "fut_owner f = fut_owner f0" using A(3) by blast
    then show "owner_model (fut_owner f) = Some m'" using I(4) y' rid unfolding records_ok_def by metis
  qed
  moreover have "futures_ok s'"
    unfolding futures_ok_def
  proof (intro conjI allI impI)
    show "futures_wf (futures s')" by (rule A(1))
    fix rid f assume f: "futures s' rid = Some f"
    then show "rid < next_id s'" using A(3) futures_okD(2) [OF I(5)] s'(4) by metis
    assume p: "fut_state f = PENDING"
    have "owed s rid (fut_owner f)" using A(4) [OF f p] futures_okD(3) [OF I(5)] p by blast
    moreover have "owner_model (fut_owner f) \<noteq> Some m" using gone [OF f p] by blast
    ultimately show "owed s' rid (fut_owner f)"
      by (cases "fut_owner f") (auto simp: owed_def s' owner_model_def)
  qed
  moreover have "commands_await s'"
    unfolding commands_await_def
  proof (intro allI impI)
    fix m' x c assume "dget (service_queues s') m' = Some x" "c \<in> commands x"
    then have "m' \<noteq> m" "dget (service_queues s) m' = Some x" "c \<in> commands x" by (simp_all add: s'(2) split: if_splits)
    then show "awaiting (futures s') (request_id c) (CommandOf m' (seq_id c)) (mq_tenant x)"
      using kept I(6) unfolding commands_await_def by (simp add: owner_model_def)
  qed
  moreover have "creations_await s'"
    unfolding creations_await_def
  proof (intro allI impI)
    fix m' y assume "dget (models s') m' = Some y" "\<not> slot_initialized y"
    then have "m' \<noteq> m" "dget (models s) m' = Some y" "\<not> slot_initialized y" by (simp_all add: s'(1) split: if_splits)
    then show "awaiting (futures s') (create_request y) (ModelCreation m') (rec_tenant y)"
      using kept I(7) unfolding creations_await_def by (simp add: owner_model_def)
  qed
  moreover have "history_ok R s'" using I(8) unfolding history_ok_def by (simp add: s')
  moreover have "\<not> died s'" using I(9) by (simp add: s')
  ultimately show ?thesis unfolding s'_def core_inv_def by blast
qed

lemma close_model_queues [simp]:
  "slots_ok cfg s \<Longrightarrow> service_queues (close_model cfg env now m err category s) = ddel (service_queues s) m"
proof (cases "dget (models s) m")
  case None
  assume "slots_ok cfg s"
  then have "dget (service_queues s) m = None" using slots_okD(3) [of cfg s m] None by simp
  then have "m \<notin> fst ` set (service_queues s)" by (simp add: map_of_eq_None_iff)
  then have "ddel (service_queues s) m = service_queues s" by (rule delete_id)
  then show ?thesis using None by (simp add: close_model_def)
qed (simp add: close_model_def)

text \<open>Finishing any entry, whatever the outcome.\<close>

lemma finish_request_inv:
  assumes inv: "core_inv cfg W R s" and q: "dget (service_queues s) m = Some q" and p: "p \<in> set (queue q)" "c = pend_command p"
    and s': "s' = finish_request cfg env now m c outcome s"
  shows "core_inv cfg (W - keys_of m (seq_id c)) (R - {(m, seq_id c)}) s'
    \<and> (\<forall>m'. m' \<noteq> m \<longrightarrow> dget (service_queues s') m' = dget (service_queues s) m')
    \<and> dget (service_queues s') m \<in> {None, Some (mq_finish q (seq_id c))}
    \<and> (isl outcome \<and> requires_model_close_on_failure (cmd_op c) \<longleftrightarrow> dget (service_queues s') m = None)"
proof -
  have slots: "slots_ok cfg s" using inv by (simp add: core_inv_def)
  have sq: "service_queues (settle_future now st rid s) = service_queues s" for st rid
    by (simp add: settle_future_def split: sum.splits)
  have retired: ?thesis if "st \<noteq> PENDING" "\<not> (isl outcome \<and> requires_model_close_on_failure (cmd_op c))"
    "s' = (settle_future now st (request_id c) s)\<lparr> service_queues :=
       update_queue m (\<lambda>q. mq_finish q (seq_id c)) (service_queues (settle_future now st (request_id c) s)) \<rparr>" for st
    unfolding that(3) using retire_inv [OF inv q p that(1), of now] that(2) q by (simp add: sq)
  show ?thesis
  proof (cases outcome)
    case (Inl x)
    obtain err category where x: "x = (err, category)" by (rule prod.exhaust)
    show ?thesis
    proof (cases "requires_model_close_on_failure (cmd_op c)")
      case True
      then have s'': "s' = close_model cfg env now m err category s" by (simp add: s' Inl x finish_request_def Let_def)
      have c: "core_inv cfg W R s'" unfolding s'' by (rule close_model_inv [OF inv])
      have qs: "service_queues s' = ddel (service_queues s) m" unfolding s'' using slots by simp
      have "work_ok (W - keys_of m (seq_id c)) (service_queues s')"
        by (rule work_ok_cong [of W]) (use c in \<open>auto simp: core_inv_def qs keys_of_def split: if_splits\<close>)
      moreover have "history_ok (R - {(m, seq_id c)}) s'"
        by (rule history_ok_cong [of R]) (use c in \<open>auto simp: core_inv_def qs split: if_splits\<close>)
      ultimately show ?thesis using c True Inl qs by (simp add: core_inv_def)
    next
      case False
      then show ?thesis by (intro retired [of "FAILED err category"]) (simp_all add: s' Inl x finish_request_def Let_def)
    qed
  next
    case (Inr x)
    then show ?thesis by (intro retired [of "DONE x"]) (simp_all add: s' finish_request_def Let_def)
  qed
qed

section \<open>The trainer's answers\<close>

text \<open>Queues that hold the same commands, with counters that may have advanced.\<close>

definition same_queue :: "model_queue \<Rightarrow> model_queue \<Rightarrow> bool" where
  "same_queue q q' \<longleftrightarrow> commands q' = commands q \<and> last_enqueued_seq_id q' = last_enqueued_seq_id q \<and> mq_slot q' = mq_slot q
     \<and> mq_tenant q' = mq_tenant q
     \<and> (\<forall>p'\<in>set (queue q'). \<exists>p\<in>set (queue q). pend_command p' = pend_command p \<and> num_issued_datums p \<le> num_issued_datums p')"

lemma same_queue_refl [simp]: "same_queue q q"
  by (auto simp: same_queue_def)

lemma entry_after_mono:
  assumes "entry_after R h p" "pend_command p' = pend_command p" "num_issued_datums p \<le> num_issued_datums p'"
  shows "entry_after R h p'"
proof -
  have "live_batch p' = live_batch p" using assms(2) by (simp add: live_batch_def is_batch_op_def)
  then show ?thesis using assms unfolding entry_after_def by (cases h) auto
qed

lemma core_inv_queues:
  assumes inv: "core_inv cfg W R s" and work: "work_ok W' qs'"
    and none: "\<And>m. dget qs' m = None \<longleftrightarrow> dget (service_queues s) m = None"
    and unchanged: "\<And>m q q'. dget (service_queues s) m = Some q \<Longrightarrow> dget qs' m = Some q' \<Longrightarrow> same_queue q q'"
  shows "core_inv cfg W' R (s\<lparr> service_queues := qs' \<rparr>)"
proof -
  have I: "slots_ok cfg s" "requests_ok s" "records_ok s" "futures_ok s" "commands_await s" "creations_await s"
    "history_ok R s" "\<not> died s" using inv by (simp_all add: core_inv_def)
  let ?s = "s\<lparr> service_queues := qs' \<rparr>"
  have older: "\<exists>q. dget (service_queues s) m = Some q \<and> same_queue q q'" if "dget qs' m = Some q'" for m q'
    using unchanged that none [of m] by fastforce
  have forth: "\<exists>q'. dget qs' m = Some q' \<and> same_queue q q'" if "dget (service_queues s) m = Some q" for m q
    using unchanged that none [of m] by fastforce
  note D = slots_okD [OF I(1)]
  have "slots_ok cfg ?s"
  proof (rule slots_okI)
    show "dget (models ?s) m = None \<longleftrightarrow> dget (service_queues ?s) m = None" for m using D(3) none by simp
    show "mq_slot q = rec_slot r \<and> mq_tenant q = rec_tenant r"
      if mr: "dget (models ?s) m = Some r" and mq: "dget (service_queues ?s) m = Some q" for m r q
    proof -
      obtain q0 where "dget (service_queues s) m = Some q0" "same_queue q0 q" using mq older by fastforce
      then show ?thesis using D(4) [of m r q0] mr by (simp add: same_queue_def)
    qed
  qed (use D in auto)
  moreover have "requests_ok ?s"
    unfolding requests_ok_def
  proof (intro allI impI)
    fix m r q assume r: "dget (models ?s) m = Some r" and q: "dget (service_queues ?s) m = Some q"
    obtain q0 where "dget (service_queues s) m = Some q0" "same_queue q0 q" using q older by fastforce
    then show "(\<forall>c\<in>commands q. dget (request_by_seq r) (seq_id c) = Some (request_id c))
       \<and> (\<forall>k. 1 \<le> k \<longrightarrow> k \<le> last_enqueued_seq_id q \<longrightarrow> dget (request_by_seq r) k \<noteq> None)"
      using I(2) r unfolding requests_ok_def same_queue_def by simp
  qed
  moreover have "records_ok ?s" using I(3) by (simp add: records_ok_def)
  moreover have "futures_ok ?s"
  proof -
    have "owed ?s rid w" if "owed s rid w" for rid w
    proof (cases w)
      case (CommandOf m k)
      then obtain q c where q: "dget (service_queues s) m = Some q" "c \<in> commands q" "seq_id c = k" "request_id c = rid"
        using \<open>owed s rid w\<close> by (auto simp: owed_def)
      obtain q' where "dget qs' m = Some q'" "same_queue q q'" using forth [OF q(1)] by blast
      then show ?thesis using q CommandOf by (auto simp: owed_def same_queue_def)
    qed (use that in \<open>simp_all add: owed_def\<close>)
    then show ?thesis using I(4) unfolding futures_ok_def by simp
  qed
  moreover have "commands_await ?s"
    unfolding commands_await_def
  proof (intro allI impI)
    fix m q c assume "dget (service_queues ?s) m = Some q" and c: "c \<in> commands q"
    then obtain q0 where q0: "dget (service_queues s) m = Some q0" "same_queue q0 q" using older by fastforce
    then have "c \<in> commands q0" using c by (simp add: same_queue_def)
    then show "awaiting (futures ?s) (request_id c) (CommandOf m (seq_id c)) (mq_tenant q)"
      using I(5) q0 unfolding commands_await_def same_queue_def by simp
  qed
  moreover have "creations_await ?s" using I(6) by (simp add: creations_await_def)
  moreover have "history_ok R ?s"
  proof -
    have "fst (snd h) \<le> last_enqueued_seq_id q \<and> (\<forall>p\<in>set (queue q). entry_after R h p)"
      if h: "h \<in> set (history s)" and q: "dget qs' (fst h) = Some q" for h q
    proof -
      obtain q0 where q0: "dget (service_queues s) (fst h) = Some q0" "same_queue q0 q" using older [OF q] by blast
      then have "fst (snd h) \<le> last_enqueued_seq_id q0" "\<forall>p\<in>set (queue q0). entry_after R h p"
        using I(7) h unfolding history_ok_def by blast+
      then show ?thesis using q0(2) entry_after_mono unfolding same_queue_def by metis
    qed
    then show ?thesis using I(7) unfolding history_ok_def by simp
  qed
  ultimately show ?thesis using work I(8) by (simp add: core_inv_def)
qed

lemma core_inv_running [simp]: "core_inv cfg W R (s\<lparr> running := u \<rparr>) = core_inv cfg W R s"
proof -
  have "owed (s\<lparr> running := u \<rparr>) rid w = owed s rid w" for rid w by (cases w) (simp_all add: owed_def)
  then show ?thesis
    by (simp add: core_inv_def slots_ok_def requests_ok_def records_ok_def futures_ok_def commands_await_def
        creations_await_def history_ok_def)
qed

lemma update_queue_finish:
  "update_queue m (\<lambda>q. mq_finish q k) (update_queue m (update_entry k (\<lambda>_. p')) qs) = update_queue m (\<lambda>q. mq_finish q k) qs"
  if "pend_seq p' = k"
proof -
  have "mq_finish (update_entry k (\<lambda>_. p') q) k = mq_finish q k" for q
  proof -
    have "filter (\<lambda>p. pend_seq p \<noteq> k) (map (\<lambda>p. if pend_seq p = k then p' else p) xs) = filter (\<lambda>p. pend_seq p \<noteq> k) xs" for xs
      using that by (induction xs) auto
    then show ?thesis by (simp add: mq_finish_def update_entry_def)
  qed
  then show ?thesis by (auto simp: update_queue_def)
qed

lemma settle_future_queues:
  "settle_future now st rid (s\<lparr> service_queues := x \<rparr>) = (settle_future now st rid s)\<lparr> service_queues := x \<rparr>"
  "service_queues (settle_future now st rid s) = service_queues s"
  by (cases "settle now st rid (futures s)"; simp add: settle_future_def)+

lemma record_ref_inv:
  assumes inv: "core_inv cfg W {} s" and ref: "ref_ok (service_queues s) r" and key: "ref_key r \<in> W"
    and s': "s' = record_ref cfg env now s (r, x)"
  shows "core_inv cfg (W - {ref_key r}) {} s'
    \<and> (\<forall>r'. ref_ok (service_queues s) r' \<longrightarrow> ref_key r' \<in> W - {ref_key r} \<longrightarrow> ref_ok (service_queues s') r')"
proof -
  let ?m = "ref_model r" and ?c = "ref_command r" and ?i = "local_index r"
  let ?k = "seq_id ?c"
  obtain q p where q: "dget (service_queues s) ?m = Some q" and p: "p \<in> set (queue q)" "pend_command p = ?c"
    using ref by (auto simp: ref_ok_def)
  have work: "work_ok W (service_queues s)" using inv by (simp add: core_inv_def)
  then have qok: "queue_ok (\<lambda>s. {i. (?m, s, i) \<in> W}) q" using q by (simp add: work_ok_def)
  define I where "I = {i. (?m, ?k, i) \<in> W}"
  have iI: "?i \<in> I" using key by (simp add: I_def ref_key_def)
  have eok: "entry_ok I p" using qok p by (auto simp: queue_ok_def entries_ok_def I_def)
  have ord: "order_ok q" using qok by (simp add: queue_ok_def)
  have find: "find_entry ?m ?k s = Some p"
  proof -
    have "find (\<lambda>p. pend_seq p = ?k) (queue q) = Some p"
    proof (cases "find (\<lambda>p. pend_seq p = ?k) (queue q)")
      case None
      then show ?thesis using p by (auto simp: find_None_iff)
    next
      case (Some y)
      then have "y \<in> set (queue q)" "pend_seq y = ?k" by (auto simp: find_Some_iff)
      then have "y = p" using entry_unique [OF ord, of y p] p by simp
      then show ?thesis using Some by simp
    qed
    then show ?thesis using q by (simp add: find_entry_def)
  qed
  obtain p' finished where rec: "record_output p ?i x = (p', finished)" by (rule prod.exhaust)
  note R = record_output_ok [OF eok iI rec]
  have num: "num_issued_datums p' = num_issued_datums p" using rec by (auto simp: record_output_def Let_def)
  define s1 where "s1 = s\<lparr> service_queues := update_queue ?m (update_entry ?k (\<lambda>_. p')) (service_queues s) \<rparr>"
  have seqp: "pend_seq p = ?k" "pend_seq p' = ?k" using R p by simp_all
  show ?thesis
  proof (cases finished)
    case False
    then have s'1: "s' = s1" using find rec by (simp add: s' record_ref_def Let_def s1_def)
    let ?q = "update_entry ?k (\<lambda>_. p') q"
    have upd: "queue_ok ((\<lambda>s. {i. (?m, s, i) \<in> W})(?k := I - {?i})) ?q"
      using queue_ok_update [OF qok p(1), of "I - {?i}" "\<lambda>_. p'"] R False seqp by simp
    have work': "work_ok (W - {ref_key r}) (update_queue ?m (update_entry ?k (\<lambda>_. p')) (service_queues s))"
      unfolding work_ok_def
    proof (intro conjI allI impI)
      show "dict_ok (update_queue ?m (update_entry ?k (\<lambda>_. p')) (service_queues s))" using work by (simp add: work_ok_def)
      fix m q' assume q': "dget (update_queue ?m (update_entry ?k (\<lambda>_. p')) (service_queues s)) m = Some q'"
      show "queue_ok (\<lambda>s. {i. (m, s, i) \<in> W - {ref_key r}}) q'"
      proof (cases "m = ?m")
        case True
        have "(\<lambda>s. {i. (m, s, i) \<in> W - {ref_key r}}) = (\<lambda>s. {i. (?m, s, i) \<in> W})(?k := I - {?i})"
          using True by (auto simp: fun_eq_iff ref_key_def I_def)
        then show ?thesis using upd q' q True by simp
      next
        case False
        then have "(\<lambda>s. {i. (m, s, i) \<in> W - {ref_key r}}) = (\<lambda>s. {i. (m, s, i) \<in> W})" by (auto simp: ref_key_def)
        then show ?thesis using work q' False by (simp add: work_ok_def)
      qed
    qed
    have pc: "pend_command ` set (queue ?q) = pend_command ` set (queue q)"
    proof -
      have "pend_command (if pend_seq y = ?k then p' else y) = pend_command y" if "y \<in> set (queue q)" for y
        using entry_unique [OF ord that p(1)] seqp R p(2) by auto
      moreover have "queue ?q = map (\<lambda>y. if pend_seq y = ?k then p' else y) (queue q)" by (simp add: update_entry_def)
      ultimately show ?thesis unfolding set_map image_image by (simp only: set_map image_image cong: image_cong)
    qed
    have same: "same_queue q ?q"
      unfolding same_queue_def
    proof (intro conjI ballI)
      show "commands ?q = commands q" using pc by (simp add: commands_def)
      fix y assume "y \<in> set (queue ?q)"
      then obtain z where z: "z \<in> set (queue q)" "y = (if pend_seq z = ?k then p' else z)" by (auto simp: update_entry_def)
      show "\<exists>z\<in>set (queue q). pend_command y = pend_command z \<and> num_issued_datums z \<le> num_issued_datums y"
      proof (cases "pend_seq z = ?k")
        case True
        then show ?thesis using z R num p by (intro bexI [of _ p]) auto
      next
        case False
        then show ?thesis using z by auto
      qed
    qed simp_all
    have "core_inv cfg (W - {ref_key r}) {} s1"
      unfolding s1_def
      by (rule core_inv_queues [OF inv work']) (use q same in \<open>auto split: if_splits\<close>)
    moreover have "ref_ok (service_queues s1) r'" if r': "ref_ok (service_queues s) r'" for r'
    proof -
      obtain q0 p0 where r0: "dget (service_queues s) (ref_model r') = Some q0" "p0 \<in> set (queue q0)"
        "pend_command p0 = ref_command r'" "ref_slot r' = mq_slot q0" using r' by (auto simp: ref_ok_def)
      show ?thesis
      proof (cases "ref_model r' = ?m")
        case True
        then have "pend_command p0 \<in> pend_command ` set (queue ?q)" unfolding pc using r0 q by (intro imageI) simp
        then show ?thesis using r0 True q by (auto simp: ref_ok_def s1_def)
      next
        case False
        then show ?thesis using r0 by (auto simp: ref_ok_def s1_def)
      qed
    qed
    ultimately show ?thesis unfolding s'1 by blast
  next
    case True
    have I1: "I = {?i}" using R True iI by auto
    have done_eq: "s' = finish_request cfg env now ?m ?c (Inr (BatchDone (cmd_op ?c) (outputs p'))) s"
    proof -
      have "s' = finish_request cfg env now ?m ?c (Inr (BatchDone (cmd_op ?c) (outputs p'))) s1"
        using find rec True by (simp add: s' record_ref_def Let_def s1_def)
      also have "\<dots> = finish_request cfg env now ?m ?c (Inr (BatchDone (cmd_op ?c) (outputs p'))) s"
        by (simp add: finish_request_def Let_def s1_def settle_future_queues update_queue_finish [OF seqp(2)])
      finally show ?thesis .
    qed
    note F = finish_request_inv [OF inv q p(1) p(2) [symmetric] done_eq]
    have W: "W - keys_of ?m ?k = W - {ref_key r}"
    proof -
      have "{i. (?m, ?k, i) \<in> W} = {?i}" using I1 by (simp add: I_def)
      then have "(?m, ?k, j) \<in> W \<longleftrightarrow> j = ?i" for j by (simp add: set_eq_iff)
      then show ?thesis unfolding keys_of_def ref_key_def by (intro set_eqI) (case_tac x; force)
    qed
    have "ref_ok (service_queues s') r'" if r': "ref_ok (service_queues s) r'" "ref_key r' \<in> W - {ref_key r}" for r'
    proof -
      obtain q0 p0 where r0: "dget (service_queues s) (ref_model r') = Some q0" "p0 \<in> set (queue q0)"
        "pend_command p0 = ref_command r'" "ref_slot r' = mq_slot q0" using r'(1) by (auto simp: ref_ok_def)
      show ?thesis
      proof (cases "ref_model r' = ?m")
        case m: True
        have "seq_id (ref_command r') \<noteq> ?k"
          using r'(2) m unfolding W [symmetric] by (auto simp: keys_of_def ref_key_def)
        moreover have "dget (service_queues s') ?m = Some (mq_finish q ?k)" using F by auto
        ultimately show ?thesis using r0 q m unfolding ref_ok_def by (auto simp: mq_finish_def)
      next
        case False
        then show ?thesis using r0 F by (auto simp: ref_ok_def)
      qed
    qed
    then show ?thesis using F W by simp
  qed
qed

lemma record_refs_inv:
  assumes "core_inv cfg (ref_key ` set rs) {} s" "distinct (map ref_key rs)" "\<And>r. r \<in> set rs \<Longrightarrow> ref_ok (service_queues s) r"
    "length xs = length rs"
  shows "core_inv cfg {} {} (foldl (record_ref cfg env now) s (zip rs xs))"
  using assms
proof (induction rs arbitrary: xs s)
  case (Cons r rs)
  obtain x xs' where xs: "xs = x # xs'" using Cons.prems(4) by (cases xs) auto
  let ?s = "record_ref cfg env now s (r, x)"
  have R: "core_inv cfg (ref_key ` set (r # rs) - {ref_key r}) {} ?s"
    "\<And>r'. ref_ok (service_queues s) r' \<Longrightarrow> ref_key r' \<in> ref_key ` set (r # rs) - {ref_key r} \<Longrightarrow> ref_ok (service_queues ?s) r'"
    using record_ref_inv [OF Cons.prems(1) Cons.prems(3) [of r] _ refl, of env now x] by auto
  have sub: "ref_key ` set (r # rs) - {ref_key r} = ref_key ` set rs" using Cons.prems(2) by auto
  have "core_inv cfg {} {} (foldl (record_ref cfg env now) ?s (zip rs xs'))"
  proof (rule Cons.IH)
    show "core_inv cfg (ref_key ` set rs) {} ?s" using R(1) unfolding sub .
    show "ref_ok (service_queues ?s) r'" if "r' \<in> set rs" for r'
      by (rule R(2)) (use that Cons.prems(3) sub in auto)
  qed (use Cons.prems xs in auto)
  then show ?case by (simp add: xs)
qed simp

text \<open>
  Finishing a list of entries one after the other: \<open>closes\<close> says which of them close their
  model; later entries of a closed model are skipped.
\<close>

definition finishes :: "gateway_config \<Rightarrow> (service \<Rightarrow> 'e \<Rightarrow> service) \<Rightarrow> ('e \<Rightarrow> nat \<times> command) \<Rightarrow> ('e \<Rightarrow> bool) \<Rightarrow> bool" where
  "finishes cfg step key closes \<longleftrightarrow>
     (\<forall>s e W R q p. core_inv cfg W R s \<longrightarrow> dget (service_queues s) (fst (key e)) = Some q \<longrightarrow> p \<in> set (queue q)
        \<longrightarrow> pend_command p = snd (key e)
        \<longrightarrow> (case key e of (m, c) \<Rightarrow> core_inv cfg (W - keys_of m (seq_id c)) (R - {(m, seq_id c)}) (step s e)
          \<and> (\<forall>m'. m' \<noteq> m \<longrightarrow> dget (service_queues (step s e)) m' = dget (service_queues s) m')
          \<and> dget (service_queues (step s e)) m \<in> {None, Some (mq_finish q (seq_id c))}
          \<and> (closes e \<longleftrightarrow> dget (service_queues (step s e)) m = None)))
     \<and> (\<forall>s e W R. core_inv cfg W R s \<longrightarrow> closes e \<longrightarrow> dget (service_queues s) (fst (key e)) = None \<longrightarrow> step s e = s)"

lemma finishesD:
  assumes "finishes cfg step key closes" "core_inv cfg W R s" "key e = (m, c)"
  shows "dget (service_queues s) m = Some q \<Longrightarrow> p \<in> set (queue q) \<Longrightarrow> pend_command p = c
      \<Longrightarrow> core_inv cfg (W - keys_of m (seq_id c)) (R - {(m, seq_id c)}) (step s e)
          \<and> (\<forall>m'. m' \<noteq> m \<longrightarrow> dget (service_queues (step s e)) m' = dget (service_queues s) m')
          \<and> dget (service_queues (step s e)) m \<in> {None, Some (mq_finish q (seq_id c))}
          \<and> (closes e \<longleftrightarrow> dget (service_queues (step s e)) m = None)"
    and "closes e \<Longrightarrow> dget (service_queues s) m = None \<Longrightarrow> step s e = s"
proof -
  note F = assms(1) [unfolded finishes_def]
  show "core_inv cfg (W - keys_of m (seq_id c)) (R - {(m, seq_id c)}) (step s e)
          \<and> (\<forall>m'. m' \<noteq> m \<longrightarrow> dget (service_queues (step s e)) m' = dget (service_queues s) m')
          \<and> dget (service_queues (step s e)) m \<in> {None, Some (mq_finish q (seq_id c))}
          \<and> (closes e \<longleftrightarrow> dget (service_queues (step s e)) m = None)"
    if "dget (service_queues s) m = Some q" "p \<in> set (queue q)" "pend_command p = c"
    using conjunct1 [OF F, rule_format, OF assms(2), of e q p] that unfolding assms(3) fst_conv snd_conv prod.case by blast
  show "step s e = s" if "closes e" "dget (service_queues s) m = None"
    using conjunct2 [OF F, rule_format, OF assms(2) that(1)] that(2) unfolding assms(3) fst_conv by blast
qed

definition entry_in :: "queues \<Rightarrow> nat \<times> command \<Rightarrow> bool" where
  "entry_in qs x \<longleftrightarrow> (\<exists>q p. dget qs (fst x) = Some q \<and> p \<in> set (queue q) \<and> pend_command p = snd x)"

abbreviation key_set :: "('e \<Rightarrow> nat \<times> command) \<Rightarrow> 'e list \<Rightarrow> (nat \<times> nat) set" where
  "key_set key es \<equiv> (\<lambda>e. (fst (key e), seq_id (snd (key e)))) ` set es"

lemma core_inv_absent:
  assumes "core_inv cfg W R s" "dget (service_queues s) m = None"
  shows "core_inv cfg (W - keys_of m k) (R - {(m, k)}) s"
proof -
  have "work_ok (W - keys_of m k) (service_queues s)"
    by (rule work_ok_cong [of W]) (use assms in \<open>auto simp: core_inv_def keys_of_def\<close>)
  moreover have "history_ok (R - {(m, k)}) s"
    by (rule history_ok_cong [of R]) (use assms in \<open>auto simp: core_inv_def\<close>)
  ultimately show ?thesis using assms(1) by (simp add: core_inv_def)
qed

lemma finish_fold:
  assumes "finishes cfg step key closes" "core_inv cfg W R s" "distinct (map (\<lambda>e. (fst (key e), seq_id (snd (key e)))) es)"
    "\<And>e. e \<in> set es \<Longrightarrow> closes e \<and> dget (service_queues s) (fst (key e)) = None \<or> entry_in (service_queues s) (key e)"
    "\<And>e e'. e \<in> set es \<Longrightarrow> e' \<in> set es \<Longrightarrow> fst (key e) = fst (key e') \<Longrightarrow> closes e \<Longrightarrow> closes e'"
  shows "core_inv cfg (W - {x. (fst x, fst (snd x)) \<in> key_set key es}) (R - key_set key es) (foldl step s es)"
  using assms(2-)
proof (induction es arbitrary: s W R)
  case (Cons e es)
  obtain m c where key: "key e = (m, c)" by (rule prod.exhaust)
  let ?s = "step s e"
  have inv: "core_inv cfg (W - keys_of m (seq_id c)) (R - {(m, seq_id c)}) ?s"
    and later: "\<And>e'. e' \<in> set es \<Longrightarrow> closes e' \<and> dget (service_queues ?s) (fst (key e')) = None \<or> entry_in (service_queues ?s) (key e')"
  proof -
    have "core_inv cfg (W - keys_of m (seq_id c)) (R - {(m, seq_id c)}) ?s \<and> (\<forall>e'\<in>set es.
        closes e' \<and> dget (service_queues ?s) (fst (key e')) = None \<or> entry_in (service_queues ?s) (key e'))"
    proof (cases "closes e \<and> dget (service_queues s) m = None")
      case True
      then have "?s = s" using finishesD(2) [OF assms(1) Cons.prems(1) key] by blast
      then show ?thesis using core_inv_absent [OF Cons.prems(1)] True Cons.prems(3) by auto
    next
      case False
      then have "entry_in (service_queues s) (m, c)" using Cons.prems(3) [of e] key by auto
      then obtain q p where q: "dget (service_queues s) m = Some q" "p \<in> set (queue q)" "pend_command p = c"
        by (auto simp: entry_in_def)
      have F: "core_inv cfg (W - keys_of m (seq_id c)) (R - {(m, seq_id c)}) ?s"
        "\<And>m'. m' \<noteq> m \<Longrightarrow> dget (service_queues ?s) m' = dget (service_queues s) m'"
        "dget (service_queues ?s) m \<in> {None, Some (mq_finish q (seq_id c))}"
        "closes e \<longleftrightarrow> dget (service_queues ?s) m = None"
        using finishesD(1) [OF assms(1) Cons.prems(1) key q] by blast+
      have "closes e' \<and> dget (service_queues ?s) (fst (key e')) = None \<or> entry_in (service_queues ?s) (key e')"
        if e': "e' \<in> set es" for e'
      proof (cases "fst (key e') = m")
        case same: True
        show ?thesis
        proof (cases "closes e")
          case True
          then have "closes e'" using Cons.prems(4) [of e e'] e' same key by simp
          then show ?thesis using F(4) True same by simp
        next
          case False
          then have qs: "dget (service_queues ?s) m = Some (mq_finish q (seq_id c))" using F(3,4) by auto
          have "seq_id (snd (key e')) \<noteq> seq_id c"
          proof
            assume "seq_id (snd (key e')) = seq_id c"
            then have "(m, seq_id c) = (fst (key e'), seq_id (snd (key e')))" using same by simp
            then have "(m, seq_id c) \<in> key_set key es" using e' by (rule image_eqI)
            then show False using Cons.prems(2) key by simp
          qed
          moreover have "entry_in (service_queues s) (key e')" using Cons.prems(3) [of e'] e' same q(1) by auto
          ultimately show ?thesis using same q(1) qs by (auto simp: entry_in_def mq_finish_def)
        qed
      next
        case other: False
        then have "dget (service_queues ?s) (fst (key e')) = dget (service_queues s) (fst (key e'))" by (rule F(2))
        then show ?thesis using Cons.prems(3) [of e'] e' by (auto simp: entry_in_def)
      qed
      then show ?thesis using F(1) by blast
    qed
    then show "core_inv cfg (W - keys_of m (seq_id c)) (R - {(m, seq_id c)}) ?s"
      "\<And>e'. e' \<in> set es \<Longrightarrow> closes e' \<and> dget (service_queues ?s) (fst (key e')) = None \<or> entry_in (service_queues ?s) (key e')"
      by blast+
  qed
  have "core_inv cfg ((W - keys_of m (seq_id c)) - {x. (fst x, fst (snd x)) \<in> key_set key es})
      ((R - {(m, seq_id c)}) - key_set key es) (foldl step ?s es)"
    by (rule Cons.IH [OF inv _ later]) (use Cons.prems in auto)
  moreover have "(W - keys_of m (seq_id c)) - {x. (fst x, fst (snd x)) \<in> key_set key es}
      = W - {x. (fst x, fst (snd x)) \<in> key_set key (e # es)}" using key by (auto simp: keys_of_def)
  moreover have "(R - {(m, seq_id c)}) - key_set key es = R - key_set key (e # es)" using key by auto
  ultimately show ?case by simp
qed simp

lemma finishes_request:
  "finishes cfg (\<lambda>s e. finish_request cfg env now (fst (key e)) (snd (key e)) (out e) s) key
     (\<lambda>e. isl (out e) \<and> requires_model_close_on_failure (cmd_op (snd (key e))))"
  unfolding finishes_def
proof (intro conjI allI impI)
  fix s e W R q p
  assume a: "core_inv cfg W R s" "dget (service_queues s) (fst (key e)) = Some q" "p \<in> set (queue q)" "pend_command p = snd (key e)"
  show "case key e of (m, c) \<Rightarrow> core_inv cfg (W - keys_of m (seq_id c)) (R - {(m, seq_id c)})
            (finish_request cfg env now (fst (key e)) (snd (key e)) (out e) s)
          \<and> (\<forall>m'. m' \<noteq> m \<longrightarrow> dget (service_queues (finish_request cfg env now (fst (key e)) (snd (key e)) (out e) s)) m' = dget (service_queues s) m')
          \<and> dget (service_queues (finish_request cfg env now (fst (key e)) (snd (key e)) (out e) s)) m \<in> {None, Some (mq_finish q (seq_id c))}
          \<and> (isl (out e) \<and> requires_model_close_on_failure (cmd_op (snd (key e)))
              \<longleftrightarrow> dget (service_queues (finish_request cfg env now (fst (key e)) (snd (key e)) (out e) s)) m = None)"
    using finish_request_inv [OF a(1-3) a(4) [symmetric] refl, of env now "out e"]
    unfolding case_prod_beta by blast
next
  fix s e W R
  assume a: "core_inv cfg W R s" "isl (out e) \<and> requires_model_close_on_failure (cmd_op (snd (key e)))"
    "dget (service_queues s) (fst (key e)) = None"
  then have "dget (models s) (fst (key e)) = None" using slots_okD(3) [of cfg s] by (simp add: core_inv_def)
  then show "finish_request cfg env now (fst (key e)) (snd (key e)) (out e) s = s"
    using a(2) by (cases "out e") (auto simp: finish_request_def Let_def close_model_def)
qed

lemma core_inv_sampling:
  assumes "core_inv cfg W R s" "next_id s \<le> n"
  shows "core_inv cfg W R (s\<lparr> sampling_sessions := x, next_id := n \<rparr>)"
proof -
  let ?s = "s\<lparr> sampling_sessions := x, next_id := n \<rparr>"
  have I: "work_ok W (service_queues s)" "slots_ok cfg s" "requests_ok s" "records_ok s" "futures_ok s"
    "commands_await s" "creations_await s" "history_ok R s" "\<not> died s" using assms(1) by (simp_all add: core_inv_def)
  have ow: "owed ?s rid w = owed s rid w" for rid w by (cases w) (simp_all add: owed_def)
  note D = slots_okD [OF I(2)]
  have "slots_ok cfg ?s"
  proof (rule slots_okI)
    show "m < next_id ?s \<and> rec_slot r < n_slots cfg \<and> rec_slot r \<notin> free_slots ?s" if "dget (models ?s) m = Some r" for m r
      using D(5) [of m r] that assms(2) by simp
  qed (use D in auto)
  moreover have "records_ok ?s" using I(4) assms(2) unfolding records_ok_def by (auto intro: less_le_trans)
  moreover have "futures_ok ?s" using I(5) assms(2) unfolding futures_ok_def ow by (auto intro: less_le_trans)
  moreover have "history_ok R ?s" using I(8) assms(2) unfolding history_ok_def by (auto intro: less_le_trans)
  ultimately show ?thesis using I by (simp add: core_inv_def requests_ok_def commands_await_def creations_await_def)
qed

definition barrier_result :: "barrier_entry \<times> barrier_outcome \<Rightarrow> service \<Rightarrow> (string \<times> string) + tinker_result" where
  "barrier_result x s = (case x of ((m, _, c), outcome) \<Rightarrow> (case outcome of
       BarrierFailed err category \<Rightarrow> Inl (err, category)
     | BarrierOk \<Rightarrow> Inr (BarrierDone (cmd_op c) None)
     | SamplerSaved \<Rightarrow> Inr (BarrierDone (cmd_op c) (if cmd_op c = SAVE_WEIGHTS_FOR_SAMPLER then Some (next_id s) else None))))"

lemma finish_barrier_eq:
  assumes "core_inv cfg W R s" "dget (service_queues s) m = Some q"
  shows "\<exists>x n. next_id s \<le> n \<and> finish_barrier cfg env now s ((m, sl, c), outcome)
    = finish_request cfg env now m c (barrier_result ((m, sl, c), outcome) s) (s\<lparr> sampling_sessions := x, next_id := n \<rparr>)"
proof (cases "outcome = SamplerSaved \<and> cmd_op c = SAVE_WEIGHTS_FOR_SAMPLER")
  case True
  have "dget (models s) m \<noteq> None" using slots_okD(3) [of cfg s m] assms by (auto simp: core_inv_def)
  then obtain r where r: "dget (models s) m = Some r" by blast
  show ?thesis
    by (rule exI [of _ "dset (sampling_sessions s) (next_id s)
          \<lparr> samp_tenant = rec_tenant r, samp_session = rec_session r, samples_by_seq = [] \<rparr>"], rule exI [of _ "next_id s + 1"])
      (use True r in \<open>simp add: finish_barrier_def new_sampling_session_def barrier_result_def\<close>)
next
  case False
  show ?thesis
    by (rule exI [of _ "sampling_sessions s"], rule exI [of _ "next_id s"])
      (use False in \<open>cases outcome; simp add: finish_barrier_def barrier_result_def\<close>)
qed

definition barrier_closes :: "barrier_entry \<times> barrier_outcome \<Rightarrow> bool" where
  "barrier_closes x \<longleftrightarrow> (case x of ((_, _, c), outcome) \<Rightarrow>
     requires_model_close_on_failure (cmd_op c) \<and> (case outcome of BarrierFailed _ _ \<Rightarrow> True | _ \<Rightarrow> False))"

lemma finishes_barrier:
  "finishes cfg (finish_barrier cfg env now) (\<lambda>x. case fst x of (m, _, c) \<Rightarrow> (m, c)) barrier_closes"
  unfolding finishes_def
proof (intro conjI allI impI)
  fix s and e :: "barrier_entry \<times> barrier_outcome" and W R q p
  obtain m sl c outcome where e: "e = ((m, sl, c), outcome)" by (metis prod.exhaust)
  let ?key = "\<lambda>x :: barrier_entry \<times> barrier_outcome. case fst x of (m, _, c) \<Rightarrow> (m, c)"
  assume a: "core_inv cfg W R s" "dget (service_queues s) (fst (?key e)) = Some q" "p \<in> set (queue q)" "pend_command p = snd (?key e)"
  have q: "dget (service_queues s) m = Some q" and c: "c = pend_command p" using a(2,4) by (simp_all add: e)
  obtain x n where n: "next_id s \<le> n" and eq: "finish_barrier cfg env now s e
    = finish_request cfg env now m c (barrier_result e s) (s\<lparr> sampling_sessions := x, next_id := n \<rparr>)"
    using finish_barrier_eq [OF a(1) q, of env now sl c outcome] unfolding e by blast
  have "isl (barrier_result e s) \<and> requires_model_close_on_failure (cmd_op c) \<longleftrightarrow> barrier_closes e"
    by (cases outcome) (simp_all add: e barrier_result_def barrier_closes_def)
  then show "case ?key e of (m, c) \<Rightarrow> core_inv cfg (W - keys_of m (seq_id c)) (R - {(m, seq_id c)}) (finish_barrier cfg env now s e)
          \<and> (\<forall>m'. m' \<noteq> m \<longrightarrow> dget (service_queues (finish_barrier cfg env now s e)) m' = dget (service_queues s) m')
          \<and> dget (service_queues (finish_barrier cfg env now s e)) m \<in> {None, Some (mq_finish q (seq_id c))}
          \<and> (barrier_closes e \<longleftrightarrow> dget (service_queues (finish_barrier cfg env now s e)) m = None)"
    using finish_request_inv [OF core_inv_sampling [OF a(1) n, of x] _ a(3) c refl, of m env now "barrier_result e s"] q
    unfolding eq by (simp add: e)
next
  fix s and e :: "barrier_entry \<times> barrier_outcome" and W R
  obtain m sl c outcome where e: "e = ((m, sl, c), outcome)" by (metis prod.exhaust)
  assume a: "core_inv cfg W R s" "barrier_closes e" "dget (service_queues s) (fst (case fst e of (m, _, c) \<Rightarrow> (m, c))) = None"
  then have "dget (models s) m = None" using slots_okD(3) [of cfg s] by (simp add: core_inv_def e)
  then show "finish_barrier cfg env now s e = s"
    using a(2) by (cases outcome) (simp_all add: e barrier_closes_def finish_barrier_def finish_request_def Let_def close_model_def)
qed

lemma ref_entry: "ref_ok qs r \<Longrightarrow> entry_in qs (ref_model r, ref_command r)"
  by (auto simp: ref_ok_def entry_in_def)

text \<open>Two references to the same request of the queues carry the same command.\<close>

lemma same_request:
  assumes inv: "core_inv cfg W R s" and r: "entry_in (service_queues s) (m, c)" "entry_in (service_queues s) (m', c')"
  shows "request_id c = request_id c' \<longleftrightarrow> (m, c) = (m', c')" "(m, seq_id c) = (m', seq_id c') \<longleftrightarrow> (m, c) = (m', c')"
proof -
  obtain q p q' p' where q: "dget (service_queues s) m = Some q" "p \<in> set (queue q)" "pend_command p = c"
    "dget (service_queues s) m' = Some q'" "p' \<in> set (queue q')" "pend_command p' = c'" using r by (auto simp: entry_in_def)
  have unique: "c = c'" if "m = m'" "seq_id c = seq_id c'"
  proof -
    have "order_ok q" using inv q(1) by (auto simp: core_inv_def work_ok_def queue_ok_def)
    then have "p = p'" using entry_unique [of q p p'] q that by simp
    then show ?thesis using q by simp
  qed
  have "c \<in> commands q" "c' \<in> commands q'" using q by (auto simp: commands_def)
  then have "awaiting (futures s) (request_id c) (CommandOf m (seq_id c)) (mq_tenant q)"
    "awaiting (futures s) (request_id c') (CommandOf m' (seq_id c')) (mq_tenant q')"
    using inv q unfolding core_inv_def commands_await_def by blast+
  then have "m = m' \<and> seq_id c = seq_id c'" if "request_id c = request_id c'" using that by (auto simp: awaiting_def)
  then show "request_id c = request_id c' \<longleftrightarrow> (m, c) = (m', c')" "(m, seq_id c) = (m', seq_id c') \<longleftrightarrow> (m, c) = (m', c')"
    using unique by auto
qed

lemma batch_requests_spec:
  "set (batch_requests rs) \<subseteq> (\<lambda>r. (ref_model r, ref_slot r, ref_command r)) ` set rs"
  "r \<in> set rs \<Longrightarrow> request_id (ref_command r) \<in> (\<lambda>(m, sl, c). request_id c) ` set (batch_requests rs)"
  "distinct (map (\<lambda>(m, sl, c). request_id c) (batch_requests rs))"
proof -
  let ?L = "map (\<lambda>r. (request_id (ref_command r), (ref_model r, ref_slot r, ref_command r))) rs"
  let ?d = "dupdate [] ?L"
  have d: "dict_ok ?d" by simp
  have get: "dget ?d k = map_of (rev ?L) k" for k using dget_dupdate_rev [of "[]" ?L] by simp
  have from_ref: "\<exists>r\<in>set rs. k = request_id (ref_command r) \<and> v = (ref_model r, ref_slot r, ref_command r)" if "(k, v) \<in> set ?d" for k v
  proof -
    have "map_of (rev ?L) k = Some v" using that get dget_in [OF d] by simp
    then have "(k, v) \<in> set ?L" using map_of_SomeD by fastforce
    then show ?thesis by auto
  qed
  show "set (batch_requests rs) \<subseteq> (\<lambda>r. (ref_model r, ref_slot r, ref_command r)) ` set rs"
    unfolding batch_requests_def using from_ref by fastforce
  have ids: "map (\<lambda>(m, sl, c). request_id c) (batch_requests rs) = dkeys ?d"
    unfolding batch_requests_def map_map
  proof (rule map_cong [OF refl])
    fix x assume "x \<in> set ?d"
    then show "((\<lambda>(m, sl, c). request_id c) \<circ> snd) x = fst x" using from_ref [of "fst x" "snd x"] by auto
  qed
  show "distinct (map (\<lambda>(m, sl, c). request_id c) (batch_requests rs))" unfolding ids using d by (simp add: dict_ok_def)
  show "request_id (ref_command r) \<in> (\<lambda>(m, sl, c). request_id c) ` set (batch_requests rs)" if r: "r \<in> set rs"
  proof -
    have "map_of (rev ?L) (request_id (ref_command r)) \<noteq> None"
      using r by (auto simp: map_of_eq_None_iff image_iff)
    then have "dget ?d (request_id (ref_command r)) \<noteq> None" unfolding get .
    then have "request_id (ref_command r) \<in> set (dkeys ?d)" by (simp add: map_of_eq_None_iff)
    then show ?thesis unfolding ids [symmetric] set_map .
  qed
qed

lemma run_batch_inv:
  assumes inv: "core_inv cfg (ref_key ` set (batch_datums u)) {} s" and d: "distinct (map ref_key (batch_datums u))"
    and refs: "\<And>r. r \<in> set (batch_datums u) \<Longrightarrow> ref_ok (service_queues s) r"
    and op: "\<And>r r'. r \<in> set (batch_datums u) \<Longrightarrow> r' \<in> set (batch_datums u) \<Longrightarrow> cmd_op (ref_command r) = cmd_op (ref_command r')"
    and len: "\<And>xs. outcome = BatchOutputs xs \<Longrightarrow> length xs = length (batch_datums u)"
  shows "core_inv cfg {} {} (run_batch cfg env now u outcome s)"
proof (cases outcome)
  case (BatchOutputs xs)
  let ?rs = "sort_key ref_slot (batch_datums u)"
  have "core_inv cfg {} {} (foldl (record_ref cfg env now) s (zip ?rs xs))"
  proof (rule record_refs_inv)
    show "core_inv cfg (ref_key ` set ?rs) {} s" using inv by simp
    show "distinct (map ref_key ?rs)" using d by (simp add: distinct_map)
    show "ref_ok (service_queues s) r" if "r \<in> set ?rs" for r using refs that by simp
    show "length xs = length ?rs" using len [OF BatchOutputs] by simp
  qed
  then show ?thesis using len [OF BatchOutputs] by (simp add: run_batch_def Let_def BatchOutputs)
next
  case (BatchFailed err category)
  let ?es = "batch_requests (batch_datums u)"
  define key where "key = (\<lambda>e :: barrier_entry. case e of (m, sl, c) \<Rightarrow> (m, c))"
  let ?closes = "\<lambda>e. isl (Inl (err, category) :: (string \<times> string) + tinker_result) \<and> requires_model_close_on_failure (cmd_op (snd (key e)))"
  let ?step = "\<lambda>s e. finish_request cfg env now (fst (key e)) (snd (key e)) (Inl (err, category)) s"
  have from_ref: "\<exists>r\<in>set (batch_datums u). key e = (ref_model r, ref_command r)" if "e \<in> set ?es" for e
    using that batch_requests_spec(1) [of "batch_datums u"] by (auto simp: key_def)
  have ent: "entry_in (service_queues s) (key e)" if e: "e \<in> set ?es" for e
  proof -
    obtain r where "r \<in> set (batch_datums u)" "key e = (ref_model r, ref_command r)" using from_ref [OF e] by blast
    then show ?thesis using ref_entry [OF refs] by simp
  qed
  have "core_inv cfg (ref_key ` set (batch_datums u) - {x. (fst x, fst (snd x)) \<in> key_set key ?es}) ({} - key_set key ?es) (foldl ?step s ?es)"
  proof (rule finish_fold [OF finishes_request inv])
    have "inj_on (\<lambda>e. (fst (key e), seq_id (snd (key e)))) (set ?es)"
    proof (rule inj_onI)
      fix e e' assume e: "e \<in> set ?es" "e' \<in> set ?es"
        and eq: "(fst (key e), seq_id (snd (key e))) = (fst (key e'), seq_id (snd (key e')))"
      have "key e = key e'"
        using same_request(2) [OF inv, of "fst (key e)" "snd (key e)" "fst (key e')" "snd (key e')"] ent [OF e(1)] ent [OF e(2)] eq by simp
      then have "(\<lambda>(m, sl, c). request_id c) e = (\<lambda>(m, sl, c). request_id c) e'" by (auto simp: key_def split: prod.splits)
      then show "e = e'" using batch_requests_spec(3) [of "batch_datums u"] e by (auto simp: distinct_map dest: inj_onD)
    qed
    then show "distinct (map (\<lambda>e. (fst (key e), seq_id (snd (key e)))) ?es)"
      using batch_requests_spec(3) [of "batch_datums u"] by (simp add: distinct_map)
    show "?closes e \<and> dget (service_queues s) (fst (key e)) = None \<or> entry_in (service_queues s) (key e)" if "e \<in> set ?es" for e
      using ent [OF that] by blast
    show "?closes e'" if e: "e \<in> set ?es" "e' \<in> set ?es" "?closes e" for e e'
    proof -
      obtain r r' where "r \<in> set (batch_datums u)" "key e = (ref_model r, ref_command r)"
        "r' \<in> set (batch_datums u)" "key e' = (ref_model r', ref_command r')" using from_ref [OF e(1)] from_ref [OF e(2)] by blast
      then show ?thesis using e(3) op [of r r'] by simp
    qed
  qed
  moreover have "ref_key ` set (batch_datums u) - {x. (fst x, fst (snd x)) \<in> key_set key ?es} = {}"
  proof -
    have "(ref_model r, seq_id (ref_command r)) \<in> key_set key ?es" if r: "r \<in> set (batch_datums u)" for r
    proof -
      obtain e where e: "e \<in> set ?es" "request_id (snd (key e)) = request_id (ref_command r)"
        using batch_requests_spec(2) [OF r] by (auto simp: key_def)
      have "key e = (ref_model r, ref_command r)"
        using same_request(1) [OF inv, of "fst (key e)" "snd (key e)" "ref_model r" "ref_command r"] ent [OF e(1)]
          ref_entry [OF refs [OF r]] e(2) by simp
      then show ?thesis using e(1) by (intro image_eqI [of _ _ e]) simp_all
    qed
    then show ?thesis by (auto simp: ref_key_def)
  qed
  moreover have "run_batch cfg env now u outcome s = foldl ?step s ?es"
    by (simp add: run_batch_def Let_def BatchFailed key_def case_prod_unfold)
  ultimately show ?thesis by simp
qed

lemma head_entry: "entry_head qs e \<Longrightarrow> entry_in qs (fst e, snd (snd e))"
  by (auto simp: entry_head_def entry_in_def)

lemma run_barrier_inv:
  assumes inv: "core_inv cfg {} ((\<lambda>(m, _, c). (m, seq_id c)) ` set es) s" and d: "distinct (map fst es)"
    and heads: "\<And>e. e \<in> set es \<Longrightarrow> entry_head (service_queues s) e" and len: "length outcomes = length es"
  shows "core_inv cfg {} {} (run_barrier cfg env now es outcomes s)"
proof -
  let ?key = "\<lambda>x :: barrier_entry \<times> barrier_outcome. case fst x of (m, _, c) \<Rightarrow> (m, c)"
  let ?R = "(\<lambda>(m, _, c). (m, seq_id c)) ` set es"
  have ks: "key_set ?key (zip es outcomes) = ?R"
  proof -
    have "map (\<lambda>x. (fst (?key x), seq_id (snd (?key x)))) (zip es outcomes) = map (\<lambda>(m, _, c). (m, seq_id c)) (map fst (zip es outcomes))"
      by (simp add: case_prod_beta)
    then have "set (map (\<lambda>x. (fst (?key x), seq_id (snd (?key x)))) (zip es outcomes)) = set (map (\<lambda>(m, _, c). (m, seq_id c)) es)"
      using len by (simp only: map_fst_zip)
    then show ?thesis by (simp only: set_map)
  qed
  have d': "distinct (map (\<lambda>x. fst (?key x)) (zip es outcomes))"
  proof -
    have "map (\<lambda>x. fst (?key x)) (zip es outcomes) = map fst (map fst (zip es outcomes))" by (simp add: case_prod_beta)
    then show ?thesis using d len by simp
  qed
  have "core_inv cfg ({} - {x. (fst x, fst (snd x)) \<in> key_set ?key (zip es outcomes)}) (?R - key_set ?key (zip es outcomes))
      (foldl (finish_barrier cfg env now) s (zip es outcomes))"
  proof (rule finish_fold [OF finishes_barrier inv])
    show "distinct (map (\<lambda>e. (fst (?key e), seq_id (snd (?key e)))) (zip es outcomes))"
      using d' by (auto simp: distinct_map inj_on_def)
    show "barrier_closes e \<and> dget (service_queues s) (fst (?key e)) = None \<or> entry_in (service_queues s) (?key e)"
      if "e \<in> set (zip es outcomes)" for e
    proof -
      have "fst e \<in> set es" using that set_zip_leftD [of "fst e" "snd e" es outcomes] by simp
      from head_entry [OF heads [OF this]] show ?thesis by (simp add: case_prod_beta)
    qed
    show "barrier_closes e'" if "e \<in> set (zip es outcomes)" "e' \<in> set (zip es outcomes)" "fst (?key e) = fst (?key e')" "barrier_closes e" for e e'
    proof -
      have "e = e'" using d' that(1-3) unfolding distinct_map by (auto dest: inj_onD)
      then show ?thesis using that(4) by simp
    qed
  qed
  then show ?thesis unfolding ks using len by (simp add: run_barrier_def)
qed

lemma settle_frame [simp]:
  "running (settle_future now st rid s) = running s" "history (settle_future now st rid s) = history s"
  by (cases "settle now st rid (futures s)"; simp add: settle_future_def)+

lemma close_frame [simp]:
  "running (close_model cfg env now m err category s) = running s" "history (close_model cfg env now m err category s) = history s"
  by (cases "dget (models s) m"; simp add: close_model_def)+

lemma finish_frame [simp]:
  "running (finish_request cfg env now m c outcome s) = running s" "history (finish_request cfg env now m c outcome s) = history s"
  by (cases outcome; simp add: finish_request_def case_prod_unfold)+

lemma record_ref_running: "running (record_ref cfg env now s x) = running s"
proof (cases "find_entry (ref_model (fst x)) (seq_id (ref_command (fst x))) s")
  case None
  then show ?thesis by (simp add: record_ref_def Let_def)
next
  case (Some p)
  obtain p' finished where "record_output p (local_index (fst x)) (snd x) = (p', finished)" by fastforce
  then show ?thesis using Some by (simp add: record_ref_def Let_def)
qed

lemma finish_barrier_running: "running (finish_barrier cfg env now s x) = running s"
  by (auto simp: finish_barrier_def new_sampling_session_def split: prod.splits barrier_outcome.splits option.splits)

lemma foldl_running: "(\<And>s x. running (f s x) = running s) \<Longrightarrow> running (foldl f s xs) = running s"
  by (induction xs arbitrary: s) simp_all

lemma run_batch_running: "running (run_batch cfg env now u outcome s) = running s"
proof (cases outcome)
  case (BatchFailed err category)
  then show ?thesis by (simp add: run_batch_def Let_def case_prod_unfold foldl_running)
next
  case (BatchOutputs xs)
  then show ?thesis by (simp add: run_batch_def Let_def foldl_running record_ref_running)
qed

lemma run_barrier_running: "running (run_barrier cfg env now es outcomes s) = running s"
  unfolding run_barrier_def by (simp add: foldl_running finish_barrier_running)

text \<open>The outcomes the backend may report: one output per datum, one outcome per barrier entry.\<close>

definition answer_ok :: "work_unit option \<Rightarrow> batch_outcome \<Rightarrow> barrier_outcome list \<Rightarrow> bool" where
  "answer_ok u batch_out barrier_out \<longleftrightarrow> (case u of
       None \<Rightarrow> True
     | Some (BatchUnit b) \<Rightarrow> (case batch_out of BatchOutputs xs \<Rightarrow> length xs = length (batch_datums b) | _ \<Rightarrow> True)
     | Some (BarrierUnit _ es) \<Rightarrow> length barrier_out = length es)"

definition same_op :: "work_unit option \<Rightarrow> bool" where
  "same_op u \<longleftrightarrow> (case u of Some (BatchUnit b) \<Rightarrow> \<forall>r\<in>set (batch_datums b). cmd_op (ref_command r) = batch_op b | _ \<Rightarrow> True)"

definition gateway_inv :: "gateway_config \<Rightarrow> service \<Rightarrow> bool" where
  "gateway_inv cfg s \<longleftrightarrow> service_inv cfg s \<and> same_op (running s)"

lemma idle_inv:
  assumes "core_inv cfg {} {} s" "running s = None"
  shows "gateway_inv cfg s"
  using assms by (simp add: gateway_inv_def service_inv_def inflight_def in_progress_def running_ok_def same_op_def)

lemma unit_ends_inv:
  assumes inv: "gateway_inv cfg s" and ok: "answer_ok (running s) batch_out barrier_out" "\<not> trainer_dead env"
  shows "gateway_inv cfg (unit_ends cfg env now batch_out barrier_out s)"
proof (cases "running s")
  case None
  then show ?thesis using inv by (simp add: unit_ends_def)
next
  case (Some u)
  have S: "core_inv cfg (inflight (Some u)) (in_progress (Some u)) (s\<lparr> running := None \<rparr>)" "running_ok s" "same_op (Some u)"
    using inv Some by (simp_all add: gateway_inv_def service_inv_def)
  show ?thesis
  proof (cases u)
    case (BatchUnit b)
    have "core_inv cfg {} {} (run_batch cfg env now b batch_out (s\<lparr> running := None \<rparr>))"
    proof (rule run_batch_inv)
      show "core_inv cfg (ref_key ` set (batch_datums b)) {} (s\<lparr> running := None \<rparr>)"
        using S(1) by (simp add: BatchUnit inflight_def in_progress_def)
      show "distinct (map ref_key (batch_datums b))" using S(2) Some by (simp add: BatchUnit running_ok_def)
      show "ref_ok (service_queues (s\<lparr> running := None \<rparr>)) r" if "r \<in> set (batch_datums b)" for r
        using S(2) Some that by (simp add: BatchUnit running_ok_def)
      show "cmd_op (ref_command r) = cmd_op (ref_command r')" if "r \<in> set (batch_datums b)" "r' \<in> set (batch_datums b)" for r r'
        using S(3) that by (simp add: BatchUnit same_op_def)
      show "length xs = length (batch_datums b)" if "batch_out = BatchOutputs xs" for xs
        using ok(1) Some that by (simp add: BatchUnit answer_ok_def)
    qed
    then show ?thesis using Some ok(2)
      by (intro idle_inv) (simp_all add: unit_ends_def BatchUnit Let_def run_batch_running)
  next
    case (BarrierUnit op es)
    have "core_inv cfg {} {} (run_barrier cfg env now es barrier_out (s\<lparr> running := None \<rparr>))"
    proof (rule run_barrier_inv)
      show "core_inv cfg {} ((\<lambda>(m, _, c). (m, seq_id c)) ` set es) (s\<lparr> running := None \<rparr>)"
        using S(1) by (simp add: BarrierUnit inflight_def in_progress_def)
      show "distinct (map fst es)" using S(2) Some by (simp add: BarrierUnit running_ok_def)
      show "entry_head (service_queues (s\<lparr> running := None \<rparr>)) e" if "e \<in> set es" for e
        using S(2) Some that by (simp add: BarrierUnit running_ok_def barrier_head_def)
      show "length barrier_out = length es" using ok(1) Some by (simp add: BarrierUnit answer_ok_def)
    qed
    then show ?thesis using Some ok(2)
      by (intro idle_inv) (simp_all add: unit_ends_def BarrierUnit Let_def run_barrier_running)
  qed
qed

section \<open>Dispatching\<close>

lemma open_run_before:
  assumes "order_ok q" "p \<in> set (open_batch_run q)" "p' \<in> set (queue q)" "\<not> live_batch p'"
  shows "pend_seq p < pend_seq p'"
proof -
  let ?P = "\<lambda>p. is_batch_op p \<and> admitted p"
  have split: "queue q = open_batch_run q @ dropWhile ?P (queue q)" by (simp add: open_batch_run_def)
  then have "sorted_wrt (<) (map pend_seq (open_batch_run q @ dropWhile ?P (queue q)))"
    using assms(1) unfolding order_ok_def by metis
  moreover have "p' \<in> set (dropWhile ?P (queue q))"
  proof -
    have "p' \<notin> set (open_batch_run q)" using assms(4) open_run_subset by blast
    moreover have "p' \<in> set (open_batch_run q) \<union> set (dropWhile ?P (queue q))" using assms(3) split by (metis set_append)
    ultimately show ?thesis by blast
  qed
  ultimately show ?thesis using assms(2) by (simp add: sorted_wrt_append)
qed

lemma sorted_wrt_distinct:
  "distinct xs \<Longrightarrow> (\<And>x y. x \<in> set xs \<Longrightarrow> y \<in> set xs \<Longrightarrow> x \<noteq> y \<Longrightarrow> P x y) \<Longrightarrow> sorted_wrt P xs"
  by (induction xs) auto

lemma history_append:
  assumes "history_ok {} s" "sorted_wrt before hs" "\<And>h h'. h \<in> set (history s) \<Longrightarrow> h' \<in> set hs \<Longrightarrow> before h h'"
    "\<And>h. h \<in> set hs \<Longrightarrow> fst h < next_id s \<and> (\<forall>q. dget (service_queues s) (fst h) = Some q
          \<longrightarrow> fst (snd h) \<le> last_enqueued_seq_id q \<and> (\<forall>p\<in>set (queue q). entry_after R h p))"
  shows "history_ok R (s\<lparr> running := u, history := history s @ hs \<rparr>)"
proof -
  have "history_ok R s" by (rule history_ok_cong [OF assms(1)]) simp
  then show ?thesis using assms(2-) unfolding history_ok_def by (auto simp: sorted_wrt_append)
qed

end
