(* ===== verification/TinkerRequests.thy ===== *)
theory TinkerRequests
  imports TinkerInvariants
begin

text \<open>
  The requests of clients keep the invariant of \<open>TinkerInvariants\<close>: futures that come, are
  swept or settled, new and retried commands, the creation of models and the loading of slots.
\<close>

lemma core_invD:
  assumes "core_inv cfg W R s"
  shows "work_ok W (service_queues s)" "slots_ok cfg s" "requests_ok s" "records_ok s" "futures_ok s"
    "commands_await s" "creations_await s" "history_ok R s" "\<not> died s"
  using assms by (simp_all add: core_inv_def)

lemma work_okD: "work_ok W qs \<Longrightarrow> dget qs m = Some q \<Longrightarrow> queue_ok (\<lambda>s. {i. (m, s, i) \<in> W}) q" "work_ok W qs \<Longrightarrow> dict_ok qs"
  by (simp_all add: work_ok_def)

section \<open>Futures come and go\<close>

lemmas core_parts = core_inv_def slots_ok_def requests_ok_def records_ok_def futures_ok_def owed_def commands_await_def
  creations_await_def history_ok_def

text \<open>Fields the invariant does not read.\<close>

lemma core_inv_frame [simp]:
  "core_inv cfg W R (s\<lparr> sessions := x \<rparr>) = core_inv cfg W R s"
  "core_inv cfg W R (s\<lparr> sampling_sessions := y \<rparr>) = core_inv cfg W R s"
  "core_inv cfg W R (s\<lparr> arrival_counter := n \<rparr>) = core_inv cfg W R s"
  by (simp_all add: core_parts cong: fut_owner.case_cong)

lemma core_inv_retain:
  assumes inv: "core_inv cfg W R s" and fs: "fails_at_most {} t (futures s) fs"
  shows "core_inv cfg W R (s\<lparr> futures := fs \<rparr>)"
proof -
  let ?s = "s\<lparr> futures := fs \<rparr>"
  note I = core_invD [OF inv] and D = fails_at_mostD [OF fs]
  have keep: "awaiting fs rid w tn" if "awaiting (futures s) rid w tn" for rid w tn
    using that D(2) unfolding awaiting_def by blast
  have "futures_ok ?s"
    unfolding futures_ok_def
  proof (intro conjI allI impI)
    fix rid f assume f: "futures ?s rid = Some f"
    obtain f0 where f0: "futures s rid = Some f0" using D(3) f by auto
    show "rid < next_id ?s" using futures_okD(2) [OF I(5) f0] by simp
    assume "fut_state f = PENDING"
    then have "owed s rid (fut_owner f)" using D(4) [of rid f] f futures_okD(3) [OF I(5), of rid f] by simp
    then show "owed ?s rid (fut_owner f)" by (simp add: owed_def cong: fut_owner.case_cong)
  qed (simp add: D(1))
  moreover have "records_ok ?s"
    unfolding records_ok_def
  proof (intro allI impI conjI)
    fix m r rid assume r: "dget (models ?s) m = Some r" "rid \<in> set (model_requests r)"
    have *: "rid < next_id s" "\<And>f. futures s rid = Some f \<Longrightarrow> owner_model (fut_owner f) = Some m" using I(4) r unfolding records_ok_def by auto
    show "rid < next_id ?s" using * by simp
    fix f assume "futures ?s rid = Some f"
    then obtain f0 where "futures s rid = Some f0" "fut_owner f = fut_owner f0" using D(3) by auto
    then show "owner_model (fut_owner f) = Some m" using *(2) by simp
  qed
  ultimately show ?thesis using I keep
    by (simp add: core_inv_def slots_ok_def requests_ok_def commands_await_def creations_await_def history_ok_def)
qed

lemma sweep_fails_at_most: "futures_wf fs \<Longrightarrow> fails_at_most {} t fs (sweep now fs)"
  by (rule fails_at_mostI) (auto dest: sweep_old intro: sweep_pending sweep_wf)

lemma core_inv_sweep: "core_inv cfg W R s \<Longrightarrow> core_inv cfg W R (s\<lparr> futures := sweep now (futures s) \<rparr>)"
  using core_inv_retain sweep_fails_at_most core_invD(5) futures_okD(1) by blast

text \<open>A new future under the next identifier, pending for a sampling task or settled at once.\<close>

lemma core_inv_add:
  assumes inv: "core_inv cfg W R s" and f: "fut_state f = PENDING \<longleftrightarrow> finished_at f = None"
    and task: "fut_state f = PENDING \<Longrightarrow> fut_owner f = SampleRequest \<and> next_id s \<in> set (dkeys ts)"
    and ts: "set (dkeys (sample_tasks s)) \<subseteq> set (dkeys ts)" and n: "next_id s < n"
  shows "core_inv cfg W R (s\<lparr> futures := (futures s)(next_id s \<mapsto> f), next_id := n, sample_tasks := ts \<rparr>)"
proof -
  let ?s = "s\<lparr> futures := (futures s)(next_id s \<mapsto> f), next_id := n, sample_tasks := ts \<rparr>"
  note I = core_invD [OF inv]
  have fresh: "futures s (next_id s) = None" using futures_okD(2) [OF I(5), of "next_id s"] by (cases "futures s (next_id s)") auto
  have keep: "awaiting (futures ?s) rid w tn" if "awaiting (futures s) rid w tn" for rid w tn
    using that fresh unfolding awaiting_def by auto
  have "futures_ok ?s"
    unfolding futures_ok_def
  proof (intro conjI allI impI)
    show "futures_wf (futures ?s)" using futures_okD(1) [OF I(5)] f by (simp add: futures_wf_def)
    fix rid g assume g: "futures ?s rid = Some g"
    show "rid < next_id ?s" using g n futures_okD(2) [OF I(5), of rid] by (cases "rid = next_id s") auto
    assume p: "fut_state g = PENDING"
    show "owed ?s rid (fut_owner g)"
    proof (cases "rid = next_id s")
      case True
      then show ?thesis using g p task by (simp add: owed_def)
    next
      case False
      then have "owed s rid (fut_owner g)" using g p futures_okD(3) [OF I(5)] by simp
      then show ?thesis using ts by (auto simp: owed_def split: fut_owner.splits)
    qed
  qed
  moreover have "records_ok ?s" using I(4) n unfolding records_ok_def by (auto intro: less_trans)
  moreover have "slots_ok cfg ?s"
  proof -
    have "m < n" if "dget (models s) m = Some r" for m r using slots_okD(5) [OF I(2) that] n by simp
    then show ?thesis using I(2) unfolding slots_ok_def by auto
  qed
  moreover have "history_ok R ?s" using I(8) n unfolding history_ok_def by (auto intro: less_trans)
  ultimately show ?thesis using I keep
    by (simp add: core_inv_def requests_ok_def commands_await_def creations_await_def)
qed

lemma core_inv_tasks:
  assumes inv: "core_inv cfg W R s"
    and ts: "\<And>rid. rid \<in> set (dkeys (sample_tasks s)) \<Longrightarrow> rid \<notin> set (dkeys ts) \<Longrightarrow> \<forall>f. futures s rid = Some f \<longrightarrow> fut_state f \<noteq> PENDING"
  shows "core_inv cfg W R (s\<lparr> sample_tasks := ts \<rparr>)"
proof -
  note I = core_invD [OF inv]
  have "futures_ok (s\<lparr> sample_tasks := ts \<rparr>)"
    unfolding futures_ok_def
  proof (intro conjI allI impI)
    fix rid f assume f: "futures (s\<lparr> sample_tasks := ts \<rparr>) rid = Some f" "fut_state f = PENDING"
    then have "owed s rid (fut_owner f)" using futures_okD(3) [OF I(5)] by simp
    then show "owed (s\<lparr> sample_tasks := ts \<rparr>) rid (fut_owner f)"
      using ts [of rid] f by (auto simp: owed_def split: fut_owner.splits)
  qed (use futures_okD [OF I(5)] in simp_all)
  then show ?thesis using I
    by (simp add: core_inv_def slots_ok_def requests_ok_def records_ok_def commands_await_def creations_await_def history_ok_def)
qed

lemma settle_sample_inv:
  assumes inv: "core_inv cfg W R s" and f: "futures s rid = Some f" "fut_owner f = SampleRequest" and st: "st \<noteq> PENDING"
    and s': "s' = settle_future now st rid s"
  shows "core_inv cfg W R s' \<and> (\<exists>g. futures s' rid = Some g \<and> fut_owner g = SampleRequest \<and> fut_state g \<noteq> PENDING)
    \<and> (\<forall>k. k \<noteq> rid \<longrightarrow> futures s' k = futures s k)"
proof (cases "fut_state f = PENDING")
  case False
  then show ?thesis using inv f s' by (auto simp: settle_future_def settle_def)
next
  case True
  let ?g = "f\<lparr> fut_state := st, finished_at := Some now \<rparr>"
  have e: "s' = s\<lparr> futures := (futures s)(rid \<mapsto> ?g) \<rparr>" using settle_Inr [of "futures s" rid f st now] f(1) True st s' by (simp add: settle_future_def)
  note I = core_invD [OF inv]
  have keep: "awaiting (futures s') k w tn" if "awaiting (futures s) k w tn" "w \<noteq> SampleRequest" for k w tn
    using that f unfolding awaiting_def e by (cases "k = rid") auto
  have "futures_ok s'"
    unfolding futures_ok_def
  proof (intro conjI allI impI)
    show "futures_wf (futures s')" using futures_okD(1) [OF I(5)] st by (simp add: futures_wf_def e)
    fix k h assume h: "futures s' k = Some h"
    then show "k < next_id s'" using futures_okD(2) [OF I(5)] f(1) by (cases "k = rid") (auto simp: e)
    assume "fut_state h = PENDING"
    then have "futures s k = Some h" using h st by (auto simp: e split: if_splits)
    then have "owed s k (fut_owner h)" using futures_okD(3) [OF I(5)] \<open>fut_state h = PENDING\<close> by blast
    then show "owed s' k (fut_owner h)" by (simp add: owed_def e cong: fut_owner.case_cong)
  qed
  moreover have "records_ok s'" using I(4) f(1) unfolding records_ok_def by (auto simp: e)
  ultimately have "core_inv cfg W R s'" using I keep
    by (simp add: core_inv_def slots_ok_def requests_ok_def commands_await_def creations_await_def history_ok_def e)
  then show ?thesis using f(2) st by (simp add: e)
qed

text \<open>Asking again for a request that was answered: the same future, or a new one that has failed.\<close>

lemma request_retry_spec:
  assumes inv: "core_inv cfg W R s" and r: "request_id_for_retry now rid owner tenant s = (res, s')"
  shows "core_inv cfg W R s' \<and> (\<exists>fs n. s' = s\<lparr> futures := fs, next_id := n \<rparr> \<and> next_id s \<le> n)
    \<and> (\<forall>k f. futures s' k = Some f \<longrightarrow> k < next_id s \<longrightarrow> (\<exists>f0. futures s k = Some f0 \<and> fut_owner f0 = fut_owner f))
    \<and> (\<forall>rid'. res = Inr rid' \<longrightarrow> rid' = rid
         \<or> sweep now (futures s) rid = None \<and> rid' < next_id s' \<and> (\<exists>f. futures s' rid' = Some f \<and> fut_owner f = owner))"
proof -
  let ?fs = "sweep now (futures s)"
  let ?s = "s\<lparr> futures := ?fs \<rparr>"
  have core: "core_inv cfg W R ?s" by (rule core_inv_sweep [OF inv])
  have old: "\<And>k f. ?fs k = Some f \<Longrightarrow> \<exists>f0. futures s k = Some f0 \<and> fut_owner f0 = fut_owner f" using sweep_old by blast
  have same: "\<exists>fs n. ?s = s\<lparr> futures := fs, next_id := n \<rparr> \<and> next_id s \<le> n"
    by (intro exI [of _ ?fs] exI [of _ "next_id s"]) simp
  show ?thesis
  proof (cases "?fs rid")
    case (Some f)
    then have "s' = ?s" "\<And>rid'. res = Inr rid' \<Longrightarrow> rid' = rid"
      using r by (auto simp: request_id_for_retry_def get_future_def Let_def split: if_splits)
    then show ?thesis using core old same by auto
  next
    case None
    let ?f = "(new_future owner tenant)\<lparr> fut_state := FAILED ''result expired after retention'' ''user'', finished_at := Some now \<rparr>"
    have e: "s' = ?s\<lparr> futures := (futures ?s)(next_id s \<mapsto> ?f), next_id := next_id s + 1 \<rparr>" "res = Inr (next_id s)"
      using r None by (auto simp: request_id_for_retry_def get_future_def Let_def create_future_def settle_future_def settle_def new_future_def)
    have "core_inv cfg W R (?s\<lparr> futures := (futures ?s)(next_id ?s \<mapsto> ?f), next_id := next_id ?s + 1, sample_tasks := sample_tasks ?s \<rparr>)"
      by (rule core_inv_add [OF core]) simp_all
    then have "core_inv cfg W R s'" by (simp add: e)
    then show ?thesis using None old by (auto simp: e new_future_def intro!: exI [of _ "(sweep now (futures s))(next_id s \<mapsto> ?f)"] exI [of _ "next_id s + 1"])
  qed
qed

section \<open>Requests\<close>

lemma validated_ok: "is_batch op \<Longrightarrow> validate_batch_payload op p cfg = None \<Longrightarrow> payload_datums p \<noteq> []"
  by (auto simp: validate_batch_payload_def split: if_splits)

lemma pending_later: "queue_ok F q \<Longrightarrow> c \<in> snd ` set (pending_by_seq q) \<Longrightarrow> last_enqueued_seq_id q < seq_id c"
  by (force simp: queue_ok_def pending_ok_def)

lemma set_dset_subset: "set (dset d k v) \<subseteq> insert (k, v) (set d)"
  by (induction d) auto

lemma dget_None_keys: "dget d k = None \<longleftrightarrow> k \<notin> set (dkeys d)"
  by (simp add: map_of_eq_None_iff)

text \<open>A sequence id the model has not seen is beyond its queue.\<close>

lemma unseen_seq:
  assumes inv: "core_inv cfg W R s" and m: "dget (models s) m = Some r" "dget (service_queues s) m = Some q"
    and k: "1 \<le> k" "dget (request_by_seq r) k = None"
  shows "last_enqueued_seq_id q < k" "k \<notin> set (dkeys (pending_by_seq q))" "c \<in> commands q \<Longrightarrow> seq_id c \<noteq> k"
proof -
  note I = core_invD [OF inv]
  have all: "dget (request_by_seq r) (seq_id c) = Some (request_id c)" if "c \<in> commands q" for c
    using I(3) m that unfolding requests_ok_def by blast
  show "last_enqueued_seq_id q < k"
  proof (rule ccontr)
    assume "\<not> last_enqueued_seq_id q < k"
    then have "dget (request_by_seq r) k \<noteq> None" using I(3) m k(1) unfolding requests_ok_def by (meson not_less)
    then show False using k(2) by blast
  qed
  show seq: "seq_id c \<noteq> k" if "c \<in> commands q" for c using all [OF that] k(2) by auto
  show "k \<notin> set (dkeys (pending_by_seq q))"
  proof
    assume "k \<in> set (dkeys (pending_by_seq q))"
    then obtain c where c: "(k, c) \<in> set (pending_by_seq q)" by auto
    then have "seq_id c = k" using work_okD(1) [OF I(1) m(2)] by (auto simp: queue_ok_def pending_ok_def)
    moreover have "c \<in> commands q" using c by (force simp: commands_def)
    ultimately show False using seq by blast
  qed
qed

lemma submit_new_inv:
  assumes inv: "core_inv cfg W R s" and m: "dget (models s) m = Some r" "dget (service_queues s) m = Some q"
    and k: "1 \<le> k" "dget (request_by_seq r) k = None"
    and c: "seq_id c = k" "request_id c = next_id s" "command_ok c"
    and s': "s' = s\<lparr> futures := (futures s)(next_id s \<mapsto> new_future (CommandOf m k) (rec_tenant r)), next_id := next_id s + 1,
        models := dset (models s) m (r\<lparr> request_by_seq := dset (request_by_seq r) k (next_id s) \<rparr>),
        service_queues := update_queue m (\<lambda>q. mq_submit q c) (service_queues s) \<rparr>"
  shows "core_inv cfg W R s'"
proof -
  note I = core_invD [OF inv] and un = unseen_seq [OF inv m k]
  let ?F = "\<lambda>s. {i. (m, s, i) \<in> W}" and ?q = "mq_submit q c"
  let ?r = "r\<lparr> request_by_seq := dset (request_by_seq r) k (next_id s) \<rparr>"
  have all: "dget (request_by_seq r) (seq_id c) = Some (request_id c)" if "c \<in> commands q" for c
    using I(3) m that unfolding requests_ok_def by blast
  have "seq_id c \<notin> set (dkeys (pending_by_seq q))" "last_enqueued_seq_id q < seq_id c" using un c(1) by simp_all
  from mq_submit_spec [OF work_okD(1) [OF I(1) m(2)] c(3) this(2,1)] obtain cs where Q: "queue_ok ?F ?q" "commands ?q = insert c (commands q)"
    "last_enqueued_seq_id q \<le> last_enqueued_seq_id ?q" "mq_slot ?q = mq_slot q" "mq_tenant ?q = mq_tenant q"
    "queue ?q = queue q @ map new_pending cs" "set cs \<subseteq> insert c (snd ` set (pending_by_seq q))"
    "\<And>j. last_enqueued_seq_id q < j \<Longrightarrow> j \<le> last_enqueued_seq_id ?q \<Longrightarrow> j = seq_id c \<or> j \<in> set (dkeys (pending_by_seq q))"
    by blast
  have qs: "dget (service_queues s') j = (if j = m then Some ?q else dget (service_queues s) j)" for j using m(2) by (simp add: s')
  have ms: "dget (models s') j = (if j = m then Some ?r else dget (models s) j)" for j by (simp add: s')
  have fs: "futures s' j = (if j = next_id s then Some (new_future (CommandOf m k) (rec_tenant r)) else futures s j)" for j by (simp add: s')
  have fresh: "futures s (next_id s) = None" using futures_okD(2) [OF I(5), of "next_id s"] by (cases "futures s (next_id s)") auto
  have keep: "awaiting (futures s') rid w tn" if "awaiting (futures s) rid w tn" for rid w tn
    using that fresh unfolding awaiting_def by (auto simp: fs)
  have slot: "mq_slot q = rec_slot r" "mq_tenant q = rec_tenant r" using slots_okD(4) [OF I(2) m] by simp_all
  have "work_ok W (service_queues s')"
    unfolding work_ok_def
  proof (intro conjI allI impI)
    show "dict_ok (service_queues s')" using work_okD(2) [OF I(1)] by (simp add: s')
    show "queue_ok (\<lambda>s. {i. (j, s, i) \<in> W}) q'" if "dget (service_queues s') j = Some q'" for j q'
      using that Q(1) work_okD(1) [OF I(1)] by (auto simp: qs split: if_splits)
  qed
  moreover have "slots_ok cfg s'"
  proof (rule slots_okI)
    note D = slots_okD [OF I(2)]
    show "dict_ok (models s')" "free_slots s' \<subseteq> {0..<n_slots cfg}" using D(1,2) by (simp_all add: s')
    show "dget (models s') j = None \<longleftrightarrow> dget (service_queues s') j = None" for j using D(3) by (simp add: ms qs)
    show "mq_slot q' = rec_slot r' \<and> mq_tenant q' = rec_tenant r'"
      if "dget (models s') j = Some r'" "dget (service_queues s') j = Some q'" for j r' q'
      using that D(4) slot Q(4,5) by (auto simp: ms qs split: if_splits)
    show "j < next_id s' \<and> rec_slot r' < n_slots cfg \<and> rec_slot r' \<notin> free_slots s'" if "dget (models s') j = Some r'" for j r'
      using that D(5) [OF m(1)] D(5) [of j r'] by (auto simp: ms s' split: if_splits)
    show "j = j'" if "dget (models s') j = Some r1" "dget (models s') j' = Some r2" "rec_slot r1 = rec_slot r2" for j j' r1 r2
    proof -
      have "\<exists>r0. dget (models s) i = Some r0 \<and> rec_slot r0 = rec_slot r'" if "dget (models s') i = Some r'" for i r'
        using that m(1) by (auto simp: ms split: if_splits)
      then show ?thesis using that D(6) by metis
    qed
  qed
  moreover have "requests_ok s'"
    unfolding requests_ok_def
  proof (intro allI impI)
    fix j r' q' assume j: "dget (models s') j = Some r'" "dget (service_queues s') j = Some q'"
    show "(\<forall>c\<in>commands q'. dget (request_by_seq r') (seq_id c) = Some (request_id c))
       \<and> (\<forall>k. 1 \<le> k \<longrightarrow> k \<le> last_enqueued_seq_id q' \<longrightarrow> dget (request_by_seq r') k \<noteq> None)"
    proof (cases "j = m")
      case False
      then show ?thesis using j I(3) unfolding requests_ok_def by (simp add: ms qs)
    next
      case True
      then have e: "r' = ?r" "q' = ?q" using j by (simp_all add: ms qs)
      have "dget (request_by_seq r') (seq_id c') = Some (request_id c')" if "c' \<in> commands q'" for c'
        using that all un(3) c(1,2) by (auto simp: e Q(2))
      moreover have "dget (request_by_seq r') i \<noteq> None" if i: "1 \<le> i" "i \<le> last_enqueued_seq_id q'" for i
      proof (cases "i = k \<or> i \<le> last_enqueued_seq_id q")
        case True
        then show ?thesis using I(3) m i(1) unfolding requests_ok_def e by auto
      next
        case False
        then have "i \<in> set (dkeys (pending_by_seq q))" using Q(8) [of i] i(2) c(1) e by auto
        then obtain c' where c': "(i, c') \<in> set (pending_by_seq q)" by auto
        then have "seq_id c' = i" "c' \<in> commands q"
          using work_okD(1) [OF I(1) m(2)] by (auto simp: queue_ok_def pending_ok_def commands_def) force
        then show ?thesis using all [of c'] False by (simp add: e)
      qed
      ultimately show ?thesis by blast
    qed
  qed
  moreover have "records_ok s'"
    unfolding records_ok_def
  proof (intro allI impI)
    fix j r' rid assume j: "dget (models s') j = Some r'" and rid: "rid \<in> set (model_requests r')"
    have old: "rid < next_id s' \<and> (\<forall>f. futures s' rid = Some f \<longrightarrow> owner_model (fut_owner f) = Some j)"
      if "dget (models s) j = Some r0" "rid \<in> set (model_requests r0)" for r0
    proof -
      have "rid < next_id s \<and> (\<forall>f. futures s rid = Some f \<longrightarrow> owner_model (fut_owner f) = Some j)"
        using I(4) that unfolding records_ok_def by blast
      then show ?thesis by (simp add: fs) (simp add: s')
    qed
    show "rid < next_id s' \<and> (\<forall>f. futures s' rid = Some f \<longrightarrow> owner_model (fut_owner f) = Some j)"
    proof (cases "j = m")
      case False
      then show ?thesis using old j rid by (simp add: ms)
    next
      case True
      then have "r' = ?r" using j by (simp add: ms)
      then have "rid \<in> set (model_requests r) \<or> rid = next_id s"
        using rid k(2) by (auto simp: model_requests_def dset_fresh dget_None_keys)
      then show ?thesis using old [of r] m(1) True by (auto simp: fs new_future_def owner_model_def) (simp_all add: s')
    qed
  qed
  moreover have "futures_ok s'"
    unfolding futures_ok_def
  proof (intro conjI allI impI)
    show "futures_wf (futures s')" using futures_okD(1) [OF I(5)] by (simp add: futures_wf_def fs new_future_def)
    fix rid f assume f: "futures s' rid = Some f"
    show "rid < next_id s'" using f futures_okD(2) [OF I(5), of rid] by (cases "rid = next_id s") (auto simp: fs, auto simp: s')
    assume p: "fut_state f = PENDING"
    show "owed s' rid (fut_owner f)"
    proof (cases "rid = next_id s")
      case True
      then have "fut_owner f = CommandOf m k" using f by (auto simp: fs new_future_def)
      then show ?thesis using True Q(2) c by (auto simp: owed_def qs)
    next
      case False
      then have o: "owed s rid (fut_owner f)" using f p futures_okD(3) [OF I(5)] by (simp add: fs)
      show ?thesis
      proof (cases "fut_owner f")
        case (ModelCreation j)
        then show ?thesis using o m(1) by (auto simp: owed_def ms)
      next
        case (CommandOf j i)
        then show ?thesis using o m(2) Q(2) by (auto simp: owed_def qs)
      next
        case SampleRequest
        then show ?thesis using o by (simp add: owed_def s')
      qed
    qed
  qed
  moreover have "commands_await s'"
    unfolding commands_await_def
  proof (intro allI impI)
    fix j q' c' assume j: "dget (service_queues s') j = Some q'" and c': "c' \<in> commands q'"
    have old: "awaiting (futures s') (request_id c') (CommandOf j (seq_id c')) (mq_tenant q0)"
      if "dget (service_queues s) j = Some q0" "c' \<in> commands q0" for q0
      using I(6) that keep unfolding commands_await_def by blast
    show "awaiting (futures s') (request_id c') (CommandOf j (seq_id c')) (mq_tenant q')"
    proof (cases "j = m")
      case False
      then show ?thesis using old j c' by (simp add: qs)
    next
      case True
      then have e: "q' = ?q" using j by (simp add: qs)
      show ?thesis
      proof (cases "c' \<in> commands q")
        case True
        then show ?thesis using old [of q] m(2) \<open>j = m\<close> e Q(5) by simp
      next
        case False
        then have "c' = c" using c' e Q(2) by simp
        then show ?thesis using c \<open>j = m\<close> e Q(5) slot by (simp add: awaiting_def fs new_future_def)
      qed
    qed
  qed
  moreover have "creations_await s'"
    using I(7) keep m(1) unfolding creations_await_def by (auto simp: ms)
  moreover have "history_ok R s'"
  proof -
    have "fst (snd h) \<le> last_enqueued_seq_id q' \<and> (\<forall>p\<in>set (queue q'). entry_after R h p)"
      if h: "h \<in> set (history s)" and q': "dget (service_queues s') (fst h) = Some q'" for h q'
    proof (cases "fst h = m")
      case False
      then show ?thesis using I(8) h q' unfolding history_ok_def by (simp add: qs)
    next
      case True
      then have e: "q' = ?q" using q' by (simp add: qs)
      have old: "fst (snd h) \<le> last_enqueued_seq_id q" "\<forall>p\<in>set (queue q). entry_after R h p"
        using I(8) h True m(2) unfolding history_ok_def by auto
      have "entry_after R h (new_pending c')" if "c' \<in> set cs" for c'
      proof -
        have "last_enqueued_seq_id q < seq_id c'"
          using that Q(7) un(1) c(1) pending_later [OF work_okD(1) [OF I(1) m(2)], of c'] by auto
        then show ?thesis using old(1) by (cases h) (simp add: entry_after_def)
      qed
      then show ?thesis using old Q(3,6) e by auto
    qed
    then show ?thesis using I(8) unfolding history_ok_def by (auto simp: s' less_Suc_eq)
  qed
  moreover have "\<not> died s'" using I(9) by (simp add: s')
  ultimately show ?thesis by (simp add: core_inv_def)
qed

text \<open>Remembering the request of a sequence id that was asked again.\<close>

lemma remember_inv:
  assumes inv: "core_inv cfg W R s" and m: "dget (models s) m = Some r"
    and rid: "rid < next_id s" "\<And>f. futures s rid = Some f \<Longrightarrow> owner_model (fut_owner f) = Some m"
    and same: "\<And>q c. dget (service_queues s) m = Some q \<Longrightarrow> c \<in> commands q \<Longrightarrow> seq_id c = k \<Longrightarrow> request_id c = rid"
  shows "core_inv cfg W R (s\<lparr> models := dset (models s) m (r\<lparr> request_by_seq := dset (request_by_seq r) k rid \<rparr>) \<rparr>)"
proof -
  let ?r = "r\<lparr> request_by_seq := dset (request_by_seq r) k rid \<rparr>"
  let ?s = "s\<lparr> models := dset (models s) m ?r \<rparr>"
  note I = core_invD [OF inv]
  have ms: "dget (models ?s) j = (if j = m then Some ?r else dget (models s) j)" for j by simp
  have ex: "\<exists>r0. dget (models s) j = Some r0 \<and> rec_slot r0 = rec_slot r' \<and> rec_tenant r0 = rec_tenant r'
      \<and> create_request r0 = create_request r' \<and> slot_initialized r0 = slot_initialized r'" if "dget (models ?s) j = Some r'" for j r'
    using that m by (auto split: if_splits)
  have "slots_ok cfg ?s"
  proof (rule slots_okI)
    note D = slots_okD [OF I(2)]
    show "dict_ok (models ?s)" "free_slots ?s \<subseteq> {0..<n_slots cfg}" using D(1,2) by simp_all
    show "dget (models ?s) j = None \<longleftrightarrow> dget (service_queues ?s) j = None" for j using D(3) [of j] m by auto
    show "mq_slot q = rec_slot r' \<and> mq_tenant q = rec_tenant r'"
      if "dget (models ?s) j = Some r'" "dget (service_queues ?s) j = Some q" for j r' q
      using ex [OF that(1)] D(4) [of j _ q] that(2) by auto
    show "j < next_id ?s \<and> rec_slot r' < n_slots cfg \<and> rec_slot r' \<notin> free_slots ?s" if "dget (models ?s) j = Some r'" for j r'
      using ex [OF that] D(5) [of j] by auto
    show "j = j'" if "dget (models ?s) j = Some r1" "dget (models ?s) j' = Some r2" "rec_slot r1 = rec_slot r2" for j j' r1 r2
      using ex [OF that(1)] ex [OF that(2)] that(3) D(6) by metis
  qed
  moreover have "requests_ok ?s"
    unfolding requests_ok_def
  proof (intro allI impI)
    fix j r' q assume j: "dget (models ?s) j = Some r'" "dget (service_queues ?s) j = Some q"
    show "(\<forall>c\<in>commands q. dget (request_by_seq r') (seq_id c) = Some (request_id c))
       \<and> (\<forall>k. 1 \<le> k \<longrightarrow> k \<le> last_enqueued_seq_id q \<longrightarrow> dget (request_by_seq r') k \<noteq> None)"
    proof (cases "j = m")
      case False
      then show ?thesis using j I(3) unfolding requests_ok_def by simp
    next
      case True
      then have "(\<forall>c\<in>commands q. dget (request_by_seq r) (seq_id c) = Some (request_id c))
         \<and> (\<forall>k. 1 \<le> k \<longrightarrow> k \<le> last_enqueued_seq_id q \<longrightarrow> dget (request_by_seq r) k \<noteq> None)"
        using j m I(3) unfolding requests_ok_def by simp
      moreover have "r' = ?r" using j True by simp
      ultimately show ?thesis using same [of q] j(2) True by auto
    qed
  qed
  moreover have "records_ok ?s"
    unfolding records_ok_def
  proof (intro allI impI)
    fix j r' x assume j: "dget (models ?s) j = Some r'" and x: "x \<in> set (model_requests r')"
    have old: "x < next_id s \<and> (\<forall>f. futures s x = Some f \<longrightarrow> owner_model (fut_owner f) = Some j)"
      if "dget (models s) j = Some r0" "x \<in> set (model_requests r0)" for r0
      using I(4) that unfolding records_ok_def by blast
    show "x < next_id ?s \<and> (\<forall>f. futures ?s x = Some f \<longrightarrow> owner_model (fut_owner f) = Some j)"
    proof (cases "j = m")
      case False
      then show ?thesis using old j x by simp
    next
      case True
      then have "x \<in> set (model_requests ?r)" using j x by simp
      then have "x \<in> set (model_requests r) \<or> x = rid"
        using set_dset_subset [of k rid "request_by_seq r"] unfolding model_requests_def by auto
      then show ?thesis using old [of r] m True rid by auto
    qed
  qed
  moreover have "futures_ok ?s"
    unfolding futures_ok_def
  proof (intro conjI allI impI)
    fix x f assume f: "futures ?s x = Some f" "fut_state f = PENDING"
    have "owed s x (fut_owner f)" using f futures_okD(3) [OF I(5)] by simp
    show "owed ?s x (fut_owner f)"
    proof (cases "fut_owner f")
      case (ModelCreation j)
      then obtain r0 where "dget (models s) j = Some r0" "\<not> slot_initialized r0" "create_request r0 = x"
        using \<open>owed s x (fut_owner f)\<close> by (auto simp: owed_def)
      then show ?thesis using ModelCreation m by (cases "j = m") (simp_all add: owed_def)
    qed (use \<open>owed s x (fut_owner f)\<close> in \<open>simp_all add: owed_def\<close>)
  qed (use futures_okD [OF I(5)] in simp_all)
  moreover have "creations_await ?s" using I(7) m unfolding creations_await_def by auto
  ultimately show ?thesis using I by (simp add: core_inv_def commands_await_def history_ok_def)
qed

lemma validate_seq_id_min: "validate_seq_id v n = Inr k \<Longrightarrow> n \<le> k"
  by (auto simp: validate_seq_id_def split: wire.splits if_splits)

lemma get_model_Inr: "get_model tenant m s = Inr r \<longleftrightarrow> dget (models s) m = Some r \<and> rec_tenant r = tenant"
  by (auto simp: get_model_def split: option.splits)

lemma submit_new:
  assumes "get_model tenant (sp_model p) s = Inr r" "validate_seq_id (sp_seq p) 1 = Inr k" "dget (request_by_seq r) k = None"
  obtains c where "seq_id c = k" "request_id c = next_id s" "command_ok c" "cmd_op c = op"
    "submit cfg now tenant (Some op) p s = (Inr (next_id s), s\<lparr> futures := (futures s)(next_id s \<mapsto> new_future (CommandOf (sp_model p) k) (rec_tenant r)),
        next_id := next_id s + 1, models := dset (models s) (sp_model p) (r\<lparr> request_by_seq := dset (request_by_seq r) k (next_id s) \<rparr>),
        service_queues := update_queue (sp_model p) (\<lambda>q. mq_submit q c) (service_queues s), arrival_counter := arrival_counter s + 1 \<rparr>)"
proof -
  define err where "err = (case sp_error p of Some e \<Rightarrow> Some e | None \<Rightarrow> validate_batch_payload op (sp_batch p) cfg)"
  let ?c = "\<lparr> cmd_model = sp_model p, seq_id = k, cmd_op = op, payload = sp_batch p, request_id = next_id s,
      arrival = arrival_counter s + 1, validation_error = err \<rparr>"
  have "err = None \<Longrightarrow> validate_batch_payload op (sp_batch p) cfg = None" unfolding err_def by (simp split: option.splits)
  then have "command_ok ?c" using validated_ok by (auto simp: command_ok_def)
  moreover have "tenant = rec_tenant r" using assms(1) by (simp add: get_model_Inr)
  ultimately show ?thesis using assms
    by (intro that [of ?c]) (simp_all add: submit_def Let_def create_future_def flip: err_def)
qed

lemma submit_inv:
  assumes inv: "core_inv cfg W R s"
  shows "core_inv cfg W R (snd (submit cfg now tenant op_name p s))"
proof (cases "\<exists>op r k. op_name = Some op \<and> get_model tenant (sp_model p) s = Inr r \<and> validate_seq_id (sp_seq p) 1 = Inr k")
  case False
  then show ?thesis using inv by (auto simp: submit_def split: option.splits sum.splits)
next
  case True
  then obtain op r k where op: "op_name = Some op" "get_model tenant (sp_model p) s = Inr r" "validate_seq_id (sp_seq p) 1 = Inr k" by blast
  let ?m = "sp_model p"
  have m: "dget (models s) ?m = Some r" "rec_tenant r = tenant" using op(2) by (simp_all add: get_model_Inr)
  note I = core_invD [OF inv]
  show ?thesis
  proof (cases "dget (request_by_seq r) k")
    case None
    obtain q where q: "dget (service_queues s) ?m = Some q" using slots_okD(3) [OF I(2), of ?m] m(1) by fastforce
    obtain c where c: "seq_id c = k" "request_id c = next_id s" "command_ok c"
      "submit cfg now tenant (Some op) p s = (Inr (next_id s), s\<lparr> futures := (futures s)(next_id s \<mapsto> new_future (CommandOf ?m k) (rec_tenant r)),
        next_id := next_id s + 1, models := dset (models s) ?m (r\<lparr> request_by_seq := dset (request_by_seq r) k (next_id s) \<rparr>),
        service_queues := update_queue ?m (\<lambda>q. mq_submit q c) (service_queues s), arrival_counter := arrival_counter s + 1 \<rparr>)"
      by (rule submit_new [OF op(2,3) None])
    show ?thesis unfolding op(1) c(4) snd_conv core_inv_frame
      by (rule submit_new_inv [OF inv m(1) q validate_seq_id_min [OF op(3)] None c(1-3) refl])
  next
    case (Some rid)
    obtain res s' where r: "request_id_for_retry now rid (CommandOf ?m k) tenant s = (res, s')" by fastforce
    note spec = request_retry_spec [OF inv r]
    have core: "core_inv cfg W R s'" using spec by blast
    show ?thesis
    proof (cases res)
      case (Inl e)
      then show ?thesis using op Some r core by (simp add: submit_def)
    next
      case (Inr rid')
      obtain fs n where s': "s' = s\<lparr> futures := fs, next_id := n \<rparr>" "next_id s \<le> n" using spec by blast
      have own: "\<exists>f0. futures s x = Some f0 \<and> fut_owner f0 = fut_owner f" if "futures s' x = Some f" "x < next_id s" for x f
        using spec that by blast
      have rid': "rid' = rid \<or> sweep now (futures s) rid = None \<and> rid' < next_id s' \<and> (\<exists>f. futures s' rid' = Some f \<and> fut_owner f = CommandOf ?m k)"
        using spec Inr by blast
      have "(k, rid) \<in> set (request_by_seq r)" using Some by (rule map_of_SomeD)
      then have "rid \<in> set (model_requests r)" unfolding model_requests_def by force
      then have rid: "rid < next_id s" "\<And>f. futures s rid = Some f \<Longrightarrow> owner_model (fut_owner f) = Some ?m"
        using I(4) m(1) unfolding records_ok_def by blast+
      have ms: "dget (models s') ?m = Some r" using m(1) s' by simp
      have "core_inv cfg W R (s'\<lparr> models := dset (models s') ?m (r\<lparr> request_by_seq := dset (request_by_seq r) k rid' \<rparr>) \<rparr>)"
      proof (rule remember_inv [OF core ms])
        show "rid' < next_id s'" using rid' rid(1) s' by auto
        show "owner_model (fut_owner f) = Some ?m" if f: "futures s' rid' = Some f" for f
          using rid'
        proof
          assume "rid' = rid"
          then show ?thesis using own [of rid f] f rid by auto
        qed (use f in \<open>auto simp: owner_model_def\<close>)
        show "request_id c = rid'" if q: "dget (service_queues s') ?m = Some q" "c \<in> commands q" "seq_id c = k" for q c
        proof -
          have q': "dget (service_queues s) ?m = Some q" using q(1) s' by simp
          have "dget (request_by_seq r) (seq_id c) = Some (request_id c)" using I(3) m(1) q' q(2) unfolding requests_ok_def by blast
          then have c: "request_id c = rid" using Some q(3) by simp
          have "awaiting (futures s) rid (CommandOf ?m k) (mq_tenant q)" using I(6) q' q(2,3) c unfolding commands_await_def by blast
          then have "sweep now (futures s) rid \<noteq> None" using awaiting_sweep [OF futures_okD(1) [OF I(5)]] unfolding awaiting_def by blast
          then show ?thesis using rid' c by auto
        qed
      qed
      then show ?thesis using op Some r Inr by (simp add: submit_def)
    qed
  qed
qed

section \<open>Creating models\<close>

lemma create_new_inv:
  assumes inv: "core_inv cfg W R s" and slot: "slot \<in> free_slots s" and r: "rec_slot r = slot" "rec_tenant r = tenant"
      "create_request r = next_id s + 1" "request_by_seq r = []" "\<not> slot_initialized r"
    and s': "s' = s\<lparr> free_slots := free_slots s - {slot}, futures := (futures s)(next_id s + 1 \<mapsto> new_future (ModelCreation (next_id s)) tenant),
        next_id := next_id s + 2,
        models := dset (models s) (next_id s) r, service_queues := dset (service_queues s) (next_id s) (new_model_queue tenant slot) \<rparr>"
    and W: "fst ` W \<subseteq> {m. dget (service_queues s) m \<noteq> None}"
  shows "core_inv cfg W R s'"
proof -
  let ?m = "next_id s" and ?q = "new_model_queue tenant slot"
  note I = core_invD [OF inv] and D = slots_okD [OF core_invD(2) [OF inv]]
  have new: "dget (models s) ?m = None" using D(5) [of ?m] by (cases "dget (models s) ?m") auto
  then have newq: "dget (service_queues s) ?m = None" using D(3) by blast
  have qs: "dget (service_queues s') j = (if j = ?m then Some ?q else dget (service_queues s) j)" for j by (simp add: s')
  have ms: "dget (models s') j = (if j = ?m then Some r else dget (models s) j)" for j by (simp add: s')
  have fs: "futures s' j = (if j = Suc ?m then Some (new_future (ModelCreation ?m) tenant) else futures s j)" for j by (simp add: s')
  have fresh: "futures s (Suc ?m) = None" using futures_okD(2) [OF I(5), of "Suc ?m"] by (cases "futures s (Suc ?m)") auto
  have keep: "awaiting (futures s') rid w tn" if "awaiting (futures s) rid w tn" for rid w tn
    using that fresh unfolding awaiting_def by (auto simp: fs)
  have com: "commands ?q = {}" by (simp add: commands_def new_model_queue_def)
  have sl: "slot < n_slots cfg" using slot D(2) by auto
  have "work_ok W (service_queues s')"
    unfolding work_ok_def
  proof (intro conjI allI impI)
    show "dict_ok (service_queues s')" using work_okD(2) [OF I(1)] by (simp add: s')
    show "queue_ok (\<lambda>s. {i. (j, s, i) \<in> W}) q'" if "dget (service_queues s') j = Some q'" for j q'
    proof (cases "j = ?m")
      case True
      have "(?m, x, i) \<notin> W" for x i using W newq by (force simp: image_subset_iff)
      then show ?thesis using that True
        by (auto simp: qs queue_ok_def pending_ok_def order_ok_def entries_ok_def new_model_queue_def dict_ok_def)
    next
      case False
      then show ?thesis using that work_okD(1) [OF I(1)] by (simp add: qs)
    qed
  qed
  moreover have "slots_ok cfg s'"
  proof (rule slots_okI)
    show "dict_ok (models s')" using D(1) by (simp add: s')
    show "free_slots s' \<subseteq> {0..<n_slots cfg}" using D(2) by (auto simp: s')
    show "dget (models s') j = None \<longleftrightarrow> dget (service_queues s') j = None" for j using D(3) by (simp add: ms qs)
    show "mq_slot q' = rec_slot r' \<and> mq_tenant q' = rec_tenant r'"
      if "dget (models s') j = Some r'" "dget (service_queues s') j = Some q'" for j r' q'
      using that D(4) r by (auto simp: ms qs new_model_queue_def split: if_splits)
    show "j < next_id s' \<and> rec_slot r' < n_slots cfg \<and> rec_slot r' \<notin> free_slots s'" if "dget (models s') j = Some r'" for j r'
    proof (cases "j = ?m")
      case True
      then show ?thesis using that r(1) sl by (auto simp: ms) (auto simp: s')
    next
      case False
      then show ?thesis using that D(5) [of j r'] by (simp add: ms) (simp add: s')
    qed
    have other: "rec_slot r' \<noteq> slot" if "dget (models s) j = Some r'" for j r' using D(5) [OF that] slot by blast
    show "j = j'" if j: "dget (models s') j = Some r1" "dget (models s') j' = Some r2" "rec_slot r1 = rec_slot r2" for j j' r1 r2
    proof (cases "j = ?m"; cases "j' = ?m")
      assume "j = ?m" "j' \<noteq> ?m"
      then show ?thesis using j r(1) other [of j' r2] by (simp add: ms)
    next
      assume "j \<noteq> ?m" "j' = ?m"
      then show ?thesis using j r(1) other [of j r1] by (simp add: ms)
    next
      assume "j \<noteq> ?m" "j' \<noteq> ?m"
      then show ?thesis using j D(6) [of j r1 j' r2] by (simp add: ms)
    qed simp
  qed
  moreover have "requests_ok s'"
    using I(3) unfolding requests_ok_def by (auto simp: ms qs commands_def new_model_queue_def)
  moreover have "records_ok s'"
    unfolding records_ok_def
  proof (intro allI impI)
    fix j r' rid assume j: "dget (models s') j = Some r'" and rid: "rid \<in> set (model_requests r')"
    show "rid < next_id s' \<and> (\<forall>f. futures s' rid = Some f \<longrightarrow> owner_model (fut_owner f) = Some j)"
    proof (cases "j = ?m")
      case True
      then have "rid = Suc ?m" using j rid r by (auto simp: ms model_requests_def)
      then show ?thesis using True by (auto simp: fs new_future_def owner_model_def) (simp add: s')
    next
      case False
      then have "rid < next_id s \<and> (\<forall>f. futures s rid = Some f \<longrightarrow> owner_model (fut_owner f) = Some j)"
        using I(4) j rid unfolding records_ok_def by (simp add: ms)
      then show ?thesis by (simp add: fs) (simp add: s')
    qed
  qed
  moreover have "futures_ok s'"
    unfolding futures_ok_def
  proof (intro conjI allI impI)
    show "futures_wf (futures s')" using futures_okD(1) [OF I(5)] by (simp add: futures_wf_def fs new_future_def)
    fix rid f assume f: "futures s' rid = Some f"
    show "rid < next_id s'" using f futures_okD(2) [OF I(5), of rid] by (cases "rid = Suc ?m") (auto simp: fs, auto simp: s')
    assume p: "fut_state f = PENDING"
    show "owed s' rid (fut_owner f)"
    proof (cases "rid = Suc ?m")
      case True
      then have "fut_owner f = ModelCreation ?m" using f by (auto simp: fs new_future_def)
      then show ?thesis using True r by (auto simp: owed_def ms)
    next
      case False
      then have o: "owed s rid (fut_owner f)" using f p futures_okD(3) [OF I(5)] by (simp add: fs)
      show ?thesis
      proof (cases "fut_owner f")
        case (ModelCreation j)
        then show ?thesis using o new by (auto simp: owed_def ms)
      next
        case (CommandOf j i)
        then show ?thesis using o newq by (auto simp: owed_def qs)
      next
        case SampleRequest
        then show ?thesis using o by (simp add: owed_def s')
      qed
    qed
  qed
  moreover have "commands_await s'"
    using I(6) keep com unfolding commands_await_def by (auto simp: qs split: if_splits)
  moreover have "creations_await s'"
    unfolding creations_await_def
  proof (intro allI impI)
    fix j r' assume j: "dget (models s') j = Some r'" "\<not> slot_initialized r'"
    show "awaiting (futures s') (create_request r') (ModelCreation j) (rec_tenant r')"
    proof (cases "j = ?m")
      case True
      then show ?thesis using j r by (auto simp: ms awaiting_def fs new_future_def)
    next
      case False
      then show ?thesis using j I(7) keep unfolding creations_await_def by (simp add: ms)
    qed
  qed
  moreover have "history_ok R s'"
    using I(8) unfolding history_ok_def by (auto simp: qs) (auto simp: s' less_Suc_eq)
  moreover have "\<not> died s'" using I(9) by (simp add: s')
  ultimately show ?thesis by (simp add: core_inv_def)
qed

lemma create_model_inv:
  assumes inv: "core_inv cfg W R s" and W: "fst ` W \<subseteq> {m. dget (service_queues s) m \<noteq> None}"
  shows "core_inv cfg W R (snd (create_model cfg now tenant p s))"
proof (cases "\<exists>x k. session_for tenant (cp_session p) s = Inr x \<and> validate_seq_id (cp_model_seq p) 0 = Inr k")
  case False
  then show ?thesis using inv by (auto simp: create_model_def split: sum.splits)
next
  case True
  then obtain x k where x: "session_for tenant (cp_session p) s = Inr x" "validate_seq_id (cp_model_seq p) 0 = Inr k" by blast
  show ?thesis
  proof (cases "dget (models_by_seq x) k")
    case (Some y)
    obtain rid m where y: "y = (rid, m)" by (cases y)
    obtain res s' where r: "request_id_for_retry now rid (ModelCreation m) tenant s = (res, s')" by fastforce
    have "core_inv cfg W R s'" using request_retry_spec [OF inv r] by blast
    then show ?thesis using x Some y r by (cases res) (simp_all add: create_model_def)
  next
    case None
    show ?thesis
    proof (cases "\<exists>rank. cp_base_model p = config_base_model cfg \<and> validate_model_config (cp_lora p) cfg = Inr rank \<and> free_slots s \<noteq> {}")
      case False
      then show ?thesis using inv x None by (auto simp: create_model_def split: sum.splits)
    next
      case True
      then obtain rank where t: "cp_base_model p = config_base_model cfg" "validate_model_config (cp_lora p) cfg = Inr rank" "free_slots s \<noteq> {}" by blast
      let ?m = "next_id s" and ?slot = "Min (free_slots s)"
      let ?r = "\<lparr> rec_session = cp_session p, rec_tenant = tenant, rec_slot = ?slot, rec_rank = rank,
               create_request = next_id s + 1, request_by_seq = [], slot_initialized = False \<rparr>"
      let ?x = "x\<lparr> models_by_seq := dset (models_by_seq x) k (next_id s + 1, ?m) \<rparr>"
      have fin: "finite (free_slots s)" using slots_okD(2) [OF core_invD(2) [OF inv]] finite_subset by blast
      have "?slot \<in> free_slots s" using t(3) fin by simp
      from create_new_inv [OF inv this, of ?r tenant _, OF _ _ _ _ _ refl W]
      have "core_inv cfg W R (s\<lparr> free_slots := free_slots s - {?slot}, futures := (futures s)(next_id s + 1 \<mapsto> new_future (ModelCreation ?m) tenant),
        next_id := next_id s + 2,
        models := dset (models s) ?m ?r, service_queues := dset (service_queues s) ?m (new_model_queue tenant ?slot),
        sessions := dset (sessions s) (cp_session p) ?x \<rparr>)" by simp
      then show ?thesis using x None t by (simp add: create_model_def Let_def create_future_def)
    qed
  qed
qed

lemma core_inv_fewer_slots:
  assumes "core_inv cfg W R s" "fr \<subseteq> free_slots s"
  shows "core_inv cfg W R (s\<lparr> free_slots := fr \<rparr>)"
proof -
  note I = core_invD [OF assms(1)]
  have "slots_ok cfg (s\<lparr> free_slots := fr \<rparr>)" using I(2) assms(2) unfolding slots_ok_def by auto
  moreover have "futures_ok (s\<lparr> free_slots := fr \<rparr>)" using I(5) by (simp add: futures_ok_def owed_def cong: fut_owner.case_cong)
  ultimately show ?thesis using I
    by (simp add: core_inv_def requests_ok_def records_ok_def commands_await_def creations_await_def history_ok_def)
qed

lemma ddel_dset: "ddel (dset d k v) k = ddel d k"
  by (induction d) auto

lemma run_create_model_inv:
  assumes inv: "core_inv cfg W R s"
  shows "core_inv cfg W R (run_create_model cfg env now m failure s)"
proof (cases "\<exists>r. dget (models s) m = Some r \<and> \<not> slot_initialized r")
  case False
  then show ?thesis using inv by (auto simp: run_create_model_def split: option.splits)
next
  case True
  then obtain r where m: "dget (models s) m = Some r" and init: "\<not> slot_initialized r" by blast
  let ?r = "r\<lparr> slot_initialized := True \<rparr>"
  let ?s = "s\<lparr> models := dset (models s) m ?r \<rparr>"
  note I = core_invD [OF inv]
  show ?thesis
  proof (cases failure)
    case (Some err)
    have "model_requests ?r = model_requests r" by (simp add: model_requests_def)
    then have eq: "close_model cfg env now m err ''server'' ?s = (close_model cfg env now m err ''server'' s)
        \<lparr> free_slots := (if trainer_dead env then free_slots s else if unload_fails env (rec_slot r) then free_slots s
            else insert (rec_slot r) (free_slots s)) \<rparr>"
      using m init by (simp add: close_model_def ddel_dset)
    have free: "free_slots (close_model cfg env now m err ''server'' s) = (if trainer_dead env then free_slots s else insert (rec_slot r) (free_slots s))"
      using m init by (simp add: close_model_def)
    have "core_inv cfg W R (close_model cfg env now m err ''server'' ?s)"
      unfolding eq by (rule core_inv_fewer_slots [OF close_model_inv [OF inv]]) (auto simp: free)
    then show ?thesis using m init Some by (simp add: run_create_model_def)
  next
    case None
    let ?rid = "create_request r"
    obtain f where f: "futures s ?rid = Some f" "fut_state f = PENDING" "fut_owner f = ModelCreation m" "fut_tenant f = rec_tenant r"
      using I(7) m init unfolding creations_await_def awaiting_def by blast
    let ?g = "f\<lparr> fut_state := DONE (ModelCreated m), finished_at := Some now \<rparr>"
    define s' where "s' = ?s\<lparr> futures := (futures s)(?rid \<mapsto> ?g) \<rparr>"
    have "run_create_model cfg env now m failure s = s'"
      using m init None settle_Inr [of "futures s" ?rid f "DONE (ModelCreated m)" now] f(1,2)
      by (simp add: run_create_model_def settle_future_def s'_def)
    moreover have "core_inv cfg W R s'"
    proof -
      have ms: "dget (models s') j = (if j = m then Some ?r else dget (models s) j)" for j by (simp add: s'_def)
      have fs: "futures s' j = (if j = ?rid then Some ?g else futures s j)" for j by (simp add: s'_def)
      have keep: "awaiting (futures s') rid w tn" if "awaiting (futures s) rid w tn" "w \<noteq> ModelCreation m" for rid w tn
        using that f unfolding awaiting_def by (auto simp: fs)
      have "slots_ok cfg s'"
      proof (rule slots_okI)
        note D = slots_okD [OF I(2)]
        have ex: "\<exists>r0. dget (models s) j = Some r0 \<and> rec_slot r0 = rec_slot r' \<and> rec_tenant r0 = rec_tenant r'"
          if "dget (models s') j = Some r'" for j r' using that m by (auto simp: ms split: if_splits)
        show "dict_ok (models s')" "free_slots s' \<subseteq> {0..<n_slots cfg}" using D(1,2) by (simp_all add: s'_def)
        show "dget (models s') j = None \<longleftrightarrow> dget (service_queues s') j = None" for j using D(3) [of j] m by (auto simp: s'_def)
        show "mq_slot q = rec_slot r' \<and> mq_tenant q = rec_tenant r'"
          if "dget (models s') j = Some r'" "dget (service_queues s') j = Some q" for j r' q
          using ex [OF that(1)] D(4) [of j _ q] that(2) by (auto simp: s'_def)
        show "j < next_id s' \<and> rec_slot r' < n_slots cfg \<and> rec_slot r' \<notin> free_slots s'" if "dget (models s') j = Some r'" for j r'
          using ex [OF that] D(5) [of j] by (auto simp: s'_def)
        show "j = j'" if "dget (models s') j = Some r1" "dget (models s') j' = Some r2" "rec_slot r1 = rec_slot r2" for j j' r1 r2
          using ex [OF that(1)] ex [OF that(2)] that(3) D(6) by metis
      qed
      moreover have "requests_ok s'"
        using I(3) m unfolding requests_ok_def by (auto simp: ms) (auto simp: s'_def)
      moreover have "records_ok s'"
        unfolding records_ok_def
      proof (intro allI impI)
        fix j r' rid assume j: "dget (models s') j = Some r'" and rid: "rid \<in> set (model_requests r')"
        have "\<exists>r0. dget (models s) j = Some r0 \<and> rid \<in> set (model_requests r0)"
          using j rid m by (auto simp: ms model_requests_def split: if_splits)
        then have "rid < next_id s \<and> (\<forall>f. futures s rid = Some f \<longrightarrow> owner_model (fut_owner f) = Some j)"
          using I(4) unfolding records_ok_def by blast
        then show "rid < next_id s' \<and> (\<forall>f. futures s' rid = Some f \<longrightarrow> owner_model (fut_owner f) = Some j)"
          using f(1) by (auto simp: fs) (auto simp: s'_def)
      qed
      moreover have "futures_ok s'"
        unfolding futures_ok_def
      proof (intro conjI allI impI)
        show "futures_wf (futures s')" using futures_okD(1) [OF I(5)] by (simp add: futures_wf_def fs)
        fix rid h assume h: "futures s' rid = Some h"
        show "rid < next_id s'" using h f(1) futures_okD(2) [OF I(5), of rid] by (auto simp: fs split: if_splits) (auto simp: s'_def)
        assume p: "fut_state h = PENDING"
        then have ne: "rid \<noteq> ?rid" "futures s rid = Some h" using h by (auto simp: fs split: if_splits)
        then have o: "owed s rid (fut_owner h)" using futures_okD(3) [OF I(5)] p by blast
        show "owed s' rid (fut_owner h)"
        proof (cases "fut_owner h")
          case (ModelCreation j)
          then show ?thesis using o m ne(1) by (cases "j = m") (auto simp: owed_def ms)
        qed (use o in \<open>simp_all add: owed_def s'_def\<close>)
      qed
      moreover have "commands_await s'" using I(6) keep unfolding commands_await_def by (simp add: s'_def)
      moreover have "creations_await s'"
        unfolding creations_await_def
      proof (intro allI impI)
        fix j r' assume j: "dget (models s') j = Some r'" "\<not> slot_initialized r'"
        then have ne: "j \<noteq> m" by (auto simp: ms)
        then have "awaiting (futures s) (create_request r') (ModelCreation j) (rec_tenant r')" using j I(7) unfolding creations_await_def by (simp add: ms)
        then show "awaiting (futures s') (create_request r') (ModelCreation j) (rec_tenant r')" using keep ne by blast
      qed
      ultimately show ?thesis using I by (simp add: core_inv_def history_ok_def s'_def)
    qed
    ultimately show ?thesis by simp
  qed
qed

end
