(* ===== verification/TinkerGateway.thy ===== *)
theory TinkerGateway
  imports TinkerRequests
begin

text \<open>
  The Tinker gateway as a machine: the dispatcher, sampling tasks, leases, and what holds after
  every sequence of events.
\<close>

lemma gateway_idle: "gateway_inv cfg s \<Longrightarrow> running s = None \<Longrightarrow> core_inv cfg {} {} s"
  by (simp add: gateway_inv_def service_inv_def inflight_def in_progress_def)

lemma queue_order: "queue_ok F q \<Longrightarrow> order_ok q"
  by (simp add: queue_ok_def)

lemma rejections_inv:
  assumes inv: "core_inv cfg {} {} s" and es: "es = ready_rejections (service_queues s)"
  shows "core_inv cfg {} {} (foldl (\<lambda>s (m, _, c). finish_request cfg env now m c
            (Inl (case validation_error c of None \<Rightarrow> [] | Some e \<Rightarrow> e, ''user'')) s) s es)"
proof -
  let ?key = "\<lambda>e :: barrier_entry. (fst e, snd (snd e))"
  let ?out = "\<lambda>e :: barrier_entry. Inl (case validation_error (snd (snd e)) of None \<Rightarrow> [] | Some x \<Rightarrow> x, ''user'') :: (string \<times> string) + tinker_result"
  let ?step = "\<lambda>s e. finish_request cfg env now (fst (?key e)) (snd (?key e)) (?out e) s"
  note d = work_okD(2) [OF core_invD(1) [OF inv]]
  have dist: "distinct (map fst es)" using ready_rejections_distinct [OF d] es by simp
  have "core_inv cfg ({} - {x. (fst x, fst (snd x)) \<in> key_set ?key es}) ({} - key_set ?key es) (foldl ?step s es)"
  proof (rule finish_fold [OF finishes_request inv])
    show "distinct (map (\<lambda>e. (fst (?key e), seq_id (snd (?key e)))) es)"
      using dist by (auto simp: distinct_map inj_on_def)
    show "(isl (?out e) \<and> requires_model_close_on_failure (cmd_op (snd (?key e)))) \<and> dget (service_queues s) (fst (?key e)) = None
        \<or> entry_in (service_queues s) (?key e)" if "e \<in> set es" for e
      using that in_ready_rejections [OF d] es head_entry by auto
    show "isl (?out e') \<and> requires_model_close_on_failure (cmd_op (snd (?key e')))"
      if "e \<in> set es" "e' \<in> set es" "fst (?key e) = fst (?key e')" "isl (?out e) \<and> requires_model_close_on_failure (cmd_op (snd (?key e)))" for e e'
    proof -
      have "e = e'" using dist that(1-3) unfolding distinct_map by (auto dest: inj_onD)
      then show ?thesis using that(4) by simp
    qed
  qed
  then show ?thesis by (simp add: case_prod_unfold)
qed

lemma issued_same_queue:
  assumes "dget (foldl issue_ref qs rs) m = Some q'" "dget qs m = Some q"
  shows "same_queue q q'"
proof -
  have "q' = q\<lparr> queue := map (advance rs m) (queue q) \<rparr>" using assms by (simp add: dget_issue_refs)
  then show ?thesis by (auto simp: same_queue_def commands_def advance_def image_iff)
qed

lemma batch_dispatch_inv:
  assumes inv: "core_inv cfg {} {} s" and ok: "unit_ok budget (service_queues s) (BatchUnit b) qs'"
  shows "core_inv cfg (ref_key ` set (batch_datums b)) {} (s\<lparr> service_queues := qs', running := u, history := history s @ unit_keys (BatchUnit b) \<rparr>)"
proof -
  let ?rs = "batch_datums b" and ?qs = "service_queues s" and ?s = "s\<lparr> service_queues := qs' \<rparr>"
  let ?W = "ref_key ` set ?rs"
  have U: "distinct (map ref_key ?rs)" "set ?rs \<subseteq> set (ready_datums ?qs)" "work_ok ?W qs'" "qs' = foldl issue_ref ?qs ?rs"
    using ok unfolding unit_ok_def work_unit.case by blast+
  note I = core_invD [OF inv]
  have s1: "core_inv cfg ?W {} ?s"
    using core_inv_queues [OF inv U(3)] issued_same_queue unfolding U(4) by (simp add: dget_issue_refs)
  have ref: "\<exists>q p. dget ?qs (ref_model r) = Some q \<and> p \<in> set (open_batch_run q) \<and> p \<in> set (queue q) \<and> live_batch p
      \<and> num_issued_datums p \<le> local_index r \<and> ref_command r = pend_command p" if "r \<in> set ?rs" for r
    using that U(2) in_ready_datums [OF work_okD(2) [OF I(1)], of r] open_run_subset by fastforce
  have "history_ok {} (?s\<lparr> running := u, history := history ?s @ unit_keys (BatchUnit b) \<rparr>)"
  proof (rule history_append [OF core_invD(8) [OF s1]])
    show "sorted_wrt before (unit_keys (BatchUnit b))"
    proof (rule sorted_wrt_distinct)
      show "distinct (unit_keys (BatchUnit b))" using U(1)
        by (auto simp: unit_keys_def distinct_map inj_on_def ref_key_def)
    qed (auto simp: unit_keys_def before_def)
    fix h h' assume h: "h \<in> set (history ?s)" and h': "h' \<in> set (unit_keys (BatchUnit b))"
    obtain r where r: "r \<in> set ?rs" "h' = (ref_model r, seq_id (ref_command r), Some (local_index r))" using h' by (auto simp: unit_keys_def)
    obtain q p where p: "dget ?qs (ref_model r) = Some q" "p \<in> set (queue q)" "live_batch p" "num_issued_datums p \<le> local_index r"
      "ref_command r = pend_command p" using ref [OF r(1)] by blast
    have "entry_after {} h p" if "fst h = ref_model r" using I(8) h p(1,2) that unfolding history_ok_def by auto
    then show "before h h'" using p(3-5) r(2) by (cases h) (force simp: before_def entry_after_def)
  next
    fix h assume h: "h \<in> set (unit_keys (BatchUnit b))"
    obtain r where r: "r \<in> set ?rs" "h = (ref_model r, seq_id (ref_command r), Some (local_index r))" using h by (auto simp: unit_keys_def)
    obtain q p where p: "dget ?qs (ref_model r) = Some q" "p \<in> set (open_batch_run q)" "p \<in> set (queue q)" "live_batch p"
      "ref_command r = pend_command p" using ref [OF r(1)] by blast
    have q': "dget qs' (ref_model r) = Some (q\<lparr> queue := map (advance ?rs (ref_model r)) (queue q) \<rparr>)"
      using p(1) by (simp add: U(4) dget_issue_refs)
    note o = queue_order [OF work_okD(1) [OF I(1) p(1)]]
    have "entry_after {} h p'" if p': "p' \<in> advance ?rs (ref_model r) ` set (queue q)" for p'
    proof -
      obtain p0 where p0: "p0 \<in> set (queue q)" "p' = advance ?rs (ref_model r) p0" using p' by blast
      have com: "pend_command p' = pend_command p0" "live_batch p' = live_batch p0" using p0(2) by (simp_all add: advance_def live_batch_def is_batch_op_def)
      show ?thesis
      proof (cases "live_batch p0")
        case False
        then show ?thesis using open_run_before [OF o p(2) p0(1)] com p(5) r(2) by (simp add: entry_after_def)
      next
        case True
        have "local_index r < num_issued_datums p'" if "pend_seq p' = seq_id (ref_command r)"
        proof -
          have "p' \<in> set (queue (q\<lparr> queue := map (advance ?rs (ref_model r)) (queue q) \<rparr>))" using p' by simp
          then have "entry_ok {i. (ref_model r, pend_seq p', i) \<in> ?W} p'"
            using work_okD(1) [OF U(3) q'] unfolding queue_ok_def entries_ok_def by blast
          moreover have "(ref_model r, pend_seq p', local_index r) \<in> ?W" using r(1) that by (force simp: ref_key_def)
          ultimately show ?thesis using True com(2) by (auto simp: entry_ok_def)
        qed
        then show ?thesis using True com r(2) by (auto simp: entry_after_def)
      qed
    qed
    moreover have "seq_id (ref_command r) \<le> last_enqueued_seq_id q" using o p(3,5) by (simp add: order_ok_def)
    moreover have "ref_model r < next_id s"
    proof -
      obtain rec where "dget (models s) (ref_model r) = Some rec" using slots_okD(3) [OF I(2), of "ref_model r"] p(1) by fastforce
      then show ?thesis using slots_okD(5) [OF I(2)] by blast
    qed
    ultimately show "fst h < next_id ?s \<and> (\<forall>q. dget (service_queues ?s) (fst h) = Some q
          \<longrightarrow> fst (snd h) \<le> last_enqueued_seq_id q \<and> (\<forall>p\<in>set (queue q). entry_after {} h p))"
      using r(2) q' by simp
  qed
  then show ?thesis using s1 by (simp add: core_inv_def slots_ok_def requests_ok_def records_ok_def futures_ok_def owed_def commands_await_def creations_await_def cong: fut_owner.case_cong)
qed
lemma barrier_dispatch_inv:
  assumes inv: "core_inv cfg {} {} s" and ok: "unit_ok budget (service_queues s) (BarrierUnit op es) qs'"
  shows "core_inv cfg {} ((\<lambda>(m, _, c). (m, seq_id c)) ` set es)
    (s\<lparr> running := u, history := history s @ unit_keys (BarrierUnit op es) \<rparr>)"
proof -
  let ?qs = "service_queues s" and ?R = "(\<lambda>(m, _, c). (m, seq_id c)) ` set es"
  have U: "distinct (map fst es)" "\<And>e. e \<in> set es \<Longrightarrow> barrier_head ?qs e"
    using ok unfolding unit_ok_def work_unit.case by blast+
  note I = core_invD [OF inv]
  have head: "\<exists>q p ps. dget ?qs (fst e) = Some q \<and> queue q = p # ps \<and> pend_command p = snd (snd e) \<and> \<not> live_batch p"
    if e: "e \<in> set es" for e
  proof -
    obtain q p ps where "dget ?qs (fst e) = Some q" "queue q = p # ps" "pend_command p = snd (snd e)"
      using U(2) [OF e] by (auto simp: barrier_head_def entry_head_def)
    moreover have "\<not> live_batch p" using U(2) [OF e] \<open>pend_command p = snd (snd e)\<close>
      by (simp add: barrier_head_def live_batch_def is_batch_op_def)
    ultimately show ?thesis by blast
  qed
  have keys: "unit_keys (BarrierUnit op es) = map (\<lambda>e. (fst e, seq_id (snd (snd e)), None)) es"
    by (simp add: unit_keys_def case_prod_unfold)
  have "history_ok ?R (s\<lparr> running := u, history := history s @ unit_keys (BarrierUnit op es) \<rparr>)"
  proof (rule history_append [OF I(8)])
    show "sorted_wrt before (unit_keys (BarrierUnit op es))"
    proof (rule sorted_wrt_distinct)
      show "distinct (unit_keys (BarrierUnit op es))" using U(1) by (auto simp: keys distinct_map inj_on_def)
      fix x y assume xy: "x \<in> set (unit_keys (BarrierUnit op es))" "y \<in> set (unit_keys (BarrierUnit op es))" "x \<noteq> y"
      then obtain e e' where e: "e \<in> set es" "x = (fst e, seq_id (snd (snd e)), None)" "e' \<in> set es" "y = (fst e', seq_id (snd (snd e')), None)"
        unfolding keys set_map by blast
      have "fst e \<noteq> fst e'"
      proof
        assume "fst e = fst e'"
        then have "e = e'" using e(1,3) U(1) unfolding distinct_map by (auto dest: inj_onD)
        then show False using e xy(3) by simp
      qed
      then show "before x y" using e by (simp add: before_def)
    qed
    fix h h' assume h: "h \<in> set (history s)" and h': "h' \<in> set (unit_keys (BarrierUnit op es))"
    obtain e where e: "e \<in> set es" "h' = (fst e, seq_id (snd (snd e)), None)" using h' by (auto simp: keys)
    obtain q p ps where p: "dget ?qs (fst e) = Some q" "queue q = p # ps" "pend_command p = snd (snd e)" "\<not> live_batch p"
      using head [OF e(1)] by blast
    have "entry_after {} h p" if "fst h = fst e" using I(8) h p(1,2) that unfolding history_ok_def by auto
    then show "before h h'" using p(3,4) e(2) by (cases h) (force simp: before_def entry_after_def)
  next
    fix h assume h: "h \<in> set (unit_keys (BarrierUnit op es))"
    obtain e where e: "e \<in> set es" "h = (fst e, seq_id (snd (snd e)), None)" using h by (auto simp: keys)
    obtain q p ps where p: "dget ?qs (fst e) = Some q" "queue q = p # ps" "pend_command p = snd (snd e)" "\<not> live_batch p"
      using head [OF e(1)] by blast
    note o = queue_order [OF work_okD(1) [OF I(1) p(1)]]
    have R: "(fst e, seq_id (snd (snd e))) \<in> ?R" using e(1) by (force simp: case_prod_unfold)
    have "entry_after ?R h p'" if p': "p' \<in> set (queue q)" for p'
    proof (cases "p' = p")
      case True
      then show ?thesis using e(2) p(3,4) R by (simp add: entry_after_def)
    next
      case False
      then have "pend_seq p < pend_seq p'" using o p' p(2) by (auto simp: order_ok_def)
      then show ?thesis using e(2) p(3) by (simp add: entry_after_def)
    qed
    moreover have "seq_id (snd (snd e)) \<le> last_enqueued_seq_id q" using o p(2,3) by (simp add: order_ok_def)
    moreover have "fst e < next_id s"
    proof -
      obtain rec where "dget (models s) (fst e) = Some rec" using slots_okD(3) [OF I(2), of "fst e"] p(1) by fastforce
      then show ?thesis using slots_okD(5) [OF I(2)] by blast
    qed
    ultimately show "fst h < next_id s \<and> (\<forall>q. dget (service_queues s) (fst h) = Some q
          \<longrightarrow> fst (snd h) \<le> last_enqueued_seq_id q \<and> (\<forall>p\<in>set (queue q). entry_after ?R h p))"
      using e(2) p(1) by simp
  qed
  then show ?thesis using inv
    by (simp add: core_inv_def slots_ok_def requests_ok_def records_ok_def futures_ok_def owed_def commands_await_def creations_await_def cong: fut_owner.case_cong)
qed

lemma dispatch_inv:
  assumes inv: "gateway_inv cfg s" and idle: "running s = None"
  shows "gateway_inv cfg (dispatch cfg env now s)"
proof -
  note core = gateway_idle [OF assms]
  note w = core_invD(1) [OF core]
  show ?thesis
  proof (cases "ready_rejections (service_queues s)")
    case (Cons e es)
    then have "core_inv cfg {} {} (dispatch cfg env now s)" using rejections_inv [OF core refl, of env now] by (simp add: dispatch_def)
    moreover have "running (dispatch cfg env now s) = None" using Cons idle
      by (simp add: dispatch_def foldl_running case_prod_unfold)
    ultimately show ?thesis by (rule idle_inv)
  next
    case Nil
    obtain u' qs' where sch: "schedule_next (batch_token_budget cfg) (service_queues s) = (u', qs')" by fastforce
    show ?thesis
    proof (cases u')
      case None
      then show ?thesis using Nil sch inv by (simp add: dispatch_def)
    next
      case (Some u)
      have d: "dispatch cfg env now s = s\<lparr> service_queues := qs', running := Some u, history := history s @ unit_keys u \<rparr>"
        using Nil sch Some by (simp add: dispatch_def)
      note ok = schedule_next_ok [OF w sch [unfolded Some]]
      show ?thesis
      proof (cases u)
        case (BatchUnit b)
        have U: "distinct (map ref_key (batch_datums b))" "\<forall>r\<in>set (batch_datums b). ref_ok qs' r"
          "\<forall>r\<in>set (batch_datums b). cmd_op (ref_command r) = batch_op b"
          using ok unfolding BatchUnit unit_ok_def work_unit.case by blast+
        show ?thesis using batch_dispatch_inv [OF core ok [unfolded BatchUnit], of "Some u"] U unfolding d BatchUnit
          by (simp add: gateway_inv_def service_inv_def inflight_def in_progress_def running_ok_def same_op_def)
      next
        case (BarrierUnit op es)
        have U: "distinct (map fst es)" "\<forall>e\<in>set es. barrier_head (service_queues s) e" "qs' = service_queues s"
          using ok unfolding BarrierUnit unit_ok_def work_unit.case by blast+
        show ?thesis using barrier_dispatch_inv [OF core ok [unfolded BarrierUnit], of "Some u"] U(1,2) unfolding d BarrierUnit U(3)
          by (simp add: gateway_inv_def service_inv_def inflight_def in_progress_def running_ok_def same_op_def)
      qed
    qed
  qed
qed

section \<open>Sampling tasks and their futures\<close>

definition tasks_ok :: "service \<Rightarrow> bool" where
  "tasks_ok s \<longleftrightarrow> (\<forall>rid\<in>set (dkeys (sample_tasks s)). rid < next_id s
     \<and> (\<forall>f. futures s rid = Some f \<longrightarrow> fut_owner f = SampleRequest))"

definition owners_kept :: "service \<Rightarrow> service \<Rightarrow> bool" where
  "owners_kept s s' \<longleftrightarrow> sample_tasks s' = sample_tasks s \<and> next_id s \<le> next_id s'
     \<and> (\<forall>rid f. rid < next_id s \<longrightarrow> futures s' rid = Some f \<longrightarrow> (\<exists>f0. futures s rid = Some f0 \<and> fut_owner f0 = fut_owner f))"

lemma owners_keptI:
  assumes "sample_tasks s' = sample_tasks s" "next_id s \<le> next_id s'"
    "\<And>rid f. rid < next_id s \<Longrightarrow> futures s' rid = Some f \<Longrightarrow> \<exists>f0. futures s rid = Some f0 \<and> fut_owner f0 = fut_owner f"
  shows "owners_kept s s'"
  unfolding owners_kept_def using assms by blast

lemma owners_kept_refl: "owners_kept s s"
  by (simp add: owners_kept_def)

lemma owners_kept_trans:
  assumes "owners_kept s s'" "owners_kept s' s''"
  shows "owners_kept s s''"
proof (rule owners_keptI)
  show "sample_tasks s'' = sample_tasks s" "next_id s \<le> next_id s''" using assms unfolding owners_kept_def by auto
  fix rid f assume rid: "rid < next_id s" and f: "futures s'' rid = Some f"
  then have "rid < next_id s'" using assms(1) unfolding owners_kept_def by simp
  then obtain f1 where f1: "futures s' rid = Some f1" "fut_owner f1 = fut_owner f" using assms(2) f unfolding owners_kept_def by blast
  then obtain f0 where "futures s rid = Some f0" "fut_owner f0 = fut_owner f1" using assms(1) rid unfolding owners_kept_def by blast
  then show "\<exists>f0. futures s rid = Some f0 \<and> fut_owner f0 = fut_owner f" using f1(2) by auto
qed

lemma owners_kept_fold: "(\<And>s x. owners_kept s (f s x)) \<Longrightarrow> owners_kept s (foldl f s xs)"
  by (induction xs arbitrary: s) (auto intro: owners_kept_refl owners_kept_trans)

lemma tasks_ok_kept: "tasks_ok s \<Longrightarrow> owners_kept s s' \<Longrightarrow> tasks_ok s'"
  unfolding tasks_ok_def owners_kept_def by fastforce

lemma settle_owner: "settle now st rid fs = Inr fs' \<Longrightarrow> fs' k = Some f \<Longrightarrow> \<exists>f0. fs k = Some f0 \<and> fut_owner f0 = fut_owner f"
  by (auto simp: settle_def split: option.splits if_splits)

lemma fail_retained_owner: "fail_retained now t err category fs rid k = Some f \<Longrightarrow> \<exists>f0. fs k = Some f0 \<and> fut_owner f0 = fut_owner f"
proof -
  assume a: "fail_retained now t err category fs rid k = Some f"
  have "fail_retained now t err category fs rid = sweep now fs
      \<or> settle now (FAILED err category) rid (sweep now fs) = Inr (fail_retained now t err category fs rid)"
    by (auto simp: fail_retained_def get_future_def Let_def split: option.splits sum.splits)
  then show ?thesis
  proof
    assume "fail_retained now t err category fs rid = sweep now fs"
    then have "sweep now fs k = Some f" using a by simp
    then show ?thesis using sweep_old by blast
  next
    assume "settle now (FAILED err category) rid (sweep now fs) = Inr (fail_retained now t err category fs rid)"
    from settle_owner [OF this a] show ?thesis using sweep_old by blast
  qed
qed

lemma fail_all_owner: "foldl (fail_retained now t err category) fs rids k = Some f \<Longrightarrow> \<exists>f0. fs k = Some f0 \<and> fut_owner f0 = fut_owner f"
proof (induction rids arbitrary: fs)
  case (Cons rid rids)
  then obtain f1 where "fail_retained now t err category fs rid k = Some f1" "fut_owner f1 = fut_owner f" by auto
  then show ?case using fail_retained_owner by fastforce
qed simp

lemma settle_future_kept: "owners_kept s (settle_future now st rid s)"
  using settle_owner [of now st rid "futures s"]
  by (cases "settle now st rid (futures s)") (auto simp: settle_future_def owners_kept_def)

lemma close_model_kept: "owners_kept s (close_model cfg env now m err category s)"
proof (cases "dget (models s) m")
  case None
  then show ?thesis by (simp add: close_model_def owners_kept_refl)
next
  case (Some r)
  then show ?thesis using fail_all_owner by (auto simp: close_model_def owners_kept_def)
qed

lemma owners_kept_same:
  "sample_tasks s' = sample_tasks s \<Longrightarrow> next_id s \<le> next_id s' \<Longrightarrow> futures s' = futures s \<Longrightarrow> owners_kept s s'"
  by (simp add: owners_kept_def)

lemma finish_request_kept: "owners_kept s (finish_request cfg env now m c outcome s)"
proof -
  have "owners_kept s (settle_future now st (request_id c) s\<lparr> service_queues := x \<rparr>)" for st x
    by (rule owners_kept_trans [OF settle_future_kept]) (rule owners_kept_same, simp_all)
  then show ?thesis by (cases outcome) (auto simp: finish_request_def close_model_kept)
qed

lemma record_ref_kept: "owners_kept s (record_ref cfg env now s x)"
proof (cases "find_entry (ref_model (fst x)) (seq_id (ref_command (fst x))) s")
  case None
  then show ?thesis by (simp add: record_ref_def owners_kept_same)
next
  case (Some p)
  obtain p' finished where r: "record_output p (local_index (fst x)) (snd x) = (p', finished)" by fastforce
  let ?s = "s\<lparr> service_queues := update_queue (ref_model (fst x)) (update_entry (seq_id (ref_command (fst x))) (\<lambda>_. p')) (service_queues s) \<rparr>"
  have "owners_kept s ?s" by (simp add: owners_kept_same)
  then show ?thesis using Some r owners_kept_trans [OF _ finish_request_kept] by (simp add: record_ref_def Let_def)
qed

lemma finish_barrier_kept: "owners_kept s (finish_barrier cfg env now s x)"
proof -
  obtain m sl c outcome where x: "x = ((m, sl, c), outcome)" by (metis prod.exhaust)
  have n: "owners_kept s (s\<lparr> sampling_sessions := y, next_id := Suc (next_id s) \<rparr>)" for y by (simp add: owners_kept_same)
  have d: "owners_kept s (s\<lparr> died := True \<rparr>)" by (simp add: owners_kept_same)
  show ?thesis unfolding x
    by (cases outcome; cases "dget (models s) m"; cases "cmd_op c = SAVE_WEIGHTS_FOR_SAMPLER")
       (simp_all add: finish_barrier_def new_sampling_session_def finish_request_kept d owners_kept_trans [OF n finish_request_kept])
qed

lemma dispatch_kept: "owners_kept s (dispatch cfg env now s)"
proof (cases "ready_rejections (service_queues s)")
  case Nil
  then show ?thesis by (auto simp: dispatch_def intro: owners_kept_same split: option.splits prod.splits)
next
  case (Cons e es)
  show ?thesis unfolding dispatch_def Cons list.case
    by (rule owners_kept_fold) (auto simp: finish_request_kept split: prod.splits)
qed

lemma unit_ends_kept: "owners_kept s (unit_ends cfg env now batch_out barrier_out s)"
proof (cases "running s")
  case None
  then show ?thesis by (simp add: unit_ends_def owners_kept_refl)
next
  case (Some u)
  let ?s = "s\<lparr> running := None \<rparr>"
  have idle: "owners_kept s ?s" by (simp add: owners_kept_same)
  have d: "owners_kept x (x\<lparr> died := True \<rparr>)" for x by (simp add: owners_kept_same)
  have batch: "owners_kept ?s (run_batch cfg env now b batch_out ?s)" for b
  proof (cases batch_out)
    case (BatchFailed err category)
    then show ?thesis by (auto simp: run_batch_def intro!: owners_kept_fold finish_request_kept split: prod.splits)
  next
    case (BatchOutputs xs)
    then show ?thesis by (auto simp: run_batch_def Let_def d intro!: owners_kept_fold record_ref_kept)
  qed
  have barrier: "owners_kept ?s (run_barrier cfg env now es barrier_out ?s)" for es
    by (auto simp: run_barrier_def d intro!: owners_kept_fold finish_barrier_kept)
  have "owners_kept s (case u of BatchUnit b \<Rightarrow> run_batch cfg env now b batch_out ?s | BarrierUnit _ es \<Rightarrow> run_barrier cfg env now es barrier_out ?s)"
    by (cases u) (auto intro: owners_kept_trans [OF idle batch] owners_kept_trans [OF idle barrier])
  then show ?thesis using Some owners_kept_trans [OF _ d] by (simp add: unit_ends_def Let_def)
qed

lemma run_create_model_kept: "owners_kept s (run_create_model cfg env now m failure s)"
proof (cases "dget (models s) m")
  case None
  then show ?thesis by (simp add: run_create_model_def owners_kept_refl)
next
  case (Some r)
  let ?s = "s\<lparr> models := dset (models s) m (r\<lparr> slot_initialized := True \<rparr>) \<rparr>"
  have i: "owners_kept s ?s" by (simp add: owners_kept_same)
  show ?thesis
    by (cases "slot_initialized r"; cases failure)
       (simp_all add: Some run_create_model_def Let_def owners_kept_refl owners_kept_trans [OF i settle_future_kept] owners_kept_trans [OF i close_model_kept])
qed

lemma run_create_model_frame [simp]: "running (run_create_model cfg env now m failure s) = running s"
  by (cases "dget (models s) m"; cases failure) (auto simp: run_create_model_def)

section \<open>The gateway as a machine\<close>

definition machine_inv :: "gateway_config \<Rightarrow> service \<Rightarrow> bool" where
  "machine_inv cfg s \<longleftrightarrow> gateway_inv cfg s \<and> tasks_ok s"

text \<open>What requests do to the work of the dispatcher: queues only grow at their ends.\<close>

definition extends :: "service \<Rightarrow> service \<Rightarrow> bool" where
  "extends s s' \<longleftrightarrow> running s' = running s \<and> (\<forall>m q. dget (service_queues s) m = Some q \<longrightarrow>
     (\<exists>q' ps. dget (service_queues s') m = Some q' \<and> mq_slot q' = mq_slot q \<and> queue q' = queue q @ ps))"

lemma extends_refl: "running s' = running s \<Longrightarrow> service_queues s' = service_queues s \<Longrightarrow> extends s s'"
  unfolding extends_def by (auto intro: exI [of _ "[]"])

lemma running_ok_extends:
  assumes ok: "running_ok s" and ext: "extends s s'"
  shows "running_ok s'"
proof -
  have run: "running s' = running s" using ext by (simp add: extends_def)
  have more: "\<exists>q' ps. dget (service_queues s') m = Some q' \<and> mq_slot q' = mq_slot q \<and> queue q' = queue q @ ps"
    if "dget (service_queues s) m = Some q" for m q using ext that unfolding extends_def by blast
  have ref: "ref_ok (service_queues s') r" if r: "ref_ok (service_queues s) r" for r
  proof -
    obtain q p where q: "dget (service_queues s) (ref_model r) = Some q" "p \<in> set (queue q)" "pend_command p = ref_command r"
      "ref_slot r = mq_slot q" using r unfolding ref_ok_def by blast
    obtain q' ps where "dget (service_queues s') (ref_model r) = Some q'" "mq_slot q' = mq_slot q" "queue q' = queue q @ ps"
      using more [OF q(1)] by blast
    then show ?thesis using q unfolding ref_ok_def by auto
  qed
  have head: "barrier_head (service_queues s') e" if e: "barrier_head (service_queues s) e" for e
  proof -
    obtain q p ps where q: "dget (service_queues s) (fst e) = Some q" "queue q = p # ps" "pend_command p = snd (snd e)"
      "fst (snd e) = mq_slot q" using e unfolding barrier_head_def entry_head_def by blast
    obtain q' ps' where "dget (service_queues s') (fst e) = Some q'" "mq_slot q' = mq_slot q" "queue q' = queue q @ ps'"
      using more [OF q(1)] by blast
    then show ?thesis using q e unfolding barrier_head_def entry_head_def by auto
  qed
  show ?thesis using ok ref head unfolding running_ok_def run by (auto split: option.splits work_unit.splits)
qed

lemma machine_extends:
  assumes inv: "machine_inv cfg s" and core: "core_inv cfg (inflight (running s)) (in_progress (running s)) s'"
    and ext: "extends s s'" and ts: "tasks_ok s'"
  shows "machine_inv cfg s'"
proof -
  have run: "running s' = running s" using ext by (simp add: extends_def)
  have "running_ok s" "same_op (running s)" using inv by (simp_all add: machine_inv_def gateway_inv_def service_inv_def)
  then show ?thesis using running_ok_extends [OF _ ext] core ts by (simp add: machine_inv_def gateway_inv_def service_inv_def run)
qed

lemma machine_core: "machine_inv cfg s \<Longrightarrow> core_inv cfg (inflight (running s)) (in_progress (running s)) s"
  by (simp add: machine_inv_def gateway_inv_def service_inv_def)

lemma core_inv_next: "core_inv cfg W R s \<Longrightarrow> next_id s \<le> n \<Longrightarrow> core_inv cfg W R (s\<lparr> next_id := n \<rparr>)"
  using core_inv_sampling [of cfg W R s n "sampling_sessions s"] by simp

lemma create_session_inv:
  assumes "machine_inv cfg s"
  shows "machine_inv cfg (snd (create_session now tenant s))"
proof (rule machine_extends [OF assms])
  show "core_inv cfg (inflight (running s)) (in_progress (running s)) (snd (create_session now tenant s))"
    unfolding create_session_def snd_conv by (rule core_inv_next) (simp_all add: machine_core [OF assms])
  show "extends s (snd (create_session now tenant s))" by (rule extends_refl) (simp_all add: create_session_def)
  show "tasks_ok (snd (create_session now tenant s))"
    by (rule tasks_ok_kept [of s]) (use assms in \<open>simp_all add: machine_inv_def create_session_def owners_kept_same\<close>)
qed

lemma heartbeat_inv:
  assumes "machine_inv cfg s"
  shows "machine_inv cfg (snd (heartbeat now tenant sid s))"
proof (rule machine_extends [OF assms])
  show "core_inv cfg (inflight (running s)) (in_progress (running s)) (snd (heartbeat now tenant sid s))"
    using machine_core [OF assms] by (simp add: heartbeat_def split: sum.splits)
  show "extends s (snd (heartbeat now tenant sid s))" by (rule extends_refl) (simp_all add: heartbeat_def split: sum.splits)
  show "tasks_ok (snd (heartbeat now tenant sid s))"
    by (rule tasks_ok_kept [of s]) (use assms in \<open>simp_all add: machine_inv_def heartbeat_def owners_kept_same split: sum.splits\<close>)
qed

lemma retrieve_inv:
  assumes inv: "machine_inv cfg s"
  shows "machine_inv cfg (s\<lparr> futures := sweep now (futures s) \<rparr>)"
proof (rule machine_extends [OF inv])
  show "tasks_ok (s\<lparr> futures := sweep now (futures s) \<rparr>)"
  proof (rule tasks_ok_kept [of s])
    show "tasks_ok s" using inv by (simp add: machine_inv_def)
    show "owners_kept s (s\<lparr> futures := sweep now (futures s) \<rparr>)" by (rule owners_keptI) (auto dest: sweep_old)
  qed
  show "extends s (s\<lparr> futures := sweep now (futures s) \<rparr>)" by (rule extends_refl) simp_all
qed (rule core_inv_sweep [OF machine_core [OF inv]])

text \<open>A retried request changes futures and the counter only.\<close>

lemma request_retry_extends:
  assumes inv: "core_inv cfg W R s" and r: "request_id_for_retry now rid owner tenant s = (res, s')"
  shows "extends s s'" "owners_kept s s'"
proof -
  note spec = request_retry_spec [OF inv r]
  obtain fs n where s': "s' = s\<lparr> futures := fs, next_id := n \<rparr>" "next_id s \<le> n" using spec by blast
  show "extends s s'" by (rule extends_refl) (simp_all add: s')
  have own: "\<exists>f0. futures s k = Some f0 \<and> fut_owner f0 = fut_owner f" if "k < next_id s" "futures s' k = Some f" for k f
    using spec that by blast
  show "owners_kept s s'" by (rule owners_keptI [OF _ _ own]) (simp_all add: s')
qed

lemma extends_trans_same: "extends s s' \<Longrightarrow> running s'' = running s' \<Longrightarrow> service_queues s'' = service_queues s' \<Longrightarrow> extends s s''"
  by (simp add: extends_def)

lemma owners_kept_trans_same:
  "owners_kept s s' \<Longrightarrow> sample_tasks s'' = sample_tasks s' \<Longrightarrow> next_id s' \<le> next_id s'' \<Longrightarrow> futures s'' = futures s' \<Longrightarrow> owners_kept s s''"
  by (simp add: owners_kept_def)

lemma submit_extends:
  assumes inv: "core_inv cfg W R s"
  shows "extends s (snd (submit cfg now tenant op_name p s)) \<and> owners_kept s (snd (submit cfg now tenant op_name p s))"
proof (cases "\<exists>op r k. op_name = Some op \<and> get_model tenant (sp_model p) s = Inr r \<and> validate_seq_id (sp_seq p) 1 = Inr k")
  case False
  then show ?thesis by (auto simp: submit_def extends_refl owners_kept_refl split: option.splits sum.splits)
next
  case True
  then obtain op r k where op: "op_name = Some op" "get_model tenant (sp_model p) s = Inr r" "validate_seq_id (sp_seq p) 1 = Inr k" by blast
  let ?m = "sp_model p"
  have m: "dget (models s) ?m = Some r" "rec_tenant r = tenant" using op(2) by (simp_all add: get_model_Inr)
  note I = core_invD [OF inv]
  show ?thesis
  proof (cases "dget (request_by_seq r) k")
    case None
    obtain q where q: "dget (service_queues s) ?m = Some q" using slots_okD(3) [OF I(2), of ?m] m(1) by fastforce
    obtain c where c: "seq_id c = k" "request_id c = next_id s" "command_ok c"
      "submit cfg now tenant (Some op) p s = (Inr (next_id s), s\<lparr> futures := (futures s)(next_id s \<mapsto> new_future (CommandOf ?m k) (rec_tenant r)),
        next_id := next_id s + 1, models := dset (models s) ?m (r\<lparr> request_by_seq := dset (request_by_seq r) k (next_id s) \<rparr>),
        service_queues := update_queue ?m (\<lambda>q. mq_submit q c) (service_queues s), arrival_counter := arrival_counter s + 1 \<rparr>)"
      by (rule submit_new [OF op(2,3) None])
    note un = unseen_seq [OF inv m(1) q validate_seq_id_min [OF op(3)] None]
    have "\<exists>cs. queue (mq_submit q c) = queue q @ map new_pending cs" "mq_slot (mq_submit q c) = mq_slot q"
      using mq_submit_spec [OF work_okD(1) [OF I(1) q] c(3)] un(1,2) c(1) by auto
    then show ?thesis unfolding op(1) c(4) using q by (auto simp: extends_def owners_kept_def)
  next
    case (Some rid)
    obtain res s' where r: "request_id_for_retry now rid (CommandOf ?m k) tenant s = (res, s')" by fastforce
    note ext = request_retry_extends [OF inv r]
    show ?thesis using op Some r ext by (cases res) (auto simp: submit_def intro: extends_trans_same owners_kept_trans_same)
  qed
qed

lemma submit_machine:
  assumes inv: "machine_inv cfg s"
  shows "machine_inv cfg (snd (submit cfg now tenant op_name p s))"
proof -
  note core = machine_core [OF inv]
  note ext = submit_extends [OF core, of now tenant op_name p]
  show ?thesis using inv ext by (intro machine_extends [OF inv submit_inv [OF core]]) (auto simp: machine_inv_def intro: tasks_ok_kept)
qed

lemma create_model_extends:
  assumes inv: "core_inv cfg W R s"
  shows "extends s (snd (create_model cfg now tenant p s)) \<and> owners_kept s (snd (create_model cfg now tenant p s))"
proof (cases "\<exists>x k rid m. session_for tenant (cp_session p) s = Inr x \<and> validate_seq_id (cp_model_seq p) 0 = Inr k
    \<and> dget (models_by_seq x) k = Some (rid, m)")
  case True
  then obtain x k rid m where x: "session_for tenant (cp_session p) s = Inr x" "validate_seq_id (cp_model_seq p) 0 = Inr k"
    "dget (models_by_seq x) k = Some (rid, m)" by blast
  obtain res s' where r: "request_id_for_retry now rid (ModelCreation m) tenant s = (res, s')" by fastforce
  note ext = request_retry_extends [OF inv r]
  show ?thesis using x r ext by (cases res) (auto simp: create_model_def intro: extends_trans_same owners_kept_trans_same)
next
  case False
  have "dget (models s) (next_id s) = None"
    using slots_okD(5) [OF core_invD(2) [OF inv], of "next_id s"] by (cases "dget (models s) (next_id s)") auto
  then have new: "dget (service_queues s) (next_id s) = None" using slots_okD(3) [OF core_invD(2) [OF inv]] by blast
  have ext: "extends s s'" if "running s' = running s" "service_queues s' = dset (service_queues s) (next_id s) x" for s' x
    using that new unfolding extends_def by (auto intro: exI [of _ "[]"])
  show ?thesis using False
    by (auto simp: create_model_def Let_def create_future_def extends_refl owners_kept_refl
        intro!: ext owners_keptI split: sum.splits option.splits)
qed

lemma create_model_machine:
  assumes inv: "machine_inv cfg s"
  shows "machine_inv cfg (snd (create_model cfg now tenant p s))"
proof -
  note core = machine_core [OF inv]
  note ext = create_model_extends [OF core, of now tenant p]
  have "fst ` inflight (running s) \<subseteq> {m. dget (service_queues s) m \<noteq> None}"
    using inv by (auto simp: machine_inv_def gateway_inv_def service_inv_def running_ok_def inflight_def ref_ok_def ref_key_def
        split: option.splits work_unit.splits)
  from create_model_inv [OF core this] show ?thesis
    using inv ext by (intro machine_extends [OF inv]) (auto simp: machine_inv_def intro: tasks_ok_kept)
qed

section \<open>Sampling and leases\<close>

lemma set_dkeys_dset: "fst ` set (dset d k v) = insert k (fst ` set d)"
  by (induction d) auto

lemma set_dkeys_ddel: "fst ` set (ddel d k) = fst ` set d - {k}"
  by (induction d) auto

lemma machine_frame [simp]:
  "machine_inv cfg (s\<lparr> sessions := x \<rparr>) = machine_inv cfg s" "machine_inv cfg (s\<lparr> sampling_sessions := y \<rparr>) = machine_inv cfg s"
  by (simp_all add: machine_inv_def gateway_inv_def service_inv_def running_ok_def tasks_ok_def cong: option.case_cong work_unit.case_cong)

lemma machine_next: "machine_inv cfg s \<Longrightarrow> next_id s \<le> n \<Longrightarrow> machine_inv cfg (s\<lparr> next_id := n \<rparr>)"
  by (rule machine_extends) (auto intro: core_inv_next [OF machine_core] extends_refl, auto simp: machine_inv_def tasks_ok_def)

lemma create_sampling_inv: "machine_inv cfg s \<Longrightarrow> machine_inv cfg (snd (create_sampling_session cfg tenant p path_ok s))"
  by (auto simp: create_sampling_session_def new_sampling_session_def machine_next split: sum.splits option.splits)

lemma start_sample_inv:
  assumes inv: "machine_inv cfg s"
  shows "machine_inv cfg (snd (start_sample tenant session n s))"
proof -
  let ?ts = "dset (sample_tasks s) (next_id s) (session, False)"
  let ?s = "s\<lparr> futures := (futures s)(next_id s \<mapsto> new_future SampleRequest tenant), next_id := next_id s + 1 + n, sample_tasks := ?ts \<rparr>"
  have "machine_inv cfg ?s"
  proof (rule machine_extends [OF inv])
    show "core_inv cfg (inflight (running s)) (in_progress (running s)) ?s"
      by (rule core_inv_add [OF machine_core [OF inv]]) (auto simp: new_future_def set_dkeys_dset)
    show "extends s ?s" by (rule extends_refl) simp_all
    have "tasks_ok s" using inv by (simp add: machine_inv_def)
    then show "tasks_ok ?s" by (auto simp: tasks_ok_def new_future_def set_dkeys_dset)
  qed
  then show ?thesis by (simp add: start_sample_def create_future_def Let_def add.commute add.left_commute)
qed

lemma retry_machine:
  assumes inv: "machine_inv cfg s" and r: "request_id_for_retry now rid owner tenant s = (res, s')"
  shows "machine_inv cfg s'"
proof (rule machine_extends [OF inv])
  note ext = request_retry_extends [OF machine_core [OF inv] r]
  show "core_inv cfg (inflight (running s)) (in_progress (running s)) s'" using request_retry_spec [OF machine_core [OF inv] r] by blast
  show "extends s s'" by (rule ext(1))
  show "tasks_ok s'" by (rule tasks_ok_kept [OF _ ext(2)]) (use inv in \<open>simp add: machine_inv_def\<close>)
qed

lemma submit_sample_inv:
  assumes inv: "machine_inv cfg s"
  shows "machine_inv cfg (snd (submit_sample cfg now tenant p path_ok s))"
proof -
  define fresh where "fresh = (\<lambda>session s. case validate_sample_payload p cfg of
            Inl e \<Rightarrow> (Inl e, s)
          | Inr n \<Rightarrow> (case path_ok of Inl e \<Rightarrow> (Inl e, s)
              | Inr _ \<Rightarrow> (case start_sample tenant session n s of (x, s') \<Rightarrow> (Inr x :: (nat \<times> nat list) res, s'))))"
  have fr: "machine_inv cfg (snd (fresh session s))" for session
    using inv start_sample_inv [OF inv, of tenant session] by (auto simp: fresh_def split: sum.splits prod.splits) (metis snd_conv)
  have eq: "submit_sample cfg now tenant p path_ok s = (if sam_base_model p \<notin> {None, Some (config_base_model cfg)} then (Inl UserInputError, s)
      else (case sam_session p of
          None \<Rightarrow> fresh None s
        | Some sid \<Rightarrow> (case dget (sampling_sessions s) sid of
            None \<Rightarrow> (Inl UserInputError, s)
          | Some y \<Rightarrow>
              if samp_tenant y \<noteq> tenant then (Inl OwnershipError, s)
              else (case validate_seq_id (sam_seq p) 0 of
                Inl e \<Rightarrow> (Inl e, s)
              | Inr seq \<Rightarrow> (case dget (samples_by_seq y) seq of
                  Some (rid, ids) \<Rightarrow> (case request_id_for_retry now rid SampleRequest tenant s of
                      (Inl e, s') \<Rightarrow> (Inl e, s')
                    | (Inr rid', s') \<Rightarrow> (Inr (rid', ids), s'\<lparr> sampling_sessions := dset (sampling_sessions s') sid
                        (y\<lparr> samples_by_seq := dset (samples_by_seq y) seq (rid', ids) \<rparr>) \<rparr>))
                | None \<Rightarrow> (case fresh (Some (samp_session y)) s of
                      (Inl e, s') \<Rightarrow> (Inl e, s')
                    | (Inr x, s') \<Rightarrow> (Inr x, s'\<lparr> sampling_sessions := dset (sampling_sessions s') sid
                        (y\<lparr> samples_by_seq := dset (samples_by_seq y) seq x \<rparr>) \<rparr>)))))))"
    unfolding submit_sample_def Let_def fresh_def by (rule refl)
  show ?thesis
  proof (cases "\<exists>sid y seq. sam_base_model p \<in> {None, Some (config_base_model cfg)} \<and> sam_session p = Some sid
      \<and> dget (sampling_sessions s) sid = Some y \<and> samp_tenant y = tenant \<and> validate_seq_id (sam_seq p) 0 = Inr seq")
    case False
    then show ?thesis unfolding eq using inv fr by (auto split: option.splits sum.splits)
  next
    case True
    then obtain sid y seq where y: "sam_base_model p \<in> {None, Some (config_base_model cfg)}" "sam_session p = Some sid"
      "dget (sampling_sessions s) sid = Some y" "samp_tenant y = tenant" "validate_seq_id (sam_seq p) 0 = Inr seq" by blast
    show ?thesis
    proof (cases "dget (samples_by_seq y) seq")
      case None
      obtain res s' where f: "fresh (Some (samp_session y)) s = (res, s')" by fastforce
      then have "machine_inv cfg s'" using fr [of "Some (samp_session y)"] by simp
      then show ?thesis unfolding eq using y None f by (cases res) auto
    next
      case (Some z)
      obtain rid ids where z: "z = (rid, ids)" by (cases z)
      obtain res s' where f: "request_id_for_retry now rid SampleRequest tenant s = (res, s')" by fastforce
      then show ?thesis unfolding eq using y Some z retry_machine [OF inv f] by (cases res) auto
    qed
  qed
qed

text \<open>A sampling task ends within the retention of its future, so the future is still known.\<close>

definition retained :: "service \<Rightarrow> bool" where
  "retained s \<longleftrightarrow> (\<forall>rid\<in>set (dkeys (sample_tasks s)). futures s rid \<noteq> None)"

lemma tasks_ok_sub:
  assumes "tasks_ok s" "set (dkeys ts) \<subseteq> set (dkeys (sample_tasks s))"
  shows "tasks_ok (s\<lparr> sample_tasks := ts \<rparr>)"
  unfolding tasks_ok_def
proof (intro ballI)
  fix rid assume "rid \<in> set (dkeys (sample_tasks (s\<lparr> sample_tasks := ts \<rparr>)))"
  then have "rid \<in> set (dkeys (sample_tasks s))" using assms(2) by auto
  then have "rid < next_id s \<and> (\<forall>f. futures s rid = Some f \<longrightarrow> fut_owner f = SampleRequest)" using assms(1) unfolding tasks_ok_def by blast
  then show "rid < next_id (s\<lparr> sample_tasks := ts \<rparr>) \<and> (\<forall>f. futures (s\<lparr> sample_tasks := ts \<rparr>) rid = Some f \<longrightarrow> fut_owner f = SampleRequest)"
    by simp
qed

lemma sample_ends_inv:
  assumes inv: "machine_inv cfg s" and known: "retained s"
  shows "machine_inv cfg (sample_ends now rid outcome s)"
proof (cases "dget (sample_tasks s) rid")
  case None
  then show ?thesis using inv by (simp add: sample_ends_def)
next
  case (Some x)
  obtain session cancelled where x: "x = (session, cancelled)" by (cases x)
  let ?st = "if cancelled then FAILED ''cancelled'' ''user''
      else case outcome of Inl (err, category) \<Rightarrow> FAILED err category | Inr ids \<Rightarrow> DONE (Sampled ids)"
  have "(rid, x) \<in> set (sample_tasks s)" using Some by (rule map_of_SomeD)
  then have "rid \<in> set (dkeys (sample_tasks s))" by force
  moreover have ts: "tasks_ok s" using inv by (simp add: machine_inv_def)
  ultimately obtain f where f: "futures s rid = Some f" "fut_owner f = SampleRequest"
    using known unfolding retained_def tasks_ok_def by blast
  have "?st \<noteq> PENDING" by (auto split: sum.splits prod.splits)
  note spec = settle_sample_inv [OF machine_core [OF inv] f this refl, of now]
  let ?s1 = "settle_future now ?st rid s"
  have tasks: "sample_tasks ?s1 = sample_tasks s" "next_id s \<le> next_id ?s1" using settle_future_kept unfolding owners_kept_def by blast+
  have "machine_inv cfg (?s1\<lparr> sample_tasks := ddel (sample_tasks s) rid \<rparr>)"
  proof (rule machine_extends [OF inv])
    show "core_inv cfg (inflight (running s)) (in_progress (running s)) (?s1\<lparr> sample_tasks := ddel (sample_tasks s) rid \<rparr>)"
    proof (rule core_inv_tasks)
      show "core_inv cfg (inflight (running s)) (in_progress (running s)) ?s1" using spec by blast
      show "\<forall>f. futures ?s1 k = Some f \<longrightarrow> fut_state f \<noteq> PENDING" if "k \<in> set (dkeys (sample_tasks ?s1))" "k \<notin> set (dkeys (ddel (sample_tasks s) rid))" for k
      proof -
        have "k = rid" using that tasks(1) by (auto simp: set_dkeys_ddel)
        then show ?thesis using spec by auto
      qed
    qed
    show "extends s (?s1\<lparr> sample_tasks := ddel (sample_tasks s) rid \<rparr>)" by (rule extends_refl) (simp_all add: settle_future_queues)
    show "tasks_ok (?s1\<lparr> sample_tasks := ddel (sample_tasks s) rid \<rparr>)"
      by (rule tasks_ok_sub [OF tasks_ok_kept [OF ts settle_future_kept]]) (auto simp: tasks(1) set_dkeys_ddel)
  qed
  then show ?thesis by (simp add: sample_ends_def Some x)
qed

lemma tasks_same_keys:
  assumes "machine_inv cfg s" "set (dkeys ts) = set (dkeys (sample_tasks s))"
  shows "machine_inv cfg (s\<lparr> sample_tasks := ts \<rparr>)"
proof (rule machine_extends [OF assms(1)])
  show "core_inv cfg (inflight (running s)) (in_progress (running s)) (s\<lparr> sample_tasks := ts \<rparr>)"
    by (rule core_inv_tasks [OF machine_core [OF assms(1)]]) (use assms(2) in blast)
  show "extends s (s\<lparr> sample_tasks := ts \<rparr>)" by (rule extends_refl) simp_all
  show "tasks_ok (s\<lparr> sample_tasks := ts \<rparr>)" using assms by (simp add: machine_inv_def tasks_ok_def)
qed

lemma task_key: "dget d k = Some v \<Longrightarrow> insert k (set (dkeys d)) = set (dkeys d)"
  using map_of_SomeD by force

lemma cancel_inv:
  assumes inv: "machine_inv cfg s"
  shows "machine_inv cfg (cancel_sample now tenant rid s)"
proof -
  let ?s = "s\<lparr> futures := sweep now (futures s) \<rparr>"
  note swept = retrieve_inv [OF inv, of now]
  have "machine_inv cfg (?s\<lparr> sample_tasks := dset (sample_tasks s) rid y \<rparr>)" if "dget (sample_tasks s) rid = Some x" for x y
    by (rule tasks_same_keys [OF swept]) (use task_key [OF that] in \<open>simp add: set_dkeys_dset\<close>)
  moreover obtain r where "get_future now rid tenant (futures s) = (r, sweep now (futures s))" by (simp add: get_future_def Let_def)
  ultimately show ?thesis using swept
    by (auto simp: cancel_sample_def Let_def split: sum.splits option.splits)
qed

lemma expire_sample_step:
  assumes inv: "machine_inv cfg s" and rid: "rid \<in> set (dkeys (sample_tasks s))" "futures s rid \<noteq> None"
    and s': "s' = expire_sample expired now s (rid, session, c)"
  shows "machine_inv cfg s' \<and> running s' = running s \<and> set (dkeys (sample_tasks s')) = set (dkeys (sample_tasks s))
    \<and> (\<forall>k. futures s k \<noteq> None \<longrightarrow> futures s' k \<noteq> None)"
proof (cases "\<exists>sid. session = Some sid \<and> sid \<in> expired")
  case False
  then have "s' = s" using s' by (auto simp: expire_sample_def split: option.splits)
  then show ?thesis using inv by simp
next
  case True
  let ?st = "FAILED ''lease expired'' ''user''" and ?ts = "dset (sample_tasks s) rid (session, True)"
  let ?s1 = "settle_future now ?st rid s"
  have e: "s' = ?s1\<lparr> sample_tasks := ?ts \<rparr>" using True s' by (auto simp: expire_sample_def)
  have ts: "tasks_ok s" using inv by (simp add: machine_inv_def)
  then obtain f where f: "futures s rid = Some f" "fut_owner f = SampleRequest" using rid unfolding tasks_ok_def by blast
  have spec: "core_inv cfg (inflight (running s)) (in_progress (running s)) ?s1"
    "\<exists>g. futures ?s1 rid = Some g \<and> fut_owner g = SampleRequest \<and> fut_state g \<noteq> PENDING" "\<forall>k. k \<noteq> rid \<longrightarrow> futures ?s1 k = futures s k"
    using settle_sample_inv [OF machine_core [OF inv] f _ refl, of ?st now] by blast+
  have tasks: "sample_tasks ?s1 = sample_tasks s" using settle_future_kept unfolding owners_kept_def by blast
  have keys: "set (dkeys ?ts) = set (dkeys (sample_tasks s))" using rid(1) by (auto simp: set_dkeys_dset)
  have "machine_inv cfg ?s1"
  proof (rule machine_extends [OF inv spec(1)])
    show "extends s ?s1" by (rule extends_refl) (simp_all add: settle_future_queues)
    show "tasks_ok ?s1" by (rule tasks_ok_kept [OF ts settle_future_kept])
  qed
  then have "machine_inv cfg s'" unfolding e using keys tasks by (intro tasks_same_keys) simp_all
  moreover have "futures s' k \<noteq> None" if "futures s k \<noteq> None" for k using that spec(2,3) by (cases "k = rid") (auto simp: e)
  ultimately show ?thesis using keys by (simp add: e)
qed

lemma expire_samples_inv:
  assumes "machine_inv cfg s" "\<And>x. x \<in> set xs \<Longrightarrow> fst x \<in> set (dkeys (sample_tasks s)) \<and> futures s (fst x) \<noteq> None" "running s = None"
  shows "machine_inv cfg (foldl (expire_sample expired now) s xs) \<and> running (foldl (expire_sample expired now) s xs) = None"
  using assms
proof (induction xs arbitrary: s)
  case (Cons x xs)
  obtain rid session c where x: "x = (rid, session, c)" by (cases x)
  let ?s = "expire_sample expired now s x"
  have "rid \<in> set (dkeys (sample_tasks s))" "futures s rid \<noteq> None" using Cons.prems(2) [of x] x by auto
  from expire_sample_step [OF Cons.prems(1) this refl, of expired now session c]
  have S: "machine_inv cfg ?s" "running ?s = running s" "set (dkeys (sample_tasks ?s)) = set (dkeys (sample_tasks s))"
    "\<And>k. futures s k \<noteq> None \<Longrightarrow> futures ?s k \<noteq> None" unfolding x by blast+
  have "machine_inv cfg (foldl (expire_sample expired now) ?s xs) \<and> running (foldl (expire_sample expired now) ?s xs) = None"
  proof (rule Cons.IH [OF S(1)])
    show "fst y \<in> set (dkeys (sample_tasks ?s)) \<and> futures ?s (fst y) \<noteq> None" if "y \<in> set xs" for y
      using Cons.prems(2) [of y] that S(3,4) by auto
    show "running ?s = None" using S(2) Cons.prems(3) by simp
  qed
  then show ?case by simp
qed simp

lemma expire_models_inv:
  assumes "machine_inv cfg s" "running s = None"
  shows "machine_inv cfg (foldl (expire_model cfg env now expired) s xs)"
  using assms
proof (induction xs arbitrary: s)
  case (Cons x xs)
  obtain m r where x: "x = (m, r)" by (cases x)
  let ?s = "expire_model cfg env now expired s x"
  have core: "core_inv cfg {} {} s" using Cons.prems gateway_idle by (simp add: machine_inv_def)
  have "core_inv cfg {} {} ?s" using core close_model_inv [OF core] by (simp add: x expire_model_def)
  moreover have "running ?s = None" using Cons.prems(2) by (simp add: x expire_model_def)
  moreover have "owners_kept s ?s" by (simp add: x expire_model_def close_model_kept owners_kept_refl)
  moreover have "tasks_ok s" using Cons.prems(1) by (simp add: machine_inv_def)
  ultimately have "gateway_inv cfg ?s" "tasks_ok ?s" by (auto intro: idle_inv dest: tasks_ok_kept)
  then have "machine_inv cfg ?s" by (simp add: machine_inv_def)
  then show ?case using Cons.IH \<open>running ?s = None\<close> by simp
qed simp

lemma expire_sessions_inv:
  assumes inv: "machine_inv cfg s" and idle: "running s = None" and known: "retained s"
  shows "machine_inv cfg (expire_sessions cfg env now s)"
proof -
  let ?s1 = "s\<lparr> sessions := filter (\<lambda>(sid, x). sid \<notin> expired_sessions cfg now s) (sessions s),
      sampling_sessions := filter (\<lambda>(k, y). samp_session y \<notin> expired_sessions cfg now s) (sampling_sessions s) \<rparr>"
  have "machine_inv cfg ?s1" using inv by simp
  moreover have "fst x \<in> set (dkeys (sample_tasks ?s1)) \<and> futures ?s1 (fst x) \<noteq> None" if "x \<in> set (sample_tasks ?s1)" for x
    using that known unfolding retained_def by simp
  moreover have "running ?s1 = None" using idle by simp
  ultimately have S: "machine_inv cfg (foldl (expire_sample (expired_sessions cfg now s) now) ?s1 (sample_tasks ?s1))"
    "running (foldl (expire_sample (expired_sessions cfg now s) now) ?s1 (sample_tasks ?s1)) = None"
    using expire_samples_inv [of cfg ?s1 "sample_tasks ?s1" "expired_sessions cfg now s" now] by blast+
  show ?thesis unfolding expire_sessions_def Let_def by (rule expire_models_inv [OF S])
qed

text \<open>
  What is assumed of the surroundings: the trainer is alive when it answers, answers every
  datum and every entry of the unit, and sampling tasks end within the retention of futures.
\<close>

definition event_ok :: "service \<Rightarrow> trainer_env \<times> real \<times> service_event \<Rightarrow> bool" where
  "event_ok s x = (case x of (env, now, ev) \<Rightarrow> (case ev of
       UnitEnds batch_out barrier_out \<Rightarrow> answer_ok (running s) batch_out barrier_out \<and> \<not> trainer_dead env
     | SampleEnds rid outcome \<Rightarrow> retained s
     | Sweeps \<Rightarrow> retained s
     | _ \<Rightarrow> True))"

definition gateway_step :: "gateway_config \<Rightarrow> service \<Rightarrow> trainer_env \<times> real \<times> service_event \<Rightarrow> service" where
  "gateway_step cfg s x = (if event_ok s x then service_step cfg s x else s)"

definition run_gateway :: "gateway_config \<Rightarrow> (trainer_env \<times> real \<times> service_event) list \<Rightarrow> service" where
  "run_gateway cfg xs = foldl (gateway_step cfg) (new_service cfg) xs"

lemma gateway_step_inv:
  assumes inv: "machine_inv cfg s"
  shows "machine_inv cfg (gateway_step cfg s x)"
proof (cases "event_ok s x \<and> \<not> died s")
  case False
  then show ?thesis using inv by (auto simp: gateway_step_def service_step_def split: prod.splits)
next
  case True
  obtain env now ev where x: "x = (env, now, ev)" by (cases x)
  have step: "gateway_step cfg s x = service_step cfg s (env, now, ev)" using True x by (simp add: gateway_step_def)
  have core: "core_inv cfg {} {} s" if "running s = None" using inv that gateway_idle by (simp add: machine_inv_def)
  have ts: "tasks_ok s" and gw: "gateway_inv cfg s" using inv by (simp_all add: machine_inv_def)
  show ?thesis unfolding step
  proof (cases ev)
    case (SlotLoaded m failure)
    have "machine_inv cfg (run_create_model cfg env now m failure s)" if "running s = None"
      using idle_inv [OF run_create_model_inv [OF core [OF that]]] that tasks_ok_kept [OF ts run_create_model_kept]
      by (simp add: machine_inv_def)
    then show "machine_inv cfg (service_step cfg s (env, now, ev))" using SlotLoaded True inv by (simp add: service_step_def)
  next
    case Dispatches
    have "machine_inv cfg (dispatch cfg env now s)" if "running s = None"
      using dispatch_inv [OF gw that] tasks_ok_kept [OF ts dispatch_kept] by (simp add: machine_inv_def)
    then show "machine_inv cfg (service_step cfg s (env, now, ev))" using Dispatches True inv by (simp add: service_step_def)
  next
    case (UnitEnds batch_out barrier_out)
    have "machine_inv cfg (unit_ends cfg env now batch_out barrier_out s)"
      using True UnitEnds unit_ends_inv [OF gw] tasks_ok_kept [OF ts unit_ends_kept] by (simp add: machine_inv_def event_ok_def x)
    then show "machine_inv cfg (service_step cfg s (env, now, ev))" using UnitEnds True by (simp add: service_step_def)
  next
    case Sweeps
    have "machine_inv cfg (expire_sessions cfg env now s)" if "running s = None"
      using expire_sessions_inv [OF inv that] True Sweeps by (simp add: event_ok_def x)
    then show "machine_inv cfg (service_step cfg s (env, now, ev))" using Sweeps True inv by (simp add: service_step_def)
  next
    case (SampleEnds rid outcome)
    have "machine_inv cfg (sample_ends now rid outcome s)" using sample_ends_inv [OF inv] True SampleEnds by (simp add: event_ok_def x)
    then show "machine_inv cfg (service_step cfg s (env, now, ev))" using SampleEnds True by (simp add: service_step_def)
  qed (use True inv in \<open>simp_all add: service_step_def create_session_inv heartbeat_inv create_model_machine submit_machine
      retrieve_inv create_sampling_inv submit_sample_inv cancel_inv\<close>)
qed

lemma new_service_inv: "machine_inv cfg (new_service cfg)"
  by (simp add: machine_inv_def tasks_ok_def gateway_inv_def service_inv_def same_op_def running_ok_def core_inv_def work_ok_def
      slots_ok_def requests_ok_def records_ok_def futures_ok_def futures_wf_def commands_await_def creations_await_def history_ok_def
      new_service_def dict_ok_def)

interpretation gw: machine "gateway_step cfg" "machine_inv cfg" for cfg
  by unfold_locales (rule gateway_step_inv)

lemma run_gateway_inv: "machine_inv cfg (run_gateway cfg xs)"
  unfolding run_gateway_def by (rule gw.inv_run [OF new_service_inv])

section \<open>What holds of every run\<close>

text \<open>A run on two slots: a model is created and loaded, and asked for one forward-backward pass.\<close>

definition demo_config :: gateway_config where
  "demo_config = \<lparr> config_base_model = ''base'', n_slots = 2, vocab_size = 10, max_datums_per_request = 4, max_tokens_per_datum = 4,
     max_tokens_per_request = 8, max_samples_per_request = 2, max_lora_rank = 32, config_lora_alpha = None, trains_attn = True,
     trains_mlp = True, trains_unembed = False, lease_timeout = 60, batch_token_budget = 8 \<rparr>"

definition demo_env :: trainer_env where
  "demo_env = \<lparr> trainer_dead = False, unload_fails = (\<lambda>_. False) \<rparr>"

definition demo_datum :: tinker_datum where
  "demo_datum = \<lparr> datum_tokens = [WireInt 1], target_tokens = [WireInt 2], target_len = 1, loss_inputs = [(''weights'', [WireFloat 1])] \<rparr>"

definition demo_create :: create_payload where
  "demo_create = \<lparr> cp_session = 0, cp_model_seq = WireInt 0, cp_base_model = ''base'',
     cp_lora = \<lparr> lora_seed = None, lora_train_attn = None, lora_train_mlp = None, lora_train_unembed = None, lora_rank = Some (WireInt 8) \<rparr> \<rparr>"

definition demo_submit :: submit_payload where
  "demo_submit = \<lparr> sp_model = 1, sp_seq = WireInt 1,
     sp_batch = \<lparr> payload_datums = [demo_datum], loss_fn = ''cross_entropy'', loss_fn_config = None \<rparr>, sp_error = None \<rparr>"

definition demo_events :: "(trainer_env \<times> real \<times> service_event) list" where
  "demo_events = map (\<lambda>e. (demo_env, 0, e))
     [CreatesSession ''t'', CreatesModel ''t'' demo_create, SlotLoaded 1 None, Submits ''t'' (Some FORWARD_BACKWARD) demo_submit]"

lemma demo_create_run:
  "run_gateway demo_config (take 2 demo_events) = \<lparr> futures = [2 \<mapsto> new_future (ModelCreation 1) ''t''],
     service_queues = [(1, new_model_queue ''t'' 0)],
     models = [(1, \<lparr> rec_session = 0, rec_tenant = ''t'', rec_slot = 0, rec_rank = 8, create_request = 2, request_by_seq = [], slot_initialized = False \<rparr>)],
     sessions = [(0, \<lparr> sess_tenant = ''t'', last_heartbeat = 0, models_by_seq = [(0, (2, 1))], sampling_by_seq = [] \<rparr>)],
     sampling_sessions = [], free_slots = {1}, sample_tasks = [], close_reasons = [], arrival_counter = 0, next_id = 3,
     running = None, died = False, history = [] \<rparr>"
proof -
  have "Min {0..<Suc (Suc 0)} = 0" "{0..<Suc (Suc 0)} - {0} = {Suc 0}" by (auto intro!: Min_eqI)
  then show ?thesis
  by (simp add: run_gateway_def demo_events_def gateway_step_def event_ok_def service_step_def new_service_def create_session_def
      create_model_def session_for_def demo_create_def validate_seq_id_def validate_model_config_def demo_config_def create_future_def
      Let_def numeral_eq_Suc)
qed

lemma run_gateway_append: "run_gateway cfg (xs @ ys) = foldl (gateway_step cfg) (run_gateway cfg xs) ys"
  by (simp add: run_gateway_def)

lemma demo_run:
  "run_gateway demo_config demo_events = \<lparr> futures = [2 \<mapsto> (new_future (ModelCreation 1) ''t'')\<lparr> fut_state := DONE (ModelCreated 1), finished_at := Some 0 \<rparr>,
       3 \<mapsto> new_future (CommandOf 1 1) ''t''],
     service_queues = [(1, (new_model_queue ''t'' 0)\<lparr> last_enqueued_seq_id := 1, queue := [
       \<lparr> pend_command = \<lparr> cmd_model = 1, seq_id = 1, cmd_op = FORWARD_BACKWARD, payload = sp_batch demo_submit, request_id = 3, arrival = 1,
           validation_error = None \<rparr>, datums = [demo_datum], num_issued_datums = 0, outputs = [None], remaining = 1 \<rparr>] \<rparr>)],
     models = [(1, \<lparr> rec_session = 0, rec_tenant = ''t'', rec_slot = 0, rec_rank = 8, create_request = 2, request_by_seq = [(1, 3)], slot_initialized = True \<rparr>)],
     sessions = [(0, \<lparr> sess_tenant = ''t'', last_heartbeat = 0, models_by_seq = [(0, (2, 1))], sampling_by_seq = [] \<rparr>)],
     sampling_sessions = [], free_slots = {1}, sample_tasks = [], close_reasons = [], arrival_counter = 1, next_id = 4,
     running = None, died = False, history = [] \<rparr>"
proof -
  have e: "run_gateway demo_config demo_events = foldl (gateway_step demo_config) (run_gateway demo_config (take 2 demo_events)) (drop 2 demo_events)"
    by (simp flip: run_gateway_append)
  have rest: "drop 2 demo_events = [(demo_env, 0, SlotLoaded 1 None), (demo_env, 0, Submits ''t'' (Some FORWARD_BACKWARD) demo_submit)]"
    by (simp add: demo_events_def)
  have valid: "validate_batch_payload FORWARD_BACKWARD \<lparr> payload_datums = [demo_datum], loss_fn = ''cross_entropy'',
      loss_fn_config = None \<rparr> demo_config = None"
    by (simp add: demo_config_def demo_datum_def validate_batch_payload_def is_batch_def first_error_def check_loss_config_def
        check_datum_def check_tokens_def check_loss_input_def check_unread_def LOSS_FN_INPUTS_def LOSS_INPUT_KEYS_def)
  show ?thesis
    unfolding e rest demo_create_run
    by (simp add: gateway_step_def event_ok_def service_step_def
        run_create_model_def settle_future_def settle_def submit_def get_model_def validate_seq_id_def create_future_def valid
        update_queue_def mq_submit_def enqueue_contiguous.simps new_model_queue_def new_pending_def is_batch_def Let_def
        new_future_def demo_submit_def numeral_eq_Suc)
qed

text \<open>
  C13: Every datum and every barrier command is handed to the trainer at most once, and in the
  history of one model barriers are ordered against everything else by sequence id: whatever
  was handed out before a barrier has a smaller id than the barrier, whatever comes after it a
  greater one.
\<close>

theorem commands_run_once_in_order: "sorted_wrt before (history (run_gateway cfg xs))"
  using core_invD(8) [OF machine_core [OF run_gateway_inv]] unfolding history_ok_def by blast

text \<open>
  C14: A future is pending exactly while its owner still has it in hand: a model whose slot is
  being loaded, or a command in the queue of a live model; a pending sample has its task.
\<close>

theorem pending_futures_are_owed:
  assumes "s = run_gateway cfg xs"
  shows "((\<exists>t. awaiting (futures s) rid w t) \<longrightarrow> owed s rid w)
    \<and> (w \<noteq> SampleRequest \<longrightarrow> owed s rid w \<longrightarrow> (\<exists>t. awaiting (futures s) rid w t))"
proof -
  note I = core_invD [OF machine_core [OF run_gateway_inv [of cfg xs]]]
  have "owed s rid w" if "awaiting (futures s) rid w t" for t
    using futures_okD(3) [OF I(5)] that assms unfolding awaiting_def by blast
  moreover have "\<exists>t. awaiting (futures s) rid w t" if w: "w \<noteq> SampleRequest" "owed s rid w"
    using I(6,7) w unfolding assms commands_await_def creations_await_def owed_def by (cases w) fastforce+
  ultimately show ?thesis by blast
qed

theorem pending_futures_are_owed_witness:
  "owed (run_gateway demo_config demo_events) 3 (CommandOf 1 1) \<and> \<not> owed (run_gateway demo_config demo_events) 2 (ModelCreation 1)"
  using pending_futures_are_owed [OF refl, of demo_config demo_events 3 "CommandOf 1 1"]
    pending_futures_are_owed [OF refl, of demo_config demo_events 2 "ModelCreation 1"]
  by (simp add: demo_run awaiting_def new_future_def)

text \<open>C29: The slots of the models are distinct, in range, and none of them is free.\<close>

theorem slots_are_exclusive:
  "distinct (map (\<lambda>x. rec_slot (snd x)) (models (run_gateway cfg xs)))
   \<and> (\<forall>x\<in>set (models (run_gateway cfg xs)). rec_slot (snd x) \<in> {0..<n_slots cfg} - free_slots (run_gateway cfg xs))"
proof -
  let ?s = "run_gateway cfg xs"
  note D = slots_okD [OF core_invD(2) [OF machine_core [OF run_gateway_inv [of cfg xs]]]]
  have get: "dget (models ?s) (fst x) = Some (snd x)" if "x \<in> set (models ?s)" for x
    using dget_in [OF D(1), of "fst x" "snd x"] that by simp
  have "x = y" if "x \<in> set (models ?s)" "y \<in> set (models ?s)" "rec_slot (snd x) = rec_slot (snd y)" for x y
    using D(6) [OF get [OF that(1)] get [OF that(2)] that(3)] get [OF that(1)] get [OF that(2)] by (simp add: prod_eq_iff)
  moreover have "distinct (models ?s)" using D(1) by (simp add: dict_ok_def distinct_map)
  moreover have "rec_slot (snd x) \<in> {0..<n_slots cfg} - free_slots ?s" if "x \<in> set (models ?s)" for x
    using D(5) [OF get [OF that]] by simp
  ultimately show ?thesis unfolding distinct_map inj_on_def by blast
qed

theorem slots_are_exclusive_witness:
  "models (run_gateway demo_config demo_events) \<noteq> [] \<and> rec_slot (snd (hd (models (run_gateway demo_config demo_events)))) \<in> {0..<2} - {1}"
proof -
  have "\<forall>x\<in>set (models (run_gateway demo_config demo_events)).
      rec_slot (snd x) \<in> {0..<n_slots demo_config} - free_slots (run_gateway demo_config demo_events)"
    using slots_are_exclusive [of demo_config demo_events] by blast
  moreover have "n_slots demo_config = 2" by (simp add: demo_config_def)
  ultimately show ?thesis by (simp add: demo_run)
qed

text \<open>
  C17: The gateway never dies of its own bookkeeping, and its dispatcher never sleeps on work:
  with no unit running it finds nothing to reject and nothing to run only when every queue is empty.
\<close>

theorem dispatcher_never_stalls:
  assumes "s = run_gateway cfg xs" "running s = None"
  shows "\<not> died s \<and> (ready_rejections (service_queues s) = [] \<and> fst (schedule_next budget (service_queues s)) = None
    \<longleftrightarrow> (\<forall>x\<in>set (service_queues s). queue (snd x) = []))"
proof -
  have core: "core_inv cfg {} {} s" using gateway_idle [of cfg s] run_gateway_inv [of cfg xs] assms by (simp add: machine_inv_def)
  note w = core_invD(1) [OF core]
  have d: "dict_ok (service_queues s)" using w by (simp add: work_ok_def)
  have "queue (snd x) = []" if "ready_rejections (service_queues s) = []" "fst (schedule_next budget (service_queues s)) = None" "x \<in> set (service_queues s)" for x
    using schedule_next_progress [OF w, of "fst x" "snd x" budget] that dget_in [OF d, of "fst x" "snd x"] by auto
  moreover have "ready_rejections (service_queues s) = []" "fst (schedule_next budget (service_queues s)) = None"
    if e: "\<forall>x\<in>set (service_queues s). queue (snd x) = []"
  proof -
    have no: "\<not> entry_head (service_queues s) x" for x
      using e dget_in [OF d] by (force simp: entry_head_def)
    show "ready_rejections (service_queues s) = []" using in_ready_rejections [OF d] no by (metis list.set_intros(1) neq_Nil_conv)
    have "ready_barriers (service_queues s) = []" using in_ready_barriers [OF d] no unfolding barrier_head_def by (metis list.set_intros(1) neq_Nil_conv)
    moreover have "ready_datums (service_queues s) = []"
      using e by (auto simp: ready_datums_def open_batch_run_def)
    ultimately show "fst (schedule_next budget (service_queues s)) = None" by (simp add: schedule_next_def)
  qed
  ultimately show ?thesis using core_invD(9) [OF core] by blast
qed

theorem dispatcher_never_stalls_witness:
  "\<not> (ready_rejections (service_queues (run_gateway demo_config demo_events)) = []
     \<and> fst (schedule_next 8 (service_queues (run_gateway demo_config demo_events))) = None)"
  using dispatcher_never_stalls [OF refl, of demo_config demo_events 8] by (simp add: demo_run)

text \<open>
  C22: A batch is never empty, holds requests of one operation and one loss configuration only,
  stays within the token budget unless it is a single datum, and starts with a datum that no
  ready datum arrived before.
\<close>

theorem batches_are_packed:
  assumes "s = run_gateway cfg xs" "running s = None" "schedule_next budget (service_queues s) = (Some (BatchUnit b), qs)"
  shows "batch_datums b \<noteq> [] \<and> set (batch_datums b) \<subseteq> set (ready_datums (service_queues s))
    \<and> (\<forall>r\<in>set (batch_datums b). cmd_op (ref_command r) = batch_op b \<and> pack_key (ref_command r) = pack_key (ref_command (hd (batch_datums b))))
    \<and> (length (batch_datums b) = 1 \<or> unit_tokens (batch_datums b) \<le> budget)
    \<and> (\<forall>r\<in>set (ready_datums (service_queues s)). ref_arrival (hd (batch_datums b)) \<le> ref_arrival r)"
proof -
  have core: "core_inv cfg {} {} s" using gateway_idle [of cfg s] run_gateway_inv [of cfg xs] assms by (simp add: machine_inv_def)
  note ok = schedule_next_ok [OF core_invD(1) [OF core] assms(3), unfolded unit_ok_def work_unit.case]
  then have "batch_datums b \<noteq> []" by blast
  then have "hd (batch_datums b) \<in> set (batch_datums b)" by simp
  then show ?thesis using ok by blast
qed

theorem batches_are_packed_witness:
  "\<exists>b qs. schedule_next 8 (service_queues (run_gateway demo_config demo_events)) = (Some (BatchUnit b), qs) \<and> batch_datums b \<noteq> []"
proof -
  have "\<exists>b qs. schedule_next 8 (service_queues (run_gateway demo_config demo_events)) = (Some (BatchUnit b), qs)"
    by (simp add: demo_run schedule_next_def ready_datums_def ready_barriers_def ready_barrier_def open_batch_run_def is_batch_op_def
        is_batch_def request_refs_def pack_batch_def Let_def)
  then obtain b qs where b: "schedule_next 8 (service_queues (run_gateway demo_config demo_events)) = (Some (BatchUnit b), qs)" by blast
  have "running (run_gateway demo_config demo_events) = None" by (simp add: demo_run)
  then show ?thesis using batches_are_packed [OF refl _ b] b by blast
qed

end
