(* ===== verification/OpsdStudy.thy ===== *)
theory OpsdStudy
  imports Prelude
begin

text \<open>
  The evaluation cadence of the cyclic OPSD runs (\<open>utils/opsd_cyclic.py\<close>, \<open>utils/opsd_study.py\<close>) and the
  finite phase-length study (\<open>tools/opsd/math_phase_protocol.py\<close>): its recipes and their
  identities, the schedule and the counts of one recipe, and the cells of both waves.
\<close>

section \<open>Evaluation cadence\<close>

datatype eval_suite = Validation | Benchmark

definition benchmark_steps :: "nat \<Rightarrow> nat list" where
  "benchmark_steps planned = map (\<lambda>k. (k * planned + 9) div 10) [1..<11]"

definition cyclic_evaluation_suites :: "int \<Rightarrow> nat \<Rightarrow> nat \<Rightarrow> nat \<Rightarrow> eval_suite list res" where
  "cyclic_evaluation_suites completed planned np opd =
     (if \<not> (0 \<le> completed \<and> completed \<le> int planned) then Inl ValueError
      else if np + opd = 0 then Inl ZeroDivisionError
      else Inr ((if nat completed mod (np + opd) \<in> {0, np} then [Validation] else [])
        @ (if nat completed \<in> set (0 # benchmark_steps planned) then [Benchmark] else [])))"

definition evaluation_steps :: "int \<Rightarrow> nat list res" where
  "evaluation_steps updates = (if updates \<le> 0 then Inl ValueError else Inr (sort (remdups (benchmark_steps (nat updates)))))"

text \<open>The steps with something to evaluate, in order.\<close>

definition schedule_of :: "nat \<Rightarrow> nat \<Rightarrow> nat \<Rightarrow> (nat \<times> eval_suite list) list res" where
  "schedule_of updates np opd =
     rbind (res_all (map (\<lambda>s. cyclic_evaluation_suites (int s) updates np opd) [0..<updates + 1]))
       (\<lambda>xs. Inr (filter (\<lambda>x. snd x \<noteq> []) (zip [0..<updates + 1] xs)))"

definition evaluation_schedule :: "nat \<Rightarrow> nat \<Rightarrow> nat \<Rightarrow> (nat \<times> eval_suite list) list res" where
  "evaluation_schedule updates np opd =
     (if min updates (min np opd) = 0 \<or> updates mod (np + opd) \<noteq> 0 then Inl ValueError else schedule_of updates np opd)"

text \<open>How many trained steps (step 0 is the original model) a schedule evaluates on a suite.\<close>

definition suite_count :: "eval_suite \<Rightarrow> (nat \<times> eval_suite list) list \<Rightarrow> nat" where
  "suite_count x sched = length (filter (\<lambda>(step, suites). x \<in> set suites \<and> step \<noteq> 0) sched)"

record screen_counts =
  sc_optimizer_updates :: nat
  sc_training_questions :: nat
  sc_snapshots :: nat
  sc_validation :: nat
  sc_benchmark :: nat
  sc_validation_responses :: nat
  sc_benchmark_responses :: nat
  sc_total_responses :: nat

definition screen_counts :: "int \<Rightarrow> screen_counts res" where
  "screen_counts questions =
     (if questions \<le> 0 then Inl ValueError
      else rbind (evaluation_schedule 88 7 4) (\<lambda>sched.
        let v = 4 * suite_count Validation sched + 2; b = 4 * suite_count Benchmark sched + 2; n = nat questions in
        Inr \<lparr> sc_optimizer_updates = 4 * 88, sc_training_questions = 88 * 4, sc_snapshots = 4 * (length sched - 1),
              sc_validation = v, sc_benchmark = b, sc_validation_responses = v * n * 8, sc_benchmark_responses = b * 100 * 8,
              sc_total_responses = v * n * 8 + b * 100 * 8 \<rparr>))"

section \<open>Recipes and their identities\<close>

definition MODELS :: "string list" where
  "MODELS = [''Qwen3-8B'', ''Qwen3-4B'']"

definition SPLITS :: "(nat \<times> nat) list" where
  "SPLITS = [(3, 8), (5, 6), (7, 4), (9, 2)]"

definition WORKERS :: "string list" where
  "WORKERS = [''worker-a'', ''worker-b'', ''worker-c'', ''worker-d'']"

definition WAVES :: "(nat \<times> nat) list list" where
  "WAVES = [[(3, 8), (7, 4)], [(5, 6), (9, 2)]]"

text \<open>The policies and the learning rate of a recipe are fixed to their defaults.\<close>

record phase_recipe =
  pr_model :: string
  pr_pi :: nat
  pr_opd :: nat
  pr_updates :: nat
  pr_seed :: nat

definition new_phase_recipe :: "string \<Rightarrow> nat \<Rightarrow> nat \<Rightarrow> nat \<Rightarrow> nat \<Rightarrow> phase_recipe res" where
  "new_phase_recipe m np opd updates seed =
     (if min np (min opd updates) < 1 \<or> updates mod (np + opd) \<noteq> 0 then Inl ValueError
      else if m \<notin> set MODELS \<or> (np, opd) \<notin> set SPLITS \<or> updates \<noteq> 88 \<or> seed \<noteq> 137 then Inl ValueError
      else Inr \<lparr> pr_model = m, pr_pi = np, pr_opd = opd, pr_updates = updates, pr_seed = seed \<rparr>)"

definition model_size :: "string \<Rightarrow> string res" where
  "model_size m = (if m = ''Qwen3-4B'' then Inr ''4b'' else if m = ''Qwen3-8B'' then Inr ''8b'' else Inl KeyError)"

definition DIGITS :: string where
  "DIGITS = ''0123456789''"

fun show_nat :: "nat \<Rightarrow> string" where
  "show_nat n = (if n < 10 then [DIGITS ! n] else show_nat (n div 10) @ [DIGITS ! (n mod 10)])"

definition run_id :: "phase_recipe \<Rightarrow> string res" where
  "run_id r = rbind (model_size (pr_model r)) (\<lambda>sz.
     Inr (''mathphases-v1-qwen3-'' @ sz @ ''-refresh-pi'' @ show_nat (pr_pi r) @ ''-opd'' @ show_nat (pr_opd r)
       @ ''-u88-reset-constant-s137-r1''))"

definition digit_value :: "char \<Rightarrow> nat" where
  "digit_value c = length (takeWhile (\<lambda>d. d \<noteq> c) DIGITS)"

definition read_nat :: "string \<Rightarrow> nat" where
  "read_nat ds = foldl (\<lambda>n c. 10 * n + digit_value c) 0 ds"

fun strip_prefix :: "string \<Rightarrow> string \<Rightarrow> string option" where
  "strip_prefix [] s = Some s"
| "strip_prefix (c # p) [] = None"
| "strip_prefix (c # p) (d # s) = (if c = d then strip_prefix p s else None)"

text \<open>\<open>([0-9]+)\<close> before a literal that starts with no digit.\<close>

definition scan_digits :: "string \<Rightarrow> (string \<times> string) option" where
  "scan_digits s = (case takeWhile (\<lambda>c. c \<in> set DIGITS) s of [] \<Rightarrow> None | ds \<Rightarrow> Some (ds, dropWhile (\<lambda>c. c \<in> set DIGITS) s))"

definition scan_size :: "string \<Rightarrow> (string \<times> string) option" where
  "scan_size s = (case strip_prefix ''4b'' s of Some t \<Rightarrow> Some (''4b'', t)
     | None \<Rightarrow> (case strip_prefix ''8b'' s of Some t \<Rightarrow> Some (''8b'', t) | None \<Rightarrow> None))"

definition match_run_id :: "string \<Rightarrow> (string \<times> string \<times> string) option" where
  "match_run_id s = Option.bind (strip_prefix ''mathphases-v1-qwen3-'' s) (\<lambda>s. Option.bind (scan_size s) (\<lambda>(sz, s).
     Option.bind (strip_prefix ''-refresh-pi'' s) (\<lambda>s. Option.bind (scan_digits s) (\<lambda>(np, s).
       Option.bind (strip_prefix ''-opd'' s) (\<lambda>s. Option.bind (scan_digits s) (\<lambda>(opd, s).
         if s = ''-u88-reset-constant-s137-r1'' then Some (sz, np, opd) else None))))))"

definition parse_run_id :: "string \<Rightarrow> phase_recipe res" where
  "parse_run_id s = (case match_run_id s of
       None \<Rightarrow> Inl ValueError
     | Some (sz, np, opd) \<Rightarrow>
         rbind (new_phase_recipe (if sz = ''4b'' then ''Qwen3-4B'' else ''Qwen3-8B'') (read_nat np) (read_nat opd) 88 137) (\<lambda>r.
           rbind (run_id r) (\<lambda>s'. if s' \<noteq> s then Inl ValueError else Inr r)))"

text \<open>A recipe that the constructor accepts.\<close>

definition recipe_ok :: "phase_recipe \<Rightarrow> bool" where
  "recipe_ok r \<longleftrightarrow> new_phase_recipe (pr_model r) (pr_pi r) (pr_opd r) (pr_updates r) (pr_seed r) = Inr r"

declare show_nat.simps [simp del]

lemma show_nat_digit: "n < 10 \<Longrightarrow> show_nat n = [DIGITS ! n]"
  by (subst show_nat.simps) simp

lemma strip_prefix_append: "strip_prefix p (p @ s) = Some s"
  by (induction p) simp_all

lemma digit_cases:
  fixes n :: nat
  assumes "n < 10" "\<And>k. k \<in> set [0, 1, 2, 3, 4, 5, 6, 7, 8, 9] \<Longrightarrow> P k"
  shows "P n"
proof (rule assms(2))
  have "n \<in> set [0..<10]" using assms(1) by simp
  then show "n \<in> set [0, 1, 2, 3, 4, 5, 6, 7, 8, 9]" by (auto simp: upt_rec eval_nat_numeral)
qed

lemma scan_digits_one: "n < 10 \<Longrightarrow> scan_digits (DIGITS ! n # CHR ''-'' # s) = Some ([DIGITS ! n], CHR ''-'' # s)"
proof -
  assume n: "n < 10"
  have "DIGITS ! n \<in> set DIGITS" by (rule nth_mem) (use n in \<open>simp add: DIGITS_def\<close>)
  moreover have "CHR ''-'' \<notin> set DIGITS" by (simp add: DIGITS_def)
  ultimately show ?thesis by (simp add: scan_digits_def)
qed

lemma read_nat_one: "n < 10 \<Longrightarrow> read_nat [DIGITS ! n] = n"
proof (erule digit_cases)
  show "read_nat [DIGITS ! k] = k" if "k \<in> set [0, 1, 2, 3, 4, 5, 6, 7, 8, 9]" for k
    using that by (auto simp: read_nat_def digit_value_def DIGITS_def)
qed

lemma match_identity:
  assumes "a < 10" "b < 10" "sz = ''4b'' \<or> sz = ''8b''"
  shows "match_run_id (''mathphases-v1-qwen3-'' @ sz @ ''-refresh-pi'' @ show_nat a @ ''-opd'' @ show_nat b @ ''-u88-reset-constant-s137-r1'')
    = Some (sz, show_nat a, show_nat b)"
proof -
  have size: "scan_size (sz @ s) = Some (sz, s)" for s using assms(3) by (auto simp: scan_size_def)
  have dash: "scan_digits (show_nat n @ CHR ''-'' # s) = Some (show_nat n, CHR ''-'' # s)" if "n < 10" for n s
    using that by (simp add: show_nat_digit scan_digits_one)
  have opd: "scan_digits (show_nat a @ ''-opd'' @ s) = Some (show_nat a, ''-opd'' @ s)" for s
    using dash [OF assms(1)] unfolding append.simps by metis
  have tail: "scan_digits (show_nat b @ ''-u88-reset-constant-s137-r1'') = Some (show_nat b, ''-u88-reset-constant-s137-r1'')"
    by (rule dash [OF assms(2)])
  show ?thesis
    unfolding match_run_id_def strip_prefix_append size opd tail bind.simps prod.case by (simp only: if_True refl)
qed

lemma new_recipe_small:
  assumes "new_phase_recipe m np opd updates seed = Inr r"
  shows "np < 10 \<and> opd < 10"
  using assms by (auto simp: new_phase_recipe_def SPLITS_def split: if_splits)

lemma identity_reads_back:
  assumes "recipe_ok r" "run_id r = Inr s"
  shows "parse_run_id s = Inr r"
proof -
  have n: "new_phase_recipe (pr_model r) (pr_pi r) (pr_opd r) 88 137 = Inr r"
    using assms(1) unfolding recipe_ok_def new_phase_recipe_def by (auto split: if_splits)
  obtain sz where sz: "model_size (pr_model r) = Inr sz" "sz = ''4b'' \<or> sz = ''8b''" "pr_model r = (if sz = ''4b'' then ''Qwen3-4B'' else ''Qwen3-8B'')"
    and s: "s = ''mathphases-v1-qwen3-'' @ sz @ ''-refresh-pi'' @ show_nat (pr_pi r) @ ''-opd'' @ show_nat (pr_opd r) @ ''-u88-reset-constant-s137-r1''"
    using assms(2) by (auto simp: run_id_def model_size_def rbind_Inr_iff split: if_splits)
  have small: "pr_pi r < 10" "pr_opd r < 10" using new_recipe_small [OF n] by simp_all
  have m: "match_run_id s = Some (sz, show_nat (pr_pi r), show_nat (pr_opd r))"
    unfolding s using match_identity [OF small sz(2)] .
  have v: "read_nat (show_nat k) = k" if "k < 10" for k using that by (simp add: show_nat_digit read_nat_one)
  show ?thesis unfolding parse_run_id_def m v [OF small(1)] v [OF small(2)]
    using n assms(2) unfolding sz(3) by (simp add: v small)
qed
text \<open>
  Reading an identity gives a recipe exactly when the recipe is one of the study and the
  text is its identity: every recipe reads back, and nothing else is accepted.
\<close>

theorem parse_run_id_roundtrip: "parse_run_id s = Inr r \<longleftrightarrow> recipe_ok r \<and> run_id r = Inr s"
proof
  assume p: "parse_run_id s = Inr r"
  then obtain sz np opd where m: "match_run_id s = Some (sz, np, opd)" by (auto simp: parse_run_id_def split: option.splits)
  then have n: "new_phase_recipe (if sz = ''4b'' then ''Qwen3-4B'' else ''Qwen3-8B'') (read_nat np) (read_nat opd) 88 137 = Inr r"
    and i: "run_id r = Inr s" using p by (auto simp: parse_run_id_def rbind_Inr_iff split: if_splits)
  have "recipe_ok r" using n unfolding recipe_ok_def new_phase_recipe_def by (auto split: if_splits)
  then show "recipe_ok r \<and> run_id r = Inr s" using i by blast
next
  assume "recipe_ok r \<and> run_id r = Inr s"
  then show "parse_run_id s = Inr r" using identity_reads_back by blast
qed

section \<open>The schedule of a recipe\<close>

lemma phase_ends:
  fixes c p n :: nat
  assumes "0 < p" "p < c"
  shows "card {s. 0 < s \<and> s \<le> n * c \<and> s mod c \<in> {0, p}} = 2 * n"
proof -
  let ?A = "(\<lambda>i. (i + 1) * c) ` {..<n}" and ?B = "(\<lambda>i. i * c + p) ` {..<n}"
  have c: "0 < c" using assms by simp
  have split: "{s. 0 < s \<and> s \<le> n * c \<and> s mod c \<in> {0, p}} = ?A \<union> ?B"
  proof (intro equalityI subsetI)
    fix s assume "s \<in> {s. 0 < s \<and> s \<le> n * c \<and> s mod c \<in> {0, p}}"
    then have s: "0 < s" "s \<le> n * c" "s mod c = 0 \<or> s mod c = p" by auto
    have e: "s = s div c * c + s mod c" by simp
    show "s \<in> ?A \<union> ?B"
    proof (cases "s mod c = 0")
      case True
      then have d: "s = s div c * c" "0 < s div c" using e s(1) by auto
      have "s div c \<le> n" using s(2) c by (metis d(1) mult_le_cancel2)
      then have "s = (s div c - 1 + 1) * c" "s div c - 1 < n" using d by simp_all
      then show ?thesis by blast
    next
      case False
      then have d: "s = s div c * c + p" using e s(3) by metis
      then have "s div c * c < n * c" using s(2) assms(1) by linarith
      then have "s div c < n" by simp
      then show ?thesis using d by blast
    qed
  next
    fix s assume "s \<in> ?A \<union> ?B"
    then show "s \<in> {s. 0 < s \<and> s \<le> n * c \<and> s mod c \<in> {0, p}}"
    proof
      assume "s \<in> ?A"
      then obtain i where i: "i < n" "s = (i + 1) * c" by blast
      have "(i + 1) * c \<le> n * c" using i(1) by (intro mult_right_mono) simp_all
      then show ?thesis using i(2) c by simp
    next
      assume "s \<in> ?B"
      then obtain i where i: "i < n" "s = i * c + p" by blast
      have "(i + 1) * c \<le> n * c" using i(1) by (intro mult_right_mono) simp_all
      then show ?thesis using i(2) assms by simp
    qed
  qed
  have "?A \<inter> ?B = {}"
  proof -
    have "s mod c = 0" if "s \<in> ?A" for s using that by auto
    moreover have "s mod c = p" if "s \<in> ?B" for s using that assms(2) by auto
    ultimately show ?thesis using assms(1) by fastforce
  qed
  moreover have "card ?A = n" "card ?B = n" using c by (auto simp: card_image inj_on_def)
  ultimately show ?thesis unfolding split by (subst card_Un_disjoint) auto
qed

lemma benchmark_steps_strict:
  assumes "10 \<le> u" "k < k'"
  shows "(k * u + 9) div 10 < (k' * u + 9) div (10::nat)"
proof -
  have "k * u + 10 \<le> (k + 1) * u" using assms(1) by simp
  also have "\<dots> \<le> k' * u" using assms(2) by (intro mult_right_mono) simp_all
  finally have "(k * u + 9 + 10) div 10 \<le> (k' * u + 9) div 10" by (intro div_le_mono) simp
  then show ?thesis by simp
qed

lemma benchmark_steps_range:
  assumes "s \<in> set (benchmark_steps u)" "0 < u"
  shows "0 < s \<and> s \<le> u"
proof -
  obtain k where k: "k \<in> {1..<11}" "s = (k * u + 9) div 10" using assms(1) by (auto simp: benchmark_steps_def)
  have "u \<le> k * u" "k * u \<le> 10 * u" using k(1) by simp_all
  then show ?thesis using k(2) assms(2) by linarith
qed

lemma card_benchmark_steps: "10 \<le> u \<Longrightarrow> card (set (benchmark_steps u)) = 10"
proof -
  assume u: "10 \<le> u"
  have "inj_on (\<lambda>k. (k * u + 9) div 10) {1..<11}"
  proof (rule linorder_inj_onI)
    show "(k * u + 9) div 10 \<noteq> (k' * u + 9) div 10" if "k < k'" for k k' using benchmark_steps_strict [OF u that] by simp
  qed auto
  then show ?thesis by (simp add: benchmark_steps_def card_image)
qed

lemma suites_of_step:
  assumes "s \<le> u" "0 < np + opd"
  shows "cyclic_evaluation_suites (int s) u np opd =
    Inr ((if s mod (np + opd) \<in> {0, np} then [Validation] else []) @ (if s \<in> set (0 # benchmark_steps u) then [Benchmark] else []))"
  using assms by (simp add: cyclic_evaluation_suites_def)

definition suites_at :: "nat \<Rightarrow> nat \<Rightarrow> nat \<Rightarrow> nat \<Rightarrow> eval_suite list" where
  "suites_at u np opd s = (if s mod (np + opd) \<in> {0, np} then [Validation] else []) @ (if s \<in> set (0 # benchmark_steps u) then [Benchmark] else [])"

definition schedule_steps :: "nat \<Rightarrow> nat \<Rightarrow> nat \<Rightarrow> nat list" where
  "schedule_steps u np opd = filter (\<lambda>s. suites_at u np opd s \<noteq> []) [0..<u + 1]"

lemma set_schedule_steps: "set (schedule_steps u np opd) = {s. s \<le> u \<and> suites_at u np opd s \<noteq> []}"
  by (auto simp only: schedule_steps_def set_filter set_upt atLeastLessThan_iff mem_Collect_eq)

lemma schedule_of_eq:
  assumes "0 < np + opd"
  shows "schedule_of u np opd = Inr (map (\<lambda>s. (s, suites_at u np opd s)) (schedule_steps u np opd))"
proof -
  define xs where "xs = [0..<u + 1]"
  have all: "res_all (map (\<lambda>s. cyclic_evaluation_suites (int s) u np opd) xs) = Inr (map (suites_at u np opd) xs)"
    by (rule res_all_map_Inr) (simp only: suites_at_def, rule suites_of_step, use assms in \<open>auto simp: xs_def\<close>)
  have "zip xs (map (suites_at u np opd) xs) = map (\<lambda>s. (s, suites_at u np opd s)) xs"
    by (induction xs) simp_all
  then show ?thesis unfolding schedule_of_def schedule_steps_def xs_def [symmetric] all by (simp add: filter_map comp_def)
qed

lemma suite_count_card:
  assumes "x = Validation \<or> x = Benchmark"
  shows "suite_count x (map (\<lambda>s. (s, suites_at u np opd s)) (schedule_steps u np opd))
    = card {s. 0 < s \<and> s \<le> u \<and> x \<in> set (suites_at u np opd s)}"
proof -
  have "suite_count x (map (\<lambda>s. (s, suites_at u np opd s)) (schedule_steps u np opd))
      = length (filter (\<lambda>s. x \<in> set (suites_at u np opd s) \<and> s \<noteq> 0) (schedule_steps u np opd))"
    by (simp add: suite_count_def filter_map comp_def)
  also have "\<dots> = card (set (filter (\<lambda>s. x \<in> set (suites_at u np opd s) \<and> s \<noteq> 0) (schedule_steps u np opd)))"
    by (rule distinct_card [symmetric]) (simp only: schedule_steps_def distinct_filter distinct_upt)
  also have "set (filter (\<lambda>s. x \<in> set (suites_at u np opd s) \<and> s \<noteq> 0) (schedule_steps u np opd))
      = {s. 0 < s \<and> s \<le> u \<and> x \<in> set (suites_at u np opd s)}"
    by (auto simp: set_schedule_steps)
  finally show ?thesis .
qed

lemma Validation_at: "Validation \<in> set (suites_at u np opd s) \<longleftrightarrow> s mod (np + opd) \<in> {0, np}"
  and Benchmark_at: "Benchmark \<in> set (suites_at u np opd s) \<longleftrightarrow> s = 0 \<or> s \<in> set (benchmark_steps u)"
  by (auto simp: suites_at_def)

lemma benchmark_count:
  assumes "10 \<le> u"
  shows "card {s. 0 < s \<and> s \<le> u \<and> Benchmark \<in> set (suites_at u np opd s)} = 10"
proof -
  have "{s. 0 < s \<and> s \<le> u \<and> Benchmark \<in> set (suites_at u np opd s)} = set (benchmark_steps u)"
    using benchmark_steps_range [of _ u] assms by (auto simp: Benchmark_at)
  then show ?thesis using card_benchmark_steps [OF assms] by simp
qed

lemma last_benchmark: "u \<in> set (benchmark_steps u)"
proof -
  have "u = (10 * u + 9) div 10" by simp
  then show ?thesis unfolding benchmark_steps_def by (auto intro!: image_eqI [where x = 10])
qed

text \<open>
  A schedule of \<open>n\<close> complete cycles visits its steps in order, from the original model to the last
  update, with both suites at either end; it validates exactly at the two phase ends of every
  cycle and runs the benchmark at exactly ten trained steps.
\<close>

theorem schedule_counts:
  assumes "0 < np" "0 < opd" "10 \<le> u" "u mod (np + opd) = 0"
  shows "\<exists>sched. evaluation_schedule u np opd = Inr sched
      \<and> sorted_wrt (\<lambda>x y. fst x < fst y) sched \<and> fst ` set sched \<subseteq> {0..u}
      \<and> (0, [Validation, Benchmark]) \<in> set sched \<and> (u, [Validation, Benchmark]) \<in> set sched
      \<and> suite_count Validation sched = 2 * (u div (np + opd)) \<and> suite_count Benchmark sched = 10"
proof -
  note m = assms(4)
  define sched where "sched = map (\<lambda>s. (s, suites_at u np opd s)) (schedule_steps u np opd)"
  have e: "evaluation_schedule u np opd = Inr sched"
    using m assms by (simp add: evaluation_schedule_def schedule_of_eq sched_def)
  have sorted: "sorted_wrt (\<lambda>x y. fst x < fst y) sched"
    unfolding sched_def sorted_wrt_map schedule_steps_def fst_conv by (rule sorted_wrt_filter) (rule sorted_wrt_upt)
  have in_sched: "(s, suites_at u np opd s) \<in> set sched" if "s \<le> u" "suites_at u np opd s \<noteq> []" for s
    using that by (auto simp: sched_def set_schedule_steps)
  have ends: "suites_at u np opd 0 = [Validation, Benchmark]" "suites_at u np opd u = [Validation, Benchmark]"
    using m last_benchmark by (simp_all add: suites_at_def)
  have n: "u = u div (np + opd) * (np + opd)" using m by (metis div_mult_mod_eq add_0_right)
  have v: "suite_count Validation sched = 2 * (u div (np + opd))"
    unfolding sched_def suite_count_card [OF disjI1 [OF refl]] Validation_at
    using phase_ends [of np "np + opd" "u div (np + opd)"] assms n by simp
  have b: "suite_count Benchmark sched = 10"
    unfolding sched_def suite_count_card [OF disjI2 [OF refl]] by (rule benchmark_count [OF assms(3)])
  have "fst ` set sched \<subseteq> {0..u}" by (auto simp: sched_def set_schedule_steps)
  then show ?thesis using e sorted v b in_sched [of 0] in_sched [of u] ends by auto
qed

lemma schedule_counts_witness:
  "\<exists>sched. evaluation_schedule 88 7 4 = Inr sched \<and> suite_count Validation sched = 16 \<and> suite_count Benchmark sched = 10"
  using schedule_counts [of 7 4 88] by auto

section \<open>The cells of the study\<close>

record recipe_tally =
  rt_updates :: nat
  rt_cycles :: nat
  rt_training_questions :: nat
  rt_snapshot_jobs :: nat
  rt_validation_suites :: nat
  rt_benchmark_suites :: nat
  rt_suite_evaluations :: nat
  rt_generated_responses :: nat

definition recipe_counts :: "phase_recipe \<Rightarrow> recipe_tally res" where
  "recipe_counts r = rbind (schedule_of (pr_updates r) (pr_pi r) (pr_opd r)) (\<lambda>sched.
     let v = suite_count Validation sched; b = suite_count Benchmark sched in
     Inr \<lparr> rt_updates = pr_updates r, rt_cycles = pr_updates r div (pr_pi r + pr_opd r),
           rt_training_questions = pr_updates r * 4, rt_snapshot_jobs = length sched - 1,
           rt_validation_suites = v, rt_benchmark_suites = b, rt_suite_evaluations = v + b,
           rt_generated_responses = v * 128 * 8 + b * 100 * 8 \<rparr>)"

record phase_cell =
  pc_wave :: nat
  pc_worker :: string
  pc_run_id :: string
  pc_recipe :: phase_recipe
  pc_generate_baseline :: bool
  pc_baseline_source :: string
  pc_baseline_namespace :: string
  pc_schedule :: "(nat \<times> eval_suite list) list"
  pc_counts :: recipe_tally

definition phase_cell_of :: "nat \<Rightarrow> (nat \<times> nat) list \<Rightarrow> nat \<Rightarrow> string \<Rightarrow> phase_cell res" where
  "phase_cell_of number splits index worker =
     (let m = MODELS ! (index mod 2) in
      rbind (new_phase_recipe m (fst (splits ! (index div 2))) (snd (splits ! (index div 2))) 88 137) (\<lambda>r.
      rbind (rbind (new_phase_recipe m 3 8 88 137) run_id) (\<lambda>baseline.
      rbind (run_id r) (\<lambda>rid.
      rbind (schedule_of (pr_updates r) (pr_pi r) (pr_opd r)) (\<lambda>sched.
      rbind (recipe_counts r) (\<lambda>counts.
        Inr \<lparr> pc_wave = number, pc_worker = worker, pc_run_id = rid, pc_recipe = r,
              pc_generate_baseline = (number = 1 \<and> index < 2), pc_baseline_source = baseline,
              pc_baseline_namespace = ''math-phases-v1-wave-'' @ show_nat number @ ''-'' @ worker @ ''-baseline'',
              pc_schedule = sched, pc_counts = counts \<rparr>))))))"

definition phase_cells :: "int option \<Rightarrow> phase_cell list res" where
  "phase_cells wave =
     (if wave \<noteq> None \<and> wave \<notin> {Some 1, Some 2} then Inl ValueError
      else res_all (concat (map (\<lambda>(number, splits).
             if wave \<noteq> None \<and> wave \<noteq> Some (int number) then []
             else map (\<lambda>(index, worker). phase_cell_of number splits index worker) (enumerate 0 WORKERS)) (enumerate 1 WAVES))))"

record study_tally =
  st_trajectories :: nat
  st_fresh_baselines :: nat
  st_optimizer_updates :: nat
  st_shared_questions :: nat
  st_question_exposures :: nat
  st_snapshots :: nat
  st_validation_suites :: nat
  st_benchmark_suites :: nat
  st_suites :: nat
  st_responses :: nat
  st_hosted_writes :: nat

definition study_counts :: "study_tally res" where
  "study_counts = rbind (phase_cells None) (\<lambda>cells.
     let producers = length (filter pc_generate_baseline cells);
         v = sum_list (map (rt_validation_suites \<circ> pc_counts) cells) + producers;
         b = sum_list (map (rt_benchmark_suites \<circ> pc_counts) cells) + producers in
     Inr \<lparr> st_trajectories = length cells, st_fresh_baselines = producers,
           st_optimizer_updates = sum_list (map (rt_updates \<circ> pc_counts) cells),
           st_shared_questions = 88 * 4, st_question_exposures = 88 * 4 * length cells,
           st_snapshots = sum_list (map (rt_snapshot_jobs \<circ> pc_counts) cells),
           st_validation_suites = v, st_benchmark_suites = b, st_suites = v + b,
           st_responses = v * 128 * 8 + b * 100 * 8,
           st_hosted_writes = sum_list (map (\<lambda>c. rt_suite_evaluations (pc_counts c) + 2) cells) \<rparr>)"

lemma recipe_counts_ok:
  assumes "recipe_ok r"
  shows "\<exists>c. recipe_counts r = Inr c \<and> rt_validation_suites c = 16 \<and> rt_benchmark_suites c = 10 \<and> rt_updates c = 88
    \<and> rt_suite_evaluations c = 26"
proof -
  have s: "(pr_pi r, pr_opd r) \<in> set SPLITS" "pr_updates r = 88" using assms unfolding recipe_ok_def new_phase_recipe_def by (auto split: if_splits)
  then have h: "0 < pr_pi r" "0 < pr_opd r" "pr_pi r + pr_opd r = 11" by (auto simp: SPLITS_def)
  have "suite_count Validation (map (\<lambda>s. (s, suites_at 88 (pr_pi r) (pr_opd r) s)) (schedule_steps 88 (pr_pi r) (pr_opd r))) = 16"
    unfolding suite_count_card [OF disjI1 [OF refl]] Validation_at using phase_ends [of "pr_pi r" 11 8] h by simp
  moreover have "suite_count Benchmark (map (\<lambda>s. (s, suites_at 88 (pr_pi r) (pr_opd r) s)) (schedule_steps 88 (pr_pi r) (pr_opd r))) = 10"
    unfolding suite_count_card [OF disjI2 [OF refl]] by (rule benchmark_count) simp
  ultimately show ?thesis using s(2) h by (simp add: recipe_counts_def schedule_of_eq Let_def)
qed

definition phase_recipe_of :: "string \<Rightarrow> nat \<times> nat \<Rightarrow> phase_recipe" where
  "phase_recipe_of m split = \<lparr> pr_model = m, pr_pi = fst split, pr_opd = snd split, pr_updates = 88, pr_seed = 137 \<rparr>"

lemma new_recipe_of:
  assumes "m \<in> set MODELS" "split \<in> set SPLITS"
  shows "new_phase_recipe m (fst split) (snd split) 88 137 = Inr (phase_recipe_of m split)"
  using assms by (auto simp: new_phase_recipe_def SPLITS_def phase_recipe_of_def)

lemma recipe_of_ok: "m \<in> set MODELS \<Longrightarrow> split \<in> set SPLITS \<Longrightarrow> recipe_ok (phase_recipe_of m split)"
  using new_recipe_of [of m split] by (simp add: recipe_ok_def phase_recipe_of_def)

lemma recipe_ok_cases:
  assumes "recipe_ok r"
  obtains m split where "m \<in> set MODELS" "split \<in> set SPLITS" "r = phase_recipe_of m split"
proof (rule that)
  show "pr_model r \<in> set MODELS" "(pr_pi r, pr_opd r) \<in> set SPLITS"
    using assms unfolding recipe_ok_def new_phase_recipe_def by (auto split: if_splits)
  have "pr_updates r = 88" "pr_seed r = 137" using assms unfolding recipe_ok_def new_phase_recipe_def by (auto split: if_splits)
  then show "r = phase_recipe_of (pr_model r) (pr_pi r, pr_opd r)" by (simp add: phase_recipe_of_def)
qed

definition identity_of :: "phase_recipe \<Rightarrow> string" where
  "identity_of r = projr (run_id r)"

lemma run_id_of_ok: "recipe_ok r \<Longrightarrow> run_id r = Inr (identity_of r)"
  by (erule recipe_ok_cases) (auto simp: run_id_def model_size_def phase_recipe_of_def MODELS_def identity_of_def)

lemma identity_of_inj: "recipe_ok r \<Longrightarrow> recipe_ok r' \<Longrightarrow> identity_of r = identity_of r' \<Longrightarrow> r = r'"
  using identity_reads_back run_id_of_ok by (metis sum.inject(2))

definition cell_of :: "nat \<Rightarrow> (nat \<times> nat) list \<Rightarrow> nat \<times> string \<Rightarrow> phase_cell" where
  "cell_of number splits x = projr (phase_cell_of number splits (fst x) (snd x))"

lemma phase_cell_of_ok:
  assumes "splits ! (index div 2) \<in> set SPLITS"
  defines "r \<equiv> phase_recipe_of (MODELS ! (index mod 2)) (splits ! (index div 2))"
  shows "phase_cell_of number splits index worker = Inr (cell_of number splits (index, worker))" (is ?cell)
    and "pc_recipe (cell_of number splits (index, worker)) = r" (is ?recipe)
    and "pc_run_id (cell_of number splits (index, worker)) = identity_of r" (is ?identity)
    and "pc_generate_baseline (cell_of number splits (index, worker)) \<longleftrightarrow> number = 1 \<and> index < 2" (is ?producer)
    and "pc_baseline_source (cell_of number splits (index, worker)) = identity_of (phase_recipe_of (MODELS ! (index mod 2)) (3, 8))" (is ?source)
    and "rt_validation_suites (pc_counts (cell_of number splits (index, worker))) = 16" (is ?validation)
    and "rt_benchmark_suites (pc_counts (cell_of number splits (index, worker))) = 10" (is ?benchmark)
    and "rt_updates (pc_counts (cell_of number splits (index, worker))) = 88" (is ?updates)
    and "rt_suite_evaluations (pc_counts (cell_of number splits (index, worker))) = 26" (is ?evaluations)
proof -
  have m: "MODELS ! (index mod 2) \<in> set MODELS" by (rule nth_mem) (simp add: MODELS_def)
  have s: "(3, 8) \<in> set SPLITS" by (simp add: SPLITS_def)
  have ok: "recipe_ok r" "recipe_ok (phase_recipe_of (MODELS ! (index mod 2)) (3, 8))"
    unfolding r_def using recipe_of_ok [OF m] assms(1) s by blast+
  obtain c where c: "recipe_counts r = Inr c" "rt_validation_suites c = 16" "rt_benchmark_suites c = 10" "rt_updates c = 88"
    "rt_suite_evaluations c = 26"
    using recipe_counts_ok [OF ok(1)] by blast
  have pos: "0 < pr_pi r + pr_opd r" using assms(1) by (auto simp: r_def phase_recipe_of_def SPLITS_def)
  note run = new_recipe_of [OF m assms(1), folded r_def] new_recipe_of [OF m s, unfolded fst_conv snd_conv] run_id_of_ok [OF ok(1)]
    run_id_of_ok [OF ok(2)] schedule_of_eq [OF pos] c
  have "\<exists>x. phase_cell_of number splits index worker = Inr x \<and> pc_recipe x = r \<and> pc_run_id x = identity_of r
      \<and> (pc_generate_baseline x \<longleftrightarrow> number = 1 \<and> index < 2) \<and> pc_baseline_source x = identity_of (phase_recipe_of (MODELS ! (index mod 2)) (3, 8))
      \<and> pc_counts x = c"
    unfolding phase_cell_of_def Let_def by (simp add: run del: One_nat_def)
  then show ?cell ?recipe ?identity ?producer ?source ?validation ?benchmark ?updates ?evaluations using c by (auto simp: cell_of_def)
qed

text \<open>Where the cells stand: the wave, its splits and the place of the worker.\<close>

definition cell_places :: "(nat \<times> (nat \<times> nat) list \<times> nat \<times> string) list" where
  "cell_places = concat (map (\<lambda>(number, splits). map (\<lambda>x. (number, splits, x)) (enumerate 0 WORKERS)) (enumerate 1 WAVES))"

definition cell_at :: "nat \<times> (nat \<times> nat) list \<times> nat \<times> string \<Rightarrow> phase_cell" where
  "cell_at p = cell_of (fst p) (fst (snd p)) (snd (snd p))"

definition place_recipe :: "nat \<times> (nat \<times> nat) list \<times> nat \<times> string \<Rightarrow> phase_recipe" where
  "place_recipe p = phase_recipe_of (MODELS ! (fst (snd (snd p)) mod 2)) (fst (snd p) ! (fst (snd (snd p)) div 2))"

lemma places: "list_all (\<lambda>p. fst (snd p) ! (fst (snd (snd p)) div 2) \<in> set SPLITS) cell_places"
  by (simp add: cell_places_def WORKERS_def WAVES_def SPLITS_def)

lemma place_recipes: "distinct (map place_recipe cell_places)"
    "set (map place_recipe cell_places) = (\<lambda>(m, split). phase_recipe_of m split) ` (set MODELS \<times> set SPLITS)"
  by (simp add: cell_places_def WORKERS_def WAVES_def place_recipe_def phase_recipe_of_def MODELS_def)
    (auto simp: cell_places_def WORKERS_def WAVES_def SPLITS_def MODELS_def place_recipe_def image_iff)

lemma phase_cells_eq: "phase_cells None = Inr (map cell_at cell_places)"
proof -
  have "phase_cells None = res_all (map (\<lambda>p. phase_cell_of (fst p) (fst (snd p)) (fst (snd (snd p))) (snd (snd (snd p)))) cell_places)"
    by (simp add: phase_cells_def cell_places_def WORKERS_def WAVES_def)
  also have "\<dots> = Inr (map cell_at cell_places)"
  proof (rule res_all_map_Inr)
    fix p assume "p \<in> set cell_places"
    then have "fst (snd p) ! (fst (snd (snd p)) div 2) \<in> set SPLITS" using places by (simp add: list_all_iff)
    then show "phase_cell_of (fst p) (fst (snd p)) (fst (snd (snd p))) (snd (snd (snd p))) = Inr (cell_at p)"
      using phase_cell_of_ok(1) by (simp add: cell_at_def)
  qed
  finally show ?thesis .
qed

lemma cell_at_facts:
  assumes "p \<in> set cell_places"
  shows "pc_recipe (cell_at p) = place_recipe p" and "pc_run_id (cell_at p) = identity_of (place_recipe p)"
    and "pc_generate_baseline (cell_at p) \<longleftrightarrow> fst p = 1 \<and> fst (snd (snd p)) < 2"
    and "pc_baseline_source (cell_at p) = identity_of (phase_recipe_of (pr_model (place_recipe p)) (3, 8))"
    and "rt_validation_suites (pc_counts (cell_at p)) = 16" and "rt_benchmark_suites (pc_counts (cell_at p)) = 10"
    and "rt_updates (pc_counts (cell_at p)) = 88" and "rt_suite_evaluations (pc_counts (cell_at p)) = 26"
proof -
  have "fst (snd p) ! (fst (snd (snd p)) div 2) \<in> set SPLITS" using assms places by (simp add: list_all_iff)
  note f = phase_cell_of_ok [OF this, of "fst p" "snd (snd (snd p))", unfolded prod.collapse]
  show "pc_recipe (cell_at p) = place_recipe p" "pc_run_id (cell_at p) = identity_of (place_recipe p)"
    "pc_generate_baseline (cell_at p) \<longleftrightarrow> fst p = 1 \<and> fst (snd (snd p)) < 2"
    "pc_baseline_source (cell_at p) = identity_of (phase_recipe_of (pr_model (place_recipe p)) (3, 8))"
    "rt_validation_suites (pc_counts (cell_at p)) = 16" "rt_benchmark_suites (pc_counts (cell_at p)) = 10"
    "rt_updates (pc_counts (cell_at p)) = 88" "rt_suite_evaluations (pc_counts (cell_at p)) = 26"
    using f by (simp_all add: cell_at_def place_recipe_def phase_recipe_of_def)
qed

lemma identity_recipe_ok: "p \<in> set cell_places \<Longrightarrow> recipe_ok (place_recipe p)"
proof -
  assume "p \<in> set cell_places"
  then have "place_recipe p \<in> set (map place_recipe cell_places)" by simp
  then show ?thesis unfolding place_recipes(2) using recipe_of_ok by auto
qed

lemma place_producers: "list_all (\<lambda>p. length (filter (\<lambda>q. fst q = 1 \<and> fst (snd (snd q)) < 2
     \<and> place_recipe q = phase_recipe_of (pr_model (place_recipe p)) (3, 8)) cell_places) = 1) cell_places"
  by (simp add: cell_places_def WORKERS_def WAVES_def place_recipe_def phase_recipe_of_def MODELS_def)

lemma one_producer:
  assumes "p \<in> set cell_places"
  shows "length (filter (\<lambda>d. pc_generate_baseline d \<and> pc_run_id d = pc_baseline_source (cell_at p)
           \<and> pr_model (pc_recipe d) = pr_model (pc_recipe (cell_at p))) (map cell_at cell_places)) = 1"
proof -
  have base: "recipe_ok (phase_recipe_of (pr_model (place_recipe p)) (3, 8))"
    by (rule recipe_of_ok) (simp_all add: place_recipe_def phase_recipe_of_def MODELS_def SPLITS_def less_2_cases_iff nth_Cons')
  have "(pc_generate_baseline (cell_at q) \<and> pc_run_id (cell_at q) = pc_baseline_source (cell_at p)
           \<and> pr_model (pc_recipe (cell_at q)) = pr_model (pc_recipe (cell_at p)))
      \<longleftrightarrow> fst q = 1 \<and> fst (snd (snd q)) < 2 \<and> place_recipe q = phase_recipe_of (pr_model (place_recipe p)) (3, 8)"
    if "q \<in> set cell_places" for q
    using identity_of_inj [OF identity_recipe_ok [OF that] base]
    by (auto simp: cell_at_facts [OF that] cell_at_facts [OF assms] phase_recipe_of_def)
  then have "length (filter (\<lambda>d. pc_generate_baseline d \<and> pc_run_id d = pc_baseline_source (cell_at p)
           \<and> pr_model (pc_recipe d) = pr_model (pc_recipe (cell_at p))) (map cell_at cell_places))
      = length (filter (\<lambda>q. fst q = 1 \<and> fst (snd (snd q)) < 2 \<and> place_recipe q = phase_recipe_of (pr_model (place_recipe p)) (3, 8)) cell_places)"
    unfolding filter_map length_map comp_def by (intro arg_cong [where f = length] filter_cong refl) blast
  then show ?thesis using assms place_producers by (simp add: list_all_iff)
qed

lemma producers: "length (filter (pc_generate_baseline \<circ> cell_at) cell_places) = 2"
proof -
  have "filter (pc_generate_baseline \<circ> cell_at) cell_places = filter (\<lambda>p. fst p = 1 \<and> fst (snd (snd p)) < 2) cell_places"
    by (rule filter_cong) (simp_all add: cell_at_facts(3))
  then show ?thesis by (simp add: cell_places_def WORKERS_def WAVES_def)
qed

lemma sum_over_cells:
  fixes f :: "phase_cell \<Rightarrow> nat"
  assumes "\<And>p. p \<in> set cell_places \<Longrightarrow> f (cell_at p) = k"
  shows "sum_list (map f (map cell_at cell_places)) = 8 * k"
proof -
  have "map f (map cell_at cell_places) = map (\<lambda>p. k) cell_places" using assms by simp
  then show ?thesis by (simp add: cell_places_def WORKERS_def WAVES_def)
qed

text \<open>
  The study has one cell for each recipe of the study and no other, with eight distinct
  identities; every cell takes its baseline from exactly one cell that generates it, of the same
  model; and the totals of the study count each trained suite once and the two original models once.
\<close>

theorem study_covers_recipes:
  "\<exists>cells t. phase_cells None = Inr cells \<and> study_counts = Inr t
    \<and> distinct (map pc_recipe cells) \<and> {r. recipe_ok r} = pc_recipe ` set cells
    \<and> distinct (map pc_run_id cells)
    \<and> list_all (\<lambda>c. length (filter (\<lambda>d. pc_generate_baseline d \<and> pc_run_id d = pc_baseline_source c
                           \<and> pr_model (pc_recipe d) = pr_model (pc_recipe c)) cells) = 1) cells
    \<and> st_trajectories t = 8 \<and> st_fresh_baselines t = 2 \<and> st_optimizer_updates t = 704
    \<and> st_suites t = 212 \<and> st_responses t = 198720 \<and> st_hosted_writes t = 224"
proof -
  define cells where "cells = map cell_at cell_places"
  have recipes: "map pc_recipe cells = map place_recipe cell_places" by (simp add: cells_def cell_at_facts(1))
  have ok: "{r. recipe_ok r} = pc_recipe ` set cells"
  proof -
    have "pc_recipe ` set cells = (\<lambda>(m, split). phase_recipe_of m split) ` (set MODELS \<times> set SPLITS)"
      by (simp only: recipes set_map [symmetric] place_recipes(2))
    then show ?thesis using recipe_of_ok by (auto elim!: recipe_ok_cases)
  qed
  have ids: "distinct (map pc_run_id cells)"
  proof -
    have "map pc_run_id cells = map identity_of (map place_recipe cell_places)" by (simp add: cells_def cell_at_facts(2))
    moreover have "inj_on identity_of (set (map place_recipe cell_places))"
      using identity_of_inj identity_recipe_ok by (auto intro!: inj_onI)
    ultimately show ?thesis using place_recipes(1) by (simp only: distinct_map)
  qed
  have sums: "sum_list (map (rt_validation_suites \<circ> pc_counts) cells) = 128" "sum_list (map (rt_benchmark_suites \<circ> pc_counts) cells) = 80"
    "sum_list (map (rt_updates \<circ> pc_counts) cells) = 704"
    "sum_list (map (\<lambda>c. rt_suite_evaluations (pc_counts c) + 2) cells) = 224"
    unfolding cells_def by (subst sum_over_cells; simp add: cell_at_facts)+
  have "length cells = 8" by (simp add: cells_def cell_places_def WORKERS_def WAVES_def)
  moreover have "length (filter pc_generate_baseline cells) = 2" using producers by (simp add: cells_def filter_map)
  moreover have "list_all (\<lambda>c. length (filter (\<lambda>d. pc_generate_baseline d \<and> pc_run_id d = pc_baseline_source c
                           \<and> pr_model (pc_recipe d) = pr_model (pc_recipe c)) cells) = 1) cells"
    unfolding cells_def list_all_iff using one_producer by simp
  moreover have "phase_cells None = Inr cells" unfolding cells_def by (rule phase_cells_eq)
  moreover have "distinct (map pc_recipe cells)" unfolding recipes by (rule place_recipes(1))
  ultimately show ?thesis using ok ids by (auto simp: study_counts_def Let_def sums simp del: add_2_eq_Suc add_2_eq_Suc')
qed
end
