(* ===== verification/Opsd.thy ===== *)
theory Opsd
  imports Prelude
begin

text \<open>
  On-policy self-distillation (OPSD) of the miles trainer: the update-indexed schedule of the
  privileged-information (PI) and plain OPD phases (\<open>utils/opsd_cyclic.py\<close>), the hooks that run it
  on the actor (\<open>backends/megatron_utils/opsd_cyclic.py\<close>) and the argument checks behind it
  (\<open>utils/opsd_arguments.py\<close>).
  Learning rates are reals; weights are an abstract type.
\<close>

section \<open>The schedule\<close>

datatype optimizer_policy = RESET_EACH_PHASE | CARRY
datatype teacher_policy = FIXED_ORIGINAL | CYCLE_REFRESH
datatype lr_schedule = CONSTANT_LR | GLOBAL_LINEAR

record cyclic_args =
  cyc_num_rollout :: nat
  pi_updates :: nat
  opd_updates :: nat
  optimizer_policy :: optimizer_policy
  teacher_policy :: teacher_policy
  lr_schedule :: lr_schedule
  cyc_lr :: real
  cyc_min_lr :: real
  lr_decay_style :: string
  lr_decay_iters :: nat
  cyc_rollout_batch_size :: nat
  cyc_samples_per_prompt :: nat
  cyc_global_batch_size :: nat
  cyc_other_requirements :: bool

abbreviation cycle_length :: "cyclic_args \<Rightarrow> nat" where
  "cycle_length args \<equiv> pi_updates args + opd_updates args"

text \<open>\<open>_validate_cyclic_args\<close>; the requirements on unrelated arguments are one flag.\<close>

definition validate_cyclic_args :: "cyclic_args \<Rightarrow> unit res" where
  "validate_cyclic_args args =
     (if min (pi_updates args) (opd_updates args) < 1 \<or> cyc_num_rollout args < 1 \<or> cyc_num_rollout args mod cycle_length args \<noteq> 0
      then Inl ValueError
      else if cyc_rollout_batch_size args * cyc_samples_per_prompt args \<noteq> cyc_global_batch_size args then Inl ValueError
      else if \<not> cyc_other_requirements args then Inl ValueError
      else if \<not> (lr_schedule args = CONSTANT_LR \<and> lr_decay_style args = ''constant''
          \<or> lr_schedule args = GLOBAL_LINEAR \<and> lr_decay_style args = ''linear'' \<and> cyc_lr args = 5 / 10 ^ 6
            \<and> cyc_min_lr args = 5 / 10 ^ 7 \<and> int (lr_decay_iters args) = int (cyc_num_rollout args) - 1)
      then Inl ValueError
      else Inr ())"

datatype opsd_context = Worked | NoContext

record cyclic_step_info =
  cycle :: nat
  step_context :: opsd_context
  phase_start :: bool
  optimizer_reset :: bool
  cycle_end :: bool
  teacher_source_update :: nat

definition cyclic_step :: "cyclic_args \<Rightarrow> int \<Rightarrow> cyclic_step_info res" where
  "cyclic_step args rollout_id =
     (if \<not> (0 \<le> rollout_id \<and> rollout_id < int (cyc_num_rollout args)) then Inl ValueError
      else if cycle_length args = 0 then Inl ZeroDivisionError
      else (let c = nat rollout_id div cycle_length args; offset = nat rollout_id mod cycle_length args;
                start = (offset = 0 \<or> offset = pi_updates args) in
        Inr \<lparr> cycle = c + 1, step_context = (if offset < pi_updates args then Worked else NoContext), phase_start = start,
              optimizer_reset = (start \<and> optimizer_policy args = RESET_EACH_PHASE),
              cycle_end = (offset + 1 = cycle_length args),
              teacher_source_update = (if teacher_policy args = CYCLE_REFRESH then c * cycle_length args else 0) \<rparr>))"

definition cyclic_optimizer_updates :: "cyclic_args \<Rightarrow> nat \<Rightarrow> nat" where
  "cyclic_optimizer_updates args completed =
     (if completed = 0 \<or> optimizer_policy args = CARRY then completed
      else (let offset = (completed - 1) mod cycle_length args in
        if offset < pi_updates args then offset + 1 else offset - pi_updates args + 1))"

definition cyclic_learning_rate :: "cyclic_args \<Rightarrow> nat \<Rightarrow> real res" where
  "cyclic_learning_rate args completed =
     (if lr_schedule args = CONSTANT_LR then Inr (cyc_lr args)
      else if cyc_num_rollout args = 1 then Inl ZeroDivisionError
      else (let fraction = min (of_nat completed / (of_nat (cyc_num_rollout args) - 1)) 1 in
        Inr (cyc_min_lr args + (cyc_lr args - cyc_min_lr args) * (1 - fraction))))"

section \<open>The hooks of the actor\<close>

text \<open>
  The actor as the hooks see it: the backed-up student and teacher weights, the hooks' own
  counters, the clock of the scheduler and the rates of the parameter groups.  \<open>adam_age\<close> counts
  the updates the optimizer state has really seen since its last reset.
\<close>

record 'w cyclic_actor =
  student_weights :: 'w
  teacher_weights :: 'w
  completed_updates :: nat
  optimizer_updates :: nat
  teacher_from :: nat
  lr_clock :: nat
  group_rates :: "real list"
  applied_lr :: real
  adam_age :: nat

definition initialize_cyclic :: "cyclic_args \<Rightarrow> 'w cyclic_actor \<Rightarrow> 'w cyclic_actor" where
  "initialize_cyclic args a =
     (let a' = a\<lparr> completed_updates := 0, optimizer_updates := 0, teacher_from := 0 \<rparr> in
      if teacher_policy args = CYCLE_REFRESH then a'\<lparr> teacher_weights := student_weights a' \<rparr> else a')"

text \<open>\<open>math.isclose(a, b, rel_tol=1e-6, abs_tol=0)\<close>\<close>

definition rate_close :: "real \<Rightarrow> real \<Rightarrow> bool" where
  "rate_close a b \<longleftrightarrow> \<bar>a - b\<bar> \<le> max \<bar>a\<bar> \<bar>b\<bar> / 10 ^ 6"

definition checked_learning_rate :: "cyclic_args \<Rightarrow> 'w cyclic_actor \<Rightarrow> nat \<Rightarrow> real res" where
  "checked_learning_rate args a completed =
     (if lr_clock a \<noteq> completed * cyc_global_batch_size args then Inl ValueError
      else rbind (cyclic_learning_rate args completed) (\<lambda>expected.
        case group_rates a of
          [] \<Rightarrow> Inl ValueError
        | rate # _ \<Rightarrow> if list_all (\<lambda>r. rate_close r expected) (group_rates a) then Inr rate else Inl ValueError))"

text \<open>A row of the rollout: the tokens, the length of the response and the teacher's prefix.\<close>

type_synonym opsd_row = "nat list \<times> nat \<times> nat list"

text \<open>\<open>tokens[:len(tokens) - response_length]\<close>; a negative bound counts from the end.\<close>

definition student_prefix :: "nat list \<Rightarrow> nat \<Rightarrow> nat list" where
  "student_prefix tokens n = take (if n \<le> length tokens then length tokens - n else length tokens - (n - length tokens)) tokens"

definition row_matches :: "opsd_context \<Rightarrow> opsd_row \<Rightarrow> bool" where
  "row_matches context row = (case row of (tokens, n, prefix) \<Rightarrow> (prefix = student_prefix tokens n) = (context = NoContext))"

definition begin_cyclic_step :: "cyclic_args \<Rightarrow> opsd_row list \<Rightarrow> nat \<Rightarrow> nat \<Rightarrow> 'w cyclic_actor \<Rightarrow> 'w cyclic_actor res" where
  "begin_cyclic_step args rows rollout_id num_optimizer_steps a =
     (if rollout_id \<noteq> completed_updates a \<or> num_optimizer_steps \<noteq> 1 then Inl ValueError
      else rbind (cyclic_step args (int rollout_id)) (\<lambda>st.
        if teacher_from a \<noteq> teacher_source_update st then Inl ValueError
        else if \<not> list_all (row_matches (step_context st)) rows then Inl ValueError
        else rbind (checked_learning_rate args a rollout_id) (\<lambda>rate.
          let a' = a\<lparr> applied_lr := rate \<rparr> in
          Inr (if optimizer_reset st then a'\<lparr> adam_age := 0, optimizer_updates := 0 \<rparr> else a'))))"

text \<open>
  Between the hooks the trainer applies one update: new weights, which are backed up, one more
  step of Adam, the clock advanced by a global batch and the rates set by the scheduler.
\<close>

definition optimizer_update :: "cyclic_args \<Rightarrow> 'w \<Rightarrow> real list \<Rightarrow> 'w cyclic_actor \<Rightarrow> 'w cyclic_actor" where
  "optimizer_update args w rates a = a\<lparr> student_weights := w, adam_age := adam_age a + 1,
     lr_clock := lr_clock a + cyc_global_batch_size args, group_rates := rates \<rparr>"

definition complete_cyclic_step :: "cyclic_args \<Rightarrow> nat \<Rightarrow> 'w cyclic_actor \<Rightarrow> 'w cyclic_actor res" where
  "complete_cyclic_step args rollout_id a =
     (if rollout_id \<noteq> completed_updates a then Inl ValueError
      else rbind (checked_learning_rate args a (rollout_id + 1)) (\<lambda>next_lr.
        if optimizer_updates a + 1 \<noteq> cyclic_optimizer_updates args (rollout_id + 1) then Inl ValueError
        else rbind (cyclic_step args (int rollout_id)) (\<lambda>st.
          let a' = (if cycle_end st \<and> teacher_policy args = CYCLE_REFRESH
                    then a\<lparr> teacher_weights := student_weights a, teacher_from := rollout_id + 1 \<rparr> else a) in
          Inr (a'\<lparr> completed_updates := rollout_id + 1, optimizer_updates := optimizer_updates a + 1 \<rparr>))))"

text \<open>One training step: the rows of the rollout, the weights and the rates after the update.\<close>

type_synonym 'w train_input = "opsd_row list \<times> 'w \<times> real list"

definition train_step :: "cyclic_args \<Rightarrow> 'w cyclic_actor \<Rightarrow> 'w train_input \<Rightarrow> 'w cyclic_actor res" where
  "train_step args a x = (case x of (rows, w, rates) \<Rightarrow>
     rbind (begin_cyclic_step args rows (completed_updates a) 1 a) (\<lambda>a1.
       complete_cyclic_step args (completed_updates a) (optimizer_update args w rates a1)))"

fun train_run :: "cyclic_args \<Rightarrow> 'w cyclic_actor \<Rightarrow> 'w train_input list \<Rightarrow> 'w cyclic_actor res" where
  "train_run args a [] = Inr a"
| "train_run args a (x # xs) = rbind (train_step args a x) (\<lambda>a'. train_run args a' xs)"

text \<open>What the rollout and the scheduler deliver for the update after \<open>k\<close> completed ones.\<close>

definition input_ok :: "cyclic_args \<Rightarrow> nat \<Rightarrow> 'w train_input \<Rightarrow> bool" where
  "input_ok args k x = (case x of (rows, w, rates) \<Rightarrow>
     list_all (row_matches (if k mod cycle_length args < pi_updates args then Worked else NoContext)) rows
     \<and> rates \<noteq> [] \<and> (\<exists>r. cyclic_learning_rate args (k + 1) = Inr r \<and> list_all (\<lambda>x. rate_close x r) rates))"

definition actor_ready :: "cyclic_args \<Rightarrow> nat \<Rightarrow> 'w cyclic_actor \<Rightarrow> bool" where
  "actor_ready args k a \<longleftrightarrow> completed_updates a = k \<and> optimizer_updates a = cyclic_optimizer_updates args k
     \<and> adam_age a = cyclic_optimizer_updates args k
     \<and> teacher_from a = (if teacher_policy args = CYCLE_REFRESH then k - k mod cycle_length args else 0)
     \<and> lr_clock a = k * cyc_global_batch_size args
     \<and> group_rates a \<noteq> [] \<and> (\<exists>r. cyclic_learning_rate args k = Inr r \<and> list_all (\<lambda>x. rate_close x r) (group_rates a))"

lemma validate_cyclicD:
  assumes "validate_cyclic_args args = Inr u"
  shows "0 < pi_updates args" "0 < opd_updates args" "cyc_num_rollout args mod cycle_length args = 0" "2 \<le> cyc_num_rollout args"
proof -
  show A: "0 < pi_updates args" "0 < opd_updates args" "cyc_num_rollout args mod cycle_length args = 0"
    using assms by (auto simp: validate_cyclic_args_def split: if_splits)
  have "0 < cyc_num_rollout args" using assms by (auto simp: validate_cyclic_args_def split: if_splits)
  then have "cycle_length args \<le> cyc_num_rollout args" using A(3) by (meson mod_greater_zero_iff_not_dvd dvd_imp_le neq0_conv mod_0_imp_dvd)
  then show "2 \<le> cyc_num_rollout args" using A(1,2) by simp
qed

lemma checked_rate_ok:
  assumes "lr_clock a = k * cyc_global_batch_size args" "group_rates a \<noteq> []"
    "\<exists>r. cyclic_learning_rate args k = Inr r \<and> list_all (\<lambda>x. rate_close x r) (group_rates a)"
  shows "checked_learning_rate args a k = Inr (hd (group_rates a))"
  using assms by (auto simp: checked_learning_rate_def split: list.splits)

lemma optimizer_updates_step:
  assumes "0 < pi_updates args" "0 < opd_updates args"
  shows "cyclic_optimizer_updates args (Suc k) = (if (k mod cycle_length args = 0 \<or> k mod cycle_length args = pi_updates args)
      \<and> optimizer_policy args = RESET_EACH_PHASE then 1 else cyclic_optimizer_updates args k + 1)"
proof (cases "optimizer_policy args = CARRY")
  case True
  then show ?thesis by (simp add: cyclic_optimizer_updates_def)
next
  case False
  then have R: "optimizer_policy args = RESET_EACH_PHASE" by (cases "optimizer_policy args") simp_all
  show ?thesis
  proof (cases k)
    case 0
    then show ?thesis using R assms by (simp add: cyclic_optimizer_updates_def)
  next
    case (Suc j)
    have "Suc j mod cycle_length args = (if Suc (j mod cycle_length args) = cycle_length args then 0 else Suc (j mod cycle_length args))"
      by (rule mod_Suc)
    then show ?thesis using R assms by (auto simp: cyclic_optimizer_updates_def Suc Let_def)
  qed
qed

lemma cyclic_step_ok:
  assumes "k < cyc_num_rollout args" "0 < pi_updates args"
  shows "\<exists>st. cyclic_step args (int k) = Inr st \<and> step_context st = (if k mod cycle_length args < pi_updates args then Worked else NoContext)
    \<and> optimizer_reset st = ((k mod cycle_length args = 0 \<or> k mod cycle_length args = pi_updates args) \<and> optimizer_policy args = RESET_EACH_PHASE)
    \<and> cycle_end st = (Suc (k mod cycle_length args) = cycle_length args)
    \<and> teacher_source_update st = (if teacher_policy args = CYCLE_REFRESH then k - k mod cycle_length args else 0)"
  using assms by (simp add: cyclic_step_def Let_def minus_mod_eq_div_mult)

lemma train_step_ok:
  assumes v: "validate_cyclic_args args = Inr u" and ready: "actor_ready args k a" and k: "k < cyc_num_rollout args"
    and x: "input_ok args k x" "x = (rows, w, rates)"
  shows "\<exists>a'. train_step args a x = Inr a' \<and> actor_ready args (Suc k) a' \<and> student_weights a' = w
    \<and> teacher_weights a' = (if teacher_policy args = CYCLE_REFRESH \<and> Suc k mod cycle_length args = 0 then w else teacher_weights a)"
proof -
  note V = validate_cyclicD [OF v]
  let ?n = "k mod cycle_length args"
  obtain st where st: "cyclic_step args (int k) = Inr st" "step_context st = (if ?n < pi_updates args then Worked else NoContext)"
    "optimizer_reset st = ((?n = 0 \<or> ?n = pi_updates args) \<and> optimizer_policy args = RESET_EACH_PHASE)"
    "cycle_end st = (Suc ?n = cycle_length args)"
    "teacher_source_update st = (if teacher_policy args = CYCLE_REFRESH then k - ?n else 0)"
    using cyclic_step_ok [OF k V(1)] by (elim exE conjE) (rule that; assumption)
  have R: "completed_updates a = k" "optimizer_updates a = cyclic_optimizer_updates args k" "adam_age a = cyclic_optimizer_updates args k"
    "teacher_from a = (if teacher_policy args = CYCLE_REFRESH then k - ?n else 0)" "lr_clock a = k * cyc_global_batch_size args"
    using ready by (simp_all add: actor_ready_def)
  have rate: "checked_learning_rate args a k = Inr (hd (group_rates a))" using ready by (intro checked_rate_ok) (auto simp: actor_ready_def)
  define reset where "reset = optimizer_reset st"
  define a1 where "a1 = (if reset then a\<lparr> applied_lr := hd (group_rates a), adam_age := 0, optimizer_updates := 0 \<rparr> else a\<lparr> applied_lr := hd (group_rates a) \<rparr>)"
  have b: "begin_cyclic_step args rows k 1 a = Inr a1"
    using R st rate x by (simp add: begin_cyclic_step_def input_ok_def a1_def reset_def Let_def)
  define a2 where "a2 = optimizer_update args w rates a1"
  have A2: "completed_updates a2 = k" "lr_clock a2 = Suc k * cyc_global_batch_size args" "group_rates a2 = rates" "student_weights a2 = w"
    "teacher_weights a2 = teacher_weights a" "teacher_from a2 = teacher_from a"
    by (simp_all add: a2_def a1_def optimizer_update_def R(1,5))
  have age: "Suc (optimizer_updates a1) = cyclic_optimizer_updates args (Suc k)" "adam_age a2 = cyclic_optimizer_updates args (Suc k)"
    "optimizer_updates a2 = optimizer_updates a1"
    unfolding optimizer_updates_step [OF V(1,2)] using st(3) by (auto simp: a2_def a1_def optimizer_update_def reset_def R)
  have rate2: "checked_learning_rate args a2 (Suc k) = Inr (hd (group_rates a2))"
    using x A2 by (intro checked_rate_ok) (auto simp: input_ok_def)
  define refresh where "refresh = (cycle_end st \<and> teacher_policy args = CYCLE_REFRESH)"
  define a3 where "a3 = (if refresh then a2\<lparr> teacher_weights := student_weights a2, teacher_from := k + 1 \<rparr> else a2)
    \<lparr> completed_updates := k + 1, optimizer_updates := optimizer_updates a2 + 1 \<rparr>"
  have c: "complete_cyclic_step args k a2 = Inr a3"
    using A2(1) rate2 age st(1) by (simp add: complete_cyclic_step_def a3_def refresh_def Let_def)
  have run: "train_step args a x = Inr a3" using b c by (simp add: train_step_def x(2) R(1) a2_def)
  have mod: "Suc k mod cycle_length args = (if cycle_end st then 0 else Suc ?n)" unfolding st(4) by (rule mod_Suc)
  have le: "?n \<le> k" by simp
  have "teacher_from a3 = (if teacher_policy args = CYCLE_REFRESH then Suc k - Suc k mod cycle_length args else 0)"
    using A2(6) R(4) mod le by (cases "cycle_end st"; cases "teacher_policy args") (simp_all add: a3_def refresh_def)
  moreover have "completed_updates a3 = Suc k" "optimizer_updates a3 = cyclic_optimizer_updates args (Suc k)"
    "adam_age a3 = cyclic_optimizer_updates args (Suc k)" "lr_clock a3 = Suc k * cyc_global_batch_size args" "group_rates a3 = rates"
    using age A2(2,3) by (simp_all add: a3_def)
  ultimately have "actor_ready args (Suc k) a3" using x unfolding actor_ready_def input_ok_def by simp
  moreover have "teacher_weights a3 = (if teacher_policy args = CYCLE_REFRESH \<and> Suc k mod cycle_length args = 0 then w else teacher_weights a)"
    using A2 mod by (auto simp: a3_def refresh_def)
  moreover have "student_weights a3 = w" using A2 by (simp add: a3_def)
  ultimately show ?thesis using run by blast
qed

lemma train_run_append: "train_run args a (xs @ ys) = rbind (train_run args a xs) (\<lambda>a'. train_run args a' ys)"
  by (induction xs arbitrary: a) (auto simp: rbind_def split: sum.splits)

definition weights_after :: "'w cyclic_actor \<Rightarrow> 'w train_input list \<Rightarrow> nat \<Rightarrow> 'w" where
  "weights_after a xs k = (student_weights a # map (\<lambda>x. fst (snd x)) xs) ! k"


definition demo_cyclic :: cyclic_args where
  "demo_cyclic = \<lparr> cyc_num_rollout = 4, pi_updates = 1, opd_updates = 1, optimizer_policy = RESET_EACH_PHASE, teacher_policy = CYCLE_REFRESH,
     lr_schedule = CONSTANT_LR, cyc_lr = 1, cyc_min_lr = 1, lr_decay_style = ''constant'', lr_decay_iters = 3, cyc_rollout_batch_size = 1,
     cyc_samples_per_prompt = 1, cyc_global_batch_size = 1, cyc_other_requirements = True \<rparr>"

definition demo_inputs :: "nat train_input list" where
  "demo_inputs = [([([1, 2, 3], 1, [9])], 10, [1]), ([([1, 2, 3], 1, [1, 2])], 20, [1]), ([([1, 2, 3], 1, [8])], 30, [1])]"


end
