(* ===== verification/CrispVerify.thy ===== *)
theory CrispVerify
  imports Prelude "HOL-Library.Char_ord"
begin

text \<open>
  Answers of CRISP: the structure check, the extraction of the final answer and the two-path verdict
  (\<open>workspace/src/self_distill_hybrid/sd_verifier.py\<close>), the reward function
  (\<open>workspace/src/rewards/dual_path_math_verify.py\<close>) and the parts of a teacher's response
  (\<open>workspace/src/data/prepare_self_distill_data.py\<close>).  Texts are lists of characters below 256; the symbolic
  comparison of the package \<open>math_verify\<close> is a parameter.
\<close>

section \<open>Python's strings\<close>

text \<open>\<open>str.isspace\<close> and \<open>\s\<close>\<close>

definition py_space :: "char \<Rightarrow> bool" where
  "py_space c \<longleftrightarrow> (of_char c :: nat) \<in> {9, 10, 11, 12, 13, 28, 29, 30, 31, 32, 133, 160}"

definition newline :: char where
  "newline = CHR 0x0A"

definition py_rstrip :: "(char \<Rightarrow> bool) \<Rightarrow> string \<Rightarrow> string" where
  "py_rstrip P s = rev (dropWhile P (rev s))"

definition py_strip :: "string \<Rightarrow> string" where
  "py_strip s = py_rstrip py_space (dropWhile py_space s)"

definition lower_char :: "char \<Rightarrow> char" where
  "lower_char c = (let n = of_char c :: nat in
     if 65 \<le> n \<and> n \<le> 90 \<or> 192 \<le> n \<and> n \<le> 222 \<and> n \<noteq> 215 then char_of (n + 32) else c)"

definition py_lower :: "string \<Rightarrow> string" where
  "py_lower s = map lower_char s"

text \<open>The text before and after the first occurrence.\<close>

fun split_at :: "string \<Rightarrow> string \<Rightarrow> (string \<times> string) option" where
  "split_at p [] = (if p = [] then Some ([], []) else None)"
| "split_at p (c # s) = (if take (length p) (c # s) = p then Some ([], drop (length p) (c # s))
     else map_option (\<lambda>(a, b). (c # a, b)) (split_at p s))"

definition py_in :: "string \<Rightarrow> string \<Rightarrow> bool" where
  "py_in p s \<longleftrightarrow> split_at p s \<noteq> None"

definition py_index :: "string \<Rightarrow> string \<Rightarrow> nat res" where
  "py_index p s = (case split_at p s of None \<Rightarrow> Inl ValueError | Some (a, b) \<Rightarrow> Inr (length a))"

lemma split_at_Some: "split_at p s = Some (a, b) \<Longrightarrow> s = a @ p @ b"
proof (induction p s arbitrary: a rule: split_at.induct)
  case (2 p c s)
  show ?case
  proof (cases "take (length p) (c # s) = p")
    case True
    then show ?thesis using 2(2) by (metis append_Nil append_take_drop_id option.inject prod.inject split_at.simps(2))
  next
    case False
    then show ?thesis using 2 by auto
  qed
qed (simp split: if_splits)

section \<open>The structure check\<close>

definition think_open :: string where "think_open = ''<think>''"
definition think_close :: string where "think_close = ''</think>''"
definition boxed_open :: string where "boxed_open = CHR 0x5C # ''boxed{''"

definition validate_response_structure :: "string \<Rightarrow> bool" where
  "validate_response_structure text =
     (if text = [] \<or> length (py_strip text) < 50 then False
      else if \<not> (py_in think_open text \<and> py_in think_close text \<and> (py_in ''answer:'' (py_lower text) \<or> py_in boxed_open text)) then False
      else (case rbind (py_index think_open text) (\<lambda>i. rbind (py_index think_close text) (\<lambda>j.
               Inr (py_strip (slice (i + length think_open) j text)))) of
              Inl e \<Rightarrow> False
            | Inr content \<Rightarrow> \<not> length content < 20))"

section \<open>The answer line\<close>

text \<open>
  A match of \<open>(?i)Answer\s*:\s*([^\n]+)\<close> at the start of the text: the group and the text after the
  match.  When only white space follows the colon, the group backtracks to its last character
  that is no newline.
\<close>

definition match_answer :: "string \<Rightarrow> (string \<times> string) option" where
  "match_answer s =
     (if py_lower (take 6 s) \<noteq> ''answer'' then None
      else (case dropWhile py_space (drop 6 s) of
          [] \<Rightarrow> None
        | c # u \<Rightarrow>
            if c \<noteq> CHR '':'' then None
            else (case dropWhile py_space u of
                x # rest \<Rightarrow> Some (takeWhile (\<lambda>d. d \<noteq> newline) (x # rest), dropWhile (\<lambda>d. d \<noteq> newline) (x # rest))
              | [] \<Rightarrow> (case py_rstrip (\<lambda>d. d = newline) u of
                    [] \<Rightarrow> None
                  | front \<Rightarrow> Some ([last front], drop (length front) u)))))"

lemma match_answer_shorter:
  assumes "match_answer s = Some (g, rest)"
  shows "length rest < length s"
proof -
  have "py_lower (take 6 s) = ''answer''" using assms by (auto simp: match_answer_def split: if_splits)
  then have "length (py_lower (take 6 s)) = length ''answer''" by simp
  then have "length (take 6 s) = 6" unfolding py_lower_def length_map by simp
  then have s: "6 \<le> length s" by simp
  obtain c u where u: "dropWhile py_space (drop 6 s) = c # u" using assms by (auto simp: match_answer_def split: if_splits list.splits)
  have "length (c # u) \<le> length s - 6" unfolding u [symmetric] using length_dropWhile_le [of py_space "drop 6 s"] by simp
  moreover have "length rest \<le> length u"
  proof (cases "dropWhile py_space u")
    case Nil
    then have "rest = drop (length (py_rstrip (\<lambda>d. d = newline) u)) u"
      using assms u by (cases "py_rstrip (\<lambda>d. d = newline) u") (auto simp: match_answer_def simp del: dropWhile_eq_Nil_conv split: if_splits)
    then show ?thesis by simp
  next
    case (Cons x v)
    then have "rest = dropWhile (\<lambda>d. d \<noteq> newline) (dropWhile py_space u)" using assms u by (auto simp: match_answer_def split: if_splits)
    then show ?thesis using length_dropWhile_le [of "\<lambda>d. d \<noteq> newline" "dropWhile py_space u"] length_dropWhile_le [of py_space u] by simp
  qed
  ultimately show ?thesis using s by simp
qed

function find_answers :: "string \<Rightarrow> string list" where
  "find_answers s = (case match_answer s of
       Some (g, rest) \<Rightarrow> g # find_answers rest
     | None \<Rightarrow> (case s of [] \<Rightarrow> [] | c # t \<Rightarrow> find_answers t))"
  by pat_completeness auto
termination
  by (relation "measure length") (auto dest: match_answer_shorter)

definition trailing_mark :: "char \<Rightarrow> bool" where
  "trailing_mark c \<longleftrightarrow> c \<in> set ''.,;:?'' \<or> c = CHR 0x22 \<or> c = CHR 0x27 \<or> c = CHR '' '' \<or> c = CHR 0x09"

definition extract_answer_field :: "string \<Rightarrow> string option" where
  "extract_answer_field response =
     (case find_answers response of
        [] \<Rightarrow> None
      | matches \<Rightarrow> (case py_rstrip trailing_mark (py_strip (last matches)) of [] \<Rightarrow> None | candidate \<Rightarrow> Some candidate))"

section \<open>The verdict\<close>

datatype mv_result = MvScore real | MvTimeout | MvError

type_synonym math_verify = "string \<Rightarrow> string \<Rightarrow> mv_result"

definition boxed :: "string \<Rightarrow> string" where
  "boxed s = boxed_open @ s @ ''}''"

definition math_verify_score :: "math_verify \<Rightarrow> string \<Rightarrow> string \<Rightarrow> bool" where
  "math_verify_score mv pred gold =
     (if pred = [] \<or> py_strip pred = [] then False
      else (case mv (boxed gold) pred of MvScore x \<Rightarrow> 0 < x | MvTimeout \<Rightarrow> False | MvError \<Rightarrow> False))"

definition verify_response :: "math_verify \<Rightarrow> string \<Rightarrow> string \<Rightarrow> bool \<Rightarrow> bool \<times> string" where
  "verify_response mv response ground_truth check_structure =
     (if response = [] \<or> py_strip response = [] then (False, [])
      else (let payload = extract_answer_field response;
                primary = (case payload of None \<Rightarrow> False | Some p \<Rightarrow> math_verify_score mv (boxed p) ground_truth);
                fallback = math_verify_score mv response ground_truth;
                is_correct = (primary \<or> fallback);
                pred = (case payload of None \<Rightarrow> ''[BOXED]'' | Some p \<Rightarrow> p) in
        if is_correct \<and> check_structure \<and> \<not> validate_response_structure response then (False, pred) else (is_correct, pred)))"

definition verify_batch :: "math_verify \<Rightarrow> string list \<Rightarrow> string list \<Rightarrow> bool \<Rightarrow> bool list \<times> string list" where
  "verify_batch mv responses ground_truths check_structure =
     (let rs = map (\<lambda>(r, g). verify_response mv r g check_structure) (zip responses ground_truths) in (map fst rs, map snd rs))"

section \<open>The reward\<close>

definition reward_verify :: "math_verify \<Rightarrow> string \<Rightarrow> string \<Rightarrow> real \<Rightarrow> real" where
  "reward_verify mv pred gold timeout_score =
     (if pred = [] \<or> py_strip pred = [] then 0
      else (case mv (boxed gold) pred of MvScore x \<Rightarrow> x | MvTimeout \<Rightarrow> timeout_score | MvError \<Rightarrow> 0))"

definition dual_path_score :: "math_verify \<Rightarrow> string \<Rightarrow> string \<Rightarrow> real \<Rightarrow> real" where
  "dual_path_score mv output gold timeout_score =
     (let score_answer = (case extract_answer_field output of None \<Rightarrow> 0 | Some p \<Rightarrow> reward_verify mv (boxed p) gold timeout_score);
          score_boxed = reward_verify mv output gold timeout_score in
      if 0 < score_answer \<or> 0 < score_boxed then 1 else 0)"

definition is_math_source :: "string \<Rightarrow> bool" where
  "is_math_source source \<longleftrightarrow> source \<in> {''math_dapo'', ''math'', ''math_dapo_reasoning''} \<or> take 4 source = ''aime''"

definition compute_score :: "math_verify \<Rightarrow> (string \<Rightarrow> string \<Rightarrow> string \<Rightarrow> real) \<Rightarrow> string \<Rightarrow> string \<Rightarrow> string \<Rightarrow> real" where
  "compute_score mv default_compute_score source solution gold =
     (if is_math_source source then dual_path_score mv solution gold 0 else default_compute_score source solution gold)"

section \<open>Reward and verdict agree\<close>

declare find_answers.simps [simp del]

lemma lower_space: "py_space c \<Longrightarrow> lower_char c = c"
  by (auto simp: py_space_def lower_char_def Let_def)

lemma match_answer_space: "py_space c \<Longrightarrow> match_answer (c # s) = None"
  by (auto simp: match_answer_def py_lower_def lower_space py_space_def split: if_splits)

lemma blank_has_no_answer: "list_all py_space s \<Longrightarrow> find_answers s = []"
proof (induction s)
  case Nil
  then show ?case by (subst find_answers.simps) (simp add: match_answer_def py_lower_def)
next
  case (Cons c s)
  then show ?case by (subst find_answers.simps) (simp add: match_answer_space)
qed

lemma strip_blank: "py_strip s = [] \<longleftrightarrow> list_all py_space s"
proof
  assume "py_strip s = []"
  then have "\<forall>x \<in> set (dropWhile py_space s). py_space x" by (simp add: py_strip_def py_rstrip_def dropWhile_eq_Nil_conv)
  then have "dropWhile py_space s = []" by (metis dropWhile_eq_Nil_conv hd_dropWhile hd_in_set)
  then show "list_all py_space s" by (simp add: dropWhile_eq_Nil_conv list_all_iff)
next
  assume "list_all py_space s"
  then have "dropWhile py_space s = []" by (simp add: dropWhile_eq_Nil_conv list_all_iff)
  from this show "py_strip s = []" unfolding py_strip_def by (simp only: py_rstrip_def dropWhile.simps rev.simps)
qed

lemma reward_verify_positive: "0 < reward_verify mv pred gold 0 \<longleftrightarrow> math_verify_score mv pred gold"
  by (simp add: reward_verify_def math_verify_score_def split: mv_result.splits)

text \<open>
  C24: With the default score for timeouts the reward of a response is one exactly when the verifier, not
  asking for structure, accepts it, and zero otherwise; asking for structure accepts exactly those of them whose structure is valid.
\<close>

theorem reward_matches_verifier:
  "dual_path_score mv output gold 0 = of_bool (fst (verify_response mv output gold False))
    \<and> fst (verify_response mv output gold True) = (fst (verify_response mv output gold False) \<and> validate_response_structure output)"
proof (cases "py_strip output = []")
  case True
  then have "find_answers output = []" by (simp add: blank_has_no_answer strip_blank)
  then have "extract_answer_field output = None" by (simp add: extract_answer_field_def)
  then show ?thesis using True by (simp add: dual_path_score_def verify_response_def reward_verify_def)
next
  case False
  then have "output \<noteq> []" by (auto simp: py_strip_def py_rstrip_def)
  then show ?thesis using False
    by (auto simp: dual_path_score_def verify_response_def Let_def reward_verify_positive split: option.splits)
qed

section \<open>The final answer is extracted\<close>

text \<open>The position at which the answer line starts is the first one at which its word is found.\<close>

lemma find_answers_skip:
  assumes "\<And>i. i < length pre \<Longrightarrow> py_lower (take 6 (drop i (pre @ s))) \<noteq> ''answer''"
  shows "find_answers (pre @ s) = find_answers s"
  using assms
proof (induction pre)
  case (Cons c pre)
  have "match_answer (c # pre @ s) = None" using Cons.prems [of 0] by (simp add: match_answer_def)
  moreover have "py_lower (take 6 (drop i (pre @ s))) \<noteq> ''answer''" if "i < length pre" for i using Cons.prems [of "Suc i"] that by simp
  then have "find_answers (pre @ s) = find_answers s" by (rule Cons.IH)
  ultimately show ?case by (subst find_answers.simps) simp
qed simp

lemma find_answers_Nil [simp]: "find_answers [] = []"
  by (subst find_answers.simps) (simp add: match_answer_def py_lower_def)

lemma rstrip_keeps: "x \<noteq> [] \<Longrightarrow> \<not> P (last x) \<Longrightarrow> list_all P junk \<Longrightarrow> py_rstrip P (x @ junk) = x"
  by (cases x rule: rev_cases) (simp_all add: py_rstrip_def dropWhile_append list_all_iff)

lemma rstrip_append: "x \<noteq> [] \<Longrightarrow> \<not> P (last x) \<Longrightarrow> py_rstrip P (x @ junk) = x @ py_rstrip P junk"
proof (cases "list_all P junk")
  case True
  then have "py_rstrip P junk = []" by (simp add: py_rstrip_def dropWhile_eq_Nil_conv list_all_iff)
  then show "x \<noteq> [] \<Longrightarrow> \<not> P (last x) \<Longrightarrow> py_rstrip P (x @ junk) = x @ py_rstrip P junk" using rstrip_keeps [OF _ _ True] by simp
qed (auto simp: py_rstrip_def dropWhile_append list_all_iff)

text \<open>The white space that may end a text has a prefix of the marks that remains.\<close>

lemma strip_then_rstrip:
  assumes "x \<noteq> []" "\<not> py_space (hd x)" "\<not> trailing_mark (last x)" "\<not> py_space (last x)" "list_all trailing_mark junk"
  shows "py_rstrip trailing_mark (py_strip (x @ junk)) = x"
proof -
  have h: "dropWhile py_space (x @ junk) = x @ junk" using assms(1,2) by (cases x) simp_all
  have "py_strip (x @ junk) = x @ py_rstrip py_space junk" unfolding py_strip_def h using assms(1,4) by (rule rstrip_append [where P = py_space])
  moreover have "list_all trailing_mark (py_rstrip py_space junk)"
    using assms(5) by (auto simp: py_rstrip_def list_all_iff dest: set_dropWhileD)
  ultimately show ?thesis using rstrip_keeps [OF assms(1), of trailing_mark] assms(3) by simp
qed

text \<open>
  A last line of the form Answer: x is extracted: when the word occurs nowhere before it, in
  whatever case, the white space around the colon and the trailing marks are dropped and exactly \<open>x\<close> is returned.
\<close>

theorem final_answer_is_extracted:
  assumes "\<And>i. i < length pre \<Longrightarrow> py_lower (take 6 (drop i (pre @ word))) \<noteq> ''answer''" "py_lower word = ''answer''"
    and "list_all py_space gap" "list_all py_space gap'"
    and "x \<noteq> []" "newline \<notin> set x" "\<not> py_space (hd x)" "\<not> py_space (last x)" "\<not> trailing_mark (last x)" "list_all trailing_mark junk"
  shows "extract_answer_field (pre @ word @ gap @ '':'' @ gap' @ x @ junk) = Some x"
proof -
  let ?s = "word @ gap @ '':'' @ gap' @ x @ junk"
  have "length (py_lower word) = length ''answer''" using assms(2) by simp
  then have w: "length word = 6" unfolding py_lower_def length_map by simp
  have "find_answers (pre @ ?s) = find_answers ?s"
  proof (rule find_answers_skip)
    fix i assume i: "i < length pre"
    have "drop i (pre @ ?s) = drop i (pre @ word) @ gap @ '':'' @ gap' @ x @ junk" using i by simp
    moreover have "6 \<le> length (drop i (pre @ word))" using i w by simp
    ultimately have "take 6 (drop i (pre @ ?s)) = take 6 (drop i (pre @ word))" by (simp only: take_append) simp
    then show "py_lower (take 6 (drop i (pre @ ?s))) \<noteq> ''answer''" using assms(1) [OF i] by (simp only: not_False_eq_True)
  qed
  moreover have "match_answer ?s = Some (x @ junk, [])"
  proof -
    have colon: "\<not> py_space (CHR '':'')" by (simp add: py_space_def)
    have "dropWhile py_space (gap @ CHR '':'' # gap' @ x @ junk) = CHR '':'' # gap' @ x @ junk"
      using assms(3) colon by (simp add: dropWhile_append list_all_iff)
    moreover obtain y ys where x: "x = y # ys" using assms(5) by (cases x) auto
    moreover have "dropWhile py_space (gap' @ x @ junk) = x @ junk" using assms(4,7) x by (simp add: dropWhile_append list_all_iff)
    moreover have "newline \<notin> set (x @ junk)"
    proof -
      have "\<not> trailing_mark newline" by (simp add: trailing_mark_def newline_def)
      then show ?thesis using assms(6,10) by (auto simp: list_all_iff)
    qed
    then have "takeWhile (\<lambda>d. d \<noteq> newline) (x @ junk) = x @ junk" "dropWhile (\<lambda>d. d \<noteq> newline) (x @ junk) = []"
      by (auto simp: takeWhile_eq_all_conv dropWhile_eq_Nil_conv)
    ultimately show ?thesis using w assms(2) by (simp add: match_answer_def)
  qed
  ultimately have "find_answers (pre @ ?s) = [x @ junk]" by (subst (asm) (2) find_answers.simps) simp
  then show ?thesis using strip_then_rstrip [OF assms(5,7,9,8,10)] assms(5) by (simp add: extract_answer_field_def split: list.splits)
qed

lemma final_answer_is_extracted_witness: "extract_answer_field (''so 42. '' @ ''ANSWER'' @ [] @ '':'' @ '' '' @ ''42'' @ ''.'') = Some ''42''"
proof (rule final_answer_is_extracted)
  fix i assume "i < length ''so 42. ''"
  then have "i \<in> {0, 1, 2, 3, 4, 5, 6}" by auto
  then show "py_lower (take 6 (drop i (''so 42. '' @ ''ANSWER''))) \<noteq> ''answer''"
    by (auto simp: char_of_eq_iff py_lower_def lower_char_def Let_def)
qed (simp_all add: char_of_eq_iff py_lower_def lower_char_def py_space_def trailing_mark_def newline_def)

section \<open>The parts of a teacher's response\<close>

text \<open>\<open>str.replace\<close> for a non-empty pattern.\<close>

function py_replace :: "string \<Rightarrow> string \<Rightarrow> string \<Rightarrow> string" where
  "py_replace p q s = (if p = [] then s else (case split_at p s of None \<Rightarrow> s | Some (a, b) \<Rightarrow> a @ q @ py_replace p q b))"
  by pat_completeness auto
termination
  by (relation "measure (length \<circ> snd \<circ> snd)") (auto dest: split_at_Some)

declare py_replace.simps [simp del]

definition channel_analysis :: string where "channel_analysis = ''<|channel|>analysis<|message|>''"
definition channel_final :: string where "channel_final = ''<|end|><|start|>assistant<|channel|>final<|message|>''"

definition transform_teacher_response :: "string \<Rightarrow> string" where
  "transform_teacher_response response = py_replace channel_final think_close (py_replace channel_analysis think_open response)"

text \<open>\<open><think>(.*?)</think>\<close>: from the first opening tag to the first closing tag after it.\<close>

definition extract_thinking_part :: "string \<Rightarrow> string" where
  "extract_thinking_part solution =
     (case split_at think_open solution of
        None \<Rightarrow> []
      | Some (a, b) \<Rightarrow> (case split_at think_close b of None \<Rightarrow> [] | Some (inner, rest) \<Rightarrow> py_strip inner))"

definition extract_answer_part :: "string \<Rightarrow> string" where
  "extract_answer_part solution =
     (case split_at think_close solution of
        None \<Rightarrow> solution
      | Some (a, b) \<Rightarrow> py_strip (dropWhile py_space b))"

text \<open>The pattern starts nowhere inside the text, even when it follows directly.\<close>

definition clear_of :: "string \<Rightarrow> string \<Rightarrow> bool" where
  "clear_of p s \<longleftrightarrow> split_at p (s @ p) = Some (s, [])"

lemma split_at_clear:
  assumes "clear_of p s" "p \<noteq> []"
  shows "split_at p (s @ p @ b) = Some (s, b)"
  using assms(1)
proof (induction s)
  case Nil
  then show ?case using assms(2) by (cases p) simp_all
next
  case (Cons c s)
  have ne: "take (length p) (c # s @ p) \<noteq> p"
  proof
    assume "take (length p) (c # s @ p) = p"
    then have "split_at p ((c # s) @ p) = Some ([], drop (length p) ((c # s) @ p))" by simp
    then show False using Cons.prems by (simp add: clear_of_def)
  qed
  then have "clear_of p s" using Cons.prems by (auto simp: clear_of_def)
  moreover have "take (length p) ((c # s @ p) @ b) = take (length p) (c # s @ p)" by (simp only: take_append) simp
  then have "take (length p) (c # s @ p @ b) \<noteq> p" using ne by (simp only: append_Cons append_assoc) simp
  ultimately show ?case using Cons.IH by simp
qed

lemma py_replace_once:
  assumes "clear_of p s" "p \<noteq> []" "split_at p b = None"
  shows "py_replace p q (s @ p @ b) = s @ q @ b"
proof -
  have "py_replace p q b = b" using assms(3) by (subst py_replace.simps) simp
  then show ?thesis using split_at_clear [OF assms(1,2)] assms(2) by (subst py_replace.simps) simp
qed

text \<open>
  A teacher's response of reasoning and answer in channel format, neither of which contains a
  channel marker or a closing tag, is taken apart into exactly its two parts, without the white space around them.
\<close>

theorem teacher_response_splits:
  assumes "split_at channel_analysis (reasoning @ channel_final @ answer) = None" "clear_of channel_final (think_open @ reasoning)"
    and "split_at channel_final answer = None" "clear_of think_close reasoning" "clear_of think_close (think_open @ reasoning)"
  shows "extract_thinking_part (transform_teacher_response (channel_analysis @ reasoning @ channel_final @ answer)) = py_strip reasoning
    \<and> extract_answer_part (transform_teacher_response (channel_analysis @ reasoning @ channel_final @ answer)) = py_strip answer"
proof -
  have ne: "channel_analysis \<noteq> []" "channel_final \<noteq> []" "think_open \<noteq> []" "think_close \<noteq> []"
    by (simp_all add: channel_analysis_def channel_final_def think_open_def think_close_def)
  have start: "clear_of p []" if "p \<noteq> []" for p using that by (cases p) (simp_all add: clear_of_def)
  have "py_replace channel_analysis think_open ([] @ channel_analysis @ reasoning @ channel_final @ answer) = [] @ think_open @ reasoning @ channel_final @ answer"
    by (rule py_replace_once [OF start [OF ne(1)] ne(1) assms(1)])
  moreover have "py_replace channel_final think_close ((think_open @ reasoning) @ channel_final @ answer) = (think_open @ reasoning) @ think_close @ answer"
    by (rule py_replace_once [OF assms(2) ne(2) assms(3)])
  ultimately have t: "transform_teacher_response (channel_analysis @ reasoning @ channel_final @ answer) = think_open @ reasoning @ think_close @ answer"
    by (simp add: transform_teacher_response_def)
  have "split_at think_open ([] @ think_open @ reasoning @ think_close @ answer) = Some ([], reasoning @ think_close @ answer)"
    by (rule split_at_clear [OF start [OF ne(3)] ne(3)])
  moreover have "split_at think_close (reasoning @ think_close @ answer) = Some (reasoning, answer)"
    by (rule split_at_clear [OF assms(4) ne(4)])
  moreover have "split_at think_close ((think_open @ reasoning) @ think_close @ answer) = Some (think_open @ reasoning, answer)"
    by (rule split_at_clear [OF assms(5) ne(4)])
  moreover have "py_strip (dropWhile py_space answer) = py_strip answer" by (simp add: py_strip_def)
  ultimately show ?thesis by (simp add: t extract_thinking_part_def extract_answer_part_def)
qed

lemma teacher_response_splits_witness:
  "extract_thinking_part (transform_teacher_response (channel_analysis @ ''x < 3 so '' @ channel_final @ '' 2'')) = ''x < 3 so''"
proof -
  have "py_strip ''x < 3 so '' = ''x < 3 so''" by (simp add: py_strip_def py_rstrip_def py_space_def)
  moreover have "extract_thinking_part (transform_teacher_response (channel_analysis @ ''x < 3 so '' @ channel_final @ '' 2'')) = py_strip ''x < 3 so ''"
    by (rule conjunct1 [OF teacher_response_splits])
      (simp_all add: channel_analysis_def channel_final_def clear_of_def think_open_def think_close_def)
  ultimately show ?thesis by simp
qed

end
