(* ===== verification/CrispBatch.thy ===== *)
theory CrispBatch
  imports Prelude
begin

text \<open>
  The training batches of CRISP (\<open>workspace/src/self_distill_hybrid/sd_verifier.py\<close>) and the selection of the
  response logits by the worker (\<open>opsd_worker.py\<close>): teacher and student score the same response
  after different prompts, and their logits are compared position by position.
  The tokenizer, the chat template (with the JSON decoding of the prompt) and the models are parameters.
\<close>

section \<open>Rows\<close>

record crisp_tokenizer =
  pad_id :: "nat option"
  eos_id :: nat
  chat_prompt :: "string \<Rightarrow> nat list"
  encode_text :: "string \<Rightarrow> nat list"

record seq_row =
  input_ids :: "nat list"
  attention_mask :: "nat list"
  position_ids :: "nat list"
  loss_mask :: "nat list"

definition padding_id :: "crisp_tokenizer \<Rightarrow> nat" where
  "padding_id tk = (case pad_id tk of None \<Rightarrow> eos_id tk | Some p \<Rightarrow> p)"

definition response_tokens :: "crisp_tokenizer \<Rightarrow> string \<Rightarrow> nat list" where
  "response_tokens tk text =
     (let ids = encode_text tk text in if ids = [] \<or> last ids \<noteq> eos_id tk then ids @ [eos_id tk] else ids)"

definition padded_row :: "nat \<Rightarrow> nat \<Rightarrow> nat list \<Rightarrow> nat list \<Rightarrow> seq_row" where
  "padded_row max_length pad full marks =
     (let n = max_length - length full in
      \<lparr> input_ids = full @ replicate n pad, attention_mask = replicate (length full) 1 @ replicate n 0,
        position_ids = [0..<length full] @ replicate n 0, loss_mask = marks @ replicate n 0 \<rparr>)"

definition tokenize_sequence :: "string \<Rightarrow> string \<Rightarrow> crisp_tokenizer \<Rightarrow> nat \<Rightarrow> nat \<Rightarrow> seq_row option" where
  "tokenize_sequence prompt text tk max_length pad =
     (let p = chat_prompt tk prompt; r = response_tokens tk text; full = p @ r;
          marks = replicate (length p) 0 @ replicate (length r) 1 in
      if max_length < length full then None
      else if length full < 2 then None
      else Some (padded_row max_length pad full marks))"

text \<open>\<open>None\<close> stands for the batch that is not built.\<close>

definition build_opsd_batch :: "string list \<Rightarrow> string list \<Rightarrow> string list \<Rightarrow> crisp_tokenizer \<Rightarrow> nat \<Rightarrow> (seq_row \<times> seq_row) list option" where
  "build_opsd_batch teacher_prompts student_prompts responses tk max_length =
     (if teacher_prompts = [] then None
      else (let pad = padding_id tk;
                pairs = map (\<lambda>(t, s, r). (tokenize_sequence t r tk max_length pad, tokenize_sequence s r tk max_length pad))
                            (zip teacher_prompts (zip student_prompts responses));
                kept = List.map_filter (\<lambda>x. case x of (Some t, Some s) \<Rightarrow> Some (t, s) | _ \<Rightarrow> None) pairs in
            if kept = [] then None else Some kept))"

definition sft_row :: "crisp_tokenizer \<Rightarrow> nat \<Rightarrow> string \<times> string \<Rightarrow> seq_row option" where
  "sft_row tk max_length x = (case x of (prompt, text) \<Rightarrow>
     let p = chat_prompt tk prompt; r = response_tokens tk text;
         full = take max_length (p @ r); marks = take max_length (replicate (length p) 0 @ replicate (length r) 1) in
     if length full < 2 then None else Some (padded_row max_length (padding_id tk) full marks))"

definition build_sft_batch :: "string list \<Rightarrow> string list \<Rightarrow> crisp_tokenizer \<Rightarrow> nat \<Rightarrow> seq_row list option" where
  "build_sft_batch prompts responses tk max_length =
     (if prompts = [] then None
      else (let rows = List.map_filter (sft_row tk max_length) (zip prompts responses) in if rows = [] then None else Some rows))"

lemma padded_row_lengths:
  assumes "length full \<le> n" "length marks = length full"
  shows "length (input_ids (padded_row n pad full marks)) = n \<and> length (attention_mask (padded_row n pad full marks)) = n
    \<and> length (position_ids (padded_row n pad full marks)) = n \<and> length (loss_mask (padded_row n pad full marks)) = n"
  using assms by (simp add: padded_row_def Let_def)

lemma sft_rows_padded:
  assumes "sft_row tk n x = Some row"
  shows "length (input_ids row) = n \<and> length (attention_mask row) = n \<and> length (position_ids row) = n \<and> length (loss_mask row) = n"
proof -
  obtain full marks :: "nat list" where "row = padded_row n (padding_id tk) full marks" "full = take n (chat_prompt tk (fst x) @ response_tokens tk (snd x))"
    "marks = take n (replicate (length (chat_prompt tk (fst x))) 0 @ replicate (length (response_tokens tk (snd x))) 1)"
    using assms by (cases x) (simp add: sft_row_def Let_def split: if_splits)
  then show ?thesis using padded_row_lengths [of full n marks "padding_id tk"] by simp
qed

section \<open>The response logits\<close>

definition nonzero :: "nat list \<Rightarrow> nat list" where
  "nonzero xs = filter (\<lambda>i. xs ! i \<noteq> 0) [0..<length xs]"

type_synonym 'v padded_model = "nat list list \<Rightarrow> nat list list \<Rightarrow> nat list list \<Rightarrow> 'v list list"
type_synonym 'v packed_model = "nat list \<Rightarrow> nat list \<Rightarrow> 'v list"

definition forward_logits_padded :: "'v padded_model \<Rightarrow> seq_row list \<Rightarrow> 'v list" where
  "forward_logits_padded model rows =
     (let logits = model (map input_ids rows) (map attention_mask rows) (map position_ids rows);
          flat_logits = concat (map butlast logits);
          flat_mask = concat (map (drop 1 \<circ> loss_mask) rows) in
      map ((!) flat_logits) (nonzero flat_mask))"

definition forward_logits_unpadded :: "'v packed_model \<Rightarrow> seq_row list \<Rightarrow> 'v list" where
  "forward_logits_unpadded model rows =
     (let indices = nonzero (concat (map attention_mask rows));
          logits = model (map ((!) (concat (map input_ids rows))) indices) (map ((!) (concat (map position_ids rows))) indices);
          marks = map ((!) (concat (map loss_mask rows))) indices;
          shifted = (if marks = [] then [] else drop 1 marks @ [0]) in
      map ((!) logits) (nonzero shifted))"

text \<open>
  What a causal language model documents: the logits at a position depend on the tokens up to it
  (\<open>lm\<close>), padding on the right changes nothing, and packed sequences are told apart by their
  positions, which start again at zero.
\<close>

definition attended :: "seq_row \<Rightarrow> nat" where
  "attended row = length (takeWhile (\<lambda>a. a \<noteq> 0) (attention_mask row))"

definition row_logits :: "(nat list \<Rightarrow> 'v) \<Rightarrow> nat list \<Rightarrow> 'v list" where
  "row_logits lm ids = map (\<lambda>p. lm (take (Suc p) ids)) [0..<length ids]"

definition causal_padded :: "(nat list \<Rightarrow> 'v) \<Rightarrow> 'v padded_model \<Rightarrow> bool" where
  "causal_padded lm model \<longleftrightarrow> (\<forall>rows.
     list_all2 (\<lambda>row out. length out = length (input_ids row) \<and> take (attended row) out = row_logits lm (take (attended row) (input_ids row)))
       rows (model (map input_ids rows) (map attention_mask rows) (map position_ids rows)))"

definition causal_packed :: "(nat list \<Rightarrow> 'v) \<Rightarrow> 'v packed_model \<Rightarrow> bool" where
  "causal_packed lm model \<longleftrightarrow> (\<forall>seqs. [] \<notin> set seqs \<longrightarrow>
     model (concat seqs) (concat (map (\<lambda>s. [0..<length s]) seqs)) = concat (map (row_logits lm) seqs))"

section \<open>Selection by a marks\<close>

definition select :: "nat list \<Rightarrow> 'a list \<Rightarrow> 'a list" where
  "select marks xs = map snd (filter (\<lambda>x. fst x \<noteq> 0) (zip marks xs))"

lemma nonzero_Cons: "nonzero (m # ms) = (if m \<noteq> 0 then [0] else []) @ map Suc (nonzero ms)"
proof -
  have "[0..<length (m # ms)] = 0 # map Suc [0..<length ms]" by (simp add: map_Suc_upt upt_conv_Cons del: upt_Suc)
  then show ?thesis by (simp add: nonzero_def filter_map comp_def)
qed

lemma select_nonzero: "length marks \<le> length xs \<Longrightarrow> map ((!) xs) (nonzero marks) = select marks xs"
proof (induction marks arbitrary: xs)
  case (Cons m ms)
  then obtain y ys where xs: "xs = y # ys" by (cases xs) auto
  then show ?case using Cons.IH [of ys] Cons.prems by (simp add: nonzero_Cons select_def comp_def)
qed (simp add: nonzero_def select_def)

lemma select_append: "length m = length xs \<Longrightarrow> select (m @ m') (xs @ ys) = select m xs @ select m' ys"
  by (simp add: select_def)

lemma select_zeros [simp]: "select (replicate n 0) xs = []"
  unfolding select_def by (auto simp: filter_empty_conv dest: set_zip_leftD)

lemma select_ones: "n = length xs \<Longrightarrow> select (replicate n (Suc 0)) xs = xs"
  by (induction xs arbitrary: n) (simp_all add: select_def)

lemma select_concat:
  assumes "list_all2 (\<lambda>m xs. length m = length xs) ms xss"
  shows "select (concat ms) (concat xss) = concat (map2 select ms xss)"
  using assms by (induction rule: list_all2_induct) (simp_all add: select_append, simp add: select_def)

lemma select_block:
  assumes "length xs = a + (b + c)"
  shows "select (replicate a 0 @ replicate b (Suc 0) @ replicate c 0) xs = take b (drop a xs)"
proof -
  have xs: "xs = take a xs @ take b (drop a xs) @ drop (a + b) xs"
    by (metis append_take_drop_id drop_drop add.commute)
  have l: "length (take a xs) = a" "length (take b (drop a xs)) = b" using assms by simp_all
  have "select (replicate a 0 @ replicate b (Suc 0) @ replicate c 0) (take a xs @ take b (drop a xs) @ drop (a + b) xs) = take b (drop a xs)"
    using l by (simp add: select_append select_ones)
  then show ?thesis using xs by metis
qed

section \<open>Both paths select the response\<close>

definition pair_row :: "nat \<Rightarrow> nat \<Rightarrow> nat list \<times> nat list \<Rightarrow> seq_row" where
  "pair_row max_length pad x = padded_row max_length pad (fst x @ snd x) (replicate (length (fst x)) 0 @ replicate (length (snd x)) 1)"

lemma pair_row_fields:
  "input_ids (pair_row n pad x) = fst x @ snd x @ replicate (n - (length (fst x) + length (snd x))) pad"
  "attention_mask (pair_row n pad x) = replicate (length (fst x) + length (snd x)) 1 @ replicate (n - (length (fst x) + length (snd x))) 0"
  "position_ids (pair_row n pad x) = [0..<length (fst x) + length (snd x)] @ replicate (n - (length (fst x) + length (snd x))) 0"
  "loss_mask (pair_row n pad x) = replicate (length (fst x)) 0 @ replicate (length (snd x)) (Suc 0) @ replicate (n - (length (fst x) + length (snd x))) 0"
  by (simp_all add: pair_row_def padded_row_def Let_def)

text \<open>The logits that predict the tokens of a response after a prompt.\<close>

definition response_logits :: "(nat list \<Rightarrow> 'v) \<Rightarrow> nat list \<times> nat list \<Rightarrow> 'v list" where
  "response_logits lm x = map (\<lambda>k. lm (fst x @ take k (snd x))) [0..<length (snd x)]"

definition pair_fits :: "nat \<Rightarrow> nat list \<times> nat list \<Rightarrow> bool" where
  "pair_fits max_length x \<longleftrightarrow> fst x \<noteq> [] \<and> snd x \<noteq> [] \<and> length (fst x) + length (snd x) \<le> max_length"

lemma attended_pair_row: "attended (pair_row n pad (p, r)) = length p + length r"
  by (simp add: attended_def pair_row_fields takeWhile_append)

lemma row_logits_nth: "i < length ids \<Longrightarrow> row_logits lm ids ! i = lm (take (Suc i) ids)"
  by (simp add: row_logits_def)

lemma response_slice:
  assumes "p \<noteq> []"
  shows "take (length r) (drop (length p - 1) (row_logits lm (p @ r))) = response_logits lm (p, r)"
proof (rule nth_equalityI)
  show "length (take (length r) (drop (length p - 1) (row_logits lm (p @ r)))) = length (response_logits lm (p, r))"
    using assms by (cases p) (simp_all add: row_logits_def response_logits_def)
  fix k assume "k < length (take (length r) (drop (length p - 1) (row_logits lm (p @ r))))"
  then have k: "k < length r" by simp
  have i: "length p - 1 + k < length (p @ r)" using k assms by (cases p) simp_all
  have "take (length r) (drop (length p - 1) (row_logits lm (p @ r))) ! k = row_logits lm (p @ r) ! (length p - 1 + k)"
    using k i by (simp add: row_logits_def del: length_append)
  also have "\<dots> = lm (take (Suc (length p - 1 + k)) (p @ r))" by (rule row_logits_nth [OF i])
  also have "take (Suc (length p - 1 + k)) (p @ r) = p @ take k r" using assms by (cases p) simp_all
  finally show "take (length r) (drop (length p - 1) (row_logits lm (p @ r))) ! k = response_logits lm (p, r) ! k"
    using k by (simp add: response_logits_def)
qed

lemma response_window:
  assumes "p \<noteq> []" "length p + length r \<le> length out" "take (length p + length r) out = row_logits lm (p @ r)"
  shows "take (length r) (drop (length p - 1) (butlast out)) = response_logits lm (p, r)"
proof -
  have "take (length r) (drop (length p - 1) (butlast out)) = take (length r) (drop (length p - 1) (take (length p + length r) out))"
    using assms(1,2) by (cases p) (simp_all add: butlast_conv_take take_drop min_absorb2 min_absorb1 add.commute)
  then show ?thesis using response_slice [OF assms(1)] assms(3) by metis
qed

lemma drop_zeros: "p \<noteq> [] \<Longrightarrow> drop 1 (replicate (length p) 0 @ xs) = replicate (length p - 1) (0 :: nat) @ xs"
  by (cases p) simp_all

lemma padded_row_select:
  assumes "pair_fits n (p, r)" "length out = n" "take (length p + length r) out = row_logits lm (p @ r)"
  shows "select (drop 1 (loss_mask (pair_row n pad (p, r)))) (butlast out) = response_logits lm (p, r)"
proof -
  have f: "p \<noteq> []" "length p + length r \<le> n" using assms(1) by (simp_all add: pair_fits_def)
  have "drop 1 (loss_mask (pair_row n pad (p, r)))
      = replicate (length p - 1) 0 @ replicate (length r) (Suc 0) @ replicate (n - (length p + length r)) 0"
    unfolding pair_row_fields fst_conv snd_conv by (rule drop_zeros [OF f(1)])
  moreover have "length (butlast out) = length p - 1 + (length r + (n - (length p + length r)))"
    using f assms(2) by (cases p) simp_all
  ultimately show ?thesis using response_window [OF f(1) _ assms(3)] assms(2) f(2) by (simp add: select_block)
qed

lemma length_pair_row:
  assumes "pair_fits n x"
  shows "length (input_ids (pair_row n pad x)) = n" "length (attention_mask (pair_row n pad x)) = n"
    "length (position_ids (pair_row n pad x)) = n" "length (loss_mask (pair_row n pad x)) = n"
  using assms by (simp_all add: pair_row_fields pair_fits_def)

lemma forward_padded_eq:
  assumes causal: "causal_padded lm model" and fits: "list_all (pair_fits n) xs"
  shows "forward_logits_padded model (map (pair_row n pad) xs) = concat (map (response_logits lm) xs)"
proof -
  define rows where "rows = map (pair_row n pad) xs"
  define outs where "outs = model (map input_ids rows) (map attention_mask rows) (map position_ids rows)"
  have all2: "list_all2 (\<lambda>x out. length out = n \<and> take (length (fst x) + length (snd x)) out = row_logits lm (fst x @ snd x) \<and> pair_fits n x) xs outs"
  proof -
    have "list_all2 (\<lambda>row out. length out = length (input_ids row) \<and> take (attended row) out = row_logits lm (take (attended row) (input_ids row))) rows outs"
      using causal unfolding causal_padded_def outs_def by blast
    then show ?thesis unfolding rows_def list_all2_map1
    proof (rule list.rel_mono_strong)
      fix x out assume x: "x \<in> set xs" and h: "length out = length (input_ids (pair_row n pad x))
        \<and> take (attended (pair_row n pad x)) out = row_logits lm (take (attended (pair_row n pad x)) (input_ids (pair_row n pad x)))"
      have f: "pair_fits n x" using x fits by (simp add: list_all_iff)
      have a: "attended (pair_row n pad x) = length (fst x) + length (snd x)" using attended_pair_row [of n pad "fst x" "snd x"] by simp
      have "take (length (fst x) + length (snd x)) (input_ids (pair_row n pad x)) = fst x @ snd x" by (simp add: pair_row_fields)
      then show "length out = n \<and> take (length (fst x) + length (snd x)) out = row_logits lm (fst x @ snd x) \<and> pair_fits n x"
        using h f length_pair_row(1) [OF f] by (simp add: a)
    qed
  qed
  have lens: "list_all2 (\<lambda>m ys. length m = length ys) (map (drop 1 \<circ> loss_mask) rows) (map butlast outs)"
    unfolding rows_def map_map using all2
    by (simp add: list_all2_map1 list_all2_map2 length_pair_row) (erule list_all2_mono, simp add: length_pair_row)
  have "concat (map2 select (map (drop 1 \<circ> loss_mask) rows) (map butlast outs)) = concat (map (response_logits lm) xs)"
    unfolding rows_def using all2
    by (induction rule: list_all2_induct) (simp, use padded_row_select in fastforce)
  then show ?thesis
    using select_concat [OF lens] lens unfolding forward_logits_padded_def Let_def rows_def [symmetric] outs_def [symmetric]
    by (subst select_nonzero) (simp_all add: length_concat list_all2_conv_all_nth sum_list_sum_nth)
qed

lemma shift_blocks:
  assumes "ms \<noteq> []" "list_all (\<lambda>m. m \<noteq> [] \<and> hd m = 0) ms"
  shows "drop 1 (concat ms) @ [0] = concat (map (\<lambda>m. drop 1 m @ [0 :: nat]) ms)"
  using assms
proof (induction ms)
  case (Cons m ms)
  show ?case
  proof (cases "ms = []")
    case False
    then obtain m' ms' where ms: "ms = m' # ms'" by (cases ms) auto
    obtain m'' where m': "m' = 0 # m''" using Cons.prems(2) ms by (cases m') simp_all
    have "drop 1 (concat (m # ms)) @ [0] = drop 1 m @ (concat ms @ [0])" using Cons.prems(2) by (cases m) simp_all
    also have "concat ms = 0 # drop 1 (concat ms)" unfolding ms m' by simp
    finally show ?thesis using Cons.IH Cons.prems(2) False by simp
  qed simp
qed simp

lemma forward_packed_eq:
  assumes causal: "causal_packed lm model" and fits: "list_all (pair_fits n) xs"
  shows "forward_logits_unpadded model (map (pair_row n pad) xs) = concat (map (response_logits lm) xs)"
proof -
  define rows where "rows = map (pair_row n pad) xs"
  define am where "am = concat (map attention_mask rows)"
  define seqs where "seqs = map (\<lambda>x. fst x @ snd x) xs"
  define marks where "marks = map (\<lambda>x. replicate (length (fst x)) 0 @ replicate (length (snd x)) (Suc 0)) xs"
  have one: "select (attention_mask (pair_row n pad x)) (ys @ zs) = ys"
    if "pair_fits n x" "length ys = length (fst x) + length (snd x)" "length zs = n - length ys" for x :: "nat list \<times> nat list" and ys zs :: "nat list"
    using that by (simp add: pair_row_fields select_append select_ones)
  have cat: "select am (concat (map (\<lambda>x. f x @ g x) xs)) = concat (map f xs)"
    if "\<And>x. pair_fits n x \<Longrightarrow> length (f x) = length (fst x) + length (snd x) \<and> length (g x) = n - length (f x)" for f g :: "nat list \<times> nat list \<Rightarrow> nat list"
    using fits unfolding am_def rows_def
  proof (induction xs)
    case (Cons x xs)
    have l: "length (attention_mask (pair_row n pad x)) = length (f x @ g x)"
      using Cons.prems that [of x] by (simp add: length_pair_row pair_fits_def)
    show ?case using Cons one [of x "f x" "g x"] that [of x] by (simp add: select_append [OF l] del: append_assoc)
  qed (simp add: select_def)
  have fields: "map input_ids rows = map (\<lambda>x. (fst x @ snd x) @ replicate (n - (length (fst x) + length (snd x))) pad) xs"
    "map position_ids rows = map (\<lambda>x. [0..<length (fst x) + length (snd x)] @ replicate (n - (length (fst x) + length (snd x))) 0) xs"
    "map loss_mask rows = map (\<lambda>x. (replicate (length (fst x)) 0 @ replicate (length (snd x)) (Suc 0)) @ replicate (n - (length (fst x) + length (snd x))) 0) xs"
    by (simp_all add: rows_def pair_row_fields)
  have ids: "select am (concat (map input_ids rows)) = concat seqs" unfolding fields seqs_def by (rule cat) simp
  have pos: "select am (concat (map position_ids rows)) = concat (map (\<lambda>s. [0..<length s]) seqs)"
    unfolding fields seqs_def map_map comp_def length_append by (rule cat) simp
  have lmask: "select am (concat (map loss_mask rows)) = concat marks" unfolding fields marks_def by (rule cat) simp
  have width: "length am \<le> length (concat (map h rows))" if "\<And>x. pair_fits n x \<Longrightarrow> length (h (pair_row n pad x)) = n" for h :: "seq_row \<Rightarrow> nat list"
    using fits that unfolding am_def rows_def by (induction xs) (simp_all add: length_pair_row)
  have sel: "map ((!) (concat (map h rows))) (nonzero am) = select am (concat (map h rows))"
    if "\<And>x. pair_fits n x \<Longrightarrow> length (h (pair_row n pad x)) = n" for h :: "seq_row \<Rightarrow> nat list"
    by (rule select_nonzero, rule width, rule that)
  have s: "map ((!) (concat (map input_ids rows))) (nonzero am) = select am (concat (map input_ids rows))"
    "map ((!) (concat (map position_ids rows))) (nonzero am) = select am (concat (map position_ids rows))"
    "map ((!) (concat (map loss_mask rows))) (nonzero am) = select am (concat (map loss_mask rows))"
    by (rule sel, rule length_pair_row, assumption)+
  have model: "model (concat seqs) (concat (map (\<lambda>s. [0..<length s]) seqs)) = concat (map (row_logits lm) seqs)"
  proof -
    have "[] \<notin> set seqs" using fits by (auto simp: seqs_def list_all_iff pair_fits_def)
    then show ?thesis using causal unfolding causal_packed_def by blast
  qed
  have shifted: "(if concat marks = [] then [] else drop 1 (concat marks) @ [0]) = concat (map (\<lambda>m. drop 1 m @ [0]) marks)"
  proof (cases "xs = []")
    case False
    have "list_all (\<lambda>m. m \<noteq> [] \<and> hd m = 0) marks" using fits by (auto simp: marks_def list_all_iff pair_fits_def hd_append)
    moreover have "marks \<noteq> []" "concat marks \<noteq> []" using False fits by (cases xs; simp add: marks_def pair_fits_def)+
    ultimately show ?thesis by (simp only: shift_blocks if_False not_False_eq_True)
  qed (simp add: marks_def)
  have lens: "list_all2 (\<lambda>m ys. length m = length ys) (map (\<lambda>m. drop 1 m @ [0]) marks) (map (row_logits lm) seqs)"
    using fits by (auto simp: marks_def seqs_def list_all2_conv_all_nth row_logits_def list_all_length pair_fits_def neq_Nil_conv)
  have "map2 select (map (\<lambda>m. drop 1 m @ [0]) marks) (map (row_logits lm) seqs) = map (response_logits lm) xs"
  proof (rule nth_equalityI)
    fix i assume "i < length (map2 select (map (\<lambda>m. drop 1 m @ [0]) marks) (map (row_logits lm) seqs))"
    then have i: "i < length xs" by (simp add: marks_def seqs_def)
    obtain p r where x: "xs ! i = (p, r)" by (cases "xs ! i")
    have f: "p \<noteq> []" using fits i x by (auto simp: list_all_length pair_fits_def)
    have m: "drop 1 (marks ! i) @ [0] = replicate (length p - 1) 0 @ replicate (length r) (Suc 0) @ replicate 1 0"
      using i x drop_zeros [OF f, of "replicate (length r) (Suc 0)"] by (simp add: marks_def)
    have "length (row_logits lm (p @ r)) = length p - 1 + (length r + 1)" using f by (cases p) (simp_all add: row_logits_def)
    then have "select (drop 1 (marks ! i) @ [0]) (row_logits lm (p @ r)) = response_logits lm (p, r)"
      unfolding m by (simp only: select_block response_slice [OF f])
    then show "map2 select (map (\<lambda>m. drop 1 m @ [0]) marks) (map (row_logits lm) seqs) ! i = map (response_logits lm) xs ! i"
      using i x by (simp add: seqs_def marks_def)
  qed (simp add: marks_def seqs_def)
  then have "select (concat (map (\<lambda>m. drop 1 m @ [0]) marks)) (concat (map (row_logits lm) seqs)) = concat (map (response_logits lm) xs)"
    unfolding select_concat [OF lens] by simp
  moreover have "length (concat (map (\<lambda>m. drop 1 m @ [0]) marks)) \<le> length (concat (map (row_logits lm) seqs))"
    using lens by (simp add: length_concat list_all2_conv_all_nth sum_list_sum_nth)
  ultimately show ?thesis
    unfolding forward_logits_unpadded_def Let_def rows_def [symmetric] am_def [symmetric]
    unfolding s ids pos lmask model shifted
    by (simp only: select_nonzero)
qed

section \<open>Teacher and student are aligned\<close>

text \<open>What a sample turns into: the tokens of the teacher's prompt, of the student's prompt and of the response.\<close>

type_synonym triple = "nat list \<times> nat list \<times> nat list"

definition sample_triple :: "crisp_tokenizer \<Rightarrow> string \<times> string \<times> string \<Rightarrow> triple" where
  "sample_triple tk x = (chat_prompt tk (fst x), chat_prompt tk (fst (snd x)), response_tokens tk (snd (snd x)))"

definition teacher_side :: "triple \<Rightarrow> nat list \<times> nat list" where
  "teacher_side x = (fst x, snd (snd x))"

definition student_side :: "triple \<Rightarrow> nat list \<times> nat list" where
  "student_side x = (fst (snd x), snd (snd x))"

definition triple_fits :: "nat \<Rightarrow> triple \<Rightarrow> bool" where
  "triple_fits n x \<longleftrightarrow> pair_fits n (teacher_side x) \<and> pair_fits n (student_side x)"

definition pair_of :: "nat \<Rightarrow> nat \<Rightarrow> triple \<Rightarrow> seq_row \<times> seq_row" where
  "pair_of n pad x = (pair_row n pad (teacher_side x), pair_row n pad (student_side x))"

text \<open>The samples whose two sequences both fit, in order.\<close>

definition kept_triples :: "string list \<Rightarrow> string list \<Rightarrow> string list \<Rightarrow> crisp_tokenizer \<Rightarrow> nat \<Rightarrow> triple list" where
  "kept_triples ts ss rs tk n = filter (triple_fits n) (map (sample_triple tk) (zip ts (zip ss rs)))"

text \<open>A chat template puts at least one token before the response.\<close>

definition prompts_nonempty :: "crisp_tokenizer \<Rightarrow> bool" where
  "prompts_nonempty tk \<longleftrightarrow> (\<forall>prompt. chat_prompt tk prompt \<noteq> [])"

lemma response_tokens_nonempty [simp]: "response_tokens tk text \<noteq> []"
  by (simp add: response_tokens_def Let_def)

lemma response_tokens_end: "last (response_tokens tk text) = eos_id tk"
  by (simp add: response_tokens_def Let_def)

lemma tokenize_sequence_eq:
  assumes "prompts_nonempty tk"
  shows "tokenize_sequence prompt text tk n pad =
    (if pair_fits n (chat_prompt tk prompt, response_tokens tk text) then Some (pair_row n pad (chat_prompt tk prompt, response_tokens tk text)) else None)"
proof -
  have "0 < length (chat_prompt tk prompt)" "0 < length (response_tokens tk text)"
    using assms unfolding prompts_nonempty_def by auto
  then have "2 \<le> length (chat_prompt tk prompt @ response_tokens tk text)" unfolding length_append by linarith
  then show ?thesis using assms
    by (auto simp: tokenize_sequence_def Let_def pair_fits_def pair_row_def prompts_nonempty_def)
qed

lemma map_filter_pairs:
  assumes "\<And>x. f x = (if P x then Some (g x) else None)" "\<And>x. f' x = (if P' x then Some (g' x) else None)"
  shows "List.map_filter (\<lambda>x. case x of (Some t, Some s) \<Rightarrow> Some (t, s) | _ \<Rightarrow> None) (map (\<lambda>x. (f x, f' x)) xs)
    = map (\<lambda>x. (g x, g' x)) (filter (\<lambda>x. P x \<and> P' x) xs)"
  by (induction xs) (simp_all add: List.map_filter_simps assms)

lemma build_opsd_batch_eq:
  assumes "prompts_nonempty tk"
  shows "build_opsd_batch ts ss rs tk n =
    (if kept_triples ts ss rs tk n = [] then None else Some (map (pair_of n (padding_id tk)) (kept_triples ts ss rs tk n)))"
proof -
  let ?t = "\<lambda>x. (chat_prompt tk (fst x), response_tokens tk (snd (snd x)))" and ?s = "\<lambda>x. (chat_prompt tk (fst (snd x)), response_tokens tk (snd (snd x)))"
  have split: "map (\<lambda>(t, s, r). (tokenize_sequence t r tk n (padding_id tk), tokenize_sequence s r tk n (padding_id tk))) zs
      = map (\<lambda>x. (tokenize_sequence (fst x) (snd (snd x)) tk n (padding_id tk), tokenize_sequence (fst (snd x)) (snd (snd x)) tk n (padding_id tk))) zs" for zs
    by (simp add: split_def)
  have "List.map_filter (\<lambda>x. case x of (Some t, Some s) \<Rightarrow> Some (t, s) | _ \<Rightarrow> None)
      (map (\<lambda>(t, s, r). (tokenize_sequence t r tk n (padding_id tk), tokenize_sequence s r tk n (padding_id tk))) (zip ts (zip ss rs)))
      = map (\<lambda>x. (pair_row n (padding_id tk) (?t x), pair_row n (padding_id tk) (?s x)))
          (filter (\<lambda>x. pair_fits n (?t x) \<and> pair_fits n (?s x)) (zip ts (zip ss rs)))"
    unfolding split by (rule map_filter_pairs) (rule tokenize_sequence_eq [OF assms])+
  also have "\<dots> = map (pair_of n (padding_id tk)) (kept_triples ts ss rs tk n)"
    by (simp add: kept_triples_def filter_map comp_def pair_of_def triple_fits_def teacher_side_def student_side_def sample_triple_def)
  finally show ?thesis by (auto simp: build_opsd_batch_def Let_def kept_triples_def)
qed

lemma kept_fit: "list_all (triple_fits n) (kept_triples ts ss rs tk n)"
  by (auto simp: kept_triples_def list_all_iff)

text \<open>The worker runs the packed model when it removes padding, the padded one otherwise.\<close>

definition worker_forward :: "bool \<Rightarrow> 'v padded_model \<Rightarrow> 'v packed_model \<Rightarrow> seq_row list \<Rightarrow> 'v list" where
  "worker_forward use_remove_padding m m' rows =
     (if use_remove_padding then forward_logits_unpadded m' rows else forward_logits_padded m rows)"

lemma worker_forward_sides:
  assumes "causal_padded lm m" "causal_packed lm m'" "list_all (triple_fits n) xs"
  shows "worker_forward u m m' (map fst (map (pair_of n pad) xs)) = concat (map (response_logits lm \<circ> teacher_side) xs)"
    and "worker_forward u m m' (map snd (map (pair_of n pad) xs)) = concat (map (response_logits lm \<circ> student_side) xs)"
proof -
  have f: "list_all (pair_fits n) (map teacher_side xs)" "list_all (pair_fits n) (map student_side xs)"
    using assms(3) by (auto simp: list_all_iff triple_fits_def)
  have e: "map fst (map (pair_of n pad) xs) = map (pair_row n pad) (map teacher_side xs)"
    "map snd (map (pair_of n pad) xs) = map (pair_row n pad) (map student_side xs)"
    by (simp_all add: pair_of_def)
  show "worker_forward u m m' (map fst (map (pair_of n pad) xs)) = concat (map (response_logits lm \<circ> teacher_side) xs)"
    unfolding worker_forward_def e forward_padded_eq [OF assms(1) f(1)] forward_packed_eq [OF assms(2) f(1)] by simp
  show "worker_forward u m m' (map snd (map (pair_of n pad) xs)) = concat (map (response_logits lm \<circ> student_side) xs)"
    unfolding worker_forward_def e forward_padded_eq [OF assms(1) f(2)] forward_packed_eq [OF assms(2) f(2)] by simp
qed

text \<open>
  C2: With causal models, both forward paths of the worker select from a built batch, for every kept
  sample in order and every token of its response, the logits of that side's prompt followed by
  the same part of the response: the padded and the packed path agree on either side, and teacher and student are
  compared after the same response tokens.
\<close>

theorem opsd_logits_are_aligned:
  assumes "prompts_nonempty tk" "build_opsd_batch ts ss rs tk n = Some batch"
    and "causal_padded lm_t t_padded" "causal_packed lm_t t_packed" "causal_padded lm_s s_padded" "causal_packed lm_s s_packed"
  shows "forward_logits_padded t_padded (map fst batch) = forward_logits_unpadded t_packed (map fst batch)
    \<and> forward_logits_padded s_padded (map snd batch) = forward_logits_unpadded s_packed (map snd batch)
    \<and> zip (forward_logits_padded t_padded (map fst batch)) (forward_logits_padded s_padded (map snd batch))
        = concat (map (\<lambda>(t, s, r). map (\<lambda>k. (lm_t (t @ take k r), lm_s (s @ take k r))) [0..<length r]) (kept_triples ts ss rs tk n))
    \<and> length (forward_logits_padded t_padded (map fst batch)) = length (forward_logits_padded s_padded (map snd batch))"
proof -
  define xs where "xs = kept_triples ts ss rs tk n"
  have b: "batch = map (pair_of n (padding_id tk)) xs" using assms(2) build_opsd_batch_eq [OF assms(1)] by (simp add: xs_def split: if_splits)
  have f: "list_all (triple_fits n) xs" unfolding xs_def by (rule kept_fit)
  note t = worker_forward_sides(1) [OF assms(3,4) f, of _ "padding_id tk", folded b, unfolded worker_forward_def]
  note s = worker_forward_sides(2) [OF assms(5,6) f, of _ "padding_id tk", folded b, unfolded worker_forward_def]
  have zips: "length (concat (map (response_logits lm_t \<circ> teacher_side) xs)) = length (concat (map (response_logits lm_s \<circ> student_side) xs))
      \<and> zip (concat (map (response_logits lm_t \<circ> teacher_side) xs)) (concat (map (response_logits lm_s \<circ> student_side) xs))
      = concat (map (\<lambda>(t, s, r). map (\<lambda>k. (lm_t (t @ take k r), lm_s (s @ take k r))) [0..<length r]) xs)"
  proof (induction xs)
    case (Cons x xs)
    have "zip (map f ks) (map g ks) = map (\<lambda>k. (f k, g k)) ks" for f g and ks :: "nat list" by (induction ks) simp_all
    then show ?case using Cons by (cases x) (simp add: response_logits_def teacher_side_def student_side_def)
  qed simp
  show ?thesis using t [of True] t [of False] s [of True] s [of False] zips unfolding xs_def by simp
qed

text \<open>Running a function of the prefix at every position is causal in both forms.\<close>

definition echo_padded :: "(nat list \<Rightarrow> 'v) \<Rightarrow> 'v padded_model" where
  "echo_padded lm ids attention positions = map (row_logits lm) ids"

definition echo_packed :: "(nat list \<Rightarrow> 'v) \<Rightarrow> 'v packed_model" where
  "echo_packed lm ids positions = map (\<lambda>i. lm (take (Suc (positions ! i)) (drop (i - positions ! i) ids))) [0..<length ids]"

lemma echo_padded_causal: "causal_padded lm (echo_padded lm)"
proof -
  have "take a (row_logits lm ids) = row_logits lm (take a ids)" for a and ids :: "nat list"
    by (rule nth_equalityI) (simp_all add: row_logits_def)
  then show ?thesis by (auto simp: causal_padded_def echo_padded_def list_all2_map2 list_all2_same) (simp add: row_logits_def)
qed

lemma echo_packed_snoc:
  assumes "list_all2 (\<lambda>i p. p \<le> i) [0..<length ids] positions"
  shows "echo_packed lm (ids @ s) (positions @ [0..<length s]) = echo_packed lm ids positions @ row_logits lm s"
proof -
  have len: "length positions = length ids" using assms by (simp add: list_all2_conv_all_nth)
  have small: "positions ! i \<le> i" if "i < length ids" for i using assms that by (simp add: list_all2_conv_all_nth)
  show ?thesis
  proof (rule nth_equalityI)
    show "length (echo_packed lm (ids @ s) (positions @ [0..<length s])) = length (echo_packed lm ids positions @ row_logits lm s)"
      by (simp add: echo_packed_def row_logits_def)
    fix i assume "i < length (echo_packed lm (ids @ s) (positions @ [0..<length s]))"
    then have i: "i < length ids + length s" by (simp add: echo_packed_def)
    show "echo_packed lm (ids @ s) (positions @ [0..<length s]) ! i = (echo_packed lm ids positions @ row_logits lm s) ! i"
    proof (cases "i < length ids")
      case True
      then show ?thesis using i len small [OF True] by (simp add: echo_packed_def nth_append)
    next
      case False
      then have "i - length ids < length s" using i by simp
      then have "[0..<length s] ! (i - length ids) = i - length ids" by simp
      then show ?thesis using i len False by (simp add: echo_packed_def nth_append row_logits_def)
    qed
  qed
qed

lemma echo_packed_causal: "causal_packed lm (echo_packed lm)"
proof -
  have "list_all2 (\<lambda>i p. p \<le> i) [0..<length (concat seqs)] (concat (map (\<lambda>s. [0..<length s]) seqs))
      \<and> echo_packed lm (concat seqs) (concat (map (\<lambda>s. [0..<length s]) seqs)) = concat (map (row_logits lm) seqs)" for seqs :: "nat list list"
  proof (induction seqs rule: rev_induct)
    case (snoc s seqs)
    let ?ids = "concat seqs" and ?pos = "concat (map (\<lambda>s. [0..<length s]) seqs)"
    have "list_all2 (\<lambda>i p. p \<le> i) [0..<length (?ids @ s)] (?pos @ [0..<length s])"
      using snoc by (auto simp: list_all2_conv_all_nth nth_append)
    then show ?case using snoc echo_packed_snoc [of ?ids ?pos lm s] by simp
  qed (simp add: echo_packed_def)
  then show ?thesis unfolding causal_packed_def by blast
qed

definition demo_tokenizer :: crisp_tokenizer where
  "demo_tokenizer = \<lparr> pad_id = None, eos_id = 0, chat_prompt = (\<lambda>s. [7, length s]), encode_text = (\<lambda>s. [length s, 5]) \<rparr>"

lemma demo_prompts: "prompts_nonempty demo_tokenizer"
  by (simp add: prompts_nonempty_def demo_tokenizer_def)

lemma opsd_logits_are_aligned_witness:
  "\<exists>batch. build_opsd_batch [''abc''] [''a''] [''xy''] demo_tokenizer 8 = Some batch
    \<and> zip (forward_logits_padded (echo_padded (\<lambda>x. x)) (map fst batch)) (forward_logits_unpadded (echo_packed (\<lambda>x. x)) (map snd batch))
      = [([7, 3], [7, 1]), ([7, 3, 2], [7, 1, 2]), ([7, 3, 2, 5], [7, 1, 2, 5])]"
proof -
  have k: "kept_triples [''abc''] [''a''] [''xy''] demo_tokenizer 8 = [([7, 3], [7, 1], [2, 5, 0])]"
    by (simp add: kept_triples_def sample_triple_def demo_tokenizer_def response_tokens_def triple_fits_def pair_fits_def teacher_side_def student_side_def)
  obtain batch where b: "build_opsd_batch [''abc''] [''a''] [''xy''] demo_tokenizer 8 = Some batch"
    using build_opsd_batch_eq [OF demo_prompts] k by simp
  note aligned = opsd_logits_are_aligned [OF demo_prompts b echo_padded_causal [of "\<lambda>x. x"] echo_packed_causal [of "\<lambda>x. x"] echo_padded_causal [of "\<lambda>x. x"] echo_packed_causal [of "\<lambda>x. x"], unfolded k]
  have "[0..<length [2, 5, 0 :: nat]] = [0, 1, 2]" by (simp add: upt_rec)
  then have "concat (map (\<lambda>(t, s, r). map (\<lambda>k. (t @ take k r, s @ take k r)) [0..<length r]) [([7, 3], [7, 1], [2, 5, 0 :: nat])])
      = [([7, 3], [7, 1]), ([7, 3, 2], [7, 1, 2]), ([7, 3, 2, 5], [7, 1, 2, 5])]"
    by (simp add: numeral_2_eq_2)
  then show ?thesis using aligned b by auto
qed

end
