(* ===== verification/CrispLoss.thy ===== *)
theory CrispLoss
  imports Prelude
begin

text \<open>
  The divergence losses of the CRISP worker (\<open>workspace/src/self_distill_hybrid/opsd_worker.py\<close>): the
  Jensen-Shannon loss and the reverse KL loss, each in a plain and in a log-space implementation,
  and the two entropies.  A row of logits is a list of reals over the vocabulary, a batch a list of
  rows; floating-point rounding and the gradients are not modelled.
\<close>

section \<open>Rows\<close>

definition logsumexp :: "real list \<Rightarrow> real" where
  "logsumexp xs = ln (sum_list (map exp xs))"

definition log_softmax :: "real list \<Rightarrow> real list" where
  "log_softmax xs = map (\<lambda>x. x - logsumexp xs) xs"

section \<open>Chunks of tokens\<close>

text \<open>\<open>for start in range(0, n, chunk_size)\<close> with the slices \<open>[start:min(start + chunk_size, n)]\<close>.\<close>

definition chunked_sum :: "nat \<Rightarrow> (real list \<Rightarrow> real list \<Rightarrow> real) \<Rightarrow> real list list \<Rightarrow> real list list \<Rightarrow> real" where
  "chunked_sum c f ts ss = sum_list (map (\<lambda>start.
     let stop = min (start + c) (length ts) in sum_list (map2 f (slice start stop ts) (slice start stop ss))) (range_step (length ts) c))"

text \<open>\<open>teacher_logits.split(chunk_size)\<close>, then the student's rows of the same length at \<open>i * chunk_size\<close>.\<close>

definition split_chunks :: "nat \<Rightarrow> 'a list \<Rightarrow> 'a list list" where
  "split_chunks c xs = map (\<lambda>start. slice start (start + c) xs) (range_step (length xs) c)"

definition split_sum :: "nat \<Rightarrow> (real list \<Rightarrow> real list \<Rightarrow> real) \<Rightarrow> real list list \<Rightarrow> real list list \<Rightarrow> real" where
  "split_sum c f ts ss = sum_list (map (\<lambda>(i, chunk).
     sum_list (map2 f chunk (slice (i * c) (i * c + length chunk) ss))) (enumerate 0 (split_chunks c ts)))"

section \<open>The losses\<close>

definition jsd_token :: "real \<Rightarrow> real list \<Rightarrow> real list \<Rightarrow> real" where
  "jsd_token beta t s =
     (let tl = log_softmax t; sl = log_softmax s; tp = map exp tl; sp = map exp sl;
          ml = map2 (\<lambda>p q. ln (max (1 / 10 ^ 8) (beta * p + (1 - beta) * q))) tp sp;
          kl_t = sum_list (map2 (*) tp (map2 (-) tl ml)); kl_s = sum_list (map2 (*) sp (map2 (-) sl ml)) in
      beta * kl_t + (1 - beta) * kl_s)"

definition compute_jsd_loss :: "real \<Rightarrow> nat \<Rightarrow> real list list \<Rightarrow> real list list \<Rightarrow> real \<times> nat" where
  "compute_jsd_loss beta chunk_size ts ss =
     (if length ts = 0 then (0, 0) else (chunked_sum chunk_size (jsd_token beta) ts ss / of_nat (length ts), length ts))"

text \<open>
  The mixture in log space.  A weight of zero is the logarithm minus infinity in the code, whose
  exponential adds nothing to the sum: here the entry is absent.
\<close>

definition log_weight :: "bool \<Rightarrow> real \<Rightarrow> real option" where
  "log_weight present w = (if present then Some (ln w) else None)"

definition mixture_entry :: "real option \<Rightarrow> real option \<Rightarrow> real \<Rightarrow> real \<Rightarrow> real" where
  "mixture_entry wt ws x y = logsumexp ((case wt of None \<Rightarrow> [] | Some w \<Rightarrow> [x + w]) @ (case ws of None \<Rightarrow> [] | Some w \<Rightarrow> [y + w]))"

text \<open>\<open>F.kl_div(input, target, reduction="none", log_target=True).sum(dim=-1)\<close>\<close>

definition kl_div_row :: "real list \<Rightarrow> real list \<Rightarrow> real" where
  "kl_div_row inp target = sum_list (map2 (\<lambda>i t. exp t * (t - i)) inp target)"

definition jsd_token_liger :: "real \<Rightarrow> real list \<Rightarrow> real list \<Rightarrow> real" where
  "jsd_token_liger beta t s =
     (let tl = log_softmax t; sl = log_softmax s;
          lm = map2 (mixture_entry (log_weight (0 < beta) beta) (log_weight (beta < 1) (1 - beta))) tl sl in
      beta * kl_div_row lm tl + (1 - beta) * kl_div_row lm sl)"

definition compute_jsd_loss_liger :: "real \<Rightarrow> nat \<Rightarrow> real list list \<Rightarrow> real list list \<Rightarrow> real \<times> nat" where
  "compute_jsd_loss_liger beta chunk_size ts ss =
     (if length ts = 0 then (0, 0) else (split_sum chunk_size (jsd_token_liger beta) ts ss / of_nat (length ts), length ts))"

definition reverse_kl_token :: "real list \<Rightarrow> real list \<Rightarrow> real" where
  "reverse_kl_token t s =
     (let tl = log_softmax t; sl = log_softmax s; sp = map exp sl in sum_list (map2 (*) sp (map2 (-) sl tl)))"

definition compute_reverse_kl_loss :: "nat \<Rightarrow> real list list \<Rightarrow> real list list \<Rightarrow> real \<times> nat" where
  "compute_reverse_kl_loss chunk_size ts ss =
     (if length ts = 0 then (0, 0) else (chunked_sum chunk_size reverse_kl_token ts ss / of_nat (length ts), length ts))"

definition reverse_kl_token_liger :: "real list \<Rightarrow> real list \<Rightarrow> real" where
  "reverse_kl_token_liger t s = kl_div_row (log_softmax t) (log_softmax s)"

definition compute_reverse_kl_loss_liger :: "nat \<Rightarrow> real list list \<Rightarrow> real list list \<Rightarrow> real \<times> nat" where
  "compute_reverse_kl_loss_liger chunk_size ts ss =
     (if length ts = 0 then (0, 0) else (split_sum chunk_size reverse_kl_token_liger ts ss / of_nat (length ts), length ts))"

text \<open>The entropies sum over one side only; the rows of the other side are carried along.\<close>

definition entropy_token :: "real list \<Rightarrow> real" where
  "entropy_token x = (let lp = log_softmax x in - sum_list (map2 (*) (map exp lp) lp))"

definition compute_entropy :: "nat \<Rightarrow> real list list \<Rightarrow> real list list \<Rightarrow> real \<times> real" where
  "compute_entropy chunk_size ss ts =
     (if length ss = 0 then (0, 0)
      else (chunked_sum chunk_size (\<lambda>s t. entropy_token s) ss ts / of_nat (length ss),
            chunked_sum chunk_size (\<lambda>s t. entropy_token t) ss ts / of_nat (length ss)))"

section \<open>Chunking does not matter\<close>

lemma slice_map2: "map2 f (slice a b xs) (slice a b ys) = slice a b (map2 f xs ys)"
  by (simp add: slice_def take_zip drop_zip take_map drop_map)

lemma slice_add: "slice a (a + c) xs = take c (drop a xs)"
  by (simp add: slice_def)

lemma concat_windows: "concat (map (\<lambda>i. take c (drop (i * c) xs)) [0..<k]) = take (k * c) xs"
proof (induction k)
  case (Suc k)
  have "take (k * c + c) xs = take (k * c) xs @ take c (drop (k * c) xs)" by (rule take_add)
  then show ?case using Suc by (simp add: add.commute)
qed simp

lemma chunks_cover:
  assumes "0 < (c::nat)"
  shows "n \<le> (n + c - 1) div c * c"
proof -
  have "(n + c - 1) mod c < c" using assms by simp
  moreover have "n + c - 1 = (n + c - 1) div c * c + (n + c - 1) mod c" by simp
  ultimately show ?thesis using assms by linarith
qed

lemma sum_list_concat_map: "sum_list (concat xss) = sum_list (map sum_list xss)" for xss :: "real list list"
  by (induction xss) simp_all

lemma sum_of_slices:
  fixes xs :: "real list"
  assumes "0 < c"
  shows "sum_list (map (\<lambda>start. sum_list (take c (drop start xs))) (range_step (length xs) c)) = sum_list xs"
proof -
  have "sum_list (map (\<lambda>start. sum_list (take c (drop start xs))) (range_step (length xs) c))
      = sum_list (concat (map (\<lambda>i. take c (drop (i * c) xs)) [0..<(length xs + c - 1) div c]))"
    by (simp add: range_step_def sum_list_concat_map comp_def)
  also have "\<dots> = sum_list xs" unfolding concat_windows using chunks_cover [OF assms, of "length xs"] by simp
  finally show ?thesis .
qed

lemma slice_stop: "slice a (min (a + c) (length xs)) xs = take c (drop a xs)"
  by (cases "a \<le> length xs") (auto simp: slice_def min_def)

lemma chunked_sum_eq:
  assumes "0 < c" "length ts = length ss"
  shows "chunked_sum c f ts ss = sum_list (map2 f ts ss)"
proof -
  have "length (map2 f ts ss) = length ts" using assms(2) by simp
  note s = sum_of_slices [OF assms(1), of "map2 f ts ss", unfolded this]
  have "sum_list (map2 f (slice a (min (a + c) (length ts)) ts) (slice a (min (a + c) (length ts)) ss))
      = sum_list (take c (drop a (map2 f ts ss)))" for a
    unfolding slice_map2 using slice_stop [of a c "map2 f ts ss"] assms(2) by simp
  then show ?thesis unfolding chunked_sum_def Let_def using s by simp
qed

lemma split_sum_eq:
  assumes "0 < c" "length ts = length ss"
  shows "split_sum c f ts ss = sum_list (map2 f ts ss)"
proof -
  have len: "length (map2 f ts ss) = length ts" using assms(2) by simp
  have part: "map2 f (take c (drop a ts)) (slice a (a + min (length ts - a) c) ss) = take c (drop a (map2 f ts ss))" for a
    using assms(2) by (simp add: slice_add take_map drop_map drop_zip take_zip min_def)
  have "enumerate 0 (split_chunks c ts)
      = map (\<lambda>i. (i, take c (drop (i * c) ts))) [0..<(length ts + c - 1) div c]"
    by (simp add: split_chunks_def range_step_def enumerate_eq_zip zip_map2 zip_same_conv_map slice_add comp_def)
  then have "split_sum c f ts ss = sum_list (map (\<lambda>i. sum_list (take c (drop (i * c) (map2 f ts ss)))) [0..<(length ts + c - 1) div c])"
    by (simp add: split_sum_def comp_def part)
  also have "\<dots> = sum_list (map2 f ts ss)"
    using sum_of_slices [OF assms(1), of "map2 f ts ss", unfolded len range_step_def] by (simp add: comp_def)
  finally show ?thesis .
qed

section \<open>Softmax\<close>

lemma sum_list_map2: "length xs = length ys \<Longrightarrow> sum_list (map2 f xs ys) = (\<Sum>v<length xs. f (xs ! v) (ys ! v))" for f :: "real \<Rightarrow> real \<Rightarrow> real"
  by (simp add: sum_list_sum_nth atLeast0LessThan)

lemma exp_sum_pos: "xs \<noteq> [] \<Longrightarrow> 0 < sum_list (map exp xs)" for xs :: "real list"
proof (induction xs)
  case (Cons x xs)
  then show ?case by (cases xs) (simp_all add: add_pos_pos)
qed simp

text \<open>The probability the softmax of a row gives to entry \<open>v\<close>.\<close>

definition prob :: "real list \<Rightarrow> nat \<Rightarrow> real" where
  "prob xs v = exp (log_softmax xs ! v)"

lemma length_log_softmax [simp]: "length (log_softmax xs) = length xs"
  by (simp add: log_softmax_def)

lemma prob_pos [simp]: "0 < prob xs v"
  by (simp add: prob_def)

lemma ln_prob [simp]: "ln (prob xs v) = log_softmax xs ! v"
  by (simp add: prob_def)

lemma prob_eq: "v < length xs \<Longrightarrow> prob xs v = exp (xs ! v) / sum_list (map exp xs)"
proof -
  assume v: "v < length xs"
  then have "xs \<noteq> []" by auto
  then show ?thesis using v exp_sum_pos [of xs] by (simp add: prob_def log_softmax_def logsumexp_def exp_diff)
qed

lemma prob_sum: "xs \<noteq> [] \<Longrightarrow> (\<Sum>v<length xs. prob xs v) = 1"
proof -
  assume xs: "xs \<noteq> []"
  have "(\<Sum>v<length xs. prob xs v) = (\<Sum>v<length xs. exp (xs ! v)) / sum_list (map exp xs)"
    by (simp add: prob_eq sum_divide_distrib)
  also have "(\<Sum>v<length xs. exp (xs ! v)) = sum_list (map exp xs)" by (simp add: sum_list_sum_nth atLeast0LessThan)
  finally show ?thesis using exp_sum_pos [OF xs] by simp
qed

lemma prob_le_one:
  assumes "v < length xs"
  shows "prob xs v \<le> 1"
proof -
  have "xs \<noteq> []" using assms by auto
  moreover have "prob xs v \<le> (\<Sum>v<length xs. prob xs v)" using assms by (intro member_le_sum) (auto intro: less_imp_le)
  ultimately show ?thesis using prob_sum by simp
qed

section \<open>Relative entropy\<close>

definition relative_entropy :: "nat \<Rightarrow> (nat \<Rightarrow> real) \<Rightarrow> (nat \<Rightarrow> real) \<Rightarrow> real" where
  "relative_entropy n p q = (\<Sum>v<n. p v * (ln (p v) - ln (q v)))"

lemma gibbs_term:
  fixes p q :: real
  assumes "0 < p" "0 < q"
  shows "p - q \<le> p * (ln p - ln q)" and "p * (ln p - ln q) = p - q \<Longrightarrow> p = q"
proof -
  have l: "ln (q / p) \<le> q / p - 1" using assms by (intro ln_le_minus_one) simp
  have e: "ln p - ln q = - ln (q / p)" using assms by (simp add: ln_div)
  have "p * ln (q / p) \<le> p * (q / p - 1)" using l assms(1) by (intro mult_left_mono) simp_all
  also have "p * (q / p - 1) = q - p" using assms(1) by (simp add: field_simps)
  finally show "p - q \<le> p * (ln p - ln q)" unfolding e by simp
  show "p = q" if "p * (ln p - ln q) = p - q"
  proof -
    have "p * (q / p - 1) = q - p" using assms(1) by (simp add: field_simps)
    then have "p * ln (q / p) = p * (q / p - 1)" using that unfolding e by simp
    then have "ln (q / p) = q / p - 1" using assms(1) by simp
    then have "q / p = 1" using assms by (intro ln_eq_minus_one) simp_all
    then show "p = q" using assms(1) by simp
  qed
qed

lemma relative_entropy_nonneg:
  assumes "\<And>v. v < n \<Longrightarrow> 0 < p v \<and> 0 < q v" "(\<Sum>v<n. p v) = 1" "(\<Sum>v<n. q v) \<le> 1"
  shows "0 \<le> relative_entropy n p q"
proof -
  have "(\<Sum>v<n. p v - q v) \<le> relative_entropy n p q"
    unfolding relative_entropy_def using assms(1) gibbs_term(1) by (intro sum_mono) simp
  then show ?thesis using assms(2,3) by (simp add: sum_subtractf)
qed

lemma relative_entropy_zero:
  assumes pos: "\<And>v. v < n \<Longrightarrow> 0 < p v \<and> 0 < q v" and "(\<Sum>v<n. p v) = 1" "(\<Sum>v<n. q v) = 1" "relative_entropy n p q = 0" "v < n"
  shows "p v = q v"
proof -
  have "(\<Sum>v<n. p v * (ln (p v) - ln (q v)) - (p v - q v)) = 0"
    using assms(2-4) by (simp add: relative_entropy_def sum_subtractf)
  moreover have "0 \<le> p v * (ln (p v) - ln (q v)) - (p v - q v)" if "v < n" for v
    using gibbs_term(1) [of "p v" "q v"] pos [OF that] by simp
  ultimately have "p v * (ln (p v) - ln (q v)) - (p v - q v) = 0" using assms(5) by (subst (asm) sum_nonneg_eq_0_iff) auto
  then show ?thesis using gibbs_term(2) [of "p v" "q v"] pos [OF assms(5)] by simp
qed

section \<open>What the implementations compute\<close>

lemma reverse_kl_token_eq:
  assumes "length t = length s"
  shows "reverse_kl_token t s = relative_entropy (length s) (prob s) (prob t)"
  using assms by (simp add: reverse_kl_token_def Let_def sum_list_sum_nth atLeast0LessThan relative_entropy_def)
    (simp add: prob_def)

lemma reverse_kl_token_liger_eq:
  assumes "length t = length s"
  shows "reverse_kl_token_liger t s = relative_entropy (length s) (prob s) (prob t)"
  using assms by (simp add: reverse_kl_token_liger_def kl_div_row_def sum_list_sum_nth atLeast0LessThan relative_entropy_def)
    (simp add: prob_def)

lemma entropy_token_eq: "entropy_token x = - (\<Sum>v<length x. prob x v * ln (prob x v))"
  by (simp add: entropy_token_def Let_def sum_list_sum_nth atLeast0LessThan) (simp add: prob_def)

definition mixture :: "real \<Rightarrow> real list \<Rightarrow> real list \<Rightarrow> nat \<Rightarrow> real" where
  "mixture beta t s v = beta * prob t v + (1 - beta) * prob s v"

definition js_divergence :: "real \<Rightarrow> real list \<Rightarrow> real list \<Rightarrow> real" where
  "js_divergence beta t s = beta * relative_entropy (length s) (prob t) (mixture beta t s)
     + (1 - beta) * relative_entropy (length s) (prob s) (mixture beta t s)"

lemma mixture_pos:
  assumes "0 \<le> beta" "beta \<le> 1"
  shows "0 < mixture beta t s v"
proof (cases "beta = 0")
  case False
  then have "0 < beta * prob t v" using assms(1) by simp
  moreover have "0 \<le> (1 - beta) * prob s v" using assms(2) by (simp add: less_imp_le)
  ultimately show ?thesis by (simp add: mixture_def)
qed (simp add: mixture_def)

lemma mixture_sum:
  assumes "length t = length s" "s \<noteq> []"
  shows "(\<Sum>v<length s. mixture beta t s v) = 1"
proof -
  have "t \<noteq> []" using assms by auto
  have "(\<Sum>v<length s. mixture beta t s v) = beta * (\<Sum>v<length t. prob t v) + (1 - beta) * (\<Sum>v<length s. prob s v)"
    by (simp add: mixture_def sum.distrib sum_distrib_left assms(1))
  then show ?thesis using prob_sum [OF \<open>t \<noteq> []\<close>] prob_sum [OF assms(2)] by simp
qed

lemma mixture_entry_eq:
  assumes "0 \<le> beta" "beta \<le> 1"
  shows "mixture_entry (log_weight (0 < beta) beta) (log_weight (beta < 1) (1 - beta)) (log_softmax t ! v) (log_softmax s ! v)
    = ln (mixture beta t s v)"
  using assms by (auto simp: mixture_entry_def log_weight_def logsumexp_def mixture_def exp_add prob_def mult.commute)

lemma jsd_token_liger_eq:
  assumes "length t = length s" "0 \<le> beta" "beta \<le> 1"
  shows "jsd_token_liger beta t s = js_divergence beta t s"
  using assms(1) by (simp add: jsd_token_liger_def Let_def kl_div_row_def sum_list_sum_nth atLeast0LessThan mixture_entry_eq [OF assms(2,3)]
      js_divergence_def relative_entropy_def) (simp add: prob_def)

lemma jsd_token_eq:
  assumes len: "length t = length s" and clamp: "\<And>v. v < length s \<Longrightarrow> 1 / 10 ^ 8 \<le> mixture beta t s v"
  shows "jsd_token beta t s = js_divergence beta t s"
proof -
  have "map2 (\<lambda>p q. ln (max (1 / 10 ^ 8) (beta * p + (1 - beta) * q))) (map exp (log_softmax t)) (map exp (log_softmax s))
      = map (\<lambda>v. ln (mixture beta t s v)) [0..<length s]"
    by (rule nth_equalityI) (use assms in \<open>auto simp: mixture_def prob_def max_def\<close>)
  then have "jsd_token beta t s
      = beta * (\<Sum>v<length s. exp (log_softmax t ! v) * (log_softmax t ! v - ln (mixture beta t s v)))
        + (1 - beta) * (\<Sum>v<length s. exp (log_softmax s ! v) * (log_softmax s ! v - ln (mixture beta t s v)))"
    unfolding jsd_token_def Let_def using len by (simp only:) (simp add: sum_list_sum_nth atLeast0LessThan)
  then show ?thesis by (simp add: js_divergence_def relative_entropy_def) (simp add: prob_def)
qed

lemma relative_entropy_mixture:
  assumes "0 < w" "\<And>v. v < n \<Longrightarrow> 0 < p v \<and> w * p v \<le> m v" "(\<Sum>v<n. p v) = 1"
  shows "relative_entropy n p m \<le> - ln w"
proof -
  have "p v * (ln (p v) - ln (m v)) \<le> p v * (- ln w)" if "v < n" for v
  proof -
    have "0 < w * p v" using assms(1,2) that by simp
    then have "ln (w * p v) \<le> ln (m v)" using assms(2) [OF that] by (intro ln_mono) linarith+
    moreover have "ln (w * p v) = ln w + ln (p v)" using assms(1) assms(2) [OF that] by (intro ln_mult_pos) simp_all
    ultimately have "ln (p v) - ln (m v) \<le> - ln w" by simp
    then show ?thesis using assms(2) [OF that] by (intro mult_left_mono) simp_all
  qed
  then have "relative_entropy n p m \<le> (\<Sum>v<n. p v * (- ln w))" unfolding relative_entropy_def by (intro sum_mono) simp
  also have "\<dots> = - ln w" unfolding sum_distrib_right [symmetric] assms(3) by simp
  finally show ?thesis .
qed

text \<open>The entropy of the two weights.\<close>

definition weight_entropy :: "real \<Rightarrow> real" where
  "weight_entropy beta = - (if beta = 0 then 0 else beta * ln beta) - (if beta = 1 then 0 else (1 - beta) * ln (1 - beta))"

lemma js_divergence_bounds:
  assumes "length t = length s" "s \<noteq> []" "0 \<le> beta" "beta \<le> 1"
  shows "0 \<le> js_divergence beta t s" and "js_divergence beta t s \<le> weight_entropy beta"
proof -
  have t: "(\<Sum>v<length s. prob t v) = 1" using prob_sum [of t] assms(1,2) by force
  have pos: "0 < mixture beta t s v" for v using mixture_pos [OF assms(3,4)] .
  have nn: "0 \<le> relative_entropy (length s) (prob t) (mixture beta t s)" "0 \<le> relative_entropy (length s) (prob s) (mixture beta t s)"
    using t prob_sum [OF assms(2)] mixture_sum [OF assms(1,2)] pos by (auto intro!: relative_entropy_nonneg)
  then show "0 \<le> js_divergence beta t s" using assms(3,4) by (simp add: js_divergence_def)
  have "beta * relative_entropy (length s) (prob t) (mixture beta t s) \<le> - (if beta = 0 then 0 else beta * ln beta)"
  proof (cases "beta = 0")
    case False
    have "relative_entropy (length s) (prob t) (mixture beta t s) \<le> - ln beta"
      by (rule relative_entropy_mixture) (use False assms t in \<open>auto simp: mixture_def less_imp_le\<close>)
    then have "beta * relative_entropy (length s) (prob t) (mixture beta t s) \<le> beta * (- ln beta)"
      using assms(3) by (rule mult_left_mono)
    then show ?thesis using False by simp
  qed simp
  moreover have "(1 - beta) * relative_entropy (length s) (prob s) (mixture beta t s) \<le> - (if beta = 1 then 0 else (1 - beta) * ln (1 - beta))"
  proof (cases "beta = 1")
    case False
    have "relative_entropy (length s) (prob s) (mixture beta t s) \<le> - ln (1 - beta)"
      by (rule relative_entropy_mixture) (use False assms prob_sum [OF assms(2)] in \<open>auto simp: mixture_def less_imp_le\<close>)
    then have "(1 - beta) * relative_entropy (length s) (prob s) (mixture beta t s) \<le> (1 - beta) * (- ln (1 - beta))"
      using assms(4) by (intro mult_left_mono) simp_all
    then show ?thesis using False by simp
  qed simp
  ultimately show "js_divergence beta t s \<le> weight_entropy beta" by (simp add: js_divergence_def weight_entropy_def)
qed

text \<open>
  With the clamp the mixture sums to at most \<open>1 + v / 10 ^ 8\<close>, so the plain loss of a token may fall below zero by that much.
\<close>

lemma relative_entropy_clamped:
  assumes "\<And>v. v < n \<Longrightarrow> 0 < p v \<and> 0 < m v" "(\<Sum>v<n. p v) = 1" "(\<Sum>v<n. m v) = 1"
  shows "- (of_nat n / 10 ^ 8) \<le> relative_entropy n p (\<lambda>v. max (1 / 10 ^ 8) (m v))"
    and "relative_entropy n p (\<lambda>v. max (1 / 10 ^ 8) (m v)) \<le> relative_entropy n p m"
proof -
  let ?m = "\<lambda>v. max (1 / 10 ^ 8) (m v)"
  have pos: "0 < ?m v" for v by (simp add: less_max_iff_disj)
  have "?m v \<le> m v + 1 / 10 ^ 8" if "v < n" for v using assms(1) [OF that] by auto
  then have "(\<Sum>v<n. ?m v) \<le> (\<Sum>v<n. m v + 1 / 10 ^ 8)" by (intro sum_mono) auto
  then have "(\<Sum>v<n. ?m v) \<le> 1 + of_nat n / 10 ^ 8" using assms(3) by (simp add: sum.distrib)
  moreover have "(\<Sum>v<n. p v - ?m v) \<le> relative_entropy n p ?m"
    unfolding relative_entropy_def using assms(1) gibbs_term(1) pos by (intro sum_mono) simp
  ultimately show "- (of_nat n / 10 ^ 8) \<le> relative_entropy n p ?m" using assms(2) by (simp add: sum_subtractf)
  have "p v * (ln (p v) - ln (?m v)) \<le> p v * (ln (p v) - ln (m v))" if "v < n" for v
  proof -
    have "ln (m v) \<le> ln (?m v)" using assms(1) [OF that] by (intro ln_mono) auto
    then show ?thesis using assms(1) [OF that] by (intro mult_left_mono) simp_all
  qed
  then show "relative_entropy n p ?m \<le> relative_entropy n p m" unfolding relative_entropy_def by (intro sum_mono) simp
qed

lemma jsd_token_bounds:
  assumes len: "length t = length s" "s \<noteq> []" and beta: "0 \<le> beta" "beta \<le> 1"
  shows "- (of_nat (length s) / 10 ^ 8) \<le> jsd_token beta t s" and "jsd_token beta t s \<le> weight_entropy beta"
proof -
  let ?n = "length s" let ?m = "\<lambda>v. max (1 / 10 ^ 8) (mixture beta t s v)"
  have t: "(\<Sum>v<?n. prob t v) = 1" using prob_sum [of t] len by force
  have "map2 (\<lambda>p q. ln (max (1 / 10 ^ 8) (beta * p + (1 - beta) * q))) (map exp (log_softmax t)) (map exp (log_softmax s))
      = map (\<lambda>v. ln (?m v)) [0..<?n]"
    by (rule nth_equalityI) (use len in \<open>auto simp: mixture_def prob_def\<close>)
  then have "jsd_token beta t s
      = beta * (\<Sum>v<?n. exp (log_softmax t ! v) * (log_softmax t ! v - ln (?m v)))
        + (1 - beta) * (\<Sum>v<?n. exp (log_softmax s ! v) * (log_softmax s ! v - ln (?m v)))"
    unfolding jsd_token_def Let_def using len by (simp only:) (simp add: sum_list_sum_nth atLeast0LessThan)
  then have e: "jsd_token beta t s = beta * relative_entropy ?n (prob t) ?m + (1 - beta) * relative_entropy ?n (prob s) ?m"
    by (simp add: relative_entropy_def) (simp add: prob_def)
  note ct = relative_entropy_clamped [of ?n "prob t" "mixture beta t s", OF _ t mixture_sum [OF len]]
  note cs = relative_entropy_clamped [of ?n "prob s" "mixture beta t s", OF _ prob_sum [OF len(2)] mixture_sum [OF len]]
  have b: "- (of_nat ?n / 10 ^ 8) \<le> relative_entropy ?n (prob t) ?m" "- (of_nat ?n / 10 ^ 8) \<le> relative_entropy ?n (prob s) ?m"
    "relative_entropy ?n (prob t) ?m \<le> relative_entropy ?n (prob t) (mixture beta t s)"
    "relative_entropy ?n (prob s) ?m \<le> relative_entropy ?n (prob s) (mixture beta t s)"
    using ct cs mixture_pos [OF beta] by simp_all
  have "beta * - (of_nat ?n / 10 ^ 8) \<le> beta * relative_entropy ?n (prob t) ?m"
    "(1 - beta) * - (of_nat ?n / 10 ^ 8) \<le> (1 - beta) * relative_entropy ?n (prob s) ?m"
    using mult_left_mono [OF b(1) beta(1)] mult_left_mono [OF b(2), of "1 - beta"] beta(2) by simp_all
  moreover have "beta * - (of_nat ?n / 10 ^ 8) + (1 - beta) * - (of_nat ?n / 10 ^ 8) = - (of_nat ?n / (10 ^ 8 :: real))"
    by (simp add: algebra_simps)
  ultimately show "- (of_nat ?n / 10 ^ 8) \<le> jsd_token beta t s" unfolding e by linarith
  have "beta * relative_entropy ?n (prob t) ?m \<le> beta * relative_entropy ?n (prob t) (mixture beta t s)"
    "(1 - beta) * relative_entropy ?n (prob s) ?m \<le> (1 - beta) * relative_entropy ?n (prob s) (mixture beta t s)"
    using b(3,4) beta by (auto intro: mult_left_mono)
  then have "jsd_token beta t s \<le> js_divergence beta t s" unfolding e js_divergence_def by linarith
  then show "jsd_token beta t s \<le> weight_entropy beta" using js_divergence_bounds(2) [OF len beta] by linarith
qed

section \<open>The losses of a batch\<close>

text \<open>Teacher and student give one row per token, over the same non-empty vocabulary.\<close>

definition rows_ok :: "real list list \<Rightarrow> real list list \<Rightarrow> bool" where
  "rows_ok ts ss \<longleftrightarrow> list_all2 (\<lambda>t s. length t = length s \<and> s \<noteq> []) ts ss"

lemma rows_okD: "rows_ok ts ss \<Longrightarrow> length ts = length ss"
    "rows_ok ts ss \<Longrightarrow> (t, s) \<in> set (zip ts ss) \<Longrightarrow> length t = length s \<and> s \<noteq> []"
  by (auto simp: rows_ok_def list_all2_iff)

lemma map2_tokens_cong:
  assumes "\<And>t s. (t, s) \<in> set (zip ts ss) \<Longrightarrow> f t s = g t s"
  shows "sum_list (map2 f ts ss) = sum_list (map2 g ts ss)"
  using assms by (intro arg_cong [where f = sum_list] map_cong) auto

lemma sum_tokens_bounds:
  fixes f :: "real list \<Rightarrow> real list \<Rightarrow> real"
  assumes "length ts = length ss" "\<And>t s. (t, s) \<in> set (zip ts ss) \<Longrightarrow> 0 \<le> f t s \<and> f t s \<le> b"
  shows "0 \<le> sum_list (map2 f ts ss)" and "sum_list (map2 f ts ss) \<le> of_nat (length ts) * b"
proof -
  show "0 \<le> sum_list (map2 f ts ss)" using assms(2) by (intro sum_list_nonneg) auto
  have "sum_list (map2 f ts ss) \<le> sum_list (map2 (\<lambda>t s. b) ts ss)"
    using assms(2) by (intro sum_list_mono) auto
  also have "\<dots> = of_nat (length ts) * b" using assms(1) by (simp add: sum_list_triv split_def)
  finally show "sum_list (map2 f ts ss) \<le> of_nat (length ts) * b" .
qed

text \<open>
  C20: The plain and the log-space Jensen-Shannon loss agree, whatever their chunk sizes, on every
  batch on which the plain one does not clamp: both return the mean Jensen-Shannon divergence over the tokens and the number of tokens.
\<close>

theorem jsd_implementations_agree:
  assumes "0 \<le> beta" "beta \<le> 1" "rows_ok ts ss" "0 < c" "0 < c'"
    and "\<And>t s v. (t, s) \<in> set (zip ts ss) \<Longrightarrow> v < length s \<Longrightarrow> 1 / 10 ^ 8 \<le> mixture beta t s v"
  shows "compute_jsd_loss beta c ts ss = compute_jsd_loss_liger beta c' ts ss
    \<and> compute_jsd_loss beta c ts ss = (sum_list (map2 (js_divergence beta) ts ss) / of_nat (length ts), length ts)"
proof -
  note len = rows_okD(1) [OF assms(3)]
  have "sum_list (map2 (jsd_token beta) ts ss) = sum_list (map2 (js_divergence beta) ts ss)"
    by (rule map2_tokens_cong, rule jsd_token_eq) (use rows_okD(2) [OF assms(3)] assms(6) in blast)+
  moreover have "sum_list (map2 (jsd_token_liger beta) ts ss) = sum_list (map2 (js_divergence beta) ts ss)"
    by (rule map2_tokens_cong, rule jsd_token_liger_eq) (use rows_okD(2) [OF assms(3)] assms(1,2) in blast)+
  ultimately show ?thesis
    unfolding compute_jsd_loss_def compute_jsd_loss_liger_def chunked_sum_eq [OF assms(4) len] split_sum_eq [OF assms(5) len] by simp
qed

lemma zero_rows_mixture: "beta = 1 / 2 \<Longrightarrow> v < 2 \<Longrightarrow> mixture beta [0, 0] [0, 0] v = 1 / 2"
  by (auto simp: mixture_def prob_eq less_2_cases_iff)

lemma jsd_implementations_agree_witness:
  "compute_jsd_loss (1 / 2) 128 [[0, 0]] [[0, 0]] = compute_jsd_loss_liger (1 / 2) 64 [[0, 0]] [[0, 0]]"
  by (rule conjunct1 [OF jsd_implementations_agree]) (auto simp: rows_ok_def zero_rows_mixture)

text \<open>
  The log-space Jensen-Shannon loss of a non-empty batch lies between zero and the entropy of its two weights.
\<close>

theorem jsd_loss_bounds:
  assumes "0 \<le> beta" "beta \<le> 1" "rows_ok ts ss" "0 < c" "ts \<noteq> []"
  shows "0 \<le> fst (compute_jsd_loss_liger beta c ts ss) \<and> fst (compute_jsd_loss_liger beta c ts ss) \<le> weight_entropy beta"
proof -
  note len = rows_okD(1) [OF assms(3)]
  have "0 \<le> jsd_token_liger beta t s \<and> jsd_token_liger beta t s \<le> weight_entropy beta" if "(t, s) \<in> set (zip ts ss)" for t s
    using js_divergence_bounds [of t s beta] jsd_token_liger_eq [of t s beta] rows_okD(2) [OF assms(3) that] assms(1,2) by simp
  note b = sum_tokens_bounds [OF len this]
  have "0 < real (length ts)" using assms(5) by simp
  then show ?thesis using b assms(5)
    by (simp add: compute_jsd_loss_liger_def split_sum_eq [OF assms(4) len] pos_divide_le_eq mult.commute)
qed

lemma jsd_loss_bounds_witness: "fst (compute_jsd_loss_liger 1 64 [[0, 1]] [[1, 0]]) \<le> 0"
  using jsd_loss_bounds [of 1 "[[0, 1]]" "[[1, 0]]" 64] by (simp add: rows_ok_def weight_entropy_def)

text \<open>Both implementations stay within the entropy of the weights, the plain one up to its clamp.\<close>

lemma sum_tokens_within:
  fixes f :: "real list \<Rightarrow> real list \<Rightarrow> real"
  assumes "length ts = length ss" "\<And>t s. (t, s) \<in> set (zip ts ss) \<Longrightarrow> a \<le> f t s \<and> f t s \<le> b" "ts \<noteq> []"
  shows "a \<le> sum_list (map2 f ts ss) / of_nat (length ts)" and "sum_list (map2 f ts ss) / of_nat (length ts) \<le> b"
proof -
  have "sum_list (map2 (\<lambda>t s. a) ts ss) \<le> sum_list (map2 f ts ss)" "sum_list (map2 f ts ss) \<le> sum_list (map2 (\<lambda>t s. b) ts ss)"
    using assms(2) by (auto intro!: sum_list_mono)
  then have "of_nat (length ts) * a \<le> sum_list (map2 f ts ss)" "sum_list (map2 f ts ss) \<le> of_nat (length ts) * b"
    using assms(1) by (simp_all add: sum_list_triv split_def)
  then show "a \<le> sum_list (map2 f ts ss) / of_nat (length ts)" "sum_list (map2 f ts ss) / of_nat (length ts) \<le> b"
    using assms(3) by (simp_all add: pos_divide_le_eq pos_le_divide_eq mult.commute)
qed

lemma jsd_losses_within:
  assumes "0 \<le> beta" "beta \<le> 1" "rows_ok ts ss" "0 < c" "ts \<noteq> []" "\<And>s. s \<in> set ss \<Longrightarrow> length s = v"
  shows "- (of_nat v / 10 ^ 8) \<le> fst (compute_jsd_loss beta c ts ss) \<and> fst (compute_jsd_loss beta c ts ss) \<le> weight_entropy beta"
    and "- (of_nat v / 10 ^ 8) \<le> fst (compute_jsd_loss_liger beta c ts ss) \<and> fst (compute_jsd_loss_liger beta c ts ss) \<le> weight_entropy beta"
proof -
  note len = rows_okD(1) [OF assms(3)]
  have plain: "- (of_nat v / 10 ^ 8) \<le> jsd_token beta t s \<and> jsd_token beta t s \<le> weight_entropy beta"
    if "(t, s) \<in> set (zip ts ss)" for t s
    using jsd_token_bounds [of t s beta] rows_okD(2) [OF assms(3) that] assms(1,2) assms(6) [of s] set_zip_rightD [OF that] by simp
  have liger: "- (of_nat v / 10 ^ 8) \<le> jsd_token_liger beta t s \<and> jsd_token_liger beta t s \<le> weight_entropy beta"
    if "(t, s) \<in> set (zip ts ss)" for t s
  proof -
    have "0 \<le> jsd_token_liger beta t s" "jsd_token_liger beta t s \<le> weight_entropy beta"
      using js_divergence_bounds [of t s beta] jsd_token_liger_eq [of t s beta] rows_okD(2) [OF assms(3) that] assms(1,2) by simp_all
    moreover have "- (of_nat v / 10 ^ 8) \<le> (0 :: real)" by simp
    ultimately show ?thesis by linarith
  qed
  show "- (of_nat v / 10 ^ 8) \<le> fst (compute_jsd_loss beta c ts ss) \<and> fst (compute_jsd_loss beta c ts ss) \<le> weight_entropy beta"
    using sum_tokens_within [OF len plain assms(5)] assms(5) by (simp add: compute_jsd_loss_def chunked_sum_eq [OF assms(4) len])
  show "- (of_nat v / 10 ^ 8) \<le> fst (compute_jsd_loss_liger beta c ts ss) \<and> fst (compute_jsd_loss_liger beta c ts ss) \<le> weight_entropy beta"
    using sum_tokens_within [OF len liger assms(5)] assms(5) by (simp add: compute_jsd_loss_liger_def split_sum_eq [OF assms(4) len])
qed

definition mean_reverse_kl :: "real list list \<Rightarrow> real list list \<Rightarrow> real" where
  "mean_reverse_kl ts ss = sum_list (map2 (\<lambda>t s. relative_entropy (length s) (prob s) (prob t)) ts ss) / of_nat (length ts)"

lemma compute_reverse_kl_eq:
  assumes "rows_ok ts ss" "0 < c"
  shows "compute_reverse_kl_loss c ts ss = (mean_reverse_kl ts ss, length ts)"
    and "compute_reverse_kl_loss_liger c ts ss = (mean_reverse_kl ts ss, length ts)"
proof -
  note len = rows_okD(1) [OF assms(1)]
  let ?kl = "\<lambda>t s. relative_entropy (length s) (prob s) (prob t)"
  have "sum_list (map2 reverse_kl_token ts ss) = sum_list (map2 ?kl ts ss)" "sum_list (map2 reverse_kl_token_liger ts ss) = sum_list (map2 ?kl ts ss)"
    using rows_okD(2) [OF assms(1)] by (auto intro!: map2_tokens_cong reverse_kl_token_eq reverse_kl_token_liger_eq)
  then show "compute_reverse_kl_loss c ts ss = (mean_reverse_kl ts ss, length ts)"
    "compute_reverse_kl_loss_liger c ts ss = (mean_reverse_kl ts ss, length ts)"
    by (simp_all add: compute_reverse_kl_loss_def compute_reverse_kl_loss_liger_def mean_reverse_kl_def
        chunked_sum_eq [OF assms(2) len] split_sum_eq [OF assms(2) len])
qed

lemma row_probs:
  assumes "rows_ok ts ss" "(t, s) \<in> set (zip ts ss)"
  shows "(\<Sum>v<length s. prob s v) = 1" and "(\<Sum>v<length s. prob t v) = 1"
proof -
  have l: "length t = length s" "s \<noteq> []" using rows_okD(2) [OF assms] by auto
  then have "t \<noteq> []" by auto
  then show "(\<Sum>v<length s. prob s v) = 1" "(\<Sum>v<length s. prob t v) = 1" using prob_sum [of s] prob_sum [of t] l by simp_all
qed

lemma mean_reverse_kl_nonneg:
  assumes "rows_ok ts ss"
  shows "0 \<le> mean_reverse_kl ts ss"
proof -
  have "0 \<le> relative_entropy (length s) (prob s) (prob t)" if "(t, s) \<in> set (zip ts ss)" for t s
    using row_probs [OF assms that] by (intro relative_entropy_nonneg) simp_all
  then have "0 \<le> sum_list (map2 (\<lambda>t s. relative_entropy (length s) (prob s) (prob t)) ts ss)" by (intro sum_list_nonneg) auto
  then show ?thesis by (simp add: mean_reverse_kl_def)
qed

lemma mean_reverse_kl_zero:
  assumes "rows_ok ts ss" "ts \<noteq> []"
  shows "mean_reverse_kl ts ss = 0 \<longleftrightarrow> (\<forall>k < length ts. \<forall>v < length (ss ! k). prob (ts ! k) v = prob (ss ! k) v)"
proof -
  note len = rows_okD(1) [OF assms(1)]
  let ?kl = "\<lambda>t s. relative_entropy (length s) (prob s) (prob t)"
  have nn: "0 \<le> ?kl t s" if "(t, s) \<in> set (zip ts ss)" for t s
    using row_probs [OF assms(1) that] by (intro relative_entropy_nonneg) simp_all
  have zero: "?kl t s = 0 \<longleftrightarrow> (\<forall>v < length s. prob t v = prob s v)" if "(t, s) \<in> set (zip ts ss)" for t s
  proof
    assume "?kl t s = 0"
    then have "prob s v = prob t v" if "v < length s" for v
      using relative_entropy_zero [of "length s" "prob s" "prob t" v] row_probs [OF assms(1) \<open>(t, s) \<in> set (zip ts ss)\<close>] that by simp
    then show "\<forall>v < length s. prob t v = prob s v" by simp
  next
    assume "\<forall>v < length s. prob t v = prob s v"
    then show "?kl t s = 0" unfolding relative_entropy_def by (intro sum.neutral) (simp del: ln_prob)
  qed
  have "sum_list (map2 ?kl ts ss) = 0 \<longleftrightarrow> (\<forall>x \<in> set (map2 ?kl ts ss). x = 0)"
    using nn by (intro sum_list_nonneg_eq_0_iff) auto
  also have "\<dots> \<longleftrightarrow> (\<forall>k < length ts. ?kl (ts ! k) (ss ! k) = 0)"
    unfolding all_set_conv_all_nth using len by simp
  also have "\<dots> \<longleftrightarrow> (\<forall>k < length ts. \<forall>v < length (ss ! k). prob (ts ! k) v = prob (ss ! k) v)"
  proof -
    have "?kl (ts ! k) (ss ! k) = 0 \<longleftrightarrow> (\<forall>v < length (ss ! k). prob (ts ! k) v = prob (ss ! k) v)" if "k < length ts" for k
      using that len by (intro zero) (auto simp: set_zip)
    then show ?thesis by blast
  qed
  finally have z: "sum_list (map2 ?kl ts ss) = 0 \<longleftrightarrow> (\<forall>k < length ts. \<forall>v < length (ss ! k). prob (ts ! k) v = prob (ss ! k) v)" .
  then show ?thesis using assms(2) by (simp add: mean_reverse_kl_def)
qed

text \<open>
  C6: Both implementations of the reverse KL loss return the same number on every non-empty batch,
  whatever their chunk sizes: never negative, and zero exactly when teacher and student give every
  token of the vocabulary the same probability at every position.
\<close>

theorem reverse_kl_implementations_agree:
  assumes "rows_ok ts ss" "0 < c" "0 < c'" "ts \<noteq> []"
  shows "compute_reverse_kl_loss c ts ss = compute_reverse_kl_loss_liger c' ts ss
    \<and> snd (compute_reverse_kl_loss c ts ss) = length ts \<and> 0 \<le> fst (compute_reverse_kl_loss c ts ss)
    \<and> (fst (compute_reverse_kl_loss c ts ss) = 0 \<longleftrightarrow> (\<forall>k < length ts. \<forall>v < length (ss ! k). prob (ts ! k) v = prob (ss ! k) v))"
  using compute_reverse_kl_eq [OF assms(1)] assms(2,3) mean_reverse_kl_nonneg [OF assms(1)] mean_reverse_kl_zero [OF assms(1,4)] by simp

lemma reverse_kl_implementations_agree_witness:
  "compute_reverse_kl_loss 128 [[0, 1], [2, 3]] [[0, 0], [1, 1]] = compute_reverse_kl_loss_liger 64 [[0, 1], [2, 3]] [[0, 0], [1, 1]]"
  by (rule conjunct1 [OF reverse_kl_implementations_agree]) (simp_all add: rows_ok_def)

text \<open>The mean entropies of a batch lie between zero and the logarithm of the vocabulary's size.\<close>

lemma entropy_token_bounds:
  assumes "x \<noteq> []"
  shows "0 \<le> entropy_token x" and "entropy_token x \<le> ln (length x)"
proof -
  have "prob x v * ln (prob x v) \<le> 0" if "v < length x" for v
    using prob_le_one [OF that] by (intro mult_nonneg_nonpos) (simp_all add: less_imp_le ln_le_zero_iff del: ln_prob)
  then have "(\<Sum>v<length x. prob x v * ln (prob x v)) \<le> 0" by (intro sum_nonpos) simp
  then show "0 \<le> entropy_token x" by (simp add: entropy_token_eq del: ln_prob)
  let ?n = "real (length x)"
  have n: "0 < ?n" using assms by simp
  have "0 \<le> relative_entropy (length x) (prob x) (\<lambda>v. 1 / ?n)"
    using prob_sum [OF assms] n by (intro relative_entropy_nonneg) simp_all
  also have "relative_entropy (length x) (prob x) (\<lambda>v. 1 / ?n) = (\<Sum>v<length x. prob x v * ln (prob x v)) + (\<Sum>v<length x. prob x v) * ln ?n"
    using n by (simp add: relative_entropy_def ln_div right_diff_distrib distrib_left sum.distrib sum_subtractf sum_distrib_right del: ln_prob)
  finally show "entropy_token x \<le> ln (length x)" using prob_sum [OF assms] by (simp add: entropy_token_eq del: ln_prob)
qed

end
