(* ===== verification/CrispTrain.thy ===== *)
theory CrispTrain
  imports CrispBatch CrispLoss
begin

text \<open>
  Training in CRISP: the worker's step over micro-batches (\<open>opsd_worker.py\<close>), the update the trainer
  dispatches to the data-parallel ranks, and its training loop (\<open>opsd_trainer.py\<close>).  Gradients are
  represented by the losses handed to the backward pass; clipping and the optimizer are not modelled.
\<close>

section \<open>One step of a worker\<close>

definition loss_of :: "bool \<Rightarrow> string \<Rightarrow> real \<Rightarrow> real list list \<Rightarrow> real list list \<Rightarrow> (real \<times> nat) res" where
  "loss_of use_liger loss_type beta ts ss =
     (if loss_type = ''jsd'' then Inr (if use_liger then compute_jsd_loss_liger beta 64 ts ss else compute_jsd_loss beta 128 ts ss)
      else if loss_type = ''reverse_kl'' then Inr (if use_liger then compute_reverse_kl_loss_liger 64 ts ss else compute_reverse_kl_loss 128 ts ss)
      else Inl ValueError)"

record step_totals =
  total_loss :: real
  total_tokens :: nat
  total_student_entropy :: real
  total_teacher_entropy :: real
  total_entropy_tokens :: nat
  backward_losses :: "real list"

record step_metrics =
  opsd_loss :: real
  num_tokens :: nat
  student_entropy :: real
  teacher_entropy :: real
  backward_total :: real

record worker_config =
  use_remove_padding :: bool
  use_liger :: bool
  micro_batch_size :: nat
  opsd_beta :: real
  opsd_loss_type :: string

type_synonym logit_row = "real list"

definition micro_step :: "worker_config \<Rightarrow> (seq_row list \<Rightarrow> logit_row list) \<Rightarrow> (seq_row list \<Rightarrow> logit_row list) \<Rightarrow> nat
    \<Rightarrow> (seq_row \<times> seq_row) list \<Rightarrow> step_totals \<Rightarrow> step_totals res" where
  "micro_step cfg teacher student grad_accum mb acc =
     (let ts = teacher (map fst mb); ss = student (map snd mb); n_resp = length ts in
      if length ts \<noteq> length ss then Inl AssertionError
      else if n_resp = 0 then Inr acc
      else rbind (loss_of (use_liger cfg) (opsd_loss_type cfg) (opsd_beta cfg) ts ss) (\<lambda>(loss, n).
        let (s_ent, t_ent) = compute_entropy (if use_liger cfg then 64 else 128) ss ts in
        Inr (acc\<lparr> total_loss := total_loss acc + loss, total_tokens := total_tokens acc + n,
                 total_student_entropy := total_student_entropy acc + s_ent * of_nat n_resp,
                 total_teacher_entropy := total_teacher_entropy acc + t_ent * of_nat n_resp,
                 total_entropy_tokens := total_entropy_tokens acc + n_resp,
                 backward_losses := backward_losses acc @ [loss / of_nat grad_accum] \<rparr>)))"

fun micro_loop :: "worker_config \<Rightarrow> (seq_row list \<Rightarrow> logit_row list) \<Rightarrow> (seq_row list \<Rightarrow> logit_row list) \<Rightarrow> nat
    \<Rightarrow> (seq_row \<times> seq_row) list list \<Rightarrow> step_totals \<Rightarrow> step_totals res" where
  "micro_loop cfg teacher student grad_accum [] acc = Inr acc"
| "micro_loop cfg teacher student grad_accum (mb # mbs) acc =
     rbind (micro_step cfg teacher student grad_accum mb acc) (micro_loop cfg teacher student grad_accum mbs)"

definition opsd_training_step :: "worker_config \<Rightarrow> (seq_row list \<Rightarrow> logit_row list) \<Rightarrow> (seq_row list \<Rightarrow> logit_row list)
    \<Rightarrow> (seq_row \<times> seq_row) list \<Rightarrow> step_metrics res" where
  "opsd_training_step cfg teacher student batch =
     (if batch = [] then Inr \<lparr> opsd_loss = 0, num_tokens = 0, student_entropy = 0, teacher_entropy = 0, backward_total = 0 \<rparr>
      else (let mbs = split_chunks (micro_batch_size cfg) batch; n = length mbs in
        rbind (micro_loop cfg teacher student (max 1 n) mbs \<lparr> total_loss = 0, total_tokens = 0, total_student_entropy = 0,
            total_teacher_entropy = 0, total_entropy_tokens = 0, backward_losses = [] \<rparr>)
          (\<lambda>t. Inr \<lparr> opsd_loss = total_loss t / of_nat (max 1 n), num_tokens = total_tokens t,
                 student_entropy = total_student_entropy t / of_nat (max 1 (total_entropy_tokens t)),
                 teacher_entropy = total_teacher_entropy t / of_nat (max 1 (total_entropy_tokens t)),
                 backward_total = sum_list (backward_losses t) \<rparr>)))"

section \<open>One update of the trainer\<close>

text \<open>\<open>max(1, total_gpus // int(sp))\<close>\<close>

definition dp_world :: "nat \<Rightarrow> nat \<Rightarrow> nat res" where
  "dp_world total_gpus sp = (if sp = 0 then Inl ZeroDivisionError else Inr (max 1 (total_gpus div sp)))"

definition pad_to_ranks :: "nat \<Rightarrow> 'a list \<Rightarrow> 'a list" where
  "pad_to_ranks n_dp batch =
     (if length batch mod n_dp \<noteq> 0
      then (let pad_to = (length batch div n_dp + 1) * n_dp in batch @ replicate (pad_to - length batch) (last batch))
      else batch)"

text \<open>
  \<open>update_opsd\<close> of the worker group: verl's dispatcher cuts the batch into one part per place on the data-parallel axis of
  the actor's mesh, and every part goes to one worker.  The dispatcher is a parameter.
\<close>

type_synonym dispatcher = "(seq_row \<times> seq_row) list \<Rightarrow> (seq_row \<times> seq_row) list list res"

definition opsd_update :: "worker_config \<Rightarrow> dispatcher \<Rightarrow> nat \<Rightarrow> (seq_row list \<Rightarrow> logit_row list) \<Rightarrow> (seq_row list \<Rightarrow> logit_row list)
    \<Rightarrow> string list \<Rightarrow> string list \<Rightarrow> string list \<Rightarrow> crisp_tokenizer \<Rightarrow> nat \<Rightarrow> step_metrics list res" where
  "opsd_update cfg dispatch n_dp teacher student sd_prompts sft_prompts responses tk max_length =
     (case build_opsd_batch sd_prompts sft_prompts responses tk max_length of
        None \<Rightarrow> Inr []
      | Some batch \<Rightarrow> rbind (dispatch (pad_to_ranks n_dp batch)) (\<lambda>parts.
          res_all (map (opsd_training_step cfg teacher student) parts)))"

text \<open>
  What the trainer relies on: along an axis of \<open>d\<close> places a batch of a multiple of \<open>d\<close> rows is cut into \<open>d\<close> equal parts
  in order, and any other batch is refused (\<open>only support equal chunk\<close>).
\<close>

definition equal_chunks :: "nat \<Rightarrow> ('a list \<Rightarrow> 'a list list res) \<Rightarrow> bool" where
  "equal_chunks d dispatch \<longleftrightarrow> (\<forall>batch. if length batch mod d = 0
     then \<exists>parts. dispatch batch = Inr parts \<and> length parts = d \<and> concat parts = batch \<and> (\<forall>p\<in>set parts. length p = length batch div d)
     else dispatch batch = Inl AssertionError)"

section \<open>Padding to the ranks\<close>

lemma pad_to_ranks_divides:
  assumes "0 < n_dp"
  shows "length (pad_to_ranks n_dp batch) mod n_dp = 0"
proof (cases "length batch mod n_dp = 0")
  case False
  have "length batch div n_dp * n_dp + length batch mod n_dp = length batch" by simp
  moreover have "length batch mod n_dp < n_dp" using assms by simp
  ultimately have "length batch \<le> (length batch div n_dp + 1) * n_dp" unfolding distrib_right by linarith
  then have "length (pad_to_ranks n_dp batch) = (length batch div n_dp + 1) * n_dp" using False by (simp add: pad_to_ranks_def Let_def)
  then show ?thesis by (metis mod_mult_self2_is_0)
qed (simp add: pad_to_ranks_def)

lemma pad_to_ranks_map: "batch \<noteq> [] \<Longrightarrow> pad_to_ranks n (map f batch) = map f (pad_to_ranks n batch)"
  by (simp add: pad_to_ranks_def Let_def last_map)

lemma set_pad_to_ranks: "batch \<noteq> [] \<Longrightarrow> set (pad_to_ranks n batch) = set batch"
  by (auto simp: pad_to_ranks_def Let_def)

section \<open>A step never fails\<close>

lemma entropy_sum_bounds:
  fixes ys :: "real list list"
  assumes "\<And>x. x \<in> set xs \<Longrightarrow> length x = v" "0 < v" "length ys = length xs"
  shows "0 \<le> sum_list (map2 (\<lambda>x y. entropy_token x) xs ys)" and "sum_list (map2 (\<lambda>x y. entropy_token x) xs ys) \<le> of_nat (length xs) * ln v"
proof -
  have "0 \<le> entropy_token x \<and> entropy_token x \<le> ln v" if "x \<in> set xs" for x
  proof -
    have "x \<noteq> []" using assms(1) [OF that] assms(2) by auto
    then show ?thesis using entropy_token_bounds [of x] assms(1) [OF that] by simp
  qed
  then show "0 \<le> sum_list (map2 (\<lambda>x y. entropy_token x) xs ys)" "sum_list (map2 (\<lambda>x y. entropy_token x) xs ys) \<le> of_nat (length xs) * ln v"
    using sum_tokens_bounds [of xs ys "\<lambda>x y. entropy_token x" "ln v"] assms(3) by (auto dest: set_zip_leftD)
qed

lemma compute_entropy_bounds:
  assumes "\<And>x. x \<in> set ss \<union> set ts \<Longrightarrow> length x = v" "0 < v" "length ss = length ts" "0 < c" "compute_entropy c ss ts = (a, b)"
  shows "0 \<le> a * of_nat (length ts) \<and> a * of_nat (length ts) \<le> of_nat (length ts) * ln v
    \<and> 0 \<le> b * of_nat (length ts) \<and> b * of_nat (length ts) \<le> of_nat (length ts) * ln v"
proof (cases "ts = []")
  case False
  have flip: "sum_list (map2 (\<lambda>s t. entropy_token t) ss ts) = sum_list (map2 (\<lambda>x y. entropy_token x) ts ss)"
    by (subst zip_commute) (simp add: comp_def split_def)
  have "a * of_nat (length ts) = sum_list (map2 (\<lambda>x y. entropy_token x) ss ts)"
    "b * of_nat (length ts) = sum_list (map2 (\<lambda>x y. entropy_token x) ts ss)"
    using assms(5) False assms(3) by (auto simp: compute_entropy_def chunked_sum_eq [OF assms(4,3)] flip)
  then show ?thesis using entropy_sum_bounds [of ss v ts] entropy_sum_bounds [of ts v ss] assms(1-3) by simp
qed simp

definition response_count :: "triple list \<Rightarrow> nat" where
  "response_count xs = sum_list (map (\<lambda>x. length (snd (snd x))) xs)"

text \<open>Two models over the same non-empty vocabulary, run by either forward path.\<close>

definition models_ok :: "nat \<Rightarrow> (nat list \<Rightarrow> logit_row) \<Rightarrow> (nat list \<Rightarrow> logit_row) \<Rightarrow> bool" where
  "models_ok v lm_t lm_s \<longleftrightarrow> 0 < v \<and> (\<forall>ids. length (lm_t ids) = v \<and> length (lm_s ids) = v)"

definition forwards_ok :: "(nat list \<Rightarrow> logit_row) \<Rightarrow> (seq_row list \<Rightarrow> logit_row list) \<Rightarrow> (nat list \<Rightarrow> logit_row) \<Rightarrow> (seq_row list \<Rightarrow> logit_row list) \<Rightarrow> bool" where
  "forwards_ok lm_t teacher lm_s student \<longleftrightarrow> (\<forall>n pad xs. list_all (triple_fits n) xs \<longrightarrow>
     teacher (map fst (map (pair_of n pad) xs)) = concat (map (response_logits lm_t \<circ> teacher_side) xs)
     \<and> student (map snd (map (pair_of n pad) xs)) = concat (map (response_logits lm_s \<circ> student_side) xs))"

lemma forwards_okI:
  assumes "causal_padded lm_t t_padded" "causal_packed lm_t t_packed" "causal_padded lm_s s_padded" "causal_packed lm_s s_packed"
  shows "forwards_ok lm_t (worker_forward u t_padded t_packed) lm_s (worker_forward u s_padded s_packed)"
  unfolding forwards_ok_def using worker_forward_sides(1) [OF assms(1,2)] worker_forward_sides(2) [OF assms(3,4)] by blast

lemma side_lengths:
  "length (concat (map (response_logits lm \<circ> teacher_side) xs)) = response_count xs"
  "length (concat (map (response_logits lm \<circ> student_side) xs)) = response_count xs"
  by (simp_all add: length_concat response_count_def response_logits_def teacher_side_def student_side_def comp_def)

lemma side_rows:
  assumes "models_ok v lm_t lm_s"
  shows "x \<in> set (concat (map (response_logits lm_t \<circ> teacher_side) xs)) \<Longrightarrow> length x = v"
    and "x \<in> set (concat (map (response_logits lm_s \<circ> student_side) xs)) \<Longrightarrow> length x = v"
  using assms by (auto simp: models_ok_def response_logits_def)

lemma response_count_pos: "xs \<noteq> [] \<Longrightarrow> list_all (triple_fits n) xs \<Longrightarrow> 0 < response_count xs"
  by (cases xs) (auto simp: response_count_def triple_fits_def pair_fits_def student_side_def)

text \<open>The Jensen-Shannon loss with a weight from the unit interval, as its bounds need it.\<close>

definition jsd_weighted :: "worker_config \<Rightarrow> bool" where
  "jsd_weighted cfg \<longleftrightarrow> opsd_loss_type cfg = ''jsd'' \<and> 0 \<le> opsd_beta cfg \<and> opsd_beta cfg \<le> 1"

text \<open>What holds of the totals after \<open>j\<close> micro-batches with \<open>k\<close> response tokens.\<close>

definition totals_ok :: "worker_config \<Rightarrow> nat \<Rightarrow> nat \<Rightarrow> nat \<Rightarrow> nat \<Rightarrow> step_totals \<Rightarrow> bool" where
  "totals_ok cfg v ga j k t \<longleftrightarrow> total_tokens t = k \<and> total_entropy_tokens t = k
     \<and> sum_list (backward_losses t) = total_loss t / of_nat ga
     \<and> 0 \<le> total_student_entropy t \<and> total_student_entropy t \<le> of_nat k * ln v
     \<and> 0 \<le> total_teacher_entropy t \<and> total_teacher_entropy t \<le> of_nat k * ln v
     \<and> (opsd_loss_type cfg = ''reverse_kl'' \<longrightarrow> 0 \<le> total_loss t)
     \<and> (jsd_weighted cfg \<longrightarrow> of_nat j * - (of_nat v / 10 ^ 8) \<le> total_loss t \<and> total_loss t \<le> of_nat j * weight_entropy (opsd_beta cfg))"

lemma micro_step_ok:
  assumes fw: "forwards_ok lm_t teacher lm_s student" and mo: "models_ok v lm_t lm_s" and fit: "list_all (triple_fits n) xs" "xs \<noteq> []"
    and cfg: "opsd_loss_type cfg = ''jsd'' \<or> opsd_loss_type cfg = ''reverse_kl''" and t: "totals_ok cfg v ga j k t" and ga: "0 < ga"
  shows "\<exists>t'. micro_step cfg teacher student ga (map (pair_of n pad) xs) t = Inr t' \<and> totals_ok cfg v ga (Suc j) (k + response_count xs) t'"
proof -
  define ts where "ts = concat (map (response_logits lm_t \<circ> teacher_side) xs)"
  define ss where "ss = concat (map (response_logits lm_s \<circ> student_side) xs)"
  have e: "teacher (map fst (map (pair_of n pad) xs)) = ts" "student (map snd (map (pair_of n pad) xs)) = ss"
    using fw fit(1) unfolding forwards_ok_def ts_def ss_def by blast+
  have len: "length ts = response_count xs" "length ss = response_count xs" unfolding ts_def ss_def by (rule side_lengths)+
  have pos: "0 < response_count xs" by (rule response_count_pos [OF fit(2,1)])
  have rows: "length x = v" if "x \<in> set ss \<union> set ts" for x using that side_rows [OF mo] unfolding ts_def ss_def by blast
  have v: "0 < v" using mo by (simp add: models_ok_def)
  have ok: "rows_ok ts ss" unfolding rows_ok_def list_all2_conv_all_nth
    using rows v len by (metis UnCI length_0_conv less_not_refl nth_mem)
  obtain loss where l: "loss_of (use_liger cfg) (opsd_loss_type cfg) (opsd_beta cfg) ts ss = Inr (loss, response_count xs)"
    "opsd_loss_type cfg = ''reverse_kl'' \<longrightarrow> 0 \<le> loss"
    "jsd_weighted cfg \<longrightarrow> - (of_nat v / 10 ^ 8) \<le> loss \<and> loss \<le> weight_entropy (opsd_beta cfg)"
  proof
    show "loss_of (use_liger cfg) (opsd_loss_type cfg) (opsd_beta cfg) ts ss
        = Inr (fst (projr (loss_of (use_liger cfg) (opsd_loss_type cfg) (opsd_beta cfg) ts ss)), response_count xs)"
      using cfg len compute_reverse_kl_eq [OF ok] pos
      by (auto simp: loss_of_def compute_jsd_loss_def compute_jsd_loss_liger_def prod_eq_iff)
    show "opsd_loss_type cfg = ''reverse_kl'' \<longrightarrow> 0 \<le> fst (projr (loss_of (use_liger cfg) (opsd_loss_type cfg) (opsd_beta cfg) ts ss))"
      using compute_reverse_kl_eq [OF ok] mean_reverse_kl_nonneg [OF ok] by (simp add: loss_of_def)
    have "ts \<noteq> []" "\<And>s. s \<in> set ss \<Longrightarrow> length s = v" using len pos rows by auto
    then show "jsd_weighted cfg \<longrightarrow> - (of_nat v / 10 ^ 8) \<le> fst (projr (loss_of (use_liger cfg) (opsd_loss_type cfg) (opsd_beta cfg) ts ss))
        \<and> fst (projr (loss_of (use_liger cfg) (opsd_loss_type cfg) (opsd_beta cfg) ts ss)) \<le> weight_entropy (opsd_beta cfg)"
      using jsd_losses_within [OF _ _ ok] unfolding jsd_weighted_def by (simp add: loss_of_def)
  qed
  obtain a b where en: "compute_entropy (if use_liger cfg then 64 else 128) ss ts = (a, b)" by fastforce
  have ent: "0 \<le> a * of_nat (response_count xs) \<and> a * of_nat (response_count xs) \<le> of_nat (response_count xs) * ln v
      \<and> 0 \<le> b * of_nat (response_count xs) \<and> b * of_nat (response_count xs) \<le> of_nat (response_count xs) * ln v"
    using compute_entropy_bounds [OF rows v _ _ en] len by simp
  define t' where "t' = t\<lparr> total_loss := total_loss t + loss, total_tokens := total_tokens t + response_count xs,
     total_student_entropy := total_student_entropy t + a * of_nat (response_count xs),
     total_teacher_entropy := total_teacher_entropy t + b * of_nat (response_count xs),
     total_entropy_tokens := total_entropy_tokens t + response_count xs,
     backward_losses := backward_losses t @ [loss / of_nat ga] \<rparr>"
  have step: "micro_step cfg teacher student ga (map (pair_of n pad) xs) t = Inr t'"
    unfolding micro_step_def Let_def e len using l(1) en pos by (simp add: t'_def)
  have "of_nat (k + response_count xs) * ln (real v) = of_nat k * ln v + of_nat (response_count xs) * ln v" by (simp add: distrib_right)
  moreover have "jsd_weighted cfg \<Longrightarrow> of_nat (Suc j) * - (real v / 10 ^ 8) \<le> total_loss t + loss \<and> total_loss t + loss \<le> of_nat (Suc j) * weight_entropy (opsd_beta cfg)"
    using t l(3) unfolding totals_ok_def of_nat_Suc distrib_right by linarith
  ultimately have "totals_ok cfg v ga (Suc j) (k + response_count xs) t'"
    using t l(2) ent unfolding totals_ok_def t'_def by (simp add: add_divide_distrib)
  then show ?thesis using step by blast
qed

lemma micro_loop_ok:
  assumes fw: "forwards_ok lm_t teacher lm_s student" and mo: "models_ok v lm_t lm_s" and ga: "0 < ga"
    and cfg: "opsd_loss_type cfg = ''jsd'' \<or> opsd_loss_type cfg = ''reverse_kl''"
    and fit: "list_all (\<lambda>xs. list_all (triple_fits n) xs \<and> xs \<noteq> []) xss" and t: "totals_ok cfg v ga j k t"
  shows "\<exists>t'. micro_loop cfg teacher student ga (map (map (pair_of n pad)) xss) t = Inr t' \<and> totals_ok cfg v ga (j + length xss) (k + response_count (concat xss)) t'"
  using fit t
proof (induction xss arbitrary: j k t)
  case (Cons xs xss)
  obtain t1 where t1: "micro_step cfg teacher student ga (map (pair_of n pad) xs) t = Inr t1" "totals_ok cfg v ga (Suc j) (k + response_count xs) t1"
    using micro_step_ok [OF fw mo _ _ cfg Cons.prems(2) ga, of n xs pad] Cons.prems(1) by auto
  obtain t2 where "micro_loop cfg teacher student ga (map (map (pair_of n pad)) xss) t1 = Inr t2"
    "totals_ok cfg v ga (Suc j + length xss) (k + response_count xs + response_count (concat xss)) t2"
    using Cons.IH [OF _ t1(2)] Cons.prems(1) by auto
  then show ?case using t1(1) by (simp add: response_count_def add.assoc)
qed (simp add: response_count_def)

lemma concat_split_chunks: "0 < c \<Longrightarrow> concat (split_chunks c xs) = xs"
  using concat_windows [of c xs "(length xs + c - 1) div c"] chunks_cover [of c "length xs"]
  by (simp add: split_chunks_def range_step_def slice_add comp_def)

lemma split_chunks_map: "split_chunks c (map f xs) = map (map f) (split_chunks c xs)"
  by (simp add: split_chunks_def slice_add take_map drop_map)

lemma split_chunks_nonempty:
  assumes "0 < c"
  shows "[] \<notin> set (split_chunks c xs)"
proof -
  have "i * c < length xs" if "i < (length xs + c - 1) div c" for i
  proof -
    have "(i + 1) * c \<le> (length xs + c - 1) div c * c" using that by (intro mult_right_mono) simp_all
    also have "\<dots> \<le> length xs + c - 1" by simp
    finally show ?thesis using assms by simp
  qed
  then have "take c (drop (i * c) xs) \<noteq> []" if "i < (length xs + c - 1) div c" for i using assms that by (simp add: not_le)
  then show ?thesis unfolding split_chunks_def range_step_def slice_add set_map set_upt image_image by (metis (no_types, lifting) atLeastLessThan_iff image_iff)
qed

text \<open>What a step reports on the rows of \<open>xs\<close>.\<close>

definition metrics_ok :: "worker_config \<Rightarrow> nat \<Rightarrow> triple list \<Rightarrow> step_metrics \<Rightarrow> bool" where
  "metrics_ok cfg v xs m \<longleftrightarrow> num_tokens m = response_count xs \<and> backward_total m = opsd_loss m
     \<and> 0 \<le> student_entropy m \<and> student_entropy m \<le> ln v \<and> 0 \<le> teacher_entropy m \<and> teacher_entropy m \<le> ln v
     \<and> (opsd_loss_type cfg = ''reverse_kl'' \<longrightarrow> 0 \<le> opsd_loss m)
     \<and> (jsd_weighted cfg \<longrightarrow> - (of_nat v / 10 ^ 8) \<le> opsd_loss m \<and> opsd_loss m \<le> weight_entropy (opsd_beta cfg))"

lemma training_step_ok:
  assumes fw: "forwards_ok lm_t teacher lm_s student" and mo: "models_ok v lm_t lm_s" and size: "0 < micro_batch_size cfg"
    and cfg: "opsd_loss_type cfg = ''jsd'' \<or> opsd_loss_type cfg = ''reverse_kl''" and fit: "list_all (triple_fits n) xs" "xs \<noteq> []"
  shows "\<exists>m. opsd_training_step cfg teacher student (map (pair_of n pad) xs) = Inr m \<and> metrics_ok cfg v xs m"
proof -
  define xss where "xss = split_chunks (micro_batch_size cfg) xs"
  have cat: "concat xss = xs" unfolding xss_def by (rule concat_split_chunks [OF size])
  then have ne: "0 < length xss" using fit(2) by auto
  have each: "list_all (\<lambda>xs. list_all (triple_fits n) xs \<and> xs \<noteq> []) xss"
    using fit(1) cat split_chunks_nonempty [OF size, of xs] unfolding xss_def [symmetric] by (fastforce simp: list_all_iff)
  define t0 where "t0 = \<lparr> total_loss = 0, total_tokens = 0, total_student_entropy = 0,
            total_teacher_entropy = 0, total_entropy_tokens = 0, backward_losses = [] \<rparr>"
  have "totals_ok cfg v (length xss) 0 0 t0" by (simp add: totals_ok_def t0_def)
  then obtain t where t: "micro_loop cfg teacher student (length xss) (map (map (pair_of n pad)) xss) t0 = Inr t"
    "totals_ok cfg v (length xss) (length xss) (response_count xs) t"
    using micro_loop_ok [OF fw mo ne cfg each] cat by fastforce
  have pos: "0 < response_count xs" by (rule response_count_pos [OF fit(2,1)])
  have mx: "max (Suc 0) (length xss) = length xss" "max (Suc 0) (total_entropy_tokens t) = total_entropy_tokens t"
    using ne pos t(2) unfolding totals_ok_def by linarith+
  have "opsd_training_step cfg teacher student (map (pair_of n pad) xs)
      = Inr \<lparr> opsd_loss = total_loss t / of_nat (length xss), num_tokens = total_tokens t,
             student_entropy = total_student_entropy t / of_nat (total_entropy_tokens t),
             teacher_entropy = total_teacher_entropy t / of_nat (total_entropy_tokens t), backward_total = sum_list (backward_losses t) \<rparr>"
    using fit(2) t(1) t(2) pos ne
    by (simp add: opsd_training_step_def Let_def split_chunks_map xss_def [symmetric] t0_def [symmetric] mx)
  moreover have "total_student_entropy t / of_nat (total_entropy_tokens t) \<le> ln v" "total_teacher_entropy t / of_nat (total_entropy_tokens t) \<le> ln v"
    using t(2) pos by (simp_all add: totals_ok_def pos_divide_le_eq mult.commute)
  moreover have "jsd_weighted cfg \<longrightarrow> - (real v / 10 ^ 8) \<le> total_loss t / of_nat (length xss) \<and> total_loss t / of_nat (length xss) \<le> weight_entropy (opsd_beta cfg)"
    using t(2) ne unfolding totals_ok_def by (auto simp: pos_divide_le_eq pos_le_divide_eq mult.commute)
  ultimately show ?thesis using t(2) by (simp add: metrics_ok_def totals_ok_def)
qed

lemma concat_eq_map:
  assumes "concat qs = map f ys"
  obtains parts where "concat parts = ys" "map (map f) parts = qs"
proof -
  have "\<exists>parts. concat parts = ys \<and> map (map f) parts = qs" using assms
  proof (induction qs arbitrary: ys)
    case (Cons q qs)
    obtain a b where ab: "ys = a @ b" "q = map f a" "concat qs = map f b"
      using Cons.prems by (auto simp: append_eq_map_conv)
    obtain parts where "concat parts = b" "map (map f) parts = qs" using Cons.IH [OF ab(3)] by blast
    then show ?case using ab by (intro exI [of _ "a # parts"]) simp
  qed simp
  then show ?thesis using that by blast
qed

lemma dp_world_mesh:
  assumes "0 < sp" "0 < dp_axis" "gpus = dp_axis * sp"
  shows "dp_world gpus sp = Inr dp_axis"
  using assms by (simp add: dp_world_def)

lemma dispatched_parts:
  assumes "0 < d" "equal_chunks d dispatch" "xs \<noteq> []" "list_all P xs"
  obtains parts where "dispatch (map f (pad_to_ranks d xs)) = Inr (map (map f) parts)" "concat parts = pad_to_ranks d xs"
    "list_all (\<lambda>p. p \<noteq> [] \<and> list_all P p) parts"
proof -
  let ?ys = "pad_to_ranks d xs"
  have m: "length ?ys mod d = 0" by (rule pad_to_ranks_divides [OF assms(1)])
  have ne: "?ys \<noteq> []" using set_pad_to_ranks [OF assms(3), of d] assms(3) by force
  then have q: "0 < length ?ys div d" using m assms(1) by (metis div_greater_zero_iff length_greater_0_conv mod_less neq0_conv not_le)
  obtain qs where p: "dispatch (map f ?ys) = Inr qs" "length qs = d" "concat qs = map f ?ys" "\<forall>p\<in>set qs. length p = length ?ys div d"
    using assms(2) m unfolding equal_chunks_def by (metis length_map)
  obtain parts where parts: "concat parts = ?ys" "map (map f) parts = qs" by (rule concat_eq_map [OF p(3)])
  have "p \<noteq> []" if "p \<in> set parts" for p
  proof -
    have "map f p \<in> set qs" using that unfolding parts(2) [symmetric] by simp
    then have "length p = length ?ys div d" using p(4) by fastforce
    then show ?thesis using q by auto
  qed
  moreover have "list_all P ?ys" using assms(4) set_pad_to_ranks [OF assms(3)] by (simp add: list_all_iff)
  ultimately have all: "list_all (\<lambda>p. p \<noteq> [] \<and> list_all P p) parts" unfolding parts(1) [symmetric] by (auto simp: list_all_iff)
  show ?thesis by (rule that [OF _ parts(1) all]) (simp only: p(1) parts(2))
qed

lemma response_count_concat: "response_count (concat xss) = sum_list (map response_count xss)"
  by (induction xss) (simp_all add: response_count_def)

text \<open>
  C4: An update trains on everything it keeps and never fails: on a mesh whose data-parallel and sequence-parallel
  dimensions make up all GPUs, the divisor that the trainer computes is the data-parallel one, so the padded batch is cut by the
  dispatcher along that axis and no rank's step raises; the ranks together score every
  kept response, and the padding, once; each rank hands exactly its reported loss to the backward pass, its entropies lie within
  the vocabulary's bounds, its reverse KL loss is not negative and its Jensen-Shannon loss lies between zero, up to the clamp,
  and the entropy of the weights.
\<close>

theorem opsd_update_succeeds:
  assumes "prompts_nonempty tk" "models_ok v lm_t lm_s" "0 < micro_batch_size cfg"
    and "causal_padded lm_t t_padded" "causal_packed lm_t t_packed" "causal_padded lm_s s_padded" "causal_packed lm_s s_packed"
    and "opsd_loss_type cfg = ''jsd'' \<or> opsd_loss_type cfg = ''reverse_kl''"
    and "0 < sp" "0 < dp_axis" "gpus = dp_axis * sp" "equal_chunks dp_axis dispatch"
  shows "\<exists>ms. rbind (dp_world gpus sp) (\<lambda>n_dp. opsd_update cfg dispatch n_dp (worker_forward (use_remove_padding cfg) t_padded t_packed)
        (worker_forward (use_remove_padding cfg) s_padded s_packed) sd_prompts sft_prompts responses tk n) = Inr ms
      \<and> sum_list (map num_tokens ms)
        = (if kept_triples sd_prompts sft_prompts responses tk n = [] then 0
           else response_count (pad_to_ranks dp_axis (kept_triples sd_prompts sft_prompts responses tk n)))
      \<and> list_all (\<lambda>m. backward_total m = opsd_loss m \<and> 0 \<le> student_entropy m \<and> student_entropy m \<le> ln v
          \<and> 0 \<le> teacher_entropy m \<and> teacher_entropy m \<le> ln v \<and> (opsd_loss_type cfg = ''reverse_kl'' \<longrightarrow> 0 \<le> opsd_loss m)
          \<and> (jsd_weighted cfg \<longrightarrow> - (of_nat v / 10 ^ 8) \<le> opsd_loss m \<and> opsd_loss m \<le> weight_entropy (opsd_beta cfg))) ms"
proof -
  define xs where "xs = kept_triples sd_prompts sft_prompts responses tk n"
  let ?d = "dp_axis" and ?t = "worker_forward (use_remove_padding cfg) t_padded t_packed" and ?s = "worker_forward (use_remove_padding cfg) s_padded s_packed"
  note fw = forwards_okI [OF assms(4-7), of "use_remove_padding cfg"]
  note mesh = dp_world_mesh [OF assms(9-11)]
  show ?thesis
  proof (cases "xs = []")
    case True
    then show ?thesis using build_opsd_batch_eq [OF assms(1)] by (simp add: opsd_update_def xs_def mesh)
  next
    case False
    have fit: "list_all (triple_fits n) xs" unfolding xs_def by (rule kept_fit)
    let ?pair = "pair_of n (padding_id tk)"
    obtain parts where p: "dispatch (map ?pair (pad_to_ranks ?d xs)) = Inr (map (map ?pair) parts)" "concat parts = pad_to_ranks ?d xs"
      "list_all (\<lambda>p. p \<noteq> [] \<and> list_all (triple_fits n) p) parts"
      by (rule dispatched_parts [OF assms(10,12) False fit])
    define g where "g = (\<lambda>p. projr (opsd_training_step cfg ?t ?s (map ?pair p)))"
    have each: "opsd_training_step cfg ?t ?s (map ?pair p) = Inr (g p) \<and> metrics_ok cfg v p (g p)" if "p \<in> set parts" for p
      using training_step_ok [OF fw assms(2,3,8), of n p "padding_id tk"] p(3) that by (auto simp: list_all_iff g_def)
    have "rbind (dp_world gpus sp) (\<lambda>n_dp. opsd_update cfg dispatch n_dp ?t ?s sd_prompts sft_prompts responses tk n)
        = res_all (map (\<lambda>p. opsd_training_step cfg ?t ?s (map ?pair p)) parts)"
      using False p(1) build_opsd_batch_eq [OF assms(1), of sd_prompts sft_prompts responses n]
      by (simp add: mesh opsd_update_def xs_def [symmetric] pad_to_ranks_map comp_def)
    also have "\<dots> = Inr (map g parts)" using each by (intro res_all_map_Inr) blast
    finally have u: "rbind (dp_world gpus sp) (\<lambda>n_dp. opsd_update cfg dispatch n_dp ?t ?s sd_prompts sft_prompts responses tk n) = Inr (map g parts)" .
    have tokens: "map num_tokens (map g parts) = map response_count parts" using each by (auto simp: metrics_ok_def)
    have "sum_list (map num_tokens (map g parts)) = response_count (pad_to_ranks ?d xs)"
      using response_count_concat [of parts] unfolding tokens p(2) by simp
    moreover have "list_all (\<lambda>m. backward_total m = opsd_loss m \<and> 0 \<le> student_entropy m \<and> student_entropy m \<le> ln v
          \<and> 0 \<le> teacher_entropy m \<and> teacher_entropy m \<le> ln v \<and> (opsd_loss_type cfg = ''reverse_kl'' \<longrightarrow> 0 \<le> opsd_loss m)
          \<and> (jsd_weighted cfg \<longrightarrow> - (of_nat v / 10 ^ 8) \<le> opsd_loss m \<and> opsd_loss m \<le> weight_entropy (opsd_beta cfg))) (map g parts)"
      using each by (auto simp: metrics_ok_def list_all_iff)
    ultimately show ?thesis unfolding xs_def [symmetric] if_not_P [OF False] using u by blast
  qed
qed

definition demo_worker :: worker_config where
  "demo_worker = \<lparr> use_remove_padding = True, use_liger = False, micro_batch_size = 1, opsd_beta = 1 / 2, opsd_loss_type = ''jsd'' \<rparr>"

text \<open>A dispatcher for two places.\<close>

definition halves :: "'a list \<Rightarrow> 'a list list res" where
  "halves batch = (if length batch mod 2 \<noteq> 0 then Inl AssertionError
     else Inr [take (length batch div 2) batch, drop (length batch div 2) batch])"

lemma halves_equal: "equal_chunks 2 halves"
  by (auto simp: equal_chunks_def halves_def)

text \<open>Four GPUs in two sequence-parallel pairs, one kept response, which the padding repeats for the second rank.\<close>

lemma opsd_update_succeeds_witness:
  "\<exists>ms. rbind (dp_world 4 2) (\<lambda>n_dp. opsd_update demo_worker halves n_dp (worker_forward True (echo_padded (\<lambda>ids. [0, 1])) (echo_packed (\<lambda>ids. [0, 1])))
        (worker_forward True (echo_padded (\<lambda>ids. [0, of_nat (length ids)])) (echo_packed (\<lambda>ids. [0, of_nat (length ids)])))
        [''abc''] [''a''] [''xy''] demo_tokenizer 8) = Inr ms \<and> sum_list (map num_tokens ms) = 6"
proof -
  let ?t = "\<lambda>ids :: nat list. [0, 1 :: real]" and ?s = "\<lambda>ids :: nat list. [0, of_nat (length ids) :: real]"
  have k: "kept_triples [''abc''] [''a''] [''xy''] demo_tokenizer 8 = [([7, 3], [7, 1], [2, 5, 0])]"
    by (simp add: kept_triples_def sample_triple_def demo_tokenizer_def response_tokens_def triple_fits_def pair_fits_def teacher_side_def student_side_def)
  have "models_ok 2 ?t ?s" by (simp add: models_ok_def)
  note u = opsd_update_succeeds [OF demo_prompts this _ echo_padded_causal echo_packed_causal echo_padded_causal echo_packed_causal _ _ _ _ halves_equal,
      of demo_worker 2 4 "[''abc'']" "[''a'']" "[''xy'']" 8, unfolded k]
  have "response_count (pad_to_ranks 2 [([7, 3], [7, 1], [2, 5, 0])]) = 6"
    by (simp add: pad_to_ranks_def response_count_def Let_def numeral_eq_Suc)
  moreover have "use_remove_padding demo_worker = True" "0 < micro_batch_size demo_worker" "opsd_loss_type demo_worker = ''jsd''"
    by (simp_all add: demo_worker_def)
  ultimately show ?thesis using u by auto
qed

end
