(* ===== verification/CrispFit.thy ===== *)
theory CrispFit
  imports Prelude
begin

text \<open>
  The training loop of CRISP (\<open>OPSDTrainer._create_dataloader\<close>, \<open>fit\<close> in \<open>opsd_trainer.py\<close>) as a machine on
  weight versions: the student's version counts the updates, and the rollout replicas, the teacher, the
  validations and the checkpoints each hold one of its versions.
\<close>

record fit_config =
  dataset_size :: nat
  gen_batch_size :: nat
  total_epochs :: nat
  fixed_training_steps :: "int option"
  teacher_update_freq :: nat
  test_freq :: int
  save_freq :: int
  has_validation :: bool
  val_before_train :: bool

text \<open>The number of batches of the data loader, which drops the last incomplete one.\<close>

definition batches_per_epoch :: "fit_config \<Rightarrow> nat" where
  "batches_per_epoch cfg = dataset_size cfg div gen_batch_size cfg"

definition total_training_steps :: "fit_config \<Rightarrow> int" where
  "total_training_steps cfg =
     (case fixed_training_steps cfg of None \<Rightarrow> int (batches_per_epoch cfg * total_epochs cfg) | Some n \<Rightarrow> n)"

datatype fit_event =
    Generated (at_step: nat) (in_epoch: nat) (with_version: nat)
  | Updated (at_step: nat) (with_version: nat)
  | Validated (at_step: nat) (with_version: nat)
  | Saved (at_step: nat) (with_version: nat)

record fit_state =
  global_steps :: nat
  student_version :: nat
  teacher_version :: nat
  rollout_version :: nat
  fit_trace :: "fit_event list"

definition fit_log :: "fit_event \<Rightarrow> fit_state \<Rightarrow> fit_state" where
  "fit_log e st = st\<lparr> fit_trace := fit_trace st @ [e] \<rparr>"

definition update_weights :: "fit_state \<Rightarrow> fit_state" where
  "update_weights st = st\<lparr> rollout_version := student_version st \<rparr>"

definition update_teacher_weights :: "fit_state \<Rightarrow> fit_state" where
  "update_teacher_weights st = st\<lparr> teacher_version := student_version st \<rparr>"

text \<open>One batch; the flag says that the loop returns after it.\<close>

definition fit_step :: "fit_config \<Rightarrow> nat \<Rightarrow> fit_state \<Rightarrow> fit_state \<times> bool" where
  "fit_step cfg epoch st =
     (let g = global_steps st;
          st = fit_log (Generated g epoch (rollout_version st)) st;
          st = fit_log (Updated g (teacher_version st)) (st\<lparr> student_version := student_version st + 1 \<rparr>);
          st = (if 0 < teacher_update_freq cfg \<and> g mod teacher_update_freq cfg = 0 then update_teacher_weights st else st);
          st = update_weights st;
          is_last_step = (total_training_steps cfg \<le> int g);
          is_val_step = (0 < test_freq cfg \<and> int g mod test_freq cfg = 0);
          st = (if has_validation cfg \<and> (is_val_step \<or> is_last_step) then fit_log (Validated g (rollout_version st)) st else st);
          st = (if 0 < save_freq cfg \<and> (is_last_step \<or> int g mod save_freq cfg = 0) then fit_log (Saved g (student_version st)) st else st) in
      (st\<lparr> global_steps := g + 1 \<rparr>, is_last_step))"

fun epoch_loop :: "fit_config \<Rightarrow> nat \<Rightarrow> nat \<Rightarrow> fit_state \<Rightarrow> fit_state \<times> bool" where
  "epoch_loop cfg epoch 0 st = (st, False)"
| "epoch_loop cfg epoch (Suc k) st =
     (let (st', returned) = fit_step cfg epoch st in if returned then (st', True) else epoch_loop cfg epoch k st')"

fun epochs_loop :: "fit_config \<Rightarrow> nat list \<Rightarrow> fit_state \<Rightarrow> fit_state" where
  "epochs_loop cfg [] st = st"
| "epochs_loop cfg (e # es) st =
     (let (st', returned) = epoch_loop cfg e (batches_per_epoch cfg) st in if returned then st' else epochs_loop cfg es st')"

definition fit :: "fit_config \<Rightarrow> fit_state res" where
  "fit cfg =
     (if batches_per_epoch cfg < 1 then Inl AssertionError
      else (let st = update_weights \<lparr> global_steps = 0, student_version = 0, teacher_version = 0, rollout_version = 0, fit_trace = [] \<rparr>;
                st = st\<lparr> global_steps := global_steps st + 1 \<rparr>;
                st = (if has_validation cfg \<and> val_before_train cfg then fit_log (Validated (global_steps st) (rollout_version st)) st else st) in
            Inr (epochs_loop cfg [0..<total_epochs cfg] st)))"

section \<open>The run that is promised\<close>

text \<open>
  Step \<open>i + 1\<close>: the rollouts come from the student after \<open>i\<close> updates, the teacher is the student after
  the last multiple of the frequency, and validation and checkpoint see the student after \<open>i + 1\<close> updates.
\<close>

definition promised_step :: "fit_config \<Rightarrow> nat \<Rightarrow> fit_event list" where
  "promised_step cfg i =
     [Generated (i + 1) (i div batches_per_epoch cfg) i, Updated (i + 1) (i div teacher_update_freq cfg * teacher_update_freq cfg)]
     @ (if has_validation cfg \<and> (0 < test_freq cfg \<and> int (i + 1) mod test_freq cfg = 0 \<or> total_training_steps cfg \<le> int (i + 1))
        then [Validated (i + 1) (i + 1)] else [])
     @ (if 0 < save_freq cfg \<and> (total_training_steps cfg \<le> int (i + 1) \<or> int (i + 1) mod save_freq cfg = 0)
        then [Saved (i + 1) (i + 1)] else [])"

definition promised_run :: "fit_config \<Rightarrow> nat \<Rightarrow> fit_event list" where
  "promised_run cfg n = (if has_validation cfg \<and> val_before_train cfg then [Validated 1 0] else []) @ concat (map (promised_step cfg) [0..<n])"

definition state_after :: "fit_config \<Rightarrow> nat \<Rightarrow> fit_state" where
  "state_after cfg n = \<lparr> global_steps = n + 1, student_version = n, teacher_version = n div teacher_update_freq cfg * teacher_update_freq cfg,
     rollout_version = n, fit_trace = promised_run cfg n \<rparr>"

text \<open>How many batches are trained: all of them, or as many as the total says (and at least one).\<close>

definition steps_run :: "fit_config \<Rightarrow> nat" where
  "steps_run cfg = min (total_epochs cfg * batches_per_epoch cfg) (max 1 (nat (total_training_steps cfg)))"

lemma next_multiple: "(if 0 < f \<and> Suc n mod f = 0 then Suc n else n div f * f) = Suc n div f * (f :: nat)"
proof (cases "f = 0")
  case False
  show ?thesis
  proof (cases "Suc n mod f = 0")
    case True
    then have "Suc n div f * f = Suc n" by (metis div_mult_mod_eq add_0_right)
    then show ?thesis using False True by simp
  next
    case False
    then have "Suc n div f = n div f" by (simp add: div_Suc)
    then show ?thesis using False by simp
  qed
qed simp

lemma fit_step_state:
  assumes "epoch = n div batches_per_epoch cfg"
  shows "fit_step cfg epoch (state_after cfg n) = (state_after cfg (Suc n), total_training_steps cfg \<le> int (Suc n))"
proof -
  let ?f = "teacher_update_freq cfg"
  have run: "promised_run cfg (Suc n) = promised_run cfg n @ promised_step cfg n" by (simp add: promised_run_def)
  show ?thesis
  proof (cases "0 < ?f \<and> Suc n mod ?f = 0")
    case True
    then have "Suc n div ?f * ?f = Suc n" using next_multiple [of ?f n] unfolding if_P [OF True] by metis
    then show ?thesis using True assms
      by (simp add: fit_step_def Let_def state_after_def fit_log_def update_weights_def update_teacher_weights_def run promised_step_def)
  next
    case False
    then have "Suc n div ?f * ?f = n div ?f * ?f" using next_multiple [of ?f n] unfolding if_not_P [OF False] by metis
    then have "Suc n div ?f = n div ?f" by (cases "?f = 0") simp_all
    then show ?thesis using assms
      by (simp add: False fit_step_def Let_def state_after_def fit_log_def update_weights_def run promised_step_def)
  qed
qed

lemma epoch_loop_state:
  assumes "\<And>i. n \<le> i \<Longrightarrow> i < n + k \<Longrightarrow> i div batches_per_epoch cfg = epoch" "n = 0 \<or> int n < total_training_steps cfg"
  shows "epoch_loop cfg epoch k (state_after cfg n)
    = (let j = min k (max 1 (nat (total_training_steps cfg) - n)) in
       (state_after cfg (n + j), 0 < k \<and> total_training_steps cfg \<le> int (n + k)))"
  using assms
proof (induction k arbitrary: n)
  case (Suc k)
  have e: "n div batches_per_epoch cfg = epoch" using Suc.prems(1) [of n] by simp
  show ?case
  proof (cases "total_training_steps cfg \<le> int (Suc n)")
    case True
    then have "min (Suc k) (max 1 (nat (total_training_steps cfg) - n)) = 1" by linarith
    then show ?thesis using True fit_step_state [of epoch n cfg] e by (simp add: Let_def)
  next
    case False
    have "epoch_loop cfg epoch k (state_after cfg (Suc n))
      = (let j = min k (max 1 (nat (total_training_steps cfg) - Suc n)) in
       (state_after cfg (Suc n + j), 0 < k \<and> total_training_steps cfg \<le> int (Suc n + k)))"
      using False Suc.prems(1) by (intro Suc.IH) auto
    moreover have "n + min (Suc k) (max 1 (nat (total_training_steps cfg) - n)) = Suc n + min k (max 1 (nat (total_training_steps cfg) - Suc n))"
      using False by linarith
    ultimately show ?thesis using False fit_step_state [of epoch n cfg] e by (simp add: Let_def) linarith
  qed
qed simp

lemma last_epoch_steps:
  fixes b m t total :: nat
  assumes "t \<le> m + b" "m = 0 \<or> m < t" "m + b \<le> total" "0 < b"
  shows "m + min b (max 1 (t - m)) = min total (max 1 t)"
  using assms by linarith

lemma epochs_loop_state:
  assumes "0 < batches_per_epoch cfg" "e \<le> total_epochs cfg" "e = 0 \<or> int (e * batches_per_epoch cfg) < total_training_steps cfg"
  shows "epochs_loop cfg [e..<total_epochs cfg] (state_after cfg (e * batches_per_epoch cfg)) = state_after cfg (steps_run cfg)"
  using assms(2,3)
proof (induction "total_epochs cfg - e" arbitrary: e)
  case 0
  then have "e = total_epochs cfg" by simp
  have "total_epochs cfg * batches_per_epoch cfg \<le> max 1 (nat (total_training_steps cfg))"
  proof (cases "total_epochs cfg = 0")
    case False
    then have "int (total_epochs cfg * batches_per_epoch cfg) < total_training_steps cfg" using 0(3) \<open>e = total_epochs cfg\<close> by metis
    then show ?thesis by linarith
  qed simp
  then show ?case using \<open>e = total_epochs cfg\<close> by (simp add: steps_run_def min_absorb1)
next
  case (Suc d)
  let ?b = "batches_per_epoch cfg" and ?t = "total_training_steps cfg"
  have less: "e < total_epochs cfg" using Suc.hyps(2) by simp
  have up: "[e..<total_epochs cfg] = e # [Suc e..<total_epochs cfg]" by (rule upt_conv_Cons [OF less])
  have loop: "epoch_loop cfg e ?b (state_after cfg (e * ?b))
      = (state_after cfg (e * ?b + min ?b (max 1 (nat ?t - e * ?b))), ?t \<le> int (e * ?b + ?b))"
  proof -
    have "i div ?b = e" if "e * ?b \<le> i" "i < e * ?b + ?b" for i
      using that assms(1) by (intro div_nat_eqI) (simp_all add: mult.commute)
    then show ?thesis using epoch_loop_state [of "e * ?b" ?b cfg e] Suc.prems(2) assms(1) by (auto simp: Let_def)
  qed
  have all: "e * ?b + ?b \<le> total_epochs cfg * ?b" using less mult_le_mono1 [of "Suc e" "total_epochs cfg" ?b] by simp
  show ?case
  proof (cases "?t \<le> int (e * ?b + ?b)")
    case True
    have "e * ?b + min ?b (max 1 (nat ?t - e * ?b)) = steps_run cfg"
      unfolding steps_run_def
    proof (rule last_epoch_steps)
      show "nat ?t \<le> e * ?b + ?b" using True by linarith
      show "e * ?b = 0 \<or> e * ?b < nat ?t" using Suc.prems(2) by (auto simp: zless_nat_eq_int_zless)
    qed (use all assms(1) in simp_all)
    then show ?thesis using True loop by (simp add: up)
  next
    case False
    then have "e * ?b + ?b < nat ?t" by linarith
    then have "min ?b (max 1 (nat ?t - e * ?b)) = ?b" by linarith
    then have "e * ?b + min ?b (max 1 (nat ?t - e * ?b)) = Suc e * ?b" by simp
    then have "epoch_loop cfg e ?b (state_after cfg (e * ?b)) = (state_after cfg (Suc e * ?b), False)"
      using loop False by metis
    moreover have "epochs_loop cfg [Suc e..<total_epochs cfg] (state_after cfg (Suc e * ?b)) = state_after cfg (steps_run cfg)"
      using Suc.hyps False less by (intro Suc.hyps(1)) (auto simp: add.commute)
    ultimately show ?thesis unfolding up by (simp only: epochs_loop.simps Let_def prod.case if_False)
  qed
qed

text \<open>
  C7: A run either refuses an empty data loader or ends, after exactly as many steps as its epochs and its
  total allow, with the promised events: every rollout is generated by the student of the
  previous update, the teacher moves only at the multiples of its frequency, and every due
  validation and checkpoint, those of the last step included, sees the updated student.
\<close>

theorem fit_follows_the_promise:
  "fit cfg = (if batches_per_epoch cfg = 0 then Inl AssertionError else Inr (state_after cfg (steps_run cfg)))"
proof (cases "batches_per_epoch cfg = 0")
  case False
  have "fit cfg = Inr (epochs_loop cfg [0..<total_epochs cfg] (state_after cfg (0 * batches_per_epoch cfg)))"
    using False by (simp add: fit_def Let_def state_after_def fit_log_def update_weights_def promised_run_def)
  then show ?thesis using epochs_loop_state [of cfg 0] False by simp
qed (simp add: fit_def)

end
