(* ===== verification/Spec2Isabelle.thy ===== *)
theory Spec2Isabelle
  imports DpSchedule Flops ContextParallel TokenSeq TreeSession Samples Assembly RolloutFlow Reconcile TrainGroup HealthCheck WorkerRpc WitnessIds TinkerGateway
    OpsdStudy Opsd CrispVerify CrispTrain CrispFit
begin

text \<open>
  This library verifies the control logic of the miles training framework (\<open>src/miles/miles\<close>) and
  of the CRISP self-distillation code that is built on verl (\<open>src/workspace/src\<close>).  Paths in the
  theories' own headers are relative to these two directories.

  \<^bold>\<open>How the program fits together.\<close>  A data source hands out groups of prompts; the rollout submits
  them to inference engines through chat sessions, which keep the exact tokens of a
  conversation; finished turns become training samples; the samples of a rollout are scheduled on the
  data-parallel ranks of the trainer; the trainer consists of cells that may fail and come back, watched by
  health checkers and driven by reconcile loops.  The Tinker gateway serves the same trainer to remote
  clients as a queue of commands.  CRISP is a second training program: it verifies
  answers, builds pairs of student and teacher sequences, and trains the student towards the teacher.

  \<^bold>\<open>The theories\<close>, from the bottom up.  Every state is a record with the fields of the
  source's class, every operation one definition with the name of its method; exceptions are the left
  side of a sum type (\<open>Prelude\<close>), asyncio handlers are cut at their awaits.

  \<^item> \<open>Prelude\<close>: Python's exceptions, slices, dictionaries and sorts; the locales of a state machine with
    an invariant and of one whose observations only grow, instantiated by the sessions, the trainer
    cells, the reconcile loop, the gateway and the rollout.
  \<^item> \<open>SeqLen\<close>, \<open>Flops\<close>, \<open>DpSchedule\<close> (\<open>utils/seqlen_balancing.py\<close>, \<open>utils/flops_utils.py\<close>,
    \<open>utils/dp_schedule.py\<close>): partitioners and packers, the cost estimate, the schedule of one rollout.
    The lemmas carry every sample to exactly one micro-batch of one rank, prove the token budget, and
    that planning succeeds on well-formed input.
  \<^item> \<open>Messages\<close>, \<open>Tito\<close>, \<open>RequestArgs\<close>, \<open>TokenSeq\<close> (\<open>utils/chat_template_utils\<close>,
    \<open>rollout/session/server.py\<close>): Python equality on JSON, message matching, incremental tokenization with
    its boundary rules, the constraints on requests, and the comparison of token sequences.
  \<^item> \<open>LinearSession\<close>, \<open>TreeSession\<close> (\<open>rollout/session\<close>, \<open>rollout/session/v2\<close>): the trajectory of one
    conversation and the append-only forest of generations, with handlers in two phases and arbitrary
    interleavings of requests.  The lemmas give the invariants over all reachable states, the exactness
    of the search for the attach point and that a prepared request commits.
  \<^item> \<open>SamplingMask\<close>, \<open>Samples\<close>, \<open>Assembly\<close> (\<open>utils/types.py\<close>, \<open>rollout/generate_utils\<close>,
    \<open>rollout/session/samples\<close>): masks against lists of tokens as their specification, the
    consistency of a sample under its operations, and the samples of a session's turns and leaves.
  \<^item> \<open>DataSource\<close>, \<open>RolloutGroups\<close>, \<open>RolloutFlow\<close> (\<open>rollout/data_source.py\<close>, \<open>rollout/filter_hub\<close>,
    \<open>rollout/submission_scheduler.py\<close>, \<open>rollout/fully_async_data_buffer.py\<close>,
    \<open>rollout/fully_async_rollout.py\<close>): the epochs of prompts, the filters of finished groups, and the fully
    asynchronous rollout as one machine of a producer, its tasks and a consumer.  The lemmas conserve every
    group over all interleavings, bound what is in flight, and exclude deadlock and lost wakeups.
  \<^item> \<open>ContextParallel\<close> (\<open>backends/training_utils/data/context_parallel.py\<close>): the zigzag chunks of a sequence on the
    ranks of a context-parallel group; slicing and gathering are inverse, and the sums of means do not depend on the group.
  \<^item> \<open>Reconcile\<close>, \<open>TrainCells\<close>, \<open>TrainGroup\<close>, \<open>HealthCheck\<close>, \<open>WitnessIds\<close> (\<open>utils/workers/reconcile\<close>, \<open>utils/ft_utils\<close>,
    \<open>ray/train\<close>): the reconcile loop of watched objects; the states of a trainer cell and its coroutines as lists of
    operations; the controller of the cells as a machine cut at every await, in which the watch adds and removes cells while an
    initialisation, a regrouping or a training attempt waits for its workers; health verdicts, audit ids.
  \<^item> \<open>WorkerRpc\<close> (\<open>utils/workers/rpc\<close>): remote calls over a network that loses requests and answers, to a server
    that may restart: each call is executed at most once, and its answer is that execution's outcome.
  \<^item> \<open>TinkerQueue\<close>, \<open>TinkerService\<close>, \<open>TinkerInvariants\<close>, \<open>TinkerRequests\<close>, \<open>TinkerGateway\<close> (\<open>tinker\<close>): commands and
    their scheduler, the tables of the service, its invariant, the handlers of requests and
    the composed gateway as a step machine.
  \<^item> \<open>Opsd\<close>, \<open>OpsdStudy\<close> (\<open>utils/opsd_cyclic.py\<close>, \<open>utils/opsd_arguments.py\<close>, \<open>utils/opsd_study.py\<close>,
    \<open>tools/opsd/math_phase_protocol.py\<close>): the alternating schedule, its run by the actor, and the study.
  \<^item> \<open>CrispVerify\<close> (\<open>self_distill_hybrid/sd_verifier.py\<close>, \<open>rewards/dual_path_math_verify.py\<close>), \<open>CrispBatch\<close>
    (\<open>sd_verifier.py\<close> and the forward passes of \<open>opsd_worker.py\<close>), \<open>CrispLoss\<close> (the losses of
    \<open>opsd_worker.py\<close>), \<open>CrispTrain\<close> (the worker's step and \<open>_opsd_update\<close> of \<open>opsd_trainer.py\<close>),
    \<open>CrispFit\<close> (\<open>fit\<close>): verdicts, aligned logits, losses against
    their textbook definitions, the padded update and the order of versions in the training loop.

  \<^bold>\<open>Bounds and fuel.\<close>  Walks to the root of a session tree take as fuel the number of its nodes; parents
  come before children, so the fuel suffices.  The retried training step is a state of its machine that counts attempts up to
  the 30 of the source.  The search of a session tree for the node to attach to is a \<open>partial_function\<close>, proved to
  return.  All other recursions terminate by their data.

  \<^bold>\<open>Assumptions.\<close>  Floats are reals (rounding is not modelled) and integers are unbounded as in Python.
  Texts are lists of characters below 256.  \<open>uuid4\<close> is a counter.  Code between two awaits is atomic, as
  asyncio guarantees.  Tokenizers, chat templates, renderers, \<open>math_verify\<close> and the models are parameters; that
  a model is causal (and unaffected by masked padding) is a hypothesis of the alignment of logits.  The gateway's
  events assume a living trainer whose answers are complete and sampling tasks that end within the
  retention of their future.  The cells of the trainer have distinct indices by their ids.  That verl's dispatcher cuts a
  batch into equal chunks along the data-parallel axis of its mesh is a hypothesis of the update.  The field \<open>history\<close> of the
  gateway and the logs of answers of the trainer are ghosts: no operation reads them.

  \<^bold>\<open>Not modelled.\<close>  The tensor code (kernels, quantisation, Megatron and FSDP backends, the policy-loss
  hub), since it computes with GPU libraries; checkpoint converters, which rename tensors; the argument parsers and
  launchers, which are declarations of options; the dashboard, Kubernetes and HTTP adapters, continuous
  integration scripts and pandas pipelines, which are input and output; test utilities.  Within modelled
  parts: log lines and metrics, serialisation to dictionaries, device placement, clocks other than
  as arguments, gradients and optimizer steps, and the loose tool-call matcher.
\<close>

end
